(* ===== verification/Prelude.thy ===== *)
theory Prelude
  imports Main "HOL-Library.Word"
begin

text \<open>
  Shared vocabulary of the development: the machine types of the 32-bit target, the error
  codes of \<^verbatim>\<open>include/rtdef.h\<close>, bulk copies into byte arrays, and generic lemmas on
  lists and linked chains that several components use. The collection \<open>rt_defs\<close> gathers the unfolding
  equations of small accessors, the collection \<open>rt_inv\<close> the preservation lemmas of the
  component invariants.
\<close>

unbundle bit_operations_syntax

named_theorems rt_defs \<open>definitions that component proofs unfold\<close>
named_theorems rt_inv \<open>operations keep the invariant of their component\<close>

type_synonym u8 = "8 word"
type_synonym u16 = "16 word"
type_synonym u32 = "32 word"

section \<open>Error codes\<close>

text \<open>
  \<^verbatim>\<open>rt_err_t\<close> is a signed integer; functions return the negated codes. The numbers are
  those of \<^verbatim>\<open>rtdef.h\<close>.
\<close>

type_synonym rt_err_t = int

abbreviation (input) RT_EOK :: rt_err_t where "RT_EOK \<equiv> 0"
abbreviation (input) RT_ERROR :: rt_err_t where "RT_ERROR \<equiv> 1"
abbreviation (input) RT_ETIMEOUT :: rt_err_t where "RT_ETIMEOUT \<equiv> 2"
abbreviation (input) RT_EFULL :: rt_err_t where "RT_EFULL \<equiv> 3"
abbreviation (input) RT_EEMPTY :: rt_err_t where "RT_EEMPTY \<equiv> 4"
abbreviation (input) RT_ENOMEM :: rt_err_t where "RT_ENOMEM \<equiv> 5"
abbreviation (input) RT_ENOSYS :: rt_err_t where "RT_ENOSYS \<equiv> 6"
abbreviation (input) RT_EBUSY :: rt_err_t where "RT_EBUSY \<equiv> 7"
abbreviation (input) RT_EIO :: rt_err_t where "RT_EIO \<equiv> 8"
abbreviation (input) RT_EINTR :: rt_err_t where "RT_EINTR \<equiv> 9"
abbreviation (input) RT_EINVAL :: rt_err_t where "RT_EINVAL \<equiv> 10"
abbreviation (input) RT_ENOENT :: rt_err_t where "RT_ENOENT \<equiv> 11"
abbreviation (input) RT_ENOSPC :: rt_err_t where "RT_ENOSPC \<equiv> 12"
abbreviation (input) RT_EPERM :: rt_err_t where "RT_EPERM \<equiv> 13"
abbreviation (input) RT_ETRAP :: rt_err_t where "RT_ETRAP \<equiv> 14"
abbreviation (input) RT_EFAULT :: rt_err_t where "RT_EFAULT \<equiv> 15"
abbreviation (input) RT_ENOBUFS :: rt_err_t where "RT_ENOBUFS \<equiv> 16"
abbreviation (input) RT_ESCHEDISR :: rt_err_t where "RT_ESCHEDISR \<equiv> 17"
abbreviation (input) RT_ESCHEDLOCKED :: rt_err_t where "RT_ESCHEDLOCKED \<equiv> 18"

section \<open>Alignment\<close>

text \<open>
  The alignment macros of \<^verbatim>\<open>rtdef.h\<close> on 32-bit unsigned values, with the mask
  arithmetic of the source.
\<close>

definition RT_ALIGN :: "u32 \<Rightarrow> u32 \<Rightarrow> u32" where
  "RT_ALIGN sz align = (sz + align - 1) AND NOT (align - 1)"

definition RT_ALIGN_DOWN :: "u32 \<Rightarrow> u32 \<Rightarrow> u32" where
  "RT_ALIGN_DOWN sz align = sz AND NOT (align - 1)"

lemma and_not_mask_push: "(w :: u32) AND NOT (mask n) = push_bit n (drop_bit n w)"
  by (rule bit_word_eqI) (auto simp: bit_simps)

lemma unat_take_bit_32 [simp]: "take_bit 32 (unat (w :: u32)) = unat w"
  using unsigned_less [where ?'a = nat, of w] by (simp add: take_bit_eq_mod)

lemma unat_and_not_mask:
  "unat ((w :: u32) AND NOT (mask n)) = unat w div 2 ^ n * 2 ^ n"
proof -
  have "unat (push_bit n (drop_bit n w)) = take_bit 32 (push_bit n (drop_bit n (unat w)))"
    by (simp add: unsigned_push_bit_eq unsigned_drop_bit_eq)
  also have "\<dots> = (unat w div 2 ^ n * 2 ^ n) mod 2 ^ 32"
    by (simp add: take_bit_eq_mod push_bit_eq_mult drop_bit_eq_div)
  also have "\<dots> = unat w div 2 ^ n * 2 ^ n"
  proof (rule mod_less)
    have "unat w div 2 ^ n * 2 ^ n \<le> unat w" by simp
    also have "unat w < 2 ^ 32" using unsigned_less [where ?'a = nat, of w] by simp
    finally show "unat w div 2 ^ n * 2 ^ n < (2::nat) ^ 32" .
  qed
  finally show ?thesis by (simp add: and_not_mask_push)
qed

lemma mask_3_u32: "(7 :: u32) = mask 3"
  by (simp add: mask_eq_exp_minus_1)

lemma align_down_8: "unat (RT_ALIGN_DOWN w 8) = unat w div 8 * 8"
  using unat_and_not_mask [of w 3] by (simp add: RT_ALIGN_DOWN_def mask_3_u32)

section \<open>Arrays\<close>

text \<open>
  \<open>blit xs i ys\<close> is the array \<open>xs\<close> after \<^verbatim>\<open>rt_memcpy(&xs[i], ys, length ys)\<close>.
\<close>

definition blit :: "'a list \<Rightarrow> nat \<Rightarrow> 'a list \<Rightarrow> 'a list" where
  "blit xs i ys = take i xs @ ys @ drop (i + length ys) xs"

definition chunk :: "'a list \<Rightarrow> nat \<Rightarrow> nat \<Rightarrow> 'a list" where
  "chunk xs i n = take n (drop i xs)"

lemma length_blit [simp]:
  "i + length ys \<le> length xs \<Longrightarrow> length (blit xs i ys) = length xs"
  by (simp add: blit_def)

lemma blit_Nil [simp]: "blit xs i [] = xs"
  by (simp add: blit_def)

lemma nth_blit:
  "i + length ys \<le> length xs \<Longrightarrow> j < length xs \<Longrightarrow>
   blit xs i ys ! j = (if i \<le> j \<and> j < i + length ys then ys ! (j - i) else xs ! j)"
  by (auto simp: blit_def nth_append min_def)

lemma length_chunk [simp]: "i + n \<le> length xs \<Longrightarrow> length (chunk xs i n) = n"
  by (simp add: chunk_def)

lemma nth_chunk [simp]: "i + n \<le> length xs \<Longrightarrow> j < n \<Longrightarrow> chunk xs i n ! j = xs ! (i + j)"
  by (simp add: chunk_def)

lemma chunk_0 [simp]: "chunk xs i 0 = []"
  by (simp add: chunk_def)

section \<open>Lists\<close>

definition last_n :: "nat \<Rightarrow> 'a list \<Rightarrow> 'a list" where
  "last_n n xs = drop (length xs - n) xs"

lemma length_last_n [simp]: "length (last_n n xs) = min n (length xs)"
  by (simp add: last_n_def)

lemma last_n_all: "length xs \<le> n \<Longrightarrow> last_n n xs = xs"
  by (simp add: last_n_def)

lemma nth_last_n: "i < min n (length xs) \<Longrightarrow> last_n n xs ! i = xs ! (length xs - n + i)"
  by (simp add: last_n_def)

section \<open>Chains\<close>

text \<open>
  Linked structures in numbered slots: \<open>chain nx p xs\<close> says that the pointer \<open>p\<close> starts a
  null-terminated chain of \<^verbatim>\<open>next\<close> pointers through the slots \<open>xs\<close>; \<open>slots\<close> reads the chain off.
\<close>

primrec chain :: "(nat \<Rightarrow> nat option) \<Rightarrow> nat option \<Rightarrow> nat list \<Rightarrow> bool" where
  "chain nx p [] \<longleftrightarrow> p = None"
| "chain nx p (x # xs) \<longleftrightarrow> p = Some x \<and> chain nx (nx x) xs"

primrec slots :: "nat \<Rightarrow> (nat \<Rightarrow> nat option) \<Rightarrow> nat option \<Rightarrow> nat list" where
  "slots 0 nx p = []"
| "slots (Suc n) nx p = (case p of None \<Rightarrow> [] | Some x \<Rightarrow> x # slots n nx (nx x))"

lemma chain_slots: "chain nx p xs \<Longrightarrow> length xs \<le> n \<Longrightarrow> slots n nx p = xs"
proof (induction xs arbitrary: n p)
  case Nil
  then show ?case by (cases n) simp_all
next
  case (Cons x xs)
  then show ?case by (cases n) simp_all
qed

lemma chain_upd [simp]: "x \<notin> set xs \<Longrightarrow> chain (nx(x := v)) p xs = chain nx p xs"
  by (induction xs arbitrary: p) auto

lemma chain_None: "chain nx None xs \<longleftrightarrow> xs = []"
  by (cases xs) simp_all

lemma chain_append:
  "chain nx p (xs @ [x]) \<Longrightarrow> distinct (xs @ [x]) \<Longrightarrow> y \<notin> set (xs @ [x]) \<Longrightarrow> nx y = None \<Longrightarrow>
   chain (nx(x := Some y)) p (xs @ [x, y])"
proof (induction xs arbitrary: p)
  case Nil
  then show ?case by simp
next
  case (Cons z zs)
  then show ?case by simp
qed

end
