(* ===== verification/RingBuffer.thy ===== *)
theory RingBuffer
  imports Prelude
begin

text \<open>
  The byte ring buffer of \<^verbatim>\<open>components/drivers/ipc/ringbuffer.c\<close>. The buffer keeps a read
  and a write index, each with a mirror bit that tells an empty buffer from a full one.
  Indices are natural numbers: the invariant \<open>rb_wf\<close> bounds them by the buffer size, which
  is below \<open>2 ^ 31\<close>, so the 31-bit fields of the source never truncate. The abstraction
  \<open>rb_abs\<close> reads the stored bytes, oldest first; the last section states the contract of a
  bounded byte queue as a locale and interprets it on these operations.
\<close>

section \<open>State and operations\<close>

record rt_ringbuffer =
  buffer_ptr :: "u8 list"
  read_mirror :: bool
  read_index :: nat
  write_mirror :: bool
  write_index :: nat
  buffer_size :: nat

datatype rt_ringbuffer_state =
  RT_RINGBUFFER_EMPTY | RT_RINGBUFFER_FULL | RT_RINGBUFFER_HALFFULL

definition rt_ringbuffer_status :: "rt_ringbuffer \<Rightarrow> rt_ringbuffer_state" where
  "rt_ringbuffer_status rb =
     (if read_index rb = write_index rb
      then (if read_mirror rb = write_mirror rb then RT_RINGBUFFER_EMPTY else RT_RINGBUFFER_FULL)
      else RT_RINGBUFFER_HALFFULL)"

text \<open>\<open>None\<close> is the failed assertion \<^verbatim>\<open>size > 0\<close>; \<open>size\<close> is a positive signed 32-bit value.\<close>

definition rt_ringbuffer_init :: "u8 list \<Rightarrow> nat \<Rightarrow> rt_ringbuffer option" where
  "rt_ringbuffer_init pool sz =
     (if sz > 0
      then Some \<lparr>buffer_ptr = pool, read_mirror = False, read_index = 0,
                 write_mirror = False, write_index = 0,
                 buffer_size = unat (RT_ALIGN_DOWN (of_nat sz) 8)\<rparr>
      else None)"

definition rt_ringbuffer_data_len :: "rt_ringbuffer \<Rightarrow> nat" where
  "rt_ringbuffer_data_len rb =
     (case rt_ringbuffer_status rb of
        RT_RINGBUFFER_EMPTY \<Rightarrow> 0
      | RT_RINGBUFFER_FULL \<Rightarrow> buffer_size rb
      | RT_RINGBUFFER_HALFFULL \<Rightarrow>
          (let wi = write_index rb; ri = read_index rb
           in if wi > ri then wi - ri else buffer_size rb - (ri - wi)))"

definition rt_ringbuffer_get_size :: "rt_ringbuffer \<Rightarrow> nat" where
  "rt_ringbuffer_get_size rb = buffer_size rb"

definition rt_ringbuffer_space_len :: "rt_ringbuffer \<Rightarrow> nat" where
  "rt_ringbuffer_space_len rb = buffer_size rb - rt_ringbuffer_data_len rb"

text \<open>The caller's data block is a byte list; its length is the \<^verbatim>\<open>length\<close> argument.\<close>

definition rt_ringbuffer_put :: "rt_ringbuffer \<Rightarrow> u8 list \<Rightarrow> nat \<times> rt_ringbuffer" where
  "rt_ringbuffer_put rb ptr =
     (let size = rt_ringbuffer_space_len rb in
      if size = 0 then (0, rb)
      else let len = (if size < length ptr then size else length ptr) in
        if buffer_size rb - write_index rb > len
        then (len, rb\<lparr>buffer_ptr := blit (buffer_ptr rb) (write_index rb) (take len ptr),
                      write_index := write_index rb + len\<rparr>)
        else let n = buffer_size rb - write_index rb in
             (len, rb\<lparr>buffer_ptr :=
                        blit (blit (buffer_ptr rb) (write_index rb) (take n ptr)) 0 (chunk ptr n (len - n)),
                      write_mirror := \<not> write_mirror rb,
                      write_index := len - n\<rparr>))"

definition rt_ringbuffer_put_force :: "rt_ringbuffer \<Rightarrow> u8 list \<Rightarrow> nat \<times> rt_ringbuffer" where
  "rt_ringbuffer_put_force rb ptr0 =
     (let space_length = rt_ringbuffer_space_len rb;
          ptr = (if length ptr0 > buffer_size rb then drop (length ptr0 - buffer_size rb) ptr0 else ptr0);
          len = (if length ptr0 > buffer_size rb then buffer_size rb else length ptr0) in
      if buffer_size rb - write_index rb > len
      then let rb1 = rb\<lparr>buffer_ptr := blit (buffer_ptr rb) (write_index rb) (take len ptr),
                        write_index := write_index rb + len\<rparr>
           in (len, if len > space_length then rb1\<lparr>read_index := write_index rb1\<rparr> else rb1)
      else let n = buffer_size rb - write_index rb;
               rb1 = rb\<lparr>buffer_ptr :=
                          blit (blit (buffer_ptr rb) (write_index rb) (take n ptr)) 0 (chunk ptr n (len - n)),
                        write_mirror := \<not> write_mirror rb,
                        write_index := len - n\<rparr>
           in (len,
               if len > space_length
               then (let rb2 = (if write_index rb1 \<le> read_index rb1
                                then rb1\<lparr>read_mirror := \<not> read_mirror rb1\<rparr> else rb1)
                     in rb2\<lparr>read_index := write_index rb2\<rparr>)
               else rb1))"

text \<open>The result holds the returned size, the bytes stored at \<^verbatim>\<open>ptr\<close> and the new buffer.\<close>

definition rt_ringbuffer_get :: "rt_ringbuffer \<Rightarrow> nat \<Rightarrow> nat \<times> u8 list \<times> rt_ringbuffer" where
  "rt_ringbuffer_get rb length0 =
     (let size = rt_ringbuffer_data_len rb in
      if size = 0 then (0, [], rb)
      else let len = (if size < length0 then size else length0) in
        if buffer_size rb - read_index rb > len
        then (len, chunk (buffer_ptr rb) (read_index rb) len,
              rb\<lparr>read_index := read_index rb + len\<rparr>)
        else let n = buffer_size rb - read_index rb in
             (len, chunk (buffer_ptr rb) (read_index rb) n @ chunk (buffer_ptr rb) 0 (len - n),
              rb\<lparr>read_mirror := \<not> read_mirror rb, read_index := len - n\<rparr>))"

text \<open>\<^verbatim>\<open>*ptr\<close> becomes a position of the pool, \<open>None\<close> for the null pointer.\<close>

definition rt_ringbuffer_peek :: "rt_ringbuffer \<Rightarrow> nat \<times> nat option \<times> rt_ringbuffer" where
  "rt_ringbuffer_peek rb =
     (let size = rt_ringbuffer_data_len rb in
      if size = 0 then (0, None, rb)
      else if buffer_size rb - read_index rb > size
           then (size, Some (read_index rb), rb\<lparr>read_index := read_index rb + size\<rparr>)
           else (buffer_size rb - read_index rb, Some (read_index rb),
                 rb\<lparr>read_mirror := \<not> read_mirror rb, read_index := 0\<rparr>))"

definition rt_ringbuffer_putchar :: "rt_ringbuffer \<Rightarrow> u8 \<Rightarrow> nat \<times> rt_ringbuffer" where
  "rt_ringbuffer_putchar rb ch =
     (if rt_ringbuffer_space_len rb = 0 then (0, rb)
      else let rb1 = rb\<lparr>buffer_ptr := (buffer_ptr rb)[write_index rb := ch]\<rparr> in
        (1, if Suc (write_index rb1) = buffer_size rb1
            then rb1\<lparr>write_mirror := \<not> write_mirror rb1, write_index := 0\<rparr>
            else rb1\<lparr>write_index := write_index rb1 + 1\<rparr>))"

definition rt_ringbuffer_putchar_force :: "rt_ringbuffer \<Rightarrow> u8 \<Rightarrow> nat \<times> rt_ringbuffer" where
  "rt_ringbuffer_putchar_force rb ch =
     (let old_state = rt_ringbuffer_status rb;
          rb1 = rb\<lparr>buffer_ptr := (buffer_ptr rb)[write_index rb := ch]\<rparr> in
      (1, if Suc (write_index rb1) = buffer_size rb1
          then (let rb2 = rb1\<lparr>write_mirror := \<not> write_mirror rb1, write_index := 0\<rparr>
                in if old_state = RT_RINGBUFFER_FULL
                   then rb2\<lparr>read_mirror := \<not> read_mirror rb2, read_index := write_index rb2\<rparr>
                   else rb2)
          else (let rb2 = rb1\<lparr>write_index := write_index rb1 + 1\<rparr>
                in if old_state = RT_RINGBUFFER_FULL
                   then rb2\<lparr>read_index := write_index rb2\<rparr>
                   else rb2)))"

text \<open>\<open>Some ch\<close> is the byte stored through the pointer (return value 1), \<open>None\<close> the return value 0.\<close>

definition rt_ringbuffer_getchar :: "rt_ringbuffer \<Rightarrow> u8 option \<times> rt_ringbuffer" where
  "rt_ringbuffer_getchar rb =
     (if rt_ringbuffer_data_len rb = 0 then (None, rb)
      else (Some (buffer_ptr rb ! read_index rb),
            if Suc (read_index rb) = buffer_size rb
            then rb\<lparr>read_mirror := \<not> read_mirror rb, read_index := 0\<rparr>
            else rb\<lparr>read_index := read_index rb + 1\<rparr>))"

definition rt_ringbuffer_reset :: "rt_ringbuffer \<Rightarrow> rt_ringbuffer" where
  "rt_ringbuffer_reset rb =
     rb\<lparr>read_mirror := False, read_index := 0, write_mirror := False, write_index := 0\<rparr>"

text \<open>
  \<open>rb_mem\<close> tells whether the allocator returned memory for the control block, \<open>pool_mem\<close> is
  the block it returned for the pool, if any. The outer \<open>None\<close> is the failed assertion, the
  inner one the null pointer.
\<close>

definition rt_ringbuffer_create ::
  "bool \<Rightarrow> (nat \<Rightarrow> u8 list option) \<Rightarrow> nat \<Rightarrow> rt_ringbuffer option option" where
  "rt_ringbuffer_create rb_mem pool_mem size0 =
     (if size0 > 0
      then (let size = unat (RT_ALIGN_DOWN (of_nat size0) 8) in
            if \<not> rb_mem then Some None
            else case pool_mem size of
                   None \<Rightarrow> Some None
                 | Some pool \<Rightarrow>
                     (case rt_ringbuffer_init pool size of None \<Rightarrow> None | Some rb \<Rightarrow> Some (Some rb)))
      else None)"

section \<open>Invariant and abstraction\<close>

definition rb_wf :: "rt_ringbuffer \<Rightarrow> bool" where
  "rb_wf rb \<longleftrightarrow>
     0 < buffer_size rb \<and> buffer_size rb < 2 ^ 31 \<and> buffer_size rb \<le> length (buffer_ptr rb) \<and>
     read_index rb < buffer_size rb \<and> write_index rb < buffer_size rb \<and>
     (read_mirror rb = write_mirror rb \<longrightarrow> read_index rb \<le> write_index rb) \<and>
     (read_mirror rb \<noteq> write_mirror rb \<longrightarrow> write_index rb \<le> read_index rb)"

definition rb_pos :: "rt_ringbuffer \<Rightarrow> nat \<Rightarrow> nat" where
  "rb_pos rb i = (if read_index rb + i < buffer_size rb then read_index rb + i
                  else read_index rb + i - buffer_size rb)"

definition rb_abs :: "rt_ringbuffer \<Rightarrow> u8 list" where
  "rb_abs rb = map (\<lambda>i. buffer_ptr rb ! rb_pos rb i) [0..<rt_ringbuffer_data_len rb]"


lemma data_len_wf:
  "rb_wf rb \<Longrightarrow> rt_ringbuffer_data_len rb =
     (if read_mirror rb = write_mirror rb then write_index rb - read_index rb
      else buffer_size rb - (read_index rb - write_index rb))"
  by (auto simp: rb_wf_def rt_ringbuffer_data_len_def rt_ringbuffer_status_def Let_def)

lemma data_len_le: "rb_wf rb \<Longrightarrow> rt_ringbuffer_data_len rb \<le> buffer_size rb"
  by (auto simp: data_len_wf rb_wf_def)

lemma length_rb_abs [simp]: "length (rb_abs rb) = rt_ringbuffer_data_len rb"
  by (simp add: rb_abs_def)

lemma nth_rb_abs: "i < rt_ringbuffer_data_len rb \<Longrightarrow> rb_abs rb ! i = buffer_ptr rb ! rb_pos rb i"
  by (simp add: rb_abs_def)

lemma rb_abs_eqI:
  assumes "rt_ringbuffer_data_len rb = length xs"
    and "\<And>i. i < length xs \<Longrightarrow> buffer_ptr rb ! rb_pos rb i = xs ! i"
  shows "rb_abs rb = xs"
  using assms by (auto intro!: nth_equalityI simp: nth_rb_abs)

lemma status_full_iff:
  "rb_wf rb \<Longrightarrow> rt_ringbuffer_status rb = RT_RINGBUFFER_FULL \<longleftrightarrow>
     rt_ringbuffer_data_len rb = buffer_size rb"
  by (auto simp: data_len_wf rt_ringbuffer_status_def rb_wf_def)

section \<open>Reading\<close>

lemma getchar_empty:
  "rt_ringbuffer_data_len rb = 0 \<Longrightarrow> rt_ringbuffer_getchar rb = (None, rb)"
  by (simp add: rt_ringbuffer_getchar_def)

text \<open>
  The three ways a block read goes: nothing stored, a read that stays inside the current
  mirror, and a read that crosses into the other one.
\<close>

lemma get_cases:
  assumes "rb_wf rb" and "rt_ringbuffer_get rb n = (r, bs, rb')"
  obtains (none) "rt_ringbuffer_data_len rb = 0" "r = 0" "bs = []" "rb' = rb"
  | (straight) "r = min n (rt_ringbuffer_data_len rb)" "read_index rb + r < buffer_size rb"
      "bs = chunk (buffer_ptr rb) (read_index rb) r" "rb' = rb\<lparr>read_index := read_index rb + r\<rparr>"
  | (wrap) "r = min n (rt_ringbuffer_data_len rb)" "buffer_size rb \<le> read_index rb + r"
      "bs = chunk (buffer_ptr rb) (read_index rb) (buffer_size rb - read_index rb) @
            chunk (buffer_ptr rb) 0 (read_index rb + r - buffer_size rb)"
      "rb' = rb\<lparr>read_mirror := \<not> read_mirror rb, read_index := read_index rb + r - buffer_size rb\<rparr>"
proof -
  have b: "read_index rb < buffer_size rb" using assms(1) by (simp add: rb_wf_def)
  define m where "m = min n (rt_ringbuffer_data_len rb)"
  have m: "(if rt_ringbuffer_data_len rb < n then rt_ringbuffer_data_len rb else n) = m"
    by (simp add: m_def)
  have e: "m - (buffer_size rb - read_index rb) = read_index rb + m - buffer_size rb"
    using b by simp
  consider "rt_ringbuffer_data_len rb = 0" | "rt_ringbuffer_data_len rb > 0" "m < buffer_size rb - read_index rb"
    | "rt_ringbuffer_data_len rb > 0" "\<not> m < buffer_size rb - read_index rb" by blast
  then show thesis
  proof cases
    case 1
    then have "r = 0 \<and> bs = [] \<and> rb' = rb" using assms(2) by (simp add: rt_ringbuffer_get_def)
    with 1 none show ?thesis by blast
  next
    case 2
    then have "r = m \<and> bs = chunk (buffer_ptr rb) (read_index rb) m \<and>
        rb' = rb\<lparr>read_index := read_index rb + m\<rparr>"
      using assms(2) by (auto simp: rt_ringbuffer_get_def m)
    moreover have "read_index rb + m < buffer_size rb" using 2 by simp
    ultimately show ?thesis using straight by (auto simp: m_def)
  next
    case 3
    then have "r = m \<and>
        bs = chunk (buffer_ptr rb) (read_index rb) (buffer_size rb - read_index rb) @
             chunk (buffer_ptr rb) 0 (read_index rb + m - buffer_size rb) \<and>
        rb' = rb\<lparr>read_mirror := \<not> read_mirror rb, read_index := read_index rb + m - buffer_size rb\<rparr>"
      using assms(2) by (auto simp: rt_ringbuffer_get_def m Let_def e)
    moreover have "buffer_size rb \<le> read_index rb + m" using 3 by simp
    ultimately show ?thesis using wrap by (auto simp: m_def)
  qed
qed

lemma get_len: "rb_wf rb \<Longrightarrow> rt_ringbuffer_get rb n = (r, bs, rb') \<Longrightarrow>
    r = min n (rt_ringbuffer_data_len rb)"
  by (erule (1) get_cases) simp_all

lemma get_step:
  assumes "rb_wf rb" and "rt_ringbuffer_get rb n = (r, bs, rb')"
  shows "rb_wf rb' \<and> rt_ringbuffer_data_len rb' = rt_ringbuffer_data_len rb - r"
proof -
  have w: "0 < buffer_size rb" "buffer_size rb < 2 ^ 31" "buffer_size rb \<le> length (buffer_ptr rb)"
      "read_index rb < buffer_size rb" "write_index rb < buffer_size rb"
      "read_mirror rb = write_mirror rb \<Longrightarrow> read_index rb \<le> write_index rb"
      "read_mirror rb \<noteq> write_mirror rb \<Longrightarrow> write_index rb \<le> read_index rb"
    using assms(1) by (simp_all add: rb_wf_def)
  have d: "rt_ringbuffer_data_len rb =
      (if read_mirror rb = write_mirror rb then write_index rb - read_index rb
       else buffer_size rb - (read_index rb - write_index rb))"
    using assms(1) by (rule data_len_wf)
  have r: "r \<le> rt_ringbuffer_data_len rb" using get_len [OF assms] by simp
  from assms show ?thesis
  proof (cases rule: get_cases)
    case none
    with assms(1) show ?thesis by simp
  next
    case straight
    have "rb_wf rb'"
      using w r straight(2,4) unfolding d rb_wf_def
      by (cases "read_mirror rb = write_mirror rb") simp_all
    then show ?thesis
      using w r straight(2,4) unfolding d
      by (cases "read_mirror rb = write_mirror rb") (simp_all add: data_len_wf)
  next
    case wrap
    have m: "read_mirror rb \<noteq> write_mirror rb"
    proof
      assume "read_mirror rb = write_mirror rb"
      with w r wrap(2) show False unfolding d by simp
    qed
    have wr: "write_index rb \<le> read_index rb" using m by (rule w(7))
    with r m have "read_index rb + r \<le> buffer_size rb + write_index rb"
      unfolding d using w(4) by simp
    then have le: "read_index rb + r - buffer_size rb \<le> write_index rb" by simp
    then have "rb_wf rb'" using w m wrap(4) unfolding rb_wf_def by simp
    then show ?thesis using w wr r le m wrap(2,4) unfolding d by (simp add: data_len_wf)
  qed
qed

lemma get_wf [rt_inv]:
  "rb_wf rb \<Longrightarrow> rt_ringbuffer_get rb n = (r, bs, rb') \<Longrightarrow> rb_wf rb'"
  using get_step by blast

lemma get_data_len:
  "rb_wf rb \<Longrightarrow> rt_ringbuffer_get rb n = (r, bs, rb') \<Longrightarrow>
     rt_ringbuffer_data_len rb' = rt_ringbuffer_data_len rb - n"
  using get_step get_len by (metis diff_diff_cancel diff_is_0_eq min_def nle_le)

lemma get_bytes:
  assumes "rb_wf rb" and "rt_ringbuffer_get rb n = (r, bs, rb')"
  shows "bs = take n (rb_abs rb)"
proof (rule nth_equalityI)
  have d: "rt_ringbuffer_data_len rb \<le> buffer_size rb" using assms(1) by (rule data_len_le)
  have b: "buffer_size rb \<le> length (buffer_ptr rb)" "read_index rb < buffer_size rb"
    using assms(1) by (auto simp: rb_wf_def)
  from assms show l: "length bs = length (take n (rb_abs rb))"
    by (cases rule: get_cases) (use b d in auto)
  fix i assume i: "i < length bs"
  with l have "i < n" "i < rt_ringbuffer_data_len rb" by auto
  with assms show "bs ! i = take n (rb_abs rb) ! i"
    by (cases rule: get_cases)
      (use b d in \<open>auto simp: nth_append nth_rb_abs rb_pos_def ac_simps\<close>)
qed

lemma get_abs:
  assumes "rb_wf rb" and "rt_ringbuffer_get rb n = (r, bs, rb')"
  shows "rb_abs rb' = drop n (rb_abs rb)"
proof (rule rb_abs_eqI)
  show "rt_ringbuffer_data_len rb' = length (drop n (rb_abs rb))"
    using get_data_len [OF assms] by simp
  fix i assume i: "i < length (drop n (rb_abs rb))"
  have b: "read_index rb < buffer_size rb" "rt_ringbuffer_data_len rb \<le> buffer_size rb"
    using assms(1) data_len_le by (auto simp: rb_wf_def)
  from assms show "buffer_ptr rb' ! rb_pos rb' i = drop n (rb_abs rb) ! i"
    by (cases rule: get_cases)
      (use b i in \<open>auto simp: nth_rb_abs rb_pos_def ac_simps\<close>)
qed

lemma getchar_get:
  assumes "rb_wf rb" and "rt_ringbuffer_data_len rb > 0"
  shows "\<exists>ch rb'. rt_ringbuffer_getchar rb = (Some ch, rb') \<and> rt_ringbuffer_get rb 1 = (1, [ch], rb')"
proof -
  have b: "read_index rb < buffer_size rb" "buffer_size rb \<le> length (buffer_ptr rb)"
    using assms(1) by (auto simp: rb_wf_def)
  then have c: "chunk (buffer_ptr rb) (read_index rb) (Suc 0) = [buffer_ptr rb ! read_index rb]"
    by (simp add: chunk_def take_Suc_conv_app_nth)
  show ?thesis
  proof (cases "Suc (read_index rb) = buffer_size rb")
    case True
    then have "buffer_size rb - read_index rb = Suc 0" by simp
    with True assms(2) c show ?thesis
      by (auto simp: rt_ringbuffer_getchar_def rt_ringbuffer_get_def Let_def)
  next
    case False
    with b have "Suc 0 < buffer_size rb - read_index rb" by simp
    with False assms(2) c show ?thesis
      by (auto simp: rt_ringbuffer_getchar_def rt_ringbuffer_get_def Let_def)
  qed
qed

text \<open>Reading one byte is the head of the stored sequence.\<close>

lemma getchar_abs:
  assumes "rb_wf rb"
  shows "case rb_abs rb of
           [] \<Rightarrow> rt_ringbuffer_getchar rb = (None, rb)
         | ch # cs \<Rightarrow> (\<exists>rb'. rt_ringbuffer_getchar rb = (Some ch, rb') \<and> rb_wf rb' \<and> rb_abs rb' = cs)"
proof (cases "rb_abs rb")
  case Nil
  then have "rt_ringbuffer_data_len rb = 0" by (metis length_rb_abs list.size(3))
  with Nil show ?thesis by (simp add: getchar_empty)
next
  case (Cons ch cs)
  then have "rt_ringbuffer_data_len rb > 0" by (metis length_greater_0_conv length_rb_abs list.distinct(1))
  then obtain ch' rb' where g: "rt_ringbuffer_getchar rb = (Some ch', rb')"
    "rt_ringbuffer_get rb 1 = (1, [ch'], rb')"
    using getchar_get [OF assms] by blast
  from get_bytes [OF assms g(2)] Cons have "ch' = ch" by simp
  moreover from get_abs [OF assms g(2)] Cons have "rb_abs rb' = cs" by simp
  ultimately show ?thesis using g(1) get_wf [OF assms g(2)] Cons by simp
qed

section \<open>Writing\<close>

text \<open>
  Every write stores a block of \<open>len \<le> buffer_size\<close> bytes at the write index and moves the
  index, flipping the mirror when it passes the end of the pool. \<open>rb_store\<close> is that common
  step.
\<close>

definition rb_store :: "rt_ringbuffer \<Rightarrow> u8 list \<Rightarrow> rt_ringbuffer" where
  "rb_store rb xs =
     (if write_index rb + length xs < buffer_size rb
      then rb\<lparr>buffer_ptr := blit (buffer_ptr rb) (write_index rb) xs,
              write_index := write_index rb + length xs\<rparr>
      else let n = buffer_size rb - write_index rb in
           rb\<lparr>buffer_ptr := blit (blit (buffer_ptr rb) (write_index rb) (take n xs)) 0 (drop n xs),
              write_mirror := \<not> write_mirror rb,
              write_index := write_index rb + length xs - buffer_size rb\<rparr>)"

lemma put_store:
  assumes "rb_wf rb"
  shows "rt_ringbuffer_put rb xs =
    (let ys = take (rt_ringbuffer_space_len rb) xs in
     (length ys, if rt_ringbuffer_space_len rb = 0 then rb else rb_store rb ys))"
proof -
  let ?s = "rt_ringbuffer_space_len rb"
  define m where "m = min ?s (length xs)"
  have m: "(if ?s < length xs then ?s else length xs) = m" by (simp add: m_def)
  have t: "take ?s xs = take m xs" by (auto simp: m_def min_def)
  have l: "length (take m xs) = m" by (simp add: m_def)
  have wi: "write_index rb < buffer_size rb" using assms by (simp add: rb_wf_def)
  have c: "m < buffer_size rb - write_index rb \<longleftrightarrow> write_index rb + m < buffer_size rb"
    using wi by linarith
  have x: "chunk xs (buffer_size rb - write_index rb) (m - (buffer_size rb - write_index rb)) =
      drop (buffer_size rb - write_index rb) (take m xs)"
    by (simp add: chunk_def drop_take)
  have y: "\<not> write_index rb + m < buffer_size rb \<Longrightarrow>
      min (buffer_size rb - write_index rb) m = buffer_size rb - write_index rb"
    by (simp add: min_absorb1)
  have z: "\<not> write_index rb + m < buffer_size rb \<Longrightarrow>
      m - (buffer_size rb - write_index rb) = write_index rb + m - buffer_size rb"
    using wi by simp
  have s0: "?s = 0 \<Longrightarrow> m = 0" by (simp add: m_def)
  show ?thesis
    unfolding rt_ringbuffer_put_def rb_store_def Let_def t l m c x
    by (cases "write_index rb + m < buffer_size rb") (simp_all add: y z s0)
qed

lemma store_nth:
  assumes "rb_wf rb" and "length xs \<le> buffer_size rb" and "j < buffer_size rb"
  shows "buffer_ptr (rb_store rb xs) ! j =
    (if write_index rb \<le> j \<and> j < write_index rb + length xs then xs ! (j - write_index rb)
     else if j + buffer_size rb < write_index rb + length xs
     then xs ! (j + buffer_size rb - write_index rb)
     else buffer_ptr rb ! j)"
proof -
  have b: "write_index rb < buffer_size rb" "buffer_size rb \<le> length (buffer_ptr rb)"
    using assms(1) by (auto simp: rb_wf_def)
  show ?thesis
  proof (cases "write_index rb + length xs < buffer_size rb")
    case True
    with assms(3) b show ?thesis by (simp add: rb_store_def nth_blit)
  next
    case False
    let ?n = "buffer_size rb - write_index rb"
    let ?B = "blit (buffer_ptr rb) (write_index rb) (take ?n xs)"
    have n: "?n \<le> length xs" using False by simp
    have lB: "length ?B = length (buffer_ptr rb)" using b n by simp
    have B: "?B ! j = (if write_index rb \<le> j then xs ! (j - write_index rb) else buffer_ptr rb ! j)"
      using b n assms(3) by (simp add: nth_blit)
    have "length (drop ?n xs) \<le> length ?B" using lB b assms(2) by simp
    then have "blit ?B 0 (drop ?n xs) ! j =
        (if j < length xs - ?n then xs ! (?n + j) else ?B ! j)"
      using lB b assms(3) n by (simp add: nth_blit)
    moreover have "?n + j = j + buffer_size rb - write_index rb" using b by simp
    moreover have "j < length xs - ?n \<longleftrightarrow> j + buffer_size rb < write_index rb + length xs"
      using b n by linarith
    moreover have "j < length xs - ?n \<Longrightarrow> j < write_index rb" using b assms(2) by linarith
    moreover have "j < write_index rb + length xs" using False assms(3) by linarith
    ultimately show ?thesis using False B by (auto simp: rb_store_def Let_def)
  qed
qed

lemma wf_facts:
  assumes "rb_wf rb"
  shows "0 < buffer_size rb" "buffer_size rb < 2 ^ 31" "buffer_size rb \<le> length (buffer_ptr rb)"
    "read_index rb < buffer_size rb" "write_index rb < buffer_size rb"
    "read_mirror rb = write_mirror rb \<Longrightarrow> read_index rb \<le> write_index rb"
    "read_mirror rb \<noteq> write_mirror rb \<Longrightarrow> write_index rb \<le> read_index rb"
  using assms by (simp_all add: rb_wf_def)

lemma store_frame [simp]:
  "buffer_size (rb_store rb xs) = buffer_size rb"
  "read_index (rb_store rb xs) = read_index rb"
  "read_mirror (rb_store rb xs) = read_mirror rb"
  by (simp_all add: rb_store_def Let_def)

lemma store_length:
  assumes "rb_wf rb" and "length xs \<le> buffer_size rb"
  shows "length (buffer_ptr (rb_store rb xs)) = length (buffer_ptr rb)"
  using assms wf_facts(3,5) [OF assms(1)] by (simp add: rb_store_def Let_def)

text \<open>
  The write index relative to the read index: in the same mirror it is ahead by the number of
  stored bytes, in the other one it has wrapped once.
\<close>

lemma write_index_rel:
  assumes "rb_wf rb"
  shows "read_index rb + rt_ringbuffer_data_len rb =
    (if read_mirror rb = write_mirror rb then write_index rb else buffer_size rb + write_index rb)"
  using wf_facts [OF assms] data_len_wf [OF assms] by auto

lemma store_fit:
  assumes w: "rb_wf rb" and fit: "length xs + rt_ringbuffer_data_len rb \<le> buffer_size rb"
  shows "rb_wf (rb_store rb xs) \<and>
    rt_ringbuffer_data_len (rb_store rb xs) = rt_ringbuffer_data_len rb + length xs"
proof -
  note f = wf_facts [OF w] and r = write_index_rel [OF w] and l = store_length [OF w]
  have le: "length xs \<le> buffer_size rb" using fit by simp
  show ?thesis
  proof (cases "write_index rb + length xs < buffer_size rb")
    case True
    have i: "write_index (rb_store rb xs) = write_index rb + length xs"
      "write_mirror (rb_store rb xs) = write_mirror rb"
      using True by (simp_all add: rb_store_def)
    have "rb_wf (rb_store rb xs)"
      using f l [OF le] r fit True i unfolding rb_wf_def
      by (cases "read_mirror rb = write_mirror rb") simp_all
    moreover from write_index_rel [OF this] r i f
    have "rt_ringbuffer_data_len (rb_store rb xs) = rt_ringbuffer_data_len rb + length xs"
      by (cases "read_mirror rb = write_mirror rb") simp_all
    ultimately show ?thesis by simp
  next
    case False
    have i: "write_index (rb_store rb xs) = write_index rb + length xs - buffer_size rb"
      "write_mirror (rb_store rb xs) = (\<not> write_mirror rb)"
      using False by (simp_all add: rb_store_def Let_def)
    have m: "read_mirror rb = write_mirror rb"
    proof (rule ccontr)
      assume "read_mirror rb \<noteq> write_mirror rb"
      with r fit False f(4) show False by simp
    qed
    have "write_index rb + length xs \<le> buffer_size rb + read_index rb" using r m fit by simp
    then have u: "write_index rb + length xs - buffer_size rb \<le> read_index rb" by simp
    have "rb_wf (rb_store rb xs)"
      using f l [OF le] i m u unfolding rb_wf_def by simp
    moreover from write_index_rel [OF this] r i f m False
    have "rt_ringbuffer_data_len (rb_store rb xs) = rt_ringbuffer_data_len rb + length xs"
      by simp
    ultimately show ?thesis by simp
  qed
qed

lemma rb_pos_write:
  assumes "rb_wf rb" and "i < buffer_size rb"
  shows "rb_pos rb i < buffer_size rb"
    and "rt_ringbuffer_data_len rb + k < buffer_size rb \<Longrightarrow>
      rb_pos rb (rt_ringbuffer_data_len rb + k) =
        (if write_index rb + k < buffer_size rb then write_index rb + k
         else write_index rb + k - buffer_size rb)"
proof -
  note f = wf_facts [OF assms(1)] and r = write_index_rel [OF assms(1)]
  show "rb_pos rb i < buffer_size rb" using f(4) assms(2) by (auto simp: rb_pos_def)
  assume k: "rt_ringbuffer_data_len rb + k < buffer_size rb"
  show "rb_pos rb (rt_ringbuffer_data_len rb + k) =
        (if write_index rb + k < buffer_size rb then write_index rb + k
         else write_index rb + k - buffer_size rb)"
    using r k f by (cases "read_mirror rb = write_mirror rb") (simp_all add: rb_pos_def flip: add.assoc)
qed

lemma store_abs:
  assumes w: "rb_wf rb" and fit: "length xs + rt_ringbuffer_data_len rb \<le> buffer_size rb"
  shows "rb_abs (rb_store rb xs) = rb_abs rb @ xs"
proof (rule rb_abs_eqI)
  note f = wf_facts [OF w] and r = write_index_rel [OF w]
  show "rt_ringbuffer_data_len (rb_store rb xs) = length (rb_abs rb @ xs)"
    using store_fit [OF w fit] by simp
  fix i assume "i < length (rb_abs rb @ xs)"
  then have i: "i < rt_ringbuffer_data_len rb + length xs" "i < buffer_size rb" using fit by simp_all
  have le: "length xs \<le> buffer_size rb" using fit by simp
  have p: "rb_pos (rb_store rb xs) i = rb_pos rb i" by (simp add: rb_pos_def)
  note n = store_nth [OF w le rb_pos_write(1) [OF w i(2)]]
  show "buffer_ptr (rb_store rb xs) ! rb_pos (rb_store rb xs) i = (rb_abs rb @ xs) ! i"
  proof (cases "i < rt_ringbuffer_data_len rb")
    case True
    then have "\<not> (write_index rb \<le> rb_pos rb i \<and> rb_pos rb i < write_index rb + length xs)"
      "\<not> rb_pos rb i + buffer_size rb < write_index rb + length xs"
      using r f fit by (auto simp: rb_pos_def split: if_splits)
    then show ?thesis using True n p by (auto simp: nth_append nth_rb_abs)
  next
    case False
    define k where "k = i - rt_ringbuffer_data_len rb"
    have k: "i = rt_ringbuffer_data_len rb + k" "k < length xs" using False i by (simp_all add: k_def)
    have q: "rb_pos rb i = (if write_index rb + k < buffer_size rb then write_index rb + k
         else write_index rb + k - buffer_size rb)"
      using rb_pos_write(2) [OF w f(1), of k] i(2) k(1) by simp
    show ?thesis
    proof (cases "write_index rb + k < buffer_size rb")
      case True
      then show ?thesis using n p q k by (simp add: nth_append)
    next
      case c: False
      have "\<not> write_index rb \<le> write_index rb + k - buffer_size rb" using f(1,5) k le c by linarith
      then show ?thesis using n p q k c by (simp add: nth_append)
    qed
  qed
qed

lemma put_abs:
  assumes "rb_wf rb" and "rt_ringbuffer_put rb xs = (r, rb')"
  shows "rb_wf rb'"
    and "r = min (length xs) (rt_ringbuffer_space_len rb)"
    and "rb_abs rb' = rb_abs rb @ take (rt_ringbuffer_space_len rb) xs"
proof -
  let ?s = "rt_ringbuffer_space_len rb"
  have e: "r = length (take ?s xs)" "rb' = (if ?s = 0 then rb else rb_store rb (take ?s xs))"
    using put_store [OF assms(1)] assms(2) by (simp_all add: Let_def)
  have fit: "length (take ?s xs) + rt_ringbuffer_data_len rb \<le> buffer_size rb"
    using data_len_le [OF assms(1)] by (simp add: rt_ringbuffer_space_len_def)
  show "rb_wf rb'" using e(2) assms(1) store_fit [OF assms(1) fit] by simp
  show "r = min (length xs) ?s" using e(1) by simp
  show "rb_abs rb' = rb_abs rb @ take ?s xs" using e(2) store_abs [OF assms(1) fit] by simp
qed

text \<open>A single byte goes the same way as a block of length one.\<close>

lemma blit_single: "i < length xs \<Longrightarrow> blit xs i [x] = xs[i := x]"
  by (simp add: blit_def upd_conv_take_nth_drop)

lemma store_single:
  assumes "rb_wf rb"
  shows "rb_store rb [ch] =
    (let rb1 = rb\<lparr>buffer_ptr := (buffer_ptr rb)[write_index rb := ch]\<rparr> in
     if Suc (write_index rb1) = buffer_size rb1
     then rb1\<lparr>write_mirror := \<not> write_mirror rb1, write_index := 0\<rparr>
     else rb1\<lparr>write_index := write_index rb1 + 1\<rparr>)"
proof (cases "Suc (write_index rb) = buffer_size rb")
  case True
  have "buffer_size rb - write_index rb = Suc 0" using True by simp
  then show ?thesis
    using True wf_facts(3,5) [OF assms] by (simp add: rb_store_def Let_def blit_single)
next
  case False
  then show ?thesis
    using wf_facts(3,5) [OF assms] by (simp add: rb_store_def Let_def blit_single)
qed

lemma putchar_put:
  assumes "rb_wf rb"
  shows "rt_ringbuffer_putchar rb ch = rt_ringbuffer_put rb [ch]"
  using put_store [OF assms, of "[ch]"] store_single [OF assms, of ch]
  by (auto simp: rt_ringbuffer_putchar_def Let_def take_Cons')

section \<open>Forced writes\<close>

text \<open>A write that does not fit drops the oldest bytes: the buffer becomes full.\<close>

definition rb_overrun :: "rt_ringbuffer \<Rightarrow> rt_ringbuffer" where
  "rb_overrun rb = rb\<lparr>read_index := write_index rb, read_mirror := \<not> write_mirror rb\<rparr>"

lemma put_force_store:
  assumes w: "rb_wf rb"
  shows "rt_ringbuffer_put_force rb xs =
    (let ys = last_n (buffer_size rb) xs in
     (length ys, if length ys > rt_ringbuffer_space_len rb then rb_overrun (rb_store rb ys)
                 else rb_store rb ys))"
proof -
  define ys where "ys = last_n (buffer_size rb) xs"
  let ?n = "buffer_size rb - write_index rb"
  note f = wf_facts [OF w] and r = write_index_rel [OF w]
  have ptr: "(if length xs > buffer_size rb then drop (length xs - buffer_size rb) xs else xs) = ys"
    and len: "(if length xs > buffer_size rb then buffer_size rb else length xs) = length ys"
    by (simp_all add: ys_def last_n_def)
  have le: "length ys \<le> buffer_size rb" by (simp add: ys_def)
  have sp: "rt_ringbuffer_space_len rb + rt_ringbuffer_data_len rb = buffer_size rb"
    using data_len_le [OF w] by (simp add: rt_ringbuffer_space_len_def)
  have c: "length ys < ?n \<longleftrightarrow> write_index rb + length ys < buffer_size rb" using f(5) by linarith
  show ?thesis
  proof (cases "write_index rb + length ys < buffer_size rb")
    case True
    have "length ys > rt_ringbuffer_space_len rb \<Longrightarrow> read_mirror rb \<noteq> write_mirror rb"
      using r sp True by (auto split: if_splits)
    then show ?thesis
      using True
      unfolding rt_ringbuffer_put_force_def ptr len Let_def c ys_def [symmetric]
      by (auto simp: rb_store_def rb_overrun_def)
  next
    case False
    have wi: "length ys - ?n = write_index rb + length ys - buffer_size rb" using f(5) by simp
    have ch: "chunk ys ?n (write_index rb + length ys - buffer_size rb) = drop ?n ys"
      unfolding wi [symmetric] by (simp add: chunk_def)
    have "length ys > rt_ringbuffer_space_len rb \<Longrightarrow>
        (write_index rb + length ys - buffer_size rb \<le> read_index rb \<longleftrightarrow>
         read_mirror rb \<noteq> write_mirror rb)"
      using r sp False le f by (cases "read_mirror rb = write_mirror rb") auto
    then show ?thesis
      using False
      unfolding rt_ringbuffer_put_force_def ptr len Let_def c ys_def [symmetric] wi ch
      by (auto simp: rb_store_def rb_overrun_def Let_def)
  qed
qed

lemma overrun_wf:
  assumes w: "rb_wf rb" and le: "length xs \<le> buffer_size rb"
  shows "rb_wf (rb_overrun (rb_store rb xs))"
    and "rt_ringbuffer_data_len (rb_overrun (rb_store rb xs)) = buffer_size rb"
proof -
  note f = wf_facts [OF w]
  have "write_index (rb_store rb xs) < buffer_size rb"
    using f le by (auto simp: rb_store_def Let_def)
  then show o: "rb_wf (rb_overrun (rb_store rb xs))"
    using f store_length [OF w le] by (simp add: rb_wf_def rb_overrun_def)
  show "rt_ringbuffer_data_len (rb_overrun (rb_store rb xs)) = buffer_size rb"
    using data_len_wf [OF o] by (simp add: rb_overrun_def)
qed

lemma overrun_abs:
  assumes w: "rb_wf rb" and le: "length xs \<le> buffer_size rb"
    and big: "length xs > rt_ringbuffer_space_len rb"
  shows "rb_abs (rb_overrun (rb_store rb xs)) = last_n (buffer_size rb) (rb_abs rb @ xs)"
proof (rule rb_abs_eqI)
  note f = wf_facts [OF w] and r = write_index_rel [OF w]
  let ?d = "rt_ringbuffer_data_len rb" and ?rb = "rb_overrun (rb_store rb xs)"
  have sp: "rt_ringbuffer_space_len rb + ?d = buffer_size rb"
    using data_len_le [OF w] by (simp add: rt_ringbuffer_space_len_def)
  have l: "length (last_n (buffer_size rb) (rb_abs rb @ xs)) = buffer_size rb"
    using big sp by simp
  then show "rt_ringbuffer_data_len ?rb = length (last_n (buffer_size rb) (rb_abs rb @ xs))"
    using overrun_wf(2) [OF w le] by simp
  fix i assume "i < length (last_n (buffer_size rb) (rb_abs rb @ xs))"
  then have i: "i < buffer_size rb" using l by simp
  define k where "k = ?d + length xs - buffer_size rb + i"
  have k: "last_n (buffer_size rb) (rb_abs rb @ xs) ! i = (rb_abs rb @ xs) ! k"
    using i big sp by (simp add: nth_last_n k_def)
  have wi: "write_index (rb_store rb xs) =
      (if write_index rb + length xs < buffer_size rb then write_index rb + length xs
       else write_index rb + length xs - buffer_size rb)"
    by (simp add: rb_store_def Let_def)
  define j where "j = rb_pos ?rb i"
  have j: "j = (if write_index (rb_store rb xs) + i < buffer_size rb
                then write_index (rb_store rb xs) + i
                else write_index (rb_store rb xs) + i - buffer_size rb)"
    by (simp add: j_def rb_pos_def rb_overrun_def)
  have jl: "j < buffer_size rb"
    using rb_pos_write(1) [OF overrun_wf(1) [OF w le], of i] i by (simp add: j_def rb_overrun_def)
  note n = store_nth [OF w le jl]
  have "buffer_ptr (rb_store rb xs) ! j = (rb_abs rb @ xs) ! k"
  proof (cases "k < ?d")
    case True
    then have "rb_abs rb ! k = buffer_ptr rb ! rb_pos rb k" by (rule nth_rb_abs)
    moreover have "rb_pos rb k = j"
      using r sp big True f i unfolding j wi rb_pos_def k_def
      by (cases "read_mirror rb = write_mirror rb") auto
    moreover have "\<not> (write_index rb \<le> j \<and> j < write_index rb + length xs)"
      "\<not> j + buffer_size rb < write_index rb + length xs"
      using True le i big sp f unfolding k_def j wi by (auto split: if_splits)
    ultimately show ?thesis using n True by (auto simp: nth_append)
  next
    case False
    have "j = (if write_index rb + (k - ?d) < buffer_size rb then write_index rb + (k - ?d)
               else write_index rb + (k - ?d) - buffer_size rb)"
      using False i big sp f le unfolding k_def j wi by auto
    moreover have "k - ?d < length xs" using False i big sp by (simp add: k_def)
    ultimately show ?thesis using n False f le by (auto simp: nth_append)
  qed
  then show "buffer_ptr ?rb ! rb_pos ?rb i = last_n (buffer_size rb) (rb_abs rb @ xs) ! i"
    using k by (simp add: j_def rb_overrun_def)
qed

lemma put_force_abs:
  assumes w: "rb_wf rb" and "rt_ringbuffer_put_force rb xs = (r, rb')"
  shows "rb_wf rb'"
    and "r = min (length xs) (buffer_size rb)"
    and "rb_abs rb' = last_n (buffer_size rb) (rb_abs rb @ xs)"
proof -
  define ys where "ys = last_n (buffer_size rb) xs"
  have le: "length ys \<le> buffer_size rb" by (simp add: ys_def)
  have e: "r = length ys" "rb' = (if length ys > rt_ringbuffer_space_len rb
      then rb_overrun (rb_store rb ys) else rb_store rb ys)"
    using put_force_store [OF w, of xs] assms(2) by (simp_all add: Let_def ys_def)
  have sp: "rt_ringbuffer_space_len rb + rt_ringbuffer_data_len rb = buffer_size rb"
    using data_len_le [OF w] by (simp add: rt_ringbuffer_space_len_def)
  have l: "last_n (buffer_size rb) (rb_abs rb @ ys) = last_n (buffer_size rb) (rb_abs rb @ xs)"
    by (cases "length xs \<le> buffer_size rb") (simp_all add: last_n_def ys_def)
  show "r = min (length xs) (buffer_size rb)" using e(1) by (simp add: ys_def min.commute)
  show "rb_wf rb'" "rb_abs rb' = last_n (buffer_size rb) (rb_abs rb @ xs)"
  proof (atomize(full), cases "length ys > rt_ringbuffer_space_len rb")
    case True
    then show "rb_wf rb' \<and> rb_abs rb' = last_n (buffer_size rb) (rb_abs rb @ xs)"
      using e(2) overrun_wf(1) [OF w le] overrun_abs [OF w le True] l by simp
  next
    case False
    then have fit: "length ys + rt_ringbuffer_data_len rb \<le> buffer_size rb" using sp by simp
    then have "rb_abs rb @ ys = last_n (buffer_size rb) (rb_abs rb @ ys)"
      by (simp add: last_n_all)
    then show "rb_wf rb' \<and> rb_abs rb' = last_n (buffer_size rb) (rb_abs rb @ xs)"
      using False e(2) store_fit [OF w fit] store_abs [OF w fit] l by simp
  qed
qed

lemma putchar_force_put_force:
  assumes w: "rb_wf rb"
  shows "rt_ringbuffer_putchar_force rb ch = rt_ringbuffer_put_force rb [ch]"
proof -
  have full: "rt_ringbuffer_status rb = RT_RINGBUFFER_FULL \<longleftrightarrow> rt_ringbuffer_space_len rb = 0"
    using status_full_iff [OF w] data_len_le [OF w] by (auto simp: rt_ringbuffer_space_len_def)
  have m: "rt_ringbuffer_status rb = RT_RINGBUFFER_FULL \<Longrightarrow> read_mirror rb = (\<not> write_mirror rb)"
    by (auto simp: rt_ringbuffer_status_def split: if_splits)
  have "last_n (buffer_size rb) [ch] = [ch]" using wf_facts(1) [OF w] by (simp add: last_n_all)
  then show ?thesis
    using m by (simp add: put_force_store [OF w] store_single [OF w] rt_ringbuffer_putchar_force_def
        Let_def full rb_overrun_def)
qed

section \<open>Creation and reset\<close>

lemma reset_abs: "rb_wf rb \<Longrightarrow> rb_wf (rt_ringbuffer_reset rb) \<and> rb_abs (rt_ringbuffer_reset rb) = []"
  by (auto simp: rb_wf_def rt_ringbuffer_reset_def rb_abs_def rt_ringbuffer_data_len_def
      rt_ringbuffer_status_def)

lemma create_wf:
  assumes "8 \<le> sz" and "sz < 2 ^ 31" and "pool_mem (sz div 8 * 8) = Some pool"
    and "length pool = sz div 8 * 8"
  shows "\<exists>rb. rt_ringbuffer_create True pool_mem sz = Some (Some rb) \<and> rb_wf rb \<and>
    rb_abs rb = [] \<and> buffer_size rb = sz div 8 * 8"
proof -
  let ?m = "sz div 8 * 8"
  have u: "unat (RT_ALIGN_DOWN (of_nat sz :: u32) 8) = ?m"
    using assms(2) by (simp add: align_down_8 unat_of_nat)
  have m: "?m > 0" "?m < 2 ^ 31" using assms(1,2) by auto
  then have u': "unat (RT_ALIGN_DOWN (of_nat ?m :: u32) 8) = ?m"
    by (simp add: align_down_8 unat_of_nat del: of_nat_mult)
  from m u' have i: "rt_ringbuffer_init pool ?m =
      Some \<lparr>buffer_ptr = pool, read_mirror = False, read_index = 0, write_mirror = False,
            write_index = 0, buffer_size = ?m\<rparr>"
    by (simp add: rt_ringbuffer_init_def del: of_nat_mult)
  have "rt_ringbuffer_create True pool_mem sz =
      Some (Some \<lparr>buffer_ptr = pool, read_mirror = False, read_index = 0, write_mirror = False,
            write_index = 0, buffer_size = ?m\<rparr>)"
    using assms(1,3) by (simp add: rt_ringbuffer_create_def u Let_def i)
  with m assms(4) show ?thesis
    by (simp add: rb_wf_def rb_abs_def rt_ringbuffer_data_len_def rt_ringbuffer_status_def)
qed

section \<open>The contract of a bounded byte queue\<close>

text \<open>
  What the clients of the ring buffer rely on: a queue of bytes of fixed capacity, to which
  one byte is appended unless it is full, and from which the oldest byte is taken.
\<close>

locale byte_queue =
  fixes putc :: "'q \<Rightarrow> u8 \<Rightarrow> nat \<times> 'q"
    and getc :: "'q \<Rightarrow> u8 option \<times> 'q"
    and reset :: "'q \<Rightarrow> 'q"
    and cap :: "'q \<Rightarrow> nat"
    and bytes :: "'q \<Rightarrow> u8 list"
    and invar :: "'q \<Rightarrow> bool"
  assumes bytes_cap: "invar q \<Longrightarrow> length (bytes q) \<le> cap q"
    and putc_room: "invar q \<Longrightarrow> length (bytes q) < cap q \<Longrightarrow>
      fst (putc q b) = 1 \<and> bytes (snd (putc q b)) = bytes q @ [b]"
    and putc_full: "invar q \<Longrightarrow> length (bytes q) = cap q \<Longrightarrow> putc q b = (0, q)"
    and getc_nil: "invar q \<Longrightarrow> bytes q = [] \<Longrightarrow> getc q = (None, q)"
    and getc_cons: "invar q \<Longrightarrow> bytes q = b # bs \<Longrightarrow>
      fst (getc q) = Some b \<and> bytes (snd (getc q)) = bs"
    and reset_nil: "invar q \<Longrightarrow> bytes (reset q) = []"
    and invar_putc: "invar q \<Longrightarrow> invar (snd (putc q b))"
    and invar_getc: "invar q \<Longrightarrow> invar (snd (getc q))"
    and invar_reset: "invar q \<Longrightarrow> invar (reset q)"
    and cap_putc: "invar q \<Longrightarrow> cap (snd (putc q b)) = cap q"
    and cap_getc: "invar q \<Longrightarrow> cap (snd (getc q)) = cap q"
begin

lemma putc_bytes: "invar q \<Longrightarrow> bytes (snd (putc q b)) = take (cap q) (bytes q @ [b])"
  using putc_room [of q b] putc_full [of q b] bytes_cap [of q]
  by (cases "length (bytes q) < cap q") auto

lemma invar_fill: "invar q \<Longrightarrow> invar (fold (\<lambda>b q. snd (putc q b)) bs q)"
  by (induction bs arbitrary: q) (simp_all add: invar_putc)

lemma cap_fill: "invar q \<Longrightarrow> cap (fold (\<lambda>b q. snd (putc q b)) bs q) = cap q"
  by (induction bs arbitrary: q) (simp_all add: invar_putc cap_putc)

text \<open>Bytes arriving one by one are queued in order; what does not fit is lost.\<close>

lemma bytes_fill: "invar q \<Longrightarrow> bytes (fold (\<lambda>b q. snd (putc q b)) bs q) = take (cap q) (bytes q @ bs)"
proof (induction bs arbitrary: q)
  case Nil
  then show ?case using bytes_cap by simp
next
  case (Cons b bs)
  have "bytes (fold (\<lambda>b q. snd (putc q b)) (b # bs) q) = take (cap q) (take (cap q) (bytes q @ [b]) @ bs)"
    using Cons by (simp add: invar_putc cap_putc putc_bytes)
  also have "\<dots> = take (cap q) (bytes q @ b # bs)"
    using bytes_cap [OF Cons.prems] by (cases "length (bytes q) < cap q") auto
  finally show ?case .
qed

end

lemma getchar_cons:
  assumes "rb_wf rb" and "rb_abs rb = b # bs"
  shows "fst (rt_ringbuffer_getchar rb) = Some b \<and> rb_abs (snd (rt_ringbuffer_getchar rb)) = bs \<and>
    rb_wf (snd (rt_ringbuffer_getchar rb))"
  using getchar_abs [OF assms(1)] assms(2) by auto

lemma getchar_nil:
  assumes "rb_wf rb" and "rb_abs rb = []"
  shows "rt_ringbuffer_getchar rb = (None, rb)"
  using getchar_abs [OF assms(1)] assms(2) by simp

lemma getchar_wf [rt_inv]: "rb_wf rb \<Longrightarrow> rb_wf (snd (rt_ringbuffer_getchar rb))"
  by (cases "rb_abs rb") (simp_all add: getchar_nil getchar_cons)

lemma getchar_size [simp]: "buffer_size (snd (rt_ringbuffer_getchar rb)) = buffer_size rb"
  by (simp add: rt_ringbuffer_getchar_def)

lemma putchar_size [simp]: "buffer_size (snd (rt_ringbuffer_putchar rb ch)) = buffer_size rb"
  by (simp add: rt_ringbuffer_putchar_def Let_def)

lemma putchar_wf [rt_inv]: "rb_wf rb \<Longrightarrow> rb_wf (snd (rt_ringbuffer_putchar rb ch))"
  using put_abs(1) [of rb "[ch]"] by (cases "rt_ringbuffer_put rb [ch]") (simp add: putchar_put)

lemma putchar_room:
  assumes "rb_wf rb" and "rt_ringbuffer_data_len rb < buffer_size rb"
  shows "fst (rt_ringbuffer_putchar rb ch) = 1 \<and>
    rb_abs (snd (rt_ringbuffer_putchar rb ch)) = rb_abs rb @ [ch]"
proof -
  obtain r rb' where p: "rt_ringbuffer_put rb [ch] = (r, rb')" by fastforce
  have "rt_ringbuffer_space_len rb > 0" using assms(2) by (simp add: rt_ringbuffer_space_len_def)
  then have "take (rt_ringbuffer_space_len rb) [ch] = [ch]" by (cases "rt_ringbuffer_space_len rb") auto
  with put_abs [OF assms(1) p] p show ?thesis
    using \<open>rt_ringbuffer_space_len rb > 0\<close> by (simp add: putchar_put [OF assms(1)])
qed

interpretation rbq: byte_queue rt_ringbuffer_putchar rt_ringbuffer_getchar rt_ringbuffer_reset
  buffer_size rb_abs rb_wf
proof unfold_locales
  fix q :: rt_ringbuffer and b :: u8 and bs :: "u8 list"
  show "rb_wf q \<Longrightarrow> length (rb_abs q) \<le> buffer_size q" by (simp add: data_len_le)
  show "rb_wf q \<Longrightarrow> length (rb_abs q) < buffer_size q \<Longrightarrow>
      fst (rt_ringbuffer_putchar q b) = 1 \<and> rb_abs (snd (rt_ringbuffer_putchar q b)) = rb_abs q @ [b]"
    by (simp add: putchar_room)
  show "rb_wf q \<Longrightarrow> length (rb_abs q) = buffer_size q \<Longrightarrow> rt_ringbuffer_putchar q b = (0, q)"
    by (simp add: rt_ringbuffer_putchar_def rt_ringbuffer_space_len_def)
qed (simp_all add: getchar_nil getchar_cons reset_abs putchar_wf getchar_wf)

lemma peek_get:
  assumes "rb_wf rb" and "rt_ringbuffer_data_len rb > 0"
  shows "\<exists>n rb'. rt_ringbuffer_peek rb = (n, Some (read_index rb), rb') \<and> n > 0 \<and>
    rt_ringbuffer_get rb n = (n, chunk (buffer_ptr rb) (read_index rb) n, rb') \<and>
    (rb_abs rb' = [] \<or> read_index rb' = 0)"
proof -
  let ?d = "rt_ringbuffer_data_len rb" and ?n = "buffer_size rb - read_index rb"
  have b: "read_index rb < buffer_size rb" using assms(1) by (simp add: rb_wf_def)
  show ?thesis
  proof (cases "?n > ?d")
    case True
    then have g: "rt_ringbuffer_get rb ?d = (?d, chunk (buffer_ptr rb) (read_index rb) ?d,
        rb\<lparr>read_index := read_index rb + ?d\<rparr>)"
      using assms(2) by (simp add: rt_ringbuffer_get_def Let_def)
    moreover have "rb_abs (rb\<lparr>read_index := read_index rb + ?d\<rparr>) = []"
      using get_abs [OF assms(1) g] by simp
    ultimately show ?thesis using True assms(2) by (auto simp: rt_ringbuffer_peek_def Let_def)
  next
    case False
    then show ?thesis
      using assms(2) b by (auto simp: rt_ringbuffer_peek_def rt_ringbuffer_get_def Let_def)
  qed
qed

section \<open>Properties\<close>

definition rb_example :: rt_ringbuffer where
  "rb_example = \<lparr>buffer_ptr = [1, 2, 3, 4, 5, 6, 7, 8], read_mirror = False, read_index = 5,
                 write_mirror = True, write_index = 2, buffer_size = 8\<rparr>"

lemma rb_example_wf: "rb_wf rb_example"
  by (simp add: rb_wf_def rb_example_def)

text \<open>
  C16. Ring buffer refinement: a block write appends to the stored byte sequence as many bytes
  as there is room for, returns their number and keeps the invariant.
\<close>

theorem ringbuffer_put_correct:
  assumes "rb_wf rb" and "rt_ringbuffer_put rb xs = (r, rb')"
  shows "rb_wf rb' \<and> r = min (length xs) (buffer_size rb - length (rb_abs rb)) \<and>
    rb_abs rb' = rb_abs rb @ take r xs"
  using put_abs [OF assms] by (simp add: rt_ringbuffer_space_len_def min_def)

theorem ringbuffer_put_correct_witness:
  "rb_abs (snd (rt_ringbuffer_put rb_example [9, 10, 11, 12])) = [6, 7, 8, 1, 2, 9, 10, 11]"
proof -
  have e: "rt_ringbuffer_put rb_example [9, 10, 11, 12] = (3, rb_example\<lparr>buffer_ptr :=
      [1, 2, 9, 10, 11, 6, 7, 8], write_index := 5\<rparr>)"
    by (simp add: rb_example_def rt_ringbuffer_put_def rt_ringbuffer_space_len_def
        rt_ringbuffer_data_len_def rt_ringbuffer_status_def blit_def)
  have a: "rb_abs rb_example = [6, 7, 8, 1, 2]" by code_simp
  show ?thesis using ringbuffer_put_correct [OF rb_example_wf e] by (simp add: e a)
qed

text \<open>
  Ring buffer refinement: a block read returns the oldest bytes in the order they were
  written, as many as are stored up to the requested number, removes exactly these and keeps
  the invariant.
\<close>

theorem ringbuffer_get_correct:
  assumes "rb_wf rb" and "rt_ringbuffer_get rb n = (r, bs, rb')"
  shows "rb_wf rb' \<and> r = length bs \<and> rb_abs rb = bs @ rb_abs rb' \<and> r = min n (length (rb_abs rb))"
  using get_wf [OF assms] get_len [OF assms] get_bytes [OF assms] get_abs [OF assms] by simp

theorem ringbuffer_get_correct_witness:
  "rt_ringbuffer_get rb_example 4 = (4, [6, 7, 8, 1],
      rb_example\<lparr>read_mirror := True, read_index := 1\<rparr>) \<and>
   rb_abs (rb_example\<lparr>read_mirror := True, read_index := 1\<rparr>) = [2]"
proof -
  have e: "rt_ringbuffer_get rb_example 4 = (4, [6, 7, 8, 1],
      rb_example\<lparr>read_mirror := True, read_index := 1\<rparr>)"
    by (simp add: rb_example_def rt_ringbuffer_get_def rt_ringbuffer_data_len_def
        rt_ringbuffer_status_def chunk_def Let_def)
  have a: "rb_abs rb_example = [6, 7, 8, 1, 2]" by code_simp
  show ?thesis using ringbuffer_get_correct [OF rb_example_wf e] e by (simp add: a)
qed

text \<open>
  Overwriting write: \<^verbatim>\<open>rt_ringbuffer_put_force\<close> leaves in the buffer the newest bytes of
  the old contents followed by the new block, as many as the buffer holds; the oldest are
  dropped, whichever way the indices wrap.
\<close>

theorem ringbuffer_put_force_correct:
  assumes "rb_wf rb" and "rt_ringbuffer_put_force rb xs = (r, rb')"
  shows "rb_wf rb' \<and> r = min (length xs) (buffer_size rb) \<and>
    rb_abs rb' = last_n (buffer_size rb) (rb_abs rb @ xs)"
  using put_force_abs [OF assms] by simp

theorem ringbuffer_put_force_correct_witness:
  "rb_abs (snd (rt_ringbuffer_put_force rb_example [9, 10, 11, 12])) = [7, 8, 1, 2, 9, 10, 11, 12]"
proof -
  obtain r rb' where e: "rt_ringbuffer_put_force rb_example [9, 10, 11, 12] = (r, rb')" by fastforce
  have a: "rb_abs rb_example = [6, 7, 8, 1, 2]" by code_simp
  have "buffer_size rb_example = 8" by (simp add: rb_example_def)
  then show ?thesis
    using ringbuffer_put_force_correct [OF rb_example_wf e] by (simp add: e a last_n_def)
qed

text \<open>
  Zero-copy read: on a non-empty buffer \<^verbatim>\<open>rt_ringbuffer_peek\<close> points into the pool at the
  oldest byte, the run of bytes from there of the returned length is the front of the stored
  sequence, and exactly this run is consumed; it stops either at the end of the data or at the
  end of the pool.
\<close>

theorem ringbuffer_peek_correct:
  assumes "rb_wf rb" and "rb_abs rb \<noteq> []"
  shows "\<exists>n p rb'. rt_ringbuffer_peek rb = (n, Some p, rb') \<and> n > 0 \<and>
    rb_abs rb = chunk (buffer_ptr rb) p n @ rb_abs rb' \<and> rb_wf rb' \<and>
    (rb_abs rb' = [] \<or> read_index rb' = 0)"
proof -
  have "rt_ringbuffer_data_len rb > 0" using assms(2) by (metis length_greater_0_conv length_rb_abs)
  then obtain n rb' where p: "rt_ringbuffer_peek rb = (n, Some (read_index rb), rb')" "n > 0"
      "rb_abs rb' = [] \<or> read_index rb' = 0"
    and g: "rt_ringbuffer_get rb n = (n, chunk (buffer_ptr rb) (read_index rb) n, rb')"
    using peek_get [OF assms(1)] by blast
  from get_bytes [OF assms(1) g] get_abs [OF assms(1) g] get_wf [OF assms(1) g]
  have "rb_abs rb = chunk (buffer_ptr rb) (read_index rb) n @ rb_abs rb'" "rb_wf rb'" by simp_all
  with p show ?thesis by blast
qed

theorem ringbuffer_peek_correct_witness:
  "\<exists>n p rb'. rt_ringbuffer_peek rb_example = (n, Some p, rb') \<and> n > 0 \<and>
    [6, 7, 8, 1, 2] = chunk (buffer_ptr rb_example) p n @ rb_abs rb'"
proof -
  have a: "rb_abs rb_example = [6, 7, 8, 1, 2]" by code_simp
  then have "rb_abs rb_example \<noteq> []" by simp
  from ringbuffer_peek_correct [OF rb_example_wf this] a show ?thesis by auto
qed

end
