(* ===== verification/KernelState.thy ===== *)
theory KernelState
  imports Prelude
begin

text \<open>
  The state of the single-core RT-Thread kernel as configured for the board
  (\<^verbatim>\<open>rtconfig.h\<close>: 32 priorities, no SMP, no signals, hard timers only, one timer list level).
  Threads, timers and IPC objects are numbered; the fields of the C structures are record
  fields. The intrusive doubly linked lists are finite sequences: \<open>k_queue\<close> gives for every
  list head the threads linked into it, in order, \<open>k_defunct\<close> is the list of closed threads,
  and removing a node takes it out of whatever
  list it is in, as \<^verbatim>\<open>rt_list_remove\<close> does. The theory \<open>KList\<close> shows that the pointer
  operations of \<^verbatim>\<open>rtservice.h\<close> implement these sequence operations. Interrupt masking makes
  every kernel operation atomic, so locking the scheduler lock is the identity here.
\<close>

section \<open>Structures\<close>

type_synonym tid = nat

datatype timer_id = Thread_timer tid | User_timer nat

datatype rt_timer_func = Thread_timeout | User_timeout nat

record rt_timer =
  tm_flag :: u8
  tm_timeout_func :: rt_timer_func
  tm_parameter :: nat
  tm_init_tick :: u32
  tm_timeout_tick :: u32

datatype rt_object_ref = Mutex_object nat

text \<open>
  The two queueing disciplines of an IPC object, asserted when it is initialised, and the ways a
  thread can be suspended.
\<close>

datatype ipc_flag = RT_IPC_FLAG_FIFO | RT_IPC_FLAG_PRIO

datatype suspend_flag = RT_INTERRUPTIBLE | RT_KILLABLE | RT_UNINTERRUPTIBLE

record rt_thread =
  th_stat :: u8
  th_ttmr_set :: bool
  th_init_tick :: u32
  th_remaining_tick :: u32
  th_current_priority :: nat
  th_init_priority :: nat
  th_number_mask :: u32
  th_error :: rt_err_t
  th_taken :: "nat list"
  th_pending :: "rt_object_ref option"
  th_event_set :: u32
  th_event_info :: u8

record rt_semaphore =
  sem_value :: nat
  sem_max_value :: nat
  sem_flag :: ipc_flag

record rt_mutex =
  mx_ceiling_priority :: nat
  mx_priority :: nat
  mx_hold :: nat
  mx_owner :: "tid option"
  mx_flag :: ipc_flag

record rt_event =
  ev_set :: u32
  ev_flag :: ipc_flag

record rt_mailbox =
  mb_msg_pool :: "u32 list"
  mb_size :: nat
  mb_entry :: nat
  mb_in_offset :: nat
  mb_out_offset :: nat
  mb_flag :: ipc_flag

text \<open>
  The messages of a queue are the numbered slots of its pool, the three list pointers and the
  \<^verbatim>\<open>next\<close> fields are optional slot numbers (\<open>None\<close> is \<^verbatim>\<open>RT_NULL\<close>).
\<close>

record rt_mq_message =
  msg_next :: "nat option"
  msg_length :: nat
  msg_data :: "u8 list"

record rt_messagequeue =
  mq_msg_size :: nat
  mq_max_msgs :: nat
  mq_entry :: nat
  mq_queue_head :: "nat option"
  mq_queue_tail :: "nat option"
  mq_queue_free :: "nat option"
  mq_msgs :: "nat \<Rightarrow> rt_mq_message"
  mq_flag :: ipc_flag

text \<open>The word in front of a pool block: the next free block, or the pool that owns it.\<close>

datatype block_word = Free_next "nat option" | Owner_pool nat

record rt_mempool =
  mp_size :: nat
  mp_block_size :: nat
  mp_block_list :: "nat option"
  mp_block_total_count :: nat
  mp_block_free_count :: nat
  mp_word :: "nat \<Rightarrow> block_word"

text \<open>The list heads threads can be linked into: the ready lists and the wait lists of objects.\<close>

datatype list_head = ReadyQ nat | SemQ nat | MutexQ nat | EventQ nat | MailboxQ nat
  | MailboxSendQ nat | MqQ nat | MqSendQ nat | MempoolQ nat | DataPushQ nat | DataPopQ nat

record kernel =
  k_tick :: u32
  k_int_nest :: nat
  k_thread :: "tid \<Rightarrow> rt_thread"
  k_queue :: "list_head \<Rightarrow> tid list"
  k_ready_group :: u32
  k_lock_nest :: int
  k_current :: "tid option"
  k_current_priority :: nat
  k_timer :: "timer_id \<Rightarrow> rt_timer"
  k_timer_list :: "timer_id list"
  k_timer_run :: "timer_id list"
  k_defunct :: "tid list"
  k_sem :: "nat \<Rightarrow> rt_semaphore"
  k_mutex :: "nat \<Rightarrow> rt_mutex"
  k_event :: "nat \<Rightarrow> rt_event"
  k_mailbox :: "nat \<Rightarrow> rt_mailbox"
  k_mq :: "nat \<Rightarrow> rt_messagequeue"
  k_mempool :: "nat \<Rightarrow> rt_mempool"

section \<open>Field updates\<close>

definition thread_upd :: "tid \<Rightarrow> (rt_thread \<Rightarrow> rt_thread) \<Rightarrow> kernel \<Rightarrow> kernel" where
  "thread_upd t f k = k\<lparr>k_thread := (k_thread k)(t := f (k_thread k t))\<rparr>"

definition timer_upd :: "timer_id \<Rightarrow> (rt_timer \<Rightarrow> rt_timer) \<Rightarrow> kernel \<Rightarrow> kernel" where
  "timer_upd i f k = k\<lparr>k_timer := (k_timer k)(i := f (k_timer k i))\<rparr>"

definition sem_upd :: "nat \<Rightarrow> (rt_semaphore \<Rightarrow> rt_semaphore) \<Rightarrow> kernel \<Rightarrow> kernel" where
  "sem_upd i f k = k\<lparr>k_sem := (k_sem k)(i := f (k_sem k i))\<rparr>"

definition mutex_upd :: "nat \<Rightarrow> (rt_mutex \<Rightarrow> rt_mutex) \<Rightarrow> kernel \<Rightarrow> kernel" where
  "mutex_upd i f k = k\<lparr>k_mutex := (k_mutex k)(i := f (k_mutex k i))\<rparr>"

definition event_upd :: "nat \<Rightarrow> (rt_event \<Rightarrow> rt_event) \<Rightarrow> kernel \<Rightarrow> kernel" where
  "event_upd i f k = k\<lparr>k_event := (k_event k)(i := f (k_event k i))\<rparr>"

definition mailbox_upd :: "nat \<Rightarrow> (rt_mailbox \<Rightarrow> rt_mailbox) \<Rightarrow> kernel \<Rightarrow> kernel" where
  "mailbox_upd i f k = k\<lparr>k_mailbox := (k_mailbox k)(i := f (k_mailbox k i))\<rparr>"

definition mq_upd :: "nat \<Rightarrow> (rt_messagequeue \<Rightarrow> rt_messagequeue) \<Rightarrow> kernel \<Rightarrow> kernel" where
  "mq_upd i f k = k\<lparr>k_mq := (k_mq k)(i := f (k_mq k i))\<rparr>"

definition mempool_upd :: "nat \<Rightarrow> (rt_mempool \<Rightarrow> rt_mempool) \<Rightarrow> kernel \<Rightarrow> kernel" where
  "mempool_upd i f k = k\<lparr>k_mempool := (k_mempool k)(i := f (k_mempool k i))\<rparr>"

lemmas field_upd_defs [rt_defs] =
  thread_upd_def timer_upd_def sem_upd_def mutex_upd_def event_upd_def mailbox_upd_def
  mq_upd_def mempool_upd_def

text \<open>The zeroed memory the kernel starts from, for concrete instances.\<close>

definition thread0 :: rt_thread where
  "thread0 = \<lparr>th_stat = 0, th_ttmr_set = False, th_init_tick = 10, th_remaining_tick = 10,
     th_current_priority = 10, th_init_priority = 10, th_number_mask = 0, th_error = 0,
     th_taken = [], th_pending = None, th_event_set = 0, th_event_info = 0\<rparr>"

definition kernel0 :: kernel where
  "kernel0 = \<lparr>k_tick = 0, k_int_nest = 0, k_thread = (\<lambda>_. thread0),
     k_queue = (\<lambda>_. []), k_ready_group = 0, k_lock_nest = 0, k_current = None,
     k_current_priority = 0,
     k_timer = (\<lambda>_. \<lparr>tm_flag = 0, tm_timeout_func = User_timeout 0, tm_parameter = 0,
        tm_init_tick = 0, tm_timeout_tick = 0\<rparr>),
     k_timer_list = [], k_timer_run = [], k_defunct = [],
     k_sem = (\<lambda>_. \<lparr>sem_value = 0, sem_max_value = 65535, sem_flag = RT_IPC_FLAG_FIFO\<rparr>),
     k_mutex = (\<lambda>_. \<lparr>mx_ceiling_priority = 255, mx_priority = 255, mx_hold = 0, mx_owner = None,
        mx_flag = RT_IPC_FLAG_PRIO\<rparr>),
     k_event = (\<lambda>_. \<lparr>ev_set = 0, ev_flag = RT_IPC_FLAG_FIFO\<rparr>),
     k_mailbox = (\<lambda>_. \<lparr>mb_msg_pool = [], mb_size = 0, mb_entry = 0, mb_in_offset = 0,
        mb_out_offset = 0, mb_flag = RT_IPC_FLAG_FIFO\<rparr>),
     k_mq = (\<lambda>_. \<lparr>mq_msg_size = 0, mq_max_msgs = 0, mq_entry = 0, mq_queue_head = None,
        mq_queue_tail = None, mq_queue_free = None,
        mq_msgs = (\<lambda>_. \<lparr>msg_next = None, msg_length = 0, msg_data = []\<rparr>), mq_flag = RT_IPC_FLAG_FIFO\<rparr>),
     k_mempool = (\<lambda>_. \<lparr>mp_size = 0, mp_block_size = 0, mp_block_list = None,
        mp_block_total_count = 0, mp_block_free_count = 0, mp_word = (\<lambda>_. Free_next None)\<rparr>)\<rparr>"

section \<open>List operations on threads\<close>

text \<open>\<^verbatim>\<open>rt_list_remove(&RT_THREAD_LIST_NODE(thread))\<close>\<close>

definition node_remove :: "tid \<Rightarrow> kernel \<Rightarrow> kernel" where
  "node_remove t k = k\<lparr>k_queue := (\<lambda>q. removeAll t (k_queue k q)),
                         k_defunct := removeAll t (k_defunct k)\<rparr>"

text \<open>\<^verbatim>\<open>rt_list_insert_before(&head, node)\<close>: at the end of the list.\<close>

definition queue_insert_before :: "list_head \<Rightarrow> tid \<Rightarrow> kernel \<Rightarrow> kernel" where
  "queue_insert_before q t k = k\<lparr>k_queue := (k_queue k)(q := k_queue k q @ [t])\<rparr>"

text \<open>\<^verbatim>\<open>rt_list_insert_after(&head, node)\<close>: at the front of the list.\<close>

definition queue_insert_after :: "list_head \<Rightarrow> tid \<Rightarrow> kernel \<Rightarrow> kernel" where
  "queue_insert_after q t k = k\<lparr>k_queue := (k_queue k)(q := t # k_queue k q)\<rparr>"

lemmas queue_defs [rt_defs] = node_remove_def queue_insert_before_def queue_insert_after_def

section \<open>Thread status words\<close>

abbreviation (input) RT_THREAD_INIT :: u8 where "RT_THREAD_INIT \<equiv> 0"
abbreviation (input) RT_THREAD_CLOSE :: u8 where "RT_THREAD_CLOSE \<equiv> 1"
abbreviation (input) RT_THREAD_READY :: u8 where "RT_THREAD_READY \<equiv> 2"
abbreviation (input) RT_THREAD_RUNNING :: u8 where "RT_THREAD_RUNNING \<equiv> 3"
abbreviation (input) RT_THREAD_SUSPEND_MASK :: u8 where "RT_THREAD_SUSPEND_MASK \<equiv> 4"
abbreviation (input) RT_THREAD_SUSPEND :: u8 where "RT_THREAD_SUSPEND \<equiv> 4"
abbreviation (input) RT_THREAD_SUSPEND_INTERRUPTIBLE :: u8 where "RT_THREAD_SUSPEND_INTERRUPTIBLE \<equiv> 4"
abbreviation (input) RT_THREAD_SUSPEND_KILLABLE :: u8 where "RT_THREAD_SUSPEND_KILLABLE \<equiv> 6"
abbreviation (input) RT_THREAD_SUSPEND_UNINTERRUPTIBLE :: u8 where "RT_THREAD_SUSPEND_UNINTERRUPTIBLE \<equiv> 7"
abbreviation (input) RT_THREAD_STAT_MASK :: u8 where "RT_THREAD_STAT_MASK \<equiv> 7"
abbreviation (input) RT_THREAD_STAT_YIELD :: u8 where "RT_THREAD_STAT_YIELD \<equiv> 8"
abbreviation (input) RT_THREAD_STAT_YIELD_MASK :: u8 where "RT_THREAD_STAT_YIELD_MASK \<equiv> 8"

abbreviation (input) RT_THREAD_PRIORITY_MAX :: nat where "RT_THREAD_PRIORITY_MAX \<equiv> 32"

text \<open>The expression \<^verbatim>\<open>s | (stat & ~RT_THREAD_STAT_MASK)\<close> and the reads of the status field.\<close>

definition stat_with :: "u8 \<Rightarrow> u8 \<Rightarrow> u8" where
  "stat_with s st = s OR (st AND NOT RT_THREAD_STAT_MASK)"

definition stat_of :: "rt_thread \<Rightarrow> u8" where
  "stat_of th = th_stat th AND RT_THREAD_STAT_MASK"

definition stat_yield :: "rt_thread \<Rightarrow> bool" where
  "stat_yield th \<longleftrightarrow> th_stat th AND RT_THREAD_STAT_YIELD_MASK \<noteq> 0"

definition stat_suspended :: "rt_thread \<Rightarrow> bool" where
  "stat_suspended th \<longleftrightarrow> th_stat th AND RT_THREAD_SUSPEND_MASK = RT_THREAD_SUSPEND_MASK"

lemma mask_3_u8: "(7 :: u8) = mask 3"
  by (simp add: mask_eq_exp_minus_1)

lemma stat_with_and_7 [simp]: "stat_with s st AND 7 = s AND 7"
  unfolding stat_with_def mask_3_u8 by (rule bit_word_eqI) (auto simp: bit_simps)

lemma bit_8_int: "bit (8 :: int) n \<longleftrightarrow> n = 3"
proof -
  have "(8 :: int) = 2 ^ 3" by simp
  then show ?thesis by (simp only: bit_exp_iff) auto
qed

lemma bit_4_int: "bit (4 :: int) n \<longleftrightarrow> n = 2"
proof -
  have "(4 :: int) = 2 ^ 2" by simp
  then show ?thesis by (simp only: bit_exp_iff) auto
qed

lemmas stat_bits = bit_and_iff bit_or_iff bit_not_iff bit_mask_iff bit_8_int bit_4_int

lemma stat_with_yield [simp]: "s AND 8 = 0 \<Longrightarrow> stat_with s st AND 8 = st AND 8"
proof -
  assume a: "s AND 8 = 0"
  have "\<not> bit s 3"
  proof
    assume "bit s 3"
    then have "bit (s AND 8) 3" by (simp add: stat_bits)
    with a show False by simp
  qed
  then show ?thesis
    unfolding stat_with_def mask_3_u8
    by (intro bit_word_eqI) (auto simp: stat_bits)
qed

lemma and_7_and_4: "(w :: u8) AND 4 = (w AND 7) AND 4"
  unfolding mask_3_u8 by (rule bit_word_eqI) (auto simp: stat_bits)

lemma suspended_iff: "stat_suspended th \<longleftrightarrow> stat_of th AND 4 = 4"
  unfolding stat_suspended_def stat_of_def by (subst and_7_and_4) simp

lemma stat_not_suspended [simp]:
  "stat_of th = 2 \<Longrightarrow> \<not> stat_suspended th"
  "stat_of th = 3 \<Longrightarrow> \<not> stat_suspended th"
  by (simp_all add: suspended_iff)

end
