(* ===== verification/Timer.thy ===== *)
theory Timer
  imports KernelState
begin

text \<open>
  The hard timers of \<^verbatim>\<open>src/timer.c\<close>: creation, starting, stopping and control. Ticks are
  32-bit words that wrap; the active timers form one list ordered by deadline. The expiry loop
  \<^verbatim>\<open>rt_timer_check\<close>, which calls back into threads, is in theory \<open>Clock\<close>. The invariant
  \<open>timer_window\<close> says that all deadlines lie in one half of the tick circle; under it the
  wrap-around comparison of the source is the order of the remaining times.
\<close>

section \<open>Operations\<close>

abbreviation (input) RT_TIMER_FLAG_ACTIVATED :: u8 where "RT_TIMER_FLAG_ACTIVATED \<equiv> 1"
abbreviation (input) RT_TIMER_FLAG_PROCESSING :: u8 where "RT_TIMER_FLAG_PROCESSING \<equiv> 2"
abbreviation (input) RT_TIMER_FLAG_ONE_SHOT :: u8 where "RT_TIMER_FLAG_ONE_SHOT \<equiv> 0"
abbreviation (input) RT_TIMER_FLAG_PERIODIC :: u8 where "RT_TIMER_FLAG_PERIODIC \<equiv> 4"
abbreviation (input) RT_TIMER_FLAG_THREAD_TIMER :: u8 where "RT_TIMER_FLAG_THREAD_TIMER \<equiv> 16"

text \<open>\<^verbatim>\<open>RT_TICK_MAX / 2\<close>\<close>

abbreviation (input) TICK_HALF :: u32 where "TICK_HALF \<equiv> 0x7FFFFFFF"
abbreviation (input) RT_TICK_MAX :: u32 where "RT_TICK_MAX \<equiv> 0xFFFFFFFF"

definition tm_flag_set :: "u8 \<Rightarrow> rt_timer \<Rightarrow> rt_timer" where
  "tm_flag_set f tm = tm\<lparr>tm_flag := tm_flag tm OR f\<rparr>"

definition tm_flag_clear :: "u8 \<Rightarrow> rt_timer \<Rightarrow> rt_timer" where
  "tm_flag_clear f tm = tm\<lparr>tm_flag := tm_flag tm AND NOT f\<rparr>"

definition tm_has :: "u8 \<Rightarrow> rt_timer \<Rightarrow> bool" where
  "tm_has f tm \<longleftrightarrow> tm_flag tm AND f \<noteq> 0"

definition timer_init :: "rt_timer_func \<Rightarrow> nat \<Rightarrow> u32 \<Rightarrow> u8 \<Rightarrow> rt_timer" where
  "timer_init timeout parameter time flag =
     tm_flag_clear RT_TIMER_FLAG_ACTIVATED
       \<lparr>tm_flag = flag, tm_timeout_func = timeout, tm_parameter = parameter,
        tm_init_tick = time, tm_timeout_tick = 0\<rparr>"

text \<open>\<^verbatim>\<open>_timer_remove\<close>: the node leaves whichever list it is in.\<close>

definition timer_remove :: "timer_id \<Rightarrow> kernel \<Rightarrow> kernel" where
  "timer_remove i k = k\<lparr>k_timer_list := removeAll i (k_timer_list k),
                        k_timer_run := removeAll i (k_timer_run k)\<rparr>"

text \<open>Initialising links the node to itself; \<open>None\<close> is the failed assertion on the time.\<close>

definition rt_timer_init ::
  "timer_id \<Rightarrow> rt_timer_func \<Rightarrow> nat \<Rightarrow> u32 \<Rightarrow> u8 \<Rightarrow> kernel \<Rightarrow> kernel option" where
  "rt_timer_init i timeout parameter time flag k =
     (if time < TICK_HALF
      then Some (timer_upd i (\<lambda>_. timer_init timeout parameter time flag) (timer_remove i k))
      else None)"

definition rt_timer_detach :: "timer_id \<Rightarrow> kernel \<Rightarrow> rt_err_t \<times> kernel" where
  "rt_timer_detach i k =
     (RT_EOK, timer_upd i (tm_flag_clear RT_TIMER_FLAG_ACTIVATED) (timer_remove i k))"

text \<open>
  The search loop of \<^verbatim>\<open>_timer_start\<close> followed by the insertion: walk past timers that expire
  at the same tick or earlier, stop before the first one that expires later.
\<close>

fun timer_row_insert :: "(timer_id \<Rightarrow> u32) \<Rightarrow> timer_id \<Rightarrow> timer_id list \<Rightarrow> timer_id list" where
  "timer_row_insert tick x [] = [x]"
| "timer_row_insert tick x (t # ts) =
     (if tick t - tick x = 0 then t # timer_row_insert tick x ts
      else if tick t - tick x < TICK_HALF then x # t # ts
      else t # timer_row_insert tick x ts)"

definition timer_start :: "timer_id \<Rightarrow> kernel \<Rightarrow> rt_err_t \<times> kernel" where
  "timer_start i k =
     (if tm_has RT_TIMER_FLAG_PROCESSING (k_timer k i) then (- RT_ERROR, k)
      else let k1 = timer_upd i (tm_flag_clear RT_TIMER_FLAG_ACTIVATED) (timer_remove i k);
               k2 = timer_upd i (\<lambda>tm. tm\<lparr>tm_timeout_tick := k_tick k1 + tm_init_tick tm\<rparr>) k1;
               k3 = k2\<lparr>k_timer_list :=
                         timer_row_insert (\<lambda>j. tm_timeout_tick (k_timer k2 j)) i (k_timer_list k2)\<rparr>
           in (RT_EOK, timer_upd i (tm_flag_set RT_TIMER_FLAG_ACTIVATED) k3))"

definition rt_sched_thread_timer_start :: "tid \<Rightarrow> kernel \<Rightarrow> kernel" where
  "rt_sched_thread_timer_start t = thread_upd t (\<lambda>th. th\<lparr>th_ttmr_set := True\<rparr>)"

definition rt_timer_start :: "timer_id \<Rightarrow> kernel \<Rightarrow> rt_err_t \<times> kernel" where
  "rt_timer_start i k =
     (let k1 = (case i of
                  Thread_timer t \<Rightarrow>
                    if tm_has RT_TIMER_FLAG_THREAD_TIMER (k_timer k i)
                    then rt_sched_thread_timer_start t k else k
                | User_timer n \<Rightarrow> k)
      in timer_start i k1)"

definition rt_timer_stop :: "timer_id \<Rightarrow> kernel \<Rightarrow> rt_err_t \<times> kernel" where
  "rt_timer_stop i k =
     (if \<not> tm_has RT_TIMER_FLAG_ACTIVATED (k_timer k i) then (- RT_ERROR, k)
      else (RT_EOK, timer_upd i (tm_flag_clear RT_TIMER_FLAG_ACTIVATED) (timer_remove i k)))"

datatype timer_cmd =
    CTRL_SET_TIME u32 | CTRL_GET_TIME | CTRL_SET_ONESHOT | CTRL_SET_PERIODIC
  | CTRL_GET_STATE | CTRL_GET_REMAIN_TIME | CTRL_GET_FUNC | CTRL_SET_FUNC rt_timer_func
  | CTRL_GET_PARM | CTRL_SET_PARM nat | CTRL_OTHER

text \<open>What a control command stores through its argument pointer.\<close>

datatype timer_arg = Arg_none | Arg_tick u32 | Arg_state u32 | Arg_func rt_timer_func | Arg_parm nat

fun rt_timer_control :: "timer_id \<Rightarrow> timer_cmd \<Rightarrow> kernel \<Rightarrow> (rt_err_t \<times> timer_arg \<times> kernel) option" where
  "rt_timer_control i CTRL_GET_TIME k = Some (RT_EOK, Arg_tick (tm_init_tick (k_timer k i)), k)"
| "rt_timer_control i (CTRL_SET_TIME time) k =
     (if time < TICK_HALF
      then let k1 = (if tm_has RT_TIMER_FLAG_ACTIVATED (k_timer k i)
                     then timer_upd i (tm_flag_clear RT_TIMER_FLAG_ACTIVATED) (timer_remove i k)
                     else k)
           in Some (RT_EOK, Arg_none, timer_upd i (\<lambda>tm. tm\<lparr>tm_init_tick := time\<rparr>) k1)
      else None)"
| "rt_timer_control i CTRL_SET_ONESHOT k =
     Some (RT_EOK, Arg_none, timer_upd i (tm_flag_clear RT_TIMER_FLAG_PERIODIC) k)"
| "rt_timer_control i CTRL_SET_PERIODIC k =
     Some (RT_EOK, Arg_none, timer_upd i (tm_flag_set RT_TIMER_FLAG_PERIODIC) k)"
| "rt_timer_control i CTRL_GET_STATE k =
     Some (RT_EOK, Arg_state (if tm_has RT_TIMER_FLAG_ACTIVATED (k_timer k i) then 1 else 0), k)"
| "rt_timer_control i CTRL_GET_REMAIN_TIME k =
     Some (RT_EOK, Arg_tick (tm_timeout_tick (k_timer k i)), k)"
| "rt_timer_control i CTRL_GET_FUNC k = Some (RT_EOK, Arg_func (tm_timeout_func (k_timer k i)), k)"
| "rt_timer_control i (CTRL_SET_FUNC f) k =
     Some (RT_EOK, Arg_none, timer_upd i (\<lambda>tm. tm\<lparr>tm_timeout_func := f\<rparr>) k)"
| "rt_timer_control i CTRL_GET_PARM k = Some (RT_EOK, Arg_parm (tm_parameter (k_timer k i)), k)"
| "rt_timer_control i (CTRL_SET_PARM p) k =
     Some (RT_EOK, Arg_none, timer_upd i (\<lambda>tm. tm\<lparr>tm_parameter := p\<rparr>) k)"
| "rt_timer_control i CTRL_OTHER k = Some (RT_EOK, Arg_none, k)"

text \<open>\<^verbatim>\<open>_timer_list_next_timeout\<close> and the query built on it.\<close>

definition timer_list_next_timeout :: "kernel \<Rightarrow> u32 option" where
  "timer_list_next_timeout k =
     (case k_timer_list k of [] \<Rightarrow> None | i # _ \<Rightarrow> Some (tm_timeout_tick (k_timer k i)))"

definition rt_timer_next_timeout_tick :: "kernel \<Rightarrow> u32" where
  "rt_timer_next_timeout_tick k =
     (case timer_list_next_timeout k of None \<Rightarrow> RT_TICK_MAX | Some t \<Rightarrow> t)"

definition rt_system_timer_init :: "kernel \<Rightarrow> kernel" where
  "rt_system_timer_init k = k\<lparr>k_timer_list := []\<rparr>"

lemmas timer_flag_defs [rt_defs] = tm_flag_set_def tm_flag_clear_def tm_has_def

section \<open>Deadlines on the tick circle\<close>

text \<open>Ticks from \<open>base\<close> to a deadline, going forward on the circle.\<close>

definition ticks_from :: "u32 \<Rightarrow> u32 \<Rightarrow> nat" where
  "ticks_from base t = unat (t - base)"

definition in_window :: "u32 \<Rightarrow> u32 \<Rightarrow> bool" where
  "in_window base t \<longleftrightarrow> ticks_from base t < 0x7FFFFFFF"

lemma unat_diff_circle:
  "unat (b - a :: u32) =
     (if ticks_from c a \<le> ticks_from c b then ticks_from c b - ticks_from c a
      else 2 ^ 32 + ticks_from c b - ticks_from c a)"
proof -
  have e: "b - a = (b - c) - (a - c)" by simp
  show ?thesis
    unfolding ticks_from_def e using unat_sub_if_size [of "b - c" "a - c"] unfolding word_size
    by (simp only: add.commute [of "2 ^ 32"] flip: e) simp
qed

lemma later_iff:
  assumes "in_window c a" and "in_window c b"
  shows "b - a \<noteq> 0 \<and> b - a < TICK_HALF \<longleftrightarrow> ticks_from c a < ticks_from c b"
    and "b - a = 0 \<longleftrightarrow> ticks_from c a = ticks_from c b"
    and "b - a < TICK_HALF \<longleftrightarrow> ticks_from c a \<le> ticks_from c b"
proof -
  have u: "unat (TICK_HALF) = 0x7FFFFFFF" by simp
  have z: "b - a = 0 \<longleftrightarrow> unat (b - a) = 0" by (simp only: unsigned_eq_0_iff)
  have l: "b - a < TICK_HALF \<longleftrightarrow> unat (b - a) < 0x7FFFFFFF" by (simp add: word_less_nat_alt)
  show "b - a \<noteq> 0 \<and> b - a < TICK_HALF \<longleftrightarrow> ticks_from c a < ticks_from c b"
    "b - a = 0 \<longleftrightarrow> ticks_from c a = ticks_from c b"
    "b - a < TICK_HALF \<longleftrightarrow> ticks_from c a \<le> ticks_from c b"
    using assms unfolding z l unat_diff_circle [of b a c] in_window_def by auto
qed

definition timer_deadline :: "kernel \<Rightarrow> timer_id \<Rightarrow> u32" where
  "timer_deadline k i = tm_timeout_tick (k_timer k i)"

definition timer_window :: "u32 \<Rightarrow> kernel \<Rightarrow> bool" where
  "timer_window base k \<longleftrightarrow>
     (\<forall>i \<in> set (k_timer_list k). in_window base (timer_deadline k i)) \<and>
     sorted (map (ticks_from base \<circ> timer_deadline k) (k_timer_list k)) \<and>
     distinct (k_timer_list k)"

lemma row_insert_set [simp]: "set (timer_row_insert tick x ts) = insert x (set ts)"
  by (induction ts) auto

lemma row_insert_distinct: "x \<notin> set ts \<Longrightarrow> distinct ts \<Longrightarrow> distinct (timer_row_insert tick x ts)"
  by (induction ts) auto

text \<open>In a window the insertion is insertion by remaining time, after equal deadlines.\<close>

lemma row_insert_split:
  assumes "\<forall>t \<in> set ts. in_window base (tick t)" and "in_window base (tick x)"
    and "sorted (map (ticks_from base \<circ> tick) ts)"
  shows "timer_row_insert tick x ts =
    filter (\<lambda>t. ticks_from base (tick t) \<le> ticks_from base (tick x)) ts @ x #
    filter (\<lambda>t. ticks_from base (tick x) < ticks_from base (tick t)) ts"
  using assms
proof (induction ts)
  case Nil
  then show ?case by simp
next
  case (Cons t ts)
  have w: "in_window base (tick t)" "in_window base (tick x)" using Cons.prems by auto
  note li = later_iff [OF w(2) w(1)]
  show ?case
  proof (cases "ticks_from base (tick t) \<le> ticks_from base (tick x)")
    case True
    then have "tick t - tick x = 0 \<or> \<not> tick t - tick x < TICK_HALF" using li by auto
    with True Cons show ?thesis by auto
  next
    case False
    then have n: "tick t - tick x \<noteq> 0" "tick t - tick x < TICK_HALF" using li by auto
    have "\<forall>u \<in> set ts. ticks_from base (tick x) < ticks_from base (tick u)"
      using Cons.prems(3) False by auto
    then have "filter (\<lambda>t. ticks_from base (tick t) \<le> ticks_from base (tick x)) ts = []"
      "filter (\<lambda>t. ticks_from base (tick x) < ticks_from base (tick t)) ts = ts"
      by (auto simp: filter_empty_conv not_le intro: filter_True)
    with n False show ?thesis by auto
  qed
qed

section \<open>Flags\<close>

lemma and_bit_iff: "(w :: u8) AND push_bit n 1 \<noteq> 0 \<longleftrightarrow> n < 8 \<and> bit w n"
proof
  assume "w AND push_bit n 1 \<noteq> 0"
  then obtain m where "bit (w AND push_bit n 1) m" by (auto simp: bit_eq_iff)
  then show "n < 8 \<and> bit w n" by (auto simp: bit_and_iff bit_exp_iff)
next
  assume "n < 8 \<and> bit w n"
  then have "bit (w AND push_bit n 1) n" by (simp add: bit_and_iff bit_exp_iff)
  then show "w AND push_bit n 1 \<noteq> 0" by auto
qed

lemma flag_bits:
  "(w :: u8) AND 1 \<noteq> 0 \<longleftrightarrow> bit w 0" "w AND 2 \<noteq> 0 \<longleftrightarrow> bit w 1"
  "w AND 4 \<noteq> 0 \<longleftrightarrow> bit w 2" "w AND 16 \<noteq> 0 \<longleftrightarrow> bit w 4"
  using and_bit_iff [of w 0] and_bit_iff [of w 1] and_bit_iff [of w 2] and_bit_iff [of w 4]
  by simp_all

lemma tm_has_bits:
  "tm_has 1 tm \<longleftrightarrow> bit (tm_flag tm) 0" "tm_has 2 tm \<longleftrightarrow> bit (tm_flag tm) 1"
  "tm_has 4 tm \<longleftrightarrow> bit (tm_flag tm) 2" "tm_has 16 tm \<longleftrightarrow> bit (tm_flag tm) 4"
  by (simp_all only: tm_has_def flag_bits)

lemma bit_u8_numerals:
  "bit (1 :: u8) n \<longleftrightarrow> n = 0" "bit (2 :: int) n \<longleftrightarrow> n = 1"
proof -
  show "bit (1 :: u8) n \<longleftrightarrow> n = 0" by (auto simp: bit_1_iff)
  show "bit (2 :: int) n \<longleftrightarrow> n = 1" using bit_exp_iff [of 1 n, where ?'a = int] by auto
qed

lemmas flag_simps = bit_and_iff bit_or_iff bit_not_iff bit_u8_numerals bit_4_int

lemma tm_flag_set_has [simp]:
  "tm_has 1 (tm_flag_set 1 tm)" "tm_has 2 (tm_flag_set 2 tm)"
  "tm_has 2 (tm_flag_set 1 tm) = tm_has 2 tm" "tm_has 4 (tm_flag_set 1 tm) = tm_has 4 tm"
  "tm_has 16 (tm_flag_set 1 tm) = tm_has 16 tm"
  "tm_has 1 (tm_flag_set 2 tm) = tm_has 1 tm" "tm_has 4 (tm_flag_set 2 tm) = tm_has 4 tm"
  by (simp_all add: tm_has_bits tm_flag_set_def flag_simps)

lemma tm_flag_clear_has [simp]:
  "\<not> tm_has 1 (tm_flag_clear 1 tm)" "\<not> tm_has 2 (tm_flag_clear 2 tm)"
  "tm_has 2 (tm_flag_clear 1 tm) = tm_has 2 tm" "tm_has 4 (tm_flag_clear 1 tm) = tm_has 4 tm"
  "tm_has 16 (tm_flag_clear 1 tm) = tm_has 16 tm"
  "tm_has 1 (tm_flag_clear 2 tm) = tm_has 1 tm" "tm_has 4 (tm_flag_clear 2 tm) = tm_has 4 tm"
  by (simp_all add: tm_has_bits tm_flag_clear_def flag_simps)

lemma tm_flag_frame [simp]:
  "tm_timeout_tick (tm_flag_set f tm) = tm_timeout_tick tm"
  "tm_init_tick (tm_flag_set f tm) = tm_init_tick tm"
  "tm_timeout_func (tm_flag_set f tm) = tm_timeout_func tm"
  "tm_parameter (tm_flag_set f tm) = tm_parameter tm"
  "tm_timeout_tick (tm_flag_clear f tm) = tm_timeout_tick tm"
  "tm_init_tick (tm_flag_clear f tm) = tm_init_tick tm"
  "tm_timeout_func (tm_flag_clear f tm) = tm_timeout_func tm"
  "tm_parameter (tm_flag_clear f tm) = tm_parameter tm"
  by (simp_all add: tm_flag_set_def tm_flag_clear_def)

lemma tm_has_update [simp]:
  "tm_has f (tm\<lparr>tm_init_tick := a\<rparr>) = tm_has f tm"
  "tm_has f (tm\<lparr>tm_timeout_tick := a\<rparr>) = tm_has f tm"
  by (simp_all add: tm_has_def)

section \<open>The timer invariant\<close>

text \<open>A timer is linked into the list, or is the one whose handler runs, when it is active.\<close>

definition timer_linked :: "kernel \<Rightarrow> bool" where
  "timer_linked k \<longleftrightarrow>
     (\<forall>i. i \<in> set (k_timer_list k) \<longrightarrow> tm_has RT_TIMER_FLAG_ACTIVATED (k_timer k i)) \<and>
     (\<forall>i. tm_has RT_TIMER_FLAG_ACTIVATED (k_timer k i) \<longrightarrow>
        i \<in> set (k_timer_list k) \<union> set (k_timer_run k))"

definition timer_inv :: "u32 \<Rightarrow> kernel \<Rightarrow> bool" where
  "timer_inv base k \<longleftrightarrow> timer_window base k \<and> timer_linked k"

lemma timer_row_cong:
  "(\<And>t. t \<in> insert x (set ts) \<Longrightarrow> f t = g t) \<Longrightarrow> timer_row_insert f x ts = timer_row_insert g x ts"
  by (induction ts) auto

lemma sorted_removeAll: "sorted (map f xs) \<Longrightarrow> sorted (map f (removeAll x xs))"
  by (induction xs) auto

lemma sorted_row_split:
  assumes "sorted (map f ts)"
  shows "sorted (map f (filter (\<lambda>t. f t \<le> f x) ts @ x # filter (\<lambda>t. f x < f t) ts))"
  using assms by (induction ts) (auto simp: sorted_append intro: order_trans less_imp_le)

lemma sorted_split_removeAll:
  assumes "sorted (map (f \<circ> g) ts)"
  shows "filter (\<lambda>j. j \<noteq> i \<and> f (g j) \<le> c) ts @ filter (\<lambda>j. j \<noteq> i \<and> c < f (g j)) ts = removeAll i ts"
  using assms
proof (induction ts)
  case (Cons t ts)
  then have "c < f (g t) \<Longrightarrow> filter (\<lambda>j. j \<noteq> i \<and> f (g j) \<le> c) ts = []"
    by (auto simp: filter_empty_conv)
  with Cons show ?case by auto
qed simp

text \<open>The whole effect of starting a timer on the list.\<close>

lemma timer_start_list:
  assumes w: "timer_window base k" and n: "in_window base (k_tick k + tm_init_tick (k_timer k i))"
    and p: "\<not> tm_has RT_TIMER_FLAG_PROCESSING (k_timer k i)"
    and r: "timer_start i k = (e, k')"
  shows "e = RT_EOK"
    and "timer_deadline k' = (timer_deadline k)(i := k_tick k + tm_init_tick (k_timer k i))"
    and "k_timer_list k' =
      filter (\<lambda>j. j \<noteq> i \<and> ticks_from base (timer_deadline k j) \<le> ticks_from base (timer_deadline k' i))
        (k_timer_list k) @ i #
      filter (\<lambda>j. j \<noteq> i \<and> ticks_from base (timer_deadline k' i) < ticks_from base (timer_deadline k j))
        (k_timer_list k)"
    and "timer_window base k'"
proof -
  let ?d = "k_tick k + tm_init_tick (k_timer k i)"
  define ts where "ts = removeAll i (k_timer_list k)"
  show e: "e = RT_EOK" using r p by (auto simp: timer_start_def Let_def)
  show d: "timer_deadline k' = (timer_deadline k)(i := ?d)"
    using r p by (auto simp: timer_start_def Let_def timer_deadline_def timer_upd_def timer_remove_def)
  have l: "k_timer_list k' = timer_row_insert ((timer_deadline k)(i := ?d)) i ts"
    using r p
    by (auto simp: timer_start_def Let_def timer_deadline_def timer_upd_def timer_remove_def ts_def
        intro!: timer_row_cong)
  have s: "sorted (map (ticks_from base \<circ> timer_deadline k) ts)"
    using w by (auto simp: ts_def timer_window_def intro: sorted_removeAll)
  have m: "map (ticks_from base \<circ> (timer_deadline k)(i := ?d)) ts = map (ticks_from base \<circ> timer_deadline k) ts"
    by (auto simp: ts_def)
  have win: "\<forall>t \<in> set ts. in_window base (((timer_deadline k)(i := ?d)) t)"
    using w by (auto simp: ts_def timer_window_def)
  have split: "k_timer_list k' =
      filter (\<lambda>t. ticks_from base (timer_deadline k' t) \<le> ticks_from base ?d) ts @ i #
      filter (\<lambda>t. ticks_from base ?d < ticks_from base (timer_deadline k' t)) ts"
    using row_insert_split [where tick = "(timer_deadline k)(i := ?d)" and x = i, OF win] s m n d l
    by simp
  have ff: "\<And>P. filter P ts = filter (\<lambda>j. j \<noteq> i \<and> P j) (k_timer_list k)"
    by (simp add: ts_def removeAll_filter_not_eq conj_commute eq_commute)
  show "k_timer_list k' =
      filter (\<lambda>j. j \<noteq> i \<and> ticks_from base (timer_deadline k j) \<le> ticks_from base (timer_deadline k' i))
        (k_timer_list k) @ i #
      filter (\<lambda>j. j \<noteq> i \<and> ticks_from base (timer_deadline k' i) < ticks_from base (timer_deadline k j))
        (k_timer_list k)"
    unfolding split ff d by (auto intro!: filter_cong arg_cong2 [where f = "(@)"])
  have "sorted (map (ticks_from base \<circ> timer_deadline k') (k_timer_list k'))"
    using sorted_row_split [of "ticks_from base \<circ> timer_deadline k'" ts i] s m d split by simp
  moreover have "distinct (k_timer_list k')"
    unfolding l using w by (intro row_insert_distinct) (auto simp: ts_def timer_window_def distinct_removeAll)
  moreover have "\<forall>j \<in> set (k_timer_list k'). in_window base (timer_deadline k' j)"
    unfolding l using win n d by (auto simp: ts_def)
  ultimately show "timer_window base k'" by (simp add: timer_window_def)
qed

lemma timer_start_linked:
  assumes "timer_linked k" and "timer_start i k = (e, k')"
  shows "timer_linked k'"
proof (cases "tm_has RT_TIMER_FLAG_PROCESSING (k_timer k i)")
  case True
  with assms show ?thesis by (simp add: timer_start_def)
next
  case False
  have "k' = snd (timer_start i k)" using assms(2) by simp
  with False assms(1) show ?thesis
    by (auto simp: timer_start_def Let_def timer_linked_def timer_upd_def timer_remove_def)
qed

lemma timer_start_run:
  "timer_start i k = (e, k') \<Longrightarrow> \<not> tm_has RT_TIMER_FLAG_PROCESSING (k_timer k i) \<Longrightarrow>
     tm_has RT_TIMER_FLAG_ACTIVATED (k_timer k' i)"
  by (auto simp: timer_start_def Let_def timer_upd_def)

lemma timer_window_cong:
  "k_timer_list k' = k_timer_list k \<Longrightarrow> timer_deadline k' = timer_deadline k \<Longrightarrow>
     timer_window base k' = timer_window base k"
  by (simp add: timer_window_def)

lemma deadline_upd:
  "tm_timeout_tick (f (k_timer k i)) = tm_timeout_tick (k_timer k i) \<Longrightarrow>
     timer_deadline (timer_upd i f k) = timer_deadline k"
  by (auto simp: timer_deadline_def timer_upd_def)

lemma timer_upd_list [simp]:
  "k_timer_list (timer_upd i f k) = k_timer_list k" "k_timer_run (timer_upd i f k) = k_timer_run k"
  by (simp_all add: timer_upd_def)

lemma timer_remove_window:
  assumes "timer_window base k"
  shows "timer_window base (timer_upd i (tm_flag_clear f) (timer_remove i k))"
proof -
  have "timer_window base (timer_remove i k)"
    using assms by (auto simp: timer_window_def timer_remove_def timer_deadline_def comp_def
        distinct_removeAll intro!: sorted_removeAll)
  then show ?thesis by (subst timer_window_cong) (simp_all add: deadline_upd)
qed

lemma timer_remove_linked:
  "timer_linked k \<Longrightarrow>
     timer_linked (timer_upd i (tm_flag_clear RT_TIMER_FLAG_ACTIVATED) (timer_remove i k))"
  by (auto simp: timer_linked_def timer_upd_def timer_remove_def)

lemmas timer_remove_inv = timer_remove_window timer_remove_linked

lemma rt_timer_stop_inv [rt_inv]:
  "timer_inv base k \<Longrightarrow> timer_inv base (snd (rt_timer_stop i k))"
  by (simp add: rt_timer_stop_def timer_inv_def timer_remove_inv)

lemma rt_timer_detach_inv [rt_inv]:
  "timer_inv base k \<Longrightarrow> timer_inv base (snd (rt_timer_detach i k))"
  by (simp add: rt_timer_detach_def timer_inv_def timer_remove_inv)

lemma init_tick_inv:
  "timer_inv base k \<Longrightarrow> timer_inv base (timer_upd i (\<lambda>tm. tm\<lparr>tm_init_tick := time\<rparr>) k)"
  using timer_window_cong [of "timer_upd i (\<lambda>tm. tm\<lparr>tm_init_tick := time\<rparr>) k" k base]
  by (auto simp: timer_inv_def deadline_upd) (auto simp: timer_linked_def timer_upd_def)

lemma rt_timer_set_time_inv [rt_inv]:
  assumes "timer_inv base k" and "rt_timer_control i (CTRL_SET_TIME time) k = Some (e, a, k')"
  shows "timer_inv base k'"
proof -
  have "timer_inv base (timer_upd i (tm_flag_clear RT_TIMER_FLAG_ACTIVATED) (timer_remove i k))"
    using assms(1) by (simp add: timer_inv_def timer_remove_inv)
  with assms init_tick_inv show ?thesis by (auto simp: Let_def split: if_splits)
qed

lemma thread_upd_timer_inv:
  "timer_inv base (thread_upd t f k) = timer_inv base k"
  by (simp add: timer_inv_def timer_window_def timer_linked_def thread_upd_def timer_deadline_def
      comp_def)

lemma rt_timer_start_eq:
  "rt_timer_start i k = timer_start i k \<or>
   (\<exists>t. i = Thread_timer t \<and> rt_timer_start i k = timer_start i (rt_sched_thread_timer_start t k))"
  by (auto simp: rt_timer_start_def split: timer_id.splits)

section \<open>Properties\<close>

text \<open>
  C13. Starting a timer: as long as the deadlines in the list and the new one lie in one half of
  the 32-bit tick circle, \<^verbatim>\<open>rt_timer_start\<close> puts the timer, with the deadline
  \<open>now + init_tick\<close> computed with wrap-around, after every timer that expires no later and
  before every timer that expires later; the list stays ordered and the timer is active. A timer
  whose handler is running is refused.
\<close>

theorem timer_start_ordered:
  assumes "timer_inv base k" and "in_window base (k_tick k + tm_init_tick (k_timer k i))"
    and "rt_timer_start i k = (e, k')"
  shows "if tm_has RT_TIMER_FLAG_PROCESSING (k_timer k i)
     then e = - RT_ERROR \<and> k_timer_list k' = k_timer_list k
     else e = RT_EOK \<and> timer_inv base k' \<and>
       timer_deadline k' i = k_tick k + tm_init_tick (k_timer k i) \<and>
       tm_has RT_TIMER_FLAG_ACTIVATED (k_timer k' i) \<and>
       (\<exists>early late. k_timer_list k' = early @ i # late \<and>
         early @ late = removeAll i (k_timer_list k) \<and>
         (\<forall>j \<in> set early. ticks_from base (timer_deadline k' j) \<le> ticks_from base (timer_deadline k' i)) \<and>
         (\<forall>j \<in> set late. ticks_from base (timer_deadline k' i) < ticks_from base (timer_deadline k' j)))"
proof -
  obtain k0 where k0: "timer_start i k0 = (e, k')" and
    same: "timer_inv base k0" "k_timer k0 = k_timer k" "k_tick k0 = k_tick k" "k_timer_list k0 = k_timer_list k"
  proof (cases "rt_timer_start i k = timer_start i k")
    case True
    with assms(1,3) that [of k] show ?thesis by simp
  next
    case False
    then obtain t where "rt_timer_start i k = timer_start i (rt_sched_thread_timer_start t k)"
      using rt_timer_start_eq [of i k] by blast
    with assms(1,3) that [of "rt_sched_thread_timer_start t k"] show ?thesis
      by (simp add: rt_sched_thread_timer_start_def thread_upd_timer_inv) (simp add: thread_upd_def)
  qed
  have dk: "timer_deadline k0 = timer_deadline k" using same(2) by (simp add: timer_deadline_def fun_eq_iff)
  show ?thesis
  proof (cases "tm_has RT_TIMER_FLAG_PROCESSING (k_timer k i)")
    case True
    with k0 same show ?thesis by (auto simp: timer_start_def)
  next
    case False
    have w: "timer_window base k0" "timer_linked k0" using same(1) by (simp_all add: timer_inv_def)
    note ts = timer_start_list [OF w(1) _ _ k0, unfolded same dk, OF assms(2) False]
    let ?e = "filter (\<lambda>j. j \<noteq> i \<and> ticks_from base (timer_deadline k j) \<le> ticks_from base (timer_deadline k' i)) (k_timer_list k)"
    let ?l = "filter (\<lambda>j. j \<noteq> i \<and> ticks_from base (timer_deadline k' i) < ticks_from base (timer_deadline k j)) (k_timer_list k)"
    have s: "sorted (map (ticks_from base \<circ> timer_deadline k) (k_timer_list k))"
      using w(1) same(4) dk by (simp add: timer_window_def)
    then have "?e @ ?l = removeAll i (k_timer_list k)" by (rule sorted_split_removeAll)
    moreover have "timer_inv base k'"
      using ts(4) timer_start_linked [OF w(2) k0] by (simp add: timer_inv_def)
    moreover have "k_timer_list k' = ?e @ i # ?l" by (rule ts(3))
    moreover have "\<forall>j \<in> set ?e. ticks_from base (timer_deadline k' j) \<le> ticks_from base (timer_deadline k' i)"
      "\<forall>j \<in> set ?l. ticks_from base (timer_deadline k' i) < ticks_from base (timer_deadline k' j)"
      using ts(2) by auto
    ultimately have "\<exists>early late. k_timer_list k' = early @ i # late \<and>
         early @ late = removeAll i (k_timer_list k) \<and>
         (\<forall>j \<in> set early. ticks_from base (timer_deadline k' j) \<le> ticks_from base (timer_deadline k' i)) \<and>
         (\<forall>j \<in> set late. ticks_from base (timer_deadline k' i) < ticks_from base (timer_deadline k' j))"
      by blast
    then show ?thesis
      using False ts(1,2) \<open>timer_inv base k'\<close> timer_start_run [OF k0] same(2) by simp
  qed
qed

definition timer_example :: kernel where
  "timer_example = kernel0\<lparr>k_tick := 0xFFFFFFF0,
     k_timer := (\<lambda>i. timer_init (User_timeout 0) 0 0x20 0)
       (User_timer 1 := tm_flag_set 1 (timer_init (User_timeout 1) 0 9 4)\<lparr>tm_timeout_tick := 0xFFFFFFF5\<rparr>,
        User_timer 2 := tm_flag_set 1 (timer_init (User_timeout 2) 0 0x40 4)\<lparr>tm_timeout_tick := 0x30\<rparr>),
     k_timer_list := [User_timer 1, User_timer 2]\<rparr>"

lemma timer_example_inv: "timer_inv 0xFFFFFFF0 timer_example"
  by (auto simp: timer_inv_def timer_window_def timer_linked_def in_window_def ticks_from_def
      timer_deadline_def timer_example_def kernel0_def tm_has_def timer_init_def tm_flag_clear_def tm_flag_set_def)

theorem timer_start_ordered_witness:
  "timer_inv 0xFFFFFFF0 (snd (rt_timer_start (User_timer 7) timer_example)) \<and>
   timer_deadline (snd (rt_timer_start (User_timer 7) timer_example)) (User_timer 7) = 0x10 \<and>
   k_timer_list (snd (rt_timer_start (User_timer 7) timer_example)) =
     [User_timer 1, User_timer 7, User_timer 2]"
proof -
  let ?i = "User_timer 7" and ?b = "0xFFFFFFF0 :: u32"
  obtain e k' where r: "rt_timer_start ?i timer_example = (e, k')" by fastforce
  have w: "in_window ?b (k_tick timer_example + tm_init_tick (k_timer timer_example ?i))"
    by (simp add: in_window_def ticks_from_def timer_example_def kernel0_def timer_init_def tm_flag_clear_def)
  have p: "\<not> tm_has 2 (k_timer timer_example ?i)"
    by (simp add: timer_example_def kernel0_def timer_init_def tm_has_def tm_flag_clear_def)
  have d: "k_tick timer_example + tm_init_tick (k_timer timer_example ?i) = 0x10"
    by (simp add: timer_example_def kernel0_def timer_init_def tm_flag_clear_def)
  have "k_timer_list k' = [User_timer 1, User_timer 7, User_timer 2]"
    using r by (simp add: rt_timer_start_def timer_start_def Let_def timer_upd_def timer_remove_def
        timer_example_def kernel0_def timer_init_def tm_has_def tm_flag_clear_def tm_flag_set_def) auto
  then show ?thesis using timer_start_ordered [OF timer_example_inv w r] p r d by simp
qed

text \<open>
  Stopping: \<^verbatim>\<open>rt_timer_stop\<close> on an active timer unlinks it, clears its active flag, keeps
  every other timer in its place and keeps the invariant; on an inactive timer it reports an
  error and changes nothing.
\<close>

theorem timer_stop_correct:
  assumes "timer_inv base k" and "rt_timer_stop i k = (e, k')"
  shows "if tm_has RT_TIMER_FLAG_ACTIVATED (k_timer k i)
     then e = RT_EOK \<and> k_timer_list k' = removeAll i (k_timer_list k) \<and>
          \<not> tm_has RT_TIMER_FLAG_ACTIVATED (k_timer k' i) \<and> timer_inv base k' \<and>
          (\<forall>j. j \<noteq> i \<longrightarrow> k_timer k' j = k_timer k j)
     else e = - RT_ERROR \<and> k' = k"
proof -
  have "timer_inv base k'" using rt_timer_stop_inv [OF assms(1), of i] assms(2) by simp
  with assms(2) show ?thesis by (auto simp: rt_timer_stop_def timer_upd_def timer_remove_def)
qed

theorem timer_stop_correct_witness:
  "k_timer_list (snd (rt_timer_stop (User_timer 1) timer_example)) = [User_timer 2] \<and>
   fst (rt_timer_stop (User_timer 5) timer_example) = - 1"
proof -
  have a: "tm_has 1 (k_timer timer_example (User_timer 1))"
    "\<not> tm_has 1 (k_timer timer_example (User_timer 5))"
    by (simp_all add: timer_example_def kernel0_def timer_init_def tm_has_def tm_flag_clear_def tm_flag_set_def)
  have l: "removeAll (User_timer 1) (k_timer_list timer_example) = [User_timer 2]"
    by (simp add: timer_example_def kernel0_def)
  show ?thesis
    using timer_stop_correct [OF timer_example_inv, of "User_timer 1"]
      timer_stop_correct [OF timer_example_inv, of "User_timer 5"] a l
    by (metis prod.collapse)
qed

text \<open>
  The command \<^verbatim>\<open>RT_TIMER_CTRL_GET_REMAIN_TIME\<close>, documented as the remaining time, stores the
  absolute deadline: after a start it is \<open>now + init_tick\<close>, whatever the current tick.
\<close>

theorem timer_get_remain_time_absolute:
  assumes "\<not> tm_has RT_TIMER_FLAG_PROCESSING (k_timer k i)" and "rt_timer_start i k = (e, k')"
  shows "rt_timer_control i CTRL_GET_REMAIN_TIME k' =
    Some (RT_EOK, Arg_tick (k_tick k' + tm_init_tick (k_timer k' i)), k')"
proof -
  obtain k0 where "timer_start i k0 = (e, k')" "k_timer k0 = k_timer k"
    using rt_timer_start_eq [of i k] assms(2)
    by (auto simp: rt_sched_thread_timer_start_def thread_upd_def)
  with assms(1) show ?thesis
    by (auto simp: timer_start_def Let_def timer_upd_def timer_remove_def)
qed

theorem timer_get_remain_time_absolute_witness:
  "\<exists>k'. rt_timer_control (User_timer 7) CTRL_GET_REMAIN_TIME k' = Some (0, Arg_tick 0x10, k') \<and>
     k_tick k' = 0xFFFFFFF0 \<and> tm_init_tick (k_timer k' (User_timer 7)) = 0x20"
proof -
  let ?i = "User_timer 7"
  obtain e k' where r: "rt_timer_start ?i timer_example = (e, k')" by fastforce
  have p: "\<not> tm_has 2 (k_timer timer_example ?i)"
    by (simp add: timer_example_def kernel0_def timer_init_def tm_has_def tm_flag_clear_def)
  have t: "k_tick k' = 0xFFFFFFF0" "tm_init_tick (k_timer k' ?i) = 0x20"
    using r p by (auto simp: rt_timer_start_def timer_start_def Let_def timer_upd_def timer_remove_def
        timer_example_def kernel0_def timer_init_def)
  have "(0xFFFFFFF0 :: u32) + 0x20 = 0x10" by simp
  with timer_get_remain_time_absolute [OF p r] t
  have "rt_timer_control ?i CTRL_GET_REMAIN_TIME k' = Some (0, Arg_tick 0x10, k')" by metis
  with t show ?thesis by blast
qed

end
