(* ===== verification/Scheduler.thy ===== *)
theory Scheduler
  imports Timer
begin

text \<open>
  The single-core scheduler: \<^verbatim>\<open>src/scheduler_up.c\<close>, the common part
  \<^verbatim>\<open>src/scheduler_comm.c\<close>, and the bit search \<^verbatim>\<open>__rt_ffs\<close> of \<^verbatim>\<open>src/kservice.c\<close> (the portable
  one; the Cortex-M4 port has an assembly version with the same contract). A ready thread is
  linked into the list of its priority, and bit \<open>p\<close> of the ready group is set when list
  \<open>p\<close> is not empty. The running thread is in no ready list. \<open>sched_inv\<close> is this
  invariant; the main results are that \<open>rt_schedule\<close> keeps it and leaves a thread of the
  highest ready priority running. Hooks, the stack overflow check and the hardware context switch
  are not part of the state; after \<open>rt_schedule\<close> the field \<open>k_current\<close> is the thread whose
  context is loaded.
\<close>

section \<open>First set bit\<close>

definition lowest_bit_bitmap :: "nat list" where
  "lowest_bit_bitmap =
    [0, 0, 1, 0, 2, 0, 1, 0, 3, 0, 1, 0, 2, 0, 1, 0,
     4, 0, 1, 0, 2, 0, 1, 0, 3, 0, 1, 0, 2, 0, 1, 0,
     5, 0, 1, 0, 2, 0, 1, 0, 3, 0, 1, 0, 2, 0, 1, 0,
     4, 0, 1, 0, 2, 0, 1, 0, 3, 0, 1, 0, 2, 0, 1, 0,
     6, 0, 1, 0, 2, 0, 1, 0, 3, 0, 1, 0, 2, 0, 1, 0,
     4, 0, 1, 0, 2, 0, 1, 0, 3, 0, 1, 0, 2, 0, 1, 0,
     5, 0, 1, 0, 2, 0, 1, 0, 3, 0, 1, 0, 2, 0, 1, 0,
     4, 0, 1, 0, 2, 0, 1, 0, 3, 0, 1, 0, 2, 0, 1, 0,
     7, 0, 1, 0, 2, 0, 1, 0, 3, 0, 1, 0, 2, 0, 1, 0,
     4, 0, 1, 0, 2, 0, 1, 0, 3, 0, 1, 0, 2, 0, 1, 0,
     5, 0, 1, 0, 2, 0, 1, 0, 3, 0, 1, 0, 2, 0, 1, 0,
     4, 0, 1, 0, 2, 0, 1, 0, 3, 0, 1, 0, 2, 0, 1, 0,
     6, 0, 1, 0, 2, 0, 1, 0, 3, 0, 1, 0, 2, 0, 1, 0,
     4, 0, 1, 0, 2, 0, 1, 0, 3, 0, 1, 0, 2, 0, 1, 0,
     5, 0, 1, 0, 2, 0, 1, 0, 3, 0, 1, 0, 2, 0, 1, 0,
     4, 0, 1, 0, 2, 0, 1, 0, 3, 0, 1, 0, 2, 0, 1, 0]"

definition rt_ffs :: "u32 \<Rightarrow> nat" where
  "rt_ffs v =
     (if v = 0 then 0
      else if v AND 0xff \<noteq> 0 then lowest_bit_bitmap ! unat (v AND 0xff) + 1
      else if v AND 0xff00 \<noteq> 0 then lowest_bit_bitmap ! unat (drop_bit 8 (v AND 0xff00)) + 9
      else if v AND 0xff0000 \<noteq> 0 then lowest_bit_bitmap ! unat (drop_bit 16 (v AND 0xff0000)) + 17
      else lowest_bit_bitmap ! unat (drop_bit 24 (v AND 0xff000000)) + 25)"

section \<open>Operations\<close>

definition scheduler_get_highest_priority_thread :: "kernel \<Rightarrow> tid \<times> nat" where
  "scheduler_get_highest_priority_thread k =
     (let highest_ready_priority = rt_ffs (k_ready_group k) - 1
      in (hd (k_queue k (ReadyQ highest_ready_priority)), highest_ready_priority))"

definition rt_system_scheduler_init :: "kernel \<Rightarrow> kernel" where
  "rt_system_scheduler_init k =
     k\<lparr>k_lock_nest := 0,
       k_queue := (\<lambda>q. case q of ReadyQ p \<Rightarrow> (if p < RT_THREAD_PRIORITY_MAX then [] else k_queue k q)
                              | _ \<Rightarrow> k_queue k q),
       k_ready_group := 0\<rparr>"

definition set_stat :: "u8 \<Rightarrow> tid \<Rightarrow> kernel \<Rightarrow> kernel" where
  "set_stat s t = thread_upd t (\<lambda>th. th\<lparr>th_stat := s\<rparr>)"

text \<open>\<^verbatim>\<open>stat = s | (stat & ~RT_THREAD_STAT_MASK)\<close>\<close>

definition mark_stat :: "u8 \<Rightarrow> tid \<Rightarrow> kernel \<Rightarrow> kernel" where
  "mark_stat s t = thread_upd t (\<lambda>th. th\<lparr>th_stat := stat_with s (th_stat th)\<rparr>)"

definition rt_sched_insert_thread :: "tid \<Rightarrow> kernel \<Rightarrow> kernel" where
  "rt_sched_insert_thread t k =
     (if k_current k = Some t then mark_stat RT_THREAD_RUNNING t k
      else let k1 = mark_stat RT_THREAD_READY t k;
               q = ReadyQ (th_current_priority (k_thread k1 t));
               k2 = (if stat_yield (k_thread k1 t) then queue_insert_before q t k1
                     else queue_insert_after q t k1)
           in k2\<lparr>k_ready_group := k_ready_group k2 OR th_number_mask (k_thread k2 t)\<rparr>)"

definition rt_sched_remove_thread :: "tid \<Rightarrow> kernel \<Rightarrow> kernel" where
  "rt_sched_remove_thread t k =
     (let k1 = node_remove t k
      in if k_queue k1 (ReadyQ (th_current_priority (k_thread k1 t))) = []
         then k1\<lparr>k_ready_group := k_ready_group k1 AND NOT (th_number_mask (k_thread k1 t))\<rparr>
         else k1)"

definition rt_system_scheduler_start :: "kernel \<Rightarrow> kernel" where
  "rt_system_scheduler_start k =
     (let (to_thread, _) = scheduler_get_highest_priority_thread k;
          k1 = rt_sched_remove_thread to_thread (k\<lparr>k_current := Some to_thread\<rparr>)
      in set_stat RT_THREAD_RUNNING to_thread k1)"

text \<open>
  \<^verbatim>\<open>rt_schedule\<close>, called with a running thread. Before the scheduler is started there is none;
  the source's callers check for that.
\<close>

definition switch_to :: "tid \<Rightarrow> nat \<Rightarrow> bool \<Rightarrow> tid \<Rightarrow> kernel \<Rightarrow> kernel" where
  "switch_to from_thread highest_ready_priority need_insert_from_thread to_thread k =
     (let k1 = k\<lparr>k_current_priority := highest_ready_priority, k_current := Some to_thread\<rparr>;
          k2 = (if need_insert_from_thread then rt_sched_insert_thread from_thread k1 else k1);
          k3 = (if stat_yield (k_thread k2 from_thread)
                then thread_upd from_thread
                       (\<lambda>th. th\<lparr>th_stat := th_stat th AND NOT RT_THREAD_STAT_YIELD_MASK\<rparr>) k2
                else k2);
          k4 = rt_sched_remove_thread to_thread k3
      in mark_stat RT_THREAD_RUNNING to_thread k4)"

text \<open>
  The source reads the control block of the current thread without a check; a call before the scheduler has been
  started, when there is no current thread, is outside of the model and leaves the state as it is.
\<close>

definition rt_schedule :: "kernel \<Rightarrow> kernel" where
  "rt_schedule k =
     (case k_current k of
        None \<Rightarrow> k
      | Some cur \<Rightarrow>
          if k_lock_nest k = 0 \<and> k_ready_group k \<noteq> 0
          then let (to_thread, highest_ready_priority) = scheduler_get_highest_priority_thread k;
                   running = (stat_of (k_thread k cur) = RT_THREAD_RUNNING);
                   prio = th_current_priority (k_thread k cur);
                   stay = (running \<and>
                           (prio < highest_ready_priority \<or>
                            prio = highest_ready_priority \<and> \<not> stat_yield (k_thread k cur)));
                   to_thread' = (if stay then cur else to_thread);
                   need_insert_from_thread = (running \<and> \<not> stay)
               in if to_thread' \<noteq> cur
                  then switch_to cur highest_ready_priority need_insert_from_thread to_thread' k
                  else mark_stat RT_THREAD_RUNNING cur (rt_sched_remove_thread cur k)
          else k)"

definition rt_sched_unlock_n_resched :: "kernel \<Rightarrow> kernel" where
  "rt_sched_unlock_n_resched k = (if k_current k \<noteq> None then rt_schedule k else k)"

definition rt_sched_thread_startup :: "tid \<Rightarrow> kernel \<Rightarrow> kernel" where
  "rt_sched_thread_startup t =
     thread_upd t (\<lambda>th. th\<lparr>th_number_mask := push_bit (th_current_priority th) 1,
                           th_stat := RT_THREAD_SUSPEND\<rparr>)"

text \<open>\<open>None\<close> is the failed assertion \<^verbatim>\<open>priority < RT_THREAD_PRIORITY_MAX\<close>.\<close>

definition rt_sched_thread_init_priv :: "tid \<Rightarrow> u32 \<Rightarrow> nat \<Rightarrow> kernel \<Rightarrow> kernel option" where
  "rt_sched_thread_init_priv t tick priority k =
     (if priority < RT_THREAD_PRIORITY_MAX
      then Some (thread_upd t (\<lambda>th. th\<lparr>th_init_priority := priority, th_current_priority := priority,
                   th_number_mask := 0, th_init_tick := tick, th_remaining_tick := tick\<rparr>)
                 (node_remove t k))
      else None)"

definition rt_sched_thread_init_ctx :: "tid \<Rightarrow> u32 \<Rightarrow> nat \<Rightarrow> kernel \<Rightarrow> kernel option" where
  "rt_sched_thread_init_ctx t tick priority k =
     rt_sched_thread_init_priv t tick priority (set_stat RT_THREAD_INIT t k)"

definition rt_enter_critical :: "kernel \<Rightarrow> int \<times> kernel" where
  "rt_enter_critical k = (k_lock_nest k + 1, k\<lparr>k_lock_nest := k_lock_nest k + 1\<rparr>)"

definition rt_exit_critical :: "kernel \<Rightarrow> kernel" where
  "rt_exit_critical k =
     (let k1 = k\<lparr>k_lock_nest := k_lock_nest k - 1\<rparr>
      in if k_lock_nest k1 \<le> 0
         then let k2 = k1\<lparr>k_lock_nest := 0\<rparr>
              in if k_current k2 \<noteq> None then rt_schedule k2 else k2
         else k1)"

text \<open>\<open>None\<close>: the levels differ and the source spins forever after reporting it.\<close>

definition rt_exit_critical_safe :: "int \<Rightarrow> kernel \<Rightarrow> kernel option" where
  "rt_exit_critical_safe critical_level k =
     (if critical_level \<noteq> k_lock_nest k then None else Some (rt_exit_critical k))"

definition rt_critical_level :: "kernel \<Rightarrow> int" where
  "rt_critical_level k = k_lock_nest k"

definition rt_sched_thread_timer_stop :: "tid \<Rightarrow> kernel \<Rightarrow> rt_err_t \<times> kernel" where
  "rt_sched_thread_timer_stop t k =
     (if th_ttmr_set (k_thread k t)
      then let (error, k1) = rt_timer_stop (Thread_timer t) k
           in (error, thread_upd t (\<lambda>th. th\<lparr>th_ttmr_set := False\<rparr>) k1)
      else (RT_EOK, k))"

definition rt_sched_thread_get_stat :: "tid \<Rightarrow> kernel \<Rightarrow> u8" where
  "rt_sched_thread_get_stat t k = stat_of (k_thread k t)"

definition rt_sched_thread_get_curr_prio :: "tid \<Rightarrow> kernel \<Rightarrow> nat" where
  "rt_sched_thread_get_curr_prio t k = th_current_priority (k_thread k t)"

definition rt_sched_thread_get_init_prio :: "tid \<Rightarrow> kernel \<Rightarrow> nat" where
  "rt_sched_thread_get_init_prio t k = th_init_priority (k_thread k t)"

definition rt_sched_thread_is_suspended :: "tid \<Rightarrow> kernel \<Rightarrow> bool" where
  "rt_sched_thread_is_suspended t k = stat_suspended (k_thread k t)"

definition rt_sched_thread_close :: "tid \<Rightarrow> kernel \<Rightarrow> kernel" where
  "rt_sched_thread_close t = set_stat RT_THREAD_CLOSE t"

definition rt_sched_thread_yield :: "tid \<Rightarrow> kernel \<Rightarrow> kernel" where
  "rt_sched_thread_yield t =
     thread_upd t (\<lambda>th. th\<lparr>th_remaining_tick := th_init_tick th,
                           th_stat := th_stat th OR RT_THREAD_STAT_YIELD\<rparr>)"

definition rt_sched_thread_ready :: "tid \<Rightarrow> kernel \<Rightarrow> rt_err_t \<times> kernel" where
  "rt_sched_thread_ready t k =
     (if \<not> rt_sched_thread_is_suspended t k then (- RT_EINVAL, k)
      else let (error, k1) = (if th_ttmr_set (k_thread k t) then rt_sched_thread_timer_stop t k
                              else (RT_EOK, k))
           in if error = 0 then (error, rt_sched_insert_thread t (node_remove t k1))
              else (error, k1))"

definition rt_sched_tick_increase :: "kernel \<Rightarrow> kernel" where
  "rt_sched_tick_increase k =
     (case k_current k of
        None \<Rightarrow> k
      | Some t \<Rightarrow>
          let k1 = thread_upd t (\<lambda>th. th\<lparr>th_remaining_tick := th_remaining_tick th - 1\<rparr>) k
          in if th_remaining_tick (k_thread k1 t) \<noteq> 0 then k1
             else rt_sched_unlock_n_resched (rt_sched_thread_yield t k1))"

definition rt_sched_thread_change_priority :: "tid \<Rightarrow> nat \<Rightarrow> kernel \<Rightarrow> kernel option" where
  "rt_sched_thread_change_priority t priority k =
     (if priority < RT_THREAD_PRIORITY_MAX
      then let set_prio = thread_upd t (\<lambda>th. th\<lparr>th_current_priority := priority,
                                                th_number_mask := push_bit priority 1\<rparr>)
           in if stat_of (k_thread k t) = RT_THREAD_READY
              then Some (rt_sched_insert_thread t
                          (set_stat RT_THREAD_INIT t (set_prio (rt_sched_remove_thread t k))))
              else Some (set_prio k)
      else None)"

section \<open>The bit search finds the lowest set bit\<close>

definition lowest_bit_ok :: "nat \<Rightarrow> nat \<Rightarrow> bool" where
  "lowest_bit_ok n b \<longleftrightarrow> b < 8 \<and> n mod 2 ^ Suc b = 2 ^ b"

primrec entries_ok :: "nat \<Rightarrow> nat list \<Rightarrow> bool" where
  "entries_ok n [] = True"
| "entries_ok n (b # bs) = (lowest_bit_ok n b \<and> entries_ok (n + 1) bs)"

lemma entries_ok_nth: "entries_ok n bs \<Longrightarrow> i < length bs \<Longrightarrow> lowest_bit_ok (n + i) (bs ! i)"
proof (induction bs arbitrary: n i)
  case (Cons b bs)
  then show ?case using Cons.IH[of "n + 1" "i - 1"] by (cases i) auto
qed simp

lemma bitmap_entries: "entries_ok 1 (tl lowest_bit_bitmap)"
  unfolding lowest_bit_ok_def lowest_bit_bitmap_def entries_ok.simps list.sel by simp

lemma bitmap_ok:
  assumes "0 < n" "n < 256"
  shows "lowest_bit_ok n (lowest_bit_bitmap ! n)"
proof -
  have "length lowest_bit_bitmap = 256" by (simp add: lowest_bit_bitmap_def)
  with assms show ?thesis
    using entries_ok_nth[OF bitmap_entries, of "n - 1"] by (simp add: nth_tl)
qed

lemma lowest_bit_ok_bits:
  assumes "lowest_bit_ok n b"
  shows "b < 8" "bit n b" "\<And>j. j < b \<Longrightarrow> \<not> bit n j"
proof -
  from assms show "b < 8" by (simp add: lowest_bit_ok_def)
  from assms have "take_bit (Suc b) n = 2 ^ b" by (simp add: lowest_bit_ok_def take_bit_eq_mod)
  then have *: "bit (take_bit (Suc b) n) j \<longleftrightarrow> j = b" for j
    by (simp only: bit_exp_iff) auto
  show "bit n b" using *[of b] by (simp add: bit_take_bit_iff)
  show "\<not> bit n j" if "j < b" for j using *[of j] that by (simp add: bit_take_bit_iff)
qed
lemma byte_bit_ok:
  fixes v :: u32
  assumes "take_bit 8 (drop_bit s v) \<noteq> 0"
  defines "b \<equiv> lowest_bit_bitmap ! unat (take_bit 8 (drop_bit s v))"
  shows "bit v (b + s)" and "\<And>j. s \<le> j \<Longrightarrow> j < b + s \<Longrightarrow> \<not> bit v j"
proof -
  define n where "n = unat (take_bit 8 (drop_bit s v))"
  have n: "n = take_bit 8 (unat (drop_bit s v))"
    by (simp add: n_def unsigned_take_bit_eq)
  have "n < 256" using take_bit_nat_less_exp[of 8 "unat (drop_bit s v)"] by (simp add: n)
  moreover have "n \<noteq> 0" using assms(1) by (simp add: n_def unat_eq_0)
  ultimately have ok: "lowest_bit_ok n b"
    using bitmap_ok[of n] by (simp add: b_def n_def)
  have bits: "j < 8 \<Longrightarrow> bit n j \<longleftrightarrow> bit v (j + s)" for j
    by (simp add: n bit_simps add.commute)
  show "bit v (b + s)" using lowest_bit_ok_bits(1,2)[OF ok] bits[of b] by simp
  fix j assume "s \<le> j" "j < b + s"
  then obtain i where i: "j = i + s" "i < b" by (metis add_less_cancel_right le_iff_add add.commute)
  then show "\<not> bit v j" using lowest_bit_ok_bits(1,3)[OF ok] bits[of i] by simp
qed

lemma byte_masks:
  fixes v :: u32
  shows "v AND 0xff = take_bit 8 (drop_bit 0 v)"
    and "drop_bit 8 (v AND 0xff00) = take_bit 8 (drop_bit 8 v)"
    and "drop_bit 16 (v AND 0xff0000) = take_bit 8 (drop_bit 16 v)"
    and "drop_bit 24 (v AND 0xff000000) = take_bit 8 (drop_bit 24 v)"
proof -
  have m: "(0xff :: u32) = mask 8" "(0xff00 :: u32) = push_bit 8 (mask 8)"
    "(0xff0000 :: u32) = push_bit 16 (mask 8)" "(0xff000000 :: u32) = push_bit 24 (mask 8)"
    by (simp_all add: mask_eq_exp_minus_1 push_bit_eq_mult)
  show "v AND 0xff = take_bit 8 (drop_bit 0 v)" by (simp add: m(1) take_bit_eq_mask)
  show "drop_bit 8 (v AND 0xff00) = take_bit 8 (drop_bit 8 v)"
    unfolding m(2) by (rule bit_word_eqI) (auto simp: bit_simps)
  show "drop_bit 16 (v AND 0xff0000) = take_bit 8 (drop_bit 16 v)"
    unfolding m(3) by (rule bit_word_eqI) (auto simp: bit_simps)
  show "drop_bit 24 (v AND 0xff000000) = take_bit 8 (drop_bit 24 v)"
    unfolding m(4) by (rule bit_word_eqI) (auto simp: bit_simps)
qed

lemma masked_zero:
  fixes v :: u32
  shows "v AND 0xff00 = 0 \<longleftrightarrow> take_bit 8 (drop_bit 8 v) = 0"
    and "v AND 0xff0000 = 0 \<longleftrightarrow> take_bit 8 (drop_bit 16 v) = 0"
proof -
  have m: "(0xff00 :: u32) = push_bit 8 (mask 8)"
    "(0xff0000 :: u32) = push_bit 16 (mask 8)"
    by (simp_all add: mask_eq_exp_minus_1 push_bit_eq_mult)
  have "v AND 0xff00 = push_bit 8 (take_bit 8 (drop_bit 8 v))"
    unfolding m(1) by (rule bit_word_eqI) (auto simp: bit_simps)
  moreover have "drop_bit 8 (push_bit 8 (take_bit 8 (drop_bit 8 v))) = take_bit 8 (drop_bit 8 v)"
    by (rule bit_word_eqI) (auto simp: bit_simps)
  ultimately show "v AND 0xff00 = 0 \<longleftrightarrow> take_bit 8 (drop_bit 8 v) = 0"
    by (metis drop_bit_of_0 push_bit_of_0)
  have "v AND 0xff0000 = push_bit 16 (take_bit 8 (drop_bit 16 v))"
    unfolding m(2) by (rule bit_word_eqI) (auto simp: bit_simps)
  moreover have "drop_bit 16 (push_bit 16 (take_bit 8 (drop_bit 16 v))) = take_bit 8 (drop_bit 16 v)"
    by (rule bit_word_eqI) (auto simp: bit_simps)
  ultimately show "v AND 0xff0000 = 0 \<longleftrightarrow> take_bit 8 (drop_bit 16 v) = 0"
    by (metis drop_bit_of_0 push_bit_of_0)
qed

lemma take_bit_0_bits:
  fixes v :: u32
  assumes "take_bit 8 (drop_bit s v) = 0" "s \<le> j" "j < s + 8"
  shows "\<not> bit v j"
proof
  assume "bit v j"
  then have "bit (take_bit 8 (drop_bit s v)) (j - s)"
    using assms(2,3) by (auto simp: bit_simps)
  with assms(1) show False by simp
qed

definition is_first_bit :: "u32 \<Rightarrow> nat \<Rightarrow> bool" where
  "is_first_bit v n \<longleftrightarrow> bit v n \<and> (\<forall>j<n. \<not> bit v j)"

lemma byte_first_bit:
  fixes v :: u32
  assumes "take_bit 8 (drop_bit s v) \<noteq> 0" and "\<And>j. j < s \<Longrightarrow> \<not> bit v j"
  shows "is_first_bit v (lowest_bit_bitmap ! unat (take_bit 8 (drop_bit s v)) + s)"
  unfolding is_first_bit_def using byte_bit_ok[OF assms(1)] assms(2) by (meson not_le_imp_less)

lemma rt_ffs_bytes:
  "rt_ffs v =
     (if v = 0 then 0
      else if take_bit 8 (drop_bit 0 v) \<noteq> 0
        then lowest_bit_bitmap ! unat (take_bit 8 (drop_bit 0 v)) + 1
      else if take_bit 8 (drop_bit 8 v) \<noteq> 0
        then lowest_bit_bitmap ! unat (take_bit 8 (drop_bit 8 v)) + 9
      else if take_bit 8 (drop_bit 16 v) \<noteq> 0
        then lowest_bit_bitmap ! unat (take_bit 8 (drop_bit 16 v)) + 17
      else lowest_bit_bitmap ! unat (take_bit 8 (drop_bit 24 v)) + 25)"
  unfolding rt_ffs_def byte_masks masked_zero by (rule refl)

lemma ffs_first_bit:
  assumes "v \<noteq> 0"
  shows "rt_ffs v \<noteq> 0 \<and> is_first_bit v (rt_ffs v - 1)"
proof -
  let ?b = "\<lambda>s. take_bit 8 (drop_bit s v)"
  have z: "?b s = 0 \<Longrightarrow> s \<le> j \<Longrightarrow> j < s + 8 \<Longrightarrow> \<not> bit v j" for s j
    by (rule take_bit_0_bits)
  consider "?b 0 \<noteq> 0" | "?b 0 = 0" "?b 8 \<noteq> 0" | "?b 0 = 0" "?b 8 = 0" "?b 16 \<noteq> 0"
    | "?b 0 = 0" "?b 8 = 0" "?b 16 = 0" by blast
  then show ?thesis
  proof cases
    case 1
    then show ?thesis using byte_first_bit[of 0 v] assms
      by (simp add: rt_ffs_bytes add.commute)
  next
    case 2
    then have "\<And>j. j < 8 \<Longrightarrow> \<not> bit v j" using z[of 0] by simp
    with byte_first_bit[of 8 v] 2 assms show ?thesis
      by (simp add: rt_ffs_bytes add.commute)
  next
    case 3
    have "\<And>j. j < 16 \<Longrightarrow> \<not> bit v j" using z[of 0] z[of 8] 3
      by (metis add_0 le0 not_le_imp_less numeral_Bit0 numeral_plus_numeral)
    with byte_first_bit[of 16 v] 3 assms show ?thesis
      by (simp add: rt_ffs_bytes add.commute)
  next
    case 4
    have low: "\<And>j. j < 24 \<Longrightarrow> \<not> bit v j"
    proof -
      fix j :: nat assume "j < 24"
      then consider "j < 8" | "8 \<le> j" "j < 16" | "16 \<le> j" "j < 24" by linarith
      then show "\<not> bit v j" using z[of 0 j] z[of 8 j] z[of 16 j] 4 by cases simp_all
    qed
    have "?b 24 \<noteq> 0"
    proof
      assume b: "?b 24 = 0"
      have "v = 0"
      proof (rule bit_word_eqI)
        fix n assume "n < LENGTH(32)"
        then show "bit v n = bit 0 n" using low[of n] z[OF b, of n] by (cases "n < 24") auto
      qed
      with assms show False by simp
    qed
    with byte_first_bit[of 24 v] low 4 assms show ?thesis
      by (simp add: rt_ffs_bytes add.commute)
  qed
qed

section \<open>The scheduler invariant\<close>

definition prio_ok :: "rt_thread \<Rightarrow> bool" where
  "prio_ok th \<longleftrightarrow> th_current_priority th < RT_THREAD_PRIORITY_MAX \<and>
                 th_number_mask th = push_bit (th_current_priority th) 1"

definition queues_ok :: "kernel \<Rightarrow> bool" where
  "queues_ok k \<longleftrightarrow> (\<forall>q. distinct (k_queue k q)) \<and>
     (\<forall>q q' t. t \<in> set (k_queue k q) \<longrightarrow> t \<in> set (k_queue k q') \<longrightarrow> q = q')"

definition group_ok :: "kernel \<Rightarrow> bool" where
  "group_ok k \<longleftrightarrow> (\<forall>p. bit (k_ready_group k) p \<longleftrightarrow> k_queue k (ReadyQ p) \<noteq> [])"

text \<open>What the invariant says of one thread: it is ready exactly when it is in the ready list of
  its priority, it is in no other ready list, it is suspended when it is in a wait list, and
  its priority mask is set when it is in any list.\<close>

definition thread_ok :: "kernel \<Rightarrow> tid \<Rightarrow> bool" where
  "thread_ok k t \<longleftrightarrow>
     (stat_of (k_thread k t) = RT_THREAD_READY \<longrightarrow>
        t \<in> set (k_queue k (ReadyQ (th_current_priority (k_thread k t))))) \<and>
     (\<forall>p. t \<in> set (k_queue k (ReadyQ p)) \<longrightarrow>
        th_current_priority (k_thread k t) = p \<and> prio_ok (k_thread k t) \<and>
        stat_of (k_thread k t) = RT_THREAD_READY) \<and>
     (\<forall>q. t \<in> set (k_queue k q) \<longrightarrow> (\<forall>p. q \<noteq> ReadyQ p) \<longrightarrow>
        stat_suspended (k_thread k t) \<and> prio_ok (k_thread k t))"

definition lists_inv :: "kernel \<Rightarrow> bool" where
  "lists_inv k \<longleftrightarrow> queues_ok k \<and> group_ok k \<and> (\<forall>t. thread_ok k t)"

text \<open>The full invariant: the running thread is in no ready list, and its priority mask is set.\<close>

definition cur_ok :: "kernel \<Rightarrow> bool" where
  "cur_ok k \<longleftrightarrow> (\<forall>t. k_current k = Some t \<longrightarrow>
     stat_of (k_thread k t) \<noteq> RT_THREAD_READY \<and> prio_ok (k_thread k t))"

definition sched_inv :: "kernel \<Rightarrow> bool" where
  "sched_inv k \<longleftrightarrow> lists_inv k \<and> cur_ok k"

text \<open>The invariant in the middle of an operation, while thread \<open>t\<close> is in no list.\<close>

definition off_inv :: "tid \<Rightarrow> kernel \<Rightarrow> bool" where
  "off_inv t k \<longleftrightarrow> queues_ok k \<and> group_ok k \<and> (\<forall>q. t \<notin> set (k_queue k q)) \<and>
     (\<forall>u. u \<noteq> t \<longrightarrow> thread_ok k u)"

text \<open>Two states that agree on everything the invariant reads.\<close>

definition same_sched :: "kernel \<Rightarrow> kernel \<Rightarrow> bool" where
  "same_sched k k' \<longleftrightarrow> k_queue k' = k_queue k \<and> k_ready_group k' = k_ready_group k \<and>
     k_current k' = k_current k \<and> k_lock_nest k' = k_lock_nest k \<and>
     (\<forall>t. stat_of (k_thread k' t) = stat_of (k_thread k t) \<and>
          th_current_priority (k_thread k' t) = th_current_priority (k_thread k t) \<and>
          th_number_mask (k_thread k' t) = th_number_mask (k_thread k t))"

lemma lists_inv_same: "same_sched k k' \<Longrightarrow> lists_inv k' \<longleftrightarrow> lists_inv k"
  by (simp add: same_sched_def lists_inv_def queues_ok_def group_ok_def thread_ok_def
      suspended_iff prio_ok_def)

lemma cur_ok_same: "same_sched k k' \<Longrightarrow> cur_ok k' \<longleftrightarrow> cur_ok k"
  by (simp add: same_sched_def cur_ok_def prio_ok_def)

lemma sched_inv_same: "same_sched k k' \<Longrightarrow> sched_inv k' \<longleftrightarrow> sched_inv k"
  by (simp add: sched_inv_def cur_ok_same lists_inv_same)

lemma off_inv_same: "same_sched k k' \<Longrightarrow> off_inv t k' \<longleftrightarrow> off_inv t k"
  by (simp add: same_sched_def off_inv_def queues_ok_def group_ok_def thread_ok_def
      suspended_iff prio_ok_def)

lemma same_sched_refl [simp]: "same_sched k k"
  by (simp add: same_sched_def)

lemma same_sched_trans [trans]: "same_sched a b \<Longrightarrow> same_sched b c \<Longrightarrow> same_sched a c"
  by (simp add: same_sched_def)

lemma off_inv_upd [simp]: "off_inv t (thread_upd t f k) \<longleftrightarrow> off_inv t k"
  by (auto simp: off_inv_def queues_ok_def group_ok_def thread_ok_def thread_upd_def)

lemma off_inv_lists_inv:
  "off_inv t k \<Longrightarrow> stat_of (k_thread k t) \<noteq> RT_THREAD_READY \<Longrightarrow> lists_inv k"
  unfolding off_inv_def lists_inv_def thread_ok_def by (metis (no_types, lifting))

lemma lists_inv_off_inv:
  "lists_inv k \<Longrightarrow> (\<And>q. t \<notin> set (k_queue k q)) \<Longrightarrow> off_inv t k"
  by (simp add: off_inv_def lists_inv_def)

lemma bit_exp_u32 [simp]: "bit (2 ^ p :: u32) n \<longleftrightarrow> n = p \<and> p < 32"
  by (auto simp: bit_exp_iff)

lemma queues_ok_remove: "queues_ok k \<Longrightarrow> queues_ok (node_remove t k)"
  by (simp add: queues_ok_def node_remove_def distinct_removeAll) blast

lemma thread_ok_remove: "thread_ok k u \<Longrightarrow> u \<noteq> t \<Longrightarrow> thread_ok (node_remove t k) u"
  by (simp add: thread_ok_def node_remove_def)

lemma node_remove_off:
  assumes "lists_inv k" "stat_of (k_thread k t) \<noteq> RT_THREAD_READY"
  shows "off_inv t (node_remove t k)"
proof -
  have "t \<notin> set (k_queue k (ReadyQ p))" for p
    using assms by (auto simp: lists_inv_def thread_ok_def)
  then have "group_ok (node_remove t k)"
    using assms(1) by (simp add: lists_inv_def group_ok_def node_remove_def)
  with assms(1) show ?thesis
    by (simp add: off_inv_def lists_inv_def queues_ok_remove thread_ok_remove)
      (simp add: node_remove_def)
qed

lemma remove_group_ok:
  assumes "lists_inv k" "prio_ok (k_thread k t)"
  shows "group_ok (rt_sched_remove_thread t k)"
proof -
  let ?p = "th_current_priority (k_thread k t)"
  have q: "p \<noteq> ?p \<Longrightarrow> removeAll t (k_queue k (ReadyQ p)) = k_queue k (ReadyQ p)" for p
    using assms(1) by (auto simp: lists_inv_def thread_ok_def intro!: removeAll_id)
  have r: "removeAll t (k_queue k (ReadyQ p)) \<noteq> [] \<Longrightarrow> k_queue k (ReadyQ p) \<noteq> []" for p by auto
  have g: "bit (k_ready_group k) p \<longleftrightarrow> k_queue k (ReadyQ p) \<noteq> []" for p
    using assms(1) by (simp add: lists_inv_def group_ok_def)
  have "?p < 32" using assms(2) by (simp add: prio_ok_def)
  show ?thesis
    unfolding group_ok_def
  proof
    fix p
    show "bit (k_ready_group (rt_sched_remove_thread t k)) p
          \<longleftrightarrow> k_queue (rt_sched_remove_thread t k) (ReadyQ p) \<noteq> []"
      using assms(2) q[of p] r[of p] g[of p] bit_imp_le_length[of "k_ready_group k" p]
      by (cases "p = ?p")
        (auto simp: rt_sched_remove_thread_def Let_def node_remove_def prio_ok_def bit_simps)
  qed
qed

lemma remove_off_inv:
  assumes "lists_inv k" "prio_ok (k_thread k t)"
  shows "off_inv t (rt_sched_remove_thread t k)"
proof -
  have *: "queues_ok (k\<lparr>k_ready_group := g\<rparr>) = queues_ok k"
    "thread_ok (k\<lparr>k_ready_group := g\<rparr>) u = thread_ok k u" for k g u
    by (simp_all add: queues_ok_def thread_ok_def)
  show ?thesis
    using remove_group_ok[OF assms] assms(1)
    by (auto simp: off_inv_def lists_inv_def rt_sched_remove_thread_def Let_def * queues_ok_remove
        thread_ok_remove) (simp_all add: node_remove_def)
qed

lemma remove_simps [simp]:
  "k_thread (rt_sched_remove_thread t k) = k_thread k"
  "k_current (rt_sched_remove_thread t k) = k_current k"
  "k_lock_nest (rt_sched_remove_thread t k) = k_lock_nest k"
  "k_queue (rt_sched_remove_thread t k) q = removeAll t (k_queue k q)"
  by (simp_all add: rt_sched_remove_thread_def Let_def node_remove_def)

lemma upd_thread_simps [simp]:
  "k_thread (thread_upd t f k) u = (if u = t then f (k_thread k t) else k_thread k u)"
  "k_queue (thread_upd t f k) = k_queue k"
  "k_ready_group (thread_upd t f k) = k_ready_group k"
  "k_current (thread_upd t f k) = k_current k"
  "k_lock_nest (thread_upd t f k) = k_lock_nest k"
  by (simp_all add: thread_upd_def)

lemma stat_of_with [simp]: "stat_of (th\<lparr>th_stat := stat_with s st\<rparr>) = s AND 7"
  by (simp add: stat_of_def)

lemma insert_inv:
  assumes "off_inv t k" "prio_ok (k_thread k t)"
  shows "lists_inv (rt_sched_insert_thread t k)"
proof (cases "k_current k = Some t")
  case True
  have "off_inv t (mark_stat RT_THREAD_RUNNING t k)" using assms(1) by (simp add: mark_stat_def)
  then have "lists_inv (mark_stat RT_THREAD_RUNNING t k)"
    by (rule off_inv_lists_inv) (simp add: mark_stat_def)
  with True show ?thesis by (simp add: rt_sched_insert_thread_def)
next
  case False
  let ?k = "rt_sched_insert_thread t k" and ?p = "th_current_priority (k_thread k t)"
  have thr: "k_thread ?k = (k_thread k)(t := (k_thread k t)\<lparr>th_stat := stat_with RT_THREAD_READY (th_stat (k_thread k t))\<rparr>)"
    and cur: "k_current ?k = k_current k"
    and grp: "k_ready_group ?k = k_ready_group k OR push_bit ?p 1"
    and que: "\<And>q. q \<noteq> ReadyQ ?p \<Longrightarrow> k_queue ?k q = k_queue k q"
      "k_queue ?k (ReadyQ ?p) = t # k_queue k (ReadyQ ?p) \<or>
       k_queue ?k (ReadyQ ?p) = k_queue k (ReadyQ ?p) @ [t]"
    using False assms(2)
    by (auto simp: rt_sched_insert_thread_def Let_def mark_stat_def queue_insert_before_def
        queue_insert_after_def thread_upd_def prio_ok_def)
  have set_q: "set (k_queue ?k q) = (if q = ReadyQ ?p then insert t (set (k_queue k q)) else set (k_queue k q))" for q
    using que by (cases "q = ReadyQ ?p") auto
  have notin: "\<And>q. t \<notin> set (k_queue k q)" using assms(1) by (simp add: off_inv_def)
  have "queues_ok ?k"
  proof -
    have "distinct (k_queue ?k q)" for q
      using que notin assms(1) by (cases "q = ReadyQ ?p") (auto simp: off_inv_def queues_ok_def)
    then show ?thesis
      using notin assms(1) by (auto simp: queues_ok_def set_q off_inv_def split: if_splits)
  qed
  moreover have "group_ok ?k"
    unfolding group_ok_def
  proof
    fix p
    show "bit (k_ready_group ?k) p \<longleftrightarrow> k_queue ?k (ReadyQ p) \<noteq> []"
      using que assms
      by (cases "p = ?p") (auto simp: grp off_inv_def group_ok_def bit_or_iff prio_ok_def)
  qed
  moreover have "thread_ok ?k u" for u
  proof (cases "u = t")
    case True
    then show ?thesis using assms(2) False notin
      by (auto simp: thread_ok_def set_q thr cur prio_ok_def split: if_splits)
  next
    case u: False
    then have "u \<in> set (k_queue ?k q) \<longleftrightarrow> u \<in> set (k_queue k q)" for q by (simp add: set_q)
    moreover have "thread_ok k u" using assms(1) u by (simp add: off_inv_def)
    ultimately show ?thesis using u by (simp add: thread_ok_def thr cur)
  qed
  ultimately show ?thesis by (simp add: lists_inv_def)
qed


lemma lists_inv_current [simp]: "lists_inv (k\<lparr>k_current_priority := p\<rparr>) = lists_inv k"
  "lists_inv (k\<lparr>k_current := c\<rparr>) = lists_inv k" "lists_inv (k\<lparr>k_lock_nest := n\<rparr>) = lists_inv k"
  by (simp_all add: lists_inv_def queues_ok_def group_ok_def thread_ok_def)

lemma off_inv_current [simp]: "off_inv t (k\<lparr>k_current_priority := p\<rparr>) = off_inv t k"
  "off_inv t (k\<lparr>k_current := c\<rparr>) = off_inv t k"
  by (simp_all add: off_inv_def queues_ok_def group_ok_def thread_ok_def)

lemma mark_stat_thread [simp]:
  "k_thread (mark_stat s t k) =
     (k_thread k)(t := (k_thread k t)\<lparr>th_stat := stat_with s (th_stat (k_thread k t))\<rparr>)"
  "k_current (mark_stat s t k) = k_current k"
  "k_queue (mark_stat s t k) = k_queue k"
  "k_lock_nest (mark_stat s t k) = k_lock_nest k"
  by (simp_all add: mark_stat_def thread_upd_def)

lemma off_inv_mark [simp]: "off_inv t (mark_stat s t k) = off_inv t k"
  by (simp add: mark_stat_def)

lemma insert_simps [simp]:
  "k_current (rt_sched_insert_thread t k) = k_current k"
  "k_lock_nest (rt_sched_insert_thread t k) = k_lock_nest k"
  "k_thread (rt_sched_insert_thread t k) =
     (k_thread k)(t := (k_thread k t)\<lparr>th_stat :=
        stat_with (if k_current k = Some t then RT_THREAD_RUNNING else RT_THREAD_READY)
          (th_stat (k_thread k t))\<rparr>)"
  by (auto simp: rt_sched_insert_thread_def Let_def queue_defs)

lemma lists_invD:
  assumes "lists_inv k"
  shows "t \<in> set (k_queue k (ReadyQ p)) \<Longrightarrow> th_current_priority (k_thread k t) = p \<and>
           prio_ok (k_thread k t) \<and> stat_of (k_thread k t) = RT_THREAD_READY"
    and "t \<in> set (k_queue k q) \<Longrightarrow> (\<And>p. q \<noteq> ReadyQ p) \<Longrightarrow>
           stat_suspended (k_thread k t) \<and> prio_ok (k_thread k t)"
    and "stat_of (k_thread k t) = RT_THREAD_READY \<Longrightarrow>
           t \<in> set (k_queue k (ReadyQ (th_current_priority (k_thread k t))))"
  using assms by (simp_all add: lists_inv_def thread_ok_def)

lemma off_inv_running:
  assumes "lists_inv k" "stat_of (k_thread k t) = RT_THREAD_RUNNING"
  shows "off_inv t k"
proof (rule lists_inv_off_inv[OF assms(1)])
  fix q show "t \<notin> set (k_queue k q)"
    using lists_invD(1,2)[OF assms(1), of t] assms(2)
    by (cases "\<exists>p. q = ReadyQ p") fastforce+
qed

lemma highest_ready:
  assumes "lists_inv k" "k_ready_group k \<noteq> 0"
  obtains t p where "scheduler_get_highest_priority_thread k = (t, p)"
    "stat_of (k_thread k t) = RT_THREAD_READY" "th_current_priority (k_thread k t) = p"
    "prio_ok (k_thread k t)" "t = hd (k_queue k (ReadyQ p))" "k_queue k (ReadyQ p) \<noteq> []"
    "\<And>u. stat_of (k_thread k u) = RT_THREAD_READY \<Longrightarrow> p \<le> th_current_priority (k_thread k u)"
proof -
  define p where "p = rt_ffs (k_ready_group k) - 1"
  have f: "is_first_bit (k_ready_group k) p" using ffs_first_bit[OF assms(2)] by (simp add: p_def)
  then have ne: "k_queue k (ReadyQ p) \<noteq> []"
    using assms(1) by (simp add: is_first_bit_def lists_inv_def group_ok_def)
  define t where "t = hd (k_queue k (ReadyQ p))"
  have "t \<in> set (k_queue k (ReadyQ p))" using ne by (simp add: t_def)
  then have t: "stat_of (k_thread k t) = RT_THREAD_READY" "th_current_priority (k_thread k t) = p"
    "prio_ok (k_thread k t)"
    using assms(1) by (auto simp: lists_inv_def thread_ok_def)
  have "p \<le> th_current_priority (k_thread k u)" if "stat_of (k_thread k u) = RT_THREAD_READY" for u
  proof -
    have "u \<in> set (k_queue k (ReadyQ (th_current_priority (k_thread k u))))"
      using assms(1) that by (simp add: lists_inv_def thread_ok_def)
    then have "k_queue k (ReadyQ (th_current_priority (k_thread k u))) \<noteq> []" by auto
    then have "bit (k_ready_group k) (th_current_priority (k_thread k u))"
      using assms(1) by (simp add: lists_inv_def group_ok_def)
    then show ?thesis using f by (meson is_first_bit_def not_le_imp_less)
  qed
  moreover have "scheduler_get_highest_priority_thread k = (t, p)"
    by (simp add: scheduler_get_highest_priority_thread_def Let_def t_def p_def)
  ultimately show ?thesis using that[of t p] t ne t_def by blast
qed


lemma prio_ok_stat [simp]: "prio_ok (th\<lparr>th_stat := s\<rparr>) = prio_ok th"
  by (simp add: prio_ok_def)

lemma stat_of_yield [simp]: "stat_of (th\<lparr>th_stat := s OR 8\<rparr>) = stat_of (th\<lparr>th_stat := s\<rparr>)"
  unfolding stat_of_def mask_3_u8 by (rule bit_word_eqI) (auto simp: stat_bits)

lemma stat_of_unyield: "stat_of (th\<lparr>th_stat := s AND NOT 8\<rparr>) = stat_of (th\<lparr>th_stat := s\<rparr>)"
proof -
  have "(NOT 8 AND 7 :: u8) = 7" by simp
  then have "(s AND NOT 8) AND 7 = s AND 7" by (simp only: and.assoc)
  then show ?thesis by (simp add: stat_of_def)
qed

lemmas stat_of_unyield_num [simp] = stat_of_unyield [simplified]

text \<open>The state after the switch branch of \<open>rt_schedule\<close>.\<close>

lemma switch_to_correct:
  fixes p :: nat
  assumes inv: "lists_inv k" and fr: "prio_ok (k_thread k fr)"
    and ins: "ins \<Longrightarrow> stat_of (k_thread k fr) = RT_THREAD_RUNNING"
    and to: "to \<noteq> fr" "prio_ok (k_thread k to)"
  defines "k' \<equiv> switch_to fr p ins to k"
  shows "lists_inv k'" "k_current k' = Some to"
    "stat_of (k_thread k' to) = RT_THREAD_RUNNING"
    "prio_ok (k_thread k' to)"
    "stat_of (k_thread k' fr) = (if ins then RT_THREAD_READY else stat_of (k_thread k fr))"
    "\<And>u. th_current_priority (k_thread k' u) = th_current_priority (k_thread k u)"
    "\<And>u. u \<noteq> fr \<Longrightarrow> u \<noteq> to \<Longrightarrow> k_thread k' u = k_thread k u"
    "k_lock_nest k' = k_lock_nest k"
proof -
  define k1 where "k1 = k\<lparr>k_current_priority := p, k_current := Some to\<rparr>"
  define k2 where "k2 = (if ins then rt_sched_insert_thread fr k1 else k1)"
  define k3 where "k3 = (if stat_yield (k_thread k2 fr)
    then thread_upd fr (\<lambda>th. th\<lparr>th_stat := th_stat th AND NOT RT_THREAD_STAT_YIELD_MASK\<rparr>) k2
    else k2)"
  have k': "k' = mark_stat RT_THREAD_RUNNING to (rt_sched_remove_thread to k3)"
    by (simp add: k'_def switch_to_def Let_def k1_def k2_def k3_def)
  have "lists_inv k1" using inv by (simp add: k1_def)
  moreover have "off_inv fr k1" if ins
    using off_inv_running[OF inv ins[OF that]] by (simp add: k1_def)
  ultimately have "lists_inv k2"
    using fr insert_inv[of fr k1] by (simp add: k2_def k1_def)
  have "same_sched k2 k3" by (simp add: same_sched_def k3_def)
  with \<open>lists_inv k2\<close> have k3: "lists_inv k3" by (simp add: lists_inv_same)
  have th3: "k_thread k3 u = k_thread k u" if "u \<noteq> fr" for u
    using that by (simp add: k3_def k2_def k1_def)
  have fr3: "stat_of (k_thread k3 fr) = (if ins then RT_THREAD_READY else stat_of (k_thread k fr))"
    "th_current_priority (k_thread k3 fr) = th_current_priority (k_thread k fr)"
    using to(1) by (simp_all add: k3_def k2_def k1_def)
  have off: "off_inv to (rt_sched_remove_thread to k3)"
    using to by (intro remove_off_inv[OF k3]) (simp add: th3)
  show "lists_inv k'" unfolding k'
    by (rule off_inv_lists_inv[where t = to]) (simp_all add: off)
  show "k_current k' = Some to" by (simp add: k' k3_def k2_def k1_def)
  show "stat_of (k_thread k' to) = RT_THREAD_RUNNING" by (simp add: k')
  show "prio_ok (k_thread k' to)" using to by (simp add: k' th3)
  show "stat_of (k_thread k' fr) = (if ins then RT_THREAD_READY else stat_of (k_thread k fr))"
    using to(1) fr3 by (simp add: k')
  show "th_current_priority (k_thread k' u) = th_current_priority (k_thread k u)" for u
    using fr3 th3[of u] by (cases "u = fr") (auto simp: k')
  show "k_thread k' u = k_thread k u" if "u \<noteq> fr" "u \<noteq> to" for u
    using that th3[of u] by (simp add: k')
  show "k_lock_nest k' = k_lock_nest k"
    by (simp add: k' k3_def k2_def k1_def)
qed


text \<open>What \<open>rt_schedule\<close> achieves, as a predicate on the state after.\<close>

definition scheduled :: "kernel \<Rightarrow> bool" where
  "scheduled k' \<longleftrightarrow> (\<exists>t. k_current k' = Some t \<and> stat_of (k_thread k' t) = RT_THREAD_RUNNING \<and>
     (\<forall>u. stat_of (k_thread k' u) = RT_THREAD_READY \<longrightarrow>
        th_current_priority (k_thread k' t) \<le> th_current_priority (k_thread k' u)))"

lemma schedule_inv:
  assumes "sched_inv k"
  shows "sched_inv (rt_schedule k)"
proof (cases "\<exists>cur. k_current k = Some cur \<and> k_lock_nest k = 0 \<and> k_ready_group k \<noteq> 0")
  case False
  with assms show ?thesis by (auto simp: rt_schedule_def split: option.split)
next
  case True
  then obtain cur where c: "k_current k = Some cur" "k_lock_nest k = 0" "k_ready_group k \<noteq> 0" by blast
  have l: "lists_inv k" "prio_ok (k_thread k cur)" "stat_of (k_thread k cur) \<noteq> 2"
    using assms c by (auto simp: sched_inv_def cur_ok_def)
  obtain t p where h: "scheduler_get_highest_priority_thread k = (t, p)"
    "stat_of (k_thread k t) = RT_THREAD_READY" "prio_ok (k_thread k t)"
    using highest_ready[OF l(1) c(3)] by blast
  then have ne: "t \<noteq> cur" using l(3) by auto
  have off: "off_inv cur (rt_sched_remove_thread cur k)" by (rule remove_off_inv[OF l(1,2)])
  then have "lists_inv (mark_stat RT_THREAD_RUNNING cur (rt_sched_remove_thread cur k))"
    by (intro off_inv_lists_inv[where t = cur]) simp_all
  moreover have "cur_ok (mark_stat RT_THREAD_RUNNING cur (rt_sched_remove_thread cur k))"
    using c(1) l(2) by (simp add: cur_ok_def)
  moreover have "sched_inv (switch_to cur p ins t k)"
    if "ins \<Longrightarrow> stat_of (k_thread k cur) = RT_THREAD_RUNNING" for ins
    using switch_to_correct(1-4)[OF l(1,2) that ne h(3)] by (simp add: sched_inv_def cur_ok_def)
  ultimately show ?thesis
    using ne by (simp add: rt_schedule_def c h Let_def sched_inv_def)
qed

lemma schedule_scheduled:
  assumes "sched_inv k" "k_current k = Some cur" "k_lock_nest k = 0"
    "stat_of (k_thread k cur) = RT_THREAD_RUNNING \<or> k_ready_group k \<noteq> 0"
  shows "scheduled (rt_schedule k)"
proof (cases "k_ready_group k = 0")
  case True
  have "stat_of (k_thread k u) \<noteq> 2" for u
  proof
    assume a: "stat_of (k_thread k u) = 2"
    then have "u \<in> set (k_queue k (ReadyQ (th_current_priority (k_thread k u))))"
      using assms(1) lists_invD(3) by (auto simp: sched_inv_def)
    with True assms(1) show False
      by (metis bit_0_eq bot_apply bot_bool_def empty_iff empty_set group_ok_def lists_inv_def sched_inv_def)
  qed
  with True assms show ?thesis by (simp add: scheduled_def rt_schedule_def)
next
  case False
  have l: "lists_inv k" "prio_ok (k_thread k cur)" "stat_of (k_thread k cur) \<noteq> 2"
    using assms(1,2) by (auto simp: sched_inv_def cur_ok_def)
  obtain t p where h: "scheduler_get_highest_priority_thread k = (t, p)"
    "stat_of (k_thread k t) = RT_THREAD_READY" "prio_ok (k_thread k t)"
    "th_current_priority (k_thread k t) = p"
    "\<And>u. stat_of (k_thread k u) = RT_THREAD_READY \<Longrightarrow> p \<le> th_current_priority (k_thread k u)"
    using highest_ready[OF l(1) False] by metis
  then have ne: "t \<noteq> cur" using l(3) by auto
  define running where "running \<longleftrightarrow> stat_of (k_thread k cur) = RT_THREAD_RUNNING"
  define prio where "prio = th_current_priority (k_thread k cur)"
  define stay where "stay \<longleftrightarrow> running \<and> (prio < p \<or> prio = p \<and> \<not> stat_yield (k_thread k cur))"
  have eq: "rt_schedule k =
    (if stay then mark_stat RT_THREAD_RUNNING cur (rt_sched_remove_thread cur k)
     else switch_to cur p running t k)"
    using False ne by (auto simp: rt_schedule_def assms h Let_def stay_def running_def prio_def)
  show ?thesis
  proof (cases stay)
    case True
    then have "prio \<le> p" by (auto simp: stay_def)
    then have "\<forall>u. stat_of (k_thread k u) = 2 \<longrightarrow> prio \<le> th_current_priority (k_thread k u)"
      using h(5) le_trans by blast
    with True show ?thesis
      by (auto simp: eq scheduled_def assms(2) prio_def)
  next
    case stay: False
    have ins: "running \<Longrightarrow> stat_of (k_thread k cur) = RT_THREAD_RUNNING" by (simp add: running_def)
    note sw = switch_to_correct[where p = p and ins = running, OF l(1,2) ins ne h(3)]
    have "p \<le> th_current_priority (k_thread (switch_to cur p running t k) u)"
      if "stat_of (k_thread (switch_to cur p running t k) u) = 2" for u
    proof -
      consider "u = t" | "u = cur" | "u \<noteq> t" "u \<noteq> cur" by blast
      then show ?thesis
      proof cases
        case 1 then show ?thesis using sw(6) h(4) by simp
      next
        case 2
        then have running using that sw(5) l(3) by (auto split: if_splits)
        then have "p \<le> prio" using stay by (auto simp: stay_def)
        then show ?thesis using 2 sw(6) by (simp add: prio_def)
      next
        case 3
        then show ?thesis using that sw(7)[of u] h(5)[of u] by simp
      qed
    qed
    then show ?thesis
      using stay sw(2,3,6) h(4) by (auto simp: eq scheduled_def)
  qed
qed


section \<open>Thread state changes\<close>

lemma timer_remove_same [simp]: "same_sched k (timer_remove i k)"
  by (simp add: same_sched_def timer_remove_def)

lemma timer_stop_same [simp]: "same_sched k (snd (rt_timer_stop i k))"
  by (auto simp: same_sched_def rt_timer_stop_def timer_remove_def timer_upd_def Let_def)

lemma sched_timer_stop_same: "same_sched k (snd (rt_sched_thread_timer_stop t k))"
  using timer_stop_same[of k "Thread_timer t"]
  by (auto simp: rt_sched_thread_timer_stop_def same_sched_def stat_of_def split: prod.split)

lemma queue_insert_inv:
  assumes "off_inv t k" "stat_suspended (k_thread k t)" "\<And>p. q \<noteq> ReadyQ p"
    and that: "k_queue k q = xs @ ys" and prio: "prio_ok (k_thread k t)"
  shows "lists_inv (k\<lparr>k_queue := (k_queue k)(q := xs @ t # ys)\<rparr>)"
proof -
  let ?k = "k\<lparr>k_queue := (k_queue k)(q := xs @ t # ys)\<rparr>"
  have set_q: "u \<in> set (k_queue ?k r) \<longleftrightarrow> u = t \<and> r = q \<or> u \<in> set (k_queue k r)" for u r
    using that by auto
  have notin: "t \<notin> set (k_queue k r)" for r using assms(1) by (simp add: off_inv_def)
  have d: "distinct (k_queue k r)" for r using assms(1) by (simp add: off_inv_def queues_ok_def)
  have "distinct (k_queue ?k r)" for r using d[of r] notin[of r] that by (cases "r = q") auto
  moreover have "\<And>r r' u. u \<in> set (k_queue k r) \<Longrightarrow> u \<in> set (k_queue k r') \<Longrightarrow> r = r'"
    using assms(1) unfolding off_inv_def queues_ok_def by blast
  ultimately have "queues_ok ?k"
    unfolding queues_ok_def set_q using notin by blast
  moreover have "ReadyQ p \<noteq> q" for p using assms(3)[of p] by simp
  then have "group_ok ?k"
    using assms(1) by (simp add: off_inv_def group_ok_def)
  moreover have "thread_ok ?k u" for u
  proof (cases "u = t")
    case True
    then have "stat_of (k_thread k t) \<noteq> 2" using assms(2) stat_not_suspended(1) by blast
    with True show ?thesis using assms(2) notin[of "ReadyQ _"] assms(3) prio
      unfolding thread_ok_def set_q by auto
  next
    case False
    then have "thread_ok k u" using assms(1) by (simp add: off_inv_def)
    then show ?thesis using False unfolding thread_ok_def set_q by simp
  qed
  ultimately show ?thesis by (simp add: lists_inv_def)
qed

lemma ready_inv:
  assumes "sched_inv k" "prio_ok (k_thread k t)"
  shows "sched_inv (snd (rt_sched_thread_ready t k))"
proof -
  define k1 where "k1 = snd (if th_ttmr_set (k_thread k t) then rt_sched_thread_timer_stop t k else (RT_EOK, k))"
  have same: "same_sched k k1" using sched_timer_stop_same[of k t] by (simp add: k1_def)
  then have inv1: "sched_inv k1" using assms(1) by (simp add: sched_inv_same)
  have p1: "prio_ok (k_thread k1 t)" using same assms(2) by (simp add: same_sched_def prio_ok_def)
  have "sched_inv (rt_sched_insert_thread t (node_remove t k1))" if "stat_suspended (k_thread k t)"
  proof -
    have s1: "stat_of (k_thread k1 t) \<noteq> 2"
      using that same by (metis same_sched_def stat_not_suspended(1) suspended_iff)
    then have "off_inv t (node_remove t k1)"
      using inv1 by (intro node_remove_off) (simp_all add: sched_inv_def)
    then have "lists_inv (rt_sched_insert_thread t (node_remove t k1))"
      using p1 by (intro insert_inv) (simp_all add: node_remove_def)
    moreover have "cur_ok (rt_sched_insert_thread t (node_remove t k1))"
      using inv1 p1 by (auto simp: cur_ok_def sched_inv_def node_remove_def)
    ultimately show ?thesis by (simp add: sched_inv_def)
  qed
  then show ?thesis
    using assms(1) inv1
    by (auto simp: rt_sched_thread_ready_def rt_sched_thread_is_suspended_def k1_def Let_def split: prod.split if_splits)
qed

lemma same_sched_upd:
  assumes "\<And>th. stat_of (f th) = stat_of th" "\<And>th. th_current_priority (f th) = th_current_priority th"
    "\<And>th. th_number_mask (f th) = th_number_mask th"
  shows "same_sched k (thread_upd t f k)"
  using assms by (simp add: same_sched_def)

lemma yield_same [simp]: "same_sched k (rt_sched_thread_yield t k)"
  unfolding rt_sched_thread_yield_def by (rule same_sched_upd) (simp_all, simp add: stat_of_def)

lemma lock_nest_inv [simp]: "sched_inv (k\<lparr>k_lock_nest := n\<rparr>) = sched_inv k"
  by (simp add: sched_inv_def cur_ok_def)

lemma resched_inv [rt_inv]: "sched_inv k \<Longrightarrow> sched_inv (rt_sched_unlock_n_resched k)"
  by (simp add: rt_sched_unlock_n_resched_def schedule_inv)

lemma enter_critical_inv [rt_inv]: "sched_inv k \<Longrightarrow> sched_inv (snd (rt_enter_critical k))"
  by (simp add: rt_enter_critical_def)

lemma exit_critical_inv [rt_inv]: "sched_inv k \<Longrightarrow> sched_inv (rt_exit_critical k)"
  by (auto simp: rt_exit_critical_def Let_def intro!: schedule_inv)

lemma tick_increase_inv [rt_inv]:
  assumes "sched_inv k"
  shows "sched_inv (rt_sched_tick_increase k)"
proof -
  have "same_sched k (thread_upd t (\<lambda>th. th\<lparr>th_remaining_tick := th_remaining_tick th - 1\<rparr>) k)" for t
    by (rule same_sched_upd) (simp_all add: stat_of_def)
  then have "sched_inv (thread_upd t (\<lambda>th. th\<lparr>th_remaining_tick := th_remaining_tick th - 1\<rparr>) k)" for t
    using assms sched_inv_same by blast
  then show ?thesis
    using assms
    by (auto simp: rt_sched_tick_increase_def Let_def sched_inv_same[OF yield_same]
        split: option.split intro!: resched_inv)
qed

lemma change_priority_inv [rt_inv]:
  assumes "sched_inv k" "rt_sched_thread_change_priority t p k = Some k'"
  shows "sched_inv k'" "th_current_priority (k_thread k' t) = p" "prio_ok (k_thread k' t)"
    "stat_of (k_thread k' t) = stat_of (k_thread k t)"
proof -
  let ?f = "thread_upd t (\<lambda>th. th\<lparr>th_current_priority := p, th_number_mask := push_bit p 1\<rparr>)"
  have p: "p < 32" using assms(2) by (simp add: rt_sched_thread_change_priority_def split: if_splits)
  have l: "lists_inv k" and c: "cur_ok k" using assms(1) by (auto simp: sched_inv_def)
  show "th_current_priority (k_thread k' t) = p" "prio_ok (k_thread k' t)"
    using assms(2) p
    by (auto simp: rt_sched_thread_change_priority_def Let_def set_stat_def prio_ok_def split: if_splits)
  show "sched_inv k'"
  proof (cases "stat_of (k_thread k t) = 2")
    case True
    then have t: "prio_ok (k_thread k t)" using lists_invD(1,3)[OF l] by blast
    let ?k = "set_stat RT_THREAD_INIT t (?f (rt_sched_remove_thread t k))"
    have k': "k' = rt_sched_insert_thread t ?k"
      using assms(2) True p by (simp add: rt_sched_thread_change_priority_def Let_def)
    have "off_inv t ?k" using remove_off_inv[OF l t] by (simp add: set_stat_def)
    moreover have "prio_ok (k_thread ?k t)" using p by (simp add: set_stat_def prio_ok_def)
    ultimately have "lists_inv k'" unfolding k' by (rule insert_inv)
    moreover have "cur_ok k'"
      using c True by (auto simp: k' cur_ok_def set_stat_def)
    ultimately show ?thesis by (simp add: sched_inv_def)
  next
    case False
    then have k': "k' = ?f k"
      using assms(2) p by (simp add: rt_sched_thread_change_priority_def Let_def)
    have "t \<notin> set (k_queue k (ReadyQ r))" for r using lists_invD(1)[OF l] False by blast
    then have "thread_ok (?f k) u" for u
      using l False p
      by (cases "u = t") (auto simp: lists_inv_def thread_ok_def stat_of_def stat_suspended_def prio_ok_def)
    then have "lists_inv k'"
      using l by (simp add: k' lists_inv_def queues_ok_def group_ok_def)
    moreover have "cur_ok k'" using c p by (auto simp: k' cur_ok_def prio_ok_def stat_of_def)
    ultimately show ?thesis by (simp add: sched_inv_def)
  qed
  show "stat_of (k_thread k' t) = stat_of (k_thread k t)"
    using assms(2) c by (auto simp: rt_sched_thread_change_priority_def Let_def set_stat_def cur_ok_def
        stat_of_def split: if_splits)
qed

lemma schedule_preempted:
  assumes "sched_inv k" "k_current k = Some cur" "stat_of (k_thread k cur) = RT_THREAD_RUNNING"
    "k_current (rt_schedule k) \<noteq> Some cur"
  shows "stat_of (k_thread (rt_schedule k) cur) = RT_THREAD_READY"
proof (cases "k_lock_nest k = 0 \<and> k_ready_group k \<noteq> 0")
  case False
  with assms show ?thesis by (simp add: rt_schedule_def)
next
  case True
  have l: "lists_inv k" "prio_ok (k_thread k cur)"
    using assms by (auto simp: sched_inv_def cur_ok_def)
  obtain t p where h: "scheduler_get_highest_priority_thread k = (t, p)"
    "stat_of (k_thread k t) = RT_THREAD_READY" "prio_ok (k_thread k t)"
    using highest_ready[OF l(1)] True by blast
  then have ne: "t \<noteq> cur" using assms(3) by auto
  have "rt_schedule k = mark_stat RT_THREAD_RUNNING cur (rt_sched_remove_thread cur k) \<or>
        rt_schedule k = switch_to cur p True t k"
    using True ne by (simp add: rt_schedule_def assms h Let_def)
  then show ?thesis
  proof
    assume "rt_schedule k = mark_stat RT_THREAD_RUNNING cur (rt_sched_remove_thread cur k)"
    with assms show ?thesis by simp
  next
    assume "rt_schedule k = switch_to cur p True t k"
    then show ?thesis using switch_to_correct(5)[OF l _ ne h(3), of True p] assms(3) by simp
  qed
qed

section \<open>Interface to the clients of the scheduler\<close>

text \<open>
  What the wait lists and the timer rely on: making threads ready keeps the invariant and the
  side condition of the next call.
\<close>

locale thread_waker =
  fixes wake :: "tid \<Rightarrow> kernel \<Rightarrow> kernel"
    and invar :: "kernel \<Rightarrow> bool"
    and wakeable :: "kernel \<Rightarrow> tid \<Rightarrow> bool"
  assumes wake_invar: "invar k \<Longrightarrow> wakeable k t \<Longrightarrow> invar (wake t k)"
    and wake_wakeable: "wakeable k u \<Longrightarrow> wakeable (wake t k) u"
begin

lemma wake_all_invar: "invar k \<Longrightarrow> (\<And>t. t \<in> set ts \<Longrightarrow> wakeable k t) \<Longrightarrow> invar (fold wake ts k)"
  by (induction ts arbitrary: k) (simp_all add: wake_invar wake_wakeable)

lemma wake_all_wakeable: "wakeable k u \<Longrightarrow> wakeable (fold wake ts k) u"
  by (induction ts arbitrary: k) (simp_all add: wake_wakeable)

end

lemma ready_prio_ok:
  "prio_ok (k_thread k u) \<Longrightarrow> prio_ok (k_thread (snd (rt_sched_thread_ready t k)) u)"
proof -
  assume a: "prio_ok (k_thread k u)"
  have s: "same_sched k (snd (rt_sched_thread_timer_stop t k))" by (rule sched_timer_stop_same)
  have "prio_ok (k_thread (snd (rt_sched_thread_timer_stop t k)) u)"
    using s a by (simp add: same_sched_def prio_ok_def)
  with a show ?thesis
    by (auto simp: rt_sched_thread_ready_def Let_def node_remove_def split: prod.split)
qed

interpretation sched_waker: thread_waker "\<lambda>t k. snd (rt_sched_thread_ready t k)" sched_inv
  "\<lambda>k t. prio_ok (k_thread k t)"
  by unfold_locales (simp_all add: ready_inv ready_prio_ok)

section \<open>Properties\<close>

definition mk_thread :: "u8 \<Rightarrow> nat \<Rightarrow> rt_thread" where
  "mk_thread stat prio = thread0\<lparr>th_stat := stat, th_current_priority := prio,
     th_init_priority := prio, th_number_mask := push_bit prio 1\<rparr>"

text \<open>Thread 1 runs at priority 10, thread 2 is ready at the same priority, thread 3 at 20,
  thread 4 is suspended.\<close>

definition sched_example :: kernel where
  "sched_example = kernel0\<lparr>
     k_thread := (\<lambda>_. thread0)(1 := mk_thread 3 10, 2 := mk_thread 2 10, 3 := mk_thread 2 20,
       4 := mk_thread 4 5),
     k_queue := (\<lambda>_. [])(ReadyQ 10 := [2], ReadyQ 20 := [3]),
     k_ready_group := 0x100400, k_current := Some 1, k_current_priority := 10\<rparr>"

lemma sched_example_group: "k_ready_group sched_example = push_bit 10 1 OR push_bit 20 1"
  by (simp add: sched_example_def)

lemma sched_example_inv: "sched_inv sched_example"
proof -
  have "bit (k_ready_group sched_example) p \<longleftrightarrow> p = 10 \<or> p = 20" for p
    unfolding sched_example_group by (simp only: bit_or_iff bit_push_bit_iff bit_1_iff) auto
  then have "group_ok sched_example"
    by (simp add: group_ok_def) (simp add: sched_example_def kernel0_def)
  then show ?thesis
    by (auto simp: sched_inv_def lists_inv_def queues_ok_def thread_ok_def cur_ok_def
        sched_example_def kernel0_def thread0_def mk_thread_def stat_of_def stat_suspended_def prio_ok_def
        split: if_splits)
qed

text \<open>
  The bit search of the scheduler: for a non-zero word \<^verbatim>\<open>__rt_ffs\<close> returns one plus the
  index of its lowest set bit, and 0 for the word 0. The lookup table agrees with the bits of all
  256 bytes.
\<close>

theorem rt_ffs_lowest_bit:
  "(rt_ffs v = 0 \<longleftrightarrow> v = 0) \<and>
   (v = 0 \<or> (bit v (rt_ffs v - 1) \<and> (\<forall>j. bit v j \<longrightarrow> rt_ffs v - 1 \<le> j)))"
proof (cases "v = 0")
  case True
  then show ?thesis by (simp add: rt_ffs_def)
next
  case False
  then show ?thesis using ffs_first_bit[OF False] by (metis is_first_bit_def not_le_imp_less)
qed

theorem rt_ffs_lowest_bit_witness: "rt_ffs 0x100400 = 11 \<and> bit (0x100400 :: u32) 10"
proof -
  have "rt_ffs 0x100400 = 11" by (simp add: rt_ffs_def lowest_bit_bitmap_def)
  then show ?thesis using rt_ffs_lowest_bit [of "0x100400"] by simp
qed

text \<open>
  C1. \<^verbatim>\<open>rt_schedule\<close> with the scheduler unlocked leaves a running thread of the highest
  priority: the current thread has status running and no ready thread has a higher priority
  (smaller number), and the invariant of the ready lists and the ready group is kept. A preempted
  running thread becomes ready.
\<close>

theorem schedule_highest_priority:
  assumes "sched_inv k" and "k_current k = Some cur" and "k_lock_nest k = 0"
    and "stat_of (k_thread k cur) = RT_THREAD_RUNNING \<or> k_ready_group k \<noteq> 0"
  shows "sched_inv (rt_schedule k) \<and>
    (\<exists>t. k_current (rt_schedule k) = Some t \<and>
         stat_of (k_thread (rt_schedule k) t) = RT_THREAD_RUNNING \<and>
         (\<forall>u. stat_of (k_thread (rt_schedule k) u) = RT_THREAD_READY \<longrightarrow>
            th_current_priority (k_thread (rt_schedule k) t)
              \<le> th_current_priority (k_thread (rt_schedule k) u)) \<and>
         (stat_of (k_thread k cur) = RT_THREAD_RUNNING \<and> t \<noteq> cur \<longrightarrow>
            stat_of (k_thread (rt_schedule k) cur) = RT_THREAD_READY))"
  using schedule_inv[OF assms(1)] schedule_scheduled[OF assms]
    schedule_preempted[OF assms(1,2)] by (auto simp: scheduled_def)

theorem schedule_highest_priority_witness:
  "\<exists>t. k_current (rt_schedule sched_example) = Some t \<and>
     stat_of (k_thread (rt_schedule sched_example) t) = 3"
proof -
  have "k_current sched_example = Some 1" "k_lock_nest sched_example = 0"
    "stat_of (k_thread sched_example 1) = 3"
    by (simp_all add: sched_example_def kernel0_def mk_thread_def thread0_def stat_of_def)
  then show ?thesis using schedule_highest_priority [OF sched_example_inv, of 1] by auto
qed

text \<open>
  Changing the priority of a thread: a legal priority is stored together with its bit mask, the
  thread keeps its scheduling status, and the invariant is kept, so a ready thread has moved to the
  ready list of the new priority; an illegal priority fails the assertion.
\<close>

theorem change_priority_moves_thread:
  assumes "sched_inv k"
  shows "case rt_sched_thread_change_priority t p k of
     None \<Rightarrow> RT_THREAD_PRIORITY_MAX \<le> p
   | Some k' \<Rightarrow> p < RT_THREAD_PRIORITY_MAX \<and> sched_inv k' \<and>
       th_current_priority (k_thread k' t) = p \<and> th_number_mask (k_thread k' t) = push_bit p 1 \<and>
       stat_of (k_thread k' t) = stat_of (k_thread k t) \<and>
       (stat_of (k_thread k t) = RT_THREAD_READY \<longrightarrow> t \<in> set (k_queue k' (ReadyQ p)))"
proof (cases "rt_sched_thread_change_priority t p k")
  case None
  then show ?thesis by (simp add: rt_sched_thread_change_priority_def Let_def split: if_splits)
next
  case (Some k')
  note c = change_priority_inv[OF assms Some]
  have "lists_inv k'" using c(1) by (simp add: sched_inv_def)
  then have "t \<in> set (k_queue k' (ReadyQ p))" if "stat_of (k_thread k t) = RT_THREAD_READY"
    using lists_invD(3)[of k' t] that c(2,4) by simp
  with Some c show ?thesis by (simp add: prio_ok_def)
qed

theorem change_priority_moves_thread_witness:
  "case rt_sched_thread_change_priority 3 7 sched_example of None \<Rightarrow> False
   | Some k' \<Rightarrow> 3 \<in> set (k_queue k' (ReadyQ 7)) \<and> sched_inv k'"
proof -
  have "stat_of (k_thread sched_example 3) = 2"
    by (simp add: sched_example_def kernel0_def mk_thread_def thread0_def stat_of_def)
  then show ?thesis
    using change_priority_moves_thread [OF sched_example_inv, of 7 3] by (auto split: option.splits)
qed

end
