(* ===== verification/WaitList.thy ===== *)
theory WaitList
  imports Scheduler
begin

text \<open>
  The wait lists shared by all IPC objects (\<^verbatim>\<open>src/ipc.c\<close>, \<^verbatim>\<open>rt_susp_list_*\<close>): enqueueing in
  FIFO or priority order, waking the first waiter, and waking all of them. A waiter can be woken
  only if its timeout timer can still be stopped; when that fails the expiry handler is on its way
  and the list operation leaves the thread to it.
\<close>

section \<open>Operations\<close>

text \<open>The search loop of the priority case: before the first waiter of lower priority.\<close>

primrec prio_row_insert :: "(tid \<Rightarrow> nat) \<Rightarrow> tid \<Rightarrow> tid list \<Rightarrow> tid list" where
  "prio_row_insert prio t [] = [t]"
| "prio_row_insert prio t (s # ss) =
     (if prio t < prio s then t # s # ss else s # prio_row_insert prio t ss)"

definition rt_susp_list_enqueue :: "list_head \<Rightarrow> tid \<Rightarrow> ipc_flag \<Rightarrow> kernel \<Rightarrow> kernel" where
  "rt_susp_list_enqueue susp_list t flag k =
     (case flag of
        RT_IPC_FLAG_FIFO \<Rightarrow> queue_insert_before susp_list t k
      | RT_IPC_FLAG_PRIO \<Rightarrow>
          k\<lparr>k_queue := (k_queue k)(susp_list :=
             prio_row_insert (\<lambda>u. rt_sched_thread_get_curr_prio u k) t (k_queue k susp_list))\<rparr>)"

definition rt_susp_list_dequeue :: "list_head \<Rightarrow> rt_err_t \<Rightarrow> kernel \<Rightarrow> tid option \<times> kernel" where
  "rt_susp_list_dequeue susp_list thread_error k =
     (case k_queue k susp_list of
        [] \<Rightarrow> (None, k)
      | t # _ \<Rightarrow>
          let (error, k1) = rt_sched_thread_ready t k
          in if error \<noteq> 0 then (None, k1)
             else (Some t, if thread_error \<ge> 0
                           then thread_upd t (\<lambda>th. th\<lparr>th_error := thread_error\<rparr>) k1 else k1))"

text \<open>
  The loop takes one waiter per round and stops at the first failure; the list gets shorter in
  every round, so its length bounds the number of rounds (\<open>resume_all_loop\<close> below).
\<close>

primrec resume_rounds :: "nat \<Rightarrow> list_head \<Rightarrow> rt_err_t \<Rightarrow> kernel \<Rightarrow> kernel" where
  "resume_rounds 0 susp_list thread_error k = k"
| "resume_rounds (Suc n) susp_list thread_error k =
     (case rt_susp_list_dequeue susp_list thread_error k of
        (None, k1) \<Rightarrow> k1
      | (Some _, k1) \<Rightarrow> resume_rounds n susp_list thread_error k1)"

definition rt_susp_list_resume_all :: "list_head \<Rightarrow> rt_err_t \<Rightarrow> kernel \<Rightarrow> kernel" where
  "rt_susp_list_resume_all susp_list thread_error k =
     resume_rounds (length (k_queue k susp_list)) susp_list thread_error k"

section \<open>Order of the waiters\<close>

lemma prio_row_insert_split:
  "\<exists>xs ys. ts = xs @ ys \<and> prio_row_insert prio t ts = xs @ t # ys \<and>
     (\<forall>s \<in> set xs. prio s \<le> prio t) \<and> (ys \<noteq> [] \<longrightarrow> prio t < prio (hd ys))"
proof (induction ts)
  case (Cons s ss)
  show ?case
  proof (cases "prio t < prio s")
    case True
    then show ?thesis by (intro exI[of _ "[]"] exI[of _ "s # ss"]) simp
  next
    case False
    obtain xs ys where "ss = xs @ ys" "prio_row_insert prio t ss = xs @ t # ys"
      "\<forall>s \<in> set xs. prio s \<le> prio t" "ys \<noteq> [] \<longrightarrow> prio t < prio (hd ys)"
      using Cons.IH by blast
    with False show ?thesis by (intro exI[of _ "s # xs"] exI[of _ ys]) simp
  qed
qed simp

lemma prio_row_insert_set [simp]: "set (prio_row_insert prio t ts) = insert t (set ts)"
  by (induction ts) auto

lemma prio_row_insert_sorted:
  "sorted (map prio ts) \<Longrightarrow> sorted (map prio (prio_row_insert prio t ts))"
  by (induction ts) (auto simp: less_le_not_le intro: order_trans)

lemma enqueue_split:
  "\<exists>xs ys. k_queue k q = xs @ ys \<and>
     rt_susp_list_enqueue q t flag k = k\<lparr>k_queue := (k_queue k)(q := xs @ t # ys)\<rparr>"
proof (cases flag)
  case RT_IPC_FLAG_FIFO
  then show ?thesis
    by (intro exI[of _ "k_queue k q"] exI[of _ "[]"])
      (simp add: rt_susp_list_enqueue_def queue_insert_before_def)
next
  case RT_IPC_FLAG_PRIO
  obtain xs ys where "k_queue k q = xs @ ys"
    "prio_row_insert (\<lambda>u. rt_sched_thread_get_curr_prio u k) t (k_queue k q) = xs @ t # ys"
    using prio_row_insert_split[of "k_queue k q" "\<lambda>u. rt_sched_thread_get_curr_prio u k" t]
    by blast
  with RT_IPC_FLAG_PRIO show ?thesis
    by (intro exI[of _ xs] exI[of _ ys]) (simp add: rt_susp_list_enqueue_def)
qed

lemma enqueue_frame [simp]:
  "k_thread (rt_susp_list_enqueue q t flag k) = k_thread k"
  "k_current (rt_susp_list_enqueue q t flag k) = k_current k"
  "k_lock_nest (rt_susp_list_enqueue q t flag k) = k_lock_nest k"
  "k_timer (rt_susp_list_enqueue q t flag k) = k_timer k"
  "k_timer_list (rt_susp_list_enqueue q t flag k) = k_timer_list k"
  "r \<noteq> q \<Longrightarrow> k_queue (rt_susp_list_enqueue q t flag k) r = k_queue k r"
  by (simp_all add: rt_susp_list_enqueue_def queue_insert_before_def split: ipc_flag.split)

lemma enqueue_inv:
  assumes "off_inv t k" "stat_suspended (k_thread k t)" "\<And>p. q \<noteq> ReadyQ p" "prio_ok (k_thread k t)"
  shows "lists_inv (rt_susp_list_enqueue q t flag k)"
  using enqueue_split[of k q t flag] queue_insert_inv[OF assms(1-3) _ assms(4)] by metis

section \<open>Waking waiters\<close>

text \<open>A waiter that can be woken: suspended, and its timeout timer, if set, has not expired.\<close>

definition wake_ok :: "kernel \<Rightarrow> tid \<Rightarrow> bool" where
  "wake_ok k t \<longleftrightarrow> stat_suspended (k_thread k t) \<and> prio_ok (k_thread k t) \<and>
     (th_ttmr_set (k_thread k t) \<longrightarrow> tm_has RT_TIMER_FLAG_ACTIVATED (k_timer k (Thread_timer t)))"

definition woken_stat :: "kernel \<Rightarrow> tid \<Rightarrow> u8" where
  "woken_stat k t = (if k_current k = Some t then RT_THREAD_RUNNING else RT_THREAD_READY)"

lemma timer_stop_frame [simp]:
  "k_thread (snd (rt_timer_stop i k)) = k_thread k"
  "k_queue (snd (rt_timer_stop i k)) = k_queue k"
  "k_current (snd (rt_timer_stop i k)) = k_current k"
  "k_lock_nest (snd (rt_timer_stop i k)) = k_lock_nest k"
  "k_int_nest (snd (rt_timer_stop i k)) = k_int_nest k"
  "k_sem (snd (rt_timer_stop i k)) = k_sem k"
  "k_mutex (snd (rt_timer_stop i k)) = k_mutex k"
  "k_event (snd (rt_timer_stop i k)) = k_event k"
  "k_mailbox (snd (rt_timer_stop i k)) = k_mailbox k"
  "k_mq (snd (rt_timer_stop i k)) = k_mq k"
  "k_mempool (snd (rt_timer_stop i k)) = k_mempool k"
  "j \<noteq> i \<Longrightarrow> k_timer (snd (rt_timer_stop i k)) j = k_timer k j"
  by (simp_all add: rt_timer_stop_def timer_remove_def timer_upd_def Let_def)

lemma thread_upd_frame [simp]:
  "k_int_nest (thread_upd t f k) = k_int_nest k"
  "k_sem (thread_upd t f k) = k_sem k"
  "k_mutex (thread_upd t f k) = k_mutex k"
  "k_event (thread_upd t f k) = k_event k"
  "k_mailbox (thread_upd t f k) = k_mailbox k"
  "k_mq (thread_upd t f k) = k_mq k"
  "k_mempool (thread_upd t f k) = k_mempool k"
  "k_timer (thread_upd t f k) = k_timer k"
  "k_timer_list (thread_upd t f k) = k_timer_list k"
  "k_tick (thread_upd t f k) = k_tick k"
  by (simp_all add: thread_upd_def)

lemma node_remove_frame [simp]:
  "k_thread (node_remove t k) = k_thread k"
  "k_queue (node_remove t k) q = removeAll t (k_queue k q)"
  "k_current (node_remove t k) = k_current k"
  "k_lock_nest (node_remove t k) = k_lock_nest k"
  "k_int_nest (node_remove t k) = k_int_nest k"
  "k_sem (node_remove t k) = k_sem k"
  "k_mutex (node_remove t k) = k_mutex k"
  "k_event (node_remove t k) = k_event k"
  "k_mailbox (node_remove t k) = k_mailbox k"
  "k_mq (node_remove t k) = k_mq k"
  "k_mempool (node_remove t k) = k_mempool k"
  "k_timer (node_remove t k) = k_timer k"
  "k_timer_list (node_remove t k) = k_timer_list k"
  by (simp_all add: node_remove_def)

lemma insert_frame [simp]:
  "k_int_nest (rt_sched_insert_thread t k) = k_int_nest k"
  "k_sem (rt_sched_insert_thread t k) = k_sem k"
  "k_mutex (rt_sched_insert_thread t k) = k_mutex k"
  "k_event (rt_sched_insert_thread t k) = k_event k"
  "k_mailbox (rt_sched_insert_thread t k) = k_mailbox k"
  "k_mq (rt_sched_insert_thread t k) = k_mq k"
  "k_mempool (rt_sched_insert_thread t k) = k_mempool k"
  "k_timer (rt_sched_insert_thread t k) = k_timer k"
  "k_timer_list (rt_sched_insert_thread t k) = k_timer_list k"
  "(\<And>p. q \<noteq> ReadyQ p) \<Longrightarrow> k_queue (rt_sched_insert_thread t k) q = k_queue k q"
  by (auto simp: rt_sched_insert_thread_def mark_stat_def queue_insert_before_def
      queue_insert_after_def Let_def)

lemma sched_timer_stop_frame [simp]:
  "k_queue (snd (rt_sched_thread_timer_stop t k)) = k_queue k"
  "k_current (snd (rt_sched_thread_timer_stop t k)) = k_current k"
  "k_lock_nest (snd (rt_sched_thread_timer_stop t k)) = k_lock_nest k"
  "k_int_nest (snd (rt_sched_thread_timer_stop t k)) = k_int_nest k"
  "k_sem (snd (rt_sched_thread_timer_stop t k)) = k_sem k"
  "k_mutex (snd (rt_sched_thread_timer_stop t k)) = k_mutex k"
  "k_event (snd (rt_sched_thread_timer_stop t k)) = k_event k"
  "k_mailbox (snd (rt_sched_thread_timer_stop t k)) = k_mailbox k"
  "k_mq (snd (rt_sched_thread_timer_stop t k)) = k_mq k"
  "k_mempool (snd (rt_sched_thread_timer_stop t k)) = k_mempool k"
  "k_thread (snd (rt_sched_thread_timer_stop t k)) = (k_thread k)(t := (k_thread k t)\<lparr>th_ttmr_set := False\<rparr>)"
  "j \<noteq> Thread_timer t \<Longrightarrow> k_timer (snd (rt_sched_thread_timer_stop t k)) j = k_timer k j"
  by (auto simp: rt_sched_thread_timer_stop_def split_beta Let_def fun_eq_iff)

definition woken :: "tid \<Rightarrow> kernel \<Rightarrow> kernel" where
  "woken t k = rt_sched_insert_thread t (node_remove t
     (if th_ttmr_set (k_thread k t) then snd (rt_sched_thread_timer_stop t k) else k))"

lemma ready_wake:
  assumes "wake_ok k t"
  shows "rt_sched_thread_ready t k = (RT_EOK, woken t k)"
proof -
  have "fst (rt_sched_thread_timer_stop t k) = 0" if "th_ttmr_set (k_thread k t)"
    using assms that
    by (simp add: wake_ok_def rt_sched_thread_timer_stop_def rt_timer_stop_def split_beta Let_def)
  then show ?thesis
    using assms by (auto simp: rt_sched_thread_ready_def rt_sched_thread_is_suspended_def woken_def
        wake_ok_def split_beta Let_def)
qed

lemma woken_frame [simp]:
  "k_current (woken t k) = k_current k"
  "k_lock_nest (woken t k) = k_lock_nest k"
  "k_int_nest (woken t k) = k_int_nest k"
  "k_sem (woken t k) = k_sem k"
  "k_mutex (woken t k) = k_mutex k"
  "k_event (woken t k) = k_event k"
  "k_mailbox (woken t k) = k_mailbox k"
  "k_mq (woken t k) = k_mq k"
  "k_mempool (woken t k) = k_mempool k"
  "j \<noteq> Thread_timer t \<Longrightarrow> k_timer (woken t k) j = k_timer k j"
  "(\<And>p. q \<noteq> ReadyQ p) \<Longrightarrow> k_queue (woken t k) q = removeAll t (k_queue k q)"
  "k_thread (woken t k) = (k_thread k)(t := (k_thread k t)\<lparr>th_ttmr_set := False,
     th_stat := stat_with (woken_stat k t) (th_stat (k_thread k t))\<rparr>)"
  by (auto simp: woken_def woken_stat_def)

text \<open>Waking a thread with an error code, the step of both list operations.\<close>

definition wake_with :: "rt_err_t \<Rightarrow> tid \<Rightarrow> kernel \<Rightarrow> kernel" where
  "wake_with err t k =
     (if err \<ge> 0 then thread_upd t (\<lambda>th. th\<lparr>th_error := err\<rparr>) (snd (rt_sched_thread_ready t k))
      else snd (rt_sched_thread_ready t k))"

lemma wake_with_wake:
  "wake_ok k t \<Longrightarrow> wake_with err t k =
     (if err \<ge> 0 then thread_upd t (\<lambda>th. th\<lparr>th_error := err\<rparr>) (woken t k) else woken t k)"
  by (simp add: wake_with_def ready_wake)

lemma error_upd_same [simp]: "same_sched k (thread_upd t (\<lambda>th. th\<lparr>th_error := err\<rparr>) k)"
  by (rule same_sched_upd) (simp_all add: stat_of_def)

lemma wake_ok_other: "wake_ok k u \<Longrightarrow> u \<noteq> t \<Longrightarrow> wake_ok k t \<Longrightarrow> wake_ok (wake_with err t k) u"
  by (simp add: wake_with_wake) (simp add: wake_ok_def)

interpretation waiter_waker: thread_waker "wake_with err" sched_inv "\<lambda>k t. prio_ok (k_thread k t)"
  for err
proof unfold_locales
  fix k t u
  assume "sched_inv k" "prio_ok (k_thread k t)"
  then show "sched_inv (wake_with err t k)"
    by (simp add: wake_with_def sched_inv_same[OF error_upd_same] sched_waker.wake_invar)
next
  fix k :: kernel and u t
  assume "prio_ok (k_thread k u)"
  then have "prio_ok (k_thread (snd (rt_sched_thread_ready t k)) u)"
    by (rule sched_waker.wake_wakeable)
  then show "prio_ok (k_thread (wake_with err t k) u)"
    by (auto simp: wake_with_def prio_ok_def)
qed

lemma dequeue_nil: "k_queue k q = [] \<Longrightarrow> rt_susp_list_dequeue q err k = (None, k)"
  by (simp add: rt_susp_list_dequeue_def)

lemma dequeue_cons:
  "k_queue k q = t # ts \<Longrightarrow> wake_ok k t \<Longrightarrow>
   rt_susp_list_dequeue q err k = (Some t, wake_with err t k)"
  by (simp add: rt_susp_list_dequeue_def ready_wake wake_with_wake)

lemma lists_inv_prio_ok:
  "lists_inv k \<Longrightarrow> t \<in> set (k_queue k q) \<Longrightarrow> prio_ok (k_thread k t)"
  using lists_invD(1,2)[of k t] by (cases "\<exists>p. q = ReadyQ p") auto

lemma dequeue_inv [rt_inv]:
  assumes "sched_inv k"
  shows "sched_inv (snd (rt_susp_list_dequeue q err k))"
proof (cases "k_queue k q")
  case (Cons t ts)
  then have p: "prio_ok (k_thread k t)" using lists_inv_prio_ok[of k t q] assms by (simp add: sched_inv_def)
  have "snd (rt_susp_list_dequeue q err k) = wake_with err t k \<or>
        snd (rt_susp_list_dequeue q err k) = snd (rt_sched_thread_ready t k)"
    using Cons by (auto simp: rt_susp_list_dequeue_def wake_with_def split_beta Let_def)
  then show ?thesis
    using waiter_waker.wake_invar[OF assms p] sched_waker.wake_invar[OF assms p] by auto
qed (simp add: dequeue_nil assms)

lemma wake_with_queue:
  "wake_ok k t \<Longrightarrow> (\<And>p. q \<noteq> ReadyQ p) \<Longrightarrow>
   k_queue (wake_with err t k) q = removeAll t (k_queue k q)"
  by (simp add: wake_with_wake)

lemma resume_rounds_fold:
  assumes "distinct ts" "k_queue k q = ts" "\<And>t. t \<in> set ts \<Longrightarrow> wake_ok k t"
    "\<And>p. q \<noteq> ReadyQ p"
  shows "resume_rounds (length ts) q err k = fold (wake_with err) ts k"
  using assms(1,2,3)
proof (induction ts arbitrary: k)
  case (Cons t ts)
  then have "k_queue (wake_with err t k) q = ts"
    using assms(4) by (simp add: wake_with_queue)
  moreover have "wake_ok (wake_with err t k) u" if "u \<in> set ts" for u
    using Cons.prems that by (intro wake_ok_other) auto
  ultimately have "resume_rounds (length ts) q err (wake_with err t k) =
      fold (wake_with err) ts (wake_with err t k)"
    using Cons.prems(1) by (intro Cons.IH) simp_all
  then show ?case using Cons.prems by (simp add: dequeue_cons)
qed simp

lemma resume_all_fold:
  assumes "lists_inv k" "\<And>t. t \<in> set (k_queue k q) \<Longrightarrow> wake_ok k t" "\<And>p. q \<noteq> ReadyQ p"
  shows "rt_susp_list_resume_all q err k = fold (wake_with err) (k_queue k q) k"
proof -
  have "distinct (k_queue k q)" using assms(1) by (simp add: lists_inv_def queues_ok_def)
  then show ?thesis
    unfolding rt_susp_list_resume_all_def using assms by (intro resume_rounds_fold) simp_all
qed

lemma fold_wake_effect:
  assumes "distinct ts" "\<And>t. t \<in> set ts \<Longrightarrow> wake_ok k t" "err \<ge> 0" "\<And>p. q \<noteq> ReadyQ p"
  shows "k_thread (fold (wake_with err) ts k) u =
      (if u \<in> set ts then (k_thread k u)\<lparr>th_ttmr_set := False,
         th_stat := stat_with (woken_stat k u) (th_stat (k_thread k u)), th_error := err\<rparr>
       else k_thread k u) \<and>
    k_current (fold (wake_with err) ts k) = k_current k \<and>
    k_queue (fold (wake_with err) ts k) q = filter (\<lambda>u. u \<notin> set ts) (k_queue k q) \<and>
    k_lock_nest (fold (wake_with err) ts k) = k_lock_nest k"
  using assms(1,2)
proof (induction ts arbitrary: k)
  case (Cons t ts)
  have w: "wake_ok (wake_with err t k) u" if "u \<in> set ts" for u
    using Cons.prems that by (intro wake_ok_other) auto
  have wk: "wake_with err t k = thread_upd t (\<lambda>th. th\<lparr>th_error := err\<rparr>) (woken t k)"
    using Cons.prems assms(3) by (simp add: wake_with_wake)
  have "k_queue (wake_with err t k) q = filter (\<lambda>u. u \<noteq> t) (k_queue k q)"
    using assms(4) by (auto simp: wk removeAll_filter_not_eq intro: filter_cong)
  moreover have "k_thread (wake_with err t k) u = (if u = t then (k_thread k u)\<lparr>th_ttmr_set := False,
         th_stat := stat_with (woken_stat k u) (th_stat (k_thread k u)), th_error := err\<rparr>
       else k_thread k u)" for u
    by (simp add: wk)
  moreover have "woken_stat (wake_with err t k) u = woken_stat k u" for u
    by (simp add: wk woken_stat_def)
  moreover have "k_current (wake_with err t k) = k_current k"
    "k_lock_nest (wake_with err t k) = k_lock_nest k" by (simp_all add: wk)
  moreover note Cons.IH[of "wake_with err t k"]
  ultimately show ?case using Cons.prems(1) w by (auto simp: filter_empty_conv intro: filter_cong)
qed (simp add: filter_True)

lemma ready_frame [simp]:
  "k_sem (snd (rt_sched_thread_ready t k)) = k_sem k"
  "k_mutex (snd (rt_sched_thread_ready t k)) = k_mutex k"
  "k_event (snd (rt_sched_thread_ready t k)) = k_event k"
  "k_mailbox (snd (rt_sched_thread_ready t k)) = k_mailbox k"
  "k_mq (snd (rt_sched_thread_ready t k)) = k_mq k"
  "k_mempool (snd (rt_sched_thread_ready t k)) = k_mempool k"
  "k_current (snd (rt_sched_thread_ready t k)) = k_current k"
  "k_lock_nest (snd (rt_sched_thread_ready t k)) = k_lock_nest k"
  by (simp_all add: rt_sched_thread_ready_def split_beta Let_def)

lemma dequeue_frame [simp]:
  "k_sem (snd (rt_susp_list_dequeue q err k)) = k_sem k"
  "k_mutex (snd (rt_susp_list_dequeue q err k)) = k_mutex k"
  "k_event (snd (rt_susp_list_dequeue q err k)) = k_event k"
  "k_mailbox (snd (rt_susp_list_dequeue q err k)) = k_mailbox k"
  "k_mq (snd (rt_susp_list_dequeue q err k)) = k_mq k"
  "k_mempool (snd (rt_susp_list_dequeue q err k)) = k_mempool k"
  "k_current (snd (rt_susp_list_dequeue q err k)) = k_current k"
  "k_lock_nest (snd (rt_susp_list_dequeue q err k)) = k_lock_nest k"
  by (simp_all add: rt_susp_list_dequeue_def split_beta Let_def split: list.split)

lemma resume_rounds_Suc:
  "resume_rounds (Suc n) q err k =
     (if fst (rt_susp_list_dequeue q err k) = None then snd (rt_susp_list_dequeue q err k)
      else resume_rounds n q err (snd (rt_susp_list_dequeue q err k)))"
  by (auto split: option.split prod.split)

declare resume_rounds.simps(2) [simp del]

lemma resume_rounds_inv: "sched_inv k \<Longrightarrow> sched_inv (resume_rounds n q err k)"
  by (induction n arbitrary: k) (simp_all add: resume_rounds_Suc dequeue_inv)

lemma resume_all_inv [rt_inv]: "sched_inv k \<Longrightarrow> sched_inv (rt_susp_list_resume_all q err k)"
  by (simp add: rt_susp_list_resume_all_def resume_rounds_inv)

lemma resume_rounds_frame [simp]:
  "k_sem (resume_rounds n q err k) = k_sem k"
  "k_mutex (resume_rounds n q err k) = k_mutex k"
  "k_event (resume_rounds n q err k) = k_event k"
  "k_mailbox (resume_rounds n q err k) = k_mailbox k"
  "k_mq (resume_rounds n q err k) = k_mq k"
  "k_mempool (resume_rounds n q err k) = k_mempool k"
  "k_current (resume_rounds n q err k) = k_current k"
  "k_lock_nest (resume_rounds n q err k) = k_lock_nest k"
  by (induction n arbitrary: k) (simp_all add: resume_rounds_Suc)

lemma resume_all_frame [simp]:
  "k_sem (rt_susp_list_resume_all q err k) = k_sem k"
  "k_mutex (rt_susp_list_resume_all q err k) = k_mutex k"
  "k_event (rt_susp_list_resume_all q err k) = k_event k"
  "k_mailbox (rt_susp_list_resume_all q err k) = k_mailbox k"
  "k_mq (rt_susp_list_resume_all q err k) = k_mq k"
  "k_mempool (rt_susp_list_resume_all q err k) = k_mempool k"
  "k_current (rt_susp_list_resume_all q err k) = k_current k"
  "k_lock_nest (rt_susp_list_resume_all q err k) = k_lock_nest k"
  by (simp_all add: rt_susp_list_resume_all_def)

lemma dequeue_shorter:
  assumes "fst (rt_susp_list_dequeue q err k) = Some t" "\<And>p. q \<noteq> ReadyQ p"
  shows "length (k_queue (snd (rt_susp_list_dequeue q err k)) q) < length (k_queue k q)"
proof -
  obtain ts where ts: "k_queue k q = t # ts" "fst (rt_sched_thread_ready t k) = 0"
    using assms(1)
    by (auto simp: rt_susp_list_dequeue_def split_beta Let_def split: list.splits if_splits)
  have "k_queue (snd (rt_susp_list_dequeue q err k)) q = removeAll t (k_queue k q)"
    using ts assms(2)
    by (auto simp: rt_susp_list_dequeue_def rt_sched_thread_ready_def split_beta Let_def
        split: if_splits)
  also have "\<dots> = removeAll t ts" using ts by simp
  finally show ?thesis using ts by (simp add: removeAll_filter_not_eq le_imp_less_Suc)
qed

text \<open>The bound on the rounds is enough: the definition satisfies the equation of the loop.\<close>

lemma resume_rounds_enough:
  assumes "\<And>p. q \<noteq> ReadyQ p" "length (k_queue k q) \<le> n"
  shows "resume_rounds n q err k = rt_susp_list_resume_all q err k"
  using assms(2)
proof (induction n arbitrary: k rule: less_induct)
  case (less n)
  let ?d = "rt_susp_list_dequeue q err k"
  show ?case
  proof (cases "k_queue k q")
    case Nil
    then show ?thesis
      by (cases n) (simp_all add: rt_susp_list_resume_all_def resume_rounds_Suc dequeue_nil)
  next
    case (Cons t ts)
    then obtain m where n: "n = Suc m" "length ts \<le> m"
      using less.prems by (cases n) auto
    have all: "rt_susp_list_resume_all q err k = resume_rounds (Suc (length ts)) q err k"
      by (simp add: rt_susp_list_resume_all_def Cons)
    show ?thesis
    proof (cases "fst ?d")
      case None
      then show ?thesis by (simp add: all n resume_rounds_Suc)
    next
      case (Some u)
      then have "length (k_queue (snd ?d) q) \<le> length ts"
        using dequeue_shorter[OF Some assms(1)] Cons by simp
      then show ?thesis
        using less.IH[of m "snd ?d"] less.IH[of "length ts" "snd ?d"] n Some
        by (simp add: all resume_rounds_Suc)
    qed
  qed
qed

lemma resume_all_loop:
  assumes "\<And>p. q \<noteq> ReadyQ p"
  shows "rt_susp_list_resume_all q err k =
    (case rt_susp_list_dequeue q err k of
       (None, k1) \<Rightarrow> k1 | (Some _, k1) \<Rightarrow> rt_susp_list_resume_all q err k1)"
proof (cases "k_queue k q")
  case Nil
  then show ?thesis by (simp add: rt_susp_list_resume_all_def dequeue_nil)
next
  case (Cons t ts)
  then have "rt_susp_list_resume_all q err k = resume_rounds (Suc (length ts)) q err k"
    by (simp add: rt_susp_list_resume_all_def)
  moreover have "length (k_queue (snd (rt_susp_list_dequeue q err k)) q) \<le> length ts"
    if "fst (rt_susp_list_dequeue q err k) = Some u" for u
    using dequeue_shorter[OF that assms] Cons by simp
  ultimately show ?thesis
    using resume_rounds_enough[OF assms]
    by (auto simp: resume_rounds_Suc split: prod.split option.split)
qed

section \<open>Properties\<close>

text \<open>Threads 2 and 3 wait on semaphore 0, thread 2 first; thread 1 runs.\<close>

definition wait_example :: kernel where
  "wait_example = kernel0\<lparr>
     k_thread := (\<lambda>_. thread0)(1 := mk_thread 3 10, 2 := mk_thread 7 8, 3 := mk_thread 7 20),
     k_queue := (\<lambda>_. [])(SemQ 0 := [2, 3]), k_current := Some 1\<rparr>"

lemma wait_example_inv: "sched_inv wait_example"
  by (auto simp: sched_inv_def lists_inv_def queues_ok_def group_ok_def thread_ok_def cur_ok_def
      wait_example_def kernel0_def thread0_def mk_thread_def stat_of_def stat_suspended_def
      prio_ok_def split: if_splits)

lemma wait_example_wake: "t \<in> set (k_queue wait_example (SemQ 0)) \<Longrightarrow> wake_ok wait_example t"
  by (auto simp: wait_example_def kernel0_def wake_ok_def stat_suspended_def prio_ok_def
      mk_thread_def thread0_def)

text \<open>
  Queueing discipline: enqueueing on a priority list puts the thread behind every waiter of
  the same or a higher priority and before all others, so a list in priority order stays in
  priority order and equal priorities are served first come, first served; on a FIFO list the
  thread goes to the end.
\<close>

theorem wait_list_order:
  assumes "flag = RT_IPC_FLAG_PRIO \<longrightarrow>
    sorted (map (\<lambda>u. th_current_priority (k_thread k u)) (k_queue k q))"
  shows "\<exists>xs ys. k_queue k q = xs @ ys \<and>
    k_queue (rt_susp_list_enqueue q t flag k) q = xs @ t # ys \<and>
    (case flag of RT_IPC_FLAG_FIFO \<Rightarrow> ys = []
     | RT_IPC_FLAG_PRIO \<Rightarrow>
         (\<forall>u \<in> set xs. th_current_priority (k_thread k u) \<le> th_current_priority (k_thread k t)) \<and>
         (\<forall>u \<in> set ys. th_current_priority (k_thread k t) < th_current_priority (k_thread k u)))"
proof (cases flag)
  case RT_IPC_FLAG_FIFO
  then show ?thesis
    by (intro exI[of _ "k_queue k q"] exI[of _ "[]"])
      (simp add: rt_susp_list_enqueue_def queue_insert_before_def)
next
  case RT_IPC_FLAG_PRIO
  let ?p = "\<lambda>u. th_current_priority (k_thread k u)"
  obtain xs ys where s: "k_queue k q = xs @ ys" "prio_row_insert ?p t (k_queue k q) = xs @ t # ys"
    "\<forall>u \<in> set xs. ?p u \<le> ?p t" "ys \<noteq> [] \<longrightarrow> ?p t < ?p (hd ys)"
    using prio_row_insert_split[of "k_queue k q" ?p t] by blast
  have "sorted (map ?p ys)" using assms RT_IPC_FLAG_PRIO s(1) by (simp add: sorted_append)
  then have "\<forall>u \<in> set ys. ?p t < ?p u" using s(4) by (cases ys) auto
  with s RT_IPC_FLAG_PRIO show ?thesis
    by (intro exI[of _ xs] exI[of _ ys])
      (simp add: rt_susp_list_enqueue_def rt_sched_thread_get_curr_prio_def)
qed

theorem wait_list_order_witness:
  "k_queue (rt_susp_list_enqueue (SemQ 0) 1 RT_IPC_FLAG_PRIO wait_example) (SemQ 0) = [2, 1, 3]"
proof -
  have "sorted (map (\<lambda>u. th_current_priority (k_thread wait_example u)) (k_queue wait_example (SemQ 0)))"
    "k_queue wait_example (SemQ 0) = [2, 3]"
    "th_current_priority (k_thread wait_example 1) = 10"
    "th_current_priority (k_thread wait_example 2) = 8"
    "th_current_priority (k_thread wait_example 3) = 20"
    by (simp_all add: wait_example_def kernel0_def mk_thread_def thread0_def)
  then show ?thesis
    using wait_list_order [of RT_IPC_FLAG_PRIO wait_example "SemQ 0" 1]
    by (auto simp: Cons_eq_append_conv)
qed

text \<open>
  Waking everybody: when every waiter of a list can be woken, \<^verbatim>\<open>rt_susp_list_resume_all\<close>
  empties the list, makes every waiter ready with the given error code, leaves all other threads
  alone and keeps the scheduler invariant.
\<close>

theorem resume_all_wakes_everyone:
  assumes "sched_inv k" and "\<And>p. q \<noteq> ReadyQ p" and "0 \<le> err"
    and "\<And>t. t \<in> set (k_queue k q) \<Longrightarrow> wake_ok k t"
  shows "sched_inv (rt_susp_list_resume_all q err k) \<and>
    k_queue (rt_susp_list_resume_all q err k) q = [] \<and>
    (\<forall>u. if u \<in> set (k_queue k q)
         then stat_of (k_thread (rt_susp_list_resume_all q err k) u) = woken_stat k u \<and>
              th_error (k_thread (rt_susp_list_resume_all q err k) u) = err
         else k_thread (rt_susp_list_resume_all q err k) u = k_thread k u)"
proof -
  have l: "lists_inv k" and d: "distinct (k_queue k q)"
    using assms(1) by (auto simp: sched_inv_def lists_inv_def queues_ok_def)
  have eq: "rt_susp_list_resume_all q err k = fold (wake_with err) (k_queue k q) k"
    using assms by (intro resume_all_fold[OF l])
  note eff = fold_wake_effect[OF d assms(4,3,2), simplified]
  have "sched_inv (rt_susp_list_resume_all q err k)"
    unfolding eq using assms(1,4)
    by (intro waiter_waker.wake_all_invar) (auto simp: wake_ok_def)
  then show ?thesis
    using eff by (auto simp: eq woken_stat_def stat_of_def)
qed

theorem resume_all_wakes_everyone_witness:
  "k_queue (rt_susp_list_resume_all (SemQ 0) 1 wait_example) (SemQ 0) = [] \<and>
   th_error (k_thread (rt_susp_list_resume_all (SemQ 0) 1 wait_example) 3) = 1"
proof -
  have "3 \<in> set (k_queue wait_example (SemQ 0))" by (simp add: wait_example_def kernel0_def)
  then show ?thesis
    using resume_all_wakes_everyone [OF wait_example_inv, of "SemQ 0" 1, OF _ _ wait_example_wake]
    by auto
qed

end
