(* ===== verification/Thread.thy ===== *)
theory Thread
  imports WaitList "HOL-Library.Monad_Syntax"
begin

text \<open>
  Threads (\<^verbatim>\<open>src/thread.c\<close>): initialisation, start, suspension, resumption, yielding, the
  timeout handler, exit, and the sleeping calls. A result \<open>None\<close> is a failed assertion of the
  source. A call that blocks is modelled in two halves: the part up to the point where the caller
  is suspended and the processor given away, whose result is \<open>Blocked\<close> with what the caller
  remembers, and a function ending in \<open>resume\<close> for what the caller does when it runs again.
\<close>

datatype ('a, 'c) flow = Done 'a | Blocked 'c

section \<open>Context checks\<close>

text \<open>\<^verbatim>\<open>RT_DEBUG_NOT_IN_INTERRUPT\<close>, \<^verbatim>\<open>RT_DEBUG_IN_THREAD_CONTEXT\<close> and
  \<^verbatim>\<open>RT_DEBUG_SCHEDULER_AVAILABLE\<close> of \<^verbatim>\<open>rtthread.h\<close>.\<close>

definition not_in_interrupt :: "kernel \<Rightarrow> bool" where
  "not_in_interrupt k \<longleftrightarrow> k_int_nest k = 0"

definition in_thread_context :: "kernel \<Rightarrow> bool" where
  "in_thread_context k \<longleftrightarrow> k_current k \<noteq> None \<and> not_in_interrupt k"

definition scheduler_available :: "bool \<Rightarrow> kernel \<Rightarrow> bool" where
  "scheduler_available need_check k \<longleftrightarrow>
     (need_check \<longrightarrow> rt_critical_level k = 0 \<and> in_thread_context k)"

section \<open>Operations\<close>

definition set_error :: "rt_err_t \<Rightarrow> tid \<Rightarrow> kernel \<Rightarrow> kernel" where
  "set_error err t = thread_upd t (\<lambda>th. th\<lparr>th_error := err\<rparr>)"

text \<open>\<^verbatim>\<open>rt_set_errno\<close>; the word used in interrupts and before the first thread is not modelled.\<close>

definition rt_set_errno :: "rt_err_t \<Rightarrow> kernel \<Rightarrow> kernel" where
  "rt_set_errno err k =
     (if k_int_nest k \<noteq> 0 then k else case k_current k of None \<Rightarrow> k | Some t \<Rightarrow> set_error err t k)"

definition rt_thread_self :: "kernel \<Rightarrow> tid option" where
  "rt_thread_self k = k_current k"

definition suspend_stat :: "suspend_flag \<Rightarrow> u8" where
  "suspend_stat flag =
     (case flag of RT_INTERRUPTIBLE \<Rightarrow> RT_THREAD_SUSPEND_INTERRUPTIBLE
      | RT_KILLABLE \<Rightarrow> RT_THREAD_SUSPEND_KILLABLE
      | RT_UNINTERRUPTIBLE \<Rightarrow> RT_THREAD_SUSPEND_UNINTERRUPTIBLE)"

definition thread_set_suspend_state :: "tid \<Rightarrow> suspend_flag \<Rightarrow> kernel \<Rightarrow> kernel" where
  "thread_set_suspend_state t flag = mark_stat (suspend_stat flag) t"

definition rt_thread_suspend_to_list ::
  "tid \<Rightarrow> list_head option \<Rightarrow> ipc_flag \<Rightarrow> suspend_flag \<Rightarrow> kernel \<Rightarrow> (rt_err_t \<times> kernel) option" where
  "rt_thread_suspend_to_list t susp_list ipc_flags suspend_flag k =
     (if rt_thread_self k \<noteq> Some t then None
      else let stat = rt_sched_thread_get_stat t k
           in if stat \<noteq> RT_THREAD_READY \<and> stat \<noteq> RT_THREAD_RUNNING then Some (- RT_ERROR, k)
              else let k1 = rt_sched_remove_thread t k;
                       k2 = thread_set_suspend_state t suspend_flag k1;
                       k3 = (case susp_list of None \<Rightarrow> k2
                             | Some q \<Rightarrow> rt_susp_list_enqueue q t ipc_flags k2);
                       k4 = snd (rt_sched_thread_timer_stop t k3)
                   in Some (RT_EOK, k4))"

definition rt_thread_suspend_with_flag ::
  "tid \<Rightarrow> suspend_flag \<Rightarrow> kernel \<Rightarrow> (rt_err_t \<times> kernel) option" where
  "rt_thread_suspend_with_flag t suspend_flag =
     rt_thread_suspend_to_list t None RT_IPC_FLAG_FIFO suspend_flag"

definition rt_thread_suspend :: "tid \<Rightarrow> kernel \<Rightarrow> (rt_err_t \<times> kernel) option" where
  "rt_thread_suspend t = rt_thread_suspend_with_flag t RT_UNINTERRUPTIBLE"

definition rt_thread_resume :: "tid \<Rightarrow> kernel \<Rightarrow> rt_err_t \<times> kernel" where
  "rt_thread_resume t k =
     (let (error, k1) = rt_sched_thread_ready t k
      in if error = 0 then (RT_EOK, rt_sched_unlock_n_resched k1) else (error, k1))"

text \<open>\<^verbatim>\<open>_thread_timeout\<close>, the handler of every thread timer.\<close>

definition thread_timeout :: "tid \<Rightarrow> kernel \<Rightarrow> kernel option" where
  "thread_timeout t k =
     (if \<not> rt_sched_thread_is_suspended t k then None
      else let k1 = set_error (- RT_ETIMEOUT) t k;
               k2 = rt_sched_insert_thread t (node_remove t k1)
           in Some (rt_sched_unlock_n_resched k2))"

text \<open>\<^verbatim>\<open>_thread_init\<close>, without the entry point and the stack.\<close>

definition thread_init :: "tid \<Rightarrow> nat \<Rightarrow> u32 \<Rightarrow> kernel \<Rightarrow> kernel option" where
  "thread_init t priority tick k = do {
     k1 \<leftarrow> rt_sched_thread_init_ctx t tick priority k;
     let k2 = thread_upd t (\<lambda>th. th\<lparr>th_taken := [], th_pending := None, th_event_set := 0,
                th_event_info := 0, th_error := RT_EOK\<rparr>) k1;
     rt_timer_init (Thread_timer t) Thread_timeout t 0
       (RT_TIMER_FLAG_ONE_SHOT OR RT_TIMER_FLAG_THREAD_TIMER) k2
   }"

definition rt_thread_init :: "tid \<Rightarrow> nat \<Rightarrow> u32 \<Rightarrow> kernel \<Rightarrow> kernel option" where
  "rt_thread_init t priority tick k = (if tick = 0 then None else thread_init t priority tick k)"

definition rt_thread_startup :: "tid \<Rightarrow> kernel \<Rightarrow> (rt_err_t \<times> kernel) option" where
  "rt_thread_startup t k =
     (if stat_of (k_thread k t) \<noteq> RT_THREAD_INIT then None
      else Some (RT_EOK, snd (rt_thread_resume t (rt_sched_thread_startup t k))))"

definition rt_thread_yield :: "kernel \<Rightarrow> (rt_err_t \<times> kernel) option" where
  "rt_thread_yield k =
     (case rt_thread_self k of
        None \<Rightarrow> None
      | Some t \<Rightarrow> Some (RT_EOK, rt_sched_unlock_n_resched (rt_sched_thread_yield t k)))"

text \<open>The list of closed threads (\<^verbatim>\<open>src/idle.c\<close>), linked by the node of the ready lists.\<close>

definition rt_thread_defunct_enqueue :: "tid \<Rightarrow> kernel \<Rightarrow> kernel" where
  "rt_thread_defunct_enqueue t k = k\<lparr>k_defunct := t # k_defunct k\<rparr>"

definition rt_thread_defunct_dequeue :: "kernel \<Rightarrow> tid option \<times> kernel" where
  "rt_thread_defunct_dequeue k =
     (case k_defunct k of [] \<Rightarrow> (None, k) | t # _ \<Rightarrow> (Some t, node_remove t k))"

text \<open>
  A call of \<^verbatim>\<open>rt_schedule\<close> in the code of thread \<open>t\<close>. If leaving a critical section has already
  given the processor away, the call happens only when \<open>t\<close> runs again.
\<close>

definition resched_if_current :: "tid \<Rightarrow> kernel \<Rightarrow> kernel" where
  "resched_if_current t k = (if k_current k = Some t then rt_schedule k else k)"

text \<open>\<^verbatim>\<open>_thread_exit\<close>: a thread returns from its entry function. It never runs again.\<close>

definition thread_exit :: "kernel \<Rightarrow> kernel option" where
  "thread_exit k =
     (case rt_thread_self k of
        None \<Rightarrow> None
      | Some t \<Rightarrow> do {
          let (critical_level, k1) = rt_enter_critical k;
          let k2 = rt_sched_remove_thread t k1;
          let k3 = snd (rt_timer_detach (Thread_timer t) k2);
          let k4 = rt_sched_thread_close t k3;
          let k5 = rt_thread_defunct_enqueue t k4;
          k6 \<leftarrow> rt_exit_critical_safe critical_level k5;
          Some (resched_if_current t k6)
        })"

section \<open>Sleeping\<close>

text \<open>Setting and starting the timer of the calling thread; \<open>None\<close> is the assertion on the time.\<close>

definition start_thread_timer :: "tid \<Rightarrow> u32 \<Rightarrow> kernel \<Rightarrow> kernel option" where
  "start_thread_timer t tick k = do {
     (_, _, k1) \<leftarrow> rt_timer_control (Thread_timer t) (CTRL_SET_TIME tick) k;
     Some (snd (rt_timer_start (Thread_timer t) k1))
   }"

definition thread_sleep :: "u32 \<Rightarrow> kernel \<Rightarrow> ((rt_err_t, unit) flow \<times> kernel) option" where
  "thread_sleep tick k =
     (if tick = 0 then Some (Done (- RT_EINVAL), k)
      else case rt_thread_self k of
        None \<Rightarrow> None
      | Some t \<Rightarrow>
          if \<not> scheduler_available True k then None
          else do {
            let k1 = set_error RT_EOK t k;
            let (critical_level, k2) = rt_enter_critical k1;
            (err, k3) \<leftarrow> rt_thread_suspend_with_flag t RT_INTERRUPTIBLE k2;
            if err = RT_EOK
            then do {
              k4 \<leftarrow> start_thread_timer t tick k3;
              let k5 = rt_schedule (set_error (- RT_EINTR) t k4);
              k6 \<leftarrow> rt_exit_critical_safe critical_level k5;
              Some (Blocked (), k6)
            }
            else do {
              k4 \<leftarrow> rt_exit_critical_safe critical_level k3;
              Some (Done err, k4)
            }
          })"

definition thread_sleep_resume :: "tid \<Rightarrow> kernel \<Rightarrow> rt_err_t \<times> kernel" where
  "thread_sleep_resume t k =
     (RT_EOK, if th_error (k_thread k t) = - RT_ETIMEOUT then set_error RT_EOK t k else k)"

definition rt_thread_delay :: "u32 \<Rightarrow> kernel \<Rightarrow> ((rt_err_t, unit) flow \<times> kernel) option" where
  "rt_thread_delay tick = thread_sleep tick"

text \<open>The new value of the tick variable is returned beside the result.\<close>

definition rt_thread_delay_until ::
  "u32 \<Rightarrow> u32 \<Rightarrow> kernel \<Rightarrow> ((rt_err_t, unit) flow \<times> u32 \<times> kernel) option" where
  "rt_thread_delay_until tick inc_tick k =
     (case rt_thread_self k of
        None \<Rightarrow> None
      | Some t \<Rightarrow> do {
          let k1 = set_error RT_EOK t k;
          let (critical_level, k2) = rt_enter_critical k1;
          let cur_tick = k_tick k2;
          if cur_tick - tick < inc_tick
          then do {
            let tick' = tick + inc_tick;
            let left_tick = tick' - cur_tick;
            (_, k3) \<leftarrow> rt_thread_suspend_with_flag t RT_UNINTERRUPTIBLE k2;
            k4 \<leftarrow> start_thread_timer t left_tick k3;
            k5 \<leftarrow> rt_exit_critical_safe critical_level k4;
            Some (Blocked (), tick', resched_if_current t k5)
          }
          else do {
            k3 \<leftarrow> rt_exit_critical_safe critical_level k2;
            Some (Done (th_error (k_thread k3 t)), cur_tick, k3)
          }
        })"

definition rt_thread_delay_until_resume :: "tid \<Rightarrow> kernel \<Rightarrow> rt_err_t \<times> kernel" where
  "rt_thread_delay_until_resume t k =
     (let k0 = resched_if_current t k;
          k1 = (if th_error (k_thread k0 t) = - RT_ETIMEOUT then set_error RT_EOK t k0 else k0)
      in (th_error (k_thread k1 t), k1))"

section \<open>The scheduler invariant\<close>

lemma set_error_same [simp]: "same_sched k (set_error err t k)"
  by (simp add: set_error_def)

lemma set_error_inv [simp]: "sched_inv (set_error err t k) = sched_inv k"
  by (rule sched_inv_same) simp

lemma set_error_frame [simp]:
  "k_thread (set_error err t k) = (k_thread k)(t := (k_thread k t)\<lparr>th_error := err\<rparr>)"
  "k_queue (set_error err t k) = k_queue k"
  "k_current (set_error err t k) = k_current k"
  "k_lock_nest (set_error err t k) = k_lock_nest k"
  "k_ready_group (set_error err t k) = k_ready_group k"
  "k_int_nest (set_error err t k) = k_int_nest k"
  "k_timer (set_error err t k) = k_timer k"
  "k_tick (set_error err t k) = k_tick k"
  by (simp_all add: set_error_def thread_upd_def)

lemma set_error_objects [simp]:
  "k_sem (set_error err t k) = k_sem k"
  "k_mutex (set_error err t k) = k_mutex k"
  "k_event (set_error err t k) = k_event k"
  "k_mailbox (set_error err t k) = k_mailbox k"
  "k_mq (set_error err t k) = k_mq k"
  "k_mempool (set_error err t k) = k_mempool k"
  by (simp_all add: set_error_def)

lemma suspend_stat_and [simp]:
  "suspend_stat flag AND 7 = suspend_stat flag" "suspend_stat flag \<noteq> 2" "suspend_stat flag \<noteq> 3"
  "suspend_stat flag AND 4 = 4"
  by (simp_all add: suspend_stat_def split: suspend_flag.split)

text \<open>The state a suspended thread leaves behind.\<close>

definition suspended_state :: "tid \<Rightarrow> list_head option \<Rightarrow> ipc_flag \<Rightarrow> suspend_flag \<Rightarrow> kernel \<Rightarrow> kernel"
  where
  "suspended_state t susp_list ipc_flags suspend_flag k =
     snd (rt_sched_thread_timer_stop t
       (case susp_list of
          None \<Rightarrow> thread_set_suspend_state t suspend_flag (rt_sched_remove_thread t k)
        | Some q \<Rightarrow> rt_susp_list_enqueue q t ipc_flags
            (thread_set_suspend_state t suspend_flag (rt_sched_remove_thread t k))))"

lemma suspend_eq:
  "rt_thread_suspend_to_list t q f sf k =
     (if k_current k \<noteq> Some t then None
      else if stat_of (k_thread k t) \<noteq> RT_THREAD_READY \<and> stat_of (k_thread k t) \<noteq> RT_THREAD_RUNNING
      then Some (- RT_ERROR, k) else Some (RT_EOK, suspended_state t q f sf k))"
  by (simp add: rt_thread_suspend_to_list_def rt_thread_self_def rt_sched_thread_get_stat_def
      Let_def suspended_state_def)

lemma remove_frame [simp]:
  "k_int_nest (rt_sched_remove_thread t k) = k_int_nest k"
  "k_sem (rt_sched_remove_thread t k) = k_sem k"
  "k_mutex (rt_sched_remove_thread t k) = k_mutex k"
  "k_event (rt_sched_remove_thread t k) = k_event k"
  "k_mailbox (rt_sched_remove_thread t k) = k_mailbox k"
  "k_mq (rt_sched_remove_thread t k) = k_mq k"
  "k_mempool (rt_sched_remove_thread t k) = k_mempool k"
  "k_timer (rt_sched_remove_thread t k) = k_timer k"
  "k_tick (rt_sched_remove_thread t k) = k_tick k"
  by (simp_all add: rt_sched_remove_thread_def Let_def node_remove_def)

lemma mark_stat_frame [simp]:
  "k_int_nest (mark_stat s t k) = k_int_nest k"
  "k_sem (mark_stat s t k) = k_sem k"
  "k_mutex (mark_stat s t k) = k_mutex k"
  "k_event (mark_stat s t k) = k_event k"
  "k_mailbox (mark_stat s t k) = k_mailbox k"
  "k_mq (mark_stat s t k) = k_mq k"
  "k_mempool (mark_stat s t k) = k_mempool k"
  "k_timer (mark_stat s t k) = k_timer k"
  "k_tick (mark_stat s t k) = k_tick k"
  by (simp_all add: mark_stat_def)

lemma enqueue_frame2 [simp]:
  "k_int_nest (rt_susp_list_enqueue q t flag k) = k_int_nest k"
  "k_sem (rt_susp_list_enqueue q t flag k) = k_sem k"
  "k_mutex (rt_susp_list_enqueue q t flag k) = k_mutex k"
  "k_event (rt_susp_list_enqueue q t flag k) = k_event k"
  "k_mailbox (rt_susp_list_enqueue q t flag k) = k_mailbox k"
  "k_mq (rt_susp_list_enqueue q t flag k) = k_mq k"
  "k_mempool (rt_susp_list_enqueue q t flag k) = k_mempool k"
  "k_tick (rt_susp_list_enqueue q t flag k) = k_tick k"
  "k_ready_group (rt_susp_list_enqueue q t flag k) = k_ready_group k"
  by (simp_all add: rt_susp_list_enqueue_def queue_insert_before_def split: ipc_flag.split)

lemma sched_timer_stop_tick [simp]: "k_tick (snd (rt_sched_thread_timer_stop t k)) = k_tick k"
  by (auto simp: rt_sched_thread_timer_stop_def rt_timer_stop_def timer_remove_def timer_upd_def
      split_beta Let_def)

lemma suspended_frame [simp]:
  "k_current (suspended_state t q f sf k) = k_current k"
  "k_lock_nest (suspended_state t q f sf k) = k_lock_nest k"
  "k_int_nest (suspended_state t q f sf k) = k_int_nest k"
  "k_sem (suspended_state t q f sf k) = k_sem k"
  "k_mutex (suspended_state t q f sf k) = k_mutex k"
  "k_event (suspended_state t q f sf k) = k_event k"
  "k_mailbox (suspended_state t q f sf k) = k_mailbox k"
  "k_mq (suspended_state t q f sf k) = k_mq k"
  "k_mempool (suspended_state t q f sf k) = k_mempool k"
  "k_tick (suspended_state t q f sf k) = k_tick k"
  "k_thread (suspended_state t q f sf k) = (k_thread k)(t := (k_thread k t)\<lparr>
     th_stat := stat_with (suspend_stat sf) (th_stat (k_thread k t)), th_ttmr_set := False\<rparr>)"
  by (auto simp: suspended_state_def thread_set_suspend_state_def split: option.split)

lemma suspended_inv:
  assumes "sched_inv k" "prio_ok (k_thread k t)" "\<And>p. q \<noteq> Some (ReadyQ p)"
  shows "sched_inv (suspended_state t q f sf k)"
proof -
  let ?k2 = "thread_set_suspend_state t sf (rt_sched_remove_thread t k)"
  let ?k3 = "case q of None \<Rightarrow> ?k2 | Some q \<Rightarrow> rt_susp_list_enqueue q t f ?k2"
  have l: "lists_inv k" and c: "cur_ok k" using assms(1) by (auto simp: sched_inv_def)
  have off: "off_inv t ?k2"
    using remove_off_inv[OF l assms(2)] by (simp add: thread_set_suspend_state_def)
  have st: "stat_of (k_thread ?k2 t) = suspend_stat sf" "stat_suspended (k_thread ?k2 t)"
    by (simp_all add: thread_set_suspend_state_def suspended_iff)
  have "lists_inv ?k3"
  proof (cases q)
    case None
    then show ?thesis using off_inv_lists_inv[OF off] st(1) by simp
  next
    case (Some r)
    then show ?thesis using enqueue_inv[OF off st(2), of r f] assms(2,3)
      by (auto simp: thread_set_suspend_state_def)
  qed
  moreover have "cur_ok ?k3"
  proof -
    have "k_thread ?k3 = k_thread ?k2" "k_current ?k3 = k_current k"
      by (cases q; simp add: thread_set_suspend_state_def)+
    then show ?thesis using c assms(2) by (auto simp: cur_ok_def thread_set_suspend_state_def)
  qed
  ultimately have "sched_inv ?k3" by (simp add: sched_inv_def)
  then show ?thesis
    unfolding suspended_state_def using sched_inv_same[OF sched_timer_stop_same] by blast
qed

lemma suspend_inv [rt_inv]:
  assumes "sched_inv k" "\<And>p. q \<noteq> Some (ReadyQ p)"
    "rt_thread_suspend_to_list t q f sf k = Some (e, k')"
  shows "sched_inv k'"
proof -
  have "prio_ok (k_thread k t)" if "k_current k = Some t"
    using assms(1) that by (simp add: sched_inv_def cur_ok_def)
  then show ?thesis
    using assms suspended_inv[OF assms(1) _ assms(2)] by (auto simp: suspend_eq split: if_splits)
qed

lemma resume_inv [rt_inv]:
  "sched_inv k \<Longrightarrow> prio_ok (k_thread k t) \<Longrightarrow> sched_inv (snd (rt_thread_resume t k))"
  using sched_waker.wake_invar[of k t]
  by (auto simp: rt_thread_resume_def split_beta Let_def intro: resched_inv)

text \<open>Removing a suspended thread from its wait list and making it ready.\<close>

lemma reinsert_inv:
  assumes "sched_inv k" "prio_ok (k_thread k t)" "stat_of (k_thread k t) \<noteq> RT_THREAD_READY"
  shows "sched_inv (rt_sched_insert_thread t (node_remove t k))"
proof -
  have "off_inv t (node_remove t k)" using assms by (intro node_remove_off) (simp_all add: sched_inv_def)
  then have "lists_inv (rt_sched_insert_thread t (node_remove t k))"
    using assms(2) by (intro insert_inv) simp_all
  then show ?thesis using assms(1) by (auto simp: sched_inv_def cur_ok_def)
qed

lemma timeout_inv [rt_inv]:
  assumes "sched_inv k" "prio_ok (k_thread k t)" "thread_timeout t k = Some k'"
  shows "sched_inv k'"
proof -
  have s: "stat_suspended (k_thread k t)"
    and k': "k' = rt_sched_unlock_n_resched
      (rt_sched_insert_thread t (node_remove t (set_error (- RT_ETIMEOUT) t k)))"
    using assms(3) by (auto simp: thread_timeout_def rt_sched_thread_is_suspended_def Let_def
        split: if_splits)
  have "stat_of (k_thread k t) \<noteq> 2" using s stat_not_suspended(1) by blast
  then show ?thesis unfolding k'
    using assms(1,2) by (intro resched_inv reinsert_inv) (simp_all add: prio_ok_def stat_of_def)
qed

lemma yield_inv [rt_inv]:
  "sched_inv k \<Longrightarrow> rt_thread_yield k = Some (e, k') \<Longrightarrow> sched_inv k'"
  by (auto simp: rt_thread_yield_def sched_inv_same[OF yield_same] split: option.splits
      intro!: resched_inv)

lemma startup_prepare_inv:
  assumes "sched_inv k" "th_current_priority (k_thread k t) < RT_THREAD_PRIORITY_MAX"
    "stat_of (k_thread k t) = RT_THREAD_INIT"
  shows "sched_inv (rt_sched_thread_startup t k)" "prio_ok (k_thread (rt_sched_thread_startup t k) t)"
    "stat_of (k_thread (rt_sched_thread_startup t k) t) = RT_THREAD_SUSPEND"
proof -
  have l: "lists_inv k" and c: "cur_ok k" using assms(1) by (auto simp: sched_inv_def)
  have "t \<notin> set (k_queue k q)" for q
    using lists_invD(1,2)[OF l, of t] assms(3)
    by (cases "\<exists>p. q = ReadyQ p") (fastforce simp: suspended_iff)+
  then have off: "off_inv t (rt_sched_thread_startup t k)"
    using lists_inv_off_inv[OF l] by (simp add: rt_sched_thread_startup_def)
  show st: "stat_of (k_thread (rt_sched_thread_startup t k) t) = RT_THREAD_SUSPEND"
    by (simp add: rt_sched_thread_startup_def stat_of_def)
  have l': "lists_inv (rt_sched_thread_startup t k)"
    using off by (rule off_inv_lists_inv[where t = t]) (simp add: st)
  show p: "prio_ok (k_thread (rt_sched_thread_startup t k) t)"
    using assms(2) by (simp add: rt_sched_thread_startup_def prio_ok_def)
  have "cur_ok (rt_sched_thread_startup t k)"
    using c st p by (auto simp: cur_ok_def rt_sched_thread_startup_def)
  with l' show "sched_inv (rt_sched_thread_startup t k)" by (simp add: sched_inv_def)
qed

lemma startup_inv [rt_inv]:
  "sched_inv k \<Longrightarrow> th_current_priority (k_thread k t) < RT_THREAD_PRIORITY_MAX \<Longrightarrow>
   rt_thread_startup t k = Some (e, k') \<Longrightarrow> sched_inv k'"
  using startup_prepare_inv[of k t]
  by (auto simp: rt_thread_startup_def split: if_splits intro: resume_inv)

lemma timer_upd_same [simp]: "same_sched k (timer_upd i f k)"
  by (simp add: same_sched_def timer_upd_def)

lemma set_time_same:
  assumes "rt_timer_control i (CTRL_SET_TIME tick) k = Some (e, a, k')"
  shows "same_sched k k'"
proof -
  have "k' = timer_upd i (\<lambda>tm. tm\<lparr>tm_init_tick := tick\<rparr>) k \<or>
    k' = timer_upd i (\<lambda>tm. tm\<lparr>tm_init_tick := tick\<rparr>) (timer_upd i (tm_flag_clear 1) (timer_remove i k))"
    using assms by (auto simp: Let_def split: if_splits)
  then show ?thesis by (elim disjE) (simp_all add: same_sched_def timer_upd_def timer_remove_def)
qed

lemma timer_start_same: "same_sched k (snd (timer_start i k))"
  by (auto simp: timer_start_def Let_def same_sched_def timer_upd_def timer_remove_def)

lemma rt_timer_start_same: "same_sched k (snd (rt_timer_start i k))"
proof -
  have "same_sched k (rt_sched_thread_timer_start t k)" for t
    unfolding rt_sched_thread_timer_start_def by (rule same_sched_upd) (simp_all add: stat_of_def)
  then show ?thesis
    using same_sched_trans timer_start_same
    by (auto simp: rt_timer_start_def Let_def split: timer_id.split) blast
qed

lemma start_thread_timer_same:
  assumes "start_thread_timer t tick k = Some k'"
  shows "same_sched k k'"
proof -
  obtain e a k1 where "rt_timer_control (Thread_timer t) (CTRL_SET_TIME tick) k = Some (e, a, k1)"
    "k' = snd (rt_timer_start (Thread_timer t) k1)"
    using assms by (auto simp: start_thread_timer_def bind_eq_Some_conv simp del: rt_timer_control.simps)
  then show ?thesis using set_time_same rt_timer_start_same same_sched_trans by blast
qed

lemma exit_critical_safe_inv [rt_inv]:
  "sched_inv k \<Longrightarrow> rt_exit_critical_safe n k = Some k' \<Longrightarrow> sched_inv k'"
  by (auto simp: rt_exit_critical_safe_def split: if_splits intro: exit_critical_inv)

lemma resched_if_current_inv [rt_inv]: "sched_inv k \<Longrightarrow> sched_inv (resched_if_current t k)"
  by (simp add: resched_if_current_def schedule_inv)

lemma sleep_inv [rt_inv]:
  assumes "sched_inv k" "thread_sleep tick k = Some (r, k')"
  shows "sched_inv k'"
proof (cases "tick = 0")
  case True
  with assms show ?thesis by (simp add: thread_sleep_def)
next
  case False
  then obtain t where t: "rt_thread_self k = Some t"
    using assms(2) by (auto simp: thread_sleep_def split: option.splits)
  define k2 where "k2 = snd (rt_enter_critical (set_error RT_EOK t k))"
  have inv2: "sched_inv k2" using assms(1) by (simp add: k2_def rt_enter_critical_def)
  obtain n err k3 where s: "rt_thread_suspend_to_list t None RT_IPC_FLAG_FIFO RT_INTERRUPTIBLE k2 = Some (err, k3)"
    and rest: "(if err = 0 then do {
         k4 \<leftarrow> start_thread_timer t tick k3;
         let k5 = rt_schedule (set_error (- RT_EINTR) t k4);
         k6 \<leftarrow> rt_exit_critical_safe n k5; Some (Blocked (), k6) }
       else do { k4 \<leftarrow> rt_exit_critical_safe n k3; Some (Done err, k4) }) = Some (r, k')"
    using assms(2) False t
    by (auto simp: thread_sleep_def rt_enter_critical_def rt_thread_suspend_with_flag_def k2_def
        Let_def split: if_splits bind_splits)
  have inv3: "sched_inv k3" using suspend_inv[OF inv2 _ s] by simp
  show ?thesis
  proof (cases "err = 0")
    case True
    then obtain k4 where k4: "start_thread_timer t tick k3 = Some k4"
      "rt_exit_critical_safe n (rt_schedule (set_error (- RT_EINTR) t k4)) = Some k'"
      using rest by (auto simp: Let_def split: bind_splits)
    have "sched_inv k4" using sched_inv_same[OF start_thread_timer_same[OF k4(1)]] inv3 by simp
    then have "sched_inv (rt_schedule (set_error (- RT_EINTR) t k4))" by (simp add: schedule_inv)
    then show ?thesis using k4(2) by (rule exit_critical_safe_inv)
  next
    case False
    then show ?thesis using rest inv3 exit_critical_safe_inv by (auto split: bind_splits)
  qed
qed

section \<open>What a reschedule leaves alone\<close>

lemma insert_tick [simp]: "k_tick (rt_sched_insert_thread t k) = k_tick k"
  by (simp add: rt_sched_insert_thread_def mark_stat_def queue_defs Let_def)

lemma switch_to_frame [simp]:
  "k_tick (switch_to fr p ins to k) = k_tick k"
  "k_int_nest (switch_to fr p ins to k) = k_int_nest k"
  "k_timer (switch_to fr p ins to k) = k_timer k"
  "k_sem (switch_to fr p ins to k) = k_sem k"
  "k_mutex (switch_to fr p ins to k) = k_mutex k"
  "k_event (switch_to fr p ins to k) = k_event k"
  "k_mailbox (switch_to fr p ins to k) = k_mailbox k"
  "k_mq (switch_to fr p ins to k) = k_mq k"
  "k_mempool (switch_to fr p ins to k) = k_mempool k"
  "k_lock_nest (switch_to fr p ins to k) = k_lock_nest k"
  by (simp_all add: switch_to_def Let_def)

lemma switch_to_thread:
  "\<exists>s. k_thread (switch_to fr p ins to k) u = (k_thread k u)\<lparr>th_stat := s\<rparr>"
  by (auto simp: switch_to_def Let_def intro: exI[of _ "th_stat (k_thread k u)"])

lemma schedule_outcomes:
  "rt_schedule k = k \<or> (\<exists>cur. k_current k = Some cur \<and>
     (rt_schedule k = mark_stat RT_THREAD_RUNNING cur (rt_sched_remove_thread cur k) \<or>
      (\<exists>p ins to. rt_schedule k = switch_to cur p ins to k)))"
  by (cases "k_current k") (auto simp: rt_schedule_def Let_def split_beta)

lemma schedule_cases:
  obtains "rt_schedule k = k"
  | cur where "k_current k = Some cur"
      "rt_schedule k = mark_stat RT_THREAD_RUNNING cur (rt_sched_remove_thread cur k)"
  | cur to p ins where "k_current k = Some cur" "rt_schedule k = switch_to cur p ins to k"
  using schedule_outcomes[of k] by blast

lemma schedule_frame [simp]:
  "k_tick (rt_schedule k) = k_tick k"
  "k_int_nest (rt_schedule k) = k_int_nest k"
  "k_timer (rt_schedule k) = k_timer k"
  "k_sem (rt_schedule k) = k_sem k"
  "k_mutex (rt_schedule k) = k_mutex k"
  "k_event (rt_schedule k) = k_event k"
  "k_mailbox (rt_schedule k) = k_mailbox k"
  "k_mq (rt_schedule k) = k_mq k"
  "k_mempool (rt_schedule k) = k_mempool k"
  "k_lock_nest (rt_schedule k) = k_lock_nest k"
  by (cases k rule: schedule_cases; simp)+

lemma schedule_thread: "\<exists>s. k_thread (rt_schedule k) u = (k_thread k u)\<lparr>th_stat := s\<rparr>"
proof (cases k rule: schedule_cases)
  case 1
  then show ?thesis by (auto intro: exI[of _ "th_stat (k_thread k u)"])
next
  case (2 cur)
  then show ?thesis by (cases "u = cur") (auto intro: exI[of _ "th_stat (k_thread k u)"])
next
  case (3 cur to p ins)
  then show ?thesis using switch_to_thread by simp
qed

lemma schedule_thread_fields [simp]:
  "th_error (k_thread (rt_schedule k) u) = th_error (k_thread k u)"
  "th_ttmr_set (k_thread (rt_schedule k) u) = th_ttmr_set (k_thread k u)"
  "th_current_priority (k_thread (rt_schedule k) u) = th_current_priority (k_thread k u)"
  "th_init_priority (k_thread (rt_schedule k) u) = th_init_priority (k_thread k u)"
  "th_number_mask (k_thread (rt_schedule k) u) = th_number_mask (k_thread k u)"
  "th_init_tick (k_thread (rt_schedule k) u) = th_init_tick (k_thread k u)"
  "th_remaining_tick (k_thread (rt_schedule k) u) = th_remaining_tick (k_thread k u)"
  "th_taken (k_thread (rt_schedule k) u) = th_taken (k_thread k u)"
  "th_pending (k_thread (rt_schedule k) u) = th_pending (k_thread k u)"
  "th_event_set (k_thread (rt_schedule k) u) = th_event_set (k_thread k u)"
  "th_event_info (k_thread (rt_schedule k) u) = th_event_info (k_thread k u)"
  using schedule_thread[of k u] by auto

lemma prio_ok_schedule [simp]: "prio_ok (k_thread (rt_schedule k) u) = prio_ok (k_thread k u)"
  by (simp add: prio_ok_def)

text \<open>Only wait lists are guaranteed to be untouched.\<close>

lemma switch_to_wait_queue:
  assumes "\<And>p. q \<noteq> ReadyQ p" "to \<notin> set (k_queue k q)"
  shows "k_queue (switch_to fr p ins to k) q = k_queue k q"
  using assms by (simp add: switch_to_def Let_def)

lemma group_zero_iff:
  assumes "lists_inv k"
  shows "k_ready_group k = 0 \<longleftrightarrow> (\<forall>u. stat_of (k_thread k u) \<noteq> RT_THREAD_READY)"
proof
  assume z: "k_ready_group k = 0"
  show "\<forall>u. stat_of (k_thread k u) \<noteq> RT_THREAD_READY"
  proof (intro allI notI)
    fix u assume "stat_of (k_thread k u) = RT_THREAD_READY"
    then have "k_queue k (ReadyQ (th_current_priority (k_thread k u))) \<noteq> []"
      using lists_invD(3)[OF assms, of u] by auto
    with z assms show False by (simp add: lists_inv_def group_ok_def)
  qed
next
  assume "\<forall>u. stat_of (k_thread k u) \<noteq> RT_THREAD_READY"
  then show "k_ready_group k = 0" using highest_ready[OF assms] by blast
qed

text \<open>A reschedule by a thread that is no longer running: another thread runs afterwards.\<close>

lemma schedule_from_blocked:
  assumes "sched_inv k" "k_current k = Some cur" "k_lock_nest k = 0"
    "stat_of (k_thread k cur) \<noteq> RT_THREAD_RUNNING"
    "\<exists>u. stat_of (k_thread k u) = RT_THREAD_READY"
  shows "\<exists>t. t \<noteq> cur \<and> k_current (rt_schedule k) = Some t \<and>
      stat_of (k_thread k t) = RT_THREAD_READY \<and>
      stat_of (k_thread (rt_schedule k) t) = RT_THREAD_RUNNING \<and>
      (\<forall>u. u \<noteq> t \<longrightarrow> stat_of (k_thread (rt_schedule k) u) = stat_of (k_thread k u)) \<and>
      (\<forall>u. stat_of (k_thread k u) = RT_THREAD_READY \<longrightarrow>
         th_current_priority (k_thread k t) \<le> th_current_priority (k_thread k u)) \<and>
      (\<forall>q. (\<forall>p. q \<noteq> ReadyQ p) \<longrightarrow> k_queue (rt_schedule k) q = k_queue k q)"
proof -
  have l: "lists_inv k" "prio_ok (k_thread k cur)" "stat_of (k_thread k cur) \<noteq> 2"
    using assms(1,2) by (auto simp: sched_inv_def cur_ok_def)
  have g: "k_ready_group k \<noteq> 0" using group_zero_iff[OF l(1)] assms(5) by blast
  obtain t p where h: "scheduler_get_highest_priority_thread k = (t, p)"
    "stat_of (k_thread k t) = RT_THREAD_READY" "prio_ok (k_thread k t)"
    "th_current_priority (k_thread k t) = p"
    "\<And>u. stat_of (k_thread k u) = RT_THREAD_READY \<Longrightarrow> p \<le> th_current_priority (k_thread k u)"
    using highest_ready[OF l(1) g] by metis
  then have ne: "t \<noteq> cur" using l(3) by auto
  have eq: "rt_schedule k = switch_to cur p False t k"
    using assms g ne by (simp add: rt_schedule_def h Let_def)
  note sw = switch_to_correct[where ins = False and p = p, OF l(1,2) _ ne h(3), simplified]
  have "stat_of (k_thread (rt_schedule k) u) = stat_of (k_thread k u)" if "u \<noteq> t" for u
    using that sw(5) sw(7)[of u] by (cases "u = cur") (simp_all add: eq)
  moreover have "k_queue (rt_schedule k) q = k_queue k q" if "\<forall>p. q \<noteq> ReadyQ p" for q
  proof -
    have "t \<notin> set (k_queue k q)" using lists_invD(2)[OF l(1)] h(2) that by fastforce
    then show ?thesis using that by (simp add: eq switch_to_wait_queue)
  qed
  ultimately show ?thesis
    using ne sw(2,3) h(2,4,5) by (intro exI[of _ t]) (simp add: eq)
qed

section \<open>Properties\<close>

lemma stat_yield_or [simp]: "stat_yield (th\<lparr>th_stat := s OR 8\<rparr>)"
proof -
  have "bit ((s OR 8) AND 8) 3" by (simp add: stat_bits)
  then show ?thesis unfolding stat_yield_def by (auto simp del: bit_and_iff)
qed

lemma stat_yield_with [simp]:
  "s AND 8 = 0 \<Longrightarrow> stat_yield (th\<lparr>th_stat := stat_with s st\<rparr>) = stat_yield (th\<lparr>th_stat := st\<rparr>)"
  by (simp add: stat_yield_def)

lemma stat_yield_clear: "\<not> stat_yield (th\<lparr>th_stat := s AND NOT 8\<rparr>)"
proof -
  have "(s AND NOT 8) AND 8 = s AND (NOT 8 AND 8)" by (simp only: and.assoc)
  also have "(NOT 8 AND 8 :: u8) = 0" by simp
  finally show ?thesis by (simp add: stat_yield_def)
qed

lemma switch_to_unyield:
  "fr \<noteq> to \<Longrightarrow> \<not> stat_yield (k_thread (switch_to fr p ins to k) fr)"
  using stat_yield_clear by (simp add: switch_to_def Let_def)

lemma yield_switch:
  assumes "sched_inv k" "k_current k = Some cur" "k_lock_nest k = 0"
    and "stat_of (k_thread k cur) = RT_THREAD_RUNNING"
    and "k_queue k (ReadyQ (th_current_priority (k_thread k cur))) = t # ts"
    and "\<And>u. stat_of (k_thread k u) = RT_THREAD_READY \<Longrightarrow>
       th_current_priority (k_thread k cur) \<le> th_current_priority (k_thread k u)"
  defines "k1 \<equiv> rt_sched_thread_yield cur k"
  shows "rt_schedule k1 = switch_to cur (th_current_priority (k_thread k cur)) True t k1"
proof -
  define p where "p = th_current_priority (k_thread k cur)"
  have same: "same_sched k k1" by (simp add: k1_def)
  then have l: "lists_inv k" "lists_inv k1"
    using assms(1) by (simp_all add: sched_inv_def lists_inv_same)
  have q1: "k_queue k1 = k_queue k" "k_current k1 = Some cur" "k_lock_nest k1 = 0"
    "k_ready_group k1 = k_ready_group k"
    using same assms by (simp_all add: same_sched_def)
  have t: "th_current_priority (k_thread k t) = p" "stat_of (k_thread k t) = 2"
    using lists_invD(1)[OF l(1), of t p] assms(5) by (auto simp: p_def)
  then have ne: "t \<noteq> cur" using assms(4) by auto
  have g: "k_ready_group k1 \<noteq> 0" using group_zero_iff[OF l(1)] t(2) q1(4) by auto
  obtain t' p' where h: "scheduler_get_highest_priority_thread k1 = (t', p')"
    "stat_of (k_thread k1 t') = 2" "th_current_priority (k_thread k1 t') = p'"
    "t' = hd (k_queue k1 (ReadyQ p'))"
    "\<And>u. stat_of (k_thread k1 u) = 2 \<Longrightarrow> p' \<le> th_current_priority (k_thread k1 u)"
    using highest_ready[OF l(2) g] by metis
  have "p' = p"
  proof (rule antisym)
    show "p' \<le> p" using h(5)[of t] t same by (simp add: same_sched_def)
    show "p \<le> p'" using h(2,3) same assms(6)[of t'] by (simp add: same_sched_def p_def)
  qed
  then have h': "scheduler_get_highest_priority_thread k1 = (t, p)" using h assms(5) q1 by (simp add: p_def)
  have "stat_of (k_thread k1 cur) = 3" "th_current_priority (k_thread k1 cur) = p"
    "stat_yield (k_thread k1 cur)"
    using assms(4) by (simp_all add: k1_def rt_sched_thread_yield_def p_def) (simp add: stat_of_def)
  then show ?thesis using g ne by (simp add: rt_schedule_def q1 h' Let_def p_def)
qed

text \<open>
  Round robin: when the running thread yields while other threads of its priority are ready
  and none of a higher priority, the first of them runs, the yielding thread goes to the end of
  the ready list with a fresh time slice and its yield mark cleared.
\<close>

theorem yield_round_robin:
  assumes "sched_inv k" and "k_current k = Some cur" and "k_lock_nest k = 0"
    and "stat_of (k_thread k cur) = RT_THREAD_RUNNING"
    and "k_queue k (ReadyQ (th_current_priority (k_thread k cur))) = t # ts"
    and "\<And>u. stat_of (k_thread k u) = RT_THREAD_READY \<Longrightarrow>
       th_current_priority (k_thread k cur) \<le> th_current_priority (k_thread k u)"
  shows "\<exists>k'. rt_thread_yield k = Some (RT_EOK, k') \<and> sched_inv k' \<and> k_current k' = Some t \<and>
    stat_of (k_thread k' t) = RT_THREAD_RUNNING \<and>
    k_queue k' (ReadyQ (th_current_priority (k_thread k cur))) = ts @ [cur] \<and>
    th_remaining_tick (k_thread k' cur) = th_init_tick (k_thread k cur) \<and>
    \<not> stat_yield (k_thread k' cur)"
proof -
  define p where "p = th_current_priority (k_thread k cur)"
  define k1 where "k1 = rt_sched_thread_yield cur k"
  have eq: "rt_schedule k1 = switch_to cur p True t k1"
    unfolding k1_def p_def by (rule yield_switch[OF assms])
  have same: "same_sched k k1" by (simp add: k1_def)
  have inv1: "sched_inv k1" using same assms(1) sched_inv_same by blast
  have l: "lists_inv k" "lists_inv k1" "prio_ok (k_thread k1 cur)" "k_current k1 = Some cur"
    using assms(1,2) inv1 same by (auto simp: sched_inv_def cur_ok_def same_sched_def)
  have t: "stat_of (k_thread k t) = 2" "prio_ok (k_thread k t)"
    using lists_invD(1)[OF l(1), of t p] assms(5) by (auto simp: p_def)
  then have ne: "t \<noteq> cur" using assms(4) by auto
  have p1: "prio_ok (k_thread k1 t)" using ne t by (simp add: k1_def rt_sched_thread_yield_def)
  have c1: "stat_of (k_thread k1 cur) = 3" "th_current_priority (k_thread k1 cur) = p"
    "stat_yield (k_thread k1 cur)" "k_queue k1 = k_queue k"
    using assms(4) by (simp_all add: k1_def rt_sched_thread_yield_def p_def) (simp add: stat_of_def)
  have d: "t \<notin> set ts" "cur \<notin> set ts"
    using l(1) assms(4,5) lists_invD(1)[OF l(1), of cur p]
    by (auto simp: lists_inv_def queues_ok_def p_def dest: spec[of _ "ReadyQ p"])
  have "k_queue (rt_schedule k1) (ReadyQ p) = ts @ [cur]"
    using ne c1 d assms(5)
    by (simp add: eq switch_to_def Let_def rt_sched_insert_thread_def queue_defs p_def)
  moreover have "\<not> stat_yield (k_thread (rt_schedule k1) cur)"
    using ne by (simp add: eq switch_to_unyield)
  moreover have "k_current (rt_schedule k1) = Some t" "stat_of (k_thread (rt_schedule k1) t) = 3"
    using switch_to_correct(2,3)[OF l(2,3) _ ne p1, of True p] c1(1) by (simp_all add: eq)
  moreover have "th_remaining_tick (k_thread (rt_schedule k1) cur) = th_init_tick (k_thread k cur)"
    by simp (simp add: k1_def rt_sched_thread_yield_def)
  moreover have "rt_thread_yield k = Some (RT_EOK, rt_schedule k1)"
    using assms(2) l(4) by (simp add: rt_thread_yield_def rt_thread_self_def
        rt_sched_unlock_n_resched_def k1_def)
  ultimately show ?thesis using schedule_inv[OF inv1] by (simp add: p_def)
qed

theorem yield_round_robin_witness:
  "\<exists>k'. rt_thread_yield sched_example = Some (0, k') \<and> k_current k' = Some 2 \<and>
     k_queue k' (ReadyQ 10) = [1]"
proof -
  have e: "k_current sched_example = Some 1" "k_lock_nest sched_example = 0"
    "stat_of (k_thread sched_example 1) = 3"
    "th_current_priority (k_thread sched_example 1) = 10"
    "k_queue sched_example (ReadyQ 10) = [2]"
    by (simp_all add: sched_example_def kernel0_def mk_thread_def thread0_def stat_of_def)
  have "10 \<le> th_current_priority (k_thread sched_example u)"
    if "stat_of (k_thread sched_example u) = 2" for u
    using that
    by (auto simp: sched_example_def kernel0_def mk_thread_def thread0_def stat_of_def split: if_splits)
  then show ?thesis
    using yield_round_robin [OF sched_example_inv, of 1 2 "[]"] e by auto
qed


lemma start_thread_timer_effect:
  assumes "tick < TICK_HALF" "\<not> tm_has RT_TIMER_FLAG_PROCESSING (k_timer k (Thread_timer t))"
    "tm_has RT_TIMER_FLAG_THREAD_TIMER (k_timer k (Thread_timer t))"
  shows "\<exists>k'. start_thread_timer t tick k = Some k' \<and>
    tm_timeout_tick (k_timer k' (Thread_timer t)) = k_tick k + tick \<and>
    tm_has RT_TIMER_FLAG_ACTIVATED (k_timer k' (Thread_timer t)) \<and>
    Thread_timer t \<in> set (k_timer_list k') \<and>
    k_thread k' = (k_thread k)(t := (k_thread k t)\<lparr>th_ttmr_set := True\<rparr>) \<and>
    k_tick k' = k_tick k \<and> k_lock_nest k' = k_lock_nest k \<and> k_current k' = k_current k \<and>
    k_queue k' = k_queue k \<and> k_int_nest k' = k_int_nest k \<and>
    (\<forall>j. j \<noteq> Thread_timer t \<longrightarrow> k_timer k' j = k_timer k j)"
  using assms
  by (simp add: start_thread_timer_def rt_timer_start_def timer_start_def Let_def
      rt_sched_thread_timer_start_def timer_upd_def timer_remove_def thread_upd_def)

text \<open>The flags \<open>thread_init\<close> gives the timer of a thread.\<close>

definition thread_timer_ok :: "kernel \<Rightarrow> tid \<Rightarrow> bool" where
  "thread_timer_ok k t \<longleftrightarrow>
     \<not> tm_has RT_TIMER_FLAG_PROCESSING (k_timer k (Thread_timer t)) \<and>
     tm_has RT_TIMER_FLAG_THREAD_TIMER (k_timer k (Thread_timer t))"

lemma timer_stop_flags [simp]:
  "tm_has 2 (k_timer (snd (rt_sched_thread_timer_stop t k)) j) = tm_has 2 (k_timer k j)"
  "tm_has 16 (k_timer (snd (rt_sched_thread_timer_stop t k)) j) = tm_has 16 (k_timer k j)"
  by (auto simp: rt_sched_thread_timer_stop_def rt_timer_stop_def timer_upd_def timer_remove_def
      split_beta Let_def)

lemma suspended_timer_ok [simp]:
  "thread_timer_ok (suspended_state t q f sf k) u = thread_timer_ok k u"
  by (simp add: thread_timer_ok_def suspended_state_def thread_set_suspend_state_def
      split: option.split)

lemma start_thread_timer_ok:
  assumes "tick < TICK_HALF" "thread_timer_ok k t"
  obtains k' where "start_thread_timer t tick k = Some k'"
    "tm_timeout_tick (k_timer k' (Thread_timer t)) = k_tick k + tick"
    "tm_has RT_TIMER_FLAG_ACTIVATED (k_timer k' (Thread_timer t))"
    "k_thread k' = (k_thread k)(t := (k_thread k t)\<lparr>th_ttmr_set := True\<rparr>)"
    "k_tick k' = k_tick k" "k_lock_nest k' = k_lock_nest k" "k_current k' = k_current k"
    "k_queue k' = k_queue k" "k_int_nest k' = k_int_nest k"
    "\<And>j. j \<noteq> Thread_timer t \<Longrightarrow> k_timer k' j = k_timer k j"
  using start_thread_timer_effect[OF assms(1), of k t] assms(2) unfolding thread_timer_ok_def by blast

text \<open>
  The common end of the sleeping calls: the caller, suspended with its timer running inside one
  level of critical section, leaves the section and another thread runs.
\<close>

lemma leave_blocked:
  assumes "sched_inv k" "k_current k = Some t" "k_lock_nest k = 1"
    "stat_of (k_thread k t) \<noteq> RT_THREAD_RUNNING" "u \<noteq> t" "stat_of (k_thread k u) = RT_THREAD_READY"
  shows "\<exists>k'. rt_exit_critical_safe 1 k = Some k' \<and> sched_inv k' \<and> scheduled k' \<and>
    k_current k' \<noteq> Some t \<and> stat_of (k_thread k' t) = stat_of (k_thread k t) \<and>
    k_timer k' = k_timer k \<and> k_lock_nest k' = 0 \<and> th_error (k_thread k' t) = th_error (k_thread k t)"
proof -
  let ?k = "k\<lparr>k_lock_nest := 0\<rparr>"
  have inv: "sched_inv ?k" using assms(1) by simp
  then have l: "lists_inv ?k" by (simp add: sched_inv_def)
  have e: "rt_exit_critical_safe 1 k = Some (rt_schedule ?k)"
    using assms by (simp add: rt_exit_critical_safe_def rt_exit_critical_def Let_def)
  have r: "\<exists>u. stat_of (k_thread ?k u) = 2" using assms(6) by auto
  have g: "k_ready_group ?k \<noteq> 0" using group_zero_iff[OF l] r by blast
  have "scheduled (rt_schedule ?k)"
    using schedule_scheduled[OF inv, of t] assms(2) g by simp
  then show ?thesis
    using e schedule_from_blocked[OF inv, of t] assms(2,4) r schedule_inv[OF inv] by auto
qed

text \<open>The common beginning: suspend the caller and start its timer.\<close>

lemma suspend_and_arm:
  assumes "sched_inv k" "k_current k = Some t" "stat_of (k_thread k t) = RT_THREAD_RUNNING"
    "thread_timer_ok k t" "tick < TICK_HALF"
  obtains k3 k4 where "rt_thread_suspend_with_flag t sf k = Some (RT_EOK, k3)"
    "start_thread_timer t tick k3 = Some k4" "sched_inv k4" "k_current k4 = Some t"
    "k_lock_nest k4 = k_lock_nest k" "stat_of (k_thread k4 t) = suspend_stat sf"
    "\<And>u. u \<noteq> t \<Longrightarrow> k_thread k4 u = k_thread k u"
    "tm_timeout_tick (k_timer k4 (Thread_timer t)) = k_tick k + tick"
    "tm_has RT_TIMER_FLAG_ACTIVATED (k_timer k4 (Thread_timer t))"
    "th_error (k_thread k4 t) = th_error (k_thread k t)"
proof -
  define k3 where "k3 = suspended_state t None RT_IPC_FLAG_FIFO sf k"
  have p: "prio_ok (k_thread k t)" using assms(1,2) by (simp add: sched_inv_def cur_ok_def)
  have s3: "rt_thread_suspend_with_flag t sf k = Some (RT_EOK, k3)"
    using assms(2,3) by (simp add: rt_thread_suspend_with_flag_def suspend_eq k3_def)
  have inv3: "sched_inv k3" unfolding k3_def by (rule suspended_inv[OF assms(1) p]) simp
  have t3: "thread_timer_ok k3 t" using assms(4) by (simp add: k3_def)
  obtain k4 where k4: "start_thread_timer t tick k3 = Some k4"
    "tm_timeout_tick (k_timer k4 (Thread_timer t)) = k_tick k3 + tick"
    "tm_has RT_TIMER_FLAG_ACTIVATED (k_timer k4 (Thread_timer t))"
    "k_thread k4 = (k_thread k3)(t := (k_thread k3 t)\<lparr>th_ttmr_set := True\<rparr>)"
    "k_lock_nest k4 = k_lock_nest k3" "k_current k4 = k_current k3"
    using start_thread_timer_ok[OF assms(5) t3] by metis
  have "sched_inv k4" using sched_inv_same[OF start_thread_timer_same[OF k4(1)]] inv3 by simp
  moreover have "stat_of (k_thread k4 t) = suspend_stat sf"
    "\<And>u. u \<noteq> t \<Longrightarrow> k_thread k4 u = k_thread k u" "th_error (k_thread k4 t) = th_error (k_thread k t)"
    by (simp_all add: k4(4) k3_def) (simp add: stat_of_def)
  ultimately show ?thesis
    using that[OF s3 k4(1)] k4 assms(2) by (simp add: k3_def)
qed

text \<open>
  C18. Sleeping: a running thread that calls \<^verbatim>\<open>rt_thread_delay\<close> with a positive number of ticks
  (below half the tick range) is suspended with its timer active and due exactly that many ticks
  from now, and the highest ready thread runs instead.
\<close>

theorem sleep_until_deadline:
  assumes "sched_inv k" and "k_current k = Some t" and "k_lock_nest k = 0" and "k_int_nest k = 0"
    and "stat_of (k_thread k t) = RT_THREAD_RUNNING" and "thread_timer_ok k t"
    and "0 < tick" and "tick < TICK_HALF" and "stat_of (k_thread k u) = RT_THREAD_READY"
  shows "\<exists>k'. rt_thread_delay tick k = Some (Blocked (), k') \<and> sched_inv k' \<and> scheduled k' \<and>
    k_current k' \<noteq> Some t \<and> stat_suspended (k_thread k' t) \<and>
    tm_has RT_TIMER_FLAG_ACTIVATED (k_timer k' (Thread_timer t)) \<and>
    tm_timeout_tick (k_timer k' (Thread_timer t)) = k_tick k + tick"
proof -
  define k2 where "k2 = snd (rt_enter_critical (set_error RT_EOK t k))"
  have e2: "rt_enter_critical (set_error RT_EOK t k) = (1, k2)"
    using assms(3) by (simp add: k2_def rt_enter_critical_def)
  have k2: "sched_inv k2" "k_current k2 = Some t" "stat_of (k_thread k2 t) = 3" "thread_timer_ok k2 t"
    "k_lock_nest k2 = 1" "k_tick k2 = k_tick k" "stat_of (k_thread k2 u) = 2" "u \<noteq> t"
    using assms by (auto simp: k2_def rt_enter_critical_def thread_timer_ok_def stat_of_def)
  obtain k3 k4 where k4: "rt_thread_suspend_with_flag t RT_INTERRUPTIBLE k2 = Some (RT_EOK, k3)"
    "start_thread_timer t tick k3 = Some k4" "sched_inv k4" "k_current k4 = Some t"
    "k_lock_nest k4 = 1" "stat_of (k_thread k4 t) = suspend_stat RT_INTERRUPTIBLE"
    "stat_of (k_thread k4 u) = 2"
    "tm_timeout_tick (k_timer k4 (Thread_timer t)) = k_tick k + tick"
    "tm_has RT_TIMER_FLAG_ACTIVATED (k_timer k4 (Thread_timer t))"
    using suspend_and_arm[OF k2(1-4) assms(8), of RT_INTERRUPTIBLE] k2(5-8) by metis
  define k5 where "k5 = set_error (- RT_EINTR) t k4"
  have k5: "sched_inv k5" "k_current k5 = Some t" "k_lock_nest k5 = 1"
    "stat_of (k_thread k5 t) = suspend_stat RT_INTERRUPTIBLE" "stat_of (k_thread k5 u) = 2"
    using k4 k2(8) by (simp_all add: k5_def stat_of_def)
  have sched5: "rt_schedule k5 = k5" using k5 by (simp add: rt_schedule_def)
  obtain k6 where k6: "rt_exit_critical_safe 1 k5 = Some k6" "sched_inv k6" "scheduled k6"
    "k_current k6 \<noteq> Some t" "stat_of (k_thread k6 t) = suspend_stat RT_INTERRUPTIBLE"
    "k_timer k6 = k_timer k5"
    using leave_blocked[OF k5(1-3) _ k2(8) k5(5)] k5(4) by auto
  have "rt_thread_delay tick k = Some (Blocked (), k6)"
    using assms e2 k4(1,2) sched5 k6(1)
    by (simp add: rt_thread_delay_def thread_sleep_def rt_thread_self_def scheduler_available_def
        rt_critical_level_def in_thread_context_def not_in_interrupt_def k5_def)
  then show ?thesis using k6 k4 by (auto simp: k5_def suspended_iff)
qed

definition sleep_example :: kernel where
  "sleep_example = sched_example\<lparr>k_tick := 0xFFFFFFFE,
     k_timer := (\<lambda>_. timer_init Thread_timeout 1 0 16)\<rparr>"

lemma sleep_example_facts:
  "sched_inv sleep_example" "k_current sleep_example = Some 1" "k_lock_nest sleep_example = 0"
  "k_int_nest sleep_example = 0" "stat_of (k_thread sleep_example 1) = 3"
  "thread_timer_ok sleep_example 1" "stat_of (k_thread sleep_example 2) = 2"
  "k_tick sleep_example = 0xFFFFFFFE"
proof -
  have "same_sched sched_example sleep_example" by (simp add: same_sched_def sleep_example_def)
  then show "sched_inv sleep_example" using sched_example_inv sched_inv_same by blast
qed (simp_all add: sleep_example_def sched_example_def kernel0_def mk_thread_def thread0_def stat_of_def
    thread_timer_ok_def tm_has_def timer_init_def tm_flag_clear_def)

theorem sleep_until_deadline_witness:
  "\<exists>k'. rt_thread_delay 5 sleep_example = Some (Blocked (), k') \<and> k_current k' \<noteq> Some 1 \<and>
     tm_timeout_tick (k_timer k' (Thread_timer 1)) = 3"
  using sleep_until_deadline [OF sleep_example_facts(1-6) _ _ sleep_example_facts(7), of 5]
  by (auto simp: sleep_example_facts(8))

text \<open>
  Periodic sleeping: \<^verbatim>\<open>rt_thread_delay_until\<close> called before the next period is over advances
  the caller's tick variable by exactly one period and sleeps until that tick, so no drift
  accumulates, whatever the wrap-around; called too late it does not sleep and restarts from now.
\<close>

theorem delay_until_periodic:
  assumes "sched_inv k" and "k_current k = Some t" and "k_lock_nest k = 0"
    and "stat_of (k_thread k t) = RT_THREAD_RUNNING" and "thread_timer_ok k t"
    and "inc_tick < TICK_HALF" and "stat_of (k_thread k u) = RT_THREAD_READY"
  shows "if k_tick k - tick < inc_tick
    then \<exists>k'. rt_thread_delay_until tick inc_tick k = Some (Blocked (), tick + inc_tick, k') \<and>
           sched_inv k' \<and> k_current k' \<noteq> Some t \<and> stat_suspended (k_thread k' t) \<and>
           tm_has RT_TIMER_FLAG_ACTIVATED (k_timer k' (Thread_timer t)) \<and>
           tm_timeout_tick (k_timer k' (Thread_timer t)) = tick + inc_tick
    else \<exists>k'. rt_thread_delay_until tick inc_tick k = Some (Done RT_EOK, k_tick k, k')"
proof -
  define k2 where "k2 = snd (rt_enter_critical (set_error RT_EOK t k))"
  have e2: "rt_enter_critical (set_error RT_EOK t k) = (1, k2)"
    using assms(3) by (simp add: k2_def rt_enter_critical_def)
  have k2: "sched_inv k2" "k_current k2 = Some t" "stat_of (k_thread k2 t) = 3" "thread_timer_ok k2 t"
    "k_lock_nest k2 = 1" "k_tick k2 = k_tick k" "stat_of (k_thread k2 u) = 2" "u \<noteq> t"
    "th_error (k_thread k2 t) = 0"
    using assms by (auto simp: k2_def rt_enter_critical_def thread_timer_ok_def stat_of_def)
  show ?thesis
  proof (cases "k_tick k - tick < inc_tick")
    case True
    define left_tick where "left_tick = tick + inc_tick - k_tick k"
    have "left_tick = inc_tick - (k_tick k - tick)" by (simp add: left_tick_def algebra_simps)
    moreover have "inc_tick - (k_tick k - tick) \<le> inc_tick"
      using True by (simp add: word_le_nat_alt word_less_nat_alt unat_sub)
    ultimately have lt: "left_tick < TICK_HALF" using assms(6) by simp
    obtain k3 k4 where k4: "rt_thread_suspend_with_flag t RT_UNINTERRUPTIBLE k2 = Some (RT_EOK, k3)"
      "start_thread_timer t left_tick k3 = Some k4" "sched_inv k4" "k_current k4 = Some t"
      "k_lock_nest k4 = 1" "stat_of (k_thread k4 t) = suspend_stat RT_UNINTERRUPTIBLE"
      "stat_of (k_thread k4 u) = 2"
      "tm_timeout_tick (k_timer k4 (Thread_timer t)) = k_tick k + left_tick"
      "tm_has RT_TIMER_FLAG_ACTIVATED (k_timer k4 (Thread_timer t))"
      using suspend_and_arm[OF k2(1-4) lt, of RT_UNINTERRUPTIBLE] k2(5-8) by metis
    obtain k5 where k5: "rt_exit_critical_safe 1 k4 = Some k5" "sched_inv k5"
      "k_current k5 \<noteq> Some t" "stat_of (k_thread k5 t) = suspend_stat RT_UNINTERRUPTIBLE"
      "k_timer k5 = k_timer k4"
      using leave_blocked[OF k4(3-5) _ k2(8) k4(7)] k4(6) by auto
    have "rt_thread_delay_until tick inc_tick k = Some (Blocked (), tick + inc_tick, k5)"
      using assms(2) e2 k2(6) True k4(1,2) k5
      by (simp add: rt_thread_delay_until_def rt_thread_self_def left_tick_def[symmetric] Let_def
          resched_if_current_def)
    then show ?thesis using True k5 k4 by (auto simp: suspended_iff left_tick_def)
  next
    case False
    have x: "rt_exit_critical_safe 1 k2 = Some (rt_schedule (k2\<lparr>k_lock_nest := 0\<rparr>))"
      using k2 by (simp add: rt_exit_critical_safe_def rt_exit_critical_def Let_def)
    have "rt_thread_delay_until tick inc_tick k =
      Some (Done RT_EOK, k_tick k, rt_schedule (k2\<lparr>k_lock_nest := 0\<rparr>))"
      using assms(2) e2 k2(6,9) False x
      by (simp add: rt_thread_delay_until_def rt_thread_self_def Let_def)
    then show ?thesis using False by simp
  qed
qed

theorem delay_until_periodic_witness:
  "\<exists>k'. rt_thread_delay_until 0xFFFFFFF9 10 sleep_example = Some (Blocked (), 3, k') \<and>
     tm_timeout_tick (k_timer k' (Thread_timer 1)) = 3"
  using delay_until_periodic [OF sleep_example_facts(1-3,5,6) _ sleep_example_facts(7), of 10 "0xFFFFFFF9"]
  by (auto simp: sleep_example_facts(8))

lemma resched_stat:
  assumes "sched_inv k" "stat_of (k_thread k t) \<in> {RT_THREAD_READY, RT_THREAD_RUNNING}"
  shows "stat_of (k_thread (rt_schedule k) t) \<in> {RT_THREAD_READY, RT_THREAD_RUNNING}"
proof (cases "\<exists>cur. k_current k = Some cur \<and> k_lock_nest k = 0 \<and> k_ready_group k \<noteq> 0")
  case False
  with assms show ?thesis by (auto simp: rt_schedule_def split: option.split)
next
  case True
  then obtain cur where c: "k_current k = Some cur" "k_lock_nest k = 0" "k_ready_group k \<noteq> 0" by blast
  have l: "lists_inv k" "prio_ok (k_thread k cur)" "stat_of (k_thread k cur) \<noteq> 2"
    using assms(1) c by (auto simp: sched_inv_def cur_ok_def)
  obtain to p where h: "scheduler_get_highest_priority_thread k = (to, p)"
    "stat_of (k_thread k to) = RT_THREAD_READY" "prio_ok (k_thread k to)"
    using highest_ready[OF l(1) c(3)] by blast
  then have ne: "to \<noteq> cur" using l(3) by auto
  let ?r = "stat_of (k_thread k cur) = RT_THREAD_RUNNING"
  have "rt_schedule k = mark_stat RT_THREAD_RUNNING cur (rt_sched_remove_thread cur k) \<or>
        rt_schedule k = switch_to cur p ?r to k"
    using c ne by (auto simp: rt_schedule_def h Let_def)
  then show ?thesis
    using switch_to_correct(3,5,7)[where ins = ?r and p = p, OF l(1,2) _ ne h(3)] assms(2)
    by (cases "t = cur"; cases "t = to") (auto split: if_splits)
qed

lemma schedule_stat_other:
  assumes "sched_inv k" "k_current k = Some cur" "k_current (rt_schedule k) = Some cur" "t \<noteq> cur"
  shows "stat_of (k_thread (rt_schedule k) t) = stat_of (k_thread k t)"
proof (cases k rule: schedule_cases)
  case (3 c to p ins)
  then have "to = cur" using assms(3) by (auto simp: switch_to_def Let_def split: if_splits)
  then show ?thesis using 3 assms(2,4) by (simp add: switch_to_def Let_def)
qed (use assms in simp_all)

text \<open>
  Timeouts: the expiry handler of a suspended thread takes it out of whatever wait list it is
  in, records the timeout as its error and makes it ready (or running, when it has not left the
  processor yet); the scheduler invariant is kept. On a thread that is not suspended the
  handler's assertion fails.
\<close>

theorem timeout_wakes_thread:
  assumes "sched_inv k" and "prio_ok (k_thread k t)"
  shows "case thread_timeout t k of
     None \<Rightarrow> \<not> stat_suspended (k_thread k t)
   | Some k' \<Rightarrow> stat_suspended (k_thread k t) \<and> sched_inv k' \<and>
       th_error (k_thread k' t) = - RT_ETIMEOUT \<and>
       (\<forall>q. (\<forall>p. q \<noteq> ReadyQ p) \<longrightarrow> t \<notin> set (k_queue k' q)) \<and>
       stat_of (k_thread k' t) \<in> {RT_THREAD_READY, RT_THREAD_RUNNING}"
proof (cases "thread_timeout t k")
  case None
  then show ?thesis
    by (simp add: thread_timeout_def rt_sched_thread_is_suspended_def Let_def split: if_splits)
next
  case (Some k')
  define k2 where "k2 = rt_sched_insert_thread t (node_remove t (set_error (- RT_ETIMEOUT) t k))"
  have s: "stat_suspended (k_thread k t)" and k': "k' = rt_sched_unlock_n_resched k2"
    using Some by (simp_all add: thread_timeout_def rt_sched_thread_is_suspended_def Let_def k2_def
        split: if_splits)
  have inv': "sched_inv k'" by (rule timeout_inv[OF assms Some])
  have inv2: "sched_inv k2"
  proof -
    have "stat_of (k_thread k t) \<noteq> 2" using s stat_not_suspended(1) by blast
    then show ?thesis unfolding k2_def using assms
      by (intro reinsert_inv) (simp_all add: prio_ok_def stat_of_def)
  qed
  have st2: "stat_of (k_thread k2 t) \<in> {2, 3}" "th_error (k_thread k2 t) = - 2" by (auto simp: k2_def)
  have st: "stat_of (k_thread k' t) \<in> {2, 3}"
    using resched_stat[OF inv2, of t] st2(1) by (simp add: k' rt_sched_unlock_n_resched_def)
  moreover have "th_error (k_thread k' t) = - 2"
    using st2(2) by (simp add: k' rt_sched_unlock_n_resched_def)
  moreover have "t \<notin> set (k_queue k' q)" if "\<forall>p. q \<noteq> ReadyQ p" for q
    using lists_invD(2)[of k' t q] inv' st that by (auto simp: sched_inv_def)
  ultimately show ?thesis using Some s inv' by auto
qed

theorem timeout_wakes_thread_witness:
  "case thread_timeout 3 wait_example of None \<Rightarrow> False
   | Some k' \<Rightarrow> 3 \<notin> set (k_queue k' (SemQ 0)) \<and> th_error (k_thread k' 3) = - 2"
proof -
  have "stat_suspended (k_thread wait_example 3)" "prio_ok (k_thread wait_example 3)"
    by (simp_all add: wait_example_def kernel0_def mk_thread_def thread0_def stat_suspended_def prio_ok_def)
  then show ?thesis
    using timeout_wakes_thread [OF wait_example_inv, of 3] by (auto split: option.splits)
qed

lemma resched_running:
  assumes "sched_inv k" "k_current k = Some cur" "k_lock_nest k = 0"
    "stat_of (k_thread k cur) = RT_THREAD_RUNNING"
  shows "scheduled (rt_sched_unlock_n_resched k)" "sched_inv (rt_sched_unlock_n_resched k)"
  using assms schedule_scheduled[OF assms(1-3)] schedule_inv
  by (simp_all add: rt_sched_unlock_n_resched_def)

text \<open>
  Starting a thread: an initialised thread of legal priority becomes ready or running, and if
  its priority is higher than that of the running thread it runs at once (the state after the call
  is the one of a completed reschedule). Starting a thread twice fails the assertion.
\<close>

theorem startup_schedules_thread:
  assumes "sched_inv k" and "th_current_priority (k_thread k t) < RT_THREAD_PRIORITY_MAX"
    and "k_current k = Some cur" and "k_lock_nest k = 0" and "t \<noteq> cur"
    and "stat_of (k_thread k cur) = RT_THREAD_RUNNING" and "\<not> th_ttmr_set (k_thread k t)"
  shows "case rt_thread_startup t k of
     None \<Rightarrow> stat_of (k_thread k t) \<noteq> RT_THREAD_INIT
   | Some (e, k') \<Rightarrow> e = RT_EOK \<and> sched_inv k' \<and> scheduled k' \<and>
       stat_of (k_thread k' t) \<in> {RT_THREAD_READY, RT_THREAD_RUNNING} \<and>
       (th_current_priority (k_thread k t) < th_current_priority (k_thread k cur) \<longrightarrow>
          k_current k' \<noteq> Some cur)"
proof (cases "stat_of (k_thread k t) = RT_THREAD_INIT")
  case False
  then show ?thesis by (simp add: rt_thread_startup_def)
next
  case True
  define k1 where "k1 = rt_sched_thread_startup t k"
  note k1 = startup_prepare_inv[OF assms(1,2) True, folded k1_def]
  have w: "wake_ok k1 t" using k1 assms(7)
    by (simp add: wake_ok_def suspended_iff k1_def rt_sched_thread_startup_def)
  define k2 where "k2 = woken t k1"
  have r: "rt_thread_startup t k = Some (RT_EOK, rt_sched_unlock_n_resched k2)"
    using True ready_wake[OF w] by (simp add: rt_thread_startup_def rt_thread_resume_def k1_def k2_def)
  have k2: "sched_inv k2" "k_current k2 = Some cur" "k_lock_nest k2 = 0"
    "stat_of (k_thread k2 cur) = 3" "stat_of (k_thread k2 t) = 2"
    "th_current_priority (k_thread k2 t) = th_current_priority (k_thread k t)"
    "th_current_priority (k_thread k2 cur) = th_current_priority (k_thread k cur)"
    using sched_waker.wake_invar[OF k1(1,2)] ready_wake[OF w] assms(3-6)
    by (simp_all add: k2_def k1_def rt_sched_thread_startup_def woken_stat_def)
  have st: "stat_of (k_thread (rt_schedule k2) t) \<in> {2, 3}" using resched_stat[OF k2(1), of t] k2(5) by simp
  have "k_current (rt_schedule k2) \<noteq> Some cur"
    if "th_current_priority (k_thread k t) < th_current_priority (k_thread k cur)"
  proof
    assume c: "k_current (rt_schedule k2) = Some cur"
    then have "\<forall>u. stat_of (k_thread (rt_schedule k2) u) = 2 \<longrightarrow>
        th_current_priority (k_thread k2 cur) \<le> th_current_priority (k_thread k2 u)"
      using schedule_scheduled[OF k2(1-3)] k2(4) by (auto simp: scheduled_def)
    then have "stat_of (k_thread (rt_schedule k2) t) = 3" using that k2(6,7) st by fastforce
    then show False using schedule_stat_other[OF k2(1,2), of t] c k2(5) assms(5) by simp
  qed
  then show ?thesis
    using r resched_running[OF k2(1-4)] st k2(2) by (simp add: rt_sched_unlock_n_resched_def)
qed

theorem startup_schedules_thread_witness:
  "case rt_thread_startup 7 sched_example of None \<Rightarrow> False
   | Some (e, k') \<Rightarrow> e = 0 \<and> scheduled k' \<and> stat_of (k_thread k' 7) \<in> {2, 3}"
proof -
  have e: "k_current sched_example = Some 1" "k_lock_nest sched_example = 0"
    "stat_of (k_thread sched_example 1) = 3" "stat_of (k_thread sched_example 7) = 0"
    "th_current_priority (k_thread sched_example 7) < 32" "\<not> th_ttmr_set (k_thread sched_example 7)"
    by (simp_all add: sched_example_def kernel0_def mk_thread_def thread0_def stat_of_def)
  show ?thesis
    using startup_schedules_thread [OF sched_example_inv e(5,1,2) _ e(3,6)] e(4)
    by (auto split: option.splits)
qed

text \<open>The state of a thread that has closed itself, before it leaves the critical section.\<close>

definition closed_state :: "tid \<Rightarrow> kernel \<Rightarrow> kernel" where
  "closed_state t k = rt_thread_defunct_enqueue t (rt_sched_thread_close t
     (snd (rt_timer_detach (Thread_timer t) (rt_sched_remove_thread t k))))"

lemma closed_frame [simp]:
  "k_current (closed_state t k) = k_current k"
  "k_lock_nest (closed_state t k) = k_lock_nest k"
  "k_mutex (closed_state t k) = k_mutex k"
  "k_queue (closed_state t k) q = removeAll t (k_queue k q)"
  "k_thread (closed_state t k) = (k_thread k)(t := (k_thread k t)\<lparr>th_stat := RT_THREAD_CLOSE\<rparr>)"
  "\<not> tm_has RT_TIMER_FLAG_ACTIVATED (k_timer (closed_state t k) (Thread_timer t))"
  by (simp_all add: closed_state_def rt_thread_defunct_enqueue_def rt_sched_thread_close_def
      set_stat_def rt_timer_detach_def timer_upd_def timer_remove_def thread_upd_def)

lemma closed_inv:
  assumes "sched_inv k" "prio_ok (k_thread k t)"
  shows "sched_inv (closed_state t k)"
proof -
  have l: "lists_inv k" and c: "cur_ok k" using assms(1) by (auto simp: sched_inv_def)
  have cl: "closed_state t k = rt_thread_defunct_enqueue t (set_stat RT_THREAD_CLOSE t
      (timer_upd (Thread_timer t) (tm_flag_clear 1) (timer_remove (Thread_timer t) (rt_sched_remove_thread t k))))"
    by (simp add: closed_state_def rt_sched_thread_close_def rt_timer_detach_def)
  have "off_inv t (rt_sched_remove_thread t k)" by (rule remove_off_inv[OF l assms(2)])
  then have "off_inv t (closed_state t k)"
    by (simp add: cl off_inv_def queues_ok_def group_ok_def thread_ok_def rt_thread_defunct_enqueue_def
        set_stat_def timer_upd_def timer_remove_def thread_upd_def)
  then have "lists_inv (closed_state t k)"
    by (rule off_inv_lists_inv) (simp add: stat_of_def)
  moreover have "cur_ok (closed_state t k)"
    using c by (auto simp: cur_ok_def stat_of_def)
  ultimately show ?thesis by (simp add: sched_inv_def)
qed

text \<open>
  Leaving the entry function: the thread is closed, is in no list but the list of closed
  threads, its timer is stopped, and the highest ready thread runs. The exit path does not
  touch any mutex: what the thread owned it still owns after its end.
\<close>

theorem exit_closes_thread:
  assumes "sched_inv k" and "k_current k = Some t" and "k_lock_nest k = 0"
    and "stat_of (k_thread k u) = RT_THREAD_READY"
  shows "\<exists>k'. thread_exit k = Some k' \<and> sched_inv k' \<and> scheduled k' \<and> k_current k' \<noteq> Some t \<and>
    stat_of (k_thread k' t) = RT_THREAD_CLOSE \<and> (\<forall>q. t \<notin> set (k_queue k' q)) \<and>
    \<not> tm_has RT_TIMER_FLAG_ACTIVATED (k_timer k' (Thread_timer t)) \<and>
    k_mutex k' = k_mutex k \<and> th_taken (k_thread k' t) = th_taken (k_thread k t)"
proof -
  define k1 where "k1 = k\<lparr>k_lock_nest := 1\<rparr>"
  define k5 where "k5 = closed_state t k1"
  have p: "prio_ok (k_thread k t)" "stat_of (k_thread k t) \<noteq> 2"
    using assms(1,2) by (auto simp: sched_inv_def cur_ok_def)
  then have ut: "u \<noteq> t" using assms(4) by auto
  have k5: "sched_inv k5" "k_current k5 = Some t" "k_lock_nest k5 = 1" "stat_of (k_thread k5 t) = 1"
    "stat_of (k_thread k5 u) = 2"
    using assms p ut closed_inv[of k1 t] by (simp_all add: k5_def k1_def stat_of_def)
  let ?k = "k5\<lparr>k_lock_nest := 0\<rparr>"
  have e: "rt_exit_critical_safe 1 k5 = Some (rt_schedule ?k)"
    using k5 by (simp add: rt_exit_critical_safe_def rt_exit_critical_def Let_def)
  obtain k6 where k6: "rt_exit_critical_safe 1 k5 = Some k6" "sched_inv k6" "scheduled k6"
    "k_current k6 \<noteq> Some t" "stat_of (k_thread k6 t) = 1" "k_timer k6 = k_timer k5"
    using leave_blocked[OF k5(1-3) _ ut k5(5)] k5(4) by auto
  have "thread_exit k = Some k6"
    using k6(1,4) assms(2,3)
    by (simp add: thread_exit_def rt_thread_self_def rt_enter_critical_def Let_def resched_if_current_def
        k5_def[unfolded closed_state_def] k1_def)
  moreover have "t \<notin> set (k_queue k6 q)" for q
    using lists_invD(1,2)[of k6 t] k6(2,5)
    by (cases "\<exists>p. q = ReadyQ p") (fastforce simp: sched_inv_def suspended_iff)+
  moreover have "k_mutex k6 = k_mutex k" "th_taken (k_thread k6 t) = th_taken (k_thread k t)"
    using e k6(1) by (auto simp: k5_def k1_def)
  ultimately show ?thesis using k6 by (auto simp: k5_def)
qed

theorem exit_closes_thread_witness:
  "\<exists>k'. thread_exit sleep_example = Some k' \<and> stat_of (k_thread k' 1) = 1 \<and> k_current k' \<noteq> Some 1"
  using exit_closes_thread [OF sleep_example_facts(1-3,7)] by auto

end
