(* ===== verification/Blocking.thy ===== *)
theory Blocking
  imports Thread
begin

text \<open>
  What all blocking calls of the IPC objects have in common: suspending the caller on the wait
  list of the object with an optional timeout, waking the first waiter, and waking all waiters.
  The locale \<open>wait_object\<close> states these once for a wait list; every object interprets it for its
  own lists.
\<close>

section \<open>The timeout of a blocking call\<close>

text \<open>The optional timeout of a blocking call; \<open>None\<close> is the assertion on the time.\<close>

definition arm_timeout :: "tid \<Rightarrow> int \<Rightarrow> kernel \<Rightarrow> kernel option" where
  "arm_timeout t timeout k =
     (if timeout > 0 then start_thread_timer t (word_of_int timeout) k else Some k)"

lemma start_thread_timer_frame:
  assumes "start_thread_timer t tick k = Some k'"
  shows "k_sem k' = k_sem k \<and> k_mutex k' = k_mutex k \<and> k_event k' = k_event k \<and>
    k_mailbox k' = k_mailbox k \<and> k_mq k' = k_mq k \<and> k_mempool k' = k_mempool k"
  using assms
  by (auto simp: start_thread_timer_def rt_timer_start_def timer_start_def Let_def timer_upd_def
      timer_remove_def rt_sched_thread_timer_start_def split: if_splits)

lemma arm_timeout_same: "arm_timeout t timeout k = Some k' \<Longrightarrow> same_sched k k'"
  by (auto simp: arm_timeout_def split: if_splits intro: start_thread_timer_same)

lemma arm_timeout_frame:
  "arm_timeout t timeout k = Some k' \<Longrightarrow>
   k_sem k' = k_sem k \<and> k_mutex k' = k_mutex k \<and> k_event k' = k_event k \<and>
   k_mailbox k' = k_mailbox k \<and> k_mq k' = k_mq k \<and> k_mempool k' = k_mempool k"
  by (auto simp: arm_timeout_def split: if_splits dest: start_thread_timer_frame)

lemma arm_timeout_ok:
  assumes "thread_timer_ok k t" "timeout < 0x7FFFFFFF"
  obtains k' where "arm_timeout t timeout k = Some k'"
    "k_thread k' = (k_thread k)(t := (k_thread k t)\<lparr>th_ttmr_set := th_ttmr_set (k_thread k t) \<or> timeout > 0\<rparr>)"
    "k_current k' = k_current k" "k_lock_nest k' = k_lock_nest k" "k_queue k' = k_queue k"
    "timeout > 0 \<Longrightarrow> tm_has RT_TIMER_FLAG_ACTIVATED (k_timer k' (Thread_timer t)) \<and>
       tm_timeout_tick (k_timer k' (Thread_timer t)) = k_tick k + word_of_int timeout"
    "timeout \<le> 0 \<Longrightarrow> k' = k"
proof (cases "timeout > 0")
  case False
  then show ?thesis using that[of k] by (simp add: arm_timeout_def)
next
  case True
  have "(word_of_int timeout :: u32) < TICK_HALF"
    using True assms(2) by (simp add: word_less_def uint_word_of_int_eq take_bit_int_eq_self)
  then obtain k' where "start_thread_timer t (word_of_int timeout) k = Some k'"
    "tm_timeout_tick (k_timer k' (Thread_timer t)) = k_tick k + word_of_int timeout"
    "tm_has RT_TIMER_FLAG_ACTIVATED (k_timer k' (Thread_timer t))"
    "k_thread k' = (k_thread k)(t := (k_thread k t)\<lparr>th_ttmr_set := True\<rparr>)"
    "k_current k' = k_current k" "k_lock_nest k' = k_lock_nest k" "k_queue k' = k_queue k"
    using start_thread_timer_ok[OF _ assms(1)] by metis
  then show ?thesis using True that[of k'] by (simp add: arm_timeout_def)
qed

section \<open>Rescheduling and wait lists\<close>

lemma schedule_wait_queue:
  assumes "sched_inv k" "\<And>p. q \<noteq> ReadyQ p"
  shows "k_queue (rt_schedule k) q = k_queue k q"
proof (cases "\<exists>cur. k_current k = Some cur \<and> k_lock_nest k = 0 \<and> k_ready_group k \<noteq> 0")
  case False
  then show ?thesis by (auto simp: rt_schedule_def split: option.split)
next
  case True
  then obtain cur where c: "k_current k = Some cur" "k_lock_nest k = 0" "k_ready_group k \<noteq> 0" by blast
  have l: "lists_inv k" "stat_of (k_thread k cur) \<noteq> 2"
    using assms(1) c by (auto simp: sched_inv_def cur_ok_def)
  obtain to p where h: "scheduler_get_highest_priority_thread k = (to, p)"
    "stat_of (k_thread k to) = RT_THREAD_READY"
    using highest_ready[OF l(1) c(3)] by blast
  have ne: "to \<noteq> cur" using h l(2) by auto
  have "to \<notin> set (k_queue k q)" using lists_invD(2)[OF l(1), of to q] assms(2) h(2) by auto
  moreover have "cur \<notin> set (k_queue k q)" if "stat_of (k_thread k cur) = RT_THREAD_RUNNING"
    using lists_invD(2)[OF l(1), of cur q] assms(2) that by auto
  ultimately show ?thesis
    using c ne assms(2) by (auto simp: rt_schedule_def h Let_def switch_to_wait_queue)
qed

text \<open>
  A caller that has just been suspended, on a wait list or on none: its timer is armed, and the highest
  ready thread runs.
\<close>

lemma blocked_schedule:
  assumes "sched_inv (suspended_state t ql f sf k)" "k_current k = Some t" "k_lock_nest k = 0"
    "stat_of (k_thread k t) = RT_THREAD_RUNNING" "thread_timer_ok k t" "timeout < 0x7FFFFFFF"
    "stat_of (k_thread k u) = RT_THREAD_READY"
  obtains k3 where "arm_timeout t timeout (suspended_state t ql f sf k) = Some k3" "sched_inv k3"
    "sched_inv (rt_schedule k3)" "scheduled (rt_schedule k3)"
    "k_current (rt_schedule k3) \<noteq> Some t" "wake_ok (rt_schedule k3) t"
    "th_error (k_thread (rt_schedule k3) t) = th_error (k_thread k t)"
    "th_ttmr_set (k_thread (rt_schedule k3) t) \<longleftrightarrow> timeout > 0"
    "k_queue k3 = k_queue (suspended_state t ql f sf k)"
proof -
  let ?k2 = "suspended_state t ql f sf k"
  have tk: "thread_timer_ok ?k2 t" using assms(5) by simp
  obtain k3 where k3: "arm_timeout t timeout ?k2 = Some k3"
    "k_thread k3 = (k_thread ?k2)(t := (k_thread ?k2 t)\<lparr>th_ttmr_set := th_ttmr_set (k_thread ?k2 t) \<or> timeout > 0\<rparr>)"
    "k_current k3 = k_current ?k2" "k_lock_nest k3 = k_lock_nest ?k2" "k_queue k3 = k_queue ?k2"
    "timeout > 0 \<Longrightarrow> tm_has RT_TIMER_FLAG_ACTIVATED (k_timer k3 (Thread_timer t))"
    using arm_timeout_ok[OF tk assms(6)] by metis
  have inv3: "sched_inv k3" using sched_inv_same[OF arm_timeout_same[OF k3(1)]] assms(1) by simp
  have ut: "u \<noteq> t" using assms(4,7) by auto
  have t3: "k_current k3 = Some t" "k_lock_nest k3 = 0" "stat_of (k_thread k3 t) = suspend_stat sf"
    "stat_of (k_thread k3 u) = 2"
    using assms(2,3,7) ut by (simp_all add: k3 stat_of_def)
  have ne3: "stat_of (k_thread k3 t) \<noteq> 3" using t3(3) by simp
  have ex3: "\<exists>u. stat_of (k_thread k3 u) = 2" using t3(4) by blast
  have sb: "k_current (rt_schedule k3) \<noteq> Some t"
    "stat_of (k_thread (rt_schedule k3) t) = suspend_stat sf"
    using schedule_from_blocked[OF inv3 t3(1,2) ne3 ex3] t3(3) by auto
  have "k_ready_group k3 \<noteq> 0" using group_zero_iff[of k3] inv3 t3(4) by (auto simp: sched_inv_def)
  then have sc: "scheduled (rt_schedule k3)" using schedule_scheduled[OF inv3 t3(1,2)] by simp
  have "prio_ok (k_thread k3 t)" using inv3 t3(1) by (simp add: sched_inv_def cur_ok_def)
  then have wk: "wake_ok (rt_schedule k3) t"
    using sb(2) k3(6) by (simp add: wake_ok_def suspended_iff) (simp add: k3(2))
  show ?thesis
    using that[OF k3(1) inv3 schedule_inv[OF inv3] sc sb(1) wk _ _ k3(5)] by (simp add: k3(2))
qed

section \<open>The contract of a wait list\<close>

locale wait_object =
  fixes q :: list_head
  assumes not_ready: "q \<noteq> ReadyQ p"
begin

lemma suspend_on_list:
  assumes "sched_inv k" "k_current k = Some t" "stat_of (k_thread k t) = RT_THREAD_RUNNING"
  shows "rt_thread_suspend_to_list t (Some q) f sf k = Some (RT_EOK, suspended_state t (Some q) f sf k)"
    "sched_inv (suspended_state t (Some q) f sf k)"
    "t \<in> set (k_queue (suspended_state t (Some q) f sf k) q)"
proof -
  have p: "prio_ok (k_thread k t)" using assms(1,2) by (simp add: sched_inv_def cur_ok_def)
  show "rt_thread_suspend_to_list t (Some q) f sf k = Some (RT_EOK, suspended_state t (Some q) f sf k)"
    using assms by (simp add: suspend_eq)
  show "sched_inv (suspended_state t (Some q) f sf k)"
    by (rule suspended_inv[OF assms(1) p]) (simp add: not_ready)
  show "t \<in> set (k_queue (suspended_state t (Some q) f sf k) q)"
    using enqueue_split[of "thread_set_suspend_state t sf (rt_sched_remove_thread t k)" q t f]
    by (auto simp: suspended_state_def)
qed

lemma block_on:
  assumes "sched_inv k" "k_current k = Some t" "k_lock_nest k = 0"
    "stat_of (k_thread k t) = RT_THREAD_RUNNING" "thread_timer_ok k t" "timeout < 0x7FFFFFFF"
    "stat_of (k_thread k u) = RT_THREAD_READY"
  obtains k2 k3 where "rt_thread_suspend_to_list t (Some q) f sf k = Some (RT_EOK, k2)"
    "arm_timeout t timeout k2 = Some k3" "sched_inv (rt_schedule k3)" "scheduled (rt_schedule k3)"
    "k_current (rt_schedule k3) \<noteq> Some t" "t \<in> set (k_queue (rt_schedule k3) q)"
    "wake_ok (rt_schedule k3) t" "th_error (k_thread (rt_schedule k3) t) = th_error (k_thread k t)"
    "th_ttmr_set (k_thread (rt_schedule k3) t) \<longleftrightarrow> timeout > 0"
    "k_queue (rt_schedule k3) q = k_queue k2 q" "k_thread k2 = k_thread (suspended_state t (Some q) f sf k)"
    "k_queue k2 = k_queue (suspended_state t (Some q) f sf k)"
proof -
  note s = suspend_on_list[OF assms(1,2,4), of f sf]
  obtain k3 where k3: "arm_timeout t timeout (suspended_state t (Some q) f sf k) = Some k3" "sched_inv k3"
    "sched_inv (rt_schedule k3)" "scheduled (rt_schedule k3)"
    "k_current (rt_schedule k3) \<noteq> Some t" "wake_ok (rt_schedule k3) t"
    "th_error (k_thread (rt_schedule k3) t) = th_error (k_thread k t)"
    "th_ttmr_set (k_thread (rt_schedule k3) t) \<longleftrightarrow> timeout > 0"
    "k_queue k3 = k_queue (suspended_state t (Some q) f sf k)"
    using blocked_schedule[OF s(2) assms(2-7)] by blast
  have "k_queue (rt_schedule k3) q = k_queue (suspended_state t (Some q) f sf k) q"
    using schedule_wait_queue[OF k3(2) not_ready] by (simp add: k3(9))
  then show ?thesis using that[OF s(1) k3(1,3-5)] s(3) k3 by simp
qed

lemma wake_first:
  assumes "sched_inv k" "k_queue k q = t # ts" "wake_ok k t" "0 \<le> err"
  defines "k1 \<equiv> snd (rt_susp_list_dequeue q err k)"
  shows "sched_inv k1" "k_queue k1 q = ts" "th_error (k_thread k1 t) = err"
    "stat_of (k_thread k1 t) = woken_stat k t" "\<And>u. u \<noteq> t \<Longrightarrow> k_thread k1 u = k_thread k u"
    "fst (rt_susp_list_dequeue q err k) = Some t"
proof -
  have d: "rt_susp_list_dequeue q err k = (Some t, wake_with err t k)"
    by (rule dequeue_cons[OF assms(2,3)])
  have k1: "k1 = thread_upd t (\<lambda>th. th\<lparr>th_error := err\<rparr>) (woken t k)"
    using assms(3,4) d by (simp add: k1_def wake_with_wake)
  have "distinct (k_queue k q)" using assms(1) by (simp add: sched_inv_def lists_inv_def queues_ok_def)
  then have "t \<notin> set ts" using assms(2) by simp
  then show "k_queue k1 q = ts" using assms(2) not_ready by (simp add: k1)
  show "sched_inv k1" unfolding k1_def by (rule dequeue_inv[OF assms(1)])
  show "th_error (k_thread k1 t) = err" by (simp add: k1)
  show "stat_of (k_thread k1 t) = woken_stat k t" by (simp add: k1 stat_of_def woken_stat_def)
  show "\<And>u. u \<noteq> t \<Longrightarrow> k_thread k1 u = k_thread k u" by (simp add: k1)
  show "fst (rt_susp_list_dequeue q err k) = Some t" by (simp add: d)
qed

lemma wake_first_schedule:
  assumes "sched_inv k" "k_queue k q = t # ts" "wake_ok k t" "0 \<le> err"
  defines "k' \<equiv> rt_schedule (snd (rt_susp_list_dequeue q err k))"
  shows "sched_inv k'" "k_queue k' q = ts" "th_error (k_thread k' t) = err"
    "stat_of (k_thread k' t) \<in> {RT_THREAD_READY, RT_THREAD_RUNNING}"
proof -
  note w = wake_first[OF assms(1-4)]
  show "sched_inv k'" unfolding k'_def by (rule schedule_inv[OF w(1)])
  show "k_queue k' q = ts" using schedule_wait_queue[OF w(1) not_ready] w(2) by (simp add: k'_def)
  show "th_error (k_thread k' t) = err" using w(3) by (simp add: k'_def)
  show "stat_of (k_thread k' t) \<in> {2, 3}"
    using resched_stat[OF w(1), of t] w(4) by (simp add: k'_def woken_stat_def split: if_splits)
qed

end

section \<open>Waiting in a loop\<close>

text \<open>
  The situation of a thread \<open>t\<close> in a call that may block: it runs, the scheduler is not locked, no
  interrupt is being served, its timer is set up, and there is a thread to switch to (the idle
  thread is always ready).
\<close>

definition can_block :: "kernel \<Rightarrow> tid \<Rightarrow> bool" where
  "can_block k t \<longleftrightarrow> sched_inv k \<and> k_current k = Some t \<and> k_lock_nest k = 0 \<and> k_int_nest k = 0 \<and>
     stat_of (k_thread k t) = RT_THREAD_RUNNING \<and> thread_timer_ok k t \<and>
     (\<exists>u. stat_of (k_thread k u) = RT_THREAD_READY)"

lemma can_block_available: "can_block k t \<Longrightarrow> scheduler_available b k"
  by (simp add: can_block_def scheduler_available_def rt_critical_level_def in_thread_context_def
      not_in_interrupt_def)

lemma can_block_self: "can_block k t \<Longrightarrow> rt_thread_self k = Some t"
  by (simp add: can_block_def rt_thread_self_def)

lemma can_block_inv: "can_block k t \<Longrightarrow> sched_inv k"
  by (simp add: can_block_def)

lemma can_block_set_error [simp]: "can_block (set_error e t k) t = can_block k t"
proof -
  have "(\<exists>u. stat_of (k_thread (set_error e t k) u) = 2) = (\<exists>u. stat_of (k_thread k u) = 2)"
    by (auto simp: stat_of_def)
  then show ?thesis by (simp add: can_block_def thread_timer_ok_def) (simp add: stat_of_def)
qed

text \<open>
  Mailboxes and message queues wait in a loop: a woken caller looks again and waits for what is
  left of its time. One round of waiting remembers the waiting time and the tick at which it began.
\<close>

definition timed_wait :: "list_head \<Rightarrow> ipc_flag \<Rightarrow> suspend_flag \<Rightarrow> tid \<Rightarrow> int \<Rightarrow> u32 \<Rightarrow> kernel \<Rightarrow>
    ((rt_err_t, int \<times> u32) flow \<times> kernel) option" where
  "timed_wait q flag suspend_flag t timeout tick_delta k = do {
     (ret, k1) \<leftarrow> rt_thread_suspend_to_list t (Some q) flag suspend_flag k;
     if ret \<noteq> RT_EOK then Some (Done ret, k1)
     else do {
       let tick_delta' = (if timeout > 0 then k_tick k1 else tick_delta);
       k2 \<leftarrow> arm_timeout t timeout k1;
       Some (Blocked (timeout, tick_delta'), rt_schedule k2)
     }
   }"

text \<open>
  The recomputation after the wait: the elapsed ticks are subtracted in 32-bit arithmetic, and a
  result that is negative as a signed number becomes 0.
\<close>

definition timeout_left :: "u32 \<Rightarrow> int \<times> u32 \<Rightarrow> int \<times> u32" where
  "timeout_left now w =
     (let (timeout, tick_delta) = w
      in if timeout > 0
         then let tick_delta' = now - tick_delta;
                  timeout' = sint (word_of_int timeout - tick_delta')
              in (if timeout' < 0 then 0 else timeout', tick_delta')
         else (timeout, tick_delta))"

lemma timeout_left_forever [simp]: "timeout \<le> 0 \<Longrightarrow> timeout_left now (timeout, td) = (timeout, td)"
  by (simp add: timeout_left_def)

lemma timeout_left_remaining:
  assumes "0 < timeout" "timeout < 2 ^ 31" "unat (now - td) < 2 ^ 31"
  shows "fst (timeout_left now (timeout, td)) = max 0 (timeout - int (unat (now - td)))"
proof -
  define d where "d = now - td"
  have d: "uint d < 2 ^ 31" 
  proof -
    have "int (unat d) < int (2 ^ 31)" using assms(3) unfolding d_def by (simp only: of_nat_less_iff)
    then show ?thesis by simp
  qed
  have "word_of_int timeout - d = (word_of_int (timeout - uint d) :: u32)"
    by (simp add: of_int_diff)
  then have "sint (word_of_int timeout - d) = signed_take_bit 31 (timeout - uint d)"
    by (simp only: sint_sbintrunc') simp
  also have "\<dots> = timeout - uint d"
  proof (rule signed_take_bit_int_eq_self)
    show "- (2 ^ 31) \<le> timeout - uint d" using assms(1) d by simp
    have "0 \<le> uint d" by (rule unsigned_greater_eq)
    then show "timeout - uint d < 2 ^ 31" using assms(2) by linarith
  qed
  finally have "sint (word_of_int timeout - d) = timeout - int (unat d)" by simp
  then show ?thesis using assms(1) by (simp add: timeout_left_def d_def Let_def)
qed

lemma timed_wait_frame:
  assumes "timed_wait q f sf t timeout td k = Some (r, k')" "sched_inv k" "\<And>p. q \<noteq> ReadyQ p"
  shows "sched_inv k' \<and> k_sem k' = k_sem k \<and> k_mutex k' = k_mutex k \<and> k_event k' = k_event k \<and>
    k_mailbox k' = k_mailbox k \<and> k_mq k' = k_mq k \<and> k_mempool k' = k_mempool k \<and> r \<noteq> Done RT_EOK"
proof -
  obtain ret k1 where s: "rt_thread_suspend_to_list t (Some q) f sf k = Some (ret, k1)"
    "ret \<noteq> RT_EOK \<Longrightarrow> r = Done ret \<and> k' = k1"
    "ret = RT_EOK \<Longrightarrow> \<exists>k2. arm_timeout t timeout k1 = Some k2 \<and> k' = rt_schedule k2 \<and> r \<noteq> Done RT_EOK"
    using assms(1) by (auto simp: timed_wait_def Let_def split: bind_splits if_splits)
  have inv1: "sched_inv k1" using assms(2,3) suspend_inv[OF _ _ s(1)] by simp
  have fr1: "k_sem k1 = k_sem k \<and> k_mutex k1 = k_mutex k \<and> k_event k1 = k_event k \<and>
    k_mailbox k1 = k_mailbox k \<and> k_mq k1 = k_mq k \<and> k_mempool k1 = k_mempool k"
    using s(1) by (auto simp: suspend_eq split: if_splits)
  show ?thesis
  proof (cases "ret = RT_EOK")
    case False
    then show ?thesis using s(2) inv1 fr1 by simp
  next
    case True
    then obtain k2 where k2: "arm_timeout t timeout k1 = Some k2" "k' = rt_schedule k2" "r \<noteq> Done RT_EOK"
      using s(3) by blast
    have "sched_inv k2" using sched_inv_same[OF arm_timeout_same[OF k2(1)]] inv1 by simp
    then show ?thesis using arm_timeout_frame[OF k2(1)] fr1 k2(2,3) schedule_inv by simp
  qed
qed

text \<open>
  Waking the first thread of the other side: what a send does for a waiting receiver, and a receive
  for a waiting sender.
\<close>

definition wake_one :: "list_head \<Rightarrow> kernel \<Rightarrow> kernel" where
  "wake_one q k =
     (if k_queue k q \<noteq> [] then rt_schedule (snd (rt_susp_list_dequeue q RT_EOK k)) else k)"

text \<open>The first thread of the list, if there is one, has been taken off and can run, with no error.\<close>

definition first_woken :: "list_head \<Rightarrow> kernel \<Rightarrow> kernel \<Rightarrow> bool" where
  "first_woken q k k' \<longleftrightarrow> k_queue k' q = tl (k_queue k q) \<and>
     (case k_queue k q of [] \<Rightarrow> True
      | t # _ \<Rightarrow> th_error (k_thread k' t) = RT_EOK \<and>
          stat_of (k_thread k' t) \<in> {RT_THREAD_READY, RT_THREAD_RUNNING})"

lemma wake_one_frame [simp]:
  "k_sem (wake_one q k) = k_sem k" "k_mutex (wake_one q k) = k_mutex k"
  "k_event (wake_one q k) = k_event k" "k_mailbox (wake_one q k) = k_mailbox k"
  "k_mq (wake_one q k) = k_mq k" "k_mempool (wake_one q k) = k_mempool k"
  by (simp_all add: wake_one_def)

lemma wake_one_inv [rt_inv]: "sched_inv k \<Longrightarrow> sched_inv (wake_one q k)"
  by (simp add: wake_one_def schedule_inv dequeue_inv)

context wait_object
begin

lemma wake_one_first:
  assumes "sched_inv k" "k_queue k q \<noteq> [] \<longrightarrow> wake_ok k (hd (k_queue k q))"
  shows "first_woken q k (wake_one q k)"
proof (cases "k_queue k q")
  case Nil
  then show ?thesis by (simp add: first_woken_def wake_one_def)
next
  case (Cons t ts)
  then show ?thesis
    using wake_first_schedule[OF assms(1) Cons, of 0] assms(2) by (simp add: first_woken_def wake_one_def)
qed

lemma timed_wait_blocks:
  assumes "can_block k t" "timeout < 0x7FFFFFFF"
  obtains k' where
    "timed_wait q f sf t timeout td k = Some (Blocked (timeout, if timeout > 0 then k_tick k else td), k')"
    "sched_inv k'" "scheduled k'" "k_current k' \<noteq> Some t" "t \<in> set (k_queue k' q)" "wake_ok k' t"
    "timeout > 0 \<Longrightarrow> tm_has RT_TIMER_FLAG_ACTIVATED (k_timer k' (Thread_timer t)) \<and>
       tm_timeout_tick (k_timer k' (Thread_timer t)) = k_tick k + word_of_int timeout"
proof -
  obtain u where "sched_inv k" "k_current k = Some t" "k_lock_nest k = 0"
    "stat_of (k_thread k t) = RT_THREAD_RUNNING" "thread_timer_ok k t" "stat_of (k_thread k u) = RT_THREAD_READY"
    using assms(1) by (auto simp: can_block_def)
  then obtain k2 k3 where b: "rt_thread_suspend_to_list t (Some q) f sf k = Some (RT_EOK, k2)"
    "arm_timeout t timeout k2 = Some k3" "sched_inv (rt_schedule k3)" "scheduled (rt_schedule k3)"
    "k_current (rt_schedule k3) \<noteq> Some t" "t \<in> set (k_queue (rt_schedule k3) q)" "wake_ok (rt_schedule k3) t"
    using block_on[where timeout = timeout and f = f and sf = sf] assms(2) by metis
  have k2: "k_tick k2 = k_tick k" "thread_timer_ok k2 t"
    using b(1) assms(1) by (auto simp: suspend_eq can_block_def split: if_splits)
  obtain k4 where "arm_timeout t timeout k2 = Some k4"
    "timeout > 0 \<Longrightarrow> tm_has RT_TIMER_FLAG_ACTIVATED (k_timer k4 (Thread_timer t)) \<and>
       tm_timeout_tick (k_timer k4 (Thread_timer t)) = k_tick k2 + word_of_int timeout"
    using arm_timeout_ok[OF k2(2) assms(2)] by metis
  then have tm: "timeout > 0 \<Longrightarrow> tm_has RT_TIMER_FLAG_ACTIVATED (k_timer (rt_schedule k3) (Thread_timer t)) \<and>
       tm_timeout_tick (k_timer (rt_schedule k3) (Thread_timer t)) = k_tick k + word_of_int timeout"
    using b(2) k2(1) by simp
  have "timed_wait q f sf t timeout td k =
      Some (Blocked (timeout, if timeout > 0 then k_tick k else td), rt_schedule k3)"
    using b(1,2) k2(1) by (simp add: timed_wait_def Let_def)
  then show ?thesis using that b(3-7) tm by blast
qed

end

interpretation sem_object: wait_object "SemQ i" for i by unfold_locales simp

interpretation mutex_object: wait_object "MutexQ i" for i by unfold_locales simp

interpretation event_object: wait_object "EventQ i" for i by unfold_locales simp

interpretation mailbox_object: wait_object "MailboxQ i" for i by unfold_locales simp

interpretation mailbox_sender: wait_object "MailboxSendQ i" for i by unfold_locales simp

interpretation mq_object: wait_object "MqQ i" for i by unfold_locales simp

interpretation mq_sender: wait_object "MqSendQ i" for i by unfold_locales simp

interpretation mempool_object: wait_object "MempoolQ i" for i by unfold_locales simp

interpretation data_writer: wait_object "DataPushQ i" for i by unfold_locales simp

interpretation data_reader: wait_object "DataPopQ i" for i by unfold_locales simp

section \<open>A concrete wait list\<close>

text \<open>Thread 1 runs at priority 10, threads 2 and 3 wait on the list \<open>q\<close>.\<close>

definition waiting_on :: "list_head \<Rightarrow> kernel" where
  "waiting_on q = kernel0\<lparr>
     k_thread := (\<lambda>_. thread0)(1 := mk_thread 3 10, 2 := mk_thread 7 8, 3 := mk_thread 7 20),
     k_queue := (\<lambda>_. [])(q := [2, 3]), k_current := Some 1\<rparr>"

lemma waiting_on_inv: "(\<And>p. q \<noteq> ReadyQ p) \<Longrightarrow> sched_inv (waiting_on q)"
  by (auto simp: sched_inv_def lists_inv_def queues_ok_def group_ok_def thread_ok_def cur_ok_def
      waiting_on_def kernel0_def thread0_def mk_thread_def stat_of_def stat_suspended_def
      prio_ok_def split: if_splits)

lemma waiting_on_facts:
  "k_queue (waiting_on q) q = [2, 3]" "wake_ok (waiting_on q) 2" "wake_ok (waiting_on q) 3"
  "k_current (waiting_on q) = Some 1" "k_lock_nest (waiting_on q) = 0" "k_int_nest (waiting_on q) = 0"
  by (simp_all add: waiting_on_def kernel0_def wake_ok_def stat_suspended_def prio_ok_def
      mk_thread_def thread0_def)

lemma sleep_example_can_block: "can_block sleep_example 1"
  using sleep_example_facts(1-7) by (auto simp: can_block_def)

end
