(* ===== verification/Semaphore.thy ===== *)
theory Semaphore
  imports Blocking
begin

text \<open>
  Counting semaphores (\<^verbatim>\<open>src/ipc.c\<close>, \<^verbatim>\<open>rt_sem_*\<close>). A take that cannot be granted suspends the
  caller on the wait list of the semaphore; a release hands the token to the first waiter or
  counts it. The main result is the conservation of tokens over any interleaving of takes,
  releases, timeouts and other kernel activity, together with the one situation that breaks it.
  Dynamic creation is not modelled, the object container is not part of the state.
\<close>

section \<open>Operations\<close>

abbreviation (input) RT_SEM_VALUE_MAX :: nat where "RT_SEM_VALUE_MAX \<equiv> 65535"

definition sem_object_init :: "nat \<Rightarrow> nat \<Rightarrow> ipc_flag \<Rightarrow> nat \<Rightarrow> kernel \<Rightarrow> kernel" where
  "sem_object_init i v flag max_value k =
     sem_upd i (\<lambda>_. \<lparr>sem_value = v, sem_max_value = max_value, sem_flag = flag\<rparr>)
       (k\<lparr>k_queue := (k_queue k)(SemQ i := [])\<rparr>)"

definition rt_sem_init :: "nat \<Rightarrow> nat \<Rightarrow> ipc_flag \<Rightarrow> kernel \<Rightarrow> (rt_err_t \<times> kernel) option" where
  "rt_sem_init i v flag k =
     (if v < 0x10000 then Some (RT_EOK, sem_object_init i v flag RT_SEM_VALUE_MAX k) else None)"

text \<open>\<open>obj\<close> is the result of the allocation.\<close>

definition rt_sem_create :: "nat option \<Rightarrow> nat \<Rightarrow> ipc_flag \<Rightarrow> kernel \<Rightarrow> (nat option \<times> kernel) option" where
  "rt_sem_create obj v flag k =
     (if v < 0x10000 \<and> not_in_interrupt k
      then Some (case obj of None \<Rightarrow> (None, k) | Some i \<Rightarrow> (Some i, sem_object_init i v flag RT_SEM_VALUE_MAX k))
      else None)"

definition rt_sem_detach :: "nat \<Rightarrow> kernel \<Rightarrow> rt_err_t \<times> kernel" where
  "rt_sem_detach i k = (RT_EOK, rt_susp_list_resume_all (SemQ i) RT_ERROR k)"

definition rt_sem_delete :: "nat \<Rightarrow> kernel \<Rightarrow> (rt_err_t \<times> kernel) option" where
  "rt_sem_delete i k =
     (if not_in_interrupt k then Some (RT_EOK, rt_susp_list_resume_all (SemQ i) RT_ERROR k) else None)"

definition sem_take :: "nat \<Rightarrow> int \<Rightarrow> suspend_flag \<Rightarrow> kernel \<Rightarrow> ((rt_err_t, unit) flow \<times> kernel) option"
  where
  "sem_take i timeout suspend_flag k =
     (if \<not> scheduler_available True k then None
      else if sem_value (k_sem k i) > 0
      then Some (Done RT_EOK, sem_upd i (\<lambda>s. s\<lparr>sem_value := sem_value s - 1\<rparr>) k)
      else if timeout = 0 then Some (Done (- RT_ETIMEOUT), k)
      else case rt_thread_self k of
        None \<Rightarrow> None
      | Some t \<Rightarrow> do {
          let k1 = set_error RT_EINTR t k;
          (ret, k2) \<leftarrow> rt_thread_suspend_to_list t (Some (SemQ i)) (sem_flag (k_sem k1 i)) suspend_flag k1;
          if ret \<noteq> RT_EOK then Some (Done ret, k2)
          else do {
            k3 \<leftarrow> arm_timeout t timeout k2;
            Some (Blocked (), rt_schedule k3)
          }
        })"

text \<open>The caller runs again: the error word tells why it was woken.\<close>

definition sem_take_resume :: "tid \<Rightarrow> kernel \<Rightarrow> rt_err_t" where
  "sem_take_resume t k =
     (let error = th_error (k_thread k t)
      in if error \<noteq> RT_EOK then (if error > 0 then - error else error) else RT_EOK)"

definition rt_sem_take :: "nat \<Rightarrow> int \<Rightarrow> kernel \<Rightarrow> ((rt_err_t, unit) flow \<times> kernel) option" where
  "rt_sem_take i time = sem_take i time RT_UNINTERRUPTIBLE"

definition rt_sem_take_interruptible ::
  "nat \<Rightarrow> int \<Rightarrow> kernel \<Rightarrow> ((rt_err_t, unit) flow \<times> kernel) option" where
  "rt_sem_take_interruptible i time = sem_take i time RT_INTERRUPTIBLE"

definition rt_sem_take_killable ::
  "nat \<Rightarrow> int \<Rightarrow> kernel \<Rightarrow> ((rt_err_t, unit) flow \<times> kernel) option" where
  "rt_sem_take_killable i time = sem_take i time RT_KILLABLE"

definition rt_sem_trytake :: "nat \<Rightarrow> kernel \<Rightarrow> ((rt_err_t, unit) flow \<times> kernel) option" where
  "rt_sem_trytake i = rt_sem_take i 0"

definition rt_sem_release :: "nat \<Rightarrow> kernel \<Rightarrow> rt_err_t \<times> kernel" where
  "rt_sem_release i k =
     (if k_queue k (SemQ i) \<noteq> []
      then (RT_EOK, rt_schedule (snd (rt_susp_list_dequeue (SemQ i) RT_EOK k)))
      else if sem_value (k_sem k i) < sem_max_value (k_sem k i)
      then (RT_EOK, sem_upd i (\<lambda>s. s\<lparr>sem_value := sem_value s + 1\<rparr>) k)
      else (- RT_EFULL, k))"

datatype sem_cmd = SEM_CMD_RESET u32 | SEM_CMD_SET_VLIMIT u32 | SEM_CMD_OTHER

definition rt_sem_control :: "nat \<Rightarrow> sem_cmd \<Rightarrow> kernel \<Rightarrow> rt_err_t \<times> kernel" where
  "rt_sem_control i cmd k =
     (case cmd of
        SEM_CMD_RESET arg \<Rightarrow>
          let k1 = rt_susp_list_resume_all (SemQ i) RT_ERROR k;
              k2 = sem_upd i (\<lambda>s. s\<lparr>sem_value := unat (ucast arg :: u16)\<rparr>) k1
          in (RT_EOK, rt_schedule k2)
      | SEM_CMD_SET_VLIMIT arg \<Rightarrow>
          let max_value = unat (ucast arg :: u16)
          in if max_value > RT_SEM_VALUE_MAX \<or> max_value < 1 then (- RT_EINVAL, k)
             else let need_schedule = (max_value < sem_value (k_sem k i) \<and> k_queue k (SemQ i) \<noteq> []);
                      k1 = (if need_schedule then rt_susp_list_resume_all (SemQ i) RT_ERROR k else k);
                      k2 = sem_upd i (\<lambda>s. s\<lparr>sem_max_value := max_value\<rparr>) k1
                  in (RT_EOK, if need_schedule then rt_schedule k2 else k2)
      | SEM_CMD_OTHER \<Rightarrow> (- RT_ERROR, k))"

section \<open>Effects\<close>

lemma sem_upd_same [simp]: "same_sched k (sem_upd i f k)"
  by (simp add: same_sched_def sem_upd_def)

lemma sem_upd_inv [simp]: "sched_inv (sem_upd i f k) = sched_inv k"
  by (rule sched_inv_same) simp

lemma sem_upd_frame [simp]:
  "k_sem (sem_upd i f k) = (k_sem k)(i := f (k_sem k i))"
  "k_queue (sem_upd i f k) = k_queue k"
  "k_thread (sem_upd i f k) = k_thread k"
  "k_current (sem_upd i f k) = k_current k"
  "k_lock_nest (sem_upd i f k) = k_lock_nest k"
  "k_timer (sem_upd i f k) = k_timer k"
  by (simp_all add: sem_upd_def)

text \<open>The three ways a take ends.\<close>

lemma sem_take_done_ok:
  assumes "sem_take i timeout sf k = Some (Done RT_EOK, k')"
  shows "0 < sem_value (k_sem k i) \<and> k' = sem_upd i (\<lambda>s. s\<lparr>sem_value := sem_value s - 1\<rparr>) k"
  using assms by (auto simp: sem_take_def Let_def split: if_splits option.splits bind_splits)

lemma sem_take_done_error:
  assumes "sched_inv k" "sem_take i timeout sf k = Some (Done e, k')" "e \<noteq> RT_EOK"
  shows "sched_inv k' \<and> k_sem k' = k_sem k \<and> k_queue k' = k_queue k"
  using assms
  by (auto simp: sem_take_def Let_def suspend_eq split: if_splits option.splits bind_splits)

lemma sem_take_blocked:
  assumes "sched_inv k" "sem_take i timeout sf k = Some (Blocked c, k')"
  shows "sched_inv k' \<and> sem_value (k_sem k i) = 0 \<and> k_sem k' = k_sem k"
proof -
  obtain t k2 k3 where r: "rt_thread_suspend_to_list t (Some (SemQ i))
      (sem_flag (k_sem (set_error RT_EINTR t k) i)) sf (set_error RT_EINTR t k) = Some (RT_EOK, k2)"
    "arm_timeout t timeout k2 = Some k3" "k' = rt_schedule k3" "sem_value (k_sem k i) = 0"
    using assms(2) by (auto simp: sem_take_def Let_def split: if_splits option.splits bind_splits)
  have "sched_inv k2" using assms(1) by (intro suspend_inv[OF _ _ r(1)]) simp_all
  then have "sched_inv k3" using sched_inv_same[OF arm_timeout_same[OF r(2)]] by simp
  moreover have "k_sem k3 = k_sem k"
    using arm_timeout_frame[OF r(2)] r(1) by (auto simp: suspend_eq split: if_splits)
  ultimately show ?thesis using r(3,4) schedule_inv by simp
qed

lemma sem_release_inv [rt_inv]: "sched_inv k \<Longrightarrow> sched_inv (snd (rt_sem_release i k))"
  by (auto simp: rt_sem_release_def intro!: schedule_inv dequeue_inv)

lemma sem_control_inv [rt_inv]: "sched_inv k \<Longrightarrow> sched_inv (snd (rt_sem_control i cmd k))"
  by (auto simp: rt_sem_control_def Let_def split: sem_cmd.split intro!: schedule_inv resume_all_inv)

section \<open>Conservation of tokens\<close>

text \<open>Nobody waits for a semaphore that has tokens left.\<close>

definition sem_inv :: "nat \<Rightarrow> kernel \<Rightarrow> bool" where
  "sem_inv i k \<longleftrightarrow> (k_queue k (SemQ i) \<noteq> [] \<longrightarrow> sem_value (k_sem k i) = 0)"

text \<open>
  The runs of a system in which threads and interrupt handlers use semaphore \<open>i\<close>, starting from
  \<open>k0\<close>: \<open>g\<close> counts the tokens handed out (takes that returned at once, and waiters woken by a
  release), \<open>r\<close> the releases that reported success, \<open>l\<close> those among them that found waiters but could
  not wake the first one. Every outcome of a take and of a release is a rule. The last rule is any
  other activity of the kernel that leaves this semaphore and its wait list alone.
\<close>

inductive sem_run :: "nat \<Rightarrow> kernel \<Rightarrow> nat \<Rightarrow> nat \<Rightarrow> nat \<Rightarrow> kernel \<Rightarrow> bool" for i :: nat and k0 :: kernel where
  start: "sem_run i k0 0 0 0 k0"
| take: "sem_run i k0 g r l k \<Longrightarrow> sem_take i timeout sf k = Some (Done RT_EOK, k') \<Longrightarrow>
    sem_run i k0 (Suc g) r l k'"
| take_error: "sem_run i k0 g r l k \<Longrightarrow> sem_take i timeout sf k = Some (Done e, k') \<Longrightarrow> e \<noteq> RT_EOK \<Longrightarrow>
    sem_run i k0 g r l k'"
| take_block: "sem_run i k0 g r l k \<Longrightarrow> sem_take i timeout sf k = Some (Blocked c, k') \<Longrightarrow>
    sem_run i k0 g r l k'"
| hand_over: "sem_run i k0 g r l k \<Longrightarrow> k_queue k (SemQ i) = t # ts \<Longrightarrow> wake_ok k t \<Longrightarrow>
    rt_sem_release i k = (RT_EOK, k') \<Longrightarrow> sem_run i k0 (Suc g) (Suc r) l k'"
| lose: "sem_run i k0 g r l k \<Longrightarrow> k_queue k (SemQ i) = t # ts \<Longrightarrow> \<not> wake_ok k t \<Longrightarrow>
    rt_sem_release i k = (RT_EOK, k') \<Longrightarrow> sem_run i k0 g (Suc r) (Suc l) k'"
| release: "sem_run i k0 g r l k \<Longrightarrow> k_queue k (SemQ i) = [] \<Longrightarrow>
    rt_sem_release i k = (RT_EOK, k') \<Longrightarrow> sem_run i k0 g (Suc r) l k'"
| release_full: "sem_run i k0 g r l k \<Longrightarrow> rt_sem_release i k = (e, k') \<Longrightarrow> e \<noteq> RT_EOK \<Longrightarrow>
    sem_run i k0 g r l k'"
| timeout: "sem_run i k0 g r l k \<Longrightarrow> prio_ok (k_thread k t) \<Longrightarrow> thread_timeout t k = Some k' \<Longrightarrow>
    sem_run i k0 g r l k'"
| other: "sem_run i k0 g r l k \<Longrightarrow> sched_inv k' \<Longrightarrow> k_sem k' i = k_sem k i \<Longrightarrow>
    k_queue k' (SemQ i) = k_queue k (SemQ i) \<Longrightarrow> sem_run i k0 g r l k'"

text \<open>
  With the invariant of the scheduler, a waiter cannot be woken only because its timeout timer is set
  and has expired.
\<close>

lemma wake_fails_expired:
  assumes "sched_inv k" "t \<in> set (k_queue k (SemQ i))"
  shows "wake_ok k t \<longleftrightarrow> \<not> (th_ttmr_set (k_thread k t) \<and> \<not> tm_has RT_TIMER_FLAG_ACTIVATED (k_timer k (Thread_timer t)))"
  using lists_invD(2)[of k t "SemQ i"] assms by (auto simp: sched_inv_def wake_ok_def)

lemma timeout_frame:
  assumes "sched_inv k" "prio_ok (k_thread k t)" "thread_timeout t k = Some k'"
  shows "k_sem k' = k_sem k"
    "(\<And>p. q \<noteq> ReadyQ p) \<Longrightarrow> k_queue k' q = removeAll t (k_queue k q)"
proof -
  define k2 where "k2 = rt_sched_insert_thread t (node_remove t (set_error (- RT_ETIMEOUT) t k))"
  have s: "stat_suspended (k_thread k t)" and k': "k' = rt_sched_unlock_n_resched k2"
    using assms(3) by (simp_all add: thread_timeout_def rt_sched_thread_is_suspended_def Let_def k2_def
        split: if_splits)
  have "stat_of (k_thread k t) \<noteq> 2" using s stat_not_suspended(1) by blast
  then have inv2: "sched_inv k2" unfolding k2_def using assms
    by (intro reinsert_inv) (simp_all add: prio_ok_def stat_of_def)
  show "k_sem k' = k_sem k"
    by (simp add: k' rt_sched_unlock_n_resched_def) (simp add: k2_def)
  assume q: "\<And>p. q \<noteq> ReadyQ p"
  then show "k_queue k' q = removeAll t (k_queue k q)"
    using schedule_wait_queue[OF inv2 q] by (simp add: k' rt_sched_unlock_n_resched_def) (simp add: k2_def)
qed

lemma sem_run_inv:
  assumes "sem_run i k0 g r l k" "sched_inv k0" "sem_inv i k0"
  shows "sched_inv k \<and> sem_inv i k \<and> sem_value (k_sem k0 i) + r = sem_value (k_sem k i) + g + l"
  using assms
proof (induction rule: sem_run.induct)
  case start
  then show ?case by simp
next
  case (take g r l k timeout sf k')
  then show ?case using sem_take_done_ok[OF take.hyps(2)] by (auto simp: sem_inv_def)
next
  case (take_error g r l k timeout sf e k')
  then show ?case using sem_take_done_error[OF _ take_error.hyps(2,3)] by (auto simp: sem_inv_def)
next
  case (take_block g r l k timeout sf c k')
  then show ?case using sem_take_blocked[OF _ take_block.hyps(2)] by (auto simp: sem_inv_def)
next
  case (hand_over g r l k t ts k')
  then have inv: "sched_inv k" "sem_inv i k"
    "sem_value (k_sem k0 i) + r = sem_value (k_sem k i) + g + l" by auto
  have k': "k' = rt_schedule (snd (rt_susp_list_dequeue (SemQ i) RT_EOK k))"
    using hand_over.hyps(2,4) by (simp add: rt_sem_release_def)
  have "k_sem k' = k_sem k" by (simp add: k')
  then show ?case
    using sem_object.wake_first_schedule(1,2)[OF inv(1) hand_over.hyps(2,3), of 0, folded k'] inv(2,3)
      hand_over.hyps(2) by (auto simp: sem_inv_def)
next
  case (lose g r l k t ts k')
  then have inv: "sched_inv k" "sem_value (k_sem k i) = 0" "sem_value (k_sem k0 i) + r = sem_value (k_sem k i) + g + l"
    by (auto simp: sem_inv_def)
  have k': "k' = rt_schedule (snd (rt_susp_list_dequeue (SemQ i) RT_EOK k))"
    using lose.hyps(2,4) by (simp add: rt_sem_release_def)
  have "k_sem k' = k_sem k" by (simp add: k')
  then show ?case using inv schedule_inv[OF dequeue_inv[OF inv(1)]] by (simp add: sem_inv_def k')
next
  case (release g r l k k')
  then show ?case by (auto simp: rt_sem_release_def sem_inv_def split: if_splits)
next
  case (release_full g r l k e k')
  then show ?case by (auto simp: rt_sem_release_def split: if_splits)
next
  case (timeout g r l k t k')
  then have inv: "sched_inv k" by simp
  note tf = timeout_frame[OF inv timeout.hyps(2,3)]
  have "k_queue k' (SemQ i) = removeAll t (k_queue k (SemQ i))" using tf(2) by simp
  then show ?case using timeout timeout_inv[OF inv timeout.hyps(2,3)] tf(1) by (auto simp: sem_inv_def)
next
  case (other g r l k k')
  then show ?case by (simp add: sem_inv_def)
qed

section \<open>Properties\<close>

text \<open>
  C3. Conservation of tokens: over every run of takes, releases, timeouts and activity that leaves the
  semaphore alone, in any order and by any threads, the initial value plus the successful releases
  equals the tokens handed out, the current value, and the tokens lost, and nobody waits while tokens are
  left. No token is created, and a token is lost in exactly one situation: a release reports success while
  the timeout timer of the first waiter has expired and its handler has not run yet (the only reason for
  which a first waiter cannot be woken). Resetting or
  deleting the semaphore is not part of a run.
\<close>

theorem sem_conservation:
  assumes "sem_run i k0 g r l k" and "sched_inv k0" and "sem_inv i k0"
  shows "sem_value (k_sem k0 i) + r = sem_value (k_sem k i) + g + l \<and>
    (k_queue k (SemQ i) \<noteq> [] \<longrightarrow> sem_value (k_sem k i) = 0) \<and>
    (\<forall>t ts. k_queue k (SemQ i) = t # ts \<longrightarrow>
      wake_ok k t = (\<not> (th_ttmr_set (k_thread k t) \<and> \<not> tm_has RT_TIMER_FLAG_ACTIVATED (k_timer k (Thread_timer t)))))"
  using sem_run_inv[OF assms] wake_fails_expired[of k _ i] by (simp add: sem_inv_def)

definition sem_example :: kernel where
  "sem_example = sleep_example\<lparr>k_sem := (\<lambda>_. \<lparr>sem_value = 1, sem_max_value = 2, sem_flag = RT_IPC_FLAG_FIFO\<rparr>)\<rparr>"

lemma sem_example_facts:
  "sched_inv sem_example" "k_current sem_example = Some 1" "k_lock_nest sem_example = 0"
  "k_int_nest sem_example = 0" "stat_of (k_thread sem_example 1) = 3"
  "thread_timer_ok sem_example 1" "stat_of (k_thread sem_example 2) = 2" "sem_inv 0 sem_example"
proof -
  have "same_sched sleep_example sem_example" by (simp add: same_sched_def sem_example_def)
  then show "sched_inv sem_example" using sleep_example_facts(1) sched_inv_same by blast
  show "thread_timer_ok sem_example 1"
    using sleep_example_facts(6) by (simp add: sem_example_def thread_timer_ok_def)
qed (use sleep_example_facts in \<open>simp_all add: sem_example_def sem_inv_def\<close>,
    simp add: sleep_example_def sched_example_def kernel0_def)

theorem sem_conservation_witness:
  "\<exists>k. sem_run 0 sem_example 1 0 0 k \<and> sem_value (k_sem k 0) = 0"
proof -
  let ?k = "sem_upd 0 (\<lambda>s. s\<lparr>sem_value := sem_value s - 1\<rparr>) sem_example"
  have "scheduler_available True sem_example"
    using sem_example_facts by (simp add: scheduler_available_def rt_critical_level_def
        in_thread_context_def not_in_interrupt_def)
  then have "sem_take 0 0 RT_UNINTERRUPTIBLE sem_example = Some (Done 0, ?k)"
    by (simp add: sem_take_def sem_example_def)
  then have r: "sem_run 0 sem_example (Suc 0) 0 0 ?k" by (rule sem_run.take[OF sem_run.start])
  have "sem_value (k_sem sem_example 0) = 1" by (simp add: sem_example_def)
  then show ?thesis
    using sem_conservation [OF r sem_example_facts(1,8)] r by (intro exI[of _ ?k]) simp
qed

text \<open>
  Taking a semaphore from a running thread: with tokens left one is taken at once; without
  tokens and without waiting time the call fails with the timeout error and changes nothing;
  otherwise the caller is suspended on the wait list, can be woken, the highest ready thread runs,
  and the semaphore is unchanged.
\<close>

theorem sem_take_correct:
  assumes "sched_inv k" and "k_current k = Some t" and "k_lock_nest k = 0" and "k_int_nest k = 0"
    and "stat_of (k_thread k t) = RT_THREAD_RUNNING" and "thread_timer_ok k t"
    and "timeout < 0x7FFFFFFF" and "stat_of (k_thread k u) = RT_THREAD_READY"
  shows "if 0 < sem_value (k_sem k i)
    then rt_sem_take i timeout k = Some (Done RT_EOK, sem_upd i (\<lambda>s. s\<lparr>sem_value := sem_value s - 1\<rparr>) k)
    else if timeout = 0 then rt_sem_take i timeout k = Some (Done (- RT_ETIMEOUT), k)
    else \<exists>k'. rt_sem_take i timeout k = Some (Blocked (), k') \<and> sched_inv k' \<and> scheduled k' \<and>
      k_current k' \<noteq> Some t \<and> t \<in> set (k_queue k' (SemQ i)) \<and> wake_ok k' t \<and> k_sem k' = k_sem k"
proof -
  have av: "scheduler_available True k"
    using assms(2-4) by (simp add: scheduler_available_def rt_critical_level_def
        in_thread_context_def not_in_interrupt_def)
  define k1 where "k1 = set_error RT_EINTR t k"
  have k1: "sched_inv k1" "k_current k1 = Some t" "k_lock_nest k1 = 0" "stat_of (k_thread k1 t) = 3"
    "thread_timer_ok k1 t" "stat_of (k_thread k1 u) = 2" "k_sem k1 = k_sem k"
    using assms by (auto simp: k1_def thread_timer_ok_def stat_of_def)
  obtain k2 k3 where b: "rt_thread_suspend_to_list t (Some (SemQ i)) (sem_flag (k_sem k1 i)) RT_UNINTERRUPTIBLE k1
      = Some (RT_EOK, k2)"
    "arm_timeout t timeout k2 = Some k3" "sched_inv (rt_schedule k3)" "scheduled (rt_schedule k3)"
    "k_current (rt_schedule k3) \<noteq> Some t" "t \<in> set (k_queue (rt_schedule k3) (SemQ i))"
    "wake_ok (rt_schedule k3) t"
    using sem_object.block_on[OF k1(1-5) assms(7) k1(6)] by metis
  have "rt_sem_take i timeout k = Some (Blocked (), rt_schedule k3)"
    if "sem_value (k_sem k i) = 0" "timeout \<noteq> 0"
    using that av b(1,2) assms(2)
    by (simp add: rt_sem_take_def sem_take_def rt_thread_self_def k1_def[symmetric])
  moreover have "k_sem (rt_schedule k3) = k_sem k"
    using arm_timeout_frame[OF b(2)] b(1) k1 by (auto simp: suspend_eq split: if_splits)
  ultimately show ?thesis
    using b(3-7) av by (auto simp: rt_sem_take_def sem_take_def)
qed

theorem sem_take_correct_witness:
  "rt_sem_take 0 100 sem_example = Some (Done 0, sem_upd 0 (\<lambda>s. s\<lparr>sem_value := sem_value s - 1\<rparr>) sem_example)"
proof -
  have "0 < sem_value (k_sem sem_example 0)" by (simp add: sem_example_def)
  then show ?thesis using sem_take_correct [OF sem_example_facts(1-6) _ sem_example_facts(7), of 100 0] by simp
qed

text \<open>
  Releasing a semaphore: the first waiter, when it can be woken, gets the token: it leaves the
  wait list, becomes ready or running, and its interrupted call returns success, the count
  staying as it is; without waiters the count goes up by one, or the call reports a full semaphore
  and changes nothing.
\<close>

theorem sem_release_correct:
  assumes "sched_inv k" and "k_queue k (SemQ i) \<noteq> [] \<longrightarrow> wake_ok k (hd (k_queue k (SemQ i)))"
  shows "case k_queue k (SemQ i) of
     [] \<Rightarrow> rt_sem_release i k =
       (if sem_value (k_sem k i) < sem_max_value (k_sem k i)
        then (RT_EOK, sem_upd i (\<lambda>s. s\<lparr>sem_value := sem_value s + 1\<rparr>) k) else (- RT_EFULL, k))
   | t # ts \<Rightarrow> \<exists>k'. rt_sem_release i k = (RT_EOK, k') \<and> sched_inv k' \<and> k_sem k' = k_sem k \<and>
       k_queue k' (SemQ i) = ts \<and> sem_take_resume t k' = RT_EOK \<and>
       stat_of (k_thread k' t) \<in> {RT_THREAD_READY, RT_THREAD_RUNNING}"
proof (cases "k_queue k (SemQ i)")
  case Nil
  then show ?thesis by (simp add: rt_sem_release_def)
next
  case (Cons t ts)
  then have w: "wake_ok k t" using assms(2) by simp
  show ?thesis
    using Cons sem_object.wake_first_schedule[OF assms(1) Cons w, of 0]
    by (simp add: rt_sem_release_def sem_take_resume_def)
qed

theorem sem_release_correct_witness:
  "\<exists>k'. rt_sem_release 0 wait_example = (0, k') \<and> k_queue k' (SemQ 0) = [3] \<and>
     sem_take_resume 2 k' = 0"
proof -
  have q: "k_queue wait_example (SemQ 0) = [2, 3]" by (simp add: wait_example_def kernel0_def)
  then show ?thesis
    using sem_release_correct [OF wait_example_inv, of 0] wait_example_wake[of 2] by auto
qed

text \<open>
  C32. The lost token: if the timeout timer of the first waiter has expired but its handler has not
  run yet, a release reports success although it neither wakes the waiter (which stays suspended
  and first in the list, its timer flag cleared) nor counts the token.
\<close>

theorem sem_release_loses_token:
  assumes "sched_inv k" and "k_queue k (SemQ i) = t # ts" and "th_ttmr_set (k_thread k t)"
    and "\<not> tm_has RT_TIMER_FLAG_ACTIVATED (k_timer k (Thread_timer t))"
  shows "\<exists>k'. rt_sem_release i k = (RT_EOK, k') \<and> k_sem k' = k_sem k \<and>
    k_queue k' (SemQ i) = t # ts \<and> stat_suspended (k_thread k' t)"
proof -
  define k1 where "k1 = snd (rt_susp_list_dequeue (SemQ i) RT_EOK k)"
  have s: "stat_suspended (k_thread k t)"
    using lists_invD(2)[of k t "SemQ i"] assms(1,2) by (simp add: sched_inv_def)
  have q1: "k_queue k1 = k_queue k"
    using assms s by (simp add: k1_def rt_susp_list_dequeue_def rt_sched_thread_ready_def
        rt_sched_thread_is_suspended_def rt_sched_thread_timer_stop_def rt_timer_stop_def)
  have inv1: "sched_inv k1" unfolding k1_def by (rule dequeue_inv[OF assms(1)])
  have q: "k_queue (rt_schedule k1) (SemQ i) = t # ts"
    using schedule_wait_queue[OF inv1, of "SemQ i"] q1 assms(2) by simp
  then have "stat_suspended (k_thread (rt_schedule k1) t)"
    using lists_invD(2)[of "rt_schedule k1" t "SemQ i"] schedule_inv[OF inv1] by (simp add: sched_inv_def)
  then show ?thesis using q assms(2) by (simp add: rt_sem_release_def k1_def)
qed

definition lost_example :: kernel where
  "lost_example = thread_upd 2 (\<lambda>th. th\<lparr>th_ttmr_set := True\<rparr>) wait_example"

theorem sem_release_loses_token_witness:
  "\<exists>k'. rt_sem_release 0 lost_example = (0, k') \<and> sem_value (k_sem k' 0) = 0 \<and>
     k_queue k' (SemQ 0) = [2, 3] \<and> stat_suspended (k_thread k' 2)"
proof -
  have "same_sched wait_example lost_example"
    unfolding lost_example_def by (rule same_sched_upd) (simp_all add: stat_of_def)
  then have inv: "sched_inv lost_example" using wait_example_inv sched_inv_same by blast
  have "k_queue lost_example (SemQ 0) = [2, 3]" "th_ttmr_set (k_thread lost_example 2)"
    "\<not> tm_has 1 (k_timer lost_example (Thread_timer 2))" "sem_value (k_sem lost_example 0) = 0"
    by (simp_all add: lost_example_def wait_example_def kernel0_def tm_has_def)
  then show ?thesis using sem_release_loses_token [OF inv, of 0 2 "[3]"] by auto
qed

text \<open>
  The value limit: \<^verbatim>\<open>RT_IPC_CMD_SET_VLIMIT\<close> stores any limit from 1 to 65535 (the argument
  modulo \<open>2 ^ 16\<close>) and leaves the value alone, so a value above the new limit stays and every
  following release without waiters fails until it has been taken down.
\<close>

theorem sem_set_vlimit_keeps_value:
  assumes "k_queue k (SemQ i) = []" and "rt_sem_control i (SEM_CMD_SET_VLIMIT arg) k = (e, k')"
  shows "if arg AND 0xFFFF = 0 then e = - RT_EINVAL \<and> k' = k
    else e = RT_EOK \<and> sem_value (k_sem k' i) = sem_value (k_sem k i) \<and>
      sem_max_value (k_sem k' i) = unat (arg AND 0xFFFF) \<and>
      (unat (arg AND 0xFFFF) \<le> sem_value (k_sem k i) \<longrightarrow> rt_sem_release i k' = (- RT_EFULL, k'))"
proof -
  have m: "unat (ucast arg :: u16) = unat (arg AND 0xFFFF)"
  proof -
    have f: "(0xFFFF :: u32) = mask 16" by (simp add: mask_eq_exp_minus_1)
    have "unat (ucast arg :: u16) = take_bit 16 (unat arg)"
      by (simp add: unsigned_ucast_eq)
    also have "\<dots> = unat (take_bit 16 arg)" by (simp add: unsigned_take_bit_eq)
    finally show ?thesis by (simp only: f take_bit_eq_mask)
  qed
  have b: "unat (ucast arg :: u16) < 65536" using unsigned_less[of "ucast arg :: u16", where ?'a = nat] by simp
  have z: "unat (arg AND 0xFFFF) = 0 \<longleftrightarrow> arg AND 0xFFFF = 0" by (rule unat_eq_0)
  show ?thesis
    using assms b z by (auto simp: rt_sem_control_def Let_def m rt_sem_release_def split: if_splits)
qed

theorem sem_set_vlimit_keeps_value_witness:
  "rt_sem_control 0 (SEM_CMD_SET_VLIMIT 0x10001) sem_example =
     (0, sem_upd 0 (\<lambda>s. s\<lparr>sem_max_value := 1\<rparr>) sem_example) \<and>
   fst (rt_sem_release 0 (snd (rt_sem_control 0 (SEM_CMD_SET_VLIMIT 0x10001) sem_example))) = - 3"
proof -
  have q: "k_queue sem_example (SemQ 0) = []" "sem_value (k_sem sem_example 0) = 1"
    by (simp_all add: sem_example_def sleep_example_def sched_example_def kernel0_def)
  then have c: "rt_sem_control 0 (SEM_CMD_SET_VLIMIT 0x10001) sem_example =
     (0, sem_upd 0 (\<lambda>s. s\<lparr>sem_max_value := 1\<rparr>) sem_example)"
    by (simp add: rt_sem_control_def)
  show ?thesis using sem_set_vlimit_keeps_value [OF q(1) c] q(2) c by simp
qed

end
