(* ===== verification/Mutex.thy ===== *)
theory Mutex
  imports Blocking
begin

text \<open>
  Mutexes with recursive locking, priority inheritance and priority ceilings (\<^verbatim>\<open>src/ipc.c\<close>,
  \<^verbatim>\<open>rt_mutex_*\<close>). The spin lock of a mutex is, on one core, the scheduler lock, so releasing it
  reschedules. The walk along a chain of blocked owners (\<open>update_loop\<close>) is a partial function:
  it is shown to end for every acyclic chain. Dynamic creation is not modelled, the object
  container is not part of the state.
\<close>

section \<open>Priority propagation\<close>

abbreviation (input) PRIO_NONE :: nat where "PRIO_NONE \<equiv> 255"
abbreviation (input) RT_MUTEX_HOLD_MAX :: nat where "RT_MUTEX_HOLD_MAX \<equiv> 255"

definition rt_spin_lock :: "kernel \<Rightarrow> kernel" where
  "rt_spin_lock k = snd (rt_enter_critical k)"

definition rt_spin_unlock :: "kernel \<Rightarrow> kernel" where
  "rt_spin_unlock k = rt_exit_critical k"

definition head_priority :: "nat \<Rightarrow> kernel \<Rightarrow> nat" where
  "head_priority m k =
     (case k_queue k (MutexQ m) of [] \<Rightarrow> PRIO_NONE | t # _ \<Rightarrow> rt_sched_thread_get_curr_prio t k)"

definition mutex_update_priority :: "nat \<Rightarrow> kernel \<Rightarrow> kernel" where
  "mutex_update_priority m k = mutex_upd m (\<lambda>mx. mx\<lparr>mx_priority := head_priority m k\<rparr>) k"

definition thread_get_mutex_priority :: "tid \<Rightarrow> kernel \<Rightarrow> nat" where
  "thread_get_mutex_priority t k =
     foldl (\<lambda>priority m.
        let mutex_prio = mx_priority (k_mutex k m);
            mutex_prio' = (if mutex_prio < mx_ceiling_priority (k_mutex k m) then mutex_prio
                           else mx_ceiling_priority (k_mutex k m))
        in if priority > mutex_prio' then mutex_prio' else priority)
       (rt_sched_thread_get_init_prio t k) (th_taken (k_thread k t))"

text \<open>
  One round of the loop of \<^verbatim>\<open>_thread_update_priority\<close>: the thread \<open>t\<close>, whose priority has just
  changed, is requeued on the mutex it waits for, and the owner's priority follows. The result is
  the owner if its priority changed. \<open>None\<close> is a failed assertion or a mutex without owner.
\<close>

definition update_step :: "tid \<Rightarrow> kernel \<Rightarrow> (tid option \<times> kernel) option" where
  "update_step t k =
     (if \<not> rt_sched_thread_is_suspended t k then Some (None, k)
      else case th_pending (k_thread k t) of
        None \<Rightarrow> Some (None, k)
      | Some (Mutex_object m) \<Rightarrow>
          let k1 = node_remove t k;
              k2 = rt_susp_list_enqueue (MutexQ m) t (mx_flag (k_mutex k1 m)) k1;
              k3 = mutex_update_priority m k2
          in case mx_owner (k_mutex k3 m) of
               None \<Rightarrow> None
             | Some owner \<Rightarrow>
                 let mutex_priority = thread_get_mutex_priority owner k3
                 in if mutex_priority \<noteq> rt_sched_thread_get_curr_prio owner k3
                    then do { k4 \<leftarrow> rt_sched_thread_change_priority owner mutex_priority k3;
                              Some (Some owner, k4) }
                    else Some (None, k3))"

partial_function (option) update_loop :: "tid \<Rightarrow> kernel \<Rightarrow> kernel option" where
  "update_loop t k = do {
     (next, k1) \<leftarrow> update_step t k;
     case next of None \<Rightarrow> Some k1 | Some owner \<Rightarrow> update_loop owner k1
   }"

definition thread_update_priority :: "tid \<Rightarrow> nat \<Rightarrow> kernel \<Rightarrow> kernel option" where
  "thread_update_priority t priority k = do {
     k1 \<leftarrow> rt_sched_thread_change_priority t priority k;
     update_loop t k1
   }"

definition check_and_update_prio :: "tid \<Rightarrow> nat \<Rightarrow> kernel \<Rightarrow> (bool \<times> kernel) option" where
  "check_and_update_prio t m k =
     (if mx_ceiling_priority (k_mutex k m) \<noteq> PRIO_NONE \<or>
         rt_sched_thread_get_curr_prio t k = mx_priority (k_mutex k m)
      then do {
        k1 \<leftarrow> rt_sched_thread_change_priority t (thread_get_mutex_priority t k) k;
        Some (True, k1)
      }
      else Some (False, k))"

section \<open>Initialisation and removal\<close>

text \<open>\<^verbatim>\<open>rt_list_remove(&mutex->taken_list)\<close>\<close>

definition taken_remove :: "nat \<Rightarrow> kernel \<Rightarrow> kernel" where
  "taken_remove m k =
     k\<lparr>k_thread := (\<lambda>t. (k_thread k t)\<lparr>th_taken := removeAll m (th_taken (k_thread k t))\<rparr>)\<rparr>"

definition rt_mutex_init :: "nat \<Rightarrow> kernel \<Rightarrow> rt_err_t \<times> kernel" where
  "rt_mutex_init m k =
     (RT_EOK, mutex_upd m (\<lambda>_. \<lparr>mx_ceiling_priority = PRIO_NONE, mx_priority = PRIO_NONE, mx_hold = 0,
        mx_owner = None, mx_flag = RT_IPC_FLAG_PRIO\<rparr>) (k\<lparr>k_queue := (k_queue k)(MutexQ m := [])\<rparr>))"

text \<open>\<open>obj\<close> is the result of the allocation.\<close>

definition rt_mutex_create :: "nat option \<Rightarrow> kernel \<Rightarrow> (nat option \<times> kernel) option" where
  "rt_mutex_create obj k =
     (if not_in_interrupt k
      then Some (case obj of
          None \<Rightarrow> (None, k)
        | Some m \<Rightarrow> (Some m, mutex_upd m (\<lambda>_. \<lparr>mx_ceiling_priority = PRIO_NONE, mx_priority = PRIO_NONE, mx_hold = 0,
            mx_owner = None, mx_flag = RT_IPC_FLAG_PRIO\<rparr>) (k\<lparr>k_queue := (k_queue k)(MutexQ m := [])\<rparr>)))
      else None)"

definition mutex_before_delete_detach :: "nat \<Rightarrow> kernel \<Rightarrow> kernel option" where
  "mutex_before_delete_detach m k =
     (let k1 = taken_remove m (rt_susp_list_resume_all (MutexQ m) RT_ERROR (rt_spin_lock k))
      in case mx_owner (k_mutex k1 m) of
           None \<Rightarrow> Some (rt_spin_unlock k1)
         | Some owner \<Rightarrow> do {
             (need_schedule, k2) \<leftarrow> check_and_update_prio owner m k1;
             let k3 = (if need_schedule then rt_sched_unlock_n_resched k2 else k2);
             Some (rt_spin_unlock k3)
           })"

definition rt_mutex_detach :: "nat \<Rightarrow> kernel \<Rightarrow> (rt_err_t \<times> kernel) option" where
  "rt_mutex_detach m k = do { k1 \<leftarrow> mutex_before_delete_detach m k; Some (RT_EOK, k1) }"

definition rt_mutex_delete :: "nat \<Rightarrow> kernel \<Rightarrow> (rt_err_t \<times> kernel) option" where
  "rt_mutex_delete m k =
     (if not_in_interrupt k
      then do { k1 \<leftarrow> mutex_before_delete_detach m k; Some (RT_EOK, k1) } else None)"

text \<open>Recomputing the priorities when a waiter has left the list of a mutex.\<close>

definition waiter_left :: "nat \<Rightarrow> bool \<Rightarrow> kernel \<Rightarrow> kernel option" where
  "waiter_left m need_update k =
     (let k1 = mutex_update_priority m k
      in case (need_update, mx_owner (k_mutex k1 m)) of
           (True, Some owner) \<Rightarrow>
             let priority = thread_get_mutex_priority owner k1
             in if priority \<noteq> rt_sched_thread_get_curr_prio owner k1
                then thread_update_priority owner priority k1 else Some k1
         | _ \<Rightarrow> Some k1)"

definition same_prio_as_owner :: "nat \<Rightarrow> tid \<Rightarrow> kernel \<Rightarrow> bool" where
  "same_prio_as_owner m t k =
     (case mx_owner (k_mutex k m) of None \<Rightarrow> False
      | Some owner \<Rightarrow> rt_sched_thread_get_curr_prio owner k = rt_sched_thread_get_curr_prio t k)"

definition rt_mutex_drop_thread :: "nat \<Rightarrow> tid \<Rightarrow> kernel \<Rightarrow> kernel option" where
  "rt_mutex_drop_thread m t k =
     (if \<not> in_thread_context k then None
      else let k1 = rt_spin_lock k
           in if th_pending (k_thread k1 t) \<noteq> Some (Mutex_object m) then None
              else do {
                let k2 = node_remove t k1;
                k3 \<leftarrow> waiter_left m (same_prio_as_owner m t k2) k2;
                Some (rt_spin_unlock k3)
              })"

definition rt_mutex_setprioceiling :: "nat \<Rightarrow> nat \<Rightarrow> kernel \<Rightarrow> (nat \<times> kernel) option" where
  "rt_mutex_setprioceiling m priority k =
     (if \<not> in_thread_context k then None
      else if priority < RT_THREAD_PRIORITY_MAX
      then let k1 = rt_spin_lock k;
               ret_priority = mx_ceiling_priority (k_mutex k1 m);
               k2 = mutex_upd m (\<lambda>mx. mx\<lparr>mx_ceiling_priority := priority\<rparr>) k1
           in case mx_owner (k_mutex k2 m) of
                None \<Rightarrow> Some (ret_priority, rt_spin_unlock k2)
              | Some owner \<Rightarrow>
                  let highest_prio = thread_get_mutex_priority owner k2
                  in if highest_prio \<noteq> rt_sched_thread_get_curr_prio owner k2
                     then do { k3 \<leftarrow> thread_update_priority owner highest_prio k2;
                               Some (ret_priority, rt_spin_unlock k3) }
                     else Some (ret_priority, rt_spin_unlock k2)
      else Some (0xFF, rt_set_errno (- RT_EINVAL) k))"

definition rt_mutex_getprioceiling :: "nat \<Rightarrow> kernel \<Rightarrow> (nat \<times> kernel) option" where
  "rt_mutex_getprioceiling m k =
     (if \<not> in_thread_context k then None
      else let k1 = rt_spin_lock k
           in Some (mx_ceiling_priority (k_mutex k1 m), rt_spin_unlock k1))"

definition rt_mutex_control :: "nat \<Rightarrow> kernel \<Rightarrow> rt_err_t \<times> kernel" where
  "rt_mutex_control m k = (- RT_EINVAL, k)"

section \<open>Taking\<close>

definition taken_insert :: "tid \<Rightarrow> nat \<Rightarrow> kernel \<Rightarrow> kernel" where
  "taken_insert t m = thread_upd t (\<lambda>th. th\<lparr>th_taken := m # th_taken th\<rparr>)"

definition set_pending :: "tid \<Rightarrow> rt_object_ref option \<Rightarrow> kernel \<Rightarrow> kernel" where
  "set_pending t obj = thread_upd t (\<lambda>th. th\<lparr>th_pending := obj\<rparr>)"

text \<open>The free mutex becomes the caller's; the caller is raised to the ceiling.\<close>

definition mutex_acquire :: "nat \<Rightarrow> tid \<Rightarrow> kernel \<Rightarrow> kernel option" where
  "mutex_acquire m t k = do {
     let k1 = mutex_upd m (\<lambda>mx. mx\<lparr>mx_owner := Some t, mx_priority := PRIO_NONE, mx_hold := 1\<rparr>) k;
     let ceiling = mx_ceiling_priority (k_mutex k1 m);
     k2 \<leftarrow> (if ceiling \<noteq> PRIO_NONE \<and> ceiling < rt_sched_thread_get_curr_prio t k1
            then thread_update_priority t ceiling k1 else Some k1);
     Some (taken_insert t m k2)
   }"

text \<open>The caller waits: the owner inherits its priority when that is higher.\<close>

definition mutex_wait :: "nat \<Rightarrow> tid \<Rightarrow> tid \<Rightarrow> kernel \<Rightarrow> kernel option" where
  "mutex_wait m t owner k =
     (let k1 = set_pending t (Some (Mutex_object m)) k;
          priority = rt_sched_thread_get_curr_prio t k1
      in if priority < mx_priority (k_mutex k1 m)
         then let k2 = mutex_upd m (\<lambda>mx. mx\<lparr>mx_priority := priority\<rparr>) k1
              in if priority < rt_sched_thread_get_curr_prio owner k2
                 then thread_update_priority owner priority k2 else Some k2
         else Some k1)"

definition mutex_take ::
  "nat \<Rightarrow> int \<Rightarrow> suspend_flag \<Rightarrow> kernel \<Rightarrow> ((rt_err_t, unit) flow \<times> kernel) option" where
  "mutex_take m timeout suspend_flag k =
     (if \<not> scheduler_available True k then None
      else case rt_thread_self k of
        None \<Rightarrow> None
      | Some t \<Rightarrow>
          let k1 = set_error RT_EOK t (rt_spin_lock k)
          in case mx_owner (k_mutex k1 m) of
               None \<Rightarrow> do {
                 k2 \<leftarrow> mutex_acquire m t k1;
                 Some (Done RT_EOK, rt_spin_unlock k2)
               }
             | Some owner \<Rightarrow>
                 if owner = t
                 then if mx_hold (k_mutex k1 m) < RT_MUTEX_HOLD_MAX
                      then Some (Done RT_EOK,
                             rt_spin_unlock (mutex_upd m (\<lambda>mx. mx\<lparr>mx_hold := mx_hold mx + 1\<rparr>) k1))
                      else Some (Done (- RT_EFULL), rt_spin_unlock k1)
                 else if timeout = 0
                 then Some (Done (- RT_ETIMEOUT), rt_spin_unlock (set_error RT_ETIMEOUT t k1))
                 else do {
                   (ret, k2) \<leftarrow> rt_thread_suspend_to_list t (Some (MutexQ m)) (mx_flag (k_mutex k1 m))
                                  suspend_flag k1;
                   if ret \<noteq> RT_EOK then Some (Done ret, rt_spin_unlock k2)
                   else do {
                     k3 \<leftarrow> mutex_wait m t owner k2;
                     k4 \<leftarrow> arm_timeout t timeout k3;
                     Some (Blocked (), resched_if_current t (rt_spin_unlock k4))
                   }
                 })"

text \<open>The caller runs again: it is the owner, or it gave up and the priorities are recomputed.\<close>

definition mutex_take_resume :: "nat \<Rightarrow> tid \<Rightarrow> kernel \<Rightarrow> (rt_err_t \<times> kernel) option" where
  "mutex_take_resume m t k =
     (let k1 = rt_spin_lock (resched_if_current t k);
          ret = th_error (k_thread k1 t)
      in if ret = RT_EOK
         then if mx_owner (k_mutex k1 m) = Some t then Some (RT_EOK, rt_spin_unlock k1) else None
         else if mx_owner (k_mutex k1 m) = Some t then None
         else do {
           k2 \<leftarrow> waiter_left m (same_prio_as_owner m t k1) k1;
           Some (if ret > 0 then - ret else ret, set_pending t None (rt_spin_unlock k2))
         })"

definition rt_mutex_take :: "nat \<Rightarrow> int \<Rightarrow> kernel \<Rightarrow> ((rt_err_t, unit) flow \<times> kernel) option" where
  "rt_mutex_take m time = mutex_take m time RT_UNINTERRUPTIBLE"

definition rt_mutex_take_interruptible ::
  "nat \<Rightarrow> int \<Rightarrow> kernel \<Rightarrow> ((rt_err_t, unit) flow \<times> kernel) option" where
  "rt_mutex_take_interruptible m time = mutex_take m time RT_INTERRUPTIBLE"

definition rt_mutex_take_killable ::
  "nat \<Rightarrow> int \<Rightarrow> kernel \<Rightarrow> ((rt_err_t, unit) flow \<times> kernel) option" where
  "rt_mutex_take_killable m time = mutex_take m time RT_KILLABLE"

definition rt_mutex_trytake :: "nat \<Rightarrow> kernel \<Rightarrow> ((rt_err_t, unit) flow \<times> kernel) option" where
  "rt_mutex_trytake m = rt_mutex_take m 0"

section \<open>Releasing\<close>

text \<open>
  The loop that looks for a waiter it can wake; each round takes one thread off the list, so the
  length of the list bounds the rounds. \<open>None\<close> is the failed assertion that waiters are suspended.
\<close>

primrec next_owner :: "nat \<Rightarrow> nat \<Rightarrow> kernel \<Rightarrow> (tid option \<times> kernel) option" where
  "next_owner 0 m k = Some (None, k)"
| "next_owner (Suc n) m k =
     (case k_queue k (MutexQ m) of
        [] \<Rightarrow> Some (None, k)
      | t # _ \<Rightarrow>
          if \<not> rt_sched_thread_is_suspended t k then None
          else let (error, k1) = rt_sched_thread_ready t (node_remove t k)
               in if error \<noteq> RT_EOK then next_owner n m k1 else Some (Some t, k1))"

definition mutex_hand_over :: "nat \<Rightarrow> tid \<Rightarrow> kernel \<Rightarrow> kernel" where
  "mutex_hand_over m t k =
     mutex_update_priority m (set_pending t None (taken_insert t m
       (mutex_upd m (\<lambda>mx. mx\<lparr>mx_owner := Some t, mx_hold := 1\<rparr>) k)))"

definition mutex_free :: "nat \<Rightarrow> kernel \<Rightarrow> kernel" where
  "mutex_free m = mutex_upd m (\<lambda>mx. mx\<lparr>mx_owner := None, mx_priority := PRIO_NONE\<rparr>)"

definition rt_mutex_release :: "nat \<Rightarrow> kernel \<Rightarrow> (rt_err_t \<times> kernel) option" where
  "rt_mutex_release m k =
     (if \<not> in_thread_context k then None
      else case rt_thread_self k of
        None \<Rightarrow> None
      | Some t \<Rightarrow>
          let k1 = rt_spin_lock k
          in if mx_owner (k_mutex k1 m) \<noteq> Some t
             then Some (- RT_ERROR, rt_spin_unlock (set_error (- RT_ERROR) t k1))
             else let k2 = mutex_upd m (\<lambda>mx. mx\<lparr>mx_hold := (mx_hold mx + 255) mod 256\<rparr>) k1
                  in if mx_hold (k_mutex k2 m) \<noteq> 0 then Some (RT_EOK, rt_spin_unlock k2)
                     else do {
                       (need_schedule, k3) \<leftarrow> check_and_update_prio t m (taken_remove m k2);
                       (next, k4) \<leftarrow> next_owner (length (k_queue k3 (MutexQ m))) m k3;
                       case next of
                         Some next_thread \<Rightarrow>
                           Some (RT_EOK, resched_if_current t (rt_spin_unlock (mutex_hand_over m next_thread k4)))
                       | None \<Rightarrow>
                           let k5 = rt_spin_unlock (mutex_free m k4)
                           in Some (RT_EOK, if need_schedule then resched_if_current t k5 else k5)
                     })"

section \<open>What priority propagation leaves alone\<close>

definition prio_frame :: "kernel \<Rightarrow> kernel \<Rightarrow> bool" where
  "prio_frame k k' \<longleftrightarrow> k_current k' = k_current k \<and> k_lock_nest k' = k_lock_nest k \<and>
     k_int_nest k' = k_int_nest k \<and> k_tick k' = k_tick k \<and> k_timer k' = k_timer k \<and>
     (\<forall>t. th_taken (k_thread k' t) = th_taken (k_thread k t) \<and>
          th_pending (k_thread k' t) = th_pending (k_thread k t) \<and>
          th_error (k_thread k' t) = th_error (k_thread k t) \<and>
          th_ttmr_set (k_thread k' t) = th_ttmr_set (k_thread k t) \<and>
          th_init_priority (k_thread k' t) = th_init_priority (k_thread k t)) \<and>
     (\<forall>m. mx_owner (k_mutex k' m) = mx_owner (k_mutex k m) \<and>
          mx_hold (k_mutex k' m) = mx_hold (k_mutex k m) \<and>
          mx_ceiling_priority (k_mutex k' m) = mx_ceiling_priority (k_mutex k m) \<and>
          mx_flag (k_mutex k' m) = mx_flag (k_mutex k m))"

lemma prio_frame_refl [simp]: "prio_frame k k"
  by (simp add: prio_frame_def)

lemma prio_frame_trans: "prio_frame a b \<Longrightarrow> prio_frame b c \<Longrightarrow> prio_frame a c"
  by (simp add: prio_frame_def)

lemma mutex_upd_frame [simp]:
  "k_mutex (mutex_upd m f k) = (k_mutex k)(m := f (k_mutex k m))"
  "k_queue (mutex_upd m f k) = k_queue k"
  "k_thread (mutex_upd m f k) = k_thread k"
  "k_current (mutex_upd m f k) = k_current k"
  "k_lock_nest (mutex_upd m f k) = k_lock_nest k"
  "k_int_nest (mutex_upd m f k) = k_int_nest k"
  "k_timer (mutex_upd m f k) = k_timer k"
  "k_tick (mutex_upd m f k) = k_tick k"
  by (simp_all add: mutex_upd_def)

lemma mutex_upd_same [simp]: "same_sched k (mutex_upd m f k)"
  by (simp add: same_sched_def mutex_upd_def)

lemma mutex_upd_inv [simp]: "sched_inv (mutex_upd m f k) = sched_inv k"
  by (rule sched_inv_same) simp

lemma change_priority_frame:
  assumes "rt_sched_thread_change_priority t p k = Some k'"
  shows "prio_frame k k'" "k_mutex k' = k_mutex k"
  using assms
  by (auto simp: rt_sched_thread_change_priority_def Let_def set_stat_def prio_frame_def split: if_splits)

lemma mutex_update_priority_frame [simp]: "prio_frame k (mutex_update_priority m k)"
  by (simp add: mutex_update_priority_def prio_frame_def)

lemma update_step_frame:
  assumes "update_step t k = Some (n, k')"
  shows "prio_frame k k'"
proof -
  have r: "prio_frame k (mutex_update_priority m (rt_susp_list_enqueue q t f (node_remove t k)))" for m q f
    by (rule prio_frame_trans[OF _ mutex_update_priority_frame]) (simp add: prio_frame_def, simp add: node_remove_def)
  show ?thesis
    using assms r change_priority_frame(1) prio_frame_trans
    by (auto simp: update_step_def Let_def split: if_splits option.splits rt_object_ref.splits bind_splits) blast
qed

lemmas update_loop_induct = update_loop.raw_induct [rotated, consumes 1, case_names step]

lemma update_loop_frame: "update_loop t k = Some k' \<Longrightarrow> prio_frame k k'"
proof (induction rule: update_loop_induct)
  case (step f t k k')
  from step.hyps obtain n k1 where s: "update_step t k = Some (n, k1)"
    "(case n of None \<Rightarrow> Some k1 | Some owner \<Rightarrow> f owner k1) = Some k'"
    by (auto split: bind_splits)
  then show ?case
    using update_step_frame[OF s(1)] step.IH prio_frame_trans by (auto split: option.splits)
qed

lemma thread_update_priority_frame:
  "thread_update_priority t p k = Some k' \<Longrightarrow> prio_frame k k'"
  using change_priority_frame(1) update_loop_frame prio_frame_trans
  by (fastforce simp: thread_update_priority_def split: bind_splits)

lemma node_enqueue_inv:
  assumes "sched_inv k" "prio_ok (k_thread k t)" "stat_suspended (k_thread k t)" "\<And>p. q \<noteq> ReadyQ p"
  shows "sched_inv (rt_susp_list_enqueue q t f (node_remove t k))"
proof -
  have "stat_of (k_thread k t) \<noteq> 2" using assms(3) stat_not_suspended(1) by blast
  then have "off_inv t (node_remove t k)" using assms(1) by (intro node_remove_off) (simp_all add: sched_inv_def)
  then have "lists_inv (rt_susp_list_enqueue q t f (node_remove t k))"
    using assms by (intro enqueue_inv) simp_all
  then show ?thesis using assms(1) by (simp add: sched_inv_def cur_ok_def)
qed

lemma mutex_update_priority_inv [simp]: "sched_inv (mutex_update_priority m k) = sched_inv k"
  by (simp add: mutex_update_priority_def)

lemma update_step_inv:
  assumes "sched_inv k" "prio_ok (k_thread k t)" "update_step t k = Some (n, k')"
  shows "sched_inv k' \<and> (\<forall>owner. n = Some owner \<longrightarrow> prio_ok (k_thread k' owner))"
proof (cases "stat_suspended (k_thread k t) \<and> th_pending (k_thread k t) \<noteq> None")
  case False
  then show ?thesis
    using assms by (auto simp: update_step_def rt_sched_thread_is_suspended_def split: if_splits)
next
  case True
  then obtain m where m: "th_pending (k_thread k t) = Some (Mutex_object m)"
    by (metis not_None_eq rt_object_ref.exhaust)
  define k3 where "k3 = mutex_update_priority m
    (rt_susp_list_enqueue (MutexQ m) t (mx_flag (k_mutex k m)) (node_remove t k))"
  have inv3: "sched_inv k3"
    using assms(1,2) True by (simp add: k3_def node_enqueue_inv)
  show ?thesis
    using assms(3) True m inv3 change_priority_inv(1,3)[OF inv3]
    by (auto simp: update_step_def rt_sched_thread_is_suspended_def Let_def k3_def[symmetric]
        split: option.splits if_splits bind_splits)
qed

lemma update_loop_inv:
  "update_loop t k = Some k' \<Longrightarrow> sched_inv k \<Longrightarrow> prio_ok (k_thread k t) \<Longrightarrow> sched_inv k'"
proof (induction rule: update_loop_induct)
  case (step f t k k')
  from step.hyps obtain n k1 where s: "update_step t k = Some (n, k1)"
    "(case n of None \<Rightarrow> Some k1 | Some owner \<Rightarrow> f owner k1) = Some k'"
    by (auto split: bind_splits)
  then show ?case
    using update_step_inv[OF step.prems s(1)] step.IH by (auto split: option.splits)
qed

lemma thread_update_priority_inv [rt_inv]:
  assumes "sched_inv k" "thread_update_priority t p k = Some k'"
  shows "sched_inv k'"
  using assms(2) change_priority_inv(1,3)[OF assms(1)] update_loop_inv
  by (auto simp: thread_update_priority_def split: bind_splits)

section \<open>The walk along blocked owners ends\<close>

text \<open>The owner of the mutex a suspended thread waits for.\<close>

definition waits_for :: "kernel \<Rightarrow> tid \<Rightarrow> tid option" where
  "waits_for k t =
     (if stat_suspended (k_thread k t)
      then case th_pending (k_thread k t) of
             None \<Rightarrow> None | Some (Mutex_object m) \<Rightarrow> mx_owner (k_mutex k m)
      else None)"

text \<open>Following the owners from \<open>t\<close> reaches a thread that waits for nobody within \<open>n\<close> steps.\<close>

primrec chain_ends :: "nat \<Rightarrow> kernel \<Rightarrow> tid \<Rightarrow> bool" where
  "chain_ends 0 k t \<longleftrightarrow> waits_for k t = None"
| "chain_ends (Suc n) k t \<longleftrightarrow> (case waits_for k t of None \<Rightarrow> True | Some owner \<Rightarrow> chain_ends n k owner)"

text \<open>Every mutex somebody waits for has an owner, and base priorities are legal.\<close>

definition pending_owned :: "kernel \<Rightarrow> bool" where
  "pending_owned k \<longleftrightarrow> (\<forall>t m. stat_suspended (k_thread k t) \<longrightarrow>
       th_pending (k_thread k t) = Some (Mutex_object m) \<longrightarrow> mx_owner (k_mutex k m) \<noteq> None) \<and>
     (\<forall>t. th_init_priority (k_thread k t) < RT_THREAD_PRIORITY_MAX)"

lemma get_mutex_priority_min:
  "thread_get_mutex_priority t k =
     foldl (\<lambda>p m. min p (min (mx_priority (k_mutex k m)) (mx_ceiling_priority (k_mutex k m))))
       (th_init_priority (k_thread k t)) (th_taken (k_thread k t))"
proof -
  have "(\<lambda>priority m. let mutex_prio = f m; mutex_prio' = (if mutex_prio < g m then mutex_prio else g m)
      in if priority > mutex_prio' then mutex_prio' else priority) =
    (\<lambda>p m. min p (min (f m) (g m)))" for f g :: "nat \<Rightarrow> nat"
    by (intro ext) (simp add: Let_def min_def)
  then show ?thesis by (simp only: thread_get_mutex_priority_def rt_sched_thread_get_init_prio_def)
qed

lemma foldl_min_le: "foldl (\<lambda>p m. min p (f m)) (a :: nat) ms \<le> a"
proof (induction ms arbitrary: a)
  case (Cons m ms)
  show ?case using Cons.IH[of "min a (f m)"] by simp
qed simp

lemma get_mutex_priority_le: "thread_get_mutex_priority t k \<le> th_init_priority (k_thread k t)"
  unfolding get_mutex_priority_min by (rule foldl_min_le)

lemma change_priority_total:
  "p < RT_THREAD_PRIORITY_MAX \<Longrightarrow> \<exists>k'. rt_sched_thread_change_priority t p k = Some k'"
  by (simp add: rt_sched_thread_change_priority_def Let_def)

lemma change_priority_stat:
  assumes "sched_inv k" "rt_sched_thread_change_priority t p k = Some k'"
  shows "stat_of (k_thread k' u) = stat_of (k_thread k u)"
  using change_priority_inv(4)[OF assms] assms(2)
  by (cases "u = t")
    (auto simp: rt_sched_thread_change_priority_def Let_def set_stat_def split: if_splits)

lemma update_step_stat:
  assumes "sched_inv k" "prio_ok (k_thread k t)" "update_step t k = Some (n, k')"
  shows "stat_of (k_thread k' u) = stat_of (k_thread k u)"
proof (cases "stat_suspended (k_thread k t) \<and> th_pending (k_thread k t) \<noteq> None")
  case False
  then show ?thesis
    using assms by (auto simp: update_step_def rt_sched_thread_is_suspended_def split: if_splits)
next
  case True
  then obtain m where m: "th_pending (k_thread k t) = Some (Mutex_object m)"
    by (metis not_None_eq rt_object_ref.exhaust)
  define k3 where "k3 = mutex_update_priority m
    (rt_susp_list_enqueue (MutexQ m) t (mx_flag (k_mutex k m)) (node_remove t k))"
  have inv3: "sched_inv k3" using assms(1,2) True by (simp add: k3_def node_enqueue_inv)
  have "k_thread k3 = k_thread k" by (simp add: k3_def mutex_update_priority_def)
  then show ?thesis
    using assms(3) True m change_priority_stat[OF inv3]
    by (auto simp: update_step_def rt_sched_thread_is_suspended_def Let_def k3_def[symmetric]
        split: option.splits if_splits bind_splits)
qed

lemma update_step_total:
  assumes "sched_inv k" "pending_owned k"
  obtains n k' where "update_step t k = Some (n, k')" "n = None \<or> n = waits_for k t"
proof (cases "stat_suspended (k_thread k t) \<and> th_pending (k_thread k t) \<noteq> None")
  case False
  then have "update_step t k = Some (None, k)"
    by (auto simp: update_step_def rt_sched_thread_is_suspended_def)
  then show ?thesis using that by blast
next
  case True
  then obtain m where m: "th_pending (k_thread k t) = Some (Mutex_object m)"
    by (metis not_None_eq rt_object_ref.exhaust)
  then obtain owner where ow: "mx_owner (k_mutex k m) = Some owner"
    using assms(2) True unfolding pending_owned_def by (metis not_None_eq)
  define k3 where "k3 = mutex_update_priority m
    (rt_susp_list_enqueue (MutexQ m) t (mx_flag (k_mutex k m)) (node_remove t k))"
  have o3: "mx_owner (k_mutex k3 m) = Some owner" "k_thread k3 = k_thread k"
    using ow by (simp_all add: k3_def mutex_update_priority_def)
  have "thread_get_mutex_priority owner k3 < 32"
    using get_mutex_priority_le[of owner k3] assms(2) o3(2) by (auto simp: pending_owned_def intro: le_less_trans)
  then obtain k4 where "rt_sched_thread_change_priority owner (thread_get_mutex_priority owner k3) k3 = Some k4"
    using change_priority_total by blast
  then have "update_step t k = Some (Some owner, k4) \<or> update_step t k = Some (None, k3)"
    using True m o3(1) by (simp add: update_step_def rt_sched_thread_is_suspended_def Let_def k3_def[symmetric])
  then show ?thesis using that True m ow by (auto simp: waits_for_def)
qed

lemma waits_for_frame:
  assumes "prio_frame k k'" "\<And>u. stat_of (k_thread k' u) = stat_of (k_thread k u)"
  shows "waits_for k' t = waits_for k t" "chain_ends n k' t = chain_ends n k t"
    "pending_owned k' = pending_owned k"
proof -
  have w: "waits_for k' t = waits_for k t" for t
    using assms by (simp add: waits_for_def prio_frame_def suspended_iff split: option.split rt_object_ref.split)
  then show "waits_for k' t = waits_for k t" .
  show "chain_ends n k' t = chain_ends n k t"
    by (induction n arbitrary: t) (simp_all add: w split: option.split)
  show "pending_owned k' = pending_owned k"
    using assms by (simp add: pending_owned_def prio_frame_def suspended_iff)
qed

lemma update_loop_terminates:
  assumes "chain_ends n k t" "sched_inv k" "prio_ok (k_thread k t)" "pending_owned k"
  shows "\<exists>k'. update_loop t k = Some k'"
  using assms
proof (induction n arbitrary: t k)
  case 0
  then obtain k' where "update_step t k = Some (None, k')"
    using update_step_total[OF 0(2,4), of t] by (metis chain_ends.simps(1))
  then show ?case by (subst update_loop.simps) simp
next
  case (Suc n)
  obtain m k1 where s: "update_step t k = Some (m, k1)" "m = None \<or> m = waits_for k t"
    using update_step_total[OF Suc.prems(2,4), of t] by metis
  show ?case
  proof (cases m)
    case None
    then show ?thesis using s(1) by (subst update_loop.simps) simp
  next
    case (Some owner)
    note inv = update_step_inv[OF Suc.prems(2,3) s(1)]
    note fr = waits_for_frame[OF update_step_frame[OF s(1)] update_step_stat[OF Suc.prems(2,3) s(1)]]
    have "waits_for k t = Some owner" using s(2) Some by auto
    then have "chain_ends n k1 owner" using Suc.prems(1) by (simp add: fr(2))
    then obtain k' where "update_loop owner k1 = Some k'"
      using Suc.IH[of k1 owner] inv Some Suc.prems(4) fr(3) by blast
    then show ?thesis using s(1) Some by (subst update_loop.simps) simp
  qed
qed

section \<open>Ownership\<close>

lemma spin_frame [simp]:
  "k_mutex (rt_spin_lock k) = k_mutex k"
  "k_mutex (rt_spin_unlock k) = k_mutex k"
  "k_thread (rt_spin_lock k) = k_thread k"
  "k_queue (rt_spin_lock k) = k_queue k"
  "k_current (rt_spin_lock k) = k_current k"
  "k_timer (rt_spin_lock k) = k_timer k"
  "k_lock_nest (rt_spin_lock k) = k_lock_nest k + 1"
  "sched_inv (rt_spin_lock k) = sched_inv k"
  by (simp_all add: rt_spin_lock_def rt_spin_unlock_def rt_enter_critical_def rt_exit_critical_def Let_def)

lemma resched_if_current_mutex [simp]: "k_mutex (resched_if_current t k) = k_mutex k"
  by (simp add: resched_if_current_def)

lemma taken_frame [simp]:
  "k_mutex (taken_remove m k) = k_mutex k"
  "k_mutex (taken_insert t m k) = k_mutex k"
  "k_mutex (set_pending t obj k) = k_mutex k"
  "k_queue (taken_remove m k) = k_queue k"
  "k_queue (taken_insert t m k) = k_queue k"
  "k_queue (set_pending t obj k) = k_queue k"
  "k_current (taken_remove m k) = k_current k"
  "k_current (taken_insert t m k) = k_current k"
  "k_current (set_pending t obj k) = k_current k"
  "k_lock_nest (taken_remove m k) = k_lock_nest k"
  "k_lock_nest (taken_insert t m k) = k_lock_nest k"
  "k_lock_nest (set_pending t obj k) = k_lock_nest k"
  by (simp_all add: taken_remove_def taken_insert_def set_pending_def)

text \<open>The owner and the nesting depth of a mutex.\<close>

definition holding :: "nat \<Rightarrow> kernel \<Rightarrow> tid option \<times> nat" where
  "holding m k = (mx_owner (k_mutex k m), mx_hold (k_mutex k m))"

lemma holding_frame:
  "prio_frame k k' \<Longrightarrow> holding m k' = holding m k"
  "k_mutex k' = k_mutex k \<Longrightarrow> holding m k' = holding m k"
  by (simp_all add: prio_frame_def holding_def)

lemma waiter_left_frame:
  "waiter_left m b k = Some k' \<Longrightarrow> prio_frame k k'"
  using prio_frame_trans[OF mutex_update_priority_frame thread_update_priority_frame]
  by (auto simp: waiter_left_def Let_def split: bool.splits option.splits if_splits)

lemma mutex_wait_holding:
  "mutex_wait m t owner k = Some k' \<Longrightarrow> holding m k' = holding m k"
  using holding_frame(1)[OF thread_update_priority_frame]
  by (fastforce simp: mutex_wait_def Let_def holding_def split: if_splits)

lemma mutex_acquire_holding:
  "mutex_acquire m t k = Some k' \<Longrightarrow> holding m k' = (Some t, 1)"
  using holding_frame(1)[OF thread_update_priority_frame]
  by (fastforce simp: mutex_acquire_def Let_def holding_def split: if_splits bind_splits)

lemma mutex_take_holding:
  assumes "mutex_take m timeout sf k = Some (r, k')" "k_current k = Some t"
  shows "case r of
      Done e \<Rightarrow> if e = RT_EOK
        then fst (holding m k) = None \<and> holding m k' = (Some t, 1) \<or>
             (\<exists>n < RT_MUTEX_HOLD_MAX. holding m k = (Some t, n) \<and> holding m k' = (Some t, Suc n))
        else holding m k' = holding m k
    | Blocked _ \<Rightarrow> holding m k' = holding m k"
proof -
  let ?k1 = "set_error RT_EOK t (rt_spin_lock k)"
  have susp: "holding m k2 = holding m k"
    if "rt_thread_suspend_to_list t (Some (MutexQ m)) f sf ?k1 = Some (ret, k2)" for f ret k2
    using that by (auto simp: suspend_eq holding_def split: if_splits)
  have arm: "holding m k4 = holding m k3" if "arm_timeout t timeout k3 = Some k4" for k3 k4
    using arm_timeout_frame[OF that] by (simp add: holding_def)
  show ?thesis
  proof (cases "mx_owner (k_mutex k m)")
    case None
    then show ?thesis
      using assms mutex_acquire_holding[of m t ?k1]
      by (auto simp: mutex_take_def rt_thread_self_def Let_def holding_def split: if_splits bind_splits)
  next
    case (Some owner)
    show ?thesis
    proof (cases "owner = t \<or> timeout = 0")
      case True
      then show ?thesis
        using assms Some
        by (auto simp: mutex_take_def rt_thread_self_def Let_def holding_def split: if_splits)
    next
      case False
      then obtain ret k2 where s: "rt_thread_suspend_to_list t (Some (MutexQ m)) (mx_flag (k_mutex k m)) sf ?k1
          = Some (ret, k2)"
        "(if ret \<noteq> RT_EOK then Some (Done ret, rt_spin_unlock k2)
          else do { k3 \<leftarrow> mutex_wait m t owner k2; k4 \<leftarrow> arm_timeout t timeout k3;
                    Some (Blocked (), resched_if_current t (rt_spin_unlock k4)) }) = Some (r, k')"
        using assms Some by (auto simp: mutex_take_def rt_thread_self_def Let_def split: if_splits bind_splits)
      show ?thesis
        using s(2) susp[OF s(1)] mutex_wait_holding[of m t owner k2] arm
        by (fastforce simp: holding_def split: if_splits bind_splits)
    qed
  qed
qed

lemma mutex_take_resume_holding:
  "mutex_take_resume m t k = Some (e, k') \<Longrightarrow> holding m k' = holding m k"
  using holding_frame(1)[OF waiter_left_frame]
  by (fastforce simp: mutex_take_resume_def Let_def holding_def split: if_splits bind_splits)

lemma next_owner_mutex: "next_owner n m k = Some (r, k') \<Longrightarrow> k_mutex k' = k_mutex k"
proof (induction n arbitrary: k)
  case (Suc n)
  then show ?case
    by (auto simp: split_beta Let_def split: list.splits if_splits)
qed simp

lemma check_and_update_prio_mutex:
  "check_and_update_prio t m k = Some (b, k') \<Longrightarrow> k_mutex k' = k_mutex k"
  using change_priority_frame(2) by (auto simp: check_and_update_prio_def split: if_splits bind_splits)

lemma mutex_release_holding:
  assumes "rt_mutex_release m k = Some (e, k')" "k_current k = Some t"
  shows "if e = RT_EOK
    then \<exists>n. holding m k = (Some t, n) \<and>
      (if (n + 255) mod 256 \<noteq> 0 then holding m k' = (Some t, (n + 255) mod 256)
       else holding m k' = (None, 0) \<or> (\<exists>u. holding m k' = (Some u, 1)))
    else holding m k' = holding m k"
proof (cases "mx_owner (k_mutex k m) = Some t")
  case False
  then show ?thesis using assms
    by (auto simp: rt_mutex_release_def rt_thread_self_def Let_def holding_def split: if_splits)
next
  case True
  define n where "n = mx_hold (k_mutex k m)"
  let ?k2 = "mutex_upd m (\<lambda>mx. mx\<lparr>mx_hold := (mx_hold mx + 255) mod 256\<rparr>) (rt_spin_lock k)"
  have ho: "holding m k = (Some t, n)" using True by (simp add: holding_def n_def)
  show ?thesis
  proof (cases "(n + 255) mod 256 = 0")
    case nz: False
    then show ?thesis using assms True ho
      by (auto simp: rt_mutex_release_def rt_thread_self_def Let_def holding_def n_def split: if_splits)
  next
    case z: True
    have "mx_hold (k_mutex ?k2 m) = 0" using z by (simp add: n_def)
    then obtain b k3 nx k4 where r: "check_and_update_prio t m (taken_remove m ?k2) = Some (b, k3)"
      "next_owner (length (k_queue k3 (MutexQ m))) m k3 = Some (nx, k4)"
      "e = RT_EOK" "k_mutex k' = (case nx of
         Some u \<Rightarrow> k_mutex (mutex_hand_over m u k4) | None \<Rightarrow> k_mutex (mutex_free m k4))"
      using assms True
      by (auto simp: rt_mutex_release_def rt_thread_self_def Let_def split: if_splits bind_splits option.splits)
    have "k_mutex k4 = k_mutex ?k2"
      using next_owner_mutex[OF r(2)] check_and_update_prio_mutex[OF r(1)] by simp
    then show ?thesis
      using r(3,4) ho z n_def
      by (auto simp: holding_def mutex_hand_over_def mutex_free_def mutex_update_priority_def
          split: option.splits)
  qed
qed

text \<open>
  The runs of a system that uses mutex \<open>m\<close>. The ghost \<open>h t\<close> counts the successful takes of
  thread \<open>t\<close> minus its successful releases; a hand-over to a waiter grants that waiter's pending
  take.
\<close>

inductive mutex_run :: "nat \<Rightarrow> kernel \<Rightarrow> (tid \<Rightarrow> nat) \<Rightarrow> kernel \<Rightarrow> bool" for m :: nat and k0 :: kernel where
  start: "mutex_run m k0 (\<lambda>_. 0) k0"
| take: "mutex_run m k0 h k \<Longrightarrow> k_current k = Some t \<Longrightarrow>
    mutex_take m timeout sf k = Some (Done RT_EOK, k') \<Longrightarrow> mutex_run m k0 (h(t := Suc (h t))) k'"
| take_error: "mutex_run m k0 h k \<Longrightarrow> k_current k = Some t \<Longrightarrow>
    mutex_take m timeout sf k = Some (Done e, k') \<Longrightarrow> e \<noteq> RT_EOK \<Longrightarrow> mutex_run m k0 h k'"
| block: "mutex_run m k0 h k \<Longrightarrow> k_current k = Some t \<Longrightarrow>
    mutex_take m timeout sf k = Some (Blocked c, k') \<Longrightarrow> mutex_run m k0 h k'"
| resume: "mutex_run m k0 h k \<Longrightarrow> mutex_take_resume m t k = Some (e, k') \<Longrightarrow> mutex_run m k0 h k'"
| release_nested: "mutex_run m k0 h k \<Longrightarrow> k_current k = Some t \<Longrightarrow>
    rt_mutex_release m k = Some (RT_EOK, k') \<Longrightarrow> h t \<noteq> 1 \<Longrightarrow> mutex_run m k0 (h(t := h t - 1)) k'"
| release_free: "mutex_run m k0 h k \<Longrightarrow> k_current k = Some t \<Longrightarrow>
    rt_mutex_release m k = Some (RT_EOK, k') \<Longrightarrow> h t = 1 \<Longrightarrow> mx_owner (k_mutex k' m) = None \<Longrightarrow>
    mutex_run m k0 (h(t := 0)) k'"
| hand_over: "mutex_run m k0 h k \<Longrightarrow> k_current k = Some t \<Longrightarrow>
    rt_mutex_release m k = Some (RT_EOK, k') \<Longrightarrow> h t = 1 \<Longrightarrow> mx_owner (k_mutex k' m) = Some u \<Longrightarrow>
    mutex_run m k0 (h(t := 0, u := 1)) k'"
| release_error: "mutex_run m k0 h k \<Longrightarrow> k_current k = Some t \<Longrightarrow>
    rt_mutex_release m k = Some (e, k') \<Longrightarrow> e \<noteq> RT_EOK \<Longrightarrow> mutex_run m k0 h k'"
| other: "mutex_run m k0 h k \<Longrightarrow> holding m k' = holding m k \<Longrightarrow> mutex_run m k0 h k'"

definition mutex_ghost :: "nat \<Rightarrow> (tid \<Rightarrow> nat) \<Rightarrow> kernel \<Rightarrow> bool" where
  "mutex_ghost m h k \<longleftrightarrow>
     (case mx_owner (k_mutex k m) of
        None \<Rightarrow> h = (\<lambda>_. 0)
      | Some t \<Rightarrow> h = (\<lambda>_. 0)(t := mx_hold (k_mutex k m)) \<and>
          0 < mx_hold (k_mutex k m) \<and> mx_hold (k_mutex k m) \<le> RT_MUTEX_HOLD_MAX)"

lemma mutex_ghost_holding:
  "holding m k = (None, n) \<Longrightarrow> mutex_ghost m h k \<longleftrightarrow> h = (\<lambda>_. 0)"
  "holding m k = (Some t, n) \<Longrightarrow> mutex_ghost m h k \<longleftrightarrow>
     h = (\<lambda>_. 0)(t := n) \<and> 0 < n \<and> n \<le> RT_MUTEX_HOLD_MAX"
  by (auto simp: holding_def mutex_ghost_def)

lemma mutex_ghost_cong: "holding m k' = holding m k \<Longrightarrow> mutex_ghost m h k' = mutex_ghost m h k"
  by (auto simp: holding_def mutex_ghost_def split: option.splits)

lemma mutex_release_ghost:
  assumes "mutex_ghost m h k" "k_current k = Some t" "rt_mutex_release m k = Some (RT_EOK, k')"
  shows "if h t = 1
    then (case mx_owner (k_mutex k' m) of None \<Rightarrow> mutex_ghost m (h(t := 0)) k'
          | Some u \<Rightarrow> mutex_ghost m (h(t := 0, u := 1)) k')
    else mutex_ghost m (h(t := h t - 1)) k'"
proof -
  obtain n where n: "holding m k = (Some t, n)" and
    r: "if (n + 255) mod 256 \<noteq> 0 then holding m k' = (Some t, (n + 255) mod 256)
       else holding m k' = (None, 0) \<or> (\<exists>u. holding m k' = (Some u, 1))"
    using mutex_release_holding[OF assms(3,2)] by auto
  have h: "h = (\<lambda>_. 0)(t := n)" "0 < n" "n \<le> 255"
    using assms(1) n mutex_ghost_holding(2) by auto
  have "(n + 255) mod 256 = n - 1" using h(2,3) by (simp add: mod_if)
  with r h show ?thesis
    by (auto simp: mutex_ghost_holding holding_def[of m k'] mutex_ghost_def split: if_splits option.splits)
qed

lemma mutex_run_ghost:
  assumes "mutex_run m k0 h k" "mx_owner (k_mutex k0 m) = None"
  shows "mutex_ghost m h k"
  using assms
proof (induction rule: mutex_run.induct)
  case start
  then show ?case by (simp add: mutex_ghost_def)
next
  case (take h k t timeout sf k')
  from mutex_take_holding[OF take.hyps(3,2)]
  consider n where "holding m k = (None, n)" "holding m k' = (Some t, 1)"
    | n where "n < 255" "holding m k = (Some t, n)" "holding m k' = (Some t, Suc n)"
    by (cases "holding m k") auto
  then show ?case
    using take.IH[OF take.prems] by cases (auto simp: mutex_ghost_holding)
next
  case (take_error h k t timeout sf e k')
  have "holding m k' = holding m k" using mutex_take_holding[OF take_error.hyps(3,2)] take_error by simp
  then show ?case using take_error mutex_ghost_cong by blast
next
  case (block h k t timeout sf c k')
  have "holding m k' = holding m k" using mutex_take_holding[OF block.hyps(3,2)] block by simp
  then show ?case using block mutex_ghost_cong by blast
next
  case (resume h k t e k')
  have "holding m k' = holding m k" using mutex_take_resume_holding[OF resume.hyps(2)] resume by simp
  then show ?case using resume mutex_ghost_cong by blast
next
  case (release_nested h k t k')
  from mutex_release_ghost[OF release_nested.IH[OF release_nested.prems] release_nested.hyps(2,3)]
  show ?case using release_nested.hyps(4-) by (simp add: fun_upd_def)
next
  case (release_free h k t k')
  from mutex_release_ghost[OF release_free.IH[OF release_free.prems] release_free.hyps(2,3)]
  show ?case using release_free.hyps(4-) by (simp add: fun_upd_def)
next
  case (hand_over h k t k' u)
  from mutex_release_ghost[OF hand_over.IH[OF hand_over.prems] hand_over.hyps(2,3)]
  show ?case using hand_over.hyps(4-) by (simp add: fun_upd_def)
next
  case (release_error h k t e k')
  have "holding m k' = holding m k" using mutex_release_holding[OF release_error.hyps(3,2)] release_error by simp
  then show ?case using release_error mutex_ghost_cong by blast
next
  case (other h k k')
  then show ?case using mutex_ghost_cong by blast
qed

section \<open>Properties\<close>

text \<open>
  C2. Mutual exclusion: over every run of takes, timed out takes, releases, hand-overs and other
  activity, in any interleaving, at most one thread has more successful takes than releases; that
  thread is the recorded owner and the recorded depth is exactly its count.
\<close>

theorem mutex_exclusion:
  assumes "mutex_run m k0 h k" and "mx_owner (k_mutex k0 m) = None"
  shows "(\<forall>t u. 0 < h t \<and> 0 < h u \<longrightarrow> t = u) \<and>
    (\<forall>t. 0 < h t \<longleftrightarrow> mx_owner (k_mutex k m) = Some t) \<and>
    (\<forall>t. 0 < h t \<longrightarrow> h t = mx_hold (k_mutex k m) \<and> h t \<le> RT_MUTEX_HOLD_MAX)"
  using mutex_run_ghost[OF assms] by (auto simp: mutex_ghost_def split: option.splits if_splits)

lemma take_free:
  assumes "k_current k = Some t" "k_lock_nest k = 0" "k_int_nest k = 0"
    "mx_owner (k_mutex k m) = None" "mx_ceiling_priority (k_mutex k m) = PRIO_NONE"
  shows "mutex_take m timeout sf k = Some (Done RT_EOK, rt_spin_unlock (taken_insert t m
    (mutex_upd m (\<lambda>mx. mx\<lparr>mx_owner := Some t, mx_priority := PRIO_NONE, mx_hold := 1\<rparr>)
      (set_error RT_EOK t (rt_spin_lock k)))))"
  using assms
  by (simp add: mutex_take_def rt_thread_self_def scheduler_available_def rt_critical_level_def
      in_thread_context_def not_in_interrupt_def mutex_acquire_def)

theorem mutex_exclusion_witness:
  "\<exists>k. mutex_run 0 sleep_example (\<lambda>t. if t = 1 then 1 else 0) k \<and> mx_owner (k_mutex k 0) = Some 1"
proof -
  have e: "mx_owner (k_mutex sleep_example 0) = None" "mx_ceiling_priority (k_mutex sleep_example 0) = 255"
    by (simp_all add: sleep_example_def sched_example_def kernel0_def)
  obtain k' where "mutex_take 0 0 RT_UNINTERRUPTIBLE sleep_example = Some (Done 0, k')"
    by (rule that[OF take_free[OF sleep_example_facts(2-4) e]])
  from mutex_run.take[OF mutex_run.start sleep_example_facts(2) this]
  have r: "mutex_run 0 sleep_example ((\<lambda>_. 0)(1 := Suc 0)) k'" .
  have x: "\<forall>t. 0 < ((\<lambda>_. 0)(1 := Suc 0)) t \<longleftrightarrow> mx_owner (k_mutex k' 0) = Some t"
    using mutex_exclusion [OF r e(1)] by (elim conjE)
  have "mx_owner (k_mutex k' 0) = Some 1" using x[THEN spec, of 1] by simp
  moreover have "(\<lambda>_. 0)(1 := Suc 0) = (\<lambda>t :: nat. if t = 1 then 1 else 0)" by auto
  ultimately show ?thesis using r by metis
qed

lemma taken_same [simp]:
  "same_sched k (taken_remove m k)" "same_sched k (taken_insert t m k)" "same_sched k (set_pending t obj k)"
  by (simp_all add: same_sched_def taken_remove_def taken_insert_def set_pending_def stat_of_def)

lemma taken_inv [simp]:
  "sched_inv (taken_remove m k) = sched_inv k" "sched_inv (taken_insert t m k) = sched_inv k"
  "sched_inv (set_pending t obj k) = sched_inv k"
  using sched_inv_same taken_same by blast+

lemma taken_thread [simp]:
  "k_thread (taken_remove m k) u = (k_thread k u)\<lparr>th_taken := removeAll m (th_taken (k_thread k u))\<rparr>"
  "k_thread (taken_insert t m k) =
     (k_thread k)(t := (k_thread k t)\<lparr>th_taken := m # th_taken (k_thread k t)\<rparr>)"
  "k_thread (set_pending t obj k) = (k_thread k)(t := (k_thread k t)\<lparr>th_pending := obj\<rparr>)"
  "k_timer (taken_remove m k) = k_timer k" "k_timer (taken_insert t m k) = k_timer k"
  "k_timer (set_pending t obj k) = k_timer k"
  by (simp_all add: taken_remove_def taken_insert_def set_pending_def thread_upd_def)

lemma change_priority_running:
  assumes "stat_of (k_thread k t) = RT_THREAD_RUNNING" "p < RT_THREAD_PRIORITY_MAX"
  shows "rt_sched_thread_change_priority t p k =
    Some (thread_upd t (\<lambda>th. th\<lparr>th_current_priority := p, th_number_mask := push_bit p 1\<rparr>) k)"
  using assms by (simp add: rt_sched_thread_change_priority_def)

text \<open>Lowering the releasing thread back: it keeps running, only its priority changes.\<close>

lemma check_and_update_running:
  assumes "sched_inv k" "stat_of (k_thread k t) = RT_THREAD_RUNNING"
    "th_init_priority (k_thread k t) < RT_THREAD_PRIORITY_MAX"
  obtains b k' where "check_and_update_prio t m k = Some (b, k')" "sched_inv k'"
    "k_queue k' = k_queue k" "k_mutex k' = k_mutex k" "k_current k' = k_current k"
    "k_lock_nest k' = k_lock_nest k" "k_timer k' = k_timer k"
    "\<And>u. u \<noteq> t \<Longrightarrow> k_thread k' u = k_thread k u"
    "th_taken (k_thread k' t) = th_taken (k_thread k t)" "stat_of (k_thread k' t) = RT_THREAD_RUNNING"
proof (cases "mx_ceiling_priority (k_mutex k m) \<noteq> PRIO_NONE \<or>
         rt_sched_thread_get_curr_prio t k = mx_priority (k_mutex k m)")
  case False
  then have "check_and_update_prio t m k = Some (False, k)" by (simp add: check_and_update_prio_def)
  then show ?thesis using that[of False k] assms by simp
next
  case True
  let ?p = "thread_get_mutex_priority t k"
  let ?k = "thread_upd t (\<lambda>th. th\<lparr>th_current_priority := ?p, th_number_mask := push_bit ?p 1\<rparr>) k"
  have p: "?p < 32" using get_mutex_priority_le[of t k] assms(3) by simp
  have c: "rt_sched_thread_change_priority t ?p k = Some ?k"
    by (rule change_priority_running[OF assms(2) p])
  then have "check_and_update_prio t m k = Some (True, ?k)"
    using True by (simp add: check_and_update_prio_def)
  then show ?thesis using that[of True ?k] change_priority_inv(1,4)[OF assms(1) c] assms(2) by simp
qed

text \<open>The first waiter becomes ready and leaves the list.\<close>

lemma next_owner_first:
  assumes "sched_inv k" "k_queue k (MutexQ m) = w # ws" "wake_ok k w"
  shows "next_owner (Suc n) m k = Some (Some w, woken w (node_remove w k))"
    "sched_inv (woken w (node_remove w k))" "k_queue (woken w (node_remove w k)) (MutexQ m) = ws"
proof -
  have l: "lists_inv k" using assms(1) by (simp add: sched_inv_def)
  have w: "wake_ok (node_remove w k) w" using assms(3) by (simp add: wake_ok_def)
  show "next_owner (Suc n) m k = Some (Some w, woken w (node_remove w k))"
    using assms(2,3) by (simp add: ready_wake[OF w] rt_sched_thread_is_suspended_def) (simp add: wake_ok_def)
  have ns: "stat_of (k_thread k w) \<noteq> 2" using assms(3) stat_not_suspended(1) by (auto simp: wake_ok_def)
  then have "lists_inv (node_remove w k)"
    by (intro off_inv_lists_inv[OF node_remove_off[OF l]]) simp_all
  then have "sched_inv (node_remove w k)" using assms(1) by (simp add: sched_inv_def cur_ok_def)
  then show "sched_inv (woken w (node_remove w k))"
    using sched_waker.wake_invar[of "node_remove w k" w] ready_wake[OF w] w by (simp add: wake_ok_def)
  have "distinct (k_queue k (MutexQ m))" using l by (simp add: lists_inv_def queues_ok_def)
  then show "k_queue (woken w (node_remove w k)) (MutexQ m) = ws" using assms(2) by simp
qed

text \<open>Leaving the mutex code: the wait lists and the objects stay, the invariant is kept.\<close>

lemma leave_mutex:
  assumes "sched_inv k"
  shows "sched_inv (resched_if_current t (rt_spin_unlock k))"
    "k_queue (resched_if_current t (rt_spin_unlock k)) (MutexQ m) = k_queue k (MutexQ m)"
    "th_taken (k_thread (resched_if_current t (rt_spin_unlock k)) u) = th_taken (k_thread k u)"
    "th_pending (k_thread (resched_if_current t (rt_spin_unlock k)) u) = th_pending (k_thread k u)"
    "th_current_priority (k_thread (resched_if_current t (rt_spin_unlock k)) u) =
       th_current_priority (k_thread k u)"
    "stat_of (k_thread k u) \<in> {RT_THREAD_READY, RT_THREAD_RUNNING} \<Longrightarrow>
     stat_of (k_thread (resched_if_current t (rt_spin_unlock k)) u) \<in> {RT_THREAD_READY, RT_THREAD_RUNNING}"
proof -
  have r: "sched_inv (rt_schedule k)" "k_queue (rt_schedule k) (MutexQ m) = k_queue k (MutexQ m)"
    "stat_of (k_thread k u) \<in> {2, 3} \<Longrightarrow> stat_of (k_thread (rt_schedule k) u) \<in> {2, 3}"
    if "sched_inv k" for k
    using schedule_inv[OF that] schedule_wait_queue[OF that] resched_stat[OF that, of u] by auto
  have u: "sched_inv (rt_spin_unlock k)" "k_queue (rt_spin_unlock k) (MutexQ m) = k_queue k (MutexQ m)"
    "th_taken (k_thread (rt_spin_unlock k) u) = th_taken (k_thread k u)"
    "th_pending (k_thread (rt_spin_unlock k) u) = th_pending (k_thread k u)"
    "th_current_priority (k_thread (rt_spin_unlock k) u) = th_current_priority (k_thread k u)"
    "stat_of (k_thread k u) \<in> {2, 3} \<Longrightarrow> stat_of (k_thread (rt_spin_unlock k) u) \<in> {2, 3}"
    using r[of "k\<lparr>k_lock_nest := 0\<rparr>"] assms
    by (auto simp: rt_spin_unlock_def rt_exit_critical_def Let_def)
  show "sched_inv (resched_if_current t (rt_spin_unlock k))"
    "k_queue (resched_if_current t (rt_spin_unlock k)) (MutexQ m) = k_queue k (MutexQ m)"
    "th_taken (k_thread (resched_if_current t (rt_spin_unlock k)) u) = th_taken (k_thread k u)"
    "th_pending (k_thread (resched_if_current t (rt_spin_unlock k)) u) = th_pending (k_thread k u)"
    "th_current_priority (k_thread (resched_if_current t (rt_spin_unlock k)) u) =
       th_current_priority (k_thread k u)"
    using u r[OF u(1)] by (simp_all add: resched_if_current_def)
  show "stat_of (k_thread k u) \<in> {2, 3} \<Longrightarrow>
     stat_of (k_thread (resched_if_current t (rt_spin_unlock k)) u) \<in> {2, 3}"
    using u(6) r(3)[OF u(1)] by (simp add: resched_if_current_def)
qed

text \<open>
  C34. Hand-over: when the owner releases its last hold and the first waiter can be woken, that
  waiter owns the mutex with depth 1 as soon as the call returns, has left the wait list, waits for
  nothing any more, and is ready or running; the mutex has moved from the old owner's list of
  taken mutexes to the new owner's. The new owner keeps its priority: unlike a take of a free
  mutex, the hand-over does not raise it to the priority ceiling.
\<close>

theorem mutex_release_hands_over:
  assumes "sched_inv k" and "k_current k = Some t" and "k_int_nest k = 0"
    and "stat_of (k_thread k t) = RT_THREAD_RUNNING"
    and "th_init_priority (k_thread k t) < RT_THREAD_PRIORITY_MAX"
    and "mx_owner (k_mutex k m) = Some t" and "mx_hold (k_mutex k m) = 1"
    and "k_queue k (MutexQ m) = w # ws" and "wake_ok k w"
  shows "\<exists>k'. rt_mutex_release m k = Some (RT_EOK, k') \<and> sched_inv k' \<and>
    mx_owner (k_mutex k' m) = Some w \<and> mx_hold (k_mutex k' m) = 1 \<and> k_queue k' (MutexQ m) = ws \<and>
    th_pending (k_thread k' w) = None \<and> m \<in> set (th_taken (k_thread k' w)) \<and>
    m \<notin> set (th_taken (k_thread k' t)) \<and>
    stat_of (k_thread k' w) \<in> {RT_THREAD_READY, RT_THREAD_RUNNING} \<and>
    th_current_priority (k_thread k' w) = th_current_priority (k_thread k w)"
proof -
  define k2 where "k2 = taken_remove m
    (mutex_upd m (\<lambda>mx. mx\<lparr>mx_hold := (mx_hold mx + 255) mod 256\<rparr>) (rt_spin_lock k))"
  have k2: "sched_inv k2" "stat_of (k_thread k2 t) = 3" "th_init_priority (k_thread k2 t) < 32"
    using assms(1,4,5) by (simp_all add: k2_def stat_of_def)
  obtain b k3 where k3: "check_and_update_prio t m k2 = Some (b, k3)" "sched_inv k3"
    "k_queue k3 = k_queue k2" "k_mutex k3 = k_mutex k2" "k_timer k3 = k_timer k2"
    "\<And>u. u \<noteq> t \<Longrightarrow> k_thread k3 u = k_thread k2 u"
    "th_taken (k_thread k3 t) = th_taken (k_thread k2 t)"
    using check_and_update_running[OF k2] by metis
  have wt: "w \<noteq> t" using assms(4,9) stat_not_suspended(2) by (auto simp: wake_ok_def)
  have q3: "k_queue k3 (MutexQ m) = w # ws" using k3(3) assms(8) by (simp add: k2_def)
  have w3: "wake_ok k3 w" "th_current_priority (k_thread k3 w) = th_current_priority (k_thread k w)"
    using assms(9) k3(5) wt by (simp_all add: wake_ok_def k3(6) k2_def prio_ok_def stat_suspended_def)
  define k4 where "k4 = woken w (node_remove w k3)"
  note n = next_owner_first(1)[OF k3(2) q3 w3(1), of "length ws", folded k4_def]
    next_owner_first(2,3)[OF k3(2) q3 w3(1), folded k4_def]
  define k5 where "k5 = mutex_hand_over m w k4"
  have k5: "sched_inv k5" "k_queue k5 (MutexQ m) = ws" "th_pending (k_thread k5 w) = None"
    "m \<in> set (th_taken (k_thread k5 w))" "m \<notin> set (th_taken (k_thread k5 t))"
    "stat_of (k_thread k5 w) \<in> {2, 3}"
    "th_current_priority (k_thread k5 w) = th_current_priority (k_thread k w)"
    "mx_owner (k_mutex k5 m) = Some w" "mx_hold (k_mutex k5 m) = 1"
    using n(2,3) wt k3(7) w3(2)
    by (simp_all add: k5_def mutex_hand_over_def mutex_update_priority_def)
      (simp_all add: k4_def k2_def woken_stat_def stat_of_def)
  have "rt_mutex_release m k = Some (RT_EOK, resched_if_current t (rt_spin_unlock k5))"
    using assms(2,3,6,7) k3(1) n(1) q3
    by (simp add: rt_mutex_release_def in_thread_context_def not_in_interrupt_def rt_thread_self_def Let_def
        k2_def[symmetric] k5_def)
  then show ?thesis
    using leave_mutex[OF k5(1)] k5 by auto
qed

text \<open>Thread 1 runs and owns mutex 0, thread 2 waits for it, thread 3 is ready.\<close>

definition mutex_example :: kernel where
  "mutex_example = kernel0\<lparr>
     k_thread := (\<lambda>_. thread0)(1 := (mk_thread 3 10)\<lparr>th_taken := [0]\<rparr>,
       2 := (mk_thread 7 12)\<lparr>th_pending := Some (Mutex_object 0)\<rparr>, 3 := mk_thread 2 20),
     k_queue := (\<lambda>_. [])(MutexQ 0 := [2], ReadyQ 20 := [3]), k_ready_group := 0x100000,
     k_current := Some 1,
     k_timer := (\<lambda>_. timer_init Thread_timeout 1 0 16),
     k_mutex := (\<lambda>_. \<lparr>mx_ceiling_priority = 255, mx_priority = 12, mx_hold = 1, mx_owner = Some 1,
        mx_flag = RT_IPC_FLAG_PRIO\<rparr>)\<rparr>"

lemma mutex_example_inv: "sched_inv mutex_example"
proof -
  have "k_ready_group mutex_example = push_bit 20 1" by (simp add: mutex_example_def)
  then have "bit (k_ready_group mutex_example) p \<longleftrightarrow> p = 20" for p
    by (simp only: bit_push_bit_iff bit_1_iff) auto
  then have "group_ok mutex_example"
    by (simp add: group_ok_def) (simp add: mutex_example_def kernel0_def)
  then show ?thesis
    by (auto simp: sched_inv_def lists_inv_def queues_ok_def thread_ok_def cur_ok_def
        mutex_example_def kernel0_def thread0_def mk_thread_def stat_of_def stat_suspended_def prio_ok_def
        split: if_splits)
qed

lemma mutex_example_facts:
  "k_current mutex_example = Some 1" "k_int_nest mutex_example = 0" "k_lock_nest mutex_example = 0"
  "stat_of (k_thread mutex_example 1) = 3" "th_init_priority (k_thread mutex_example 1) < 32"
  "mx_owner (k_mutex mutex_example 0) = Some 1" "mx_hold (k_mutex mutex_example 0) = 1"
  "k_queue mutex_example (MutexQ 0) = [2]" "wake_ok mutex_example 2"
  "thread_timer_ok mutex_example t"
  by (simp_all add: mutex_example_def kernel0_def mk_thread_def thread0_def stat_of_def wake_ok_def
      stat_suspended_def prio_ok_def thread_timer_ok_def timer_init_def tm_has_def tm_flag_clear_def)

theorem mutex_release_hands_over_witness:
  "\<exists>k'. rt_mutex_release 0 mutex_example = Some (0, k') \<and> mx_owner (k_mutex k' 0) = Some 2 \<and>
     k_queue k' (MutexQ 0) = []"
  using mutex_release_hands_over [OF mutex_example_inv mutex_example_facts(1,2,4-9)] by auto

text \<open>
  Releases that do not free the mutex: a thread that is not the owner is refused with an error
  and no mutex changes; the owner of a nested mutex only gives back one level.
\<close>

theorem mutex_release_not_last:
  assumes "k_current k = Some t" and "k_int_nest k = 0"
    and "mx_owner (k_mutex k m) = Some t \<longrightarrow> 1 < mx_hold (k_mutex k m) \<and> mx_hold (k_mutex k m) \<le> RT_MUTEX_HOLD_MAX"
  shows "\<exists>k'. if mx_owner (k_mutex k m) = Some t
    then rt_mutex_release m k = Some (RT_EOK, k') \<and>
         k_mutex k' = (k_mutex k)(m := (k_mutex k m)\<lparr>mx_hold := mx_hold (k_mutex k m) - 1\<rparr>)
    else rt_mutex_release m k = Some (- RT_ERROR, k') \<and> k_mutex k' = k_mutex k \<and>
         th_error (k_thread k' t) = - RT_ERROR"
proof (cases "mx_owner (k_mutex k m) = Some t")
  case True
  then have "1 < mx_hold (k_mutex k m)" "mx_hold (k_mutex k m) \<le> 255" using assms(3) by auto
  then have "(mx_hold (k_mutex k m) + 255) mod 256 = mx_hold (k_mutex k m) - 1"
    by (simp add: mod_if)
  with True assms show ?thesis
    by (simp add: rt_mutex_release_def in_thread_context_def not_in_interrupt_def rt_thread_self_def Let_def)
next
  case False
  then show ?thesis
    using assms(1,2)
    by (simp add: rt_mutex_release_def in_thread_context_def not_in_interrupt_def rt_thread_self_def Let_def
        rt_spin_unlock_def rt_exit_critical_def)
qed

theorem mutex_release_not_last_witness:
  "\<exists>k'. rt_mutex_release 0 (mutex_example\<lparr>k_current := Some 3\<rparr>) = Some (- 1, k') \<and>
     mx_owner (k_mutex k' 0) = Some 1"
proof -
  let ?k = "mutex_example\<lparr>k_current := Some 3\<rparr>"
  have "k_current ?k = Some 3" "k_int_nest ?k = 0" "mx_owner (k_mutex ?k 0) = Some 1"
    using mutex_example_facts by simp_all
  then show ?thesis using mutex_release_not_last [of ?k 3 0] by auto
qed

text \<open>
  C14. The walk of the priority inheritance ends: when following the owners from thread \<open>t\<close> reaches
  a thread that waits for no mutex (no cycle of blocked owners), every mutex somebody waits for
  has an owner, and base priorities are legal, changing the priority of \<open>t\<close> with
  \<^verbatim>\<open>_thread_update_priority\<close> returns, with the scheduler invariant kept, the owners and depths of
  all mutexes unchanged and the new priority legal.
\<close>

theorem priority_walk_ends:
  assumes "sched_inv k" and "pending_owned k" and "chain_ends n k t" and "p < RT_THREAD_PRIORITY_MAX"
  shows "\<exists>k'. thread_update_priority t p k = Some k' \<and> sched_inv k' \<and>
    (\<forall>m. mx_owner (k_mutex k' m) = mx_owner (k_mutex k m) \<and> mx_hold (k_mutex k' m) = mx_hold (k_mutex k m))"
proof -
  obtain k1 where k1: "rt_sched_thread_change_priority t p k = Some k1"
    using change_priority_total[OF assms(4)] by blast
  note c = change_priority_inv[OF assms(1) k1]
  note f = waits_for_frame[OF change_priority_frame(1)[OF k1] change_priority_stat[OF assms(1) k1]]
  obtain k' where k': "update_loop t k1 = Some k'"
    using update_loop_terminates[of n k1 t] c f assms(2,3) by auto
  then have u: "thread_update_priority t p k = Some k'" using k1 by (simp add: thread_update_priority_def)
  show ?thesis
    using u thread_update_priority_inv[OF assms(1) u] thread_update_priority_frame[OF u]
    by (auto simp: prio_frame_def)
qed

theorem priority_walk_ends_witness:
  "\<exists>k'. thread_update_priority 2 4 mutex_example = Some k' \<and> sched_inv k'"
proof -
  have p: "pending_owned mutex_example"
    by (auto simp: pending_owned_def mutex_example_def kernel0_def thread0_def mk_thread_def stat_suspended_def)
  have c: "chain_ends 1 mutex_example 2"
    by (simp add: waits_for_def mutex_example_def kernel0_def thread0_def mk_thread_def stat_suspended_def
        split: option.split)
  show ?thesis using priority_walk_ends [OF mutex_example_inv p c, of 4] by auto
qed

lemma thread_update_priority_awake:
  assumes "sched_inv k" "p < RT_THREAD_PRIORITY_MAX" "\<not> stat_suspended (k_thread k t)"
  obtains k' where "thread_update_priority t p k = Some k'"
    "rt_sched_thread_change_priority t p k = Some k'"
proof -
  obtain k1 where k1: "rt_sched_thread_change_priority t p k = Some k1"
    using change_priority_total[OF assms(2)] by blast
  have "\<not> stat_suspended (k_thread k1 t)"
    using change_priority_inv(4)[OF assms(1) k1] assms(3) by (simp add: suspended_iff)
  then have "update_loop t k1 = Some k1"
    by (subst update_loop.simps) (simp add: update_step_def rt_sched_thread_is_suspended_def)
  then show ?thesis using that[of k1] k1 by (simp add: thread_update_priority_def)
qed

text \<open>What waiting does to the priorities when the owner is not blocked itself.\<close>

lemma mutex_wait_inherits:
  assumes "sched_inv k" "prio_ok (k_thread k t)" "\<not> stat_suspended (k_thread k ow)" "t \<noteq> ow"
    "th_current_priority (k_thread k ow) \<le> mx_priority (k_mutex k m)"
  obtains k' where "mutex_wait m t ow k = Some k'" "sched_inv k'"
    "th_current_priority (k_thread k' ow) \<le> th_current_priority (k_thread k' t)"
    "th_current_priority (k_thread k' t) = th_current_priority (k_thread k t)"
    "\<And>u. stat_of (k_thread k' u) = stat_of (k_thread k u)"
    "\<And>q. (\<And>p. q \<noteq> ReadyQ p) \<Longrightarrow> k_queue k' q = k_queue k q"
    "th_pending (k_thread k' t) = Some (Mutex_object m)"
    "prio_frame (set_pending t (Some (Mutex_object m)) k) k'"
proof -
  define k1 where "k1 = set_pending t (Some (Mutex_object m)) k"
  define p where "p = th_current_priority (k_thread k t)"
  define k2 where "k2 = mutex_upd m (\<lambda>mx. mx\<lparr>mx_priority := p\<rparr>) k1"
  have p1: "rt_sched_thread_get_curr_prio t k1 = p"
    "\<And>u. th_current_priority (k_thread k1 u) = th_current_priority (k_thread k u)"
    "\<And>u. stat_of (k_thread k1 u) = stat_of (k_thread k u)"
    by (simp_all add: k1_def p_def rt_sched_thread_get_curr_prio_def stat_of_def)
  have inv: "sched_inv k1" "sched_inv k2" using assms(1) by (simp_all add: k1_def k2_def)
  have fr: "prio_frame k1 k2" by (simp add: prio_frame_def k2_def)
  have "p < 32" using assms(2) by (simp add: prio_ok_def p_def)
  have aw: "\<not> stat_suspended (k_thread k2 ow)" using assms(3) p1(3) by (simp add: suspended_iff k2_def)
  obtain k3 where k3: "thread_update_priority ow p k2 = Some k3"
    "rt_sched_thread_change_priority ow p k2 = Some k3"
    using thread_update_priority_awake[OF inv(2) \<open>p < 32\<close> aw] by blast
  note c = change_priority_inv[OF inv(2) k3(2)] change_priority_frame(1)[OF k3(2)]
  have t3: "th_current_priority (k_thread k3 t) = p" "\<And>u. stat_of (k_thread k3 u) = stat_of (k_thread k u)"
    using k3(2) change_priority_stat[OF inv(2) k3(2)] assms(4) p1(2,3)[of t] p1(3)
    by (auto simp: rt_sched_thread_change_priority_def Let_def set_stat_def k2_def p_def split: if_splits)
  have q3: "k_queue k3 q = k_queue k q" if q: "\<And>p. q \<noteq> ReadyQ p" for q
  proof -
    have "ow \<notin> set (k_queue k q)"
      using lists_invD(2)[of k ow q] assms(1,3) q by (auto simp: sched_inv_def)
    then show ?thesis
      using k3(2) q by (auto simp: rt_sched_thread_change_priority_def Let_def set_stat_def k2_def k1_def
          split: if_splits)
  qed
  have pend: "th_pending (k_thread k1 t) = Some (Mutex_object m)" by (simp add: k1_def)
  consider "mx_priority (k_mutex k m) \<le> p" | "p < mx_priority (k_mutex k m)" "th_current_priority (k_thread k ow) \<le> p"
    | "p < mx_priority (k_mutex k m)" "p < th_current_priority (k_thread k ow)" by linarith
  then show ?thesis
  proof cases
    case 1
    have "mutex_wait m t ow k = Some k1"
      using 1 p1(1) by (simp add: mutex_wait_def k1_def[symmetric] Let_def) (simp add: k1_def)
    then show ?thesis
      using that[of k1] inv pend 1 assms(5) p1 by (simp add: p_def k1_def)
  next
    case 2
    have "mutex_wait m t ow k = Some k2"
      using 2 p1 by (simp add: mutex_wait_def k1_def[symmetric] Let_def k2_def rt_sched_thread_get_curr_prio_def)
        (simp add: k1_def)
    then show ?thesis
      using that[of k2] inv fr pend 2 p1 by (simp add: p_def k2_def k1_def)
  next
    case 3
    have "mutex_wait m t ow k = Some k3"
      using 3 p1 k3(1) by (simp add: mutex_wait_def k1_def[symmetric] Let_def k2_def rt_sched_thread_get_curr_prio_def)
        (simp add: k1_def)
    then show ?thesis
      using that[of k3] c t3 q3 pend prio_frame_trans[OF fr c(5)] by (simp add: p_def k1_def prio_frame_def)
  qed
qed

text \<open>
  C15. Priority inheritance: a running thread that blocks on a mutex owned by a ready thread (whose
  priority is at least that of the waiters so far) is suspended on the wait list of the mutex and
  recorded as waiting for it, and afterwards the owner's priority is at least the caller's, so
  no thread of a priority between the two can keep the owner from running.
\<close>

theorem mutex_take_inherits_priority:
  assumes "sched_inv k" and "k_current k = Some t" and "k_lock_nest k = 0" and "k_int_nest k = 0"
    and "stat_of (k_thread k t) = RT_THREAD_RUNNING" and "thread_timer_ok k t"
    and "timeout \<noteq> 0" and "timeout < 0x7FFFFFFF"
    and "mx_owner (k_mutex k m) = Some ow" and "stat_of (k_thread k ow) = RT_THREAD_READY"
    and "th_current_priority (k_thread k ow) \<le> mx_priority (k_mutex k m)"
  shows "\<exists>k'. rt_mutex_take m timeout k = Some (Blocked (), k') \<and> sched_inv k' \<and>
    k_current k' \<noteq> Some t \<and> t \<in> set (k_queue k' (MutexQ m)) \<and>
    th_pending (k_thread k' t) = Some (Mutex_object m) \<and> mx_owner (k_mutex k' m) = Some ow \<and>
    th_current_priority (k_thread k' ow) \<le> th_current_priority (k_thread k' t) \<and> scheduled k'"
proof -
  define k1 where "k1 = set_error RT_EOK t (rt_spin_lock k)"
  have ne: "t \<noteq> ow" using assms(5,10) by auto
  have k1: "sched_inv k1" "k_current k1 = Some t" "stat_of (k_thread k1 t) = 3" "k_mutex k1 = k_mutex k"
    "thread_timer_ok k1 t" "k_lock_nest k1 = 1"
    using assms by (simp_all add: k1_def stat_of_def thread_timer_ok_def)
  define k2 where "k2 = suspended_state t (Some (MutexQ m)) (mx_flag (k_mutex k m)) RT_UNINTERRUPTIBLE k1"
  note s = mutex_object.suspend_on_list[OF k1(1-3), of m "mx_flag (k_mutex k m)" RT_UNINTERRUPTIBLE, folded k2_def]
  have tk2: "thread_timer_ok k2 t" using k1(5) by (simp add: k2_def)
  have k2: "stat_of (k_thread k2 ow) = 2" "prio_ok (k_thread k2 t)"
    "th_current_priority (k_thread k2 ow) \<le> mx_priority (k_mutex k2 m)" "k_lock_nest k2 = 1"
    "k_current k2 = Some t" "stat_of (k_thread k2 t) = 7"
    using assms(10,11) ne k1 s(2)
    by (auto simp: k2_def k1_def stat_of_def sched_inv_def cur_ok_def suspend_stat_def)
  have aw: "\<not> stat_suspended (k_thread k2 ow)" using k2(1) by simp
  obtain k3 where k3: "mutex_wait m t ow k2 = Some k3" "sched_inv k3"
    "th_current_priority (k_thread k3 ow) \<le> th_current_priority (k_thread k3 t)"
    "\<And>u. stat_of (k_thread k3 u) = stat_of (k_thread k2 u)"
    "k_queue k3 (MutexQ m) = k_queue k2 (MutexQ m)"
    "th_pending (k_thread k3 t) = Some (Mutex_object m)"
    "prio_frame (set_pending t (Some (Mutex_object m)) k2) k3"
    using mutex_wait_inherits[OF s(2) k2(2) aw ne k2(3)] by (metis list_head.distinct(3))
  have f3: "k_lock_nest k3 = 1" "k_current k3 = Some t" "thread_timer_ok k3 t"
    "mx_owner (k_mutex k3 m) = Some ow"
    using k3(7) tk2 k2(4,5) assms(9) k1(4) by (simp_all add: prio_frame_def thread_timer_ok_def) (simp add: k2_def)
  obtain k4 where k4: "arm_timeout t timeout k3 = Some k4"
    "k_thread k4 = (k_thread k3)(t := (k_thread k3 t)\<lparr>th_ttmr_set := th_ttmr_set (k_thread k3 t) \<or> timeout > 0\<rparr>)"
    "k_current k4 = k_current k3" "k_lock_nest k4 = k_lock_nest k3" "k_queue k4 = k_queue k3"
    using arm_timeout_ok[OF f3(3) assms(8)] by metis
  have m4: "k_mutex k4 = k_mutex k3" using arm_timeout_frame[OF k4(1)] by simp
  define k5 where "k5 = k4\<lparr>k_lock_nest := 0\<rparr>"
  have k5: "sched_inv k5" "k_current k5 = Some t" "k_lock_nest k5 = 0"
    "stat_of (k_thread k5 t) = 7" "stat_of (k_thread k5 ow) = 2"
    using sched_inv_same[OF arm_timeout_same[OF k4(1)]] k3(2,4) f3 k2(1,6) k4 ne
    by (simp_all add: k5_def stat_of_def)
  have ne5: "stat_of (k_thread k5 t) \<noteq> 3" using k5(4) by simp
  have ex5: "\<exists>u. stat_of (k_thread k5 u) = 2" using k5(5) by blast
  have nc: "k_current (rt_schedule k5) \<noteq> Some t"
    using schedule_from_blocked[OF k5(1-3) ne5 ex5] by auto
  have sc: "scheduled (rt_schedule k5)"
    using schedule_scheduled[OF k5(1-3)] group_zero_iff[of k5] k5(1,5) by (auto simp: sched_inv_def)
  have u: "rt_spin_unlock k4 = rt_schedule k5"
    using f3(1,2) k4(3,4) by (simp add: rt_spin_unlock_def rt_exit_critical_def Let_def k5_def)
  have "rt_mutex_take m timeout k = Some (Blocked (), rt_schedule k5)"
    using assms(2-4,7,9) ne s(1) k3(1) k4(1) u nc
    by (simp add: rt_mutex_take_def mutex_take_def rt_thread_self_def scheduler_available_def
        rt_critical_level_def in_thread_context_def not_in_interrupt_def k1_def[symmetric] k1(4)
        resched_if_current_def)
  moreover have "k_queue (rt_schedule k5) (MutexQ m) = k_queue k2 (MutexQ m)"
    using schedule_wait_queue[OF k5(1)] k4(5) k3(5) by (simp add: k5_def)
  moreover have "th_pending (k_thread k5 t) = Some (Mutex_object m)" "mx_owner (k_mutex k5 m) = Some ow"
    "th_current_priority (k_thread k5 ow) \<le> th_current_priority (k_thread k5 t)"
    using k3(3,6) f3(4) m4 ne by (simp_all add: k5_def k4(2))
  ultimately show ?thesis using nc sc schedule_inv[OF k5(1)] s(3) by simp
qed

definition inherit_example :: kernel where
  "inherit_example = mutex_upd 0 (\<lambda>mx. mx\<lparr>mx_owner := Some 3, mx_hold := 1\<rparr>) sleep_example"

theorem mutex_take_inherits_priority_witness:
  "\<exists>k'. rt_mutex_take 0 50 inherit_example = Some (Blocked (), k') \<and>
     mx_owner (k_mutex k' 0) = Some 3 \<and>
     th_current_priority (k_thread k' 3) \<le> th_current_priority (k_thread k' 1)"
proof -
  have inv: "sched_inv inherit_example" using sleep_example_facts(1) by (simp add: inherit_example_def)
  have e: "k_current inherit_example = Some 1" "k_lock_nest inherit_example = 0" "k_int_nest inherit_example = 0"
    "stat_of (k_thread inherit_example 1) = 3" "thread_timer_ok inherit_example 1"
    using sleep_example_facts by (simp_all add: inherit_example_def thread_timer_ok_def)
  have o: "mx_owner (k_mutex inherit_example 0) = Some 3" "stat_of (k_thread inherit_example 3) = 2"
    "th_current_priority (k_thread inherit_example 3) \<le> mx_priority (k_mutex inherit_example 0)"
    by (simp_all add: inherit_example_def sleep_example_def sched_example_def kernel0_def mk_thread_def
        thread0_def stat_of_def)
  show ?thesis
    using mutex_take_inherits_priority [OF inv e _ _ o, of 50] by auto
qed

end
