(* ===== verification/Event.thy ===== *)
theory Event
  imports Blocking
begin

text \<open>
  Event sets (\<^verbatim>\<open>src/ipc.c\<close>, \<^verbatim>\<open>rt_event_*\<close>): 32 flags, waited for with AND or OR, optionally
  cleared when received. Sending is one pass over the wait list with the bits of the event as they
  are after the new bits have been added; the bits to clear are collected and removed at the end.
\<close>

section \<open>Operations\<close>

abbreviation (input) RT_EVENT_FLAG_AND :: u8 where "RT_EVENT_FLAG_AND \<equiv> 1"
abbreviation (input) RT_EVENT_FLAG_OR :: u8 where "RT_EVENT_FLAG_OR \<equiv> 2"
abbreviation (input) RT_EVENT_FLAG_CLEAR :: u8 where "RT_EVENT_FLAG_CLEAR \<equiv> 4"

definition rt_event_init :: "nat \<Rightarrow> ipc_flag \<Rightarrow> kernel \<Rightarrow> rt_err_t \<times> kernel" where
  "rt_event_init i flag k =
     (RT_EOK, event_upd i (\<lambda>_. \<lparr>ev_set = 0, ev_flag = flag\<rparr>) (k\<lparr>k_queue := (k_queue k)(EventQ i := [])\<rparr>))"

text \<open>\<open>obj\<close> is the result of the allocation.\<close>

definition rt_event_create :: "nat option \<Rightarrow> ipc_flag \<Rightarrow> kernel \<Rightarrow> (nat option \<times> kernel) option" where
  "rt_event_create obj flag k =
     (if not_in_interrupt k
      then Some (case obj of
          None \<Rightarrow> (None, k)
        | Some i \<Rightarrow> (Some i, event_upd i (\<lambda>_. \<lparr>ev_set = 0, ev_flag = flag\<rparr>) (k\<lparr>k_queue := (k_queue k)(EventQ i := [])\<rparr>)))
      else None)"

definition rt_event_detach :: "nat \<Rightarrow> kernel \<Rightarrow> rt_err_t \<times> kernel" where
  "rt_event_detach i k = (RT_EOK, rt_susp_list_resume_all (EventQ i) RT_ERROR k)"

definition rt_event_delete :: "nat \<Rightarrow> kernel \<Rightarrow> (rt_err_t \<times> kernel) option" where
  "rt_event_delete i k =
     (if not_in_interrupt k
      then Some (RT_EOK, rt_exit_critical (rt_susp_list_resume_all (EventQ i) RT_ERROR
             (snd (rt_enter_critical k))))
      else None)"



text \<open>The received bits are returned beside the error code when the caller asks for them.\<close>

definition event_recv :: "nat \<Rightarrow> u32 \<Rightarrow> u8 \<Rightarrow> int \<Rightarrow> suspend_flag \<Rightarrow> kernel \<Rightarrow>
    ((rt_err_t \<times> u32 option, unit) flow \<times> kernel) option" where
  "event_recv i eset opt timeout suspend_flag k =
     (if \<not> scheduler_available True k then None
      else if eset = 0 then Some (Done (- RT_ERROR, None), k)
      else case rt_thread_self k of
        None \<Rightarrow> None
      | Some t \<Rightarrow>
          let k1 = set_error (- RT_EINTR) t k;
              bits = ev_set (k_event k1 i)
          in if opt AND RT_EVENT_FLAG_AND = 0 \<and> opt AND RT_EVENT_FLAG_OR = 0 then None
             else if (if opt AND RT_EVENT_FLAG_AND \<noteq> 0 then bits AND eset = eset else bits AND eset \<noteq> 0)
             then let k2 = thread_upd t (\<lambda>th. th\<lparr>th_error := RT_EOK, th_event_set := bits AND eset,
                                                 th_event_info := opt\<rparr>) k1;
                      k3 = (if opt AND RT_EVENT_FLAG_CLEAR \<noteq> 0
                            then event_upd i (\<lambda>e. e\<lparr>ev_set := ev_set e AND NOT eset\<rparr>) k2 else k2)
                  in Some (Done (RT_EOK, Some (bits AND eset)), k3)
             else if timeout = 0
             then Some (Done (- RT_ETIMEOUT, None), set_error (- RT_ETIMEOUT) t k1)
             else do {
               let k2 = thread_upd t (\<lambda>th. th\<lparr>th_event_set := eset, th_event_info := opt\<rparr>) k1;
               (ret, k3) \<leftarrow> rt_thread_suspend_to_list t (Some (EventQ i)) (ev_flag (k_event k2 i)) suspend_flag k2;
               if ret \<noteq> RT_EOK then Some (Done (ret, None), k3)
               else do {
                 k4 \<leftarrow> arm_timeout t timeout k3;
                 Some (Blocked (), rt_schedule k4)
               }
             })"


definition rt_event_recv :: "nat \<Rightarrow> u32 \<Rightarrow> u8 \<Rightarrow> int \<Rightarrow> kernel \<Rightarrow>
    ((rt_err_t \<times> u32 option, unit) flow \<times> kernel) option" where
  "rt_event_recv i eset opt timeout = event_recv i eset opt timeout RT_UNINTERRUPTIBLE"

definition rt_event_recv_interruptible :: "nat \<Rightarrow> u32 \<Rightarrow> u8 \<Rightarrow> int \<Rightarrow> kernel \<Rightarrow>
    ((rt_err_t \<times> u32 option, unit) flow \<times> kernel) option" where
  "rt_event_recv_interruptible i eset opt timeout = event_recv i eset opt timeout RT_INTERRUPTIBLE"

definition rt_event_recv_killable :: "nat \<Rightarrow> u32 \<Rightarrow> u8 \<Rightarrow> int \<Rightarrow> kernel \<Rightarrow>
    ((rt_err_t \<times> u32 option, unit) flow \<times> kernel) option" where
  "rt_event_recv_killable i eset opt timeout = event_recv i eset opt timeout RT_KILLABLE"

definition rt_event_control :: "nat \<Rightarrow> bool \<Rightarrow> kernel \<Rightarrow> rt_err_t \<times> kernel" where
  "rt_event_control i reset k =
     (if reset
      then let k1 = rt_susp_list_resume_all (EventQ i) RT_ERROR k;
               k2 = event_upd i (\<lambda>e. e\<lparr>ev_set := 0\<rparr>) k1
           in (RT_EOK, rt_schedule k2)
      else (- RT_ERROR, k))"

section \<open>The pass over the waiters\<close>

lemma event_upd_frame [simp]:
  "k_event (event_upd i f k) = (k_event k)(i := f (k_event k i))"
  "k_queue (event_upd i f k) = k_queue k"
  "k_thread (event_upd i f k) = k_thread k"
  "k_current (event_upd i f k) = k_current k"
  "k_lock_nest (event_upd i f k) = k_lock_nest k"
  "k_timer (event_upd i f k) = k_timer k"
  by (simp_all add: event_upd_def)

lemma event_upd_inv [simp]: "sched_inv (event_upd i f k) = sched_inv k"
  by (rule sched_inv_same) (simp add: same_sched_def event_upd_def)

lemma event_upd_wake_ok [simp]: "wake_ok (event_upd i f k) t = wake_ok k t"
  by (simp add: wake_ok_def)

text \<open>A waiter is satisfied by the bits \<open>b\<close>.\<close>

definition satisfied :: "u32 \<Rightarrow> rt_thread \<Rightarrow> bool" where
  "satisfied b th =
     (if th_event_info th AND RT_EVENT_FLAG_AND \<noteq> 0 then th_event_set th AND b = th_event_set th
      else th_event_set th AND b \<noteq> 0)"

definition valid_option :: "rt_thread \<Rightarrow> bool" where
  "valid_option th \<longleftrightarrow> th_event_info th AND RT_EVENT_FLAG_AND \<noteq> 0 \<or> th_event_info th AND RT_EVENT_FLAG_OR \<noteq> 0"




lemma event_set_wake_ok [simp]:
  "wake_ok (thread_upd t (\<lambda>th. th\<lparr>th_event_set := f th\<rparr>) k) u = wake_ok k u"
  by (simp add: wake_ok_def stat_suspended_def prio_ok_def)











lemma arm_timeout_event_fields:
  "arm_timeout t timeout k = Some k' \<Longrightarrow>
   th_event_set (k_thread k' u) = th_event_set (k_thread k u) \<and>
   th_event_info (k_thread k' u) = th_event_info (k_thread k u)"
  by (auto simp: arm_timeout_def start_thread_timer_def rt_timer_start_def timer_start_def Let_def
      timer_upd_def timer_remove_def rt_sched_thread_timer_start_def split: if_splits)

lemma event_fields_inv:
  "sched_inv (thread_upd t (\<lambda>th. th\<lparr>th_event_set := s, th_event_info := info\<rparr>) k) = sched_inv k"
  "sched_inv (thread_upd t (\<lambda>th. th\<lparr>th_error := e, th_event_set := s, th_event_info := info\<rparr>) k) = sched_inv k"
  by (rule sched_inv_same; rule same_sched_upd; simp add: stat_of_def)+

section \<open>Properties\<close>





text \<open>
  Receiving an event from a running thread: if the condition holds, the requested bits that
  are set are returned at once and, with the clear option, removed; if not, the call fails with a
  timeout at once when no waiting time is given, and otherwise suspends the caller with its
  request recorded, unsatisfied, on the wait list, from where it can be woken.
\<close>

theorem event_recv_correct:
  assumes "sched_inv k" and "k_current k = Some t" and "k_lock_nest k = 0" and "k_int_nest k = 0"
    and "stat_of (k_thread k t) = RT_THREAD_RUNNING" and "thread_timer_ok k t"
    and "timeout < 0x7FFFFFFF" and "stat_of (k_thread k u) = RT_THREAD_READY"
    and "eset \<noteq> 0" and "opt AND RT_EVENT_FLAG_AND \<noteq> 0 \<or> opt AND RT_EVENT_FLAG_OR \<noteq> 0"
  shows "let b = ev_set (k_event k i)
    in if (if opt AND RT_EVENT_FLAG_AND \<noteq> 0 then b AND eset = eset else b AND eset \<noteq> 0)
       then \<exists>k'. rt_event_recv i eset opt timeout k = Some (Done (RT_EOK, Some (b AND eset)), k') \<and>
         sched_inv k' \<and> k_queue k' = k_queue k \<and>
         ev_set (k_event k' i) = (if opt AND RT_EVENT_FLAG_CLEAR \<noteq> 0 then b AND NOT eset else b)
       else if timeout = 0
       then \<exists>k'. rt_event_recv i eset opt timeout k = Some (Done (- RT_ETIMEOUT, None), k') \<and>
         sched_inv k' \<and> k_event k' = k_event k \<and> k_queue k' = k_queue k
       else \<exists>k'. rt_event_recv i eset opt timeout k = Some (Blocked (), k') \<and> sched_inv k' \<and>
         scheduled k' \<and> k_current k' \<noteq> Some t \<and> t \<in> set (k_queue k' (EventQ i)) \<and> wake_ok k' t \<and>
         k_event k' = k_event k \<and> th_event_set (k_thread k' t) = eset \<and>
         valid_option (k_thread k' t) \<and> \<not> satisfied b (k_thread k' t)"
proof -
  have av: "scheduler_available True k"
    using assms(2-4) by (simp add: scheduler_available_def rt_critical_level_def
        in_thread_context_def not_in_interrupt_def)
  define k1 where "k1 = set_error (- RT_EINTR) t k"
  define k2 where "k2 = thread_upd t (\<lambda>th. th\<lparr>th_event_set := eset, th_event_info := opt\<rparr>) k1"
  define b where "b = ev_set (k_event k i)"
  define sat where "sat = (if opt AND 1 \<noteq> 0 then b AND eset = eset else b AND eset \<noteq> 0)"
  have k2: "sched_inv k2" "k_current k2 = Some t" "k_lock_nest k2 = 0" "stat_of (k_thread k2 t) = 3"
    "thread_timer_ok k2 t" "stat_of (k_thread k2 u) = 2" "k_event k2 = k_event k"
    using assms(1-8) by (simp_all add: k2_def k1_def event_fields_inv) (auto simp: thread_timer_ok_def stat_of_def)
  obtain k3 k4 where bl: "rt_thread_suspend_to_list t (Some (EventQ i)) (ev_flag (k_event k2 i)) RT_UNINTERRUPTIBLE k2
      = Some (RT_EOK, k3)"
    "arm_timeout t timeout k3 = Some k4" "sched_inv (rt_schedule k4)" "scheduled (rt_schedule k4)"
    "k_current (rt_schedule k4) \<noteq> Some t" "t \<in> set (k_queue (rt_schedule k4) (EventQ i))"
    "wake_ok (rt_schedule k4) t"
    "k_thread k3 = k_thread (suspended_state t (Some (EventQ i)) (ev_flag (k_event k2 i)) RT_UNINTERRUPTIBLE k2)"
    using event_object.block_on[OF k2(1-5) assms(7) k2(6)] by metis
  have ev4: "k_event (rt_schedule k4) = k_event k"
    using arm_timeout_frame[OF bl(2)] bl(1) k2(2,7) by (auto simp: suspend_eq split: if_splits)
  have th4: "th_event_set (k_thread k4 t) = eset" "th_event_info (k_thread k4 t) = opt"
    using arm_timeout_event_fields[OF bl(2), of t] by (simp_all add: bl(8) k2_def)
  have opt: "\<not> (opt AND 1 = 0 \<and> opt AND 2 = 0)" using assms(10) by blast
  have recv: "rt_event_recv i eset opt timeout k =
    (if sat then Some (Done (RT_EOK, Some (b AND eset)),
       (if opt AND 4 \<noteq> 0 then event_upd i (\<lambda>e. e\<lparr>ev_set := ev_set e AND NOT eset\<rparr>) else id)
       (thread_upd t (\<lambda>th. th\<lparr>th_error := RT_EOK, th_event_set := b AND eset, th_event_info := opt\<rparr>) k1))
     else if timeout = 0 then Some (Done (- RT_ETIMEOUT, None), set_error (- RT_ETIMEOUT) t k1)
     else Some (Blocked (), rt_schedule k4))"
    using av assms(2,9) opt bl(1,2)
    by (simp add: rt_event_recv_def event_recv_def rt_thread_self_def Let_def k1_def[symmetric]
        k2_def[symmetric] sat_def b_def) (simp add: k1_def)
  have "satisfied b (k_thread (rt_schedule k4) t) = sat" "valid_option (k_thread (rt_schedule k4) t)"
    using opt by (auto simp: satisfied_def valid_option_def th4 sat_def and.commute)
  then show ?thesis
    using bl(3-7) ev4 th4 assms(1)
    unfolding recv Let_def b_def[symmetric] sat_def[symmetric]
    by (simp add: event_fields_inv k1_def) (simp add: b_def)
qed

theorem event_recv_correct_witness:
  "\<exists>k'. rt_event_recv 0 3 1 50 sleep_example = Some (Blocked (), k') \<and>
     1 \<in> set (k_queue k' (EventQ 0)) \<and> wake_ok k' 1"
proof -
  have "ev_set (k_event sleep_example 0) = 0"
    by (simp add: sleep_example_def sched_example_def kernel0_def)
  then show ?thesis
    using event_recv_correct [OF sleep_example_facts(1-6) _ sleep_example_facts(7), of 50 3 1 0] by auto
qed

end
