(* ===== verification/Channel.thy ===== *)
theory Channel
  imports Blocking
begin

text \<open>
  What mailboxes and message queues promise as channels between threads: messages are received in
  the order in which they were sent, none is lost and none invented. The locale \<open>fifo_channel\<close>
  states the laws of the steps of one channel, a trace collects what was sent and received over
  any interleaving of such steps, and the conservation law is proved once. The state \<open>'s\<close> is the
  kernel, for message queues together with what the calls in progress hold.
\<close>

text \<open>
  A trace from \<open>k0\<close>: \<open>ss\<close> are the messages sent and \<open>rs\<close> the messages received so far, in order.
  A neutral step is anything else that may happen: a call that fails or blocks, a timeout, other
  threads.
\<close>

inductive chan_trace :: "('m \<Rightarrow> 's \<Rightarrow> 's \<Rightarrow> bool) \<Rightarrow> ('m \<Rightarrow> 's \<Rightarrow> 's \<Rightarrow> bool) \<Rightarrow>
    ('s \<Rightarrow> 's \<Rightarrow> bool) \<Rightarrow> 's \<Rightarrow> 'm list \<Rightarrow> 'm list \<Rightarrow> 's \<Rightarrow> bool"
  for sends receives neutral k0 where
  start: "chan_trace sends receives neutral k0 [] [] k0"
| send: "chan_trace sends receives neutral k0 ss rs k \<Longrightarrow> sends m k k' \<Longrightarrow>
    chan_trace sends receives neutral k0 (ss @ [m]) rs k'"
| receive: "chan_trace sends receives neutral k0 ss rs k \<Longrightarrow> receives m k k' \<Longrightarrow>
    chan_trace sends receives neutral k0 ss (rs @ [m]) k'"
| other: "chan_trace sends receives neutral k0 ss rs k \<Longrightarrow> neutral k k' \<Longrightarrow>
    chan_trace sends receives neutral k0 ss rs k'"

locale fifo_channel =
  fixes invar :: "'s \<Rightarrow> bool"
    and contents :: "'s \<Rightarrow> 'm list"
    and capacity :: "'s \<Rightarrow> nat"
    and sends :: "'m \<Rightarrow> 's \<Rightarrow> 's \<Rightarrow> bool"
    and receives :: "'m \<Rightarrow> 's \<Rightarrow> 's \<Rightarrow> bool"
    and neutral :: "'s \<Rightarrow> 's \<Rightarrow> bool"
  assumes send_law: "invar k \<Longrightarrow> sends m k k' \<Longrightarrow>
      invar k' \<and> contents k' = contents k @ [m] \<and> capacity k' = capacity k"
    and receive_law: "invar k \<Longrightarrow> receives m k k' \<Longrightarrow>
      invar k' \<and> contents k = m # contents k' \<and> capacity k' = capacity k"
    and neutral_law: "invar k \<Longrightarrow> neutral k k' \<Longrightarrow>
      invar k' \<and> contents k' = contents k \<and> capacity k' = capacity k"
    and bounded: "invar k \<Longrightarrow> length (contents k) \<le> capacity k"
begin

lemma trace_law:
  assumes "chan_trace sends receives neutral k0 ss rs k" "invar k0"
  shows "invar k \<and> contents k0 @ ss = rs @ contents k \<and> capacity k = capacity k0"
  using assms
proof (induction rule: chan_trace.induct)
  case start
  then show ?case by simp
next
  case (send ss rs k m k')
  then show ?case using send_law[of k m k'] by (metis append.assoc)
next
  case (receive ss rs k m k')
  then show ?case using receive_law[of k m k'] by (metis append.assoc append_Cons append_Nil)
next
  case (other ss rs k k')
  then show ?case using neutral_law[of k k'] by metis
qed

text \<open>The receivers are never ahead of the senders and never further behind than the capacity.\<close>

lemma trace_bounds:
  assumes "chan_trace sends receives neutral k0 ss rs k" "invar k0"
  shows "length rs \<le> length (contents k0) + length ss"
    "length (contents k0) + length ss \<le> length rs + capacity k0"
proof -
  note t = trace_law[OF assms]
  have l: "length (contents k0) + length ss = length rs + length (contents k)"
    using arg_cong[OF conjunct1[OF conjunct2[OF t]], of length] by simp
  then show "length rs \<le> length (contents k0) + length ss" by simp
  show "length (contents k0) + length ss \<le> length rs + capacity k0"
    using l t bounded[of k] by simp
qed

end

end
