(* ===== verification/Mailbox.thy ===== *)
theory Mailbox
  imports Channel
begin

text \<open>
  Mailboxes (\<^verbatim>\<open>src/ipc.c\<close>, \<^verbatim>\<open>rt_mb_*\<close>): a ring of 32-bit words with a wait list for receivers and
  one for senders. Both directions wait in a loop: a woken caller checks again and waits for the
  rest of its time. The ring stands for a bounded sequence; sending appends, urgent sending puts in
  front, receiving takes the first. The offsets and the count are 16 bits wide. For dynamic
  mailboxes the results of the two allocations are arguments.
\<close>

section \<open>Operations\<close>

abbreviation (input) RT_MB_ENTRY_MAX :: nat where "RT_MB_ENTRY_MAX \<equiv> 65535"

definition rt_mb_init :: "nat \<Rightarrow> u32 list \<Rightarrow> nat \<Rightarrow> ipc_flag \<Rightarrow> kernel \<Rightarrow> rt_err_t \<times> kernel" where
  "rt_mb_init i msgpool sz flag k =
     (RT_EOK, mailbox_upd i (\<lambda>_. \<lparr>mb_msg_pool = msgpool, mb_size = sz mod 0x10000, mb_entry = 0,
        mb_in_offset = 0, mb_out_offset = 0, mb_flag = flag\<rparr>)
      (k\<lparr>k_queue := (k_queue k)(MailboxQ i := [], MailboxSendQ i := [])\<rparr>))"

definition rt_mb_create :: "nat option \<Rightarrow> u32 list option \<Rightarrow> nat \<Rightarrow> ipc_flag \<Rightarrow> kernel \<Rightarrow>
    (nat option \<times> kernel) option" where
  "rt_mb_create obj mem sz flag k =
     (if \<not> not_in_interrupt k then None
      else case obj of
        None \<Rightarrow> Some (None, k)
      | Some i \<Rightarrow> (case mem of
          None \<Rightarrow> Some (None, mailbox_upd i (\<lambda>mb. mb\<lparr>mb_size := sz mod 0x10000, mb_flag := flag\<rparr>)
                    (k\<lparr>k_queue := (k_queue k)(MailboxQ i := [])\<rparr>))
        | Some msgpool \<Rightarrow> Some (Some i, snd (rt_mb_init i msgpool sz flag k))))"

definition mb_resume_everyone :: "nat \<Rightarrow> kernel \<Rightarrow> kernel" where
  "mb_resume_everyone i k =
     rt_susp_list_resume_all (MailboxSendQ i) RT_ERROR (rt_susp_list_resume_all (MailboxQ i) RT_ERROR k)"

definition rt_mb_detach :: "nat \<Rightarrow> kernel \<Rightarrow> rt_err_t \<times> kernel" where
  "rt_mb_detach i k = (RT_EOK, mb_resume_everyone i k)"

definition rt_mb_delete :: "nat \<Rightarrow> kernel \<Rightarrow> (rt_err_t \<times> kernel) option" where
  "rt_mb_delete i k =
     (if not_in_interrupt k
      then Some (RT_EOK, rt_exit_critical (mb_resume_everyone i (snd (rt_enter_critical k)))) else None)"

text \<open>Advancing an offset: it is incremented in 16 bits and set to 0 at the end of the ring.\<close>

definition mb_next :: "nat \<Rightarrow> nat \<Rightarrow> nat" where
  "mb_next sz off = (let off' = (off + 1) mod 0x10000 in if off' \<ge> sz then 0 else off')"

text \<open>Storing a word at the end of the ring, with the count checked after the store.\<close>

definition mb_store :: "u32 \<Rightarrow> rt_mailbox \<Rightarrow> bool \<times> rt_mailbox" where
  "mb_store v mb =
     (let pool = (mb_msg_pool mb)[mb_in_offset mb := v];
          mb1 = mb\<lparr>mb_msg_pool := pool, mb_in_offset := mb_next (mb_size mb) (mb_in_offset mb)\<rparr>
      in if mb_entry mb1 < RT_MB_ENTRY_MAX then (True, mb1\<lparr>mb_entry := mb_entry mb1 + 1\<rparr>)
         else (False, mb1))"

definition mb_put :: "nat \<Rightarrow> u32 \<Rightarrow> kernel \<Rightarrow> rt_err_t \<times> kernel" where
  "mb_put i v k =
     (let (ok, mb) = mb_store v (k_mailbox k i);
          k1 = mailbox_upd i (\<lambda>_. mb) k
      in if ok then (RT_EOK, wake_one (MailboxQ i) k1) else (- RT_EFULL, k1))"

text \<open>One pass of the loop of the sender \<open>t\<close>.\<close>

definition mb_send_loop :: "nat \<Rightarrow> u32 \<Rightarrow> suspend_flag \<Rightarrow> tid option \<Rightarrow> int \<times> u32 \<Rightarrow> kernel \<Rightarrow>
    ((rt_err_t, int \<times> u32) flow \<times> kernel) option" where
  "mb_send_loop i v suspend_flag self w k =
     (let (timeout, tick_delta) = w
      in if mb_entry (k_mailbox k i) = mb_size (k_mailbox k i)
         then case self of
                None \<Rightarrow> None
              | Some t \<Rightarrow>
                  let k1 = set_error (- RT_EINTR) t k
                  in if timeout = 0 then Some (Done (- RT_EFULL), k1)
                     else timed_wait (MailboxSendQ i) (mb_flag (k_mailbox k1 i)) suspend_flag t timeout tick_delta k1
         else let (ret, k1) = mb_put i v k in Some (Done ret, k1))"

definition mb_send_wait :: "nat \<Rightarrow> u32 \<Rightarrow> int \<Rightarrow> suspend_flag \<Rightarrow> kernel \<Rightarrow>
    ((rt_err_t, int \<times> u32) flow \<times> kernel) option" where
  "mb_send_wait i v timeout suspend_flag k =
     (if \<not> scheduler_available (timeout \<noteq> 0) k then None
      else if mb_entry (k_mailbox k i) = mb_size (k_mailbox k i) \<and> timeout = 0
      then Some (Done (- RT_EFULL), k)
      else mb_send_loop i v suspend_flag (rt_thread_self k) (timeout, 0) k)"

text \<open>The sender runs again, with what it remembered.\<close>

definition mb_send_wait_resume :: "nat \<Rightarrow> u32 \<Rightarrow> suspend_flag \<Rightarrow> tid \<Rightarrow> int \<times> u32 \<Rightarrow> kernel \<Rightarrow>
    ((rt_err_t, int \<times> u32) flow \<times> kernel) option" where
  "mb_send_wait_resume i v suspend_flag t w k =
     (if th_error (k_thread k t) \<noteq> RT_EOK then Some (Done (th_error (k_thread k t)), k)
      else mb_send_loop i v suspend_flag (Some t) (timeout_left (k_tick k) w) k)"

definition rt_mb_send_wait :: "nat \<Rightarrow> u32 \<Rightarrow> int \<Rightarrow> kernel \<Rightarrow> ((rt_err_t, int \<times> u32) flow \<times> kernel) option" where
  "rt_mb_send_wait i v timeout = mb_send_wait i v timeout RT_UNINTERRUPTIBLE"

definition rt_mb_send_wait_interruptible ::
  "nat \<Rightarrow> u32 \<Rightarrow> int \<Rightarrow> kernel \<Rightarrow> ((rt_err_t, int \<times> u32) flow \<times> kernel) option" where
  "rt_mb_send_wait_interruptible i v timeout = mb_send_wait i v timeout RT_INTERRUPTIBLE"

definition rt_mb_send_wait_killable ::
  "nat \<Rightarrow> u32 \<Rightarrow> int \<Rightarrow> kernel \<Rightarrow> ((rt_err_t, int \<times> u32) flow \<times> kernel) option" where
  "rt_mb_send_wait_killable i v timeout = mb_send_wait i v timeout RT_KILLABLE"

definition rt_mb_send :: "nat \<Rightarrow> u32 \<Rightarrow> kernel \<Rightarrow> ((rt_err_t, int \<times> u32) flow \<times> kernel) option" where
  "rt_mb_send i v = rt_mb_send_wait i v 0"

definition rt_mb_send_interruptible ::
  "nat \<Rightarrow> u32 \<Rightarrow> kernel \<Rightarrow> ((rt_err_t, int \<times> u32) flow \<times> kernel) option" where
  "rt_mb_send_interruptible i v = rt_mb_send_wait_interruptible i v 0"

definition rt_mb_send_killable ::
  "nat \<Rightarrow> u32 \<Rightarrow> kernel \<Rightarrow> ((rt_err_t, int \<times> u32) flow \<times> kernel) option" where
  "rt_mb_send_killable i v = rt_mb_send_wait_killable i v 0"

definition mb_store_front :: "u32 \<Rightarrow> rt_mailbox \<Rightarrow> rt_mailbox" where
  "mb_store_front v mb =
     (let out = (if mb_out_offset mb > 0 then mb_out_offset mb - 1 else mb_size mb - 1)
      in mb\<lparr>mb_out_offset := out, mb_msg_pool := (mb_msg_pool mb)[out := v],
            mb_entry := (mb_entry mb + 1) mod 0x10000\<rparr>)"

definition rt_mb_urgent :: "nat \<Rightarrow> u32 \<Rightarrow> kernel \<Rightarrow> rt_err_t \<times> kernel" where
  "rt_mb_urgent i v k =
     (if mb_entry (k_mailbox k i) = mb_size (k_mailbox k i) then (- RT_EFULL, k)
      else (RT_EOK, wake_one (MailboxQ i) (mailbox_upd i (mb_store_front v) k)))"

definition mb_fetch :: "rt_mailbox \<Rightarrow> u32 \<times> rt_mailbox" where
  "mb_fetch mb =
     (let v = mb_msg_pool mb ! mb_out_offset mb;
          mb1 = mb\<lparr>mb_out_offset := mb_next (mb_size mb) (mb_out_offset mb)\<rparr>
      in (v, if mb_entry mb1 > 0 then mb1\<lparr>mb_entry := mb_entry mb1 - 1\<rparr> else mb1))"

definition mb_get :: "nat \<Rightarrow> kernel \<Rightarrow> u32 \<times> kernel" where
  "mb_get i k =
     (let (v, mb) = mb_fetch (k_mailbox k i)
      in (v, wake_one (MailboxSendQ i) (mailbox_upd i (\<lambda>_. mb) k)))"

definition mb_recv_loop :: "nat \<Rightarrow> suspend_flag \<Rightarrow> tid option \<Rightarrow> int \<times> u32 \<Rightarrow> kernel \<Rightarrow>
    ((rt_err_t \<times> u32 option, int \<times> u32) flow \<times> kernel) option" where
  "mb_recv_loop i suspend_flag self w k =
     (let (timeout, tick_delta) = w
      in if mb_entry (k_mailbox k i) = 0
         then case self of
                None \<Rightarrow> None
              | Some t \<Rightarrow>
                  let k1 = set_error (- RT_EINTR) t k
                  in if timeout = 0 then Some (Done (- RT_ETIMEOUT, None), set_error (- RT_ETIMEOUT) t k1)
                     else do {
                       (r, k2) \<leftarrow> timed_wait (MailboxQ i) (mb_flag (k_mailbox k1 i)) suspend_flag t
                                   timeout tick_delta k1;
                       Some (case r of Done e \<Rightarrow> Done (e, None) | Blocked c \<Rightarrow> Blocked c, k2)
                     }
         else let (v, k1) = mb_get i k in Some (Done (RT_EOK, Some v), k1))"

definition mb_recv :: "nat \<Rightarrow> int \<Rightarrow> suspend_flag \<Rightarrow> kernel \<Rightarrow>
    ((rt_err_t \<times> u32 option, int \<times> u32) flow \<times> kernel) option" where
  "mb_recv i timeout suspend_flag k =
     (if \<not> scheduler_available (timeout \<noteq> 0) k then None
      else if mb_entry (k_mailbox k i) = 0 \<and> timeout = 0 then Some (Done (- RT_ETIMEOUT, None), k)
      else mb_recv_loop i suspend_flag (rt_thread_self k) (timeout, 0) k)"

definition mb_recv_resume :: "nat \<Rightarrow> suspend_flag \<Rightarrow> tid \<Rightarrow> int \<times> u32 \<Rightarrow> kernel \<Rightarrow>
    ((rt_err_t \<times> u32 option, int \<times> u32) flow \<times> kernel) option" where
  "mb_recv_resume i suspend_flag t w k =
     (if th_error (k_thread k t) \<noteq> RT_EOK then Some (Done (th_error (k_thread k t), None), k)
      else mb_recv_loop i suspend_flag (Some t) (timeout_left (k_tick k) w) k)"

definition rt_mb_recv :: "nat \<Rightarrow> int \<Rightarrow> kernel \<Rightarrow>
    ((rt_err_t \<times> u32 option, int \<times> u32) flow \<times> kernel) option" where
  "rt_mb_recv i timeout = mb_recv i timeout RT_UNINTERRUPTIBLE"

definition rt_mb_recv_interruptible :: "nat \<Rightarrow> int \<Rightarrow> kernel \<Rightarrow>
    ((rt_err_t \<times> u32 option, int \<times> u32) flow \<times> kernel) option" where
  "rt_mb_recv_interruptible i timeout = mb_recv i timeout RT_INTERRUPTIBLE"

definition rt_mb_recv_killable :: "nat \<Rightarrow> int \<Rightarrow> kernel \<Rightarrow>
    ((rt_err_t \<times> u32 option, int \<times> u32) flow \<times> kernel) option" where
  "rt_mb_recv_killable i timeout = mb_recv i timeout RT_KILLABLE"

definition rt_mb_control :: "nat \<Rightarrow> bool \<Rightarrow> kernel \<Rightarrow> rt_err_t \<times> kernel" where
  "rt_mb_control i reset k =
     (if reset
      then (RT_EOK, rt_schedule (mailbox_upd i (\<lambda>mb. mb\<lparr>mb_entry := 0, mb_in_offset := 0, mb_out_offset := 0\<rparr>)
              (mb_resume_everyone i k)))
      else (- RT_ERROR, k))"

section \<open>The ring as a sequence\<close>

definition mb_ok :: "rt_mailbox \<Rightarrow> bool" where
  "mb_ok mb \<longleftrightarrow> length (mb_msg_pool mb) = mb_size mb \<and> mb_size mb < 0x10000 \<and> mb_entry mb \<le> mb_size mb \<and>
     (0 < mb_size mb \<longrightarrow> mb_out_offset mb < mb_size mb \<and>
        mb_in_offset mb = (mb_out_offset mb + mb_entry mb) mod mb_size mb)"

definition mb_words :: "rt_mailbox \<Rightarrow> u32 list" where
  "mb_words mb = map (\<lambda>j. mb_msg_pool mb ! ((mb_out_offset mb + j) mod mb_size mb)) [0..<mb_entry mb]"

lemma length_mb_words [simp]: "length (mb_words mb) = mb_entry mb"
  by (simp add: mb_words_def)

lemma mod_add_inj:
  assumes "(a + i) mod n = (a + j) mod n" "i < n" "j < n"
  shows "i = (j :: nat)"
proof -
  have *: "i = j" if "(a + i) mod n = (a + j) mod n" "i \<le> j" "j < n" for i j
  proof -
    have "n dvd (a + j) - (a + i)" using that(1,2) mod_eq_dvd_iff_nat[of "a + i" "a + j" n] by simp
    then have "n dvd j - i" by simp
    then show ?thesis using that(2,3) nat_dvd_not_less[of "j - i" n] by (cases "j = i") auto
  qed
  show ?thesis using *[of i j] *[of j i] assms by (cases "i \<le> j") simp_all
qed

lemma mb_next_mod:
  assumes "a < n" "n < 0x10000"
  shows "mb_next n a = Suc a mod n"
proof (cases "a + 1 = n")
  case True
  then show ?thesis using assms(2) by (simp add: mb_next_def)
next
  case False
  then show ?thesis using assms by (simp add: mb_next_def)
qed

text \<open>Writing behind the last word does not touch the words in the ring.\<close>

lemma ring_read_other:
  assumes "i < n" "j < n" "i \<noteq> j"
  shows "xs[(a + i) mod n := v] ! ((a + j) mod n) = xs ! ((a + j) mod (n :: nat))"
  using mod_add_inj[of a i n j] assms by (metis nth_list_update_neq)

lemma mb_store_words:
  assumes "mb_ok mb" "mb_entry mb < mb_size mb"
  shows "fst (mb_store v mb)" "mb_ok (snd (mb_store v mb))"
    "mb_words (snd (mb_store v mb)) = mb_words mb @ [v]" "mb_size (snd (mb_store v mb)) = mb_size mb"
    "mb_flag (snd (mb_store v mb)) = mb_flag mb"
proof -
  define n where "n = mb_size mb"
  define a where "a = mb_out_offset mb"
  define e where "e = mb_entry mb"
  have m: "length (mb_msg_pool mb) = n" "n < 0x10000" "e < n" "a < n" "mb_in_offset mb = (a + e) mod n"
    using assms by (auto simp: mb_ok_def n_def a_def e_def)
  have inn: "(a + e) mod n < n" using m(3) by simp
  have st: "mb_store v mb = (True, mb\<lparr>mb_msg_pool := (mb_msg_pool mb)[(a + e) mod n := v],
      mb_in_offset := ((a + e) mod n + 1) mod n, mb_entry := e + 1\<rparr>)"
    using mb_next_mod[OF inn m(2)] m(2,3,5) by (simp add: mb_store_def Let_def n_def[symmetric] e_def[symmetric])
  show "fst (mb_store v mb)" "mb_size (snd (mb_store v mb)) = mb_size mb"
    "mb_flag (snd (mb_store v mb)) = mb_flag mb" by (simp_all add: st)
  have "((a + e) mod n + 1) mod n = (a + (e + 1)) mod n" by (metis add.assoc mod_add_left_eq)
  then show "mb_ok (snd (mb_store v mb))"
    using m by (simp add: st mb_ok_def n_def[symmetric] a_def[symmetric])
  have "map (\<lambda>j. (mb_msg_pool mb)[(a + e) mod n := v] ! ((a + j) mod n)) [0..<e]
      = map (\<lambda>j. mb_msg_pool mb ! ((a + j) mod n)) [0..<e]"
    using m(3) by (intro map_cong) (auto intro!: ring_read_other)
  then show "mb_words (snd (mb_store v mb)) = mb_words mb @ [v]"
    using m inn by (simp add: st mb_words_def n_def[symmetric] a_def[symmetric] e_def[symmetric])
qed

lemma mb_fetch_words:
  assumes "mb_ok mb" "0 < mb_entry mb"
  shows "mb_words mb = fst (mb_fetch mb) # mb_words (snd (mb_fetch mb))" "mb_ok (snd (mb_fetch mb))"
    "mb_size (snd (mb_fetch mb)) = mb_size mb" "mb_flag (snd (mb_fetch mb)) = mb_flag mb"
proof -
  define n where "n = mb_size mb"
  define a where "a = mb_out_offset mb"
  define e where "e = mb_entry mb - 1"
  have m: "length (mb_msg_pool mb) = n" "n < 0x10000" "e < n" "a < n" "mb_in_offset mb = (a + (e + 1)) mod n"
    "mb_entry mb = Suc e"
    using assms by (auto simp: mb_ok_def n_def a_def e_def)
  have f: "mb_fetch mb = (mb_msg_pool mb ! a, mb\<lparr>mb_out_offset := (a + 1) mod n, mb_entry := e\<rparr>)"
    using mb_next_mod[OF m(4,2)] m(6) by (simp add: mb_fetch_def Let_def n_def[symmetric] a_def[symmetric])
  show "mb_size (snd (mb_fetch mb)) = mb_size mb" "mb_flag (snd (mb_fetch mb)) = mb_flag mb"
    by (simp_all add: f)
  have s: "((a + 1) mod n + j) mod n = (a + Suc j) mod n" for j by (simp add: mod_add_left_eq)
  show "mb_ok (snd (mb_fetch mb))"
    using m s[of e] by (simp add: f mb_ok_def n_def[symmetric])
  have "mb_words mb = map (\<lambda>j. mb_msg_pool mb ! ((a + j) mod n)) [0..<Suc e]"
    by (simp only: mb_words_def m(6) a_def n_def)
  also have "\<dots> = mb_msg_pool mb ! a # map (\<lambda>j. mb_msg_pool mb ! (((a + 1) mod n + j) mod n)) [0..<e]"
    using m(4) by (simp only: map_upt_Suc s) simp
  finally show "mb_words mb = fst (mb_fetch mb) # mb_words (snd (mb_fetch mb))"
    by (simp add: f mb_words_def n_def)
qed

lemma mb_store_front_words:
  assumes "mb_ok mb" "mb_entry mb < mb_size mb"
  shows "mb_ok (mb_store_front v mb)" "mb_words (mb_store_front v mb) = v # mb_words mb"
    "mb_size (mb_store_front v mb) = mb_size mb" "mb_flag (mb_store_front v mb) = mb_flag mb"
proof -
  define n where "n = mb_size mb"
  define a where "a = mb_out_offset mb"
  define e where "e = mb_entry mb"
  define b where "b = (if a > 0 then a - 1 else n - 1)"
  have m: "length (mb_msg_pool mb) = n" "n < 0x10000" "e < n" "a < n" "mb_in_offset mb = (a + e) mod n"
    using assms by (auto simp: mb_ok_def n_def a_def e_def)
  have b: "b < n" "a = (b + 1) mod n" using m(3,4) by (auto simp: b_def)
  have st: "mb_store_front v mb = mb\<lparr>mb_out_offset := b, mb_msg_pool := (mb_msg_pool mb)[b := v], mb_entry := e + 1\<rparr>"
    using m(2,3) by (simp add: mb_store_front_def Let_def n_def[symmetric] a_def[symmetric] e_def[symmetric] b_def)
  show "mb_size (mb_store_front v mb) = mb_size mb" "mb_flag (mb_store_front v mb) = mb_flag mb"
    by (simp_all add: st)
  have s: "(a + j) mod n = (b + Suc j) mod n" for j by (simp add: b(2) mod_add_left_eq)
  show "mb_ok (mb_store_front v mb)"
    using m b(1) s[of e] by (simp add: st mb_ok_def n_def[symmetric])
  have "map (\<lambda>j. (mb_msg_pool mb)[b := v] ! ((b + Suc j) mod n)) [0..<e]
      = map (\<lambda>j. mb_msg_pool mb ! ((a + j) mod n)) [0..<e]"
  proof (intro map_cong refl)
    fix j assume "j \<in> set [0..<e]"
    then show "(mb_msg_pool mb)[b := v] ! ((b + Suc j) mod n) = mb_msg_pool mb ! ((a + j) mod n)"
      using m(3) b(1) ring_read_other[of 0 n "Suc j" "mb_msg_pool mb" b v] by (simp add: s)
  qed
  moreover have "mb_words (mb_store_front v mb) =
      map (\<lambda>j. (mb_msg_pool mb)[b := v] ! ((b + j) mod n)) [0..<Suc e]"
    by (simp only: st mb_words_def n_def) simp
  moreover have "\<dots> = v # map (\<lambda>j. (mb_msg_pool mb)[b := v] ! ((b + Suc j) mod n)) [0..<e]"
    using m(1) b(1) by (simp only: map_upt_Suc) simp
  ultimately show "mb_words (mb_store_front v mb) = v # mb_words mb"
    by (simp add: mb_words_def n_def a_def e_def)
qed

section \<open>Effects on the kernel state\<close>

lemma mailbox_upd_frame [simp]:
  "k_mailbox (mailbox_upd i f k) = (k_mailbox k)(i := f (k_mailbox k i))"
  "k_queue (mailbox_upd i f k) = k_queue k"
  "k_thread (mailbox_upd i f k) = k_thread k"
  "k_current (mailbox_upd i f k) = k_current k"
  "k_lock_nest (mailbox_upd i f k) = k_lock_nest k"
  "k_timer (mailbox_upd i f k) = k_timer k"
  by (simp_all add: mailbox_upd_def)

lemma mailbox_upd_inv [simp]: "sched_inv (mailbox_upd i f k) = sched_inv k"
  by (rule sched_inv_same) (simp add: same_sched_def mailbox_upd_def)

lemma mailbox_upd_wake_ok [simp]: "wake_ok (mailbox_upd i f k) t = wake_ok k t"
  by (simp add: wake_ok_def)

text \<open>The three ways the ring changes.\<close>

lemma mb_put_eq:
  assumes "mb_ok (k_mailbox k i)" "mb_entry (k_mailbox k i) \<noteq> mb_size (k_mailbox k i)"
  shows "mb_put i v k = (RT_EOK, wake_one (MailboxQ i)
    (mailbox_upd i (\<lambda>_. snd (mb_store v (k_mailbox k i))) k))"
proof -
  have "mb_entry (k_mailbox k i) < mb_size (k_mailbox k i)" using assms by (simp add: mb_ok_def)
  then show ?thesis using mb_store_words(1)[OF assms(1)] by (simp add: mb_put_def split_beta)
qed

lemma mb_get_eq:
  "mb_get i k = (fst (mb_fetch (k_mailbox k i)), wake_one (MailboxSendQ i)
    (mailbox_upd i (\<lambda>_. snd (mb_fetch (k_mailbox k i))) k))"
  by (simp add: mb_get_def split_beta)

text \<open>A sender or receiver that does not succeed leaves the ring alone.\<close>

lemma mb_send_loop_cases:
  assumes "mb_send_loop i v sf self w k = Some (r, k')" "sched_inv k" "mb_ok (k_mailbox k i)"
  shows "sched_inv k'"
    "r = Done RT_EOK \<Longrightarrow> mb_entry (k_mailbox k i) < mb_size (k_mailbox k i) \<and>
       k_mailbox k' = (k_mailbox k)(i := snd (mb_store v (k_mailbox k i)))"
    "r \<noteq> Done RT_EOK \<Longrightarrow> k_mailbox k' = k_mailbox k"
proof -
  obtain timeout td where w: "w = (timeout, td)" by (cases w)
  have *: "sched_inv k' \<and> (if r = Done RT_EOK then mb_entry (k_mailbox k i) < mb_size (k_mailbox k i) \<and>
       k_mailbox k' = (k_mailbox k)(i := snd (mb_store v (k_mailbox k i))) else k_mailbox k' = k_mailbox k)"
  proof (cases "mb_entry (k_mailbox k i) = mb_size (k_mailbox k i)")
    case False
    then show ?thesis
      using assms by (simp add: mb_send_loop_def w mb_put_eq) (auto simp: mb_ok_def wake_one_inv)
  next
    case True
    then obtain t where t: "self = Some t" using assms(1) by (auto simp: mb_send_loop_def w split: option.splits)
    show ?thesis
    proof (cases "timeout = 0")
      case True
      then show ?thesis using assms(1,2) t \<open>mb_entry _ = _\<close> by (auto simp: mb_send_loop_def w)
    next
      case False
      then have "timed_wait (MailboxSendQ i) (mb_flag (k_mailbox k i)) sf t timeout td
          (set_error (- RT_EINTR) t k) = Some (r, k')"
        using assms(1) t True by (simp add: mb_send_loop_def w)
      from timed_wait_frame[OF this] show ?thesis using assms(2) by simp
    qed
  qed
  then show "sched_inv k'" by simp
  from * show "r = Done RT_EOK \<Longrightarrow> mb_entry (k_mailbox k i) < mb_size (k_mailbox k i) \<and>
       k_mailbox k' = (k_mailbox k)(i := snd (mb_store v (k_mailbox k i)))" by simp
  from * show "r \<noteq> Done RT_EOK \<Longrightarrow> k_mailbox k' = k_mailbox k" by simp
qed

lemma mb_recv_loop_cases:
  assumes "mb_recv_loop i sf self w k = Some (r, k')" "sched_inv k"
  shows "sched_inv k'"
    "r = Done (RT_EOK, vo) \<Longrightarrow> 0 < mb_entry (k_mailbox k i) \<and> vo = Some (fst (mb_fetch (k_mailbox k i))) \<and>
       k_mailbox k' = (k_mailbox k)(i := snd (mb_fetch (k_mailbox k i)))"
    "\<forall>vo. r \<noteq> Done (RT_EOK, vo) \<Longrightarrow> k_mailbox k' = k_mailbox k"
proof -
  obtain timeout td where w: "w = (timeout, td)" by (cases w)
  have *: "sched_inv k' \<and> (r = Done (RT_EOK, vo) \<longrightarrow> 0 < mb_entry (k_mailbox k i) \<and>
       vo = Some (fst (mb_fetch (k_mailbox k i))) \<and>
       k_mailbox k' = (k_mailbox k)(i := snd (mb_fetch (k_mailbox k i)))) \<and>
     ((\<forall>vo. r \<noteq> Done (RT_EOK, vo)) \<longrightarrow> k_mailbox k' = k_mailbox k)"
  proof (cases "mb_entry (k_mailbox k i) = 0")
    case False
    then show ?thesis
      using assms by (auto simp: mb_recv_loop_def w mb_get_eq wake_one_inv)
  next
    case True
    then obtain t where t: "self = Some t" using assms(1) by (auto simp: mb_recv_loop_def w split: option.splits)
    show ?thesis
    proof (cases "timeout = 0")
      case True
      then show ?thesis using assms(1,2) t \<open>mb_entry _ = 0\<close> by (auto simp: mb_recv_loop_def w)
    next
      case False
      then obtain r' where r': "timed_wait (MailboxQ i) (mb_flag (k_mailbox k i)) sf t timeout td
          (set_error (- RT_EINTR) t k) = Some (r', k')"
        "r = (case r' of Done e \<Rightarrow> Done (e, None) | Blocked c \<Rightarrow> Blocked c)"
        using assms(1) t True by (auto simp: mb_recv_loop_def w split: bind_splits)
      from timed_wait_frame[OF r'(1)] show ?thesis
        using assms(2) r'(2) by (auto split: flow.splits)
    qed
  qed
  then show "sched_inv k'" by simp
  from * show "r = Done (RT_EOK, vo) \<Longrightarrow> 0 < mb_entry (k_mailbox k i) \<and>
       vo = Some (fst (mb_fetch (k_mailbox k i))) \<and>
       k_mailbox k' = (k_mailbox k)(i := snd (mb_fetch (k_mailbox k i)))" by simp
  from * show "\<forall>vo. r \<noteq> Done (RT_EOK, vo) \<Longrightarrow> k_mailbox k' = k_mailbox k" by simp
qed

section \<open>The mailbox as a channel\<close>

text \<open>A call in progress: the first pass or a pass after having been woken.\<close>

definition mb_send_pass :: "nat \<Rightarrow> u32 \<Rightarrow> (rt_err_t, int \<times> u32) flow \<Rightarrow> kernel \<Rightarrow> kernel \<Rightarrow> bool" where
  "mb_send_pass i v r k k' \<longleftrightarrow>
     (\<exists>timeout sf. mb_send_wait i v timeout sf k = Some (r, k')) \<or>
     (\<exists>sf t w. mb_send_wait_resume i v sf t w k = Some (r, k'))"

definition mb_recv_pass :: "nat \<Rightarrow> (rt_err_t \<times> u32 option, int \<times> u32) flow \<Rightarrow> kernel \<Rightarrow> kernel \<Rightarrow> bool" where
  "mb_recv_pass i r k k' \<longleftrightarrow>
     (\<exists>timeout sf. mb_recv i timeout sf k = Some (r, k')) \<or>
     (\<exists>sf t w. mb_recv_resume i sf t w k = Some (r, k'))"

lemma mb_send_pass_cases:
  assumes "mb_send_pass i v r k k'" "sched_inv k" "mb_ok (k_mailbox k i)"
  shows "sched_inv k'"
    "r = Done RT_EOK \<Longrightarrow> mb_entry (k_mailbox k i) < mb_size (k_mailbox k i) \<and>
       k_mailbox k' = (k_mailbox k)(i := snd (mb_store v (k_mailbox k i)))"
    "r \<noteq> Done RT_EOK \<Longrightarrow> k_mailbox k' = k_mailbox k"
proof -
  consider (same) "k' = k" "r \<noteq> Done RT_EOK" | (loop) sf self w where "mb_send_loop i v sf self w k = Some (r, k')"
  proof -
    have "(k' = k \<and> r \<noteq> Done RT_EOK) \<or> (\<exists>sf self w. mb_send_loop i v sf self w k = Some (r, k'))"
      using assms(1) unfolding mb_send_pass_def mb_send_wait_def mb_send_wait_resume_def
      by (auto split: if_splits simp del: split_paired_Ex split_paired_All)
    then show ?thesis using that by blast
  qed
  then show "sched_inv k'"
    "r = Done RT_EOK \<Longrightarrow> mb_entry (k_mailbox k i) < mb_size (k_mailbox k i) \<and>
       k_mailbox k' = (k_mailbox k)(i := snd (mb_store v (k_mailbox k i)))"
    "r \<noteq> Done RT_EOK \<Longrightarrow> k_mailbox k' = k_mailbox k"
    using assms(2) mb_send_loop_cases[OF _ assms(2,3)] by (cases; auto)+
qed

lemma mb_recv_pass_cases:
  assumes "mb_recv_pass i r k k'" "sched_inv k"
  shows "sched_inv k'"
    "r = Done (RT_EOK, vo) \<Longrightarrow> 0 < mb_entry (k_mailbox k i) \<and> vo = Some (fst (mb_fetch (k_mailbox k i))) \<and>
       k_mailbox k' = (k_mailbox k)(i := snd (mb_fetch (k_mailbox k i)))"
    "\<forall>vo. r \<noteq> Done (RT_EOK, vo) \<Longrightarrow> k_mailbox k' = k_mailbox k"
proof -
  consider (same) "k' = k" "\<forall>vo. r \<noteq> Done (RT_EOK, vo)"
    | (loop) sf self w where "mb_recv_loop i sf self w k = Some (r, k')"
  proof -
    have "(k' = k \<and> (\<forall>vo. r \<noteq> Done (RT_EOK, vo))) \<or> (\<exists>sf self w. mb_recv_loop i sf self w k = Some (r, k'))"
      using assms(1) unfolding mb_recv_pass_def mb_recv_def mb_recv_resume_def
      by (auto split: if_splits simp del: split_paired_Ex split_paired_All)
    then show ?thesis using that by blast
  qed
  then show "sched_inv k'"
    "r = Done (RT_EOK, vo) \<Longrightarrow> 0 < mb_entry (k_mailbox k i) \<and> vo = Some (fst (mb_fetch (k_mailbox k i))) \<and>
       k_mailbox k' = (k_mailbox k)(i := snd (mb_fetch (k_mailbox k i)))"
    "\<forall>vo. r \<noteq> Done (RT_EOK, vo) \<Longrightarrow> k_mailbox k' = k_mailbox k"
    using assms(2) mb_recv_loop_cases[OF _ assms(2)] by (cases; auto)+
qed

definition mb_invar :: "nat \<Rightarrow> kernel \<Rightarrow> bool" where
  "mb_invar i k \<longleftrightarrow> sched_inv k \<and> mb_ok (k_mailbox k i)"

text \<open>
  The steps of the channel: a pass of a send that succeeds, a pass of a receive that succeeds, and
  anything else: a pass that fails or waits, or other activity that leaves the mailbox alone.
\<close>

definition mb_neutral :: "nat \<Rightarrow> kernel \<Rightarrow> kernel \<Rightarrow> bool" where
  "mb_neutral i k k' \<longleftrightarrow>
     (\<exists>v r. mb_send_pass i v r k k' \<and> r \<noteq> Done RT_EOK) \<or>
     (\<exists>r. mb_recv_pass i r k k' \<and> (\<forall>vo. r \<noteq> Done (RT_EOK, vo))) \<or>
     (sched_inv k' \<and> k_mailbox k' i = k_mailbox k i)"

interpretation mailbox: fifo_channel "mb_invar i" "\<lambda>k. mb_words (k_mailbox k i)" "\<lambda>k. mb_size (k_mailbox k i)"
  "\<lambda>v. mb_send_pass i v (Done RT_EOK)" "\<lambda>v. mb_recv_pass i (Done (RT_EOK, Some v))" "mb_neutral i" for i
proof unfold_locales
  fix k v k'
  assume a: "mb_invar i k" "mb_send_pass i v (Done 0) k k'"
  then have k: "sched_inv k" "mb_ok (k_mailbox k i)" by (simp_all add: mb_invar_def)
  note c = mb_send_pass_cases[OF a(2) k]
  then show "mb_invar i k' \<and> mb_words (k_mailbox k' i) = mb_words (k_mailbox k i) @ [v] \<and>
      mb_size (k_mailbox k' i) = mb_size (k_mailbox k i)"
    using mb_store_words[OF k(2)] by (simp add: mb_invar_def)
next
  fix k v k'
  assume a: "mb_invar i k" "mb_recv_pass i (Done (0, Some v)) k k'"
  then have k: "sched_inv k" "mb_ok (k_mailbox k i)" by (simp_all add: mb_invar_def)
  note c = mb_recv_pass_cases[OF a(2) k(1)]
  have "0 < mb_entry (k_mailbox k i)" "v = fst (mb_fetch (k_mailbox k i))"
    "k_mailbox k' i = snd (mb_fetch (k_mailbox k i))" using c(2)[of "Some v"] by simp_all
  then show "mb_invar i k' \<and> mb_words (k_mailbox k i) = v # mb_words (k_mailbox k' i) \<and>
      mb_size (k_mailbox k' i) = mb_size (k_mailbox k i)"
    using mb_fetch_words[OF k(2)] c(1) by (simp add: mb_invar_def)
next
  fix k k'
  assume a: "mb_invar i k" "mb_neutral i k k'"
  then have k: "sched_inv k" "mb_ok (k_mailbox k i)" by (simp_all add: mb_invar_def)
  have "sched_inv k' \<and> k_mailbox k' i = k_mailbox k i"
    using a(2) mb_send_pass_cases(1,3)[OF _ k] mb_recv_pass_cases(1,3)[OF _ k(1)] unfolding mb_neutral_def by metis
  then show "mb_invar i k' \<and> mb_words (k_mailbox k' i) = mb_words (k_mailbox k i) \<and>
      mb_size (k_mailbox k' i) = mb_size (k_mailbox k i)"
    using k(2) by (simp add: mb_invar_def)
next
  fix k
  assume "mb_invar i k"
  then show "length (mb_words (k_mailbox k i)) \<le> mb_size (k_mailbox k i)"
    by (simp add: mb_invar_def mb_ok_def)
qed

lemma mailbox_upd_first_woken [simp]: "first_woken q (mailbox_upd i f k) k' = first_woken q k k'"
  by (simp add: first_woken_def)

section \<open>Properties\<close>

text \<open>
  C5. A mailbox is a FIFO channel: over every interleaving of sends, receives, waiting, timeouts and
  other activity, the words received followed by the words still in the mailbox are the initial
  words followed by the words sent, in order; receivers are never ahead of senders and senders
  never ahead by more than the size.
\<close>

theorem mailbox_fifo:
  assumes "chan_trace (\<lambda>v. mb_send_pass i v (Done RT_EOK)) (\<lambda>v. mb_recv_pass i (Done (RT_EOK, Some v)))
      (mb_neutral i) k0 ss rs k"
    and "mb_invar i k0"
  shows "mb_words (k_mailbox k0 i) @ ss = rs @ mb_words (k_mailbox k i) \<and>
    mb_entry (k_mailbox k0 i) + length ss \<le> length rs + mb_size (k_mailbox k0 i)"
  using mailbox.trace_law[OF assms] mailbox.trace_bounds(2)[OF assms] by simp

definition mb_example :: kernel where
  "mb_example = sleep_example\<lparr>k_mailbox := (\<lambda>_. \<lparr>mb_msg_pool = [0, 0], mb_size = 2, mb_entry = 0,
     mb_in_offset = 1, mb_out_offset = 1, mb_flag = RT_IPC_FLAG_FIFO\<rparr>)\<rparr>"

lemma mb_example_facts:
  "sched_inv mb_example" "can_block mb_example 1" "mb_ok (k_mailbox mb_example 0)"
  "k_queue mb_example (MailboxQ 0) = []" "k_queue mb_example (MailboxSendQ 0) = []"
proof -
  have "same_sched sleep_example mb_example" by (simp add: same_sched_def mb_example_def)
  then show inv: "sched_inv mb_example" using sleep_example_facts(1) sched_inv_same by blast
  show "can_block mb_example 1"
    using inv sleep_example_can_block by (simp add: can_block_def mb_example_def thread_timer_ok_def)
qed (simp_all add: mb_example_def mb_ok_def sleep_example_def sched_example_def kernel0_def)

theorem mailbox_fifo_witness:
  "\<exists>k. chan_trace (\<lambda>v. mb_send_pass 0 v (Done 0)) (\<lambda>v. mb_recv_pass 0 (Done (0, Some v)))
     (mb_neutral 0) mb_example [7] [7] k \<and> mb_words (k_mailbox k 0) = []"
proof -
  let ?k1 = "mailbox_upd 0 (\<lambda>_. snd (mb_store 7 (k_mailbox mb_example 0))) mb_example"
  let ?k2 = "mailbox_upd 0 (\<lambda>_. snd (mb_fetch (k_mailbox ?k1 0))) ?k1"
  have "mb_send_wait 0 7 0 RT_UNINTERRUPTIBLE mb_example = Some (Done 0, ?k1)"
    using mb_example_facts(3,4)
    by (simp add: mb_send_wait_def scheduler_available_def mb_send_loop_def mb_put_eq mb_example_def wake_one_def)
  then have s: "mb_send_pass 0 7 (Done 0) mb_example ?k1" unfolding mb_send_pass_def by blast
  have "mb_recv 0 0 RT_UNINTERRUPTIBLE ?k1 = Some (Done (0, Some 7), ?k2)"
    using mb_example_facts(5)
    by (simp add: mb_recv_def scheduler_available_def mb_recv_loop_def mb_get_eq mb_example_def wake_one_def
        mb_store_def mb_fetch_def mb_next_def Let_def)
  then have r: "mb_recv_pass 0 (Done (0, Some 7)) ?k1 ?k2" unfolding mb_recv_pass_def by blast
  let ?tr = "chan_trace (\<lambda>v. mb_send_pass 0 v (Done 0)) (\<lambda>v. mb_recv_pass 0 (Done (0, Some v)))
     (mb_neutral 0) mb_example"
  have "?tr ([] @ [7]) [] ?k1" using chan_trace.start s by (rule chan_trace.send)
  then have t: "?tr ([] @ [7]) ([] @ [7]) ?k2" using r by (rule chan_trace.receive)
  have inv: "mb_invar 0 mb_example" using mb_example_facts(1,3) by (simp add: mb_invar_def)
  have "mb_words (k_mailbox mb_example 0) = []" by (simp add: mb_words_def mb_example_def)
  then show ?thesis using mailbox_fifo [OF t inv] t by (intro exI[of _ ?k2]) simp
qed

text \<open>
  Sending to a mailbox from a running thread: with room the word is appended and the first
  waiting receiver, if any, is woken; a full mailbox makes the call fail at once when no waiting
  time is given, and otherwise suspends the caller on the list of senders with the mailbox
  unchanged. The failure for a count of 65535 never happens.
\<close>

theorem mb_send_correct:
  assumes "can_block k t" and "timeout < 0x7FFFFFFF" and "mb_ok (k_mailbox k i)"
    and "k_queue k (MailboxQ i) \<noteq> [] \<longrightarrow> wake_ok k (hd (k_queue k (MailboxQ i)))"
  shows "if mb_entry (k_mailbox k i) < mb_size (k_mailbox k i)
    then \<exists>k'. rt_mb_send_wait i v timeout k = Some (Done RT_EOK, k') \<and> mb_invar i k' \<and>
      mb_words (k_mailbox k' i) = mb_words (k_mailbox k i) @ [v] \<and>
      first_woken (MailboxQ i) k k'
    else if timeout = 0 then rt_mb_send_wait i v timeout k = Some (Done (- RT_EFULL), k)
    else \<exists>k'. rt_mb_send_wait i v timeout k =
        Some (Blocked (timeout, if timeout > 0 then k_tick k else 0), k') \<and> mb_invar i k' \<and> scheduled k' \<and>
      k_current k' \<noteq> Some t \<and> t \<in> set (k_queue k' (MailboxSendQ i)) \<and> wake_ok k' t \<and>
      k_mailbox k' = k_mailbox k"
proof -
  note av = can_block_available[OF assms(1)] and self = can_block_self[OF assms(1)]
    and inv = can_block_inv[OF assms(1)]
  consider (room) "mb_entry (k_mailbox k i) < mb_size (k_mailbox k i)"
    | (full) "mb_entry (k_mailbox k i) = mb_size (k_mailbox k i)" using assms(3) by (fastforce simp: mb_ok_def)
  then show ?thesis
  proof cases
    case room
    let ?k1 = "mailbox_upd i (\<lambda>_. snd (mb_store v (k_mailbox k i))) k"
    have "rt_mb_send_wait i v timeout k = Some (Done RT_EOK, wake_one (MailboxQ i) ?k1)"
      using room av assms(3) by (simp add: rt_mb_send_wait_def mb_send_wait_def mb_send_loop_def mb_put_eq)
    then show ?thesis
      using room mb_store_words[OF assms(3) room, of v] mailbox_object.wake_one_first[of ?k1 i] inv assms(4)
      by (simp add: mb_invar_def wake_one_inv)
  next
    case full
    define k1 where "k1 = set_error (- RT_EINTR) t k"
    have k1: "can_block k1 t" "k_mailbox k1 = k_mailbox k" "k_tick k1 = k_tick k"
      using assms(1) by (simp_all add: k1_def)
    obtain k' where b: "timed_wait (MailboxSendQ i) (mb_flag (k_mailbox k1 i)) RT_UNINTERRUPTIBLE t timeout 0 k1 =
        Some (Blocked (timeout, if timeout > 0 then k_tick k1 else 0), k')"
      "sched_inv k'" "scheduled k'" "k_current k' \<noteq> Some t" "t \<in> set (k_queue k' (MailboxSendQ i))" "wake_ok k' t"
      using mailbox_sender.timed_wait_blocks[OF k1(1) assms(2)] by metis
    have "k_mailbox k' = k_mailbox k" using timed_wait_frame[OF b(1) can_block_inv[OF k1(1)]] k1(2) by simp
    moreover have "rt_mb_send_wait i v timeout k =
        (if timeout = 0 then Some (Done (- RT_EFULL), k)
         else Some (Blocked (timeout, if timeout > 0 then k_tick k else 0), k'))"
      using full av b(1) self k1(2,3)
      by (simp add: rt_mb_send_wait_def mb_send_wait_def mb_send_loop_def k1_def[symmetric])
    ultimately show ?thesis using full b(2-6) assms(3) by (cases "timeout = 0") (simp_all add: mb_invar_def)
  qed
qed

theorem mb_send_correct_witness:
  "\<exists>k'. rt_mb_send_wait 0 7 100 mb_example = Some (Done 0, k') \<and> mb_words (k_mailbox k' 0) = [7]"
proof -
  have "mb_entry (k_mailbox mb_example 0) < mb_size (k_mailbox mb_example 0)" "mb_words (k_mailbox mb_example 0) = []"
    by (simp_all add: mb_example_def mb_words_def)
  then show ?thesis
    using mb_send_correct [OF mb_example_facts(2) _ mb_example_facts(3), of 100 7] mb_example_facts(4) by auto
qed

text \<open>
  Receiving from a mailbox from a running thread: a word is taken from the front and the first
  waiting sender, if any, is woken; an empty mailbox makes the call time out at once when no
  waiting time is given, and otherwise suspends the caller on the list of receivers.
\<close>

theorem mb_recv_correct:
  assumes "can_block k t" and "timeout < 0x7FFFFFFF" and "mb_ok (k_mailbox k i)"
    and "k_queue k (MailboxSendQ i) \<noteq> [] \<longrightarrow> wake_ok k (hd (k_queue k (MailboxSendQ i)))"
  shows "case mb_words (k_mailbox k i) of
      v # vs \<Rightarrow> \<exists>k'. rt_mb_recv i timeout k = Some (Done (RT_EOK, Some v), k') \<and> mb_invar i k' \<and>
        mb_words (k_mailbox k' i) = vs \<and> first_woken (MailboxSendQ i) k k'
    | [] \<Rightarrow> if timeout = 0 then rt_mb_recv i timeout k = Some (Done (- RT_ETIMEOUT, None), k)
        else \<exists>k'. rt_mb_recv i timeout k = Some (Blocked (timeout, if timeout > 0 then k_tick k else 0), k') \<and>
          mb_invar i k' \<and> scheduled k' \<and> k_current k' \<noteq> Some t \<and> t \<in> set (k_queue k' (MailboxQ i)) \<and>
          wake_ok k' t \<and> k_mailbox k' = k_mailbox k"
proof -
  note av = can_block_available[OF assms(1)] and self = can_block_self[OF assms(1)]
    and inv = can_block_inv[OF assms(1)]
  show ?thesis
  proof (cases "mb_words (k_mailbox k i)")
    case (Cons v vs)
    then have e: "0 < mb_entry (k_mailbox k i)" using length_mb_words[of "k_mailbox k i"] by simp
    let ?k1 = "mailbox_upd i (\<lambda>_. snd (mb_fetch (k_mailbox k i))) k"
    have "rt_mb_recv i timeout k = Some (Done (RT_EOK, Some (fst (mb_fetch (k_mailbox k i)))),
        wake_one (MailboxSendQ i) ?k1)"
      using e av by (simp add: rt_mb_recv_def mb_recv_def mb_recv_loop_def mb_get_eq)
    then show ?thesis
      using Cons mb_fetch_words[OF assms(3) e] mailbox_sender.wake_one_first[of ?k1 i] inv assms(4)
      by (simp add: mb_invar_def wake_one_inv)
  next
    case Nil
    then have e: "mb_entry (k_mailbox k i) = 0" using length_mb_words[of "k_mailbox k i"] by simp
    define k1 where "k1 = set_error (- RT_EINTR) t k"
    have k1: "can_block k1 t" "k_mailbox k1 = k_mailbox k" "k_tick k1 = k_tick k"
      using assms(1) by (simp_all add: k1_def)
    obtain k' where b: "timed_wait (MailboxQ i) (mb_flag (k_mailbox k1 i)) RT_UNINTERRUPTIBLE t timeout 0 k1 =
        Some (Blocked (timeout, if timeout > 0 then k_tick k1 else 0), k')"
      "sched_inv k'" "scheduled k'" "k_current k' \<noteq> Some t" "t \<in> set (k_queue k' (MailboxQ i))" "wake_ok k' t"
      using mailbox_object.timed_wait_blocks[OF k1(1) assms(2)] by metis
    have "k_mailbox k' = k_mailbox k" using timed_wait_frame[OF b(1) can_block_inv[OF k1(1)]] k1(2) by simp
    moreover have "rt_mb_recv i timeout k =
        (if timeout = 0 then Some (Done (- RT_ETIMEOUT, None), k)
         else Some (Blocked (timeout, if timeout > 0 then k_tick k else 0), k'))"
      using e av b(1) self k1(2,3)
      by (simp add: rt_mb_recv_def mb_recv_def mb_recv_loop_def k1_def[symmetric])
    ultimately show ?thesis using Nil b(2-6) assms(3) by (cases "timeout = 0") (simp_all add: mb_invar_def)
  qed
qed

theorem mb_recv_correct_witness:
  "\<exists>k'. rt_mb_recv 0 100 mb_example = Some (Blocked (100, 0xFFFFFFFE), k') \<and> 1 \<in> set (k_queue k' (MailboxQ 0)) \<and>
     wake_ok k' 1"
proof -
  have "mb_words (k_mailbox mb_example 0) = []" "k_tick mb_example = 0xFFFFFFFE"
    using sleep_example_facts(8) by (simp_all add: mb_example_def mb_words_def)
  then show ?thesis
    using mb_recv_correct [OF mb_example_facts(2) _ mb_example_facts(3), of 100] mb_example_facts(5) by auto
qed

text \<open>
  An urgent word goes to the front of the mailbox, so it is the next one received; the words
  already there keep their order, and a full mailbox refuses it unchanged.
\<close>

theorem mb_urgent_front:
  assumes "mb_invar i k"
  shows "if mb_entry (k_mailbox k i) = mb_size (k_mailbox k i) then rt_mb_urgent i v k = (- RT_EFULL, k)
    else \<exists>k'. rt_mb_urgent i v k = (RT_EOK, k') \<and> mb_invar i k' \<and>
      mb_words (k_mailbox k' i) = v # mb_words (k_mailbox k i) \<and> fst (mb_get i k') = v"
proof -
  have ok: "mb_ok (k_mailbox k i)" "sched_inv k" using assms by (simp_all add: mb_invar_def)
  have "\<exists>k'. rt_mb_urgent i v k = (RT_EOK, k') \<and> mb_invar i k' \<and>
      mb_words (k_mailbox k' i) = v # mb_words (k_mailbox k i) \<and> fst (mb_get i k') = v"
    if ne: "mb_entry (k_mailbox k i) \<noteq> mb_size (k_mailbox k i)"
  proof -
    have "mb_entry (k_mailbox k i) < mb_size (k_mailbox k i)" using ne ok(1) by (simp add: mb_ok_def)
    note w = mb_store_front_words[OF ok(1) this, of v]
    have "0 < mb_entry (mb_store_front v (k_mailbox k i))"
      using w(2) length_mb_words[of "mb_store_front v (k_mailbox k i)"] by simp
    then have "fst (mb_fetch (mb_store_front v (k_mailbox k i))) = v" using mb_fetch_words(1)[OF w(1)] w(2) by simp
    then show ?thesis
      using ne w(1,2) ok(2) by (simp add: rt_mb_urgent_def mb_invar_def mb_get_eq wake_one_inv)
  qed
  then show ?thesis by (simp add: rt_mb_urgent_def)
qed

theorem mb_urgent_front_witness:
  "\<exists>k'. rt_mb_urgent 0 9 mb_example = (0, k') \<and> mb_words (k_mailbox k' 0) = [9]"
proof -
  have "mb_entry (k_mailbox mb_example 0) \<noteq> mb_size (k_mailbox mb_example 0)" "mb_words (k_mailbox mb_example 0) = []"
    by (simp_all add: mb_example_def mb_words_def)
  then show ?thesis
    using mb_urgent_front [of 0 mb_example 9] mb_example_facts(1,3) by (auto simp: mb_invar_def)
qed

text \<open>
  A receiver that is woken but finds the mailbox empty again (another thread was faster) waits
  for the rest of its time only: after \<open>e\<close> ticks it times out if \<open>e\<close> is at least its waiting time, and
  otherwise its timer runs out exactly at the tick at which the first wait would have ended,
  whatever the wrap-around of the tick counter.
\<close>

theorem mb_recv_keeps_deadline:
  assumes "can_block k t" and "th_error (k_thread k t) = RT_EOK" and "mb_entry (k_mailbox k i) = 0"
    and "0 < timeout" and "timeout < 0x7FFFFFFF" and "e = unat (k_tick k - start)" and "e < 2 ^ 31"
  shows "if timeout \<le> int e
    then \<exists>k'. mb_recv_resume i sf t (timeout, start) k = Some (Done (- RT_ETIMEOUT, None), k') \<and>
      k_mailbox k' = k_mailbox k
    else \<exists>k'. mb_recv_resume i sf t (timeout, start) k = Some (Blocked (timeout - int e, k_tick k), k') \<and>
      sched_inv k' \<and> t \<in> set (k_queue k' (MailboxQ i)) \<and> k_mailbox k' = k_mailbox k \<and>
      tm_timeout_tick (k_timer k' (Thread_timer t)) = start + word_of_int timeout"
proof -
  define k1 where "k1 = set_error (- RT_EINTR) t k"
  have k1: "can_block k1 t" "k_mailbox k1 = k_mailbox k" "k_tick k1 = k_tick k"
    using assms(1) by (simp_all add: k1_def)
  have left: "timeout_left (k_tick k) (timeout, start) = (max 0 (timeout - int e), k_tick k - start)"
  proof (rule prod_eqI)
    show "fst (timeout_left (k_tick k) (timeout, start)) = fst (max 0 (timeout - int e), k_tick k - start)"
      using timeout_left_remaining[of timeout "k_tick k" start] assms(4-7) by simp
    show "snd (timeout_left (k_tick k) (timeout, start)) = snd (max 0 (timeout - int e), k_tick k - start)"
      using assms(4) by (simp add: timeout_left_def Let_def)
  qed
  show ?thesis
  proof (cases "timeout \<le> int e")
    case True
    then show ?thesis
      using assms(2,3) by (simp add: mb_recv_resume_def left mb_recv_loop_def)
  next
    case False
    then have lt: "timeout - int e < 0x7FFFFFFF" using assms(5) by simp
    obtain k' where b: "timed_wait (MailboxQ i) (mb_flag (k_mailbox k1 i)) sf t (timeout - int e) (k_tick k - start) k1 =
        Some (Blocked (timeout - int e, if timeout - int e > 0 then k_tick k1 else k_tick k - start), k')"
      "sched_inv k'" "t \<in> set (k_queue k' (MailboxQ i))"
      "timeout - int e > 0 \<Longrightarrow>
         tm_timeout_tick (k_timer k' (Thread_timer t)) = k_tick k1 + word_of_int (timeout - int e)"
      using mailbox_object.timed_wait_blocks[OF k1(1) lt] by metis
    have "k_tick k = start + of_nat e" by (simp add: assms(6))
    then have "k_tick k + word_of_int (timeout - int e) = start + word_of_int timeout"
      by (simp add: of_int_diff)
    moreover have "mb_recv_resume i sf t (timeout, start) k = Some (Blocked (timeout - int e, k_tick k), k')"
      using assms(2,3) False b(1) k1(2,3)
      by (simp add: mb_recv_resume_def left mb_recv_loop_def k1_def[symmetric] max_def)
    ultimately show ?thesis
      using False b(2-4) timed_wait_frame[OF b(1) can_block_inv[OF k1(1)]] k1(2,3) by simp
  qed
qed

theorem mb_recv_keeps_deadline_witness:
  "\<exists>k'. mb_recv_resume 0 RT_UNINTERRUPTIBLE 1 (100, 0xFFFFFFF4) mb_example = Some (Blocked (90, 0xFFFFFFFE), k') \<and>
     tm_timeout_tick (k_timer k' (Thread_timer 1)) = 0x58"
proof -
  have "k_tick mb_example = 0xFFFFFFFE" "mb_entry (k_mailbox mb_example 0) = 0"
    "th_error (k_thread mb_example 1) = 0"
    using sleep_example_facts(8)
    by (simp_all add: mb_example_def)
      (simp add: sleep_example_def sched_example_def kernel0_def mk_thread_def thread0_def)
  moreover have "(0x100000058 :: u32) = 0x58" by code_simp
  ultimately show ?thesis
    using mb_recv_keeps_deadline [OF mb_example_facts(2), of 0 100 10 "0xFFFFFFF4" RT_UNINTERRUPTIBLE] by auto
qed

end
