(* ===== verification/MessageQueue.thy ===== *)
theory MessageQueue
  imports Channel
begin

text \<open>
  Message queues (\<^verbatim>\<open>src/ipc.c\<close>, \<^verbatim>\<open>rt_mq_*\<close>, without the priority option). The messages are slots
  of a pool linked by their \<^verbatim>\<open>next\<close> pointers into two chains, the queue and the free list. A send
  first takes a slot off the free list, copies the message with interrupts enabled, and then links
  the slot to the tail; a receive unlinks the head slot, copies it out, and then gives the slot
  back. Between the two critical sections other threads may run, so a call is a sequence of
  passes: \<open>Blocked\<close> stands for every point where the caller can be interrupted, waiting or copying.
\<close>

section \<open>Operations\<close>

abbreviation (input) RT_MQ_ENTRY_MAX :: nat where "RT_MQ_ENTRY_MAX \<equiv> 65535"

text \<open>What a call remembers: its waiting time and when the wait began, or the slot it holds.\<close>

datatype mq_progress = Waiting "int \<times> u32" | Copying nat

definition msg_upd :: "nat \<Rightarrow> (rt_mq_message \<Rightarrow> rt_mq_message) \<Rightarrow> rt_messagequeue \<Rightarrow> rt_messagequeue" where
  "msg_upd m f mq = mq\<lparr>mq_msgs := (mq_msgs mq)(m := f (mq_msgs mq m))\<rparr>"

text \<open>Linking a slot in front of the free list.\<close>

definition mq_give_back :: "nat \<Rightarrow> rt_messagequeue \<Rightarrow> rt_messagequeue" where
  "mq_give_back m mq =
     (let mq1 = msg_upd m (\<lambda>msg. msg\<lparr>msg_next := mq_queue_free mq\<rparr>) mq
      in mq1\<lparr>mq_queue_free := Some m\<rparr>)"

text \<open>The part of initialisation that both kinds of queues share: the empty chains and all slots free.\<close>

definition mq_reset_chains :: "rt_messagequeue \<Rightarrow> rt_messagequeue" where
  "mq_reset_chains mq =
     (let mq1 = mq\<lparr>mq_queue_head := None, mq_queue_tail := None, mq_queue_free := None\<rparr>;
          mq2 = fold mq_give_back [0..<mq_max_msgs mq1] mq1
      in mq2\<lparr>mq_entry := 0\<rparr>)"

definition mq_slot_size :: "u32 \<Rightarrow> u32" where
  "mq_slot_size msg_size = RT_ALIGN msg_size 8 + 8"

definition rt_mq_init :: "nat \<Rightarrow> (nat \<Rightarrow> rt_mq_message) \<Rightarrow> u32 \<Rightarrow> u32 \<Rightarrow> ipc_flag \<Rightarrow> kernel \<Rightarrow> rt_err_t \<times> kernel" where
  "rt_mq_init i msgpool msg_size pool_size flag k =
     (let k1 = k\<lparr>k_queue := (k_queue k)(MqQ i := [])\<rparr>;
          k2 = mq_upd i (\<lambda>mq. mq\<lparr>mq_flag := flag, mq_msgs := msgpool, mq_msg_size := unat msg_size mod 0x10000,
                 mq_max_msgs := unat (pool_size div mq_slot_size msg_size) mod 0x10000\<rparr>) k1
      in if mq_max_msgs (k_mq k2 i) = 0 then (- RT_EINVAL, k2)
         else (RT_EOK, mq_upd i mq_reset_chains (k2\<lparr>k_queue := (k_queue k2)(MqSendQ i := [])\<rparr>)))"

definition rt_mq_create :: "nat option \<Rightarrow> (nat \<Rightarrow> rt_mq_message) option \<Rightarrow> u32 \<Rightarrow> u32 \<Rightarrow> ipc_flag \<Rightarrow> kernel \<Rightarrow>
    (nat option \<times> kernel) option" where
  "rt_mq_create obj mem msg_size max_msgs flag k =
     (if \<not> not_in_interrupt k then None
      else case obj of
        None \<Rightarrow> Some (None, k)
      | Some i \<Rightarrow>
          let k1 = k\<lparr>k_queue := (k_queue k)(MqQ i := [])\<rparr>;
              k2 = mq_upd i (\<lambda>mq. mq\<lparr>mq_flag := flag, mq_msg_size := unat msg_size mod 0x10000,
                     mq_max_msgs := unat max_msgs mod 0x10000\<rparr>) k1
          in case mem of
               None \<Rightarrow> Some (None, k2)
             | Some msgpool \<Rightarrow>
                 Some (Some i, mq_upd i (\<lambda>mq. mq_reset_chains (mq\<lparr>mq_msgs := msgpool\<rparr>))
                   (k2\<lparr>k_queue := (k_queue k2)(MqSendQ i := [])\<rparr>)))"

definition mq_resume_everyone :: "nat \<Rightarrow> kernel \<Rightarrow> kernel" where
  "mq_resume_everyone i k =
     rt_susp_list_resume_all (MqSendQ i) RT_ERROR (rt_susp_list_resume_all (MqQ i) RT_ERROR k)"

definition rt_mq_detach :: "nat \<Rightarrow> kernel \<Rightarrow> rt_err_t \<times> kernel" where
  "rt_mq_detach i k = (RT_EOK, mq_resume_everyone i k)"

definition rt_mq_delete :: "nat \<Rightarrow> kernel \<Rightarrow> (rt_err_t \<times> kernel) option" where
  "rt_mq_delete i k =
     (if not_in_interrupt k
      then Some (RT_EOK, rt_exit_critical (mq_resume_everyone i (snd (rt_enter_critical k)))) else None)"

text \<open>One pass of the loop of a sender: it ends with a slot, waiting, or an error.\<close>

definition mq_send_loop :: "nat \<Rightarrow> suspend_flag \<Rightarrow> tid option \<Rightarrow> int \<times> u32 \<Rightarrow> kernel \<Rightarrow>
    ((rt_err_t, mq_progress) flow \<times> kernel) option" where
  "mq_send_loop i suspend_flag self w k =
     (let (timeout, tick_delta) = w
      in case mq_queue_free (k_mq k i) of
           None \<Rightarrow> (case self of
               None \<Rightarrow> None
             | Some t \<Rightarrow>
                 let k1 = set_error (- RT_EINTR) t k
                 in if timeout = 0 then Some (Done (- RT_EFULL), k1)
                    else do {
                      (r, k2) \<leftarrow> timed_wait (MqSendQ i) (mq_flag (k_mq k1 i)) suspend_flag t timeout tick_delta k1;
                      Some (case r of Done e \<Rightarrow> Done e | Blocked c \<Rightarrow> Blocked (Waiting c), k2)
                    })
         | Some m \<Rightarrow>
             Some (Blocked (Copying m),
                   mq_upd i (\<lambda>mq. mq\<lparr>mq_queue_free := msg_next (mq_msgs mq m)\<rparr>) k))"

definition mq_send_wait :: "nat \<Rightarrow> u8 list \<Rightarrow> int \<Rightarrow> suspend_flag \<Rightarrow> kernel \<Rightarrow>
    ((rt_err_t, mq_progress) flow \<times> kernel) option" where
  "mq_send_wait i buffer timeout suspend_flag k =
     (if buffer = [] \<or> \<not> scheduler_available (timeout \<noteq> 0) k then None
      else if length buffer > mq_msg_size (k_mq k i) then Some (Done (- RT_ERROR), k)
      else if mq_queue_free (k_mq k i) = None \<and> timeout = 0 then Some (Done (- RT_EFULL), k)
      else mq_send_loop i suspend_flag (rt_thread_self k) (timeout, 0) k)"

text \<open>The sender runs again after waiting.\<close>

definition mq_send_resume :: "nat \<Rightarrow> suspend_flag \<Rightarrow> tid \<Rightarrow> int \<times> u32 \<Rightarrow> kernel \<Rightarrow>
    ((rt_err_t, mq_progress) flow \<times> kernel) option" where
  "mq_send_resume i suspend_flag t w k =
     (if th_error (k_thread k t) \<noteq> RT_EOK then Some (Done (th_error (k_thread k t)), k)
      else mq_send_loop i suspend_flag (Some t) (timeout_left (k_tick k) w) k)"

text \<open>
  The rest of a send, with the slot \<open>m\<close> in hand: the slot is filled, which nobody else can see, and
  linked to the tail.
\<close>

definition mq_link_tail :: "nat \<Rightarrow> rt_messagequeue \<Rightarrow> rt_messagequeue" where
  "mq_link_tail m mq =
     (let mq1 = (case mq_queue_tail mq of None \<Rightarrow> mq
                 | Some lst \<Rightarrow> msg_upd lst (\<lambda>msg. msg\<lparr>msg_next := Some m\<rparr>) mq);
          mq2 = mq1\<lparr>mq_queue_tail := Some m\<rparr>
      in if mq_queue_head mq2 = None then mq2\<lparr>mq_queue_head := Some m\<rparr> else mq2)"

text \<open>Counting the message and waking a receiver.\<close>

definition mq_count :: "nat \<Rightarrow> kernel \<Rightarrow> rt_err_t \<times> kernel" where
  "mq_count i k =
     (if mq_entry (k_mq k i) < RT_MQ_ENTRY_MAX
      then (RT_EOK, wake_one (MqQ i) (mq_upd i (\<lambda>mq. mq\<lparr>mq_entry := mq_entry mq + 1\<rparr>) k))
      else (- RT_EFULL, k))"

definition mq_send_finish :: "nat \<Rightarrow> u8 list \<Rightarrow> nat \<Rightarrow> kernel \<Rightarrow> rt_err_t \<times> kernel" where
  "mq_send_finish i buffer m k =
     (let k1 = mq_upd i (msg_upd m (\<lambda>msg. msg\<lparr>msg_next := None, msg_length := length buffer,
                 msg_data := blit (msg_data msg) 0 buffer\<rparr>)) k
      in mq_count i (mq_upd i (mq_link_tail m) k1))"

definition rt_mq_send_wait ::
  "nat \<Rightarrow> u8 list \<Rightarrow> int \<Rightarrow> kernel \<Rightarrow> ((rt_err_t, mq_progress) flow \<times> kernel) option" where
  "rt_mq_send_wait i buffer timeout = mq_send_wait i buffer timeout RT_UNINTERRUPTIBLE"

definition rt_mq_send_wait_interruptible ::
  "nat \<Rightarrow> u8 list \<Rightarrow> int \<Rightarrow> kernel \<Rightarrow> ((rt_err_t, mq_progress) flow \<times> kernel) option" where
  "rt_mq_send_wait_interruptible i buffer timeout = mq_send_wait i buffer timeout RT_INTERRUPTIBLE"

definition rt_mq_send_wait_killable ::
  "nat \<Rightarrow> u8 list \<Rightarrow> int \<Rightarrow> kernel \<Rightarrow> ((rt_err_t, mq_progress) flow \<times> kernel) option" where
  "rt_mq_send_wait_killable i buffer timeout = mq_send_wait i buffer timeout RT_KILLABLE"

definition rt_mq_send :: "nat \<Rightarrow> u8 list \<Rightarrow> kernel \<Rightarrow> ((rt_err_t, mq_progress) flow \<times> kernel) option" where
  "rt_mq_send i buffer = rt_mq_send_wait i buffer 0"

definition rt_mq_send_interruptible ::
  "nat \<Rightarrow> u8 list \<Rightarrow> kernel \<Rightarrow> ((rt_err_t, mq_progress) flow \<times> kernel) option" where
  "rt_mq_send_interruptible i buffer = rt_mq_send_wait_interruptible i buffer 0"

definition rt_mq_send_killable ::
  "nat \<Rightarrow> u8 list \<Rightarrow> kernel \<Rightarrow> ((rt_err_t, mq_progress) flow \<times> kernel) option" where
  "rt_mq_send_killable i buffer = rt_mq_send_wait_killable i buffer 0"

text \<open>An urgent message: the first part takes a slot, the second links it to the head.\<close>

definition rt_mq_urgent :: "nat \<Rightarrow> u8 list \<Rightarrow> kernel \<Rightarrow> ((rt_err_t, mq_progress) flow \<times> kernel) option" where
  "rt_mq_urgent i buffer k =
     (if buffer = [] then None
      else if length buffer > mq_msg_size (k_mq k i) then Some (Done (- RT_ERROR), k)
      else case mq_queue_free (k_mq k i) of
             None \<Rightarrow> Some (Done (- RT_EFULL), k)
           | Some m \<Rightarrow> Some (Blocked (Copying m),
               mq_upd i (\<lambda>mq. mq\<lparr>mq_queue_free := msg_next (mq_msgs mq m)\<rparr>) k))"

definition mq_link_head :: "nat \<Rightarrow> rt_messagequeue \<Rightarrow> rt_messagequeue" where
  "mq_link_head m mq =
     (let mq1 = msg_upd m (\<lambda>msg. msg\<lparr>msg_next := mq_queue_head mq\<rparr>) mq;
          mq2 = mq1\<lparr>mq_queue_head := Some m\<rparr>
      in if mq_queue_tail mq2 = None then mq2\<lparr>mq_queue_tail := Some m\<rparr> else mq2)"

definition mq_urgent_finish :: "nat \<Rightarrow> u8 list \<Rightarrow> nat \<Rightarrow> kernel \<Rightarrow> rt_err_t \<times> kernel" where
  "mq_urgent_finish i buffer m k =
     (let k1 = mq_upd i (msg_upd m (\<lambda>msg. msg\<lparr>msg_length := length buffer,
                 msg_data := blit (msg_data msg) 0 buffer\<rparr>)) k
      in mq_count i (mq_upd i (mq_link_head m) k1))"

text \<open>
  Receiving. \<open>None\<close> is also the dereference of a null head, which the invariant excludes. The result
  of a call is its length or a negative error code, and the bytes copied.
\<close>

definition mq_unlink :: "nat \<Rightarrow> rt_messagequeue \<Rightarrow> rt_messagequeue" where
  "mq_unlink m mq =
     (let mq1 = mq\<lparr>mq_queue_head := msg_next (mq_msgs mq m)\<rparr>;
          mq2 = (if mq_queue_tail mq1 = Some m then mq1\<lparr>mq_queue_tail := None\<rparr> else mq1)
      in if mq_entry mq2 > 0 then mq2\<lparr>mq_entry := mq_entry mq2 - 1\<rparr> else mq2)"

definition mq_recv_loop :: "nat \<Rightarrow> suspend_flag \<Rightarrow> tid option \<Rightarrow> int \<times> u32 \<Rightarrow> kernel \<Rightarrow>
    ((int, mq_progress) flow \<times> kernel) option" where
  "mq_recv_loop i suspend_flag self w k =
     (let (timeout, tick_delta) = w
      in if mq_entry (k_mq k i) = 0
         then (case self of
               None \<Rightarrow> None
             | Some t \<Rightarrow>
                 let k1 = set_error (- RT_EINTR) t k
                 in if timeout = 0 then Some (Done (- RT_ETIMEOUT), set_error (- RT_ETIMEOUT) t k1)
                    else do {
                      (r, k2) \<leftarrow> timed_wait (MqQ i) (mq_flag (k_mq k1 i)) suspend_flag t timeout tick_delta k1;
                      Some (case r of Done e \<Rightarrow> Done e | Blocked c \<Rightarrow> Blocked (Waiting c), k2)
                    })
         else case mq_queue_head (k_mq k i) of
                None \<Rightarrow> None
              | Some m \<Rightarrow> Some (Blocked (Copying m), mq_upd i (mq_unlink m) k))"

definition mq_recv :: "nat \<Rightarrow> nat \<Rightarrow> int \<Rightarrow> suspend_flag \<Rightarrow> kernel \<Rightarrow> ((int, mq_progress) flow \<times> kernel) option" where
  "mq_recv i sz timeout suspend_flag k =
     (if sz = 0 \<or> \<not> scheduler_available (timeout \<noteq> 0) k then None
      else if mq_entry (k_mq k i) = 0 \<and> timeout = 0 then Some (Done (- RT_ETIMEOUT), k)
      else mq_recv_loop i suspend_flag (rt_thread_self k) (timeout, 0) k)"

definition mq_recv_resume :: "nat \<Rightarrow> suspend_flag \<Rightarrow> tid \<Rightarrow> int \<times> u32 \<Rightarrow> kernel \<Rightarrow>
    ((int, mq_progress) flow \<times> kernel) option" where
  "mq_recv_resume i suspend_flag t w k =
     (if th_error (k_thread k t) \<noteq> RT_EOK then Some (Done (th_error (k_thread k t)), k)
      else mq_recv_loop i suspend_flag (Some t) (timeout_left (k_tick k) w) k)"

definition mq_recv_finish :: "nat \<Rightarrow> nat \<Rightarrow> nat \<Rightarrow> kernel \<Rightarrow> (int \<times> u8 list) \<times> kernel" where
  "mq_recv_finish i sz m k =
     (let msg = mq_msgs (k_mq k i) m;
          len = (if msg_length msg > sz then sz else msg_length msg)
      in ((int len, take len (msg_data msg)), wake_one (MqSendQ i) (mq_upd i (mq_give_back m) k)))"

definition rt_mq_recv :: "nat \<Rightarrow> nat \<Rightarrow> int \<Rightarrow> kernel \<Rightarrow> ((int, mq_progress) flow \<times> kernel) option" where
  "rt_mq_recv i sz timeout = mq_recv i sz timeout RT_UNINTERRUPTIBLE"

definition rt_mq_recv_interruptible ::
  "nat \<Rightarrow> nat \<Rightarrow> int \<Rightarrow> kernel \<Rightarrow> ((int, mq_progress) flow \<times> kernel) option" where
  "rt_mq_recv_interruptible i sz timeout = mq_recv i sz timeout RT_INTERRUPTIBLE"

definition rt_mq_recv_killable ::
  "nat \<Rightarrow> nat \<Rightarrow> int \<Rightarrow> kernel \<Rightarrow> ((int, mq_progress) flow \<times> kernel) option" where
  "rt_mq_recv_killable i sz timeout = mq_recv i sz timeout RT_KILLABLE"

text \<open>The reset command moves every queued slot to the free list.\<close>

definition mq_drain_step :: "nat \<Rightarrow> rt_messagequeue \<Rightarrow> rt_messagequeue" where
  "mq_drain_step m mq =
     (let mq1 = mq\<lparr>mq_queue_head := msg_next (mq_msgs mq m)\<rparr>;
          mq2 = (if mq_queue_tail mq1 = Some m then mq1\<lparr>mq_queue_tail := None\<rparr> else mq1)
      in mq_give_back m mq2)"

partial_function (option) mq_drain :: "rt_messagequeue \<Rightarrow> rt_messagequeue option" where
  "mq_drain mq =
     (case mq_queue_head mq of None \<Rightarrow> Some mq | Some m \<Rightarrow> mq_drain (mq_drain_step m mq))"

definition rt_mq_control :: "nat \<Rightarrow> bool \<Rightarrow> kernel \<Rightarrow> (rt_err_t \<times> kernel) option" where
  "rt_mq_control i reset k =
     (if reset
      then do {
        let k1 = mq_resume_everyone i k;
        mq1 \<leftarrow> mq_drain (k_mq k1 i);
        Some (RT_EOK, rt_schedule (mq_upd i (\<lambda>_. mq1\<lparr>mq_entry := 0\<rparr>) k1))
      }
      else Some (- RT_ERROR, k))"

section \<open>The chains of a queue\<close>

definition mq_nx :: "rt_messagequeue \<Rightarrow> nat \<Rightarrow> nat option" where
  "mq_nx mq m = msg_next (mq_msgs mq m)"

text \<open>The message in a slot.\<close>

definition mq_bytes :: "rt_messagequeue \<Rightarrow> nat \<Rightarrow> u8 list" where
  "mq_bytes mq m = take (msg_length (mq_msgs mq m)) (msg_data (mq_msgs mq m))"

text \<open>
  The invariant: the slots are split into the queue \<open>qs\<close>, the free list \<open>fs\<close> and the slots \<open>hs\<close> that calls
  in progress hold; head, tail, count and free pointer describe the two chains.
\<close>

definition mq_parts :: "rt_messagequeue \<Rightarrow> nat list \<Rightarrow> nat list \<Rightarrow> nat set \<Rightarrow> bool" where
  "mq_parts mq qs fs hs \<longleftrightarrow>
     chain (mq_nx mq) (mq_queue_head mq) qs \<and> chain (mq_nx mq) (mq_queue_free mq) fs \<and>
     mq_queue_tail mq = (if qs = [] then None else Some (last qs)) \<and> mq_entry mq = length qs \<and>
     distinct (qs @ fs) \<and> hs \<inter> set (qs @ fs) = {} \<and> hs \<union> set (qs @ fs) = {..<mq_max_msgs mq} \<and>
     mq_max_msgs mq < 0x10000 \<and>
     (\<forall>m<mq_max_msgs mq. mq_msg_size mq \<le> length (msg_data (mq_msgs mq m))) \<and>
     (\<forall>m\<in>set qs. msg_length (mq_msgs mq m) \<le> mq_msg_size mq)"

definition mq_contents :: "rt_messagequeue \<Rightarrow> u8 list list" where
  "mq_contents mq = map (mq_bytes mq) (slots (mq_entry mq) (mq_nx mq) (mq_queue_head mq))"

lemma mq_parts_contents: "mq_parts mq qs fs hs \<Longrightarrow> mq_contents mq = map (mq_bytes mq) qs"
  using chain_slots[of "mq_nx mq" "mq_queue_head mq" qs "length qs"]
  by (simp add: mq_parts_def mq_contents_def)

lemma msg_upd_simps [simp]:
  "mq_queue_head (msg_upd m f mq) = mq_queue_head mq" "mq_queue_tail (msg_upd m f mq) = mq_queue_tail mq"
  "mq_queue_free (msg_upd m f mq) = mq_queue_free mq" "mq_entry (msg_upd m f mq) = mq_entry mq"
  "mq_max_msgs (msg_upd m f mq) = mq_max_msgs mq" "mq_msg_size (msg_upd m f mq) = mq_msg_size mq"
  "mq_flag (msg_upd m f mq) = mq_flag mq" "mq_msgs (msg_upd m f mq) = (mq_msgs mq)(m := f (mq_msgs mq m))"
  by (simp_all add: msg_upd_def)

lemma mq_nx_upd [simp]: "mq_nx (msg_upd m f mq) = (mq_nx mq)(m := msg_next (f (mq_msgs mq m)))"
  by (simp add: mq_nx_def fun_eq_iff)

lemma mq_nx_fields [simp]:
  "mq_nx (mq\<lparr>mq_queue_head := a\<rparr>) = mq_nx mq" "mq_nx (mq\<lparr>mq_queue_tail := a\<rparr>) = mq_nx mq"
  "mq_nx (mq\<lparr>mq_queue_free := a\<rparr>) = mq_nx mq" "mq_nx (mq\<lparr>mq_entry := n\<rparr>) = mq_nx mq"
  by (simp_all add: mq_nx_def fun_eq_iff)

text \<open>The five moves of a slot.\<close>

lemma mq_take_free:
  assumes "mq_parts mq qs (m # fs) hs"
  shows "mq_parts (mq\<lparr>mq_queue_free := msg_next (mq_msgs mq m)\<rparr>) qs fs (insert m hs)"
proof -
  have "chain (mq_nx mq) (msg_next (mq_msgs mq m)) fs" using assms by (simp add: mq_parts_def mq_nx_def)
  then show ?thesis using assms by (auto simp: mq_parts_def)
qed

lemma mq_give_back_parts:
  assumes "mq_parts mq qs fs hs" "m \<in> hs"
  shows "mq_parts (mq_give_back m mq) qs (m # fs) (hs - {m})"
proof -
  have "m \<notin> set qs" "m \<notin> set fs" using assms by (auto simp: mq_parts_def)
  then show ?thesis using assms by (auto simp: mq_parts_def mq_give_back_def Let_def)
qed

lemma mq_unlink_parts:
  assumes "mq_parts mq (m # qs) fs hs"
  shows "mq_parts (mq_unlink m mq) qs fs (insert m hs)"
proof -
  have "chain (mq_nx mq) (msg_next (mq_msgs mq m)) qs" using assms by (simp add: mq_parts_def mq_nx_def)
  moreover have "last qs \<noteq> m" if "qs \<noteq> []" using assms that by (auto simp: mq_parts_def)
  ultimately show ?thesis using assms by (auto simp: mq_parts_def mq_unlink_def Let_def)
qed

lemma mq_fill_parts:
  assumes "mq_parts mq qs fs hs" "m \<in> hs" "length b \<le> mq_msg_size mq"
  shows "mq_parts (msg_upd m (\<lambda>msg. msg\<lparr>msg_next := p msg, msg_length := length b,
      msg_data := blit (msg_data msg) 0 b\<rparr>) mq) qs fs hs"
proof -
  have m: "m \<notin> set qs" "m \<notin> set fs" "m < mq_max_msgs mq" using assms by (auto simp: mq_parts_def)
  then have "length b \<le> length (msg_data (mq_msgs mq m))" using assms(1,3) by (auto simp: mq_parts_def)
  then show ?thesis using assms(1) m by (auto simp: mq_parts_def)
qed

text \<open>A message linked to the tail; the count is raised in a separate step.\<close>

lemma mq_link_tail_parts:
  assumes "mq_parts mq qs fs hs" "m \<in> hs" "msg_next (mq_msgs mq m) = None"
    "msg_length (mq_msgs mq m) \<le> mq_msg_size mq"
  shows "mq_parts ((mq_link_tail m mq)\<lparr>mq_entry := mq_entry mq + 1\<rparr>) (qs @ [m]) fs (hs - {m})"
proof (cases qs rule: rev_cases)
  case Nil
  then show ?thesis using assms by (auto simp: mq_parts_def mq_link_tail_def mq_nx_def Let_def)
next
  case (snoc ys y)
  have m: "m \<notin> set qs" "m \<notin> set fs" "y \<notin> set fs" "y < mq_max_msgs mq" "y \<noteq> m" "y \<notin> set ys"
    using assms snoc by (auto simp: mq_parts_def)
  have c: "chain ((mq_nx mq)(y := Some m)) (mq_queue_head mq) (ys @ [y, m])"
    using assms(1,3) m snoc by (intro chain_append) (auto simp: mq_parts_def mq_nx_def)
  have t: "mq_queue_tail mq = Some y" "mq_queue_head mq \<noteq> None"
    using assms(1) snoc by (auto simp: mq_parts_def chain_None)
  show ?thesis
    using assms m c t by (auto simp: mq_parts_def mq_link_tail_def Let_def snoc)
qed

lemma mq_link_head_parts:
  assumes "mq_parts mq qs fs hs" "m \<in> hs" "msg_length (mq_msgs mq m) \<le> mq_msg_size mq"
  shows "mq_parts ((mq_link_head m mq)\<lparr>mq_entry := mq_entry mq + 1\<rparr>) (m # qs) fs (hs - {m})"
proof -
  have m: "m \<notin> set qs" "m \<notin> set fs" using assms by (auto simp: mq_parts_def)
  then show ?thesis using assms by (auto simp: mq_parts_def mq_link_head_def Let_def)
qed

lemma mq_bytes_upd:
  "x \<noteq> m \<Longrightarrow> mq_bytes (msg_upd m f mq) x = mq_bytes mq x"
  by (simp add: mq_bytes_def)

lemma mq_bytes_fields [simp]:
  "mq_bytes (mq\<lparr>mq_queue_head := a\<rparr>) = mq_bytes mq" "mq_bytes (mq\<lparr>mq_queue_tail := a\<rparr>) = mq_bytes mq"
  "mq_bytes (mq\<lparr>mq_queue_free := a\<rparr>) = mq_bytes mq" "mq_bytes (mq\<lparr>mq_entry := n\<rparr>) = mq_bytes mq"
  by (simp_all add: mq_bytes_def fun_eq_iff)

lemma mq_bytes_next [simp]: "mq_bytes (msg_upd m (\<lambda>msg. msg\<lparr>msg_next := p msg\<rparr>) mq) = mq_bytes mq"
  by (simp add: mq_bytes_def fun_eq_iff)

lemma mq_bytes_moves [simp]:
  "mq_bytes (mq_give_back m mq) = mq_bytes mq" "mq_bytes (mq_unlink m mq) = mq_bytes mq"
  "mq_bytes (mq_link_tail m mq) = mq_bytes mq" "mq_bytes (mq_link_head m mq) = mq_bytes mq"
  by (simp_all add: mq_give_back_def mq_unlink_def mq_link_tail_def mq_link_head_def Let_def split: option.split)

lemma mq_bytes_fill:
  assumes "length b \<le> length (msg_data (mq_msgs mq m))"
  shows "mq_bytes (msg_upd m (\<lambda>msg. msg\<lparr>msg_next := p msg, msg_length := length b,
    msg_data := blit (msg_data msg) 0 b\<rparr>) mq) m = b"
  using assms by (simp add: mq_bytes_def blit_def)

text \<open>The slot \<open>m\<close> holds the message \<open>b\<close>, all of it.\<close>

definition mq_holds :: "rt_messagequeue \<Rightarrow> nat \<Rightarrow> u8 list \<Rightarrow> bool" where
  "mq_holds mq m b \<longleftrightarrow> mq_bytes mq m = b \<and> msg_length (mq_msgs mq m) = length b"

lemma msg_length_moves [simp]:
  "msg_length (mq_msgs (mq_give_back m mq) x) = msg_length (mq_msgs mq x)"
  "msg_length (mq_msgs (mq_unlink m mq) x) = msg_length (mq_msgs mq x)"
  "msg_length (mq_msgs (mq_link_tail m mq) x) = msg_length (mq_msgs mq x)"
  by (simp_all add: mq_give_back_def mq_unlink_def mq_link_tail_def Let_def split: option.split)

lemma mq_holds_moves [simp]:
  "mq_holds (mq_give_back m mq) = mq_holds mq" "mq_holds (mq_unlink m mq) = mq_holds mq"
  "mq_holds (mq\<lparr>mq_queue_free := a\<rparr>) = mq_holds mq"
  by (simp_all add: mq_holds_def fun_eq_iff)

lemma mq_queued_holds:
  assumes "mq_parts mq qs fs hs" "m \<in> set qs"
  shows "mq_holds mq m (mq_bytes mq m)"
proof -
  have "m < mq_max_msgs mq" using assms by (auto simp: mq_parts_def)
  then have "msg_length (mq_msgs mq m) \<le> length (msg_data (mq_msgs mq m))"
    using assms by (fastforce simp: mq_parts_def)
  then show ?thesis by (simp add: mq_holds_def mq_bytes_def)
qed

lemma mq_sizes [simp]:
  "mq_max_msgs (mq_give_back m mq) = mq_max_msgs mq" "mq_max_msgs (mq_unlink m mq) = mq_max_msgs mq"
  "mq_max_msgs (mq_link_tail m mq) = mq_max_msgs mq" "mq_max_msgs (mq_link_head m mq) = mq_max_msgs mq"
  "mq_msg_size (mq_link_tail m mq) = mq_msg_size mq" "mq_msg_size (mq_link_head m mq) = mq_msg_size mq"
  "mq_entry (mq_link_tail m mq) = mq_entry mq" "mq_entry (mq_link_head m mq) = mq_entry mq"
  by (simp_all add: mq_give_back_def mq_unlink_def mq_link_tail_def mq_link_head_def Let_def split: option.split)

text \<open>A filled slot linked to the tail or the head, with the count raised.\<close>

definition mq_appended :: "u8 list \<Rightarrow> nat \<Rightarrow> rt_messagequeue \<Rightarrow> rt_messagequeue" where
  "mq_appended b m mq = (let mq1 = mq_link_tail m (msg_upd m (\<lambda>msg. msg\<lparr>msg_next := None,
     msg_length := length b, msg_data := blit (msg_data msg) 0 b\<rparr>) mq) in mq1\<lparr>mq_entry := mq_entry mq1 + 1\<rparr>)"

definition mq_prepended :: "u8 list \<Rightarrow> nat \<Rightarrow> rt_messagequeue \<Rightarrow> rt_messagequeue" where
  "mq_prepended b m mq = (let mq1 = mq_link_head m (msg_upd m (\<lambda>msg. msg\<lparr>
     msg_length := length b, msg_data := blit (msg_data msg) 0 b\<rparr>) mq) in mq1\<lparr>mq_entry := mq_entry mq1 + 1\<rparr>)"

lemma mq_parts_data:
  assumes "mq_parts mq qs fs hs" "m \<in> hs" "length b \<le> mq_msg_size mq"
  shows "length b \<le> length (msg_data (mq_msgs mq m))" "m \<notin> set qs"
proof -
  have "m < mq_max_msgs mq" "m \<notin> set qs" using assms(1,2) by (auto simp: mq_parts_def)
  then show "length b \<le> length (msg_data (mq_msgs mq m))" "m \<notin> set qs"
    using assms(1,3) by (auto simp: mq_parts_def)
qed

lemma mq_appended_parts:
  assumes "mq_parts mq qs fs hs" "m \<in> hs" "length b \<le> mq_msg_size mq"
  shows "mq_parts (mq_appended b m mq) (qs @ [m]) fs (hs - {m})"
    "mq_contents (mq_appended b m mq) = mq_contents mq @ [b]"
    "x \<noteq> m \<Longrightarrow> mq_holds (mq_appended b m mq) x = mq_holds mq x"
proof -
  let ?f = "\<lambda>msg. msg\<lparr>msg_next := None, msg_length := length b, msg_data := blit (msg_data msg) 0 b\<rparr>"
  have f: "mq_parts (msg_upd m ?f mq) qs fs hs" by (rule mq_fill_parts[OF assms])
  show p: "mq_parts (mq_appended b m mq) (qs @ [m]) fs (hs - {m})"
    using mq_link_tail_parts[OF f assms(2)] assms(3) by (simp add: mq_appended_def Let_def)
  have same: "x \<noteq> m \<Longrightarrow> mq_bytes (mq_appended b m mq) x = mq_bytes mq x" for x
    by (simp add: mq_appended_def Let_def mq_bytes_upd)
  then show "x \<noteq> m \<Longrightarrow> mq_holds (mq_appended b m mq) x = mq_holds mq x"
    by (simp add: mq_holds_def fun_eq_iff) (simp add: mq_appended_def Let_def)
  have "mq_bytes (mq_appended b m mq) m = b"
    using mq_bytes_fill[OF mq_parts_data(1)[OF assms]] by (simp add: mq_appended_def Let_def)
  moreover have "map (mq_bytes (mq_appended b m mq)) qs = map (mq_bytes mq) qs"
    using mq_parts_data(2)[OF assms] by (intro map_cong) (auto intro: same)
  ultimately show "mq_contents (mq_appended b m mq) = mq_contents mq @ [b]"
    using mq_parts_contents[OF p] mq_parts_contents[OF assms(1)] by simp
qed

lemma mq_prepended_parts:
  assumes "mq_parts mq qs fs hs" "m \<in> hs" "length b \<le> mq_msg_size mq"
  shows "mq_parts (mq_prepended b m mq) (m # qs) fs (hs - {m})"
    "mq_contents (mq_prepended b m mq) = b # mq_contents mq"
proof -
  let ?f = "\<lambda>msg. msg\<lparr>msg_length := length b, msg_data := blit (msg_data msg) 0 b\<rparr>"
  let ?g = "\<lambda>msg. msg\<lparr>msg_next := msg_next msg, msg_length := length b, msg_data := blit (msg_data msg) 0 b\<rparr>"
  have g: "?f = ?g" by (simp add: fun_eq_iff)
  have f: "mq_parts (msg_upd m ?f mq) qs fs hs" unfolding g by (rule mq_fill_parts[OF assms])
  show p: "mq_parts (mq_prepended b m mq) (m # qs) fs (hs - {m})"
    using mq_link_head_parts[OF f assms(2)] assms(3) by (simp add: mq_prepended_def Let_def)
  have "mq_bytes (mq_prepended b m mq) m = b"
    using mq_bytes_fill[OF mq_parts_data(1)[OF assms], of msg_next] by (simp add: mq_prepended_def Let_def)
  moreover have "map (mq_bytes (mq_prepended b m mq)) qs = map (mq_bytes mq) qs"
    using mq_parts_data(2)[OF assms]
    by (intro map_cong) (auto simp: mq_prepended_def Let_def intro!: mq_bytes_upd)
  ultimately show "mq_contents (mq_prepended b m mq) = b # mq_contents mq"
    using mq_parts_contents[OF p] mq_parts_contents[OF assms(1)] by simp
qed

section \<open>Effects on the kernel state\<close>

lemma mq_upd_frame [simp]:
  "k_mq (mq_upd i f k) = (k_mq k)(i := f (k_mq k i))"
  "k_queue (mq_upd i f k) = k_queue k"
  "k_thread (mq_upd i f k) = k_thread k"
  "k_current (mq_upd i f k) = k_current k"
  "k_lock_nest (mq_upd i f k) = k_lock_nest k"
  "k_timer (mq_upd i f k) = k_timer k"
  by (simp_all add: mq_upd_def)

lemma mq_upd_inv [simp]: "sched_inv (mq_upd i f k) = sched_inv k"
  by (rule sched_inv_same) (simp add: same_sched_def mq_upd_def)

lemma mq_upd_wake_ok [simp]: "wake_ok (mq_upd i f k) t = wake_ok k t"
  by (simp add: wake_ok_def)

lemma mq_upd_first_woken [simp]: "first_woken q (mq_upd i f k) k' = first_woken q k k'"
  by (simp add: first_woken_def)

lemma mq_upd_twice [simp]: "mq_upd i f (mq_upd i g k) = mq_upd i (\<lambda>mq. f (g mq)) k"
  by (simp add: mq_upd_def)

lemma mq_entry_bound:
  assumes "mq_parts mq qs fs hs"
  shows "mq_entry mq \<le> mq_max_msgs mq" "hs \<noteq> {} \<Longrightarrow> mq_entry mq < mq_max_msgs mq"
proof -
  have d: "card (set qs) = mq_entry mq" "set qs \<subseteq> {..<mq_max_msgs mq}"
    using assms by (auto simp: mq_parts_def distinct_card)
  show "mq_entry mq \<le> mq_max_msgs mq" using card_mono[OF _ d(2)] d(1) by simp
  assume "hs \<noteq> {}"
  then have "set qs \<subset> {..<mq_max_msgs mq}" using assms by (auto simp: mq_parts_def)
  from psubset_card_mono[OF _ this] show "mq_entry mq < mq_max_msgs mq" using d(1) by simp
qed

text \<open>With a slot in hand the count is below the limit, so finishing always succeeds.\<close>

lemma mq_send_finish_eq:
  assumes "mq_parts (k_mq k i) qs fs hs" "m \<in> hs"
  shows "mq_send_finish i b m k = (RT_EOK, wake_one (MqQ i) (mq_upd i (mq_appended b m) k))"
proof -
  have "mq_entry (k_mq k i) < mq_max_msgs (k_mq k i)" using mq_entry_bound(2)[OF assms(1)] assms(2) by blast
  then have "mq_entry (k_mq k i) < 65535" using assms(1) by (simp add: mq_parts_def)
  then show ?thesis by (simp add: mq_send_finish_def mq_count_def mq_appended_def[abs_def] Let_def)
qed

lemma mq_urgent_finish_eq:
  assumes "mq_parts (k_mq k i) qs fs hs" "m \<in> hs"
  shows "mq_urgent_finish i b m k = (RT_EOK, wake_one (MqQ i) (mq_upd i (mq_prepended b m) k))"
proof -
  have "mq_entry (k_mq k i) < mq_max_msgs (k_mq k i)" using mq_entry_bound(2)[OF assms(1)] assms(2) by blast
  then have "mq_entry (k_mq k i) < 65535" using assms(1) by (simp add: mq_parts_def)
  then show ?thesis by (simp add: mq_urgent_finish_def mq_count_def mq_prepended_def[abs_def] Let_def)
qed

text \<open>A pass of a send either takes the first free slot or leaves the queue alone.\<close>

definition mq_send_pass :: "nat \<Rightarrow> (rt_err_t, mq_progress) flow \<Rightarrow> kernel \<Rightarrow> kernel \<Rightarrow> bool" where
  "mq_send_pass i r k k' \<longleftrightarrow>
     (\<exists>b timeout sf. mq_send_wait i b timeout sf k = Some (r, k')) \<or>
     (\<exists>sf t w. mq_send_resume i sf t w k = Some (r, k'))"

definition mq_recv_pass :: "nat \<Rightarrow> (int, mq_progress) flow \<Rightarrow> kernel \<Rightarrow> kernel \<Rightarrow> bool" where
  "mq_recv_pass i r k k' \<longleftrightarrow>
     (\<exists>sz timeout sf. mq_recv i sz timeout sf k = Some (r, k')) \<or>
     (\<exists>sf t w. mq_recv_resume i sf t w k = Some (r, k'))"

lemma mq_send_loop_cases:
  assumes "mq_send_loop i sf self w k = Some (r, k')" "sched_inv k"
  shows "sched_inv k' \<and> (case r of
      Blocked (Copying m) \<Rightarrow> mq_queue_free (k_mq k i) = Some m \<and>
        k' = mq_upd i (\<lambda>mq. mq\<lparr>mq_queue_free := msg_next (mq_msgs mq m)\<rparr>) k
    | _ \<Rightarrow> k_mq k' = k_mq k)"
proof (cases "mq_queue_free (k_mq k i)")
  case (Some m)
  then show ?thesis using assms by (auto simp: mq_send_loop_def split: prod.splits)
next
  case None
  obtain timeout td where w: "w = (timeout, td)" by (cases w)
  obtain t where t: "self = Some t" using assms(1) None by (auto simp: mq_send_loop_def w split: option.splits)
  show ?thesis
  proof (cases "timeout = 0")
    case True
    then show ?thesis using assms None t by (auto simp: mq_send_loop_def w)
  next
    case False
    then obtain r' where r': "timed_wait (MqSendQ i) (mq_flag (k_mq k i)) sf t timeout td
        (set_error (- RT_EINTR) t k) = Some (r', k')"
      "r = (case r' of Done e \<Rightarrow> Done e | Blocked c \<Rightarrow> Blocked (Waiting c))"
      using assms(1) None t by (auto simp: mq_send_loop_def w split: bind_splits)
    from timed_wait_frame[OF r'(1)] show ?thesis using assms(2) r'(2) by (auto split: flow.splits)
  qed
qed

lemma mq_recv_loop_cases:
  assumes "mq_recv_loop i sf self w k = Some (r, k')" "sched_inv k"
  shows "sched_inv k' \<and> (case r of
      Blocked (Copying m) \<Rightarrow> mq_entry (k_mq k i) \<noteq> 0 \<and> mq_queue_head (k_mq k i) = Some m \<and>
        k' = mq_upd i (mq_unlink m) k
    | _ \<Rightarrow> k_mq k' = k_mq k)"
proof (cases "mq_entry (k_mq k i) = 0")
  case False
  then show ?thesis using assms by (auto simp: mq_recv_loop_def split: prod.splits option.splits)
next
  case True
  obtain timeout td where w: "w = (timeout, td)" by (cases w)
  obtain t where t: "self = Some t" using assms(1) True by (auto simp: mq_recv_loop_def w split: option.splits)
  show ?thesis
  proof (cases "timeout = 0")
    case True
    then show ?thesis using assms \<open>mq_entry _ = 0\<close> t by (auto simp: mq_recv_loop_def w)
  next
    case False
    then obtain r' where r': "timed_wait (MqQ i) (mq_flag (k_mq k i)) sf t timeout td
        (set_error (- RT_EINTR) t k) = Some (r', k')"
      "r = (case r' of Done e \<Rightarrow> Done e | Blocked c \<Rightarrow> Blocked (Waiting c))"
      using assms(1) True t by (auto simp: mq_recv_loop_def w split: bind_splits)
    from timed_wait_frame[OF r'(1)] show ?thesis using assms(2) r'(2) by (auto split: flow.splits)
  qed
qed

lemma mq_send_pass_cases:
  assumes "mq_send_pass i r k k'" "sched_inv k"
  shows "sched_inv k' \<and> (case r of
      Blocked (Copying m) \<Rightarrow> mq_queue_free (k_mq k i) = Some m \<and>
        k' = mq_upd i (\<lambda>mq. mq\<lparr>mq_queue_free := msg_next (mq_msgs mq m)\<rparr>) k
    | _ \<Rightarrow> k_mq k' = k_mq k)"
proof -
  have "(k' = k \<and> (\<exists>e. r = Done e)) \<or> (\<exists>sf self w. mq_send_loop i sf self w k = Some (r, k'))"
    using assms(1) unfolding mq_send_pass_def mq_send_wait_def mq_send_resume_def
    by (auto split: if_splits simp del: split_paired_Ex split_paired_All)
  then show ?thesis using assms(2) mq_send_loop_cases[OF _ assms(2)] by auto
qed

lemma mq_recv_pass_cases:
  assumes "mq_recv_pass i r k k'" "sched_inv k"
  shows "sched_inv k' \<and> (case r of
      Blocked (Copying m) \<Rightarrow> mq_entry (k_mq k i) \<noteq> 0 \<and> mq_queue_head (k_mq k i) = Some m \<and>
        k' = mq_upd i (mq_unlink m) k
    | _ \<Rightarrow> k_mq k' = k_mq k)"
proof -
  have "(k' = k \<and> (\<exists>e. r = Done e)) \<or> (\<exists>sf self w. mq_recv_loop i sf self w k = Some (r, k'))"
    using assms(1) unfolding mq_recv_pass_def mq_recv_def mq_recv_resume_def
    by (auto split: if_splits simp del: split_paired_Ex split_paired_All)
  then show ?thesis using assms(2) mq_recv_loop_cases[OF _ assms(2)] by auto
qed

section \<open>The message queue as a channel\<close>

text \<open>
  Beside the kernel state, a state of the channel records the slots that senders hold between
  their two critical sections, and for every slot a receiver holds, the message it is copying.
\<close>

type_synonym mq_state = "kernel \<times> nat set \<times> (nat \<rightharpoonup> u8 list)"

definition mq_invar :: "nat \<Rightarrow> mq_state \<Rightarrow> bool" where
  "mq_invar i = (\<lambda>(k, tx, rx). sched_inv k \<and> (\<exists>qs fs. mq_parts (k_mq k i) qs fs (tx \<union> dom rx)) \<and>
     tx \<inter> dom rx = {} \<and> (\<forall>m b. rx m = Some b \<longrightarrow> mq_holds (k_mq k i) m b))"

text \<open>A message counts as sent when its slot is linked, and as received when its slot is unlinked.\<close>

definition mq_sends :: "nat \<Rightarrow> u8 list \<Rightarrow> mq_state \<Rightarrow> mq_state \<Rightarrow> bool" where
  "mq_sends i b = (\<lambda>(k, tx, rx) s'. \<exists>m k'. m \<in> tx \<and> length b \<le> mq_msg_size (k_mq k i) \<and>
     mq_send_finish i b m k = (RT_EOK, k') \<and> s' = (k', tx - {m}, rx))"

definition mq_receives :: "nat \<Rightarrow> u8 list \<Rightarrow> mq_state \<Rightarrow> mq_state \<Rightarrow> bool" where
  "mq_receives i b = (\<lambda>(k, tx, rx) s'. \<exists>m k'. mq_recv_pass i (Blocked (Copying m)) k k' \<and>
     b = mq_bytes (k_mq k i) m \<and> s' = (k', tx, rx(m \<mapsto> b)))"

text \<open>
  Everything else: a sender takes a slot, a receiver returns its slot, a call fails or waits, and
  activity that leaves the queue alone.
\<close>

definition mq_neutral :: "nat \<Rightarrow> mq_state \<Rightarrow> mq_state \<Rightarrow> bool" where
  "mq_neutral i = (\<lambda>(k, tx, rx) s'.
     (\<exists>m k'. mq_send_pass i (Blocked (Copying m)) k k' \<and> s' = (k', insert m tx, rx)) \<or>
     (\<exists>m sz res k'. m \<in> dom rx \<and> mq_recv_finish i sz m k = (res, k') \<and> s' = (k', tx, rx(m := None))) \<or>
     (\<exists>r k'. (\<forall>m. r \<noteq> Blocked (Copying m)) \<and> (mq_send_pass i r k k' \<or> mq_recv_pass i r k k') \<and>
        s' = (k', tx, rx)) \<or>
     (\<exists>k'. sched_inv k' \<and> k_mq k' i = k_mq k i \<and> s' = (k', tx, rx)))"

lemma mq_send_law:
  assumes "mq_invar i (k, tx, rx)" "mq_sends i b (k, tx, rx) (k', tx', rx')"
  shows "mq_invar i (k', tx', rx')" "mq_contents (k_mq k' i) = mq_contents (k_mq k i) @ [b]"
    "mq_max_msgs (k_mq k' i) = mq_max_msgs (k_mq k i)"
proof -
  obtain m where m: "m \<in> tx" "length b \<le> mq_msg_size (k_mq k i)" "mq_send_finish i b m k = (RT_EOK, k')"
    "tx' = tx - {m}" "rx' = rx" using assms(2) by (auto simp: mq_sends_def)
  obtain qs fs where p: "mq_parts (k_mq k i) qs fs (tx \<union> dom rx)" using assms(1) by (auto simp: mq_invar_def)
  have h: "m \<in> tx \<union> dom rx" "m \<notin> dom rx" using m(1) assms(1) by (auto simp: mq_invar_def)
  have k': "k' = wake_one (MqQ i) (mq_upd i (mq_appended b m) k)"
    using mq_send_finish_eq[OF p h(1), of b] m(3) by simp
  note a = mq_appended_parts[OF p h(1) m(2)]
  have d: "(tx \<union> dom rx) - {m} = tx' \<union> dom rx'" using h(2) m(4,5) by auto
  show "mq_contents (k_mq k' i) = mq_contents (k_mq k i) @ [b]" using a(2) by (simp add: k')
  show "mq_max_msgs (k_mq k' i) = mq_max_msgs (k_mq k i)" by (simp add: k' mq_appended_def Let_def)
  have "mq_holds (k_mq k' i) x c" if "rx' x = Some c" for x c
  proof -
    have "x \<noteq> m" "mq_holds (k_mq k i) x c" using that h(2) m(5) assms(1) by (auto simp: mq_invar_def)
    then show ?thesis using a(3)[of x] by (simp add: k')
  qed
  moreover have "mq_parts (k_mq k' i) (qs @ [m]) fs (tx' \<union> dom rx')" using a(1) d by (simp add: k')
  moreover have "sched_inv k'" using assms(1) by (simp add: k' mq_invar_def wake_one_inv)
  moreover have "tx' \<inter> dom rx' = {}" using assms(1) m(4,5) by (auto simp: mq_invar_def)
  ultimately show "mq_invar i (k', tx', rx')" unfolding mq_invar_def by blast
qed

lemma mq_receive_law:
  assumes "mq_invar i (k, tx, rx)" "mq_receives i b (k, tx, rx) (k', tx', rx')"
  shows "mq_invar i (k', tx', rx')" "mq_contents (k_mq k i) = b # mq_contents (k_mq k' i)"
    "mq_max_msgs (k_mq k' i) = mq_max_msgs (k_mq k i)"
proof -
  obtain m where m: "mq_recv_pass i (Blocked (Copying m)) k k'" "b = mq_bytes (k_mq k i) m"
    "tx' = tx" "rx' = rx(m \<mapsto> b)" using assms(2) by (auto simp: mq_receives_def)
  obtain qs fs where p: "mq_parts (k_mq k i) qs fs (tx \<union> dom rx)" and inv: "sched_inv k"
    using assms(1) by (auto simp: mq_invar_def)
  have c: "mq_queue_head (k_mq k i) = Some m" "k' = mq_upd i (mq_unlink m) k" "sched_inv k'"
    using mq_recv_pass_cases[OF m(1) inv] by auto
  obtain qs' where qs: "qs = m # qs'" using p c(1) by (cases qs) (auto simp: mq_parts_def)
  have u: "mq_parts (k_mq k' i) qs' fs (insert m (tx \<union> dom rx))"
    using mq_unlink_parts[of "k_mq k i" m qs' fs] p qs by (simp add: c(2))
  have "m \<notin> tx \<union> dom rx" using p qs by (auto simp: mq_parts_def)
  moreover have "insert m (tx \<union> dom rx) = tx' \<union> dom rx'" using m(3,4) by auto
  ultimately show "mq_invar i (k', tx', rx')"
    using u c(3) assms(1) m(2-4) mq_queued_holds[OF p, of m] qs by (auto simp: mq_invar_def c(2))
  show "mq_contents (k_mq k i) = b # mq_contents (k_mq k' i)"
    using mq_parts_contents[OF p] mq_parts_contents[OF u] qs m(2) by (simp add: c(2))
  show "mq_max_msgs (k_mq k' i) = mq_max_msgs (k_mq k i)" by (simp add: c(2))
qed

lemma mq_take_slot_law:
  assumes "mq_invar i (k, tx, rx)" "mq_send_pass i (Blocked (Copying m)) k k'"
  shows "mq_invar i (k', insert m tx, rx)" "mq_contents (k_mq k' i) = mq_contents (k_mq k i)"
    "mq_max_msgs (k_mq k' i) = mq_max_msgs (k_mq k i)"
proof -
  obtain qs fs where p: "mq_parts (k_mq k i) qs fs (tx \<union> dom rx)" and inv: "sched_inv k"
    using assms(1) by (auto simp: mq_invar_def)
  have c: "mq_queue_free (k_mq k i) = Some m" "sched_inv k'"
    "k' = mq_upd i (\<lambda>mq. mq\<lparr>mq_queue_free := msg_next (mq_msgs mq m)\<rparr>) k"
    using mq_send_pass_cases[OF assms(2) inv] by auto
  obtain fs' where fs: "fs = m # fs'" using p c(1) by (cases fs) (auto simp: mq_parts_def)
  have u: "mq_parts (k_mq k' i) qs fs' (insert m (tx \<union> dom rx))"
    using mq_take_free[of "k_mq k i" qs m fs'] p fs by (simp add: c(3))
  have "m \<notin> tx \<union> dom rx" using p fs by (auto simp: mq_parts_def)
  then show "mq_invar i (k', insert m tx, rx)"
    using u c(2) assms(1) by (auto simp: mq_invar_def c(3))
  show "mq_contents (k_mq k' i) = mq_contents (k_mq k i)"
    using mq_parts_contents[OF p] mq_parts_contents[OF u] by (simp add: c(3))
  show "mq_max_msgs (k_mq k' i) = mq_max_msgs (k_mq k i)" by (simp add: c(3))
qed

lemma mq_return_slot_law:
  assumes "mq_invar i (k, tx, rx)" "m \<in> dom rx" "mq_recv_finish i sz m k = (res, k')"
  shows "mq_invar i (k', tx, rx(m := None))" "mq_contents (k_mq k' i) = mq_contents (k_mq k i)"
    "mq_max_msgs (k_mq k' i) = mq_max_msgs (k_mq k i)"
proof -
  obtain qs fs where p: "mq_parts (k_mq k i) qs fs (tx \<union> dom rx)" and inv: "sched_inv k"
    using assms(1) by (auto simp: mq_invar_def)
  have k': "k' = wake_one (MqSendQ i) (mq_upd i (mq_give_back m) k)"
    using assms(3) by (simp add: mq_recv_finish_def Let_def)
  have u: "mq_parts (k_mq k' i) qs (m # fs) (tx \<union> dom rx - {m})"
    using mq_give_back_parts[OF p, of m] assms(2) by (simp add: k')
  have "tx \<union> dom rx - {m} = tx \<union> dom (rx(m := None))" using assms(1,2) by (auto simp: mq_invar_def)
  then show "mq_invar i (k', tx, rx(m := None))"
    using u inv assms(1) by (auto simp: mq_invar_def k' wake_one_inv)
  show "mq_contents (k_mq k' i) = mq_contents (k_mq k i)"
    using mq_parts_contents[OF p] mq_parts_contents[OF u] by (simp add: k')
  show "mq_max_msgs (k_mq k' i) = mq_max_msgs (k_mq k i)" by (simp add: k')
qed

lemma mq_neutral_law:
  assumes "mq_invar i (k, tx, rx)" "mq_neutral i (k, tx, rx) (k', tx', rx')"
  shows "mq_invar i (k', tx', rx') \<and> mq_contents (k_mq k' i) = mq_contents (k_mq k i) \<and>
    mq_max_msgs (k_mq k' i) = mq_max_msgs (k_mq k i)"
proof -
  have inv: "sched_inv k" using assms(1) by (simp add: mq_invar_def)
  consider (slot) m where "mq_send_pass i (Blocked (Copying m)) k k'" "tx' = insert m tx" "rx' = rx"
    | (returned) m sz res where "m \<in> dom rx" "mq_recv_finish i sz m k = (res, k')" "tx' = tx" "rx' = rx(m := None)"
    | (fail) r where "\<forall>m. r \<noteq> Blocked (Copying m)" "mq_send_pass i r k k' \<or> mq_recv_pass i r k k'" "tx' = tx" "rx' = rx"
    | (other) "sched_inv k'" "k_mq k' i = k_mq k i" "tx' = tx" "rx' = rx"
    using assms(2) unfolding mq_neutral_def prod.case prod.inject by blast
  then show ?thesis
  proof cases
    case slot
    then show ?thesis using mq_take_slot_law[OF assms(1)] by simp
  next
    case returned
    then show ?thesis using mq_return_slot_law[OF assms(1)] by simp
  next
    case fail
    from fail(2) have "sched_inv k' \<and> k_mq k' = k_mq k"
    proof
      assume "mq_send_pass i r k k'"
      from mq_send_pass_cases[OF this inv] show ?thesis
        using fail(1) by (auto split: flow.splits mq_progress.splits)
    next
      assume "mq_recv_pass i r k k'"
      from mq_recv_pass_cases[OF this inv] show ?thesis
        using fail(1) by (auto split: flow.splits mq_progress.splits)
    qed
    then show ?thesis using assms(1) fail(3,4) by (auto simp: mq_invar_def)
  next
    case other
    then show ?thesis using assms(1) by (auto simp: mq_invar_def)
  qed
qed

interpretation msgqueue: fifo_channel "mq_invar i" "\<lambda>(k, _). mq_contents (k_mq k i)"
  "\<lambda>(k, _). mq_max_msgs (k_mq k i)" "mq_sends i" "mq_receives i" "mq_neutral i" for i
proof unfold_locales
  fix s b s'
  assume a: "mq_invar i s" "mq_sends i b s s'"
  obtain k tx rx k' tx' rx' where s: "s = (k, tx, rx)" "s' = (k', tx', rx')" by (cases s, cases s')
  show "mq_invar i s' \<and> (case s' of (k, _) \<Rightarrow> mq_contents (k_mq k i)) = (case s of (k, _) \<Rightarrow> mq_contents (k_mq k i)) @ [b] \<and>
      (case s' of (k, _) \<Rightarrow> mq_max_msgs (k_mq k i)) = (case s of (k, _) \<Rightarrow> mq_max_msgs (k_mq k i))"
    using mq_send_law[OF a[unfolded s]] by (simp add: s)
next
  fix s b s'
  assume a: "mq_invar i s" "mq_receives i b s s'"
  obtain k tx rx k' tx' rx' where s: "s = (k, tx, rx)" "s' = (k', tx', rx')" by (cases s, cases s')
  show "mq_invar i s' \<and> (case s of (k, _) \<Rightarrow> mq_contents (k_mq k i)) = b # (case s' of (k, _) \<Rightarrow> mq_contents (k_mq k i)) \<and>
      (case s' of (k, _) \<Rightarrow> mq_max_msgs (k_mq k i)) = (case s of (k, _) \<Rightarrow> mq_max_msgs (k_mq k i))"
    using mq_receive_law[OF a[unfolded s]] by (simp add: s)
next
  fix s s'
  assume a: "mq_invar i s" "mq_neutral i s s'"
  obtain k tx rx k' tx' rx' where s: "s = (k, tx, rx)" "s' = (k', tx', rx')" by (cases s, cases s')
  show "mq_invar i s' \<and> (case s' of (k, _) \<Rightarrow> mq_contents (k_mq k i)) = (case s of (k, _) \<Rightarrow> mq_contents (k_mq k i)) \<and>
      (case s' of (k, _) \<Rightarrow> mq_max_msgs (k_mq k i)) = (case s of (k, _) \<Rightarrow> mq_max_msgs (k_mq k i))"
    using mq_neutral_law[OF a[unfolded s]] by (simp add: s)
next
  fix s
  assume a: "mq_invar i s"
  obtain k tx rx where s: "s = (k, tx, rx)" by (cases s)
  obtain qs fs where p: "mq_parts (k_mq k i) qs fs (tx \<union> dom rx)" using a by (auto simp: mq_invar_def s)
  have "length (mq_contents (k_mq k i)) = mq_entry (k_mq k i)"
    using mq_parts_contents[OF p] p by (simp add: mq_parts_def)
  then show "length (case s of (k, _) \<Rightarrow> mq_contents (k_mq k i)) \<le> (case s of (k, _) \<Rightarrow> mq_max_msgs (k_mq k i))"
    using mq_entry_bound(1)[OF p] by (simp add: s)
qed

section \<open>Initialisation and reset\<close>

lemma give_back_entry: "mq_give_back m (mq\<lparr>mq_entry := n\<rparr>) = (mq_give_back m mq)\<lparr>mq_entry := n\<rparr>"
  by (simp add: mq_give_back_def Let_def msg_upd_def)

lemma fold_give_back_entry:
  "fold mq_give_back xs (mq\<lparr>mq_entry := n\<rparr>) = (fold mq_give_back xs mq)\<lparr>mq_entry := n\<rparr>"
  by (induction xs arbitrary: mq) (simp_all add: give_back_entry)

lemma fold_give_back_parts:
  assumes "mq_parts mq [] [] {..<N}" "n \<le> N"
  shows "mq_parts (fold mq_give_back [0..<n] mq) [] (rev [0..<n]) {n..<N}"
  using assms(2)
proof (induction n)
  case 0
  then show ?case using assms(1) by (simp add: atLeast0LessThan)
next
  case (Suc n)
  have "{n..<N} - {n} = {Suc n..<N}" by auto
  then show ?case
    using mq_give_back_parts[of "fold mq_give_back [0..<n] mq" "[]" "rev [0..<n]" "{n..<N}" n] Suc by simp
qed

lemma reset_chains_parts:
  assumes "mq_max_msgs mq < 0x10000"
    "\<forall>m<mq_max_msgs mq. mq_msg_size mq \<le> length (msg_data (mq_msgs mq m))"
  shows "mq_parts (mq_reset_chains mq) [] (rev [0..<mq_max_msgs mq]) {}"
proof -
  let ?mq = "mq\<lparr>mq_queue_head := None, mq_queue_tail := None, mq_queue_free := None, mq_entry := 0\<rparr>"
  have "mq_parts ?mq [] [] {..<mq_max_msgs mq}" using assms by (simp add: mq_parts_def)
  from fold_give_back_parts[OF this order_refl]
  have "mq_parts (fold mq_give_back [0..<mq_max_msgs mq] ?mq) [] (rev [0..<mq_max_msgs mq]) {}" by simp
  then show ?thesis
    by (simp add: mq_reset_chains_def Let_def fold_give_back_entry)
qed

lemma drain_step_entry:
  "(mq_drain_step m mq)\<lparr>mq_entry := n\<rparr> = mq_give_back m (mq_unlink m (mq\<lparr>mq_entry := Suc n\<rparr>))"
  by (simp add: mq_drain_step_def mq_unlink_def mq_give_back_def msg_upd_def Let_def)

text \<open>The loop of the reset command ends, whatever the stale count says.\<close>

lemma drain_parts:
  assumes "mq_parts (mq\<lparr>mq_entry := length qs\<rparr>) qs fs hs"
  shows "\<exists>mq'. mq_drain mq = Some mq' \<and> mq_parts (mq'\<lparr>mq_entry := 0\<rparr>) [] (rev qs @ fs) hs"
  using assms
proof (induction qs arbitrary: mq fs)
  case Nil
  then have "mq_queue_head mq = None" by (simp add: mq_parts_def)
  then show ?case using Nil by (simp add: mq_drain.simps)
next
  case (Cons m qs)
  have h: "mq_queue_head mq = Some m" "m \<notin> hs" using Cons.prems by (auto simp: mq_parts_def)
  have u: "mq_parts (mq_unlink m (mq\<lparr>mq_entry := Suc (length qs)\<rparr>)) qs fs (insert m hs)"
    using mq_unlink_parts[of "mq\<lparr>mq_entry := Suc (length qs)\<rparr>" m qs fs hs] Cons.prems by simp
  have "mq_parts ((mq_drain_step m mq)\<lparr>mq_entry := length qs\<rparr>) qs (m # fs) hs"
    unfolding drain_step_entry using mq_give_back_parts[OF u, of m] h(2) by simp
  from Cons.IH[OF this] show ?case using h(1) by (simp add: mq_drain.simps[of mq])
qed

lemma recv_finish_holds:
  assumes "mq_holds (k_mq k i) m b"
  shows "fst (mq_recv_finish i sz m k) = (int (min (length b) sz), take sz b)"
proof -
  have b: "take (msg_length (mq_msgs (k_mq k i) m)) (msg_data (mq_msgs (k_mq k i) m)) = b"
    "msg_length (mq_msgs (k_mq k i) m) = length b" using assms unfolding mq_holds_def mq_bytes_def by blast+
  have "take (min (length b) sz) (msg_data (mq_msgs (k_mq k i) m)) = take sz b"
    using b by (metis min.commute take_take)
  then show ?thesis using b(2) by (simp add: mq_recv_finish_def Let_def min_def split: if_splits)
qed

text \<open>A send and a receive that nobody interrupts.\<close>

lemma send_uninterrupted:
  assumes "mq_invar i (k, tx, rx)" "mq_queue_free (k_mq k i) \<noteq> None" "b \<noteq> []" "length b \<le> mq_msg_size (k_mq k i)"
  obtains m k1 k2 where "rt_mq_send i b k = Some (Blocked (Copying m), k1)"
    "mq_send_finish i b m k1 = (RT_EOK, k2)" "mq_invar i (k2, tx, rx)"
    "mq_contents (k_mq k2 i) = mq_contents (k_mq k i) @ [b]"
proof -
  obtain m where m: "mq_queue_free (k_mq k i) = Some m" using assms(2) by auto
  define k1 where "k1 = mq_upd i (\<lambda>mq. mq\<lparr>mq_queue_free := msg_next (mq_msgs mq m)\<rparr>) k"
  have send: "rt_mq_send i b k = Some (Blocked (Copying m), k1)"
    using m assms(3,4) by (simp add: rt_mq_send_def rt_mq_send_wait_def mq_send_wait_def mq_send_loop_def
        scheduler_available_def k1_def)
  then have "mq_send_pass i (Blocked (Copying m)) k k1"
    unfolding mq_send_pass_def rt_mq_send_def rt_mq_send_wait_def by blast
  note s1 = mq_take_slot_law[OF assms(1) this]
  obtain qs0 fs0 where "mq_parts (k_mq k i) qs0 fs0 (tx \<union> dom rx)" using assms(1) by (auto simp: mq_invar_def)
  then have tx: "insert m tx - {m} = tx" using m by (cases fs0) (auto simp: mq_parts_def)
  obtain qs fs where p1: "mq_parts (k_mq k1 i) qs fs (insert m tx \<union> dom rx)" using s1(1) by (auto simp: mq_invar_def)
  obtain k2 where f2: "mq_send_finish i b m k1 = (RT_EOK, k2)" using mq_send_finish_eq[OF p1] by blast
  have "mq_sends i b (k1, insert m tx, rx) (k2, tx, rx)"
    using f2 assms(4) tx unfolding mq_sends_def prod.case
    by (intro exI[of _ m] exI[of _ k2]) (simp add: k1_def)
  from mq_send_law[OF s1(1) this] show ?thesis using that[OF send f2] s1(2) by simp
qed

lemma recv_uninterrupted:
  assumes "mq_invar i (k, tx, rx)" "mq_contents (k_mq k i) = c # cs" "0 < sz"
  obtains m k1 k2 where "rt_mq_recv i sz 0 k = Some (Blocked (Copying m), k1)"
    "mq_recv_finish i sz m k1 = ((int (min (length c) sz), take sz c), k2)"
    "mq_contents (k_mq k2 i) = cs"
proof -
  obtain qs fs where p: "mq_parts (k_mq k i) qs fs (tx \<union> dom rx)" using assms(1) by (auto simp: mq_invar_def)
  have "qs \<noteq> []" using mq_parts_contents[OF p] assms(2) by auto
  then obtain m where m: "mq_queue_head (k_mq k i) = Some m" "mq_entry (k_mq k i) \<noteq> 0"
    using p by (cases qs) (auto simp: mq_parts_def)
  define k1 where "k1 = mq_upd i (mq_unlink m) k"
  have recv: "rt_mq_recv i sz 0 k = Some (Blocked (Copying m), k1)"
    using m assms(3) by (simp add: rt_mq_recv_def mq_recv_def mq_recv_loop_def scheduler_available_def k1_def)
  then have "mq_recv_pass i (Blocked (Copying m)) k k1" unfolding mq_recv_pass_def rt_mq_recv_def by blast
  then have "mq_receives i (mq_bytes (k_mq k i) m) (k, tx, rx) (k1, tx, rx(m \<mapsto> mq_bytes (k_mq k i) m))"
    by (auto simp: mq_receives_def)
  note s = mq_receive_law[OF assms(1) this]
  have c: "mq_bytes (k_mq k i) m = c" "mq_contents (k_mq k1 i) = cs" using s(2) assms(2) by auto
  have "mq_holds (k_mq k1 i) m c" using s(1) c(1) by (auto simp: mq_invar_def)
  then obtain k2 where f: "mq_recv_finish i sz m k1 = ((int (min (length c) sz), take sz c), k2)"
    using recv_finish_holds by (metis prod.collapse)
  have "mq_contents (k_mq k2 i) = cs" using mq_return_slot_law(2)[OF s(1) _ f] c(2) by simp
  then show ?thesis using that[OF recv f] by simp
qed

section \<open>A concrete queue\<close>

text \<open>A queue of two slots of four bytes.\<close>

definition mq_example :: kernel where
  "mq_example = snd (rt_mq_init 0 (\<lambda>_. \<lparr>msg_next = None, msg_length = 0, msg_data = replicate 8 0\<rparr>) 4 32
     RT_IPC_FLAG_FIFO sleep_example)"

lemma mq_example_facts:
  "sched_inv mq_example" "mq_parts (k_mq mq_example 0) [] [1, 0] {}" "mq_msg_size (k_mq mq_example 0) = 4"
proof -
  define mq0 where "mq0 = (k_mq sleep_example 0)\<lparr>mq_flag := RT_IPC_FLAG_FIFO,
     mq_msgs := (\<lambda>_. \<lparr>msg_next = None, msg_length = 0, msg_data = replicate 8 0\<rparr>), mq_msg_size := 4, mq_max_msgs := 2\<rparr>"
  have q0: "k_queue sleep_example (MqQ 0) = []" "k_queue sleep_example (MqSendQ 0) = []"
    by (simp_all add: sleep_example_def sched_example_def kernel0_def)
  have ss: "mq_slot_size 4 = 16" by (simp add: mq_slot_size_def RT_ALIGN_def)
  have e: "mq_example = mq_upd 0 (\<lambda>_. mq_reset_chains mq0) sleep_example"
    using q0 by (simp add: mq_example_def rt_mq_init_def ss Let_def mq0_def mq_upd_def fun_upd_idem)
  show "sched_inv mq_example" using sleep_example_facts(1) by (simp add: e)
  have m: "mq_max_msgs mq0 = 2" "mq_msg_size mq0 = 4" by (simp_all add: mq0_def)
  have "mq_parts (mq_reset_chains mq0) [] (rev [0..<2]) {}"
    using reset_chains_parts[of mq0] m by (simp add: mq0_def)
  then show "mq_parts (k_mq mq_example 0) [] [1, 0] {}" by (simp add: e upt_rec)
  show "mq_msg_size (k_mq mq_example 0) = 4"
    using m by (simp add: e mq_reset_chains_def Let_def numeral_2_eq_2 mq_give_back_def)
qed

lemma mq_example_invar: "mq_invar 0 (mq_example, {}, Map.empty)"
  using mq_example_facts(1,2) by (auto simp: mq_invar_def)

text \<open>One message has been linked and its receiver is copying it.\<close>

lemma mq_example_trace:
  obtains k where "chan_trace (mq_sends 0) (mq_receives 0) (mq_neutral 0) (mq_example, {}, Map.empty)
    [[7, 8]] [[7, 8]] (k, {}, [1 \<mapsto> [7, 8]])"
proof -
  let ?tr = "chan_trace (mq_sends 0) (mq_receives 0) (mq_neutral 0) (mq_example, {}, Map.empty)"
  have e: "mq_queue_free (k_mq mq_example 0) = Some 1" using mq_example_facts(2) by (simp add: mq_parts_def)
  define k1 where "k1 = mq_upd 0 (\<lambda>mq. mq\<lparr>mq_queue_free := msg_next (mq_msgs mq 1)\<rparr>) mq_example"
  have "mq_send_wait 0 [7, 8] 0 RT_UNINTERRUPTIBLE mq_example = Some (Blocked (Copying 1), k1)"
    using e mq_example_facts(3)
    by (simp add: mq_send_wait_def mq_send_loop_def scheduler_available_def k1_def)
  then have p: "mq_send_pass 0 (Blocked (Copying 1)) mq_example k1" unfolding mq_send_pass_def by blast
  then have "mq_neutral 0 (mq_example, {}, Map.empty) (k1, {1}, Map.empty)" by (auto simp: mq_neutral_def)
  with chan_trace.start have t1: "?tr [] [] (k1, {1}, Map.empty)" by (rule chan_trace.other)
  note i1 = mq_take_slot_law[OF mq_example_invar p]
  obtain qs fs where p1: "mq_parts (k_mq k1 0) qs fs {1}" using i1(1) by (auto simp: mq_invar_def)
  obtain k2 where f2: "mq_send_finish 0 [7, 8] 1 k1 = (RT_EOK, k2)" using mq_send_finish_eq[OF p1] by blast
  have s2: "mq_sends 0 [7, 8] (k1, {1}, Map.empty) (k2, {}, Map.empty)"
    using f2 mq_example_facts(3) by (auto simp: mq_sends_def k1_def)
  with t1 have t2: "?tr ([] @ [[7, 8]]) [] (k2, {}, Map.empty)" by (rule chan_trace.send)
  have inv2: "mq_invar 0 (k2, {}, Map.empty)" using mq_send_law(1)[OF _ s2] i1(1) by simp
  have k2: "k2 = wake_one (MqQ 0) (mq_upd 0 (mq_appended [7, 8] 1) k1)" using mq_send_finish_eq[OF p1] f2 by simp
  have h: "mq_parts (k_mq k2 0) (qs @ [1]) fs {}"
    using mq_appended_parts(1)[OF p1, of 1 "[7, 8]"] mq_example_facts(3) by (simp add: k2 k1_def)
  have "qs = []" using mq_parts_contents[OF p1] i1(2) mq_parts_contents[OF mq_example_facts(2)] by simp
  then have m: "mq_queue_head (k_mq k2 0) = Some 1" "mq_entry (k_mq k2 0) = 1" using h by (auto simp: mq_parts_def)
  have "mq_recv 0 8 0 RT_UNINTERRUPTIBLE k2 = Some (Blocked (Copying 1), mq_upd 0 (mq_unlink 1) k2)"
    using m by (simp add: mq_recv_def mq_recv_loop_def scheduler_available_def)
  then have "mq_recv_pass 0 (Blocked (Copying 1)) k2 (mq_upd 0 (mq_unlink 1) k2)" unfolding mq_recv_pass_def by blast
  then have r3: "mq_receives 0 (mq_bytes (k_mq k2 0) 1) (k2, {}, Map.empty)
      (mq_upd 0 (mq_unlink 1) k2, {}, [1 \<mapsto> mq_bytes (k_mq k2 0) 1])" by (auto simp: mq_receives_def)
  have "mq_contents (k_mq k2 0) = [[7, 8]]"
    using mq_send_law(2)[OF _ s2] i1(1,2) mq_parts_contents[OF mq_example_facts(2)] by simp
  then have "mq_bytes (k_mq k2 0) 1 = [7, 8]" using mq_receive_law(2)[OF inv2 r3] by simp
  with r3 have "mq_receives 0 [7, 8] (k2, {}, Map.empty) (mq_upd 0 (mq_unlink 1) k2, {}, [1 \<mapsto> [7, 8]])" by simp
  with t2 have "?tr ([] @ [[7, 8]]) ([] @ [[7, 8]]) (mq_upd 0 (mq_unlink 1) k2, {}, [1 \<mapsto> [7, 8]])"
    by (rule chan_trace.receive)
  then show ?thesis using that by simp
qed

section \<open>Properties\<close>

text \<open>
  C4. A message queue is a FIFO channel even though sends and receives copy messages outside their
  critical sections: over every interleaving of the passes of sending and receiving calls, failed
  and waiting calls and other activity, the messages unlinked by receivers followed by the queued
  messages are the initial messages followed by the messages linked by senders, in order, and at
  most as many are outstanding as there are slots.
\<close>

theorem mq_fifo:
  assumes "chan_trace (mq_sends i) (mq_receives i) (mq_neutral i) (k0, tx0, rx0) ss rs (k, tx, rx)"
    and "mq_invar i (k0, tx0, rx0)"
  shows "mq_contents (k_mq k0 i) @ ss = rs @ mq_contents (k_mq k i) \<and>
    length (mq_contents (k_mq k0 i)) + length ss \<le> length rs + mq_max_msgs (k_mq k0 i)"
  using msgqueue.trace_law[OF assms] msgqueue.trace_bounds(2)[OF assms] by simp

theorem mq_fifo_witness:
  "\<exists>k. chan_trace (mq_sends 0) (mq_receives 0) (mq_neutral 0) (mq_example, {}, Map.empty)
     [[7, 8]] [[7, 8]] (k, {}, [1 \<mapsto> [7, 8]]) \<and> mq_contents (k_mq k 0) = []"
proof -
  obtain k where t: "chan_trace (mq_sends 0) (mq_receives 0) (mq_neutral 0) (mq_example, {}, Map.empty)
     [[7, 8]] [[7, 8]] (k, {}, [1 \<mapsto> [7, 8]])" by (rule mq_example_trace)
  then show ?thesis
    using mq_fifo [OF t mq_example_invar] mq_parts_contents[OF mq_example_facts(2)] by auto
qed

text \<open>
  A receiver gets its message intact: at any later time of such a run, whatever other senders
  and receivers do meanwhile, the receiver that unlinked slot \<open>m\<close> with message \<open>b\<close> copies exactly \<open>b\<close>, cut
  to the size of its buffer, and returns the number of bytes copied.
\<close>

theorem mq_delivers:
  assumes "chan_trace (mq_sends i) (mq_receives i) (mq_neutral i) (k0, tx0, rx0) ss rs (k, tx, rx)"
    and "mq_invar i (k0, tx0, rx0)" and "rx m = Some b"
  shows "fst (mq_recv_finish i sz m k) = (int (min (length b) sz), take sz b)"
proof -
  have inv: "mq_invar i (k, tx, rx)" using msgqueue.trace_law[OF assms(1,2)] by simp
  then show ?thesis using assms(3) by (intro recv_finish_holds) (auto simp: mq_invar_def)
qed

theorem mq_delivers_witness:
  "\<exists>k. chan_trace (mq_sends 0) (mq_receives 0) (mq_neutral 0) (mq_example, {}, Map.empty)
     [[7, 8]] [[7, 8]] (k, {}, [1 \<mapsto> [7, 8]]) \<and> fst (mq_recv_finish 0 1 1 k) = (1, [7])"
proof -
  obtain k where t: "chan_trace (mq_sends 0) (mq_receives 0) (mq_neutral 0) (mq_example, {}, Map.empty)
     [[7, 8]] [[7, 8]] (k, {}, [1 \<mapsto> [7, 8]])" by (rule mq_example_trace)
  then show ?thesis using mq_delivers [OF t mq_example_invar, of 1 "[7, 8]" 1] by auto
qed

text \<open>
  Round trip: sending a message of legal size to a queue with a free slot and then receiving
  returns the oldest message of the extended queue, the message just sent when the queue was
  empty, cut to the size of the buffer, and leaves the remaining messages in order.
\<close>

theorem mq_roundtrip:
  assumes "mq_invar i (k, tx, rx)" and "mq_queue_free (k_mq k i) \<noteq> None" and "b \<noteq> []"
    and "length b \<le> mq_msg_size (k_mq k i)" and "0 < sz"
  shows "\<exists>m k1 k2 m' k3 k4. rt_mq_send i b k = Some (Blocked (Copying m), k1) \<and>
    mq_send_finish i b m k1 = (RT_EOK, k2) \<and>
    mq_contents (k_mq k2 i) = mq_contents (k_mq k i) @ [b] \<and>
    rt_mq_recv i sz 0 k2 = Some (Blocked (Copying m'), k3) \<and>
    (let c = hd (mq_contents (k_mq k i) @ [b])
     in mq_recv_finish i sz m' k3 = ((int (min (length c) sz), take sz c), k4)) \<and>
    mq_contents (k_mq k4 i) = tl (mq_contents (k_mq k i) @ [b])"
proof -
  obtain m k1 k2 where s: "rt_mq_send i b k = Some (Blocked (Copying m), k1)"
    "mq_send_finish i b m k1 = (RT_EOK, k2)" "mq_invar i (k2, tx, rx)"
    "mq_contents (k_mq k2 i) = mq_contents (k_mq k i) @ [b]"
    using send_uninterrupted[OF assms(1-4)] by metis
  have "mq_contents (k_mq k2 i) = hd (mq_contents (k_mq k i) @ [b]) # tl (mq_contents (k_mq k i) @ [b])"
    using s(4) by simp
  from recv_uninterrupted[OF s(3) this assms(5)] s(1,2,4) show ?thesis by (metis (no_types, lifting))
qed

theorem mq_roundtrip_witness:
  "\<exists>m k1 k2 m' k3 k4. rt_mq_send 0 [7, 8] mq_example = Some (Blocked (Copying m), k1) \<and>
     mq_send_finish 0 [7, 8] m k1 = (0, k2) \<and> rt_mq_recv 0 10 0 k2 = Some (Blocked (Copying m'), k3) \<and>
     mq_recv_finish 0 10 m' k3 = ((2, [7, 8]), k4)"
proof -
  have "mq_queue_free (k_mq mq_example 0) \<noteq> None" "mq_contents (k_mq mq_example 0) = []"
    using mq_example_facts(2) mq_parts_contents[OF mq_example_facts(2)] by (auto simp: mq_parts_def)
  then show ?thesis
    using mq_roundtrip [OF mq_example_invar, of "[7, 8]" 10] mq_example_facts(3) by (fastforce simp: Let_def)
qed

text \<open>
  C36. The reset command returns: its loop over the queued messages ends although the count is stale
  while it runs, every queued slot is on the free list afterwards, the queue is empty, and the slots
  held by calls in progress are not touched.
\<close>

theorem mq_reset_ends:
  assumes "sched_inv k" and "mq_parts (k_mq k i) qs fs hs"
  shows "\<exists>k'. rt_mq_control i True k = Some (RT_EOK, k') \<and> sched_inv k' \<and>
    mq_parts (k_mq k' i) [] (rev qs @ fs) hs \<and> mq_contents (k_mq k' i) = []"
proof -
  have e: "(k_mq k i)\<lparr>mq_entry := length qs\<rparr> = k_mq k i" using assms(2) by (simp add: mq_parts_def)
  obtain mq' where d: "mq_drain (k_mq k i) = Some mq'" "mq_parts (mq'\<lparr>mq_entry := 0\<rparr>) [] (rev qs @ fs) hs"
    using drain_parts[where mq = "k_mq k i" and qs = qs and fs = fs and hs = hs] assms(2) by (auto simp: e)
  have r: "k_mq (mq_resume_everyone i k) = k_mq k" "sched_inv (mq_resume_everyone i k)"
    using assms(1) by (simp_all add: mq_resume_everyone_def resume_all_inv)
  let ?k = "rt_schedule (mq_upd i (\<lambda>_. mq'\<lparr>mq_entry := 0\<rparr>) (mq_resume_everyone i k))"
  have "rt_mq_control i True k = Some (RT_EOK, ?k)" using d(1) r(1) by (simp add: rt_mq_control_def Let_def)
  moreover have "sched_inv ?k" using r(2) by (simp add: schedule_inv)
  moreover have "mq_contents (mq'\<lparr>mq_entry := 0\<rparr>) = []" using mq_parts_contents[OF d(2)] by simp
  ultimately show ?thesis using d(2) by simp
qed

theorem mq_reset_ends_witness:
  "\<exists>k'. rt_mq_control 0 True mq_example = Some (0, k') \<and> mq_contents (k_mq k' 0) = []"
  using mq_reset_ends [OF mq_example_facts(1,2)] by auto

text \<open>
  An urgent message is linked to the head of the queue: it is the next one received.
\<close>

theorem mq_urgent_front:
  assumes "mq_parts (k_mq k i) qs fs hs" "m \<in> hs" "length b \<le> mq_msg_size (k_mq k i)"
  shows "\<exists>k'. mq_urgent_finish i b m k = (RT_EOK, k') \<and> mq_parts (k_mq k' i) (m # qs) fs (hs - {m}) \<and>
    mq_contents (k_mq k' i) = b # mq_contents (k_mq k i)"
  using mq_urgent_finish_eq[OF assms(1,2), of b] mq_prepended_parts[OF assms] by simp

text \<open>
  Detaching a queue wakes its receivers with the positive code \<^verbatim>\<open>RT_ERROR\<close>, and the receiving call
  returns that code unchanged: the caller sees 1, which is also the result of receiving a message
  of one byte.
\<close>

theorem mq_detach_looks_like_message:
  assumes "sched_inv k" and "k_queue k (MqSendQ i) = []"
    and "\<forall>t\<in>set (k_queue k (MqQ i)). wake_ok k t"
  shows "\<exists>k'. rt_mq_detach i k = (RT_EOK, k') \<and> k_queue k' (MqQ i) = [] \<and>
    (\<forall>t\<in>set (k_queue k (MqQ i)). \<forall>sf w. mq_recv_resume i sf t w k' = Some (Done 1, k'))"
proof -
  have l: "lists_inv k" and d: "distinct (k_queue k (MqQ i))"
    using assms(1) by (auto simp: sched_inv_def lists_inv_def queues_ok_def)
  let ?k1 = "rt_susp_list_resume_all (MqQ i) RT_ERROR k"
  have eq: "?k1 = fold (wake_with RT_ERROR) (k_queue k (MqQ i)) k"
    using assms(3) by (intro resume_all_fold[OF l]) auto
  have wk: "\<And>t. t \<in> set (k_queue k (MqQ i)) \<Longrightarrow> wake_ok k t" using assms(3) by blast
  have th: "th_error (k_thread ?k1 t) = 1" if "t \<in> set (k_queue k (MqQ i))" for t
    using fold_wake_effect[OF d wk, of 1 "MqQ i" t] that by (simp add: eq)
  have q1: "k_queue ?k1 (MqQ i) = []" "k_queue ?k1 (MqSendQ i) = []"
    using fold_wake_effect[OF d wk, of 1 "MqQ i" 0] fold_wake_effect[OF d wk, of 1 "MqSendQ i" 0] assms(2)
    by (simp_all add: eq)
  have "rt_susp_list_resume_all (MqSendQ i) RT_ERROR ?k1 = ?k1"
    using q1(2) by (simp add: rt_susp_list_resume_all_def)
  then show ?thesis
    using th q1(1) by (simp add: rt_mq_detach_def mq_resume_everyone_def mq_recv_resume_def)
qed

theorem mq_detach_looks_like_message_witness:
  "\<exists>k'. rt_mq_detach 0 (waiting_on (MqQ 0)) = (0, k') \<and>
     mq_recv_resume 0 RT_UNINTERRUPTIBLE 2 (100, 0) k' = Some (Done 1, k')"
proof -
  have "k_queue (waiting_on (MqQ 0)) (MqSendQ 0) = []" by (simp add: waiting_on_def)
  moreover have "\<forall>t\<in>set (k_queue (waiting_on (MqQ 0)) (MqQ 0)). wake_ok (waiting_on (MqQ 0)) t"
    using waiting_on_facts(1-3)[of "MqQ 0"] by simp
  ultimately show ?thesis
    using mq_detach_looks_like_message [OF waiting_on_inv, of "MqQ 0" 0] waiting_on_facts(1)[of "MqQ 0"] by auto
qed

end
