(* ===== verification/Mempool.thy ===== *)
theory Mempool
  imports Blocking
begin

text \<open>
  Memory pools (\<^verbatim>\<open>src/mempool.c\<close>): blocks of one size, each with a word in front of it that links the
  free blocks or names the pool of an allocated block. Blocks are numbered by their position in the
  pool; the word of block \<open>n\<close> of pool \<open>i\<close> is \<open>mp_word (k_mempool k i) n\<close>. An allocation from an empty
  pool waits in a loop, like a mailbox. For dynamic pools the results of the allocations are
  arguments. The main results: blocks are handed out to one owner at a time, and every block is
  either free or handed out.
\<close>

section \<open>Operations\<close>

text \<open>The loop that links all blocks and the final null pointer; without any block it writes in front of the pool.\<close>

definition mp_link_blocks :: "nat \<Rightarrow> (nat \<Rightarrow> block_word) \<Rightarrow> (nat \<Rightarrow> block_word) option" where
  "mp_link_blocks cnt wd =
     (let wd1 = fold (\<lambda>offset wd. wd(offset := Free_next (Some (offset + 1)))) [0..<cnt] wd
      in if cnt = 0 then None else Some (wd1(cnt - 1 := Free_next None)))"

definition mp_setup :: "nat \<Rightarrow> nat \<Rightarrow> kernel \<Rightarrow> kernel option" where
  "mp_setup i cnt k = do {
     let k1 = mempool_upd i (\<lambda>mp. mp\<lparr>mp_block_total_count := cnt, mp_block_free_count := cnt\<rparr>)
                (k\<lparr>k_queue := (k_queue k)(MempoolQ i := [])\<rparr>);
     wd \<leftarrow> mp_link_blocks cnt (mp_word (k_mempool k1 i));
     Some (mempool_upd i (\<lambda>mp. mp\<lparr>mp_word := wd, mp_block_list := Some 0\<rparr>) k1)
   }"

definition rt_mp_init :: "nat \<Rightarrow> u32 \<Rightarrow> u32 \<Rightarrow> kernel \<Rightarrow> (rt_err_t \<times> kernel) option" where
  "rt_mp_init i sz block_size k =
     (if \<not> (sz > 0 \<and> block_size > 0) then None
      else do {
        let sz' = RT_ALIGN_DOWN sz 8;
        let block_size' = RT_ALIGN block_size 8;
        let k1 = mempool_upd i (\<lambda>mp. mp\<lparr>mp_size := unat sz', mp_block_size := unat block_size'\<rparr>) k;
        k2 \<leftarrow> mp_setup i (unat (sz' div (block_size' + 4))) k1;
        Some (RT_EOK, k2)
      })"

definition rt_mp_create :: "nat option \<Rightarrow> bool \<Rightarrow> u32 \<Rightarrow> u32 \<Rightarrow> kernel \<Rightarrow> (nat option \<times> kernel) option" where
  "rt_mp_create obj mem block_count block_size k =
     (if \<not> not_in_interrupt k \<or> \<not> (block_count > 0 \<and> block_size > 0) then None
      else case obj of
        None \<Rightarrow> Some (None, k)
      | Some i \<Rightarrow> do {
          let block_size' = RT_ALIGN block_size 8;
          let k1 = mempool_upd i (\<lambda>mp. mp\<lparr>mp_size := unat ((block_size' + 4) * block_count),
                     mp_block_size := unat block_size'\<rparr>) k;
          if \<not> mem then Some (None, k1)
          else do { k2 \<leftarrow> mp_setup i (unat block_count) k1; Some (Some i, k2) }
        })"

definition rt_mp_detach :: "nat \<Rightarrow> kernel \<Rightarrow> rt_err_t \<times> kernel" where
  "rt_mp_detach i k = (RT_EOK, rt_susp_list_resume_all (MempoolQ i) RT_ERROR k)"

definition rt_mp_delete :: "nat \<Rightarrow> kernel \<Rightarrow> (rt_err_t \<times> kernel) option" where
  "rt_mp_delete i k =
     (if not_in_interrupt k then Some (RT_EOK, rt_susp_list_resume_all (MempoolQ i) RT_ERROR k) else None)"

text \<open>Taking the first free block; \<open>None\<close> is the assertion that there is one.\<close>

definition mp_take :: "nat \<Rightarrow> rt_mempool \<Rightarrow> (nat \<times> rt_mempool) option" where
  "mp_take i mp =
     (let mp1 = mp\<lparr>mp_block_free_count := mp_block_free_count mp - 1\<rparr>
      in case mp_block_list mp1 of
           None \<Rightarrow> None
         | Some n \<Rightarrow>
             (case mp_word mp1 n of
                Owner_pool _ \<Rightarrow> None
              | Free_next nx \<Rightarrow> Some (n, mp1\<lparr>mp_block_list := nx, mp_word := (mp_word mp1)(n := Owner_pool i)\<rparr>)))"

text \<open>
  One pass of the loop of an allocation. The result of the suspension is not looked at. The value
  of a successful call is the number of the block.
\<close>

definition mp_alloc_loop :: "nat \<Rightarrow> tid option \<Rightarrow> int \<times> u32 \<Rightarrow> kernel \<Rightarrow>
    ((nat option, int \<times> u32) flow \<times> kernel) option" where
  "mp_alloc_loop i self w k =
     (let (time, before_sleep) = w
      in if mp_block_free_count (k_mempool k i) = 0
         then if time = 0 then Some (Done None, rt_set_errno (- RT_ETIMEOUT) k)
              else if \<not> not_in_interrupt k then None
              else case self of
                None \<Rightarrow> None
              | Some t \<Rightarrow> do {
                  let k1 = set_error RT_EOK t k;
                  (_, k2) \<leftarrow> rt_thread_suspend_to_list t (Some (MempoolQ i)) RT_IPC_FLAG_FIFO RT_UNINTERRUPTIBLE k1;
                  let before_sleep' = (if time > 0 then k_tick k2 else before_sleep);
                  k3 \<leftarrow> arm_timeout t time k2;
                  Some (Blocked (time, before_sleep'), rt_schedule k3)
                }
         else do {
           (n, mp) \<leftarrow> mp_take i (k_mempool k i);
           Some (Done (Some n), mempool_upd i (\<lambda>_. mp) k)
         })"

definition rt_mp_alloc :: "nat \<Rightarrow> int \<Rightarrow> kernel \<Rightarrow> ((nat option, int \<times> u32) flow \<times> kernel) option" where
  "rt_mp_alloc i time k = mp_alloc_loop i (rt_thread_self k) (time, 0) k"

definition rt_mp_alloc_resume :: "nat \<Rightarrow> tid \<Rightarrow> int \<times> u32 \<Rightarrow> kernel \<Rightarrow>
    ((nat option, int \<times> u32) flow \<times> kernel) option" where
  "rt_mp_alloc_resume i t w k =
     (if th_error (k_thread k t) \<noteq> RT_EOK then Some (Done None, k)
      else mp_alloc_loop i (Some t) (fst (timeout_left (k_tick k) w), snd w) k)"

text \<open>
  Freeing block \<open>n\<close> of pool \<open>i\<close>. The pool is read from the word in front of the block; \<open>None\<close> is a word
  that does not name a pool, where the C code would take other memory for one.
\<close>

definition mp_put :: "nat \<Rightarrow> rt_mempool \<Rightarrow> rt_mempool" where
  "mp_put n mp = mp\<lparr>mp_block_free_count := mp_block_free_count mp + 1,
     mp_word := (mp_word mp)(n := Free_next (mp_block_list mp)), mp_block_list := Some n\<rparr>"

definition rt_mp_free :: "nat \<Rightarrow> nat option \<Rightarrow> kernel \<Rightarrow> kernel option" where
  "rt_mp_free i block k =
     (case block of
        None \<Rightarrow> Some k
      | Some n \<Rightarrow>
          (case mp_word (k_mempool k i) n of
             Free_next _ \<Rightarrow> None
           | Owner_pool j \<Rightarrow>
               if j \<noteq> i then None
               else let k1 = mempool_upd i (mp_put n) k;
                        (woken, k2) = rt_susp_list_dequeue (MempoolQ i) RT_EOK k1
                    in Some (if woken \<noteq> None then rt_schedule k2 else k2)))"

section \<open>Free blocks\<close>

definition mp_nx :: "rt_mempool \<Rightarrow> nat \<Rightarrow> nat option" where
  "mp_nx mp n = (case mp_word mp n of Free_next p \<Rightarrow> p | Owner_pool _ \<Rightarrow> None)"

text \<open>The blocks of \<open>fs\<close> are the free ones, in list order; all others name their pool.\<close>

definition mp_parts :: "nat \<Rightarrow> rt_mempool \<Rightarrow> nat list \<Rightarrow> bool" where
  "mp_parts i mp fs \<longleftrightarrow> chain (mp_nx mp) (mp_block_list mp) fs \<and> distinct fs \<and>
     set fs \<subseteq> {..<mp_block_total_count mp} \<and> mp_block_free_count mp = length fs \<and>
     (\<forall>n\<in>set fs. \<exists>p. mp_word mp n = Free_next p) \<and>
     (\<forall>n<mp_block_total_count mp. n \<notin> set fs \<longrightarrow> mp_word mp n = Owner_pool i)"

lemma mp_take_parts:
  assumes "mp_parts i mp (n # fs)"
  shows "\<exists>mp'. mp_take i mp = Some (n, mp') \<and> mp_parts i mp' fs \<and>
    mp_block_total_count mp' = mp_block_total_count mp"
proof -
  have n: "n < mp_block_total_count mp" "n \<notin> set fs" "mp_block_list mp = Some n" using assms by (auto simp: mp_parts_def)
  then obtain p where p: "mp_word mp n = Free_next p" using assms by (auto simp: mp_parts_def)
  let ?mp = "mp\<lparr>mp_block_free_count := mp_block_free_count mp - 1, mp_block_list := p,
    mp_word := (mp_word mp)(n := Owner_pool i)\<rparr>"
  have t: "mp_take i mp = Some (n, ?mp)" using n p by (simp add: mp_take_def)
  have nx: "mp_nx ?mp = (mp_nx mp)(n := None)" by (simp add: mp_nx_def fun_eq_iff)
  have "chain (mp_nx mp) p fs" using assms p by (simp add: mp_parts_def mp_nx_def)
  then have "chain (mp_nx ?mp) p fs" unfolding nx using n(2) by simp
  then have "mp_parts i ?mp fs" using assms n(2) by (auto simp: mp_parts_def)
  then show ?thesis using t by simp
qed

lemma mp_put_parts:
  assumes "mp_parts i mp fs" "n < mp_block_total_count mp" "n \<notin> set fs"
  shows "mp_parts i (mp_put n mp) (n # fs)" "mp_block_total_count (mp_put n mp) = mp_block_total_count mp"
proof -
  have nx: "mp_nx (mp_put n mp) = (mp_nx mp)(n := mp_block_list mp)" by (simp add: mp_nx_def mp_put_def fun_eq_iff)
  have "chain (mp_nx (mp_put n mp)) (mp_block_list mp) fs" unfolding nx using assms by (simp add: mp_parts_def)
  then show "mp_parts i (mp_put n mp) (n # fs)"
    using assms nx by (auto simp: mp_parts_def mp_put_def)
  show "mp_block_total_count (mp_put n mp) = mp_block_total_count mp" by (simp add: mp_put_def)
qed

lemma link_blocks_word:
  "fold (\<lambda>offset wd. wd(offset := Free_next (Some (Suc offset)))) [0..<cnt] wd n =
     (if n < cnt then Free_next (Some (Suc n)) else wd n)"
  by (induction cnt) (auto simp: less_Suc_eq)

lemma chain_upt:
  "a \<le> b \<Longrightarrow> (\<And>n. a \<le> n \<Longrightarrow> n < b \<Longrightarrow> nx n = (if Suc n = b then None else Some (Suc n))) \<Longrightarrow>
   chain nx (if a = b then None else Some a) [a..<b]"
proof (induction "b - a" arbitrary: a)
  case 0
  then show ?case by simp
next
  case (Suc d)
  then have a: "a < b" by simp
  have "chain nx (if Suc a = b then None else Some (Suc a)) [Suc a..<b]"
    using Suc a by (intro Suc.hyps(1)) auto
  then show ?case using a Suc.prems(2)[of a] by (simp add: upt_conv_Cons)
qed

lemma mp_setup_parts:
  assumes "0 < cnt" "mp_setup i cnt k = Some k'"
  shows "mp_parts i (k_mempool k' i) [0..<cnt]" "mp_block_total_count (k_mempool k' i) = cnt"
proof -
  let ?wd = "\<lambda>n. if n = cnt - 1 then Free_next None else if n < cnt then Free_next (Some (n + 1))
    else mp_word (k_mempool k i) n"
  have "(fold (\<lambda>offset wd. wd(offset := Free_next (Some (offset + 1)))) [0..<cnt]
      (mp_word (k_mempool k i)))(cnt - 1 := Free_next None) = ?wd"
    by (simp add: fun_eq_iff link_blocks_word)
  then have k': "k_mempool k' i = (k_mempool k i)\<lparr>mp_block_total_count := cnt, mp_block_free_count := cnt,
      mp_word := ?wd, mp_block_list := Some 0\<rparr>"
    using assms by (auto simp: mp_setup_def mp_link_blocks_def Let_def mempool_upd_def)
  show "mp_block_total_count (k_mempool k' i) = cnt" by (simp add: k')
  have "chain (mp_nx (k_mempool k' i)) (if 0 = cnt then None else Some 0) [0..<cnt]"
    by (rule chain_upt) (auto simp: mp_nx_def k')
  then show "mp_parts i (k_mempool k' i) [0..<cnt]"
    using assms(1) by (auto simp: mp_parts_def k')
qed

section \<open>Effects on the kernel state\<close>

lemma mempool_upd_frame [simp]:
  "k_mempool (mempool_upd i f k) = (k_mempool k)(i := f (k_mempool k i))"
  "k_queue (mempool_upd i f k) = k_queue k"
  "k_thread (mempool_upd i f k) = k_thread k"
  "k_current (mempool_upd i f k) = k_current k"
  "k_lock_nest (mempool_upd i f k) = k_lock_nest k"
  "k_timer (mempool_upd i f k) = k_timer k"
  by (simp_all add: mempool_upd_def)

lemma mempool_upd_inv [simp]: "sched_inv (mempool_upd i f k) = sched_inv k"
  by (rule sched_inv_same) (simp add: same_sched_def mempool_upd_def)

lemma mempool_upd_wake_ok [simp]: "wake_ok (mempool_upd i f k) t = wake_ok k t"
  by (simp add: wake_ok_def)

lemma set_errno_frame [simp]:
  "k_mempool (rt_set_errno e k) = k_mempool k" "sched_inv (rt_set_errno e k) = sched_inv k"
  by (simp_all add: rt_set_errno_def split: option.split)

definition mp_alloc_pass :: "nat \<Rightarrow> (nat option, int \<times> u32) flow \<Rightarrow> kernel \<Rightarrow> kernel \<Rightarrow> bool" where
  "mp_alloc_pass i r k k' \<longleftrightarrow>
     (\<exists>time. rt_mp_alloc i time k = Some (r, k')) \<or> (\<exists>t w. rt_mp_alloc_resume i t w k = Some (r, k'))"

lemma mp_alloc_loop_cases:
  assumes "mp_alloc_loop i self w k = Some (r, k')" "sched_inv k"
  shows "sched_inv k' \<and> (case r of
      Done (Some n) \<Rightarrow> 0 < mp_block_free_count (k_mempool k i) \<and>
        (\<exists>mp. mp_take i (k_mempool k i) = Some (n, mp) \<and> k_mempool k' i = mp)
    | _ \<Rightarrow> k_mempool k' = k_mempool k)"
proof (cases "mp_block_free_count (k_mempool k i) = 0")
  case False
  then show ?thesis using assms by (auto simp: mp_alloc_loop_def split: prod.splits bind_splits)
next
  case True
  obtain time td where w: "w = (time, td)" by (cases w)
  show ?thesis
  proof (cases "time = 0")
    case True
    then show ?thesis using assms \<open>mp_block_free_count _ = 0\<close> by (auto simp: mp_alloc_loop_def w)
  next
    case False
    then obtain t e k2 k3 where s:
      "rt_thread_suspend_to_list t (Some (MempoolQ i)) RT_IPC_FLAG_FIFO RT_UNINTERRUPTIBLE (set_error RT_EOK t k) = Some (e, k2)"
      "arm_timeout t time k2 = Some k3" "k' = rt_schedule k3" "\<exists>c. r = Blocked c"
      using assms(1) True
      by (auto simp: mp_alloc_loop_def w Let_def split: if_splits option.splits bind_splits)
    have "sched_inv k2" using assms(2) by (intro suspend_inv[OF _ _ s(1)]) simp_all
    then have "sched_inv k3" using sched_inv_same[OF arm_timeout_same[OF s(2)]] by simp
    moreover have "k_mempool k3 = k_mempool k"
      using arm_timeout_frame[OF s(2)] s(1) by (auto simp: suspend_eq split: if_splits)
    ultimately show ?thesis using s(3,4) schedule_inv by auto
  qed
qed

lemma mp_alloc_pass_cases:
  assumes "mp_alloc_pass i r k k'" "sched_inv k"
  shows "sched_inv k' \<and> (case r of
      Done (Some n) \<Rightarrow> 0 < mp_block_free_count (k_mempool k i) \<and>
        (\<exists>mp. mp_take i (k_mempool k i) = Some (n, mp) \<and> k_mempool k' i = mp)
    | _ \<Rightarrow> k_mempool k' = k_mempool k)"
proof -
  have "(k' = k \<and> r = Done None) \<or> (\<exists>self w. mp_alloc_loop i self w k = Some (r, k'))"
    using assms(1) unfolding mp_alloc_pass_def rt_mp_alloc_def rt_mp_alloc_resume_def
    by (auto split: if_splits simp del: split_paired_Ex split_paired_All)
  then show ?thesis using assms(2) mp_alloc_loop_cases[OF _ assms(2)] by auto
qed

lemma mp_free_cases:
  assumes "rt_mp_free i (Some n) k = Some k'" "sched_inv k"
  shows "sched_inv k'" "k_mempool k' i = mp_put n (k_mempool k i)"
proof -
  let ?k1 = "mempool_upd i (mp_put n) k"
  have k': "k' = (if fst (rt_susp_list_dequeue (MempoolQ i) RT_EOK ?k1) \<noteq> None
      then rt_schedule (snd (rt_susp_list_dequeue (MempoolQ i) RT_EOK ?k1))
      else snd (rt_susp_list_dequeue (MempoolQ i) RT_EOK ?k1))"
    using assms(1) by (auto simp: rt_mp_free_def Let_def split_beta split: block_word.splits if_splits)
  show "sched_inv k'" using assms(2) by (simp add: k' schedule_inv dequeue_inv)
  show "k_mempool k' i = mp_put n (k_mempool k i)" by (simp add: k')
qed

section \<open>Runs\<close>

text \<open>
  A run of the users of pool \<open>i\<close>; \<open>out\<close> is the set of blocks handed out and not yet freed. A user frees
  only blocks that are handed out.
\<close>

inductive mp_run :: "nat \<Rightarrow> kernel \<Rightarrow> nat set \<Rightarrow> kernel \<Rightarrow> bool" for i :: nat and k0 :: kernel where
  start: "mp_run i k0 {} k0"
| alloc: "mp_run i k0 out k \<Longrightarrow> mp_alloc_pass i (Done (Some n)) k k' \<Longrightarrow> mp_run i k0 (insert n out) k'"
| no_block: "mp_run i k0 out k \<Longrightarrow> mp_alloc_pass i r k k' \<Longrightarrow> \<forall>n. r \<noteq> Done (Some n) \<Longrightarrow> mp_run i k0 out k'"
| free: "mp_run i k0 out k \<Longrightarrow> n \<in> out \<Longrightarrow> rt_mp_free i (Some n) k = Some k' \<Longrightarrow> mp_run i k0 (out - {n}) k'"
| other: "mp_run i k0 out k \<Longrightarrow> sched_inv k' \<Longrightarrow> k_mempool k' i = k_mempool k i \<Longrightarrow> mp_run i k0 out k'"

definition mp_invar :: "nat \<Rightarrow> nat set \<Rightarrow> kernel \<Rightarrow> bool" where
  "mp_invar i out k \<longleftrightarrow> sched_inv k \<and> (\<exists>fs. mp_parts i (k_mempool k i) fs \<and>
     out = {..<mp_block_total_count (k_mempool k i)} - set fs)"

lemma mp_alloc_invar:
  assumes "mp_invar i out k" "mp_alloc_pass i (Done (Some n)) k k'"
  shows "mp_invar i (insert n out) k'" "n \<notin> out" "n < mp_block_total_count (k_mempool k i)"
    "mp_block_total_count (k_mempool k' i) = mp_block_total_count (k_mempool k i)"
proof -
  obtain fs where fs: "mp_parts i (k_mempool k i) fs" "out = {..<mp_block_total_count (k_mempool k i)} - set fs"
    and inv: "sched_inv k" using assms(1) by (auto simp: mp_invar_def)
  have c: "sched_inv k'" "0 < mp_block_free_count (k_mempool k i)" "mp_take i (k_mempool k i) = Some (n, k_mempool k' i)"
    using mp_alloc_pass_cases[OF assms(2) inv] by auto
  obtain x xs where x: "fs = x # xs" using fs(1) c(2) by (cases fs) (auto simp: mp_parts_def)
  obtain mp where mp: "mp_take i (k_mempool k i) = Some (x, mp)" "mp_parts i mp xs"
    "mp_block_total_count mp = mp_block_total_count (k_mempool k i)"
    using mp_take_parts[OF fs(1)[unfolded x]] by blast
  have e: "n = x" "k_mempool k' i = mp" using c(3) mp(1) by auto
  have d: "x \<notin> set xs" "x < mp_block_total_count (k_mempool k i)" using fs(1) by (auto simp: mp_parts_def x)
  show "n \<notin> out" "n < mp_block_total_count (k_mempool k i)" using fs(2) d by (simp_all add: e x)
  show t: "mp_block_total_count (k_mempool k' i) = mp_block_total_count (k_mempool k i)" using mp(3) by (simp add: e)
  have "insert n out = {..<mp_block_total_count (k_mempool k' i)} - set xs"
    using fs(2) d t by (auto simp: e(1) x)
  then show "mp_invar i (insert n out) k'" using c(1) mp(2) by (auto simp: mp_invar_def e(2))
qed

lemma mp_free_invar:
  assumes "mp_invar i out k" "n \<in> out"
  obtains k' where "rt_mp_free i (Some n) k = Some k'" "mp_invar i (out - {n}) k'"
    "mp_block_total_count (k_mempool k' i) = mp_block_total_count (k_mempool k i)"
proof -
  obtain fs where fs: "mp_parts i (k_mempool k i) fs" "out = {..<mp_block_total_count (k_mempool k i)} - set fs"
    and inv: "sched_inv k" using assms(1) by (auto simp: mp_invar_def)
  have n: "n < mp_block_total_count (k_mempool k i)" "n \<notin> set fs" using fs(2) assms(2) by auto
  then have "mp_word (k_mempool k i) n = Owner_pool i" using fs(1) by (simp add: mp_parts_def)
  then obtain k' where k': "rt_mp_free i (Some n) k = Some k'" by (simp add: rt_mp_free_def split_beta Let_def)
  note c = mp_free_cases[OF k' inv] and p = mp_put_parts[OF fs(1) n]
  have "out - {n} = {..<mp_block_total_count (k_mempool k' i)} - set (n # fs)" using fs(2) p(2) by (auto simp: c(2))
  then have "mp_invar i (out - {n}) k'" using p(1) c unfolding mp_invar_def by metis
  then show ?thesis using that[OF k'] p(2) by (simp add: c(2))
qed

lemma mp_run_invar:
  assumes "mp_run i k0 out k" "mp_invar i {} k0"
  shows "mp_invar i out k \<and> mp_block_total_count (k_mempool k i) = mp_block_total_count (k_mempool k0 i)"
  using assms
proof (induction rule: mp_run.induct)
  case start
  then show ?case by simp
next
  case (alloc out k n k')
  then show ?case using mp_alloc_invar[OF _ alloc.hyps(2)] by metis
next
  case (no_block out k r k')
  then have "sched_inv k" by (simp add: mp_invar_def)
  from mp_alloc_pass_cases[OF no_block.hyps(2) this] have "sched_inv k' \<and> k_mempool k' = k_mempool k"
    using no_block.hyps(3) by (auto split: flow.splits option.splits)
  then show ?case using no_block by (auto simp: mp_invar_def)
next
  case (free out k n k')
  then obtain k'' where "rt_mp_free i (Some n) k = Some k''" "mp_invar i (out - {n}) k''"
    "mp_block_total_count (k_mempool k'' i) = mp_block_total_count (k_mempool k i)"
    using mp_free_invar by metis
  then show ?case using free by simp
next
  case (other out k k')
  then show ?case by (auto simp: mp_invar_def)
qed

section \<open>A concrete pool\<close>

text \<open>Two blocks of eight bytes.\<close>

definition mp_example :: kernel where
  "mp_example = (case rt_mp_init 0 24 8 sleep_example of Some (_, k) \<Rightarrow> k | None \<Rightarrow> sleep_example)"

lemma mp_setup_same:
  assumes "mp_setup i cnt k = Some k'" "k_queue k (MempoolQ i) = []"
  shows "k' = mempool_upd i (\<lambda>_. k_mempool k' i) k"
  using assms by (auto simp: mp_setup_def mp_link_blocks_def Let_def mempool_upd_def fun_upd_idem split: if_splits)

lemma mp_example_facts:
  "sched_inv mp_example" "can_block mp_example 1" "mp_parts 0 (k_mempool mp_example 0) [0, 1]"
  "mp_block_total_count (k_mempool mp_example 0) = 2"
proof -
  let ?k1 = "mempool_upd 0 (\<lambda>mp. mp\<lparr>mp_size := 24, mp_block_size := 8\<rparr>) sleep_example"
  obtain k2 where k2: "mp_setup 0 2 ?k1 = Some k2" by (simp add: mp_setup_def mp_link_blocks_def Let_def)
  then have e: "mp_example = k2"
    by (simp add: mp_example_def rt_mp_init_def RT_ALIGN_def RT_ALIGN_DOWN_def Let_def)
  have "k_queue ?k1 (MempoolQ 0) = []" by (simp add: sleep_example_def sched_example_def kernel0_def)
  from mp_setup_same[OF k2 this] have "k2 = mempool_upd 0 (\<lambda>_. k_mempool k2 0) ?k1" .
  then have u: "mp_example = mempool_upd 0 (\<lambda>_. k_mempool k2 0) sleep_example" by (simp add: e mempool_upd_def)
  show inv: "sched_inv mp_example" unfolding u using sleep_example_facts(1) by simp
  show "can_block mp_example 1"
    using inv sleep_example_can_block by (simp add: can_block_def u mempool_upd_def thread_timer_ok_def)
  show "mp_parts 0 (k_mempool mp_example 0) [0, 1]" "mp_block_total_count (k_mempool mp_example 0) = 2"
    using mp_setup_parts[OF _ k2] by (simp_all add: e upt_rec)
qed

lemma mp_example_invar: "mp_invar 0 {} mp_example"
proof -
  have "{..<2::nat} - set [0, 1] = {}" by auto
  then show ?thesis unfolding mp_invar_def using mp_example_facts by metis
qed

section \<open>Properties\<close>

text \<open>
  C10. Exclusive ownership of pool blocks: over every run of allocations, waits, frees and other
  activity, the blocks handed out and the free blocks together are all blocks of the pool; a further
  allocation never hands out a block that somebody holds; and every block that is held can be freed.
\<close>

theorem mp_exclusive:
  assumes "mp_run i k0 out k" and "mp_invar i {} k0"
  shows "out \<subseteq> {..<mp_block_total_count (k_mempool k0 i)} \<and>
    card out + mp_block_free_count (k_mempool k i) = mp_block_total_count (k_mempool k0 i) \<and>
    (\<forall>n k'. mp_alloc_pass i (Done (Some n)) k k' \<longrightarrow> n \<notin> out \<and> n < mp_block_total_count (k_mempool k0 i)) \<and>
    (\<forall>n\<in>out. \<exists>k'. rt_mp_free i (Some n) k = Some k')"
proof -
  note r = mp_run_invar[OF assms]
  obtain fs where fs: "mp_parts i (k_mempool k i) fs" "out = {..<mp_block_total_count (k_mempool k i)} - set fs"
    using r by (auto simp: mp_invar_def)
  have "card (set fs) = mp_block_free_count (k_mempool k i)" "set fs \<subseteq> {..<mp_block_total_count (k_mempool k i)}"
    using fs(1) by (auto simp: mp_parts_def distinct_card)
  then have "card out + mp_block_free_count (k_mempool k i) = mp_block_total_count (k_mempool k i)"
    using card_Diff_subset[of "set fs" "{..<mp_block_total_count (k_mempool k i)}"]
      card_mono[of "{..<mp_block_total_count (k_mempool k i)}" "set fs"] by (simp add: fs(2))
  moreover have "\<exists>k'. rt_mp_free i (Some n) k = Some k'" if "n \<in> out" for n
    using mp_free_invar[OF _ that] r by metis
  ultimately show ?thesis using r fs(2) mp_alloc_invar(2,3)[of i out k] by auto
qed

theorem mp_exclusive_witness:
  "\<exists>k. mp_run 0 mp_example {0} k \<and> mp_block_free_count (k_mempool k 0) = 1"
proof -
  obtain mp where "mp_take 0 (k_mempool mp_example 0) = Some (0, mp)"
    using mp_take_parts[OF mp_example_facts(3)] by blast
  moreover have "mp_block_free_count (k_mempool mp_example 0) \<noteq> 0" using mp_example_facts(3) by (simp add: mp_parts_def)
  ultimately have "rt_mp_alloc 0 0 mp_example = Some (Done (Some 0), mempool_upd 0 (\<lambda>_. mp) mp_example)"
    by (simp add: rt_mp_alloc_def mp_alloc_loop_def)
  then have "mp_alloc_pass 0 (Done (Some 0)) mp_example (mempool_upd 0 (\<lambda>_. mp) mp_example)"
    unfolding mp_alloc_pass_def by blast
  with mp_run.start have r: "mp_run 0 mp_example {0} (mempool_upd 0 (\<lambda>_. mp) mp_example)" by (rule mp_run.alloc)
  show ?thesis using mp_exclusive [OF r mp_example_invar] mp_example_facts(4) r by fastforce
qed

text \<open>
  Allocating from a pool by a running thread: a free block is handed out, the first of the free
  list, which then names the pool; from an empty pool the call returns null at once with the timeout
  error when no waiting time is given, and otherwise suspends the caller on the list of the pool.
\<close>

theorem mp_alloc_correct:
  assumes "can_block k t" and "time < 0x7FFFFFFF" and "mp_parts i (k_mempool k i) fs"
  shows "case fs of
      n # ns \<Rightarrow> \<exists>k'. rt_mp_alloc i time k = Some (Done (Some n), k') \<and> sched_inv k' \<and>
        mp_parts i (k_mempool k' i) ns \<and> mp_word (k_mempool k' i) n = Owner_pool i
    | [] \<Rightarrow> if time = 0
        then rt_mp_alloc i time k = Some (Done None, set_error (- RT_ETIMEOUT) t k)
        else \<exists>k'. rt_mp_alloc i time k = Some (Blocked (time, if time > 0 then k_tick k else 0), k') \<and>
          sched_inv k' \<and> scheduled k' \<and> k_current k' \<noteq> Some t \<and> t \<in> set (k_queue k' (MempoolQ i)) \<and>
          wake_ok k' t \<and> k_mempool k' = k_mempool k"
proof (cases fs)
  case (Cons n ns)
  have fc: "mp_block_free_count (k_mempool k i) \<noteq> 0" using assms(3) by (simp add: mp_parts_def Cons)
  obtain mp where mp: "mp_take i (k_mempool k i) = Some (n, mp)" "mp_parts i mp ns"
    "mp_block_total_count mp = mp_block_total_count (k_mempool k i)"
    using mp_take_parts[OF assms(3)[unfolded Cons]] by blast
  have "n < mp_block_total_count mp" "n \<notin> set ns" using assms(3) mp(3) by (auto simp: mp_parts_def Cons)
  then have "mp_word mp n = Owner_pool i" using mp(2) by (simp add: mp_parts_def)
  then show ?thesis
    using Cons fc mp(1,2) can_block_inv[OF assms(1)] by (simp add: rt_mp_alloc_def mp_alloc_loop_def)
next
  case Nil
  have fc: "mp_block_free_count (k_mempool k i) = 0" using assms(3) by (simp add: mp_parts_def Nil)
  have c: "k_current k = Some t" "k_int_nest k = 0" using assms(1) by (simp_all add: can_block_def)
  define k1 where "k1 = set_error RT_EOK t k"
  have k1: "can_block k1 t" "k_mempool k1 = k_mempool k" "k_tick k1 = k_tick k"
    using assms(1) by (simp_all add: k1_def)
  obtain k' where b: "timed_wait (MempoolQ i) RT_IPC_FLAG_FIFO RT_UNINTERRUPTIBLE t time 0 k1 =
      Some (Blocked (time, if time > 0 then k_tick k1 else 0), k')"
    "sched_inv k'" "scheduled k'" "k_current k' \<noteq> Some t" "t \<in> set (k_queue k' (MempoolQ i))" "wake_ok k' t"
    using mempool_object.timed_wait_blocks[OF k1(1) assms(2)] by metis
  have "rt_mp_alloc i time k = Some (Blocked (time, if time > 0 then k_tick k else 0), k')" if "time \<noteq> 0"
    using b(1) that fc c k1(3)
    by (auto simp: rt_mp_alloc_def mp_alloc_loop_def rt_thread_self_def not_in_interrupt_def k1_def[symmetric]
        timed_wait_def Let_def split: bind_splits if_splits)
  moreover have "k_mempool k' = k_mempool k" using timed_wait_frame[OF b(1) can_block_inv[OF k1(1)]] k1(2) by simp
  moreover have "rt_mp_alloc i 0 k = Some (Done None, set_error (- RT_ETIMEOUT) t k)"
    using fc c by (simp add: rt_mp_alloc_def mp_alloc_loop_def rt_set_errno_def)
  ultimately show ?thesis using Nil b(2-6) by simp
qed

theorem mp_alloc_correct_witness:
  "\<exists>k'. rt_mp_alloc 0 100 mp_example = Some (Done (Some 0), k') \<and> mp_parts 0 (k_mempool k' 0) [1]"
  using mp_alloc_correct [OF mp_example_facts(2) _ mp_example_facts(3), of 100] by auto

end
