(* ===== verification/Clock.thy ===== *)
theory Clock
  imports Blocking
begin

text \<open>
  The system tick (\<^verbatim>\<open>src/clock.c\<close>, \<^verbatim>\<open>src/irq.c\<close>) and the expiry loop of the hard timers
  (\<^verbatim>\<open>rt_timer_check\<close> in \<^verbatim>\<open>src/timer.c\<close>). The tick interrupt counts, charges the running thread's time
  slice, and calls the handlers of the timers that are due. The handlers of application timers are
  an argument. The loop need not end: a periodic timer with a period of 0 is due again at once.
\<close>

section \<open>Operations\<close>

definition rt_interrupt_enter :: "kernel \<Rightarrow> kernel" where
  "rt_interrupt_enter k = k\<lparr>k_int_nest := k_int_nest k + 1\<rparr>"

definition rt_interrupt_leave :: "kernel \<Rightarrow> kernel" where
  "rt_interrupt_leave k = k\<lparr>k_int_nest := k_int_nest k - 1\<rparr>"

text \<open>
  Leaving an interrupt that was never entered does not happen on this port, where every handler
  brackets its work with the two calls; the counter of the model stays at 0 then. The result of the
  query is 8 bits wide.
\<close>

definition rt_interrupt_get_nest :: "kernel \<Rightarrow> nat" where
  "rt_interrupt_get_nest k = k_int_nest k mod 256"

definition rt_tick_get :: "kernel \<Rightarrow> u32" where
  "rt_tick_get k = k_tick k"

definition rt_tick_set :: "u32 \<Rightarrow> kernel \<Rightarrow> kernel" where
  "rt_tick_set tick k = k\<lparr>k_tick := tick\<rparr>"

type_synonym timer_handlers = "nat \<Rightarrow> nat \<Rightarrow> kernel \<Rightarrow> kernel option"

definition call_timeout_func :: "timer_handlers \<Rightarrow> timer_id \<Rightarrow> kernel \<Rightarrow> kernel option" where
  "call_timeout_func handlers i k =
     (case tm_timeout_func (k_timer k i) of
        Thread_timeout \<Rightarrow> thread_timeout (tm_parameter (k_timer k i)) k
      | User_timeout f \<Rightarrow> handlers f (tm_parameter (k_timer k i)) k)"

text \<open>
  One round for a timer that is due: it moves to the local list, its handler runs, and a periodic
  timer is started again, unless the handler has taken it off the local list.
\<close>

definition timer_expire :: "timer_handlers \<Rightarrow> timer_id \<Rightarrow> kernel \<Rightarrow> kernel option" where
  "timer_expire handlers i k = do {
     let k1 = timer_remove i k;
     let k2 = (if \<not> tm_has RT_TIMER_FLAG_PERIODIC (k_timer k1 i)
               then timer_upd i (tm_flag_clear RT_TIMER_FLAG_ACTIVATED) k1 else k1);
     let k3 = timer_upd i (tm_flag_set RT_TIMER_FLAG_PROCESSING) k2;
     let k4 = k3\<lparr>k_timer_run := i # k_timer_run k3\<rparr>;
     k5 \<leftarrow> call_timeout_func handlers i k4;
     let k6 = timer_upd i (tm_flag_clear RT_TIMER_FLAG_PROCESSING) k5;
     if k_timer_run k6 = [] then Some k6
     else let k7 = timer_remove i k6
          in Some (if tm_has RT_TIMER_FLAG_PERIODIC (k_timer k7 i) \<and> tm_has RT_TIMER_FLAG_ACTIVATED (k_timer k7 i)
                   then snd (timer_start i (timer_upd i (tm_flag_clear RT_TIMER_FLAG_ACTIVATED) k7))
                   else k7)
   }"

partial_function (option) timer_check_loop :: "timer_handlers \<Rightarrow> u32 \<Rightarrow> kernel \<Rightarrow> kernel option" where
  "timer_check_loop handlers current_tick k =
     (case k_timer_list k of
        [] \<Rightarrow> Some k
      | i # _ \<Rightarrow>
          if current_tick - tm_timeout_tick (k_timer k i) < TICK_HALF
          then do { k1 \<leftarrow> timer_expire handlers i k; timer_check_loop handlers (rt_tick_get k1) k1 }
          else Some k)"

definition rt_timer_check :: "timer_handlers \<Rightarrow> kernel \<Rightarrow> kernel option" where
  "rt_timer_check handlers k =
     (if rt_interrupt_get_nest k > 0
      then timer_check_loop handlers (rt_tick_get k) (k\<lparr>k_timer_run := []\<rparr>) else None)"

definition rt_tick_increase :: "timer_handlers \<Rightarrow> kernel \<Rightarrow> kernel option" where
  "rt_tick_increase handlers k =
     (if rt_interrupt_get_nest k > 0
      then let k1 = k\<lparr>k_tick := k_tick k + 1\<rparr>;
               k2 = rt_sched_tick_increase k1
           in rt_timer_check handlers k2
      else None)"

text \<open>
  Conversions between ticks and milliseconds for \<open>rate\<close> ticks per second
  (\<^verbatim>\<open>RT_TICK_PER_SECOND\<close>, 1000 on this board). The products are of signed integers, which do not
  overflow for a rate of at most 1000; the sum is of unsigned ticks.
\<close>

definition rt_tick_from_millisecond :: "int \<Rightarrow> int \<Rightarrow> u32" where
  "rt_tick_from_millisecond rate ms =
     (if ms < 0 then 0xFFFFFFFF
      else let tick = word_of_int (rate * (ms div 1000))
           in tick + word_of_int ((rate * (ms mod 1000) + 999) div 1000))"

definition rt_tick_get_millisecond :: "u32 \<Rightarrow> kernel \<Rightarrow> u32" where
  "rt_tick_get_millisecond rate k =
     (if 1000 mod rate = 0 then rt_tick_get k * (1000 div rate) else 0)"

definition rt_thread_mdelay :: "int \<Rightarrow> int \<Rightarrow> kernel \<Rightarrow> ((rt_err_t, unit) flow \<times> kernel) option" where
  "rt_thread_mdelay rate ms k = thread_sleep (rt_tick_from_millisecond rate ms) k"

section \<open>Rescheduling and suspended threads\<close>

lemma schedule_suspended:
  assumes "sched_inv k" "stat_suspended (k_thread k t)"
  shows "stat_of (k_thread (rt_schedule k) t) = stat_of (k_thread k t)"
proof (cases "\<exists>cur. k_current k = Some cur \<and> k_lock_nest k = 0 \<and> k_ready_group k \<noteq> 0")
  case False
  then show ?thesis by (auto simp: rt_schedule_def split: option.split)
next
  case True
  then obtain cur where c: "k_current k = Some cur" "k_lock_nest k = 0" "k_ready_group k \<noteq> 0" by blast
  have l: "lists_inv k" "prio_ok (k_thread k cur)" "stat_of (k_thread k cur) \<noteq> 2"
    using assms(1) c by (auto simp: sched_inv_def cur_ok_def)
  obtain to p where h: "scheduler_get_highest_priority_thread k = (to, p)"
    "stat_of (k_thread k to) = RT_THREAD_READY" "prio_ok (k_thread k to)"
    using highest_ready[OF l(1) c(3)] by metis
  have ne: "to \<noteq> cur" "t \<noteq> to" using h l(3) assms(2) stat_not_suspended(1) by auto
  have "stat_of (k_thread k t) \<noteq> 3" using assms(2) stat_not_suspended(2) by blast
  moreover let ?r = "stat_of (k_thread k cur) = RT_THREAD_RUNNING"
  have "(rt_schedule k = mark_stat RT_THREAD_RUNNING cur (rt_sched_remove_thread cur k) \<and> ?r) \<or>
        rt_schedule k = switch_to cur p ?r to k"
    using c ne by (auto simp: rt_schedule_def h Let_def)
  ultimately show ?thesis
    using switch_to_correct(5,7)[where ins = ?r and p = p, OF l(1,2) _ ne(1) h(3)] ne(2)
    by (cases "t = cur") auto
qed


section \<open>The expiry of thread timers\<close>

text \<open>What the loop needs to know of a thread timer in the list: its thread is suspended.\<close>

definition sleeper :: "kernel \<Rightarrow> timer_id \<Rightarrow> bool" where
  "sleeper k i \<longleftrightarrow> (\<exists>t. i = Thread_timer t \<and> tm_timeout_func (k_timer k i) = Thread_timeout \<and>
     tm_parameter (k_timer k i) = t \<and> \<not> tm_has RT_TIMER_FLAG_PERIODIC (k_timer k i) \<and>
     stat_suspended (k_thread k t) \<and> prio_ok (k_thread k t))"

text \<open>A thread whose wait has timed out.\<close>

definition timed_out :: "kernel \<Rightarrow> tid \<Rightarrow> bool" where
  "timed_out k t \<longleftrightarrow> th_error (k_thread k t) = - RT_ETIMEOUT \<and>
     stat_of (k_thread k t) \<in> {RT_THREAD_READY, RT_THREAD_RUNNING}"

lemma sched_list_timers [simp]:
  "k_timer_run (mark_stat s t k) = k_timer_run k" "k_timer_list (mark_stat s t k) = k_timer_list k"
  "k_timer_run (rt_sched_remove_thread t k) = k_timer_run k"
  "k_timer_list (rt_sched_remove_thread t k) = k_timer_list k"
  "k_timer_run (rt_sched_insert_thread t k) = k_timer_run k" "k_tick (rt_sched_insert_thread t k) = k_tick k"
  by (simp_all add: mark_stat_def rt_sched_remove_thread_def rt_sched_insert_thread_def node_remove_def
      queue_insert_before_def queue_insert_after_def thread_upd_def Let_def)

lemma switch_to_timers [simp]:
  "k_timer_run (switch_to fr p ins to k) = k_timer_run k" "k_timer_list (switch_to fr p ins to k) = k_timer_list k"
  by (simp_all add: switch_to_def Let_def thread_upd_def)

lemma schedule_timers [simp]:
  "k_timer_run (rt_schedule k) = k_timer_run k" "k_timer_list (rt_schedule k) = k_timer_list k"
  by (cases k rule: schedule_cases; simp)+

lemma unlock_n_resched_eq: "rt_sched_unlock_n_resched k = rt_schedule k"
  by (simp add: rt_sched_unlock_n_resched_def rt_schedule_def split: option.split)

lemma timeout_timers:
  assumes "thread_timeout t k = Some k'"
  shows "k_timer k' = k_timer k" "k_timer_list k' = k_timer_list k" "k_timer_run k' = k_timer_run k"
    "k_tick k' = k_tick k" "k_int_nest k' = k_int_nest k"
proof -
  have k': "k' = rt_schedule (rt_sched_insert_thread t (node_remove t (set_error (- RT_ETIMEOUT) t k)))"
    using assms by (simp add: thread_timeout_def Let_def unlock_n_resched_eq split: if_splits)
  show "k_timer k' = k_timer k" "k_timer_list k' = k_timer_list k" "k_timer_run k' = k_timer_run k"
    "k_tick k' = k_tick k" "k_int_nest k' = k_int_nest k"
    by (simp_all add: k') (simp_all add: set_error_def node_remove_def thread_upd_def)
qed

lemma timeout_effect:
  assumes "sched_inv k" "stat_suspended (k_thread k t)" "prio_ok (k_thread k t)"
  obtains k' where "thread_timeout t k = Some k'" "sched_inv k'" "timed_out k' t"
    "\<And>u. u \<noteq> t \<Longrightarrow> stat_suspended (k_thread k u) \<Longrightarrow> stat_suspended (k_thread k' u)"
    "\<And>u. prio_ok (k_thread k u) \<Longrightarrow> prio_ok (k_thread k' u)"
    "\<And>u. timed_out k u \<Longrightarrow> timed_out k' u"
proof -
  define k2 where "k2 = rt_sched_insert_thread t (node_remove t (set_error (- RT_ETIMEOUT) t k))"
  have k': "thread_timeout t k = Some (rt_schedule k2)"
    using assms(2) by (simp add: thread_timeout_def rt_sched_thread_is_suspended_def Let_def k2_def
        unlock_n_resched_eq)
  have "stat_of (k_thread k t) \<noteq> 2" using assms(2) stat_not_suspended(1) by blast
  then have inv2: "sched_inv k2" unfolding k2_def using assms
    by (intro reinsert_inv) (simp_all add: prio_ok_def stat_of_def)
  have st2: "stat_of (k_thread k2 t) \<in> {2, 3}" "th_error (k_thread k2 t) = - 2" by (auto simp: k2_def)
  have o: "u \<noteq> t \<Longrightarrow> k_thread k2 u = k_thread k u" for u by (simp add: k2_def)
  have "timed_out (rt_schedule k2) t" using resched_stat[OF inv2 st2(1)] st2(2) by (simp add: timed_out_def)
  moreover have "stat_suspended (k_thread (rt_schedule k2) u)" if "u \<noteq> t" "stat_suspended (k_thread k u)" for u
    using schedule_suspended[OF inv2, of u] o[OF that(1)] that(2) by (simp add: suspended_iff)
  moreover have "prio_ok (k_thread (rt_schedule k2) u)" if "prio_ok (k_thread k u)" for u
    using that by (cases "u = t") (simp_all add: prio_ok_def o, simp_all add: k2_def)
  moreover have "timed_out (rt_schedule k2) u" if "timed_out k u" for u
    using that resched_stat[OF inv2, of u] st2 by (cases "u = t") (auto simp: timed_out_def o)
  ultimately show ?thesis using that[OF k' schedule_inv[OF inv2]] by blast
qed

text \<open>One round of the loop for a sleeping thread.\<close>

lemma expire_sleeper:
  assumes "sched_inv k" "sleeper k (Thread_timer t)" "k_timer_list k = Thread_timer t # ts"
    "Thread_timer t \<notin> set ts" "k_timer_run k = []"
  obtains k' where "timer_expire h (Thread_timer t) k = Some k'" "sched_inv k'" "timed_out k' t"
    "k_timer_list k' = ts" "k_timer_run k' = []" "k_tick k' = k_tick k"
    "\<And>i. i \<noteq> Thread_timer t \<Longrightarrow> k_timer k' i = k_timer k i"
    "\<And>i. i \<noteq> Thread_timer t \<Longrightarrow> sleeper k i \<Longrightarrow> sleeper k' i"
    "\<And>u. timed_out k u \<Longrightarrow> timed_out k' u"
    "\<not> tm_has RT_TIMER_FLAG_ACTIVATED (k_timer k' (Thread_timer t))"
proof -
  let ?i = "Thread_timer t"
  define k4 where "k4 = (timer_upd ?i (tm_flag_set RT_TIMER_FLAG_PROCESSING)
     (timer_upd ?i (tm_flag_clear RT_TIMER_FLAG_ACTIVATED) (timer_remove ?i k)))\<lparr>k_timer_run := [?i]\<rparr>"
  have tm: "tm_timeout_func (k_timer k ?i) = Thread_timeout" "tm_parameter (k_timer k ?i) = t"
    "\<not> tm_has 4 (k_timer k ?i)" "stat_suspended (k_thread k t)" "prio_ok (k_thread k t)"
    using assms(2) by (auto simp: sleeper_def)
  have k4: "k_thread k4 = k_thread k" "k_timer_list k4 = ts" "k_timer_run k4 = [?i]" "k_tick k4 = k_tick k"
    "k_timer k4 = (k_timer k)(?i := tm_flag_set 2 (tm_flag_clear 1 (k_timer k ?i)))" "same_sched k k4"
    using assms(3,4) by (simp_all add: k4_def timer_upd_def timer_remove_def same_sched_def)
  have "sched_inv k4" using sched_inv_same[OF k4(6)] assms(1) by simp
  then obtain k5 where k5: "thread_timeout t k4 = Some k5" "sched_inv k5" "timed_out k5 t"
    "\<And>u. u \<noteq> t \<Longrightarrow> stat_suspended (k_thread k4 u) \<Longrightarrow> stat_suspended (k_thread k5 u)"
    "\<And>u. prio_ok (k_thread k4 u) \<Longrightarrow> prio_ok (k_thread k5 u)" "\<And>u. timed_out k4 u \<Longrightarrow> timed_out k5 u"
    using timeout_effect[of k4 t] tm(4,5) by (simp add: k4(1)) blast
  note t5 = timeout_timers[OF k5(1)]
  define k7 where "k7 = timer_remove ?i (timer_upd ?i (tm_flag_clear RT_TIMER_FLAG_PROCESSING) k5)"
  have k7: "k_thread k7 = k_thread k5" "k_timer_list k7 = ts" "k_timer_run k7 = []" "k_tick k7 = k_tick k"
    "k_timer k7 = (k_timer k)(?i := tm_flag_clear 2 (tm_flag_set 2 (tm_flag_clear 1 (k_timer k ?i))))"
    "same_sched k5 k7"
    using assms(4) t5 k4 by (simp_all add: k7_def timer_upd_def timer_remove_def same_sched_def)
  have np: "\<not> tm_has 4 (k_timer k7 ?i)" "\<not> tm_has 1 (k_timer k7 ?i)" using tm(3) by (simp_all add: k7(5))
  have call: "call_timeout_func h ?i k4 = Some k5"
    using k5(1) tm(1,2) by (simp add: call_timeout_func_def k4(5))
  have "timer_expire h ?i k = Some k7"
    using call np tm(3) assms(5) t5(3) k4(3)
    by (simp add: timer_expire_def Let_def k7_def) (simp add: k4_def timer_remove_def)
  moreover have "sched_inv k7" using sched_inv_same[OF k7(6)] k5(2) by simp
  moreover have "sleeper k7 i" if i: "i \<noteq> ?i" "sleeper k i" for i
  proof -
    obtain u where "i = Thread_timer u" "u \<noteq> t" "stat_suspended (k_thread k u)" "prio_ok (k_thread k u)"
      using i by (auto simp: sleeper_def)
    then show ?thesis using i k5(4,5)[of u] k4(1) by (auto simp: sleeper_def k7(1,5))
  qed
  moreover have "timed_out k7 u" if "timed_out k u \<or> u = t" for u
    using that k5(3,6) k4(1) by (auto simp: timed_out_def k7(1))
  ultimately show ?thesis using that[of k7] k7 np(2) by simp
qed

definition due :: "kernel \<Rightarrow> timer_id \<Rightarrow> bool" where
  "due k i \<longleftrightarrow> k_tick k - tm_timeout_tick (k_timer k i) < TICK_HALF"

lemma check_loop_sleepers:
  assumes "sched_inv k" "k_timer_list k = map Thread_timer ts @ rest" "distinct (k_timer_list k)" "k_timer_run k = []"
    "\<forall>t\<in>set ts. sleeper k (Thread_timer t) \<and> due k (Thread_timer t)" "rest \<noteq> [] \<longrightarrow> \<not> due k (hd rest)"
  shows "\<exists>k'. timer_check_loop h (k_tick k) k = Some k' \<and> sched_inv k' \<and> k_timer_list k' = rest \<and>
    (\<forall>u. u \<in> set ts \<or> timed_out k u \<longrightarrow> timed_out k' u) \<and>
    (\<forall>t\<in>set ts. \<not> tm_has RT_TIMER_FLAG_ACTIVATED (k_timer k' (Thread_timer t))) \<and>
    (\<forall>i. i \<notin> Thread_timer ` set ts \<longrightarrow> k_timer k' i = k_timer k i)"
  using assms
proof (induction ts arbitrary: k)
  case Nil
  then show ?case by (cases rest) (simp_all add: timer_check_loop.simps due_def)
next
  case (Cons t ts)
  let ?i = "Thread_timer t"
  have l: "k_timer_list k = ?i # (map Thread_timer ts @ rest)" "?i \<notin> set (map Thread_timer ts @ rest)"
    "sleeper k ?i" "due k ?i" using Cons.prems by auto
  obtain k1 where k1: "timer_expire h ?i k = Some k1" "sched_inv k1" "timed_out k1 t"
    "k_timer_list k1 = map Thread_timer ts @ rest" "k_timer_run k1 = []" "k_tick k1 = k_tick k"
    "\<And>i. i \<noteq> ?i \<Longrightarrow> k_timer k1 i = k_timer k i"
    "\<And>i. i \<noteq> ?i \<Longrightarrow> sleeper k i \<Longrightarrow> sleeper k1 i"
    "\<And>u. timed_out k u \<Longrightarrow> timed_out k1 u" "\<not> tm_has 1 (k_timer k1 ?i)"
    using expire_sleeper[OF Cons.prems(1) l(3,1,2) Cons.prems(4)] by metis
  have d: "i \<noteq> ?i \<Longrightarrow> due k1 i = due k i" for i using k1(6,7) by (simp add: due_def)
  have "\<forall>u\<in>set ts. sleeper k1 (Thread_timer u) \<and> due k1 (Thread_timer u)"
  proof
    fix u assume u: "u \<in> set ts"
    then have "Thread_timer u \<noteq> ?i" using l(2) by auto
    then show "sleeper k1 (Thread_timer u) \<and> due k1 (Thread_timer u)"
      using u k1(8) d Cons.prems(5) by simp
  qed
  moreover have "rest \<noteq> [] \<longrightarrow> \<not> due k1 (hd rest)"
    using Cons.prems(6) d[of "hd rest"] l(2) by (cases rest) auto
  ultimately obtain k' where k': "timer_check_loop h (k_tick k1) k1 = Some k'" "sched_inv k'" "k_timer_list k' = rest"
    "\<forall>u. u \<in> set ts \<or> timed_out k1 u \<longrightarrow> timed_out k' u"
    "\<forall>t\<in>set ts. \<not> tm_has 1 (k_timer k' (Thread_timer t))"
    "\<forall>i. i \<notin> Thread_timer ` set ts \<longrightarrow> k_timer k' i = k_timer k1 i"
    using Cons.IH[OF k1(2,4) _ k1(5)] Cons.prems(3) k1(4) l(1) by auto
  have "timer_check_loop h (k_tick k) k = Some k'"
    using l(1,4) k1(1) k'(1) by (simp add: timer_check_loop.simps[of _ _ k] due_def rt_tick_get_def)
  moreover have "k_timer k' i = k_timer k i" if "i \<notin> Thread_timer ` set (t # ts)" for i
    using that k'(6) k1(7)[of i] by auto
  moreover have "\<forall>u\<in>set (t # ts). \<not> tm_has 1 (k_timer k' (Thread_timer u))"
    using k'(5,6) k1(10) l(2) by auto
  ultimately show ?case using k'(2-4) k1(3,9) by auto
qed

lemma sorted_filter_split:
  assumes "sorted (map f xs)"
  shows "xs = filter (\<lambda>x. f x \<le> c) xs @ filter (\<lambda>x. \<not> f x \<le> (c :: nat)) xs"
  using assms
proof (induction xs)
  case (Cons x xs)
  show ?case
  proof (cases "f x \<le> c")
    case True
    then show ?thesis using Cons by simp
  next
    case False
    then have "\<forall>y\<in>set xs. \<not> f y \<le> c" using Cons.prems by (auto intro: order_trans)
    then have "filter (\<lambda>x. f x \<le> c) xs = []" "filter (\<lambda>x. \<not> f x \<le> c) xs = xs" by auto
    then show ?thesis using False by simp
  qed
qed simp

lemma due_iff:
  assumes "timer_window base k" "in_window base (k_tick k)" "i \<in> set (k_timer_list k)"
  shows "due k i \<longleftrightarrow> ticks_from base (timer_deadline k i) \<le> ticks_from base (k_tick k)"
proof -
  have "in_window base (timer_deadline k i)" using assms(1,3) by (auto simp: timer_window_def)
  from later_iff(3)[OF this assms(2)] show ?thesis by (simp add: due_def timer_deadline_def)
qed

section \<open>Properties\<close>

text \<open>
  C7. No sleeper is forgotten: when every timer that is due belongs to a suspended thread, and the
  deadlines and the current tick lie in one half of the tick circle, \<^verbatim>\<open>rt_timer_check\<close> ends; every
  thread whose deadline has been reached is ready or running with the timeout error, its timer is no
  longer active, and exactly the timers that are not due stay in the list, in order and untouched.
\<close>

theorem timer_check_wakes_sleepers:
  assumes "sched_inv k" and "timer_window base k" and "in_window base (k_tick k)"
    and "0 < rt_interrupt_get_nest k" and "\<forall>i\<in>set (k_timer_list k). due k i \<longrightarrow> sleeper k i"
  shows "\<exists>k'. rt_timer_check handlers k = Some k' \<and> sched_inv k' \<and>
    k_timer_list k' = filter (\<lambda>i. \<not> due k i) (k_timer_list k) \<and>
    (\<forall>t. Thread_timer t \<in> set (k_timer_list k) \<and> due k (Thread_timer t) \<longrightarrow>
       timed_out k' t \<and> \<not> tm_has RT_TIMER_FLAG_ACTIVATED (k_timer k' (Thread_timer t))) \<and>
    (\<forall>i\<in>set (k_timer_list k'). k_timer k' i = k_timer k i)"
proof -
  let ?f = "ticks_from base \<circ> timer_deadline k" and ?c = "ticks_from base (k_tick k)"
  let ?xs = "k_timer_list k"
  define k0 where "k0 = k\<lparr>k_timer_run := []\<rparr>"
  define ts where "ts = map (\<lambda>i. case i of Thread_timer t \<Rightarrow> t | User_timer n \<Rightarrow> n) (filter (due k) ?xs)"
  define rest where "rest = filter (\<lambda>i. \<not> due k i) ?xs"
  have ff: "filter (\<lambda>i. ?f i \<le> ?c) ?xs = filter (due k) ?xs" "filter (\<lambda>i. \<not> ?f i \<le> ?c) ?xs = rest"
    unfolding rest_def using due_iff[OF assms(2,3)] by (auto intro!: filter_cong)
  have split: "?xs = filter (due k) ?xs @ rest"
    using sorted_filter_split[of ?f ?xs ?c] assms(2) unfolding ff by (simp add: timer_window_def)
  have tt: "map Thread_timer ts = filter (due k) ?xs"
    unfolding ts_def map_map
  proof (rule map_idI)
    fix i assume "i \<in> set (filter (due k) ?xs)"
    then obtain t where "i = Thread_timer t" using assms(5) by (auto simp: sleeper_def)
    then show "(Thread_timer \<circ> (\<lambda>i. case i of Thread_timer t \<Rightarrow> t | User_timer n \<Rightarrow> n)) i = i" by simp
  qed
  have k0: "sched_inv k0" "k_timer_list k0 = map Thread_timer ts @ rest" "distinct (k_timer_list k0)"
    "k_timer_run k0 = []" "k_tick k0 = k_tick k" "k_timer k0 = k_timer k" "\<And>i. due k0 i = due k i"
    "\<And>i. sleeper k0 i = sleeper k i"
    using assms(1,2) split tt sched_inv_same[of k k0]
    by (simp_all add: k0_def timer_window_def due_def sleeper_def same_sched_def)
  have in_ts: "t \<in> set ts \<longleftrightarrow> Thread_timer t \<in> set ?xs \<and> due k (Thread_timer t)" for t
  proof -
    have "t \<in> set ts \<longleftrightarrow> Thread_timer t \<in> set (map Thread_timer ts)" by auto
    then show ?thesis unfolding tt by auto
  qed
  have "\<forall>t\<in>set ts. sleeper k0 (Thread_timer t) \<and> due k0 (Thread_timer t)"
    using in_ts assms(5) k0(7,8) by blast
  moreover have "rest \<noteq> [] \<longrightarrow> \<not> due k0 (hd rest)"
    using hd_in_set[of rest] k0(7) by (auto simp: rest_def)
  ultimately obtain k' where "timer_check_loop handlers (k_tick k0) k0 = Some k'" "sched_inv k'" "k_timer_list k' = rest"
    "\<forall>u. u \<in> set ts \<or> timed_out k0 u \<longrightarrow> timed_out k' u"
    "\<forall>t\<in>set ts. \<not> tm_has 1 (k_timer k' (Thread_timer t))"
    "\<forall>i. i \<notin> Thread_timer ` set ts \<longrightarrow> k_timer k' i = k_timer k0 i"
    using check_loop_sleepers[OF k0(1-4)] by blast
  moreover have "\<forall>i\<in>set rest. i \<notin> Thread_timer ` set ts" using in_ts by (auto simp: rest_def)
  ultimately show ?thesis
    using assms(4) in_ts k0(5,6) by (auto simp: rt_timer_check_def rt_tick_get_def k0_def[symmetric] rest_def)
qed

text \<open>
  Thread 1 runs, threads 2 and 3 sleep. The deadline of thread 2 lies before the wrap of the tick
  counter and has been passed, the deadline of thread 3 lies ahead.
\<close>

definition check_example :: kernel where
  "check_example = (waiting_on (SemQ 0))\<lparr>k_tick := 1, k_int_nest := 1,
     k_timer := (\<lambda>_. timer_init Thread_timeout 0 0 0)
       (Thread_timer 2 := (timer_init Thread_timeout 2 9 16)\<lparr>tm_timeout_tick := 0xFFFFFFFE, tm_flag := 17\<rparr>,
        Thread_timer 3 := (timer_init Thread_timeout 3 9 16)\<lparr>tm_timeout_tick := 5, tm_flag := 17\<rparr>),
     k_timer_list := [Thread_timer 2, Thread_timer 3]\<rparr>"

lemma check_example_facts:
  "sched_inv check_example" "timer_window 0xFFFFFFF0 check_example" "in_window 0xFFFFFFF0 (k_tick check_example)"
  "0 < rt_interrupt_get_nest check_example" "due check_example (Thread_timer 2)"
  "\<not> due check_example (Thread_timer 3)" "sleeper check_example (Thread_timer 2)"
  "k_timer_list check_example = [Thread_timer 2, Thread_timer 3]"
proof -
  have "same_sched (waiting_on (SemQ 0)) check_example" by (simp add: same_sched_def check_example_def)
  then show "sched_inv check_example" using waiting_on_inv[of "SemQ 0"] sched_inv_same by blast
qed (simp_all add: check_example_def rt_interrupt_get_nest_def due_def sleeper_def timer_window_def
  in_window_def ticks_from_def timer_deadline_def waiting_on_def kernel0_def mk_thread_def thread0_def
  stat_suspended_def prio_ok_def timer_init_def tm_has_def tm_flag_clear_def stat_of_def)

theorem timer_check_wakes_sleepers_witness:
  "\<exists>k'. rt_timer_check (\<lambda>f p. Some) check_example = Some k' \<and> timed_out k' 2 \<and>
    k_timer_list k' = [Thread_timer 3] \<and> k_timer k' (Thread_timer 3) = k_timer check_example (Thread_timer 3)"
  using timer_check_wakes_sleepers[OF check_example_facts(1-4), of "\<lambda>f p. Some"] check_example_facts(5-8)
  by auto

text \<open>
  \<^verbatim>\<open>rt_tick_from_millisecond\<close> rounds up and does not overflow: at up to 1000 ticks per second the
  number of ticks is the least one that lasts at least the given time, and is no larger than the
  number of milliseconds; a negative time is the endless wait.
\<close>

theorem tick_from_millisecond_rounds_up:
  assumes "0 < rate" and "rate \<le> 1000" and "ms < 2 ^ 31"
  shows "if ms < 0 then rt_tick_from_millisecond rate ms = 0xFFFFFFFF
    else rate * ms \<le> 1000 * uint (rt_tick_from_millisecond rate ms) \<and>
         1000 * uint (rt_tick_from_millisecond rate ms) < rate * ms + 1000 \<and>
         uint (rt_tick_from_millisecond rate ms) \<le> ms"
proof (cases "ms < 0")
  case False
  define a b c where "a = ms div 1000" and "b = ms mod 1000" and "c = (rate * b + 999) div 1000"
  have ms: "ms = 1000 * a + b" "0 \<le> a" "0 \<le> b" "b < 1000" using False by (simp_all add: a_def b_def)
  have round: "n \<le> 1000 * ((n + 999) div 1000)" "1000 * ((n + 999) div 1000) < n + 1000" for n :: int
    using div_mult_mod_eq[of "n + 999" 1000] pos_mod_sign[of 1000 "n + 999"] pos_mod_bound[of 1000 "n + 999"]
    by linarith+
  have "rate * b \<le> 1000 * b" "rate * a \<le> 1000 * a" "0 \<le> rate * b" "0 \<le> rate * a"
    using assms(1,2) ms by (simp_all add: mult_right_mono)
  moreover have c: "rate * b \<le> 1000 * c" "1000 * c < rate * b + 1000"
    using round[of "rate * b"] by (simp_all add: c_def)
  ultimately have r: "0 \<le> rate * a + c" "rate * a + c \<le> ms" using ms by linarith+
  have "rt_tick_from_millisecond rate ms = word_of_int (rate * a + c)"
    using False by (simp add: rt_tick_from_millisecond_def a_def b_def c_def)
  then have u: "uint (rt_tick_from_millisecond rate ms) = rate * a + c"
    using r assms(3) by (simp only: uint_word_of_int) simp
  have "rate * ms = 1000 * (rate * a) + rate * b" by (simp add: ms(1) algebra_simps)
  then show ?thesis using False r(2) c by (simp add: u)
qed (simp add: rt_tick_from_millisecond_def)

theorem tick_from_millisecond_rounds_up_witness:
  "333 * 10 \<le> 1000 * uint (rt_tick_from_millisecond 333 10) \<and>
   1000 * uint (rt_tick_from_millisecond 333 10) < 333 * 10 + 1000"
  using tick_from_millisecond_rounds_up[of 333 10] by simp

section \<open>A period of zero\<close>

text \<open>
  A periodic timer of period 0 is accepted by \<^verbatim>\<open>rt_timer_init\<close>. It is due again as soon as it has
  been started again, so the expiry loop never leaves the interrupt.
\<close>

definition zero_period :: "nat \<Rightarrow> kernel \<Rightarrow> bool" where
  "zero_period n k \<longleftrightarrow> k_timer_list k = [User_timer n] \<and> k_timer_run k = [] \<and>
     tm_timeout_func (k_timer k (User_timer n)) = User_timeout 0 \<and>
     tm_init_tick (k_timer k (User_timer n)) = 0 \<and> tm_has RT_TIMER_FLAG_PERIODIC (k_timer k (User_timer n)) \<and>
     tm_has RT_TIMER_FLAG_ACTIVATED (k_timer k (User_timer n)) \<and> due k (User_timer n)"

lemma expire_zero_period:
  assumes "zero_period n k"
  shows "\<exists>k'. timer_expire (\<lambda>f p. Some) (User_timer n) k = Some k' \<and> zero_period n k'"
  using assms
  by (simp add: zero_period_def timer_expire_def Let_def call_timeout_func_def timer_remove_def timer_upd_def
      timer_start_def due_def)

lemma check_loop_not_zero_period:
  assumes "timer_check_loop h c k = Some k'"
  shows "h = (\<lambda>f p. Some) \<longrightarrow> c = k_tick k \<longrightarrow> \<not> zero_period n k"
proof (rule timer_check_loop.raw_induct[OF _ assms,
    where P = "\<lambda>h c k k'. h = (\<lambda>f p. Some) \<longrightarrow> c = k_tick k \<longrightarrow> \<not> zero_period n k"])
  fix loop h c k and k' :: kernel
  assume ih: "\<And>h c k k'. loop h c k = Some k' \<Longrightarrow> h = (\<lambda>f p. Some) \<longrightarrow> c = k_tick k \<longrightarrow> \<not> zero_period n k"
    and body: "(case k_timer_list k of [] \<Rightarrow> Some k
      | i # _ \<Rightarrow> if c - tm_timeout_tick (k_timer k i) < TICK_HALF
          then do { k1 \<leftarrow> timer_expire h i k; loop h (rt_tick_get k1) k1 } else Some k) = Some k'"
  show "h = (\<lambda>f p. Some) \<longrightarrow> c = k_tick k \<longrightarrow> \<not> zero_period n k"
  proof (intro impI notI)
    assume h: "h = (\<lambda>f p. Some)" "c = k_tick k" and z: "zero_period n k"
    then obtain k1 where k1: "timer_expire h (User_timer n) k = Some k1" "zero_period n k1"
      using expire_zero_period by blast
    have "loop h (k_tick k1) k1 = Some k'"
      using body h z k1(1) by (simp add: zero_period_def due_def rt_tick_get_def)
    then show False using ih h k1(2) by blast
  qed
qed

theorem zero_period_never_ends: "zero_period n k \<Longrightarrow> timer_check_loop (\<lambda>f p. Some) (k_tick k) k = None"
  using check_loop_not_zero_period by (cases "timer_check_loop (\<lambda>f p. Some) (k_tick k) k") blast+

end
