(* ===== verification/GpioPin.thy ===== *)
theory GpioPin
  imports Prelude
begin

text \<open>
  The pin device of this board: \<^verbatim>\<open>components/drivers/pin/pin.c\<close> over the STM32 driver
  \<^verbatim>\<open>drv_gpio.c\<close>. A pin is a number, 16 times the port plus the number in the port. The pins with the
  same number on different ports share one external interrupt, so the driver keeps one handler per
  pin number; the interrupts of the numbers 5 to 9 and 10 to 15 share one line of the interrupt
  controller. The calls into the vendor's hardware layer appear by their effect: the configuration
  of a pin, its output, and the lines enabled in the interrupt controller. The level read from an
  input is part of the state, set by the outside world.
\<close>

section \<open>Pin numbers\<close>

definition PIN_NUM :: "int \<Rightarrow> int \<Rightarrow> int" where
  "PIN_NUM port no = (port mod 16) * 16 + no mod 16"

definition PIN_PORT :: "int \<Rightarrow> nat" where
  "PIN_PORT pin = nat ((pin div 16) mod 16)"

definition PIN_NO :: "int \<Rightarrow> nat" where
  "PIN_NO pin = nat (pin mod 16)"

definition PIN_STPIN :: "int \<Rightarrow> u32" where
  "PIN_STPIN pin = push_bit (PIN_NO pin) 1"

text \<open>The ports of the STM32F407 run from A to I.\<close>

definition PIN_STPORT_MAX :: nat where
  "PIN_STPORT_MAX = 9"

definition GPIOA_BASE :: int where
  "GPIOA_BASE = 0x40020000"

definition GPIOE_BASE :: int where
  "GPIOE_BASE = 0x40021000"

definition GET_PIN :: "int \<Rightarrow> int \<Rightarrow> int" where
  "GET_PIN base pin = 16 * ((base - GPIOA_BASE) div 0x400) + pin"

section \<open>State\<close>

datatype gpio_mode = GPIO_MODE_INPUT | GPIO_MODE_OUTPUT_PP | GPIO_MODE_OUTPUT_OD
  | GPIO_MODE_IT_RISING | GPIO_MODE_IT_FALLING | GPIO_MODE_IT_RISING_FALLING

datatype gpio_pull = GPIO_NOPULL | GPIO_PULLUP | GPIO_PULLDOWN

datatype irqn = EXTI0_IRQn | EXTI1_IRQn | EXTI2_IRQn | EXTI3_IRQn | EXTI4_IRQn | EXTI9_5_IRQn | EXTI15_10_IRQn

record pin_irq_entry =
  ih_pin :: int
  ih_mode :: nat
  ih_hdr :: "nat option"
  ih_args :: int

record gpio =
  gp_conf :: "nat \<times> nat \<Rightarrow> gpio_mode \<times> gpio_pull"
  gp_out :: "nat \<times> nat \<Rightarrow> bool"
  gp_in :: "nat \<times> nat \<Rightarrow> bool"
  gp_hdr :: "nat \<Rightarrow> pin_irq_entry"
  gp_mask :: u32
  gp_nvic :: "irqn \<Rightarrow> bool"

definition PIN_ST :: "int \<Rightarrow> nat \<times> nat" where
  "PIN_ST pin = (PIN_PORT pin, PIN_NO pin)"

definition no_entry :: pin_irq_entry where
  "no_entry = \<lparr>ih_pin = - 1, ih_mode = 0, ih_hdr = None, ih_args = 0\<rparr>"

text \<open>The static tables at start-up; after reset every pin is a floating input.\<close>

definition gpio0 :: gpio where
  "gpio0 = \<lparr>gp_conf = (\<lambda>_. (GPIO_MODE_INPUT, GPIO_NOPULL)), gp_out = (\<lambda>_. False), gp_in = (\<lambda>_. False),
     gp_hdr = (\<lambda>_. no_entry), gp_mask = 0, gp_nvic = (\<lambda>_. False)\<rparr>"

section \<open>Driver operations\<close>

text \<open>The table of interrupt lines, by pin number.\<close>

definition pin_irq_map :: "(u32 \<times> irqn) list" where
  "pin_irq_map = [(0x1, EXTI0_IRQn), (0x2, EXTI1_IRQn), (0x4, EXTI2_IRQn), (0x8, EXTI3_IRQn),
     (0x10, EXTI4_IRQn), (0x20, EXTI9_5_IRQn), (0x40, EXTI9_5_IRQn), (0x80, EXTI9_5_IRQn),
     (0x100, EXTI9_5_IRQn), (0x200, EXTI9_5_IRQn), (0x400, EXTI15_10_IRQn), (0x800, EXTI15_10_IRQn),
     (0x1000, EXTI15_10_IRQn), (0x2000, EXTI15_10_IRQn), (0x4000, EXTI15_10_IRQn), (0x8000, EXTI15_10_IRQn)]"

text \<open>
  The name is a string without the terminating zero. The digits are not checked, and the masks of
  \<^verbatim>\<open>PIN_NUM\<close> cut the port and the number to four bits.
\<close>

definition stm32_pin_get :: "string \<Rightarrow> int" where
  "stm32_pin_get name =
     (let name_len = length name in
      if name_len < 4 \<or> name_len \<ge> 6 then - RT_EINVAL
      else if name ! 0 \<noteq> CHR ''P'' \<or> name ! 2 \<noteq> CHR ''.'' then - RT_EINVAL
      else let c = of_char (name ! 1) :: int in
        if of_char (CHR ''A'') \<le> c \<and> c \<le> of_char (CHR ''Z'')
        then let hw_port_num = c - of_char (CHR ''A'');
                 hw_pin_num = foldl (\<lambda>n d. n * 10 + (of_char d - of_char (CHR ''0''))) 0 (drop 3 name)
             in PIN_NUM hw_port_num hw_pin_num
        else - RT_EINVAL)"

definition stm32_pin_write :: "int \<Rightarrow> nat \<Rightarrow> gpio \<Rightarrow> gpio" where
  "stm32_pin_write pin v g =
     (if PIN_PORT pin < PIN_STPORT_MAX then g\<lparr>gp_out := (gp_out g)(PIN_ST pin := (v \<noteq> 0))\<rparr> else g)"

definition stm32_pin_read :: "int \<Rightarrow> gpio \<Rightarrow> int" where
  "stm32_pin_read pin g =
     (if PIN_PORT pin < PIN_STPORT_MAX then (if gp_in g (PIN_ST pin) then 1 else 0) else - RT_EINVAL)"

text \<open>\<open>None\<close>: an unknown mode leaves the pull field of the descriptor uninitialised.\<close>

definition stm32_pin_mode :: "int \<Rightarrow> nat \<Rightarrow> gpio \<Rightarrow> gpio option" where
  "stm32_pin_mode pin mode g =
     (if PIN_PORT pin \<ge> PIN_STPORT_MAX then Some g
      else let conf = (if mode = 0 then Some (GPIO_MODE_OUTPUT_PP, GPIO_NOPULL)
                       else if mode = 1 then Some (GPIO_MODE_INPUT, GPIO_NOPULL)
                       else if mode = 2 then Some (GPIO_MODE_INPUT, GPIO_PULLUP)
                       else if mode = 3 then Some (GPIO_MODE_INPUT, GPIO_PULLDOWN)
                       else if mode = 4 then Some (GPIO_MODE_OUTPUT_OD, GPIO_NOPULL)
                       else None)
           in map_option (\<lambda>c. g\<lparr>gp_conf := (gp_conf g)(PIN_ST pin := c)\<rparr>) conf)"

definition bit2bitno :: "u32 \<Rightarrow> int" where
  "bit2bitno b = (case find (\<lambda>i. push_bit i 1 = b) [0..<32] of Some i \<Rightarrow> int i | None \<Rightarrow> - 1)"

definition get_pin_irq_map :: "u32 \<Rightarrow> (u32 \<times> irqn) option" where
  "get_pin_irq_map pinbit =
     (let mapindex = bit2bitno pinbit in
      if mapindex < 0 \<or> mapindex \<ge> int (length pin_irq_map) then None else Some (pin_irq_map ! nat mapindex))"

definition stm32_pin_attach_irq :: "int \<Rightarrow> nat \<Rightarrow> nat option \<Rightarrow> int \<Rightarrow> gpio \<Rightarrow> rt_err_t \<times> gpio" where
  "stm32_pin_attach_irq pin mode hdr args g =
     (if PIN_PORT pin \<ge> PIN_STPORT_MAX then (- RT_ENOSYS, g)
      else let irqindex = bit2bitno (PIN_STPIN pin) in
        if irqindex < 0 \<or> irqindex \<ge> int (length pin_irq_map) then (- RT_ENOSYS, g)
        else let e = gp_hdr g (nat irqindex) in
          if ih_pin e = pin \<and> ih_hdr e = hdr \<and> ih_mode e = mode \<and> ih_args e = args then (RT_EOK, g)
          else if ih_pin e \<noteq> - 1 then (- RT_EBUSY, g)
          else (RT_EOK, g\<lparr>gp_hdr := (gp_hdr g)(nat irqindex :=
                  \<lparr>ih_pin = pin, ih_mode = mode, ih_hdr = hdr, ih_args = args\<rparr>)\<rparr>))"

definition stm32_pin_dettach_irq :: "int \<Rightarrow> gpio \<Rightarrow> rt_err_t \<times> gpio" where
  "stm32_pin_dettach_irq pin g =
     (if PIN_PORT pin \<ge> PIN_STPORT_MAX then (- RT_ENOSYS, g)
      else let irqindex = bit2bitno (PIN_STPIN pin) in
        if irqindex < 0 \<or> irqindex \<ge> int (length pin_irq_map) then (- RT_ENOSYS, g)
        else if ih_pin (gp_hdr g (nat irqindex)) = - 1 then (RT_EOK, g)
        else (RT_EOK, g\<lparr>gp_hdr := (gp_hdr g)(nat irqindex := no_entry)\<rparr>))"

text \<open>
  \<open>None\<close>: with the level modes, which attaching accepts, the descriptor handed to the hardware layer
  is uninitialised. Disabling de-initialises the pin, which leaves a floating input.
\<close>

definition irq_mode_conf :: "nat \<Rightarrow> (gpio_mode \<times> gpio_pull) option" where
  "irq_mode_conf mode =
     (if mode = 0 then Some (GPIO_MODE_IT_RISING, GPIO_PULLDOWN)
      else if mode = 1 then Some (GPIO_MODE_IT_FALLING, GPIO_PULLUP)
      else if mode = 2 then Some (GPIO_MODE_IT_RISING_FALLING, GPIO_NOPULL)
      else None)"

definition stm32_pin_irq_enable :: "int \<Rightarrow> nat \<Rightarrow> gpio \<Rightarrow> (rt_err_t \<times> gpio) option" where
  "stm32_pin_irq_enable pin enabled g =
     (if PIN_PORT pin \<ge> PIN_STPORT_MAX then Some (- RT_ENOSYS, g)
      else if enabled = 1 then
        let irqindex = bit2bitno (PIN_STPIN pin) in
        if irqindex < 0 \<or> irqindex \<ge> int (length pin_irq_map) then Some (- RT_ENOSYS, g)
        else if ih_pin (gp_hdr g (nat irqindex)) = - 1 then Some (- RT_ENOSYS, g)
        else let (pinbit, irqno) = pin_irq_map ! nat irqindex in
          map_option (\<lambda>c. (RT_EOK, g\<lparr>gp_conf := (gp_conf g)(PIN_ST pin := c),
                                     gp_nvic := (gp_nvic g)(irqno := True),
                                     gp_mask := gp_mask g OR pinbit\<rparr>))
            (irq_mode_conf (ih_mode (gp_hdr g (nat irqindex))))
      else if enabled = 0 then
        (case get_pin_irq_map (PIN_STPIN pin) of
           None \<Rightarrow> Some (- RT_ENOSYS, g)
         | Some (pinbit, irqno) \<Rightarrow>
             let g1 = g\<lparr>gp_conf := (gp_conf g)(PIN_ST pin := (GPIO_MODE_INPUT, GPIO_NOPULL)),
                        gp_mask := gp_mask g AND NOT pinbit\<rparr>;
                 off = g1\<lparr>gp_nvic := (gp_nvic g1)(irqno := False)\<rparr>
             in Some (RT_EOK,
               if 0x20 \<le> pinbit \<and> pinbit \<le> 0x200
               then (if gp_mask g1 AND (0x20 OR 0x40 OR 0x80 OR 0x100 OR 0x200) = 0 then off else g1)
               else if 0x400 \<le> pinbit \<and> pinbit \<le> 0x8000
               then (if gp_mask g1 AND (0x400 OR 0x800 OR 0x1000 OR 0x2000 OR 0x4000 OR 0x8000) = 0 then off else g1)
               else off))
      else Some (- RT_ENOSYS, g))"

text \<open>
  The interrupt side: the handler of a line asks the hardware layer for each of its pin numbers
  whether the interrupt is pending, and the callback looks the handler up. The result is the list of
  handler calls in their order.
\<close>

definition pin_irq_hdr :: "int \<Rightarrow> gpio \<Rightarrow> (nat \<times> int) list" where
  "pin_irq_hdr irqno g =
     (case ih_hdr (gp_hdr g (nat irqno)) of Some h \<Rightarrow> [(h, ih_args (gp_hdr g (nat irqno)))] | None \<Rightarrow> [])"

definition HAL_GPIO_EXTI_Callback :: "u32 \<Rightarrow> gpio \<Rightarrow> (nat \<times> int) list" where
  "HAL_GPIO_EXTI_Callback b g = pin_irq_hdr (bit2bitno b) g"

definition EXTI_IRQHandler :: "irqn \<Rightarrow> u32 \<Rightarrow> gpio \<Rightarrow> (nat \<times> int) list" where
  "EXTI_IRQHandler line pending g =
     concat (map (\<lambda>(pinbit, irqno).
       if irqno = line \<and> pending AND pinbit \<noteq> 0 then HAL_GPIO_EXTI_Callback pinbit g else []) pin_irq_map)"

section \<open>The device interface\<close>

text \<open>\<^verbatim>\<open>pin.c\<close> with the operations of this driver registered.\<close>

definition rt_pin_attach_irq :: "int \<Rightarrow> nat \<Rightarrow> nat option \<Rightarrow> int \<Rightarrow> gpio \<Rightarrow> rt_err_t \<times> gpio" where
  "rt_pin_attach_irq = stm32_pin_attach_irq"

definition rt_pin_detach_irq :: "int \<Rightarrow> gpio \<Rightarrow> rt_err_t \<times> gpio" where
  "rt_pin_detach_irq = stm32_pin_dettach_irq"

definition rt_pin_irq_enable :: "int \<Rightarrow> nat \<Rightarrow> gpio \<Rightarrow> (rt_err_t \<times> gpio) option" where
  "rt_pin_irq_enable = stm32_pin_irq_enable"

definition rt_pin_mode :: "int \<Rightarrow> nat \<Rightarrow> gpio \<Rightarrow> gpio option" where
  "rt_pin_mode = stm32_pin_mode"

definition rt_pin_write :: "int \<Rightarrow> nat \<Rightarrow> gpio \<Rightarrow> gpio" where
  "rt_pin_write pin v = stm32_pin_write pin (v mod 256)"

definition rt_pin_read :: "int \<Rightarrow> gpio \<Rightarrow> int" where
  "rt_pin_read = stm32_pin_read"

definition rt_pin_get :: "string \<Rightarrow> int" where
  "rt_pin_get = stm32_pin_get"

section \<open>Pin numbers and interrupt lines\<close>

lemma pin_no_less [simp]: "PIN_NO pin < 16"
  by (simp add: PIN_NO_def nat_less_iff)

lemma pin_no_not_ge [simp]: "\<not> 16 \<le> PIN_NO pin" "\<not> 32 \<le> PIN_NO pin"
  using pin_no_less[of pin] by linarith+

lemma PIN_NUM_parts:
  "0 \<le> port \<Longrightarrow> port < 16 \<Longrightarrow> PIN_PORT (PIN_NUM port no) = nat port"
  "PIN_NO (PIN_NUM port no) = nat (no mod 16)"
  by (simp_all add: PIN_PORT_def PIN_NO_def PIN_NUM_def)

text \<open>The loop of \<^verbatim>\<open>bit2bitno\<close> finds the number of a single bit.\<close>

lemma below_list: "list_all P [0..<n] \<Longrightarrow> i < n \<Longrightarrow> P i"
  by (simp add: list_all_iff)

lemma bit2bitno_bit: "i < 16 \<Longrightarrow> bit2bitno (push_bit i 1) = int i"
  by (rule below_list[where n = 16]) (code_simp, assumption)

lemma bit2bitno_pin [simp]: "bit2bitno (PIN_STPIN pin) = int (PIN_NO pin)"
  by (simp only: PIN_STPIN_def bit2bitno_bit pin_no_less)

lemma irq_map_length [simp]: "length pin_irq_map = 16" by (simp add: pin_irq_map_def)

text \<open>The interrupt line of a pin number, and the pin numbers of a line as a mask.\<close>

definition irq_line :: "nat \<Rightarrow> irqn" where
  "irq_line i = snd (pin_irq_map ! i)"

fun line_bits :: "irqn \<Rightarrow> u32" where
  "line_bits EXTI0_IRQn = 0x1"
| "line_bits EXTI1_IRQn = 0x2"
| "line_bits EXTI2_IRQn = 0x4"
| "line_bits EXTI3_IRQn = 0x8"
| "line_bits EXTI4_IRQn = 0x10"
| "line_bits EXTI9_5_IRQn = 0x3E0"
| "line_bits EXTI15_10_IRQn = 0xFC00"

lemma irq_map_bit: "i < 16 \<Longrightarrow> pin_irq_map ! i = (push_bit i 1, irq_line i)"
  by (rule below_list[where n = 16]) (code_simp, assumption)

lemma irq_map_pin [simp]: "pin_irq_map ! PIN_NO pin = (PIN_STPIN pin, irq_line (PIN_NO pin))"
  unfolding PIN_STPIN_def by (rule irq_map_bit) simp

lemma pin_map [simp]: "get_pin_irq_map (PIN_STPIN pin) = Some (PIN_STPIN pin, irq_line (PIN_NO pin))"
  by (simp add: get_pin_irq_map_def)

text \<open>The lines split the pin numbers: a bit belongs to its own line only.\<close>

lemma line_bits_table:
  "list_all (\<lambda>i. list_all (\<lambda>l. line_bits l AND push_bit i 1 = (if l = irq_line i then push_bit i 1 else 0) \<and>
       bit (line_bits l) i = (l = irq_line i))
     [EXTI0_IRQn, EXTI1_IRQn, EXTI2_IRQn, EXTI3_IRQn, EXTI4_IRQn, EXTI9_5_IRQn, EXTI15_10_IRQn]) [0..<16]"
  by code_simp

lemma line_bits_line:
  assumes "i < 16"
  shows "line_bits l AND push_bit i 1 = (if l = irq_line i then push_bit i 1 else 0)"
    and "bit (line_bits l) i \<longleftrightarrow> l = irq_line i"
  using below_list[OF line_bits_table assms] by (simp_all only: list.pred_inject) (cases l; elim conjE; simp only:)+

lemma line_bits_below: "bit (line_bits l) i \<Longrightarrow> i < 16"
proof -
  have "line_bits l = take_bit 16 (line_bits l)" by (cases l) simp_all
  then show "bit (line_bits l) i \<Longrightarrow> i < 16" by (metis bit_take_bit_iff)
qed

text \<open>The comparisons with which disabling finds the shared lines.\<close>

lemma pin_line_tests:
  "(0x20 \<le> PIN_STPIN pin \<and> PIN_STPIN pin \<le> 0x200) = (irq_line (PIN_NO pin) = EXTI9_5_IRQn)"
  "(0x400 \<le> PIN_STPIN pin \<and> PIN_STPIN pin \<le> 0x8000) = (irq_line (PIN_NO pin) = EXTI15_10_IRQn)"
  "irq_line (PIN_NO pin) \<noteq> EXTI9_5_IRQn \<Longrightarrow> irq_line (PIN_NO pin) \<noteq> EXTI15_10_IRQn \<Longrightarrow>
     line_bits (irq_line (PIN_NO pin)) = PIN_STPIN pin"
proof -
  define i where "i = PIN_NO pin"
  have i: "i < 16" "PIN_STPIN pin = push_bit i 1" by (simp_all only: i_def PIN_STPIN_def pin_no_less)
  have "(0x20 \<le> push_bit i (1 :: u32) \<and> push_bit i (1 :: u32) \<le> 0x200) = (irq_line i = EXTI9_5_IRQn) \<and>
    (0x400 \<le> push_bit i (1 :: u32) \<and> push_bit i (1 :: u32) \<le> 0x8000) = (irq_line i = EXTI15_10_IRQn) \<and>
    (irq_line i = EXTI9_5_IRQn \<or> irq_line i = EXTI15_10_IRQn \<or> line_bits (irq_line i) = push_bit i 1)"
    by (rule below_list[OF _ i(1)]) code_simp
  then show "(0x20 \<le> PIN_STPIN pin \<and> PIN_STPIN pin \<le> 0x200) = (irq_line (PIN_NO pin) = EXTI9_5_IRQn)"
    "(0x400 \<le> PIN_STPIN pin \<and> PIN_STPIN pin \<le> 0x8000) = (irq_line (PIN_NO pin) = EXTI15_10_IRQn)"
    "irq_line (PIN_NO pin) \<noteq> EXTI9_5_IRQn \<Longrightarrow> irq_line (PIN_NO pin) \<noteq> EXTI15_10_IRQn \<Longrightarrow>
       line_bits (irq_line (PIN_NO pin)) = PIN_STPIN pin"
    unfolding i(2) i_def by blast+
qed

section \<open>Invariant\<close>

text \<open>A line of the interrupt controller is on exactly when one of its pin numbers is enabled.\<close>

definition irq_inv :: "gpio \<Rightarrow> bool" where
  "irq_inv g \<longleftrightarrow> (\<forall>l. gp_nvic g l \<longleftrightarrow> gp_mask g AND line_bits l \<noteq> 0)"

lemma enable_eq:
  assumes "PIN_PORT pin < PIN_STPORT_MAX"
  shows "stm32_pin_irq_enable pin 1 g =
    (if ih_pin (gp_hdr g (PIN_NO pin)) = - 1 then Some (- RT_ENOSYS, g)
     else map_option (\<lambda>c. (RT_EOK, g\<lparr>gp_conf := (gp_conf g)(PIN_ST pin := c),
              gp_nvic := (gp_nvic g)(irq_line (PIN_NO pin) := True), gp_mask := gp_mask g OR PIN_STPIN pin\<rparr>))
            (irq_mode_conf (ih_mode (gp_hdr g (PIN_NO pin)))))"
  using assms by (simp add: stm32_pin_irq_enable_def Let_def)

lemma disable_eq:
  assumes "PIN_PORT pin < PIN_STPORT_MAX"
  shows "stm32_pin_irq_enable pin 0 g = Some (RT_EOK,
    g\<lparr>gp_conf := (gp_conf g)(PIN_ST pin := (GPIO_MODE_INPUT, GPIO_NOPULL)),
      gp_mask := gp_mask g AND NOT (PIN_STPIN pin),
      gp_nvic := (if (gp_mask g AND NOT (PIN_STPIN pin)) AND line_bits (irq_line (PIN_NO pin)) = 0
                  then (gp_nvic g)(irq_line (PIN_NO pin) := False) else gp_nvic g)\<rparr>)"
proof -
  consider "irq_line (PIN_NO pin) = EXTI9_5_IRQn" | "irq_line (PIN_NO pin) = EXTI15_10_IRQn"
    | "irq_line (PIN_NO pin) \<noteq> EXTI9_5_IRQn" "irq_line (PIN_NO pin) \<noteq> EXTI15_10_IRQn" by blast
  then show ?thesis
    using assms by cases (simp_all add: stm32_pin_irq_enable_def Let_def and.assoc pin_line_tests)
qed

lemma pin_bit_line: "PIN_STPIN pin AND line_bits l = (if l = irq_line (PIN_NO pin) then PIN_STPIN pin else 0)"
  using line_bits_line(1)[of "PIN_NO pin" l] by (simp add: PIN_STPIN_def and.commute)

lemma pin_bit_nonzero [simp]: "PIN_STPIN pin \<noteq> 0"
  by (simp add: PIN_STPIN_def)

lemma irq_enable_inv [rt_inv]:
  assumes "irq_inv g" "stm32_pin_irq_enable pin enabled g = Some (e, g')"
  shows "irq_inv g'"
proof (cases "PIN_PORT pin < PIN_STPORT_MAX \<and> (enabled = 0 \<or> enabled = 1)")
  case False
  then show ?thesis using assms by (auto simp: stm32_pin_irq_enable_def split: if_splits)
next
  case True
  let ?b = "PIN_STPIN pin" and ?l = "irq_line (PIN_NO pin)"
  have or: "(m OR ?b) AND line_bits l = (m AND line_bits l) OR (if l = ?l then ?b else 0)" for m l
    by (simp add: pin_bit_line bit.conj_disj_distrib2)
  have andn: "(m AND NOT ?b) AND line_bits l = m AND line_bits l" if "l \<noteq> ?l" for m l
  proof -
    have "?b AND line_bits l = 0" using that by (simp add: pin_bit_line)
    then show ?thesis by (intro bit_word_eqI) (auto simp: bit_simps dest!: arg_cong[where f = "\<lambda>w. bit w _"])
  qed
  show ?thesis
  proof (cases "enabled = 0")
    case True': True
    have g': "gp_mask g' = gp_mask g AND NOT ?b" "gp_nvic g' = (if gp_mask g' AND line_bits ?l = 0
      then (gp_nvic g)(?l := False) else gp_nvic g)" using assms(2) True True' by (auto simp: disable_eq)
    have "gp_nvic g' l \<longleftrightarrow> gp_mask g' AND line_bits l \<noteq> 0" for l
    proof (cases "l = ?l")
      case True
      have "gp_mask g AND line_bits ?l = 0 \<Longrightarrow> gp_mask g' AND line_bits ?l = 0"
        by (simp add: g'(1) and.commute[of _ "NOT ?b"] and.assoc)
      then show ?thesis using assms(1) True by (auto simp: g'(2) irq_inv_def)
    next
      case False
      then show ?thesis using assms(1) andn[OF False, of "gp_mask g"] by (simp add: g' irq_inv_def)
    qed
    then show ?thesis by (simp add: irq_inv_def)
  next
    case False
    then have "enabled = 1" using True by simp
    then have "g' = g \<or> (gp_nvic g' = (gp_nvic g)(?l := True) \<and> gp_mask g' = gp_mask g OR ?b)"
      using assms(2) True enable_eq[of pin g]
      by (cases "irq_mode_conf (ih_mode (gp_hdr g (PIN_NO pin)))") (auto split: if_splits)
    then show ?thesis using assms(1) by (auto simp: irq_inv_def or or_eq_0_iff split: if_splits)
  qed
qed

lemma irq_inv_others [rt_inv]:
  "irq_inv g \<Longrightarrow> irq_inv (snd (stm32_pin_attach_irq pin mode hdr args g))"
  "irq_inv g \<Longrightarrow> irq_inv (snd (stm32_pin_dettach_irq pin g))"
  "irq_inv g \<Longrightarrow> irq_inv (stm32_pin_write pin v g)"
  "irq_inv g \<Longrightarrow> stm32_pin_mode pin m g = Some g' \<Longrightarrow> irq_inv g'"
  by (auto simp: irq_inv_def stm32_pin_attach_irq_def stm32_pin_dettach_irq_def stm32_pin_write_def
      stm32_pin_mode_def Let_def split: if_splits)

text \<open>The states the driver reaches: any calls in any order, with any levels on the inputs.\<close>

inductive gpio_reach :: "gpio \<Rightarrow> bool" where
  start: "gpio_reach gpio0"
| attach: "gpio_reach g \<Longrightarrow> rt_pin_attach_irq pin mode hdr args g = (e, g') \<Longrightarrow> gpio_reach g'"
| detach: "gpio_reach g \<Longrightarrow> rt_pin_detach_irq pin g = (e, g') \<Longrightarrow> gpio_reach g'"
| enable: "gpio_reach g \<Longrightarrow> rt_pin_irq_enable pin enabled g = Some (e, g') \<Longrightarrow> gpio_reach g'"
| mode: "gpio_reach g \<Longrightarrow> rt_pin_mode pin m g = Some g' \<Longrightarrow> gpio_reach g'"
| drive: "gpio_reach g \<Longrightarrow> gpio_reach (rt_pin_write pin v g)"
| inputs: "gpio_reach g \<Longrightarrow> gpio_reach (g\<lparr>gp_in := levels\<rparr>)"

lemma reach_irq_inv: "gpio_reach g \<Longrightarrow> irq_inv g"
proof (induction rule: gpio_reach.induct)
  case start
  then show ?case by (simp add: irq_inv_def gpio0_def)
next
  case (attach g pin mode hdr args e g')
  then show ?case using irq_inv_others(1)[of g pin mode hdr args] by (simp add: rt_pin_attach_irq_def)
next
  case (detach g pin e g')
  then show ?case using irq_inv_others(2)[of g pin] by (simp add: rt_pin_detach_irq_def)
next
  case (enable g pin enabled e g')
  then show ?case by (auto simp: rt_pin_irq_enable_def intro: irq_enable_inv)
next
  case (mode g pin m g')
  then show ?case by (auto simp: rt_pin_mode_def intro: irq_inv_others)
next
  case (drive g pin v)
  then show ?case by (simp add: rt_pin_write_def irq_inv_others)
next
  case (inputs g levels)
  then show ?case by (simp add: irq_inv_def)
qed

section \<open>Properties\<close>

lemma enable_mask_other:
  assumes "stm32_pin_irq_enable pin enabled g = Some (e, g')" "i \<noteq> PIN_NO pin"
  shows "bit (gp_mask g') i = bit (gp_mask g) i"
proof (cases "PIN_PORT pin < PIN_STPORT_MAX \<and> (enabled = 0 \<or> enabled = 1)")
  case False
  then show ?thesis using assms by (auto simp: stm32_pin_irq_enable_def split: if_splits)
next
  case True
  have "\<not> bit (PIN_STPIN pin) i" using assms(2) by (simp add: PIN_STPIN_def bit_simps)
  then have m: "bit (m OR PIN_STPIN pin) i = bit m i" "bit (m AND NOT (PIN_STPIN pin)) i = bit m i" for m
    using bit_imp_possible_bit[of m i] by (auto simp only: bit_or_iff bit_and_iff bit_not_iff)
  have p: "PIN_PORT pin < PIN_STPORT_MAX" using True by blast
  show ?thesis
  proof (cases "enabled = 0")
    case True
    then have "g' = snd (the (stm32_pin_irq_enable pin 0 g))" using assms(1) by simp
    then have "gp_mask g' = gp_mask g AND NOT (PIN_STPIN pin)" by (simp add: disable_eq[OF p])
    then show ?thesis by (simp only: m)
  next
    case False
    then have "enabled = 1" using True by blast
    then have "gp_mask g' = gp_mask g \<or> gp_mask g' = gp_mask g OR PIN_STPIN pin"
      using assms(1) enable_eq[OF p, of g] by (auto simp del: One_nat_def split: if_splits)
    then show ?thesis by (elim disjE) (simp_all only: m)
  qed
qed

text \<open>
  C39. The driver keeps one mask of the enabled pin numbers, from 0 to 15, for all ports. Whatever calls the pin
  device has served, a line of the interrupt controller is on exactly when the number of one of its
  pins is in the mask; and a call that enables or disables a pin leaves on the line of every other pin number that
  is in the mask, also when the two share the line. Pins of different ports with the same number share one bit:
  what follows from that is the subject of \<open>disable_other_port\<close>.
\<close>

theorem irq_line_enabled_iff:
  assumes "gpio_reach g"
  shows "(gp_nvic g l \<longleftrightarrow> (\<exists>i<16. irq_line i = l \<and> bit (gp_mask g) i)) \<and>
    (\<forall>pin enabled e g' i. rt_pin_irq_enable pin enabled g = Some (e, g') \<and> i < 16 \<and> i \<noteq> PIN_NO pin \<and> bit (gp_mask g) i \<longrightarrow>
      gp_nvic g' (irq_line i))"
proof -
  have on: "gp_nvic g l \<longleftrightarrow> (\<exists>i<16. irq_line i = l \<and> bit (gp_mask g) i)" if "gpio_reach g" for g l
  proof -
    have "gp_nvic g l \<longleftrightarrow> (\<exists>i. bit (gp_mask g AND line_bits l) i)"
      using reach_irq_inv[OF that] unfolding irq_inv_def by (metis bit_0_eq bot_apply bot_bool_def bit_word_eqI)
    also have "\<dots> \<longleftrightarrow> (\<exists>i<16. bit (gp_mask g) i \<and> bit (line_bits l) i)"
      by (auto simp: bit_and_iff dest: line_bits_below)
    also have "\<dots> \<longleftrightarrow> (\<exists>i<16. irq_line i = l \<and> bit (gp_mask g) i)" using line_bits_line(2) by auto
    finally show ?thesis .
  qed
  moreover have "gp_nvic g' (irq_line i)"
    if "rt_pin_irq_enable pin enabled g = Some (e, g')" "i < 16" "i \<noteq> PIN_NO pin" "bit (gp_mask g) i" for pin enabled e g' i
    using on[OF gpio_reach.enable[OF assms that(1)]] enable_mask_other[OF _ that(3)] that(1,2,4)
    by (auto simp: rt_pin_irq_enable_def)
  ultimately show ?thesis using assms by blast
qed

text \<open>Two pins on one shared line are enabled, and the first is disabled again.\<close>

definition shared_line_example :: gpio where
  "shared_line_example =
     (let g1 = snd (rt_pin_attach_irq 5 1 (Some 1) 5 gpio0);
          g2 = snd (rt_pin_attach_irq 22 0 (Some 1) 22 g1);
          g3 = snd (the (rt_pin_irq_enable 5 1 g2));
          g4 = snd (the (rt_pin_irq_enable 22 1 g3))
      in snd (the (rt_pin_irq_enable 5 0 g4)))"

lemma shared_line_reach: "gpio_reach shared_line_example"
proof -
  let ?a = "snd (rt_pin_attach_irq 22 0 (Some 1) 22 (snd (rt_pin_attach_irq 5 1 (Some 1) 5 gpio0)))"
  have a: "gpio_reach ?a" by (metis gpio_reach.start gpio_reach.attach prod.collapse)
  have e: "gpio_reach g \<Longrightarrow> gpio_reach (snd (the (rt_pin_irq_enable pin en g)))"
    if "rt_pin_irq_enable pin en g \<noteq> None" for pin en g
    using that gpio_reach.enable[of g pin en] by (metis option.exhaust_sel prod.collapse)
  have n: "rt_pin_irq_enable 5 1 ?a \<noteq> None" "rt_pin_irq_enable 22 1 (snd (the (rt_pin_irq_enable 5 1 ?a))) \<noteq> None"
    "rt_pin_irq_enable 5 0 g \<noteq> None" for g
    by (simp_all add: rt_pin_irq_enable_def enable_eq disable_eq PIN_PORT_def PIN_STPORT_MAX_def PIN_NO_def
        rt_pin_attach_irq_def stm32_pin_attach_irq_def irq_mode_conf_def gpio0_def no_entry_def Let_def del: One_nat_def)
  show ?thesis unfolding shared_line_example_def Let_def by (intro e n a)
qed

theorem irq_line_enabled_iff_witness:
  "gp_nvic shared_line_example EXTI9_5_IRQn \<and> gp_nvic (snd (the (rt_pin_irq_enable 5 0 shared_line_example))) EXTI9_5_IRQn"
proof -
  have b: "bit (gp_mask shared_line_example) 6" "irq_line 6 = EXTI9_5_IRQn" "6 \<noteq> PIN_NO 5" "(6 :: nat) < 16"
    by code_simp+
  have "rt_pin_irq_enable 5 0 shared_line_example \<noteq> None"
    by (simp add: rt_pin_irq_enable_def disable_eq PIN_PORT_def PIN_STPORT_MAX_def)
  then obtain e g' where g: "rt_pin_irq_enable 5 0 shared_line_example = Some (e, g')" by auto
  show ?thesis using irq_line_enabled_iff[OF shared_line_reach, of EXTI9_5_IRQn] b g by fastforce
qed

text \<open>
  Disabling looks only at the number of the pin and not at the port that is attached: after PA5 has been attached and
  enabled, disabling PB5 switches the line of PA5 off, although PA5 is still attached and configured for interrupts.
\<close>

definition other_port_example :: gpio where
  "other_port_example =
     (let g1 = snd (rt_pin_attach_irq 5 1 (Some 1) 5 gpio0);
          g2 = snd (the (rt_pin_irq_enable 5 1 g1))
      in snd (the (rt_pin_irq_enable 21 0 g2)))"

theorem disable_other_port:
  "PIN_PORT 5 = 0 \<and> PIN_PORT 21 = 1 \<and> PIN_NO 5 = PIN_NO 21 \<and>
   \<not> gp_nvic other_port_example (irq_line (PIN_NO 5)) \<and>
   ih_pin (gp_hdr other_port_example (PIN_NO 5)) = 5 \<and>
   gp_conf other_port_example (PIN_ST 5) = (GPIO_MODE_IT_FALLING, GPIO_PULLUP)"
  by code_simp

text \<open>
  A handler is attached to at most one pin of each number, and gets the interrupts of that pin
  number: after attaching succeeds, the callback for the pin calls exactly this handler with its
  argument; attaching another pin of the same number is refused as busy and changes nothing; the
  handlers of the other pin numbers are as before.
\<close>

theorem attach_irq_exclusive:
  assumes "rt_pin_attach_irq pin mode (Some h) a g = (RT_EOK, g')"
  shows "HAL_GPIO_EXTI_Callback (PIN_STPIN pin) g' = [(h, a)]"
    and "other \<noteq> pin \<Longrightarrow> PIN_NO other = PIN_NO pin \<Longrightarrow> PIN_PORT other < PIN_STPORT_MAX \<Longrightarrow>
      rt_pin_attach_irq other mode' h' a' g' = (- RT_EBUSY, g')"
    and "PIN_NO other \<noteq> PIN_NO pin \<Longrightarrow>
      HAL_GPIO_EXTI_Callback (PIN_STPIN other) g' = HAL_GPIO_EXTI_Callback (PIN_STPIN other) g"
proof -
  have p: "PIN_PORT pin < PIN_STPORT_MAX" "pin \<noteq> - 1"
    using assms by (auto simp: rt_pin_attach_irq_def stm32_pin_attach_irq_def PIN_PORT_def PIN_STPORT_MAX_def split: if_splits)
  have g': "gp_hdr g' = (gp_hdr g)(PIN_NO pin := \<lparr>ih_pin = pin, ih_mode = mode, ih_hdr = Some h, ih_args = a\<rparr>)"
    using assms p by (auto simp: rt_pin_attach_irq_def stm32_pin_attach_irq_def Let_def fun_eq_iff split: if_splits)
  show "HAL_GPIO_EXTI_Callback (PIN_STPIN pin) g' = [(h, a)]"
    by (simp add: HAL_GPIO_EXTI_Callback_def pin_irq_hdr_def g')
  show "other \<noteq> pin \<Longrightarrow> PIN_NO other = PIN_NO pin \<Longrightarrow> PIN_PORT other < PIN_STPORT_MAX \<Longrightarrow>
      rt_pin_attach_irq other mode' h' a' g' = (- RT_EBUSY, g')"
    using p(2) by (simp add: rt_pin_attach_irq_def stm32_pin_attach_irq_def g')
  show "PIN_NO other \<noteq> PIN_NO pin \<Longrightarrow>
      HAL_GPIO_EXTI_Callback (PIN_STPIN other) g' = HAL_GPIO_EXTI_Callback (PIN_STPIN other) g"
    by (simp add: HAL_GPIO_EXTI_Callback_def pin_irq_hdr_def g' split: option.split)
qed

theorem attach_irq_exclusive_witness:
  "HAL_GPIO_EXTI_Callback (PIN_STPIN 68) (snd (rt_pin_attach_irq 68 1 (Some 7) 68 gpio0)) = [(7, 68)]"
  by (rule attach_irq_exclusive(1)[where pin = 68 and mode = 1 and g = gpio0])
    (simp add: rt_pin_attach_irq_def stm32_pin_attach_irq_def PIN_PORT_def PIN_STPORT_MAX_def PIN_NO_def gpio0_def
      no_entry_def Let_def)

text \<open>The name of a pin as the driver documents it: \<^verbatim>\<open>P\<close>, the letter of the port, a dot, the number.\<close>

definition pin_name :: "nat \<Rightarrow> nat \<Rightarrow> string" where
  "pin_name port no = [CHR ''P'', char_of (65 + port), CHR ''.''] @
     (if no < 10 then [char_of (48 + no)] else [CHR ''1'', char_of (38 + no)])"

text \<open>
  \<^verbatim>\<open>rt_pin_get\<close> reads back the names of pins: for every port from A to P and every number from 0
  to 15 the name gives the pin whose port and number these are; so distinct pins have distinct names.
\<close>

theorem pin_get_roundtrip:
  assumes "port < 16" and "no < 16"
  shows "rt_pin_get (pin_name port no) = PIN_NUM (int port) (int no) \<and>
    PIN_PORT (rt_pin_get (pin_name port no)) = port \<and> PIN_NO (rt_pin_get (pin_name port no)) = no"
proof -
  have c: "of_char (char_of n :: char) = int n" if "n < 256" for n
    using that by (metis of_char_of of_nat_of_char mod_less)
  have "rt_pin_get (pin_name port no) = PIN_NUM (int port) (int no)"
    using assms by (simp add: rt_pin_get_def stm32_pin_get_def pin_name_def c)
  then show ?thesis using assms by (simp add: PIN_NUM_parts)
qed

theorem pin_get_roundtrip_witness:
  "rt_pin_get (pin_name 4 13) = PIN_NUM (int 4) (int 13) \<and> PIN_PORT (rt_pin_get (pin_name 4 13)) = 4 \<and>
   PIN_NO (rt_pin_get (pin_name 4 13)) = 13"
  by (rule pin_get_roundtrip) simp_all

text \<open>The range of the number is not checked: a name such as \<^verbatim>\<open>PA.16\<close> is another pin's.\<close>

theorem pin_get_out_of_range: "rt_pin_get ''PA.16'' = rt_pin_get ''PA.0''" "rt_pin_get ''PQ.3'' = rt_pin_get ''PA.3''"
  by code_simp+

text \<open>Attaching accepts the level modes, for which enabling has no configuration.\<close>

theorem level_mode_uninitialised:
  "fst (rt_pin_attach_irq 68 3 (Some 7) 68 gpio0) = RT_EOK \<and>
   rt_pin_irq_enable 68 1 (snd (rt_pin_attach_irq 68 3 (Some 7) 68 gpio0)) = None"
  by (simp add: rt_pin_irq_enable_def enable_eq PIN_PORT_def PIN_STPORT_MAX_def PIN_NO_def rt_pin_attach_irq_def
      stm32_pin_attach_irq_def irq_mode_conf_def gpio0_def no_entry_def Let_def
      del: One_nat_def)

end
