(* ===== verification/OXRules.thy ===== *)
theory OXRules
  imports RingBuffer GpioPin
begin

text \<open>
  The noughts-and-crosses game of \<^verbatim>\<open>applications/OXGame.c\<close>, as far as it is sequential: the game
  object, the drawing of the board, the moves of the cursor and the placing of a piece, the search
  for three in a line, the buttons, the commands, and the reset. The threads that share the game are
  in the theory \<open>OXGame\<close>.
\<close>

section \<open>Data\<close>

datatype GameState = GAME_PLAYING | GAME_X_WIN | GAME_O_WIN | GAME_DRAW

datatype ResetType = RESET_CURRENT | RESET_FULL

text \<open>The fields \<^verbatim>\<open>positions\<close> and \<^verbatim>\<open>move_step\<close> of a player are never used.\<close>

record Player =
  pl_symbol :: u8
  pl_name :: "u8 list"

record OXGame =
  gm_board :: "u8 list list"
  gm_player_x :: Player
  gm_player_o :: Player
  gm_current_player :: u8
  gm_total_steps :: u8
  gm_state :: GameState
  gm_state_changed :: bool
  gm_cursor_x :: u8
  gm_cursor_y :: u8

text \<open>The static game object is zero at start-up.\<close>

definition player0 :: Player where
  "player0 = \<lparr>pl_symbol = 0, pl_name = replicate 16 0\<rparr>"

definition game0 :: OXGame where
  "game0 = \<lparr>gm_board = replicate 3 (replicate 3 0), gm_player_x = player0, gm_player_o = player0,
     gm_current_player = 0, gm_total_steps = 0, gm_state = GAME_PLAYING, gm_state_changed = False,
     gm_cursor_x = 0, gm_cursor_y = 0\<rparr>"

definition str :: "string \<Rightarrow> u8 list" where
  "str s = map of_char s"

section \<open>Drawing\<close>

text \<open>The calls into the LCD driver, with their arguments.\<close>

datatype lcd_op =
    LCD_Clear u16
  | LCD_DrawLine u16 nat nat nat nat
  | LCD_DrawThickLine u16 nat nat nat nat nat
  | LCD_DrawCircle nat nat nat u16
  | LCD_DrawRect nat nat nat nat u16
  | LCD_ShowString nat nat nat nat nat "u8 list"

abbreviation (input) WHITE :: u16 where "WHITE \<equiv> 0xFFFF"
abbreviation (input) BLACK :: u16 where "BLACK \<equiv> 0"
abbreviation (input) YELLOW :: u16 where "YELLOW \<equiv> 0xFFE0"
abbreviation (input) GGREEN :: u16 where "GGREEN \<equiv> 0x6400"
abbreviation (input) BLUE :: u16 where "BLUE \<equiv> 0x001F"
abbreviation (input) CELL_SIZE :: nat where "CELL_SIZE \<equiv> 80"
abbreviation (input) BOARD_OFFSET_X :: nat where "BOARD_OFFSET_X \<equiv> 40"
abbreviation (input) BOARD_OFFSET_Y :: nat where "BOARD_OFFSET_Y \<equiv> 200"

definition color_table :: "u16 list" where
  "color_table = [WHITE, GGREEN, BLUE]"

definition draw_grid :: "lcd_op list" where
  "draw_grid =
     [LCD_DrawLine BLACK (BOARD_OFFSET_X + CELL_SIZE) BOARD_OFFSET_Y
        (BOARD_OFFSET_X + CELL_SIZE) (BOARD_OFFSET_Y + CELL_SIZE * 3),
      LCD_DrawLine BLACK (BOARD_OFFSET_X + CELL_SIZE * 2) BOARD_OFFSET_Y
        (BOARD_OFFSET_X + CELL_SIZE * 2) (BOARD_OFFSET_Y + CELL_SIZE * 3),
      LCD_DrawLine BLACK BOARD_OFFSET_X (BOARD_OFFSET_Y + CELL_SIZE)
        (BOARD_OFFSET_X + CELL_SIZE * 3) (BOARD_OFFSET_Y + CELL_SIZE),
      LCD_DrawLine BLACK BOARD_OFFSET_X (BOARD_OFFSET_Y + CELL_SIZE * 2)
        (BOARD_OFFSET_X + CELL_SIZE * 3) (BOARD_OFFSET_Y + CELL_SIZE * 2)]"

definition draw_piece :: "nat \<Rightarrow> nat \<Rightarrow> u16 \<Rightarrow> lcd_op list" where
  "draw_piece x y color =
     (let px = BOARD_OFFSET_X + x * CELL_SIZE + CELL_SIZE div 2;
          py = BOARD_OFFSET_Y + y * CELL_SIZE + CELL_SIZE div 2 in
      if color = color_table ! 1
      then [LCD_DrawLine color (px - 20) (py - 20) (px + 20) (py + 20),
            LCD_DrawLine color (px + 20) (py - 20) (px - 20) (py + 20),
            LCD_DrawThickLine color (px - 20) (py - 20) (px + 20) (py + 20) 5,
            LCD_DrawThickLine color (px + 20) (py - 20) (px - 20) (py + 20) 5]
      else if color = color_table ! 2 then [LCD_DrawCircle px py 20 color]
      else [])"

text \<open>
  A name as a string ends at its first zero. The end of the list would stand for a zero too; \<open>OXGame\<close> shows that
  every name has one.
\<close>

definition cstr :: "u8 list \<Rightarrow> u8 list" where
  "cstr = takeWhile (\<lambda>c. c \<noteq> 0)"

text \<open>The buffer of \<^verbatim>\<open>rt_snprintf\<close> has room for 39 characters.\<close>

definition info_line :: "string \<Rightarrow> u8 list \<Rightarrow> u8 list" where
  "info_line prefix s = take 39 (str prefix @ s)"

definition draw_cells :: "u8 list list \<Rightarrow> lcd_op list" where
  "draw_cells board = concat (map (\<lambda>y. concat (map (\<lambda>x.
     if board ! x ! y \<noteq> 0 then draw_piece x y (color_table ! unat (board ! x ! y)) else []) [0, 1, 2])) [0, 1, 2])"

text \<open>\<open>None\<close>: a cell value indexes the colour table out of range.\<close>

definition ox_game_draw_board :: "OXGame \<Rightarrow> lcd_op list option" where
  "ox_game_draw_board g =
     (if list_all (list_all (\<lambda>v. unat v < length color_table)) (gm_board g)
      then Some ([LCD_Clear WHITE] @ draw_grid @ draw_cells (gm_board g) @
        [LCD_ShowString 300 50 200 24 24 (info_line ''X: '' (cstr (pl_name (gm_player_x g)))),
         LCD_ShowString 300 100 200 24 24 (info_line ''O: '' (cstr (pl_name (gm_player_o g)))),
         LCD_ShowString 300 150 200 24 24 (info_line ''Current: ''
           [if gm_current_player g \<noteq> 0 then pl_symbol (gm_player_o g) else pl_symbol (gm_player_x g)]),
         LCD_ShowString 300 200 600 24 24 (str ''move:wasd''),
         LCD_ShowString 300 250 600 24 24 (str ''place piece:e''),
         LCD_ShowString 300 300 600 24 24 (str ''reset game:r''),
         LCD_ShowString 300 350 600 24 24 (str ''reset curr:c''),
         LCD_DrawRect (BOARD_OFFSET_X + unat (gm_cursor_x g) * CELL_SIZE)
           (BOARD_OFFSET_Y + unat (gm_cursor_y g) * CELL_SIZE) CELL_SIZE CELL_SIZE YELLOW])
      else None)"

section \<open>The rules of the game\<close>

definition line_won :: "u8 list list \<Rightarrow> nat \<times> nat \<Rightarrow> nat \<times> nat \<Rightarrow> nat \<times> nat \<Rightarrow> bool" where
  "line_won b p q r \<longleftrightarrow> b ! fst p ! snd p \<noteq> 0 \<and> b ! fst p ! snd p = b ! fst q ! snd q \<and>
     b ! fst q ! snd q = b ! fst r ! snd r"

definition line_winner :: "u8 \<Rightarrow> GameState" where
  "line_winner v = (if v = 1 then GAME_X_WIN else GAME_O_WIN)"

definition check_win :: "OXGame \<Rightarrow> GameState" where
  "check_win g =
     (let b = gm_board g in
      case find (\<lambda>y. line_won b (0, y) (1, y) (2, y)) [0, 1, 2] of
        Some y \<Rightarrow> line_winner (b ! 0 ! y)
      | None \<Rightarrow>
        (case find (\<lambda>x. line_won b (x, 0) (x, 1) (x, 2)) [0, 1, 2] of
           Some x \<Rightarrow> line_winner (b ! x ! 0)
         | None \<Rightarrow>
           if line_won b (0, 0) (1, 1) (2, 2) then line_winner (b ! 0 ! 0)
           else if line_won b (2, 0) (1, 1) (0, 2) then line_winner (b ! 2 ! 0)
           else if gm_total_steps g \<ge> 9 then GAME_DRAW
           else GAME_PLAYING))"

definition move_left :: "OXGame \<Rightarrow> OXGame" where
  "move_left g = g\<lparr>gm_cursor_x := (if gm_cursor_x g = 0 then 2 else gm_cursor_x g - 1), gm_state_changed := True\<rparr>"

text \<open>The remainder is that of an \<^verbatim>\<open>int\<close>.\<close>

definition move_right :: "OXGame \<Rightarrow> OXGame" where
  "move_right g = g\<lparr>gm_cursor_x := of_nat ((unat (gm_cursor_x g) + 1) mod 3), gm_state_changed := True\<rparr>"

definition move_down :: "OXGame \<Rightarrow> OXGame" where
  "move_down g = g\<lparr>gm_cursor_y := (if gm_cursor_y g < 2 then gm_cursor_y g + 1 else 0), gm_state_changed := True\<rparr>"

definition move_up :: "OXGame \<Rightarrow> OXGame" where
  "move_up g = g\<lparr>gm_cursor_y := (if gm_cursor_y g = 0 then 2 else gm_cursor_y g - 1), gm_state_changed := True\<rparr>"

text \<open>The confirm action of both threads. \<open>None\<close>: the cursor is outside the array.\<close>

definition place_piece :: "OXGame \<Rightarrow> OXGame option" where
  "place_piece g =
     (let x = unat (gm_cursor_x g); y = unat (gm_cursor_y g) in
      if x < length (gm_board g) \<and> y < length (gm_board g ! x)
      then Some (if gm_board g ! x ! y = 0 \<and> gm_state g = GAME_PLAYING
             then let g1 = g\<lparr>gm_board := (gm_board g)[x := (gm_board g ! x)[y := gm_current_player g + 1]],
                             gm_total_steps := gm_total_steps g + 1\<rparr>
                  in g1\<lparr>gm_state := check_win g1,
                        gm_current_player := (if gm_current_player g1 = 0 then 1 else 0),
                        gm_state_changed := True\<rparr>
             else g)
      else None)"

section \<open>Buttons\<close>

definition BUTTON_RIGHT :: int where "BUTTON_RIGHT = GET_PIN GPIOE_BASE 4"
definition BUTTON_DOWN :: int where "BUTTON_DOWN = GET_PIN GPIOE_BASE 3"
definition BUTTON_LEFT :: int where "BUTTON_LEFT = GET_PIN GPIOE_BASE 2"
definition BUTTON_OK :: int where "BUTTON_OK = GET_PIN GPIOA_BASE 0"

text \<open>The number 1 stands for \<^verbatim>\<open>button_isr\<close> in the handler table.\<close>

definition button_attach :: "int \<Rightarrow> nat \<Rightarrow> nat \<Rightarrow> gpio \<Rightarrow> gpio option" where
  "button_attach pin mode irq_mode g =
     (case rt_pin_mode pin mode g of
        None \<Rightarrow> None
      | Some g1 \<Rightarrow> map_option snd (rt_pin_irq_enable pin 1 (snd (rt_pin_attach_irq pin irq_mode (Some 1) pin g1))))"

definition button_init :: "gpio \<Rightarrow> gpio option" where
  "button_init g =
     Option.bind (button_attach BUTTON_LEFT 2 1 g) (\<lambda>g1.
     Option.bind (button_attach BUTTON_RIGHT 2 1 g1) (\<lambda>g2.
     Option.bind (button_attach BUTTON_DOWN 2 1 g2) (\<lambda>g3.
       button_attach BUTTON_OK 3 0 g3)))"

text \<open>The search for the pressed button starts from the null value, which is 0.\<close>

definition active_pin :: "gpio \<Rightarrow> int" where
  "active_pin g =
     (if rt_pin_read BUTTON_LEFT g = 0 then BUTTON_LEFT
      else if rt_pin_read BUTTON_RIGHT g = 0 then BUTTON_RIGHT
      else if rt_pin_read BUTTON_DOWN g = 0 then BUTTON_DOWN
      else if rt_pin_read BUTTON_OK g = 1 then BUTTON_OK
      else 0)"

definition key_action :: "int \<Rightarrow> OXGame \<Rightarrow> OXGame option" where
  "key_action pin g =
     (if pin = BUTTON_LEFT then Some (move_left g)
      else if pin = BUTTON_RIGHT then Some (move_right g)
      else if pin = BUTTON_DOWN then Some (move_down g)
      else if pin = BUTTON_OK then place_piece g
      else Some g)"

section \<open>Commands and names\<close>

text \<open>The commands other than the two resets; anything else only prints a message.\<close>

definition cmd_action :: "u8 \<Rightarrow> OXGame \<Rightarrow> OXGame option" where
  "cmd_action cmd g =
     (if cmd = of_char (CHR ''a'') then Some (move_left g)
      else if cmd = of_char (CHR ''d'') then Some (move_right g)
      else if cmd = of_char (CHR ''s'') then Some (move_down g)
      else if cmd = of_char (CHR ''w'') then Some (move_up g)
      else if cmd = of_char (CHR ''e'') then place_piece g
      else Some g)"

text \<open>\<^verbatim>\<open>rt_strncpy\<close> (\<^verbatim>\<open>klibc/kstring.c\<close>): the copy stops at the first zero and pads with zeros; the end of
  the list counts as a zero.\<close>

fun rt_strncpy :: "u8 list \<Rightarrow> nat \<Rightarrow> u8 list" where
  "rt_strncpy src 0 = []"
| "rt_strncpy [] (Suc n) = 0 # replicate n 0"
| "rt_strncpy (c # src) (Suc n) = (if c = 0 then 0 # replicate n 0 else c # rt_strncpy src n)"

text \<open>The part of \<^verbatim>\<open>reset_game\<close> that sets the fields of the game.\<close>

definition reset_fields :: "ResetType \<Rightarrow> OXGame \<Rightarrow> OXGame" where
  "reset_fields type g =
     (let g1 = g\<lparr>gm_cursor_x := 1, gm_cursor_y := 1, gm_total_steps := 0,
                 gm_player_x := (gm_player_x g)\<lparr>pl_symbol := of_char (CHR ''x'')\<rparr>,
                 gm_player_o := (gm_player_o g)\<lparr>pl_symbol := of_char (CHR ''o'')\<rparr>,
                 gm_state := GAME_PLAYING, gm_current_player := 0,
                 gm_board := replicate 3 (replicate 3 0), gm_state_changed := True\<rparr>
      in if type = RESET_FULL
         then g1\<lparr>gm_player_x := (gm_player_x g1)\<lparr>pl_name := replicate 16 0\<rparr>,
                 gm_player_o := (gm_player_o g1)\<lparr>pl_name := replicate 16 0\<rparr>\<rparr>
         else g1)"

section \<open>The board\<close>

definition cell :: "u8 list list \<Rightarrow> nat \<times> nat \<Rightarrow> u8" where
  "cell b p = b ! fst p ! snd p"

definition ox_lines :: "(nat \<times> nat) list list" where
  "ox_lines = [[(0, 0), (1, 0), (2, 0)], [(0, 1), (1, 1), (2, 1)], [(0, 2), (1, 2), (2, 2)],
     [(0, 0), (0, 1), (0, 2)], [(1, 0), (1, 1), (1, 2)], [(2, 0), (2, 1), (2, 2)],
     [(0, 0), (1, 1), (2, 2)], [(2, 0), (1, 1), (0, 2)]]"

text \<open>Player \<open>v\<close> (1 or 2) has three in a line.\<close>

definition has_line :: "u8 \<Rightarrow> u8 list list \<Rightarrow> bool" where
  "has_line v b \<longleftrightarrow> list_ex (list_all (\<lambda>p. cell b p = v)) ox_lines"

definition board_ok :: "u8 list list \<Rightarrow> bool" where
  "board_ok b \<longleftrightarrow> length b = 3 \<and> list_all (\<lambda>r. length r = 3 \<and> list_all (\<lambda>v. v \<in> {0, 1, 2}) r) b"

definition marks :: "u8 \<Rightarrow> u8 list list \<Rightarrow> nat" where
  "marks v b = sum_list (map (\<lambda>c. if c = v then 1 else 0) (concat b))"

definition put_mark :: "nat \<Rightarrow> nat \<Rightarrow> u8 \<Rightarrow> u8 list list \<Rightarrow> u8 list list" where
  "put_mark x y v b = b[x := (b ! x)[y := v]]"

lemma length3: "length xs = 3 \<longleftrightarrow> (\<exists>a b c. xs = [a, b, c])"
  by (auto simp: length_Suc_conv numeral_3_eq_3)

lemma board_cases:
  assumes "board_ok b"
  obtains a1 a2 a3 b1 b2 b3 c1 c2 c3 where "b = [[a1, a2, a3], [b1, b2, b3], [c1, c2, c3]]"
  using assms by (auto simp: board_ok_def length3)

lemma less3: "x < 3 \<longleftrightarrow> x = 0 \<or> x = 1 \<or> x = (2 :: nat)" by auto

lemma cell_ok: "board_ok b \<Longrightarrow> x < 3 \<Longrightarrow> y < 3 \<Longrightarrow> cell b (x, y) \<in> {0, 1, 2}"
  by (auto simp: board_ok_def cell_def list_all_length)

lemma put_mark_ok: "board_ok b \<Longrightarrow> x < 3 \<Longrightarrow> y < 3 \<Longrightarrow> v \<in> {0, 1, 2} \<Longrightarrow> board_ok (put_mark x y v b)"
  by (auto simp: board_ok_def put_mark_def list_all_length nth_list_update)

lemma cell_put_mark:
  assumes "board_ok b" "x < 3" "y < 3"
  shows "cell (put_mark x y v b) p = (if p = (x, y) then v else cell b p)"
  using assms by (cases p) (auto simp: board_ok_def cell_def put_mark_def nth_list_update list_all_length)

lemma marks_put_mark:
  assumes "board_ok b" "x < 3" "y < 3" "cell b (x, y) = 0" "v \<noteq> 0" "w \<noteq> 0"
  shows "marks w (put_mark x y v b) = marks w b + (if v = w then 1 else 0)"
proof -
  obtain a1 a2 a3 b1 b2 b3 c1 c2 c3 where b: "b = [[a1, a2, a3], [b1, b2, b3], [c1, c2, c3]]"
    using board_cases[OF assms(1)] .
  have "x = 0 \<or> x = 1 \<or> x = 2" "y = 0 \<or> y = 1 \<or> y = 2" using assms(2,3) less3 by blast+
  then show ?thesis using assms(4-)
    by (elim disjE; simp add: b marks_def put_mark_def cell_def split del: if_split)
qed

lemma marks_total: "board_ok b \<Longrightarrow> marks 0 b + marks 1 b + marks 2 b = 9"
proof -
  have c: "\<forall>v\<in>set xs. v \<in> {0, 1, 2 :: u8} \<Longrightarrow>
    sum_list (map (\<lambda>c. if c = 0 then 1 else 0) xs) + sum_list (map (\<lambda>c. if c = 1 then 1 else 0) xs) +
    sum_list (map (\<lambda>c. if c = 2 then 1 else 0) xs) = length xs" for xs
    by (induction xs) auto
  assume b: "board_ok b"
  then have "\<forall>v\<in>set (concat b). v \<in> {0, 1, 2}" by (auto simp: board_ok_def list_all_iff)
  moreover have "length (concat b) = 9" using b by (elim board_cases) simp
  ultimately show ?thesis using c[of "concat b"] by (simp add: marks_def)
qed

text \<open>A new mark completes lines of its own kind only.\<close>

lemma line_cells: "l \<in> set ox_lines \<Longrightarrow> p \<in> set l \<Longrightarrow> fst p < 3 \<and> snd p < 3"
  by (auto simp: ox_lines_def)

lemma has_line_put_mark:
  assumes "board_ok b" "x < 3" "y < 3" "has_line w (put_mark x y v b)" "w \<noteq> v"
  shows "has_line w b"
  using assms(4,5) by (auto simp: has_line_def list_ex_iff list_all_iff cell_put_mark[OF assms(1-3)] split: if_splits)

lemma has_line_grow:
  assumes "board_ok b" "x < 3" "y < 3" "cell b (x, y) = 0" "has_line w b" "w \<noteq> 0"
  shows "has_line w (put_mark x y v b)"
  using assms(4-6) unfolding has_line_def list_ex_iff list_all_iff
  by (auto simp: cell_put_mark[OF assms(1-3)] intro!: bexI)

text \<open>The winner as the loops and tests of \<^verbatim>\<open>check_win\<close> find it.\<close>

lemma check_win_find:
  "check_win g = (case find (\<lambda>l. line_won (gm_board g) (l ! 0) (l ! 1) (l ! 2)) ox_lines of
     Some l \<Rightarrow> line_winner (cell (gm_board g) (l ! 0))
   | None \<Rightarrow> if gm_total_steps g \<ge> 9 then GAME_DRAW else GAME_PLAYING)"
  by (simp add: check_win_def ox_lines_def cell_def Let_def)

lemma line_won_iff:
  "l \<in> set ox_lines \<Longrightarrow> line_won b (l ! 0) (l ! 1) (l ! 2) \<longleftrightarrow>
     cell b (l ! 0) \<noteq> 0 \<and> list_all (\<lambda>p. cell b p = cell b (l ! 0)) l"
  by (auto simp: ox_lines_def line_won_def cell_def)

lemma check_win_lines:
  assumes "board_ok (gm_board g)" "\<not> (has_line 1 (gm_board g) \<and> has_line 2 (gm_board g))"
  shows "check_win g = (if has_line 1 (gm_board g) then GAME_X_WIN else if has_line 2 (gm_board g) then GAME_O_WIN
    else if gm_total_steps g \<ge> 9 then GAME_DRAW else GAME_PLAYING)"
proof (cases "find (\<lambda>l. line_won (gm_board g) (l ! 0) (l ! 1) (l ! 2)) ox_lines")
  case None
  then have "\<not> line_won (gm_board g) (l ! 0) (l ! 1) (l ! 2)" if "l \<in> set ox_lines" for l
    using that by (auto simp: find_None_iff)
  moreover have "line_won (gm_board g) (l ! 0) (l ! 1) (l ! 2)"
    if "l \<in> set ox_lines" "list_all (\<lambda>p. cell (gm_board g) p = v) l" "v \<noteq> 0" for l v
    using that by (auto simp: ox_lines_def line_won_def cell_def)
  ultimately have "\<not> has_line v (gm_board g)" if "v \<noteq> 0" for v
    using that by (auto simp: has_line_def list_ex_iff)
  then show ?thesis using None by (simp add: check_win_find)
next
  case (Some l)
  then have l: "l \<in> set ox_lines" "line_won (gm_board g) (l ! 0) (l ! 1) (l ! 2)"
    by (auto simp: find_Some_iff)
  define v where "v = cell (gm_board g) (l ! 0)"
  have "has_line v (gm_board g)" "v \<noteq> 0"
    using l line_won_iff[OF l(1)] by (auto simp: has_line_def list_ex_iff v_def)
  moreover have "v \<in> {0, 1, 2}"
  proof -
    have "l ! 0 \<in> set l" using l(1) by (auto simp: ox_lines_def)
    then show ?thesis unfolding v_def using line_cells[OF l(1)] cell_ok[OF assms(1)] by (metis prod.collapse)
  qed
  moreover have "check_win g = line_winner v" using Some by (simp add: check_win_find v_def)
  ultimately show ?thesis using assms(2) by (auto simp: line_winner_def)
qed

section \<open>The invariant of the game\<close>

definition game_ok :: "OXGame \<Rightarrow> bool" where
  "game_ok g \<longleftrightarrow> board_ok (gm_board g) \<and> \<not> (has_line 1 (gm_board g) \<and> has_line 2 (gm_board g)) \<and>
     unat (gm_total_steps g) = marks 1 (gm_board g) + marks 2 (gm_board g) \<and>
     gm_current_player g \<in> {0, 1} \<and> marks 1 (gm_board g) = marks 2 (gm_board g) + unat (gm_current_player g) \<and>
     unat (gm_cursor_x g) < 3 \<and> unat (gm_cursor_y g) < 3 \<and> gm_state g = check_win g"

lemma check_win_cong: "gm_board g = gm_board h \<Longrightarrow> gm_total_steps g = gm_total_steps h \<Longrightarrow> check_win g = check_win h"
  by (simp add: check_win_def)

lemma playing_iff:
  assumes "game_ok g"
  shows "gm_state g = GAME_PLAYING \<longleftrightarrow>
    \<not> has_line 1 (gm_board g) \<and> \<not> has_line 2 (gm_board g) \<and> unat (gm_total_steps g) < 9"
  using assms check_win_lines[of g] by (auto simp: game_ok_def word_le_nat_alt)

lemma empty_board [simp]:
  "board_ok (replicate 3 (replicate 3 0))" "v \<noteq> 0 \<Longrightarrow> \<not> has_line v (replicate 3 (replicate 3 0))"
  "v \<noteq> 0 \<Longrightarrow> marks v (replicate 3 (replicate 3 0)) = 0"
  by (auto simp: board_ok_def has_line_def ox_lines_def cell_def marks_def numeral_3_eq_3)

lemma empty_game_ok:
  assumes "gm_board g = replicate 3 (replicate 3 0)" "gm_total_steps g = 0" "gm_current_player g = 0"
    "unat (gm_cursor_x g) < 3" "unat (gm_cursor_y g) < 3" "gm_state g = GAME_PLAYING"
  shows "game_ok g"
  using assms check_win_lines[of g] by (simp add: game_ok_def)

lemma game0_ok: "game_ok game0" by (rule empty_game_ok) (simp_all add: game0_def)

lemma reset_fields_ok: "game_ok (reset_fields type g)"
  by (rule empty_game_ok) (simp_all add: reset_fields_def Let_def)

lemma cursor_move_ok:
  assumes "game_ok g"
  shows "game_ok (move_left g)" "game_ok (move_right g)" "game_ok (move_down g)" "game_ok (move_up g)"
proof -
  have sub: "unat (c - 1) < 3" if "c \<noteq> 0" "unat c < 3" for c :: u8
    using that by (simp add: unat_sub_if' unat_gt_0 Suc_le_eq less_imp_diff_less)
  have add: "unat (c + 1) < 3" if "c < 2" for c :: u8
    using that by (simp add: unat_word_ariths word_less_nat_alt)
  have md: "unat (of_nat (n mod 3) :: u8) < 3" for n
    by (simp add: unat_of_nat)
  have cw: "check_win (g\<lparr>gm_cursor_x := a, gm_state_changed := c\<rparr>) = check_win g"
    "check_win (g\<lparr>gm_cursor_y := a, gm_state_changed := c\<rparr>) = check_win g" for a c
    by (rule check_win_cong; simp)+
  show "game_ok (move_left g)" "game_ok (move_right g)" "game_ok (move_down g)" "game_ok (move_up g)"
    using assms sub add md
    by (simp_all add: game_ok_def move_left_def move_right_def move_down_def move_up_def cw)
qed

lemma place_piece_cases:
  assumes "game_ok g"
  obtains "place_piece g = Some g" "cell (gm_board g) (unat (gm_cursor_x g), unat (gm_cursor_y g)) \<noteq> 0 \<or> gm_state g \<noteq> GAME_PLAYING"
  | g' where "place_piece g = Some g'" "gm_state g = GAME_PLAYING"
      "cell (gm_board g) (unat (gm_cursor_x g), unat (gm_cursor_y g)) = 0"
      "gm_board g' = put_mark (unat (gm_cursor_x g)) (unat (gm_cursor_y g)) (gm_current_player g + 1) (gm_board g)"
      "gm_total_steps g' = gm_total_steps g + 1" "gm_state g' = check_win g'"
      "gm_current_player g' = (if gm_current_player g = 0 then 1 else 0)"
      "gm_cursor_x g' = gm_cursor_x g" "gm_cursor_y g' = gm_cursor_y g" "gm_state_changed g'"
      "gm_player_x g' = gm_player_x g" "gm_player_o g' = gm_player_o g"
proof -
  let ?x = "unat (gm_cursor_x g)" and ?y = "unat (gm_cursor_y g)"
  have r: "?x < length (gm_board g)" "?y < length (gm_board g ! ?x)"
    using assms by (auto simp: game_ok_def board_ok_def list_all_length)
  show ?thesis
  proof (cases "cell (gm_board g) (?x, ?y) = 0 \<and> gm_state g = GAME_PLAYING")
    case False
    then show ?thesis using that(1) r by (auto simp: place_piece_def cell_def Let_def)
  next
    case True
    define g1 where "g1 = g\<lparr>gm_board := put_mark ?x ?y (gm_current_player g + 1) (gm_board g),
      gm_total_steps := gm_total_steps g + 1\<rparr>"
    define g' where "g' = g1\<lparr>gm_state := check_win g1,
      gm_current_player := (if gm_current_player g1 = 0 then 1 else 0), gm_state_changed := True\<rparr>"
    have p: "place_piece g = Some g'"
      using True r by (simp add: place_piece_def cell_def Let_def g'_def g1_def put_mark_def)
    have "check_win g' = check_win g1" by (rule check_win_cong) (simp_all add: g'_def)
    then show ?thesis using that(2)[OF p] True by (simp add: g'_def) (simp add: g1_def)
  qed
qed

text \<open>Placing a piece keeps the invariant, and never steps outside the board.\<close>

lemma place_piece_ok:
  assumes "game_ok g"
  shows "\<exists>g'. place_piece g = Some g' \<and> game_ok g' \<and> gm_player_x g' = gm_player_x g \<and> gm_player_o g' = gm_player_o g"
  using assms
proof (cases rule: place_piece_cases)
  case 1
  then show ?thesis using assms by auto
next
  case (2 g')
  let ?x = "unat (gm_cursor_x g)" and ?y = "unat (gm_cursor_y g)" and ?v = "gm_current_player g + 1"
  have ok: "board_ok (gm_board g)" "?x < 3" "?y < 3" "gm_current_player g \<in> {0, 1}"
    "unat (gm_total_steps g) = marks 1 (gm_board g) + marks 2 (gm_board g)"
    "marks 1 (gm_board g) = marks 2 (gm_board g) + unat (gm_current_player g)"
    using assms by (auto simp: game_ok_def)
  have v: "?v \<in> {1, 2}" "?v \<noteq> 0" using ok(4) by auto
  have nl: "\<not> has_line 1 (gm_board g)" "\<not> has_line 2 (gm_board g)" "unat (gm_total_steps g) < 9"
    using 2(2) playing_iff[OF assms] by auto
  have b: "board_ok (gm_board g')" unfolding 2(4) using put_mark_ok[OF ok(1-3)] v by auto
  have w: "has_line w (gm_board g') \<Longrightarrow> w = ?v" if "w \<in> {1, 2}" for w
    using has_line_put_mark[OF ok(1-3), of w ?v] nl that 2(4) by auto
  have l: "\<not> (has_line 1 (gm_board g') \<and> has_line 2 (gm_board g'))" using w[of 1] w[of 2] by auto
  have m: "marks w (gm_board g') = marks w (gm_board g) + (if ?v = w then 1 else 0)" if "w \<noteq> 0" for w
    unfolding 2(4) by (rule marks_put_mark[OF ok(1-3) 2(3) v(2) that])
  have st: "unat (gm_total_steps g') = unat (gm_total_steps g) + 1"
    unfolding 2(5) using nl(3) by (simp add: unat_word_ariths)
  have "game_ok g'"
    unfolding game_ok_def using b l ok m[of 1] m[of 2] st 2(6-9) by (auto simp: 2(7))
  then show ?thesis using 2 by blast
qed

section \<open>The rules, abstractly\<close>

text \<open>
  Noughts and crosses without any of the program's representation: marks on a three by three grid
  and the player to move. A move marks a free place while nobody has won; the game can start anew at
  any time.
\<close>

datatype mark = X_mark | O_mark

type_synonym ttt = "(nat \<times> nat \<Rightarrow> mark option) \<times> mark"

definition grid :: "(nat \<times> nat) set" where
  "grid = {0..<3} \<times> {0..<3}"

definition wins :: "mark \<Rightarrow> (nat \<times> nat \<Rightarrow> mark option) \<Rightarrow> bool" where
  "wins m c \<longleftrightarrow> (\<exists>x<3. \<forall>y<3. c (x, y) = Some m) \<or> (\<exists>y<3. \<forall>x<3. c (x, y) = Some m) \<or>
     (\<forall>x<3. c (x, x) = Some m) \<or> (\<forall>x<3. c (x, 2 - x) = Some m)"

fun other :: "mark \<Rightarrow> mark" where
  "other X_mark = O_mark"
| "other O_mark = X_mark"

definition ttt_start :: ttt where
  "ttt_start = (\<lambda>_. None, X_mark)"

inductive ttt_step :: "ttt \<Rightarrow> ttt \<Rightarrow> bool" where
  move: "p \<in> grid \<Longrightarrow> c p = None \<Longrightarrow> \<not> wins X_mark c \<Longrightarrow> \<not> wins O_mark c \<Longrightarrow>
    ttt_step (c, t) (c(p \<mapsto> t), other t)"
| restart: "ttt_step s ttt_start"

definition ttt_result :: "(nat \<times> nat \<Rightarrow> mark option) \<Rightarrow> GameState" where
  "ttt_result c = (if wins X_mark c then GAME_X_WIN else if wins O_mark c then GAME_O_WIN
     else if grid \<subseteq> dom c then GAME_DRAW else GAME_PLAYING)"

text \<open>What the game object stands for.\<close>

definition mark_of :: "u8 \<Rightarrow> mark option" where
  "mark_of v = (if v = 0 then None else if v = 1 then Some X_mark else Some O_mark)"

definition game_abs :: "OXGame \<Rightarrow> ttt" where
  "game_abs g = (\<lambda>p. if p \<in> grid then mark_of (cell (gm_board g) p) else None,
                 if gm_current_player g = 0 then X_mark else O_mark)"

lemma mark_of_None: "mark_of v \<noteq> None \<longleftrightarrow> v \<noteq> 0" by (simp add: mark_of_def)

lemma game_abs_cong: "gm_board g = gm_board h \<Longrightarrow> gm_current_player g = gm_current_player h \<Longrightarrow> game_abs g = game_abs h"
  by (simp add: game_abs_def cong: if_cong)

lemma all3: "(\<forall>x<3. P x) \<longleftrightarrow> P 0 \<and> P 1 \<and> P (2 :: nat)" "(\<exists>x<3. P x) \<longleftrightarrow> P 0 \<or> P 1 \<or> P (2 :: nat)"
  by (auto simp: less3)

lemma wins_lines:
  assumes "board_ok (gm_board g)"
  shows "wins X_mark (fst (game_abs g)) \<longleftrightarrow> has_line 1 (gm_board g)"
    and "wins O_mark (fst (game_abs g)) \<longleftrightarrow> has_line 2 (gm_board g)"
proof -
  let ?c = "fst (game_abs g)"
  have c: "?c (x, y) = Some X_mark \<longleftrightarrow> cell (gm_board g) (x, y) = 1"
    "?c (x, y) = Some O_mark \<longleftrightarrow> cell (gm_board g) (x, y) = 2" if "x < 3" "y < 3" for x y
    using cell_ok[OF assms that] that by (auto simp: game_abs_def grid_def mark_of_def)
  show "wins X_mark ?c \<longleftrightarrow> has_line 1 (gm_board g)" "wins O_mark ?c \<longleftrightarrow> has_line 2 (gm_board g)"
    unfolding wins_def has_line_def ox_lines_def all3 by (simp_all add: c) argo+
qed

lemma full_iff:
  assumes "game_ok g"
  shows "grid \<subseteq> dom (fst (game_abs g)) \<longleftrightarrow> unat (gm_total_steps g) = 9"
proof -
  have ok: "board_ok (gm_board g)" using assms by (simp add: game_ok_def)
  have "unat (gm_total_steps g) = 9 \<longleftrightarrow> marks 0 (gm_board g) = 0"
    using assms marks_total[OF ok] by (auto simp: game_ok_def)
  also have "\<dots> \<longleftrightarrow> (\<forall>v\<in>set (concat (gm_board g)). v \<noteq> 0)"
    by (auto simp: marks_def sum_list_eq_0_iff split: if_splits)
  also have "\<dots> \<longleftrightarrow> (\<forall>x<3. \<forall>y<3. cell (gm_board g) (x, y) \<noteq> 0)"
    using ok by (elim board_cases) (auto simp: all3 cell_def)
  also have "\<dots> \<longleftrightarrow> (\<forall>p\<in>grid. mark_of (cell (gm_board g) p) \<noteq> None)"
    unfolding mark_of_None by (auto simp: grid_def)
  also have "\<dots> \<longleftrightarrow> grid \<subseteq> dom (fst (game_abs g))"
    by (auto simp: game_abs_def subset_iff dom_def)
  finally show ?thesis by simp
qed

lemma game_result:
  assumes "game_ok g"
  shows "gm_state g = ttt_result (fst (game_abs g))"
proof -
  have ok: "board_ok (gm_board g)" "\<not> (has_line 1 (gm_board g) \<and> has_line 2 (gm_board g))"
    "gm_state g = check_win g" "unat (gm_total_steps g) \<le> 9"
    using assms marks_total[of "gm_board g"] by (auto simp: game_ok_def)
  then show ?thesis
    using full_iff[OF assms] by (auto simp: ttt_result_def wins_lines check_win_lines word_le_nat_alt)
qed

text \<open>A piece is placed by the rules or not at all.\<close>

lemma place_piece_abs:
  assumes "game_ok g" "place_piece g = Some g'"
  shows "game_abs g' = game_abs g \<or> ttt_step (game_abs g) (game_abs g')"
  using assms(1)
proof (cases rule: place_piece_cases)
  case 1
  then show ?thesis using assms(2) by simp
next
  case (2 h)
  then have h: "h = g'" using assms(2) by simp
  let ?p = "(unat (gm_cursor_x g), unat (gm_cursor_y g))"
  have ok: "board_ok (gm_board g)" "fst ?p < 3" "snd ?p < 3" "gm_current_player g \<in> {0, 1}"
    using assms(1) by (auto simp: game_ok_def)
  have p: "?p \<in> grid" using ok by (simp add: grid_def)
  let ?t = "snd (game_abs g)"
  have t: "mark_of (gm_current_player g + 1) = Some ?t" using ok(4) by (auto simp: mark_of_def game_abs_def)
  have "fst (game_abs g') = (fst (game_abs g))(?p \<mapsto> ?t)"
  proof
    fix q
    show "fst (game_abs g') q = ((fst (game_abs g))(?p \<mapsto> ?t)) q"
      using t p cell_put_mark[OF ok(1), of "fst ?p" "snd ?p" "gm_current_player g + 1" q] ok(2,3)
      unfolding h[symmetric] by (auto simp: game_abs_def 2(4))
  qed
  moreover have "snd (game_abs g') = other ?t" using ok(4) 2(7) by (auto simp: game_abs_def h)
  ultimately have e: "game_abs g' = ((fst (game_abs g))(?p \<mapsto> ?t), other ?t)" by (metis prod.collapse)
  have "fst (game_abs g) ?p = None" using 2(3) by (simp add: game_abs_def mark_of_def)
  moreover have "\<not> wins X_mark (fst (game_abs g))" "\<not> wins O_mark (fst (game_abs g))"
    using playing_iff[OF assms(1)] 2(2) by (simp_all add: wins_lines[OF ok(1)])
  ultimately have "ttt_step (fst (game_abs g), ?t) ((fst (game_abs g))(?p \<mapsto> ?t), other ?t)"
    using ttt_step.move[OF p] by blast
  then show ?thesis using e by simp
qed

lemma move_abs [simp]:
  "game_abs (move_left g) = game_abs g" "game_abs (move_right g) = game_abs g"
  "game_abs (move_down g) = game_abs g" "game_abs (move_up g) = game_abs g"
  by (rule game_abs_cong; simp add: move_left_def move_right_def move_down_def move_up_def)+

lemma reset_abs_start: "game_abs (reset_fields type g) = ttt_start"
  by (auto simp: game_abs_def reset_fields_def Let_def ttt_start_def mark_of_def cell_def grid_def fun_eq_iff)

lemmas action_defs = key_action_def cmd_action_def

lemma move_players [simp]:
  "gm_player_x (move_left g) = gm_player_x g" "gm_player_o (move_left g) = gm_player_o g"
  "gm_player_x (move_right g) = gm_player_x g" "gm_player_o (move_right g) = gm_player_o g"
  "gm_player_x (move_down g) = gm_player_x g" "gm_player_o (move_down g) = gm_player_o g"
  "gm_player_x (move_up g) = gm_player_x g" "gm_player_o (move_up g) = gm_player_o g"
  by (simp_all add: move_left_def move_right_def move_down_def move_up_def)

text \<open>Both sources of input obey the rules, whatever they send.\<close>

lemma action_ok:
  assumes "game_ok g" "act = key_action pin g \<or> act = cmd_action c g"
  shows "\<exists>g'. act = Some g' \<and> game_ok g' \<and> gm_player_x g' = gm_player_x g \<and> gm_player_o g' = gm_player_o g \<and>
    (game_abs g' = game_abs g \<or> ttt_step (game_abs g) (game_abs g'))"
proof -
  have "act \<in> {Some g, Some (move_left g), Some (move_right g), Some (move_down g), Some (move_up g), place_piece g}"
    using assms(2) by (auto simp: action_defs)
  then show ?thesis
    using assms(1) cursor_move_ok[OF assms(1)] place_piece_ok[OF assms(1)] place_piece_abs[OF assms(1)]
    by auto
qed

section \<open>A button that is not pressed\<close>

text \<open>
  Pin 0 is the confirm button, and 0 is also the null value the search for the pressed button
  starts from: when none of the four buttons reads as pressed, because the press is over when the key
  thread looks, the key thread still acts as if the confirm button were pressed.
\<close>

theorem released_button_confirms:
  assumes "rt_pin_read BUTTON_LEFT gp = 1" "rt_pin_read BUTTON_RIGHT gp = 1" "rt_pin_read BUTTON_DOWN gp = 1"
    and "rt_pin_read BUTTON_OK gp = 0"
  shows "key_action (active_pin gp) g = place_piece g"
  using assms
  by (simp add: active_pin_def key_action_def BUTTON_LEFT_def BUTTON_RIGHT_def BUTTON_DOWN_def BUTTON_OK_def
      GET_PIN_def GPIOA_BASE_def GPIOE_BASE_def)

theorem released_button_confirms_witness:
  "key_action (active_pin (gpio0\<lparr>gp_in := (\<lambda>_. True)((0, 0) := False)\<rparr>)) game0 = place_piece game0 \<and>
   map_option gm_total_steps (place_piece game0) = Some 1"
proof
  show "key_action (active_pin (gpio0\<lparr>gp_in := (\<lambda>_. True)((0, 0) := False)\<rparr>)) game0 = place_piece game0"
    by (rule released_button_confirms)
      (simp_all add: rt_pin_read_def stm32_pin_read_def BUTTON_LEFT_def BUTTON_RIGHT_def BUTTON_DOWN_def BUTTON_OK_def
        GET_PIN_def GPIOA_BASE_def GPIOE_BASE_def PIN_PORT_def PIN_STPORT_MAX_def PIN_ST_def PIN_NO_def)
  show "map_option gm_total_steps (place_piece game0) = Some 1" by code_simp
qed

end
