(* ===== verification/OXGame.thy ===== *)
theory OXGame
  imports OXRules
begin

text \<open>
  The threads of \<^verbatim>\<open>applications/OXGame.c\<close>. Three threads share one game: the key
  thread handles the buttons, the command thread the characters from the serial line, the LCD thread
  redraws the board and starts a new game after the end of one. A fourth, the thread that runs
  \<^verbatim>\<open>ox_game_start\<close>, asks for the names first. Each thread is a program counter and a step function;
  a step is a stretch of code between two kernel calls, and the steps of the threads and of the two
  interrupt handlers interleave freely. Of the kernel objects the game sees what it relies on: the
  values of the two semaphores, and the owner and the count of the recursive mutex.
\<close>

section \<open>Threads\<close>

datatype ox_thread = Main_thread | Key_thread | Lcd_thread | Cmd_thread

datatype player_id = X_player | O_player

text \<open>Where \<^verbatim>\<open>reset_game\<close> is, and inside it \<^verbatim>\<open>input_player_name\<close> with its length and its buffer.\<close>

datatype reset_pc = R_take | R_fields | R_begin player_id | R_input player_id nat "u8 list"
  | R_wait player_id nat "u8 list" | R_show | R_delay | R_release | R_end

datatype main_pc = M_reset reset_pc | M_done

datatype key_pc = K_sem | K_delay | K_take | K_work | K_release int | K_irq int

datatype lcd_pc = L_take | L_draw | L_check | L_unlock | L_pause | L_reset reset_pc | L_retake | L_release | L_delay

datatype cmd_pc = C_sem | C_get | C_take u8 | C_exec u8 | C_reset ResetType reset_pc | C_release | C_give | C_delay

record ox =
  ox_game :: OXGame
  ox_rb :: rt_ringbuffer
  ox_gpio :: gpio
  ox_screen :: "lcd_op list"
  ox_key_sem :: nat
  ox_uart_sem :: nat
  ox_owner :: "ox_thread option"
  ox_hold :: nat
  ox_main :: main_pc
  ox_key :: key_pc
  ox_lcd :: lcd_pc
  ox_cmd :: cmd_pc

text \<open>What a thread does next: it goes on, it waits, or it accesses an array out of range.\<close>

datatype 'a outcome = Next 'a | Waits | Faults

text \<open>
  The kernel calls as the threads see them. The semaphores and the mutex are taken without a time
  limit and are never deleted, so a take that waits goes on with success once it can. A release of
  the mutex by another thread than its owner is refused.
\<close>

definition sem_give :: "nat \<Rightarrow> nat" where
  "sem_give v = (if v < 65535 then v + 1 else v)"

definition lcd_take :: "ox_thread \<Rightarrow> ox \<Rightarrow> ox outcome" where
  "lcd_take t s =
     (if ox_owner s = None \<or> ox_owner s = Some t
      then Next (s\<lparr>ox_owner := Some t, ox_hold := ox_hold s + 1\<rparr>) else Waits)"

definition lcd_release :: "ox_thread \<Rightarrow> ox \<Rightarrow> ox" where
  "lcd_release t s =
     (if ox_owner s = Some t
      then s\<lparr>ox_hold := ox_hold s - 1, ox_owner := (if ox_hold s = 1 then None else Some t)\<rparr> else s)"

definition uart_take :: "ox \<Rightarrow> ox outcome" where
  "uart_take s = (if ox_uart_sem s > 0 then Next (s\<lparr>ox_uart_sem := ox_uart_sem s - 1\<rparr>) else Waits)"

definition lcd_put :: "lcd_op list \<Rightarrow> ox \<Rightarrow> ox" where
  "lcd_put ops s = s\<lparr>ox_screen := ox_screen s @ ops\<rparr>"

definition set_name :: "player_id \<Rightarrow> u8 list \<Rightarrow> OXGame \<Rightarrow> OXGame" where
  "set_name who nm g =
     (case who of
        X_player \<Rightarrow> g\<lparr>gm_player_x := (gm_player_x g)\<lparr>pl_name := nm\<rparr>\<rparr>
      | O_player \<Rightarrow> g\<lparr>gm_player_o := (gm_player_o g)\<lparr>pl_name := nm\<rparr>\<rparr>)"

text \<open>The end of \<^verbatim>\<open>input_player_name\<close>, and where \<^verbatim>\<open>reset_game\<close> goes on.\<close>

definition name_done :: "player_id \<Rightarrow> nat \<Rightarrow> u8 list \<Rightarrow> ox \<Rightarrow> reset_pc \<times> ox" where
  "name_done who len buf s =
     ((case who of X_player \<Rightarrow> R_begin O_player | O_player \<Rightarrow> R_show),
      s\<lparr>ox_game := set_name who (rt_strncpy (buf[len := 0]) 16) (ox_game s)\<rparr>)"

text \<open>One round of the loop that reads a name.\<close>

definition input_round :: "player_id \<Rightarrow> nat \<Rightarrow> u8 list \<Rightarrow> ox \<Rightarrow> (reset_pc \<times> ox) outcome" where
  "input_round who len buf s =
     (if len < 15
      then case rt_ringbuffer_getchar (ox_rb s) of
             (None, rb) \<Rightarrow> Next (R_wait who len buf, s)
           | (Some ch, rb) \<Rightarrow>
               let s1 = s\<lparr>ox_rb := rb\<rparr> in
               if ch = 13 \<or> ch = 10
               then Next (if len > 0 then name_done who len buf s1 else (R_input who len buf, s1))
               else if len < length buf then Next (R_input who (len + 1) (buf[len := ch]), s1)
               else Faults
      else Next (name_done who len buf s))"

fun reset_step :: "ox_thread \<Rightarrow> ResetType \<Rightarrow> reset_pc \<Rightarrow> ox \<Rightarrow> (reset_pc \<times> ox) outcome" where
  "reset_step t type R_take s = map_outcome (\<lambda>s1. (R_fields, s1)) (lcd_take t s)"
| "reset_step t type R_fields s =
     Next (if type = RESET_FULL then R_begin X_player else R_show,
           s\<lparr>ox_game := reset_fields type (ox_game s),
             ox_screen := [LCD_Clear WHITE, LCD_ShowString 40 150 600 24 24 (str ''X and O name:'')]\<rparr>)"
| "reset_step t type (R_begin who) s =
     Next (R_input who 0 (replicate 16 0), s\<lparr>ox_rb := rt_ringbuffer_reset (ox_rb s)\<rparr>)"
| "reset_step t type (R_input who len buf) s = input_round who len buf s"
| "reset_step t type (R_wait who len buf) s = map_outcome (\<lambda>s1. (R_input who len buf, s1)) (uart_take s)"
| "reset_step t type R_show s =
     Next (R_delay, lcd_put [LCD_ShowString 40 200 600 24 24 (cstr (pl_name (gm_player_x (ox_game s)))),
       LCD_ShowString 40 250 600 24 24 (cstr (pl_name (gm_player_o (ox_game s))))] s)"
| "reset_step t type R_delay s = Next (R_release, s)"
| "reset_step t type R_release s = Next (R_end, lcd_release t s)"
| "reset_step t type R_end s = Next (R_end, s)"

fun main_step :: "main_pc \<Rightarrow> ox \<Rightarrow> ox outcome" where
  "main_step (M_reset R_end) s = Next (s\<lparr>ox_main := M_done\<rparr>)"
| "main_step (M_reset r) s = map_outcome (\<lambda>(r1, s1). s1\<lparr>ox_main := M_reset r1\<rparr>) (reset_step Main_thread RESET_FULL r s)"
| "main_step M_done s = Waits"

fun key_step :: "key_pc \<Rightarrow> ox \<Rightarrow> ox outcome" where
  "key_step K_sem s =
     (if ox_key_sem s > 0 then Next (s\<lparr>ox_key_sem := ox_key_sem s - 1, ox_key := K_delay\<rparr>) else Waits)"
| "key_step K_delay s = Next (s\<lparr>ox_key := K_take\<rparr>)"
| "key_step K_take s = map_outcome (\<lambda>s1. s1\<lparr>ox_key := K_work\<rparr>) (lcd_take Key_thread s)"
| "key_step K_work s =
     (let pin = active_pin (ox_gpio s) in
      case key_action pin (ox_game s) of
        None \<Rightarrow> Faults
      | Some g \<Rightarrow> Next (s\<lparr>ox_game := g, ox_key := K_release pin\<rparr>))"
| "key_step (K_release pin) s = Next ((lcd_release Key_thread s)\<lparr>ox_key := K_irq pin\<rparr>)"
| "key_step (K_irq pin) s =
     (case rt_pin_irq_enable pin 1 (ox_gpio s) of
        None \<Rightarrow> Faults
      | Some (e, gp) \<Rightarrow> Next (s\<lparr>ox_gpio := gp, ox_key := K_sem\<rparr>))"

definition result_message :: "GameState \<Rightarrow> string" where
  "result_message st = (if st = GAME_X_WIN then ''X Wins!'' else if st = GAME_O_WIN then ''O Wins!'' else ''Draw!'')"

fun lcd_step :: "lcd_pc \<Rightarrow> ox \<Rightarrow> ox outcome" where
  "lcd_step L_take s = map_outcome (\<lambda>s1. s1\<lparr>ox_lcd := L_draw\<rparr>) (lcd_take Lcd_thread s)"
| "lcd_step L_draw s =
     (if gm_state_changed (ox_game s)
      then case ox_game_draw_board (ox_game s) of
             None \<Rightarrow> Faults
           | Some ops \<Rightarrow> Next (s\<lparr>ox_screen := ops, ox_game := (ox_game s)\<lparr>gm_state_changed := False\<rparr>, ox_lcd := L_check\<rparr>)
      else Next (s\<lparr>ox_lcd := L_check\<rparr>))"
| "lcd_step L_check s =
     (if gm_state (ox_game s) \<noteq> GAME_PLAYING
      then Next ((lcd_put [LCD_ShowString 100 200 200 24 24 (str (result_message (gm_state (ox_game s))))] s)
                   \<lparr>ox_lcd := L_unlock\<rparr>)
      else Next (s\<lparr>ox_lcd := L_release\<rparr>))"
| "lcd_step L_unlock s = Next ((lcd_release Lcd_thread s)\<lparr>ox_lcd := L_pause\<rparr>)"
| "lcd_step L_pause s = Next (s\<lparr>ox_lcd := L_reset R_take\<rparr>)"
| "lcd_step (L_reset R_end) s = Next (s\<lparr>ox_lcd := L_retake\<rparr>)"
| "lcd_step (L_reset r) s = map_outcome (\<lambda>(r1, s1). s1\<lparr>ox_lcd := L_reset r1\<rparr>) (reset_step Lcd_thread RESET_CURRENT r s)"
| "lcd_step L_retake s = map_outcome (\<lambda>s1. s1\<lparr>ox_lcd := L_release\<rparr>) (lcd_take Lcd_thread s)"
| "lcd_step L_release s = Next ((lcd_release Lcd_thread s)\<lparr>ox_lcd := L_delay\<rparr>)"
| "lcd_step L_delay s = Next (s\<lparr>ox_lcd := L_take\<rparr>)"

fun cmd_step :: "cmd_pc \<Rightarrow> ox \<Rightarrow> ox outcome" where
  "cmd_step C_sem s = map_outcome (\<lambda>s1. s1\<lparr>ox_cmd := C_get\<rparr>) (uart_take s)"
| "cmd_step C_get s =
     (case rt_ringbuffer_getchar (ox_rb s) of
        (None, rb) \<Rightarrow> Next (s\<lparr>ox_cmd := C_give\<rparr>)
      | (Some ch, rb) \<Rightarrow> Next (s\<lparr>ox_rb := rb, ox_cmd := C_take ch\<rparr>))"
| "cmd_step (C_take cmd) s = map_outcome (\<lambda>s1. s1\<lparr>ox_cmd := C_exec cmd\<rparr>) (lcd_take Cmd_thread s)"
| "cmd_step (C_exec cmd) s =
     (if cmd = of_char (CHR ''r'') then Next (s\<lparr>ox_cmd := C_reset RESET_FULL R_take\<rparr>)
      else if cmd = of_char (CHR ''c'') then Next (s\<lparr>ox_cmd := C_reset RESET_CURRENT R_take\<rparr>)
      else case cmd_action cmd (ox_game s) of
             None \<Rightarrow> Faults
           | Some g \<Rightarrow> Next (s\<lparr>ox_game := g, ox_cmd := C_release\<rparr>))"
| "cmd_step (C_reset type R_end) s = Next (s\<lparr>ox_cmd := C_release\<rparr>)"
| "cmd_step (C_reset type r) s = map_outcome (\<lambda>(r1, s1). s1\<lparr>ox_cmd := C_reset type r1\<rparr>) (reset_step Cmd_thread type r s)"
| "cmd_step C_release s = Next ((lcd_release Cmd_thread s)\<lparr>ox_cmd := C_get\<rparr>)"
| "cmd_step C_give s = Next (s\<lparr>ox_uart_sem := sem_give (ox_uart_sem s), ox_cmd := C_delay\<rparr>)"
| "cmd_step C_delay s = Next (s\<lparr>ox_cmd := C_sem\<rparr>)"

text \<open>The threads that \<^verbatim>\<open>ox_game_start\<close> creates run once the initialisation is over.\<close>

definition thread_step :: "ox_thread \<Rightarrow> ox \<Rightarrow> ox outcome" where
  "thread_step t s =
     (case t of
        Main_thread \<Rightarrow> main_step (ox_main s) s
      | Key_thread \<Rightarrow> if ox_main s = M_done then key_step (ox_key s) s else Waits
      | Lcd_thread \<Rightarrow> if ox_main s = M_done then lcd_step (ox_lcd s) s else Waits
      | Cmd_thread \<Rightarrow> if ox_main s = M_done then cmd_step (ox_cmd s) s else Waits)"

section \<open>Interrupts and start\<close>

definition uart_rx_ind :: "u8 list \<Rightarrow> ox \<Rightarrow> ox" where
  "uart_rx_ind received s =
     s\<lparr>ox_rb := fold (\<lambda>ch rb. snd (rt_ringbuffer_putchar rb ch)) received (ox_rb s),
       ox_uart_sem := sem_give (ox_uart_sem s)\<rparr>"

definition button_isr :: "int \<Rightarrow> ox \<Rightarrow> ox option" where
  "button_isr pin s =
     map_option (\<lambda>(e, gp). s\<lparr>ox_gpio := gp, ox_key_sem := sem_give (ox_key_sem s)\<rparr>)
       (rt_pin_irq_enable pin 0 (ox_gpio s))"

text \<open>
  The state when \<^verbatim>\<open>ox_game_init\<close> calls \<^verbatim>\<open>reset_game\<close>. \<open>None\<close> are the failed assertions that the two
  devices exist, and the ring buffer or a pin that could not be set up; the pool of the ring buffer
  comes from the allocator.
\<close>

definition ox_game_init :: "bool \<Rightarrow> (nat \<Rightarrow> u8 list option) \<Rightarrow> bool \<Rightarrow> gpio \<Rightarrow> ox option" where
  "ox_game_init uart_found pool_mem lcd_found gp =
     (case rt_ringbuffer_create True pool_mem 16 of
        Some (Some rb) \<Rightarrow>
          if \<not> uart_found then None
          else case button_init gp of
            None \<Rightarrow> None
          | Some gp1 \<Rightarrow>
              if \<not> lcd_found then None
              else Some \<lparr>ox_game = game0, ox_rb = rb, ox_gpio = gp1, ox_screen = [LCD_Clear WHITE],
                ox_key_sem = 0, ox_uart_sem = 0, ox_owner = None, ox_hold = 0, ox_main = M_reset R_take,
                ox_key = K_sem, ox_lcd = L_take, ox_cmd = C_sem\<rparr>
      | _ \<Rightarrow> None)"

inductive ox_step :: "ox \<Rightarrow> ox \<Rightarrow> bool" where
  thread: "thread_step t s = Next s' \<Longrightarrow> ox_step s s'"
| rx: "ox_step s (uart_rx_ind received s)"
| button: "(1, pin) \<in> set (EXTI_IRQHandler line pending (ox_gpio s)) \<Longrightarrow> button_isr pin s = Some s' \<Longrightarrow> ox_step s s'"
| levels: "ox_step s (s\<lparr>ox_gpio := (ox_gpio s)\<lparr>gp_in := lv\<rparr>\<rparr>)"

inductive ox_reach :: "ox \<Rightarrow> bool" where
  init: "ox_game_init uart_found pool_mem lcd_found gpio0 = Some s \<Longrightarrow> (\<And>n p. pool_mem n = Some p \<Longrightarrow> length p = n) \<Longrightarrow> ox_reach s"
| step: "ox_reach s \<Longrightarrow> ox_step s s' \<Longrightarrow> ox_reach s'"

section \<open>Invariants\<close>

text \<open>How often each thread holds the mutex, by its place in the code.\<close>

fun reset_holds :: "reset_pc \<Rightarrow> nat" where
  "reset_holds R_take = 0"
| "reset_holds R_end = 0"
| "reset_holds _ = 1"

fun main_holds :: "main_pc \<Rightarrow> nat" where
  "main_holds (M_reset r) = reset_holds r"
| "main_holds M_done = 0"

fun key_holds :: "key_pc \<Rightarrow> nat" where
  "key_holds K_work = 1"
| "key_holds (K_release _) = 1"
| "key_holds _ = 0"

fun lcd_holds :: "lcd_pc \<Rightarrow> nat" where
  "lcd_holds L_draw = 1"
| "lcd_holds L_check = 1"
| "lcd_holds L_unlock = 1"
| "lcd_holds L_release = 1"
| "lcd_holds (L_reset r) = reset_holds r"
| "lcd_holds _ = 0"

fun cmd_holds :: "cmd_pc \<Rightarrow> nat" where
  "cmd_holds (C_exec _) = 1"
| "cmd_holds C_release = 1"
| "cmd_holds (C_reset _ r) = 1 + reset_holds r"
| "cmd_holds _ = 0"

fun holds :: "ox \<Rightarrow> ox_thread \<Rightarrow> nat" where
  "holds s Main_thread = main_holds (ox_main s)"
| "holds s Key_thread = key_holds (ox_key s)"
| "holds s Lcd_thread = lcd_holds (ox_lcd s)"
| "holds s Cmd_thread = cmd_holds (ox_cmd s)"

definition lock_ok :: "ox_thread option \<Rightarrow> nat \<Rightarrow> (ox_thread \<Rightarrow> nat) \<Rightarrow> bool" where
  "lock_ok owner hold h \<longleftrightarrow> (\<forall>t. h t = (if owner = Some t then hold else 0)) \<and> (owner = None \<longleftrightarrow> hold = 0)"

lemma lock_take:
  assumes "lock_ok (ox_owner s) (ox_hold s) h" "lcd_take t s = Next s1"
  shows "lock_ok (ox_owner s1) (ox_hold s1) (h(t := h t + 1))"
  using assms by (auto simp: lock_ok_def lcd_take_def split: if_splits)

lemma lock_release:
  assumes "lock_ok (ox_owner s) (ox_hold s) h" "h t > 0"
  shows "lock_ok (ox_owner (lcd_release t s)) (ox_hold (lcd_release t s)) (h(t := h t - 1))"
  using assms by (auto simp: lock_ok_def lcd_release_def split: if_splits)

text \<open>A name field: terminated, with no line end in it.\<close>

definition name_ok :: "u8 list \<Rightarrow> bool" where
  "name_ok nm \<longleftrightarrow> length nm = 16 \<and> nm ! 15 = 0 \<and> 10 \<notin> set nm \<and> 13 \<notin> set nm"

definition buf_ok :: "nat \<Rightarrow> u8 list \<Rightarrow> bool" where
  "buf_ok len buf \<longleftrightarrow> length buf = 16 \<and> len \<le> 15 \<and> buf ! 15 = 0 \<and> 10 \<notin> set buf \<and> 13 \<notin> set buf"

fun reset_ok :: "reset_pc \<Rightarrow> bool" where
  "reset_ok (R_input _ len buf) = buf_ok len buf"
| "reset_ok (R_wait _ len buf) = buf_ok len buf"
| "reset_ok _ = True"

definition pcs_ok :: "ox \<Rightarrow> bool" where
  "pcs_ok s \<longleftrightarrow> (\<forall>r. ox_main s = M_reset r \<longrightarrow> reset_ok r) \<and> (\<forall>r. ox_lcd s = L_reset r \<longrightarrow> reset_ok r) \<and>
     (\<forall>ty r. ox_cmd s = C_reset ty r \<longrightarrow> reset_ok r)"

text \<open>The handler table holds only the modes that can be enabled.\<close>

definition modes_ok :: "gpio \<Rightarrow> bool" where
  "modes_ok gp \<longleftrightarrow> (\<forall>i. ih_mode (gp_hdr gp i) < 3)"

definition core_ok :: "ox \<Rightarrow> bool" where
  "core_ok s \<longleftrightarrow> game_ok (ox_game s) \<and> name_ok (pl_name (gm_player_x (ox_game s))) \<and>
     name_ok (pl_name (gm_player_o (ox_game s))) \<and> rb_wf (ox_rb s) \<and> modes_ok (ox_gpio s)"

definition ox_inv :: "ox \<Rightarrow> bool" where
  "ox_inv s \<longleftrightarrow> core_ok s \<and> pcs_ok s \<and> lock_ok (ox_owner s) (ox_hold s) (holds s)"

section \<open>Frames of the kernel calls\<close>

lemma take_frame:
  assumes "lcd_take t s = Next s1"
  shows "ox_game s1 = ox_game s" "ox_rb s1 = ox_rb s" "ox_gpio s1 = ox_gpio s" "ox_main s1 = ox_main s"
    "ox_key s1 = ox_key s" "ox_lcd s1 = ox_lcd s" "ox_cmd s1 = ox_cmd s"
  using assms by (auto simp: lcd_take_def split: if_splits)

lemma uart_take_frame:
  assumes "uart_take s = Next s1"
  shows "ox_game s1 = ox_game s" "ox_rb s1 = ox_rb s" "ox_gpio s1 = ox_gpio s" "ox_main s1 = ox_main s"
    "ox_key s1 = ox_key s" "ox_lcd s1 = ox_lcd s" "ox_cmd s1 = ox_cmd s"
    "ox_owner s1 = ox_owner s" "ox_hold s1 = ox_hold s"
  using assms by (auto simp: uart_take_def split: if_splits)

lemma release_frame [simp]:
  "ox_game (lcd_release t s) = ox_game s" "ox_rb (lcd_release t s) = ox_rb s" "ox_gpio (lcd_release t s) = ox_gpio s"
  "ox_main (lcd_release t s) = ox_main s" "ox_key (lcd_release t s) = ox_key s" "ox_lcd (lcd_release t s) = ox_lcd s"
  "ox_cmd (lcd_release t s) = ox_cmd s"
  by (auto simp: lcd_release_def)

lemma put_frame [simp]:
  "ox_game (lcd_put ops s) = ox_game s" "ox_rb (lcd_put ops s) = ox_rb s" "ox_gpio (lcd_put ops s) = ox_gpio s"
  "ox_main (lcd_put ops s) = ox_main s" "ox_key (lcd_put ops s) = ox_key s" "ox_lcd (lcd_put ops s) = ox_lcd s"
  "ox_cmd (lcd_put ops s) = ox_cmd s" "ox_owner (lcd_put ops s) = ox_owner s" "ox_hold (lcd_put ops s) = ox_hold s"
  by (auto simp: lcd_put_def)

lemma no_fault_calls [simp]: "lcd_take t s \<noteq> Faults" "uart_take s \<noteq> Faults"
  by (auto simp: lcd_take_def uart_take_def)

lemma map_outcome_iff [simp]:
  "map_outcome f x = Next y \<longleftrightarrow> (\<exists>z. x = Next z \<and> y = f z)" "map_outcome f x = Faults \<longleftrightarrow> x = Faults"
  by (cases x; auto)+

section \<open>Names\<close>

lemma strncpy_props:
  "length (rt_strncpy src n) = n" "set (rt_strncpy src n) \<subseteq> insert 0 (set src)"
  "i < n \<Longrightarrow> i < length src \<Longrightarrow> src ! i = 0 \<Longrightarrow> \<forall>j. i \<le> j \<longrightarrow> j < n \<longrightarrow> rt_strncpy src n ! j = 0"
proof -
  show "length (rt_strncpy src n) = n" "set (rt_strncpy src n) \<subseteq> insert 0 (set src)"
    by (induction src n rule: rt_strncpy.induct) auto
  show "i < n \<Longrightarrow> i < length src \<Longrightarrow> src ! i = 0 \<Longrightarrow> \<forall>j. i \<le> j \<longrightarrow> j < n \<longrightarrow> rt_strncpy src n ! j = 0"
  proof (induction src n arbitrary: i rule: rt_strncpy.induct)
    case (3 c src n)
    then show ?case by (cases i) (auto simp: nth_Cons split: nat.splits)
  qed auto
qed

lemma buf_name_ok:
  assumes "buf_ok len buf"
  shows "name_ok (rt_strncpy (buf[len := 0]) 16)"
proof -
  have "set (buf[len := 0]) \<subseteq> insert 0 (set buf)" by (rule set_update_subset_insert)
  then have "10 \<notin> set (buf[len := 0])" "13 \<notin> set (buf[len := 0])" using assms by (auto simp: buf_ok_def)
  moreover have "buf[len := 0] ! 15 = 0" "length (buf[len := 0]) = 16"
    using assms by (auto simp: buf_ok_def nth_list_update)
  ultimately show ?thesis
    using strncpy_props(1,2)[of "buf[len := 0]" 16] strncpy_props(3)[of 15 16 "buf[len := 0]"]
    by (auto simp: name_ok_def)
qed

lemma buf_ok_step:
  assumes "buf_ok len buf" "len < 15" "ch \<noteq> 10" "ch \<noteq> 13"
  shows "buf_ok (len + 1) (buf[len := ch])"
proof -
  have "set (buf[len := ch]) \<subseteq> insert ch (set buf)" by (rule set_update_subset_insert)
  then show ?thesis using assms by (auto simp: buf_ok_def nth_list_update)
qed

lemma set_name_game:
  "game_ok (set_name who nm g) = game_ok g" "game_abs (set_name who nm g) = game_abs g"
proof -
  have "check_win (set_name who nm g) = check_win g"
    by (rule check_win_cong) (simp_all add: set_name_def split: player_id.split)
  then show "game_ok (set_name who nm g) = game_ok g"
    by (cases who) (simp_all add: game_ok_def set_name_def)
  show "game_abs (set_name who nm g) = game_abs g"
    by (rule game_abs_cong) (simp_all add: set_name_def split: player_id.split)
qed

text \<open>The threads' places, which a subroutine leaves alone.\<close>

definition same_pcs :: "ox \<Rightarrow> ox \<Rightarrow> bool" where
  "same_pcs s s1 \<longleftrightarrow> ox_main s1 = ox_main s \<and> ox_key s1 = ox_key s \<and> ox_lcd s1 = ox_lcd s \<and> ox_cmd s1 = ox_cmd s"

lemma name_done_ok:
  assumes "core_ok s" "buf_ok len buf" "name_done who len buf s = (r1, s1)"
  shows "core_ok s1" "reset_ok r1" "reset_holds r1 = 1" "game_abs (ox_game s1) = game_abs (ox_game s)"
    "same_pcs s s1" "ox_owner s1 = ox_owner s" "ox_hold s1 = ox_hold s"
  using assms buf_name_ok[OF assms(2)]
  by (auto simp: name_done_def core_ok_def same_pcs_def set_name_game split: player_id.splits)
     (simp_all add: set_name_def)

text \<open>What a step keeps of the rules of the game: it makes a move, starts anew, or changes nothing.\<close>

definition by_rules :: "ox \<Rightarrow> ox \<Rightarrow> bool" where
  "by_rules s s1 \<longleftrightarrow> game_abs (ox_game s1) = game_abs (ox_game s) \<or> ttt_step (game_abs (ox_game s)) (game_abs (ox_game s1))"

lemma by_rules_same: "ox_game s1 = ox_game s \<Longrightarrow> by_rules s s1" by (simp add: by_rules_def)

lemma input_round_ok:
  assumes "core_ok s" "buf_ok len buf"
  shows "input_round who len buf s \<noteq> Faults"
    and "input_round who len buf s = Next (r1, s1) \<Longrightarrow> core_ok s1 \<and> reset_ok r1 \<and> reset_holds r1 = 1 \<and>
      same_pcs s s1 \<and> by_rules s s1 \<and> ox_owner s1 = ox_owner s \<and> ox_hold s1 = ox_hold s"
proof -
  obtain c rb where g: "rt_ringbuffer_getchar (ox_rb s) = (c, rb)" by fastforce
  then have wf: "rb_wf rb" using assms(1) getchar_wf[of "ox_rb s"] by (simp add: core_ok_def)
  have core: "core_ok (s\<lparr>ox_rb := rb\<rparr>)" using assms(1) wf by (simp add: core_ok_def)
  have len: "length buf = 16" using assms(2) by (simp add: buf_ok_def)
  show "input_round who len buf s \<noteq> Faults"
    using len by (auto simp: input_round_def Let_def split: prod.splits option.splits)
  assume r: "input_round who len buf s = Next (r1, s1)"
  have fin: "core_ok s1 \<and> reset_ok r1 \<and> reset_holds r1 = 1 \<and> same_pcs s s1 \<and> by_rules s s1 \<and>
      ox_owner s1 = ox_owner s \<and> ox_hold s1 = ox_hold s"
    if d: "name_done who len buf s0 = (r1, s1)" "s0 = s \<or> s0 = s\<lparr>ox_rb := rb\<rparr>" for s0
  proof -
    have c0: "core_ok s0" using d(2) assms(1) core by auto
    note n = name_done_ok[OF c0 assms(2) d(1)]
    show ?thesis using n d(2) by (auto simp: same_pcs_def by_rules_def)
  qed
  show "core_ok s1 \<and> reset_ok r1 \<and> reset_holds r1 = 1 \<and> same_pcs s s1 \<and> by_rules s s1 \<and>
      ox_owner s1 = ox_owner s \<and> ox_hold s1 = ox_hold s"
  proof (cases "len < 15")
    case False
    then have "name_done who len buf s = (r1, s1)" using r by (simp add: input_round_def)
    then show ?thesis by (rule fin) simp
  next
    case True
    show ?thesis
    proof (cases c)
      case None
      then show ?thesis using r True g assms by (auto simp: input_round_def same_pcs_def by_rules_def)
    next
      case (Some ch)
      show ?thesis
      proof (cases "(ch = 13 \<or> ch = 10) \<and> len > 0")
        case True': True
        then have "name_done who len buf (s\<lparr>ox_rb := rb\<rparr>) = (r1, s1)"
          using r True g Some by (simp add: input_round_def split: if_splits)
        then show ?thesis by (rule fin) simp
      next
        case False
        then show ?thesis
          using r True g Some assms core len buf_ok_step[OF assms(2) True, of ch]
          by (auto simp: input_round_def Let_def same_pcs_def by_rules_def split: if_splits)
      qed
    qed
  qed
qed

lemma reset_step_ok:
  assumes "core_ok s" "reset_ok r" "lock_ok (ox_owner s) (ox_hold s) h" "h t = n + reset_holds r" "r \<noteq> R_end"
  shows "reset_step t ty r s \<noteq> Faults"
    and "reset_step t ty r s = Next (r1, s1) \<Longrightarrow> core_ok s1 \<and> reset_ok r1 \<and> same_pcs s s1 \<and> by_rules s s1 \<and>
      lock_ok (ox_owner s1) (ox_hold s1) (h(t := n + reset_holds r1))"
proof -
  have zero: "name_ok (replicate 16 0)" "buf_ok 0 (replicate 16 0)" by (auto simp: name_ok_def buf_ok_def)
  show "reset_step t ty r s \<noteq> Faults"
    using assms(1,2) input_round_ok(1) by (cases r) auto
  assume st: "reset_step t ty r s = Next (r1, s1)"
  have keep: "lock_ok (ox_owner s) (ox_hold s) (h(t := n + reset_holds r))" using assms(3,4) by (metis fun_upd_triv)
  show "core_ok s1 \<and> reset_ok r1 \<and> same_pcs s s1 \<and> by_rules s s1 \<and>
      lock_ok (ox_owner s1) (ox_hold s1) (h(t := n + reset_holds r1))"
  proof (cases r)
    case R_take
    then have k: "lcd_take t s = Next s1" "r1 = R_fields" using st by auto
    show ?thesis using lock_take[OF assms(3) k(1)] take_frame[OF k(1)] assms(1,4) k(2) R_take
      by (simp add: core_ok_def same_pcs_def by_rules_def)
  next
    case R_fields
    have "name_ok (pl_name (gm_player_x (reset_fields ty (ox_game s))))"
      "name_ok (pl_name (gm_player_o (reset_fields ty (ox_game s))))"
      using assms(1) zero by (simp_all add: reset_fields_def Let_def core_ok_def)
    moreover have "ttt_step (game_abs (ox_game s)) (game_abs (reset_fields ty (ox_game s)))"
      by (simp add: reset_abs_start ttt_step.restart)
    ultimately show ?thesis using st R_fields assms(1) keep
      by (auto simp: core_ok_def same_pcs_def by_rules_def reset_fields_ok)
  next
    case (R_begin who)
    then show ?thesis using st assms(1) keep zero(2) rbq.invar_reset
      by (auto simp: core_ok_def same_pcs_def by_rules_def)
  next
    case (R_input who len buf)
    then show ?thesis using st assms(1,2) keep input_round_ok(2)[OF assms(1), of len buf who r1 s1] by simp
  next
    case (R_wait who len buf)
    then have k: "uart_take s = Next s1" "r1 = R_input who len buf" using st by auto
    show ?thesis using uart_take_frame[OF k(1)] k(2) assms(1,2) keep R_wait
      by (simp add: core_ok_def same_pcs_def by_rules_def)
  next
    case R_show
    then show ?thesis using st assms(1) keep by (auto simp: core_ok_def same_pcs_def by_rules_def)
  next
    case R_delay
    then show ?thesis using st assms(1) keep by (auto simp: same_pcs_def by_rules_def)
  next
    case R_release
    then have k: "s1 = lcd_release t s" "r1 = R_end" using st by auto
    have "h t = n + 1" using assms(4) R_release by simp
    then show ?thesis using lock_release[OF assms(3), of t] assms(1)
      by (simp add: k core_ok_def same_pcs_def by_rules_def)
  qed (use assms(5) in auto)
qed

lemma all_threads: "(\<forall>t. P t) \<longleftrightarrow> P Main_thread \<and> P Key_thread \<and> P Lcd_thread \<and> P Cmd_thread"
  by (metis ox_thread.exhaust)

text \<open>The invariant after a step of one thread: what is left to show of the state and of the mutex.\<close>

lemma lock_keep: "lock_ok ow n h \<Longrightarrow> h t = v \<Longrightarrow> lock_ok ow n (h(t := v))"
  by (metis fun_upd_triv)

lemma main_inv:
  assumes "ox_inv s" "core_ok s'" "ox_key s' = ox_key s" "ox_lcd s' = ox_lcd s" "ox_cmd s' = ox_cmd s"
    "\<And>r. ox_main s' = M_reset r \<Longrightarrow> reset_ok r"
    "lock_ok (ox_owner s') (ox_hold s') ((holds s)(Main_thread := main_holds (ox_main s')))"
  shows "ox_inv s'"
proof -
  have "holds s' = (holds s)(Main_thread := main_holds (ox_main s'))"
    using assms(3-5) by (simp add: fun_eq_iff all_threads)
  then show ?thesis using assms by (simp add: ox_inv_def pcs_ok_def)
qed

lemma key_inv:
  assumes "ox_inv s" "core_ok s'" "ox_main s' = ox_main s" "ox_lcd s' = ox_lcd s" "ox_cmd s' = ox_cmd s"
    "lock_ok (ox_owner s') (ox_hold s') ((holds s)(Key_thread := key_holds (ox_key s')))"
  shows "ox_inv s'"
proof -
  have "holds s' = (holds s)(Key_thread := key_holds (ox_key s'))"
    using assms(3-5) by (simp add: fun_eq_iff all_threads)
  then show ?thesis using assms by (simp add: ox_inv_def pcs_ok_def)
qed

lemma lcd_inv:
  assumes "ox_inv s" "core_ok s'" "ox_main s' = ox_main s" "ox_key s' = ox_key s" "ox_cmd s' = ox_cmd s"
    "\<And>r. ox_lcd s' = L_reset r \<Longrightarrow> reset_ok r"
    "lock_ok (ox_owner s') (ox_hold s') ((holds s)(Lcd_thread := lcd_holds (ox_lcd s')))"
  shows "ox_inv s'"
proof -
  have "holds s' = (holds s)(Lcd_thread := lcd_holds (ox_lcd s'))"
    using assms(3-5) by (simp add: fun_eq_iff all_threads)
  then show ?thesis using assms by (simp add: ox_inv_def pcs_ok_def)
qed

lemma cmd_inv:
  assumes "ox_inv s" "core_ok s'" "ox_main s' = ox_main s" "ox_key s' = ox_key s" "ox_lcd s' = ox_lcd s"
    "\<And>ty r. ox_cmd s' = C_reset ty r \<Longrightarrow> reset_ok r"
    "lock_ok (ox_owner s') (ox_hold s') ((holds s)(Cmd_thread := cmd_holds (ox_cmd s')))"
  shows "ox_inv s'"
proof -
  have "holds s' = (holds s)(Cmd_thread := cmd_holds (ox_cmd s'))"
    using assms(3-5) by (simp add: fun_eq_iff all_threads)
  then show ?thesis using assms by (simp add: ox_inv_def pcs_ok_def)
qed

text \<open>The part of the state outside the places and the mutex.\<close>

lemma core_ok_cong:
  "core_ok s \<Longrightarrow> ox_game s' = ox_game s \<Longrightarrow> ox_rb s' = ox_rb s \<Longrightarrow> ox_gpio s' = ox_gpio s \<Longrightarrow> core_ok s'"
  by (simp add: core_ok_def)

section \<open>Every step keeps the invariant\<close>

text \<open>The steps inside \<^verbatim>\<open>reset_game\<close>, for the three threads that call it.\<close>

lemma reset_calls:
  "r \<noteq> R_end \<Longrightarrow> main_step (M_reset r) s =
     map_outcome (\<lambda>(r1, s1). s1\<lparr>ox_main := M_reset r1\<rparr>) (reset_step Main_thread RESET_FULL r s)"
  "r \<noteq> R_end \<Longrightarrow> lcd_step (L_reset r) s =
     map_outcome (\<lambda>(r1, s1). s1\<lparr>ox_lcd := L_reset r1\<rparr>) (reset_step Lcd_thread RESET_CURRENT r s)"
  "r \<noteq> R_end \<Longrightarrow> cmd_step (C_reset ty r) s =
     map_outcome (\<lambda>(r1, s1). s1\<lparr>ox_cmd := C_reset ty r1\<rparr>) (reset_step Cmd_thread ty r s)"
  by (cases r; simp)+

lemma main_step_ok:
  assumes "ox_inv s"
  shows "main_step (ox_main s) s \<noteq> Faults \<and> (main_step (ox_main s) s = Next s' \<longrightarrow> ox_inv s' \<and> by_rules s s')"
proof -
  have lk: "core_ok s" "lock_ok (ox_owner s) (ox_hold s) (holds s)" using assms by (auto simp: ox_inv_def)
  show ?thesis
  proof (cases "ox_main s")
    case (M_reset r)
    then have ro: "reset_ok r" "holds s Main_thread = 0 + reset_holds r" using assms by (auto simp: ox_inv_def pcs_ok_def)
    show ?thesis
    proof (cases "r = R_end")
      case True
      have "ox_inv (s\<lparr>ox_main := M_done\<rparr>)"
        by (rule main_inv[OF assms]) (use True ro lk in \<open>auto simp: core_ok_def intro: lock_keep\<close>)
      then show ?thesis using True M_reset by (auto simp: by_rules_def)
    next
      case False
      have ms: "main_step (ox_main s) s = map_outcome (\<lambda>(r1, s1). s1\<lparr>ox_main := M_reset r1\<rparr>) (reset_step Main_thread RESET_FULL r s)"
        using False by (simp add: M_reset reset_calls)
      have "ox_inv (s1\<lparr>ox_main := M_reset r1\<rparr>) \<and> by_rules s (s1\<lparr>ox_main := M_reset r1\<rparr>)"
        if "reset_step Main_thread RESET_FULL r s = Next (r1, s1)" for r1 s1
        using reset_step_ok(2)[OF lk(1) ro(1) lk(2) ro(2) False that]
        by (intro conjI main_inv[OF assms]) (auto simp: same_pcs_def core_ok_def by_rules_def)
      then show ?thesis using reset_step_ok(1)[OF lk(1) ro(1) lk(2) ro(2) False] unfolding ms by auto
    qed
  qed simp
qed

lemma irq_enable_modes:
  assumes "modes_ok gp"
  shows "\<exists>e gp'. rt_pin_irq_enable pin en gp = Some (e, gp') \<and> modes_ok gp'"
proof -
  have c: "irq_mode_conf (ih_mode (gp_hdr gp i)) \<noteq> None" for i
    using assms less3[of "ih_mode (gp_hdr gp i)"] by (auto simp: modes_ok_def irq_mode_conf_def)
  consider "PIN_STPORT_MAX \<le> PIN_PORT pin \<or> en \<noteq> 0 \<and> en \<noteq> 1" | "PIN_PORT pin < PIN_STPORT_MAX" "en = 1"
    | "PIN_PORT pin < PIN_STPORT_MAX" "en = 0" by linarith
  then show ?thesis
  proof cases
    case 1
    then show ?thesis using assms by (auto simp: rt_pin_irq_enable_def stm32_pin_irq_enable_def)
  next
    case 2
    then show ?thesis using assms c[of "PIN_NO pin"] enable_eq[OF 2(1), of gp]
      by (auto simp: rt_pin_irq_enable_def modes_ok_def simp del: One_nat_def)
  next
    case 3
    then show ?thesis using assms disable_eq[OF 3(1), of gp] by (auto simp: rt_pin_irq_enable_def modes_ok_def)
  qed
qed

lemma key_step_ok:
  assumes "ox_inv s"
  shows "key_step (ox_key s) s \<noteq> Faults \<and> (key_step (ox_key s) s = Next s' \<longrightarrow> ox_inv s' \<and> by_rules s s')"
proof -
  have lk: "core_ok s" "lock_ok (ox_owner s) (ox_hold s) (holds s)" using assms by (auto simp: ox_inv_def)
  show ?thesis
  proof (cases "ox_key s")
    case K_sem
    then show ?thesis using lk by (auto intro!: key_inv[OF assms] lock_keep simp: core_ok_def by_rules_def)
  next
    case K_delay
    then show ?thesis using lk by (auto intro!: key_inv[OF assms] lock_keep simp: core_ok_def by_rules_def)
  next
    case K_take
    have "ox_inv (s1\<lparr>ox_key := K_work\<rparr>) \<and> by_rules s (s1\<lparr>ox_key := K_work\<rparr>)" if t: "lcd_take Key_thread s = Next s1" for s1
      using lock_take[OF lk(2) t] take_frame[OF t] K_take lk(1)
      by (auto intro!: key_inv[OF assms] simp: core_ok_def by_rules_def)
    then show ?thesis using K_take by auto
  next
    case K_work
    have ok: "game_ok (ox_game s)" using lk(1) by (simp add: core_ok_def)
    obtain g' where g: "key_action (active_pin (ox_gpio s)) (ox_game s) = Some g'" "game_ok g'"
      "gm_player_x g' = gm_player_x (ox_game s)" "gm_player_o g' = gm_player_o (ox_game s)"
      "game_abs g' = game_abs (ox_game s) \<or> ttt_step (game_abs (ox_game s)) (game_abs g')"
      using action_ok[OF ok] by blast
    then show ?thesis using K_work lk
      by (auto intro!: key_inv[OF assms] lock_keep simp: core_ok_def by_rules_def)
  next
    case (K_release pin)
    then show ?thesis using lk lock_release[OF lk(2), of Key_thread]
      by (auto intro!: key_inv[OF assms] simp: core_ok_def by_rules_def)
  next
    case (K_irq pin)
    obtain e gp where "rt_pin_irq_enable pin 1 (ox_gpio s) = Some (e, gp)" "modes_ok gp"
      using irq_enable_modes lk(1) by (metis core_ok_def)
    then show ?thesis using K_irq lk by (auto intro!: key_inv[OF assms] lock_keep simp: core_ok_def by_rules_def)
  qed
qed

lemma draw_board_ok: "game_ok g \<Longrightarrow> ox_game_draw_board g \<noteq> None"
proof -
  have u: "v = 0 \<or> v = 1 \<or> v = 2 \<Longrightarrow> unat v < 3" for v :: u8 by auto
  assume "game_ok g"
  then have "list_all (list_all (\<lambda>v. unat v < 3)) (gm_board g)"
    using u by (simp add: game_ok_def board_ok_def list_all_iff)
  then show ?thesis by (simp add: ox_game_draw_board_def color_table_def numeral_3_eq_3)
qed

lemma drawn_ok:
  "game_ok (g\<lparr>gm_state_changed := b\<rparr>) = game_ok g" "game_abs (g\<lparr>gm_state_changed := b\<rparr>) = game_abs g"
proof -
  have "check_win (g\<lparr>gm_state_changed := b\<rparr>) = check_win g" by (rule check_win_cong) simp_all
  then show "game_ok (g\<lparr>gm_state_changed := b\<rparr>) = game_ok g" by (simp add: game_ok_def)
  show "game_abs (g\<lparr>gm_state_changed := b\<rparr>) = game_abs g" by (rule game_abs_cong) simp_all
qed

lemma lcd_step_ok:
  assumes "ox_inv s"
  shows "lcd_step (ox_lcd s) s \<noteq> Faults \<and> (lcd_step (ox_lcd s) s = Next s' \<longrightarrow> ox_inv s' \<and> by_rules s s')"
proof -
  have lk: "core_ok s" "lock_ok (ox_owner s) (ox_hold s) (holds s)" using assms by (auto simp: ox_inv_def)
  have take: "ox_inv (s1\<lparr>ox_lcd := l\<rparr>) \<and> by_rules s (s1\<lparr>ox_lcd := l\<rparr>)"
    if t: "lcd_take Lcd_thread s = Next s1" and l: "lcd_holds (ox_lcd s) = 0" "lcd_holds l = 1" "\<And>r. l \<noteq> L_reset r" for s1 l
    using lock_take[OF lk(2) t] take_frame[OF t] l lk(1)
    by (auto intro!: lcd_inv[OF assms] simp: core_ok_def by_rules_def)
  have release: "ox_inv ((lcd_release Lcd_thread s)\<lparr>ox_lcd := l\<rparr>) \<and> by_rules s ((lcd_release Lcd_thread s)\<lparr>ox_lcd := l\<rparr>)"
    if l: "lcd_holds (ox_lcd s) = 1" "lcd_holds l = 0" "\<And>r. l \<noteq> L_reset r" for l
    using lk lock_release[OF lk(2), of Lcd_thread] l
    by (auto intro!: lcd_inv[OF assms] simp: core_ok_def by_rules_def)
  show ?thesis
  proof (cases "ox_lcd s")
    case L_draw
    have "ox_game_draw_board (ox_game s) \<noteq> None" using lk(1) draw_board_ok by (simp add: core_ok_def)
    then show ?thesis using L_draw lk
      by (auto intro!: lcd_inv[OF assms] lock_keep simp: core_ok_def by_rules_def drawn_ok)
  next
    case (L_reset r)
    then have ro: "reset_ok r" "holds s Lcd_thread = 0 + reset_holds r" using assms by (auto simp: ox_inv_def pcs_ok_def)
    show ?thesis
    proof (cases "r = R_end")
      case True
      then show ?thesis using L_reset lk by (auto intro!: lcd_inv[OF assms] lock_keep simp: core_ok_def by_rules_def)
    next
      case False
      have ms: "lcd_step (ox_lcd s) s = map_outcome (\<lambda>(r1, s1). s1\<lparr>ox_lcd := L_reset r1\<rparr>) (reset_step Lcd_thread RESET_CURRENT r s)"
        using False by (simp add: L_reset reset_calls)
      have "ox_inv (s1\<lparr>ox_lcd := L_reset r1\<rparr>) \<and> by_rules s (s1\<lparr>ox_lcd := L_reset r1\<rparr>)"
        if "reset_step Lcd_thread RESET_CURRENT r s = Next (r1, s1)" for r1 s1
        using reset_step_ok(2)[OF lk(1) ro(1) lk(2) ro(2) False that]
        by (intro conjI lcd_inv[OF assms]) (auto simp: same_pcs_def core_ok_def by_rules_def)
      then show ?thesis using reset_step_ok(1)[OF lk(1) ro(1) lk(2) ro(2) False] unfolding ms by auto
    qed
  next
    case L_take
    then show ?thesis using take by auto
  next
    case L_retake
    then show ?thesis using take by auto
  next
    case L_unlock
    then show ?thesis using release by auto
  next
    case L_release
    then show ?thesis using release by auto
  qed (use lk in \<open>auto intro!: lcd_inv[OF assms] lock_keep simp: core_ok_def by_rules_def\<close>)
qed

lemma cmd_step_ok:
  assumes "ox_inv s"
  shows "cmd_step (ox_cmd s) s \<noteq> Faults \<and> (cmd_step (ox_cmd s) s = Next s' \<longrightarrow> ox_inv s' \<and> by_rules s s')"
proof -
  have lk: "core_ok s" "lock_ok (ox_owner s) (ox_hold s) (holds s)" using assms by (auto simp: ox_inv_def)
  show ?thesis
  proof (cases "ox_cmd s")
    case C_sem
    have "ox_inv (s1\<lparr>ox_cmd := C_get\<rparr>) \<and> by_rules s (s1\<lparr>ox_cmd := C_get\<rparr>)" if t: "uart_take s = Next s1" for s1
      using uart_take_frame[OF t] C_sem lk by (auto intro!: cmd_inv[OF assms] lock_keep simp: core_ok_def by_rules_def)
    then show ?thesis using C_sem by auto
  next
    case C_get
    obtain c rb where g: "rt_ringbuffer_getchar (ox_rb s) = (c, rb)" by fastforce
    then have "rb_wf rb" using lk(1) getchar_wf[of "ox_rb s"] by (simp add: core_ok_def)
    then show ?thesis using C_get lk g
      by (cases c) (auto intro!: cmd_inv[OF assms] lock_keep simp: core_ok_def by_rules_def)
  next
    case (C_take cmd)
    have "ox_inv (s1\<lparr>ox_cmd := C_exec cmd\<rparr>) \<and> by_rules s (s1\<lparr>ox_cmd := C_exec cmd\<rparr>)"
      if t: "lcd_take Cmd_thread s = Next s1" for s1
      using lock_take[OF lk(2) t] take_frame[OF t] C_take lk(1)
      by (auto intro!: cmd_inv[OF assms] simp: core_ok_def by_rules_def)
    then show ?thesis using C_take by auto
  next
    case (C_exec cmd)
    have ok: "game_ok (ox_game s)" using lk(1) by (simp add: core_ok_def)
    obtain g' where g: "cmd_action cmd (ox_game s) = Some g'" "game_ok g'"
      "gm_player_x g' = gm_player_x (ox_game s)" "gm_player_o g' = gm_player_o (ox_game s)"
      "game_abs g' = game_abs (ox_game s) \<or> ttt_step (game_abs (ox_game s)) (game_abs g')"
      using action_ok[OF ok] by blast
    then show ?thesis using C_exec lk
      by (auto intro!: cmd_inv[OF assms] lock_keep simp: core_ok_def by_rules_def)
  next
    case (C_reset ty r)
    then have ro: "reset_ok r" "holds s Cmd_thread = 1 + reset_holds r" using assms by (auto simp: ox_inv_def pcs_ok_def)
    show ?thesis
    proof (cases "r = R_end")
      case True
      then show ?thesis using C_reset lk by (auto intro!: cmd_inv[OF assms] lock_keep simp: core_ok_def by_rules_def)
    next
      case False
      have ms: "cmd_step (ox_cmd s) s = map_outcome (\<lambda>(r1, s1). s1\<lparr>ox_cmd := C_reset ty r1\<rparr>) (reset_step Cmd_thread ty r s)"
        using False by (simp add: C_reset reset_calls)
      have "ox_inv (s1\<lparr>ox_cmd := C_reset ty r1\<rparr>) \<and> by_rules s (s1\<lparr>ox_cmd := C_reset ty r1\<rparr>)"
        if "reset_step Cmd_thread ty r s = Next (r1, s1)" for r1 s1
        using reset_step_ok(2)[OF lk(1) ro(1) lk(2) ro(2) False that]
        by (intro conjI cmd_inv[OF assms]) (auto simp: same_pcs_def core_ok_def by_rules_def)
      then show ?thesis using reset_step_ok(1)[OF lk(1) ro(1) lk(2) ro(2) False] unfolding ms by auto
    qed
  next
    case C_release
    then show ?thesis using lk lock_release[OF lk(2), of Cmd_thread]
      by (auto intro!: cmd_inv[OF assms] simp: core_ok_def by_rules_def)
  qed (use lk in \<open>auto intro!: cmd_inv[OF assms] lock_keep simp: core_ok_def by_rules_def\<close>)
qed

lemma thread_step_ok:
  assumes "ox_inv s"
  shows "thread_step t s \<noteq> Faults \<and> (thread_step t s = Next s' \<longrightarrow> ox_inv s' \<and> by_rules s s')"
  using main_step_ok[OF assms] key_step_ok[OF assms] lcd_step_ok[OF assms] cmd_step_ok[OF assms]
  by (simp add: thread_step_def split: ox_thread.split)

lemma event_inv:
  assumes "ox_inv s" "core_ok s'" "same_pcs s s'" "ox_owner s' = ox_owner s" "ox_hold s' = ox_hold s"
  shows "ox_inv s'"
proof -
  have "holds s' = holds s" using assms(3) by (simp add: fun_eq_iff all_threads same_pcs_def)
  then show ?thesis using assms by (simp add: ox_inv_def pcs_ok_def same_pcs_def)
qed

lemma ox_step_ok:
  assumes "ox_inv s" "ox_step s s'"
  shows "ox_inv s' \<and> by_rules s s'"
  using assms(2,1)
proof cases
  case (thread t)
  then show ?thesis using thread_step_ok[OF assms(1)] by blast
next
  case (rx received)
  have "core_ok s" using assms(1) by (simp add: ox_inv_def)
  then have "core_ok s'" using rx rbq.invar_fill by (auto simp: uart_rx_ind_def core_ok_def)
  then show ?thesis using assms(1) rx by (auto intro!: event_inv[OF assms(1)] simp: uart_rx_ind_def same_pcs_def by_rules_def)
next
  case (button pin line pending)
  have c: "core_ok s" using assms(1) by (simp add: ox_inv_def)
  then obtain e gp where e: "rt_pin_irq_enable pin 0 (ox_gpio s) = Some (e, gp)" "modes_ok gp"
    using irq_enable_modes by (metis core_ok_def)
  then have "s' = s\<lparr>ox_gpio := gp, ox_key_sem := sem_give (ox_key_sem s)\<rparr>" using button by (simp add: button_isr_def)
  then show ?thesis using c e(2) by (auto intro!: event_inv[OF assms(1)] simp: core_ok_def same_pcs_def by_rules_def)
next
  case (levels lv)
  have "core_ok s'" using assms(1) levels by (simp add: ox_inv_def core_ok_def modes_ok_def)
  then show ?thesis using levels by (auto intro!: event_inv[OF assms(1)] simp: same_pcs_def by_rules_def)
qed

section \<open>Reachable states\<close>

lemma pin_mode_hdr: "rt_pin_mode pin m gp = Some gp' \<Longrightarrow> gp_hdr gp' = gp_hdr gp"
  by (auto simp: rt_pin_mode_def stm32_pin_mode_def Let_def split: if_splits)

lemma attach_modes:
  "modes_ok gp \<Longrightarrow> mode < 3 \<Longrightarrow> modes_ok (snd (rt_pin_attach_irq pin mode hdr args gp))"
  by (auto simp: modes_ok_def rt_pin_attach_irq_def stm32_pin_attach_irq_def Let_def)

lemma button_attach_modes:
  assumes "modes_ok gp" "irq_mode < 3" "button_attach pin mode irq_mode gp = Some gp'"
  shows "modes_ok gp'"
proof -
  obtain g1 where g1: "rt_pin_mode pin mode gp = Some g1" using assms(3) by (auto simp: button_attach_def split: option.splits)
  have "modes_ok g1" using assms(1) pin_mode_hdr[OF g1] by (simp add: modes_ok_def)
  then have "modes_ok (snd (rt_pin_attach_irq pin irq_mode (Some 1) pin g1))" using assms(2) attach_modes by blast
  then obtain e g2 where "rt_pin_irq_enable pin 1 (snd (rt_pin_attach_irq pin irq_mode (Some 1) pin g1)) = Some (e, g2)" "modes_ok g2"
    using irq_enable_modes by blast
  then show ?thesis using assms(3) g1 by (simp add: button_attach_def)
qed

lemma button_init_modes: "modes_ok gp \<Longrightarrow> button_init gp = Some gp' \<Longrightarrow> modes_ok gp'"
  by (auto simp: button_init_def bind_eq_Some_conv elim!: button_attach_modes[rotated 2] intro: button_attach_modes[rotated 1])

lemma game_init_inv:
  assumes "ox_game_init uart_found pool_mem lcd_found gpio0 = Some s" "\<And>n p. pool_mem n = Some p \<Longrightarrow> length p = n"
  shows "ox_inv s"
proof -
  obtain rb gp where s: "rt_ringbuffer_create True pool_mem 16 = Some (Some rb)" "button_init gpio0 = Some gp"
    "s = \<lparr>ox_game = game0, ox_rb = rb, ox_gpio = gp, ox_screen = [LCD_Clear WHITE],
       ox_key_sem = 0, ox_uart_sem = 0, ox_owner = None, ox_hold = 0, ox_main = M_reset R_take,
       ox_key = K_sem, ox_lcd = L_take, ox_cmd = C_sem\<rparr>"
    using assms(1) by (auto simp: ox_game_init_def split: option.splits if_splits)
  have u: "unat (RT_ALIGN_DOWN (of_nat 16) 8) = 16" by (simp add: RT_ALIGN_DOWN_def)
  obtain pool where pool: "pool_mem 16 = Some pool"
    using s(1) u by (auto simp: rt_ringbuffer_create_def Let_def split: option.splits)
  have "rb_wf rb" using create_wf[of 16 pool_mem pool] s(1) pool assms(2)[OF pool] u by auto
  moreover have "modes_ok gp" using button_init_modes[OF _ s(2)] by (simp add: modes_ok_def gpio0_def no_entry_def)
  moreover have "name_ok (replicate 16 0)" by (simp add: name_ok_def)
  ultimately show ?thesis
    by (auto simp: s(3) ox_inv_def core_ok_def pcs_ok_def game0_ok lock_ok_def all_threads)
      (simp_all add: game0_def player0_def)
qed

lemma ox_reach_inv: "ox_reach s \<Longrightarrow> ox_inv s"
  by (induction rule: ox_reach.induct) (auto intro: game_init_inv simp: ox_step_ok)

text \<open>Only a thread that holds the mutex changes the game.\<close>

lemma reset_step_game:
  assumes "reset_step t ty r s = Next (r1, s1)" "ox_game s1 \<noteq> ox_game s"
  shows "reset_holds r = 1"
  using assms take_frame(1) uart_take_frame(1) by (cases r) (auto split: if_splits)

lemma thread_step_game:
  assumes "ox_inv s" "thread_step t s = Next s'" "ox_game s' \<noteq> ox_game s"
  shows "ox_owner s = Some t"
proof -
  have h: "holds s t > 0"
  proof (cases t)
    case Main_thread
    then have st: "main_step (ox_main s) s = Next s'" using assms(2) by (simp add: thread_step_def)
    show ?thesis
    proof (cases "ox_main s")
      case (M_reset r)
      then show ?thesis using st assms(3) Main_thread reset_step_game[of Main_thread RESET_FULL r s]
        by (cases "r = R_end") (auto simp: reset_calls)
    qed (use st in auto)
  next
    case Key_thread
    then show ?thesis using assms(2,3) take_frame(1)
      by (cases "ox_key s") (auto simp: thread_step_def split: if_splits option.splits)
  next
    case Lcd_thread
    then have st: "lcd_step (ox_lcd s) s = Next s'" using assms(2) by (simp add: thread_step_def split: if_splits)
    show ?thesis
    proof (cases "ox_lcd s")
      case (L_reset r)
      then show ?thesis using st assms(3) Lcd_thread reset_step_game[of Lcd_thread RESET_CURRENT r s]
        by (cases "r = R_end") (auto simp: reset_calls)
    qed (use st assms(3) Lcd_thread take_frame(1) in \<open>auto split: if_splits\<close>)
  next
    case Cmd_thread
    then have st: "cmd_step (ox_cmd s) s = Next s'" using assms(2) by (simp add: thread_step_def split: if_splits)
    show ?thesis
    proof (cases "ox_cmd s")
      case (C_reset ty r)
      then show ?thesis using Cmd_thread by simp
    qed (use st assms(3) Cmd_thread take_frame(1) uart_take_frame(1) in
      \<open>auto split: if_splits prod.splits option.splits\<close>)
  qed
  then show ?thesis using assms(1) by (auto simp: ox_inv_def lock_ok_def split: if_splits)
qed

section \<open>Typing a name\<close>

definition reset_run :: "ox_thread \<Rightarrow> ResetType \<Rightarrow> reset_pc \<times> ox \<Rightarrow> reset_pc \<times> ox \<Rightarrow> bool" where
  "reset_run t ty = (\<lambda>(r, s) (r1, s1). reset_step t ty r s = Next (r1, s1))\<^sup>*\<^sup>*"

lemma strncpy_zero: "0 \<notin> set cs \<Longrightarrow> length cs < n \<Longrightarrow> rt_strncpy (cs @ 0 # rest) n = cs @ replicate (n - length cs) 0"
proof (induction cs arbitrary: n)
  case Nil
  then show ?case by (cases n) simp_all
next
  case (Cons c cs)
  then obtain m where "n = Suc m" "length cs < m" by (cases n) auto
  then show ?case using Cons by simp
qed

lemma reset_run_step:
  "reset_step t ty r s = Next (r1, s1) \<Longrightarrow> reset_run t ty (r1, s1) x \<Longrightarrow> reset_run t ty (r, s) x"
  "reset_run t ty y (r, s) \<Longrightarrow> reset_step t ty r s = Next x \<Longrightarrow> reset_run t ty y x"
  unfolding reset_run_def
  by (auto intro: converse_rtranclp_into_rtranclp rtranclp.rtrancl_into_rtrancl)

text \<open>The characters of the queue go to the buffer one by one.\<close>

lemma input_chars:
  assumes "rb_wf (ox_rb s)" "rb_abs (ox_rb s) = cs @ rest" "length ds + length cs \<le> 15" "10 \<notin> set cs" "13 \<notin> set cs"
  shows "\<exists>s1. reset_run t ty (R_input who (length ds) (ds @ replicate (16 - length ds) 0), s)
      (R_input who (length (ds @ cs)) ((ds @ cs) @ replicate (16 - length (ds @ cs)) 0), s1) \<and>
    rb_wf (ox_rb s1) \<and> rb_abs (ox_rb s1) = rest \<and> ox_game s1 = ox_game s"
  using assms
proof (induction cs arbitrary: ds s)
  case Nil
  then show ?case by (auto simp: reset_run_def)
next
  case (Cons c cs)
  obtain rb where g: "rt_ringbuffer_getchar (ox_rb s) = (Some c, rb)" "rb_wf rb" "rb_abs rb = cs @ rest"
    using getchar_cons[OF Cons.prems(1), of c "cs @ rest"] Cons.prems(2) by (metis append_Cons prod.collapse)
  have n: "length ds < 15" using Cons.prems(3) by simp
  have buf: "(ds @ replicate (16 - length ds) 0)[length ds := c] = (ds @ [c]) @ replicate (16 - length (ds @ [c])) 0"
    using n by (simp add: list_update_append replicate_Suc[symmetric] Suc_diff_Suc del: replicate_Suc)
       (simp add: list_update_append Suc_diff_Suc[symmetric])
  have "reset_step t ty (R_input who (length ds) (ds @ replicate (16 - length ds) 0)) s =
      Next (R_input who (length (ds @ [c])) ((ds @ [c]) @ replicate (16 - length (ds @ [c])) 0), s\<lparr>ox_rb := rb\<rparr>)"
    using g(1) n Cons.prems(4,5) by (simp add: input_round_def buf[simplified])
  moreover obtain s1 where
    "reset_run t ty (R_input who (length (ds @ [c])) ((ds @ [c]) @ replicate (16 - length (ds @ [c])) 0), s\<lparr>ox_rb := rb\<rparr>)
       (R_input who (length (ds @ c # cs)) ((ds @ c # cs) @ replicate (16 - length (ds @ c # cs)) 0), s1)"
    "rb_wf (ox_rb s1)" "rb_abs (ox_rb s1) = rest" "ox_game s1 = ox_game s"
    using Cons.IH[of "s\<lparr>ox_rb := rb\<rparr>" "ds @ [c]"] g Cons.prems(3-5) by auto
  ultimately show ?case using reset_run_step(1) by blast
qed

section \<open>A concrete start\<close>

definition ox_start :: ox where
  "ox_start = the (ox_game_init True (\<lambda>n. Some (replicate n 0)) True gpio0)"

lemma button_attach_some:
  assumes "modes_ok gp" "mode < 5" "irq_mode < 3"
  shows "\<exists>gp'. button_attach pin mode irq_mode gp = Some gp' \<and> modes_ok gp'"
proof -
  have "mode = 0 \<or> mode = 1 \<or> mode = 2 \<or> mode = 3 \<or> mode = 4" using assms(2) by auto
  then have "rt_pin_mode pin mode gp \<noteq> None" by (elim disjE) (simp_all add: rt_pin_mode_def stm32_pin_mode_def)
  then obtain g1 where g1: "rt_pin_mode pin mode gp = Some g1" by blast
  have "modes_ok (snd (rt_pin_attach_irq pin irq_mode (Some 1) pin g1))"
    using assms(1,3) pin_mode_hdr[OF g1] attach_modes by (simp add: modes_ok_def)
  from irq_enable_modes[OF this, of pin 1] have "\<exists>gp'. button_attach pin mode irq_mode gp = Some gp'"
    using g1 by (auto simp: button_attach_def)
  then show ?thesis using button_attach_modes[OF assms(1,3)] by blast
qed

lemma ox_start_init: "ox_game_init True (\<lambda>n. Some (replicate n 0)) True gpio0 = Some ox_start"
proof -
  have m0: "modes_ok gpio0" by (simp add: modes_ok_def gpio0_def no_entry_def)
  obtain g1 where g1: "button_attach BUTTON_LEFT 2 1 gpio0 = Some g1" "modes_ok g1"
    using button_attach_some[OF m0, of 2 1] by auto
  obtain g2 where g2: "button_attach BUTTON_RIGHT 2 1 g1 = Some g2" "modes_ok g2"
    using button_attach_some[OF g1(2), of 2 1] by auto
  obtain g3 where g3: "button_attach BUTTON_DOWN 2 1 g2 = Some g3" "modes_ok g3"
    using button_attach_some[OF g2(2), of 2 1] by auto
  obtain g4 where g4: "button_attach BUTTON_OK 3 0 g3 = Some g4"
    using button_attach_some[OF g3(2), of 3 0] by auto
  have "button_init gpio0 = Some g4" using g1 g2 g3 g4 by (simp add: button_init_def)
  moreover obtain rb where "rt_ringbuffer_create True (\<lambda>n. Some (replicate n 0)) 16 = Some (Some rb)"
    using create_wf[of 16 "\<lambda>n. Some (replicate n 0)" "replicate 16 0"] by auto
  ultimately show ?thesis by (simp add: ox_start_def ox_game_init_def)
qed

lemma ox_start_reach: "ox_reach ox_start"
  by (rule ox_reach.init[OF ox_start_init]) auto

section \<open>Properties\<close>

text \<open>
  C9. The threads of the game are safe in every interleaving: in no reachable state does a step of a
  thread access the board, the colour table or the name buffer out of range, or enable an interrupt
  with an uninitialised configuration; and only the thread that owns the mutex changes the game.
\<close>

theorem ox_threads_safe:
  assumes "ox_reach s"
  shows "thread_step t s \<noteq> Faults \<and>
    (\<forall>s'. thread_step t s = Next s' \<and> ox_game s' \<noteq> ox_game s \<longrightarrow> ox_owner s = Some t)"
  using thread_step_ok[OF ox_reach_inv[OF assms]] thread_step_game[OF ox_reach_inv[OF assms]] by blast

theorem ox_threads_safe_witness: "thread_step Main_thread ox_start \<noteq> Faults"
  using ox_threads_safe[OF ox_start_reach] by blast

text \<open>
  C8. The program plays noughts and crosses: whatever the buttons, the serial line and the scheduler
  do, each step either leaves the board and the turn alone, or is one move of the player whose turn
  it is on a free place of a game nobody has won yet, or starts a new game; and the state the game
  object reports is the result by the rules of the marks on the board.
\<close>

theorem ox_plays_by_the_rules:
  assumes "ox_reach s" and "ox_step s s'"
  shows "(game_abs (ox_game s') = game_abs (ox_game s) \<or> ttt_step (game_abs (ox_game s)) (game_abs (ox_game s'))) \<and>
    gm_state (ox_game s') = ttt_result (fst (game_abs (ox_game s')))"
  using ox_step_ok[OF ox_reach_inv[OF assms(1)] assms(2)]
  by (auto simp: by_rules_def ox_inv_def core_ok_def game_result)

theorem ox_plays_by_the_rules_witness:
  "gm_state (ox_game (uart_rx_ind [65] ox_start)) = ttt_result (fst (game_abs (ox_game (uart_rx_ind [65] ox_start))))"
  using ox_plays_by_the_rules[OF ox_start_reach ox_step.rx] by blast

text \<open>
  C40. The names are always well formed: 16 bytes, terminated within them, without line ends, so at most
  15 characters are shown; and the cursor is always on the board.
\<close>

theorem ox_names_well_formed:
  assumes "ox_reach s" and "nm = pl_name (gm_player_x (ox_game s)) \<or> nm = pl_name (gm_player_o (ox_game s))"
  shows "length nm = 16 \<and> nm ! 15 = 0 \<and> 10 \<notin> set nm \<and> 13 \<notin> set nm \<and> length (cstr nm) \<le> 15 \<and>
    unat (gm_cursor_x (ox_game s)) < 3 \<and> unat (gm_cursor_y (ox_game s)) < 3"
proof -
  have i: "name_ok nm" "game_ok (ox_game s)"
    using ox_reach_inv[OF assms(1)] assms(2) by (auto simp: ox_inv_def core_ok_def)
  have "length (cstr nm) \<le> 15"
  proof (rule ccontr)
    assume "\<not> length (cstr nm) \<le> 15"
    then have "15 < length (takeWhile (\<lambda>c. c \<noteq> 0) nm)" by (simp add: cstr_def)
    from nth_mem[OF this] takeWhile_nth[OF this] have "nm ! 15 \<in> set (takeWhile (\<lambda>c. c \<noteq> 0) nm)" by simp
    then have "nm ! 15 \<noteq> 0" using set_takeWhileD by fastforce
    then show False using i(1) by (simp add: name_ok_def)
  qed
  then show ?thesis using i by (simp add: name_ok_def game_ok_def)
qed

theorem ox_names_well_formed_witness:
  "length (pl_name (gm_player_x (ox_game ox_start))) = 16 \<and> pl_name (gm_player_x (ox_game ox_start)) ! 15 = 0 \<and>
   length (cstr (pl_name (gm_player_x (ox_game ox_start)))) \<le> 15 \<and> 10 \<notin> set (pl_name (gm_player_o (ox_game ox_start))) \<and>
   unat (gm_cursor_x (ox_game ox_start)) < 3"
  using ox_names_well_formed[OF ox_start_reach] by blast

text \<open>
  A typed name arrives: when the queue holds at most 14 characters, at least one and none of them
  a zero or a line end, followed by a line end, the input loop stops behind the line end with exactly
  these characters as the name of the player, padded with zeros.
\<close>

theorem typed_name_arrives:
  assumes "rb_wf (ox_rb s)" and "rb_abs (ox_rb s) = cs @ eol # rest" and "eol = 13 \<or> eol = 10"
    and "cs \<noteq> []" and "length cs < 15" and "0 \<notin> set cs" and "10 \<notin> set cs" and "13 \<notin> set cs"
  shows "\<exists>s'. reset_run t ty (R_input who 0 (replicate 16 0), s)
      (case who of X_player \<Rightarrow> R_begin O_player | O_player \<Rightarrow> R_show, s') \<and>
    rb_abs (ox_rb s') = rest \<and> ox_game s' = set_name who (cs @ replicate (16 - length cs) 0) (ox_game s)"
proof -
  obtain s1 where s1: "reset_run t ty (R_input who 0 (replicate 16 0), s)
      (R_input who (length cs) (cs @ replicate (16 - length cs) 0), s1)"
    "rb_wf (ox_rb s1)" "rb_abs (ox_rb s1) = eol # rest" "ox_game s1 = ox_game s"
    using input_chars[OF assms(1,2), where ds = "[]" and t = t and ty = ty and who = who] assms(5,7,8) by auto
  obtain rb where rb: "rt_ringbuffer_getchar (ox_rb s1) = (Some eol, rb)" "rb_abs rb = rest"
    using getchar_cons[OF s1(2,3)] by (metis prod.collapse)
  have z: "(cs @ replicate (16 - length cs) 0)[length cs := 0] = cs @ 0 # replicate (15 - length cs) 0"
    using assms(5) by (cases "16 - length cs") (auto simp: list_update_append)
  have "reset_step t ty (R_input who (length cs) (cs @ replicate (16 - length cs) 0)) s1 =
      Next (name_done who (length cs) (cs @ replicate (16 - length cs) 0) (s1\<lparr>ox_rb := rb\<rparr>))"
    using rb(1) assms(3-5) by (simp add: input_round_def)
  then have "reset_run t ty (R_input who 0 (replicate 16 0), s)
      (name_done who (length cs) (cs @ replicate (16 - length cs) 0) (s1\<lparr>ox_rb := rb\<rparr>))"
    using s1(1) reset_run_step(2) by blast
  moreover have "rt_strncpy (cs @ 0 # replicate (15 - length cs) 0) 16 = cs @ replicate (16 - length cs) 0"
    using strncpy_zero assms(5,6) by simp
  ultimately show ?thesis using rb(2) s1(4) unfolding name_done_def z by (auto intro!: exI)
qed

theorem typed_name_arrives_witness:
  "\<exists>s'. reset_run Main_thread RESET_FULL (R_input X_player 0 (replicate 16 0), uart_rx_ind [65, 66, 13] ox_start)
      (R_begin O_player, s') \<and> rb_abs (ox_rb s') = [] \<and>
    ox_game s' = set_name X_player ([65, 66] @ replicate 14 0) (ox_game ox_start)"
proof -
  obtain rb where "rt_ringbuffer_create True (\<lambda>n. Some (replicate n 0)) 16 = Some (Some rb)"
    "rb_wf rb" "rb_abs rb = []" "buffer_size rb = 16"
    using create_wf[of 16 "\<lambda>n. Some (replicate n 0)" "replicate 16 0"] by auto
  moreover from this have "ox_rb ox_start = rb"
    using ox_start_init by (auto simp: ox_game_init_def split: option.splits) (metis ox.select_convs(2))
  ultimately have rb: "ox_rb ox_start = rb" "rb_wf rb" "rb_abs rb = []" "buffer_size rb = 16" by simp_all
  have "rb_wf (ox_rb (uart_rx_ind [65, 66, 13] ox_start))"
    "rb_abs (ox_rb (uart_rx_ind [65, 66, 13] ox_start)) = [65, 66] @ 13 # []"
    using rbq.invar_fill[OF rb(2), of "[65, 66, 13]"] rbq.bytes_fill[OF rb(2), of "[65, 66, 13]"] rb
    by (simp_all add: uart_rx_ind_def)
  from typed_name_arrives[OF this, of Main_thread RESET_FULL X_player] show ?thesis
    by (simp add: uart_rx_ind_def)
qed

end
