(* ===== verification/KList.thy ===== *)
theory KList
  imports KernelState
begin

text \<open>
  The intrusive lists of \<^verbatim>\<open>include/rtservice.h\<close>, at the level of their pointers, and the proof that the
  sequences of the kernel state are what these pointers stand for. A doubly linked list is a ring through
  its head; a node that is in no list points to itself. The operations write the pointers one by one,
  in the order of the source.
\<close>

section \<open>Doubly linked lists\<close>

record 'p rt_list =
  li_next :: "'p \<Rightarrow> 'p"
  li_prev :: "'p \<Rightarrow> 'p"

definition set_next :: "'p \<Rightarrow> 'p \<Rightarrow> 'p rt_list \<Rightarrow> 'p rt_list" where
  "set_next p v h = h\<lparr>li_next := (li_next h)(p := v)\<rparr>"

definition set_prev :: "'p \<Rightarrow> 'p \<Rightarrow> 'p rt_list \<Rightarrow> 'p rt_list" where
  "set_prev p v h = h\<lparr>li_prev := (li_prev h)(p := v)\<rparr>"

definition rt_list_init :: "'p \<Rightarrow> 'p rt_list \<Rightarrow> 'p rt_list" where
  "rt_list_init l h = set_next l l (set_prev l l h)"

definition rt_list_insert_after :: "'p \<Rightarrow> 'p \<Rightarrow> 'p rt_list \<Rightarrow> 'p rt_list" where
  "rt_list_insert_after l n h =
     (let h1 = set_prev (li_next h l) n h;
          h2 = set_next n (li_next h1 l) h1;
          h3 = set_next l n h2
      in set_prev n l h3)"

definition rt_list_insert_before :: "'p \<Rightarrow> 'p \<Rightarrow> 'p rt_list \<Rightarrow> 'p rt_list" where
  "rt_list_insert_before l n h =
     (let h1 = set_next (li_prev h l) n h;
          h2 = set_prev n (li_prev h1 l) h1;
          h3 = set_prev l n h2
      in set_next n l h3)"

definition rt_list_remove :: "'p \<Rightarrow> 'p rt_list \<Rightarrow> 'p rt_list" where
  "rt_list_remove n h =
     (let h1 = set_prev (li_next h n) (li_prev h n) h;
          h2 = set_next (li_prev h1 n) (li_next h1 n) h1
      in set_next n n (set_prev n n h2))"

definition rt_list_isempty :: "'p \<Rightarrow> 'p rt_list \<Rightarrow> bool" where
  "rt_list_isempty l h \<longleftrightarrow> li_next h l = l"

partial_function (option) list_len_loop :: "'p \<Rightarrow> 'p rt_list \<Rightarrow> 'p \<Rightarrow> nat \<Rightarrow> nat option" where
  "list_len_loop l h p len = (if li_next h p \<noteq> l then list_len_loop l h (li_next h p) (len + 1) else Some len)"

definition rt_list_len :: "'p \<Rightarrow> 'p rt_list \<Rightarrow> nat option" where
  "rt_list_len l h = list_len_loop l h l 0"

section \<open>Singly linked lists\<close>

type_synonym rt_slist = "nat \<Rightarrow> nat option"

definition rt_slist_init :: "nat \<Rightarrow> rt_slist \<Rightarrow> rt_slist" where
  "rt_slist_init l h = h(l := None)"

partial_function (option) rt_slist_tail :: "nat \<Rightarrow> rt_slist \<Rightarrow> nat option" where
  "rt_slist_tail l h = (case h l of None \<Rightarrow> Some l | Some p \<Rightarrow> rt_slist_tail p h)"

text \<open>The loop of \<^verbatim>\<open>rt_slist_append\<close> is the one of \<^verbatim>\<open>rt_slist_tail\<close>.\<close>

definition rt_slist_append :: "nat \<Rightarrow> nat \<Rightarrow> rt_slist \<Rightarrow> rt_slist option" where
  "rt_slist_append l n h = map_option (\<lambda>node. (h(node := Some n))(n := None)) (rt_slist_tail l h)"

definition rt_slist_insert :: "nat \<Rightarrow> nat \<Rightarrow> rt_slist \<Rightarrow> rt_slist" where
  "rt_slist_insert l n h = (h(n := h l))(l := Some n)"

partial_function (option) slist_len_loop :: "nat option \<Rightarrow> rt_slist \<Rightarrow> nat \<Rightarrow> nat option" where
  "slist_len_loop p h len = (case p of None \<Rightarrow> Some len | Some q \<Rightarrow> slist_len_loop (h q) h (len + 1))"

definition rt_slist_len :: "nat \<Rightarrow> rt_slist \<Rightarrow> nat option" where
  "rt_slist_len l h = slist_len_loop (h l) h 0"

partial_function (option) slist_find :: "nat \<Rightarrow> nat \<Rightarrow> rt_slist \<Rightarrow> nat option" where
  "slist_find node n h = (case h node of None \<Rightarrow> Some node | Some p \<Rightarrow> if p \<noteq> n then slist_find p n h else Some node)"

definition rt_slist_remove :: "nat \<Rightarrow> nat \<Rightarrow> rt_slist \<Rightarrow> rt_slist option" where
  "rt_slist_remove l n h =
     map_option (\<lambda>node. case h node of None \<Rightarrow> h | Some p \<Rightarrow> h(node := h p)) (slist_find l n h)"

definition rt_slist_isempty :: "nat \<Rightarrow> rt_slist \<Rightarrow> bool" where
  "rt_slist_isempty l h \<longleftrightarrow> h l = None"

section \<open>Segments of a ring\<close>

text \<open>From \<open>p\<close> the pointers lead through \<open>xs\<close> to \<open>q\<close> and back.\<close>

primrec seg :: "'p rt_list \<Rightarrow> 'p \<Rightarrow> 'p list \<Rightarrow> 'p \<Rightarrow> bool" where
  "seg h p [] q \<longleftrightarrow> li_next h p = q \<and> li_prev h q = p"
| "seg h p (x # xs) q \<longleftrightarrow> li_next h p = x \<and> li_prev h x = p \<and> seg h x xs q"

lemma seg_cong:
  "\<forall>x\<in>set (p # xs). li_next h' x = li_next h x \<Longrightarrow> \<forall>x\<in>set (xs @ [q]). li_prev h' x = li_prev h x \<Longrightarrow>
   seg h' p xs q = seg h p xs q"
  by (induction xs arbitrary: p) auto

lemma set_fields [simp]:
  "li_next (set_next p v h) = (li_next h)(p := v)" "li_prev (set_next p v h) = li_prev h"
  "li_prev (set_prev p v h) = (li_prev h)(p := v)" "li_next (set_prev p v h) = li_next h"
  by (simp_all add: set_next_def set_prev_def)

lemma seg_next: "seg h a (us @ vs) q \<Longrightarrow> li_next h (last (a # us)) = hd (vs @ [q])"
proof (induction us arbitrary: a)
  case Nil
  then show ?case by (cases vs) auto
qed auto

lemma seg_prev: "seg h a (us @ vs) q \<Longrightarrow> li_prev h (hd (vs @ [q])) = last (a # us)"
proof (induction us arbitrary: a)
  case Nil
  then show ?case by (cases vs) auto
qed auto

text \<open>Both insertions link a new node \<open>n\<close> between two neighbours \<open>p\<close> and \<open>x\<close>.\<close>

definition linked :: "'p \<Rightarrow> 'p \<Rightarrow> 'p \<Rightarrow> 'p rt_list \<Rightarrow> 'p rt_list \<Rightarrow> bool" where
  "linked p n x h h' \<longleftrightarrow> li_next h' = (li_next h)(n := x, p := n) \<and> li_prev h' = (li_prev h)(n := p, x := n)"

lemma insert_after_linked: "n \<noteq> p \<Longrightarrow> n \<noteq> li_next h p \<Longrightarrow> linked p n (li_next h p) h (rt_list_insert_after p n h)"
  by (auto simp: linked_def rt_list_insert_after_def Let_def fun_upd_twist)

lemma insert_before_linked: "n \<noteq> x \<Longrightarrow> n \<noteq> li_prev h x \<Longrightarrow> linked (li_prev h x) n x h (rt_list_insert_before x n h)"
  by (auto simp: linked_def rt_list_insert_before_def Let_def fun_upd_twist)

lemma seg_link:
  "seg h a (us @ vs) q \<Longrightarrow> distinct (us @ vs) \<Longrightarrow> a \<notin> set (us @ vs) \<Longrightarrow> q \<notin> set (us @ vs) \<Longrightarrow>
   n \<notin> set (a # q # us @ vs) \<Longrightarrow> linked (last (a # us)) n (hd (vs @ [q])) h h' \<Longrightarrow> seg h' a (us @ n # vs) q"
proof (induction us arbitrary: a)
  case Nil
  show ?case
  proof (cases vs)
    case Nil
    then show ?thesis using Nil.prems by (auto simp: linked_def)
  next
    case (Cons y ys)
    have "seg h' y ys q = seg h y ys q"
      by (rule seg_cong) (use Nil.prems Cons in \<open>auto simp: linked_def\<close>)
    then show ?thesis using Nil.prems Cons by (auto simp: linked_def)
  qed
next
  case (Cons u us)
  have "seg h' u (us @ n # vs) q" using Cons by auto
  moreover have "last (u # us) \<noteq> a" "last (u # us) \<in> set (u # us)" using Cons.prems(3) last_in_set[of "u # us"] by (auto simp del: last.simps)
  moreover have "hd (vs @ [q]) \<noteq> u" using Cons.prems(2,4) by (cases vs) auto
  ultimately show ?case using Cons.prems by (auto simp: linked_def)
qed

lemma seg_unlink:
  "seg h a (us @ n # vs) q \<Longrightarrow> distinct (us @ n # vs) \<Longrightarrow> a \<notin> set (us @ n # vs) \<Longrightarrow> q \<notin> set (us @ n # vs) \<Longrightarrow>
   seg (rt_list_remove n h) a (us @ vs) q"
proof (induction us arbitrary: a)
  case Nil
  show ?case
  proof (cases vs)
    case Nil
    then show ?thesis using Nil.prems by (auto simp: rt_list_remove_def Let_def)
  next
    case (Cons y ys)
    have "seg (rt_list_remove n h) y ys q = seg h y ys q"
      by (rule seg_cong) (use Nil.prems Cons in \<open>auto simp: rt_list_remove_def Let_def\<close>)
    then show ?thesis using Nil.prems Cons by (auto simp: rt_list_remove_def Let_def)
  qed
next
  case (Cons u us)
  have s: "seg h u (us @ n # vs) q" using Cons.prems(1) by simp
  have p: "li_prev h n = last (u # us)" using seg_prev[OF s] by simp
  have x: "li_next h n = hd (vs @ [q])" using seg_next[of h u "us @ [n]" vs q] s by simp
  have "last (u # us) \<noteq> a" using Cons.prems(3) last_in_set[of "u # us"] by (auto simp del: last.simps)
  moreover have "hd (vs @ [q]) \<noteq> u" using Cons.prems(2,4) by (cases vs) auto
  moreover have "seg (rt_list_remove n h) u (us @ vs) q" using Cons by auto
  ultimately show ?case using Cons.prems p x by (auto simp: rt_list_remove_def Let_def)
qed

lemma remove_other:
  "y \<noteq> n \<Longrightarrow> y \<noteq> li_next h n \<Longrightarrow> y \<noteq> li_prev h n \<Longrightarrow>
   li_next (rt_list_remove n h) y = li_next h y \<and> li_prev (rt_list_remove n h) y = li_prev h y"
  by (simp add: rt_list_remove_def Let_def)

lemma remove_self: "seg (rt_list_remove n h) n [] n"
  by (simp add: rt_list_remove_def Let_def)

section \<open>All lists of a memory\<close>

text \<open>
  \<open>R\<close> gives for every node the list it is the head of; a node in no list is the head of an empty one.
  No node is in two lists, and a node in a list is no head.
\<close>

definition klists :: "'p rt_list \<Rightarrow> ('p \<Rightarrow> 'p list) \<Rightarrow> bool" where
  "klists h R \<longleftrightarrow> (\<forall>l. (\<forall>k. l \<notin> set (R k)) \<longrightarrow> seg h l (R l) l) \<and> (\<forall>l. distinct (R l)) \<and>
     (\<forall>l k n. n \<in> set (R l) \<longrightarrow> n \<in> set (R k) \<longrightarrow> l = k) \<and> (\<forall>l n. n \<in> set (R l) \<longrightarrow> R n = [])"

lemma klistsD:
  assumes "klists h R"
  shows "(\<And>k. l \<notin> set (R k)) \<Longrightarrow> seg h l (R l) l" "distinct (R l)" "n \<in> set (R l) \<Longrightarrow> n \<in> set (R k) \<Longrightarrow> l = k"
    "n \<in> set (R l) \<Longrightarrow> R n = []"
  using assms unfolding klists_def by blast+

lemma klists_head: "klists h R \<Longrightarrow> x \<in> set (R l) \<Longrightarrow> l \<notin> set (R k)"
  using klistsD(4)[of h R l k] by auto

text \<open>The nodes of different lists are different.\<close>

lemma klists_apart:
  assumes "klists h R" "\<And>k. l \<notin> set (R k)" "\<And>k. l' \<notin> set (R k)" "l \<noteq> l'" "x \<in> set (l # R l)"
  shows "x \<notin> set (l' # R l')"
  using assms klistsD(3)[OF assms(1), of x l l'] by auto

lemma klists_insert:
  assumes k: "klists h R" and l: "\<And>k. l \<notin> set (R k)" and n: "\<And>k. n \<notin> set (R k)" "R n = []" "n \<noteq> l"
    and r: "R l = us @ vs" and link: "linked (last (l # us)) n (hd (vs @ [l])) h h'"
  shows "klists h' (R(l := us @ n # vs))"
proof -
  let ?R = "R(l := us @ n # vs)"
  have ln: "l \<notin> set (us @ vs)" "n \<notin> set (us @ vs)" using l[of l] n(1)[of l] r by auto
  have d: "distinct (us @ vs)" using klistsD(2)[OF k, of l] r by simp
  have s: "seg h l (us @ vs) l" using klistsD(1)[OF k l] r by simp
  have main: "seg h' l (us @ n # vs) l" by (rule seg_link[OF s d ln(1) ln(1) _ link]) (use ln n(3) in auto)
  have pt: "last (l # us) \<in> set (l # R l)" "hd (vs @ [l]) \<in> set (l # R l)" using r last_in_set[of "l # us"] by (cases vs; auto)+
  have "seg h' m (?R m) m" if m: "\<And>k. m \<notin> set (?R k)" for m
  proof (cases "m = l")
    case True
    then show ?thesis using main by simp
  next
    case False
    have mk: "m \<notin> set (R k)" for k using m[of k] m[of l] r by (cases "k = l") auto
    have "m \<noteq> n" using m[of l] by auto
    have "x \<notin> set (l # R l)" "x \<noteq> n" if "x \<in> set (m # R m)" for x
      using klists_apart[OF k mk l False that] that n(1)[of m] \<open>m \<noteq> n\<close> by auto
    then have "seg h' m (R m) m = seg h m (R m) m"
      using pt link by (intro seg_cong) (auto simp: linked_def)
    then show ?thesis using klistsD(1)[OF k mk] False by simp
  qed
  moreover have "distinct (?R m)" for m using klistsD(2)[OF k, of m] d ln(2) by auto
  moreover have mem: "x \<in> set (R a) \<or> x = n \<and> a = l" if "x \<in> set (?R a)" for x a using that r by (auto split: if_splits)
  have "a = b" if x: "x \<in> set (?R a)" "x \<in> set (?R b)" for x a b
    using mem[OF x(1)] mem[OF x(2)] n(1) klistsD(3)[OF k, of x a b] by blast
  moreover have "?R x = []" if x: "x \<in> set (?R a)" for x a
  proof -
    have "x \<noteq> l" using mem[OF x] l n(3) by blast
    then show ?thesis using mem[OF x] klistsD(4)[OF k, of x a] n(2) by auto
  qed
  ultimately show ?thesis unfolding klists_def by blast
qed

lemma klists_insert_before:
  assumes k: "klists h R" and "\<And>k. l \<notin> set (R k)" "\<And>k. n \<notin> set (R k)" "R n = []" "n \<noteq> l"
  shows "klists (rt_list_insert_before l n h) (R(l := R l @ [n]))"
proof -
  have s: "seg h l (R l @ []) l" using klistsD(1)[OF k assms(2)] by simp
  then have p: "li_prev h l = last (l # R l)" using seg_prev[OF s] by simp
  have "n \<noteq> last (l # R l)" using assms(3)[of l] assms(5) last_in_set[of "l # R l"] by (auto simp del: last.simps)
  then have "linked (last (l # R l)) n (hd ([] @ [l])) h (rt_list_insert_before l n h)"
    using insert_before_linked[of n l h] assms(5) p by simp
  then show ?thesis using klists_insert[OF k assms(2-5), of "R l" "[]"] by simp
qed

lemma klists_insert_after:
  assumes k: "klists h R" and "\<And>k. l \<notin> set (R k)" "\<And>k. n \<notin> set (R k)" "R n = []" "n \<noteq> l"
  shows "klists (rt_list_insert_after l n h) (R(l := n # R l))"
proof -
  have s: "seg h l ([] @ R l) l" using klistsD(1)[OF k assms(2)] by simp
  then have p: "li_next h l = hd (R l @ [l])" using seg_next[OF s] by simp
  have "n \<noteq> hd (R l @ [l])" using assms(3)[of l] assms(5) by (cases "R l") auto
  then have "linked (last (l # [])) n (hd (R l @ [l])) h (rt_list_insert_after l n h)"
    using insert_after_linked[of n l h] assms(5) p by simp
  then show ?thesis using klists_insert[OF k assms(2-5), of "[]" "R l"] by simp
qed

text \<open>Inserting in front of a member, as the queues ordered by priority do.\<close>

lemma klists_insert_before_member:
  assumes k: "klists h R" and r: "R l = us @ x # vs" and "\<And>k. n \<notin> set (R k)" "R n = []" "n \<noteq> l"
  shows "klists (rt_list_insert_before x n h) (R(l := us @ n # x # vs))"
proof -
  have l: "l \<notin> set (R k)" for k using klists_head[OF k, of x l] r by simp
  have s: "seg h l (us @ x # vs) l" using klistsD(1)[OF k l] r by simp
  then have p: "li_prev h x = last (l # us)" using seg_prev[OF s] by simp
  have "n \<notin> set (l # us @ x # vs)" using assms(3)[of l] assms(5) r by auto
  then have "n \<noteq> x" "n \<noteq> last (l # us)" using last_in_set[of "l # us"] by (auto simp del: last.simps)
  then have "linked (last (l # us)) n (hd ((x # vs) @ [l])) h (rt_list_insert_before x n h)"
    using insert_before_linked[of n x h] p by simp
  then show ?thesis using klists_insert[OF k l assms(3-5) r] by simp
qed

text \<open>Removing a node takes it out of whatever list it is in; nothing happens if it is in none.\<close>

lemma klists_remove:
  assumes k: "klists h R" and n: "R n = []"
  shows "klists (rt_list_remove n h) (\<lambda>l. removeAll n (R l))"
proof (cases "\<exists>l. n \<in> set (R l)")
  case False
  then have "seg h n [] n" using klistsD(1)[OF k, of n] n by auto
  then have "rt_list_remove n h = h" by (auto simp: rt_list_remove_def Let_def set_next_def set_prev_def fun_upd_idem)
  moreover have "(\<lambda>l. removeAll n (R l)) = R" using False by (auto simp: fun_eq_iff)
  ultimately show ?thesis using k by simp
next
  case True
  then obtain l where "n \<in> set (R l)" by blast
  then obtain us vs where r: "R l = us @ n # vs" by (meson split_list)
  have l: "l \<notin> set (R k)" for k using klists_head[OF k, of n l] r by simp
  have d: "distinct (us @ n # vs)" using klistsD(2)[OF k, of l] r by simp
  have s: "seg h l (us @ n # vs) l" using klistsD(1)[OF k l] r by simp
  have ra: "removeAll n (R m) = (if m = l then us @ vs else R m)" for m
  proof (cases "m = l")
    case False
    then have "n \<notin> set (R m)" using klistsD(3)[OF k, of n m l] r by auto
    then show ?thesis using False by simp
  qed (use r d in simp)
  have x: "li_next h n = hd (vs @ [l])" "li_prev h n = last (l # us)"
    using seg_next[of h l "us @ [n]" vs l] seg_prev[of h l us "n # vs" l] s by auto
  have pt: "last (l # us) \<in> set (l # R l)" "hd (vs @ [l]) \<in> set (l # R l)"
    using r last_in_set[of "l # us"] by (cases vs; auto)+
  have "seg (rt_list_remove n h) m (removeAll n (R m)) m" if m: "\<And>k. m \<notin> set (removeAll n (R k))" for m
  proof -
    consider "m = n" | "m = l" | "m \<noteq> n" "m \<noteq> l" by blast
    then show ?thesis
    proof cases
      case 1
      then show ?thesis using n remove_self[of n h] by simp
    next
      case 2
      then show ?thesis unfolding ra using seg_unlink[OF s d] l[of l] r by simp
    next
      case 3
      have mk: "m \<notin> set (R k)" for k using m[of k] 3(1) by auto
      have nl: "n \<in> set (l # R l)" using r by simp
      have "li_next (rt_list_remove n h) y = li_next h y \<and> li_prev (rt_list_remove n h) y = li_prev h y" if "y \<in> set (m # R m)" for y
      proof (rule remove_other)
        have "y \<notin> set (l # R l)" by (rule klists_apart[OF k mk l 3(2) that])
        then show "y \<noteq> n" "y \<noteq> li_next h n" "y \<noteq> li_prev h n" using pt nl unfolding x by metis+
      qed
      then have "seg (rt_list_remove n h) m (R m) m = seg h m (R m) m" by (intro seg_cong) auto
      then show ?thesis using klistsD(1)[OF k mk] ra 3(2) by simp
    qed
  qed
  moreover have "distinct (removeAll n (R m))" for m using klistsD(2)[OF k] by (simp add: distinct_removeAll)
  moreover have "a = b" if "y \<in> set (removeAll n (R a))" "y \<in> set (removeAll n (R b))" for y a b
    using that klistsD(3)[OF k, of y a b] by auto
  moreover have "removeAll n (R y) = []" if "y \<in> set (removeAll n (R a))" for y a using that klistsD(4)[OF k, of y a] by auto
  ultimately show ?thesis unfolding klists_def by blast
qed

lemma klists_init:
  assumes k: "klists h R" and "\<And>k. l \<notin> set (R k)" "R l = []"
  shows "klists (rt_list_init l h) R"
proof -
  have "seg h l [] l" using klistsD(1)[OF k assms(2)] assms(3) by simp
  then have "rt_list_init l h = h" by (auto simp: rt_list_init_def set_next_def set_prev_def fun_upd_idem)
  then show ?thesis using k by simp
qed

lemma klists_isempty: "klists h R \<Longrightarrow> (\<And>k. l \<notin> set (R k)) \<Longrightarrow> rt_list_isempty l h \<longleftrightarrow> R l = []"
proof -
  assume k: "klists h R" "\<And>k. l \<notin> set (R k)"
  have "seg h l (R l) l" by (rule klistsD(1)[OF k])
  then show ?thesis using k(2)[of l] by (cases "R l") (auto simp: rt_list_isempty_def)
qed

lemma list_len_loop_seg:
  "seg h p xs l \<Longrightarrow> l \<notin> set xs \<Longrightarrow> list_len_loop l h p n = Some (n + length xs)"
proof (induction xs arbitrary: p n)
  case Nil
  then show ?case by (subst list_len_loop.simps) simp
next
  case (Cons x xs)
  then show ?case by (subst list_len_loop.simps) auto
qed

lemma klists_len: "klists h R \<Longrightarrow> (\<And>k. l \<notin> set (R k)) \<Longrightarrow> rt_list_len l h = Some (length (R l))"
  using list_len_loop_seg[OF klistsD(1), of h R l 0] by (simp add: rt_list_len_def)

section \<open>What the users of lists rely on\<close>

text \<open>
  A store of lists: removing takes a node out of its list, inserting puts a node that is in no list to
  an end of a list.
\<close>

locale list_store =
  fixes rel :: "'s \<Rightarrow> ('p \<Rightarrow> 'p list) \<Rightarrow> bool" and remove :: "'p \<Rightarrow> 's \<Rightarrow> 's"
    and put_last :: "'p \<Rightarrow> 'p \<Rightarrow> 's \<Rightarrow> 's" and put_first :: "'p \<Rightarrow> 'p \<Rightarrow> 's \<Rightarrow> 's"
  assumes rel_remove: "rel s R \<Longrightarrow> R n = [] \<Longrightarrow> rel (remove n s) (\<lambda>l. removeAll n (R l))"
    and rel_last: "rel s R \<Longrightarrow> (\<And>k. l \<notin> set (R k)) \<Longrightarrow> (\<And>k. n \<notin> set (R k)) \<Longrightarrow> R n = [] \<Longrightarrow> n \<noteq> l \<Longrightarrow>
      rel (put_last l n s) (R(l := R l @ [n]))"
    and rel_first: "rel s R \<Longrightarrow> (\<And>k. l \<notin> set (R k)) \<Longrightarrow> (\<And>k. n \<notin> set (R k)) \<Longrightarrow> R n = [] \<Longrightarrow> n \<noteq> l \<Longrightarrow>
      rel (put_first l n s) (R(l := n # R l))"
begin

lemma remove_twice: "rel s R \<Longrightarrow> R n = [] \<Longrightarrow> rel (remove n (remove n s)) (\<lambda>l. removeAll n (R l))"
  using rel_remove[OF rel_remove, of s R n n] by (simp add: removeAll_filter_not_eq)

lemma move_last:
  assumes "rel s R" "R n = []" "\<And>k. l \<notin> set (R k)" "n \<noteq> l"
  shows "rel (put_last l n (remove n s)) ((\<lambda>m. removeAll n (R m))(l := removeAll n (R l) @ [n]))"
  using rel_last[OF rel_remove[OF assms(1,2)], of l n] assms(2-4) by auto

lemma move_first:
  assumes "rel s R" "R n = []" "\<And>k. l \<notin> set (R k)" "n \<noteq> l"
  shows "rel (put_first l n (remove n s)) ((\<lambda>m. removeAll n (R m))(l := n # removeAll n (R l)))"
  using rel_first[OF rel_remove[OF assms(1,2)], of l n] assms(2-4) by auto

end

interpretation ls: list_store klists rt_list_remove rt_list_insert_before rt_list_insert_after
  by unfold_locales (rule klists_remove klists_insert_before klists_insert_after; assumption)+

section \<open>The thread lists of the kernel\<close>

text \<open>The list nodes the kernel keeps threads in: the heads of the lists and the node of every thread.\<close>

datatype lnode = Head list_head | Defunct | Node tid

primrec klist_of :: "kernel \<Rightarrow> lnode \<Rightarrow> lnode list" where
  "klist_of k (Head q) = map Node (k_queue k q)"
| "klist_of k Defunct = map Node (k_defunct k)"
| "klist_of k (Node t) = []"

definition represents :: "lnode rt_list \<Rightarrow> kernel \<Rightarrow> bool" where
  "represents h k \<longleftrightarrow> klists h (klist_of k)"

lemma head_free [simp]: "Head q \<notin> set (klist_of k l)" "Defunct \<notin> set (klist_of k l)"
  by (cases l; auto)+

lemma node_in: "Node t \<in> set (klist_of k l) \<longleftrightarrow> (\<exists>q. l = Head q \<and> t \<in> set (k_queue k q)) \<or> l = Defunct \<and> t \<in> set (k_defunct k)"
  by (cases l) auto

lemma removeAll_Node: "removeAll (Node t) (map Node ts) = map Node (removeAll t ts)"
  by (induction ts) auto

lemma klist_of_remove: "(\<lambda>l. removeAll (Node t) (klist_of k l)) = klist_of (node_remove t k)"
proof
  fix l show "removeAll (Node t) (klist_of k l) = klist_of (node_remove t k) l"
    by (cases l) (simp_all add: node_remove_def removeAll_Node)
qed

lemma klist_of_queue: "klist_of (k\<lparr>k_queue := (k_queue k)(q := ts)\<rparr>) = (klist_of k)(Head q := map Node ts)"
proof
  fix l show "klist_of (k\<lparr>k_queue := (k_queue k)(q := ts)\<rparr>) l = ((klist_of k)(Head q := map Node ts)) l"
    by (cases l) simp_all
qed

definition unlinked :: "tid \<Rightarrow> kernel \<Rightarrow> bool" where
  "unlinked t k \<longleftrightarrow> (\<forall>q. t \<notin> set (k_queue k q)) \<and> t \<notin> set (k_defunct k)"

lemma represents_insert:
  assumes "represents h k" "unlinked t k" "k_queue k q = us @ vs"
  shows "represents (rt_list_insert_before (hd (map Node vs @ [Head q])) (Node t) h) (k\<lparr>k_queue := (k_queue k)(q := us @ t # vs)\<rparr>)"
proof -
  have k: "klists h (klist_of k)" using assms(1) by (simp add: represents_def)
  have t: "Node t \<notin> set (klist_of k l)" for l using assms(2) by (auto simp: node_in unlinked_def)
  show ?thesis
  proof (cases vs)
    case Nil
    then show ?thesis
      using klists_insert_before[OF k, of "Head q" "Node t"] t assms(3) by (simp add: represents_def klist_of_queue)
  next
    case (Cons v vs')
    then show ?thesis
      using klists_insert_before_member[OF k, of "Head q" "map Node us" "Node v" "map Node vs'" "Node t"] t assms(3)
      by (simp add: represents_def klist_of_queue)
  qed
qed

section \<open>Chains of singly linked nodes\<close>

lemma slist_tail_ok: "chain h (h l) xs \<Longrightarrow> rt_slist_tail l h = Some (last (l # xs))"
proof (induction xs arbitrary: l)
  case Nil
  then show ?case by (subst rt_slist_tail.simps) simp
next
  case (Cons x xs)
  then show ?case by (subst rt_slist_tail.simps) simp
qed

lemma slist_append_ok:
  assumes "chain h (h l) xs" "distinct (l # xs)" "n \<notin> set (l # xs)"
  shows "\<exists>h'. rt_slist_append l n h = Some h' \<and> chain h' (h' l) (xs @ [n])"
proof -
  let ?h = "(h(last (l # xs) := Some n))(n := None)"
  have "chain ?h (?h l) (xs @ [n])"
  proof (cases xs rule: rev_cases)
    case Nil
    then show ?thesis using assms(3) by simp
  next
    case (snoc ys y)
    have "chain h (h l) (ys @ [y])" using assms(1) snoc by simp
    then have "chain (h(n := None)) (h l) (ys @ [y])" using assms(3) snoc by (subst chain_upd) auto
    from chain_append[OF this, of n] have "chain ((h(n := None))(y := Some n)) (h l) (ys @ [y, n])"
      using assms(2,3) snoc by simp
    then show ?thesis using snoc assms(2,3) by (simp add: fun_upd_twist)
  qed
  then show ?thesis using slist_tail_ok[OF assms(1)] by (simp add: rt_slist_append_def)
qed

lemma slist_insert_ok:
  "chain h (h l) xs \<Longrightarrow> distinct (l # xs) \<Longrightarrow> n \<notin> set (l # xs) \<Longrightarrow>
   chain (rt_slist_insert l n h) (rt_slist_insert l n h l) (n # xs)"
  by (simp add: rt_slist_insert_def)

lemma slist_len_ok: "chain h p xs \<Longrightarrow> slist_len_loop p h n = Some (n + length xs)"
proof (induction xs arbitrary: p n)
  case Nil
  then show ?case by (subst slist_len_loop.simps) simp
next
  case (Cons x xs)
  then show ?case by (subst slist_len_loop.simps) simp
qed

lemma slist_remove_ok:
  "chain h (h l) xs \<Longrightarrow> distinct (l # xs) \<Longrightarrow> \<exists>h'. rt_slist_remove l n h = Some h' \<and> chain h' (h' l) (remove1 n xs) \<and>
     (\<forall>p. p \<notin> set (l # xs) \<longrightarrow> h' p = h p)"
proof (induction xs arbitrary: l)
  case Nil
  then have "slist_find l n h = Some l" by (subst slist_find.simps) simp
  then show ?case using Nil by (simp add: rt_slist_remove_def)
next
  case (Cons x xs)
  show ?case
  proof (cases "x = n")
    case True
    then have "slist_find l n h = Some l" using Cons.prems by (subst slist_find.simps) simp
    then show ?thesis using Cons.prems True by (auto simp: rt_slist_remove_def)
  next
    case False
    then have e: "slist_find l n h = slist_find x n h" using Cons.prems by (subst slist_find.simps) simp
    obtain h' where h': "rt_slist_remove x n h = Some h'" "chain h' (h' x) (remove1 n xs)" "\<forall>p. p \<notin> set (x # xs) \<longrightarrow> h' p = h p"
      using Cons.IH[of x] Cons.prems by auto
    have "h' l = h l" using h'(3) Cons.prems(2) by simp
    then show ?thesis using h' False Cons.prems e by (auto simp: rt_slist_remove_def)
  qed
qed

section \<open>Properties\<close>

text \<open>A memory in which every node points to itself represents the kernel before start-up.\<close>

definition list_mem0 :: "lnode rt_list" where
  "list_mem0 = \<lparr>li_next = id, li_prev = id\<rparr>"

lemma represents0: "represents list_mem0 kernel0"
proof -
  have "klist_of kernel0 l = []" for l by (cases l) (simp_all add: kernel0_def)
  then show ?thesis by (simp add: represents_def klists_def list_mem0_def)
qed

text \<open>
  C20. The sequences of the kernel state are refined by the linked lists of \<^verbatim>\<open>rtservice.h\<close>:
  whatever the pointers represent, \<^verbatim>\<open>rt_list_remove\<close> on the node of a thread takes the thread out of the list
  it is in, if any, and \<^verbatim>\<open>rt_list_insert_before\<close> and \<^verbatim>\<open>rt_list_insert_after\<close> put a thread that is in no list to
  the end or the front; no other list changes.
\<close>

theorem kernel_lists_refined:
  assumes "represents h k"
  shows "represents (rt_list_remove (Node t) h) (node_remove t k) \<and>
    ((\<forall>q'. t \<notin> set (k_queue k q')) \<and> t \<notin> set (k_defunct k) \<longrightarrow>
       represents (rt_list_insert_before (Head q) (Node t) h) (queue_insert_before q t k) \<and>
       represents (rt_list_insert_after (Head q) (Node t) h) (queue_insert_after q t k))"
proof (intro conjI impI)
  have k: "klists h (klist_of k)" using assms by (simp add: represents_def)
  show "represents (rt_list_remove (Node t) h) (node_remove t k)"
    using klists_remove[OF k, of "Node t"] by (simp add: represents_def klist_of_remove)
  assume "(\<forall>q'. t \<notin> set (k_queue k q')) \<and> t \<notin> set (k_defunct k)"
  then have u: "unlinked t k" by (simp add: unlinked_def)
  then have t: "Node t \<notin> set (klist_of k l)" for l by (auto simp: node_in unlinked_def)
  show "represents (rt_list_insert_before (Head q) (Node t) h) (queue_insert_before q t k)"
    using represents_insert[OF assms u, of q "k_queue k q" "[]"] by (simp add: queue_insert_before_def)
  show "represents (rt_list_insert_after (Head q) (Node t) h) (queue_insert_after q t k)"
    using klists_insert_after[OF k, of "Head q" "Node t"] t by (simp add: represents_def klist_of_queue queue_insert_after_def)
qed

theorem kernel_lists_refined_witness:
  "represents (rt_list_insert_before (Head (ReadyQ 3)) (Node 7) list_mem0) (queue_insert_before (ReadyQ 3) 7 kernel0)"
  using kernel_lists_refined[OF represents0, of 7 "ReadyQ 3"] by (simp add: kernel0_def)

text \<open>
  Moving a thread from any list to the end of a list, the two pointer operations behind yielding
  and waking, is the corresponding change of the sequences; and the length and the emptiness test of
  the pointer lists, whose loop ends, are those of the sequences.
\<close>

theorem kernel_lists_move:
  assumes "represents h k"
  shows "represents (rt_list_insert_before (Head q) (Node t) (rt_list_remove (Node t) h)) (queue_insert_before q t (node_remove t k)) \<and>
    rt_list_len (Head q) h = Some (length (k_queue k q)) \<and> (rt_list_isempty (Head q) h \<longleftrightarrow> k_queue k q = [])"
proof (intro conjI)
  have k: "klists h (klist_of k)" using assms by (simp add: represents_def)
  have "klists (rt_list_insert_before (Head q) (Node t) (rt_list_remove (Node t) h))
      ((\<lambda>m. removeAll (Node t) (klist_of k m))(Head q := removeAll (Node t) (klist_of k (Head q)) @ [Node t]))"
    by (rule ls.move_last[OF k]) auto
  then show "represents (rt_list_insert_before (Head q) (Node t) (rt_list_remove (Node t) h)) (queue_insert_before q t (node_remove t k))"
    unfolding klist_of_remove represents_def queue_insert_before_def klist_of_queue
    by (simp add: removeAll_Node) (simp add: node_remove_def)
  show "rt_list_len (Head q) h = Some (length (k_queue k q))" using klists_len[OF k, of "Head q"] by simp
  show "rt_list_isempty (Head q) h \<longleftrightarrow> k_queue k q = []" using klists_isempty[OF k, of "Head q"] by simp
qed

theorem kernel_lists_move_witness: "rt_list_len (Head (SemQ 0)) list_mem0 = Some 0"
  using kernel_lists_move[OF represents0, of "SemQ 0" 1] by (simp add: kernel0_def)

end
