(* ===== verification/SmallMem.thy ===== *)
theory SmallMem
  imports Prelude "HOL-Library.Monad_Syntax"
begin

text \<open>
  The small memory allocator (\<^verbatim>\<open>src/mem.c\<close>), which is the system heap of this board. The heap is a
  sequence of blocks, each with a header that holds the offsets of the next and the previous block; a
  bit of the header tells whether the block is used. Positions are offsets from \<^verbatim>\<open>heap_ptr\<close>, which is
  aligned, so an offset is aligned when its address is. The heap ends with a used header without a
  block. Offsets are smaller than \<open>2 ^ 32\<close> and a block does not end before its header, so their sums and
  differences are exact; only the sizes that callers ask for are kept at 32 bits.
\<close>

section \<open>State\<close>

text \<open>
  Of the word \<^verbatim>\<open>pool_ptr\<close>, \<open>it_used\<close> is the lowest bit and \<open>it_pool\<close> tells that the other bits point to this
  heap and are not cleared. The memory outside the headers holds the bytes of the callers; writing a
  header takes the bytes below it away.
\<close>

record rt_small_mem_item =
  it_pool :: bool
  it_used :: bool
  it_next :: nat
  it_prev :: nat

record rt_small_mem =
  sm_heap_ptr :: u32
  sm_item :: "nat \<Rightarrow> rt_small_mem_item"
  sm_byte :: "nat \<Rightarrow> u8 option"
  sm_heap_end :: nat
  sm_lfree :: nat
  sm_mem_size_aligned :: nat
  sm_used :: nat
  sm_max :: nat

abbreviation (input) SIZEOF_STRUCT_MEM :: nat where "SIZEOF_STRUCT_MEM \<equiv> 16"
abbreviation (input) MIN_SIZE_ALIGNED :: nat where "MIN_SIZE_ALIGNED \<equiv> 16"
abbreviation (input) MIN_SIZE :: nat where "MIN_SIZE \<equiv> 12"

definition item_write :: "nat \<Rightarrow> (rt_small_mem_item \<Rightarrow> rt_small_mem_item) \<Rightarrow> rt_small_mem \<Rightarrow> rt_small_mem" where
  "item_write p f m = m\<lparr>sm_item := (sm_item m)(p := f (sm_item m p)),
     sm_byte := (\<lambda>a. if a \<in> {p..<p + 12} then None else sm_byte m a)\<rparr>"

section \<open>Operations\<close>

text \<open>
  The address arithmetic of \<^verbatim>\<open>rt_smem_init\<close> is in unsigned 32 bits; \<open>hdr\<close> is the size of the control
  block. The result is \<open>None\<close> when the area is too small.
\<close>

definition rt_smem_init :: "u32 \<Rightarrow> u32 \<Rightarrow> u32 \<Rightarrow> rt_small_mem option" where
  "rt_smem_init hdr begin_addr sz =
     (let small_mem = RT_ALIGN begin_addr 8;
          start_addr = small_mem + hdr;
          begin_align = RT_ALIGN start_addr 8;
          end_align = RT_ALIGN_DOWN (begin_addr + sz) 8
      in if end_align > 32 \<and> end_align - 32 \<ge> start_addr
         then let mem_size = unat (end_align - begin_align - 32);
                  m0 = \<lparr>sm_heap_ptr = begin_align, sm_item = (\<lambda>_. \<lparr>it_pool = False, it_used = False, it_next = 0, it_prev = 0\<rparr>),
                        sm_byte = (\<lambda>_. None), sm_heap_end = mem_size + SIZEOF_STRUCT_MEM, sm_lfree = 0,
                        sm_mem_size_aligned = mem_size, sm_used = 0, sm_max = 0\<rparr>;
                  m1 = item_write 0 (\<lambda>_. \<lparr>it_pool = True, it_used = False,
                         it_next = mem_size + SIZEOF_STRUCT_MEM, it_prev = 0\<rparr>) m0
              in Some (item_write (mem_size + SIZEOF_STRUCT_MEM) (\<lambda>_. \<lparr>it_pool = True, it_used = True,
                         it_next = mem_size + SIZEOF_STRUCT_MEM, it_prev = mem_size + SIZEOF_STRUCT_MEM\<rparr>) m1)
         else None)"

text \<open>Block \<open>p\<close> takes over the block \<open>n\<close> behind it: what both halves of \<^verbatim>\<open>plug_holes\<close> do.\<close>

definition absorb :: "nat \<Rightarrow> nat \<Rightarrow> rt_small_mem \<Rightarrow> rt_small_mem" where
  "absorb p n m =
     (let m1 = (if sm_lfree m = n then m\<lparr>sm_lfree := p\<rparr> else m);
          m2 = item_write n (\<lambda>it. it\<lparr>it_pool := False, it_used := False\<rparr>) m1;
          m3 = item_write p (\<lambda>it. it\<lparr>it_next := it_next (sm_item m2 n)\<rparr>) m2
      in item_write (it_next (sm_item m3 n)) (\<lambda>it. it\<lparr>it_prev := p\<rparr>) m3)"

definition plug_holes :: "nat \<Rightarrow> rt_small_mem \<Rightarrow> rt_small_mem option" where
  "plug_holes mem m =
     (if mem < sm_heap_end m
      then let nmem = it_next (sm_item m mem);
               m1 = (if mem \<noteq> nmem \<and> \<not> it_used (sm_item m nmem) \<and> nmem \<noteq> sm_heap_end m
                     then absorb mem nmem m else m);
               pmem = it_prev (sm_item m1 mem)
           in Some (if pmem \<noteq> mem \<and> \<not> it_used (sm_item m1 pmem) then absorb pmem mem m1 else m1)
      else None)"

text \<open>The loop that looks for a block, from the lowest free one on.\<close>

partial_function (option) smem_search :: "rt_small_mem \<Rightarrow> nat \<Rightarrow> nat \<Rightarrow> nat option option" where
  "smem_search m sz ptr =
     (if ptr \<le> sm_mem_size_aligned m - sz
      then if \<not> it_used (sm_item m ptr) \<and> it_next (sm_item m ptr) - (ptr + SIZEOF_STRUCT_MEM) \<ge> sz
           then Some (Some ptr)
           else smem_search m sz (it_next (sm_item m ptr))
      else Some None)"

partial_function (option) lfree_update :: "rt_small_mem \<Rightarrow> nat \<Rightarrow> nat option" where
  "lfree_update m p =
     (if it_used (sm_item m p) \<and> p \<noteq> sm_heap_end m then lfree_update m (it_next (sm_item m p)) else Some p)"

declare smem_search.simps [code] lfree_update.simps [code]

definition count_used :: "nat \<Rightarrow> rt_small_mem \<Rightarrow> rt_small_mem" where
  "count_used n m =
     (let m1 = m\<lparr>sm_used := sm_used m + n\<rparr> in if sm_max m1 < sm_used m1 then m1\<lparr>sm_max := sm_used m1\<rparr> else m1)"

text \<open>Cutting the rest of block \<open>ptr\<close> off at \<open>ptr2\<close>, in \<^verbatim>\<open>rt_smem_alloc\<close> and in \<^verbatim>\<open>rt_smem_realloc\<close>.\<close>

definition smem_split :: "nat \<Rightarrow> nat \<Rightarrow> rt_small_mem \<Rightarrow> rt_small_mem" where
  "smem_split ptr ptr2 m =
     (let nxt = it_next (sm_item m ptr);
          m1 = item_write ptr2 (\<lambda>_. \<lparr>it_pool = True, it_used = False, it_next = nxt, it_prev = ptr\<rparr>) m;
          m2 = item_write ptr (\<lambda>it. it\<lparr>it_next := ptr2\<rparr>) m1
      in if nxt \<noteq> sm_mem_size_aligned m + SIZEOF_STRUCT_MEM
         then item_write nxt (\<lambda>it. it\<lparr>it_prev := ptr2\<rparr>) m2 else m2)"

definition smem_carve :: "nat \<Rightarrow> nat \<Rightarrow> rt_small_mem \<Rightarrow> rt_small_mem" where
  "smem_carve sz ptr m =
     (let m1 = (if it_next (sm_item m ptr) - (ptr + SIZEOF_STRUCT_MEM) \<ge> sz + SIZEOF_STRUCT_MEM + MIN_SIZE_ALIGNED
                then count_used (sz + SIZEOF_STRUCT_MEM) (smem_split ptr (ptr + SIZEOF_STRUCT_MEM + sz) m)
                else count_used (it_next (sm_item m ptr) - ptr) m)
      in item_write ptr (\<lambda>it. it\<lparr>it_pool := True, it_used := True\<rparr>) m1)"

text \<open>
  A pointer is the offset of the first byte, \<open>None\<close> the null pointer. The outer \<open>None\<close> are failed
  assertions and loops that do not end.
\<close>

definition rt_smem_alloc :: "u32 \<Rightarrow> rt_small_mem \<Rightarrow> (nat option \<times> rt_small_mem) option" where
  "rt_smem_alloc size0 m =
     (if size0 = 0 then Some (None, m)
      else let size1 = unat (RT_ALIGN size0 8);
               sz = (if size1 < MIN_SIZE_ALIGNED then MIN_SIZE_ALIGNED else size1) in
        if sz > sm_mem_size_aligned m then Some (None, m)
        else do {
          r \<leftarrow> smem_search m sz (sm_lfree m);
          case r of
            None \<Rightarrow> Some (None, m)
          | Some ptr \<Rightarrow> do {
              let m1 = smem_carve sz ptr m;
              m2 \<leftarrow> (if ptr = sm_lfree m1 then map_option (\<lambda>p. m1\<lparr>sm_lfree := p\<rparr>) (lfree_update m1 ptr) else Some m1);
              if (ptr = sm_lfree m1 \<longrightarrow> sm_lfree m2 = sm_heap_end m2 \<or> \<not> it_used (sm_item m2 (sm_lfree m2))) \<and>
                 ptr + SIZEOF_STRUCT_MEM + sz \<le> sm_heap_end m2 \<and>
                 (ptr + SIZEOF_STRUCT_MEM) mod 8 = 0 \<and> ptr mod 8 = 0
              then Some (Some (ptr + SIZEOF_STRUCT_MEM), m2) else None
            }
        })"

definition rt_smem_free :: "nat option \<Rightarrow> rt_small_mem \<Rightarrow> rt_small_mem option" where
  "rt_smem_free rmem m =
     (case rmem of
        None \<Rightarrow> Some m
      | Some a \<Rightarrow>
          let mem = a - SIZEOF_STRUCT_MEM in
          if a mod 8 = 0 \<and> SIZEOF_STRUCT_MEM \<le> a \<and> it_pool (sm_item m mem) \<and> it_used (sm_item m mem) \<and>
             a < sm_heap_end m \<and> it_pool (sm_item m (it_next (sm_item m mem)))
          then let m1 = item_write mem (\<lambda>it. it\<lparr>it_pool := True, it_used := False\<rparr>) m;
                   m2 = (if mem < sm_lfree m1 then m1\<lparr>sm_lfree := mem\<rparr> else m1);
                   m3 = m2\<lparr>sm_used := sm_used m2 - (it_next (sm_item m2 mem) - mem)\<rparr>
               in plug_holes mem m3
          else None)"

definition byte_copy :: "nat \<Rightarrow> nat \<Rightarrow> nat \<Rightarrow> rt_small_mem \<Rightarrow> rt_small_mem" where
  "byte_copy dst src n m =
     m\<lparr>sm_byte := (\<lambda>a. if dst \<le> a \<and> a < dst + n then sm_byte m (src + (a - dst)) else sm_byte m a)\<rparr>"

definition rt_smem_realloc :: "nat option \<Rightarrow> u32 \<Rightarrow> rt_small_mem \<Rightarrow> (nat option \<times> rt_small_mem) option" where
  "rt_smem_realloc rmem newsize0 m =
     (let newsize_w = RT_ALIGN newsize0 8; newsize = unat newsize_w in
      if newsize > sm_mem_size_aligned m then Some (None, m)
      else if newsize = 0 then map_option (\<lambda>m1. (None, m1)) (rt_smem_free rmem m)
      else case rmem of
        None \<Rightarrow> rt_smem_alloc newsize_w m
      | Some a \<Rightarrow>
          if \<not> (a mod 8 = 0 \<and> a < sm_heap_end m \<and> SIZEOF_STRUCT_MEM \<le> a) then None
          else let ptr = a - SIZEOF_STRUCT_MEM;
                   sz = it_next (sm_item m ptr) - ptr - SIZEOF_STRUCT_MEM in
            if sz = newsize then Some (Some a, m)
            else if newsize + SIZEOF_STRUCT_MEM + MIN_SIZE < sz then
              (let m1 = m\<lparr>sm_used := sm_used m - (sz - newsize)\<rparr>;
                   ptr2 = ptr + SIZEOF_STRUCT_MEM + newsize;
                   m2 = smem_split ptr ptr2 m1;
                   m3 = (if ptr2 < sm_lfree m2 then m2\<lparr>sm_lfree := ptr2\<rparr> else m2)
               in map_option (\<lambda>m4. (Some a, m4)) (plug_holes ptr2 m3))
            else do {
              (nmem, m1) \<leftarrow> rt_smem_alloc newsize_w m;
              case nmem of
                None \<Rightarrow> Some (None, m1)
              | Some b \<Rightarrow>
                  map_option (\<lambda>m2. (Some b, m2)) (rt_smem_free rmem (byte_copy b a (min sz newsize) m1))
            })"

section \<open>The tiling of the heap\<close>

text \<open>
  From offset \<open>p\<close> to offset \<open>e\<close> the heap consists of the blocks \<open>qs\<close>, whose headers are linked in both
  directions; \<open>pr\<close> is the block before.
\<close>

fun tiles :: "(nat \<Rightarrow> rt_small_mem_item) \<Rightarrow> nat \<Rightarrow> nat \<Rightarrow> nat list \<Rightarrow> nat \<Rightarrow> bool" where
  "tiles it pr p [] e \<longleftrightarrow> p = e"
| "tiles it pr p (q # qs) e \<longleftrightarrow> q = p \<and> it_prev (it p) = pr \<and> it_pool (it p) \<and> p + 16 \<le> it_next (it p) \<and>
     8 dvd it_next (it p) \<and> tiles it p (it_next (it p)) qs e"

definition last_of :: "nat \<Rightarrow> nat list \<Rightarrow> nat" where
  "last_of pr xs = (if xs = [] then pr else last xs)"

lemma last_of_simps [simp]: "last_of pr [] = pr" "last_of pr (x # xs) = last_of x xs" "last_of pr (xs @ [x]) = x"
  by (simp_all add: last_of_def)

lemma tiles_append:
  "tiles it pr p (xs @ ys) e \<longleftrightarrow> (\<exists>m. tiles it pr p xs m \<and> tiles it (last_of pr xs) m ys e)"
  by (induction xs arbitrary: pr p) auto

lemma tiles_le: "tiles it pr p qs e \<Longrightarrow> p \<le> e"
  by (induction qs arbitrary: pr p) fastforce+

lemma tiles_mem:
  "tiles it pr p qs e \<Longrightarrow> q \<in> set qs \<Longrightarrow> p \<le> q \<and> q + 16 \<le> it_next (it q) \<and> it_next (it q) \<le> e \<and> it_pool (it q)"
  by (induction qs arbitrary: pr p) (auto dest: tiles_le, fastforce+)

lemma tiles_less: "tiles it pr p qs e \<Longrightarrow> q \<in> set qs \<Longrightarrow> q < e"
  using tiles_mem by fastforce

lemma tiles_sorted: "tiles it pr p qs e \<Longrightarrow> sorted_wrt (<) qs"
proof (induction qs arbitrary: pr p)
  case (Cons q qs)
  then have "q < r" if "r \<in> set qs" for r using tiles_mem[of it q "it_next (it q)" qs e r] that by auto
  then show ?case using Cons by auto
qed simp

lemma tiles_distinct: "tiles it pr p qs e \<Longrightarrow> distinct qs"
  using tiles_sorted strict_sorted_iff by blast

lemma tiles_cong: "\<forall>q\<in>set qs. it' q = it q \<Longrightarrow> tiles it' pr p qs e = tiles it pr p qs e"
  by (induction qs arbitrary: pr p) auto

lemma tiles_aligned: "tiles it pr p qs e \<Longrightarrow> 8 dvd p \<Longrightarrow> 8 dvd e \<and> (\<forall>q\<in>set qs. 8 dvd q)"
  by (induction qs arbitrary: pr p) auto

lemma tiles_disjoint:
  assumes "tiles it pr p qs e" "q \<in> set qs" "r \<in> set qs" "q \<noteq> r"
  shows "it_next (it q) \<le> r \<or> it_next (it r) \<le> q"
  using assms
proof (induction qs arbitrary: pr p)
  case (Cons x xs)
  then show ?case using tiles_mem[of it x "it_next (it x)" xs e] by fastforce
qed simp

text \<open>Changing the back link of the first header changes the block before.\<close>

lemma tiles_prev:
  assumes "tiles it pr p qs e" "\<forall>q\<in>set qs. q \<noteq> p \<longrightarrow> it' q = it q"
    "qs \<noteq> [] \<Longrightarrow> it' p = (it p)\<lparr>it_prev := pr'\<rparr>"
  shows "tiles it' pr' p qs e"
proof (cases qs)
  case (Cons q rs)
  then have "\<forall>r\<in>set rs. it' r = it r"
    using assms(1,2) tiles_mem[of it p "it_next (it p)" rs e] by fastforce
  then have "tiles it' p (it_next (it p)) rs e = tiles it p (it_next (it p)) rs e" by (rule tiles_cong)
  then show ?thesis using assms(1,3) Cons by simp
qed (use assms in simp)

text \<open>The block in the middle of a tiling.\<close>

lemma tiles_middle:
  "tiles it pr p (us @ q # vs) e \<longleftrightarrow> tiles it pr p us q \<and> it_prev (it q) = last_of pr us \<and> it_pool (it q) \<and>
     q + 16 \<le> it_next (it q) \<and> 8 dvd it_next (it q) \<and> tiles it q (it_next (it q)) vs e"
  by (auto simp: tiles_append)

lemma tiles_outside:
  assumes "tiles it pr p us q" "x \<ge> q"
  shows "x \<notin> set us"
  using tiles_less[OF assms(1)] assms(2) leD by blast

lemma tiles_after:
  assumes "tiles it pr x vs e" "y < x"
  shows "y \<notin> set vs"
  using tiles_mem[OF assms(1)] assms(2) leD by blast

section \<open>Merging and splitting\<close>

lemma absorb_state:
  assumes "n \<noteq> p" "x \<noteq> n" "x \<noteq> p" "it_next (sm_item m n) = x"
  shows "sm_item (absorb p n m) = (sm_item m)(n := (sm_item m n)\<lparr>it_pool := False, it_used := False\<rparr>,
      p := (sm_item m p)\<lparr>it_next := x\<rparr>, x := (sm_item m x)\<lparr>it_prev := p\<rparr>)"
    and "sm_lfree (absorb p n m) = (if sm_lfree m = n then p else sm_lfree m)"
    and "sm_heap_end (absorb p n m) = sm_heap_end m" "sm_mem_size_aligned (absorb p n m) = sm_mem_size_aligned m"
    and "sm_used (absorb p n m) = sm_used m" "sm_max (absorb p n m) = sm_max m"
    and "\<And>a. a \<notin> {n..<n + 12} \<Longrightarrow> a \<notin> {p..<p + 12} \<Longrightarrow> a \<notin> {x..<x + 12} \<Longrightarrow>
      sm_byte (absorb p n m) a = sm_byte m a"
  using assms by (simp_all add: absorb_def item_write_def Let_def del: atLeastLessThan_iff)

lemma absorb_tiles:
  assumes t: "tiles (sm_item m) pr s (us @ p # n # vs) e"
  shows "tiles (sm_item (absorb p n m)) pr s (us @ p # vs) e"
proof -
  define it x where "it = sm_item m" and "x = it_next (sm_item m n)"
  have f: "tiles it pr s us p" "it_prev (it p) = last_of pr us" "it_pool (it p)" "it_next (it p) = n" "p + 16 \<le> n"
    "n + 16 \<le> x" "8 dvd x" "tiles it n x vs e"
    using t by (auto simp: tiles_append it_def x_def)
  have st: "sm_item (absorb p n m) = it(n := (it n)\<lparr>it_pool := False, it_used := False\<rparr>,
      p := (it p)\<lparr>it_next := x\<rparr>, x := (it x)\<lparr>it_prev := p\<rparr>)"
    unfolding it_def by (rule absorb_state) (use f(5,6) in \<open>auto simp: x_def\<close>)
  have us: "tiles (sm_item (absorb p n m)) pr s us p"
    using f(1) tiles_outside[OF f(1)] f(5,6) by (subst tiles_cong[of us _ it]) (auto simp: st)
  have vs: "tiles (sm_item (absorb p n m)) p x vs e"
    by (rule tiles_prev[OF f(8)]) (use tiles_after[OF f(8)] f(5,6) in \<open>auto simp: st\<close>)
  have "sm_item (absorb p n m) p = (it p)\<lparr>it_next := x\<rparr>" using f(5,6) by (simp add: st)
  then show ?thesis using us vs f by (simp add: tiles_middle)
qed

lemma split_state:
  assumes "ptr2 \<noteq> ptr" "x \<noteq> ptr" "x \<noteq> ptr2" "it_next (sm_item m ptr) = x" "sm_heap_end m = sm_mem_size_aligned m + 16"
  shows "sm_item (smem_split ptr ptr2 m) =
      (let it1 = (sm_item m)(ptr2 := \<lparr>it_pool = True, it_used = False, it_next = x, it_prev = ptr\<rparr>,
                             ptr := (sm_item m ptr)\<lparr>it_next := ptr2\<rparr>)
       in if x \<noteq> sm_heap_end m then it1(x := (sm_item m x)\<lparr>it_prev := ptr2\<rparr>) else it1)"
    and "sm_lfree (smem_split ptr ptr2 m) = sm_lfree m" "sm_heap_end (smem_split ptr ptr2 m) = sm_heap_end m"
    "sm_mem_size_aligned (smem_split ptr ptr2 m) = sm_mem_size_aligned m"
    "sm_used (smem_split ptr ptr2 m) = sm_used m" "sm_max (smem_split ptr ptr2 m) = sm_max m"
    and "\<And>a. a \<notin> {ptr..<ptr + 12} \<Longrightarrow> a \<notin> {ptr2..<ptr2 + 12} \<Longrightarrow> a \<notin> {x..<x + 12} \<Longrightarrow>
      sm_byte (smem_split ptr ptr2 m) a = sm_byte m a"
  using assms by (simp_all add: smem_split_def item_write_def Let_def del: atLeastLessThan_iff)

lemma split_tiles:
  assumes t: "tiles (sm_item m) pr s (us @ p # vs) (sm_heap_end m)" and "p + 16 \<le> p2" "p2 + 16 \<le> it_next (sm_item m p)"
    "8 dvd p2" "sm_heap_end m = sm_mem_size_aligned m + 16"
  shows "tiles (sm_item (smem_split p p2 m)) pr s (us @ p # p2 # vs) (sm_heap_end m)"
proof -
  define it x where "it = sm_item m" and "x = it_next (sm_item m p)"
  have f: "tiles it pr s us p" "it_prev (it p) = last_of pr us" "it_pool (it p)" "it_next (it p) = x"
    "8 dvd x" "tiles it p x vs (sm_heap_end m)"
    using t by (auto simp: tiles_middle it_def x_def)
  have x: "p2 \<noteq> p" "x \<noteq> p" "x \<noteq> p2" "p2 + 16 \<le> x"
    using assms(2,3) by (auto simp: x_def)
  note st = split_state(1)[OF x(1-3) x_def[symmetric] assms(5), folded it_def]
  have us: "tiles (sm_item (smem_split p p2 m)) pr s us p"
    using f(1) tiles_outside[OF f(1)] x(4) assms(2) by (subst tiles_cong[of us _ it]) (auto simp: st Let_def)
  have xe: "x \<noteq> sm_heap_end m" if "vs \<noteq> []"
    using f(6) that tiles_less[OF f(6)] by (cases vs) auto
  have vs: "tiles (sm_item (smem_split p p2 m)) p2 x vs (sm_heap_end m)"
    by (rule tiles_prev[OF f(6)]) (use tiles_after[OF f(6)] x(4) assms(2) xe in \<open>auto simp: st Let_def\<close>)
  have "sm_item (smem_split p p2 m) p = (it p)\<lparr>it_next := p2\<rparr>"
    "sm_item (smem_split p p2 m) p2 = \<lparr>it_pool = True, it_used = False, it_next = x, it_prev = p\<rparr>"
    using x assms(2) by (auto simp: st Let_def)
  then show ?thesis using us vs f x(4) assms(2,4) by (simp add: tiles_middle)
qed

section \<open>The invariant\<close>

abbreviation blk_used :: "rt_small_mem \<Rightarrow> nat \<Rightarrow> bool" where
  "blk_used m q \<equiv> it_used (sm_item m q)"

abbreviation blk_next :: "rt_small_mem \<Rightarrow> nat \<Rightarrow> nat" where
  "blk_next m q \<equiv> it_next (sm_item m q)"

definition used_bytes :: "rt_small_mem \<Rightarrow> nat list \<Rightarrow> nat" where
  "used_bytes m qs = sum_list (map (\<lambda>q. if blk_used m q then blk_next m q - q else 0) qs)"

definition first_free :: "rt_small_mem \<Rightarrow> nat list \<Rightarrow> nat" where
  "first_free m qs = hd (filter (\<lambda>q. \<not> blk_used m q) qs @ [sm_heap_end m])"

text \<open>No two free blocks are neighbours.\<close>

definition no_gap :: "rt_small_mem \<Rightarrow> nat list \<Rightarrow> bool" where
  "no_gap m qs \<longleftrightarrow> successively (\<lambda>p q. blk_used m p \<or> blk_used m q) qs"

text \<open>
  The blocks tile the heap; \<^verbatim>\<open>lfree\<close> is the lowest free block, or the end; the counter of used bytes is
  the size of the used blocks with their headers.
\<close>

definition smem_base :: "rt_small_mem \<Rightarrow> nat list \<Rightarrow> bool" where
  "smem_base m qs \<longleftrightarrow> tiles (sm_item m) 0 0 qs (sm_heap_end m) \<and> sm_heap_end m = sm_mem_size_aligned m + 16 \<and>
     sm_heap_end m < 2 ^ 32 \<and>
     blk_used m (sm_heap_end m) \<and> it_pool (sm_item m (sm_heap_end m)) \<and> sm_lfree m = first_free m qs \<and>
     sm_used m = used_bytes m qs \<and> sm_used m \<le> sm_max m \<and>
     (\<forall>q\<in>set qs. blk_used m q \<longrightarrow> q + 16 < blk_next m q)"

definition smem_ok :: "rt_small_mem \<Rightarrow> nat list \<Rightarrow> bool" where
  "smem_ok m qs \<longleftrightarrow> smem_base m qs \<and> no_gap m qs"

definition live :: "rt_small_mem \<Rightarrow> nat list \<Rightarrow> nat set" where
  "live m qs = {q \<in> set qs. blk_used m q}"

text \<open>The blocks \<open>S\<close> keep their extent and the bytes in them.\<close>

definition same_blocks :: "nat set \<Rightarrow> rt_small_mem \<Rightarrow> rt_small_mem \<Rightarrow> bool" where
  "same_blocks S m m' \<longleftrightarrow> (\<forall>q\<in>S. blk_next m' q = blk_next m q \<and>
     (\<forall>a\<in>{q + 16..<blk_next m q}. sm_byte m' a = sm_byte m a))"

lemma same_blocks_refl [simp]: "same_blocks S m m" by (simp add: same_blocks_def)

lemma same_blocks_mono: "same_blocks S m m1 \<Longrightarrow> T \<subseteq> S \<Longrightarrow> same_blocks T m m1"
  by (auto simp: same_blocks_def)

lemma same_blocks_trans: "same_blocks S m m1 \<Longrightarrow> same_blocks S m1 m2 \<Longrightarrow> same_blocks S m m2"
  by (simp add: same_blocks_def)

lemma first_free_simps [simp]:
  "first_free m [] = sm_heap_end m" "first_free m (q # qs) = (if blk_used m q then first_free m qs else q)"
  by (simp_all add: first_free_def)

lemma first_free_mem: "\<exists>q\<in>set qs. \<not> blk_used m q \<Longrightarrow> first_free m qs \<in> set qs \<and> \<not> blk_used m (first_free m qs)"
  by (induction qs) auto

lemma first_free_append:
  "first_free m (us @ vs) = (if \<exists>q\<in>set us. \<not> blk_used m q then first_free m us else first_free m vs)"
  by (induction us) auto

lemma state_cong:
  assumes "\<forall>q\<in>set qs. blk_used m' q = blk_used m q" "sm_heap_end m' = sm_heap_end m"
  shows "first_free m' qs = first_free m qs" "no_gap m' qs = no_gap m qs"
    and "\<forall>q\<in>set qs. blk_used m q \<longrightarrow> blk_next m' q = blk_next m q \<Longrightarrow> used_bytes m' qs = used_bytes m qs"
proof -
  have "filter (\<lambda>q. \<not> blk_used m' q) qs = filter (\<lambda>q. \<not> blk_used m q) qs" using assms(1) by (auto intro: filter_cong)
  then show "first_free m' qs = first_free m qs" by (simp add: first_free_def assms(2))
  show "no_gap m' qs = no_gap m qs" unfolding no_gap_def using assms(1) by (intro successively_cong) auto
  assume "\<forall>q\<in>set qs. blk_used m q \<longrightarrow> blk_next m' q = blk_next m q"
  then have "map (\<lambda>q. if blk_used m' q then blk_next m' q - q else 0) qs =
      map (\<lambda>q. if blk_used m q then blk_next m q - q else 0) qs"
    using assms(1) by (auto intro: map_cong)
  then show "used_bytes m' qs = used_bytes m qs" unfolding used_bytes_def by (rule arg_cong)
qed

lemma used_bytes_simps [simp]:
  "used_bytes m [] = 0" "used_bytes m (q # qs) = (if blk_used m q then blk_next m q - q else 0) + used_bytes m qs"
  "used_bytes m (us @ vs) = used_bytes m us + used_bytes m vs"
  by (simp_all add: used_bytes_def)

lemma smem_baseD:
  assumes "smem_base m qs"
  shows "tiles (sm_item m) 0 0 qs (sm_heap_end m)" "sm_heap_end m = sm_mem_size_aligned m + 16"
    "blk_used m (sm_heap_end m)" "it_pool (sm_item m (sm_heap_end m))" "sm_lfree m = first_free m qs"
    "sm_used m = used_bytes m qs" "sm_used m \<le> sm_max m" "\<forall>q\<in>set qs. blk_used m q \<longrightarrow> q + 16 < blk_next m q"
    "sm_heap_end m < 2 ^ 32"
  using assms unfolding smem_base_def by blast+

lemma smem_baseI:
  assumes "tiles (sm_item m) 0 0 qs (sm_heap_end m)" "sm_heap_end m = sm_mem_size_aligned m + 16"
    "blk_used m (sm_heap_end m)" "it_pool (sm_item m (sm_heap_end m))" "sm_lfree m = first_free m qs"
    "sm_used m = used_bytes m qs" "used_bytes m qs \<le> sm_max m" "\<forall>q\<in>set qs. blk_used m q \<longrightarrow> q + 16 < blk_next m q"
    "sm_heap_end m < 2 ^ 32"
  shows "smem_base m qs"
  using assms unfolding smem_base_def by metis

lemma absorb_ok:
  assumes b: "smem_base m (us @ p # n # vs)" and "\<not> blk_used m p" "\<not> blk_used m n"
  shows "smem_base (absorb p n m) (us @ p # vs)"
    and "\<forall>q\<in>set (us @ p # vs). blk_used (absorb p n m) q = blk_used m q"
    and "same_blocks (live m (us @ p # n # vs)) m (absorb p n m)"
proof -
  define x where "x = blk_next m n"
  let ?m = "absorb p n m" and ?e = "sm_heap_end m"
  have t: "tiles (sm_item m) 0 0 (us @ p # n # vs) ?e" using b unfolding smem_base_def by blast
  then have f: "tiles (sm_item m) 0 0 us p" "p + 16 \<le> n" "n + 16 \<le> x" "tiles (sm_item m) n x vs ?e" "x \<le> ?e"
    by (auto simp: tiles_append x_def dest: tiles_le)
  have ne: "n \<noteq> p" "x \<noteq> n" "x \<noteq> p" "blk_next m n = x" using f(2,3) by (auto simp: x_def)
  note st = absorb_state[OF ne]
  have out: "x \<notin> set us" "n \<notin> set us" "p \<notin> set us" "n \<notin> set vs" "p \<notin> set vs"
    using tiles_outside[OF f(1)] tiles_after[OF f(4)] f(2,3) by auto
  show used: "\<forall>q\<in>set (us @ p # vs). blk_used ?m q = blk_used m q"
    using out ne by (auto simp: st(1))
  have nxt: "\<forall>q\<in>set (us @ vs). blk_next ?m q = blk_next m q"
    using out by (auto simp: st(1))
  have e: "?e \<noteq> p" "?e \<noteq> n" using f by auto
  have "sm_lfree m \<noteq> n"
  proof -
    have "sm_lfree m = first_free m (us @ [p])" using b assms(2) first_free_append[of m "us @ [p]" "n # vs"]
      by (simp add: smem_base_def)
    also have "\<dots> \<in> set (us @ [p])" using assms(2) first_free_mem[of "us @ [p]" m] by auto
    finally show ?thesis using out ne by auto
  qed
  moreover have "first_free ?m (us @ p # vs) = first_free m (us @ p # n # vs)"
    using state_cong(1)[of "us @ p # vs" ?m m] used st(3) assms(2)
      first_free_append[of m "us @ [p]" vs] first_free_append[of m "us @ [p]" "n # vs"] by simp
  moreover have "used_bytes ?m (us @ p # vs) = used_bytes m (us @ p # n # vs)"
    using state_cong(3)[of us ?m m] state_cong(3)[of vs ?m m] used nxt st(3) assms(2,3) by simp
  moreover have "\<forall>q\<in>set (us @ p # vs). blk_used ?m q \<longrightarrow> q + 16 < blk_next ?m q"
    using b used nxt assms(2) by (auto simp: smem_base_def)
  moreover have "blk_used ?m ?e" "it_pool (sm_item ?m ?e)" using smem_baseD(3,4)[OF b] e by (auto simp: st(1))
  ultimately show "smem_base ?m (us @ p # vs)"
    using smem_baseD(2,5-7,9)[OF b] absorb_tiles[OF t]
    by (intro smem_baseI) (simp_all add: st(2-6) del: used_bytes_simps first_free_simps)
  show "same_blocks (live m (us @ p # n # vs)) m ?m"
    unfolding same_blocks_def
  proof
    fix q assume "q \<in> live m (us @ p # n # vs)"
    then have q: "q \<in> set us \<or> q \<in> set vs" using assms(2,3) by (auto simp: live_def)
    then have ext: "blk_next m q \<le> p \<or> x \<le> q" using tiles_mem[OF f(1)] tiles_mem[OF f(4)] by blast
    have "sm_byte ?m a = sm_byte m a" if "a \<in> {q + 16..<blk_next m q}" for a
      by (rule st(7)) (use that ext f(2,3) in auto)
    then show "blk_next ?m q = blk_next m q \<and> (\<forall>a\<in>{q + 16..<blk_next m q}. sm_byte ?m a = sm_byte m a)"
      using nxt q by auto
  qed
qed

lemma no_gap_simps [simp]:
  "no_gap m []" "no_gap m [q]"
  "no_gap m (p # q # qs) \<longleftrightarrow> (blk_used m p \<or> blk_used m q) \<and> no_gap m (q # qs)"
  "no_gap m (us @ p # vs) \<longleftrightarrow> no_gap m us \<and> no_gap m (p # vs) \<and> (us \<noteq> [] \<longrightarrow> blk_used m (last us) \<or> blk_used m p)"
  by (auto simp: no_gap_def successively_append_iff)

text \<open>After a block has been freed, \<^verbatim>\<open>plug_holes\<close> joins it with its free neighbours.\<close>

lemma plug_front_ok:
  assumes b: "smem_base m (us @ p # vs)" and "\<not> blk_used m p" "no_gap m us" "no_gap m vs"
    "us \<noteq> [] \<longrightarrow> q = last us" "us = [] \<longrightarrow> q = p" "vs \<noteq> [] \<longrightarrow> blk_used m (hd vs)"
  defines "m' \<equiv> (if q \<noteq> p \<and> \<not> blk_used m q then absorb q p m else m)"
  shows "\<exists>qs'. smem_ok m' qs' \<and> live m' qs' = live m (us @ p # vs) \<and> same_blocks (live m (us @ p # vs)) m m'"
proof (cases "us \<noteq> [] \<and> \<not> blk_used m (last us)")
  case False
  have "no_gap m (p # vs)" using assms(4,7) by (cases vs) auto
  then have "smem_ok m (us @ p # vs)" using False b assms(3) by (auto simp: smem_ok_def)
  moreover have "m' = m" using False assms(5,6) by (auto simp: m'_def)
  ultimately show ?thesis by auto
next
  case True
  then obtain us1 where us: "us = us1 @ [q]" using assms(5) by (metis append_butlast_last_id)
  have u: "\<not> blk_used m q" using True us by simp
  have "q \<noteq> p" using smem_baseD(1)[OF b] us by (auto simp: tiles_append)
  then have m': "m' = absorb q p m" using u by (simp add: m'_def)
  have b': "smem_base m (us1 @ q # p # vs)" using b us by simp
  note a = absorb_ok[OF b' u assms(2)]
  have g: "no_gap m (us1 @ q # vs)" using assms(3,4,7) us by (cases vs) auto
  have "no_gap m' (us1 @ q # vs)"
    using state_cong(2)[of "us1 @ q # vs" m' m] a(2) g m' by (simp add: absorb_def item_write_def Let_def)
  then have "smem_ok m' (us1 @ q # vs)" using a(1) m' by (simp add: smem_ok_def)
  moreover have "live m' (us1 @ q # vs) = live m (us @ p # vs)"
    using a(2) u assms(2) us m' by (auto simp: live_def)
  moreover have "same_blocks (live m (us @ p # vs)) m m'" using a(3) us m' by simp
  ultimately show ?thesis by blast
qed

lemma plug_holes_ok:
  assumes b: "smem_base m (us @ p # vs)" and "\<not> blk_used m p" "no_gap m us" "no_gap m vs"
  shows "\<exists>m' qs'. plug_holes p m = Some m' \<and> smem_ok m' qs' \<and> live m' qs' = live m (us @ p # vs) \<and>
    same_blocks (live m (us @ p # vs)) m m'"
proof -
  let ?n = "blk_next m p" and ?e = "sm_heap_end m"
  have t: "tiles (sm_item m) 0 0 (us @ p # vs) ?e" by (rule smem_baseD[OF b])
  then have f: "tiles (sm_item m) 0 0 us p" "it_prev (sm_item m p) = last_of 0 us" "p + 16 \<le> ?n"
    "tiles (sm_item m) p ?n vs ?e" by (auto simp: tiles_middle)
  have pe: "p < ?e" using tiles_less[OF t] by simp
  define m1 where "m1 = (if p \<noteq> ?n \<and> \<not> blk_used m ?n \<and> ?n \<noteq> ?e then absorb p ?n m else m)"
  define q where "q = it_prev (sm_item m1 p)"
  have plug: "plug_holes p m = Some (if q \<noteq> p \<and> \<not> blk_used m1 q then absorb q p m1 else m1)"
    using pe by (simp add: plug_holes_def Let_def m1_def q_def)
  obtain vs1 where v: "smem_base m1 (us @ p # vs1)" "\<forall>r\<in>set (us @ p # vs1). blk_used m1 r = blk_used m r"
    "live m1 (us @ p # vs1) = live m (us @ p # vs)" "same_blocks (live m (us @ p # vs)) m m1"
    "no_gap m vs1" "vs1 \<noteq> [] \<longrightarrow> blk_used m (hd vs1)" "sm_heap_end m1 = sm_heap_end m"
  proof (cases "vs \<noteq> [] \<and> \<not> blk_used m (hd vs)")
    case True
    then obtain vs2 where vs: "vs = ?n # vs2" using f(4) by (cases vs) auto
    have u: "\<not> blk_used m ?n" using True vs by simp
    have ne: "?n \<noteq> ?e" using tiles_less[OF f(4), of ?n] vs by simp
    have m1: "m1 = absorb p ?n m" using u ne f(3) by (simp add: m1_def)
    have b': "smem_base m (us @ p # ?n # vs2)" using b by (simp add: vs[symmetric])
    note a = absorb_ok[OF b' assms(2) u]
    have "live m1 (us @ p # vs2) = live m (us @ p # vs)"
      using a(2) u assms(2) m1 arg_cong[OF vs, of set] by (auto simp: live_def)
    moreover have "no_gap m (?n # vs2)" using assms(4) vs by metis
    then have "no_gap m vs2" "vs2 \<noteq> [] \<longrightarrow> blk_used m (hd vs2)" using u by (cases vs2; auto)+
    moreover have "same_blocks (live m (us @ p # vs)) m m1" using a(3) m1 vs by metis
    moreover have "sm_heap_end m1 = sm_heap_end m" by (simp add: m1 absorb_def item_write_def Let_def)
    ultimately show ?thesis using that[of vs2] a(1,2) m1 by simp
  next
    case False
    have "m1 = m"
    proof (cases vs)
      case Nil
      then show ?thesis using f(4) by (simp add: m1_def)
    next
      case (Cons r rs)
      then have "r = ?n" using f(4) by simp
      then have "blk_used m ?n" using False Cons by simp
      then show ?thesis by (simp add: m1_def)
    qed
    then show ?thesis using that[of vs] b assms(4) False by auto
  qed
  have "tiles (sm_item m1) 0 0 (us @ p # vs1) (sm_heap_end m1)" by (rule smem_baseD[OF v(1)])
  then have qv: "q = last_of 0 us" "tiles (sm_item m1) 0 0 us p" by (auto simp: q_def tiles_middle)
  have q0: "us = [] \<longrightarrow> q = p" using qv by auto
  have qu: "us \<noteq> [] \<longrightarrow> q = last us" using qv by (auto simp: last_of_def)
  have g: "no_gap m1 us" "no_gap m1 vs1" using assms(3) v(5) state_cong(2)[of us m1 m] state_cong(2)[of vs1 m1 m] v(2,7) by auto
  have h: "vs1 \<noteq> [] \<longrightarrow> blk_used m1 (hd vs1)" using v(2,6) by (cases vs1) auto
  have up: "\<not> blk_used m1 p" using v(2) assms(2) by simp
  define m2 where "m2 = (if q \<noteq> p \<and> \<not> blk_used m1 q then absorb q p m1 else m1)"
  obtain qs' where r: "smem_ok m2 qs'" "live m2 qs' = live m1 (us @ p # vs1)" "same_blocks (live m1 (us @ p # vs1)) m1 m2"
    using plug_front_ok[OF v(1) up g qu q0 h] unfolding m2_def by blast
  have "same_blocks (live m (us @ p # vs)) m m2" using r(3) v(3) same_blocks_trans[OF v(4)] by simp
  then show ?thesis using plug r(1,2) v(3) unfolding m2_def[symmetric] by blast
qed

section \<open>Releasing a block\<close>

lemma tiles_links:
  "\<forall>q\<in>set qs. it_prev (it' q) = it_prev (it q) \<and> it_pool (it' q) = it_pool (it q) \<and> it_next (it' q) = it_next (it q) \<Longrightarrow>
   tiles it' pr p qs e = tiles it pr p qs e"
  by (induction qs arbitrary: pr p) auto

lemma tiles_next: "tiles it pr p qs e \<Longrightarrow> q \<in> set qs \<Longrightarrow> it_next (it q) \<in> set qs \<or> it_next (it q) = e"
proof (induction qs arbitrary: pr p)
  case (Cons r qs)
  then show ?case by (cases qs) auto
qed simp

lemma first_free_le:
  assumes "tiles (sm_item m) pr p vs (sm_heap_end m)"
  shows "p \<le> first_free m vs"
  using first_free_mem[of vs m] tiles_mem[OF assms] tiles_le[OF assms]
  by (cases "\<exists>q\<in>set vs. \<not> blk_used m q") (auto simp: first_free_def)

text \<open>Marking a block as free.\<close>

lemma mark_free_base:
  assumes ok: "smem_ok m (us @ q # vs)" and "blk_used m q"
  defines "m1 \<equiv> item_write q (\<lambda>it. it\<lparr>it_pool := True, it_used := False\<rparr>) m"
  defines "m3 \<equiv> (if q < sm_lfree m1 then m1\<lparr>sm_lfree := q\<rparr> else m1)\<lparr>sm_used := sm_used m - (blk_next m q - q)\<rparr>"
  shows "smem_base m3 (us @ q # vs)" "\<not> blk_used m3 q" "no_gap m3 us" "no_gap m3 vs"
    and "live m3 (us @ q # vs) = live m (us @ q # vs) - {q}"
    and "same_blocks (live m (us @ q # vs) - {q}) m m3"
proof -
  have b: "smem_base m (us @ q # vs)" "no_gap m (us @ q # vs)" using ok by (auto simp: smem_ok_def)
  note d = smem_baseD[OF b(1)]
  have f: "tiles (sm_item m) 0 0 us q" "q + 16 \<le> blk_next m q" "it_pool (sm_item m q)"
    "tiles (sm_item m) q (blk_next m q) vs (sm_heap_end m)"
    using d(1) by (auto simp: tiles_middle)
  have it: "sm_item m3 = (sm_item m)(q := (sm_item m q)\<lparr>it_used := False\<rparr>)"
    using f(3) by (cases "sm_item m q") (simp add: m3_def m1_def item_write_def)
  have st: "sm_heap_end m3 = sm_heap_end m" "sm_mem_size_aligned m3 = sm_mem_size_aligned m"
    "sm_lfree m3 = (if q < sm_lfree m then q else sm_lfree m)" "sm_used m3 = sm_used m - (blk_next m q - q)"
    "sm_max m3 = sm_max m" "\<And>a. a \<notin> {q..<q + 12} \<Longrightarrow> sm_byte m3 a = sm_byte m a"
    by (auto simp: m3_def m1_def item_write_def)
  have out: "q \<notin> set us" "q \<notin> set vs" "q < sm_heap_end m"
    using tiles_outside[OF f(1)] tiles_after[OF f(4)] f(2) tiles_le[OF f(4)] by auto
  have u: "\<forall>r\<in>set us. blk_used m3 r = blk_used m r" "\<forall>r\<in>set vs. blk_used m3 r = blk_used m r" "\<not> blk_used m3 q"
    using out by (auto simp: it)
  then show "\<not> blk_used m3 q" "no_gap m3 us" "no_gap m3 vs"
    using b(2) state_cong(2)[of us m3 m] state_cong(2)[of vs m3 m] st(1) by (cases vs; auto)+
  have ff: "first_free m3 (us @ q # vs) = (if q < sm_lfree m then q else sm_lfree m)"
  proof (cases "\<exists>r\<in>set us. \<not> blk_used m r")
    case True
    then have "first_free m us < q" using first_free_mem[OF True] tiles_less[OF f(1)] by blast
    moreover have "first_free m3 us = first_free m us" using u(1) st(1) by (rule state_cong)
    ultimately show ?thesis using True u(1) by (auto simp: d(5) first_free_append)
  next
    case False
    then have "sm_lfree m = first_free m vs" using d(5) assms(2) by (auto simp: first_free_append)
    then have "q < sm_lfree m" using first_free_le[OF f(4)] f(2) by simp
    then show ?thesis using False u by (auto simp: first_free_append)
  qed
  have ub: "used_bytes m3 us = used_bytes m us" "used_bytes m3 vs = used_bytes m vs"
    using state_cong(3)[of us m3 m] state_cong(3)[of vs m3 m] u st(1) out by (auto simp: it)
  have "tiles (sm_item m3) 0 0 (us @ q # vs) (sm_heap_end m)"
    using d(1) by (subst tiles_links[where it = "sm_item m"]) (auto simp: it)
  moreover have "\<forall>r\<in>set (us @ q # vs). blk_used m3 r \<longrightarrow> r + 16 < blk_next m3 r" using d(8) u by (auto simp: it)
  moreover have "sm_used m3 \<le> sm_max m3" using d(7) st(4,5) by simp
  moreover have "sm_used m3 = used_bytes m3 (us @ q # vs)" using d(6) st(4) ub assms(2) u(3) by simp
  ultimately show "smem_base m3 (us @ q # vs)"
    unfolding smem_base_def using d(2-4,9) out(3) st(1-3) ff by (simp add: it)
  show "live m3 (us @ q # vs) = live m (us @ q # vs) - {q}" using u out by (auto simp: live_def)
  show "same_blocks (live m (us @ q # vs) - {q}) m m3"
    unfolding same_blocks_def
  proof
    fix r assume "r \<in> live m (us @ q # vs) - {q}"
    then have "blk_next m r \<le> q \<or> blk_next m q \<le> r" "r \<noteq> q"
      using tiles_mem[OF f(1), of r] tiles_mem[OF f(4), of r] by (auto simp: live_def)
    then show "blk_next m3 r = blk_next m r \<and> (\<forall>a\<in>{r + 16..<blk_next m r}. sm_byte m3 a = sm_byte m a)"
      using f(2) st(6) by (auto simp: it)
  qed
qed

lemma free_ok:
  assumes ok: "smem_ok m qs" and "q \<in> live m qs"
  shows "\<exists>m' qs'. rt_smem_free (Some (q + 16)) m = Some m' \<and> smem_ok m' qs' \<and> live m' qs' = live m qs - {q} \<and>
    same_blocks (live m qs - {q}) m m'"
proof -
  have q: "q \<in> set qs" "blk_used m q" using assms(2) by (auto simp: live_def)
  obtain us vs where qs: "qs = us @ q # vs" using q(1) by (meson split_list)
  have b: "smem_base m (us @ q # vs)" using ok qs by (simp add: smem_ok_def)
  note d = smem_baseD[OF b]
  have al: "8 dvd q" using tiles_aligned[OF d(1)] by simp
  have nx: "it_pool (sm_item m (blk_next m q))"
    using tiles_next[OF d(1), of q] tiles_mem[OF d(1), of "blk_next m q"] d(4) by auto
  have pe: "q + 16 < sm_heap_end m" using tiles_mem[OF d(1), of q] d(8) q(2) by auto
  define m3 where "m3 = (let m1 = item_write q (\<lambda>it. it\<lparr>it_pool := True, it_used := False\<rparr>) m
    in (if q < sm_lfree m1 then m1\<lparr>sm_lfree := q\<rparr> else m1)\<lparr>sm_used := sm_used m - (blk_next m q - q)\<rparr>)"
  note mf = mark_free_base[OF ok[unfolded qs] q(2), folded m3_def[unfolded Let_def]]
  have "rt_smem_free (Some (q + 16)) m = plug_holes q m3"
  proof -
    have "it_pool (sm_item m q)" using tiles_mem[OF d(1), of q] by simp
    moreover have "(q + 16) mod 8 = 0" using al by presburger
    ultimately show ?thesis using nx pe q(2) by (simp add: rt_smem_free_def Let_def m3_def item_write_def)
  qed
  then show ?thesis using plug_holes_ok[OF mf(1-4)] mf(5,6) same_blocks_trans unfolding qs by metis
qed

section \<open>Allocating a block\<close>

definition fits :: "rt_small_mem \<Rightarrow> nat \<Rightarrow> nat \<Rightarrow> bool" where
  "fits m sz q \<longleftrightarrow> \<not> blk_used m q \<and> sz \<le> blk_next m q - (q + 16)"

text \<open>The loop finds the first block that fits; its bound cuts off no block that would.\<close>

lemma search_from:
  assumes "tiles (sm_item m) pr p vs (sm_heap_end m)" "sm_heap_end m = sm_mem_size_aligned m + 16"
    "sz \<le> sm_mem_size_aligned m" "0 < sz"
  shows "smem_search m sz p = Some (find (fits m sz) vs)"
  using assms(1)
proof (induction vs arbitrary: pr p)
  case Nil
  then have "\<not> p \<le> sm_mem_size_aligned m - sz" using assms(2) by simp
  then show ?case by (subst smem_search.simps) simp
next
  case (Cons q vs)
  show ?case
  proof (cases "p \<le> sm_mem_size_aligned m - sz")
    case True
    then show ?thesis using Cons by (subst smem_search.simps) (auto simp: fits_def[of m sz p])
  next
    case False
    have "\<not> fits m sz r" if "r \<in> set (q # vs)" for r
    proof
      assume "fits m sz r"
      then have "r + 16 + sz \<le> blk_next m r" using assms(4) tiles_mem[OF Cons.prems that] by (auto simp: fits_def)
      then show False using tiles_mem[OF Cons.prems that] False assms(2,3) by linarith
    qed
    then have "find (fits m sz) (q # vs) = None" unfolding find_None_iff by blast
    then show ?thesis using False by (subst smem_search.simps) simp
  qed
qed

lemma find_skip: "\<forall>q\<in>set us. \<not> P q \<Longrightarrow> find P (us @ vs) = find P vs"
  by (induction us) auto

lemma search_ok:
  assumes "smem_base m qs" "sz \<le> sm_mem_size_aligned m" "0 < sz"
  shows "smem_search m sz (sm_lfree m) = Some (find (fits m sz) qs)"
proof (cases "\<exists>q\<in>set qs. \<not> blk_used m q")
  case True
  then obtain us q vs where qs: "qs = us @ q # vs" "\<not> blk_used m q" "\<forall>r\<in>set us. blk_used m r"
    using split_list_first_prop[OF True] by blast
  have l: "sm_lfree m = q" using smem_baseD(5)[OF assms(1)] qs by (simp add: first_free_append)
  have "tiles (sm_item m) (last_of 0 us) q (q # vs) (sm_heap_end m)"
    using smem_baseD(1)[OF assms(1)] qs(1) by (auto simp: tiles_middle)
  from search_from[OF this smem_baseD(2)[OF assms(1)] assms(2,3)]
  have "smem_search m sz q = Some (find (fits m sz) (q # vs))" .
  moreover have "find (fits m sz) (us @ q # vs) = find (fits m sz) (q # vs)"
    by (rule find_skip) (use qs(3) in \<open>auto simp: fits_def\<close>)
  ultimately show ?thesis unfolding l qs(1) by metis
next
  case False
  then have "sm_lfree m = sm_heap_end m"
    using smem_baseD(5)[OF assms(1)] by (simp add: first_free_def filter_empty_conv)
  moreover have "find (fits m sz) qs = None" using False by (auto simp: find_None_iff fits_def)
  ultimately show ?thesis using search_from[of m 0 "sm_heap_end m" "[]" sz] smem_baseD(2)[OF assms(1)] assms(2,3) by simp
qed

lemma lfree_update_ok:
  "tiles (sm_item m) pr p vs (sm_heap_end m) \<Longrightarrow> lfree_update m p = Some (first_free m vs)"
proof (induction vs arbitrary: pr p)
  case Nil
  then show ?case by (subst lfree_update.simps) simp
next
  case (Cons q vs)
  have "p \<noteq> sm_heap_end m" using tiles_less[OF Cons.prems, of q] Cons.prems by auto
  then show ?case using Cons by (subst lfree_update.simps) auto
qed

text \<open>The invariant without the clause on \<^verbatim>\<open>lfree\<close>, which allocating repairs last.\<close>

definition smem_core :: "rt_small_mem \<Rightarrow> nat list \<Rightarrow> bool" where
  "smem_core m qs \<longleftrightarrow> smem_base (m\<lparr>sm_lfree := first_free m qs\<rparr>) qs"

lemma lfree_irrelevant [simp]:
  "first_free (m\<lparr>sm_lfree := l\<rparr>) qs = first_free m qs" "used_bytes (m\<lparr>sm_lfree := l\<rparr>) qs = used_bytes m qs"
  "no_gap (m\<lparr>sm_lfree := l\<rparr>) qs = no_gap m qs" "live (m\<lparr>sm_lfree := l\<rparr>) qs = live m qs"
  "same_blocks S m1 (m\<lparr>sm_lfree := l\<rparr>) = same_blocks S m1 m"
  by (simp_all add: first_free_def used_bytes_def no_gap_def live_def same_blocks_def cong: if_cong)

text \<open>Marking a free block as used.\<close>

lemma mark_used:
  assumes "smem_core m (us @ p # vs)" "no_gap m us" "no_gap m vs" "\<not> blk_used m p" "p + 16 < blk_next m p"
  defines "m' \<equiv> item_write p (\<lambda>it. it\<lparr>it_pool := True, it_used := True\<rparr>) (count_used (blk_next m p - p) m)"
  shows "smem_core m' (us @ p # vs)" "no_gap m' (us @ p # vs)" "live m' (us @ p # vs) = insert p (live m (us @ p # vs))"
    and "same_blocks (live m (us @ p # vs)) m m'" "blk_next m' p = blk_next m p" "sm_heap_end m' = sm_heap_end m"
    and "sm_lfree m' = sm_lfree m" "first_free m' us = first_free m us" "first_free m' vs = first_free m vs"
    and "\<forall>r\<in>set us. blk_used m' r = blk_used m r" "tiles (sm_item m') 0 0 (us @ p # vs) (sm_heap_end m')"
proof -
  note d = smem_baseD[OF assms(1)[unfolded smem_core_def], simplified]
  have f: "tiles (sm_item m) 0 0 us p" "it_pool (sm_item m p)" "tiles (sm_item m) p (blk_next m p) vs (sm_heap_end m)"
    using d(1) by (auto simp: tiles_middle)
  have out: "p \<notin> set us" "p \<notin> set vs" "p < sm_heap_end m"
    using tiles_outside[OF f(1)] tiles_after[OF f(3)] assms(5) tiles_le[OF f(3)] by auto
  have it: "sm_item m' = (sm_item m)(p := (sm_item m p)\<lparr>it_used := True\<rparr>)"
    using f(2) by (cases "sm_item m p") (simp add: m'_def item_write_def count_used_def Let_def)
  have st: "sm_heap_end m' = sm_heap_end m" "sm_mem_size_aligned m' = sm_mem_size_aligned m" "sm_lfree m' = sm_lfree m"
    "sm_used m' = sm_used m + (blk_next m p - p)" "sm_used m' \<le> sm_max m'"
    "\<And>a. a \<notin> {p..<p + 12} \<Longrightarrow> sm_byte m' a = sm_byte m a"
    using d(7) by (auto simp: m'_def item_write_def count_used_def Let_def)
  have u: "\<forall>r\<in>set us. blk_used m' r = blk_used m r" "\<forall>r\<in>set vs. blk_used m' r = blk_used m r" "blk_used m' p"
    using out by (auto simp: it)
  have t: "tiles (sm_item m') 0 0 (us @ p # vs) (sm_heap_end m)"
    using d(1) by (subst tiles_links[where it = "sm_item m"]) (auto simp: it)
  have ub: "used_bytes m' us = used_bytes m us" "used_bytes m' vs = used_bytes m vs"
    using state_cong(3)[of us m' m] state_cong(3)[of vs m' m] u st(1) out by (auto simp: it)
  have "sm_used m' = used_bytes m' (us @ p # vs)" using d(6) ub u(3) assms(4) by (simp add: st(4)) (simp add: it)
  moreover have "\<forall>r\<in>set (us @ p # vs). blk_used m' r \<longrightarrow> r + 16 < blk_next m' r" using d(8) assms(5) u by (auto simp: it)
  ultimately show "smem_core m' (us @ p # vs)"
    unfolding smem_core_def smem_base_def using d(2-4,9) st(1,2,5) t out(3) by (simp add: it)
  show "no_gap m' (us @ p # vs)"
    using assms(2,3) u state_cong(2)[of us m' m] state_cong(2)[of vs m' m] st(1) by (cases vs) auto
  show "live m' (us @ p # vs) = insert p (live m (us @ p # vs))" using u out by (auto simp: live_def)
  show "same_blocks (live m (us @ p # vs)) m m'"
    unfolding same_blocks_def
  proof
    fix r assume "r \<in> live m (us @ p # vs)"
    then have "blk_next m r \<le> p \<or> blk_next m p \<le> r" "r \<noteq> p"
      using tiles_mem[OF f(1), of r] tiles_mem[OF f(3), of r] assms(4) by (auto simp: live_def)
    then show "blk_next m' r = blk_next m r \<and> (\<forall>a\<in>{r + 16..<blk_next m r}. sm_byte m' a = sm_byte m a)"
      using assms(5) st(6) by (auto simp: it)
  qed
  show "blk_next m' p = blk_next m p" "sm_heap_end m' = sm_heap_end m" "sm_lfree m' = sm_lfree m"
    "first_free m' us = first_free m us" "first_free m' vs = first_free m vs"
    using st u state_cong(1)[of us m' m] state_cong(1)[of vs m' m] by (auto simp: it)
  show "\<forall>r\<in>set us. blk_used m' r = blk_used m r" "tiles (sm_item m') 0 0 (us @ p # vs) (sm_heap_end m')"
    using u(1) t st(1) by auto
qed

lemma split_core:
  assumes b: "smem_core m (us @ p # vs)" and "p + 16 \<le> p2" "p2 + 16 \<le> blk_next m p" "8 dvd p2"
  defines "x \<equiv> blk_next m p" and "m' \<equiv> smem_split p p2 m"
  shows "\<forall>q\<in>set (us @ p # vs). blk_used m' q = blk_used m q" "\<not> blk_used m' p2" "blk_next m' p = p2"
    and "\<forall>q\<in>set (us @ vs). blk_next m' q = blk_next m q"
    and "p2 \<notin> set (us @ p # vs)" "tiles (sm_item m') 0 0 (us @ p # p2 # vs) (sm_heap_end m)"
    and "sm_heap_end m' = sm_heap_end m" "sm_mem_size_aligned m' = sm_mem_size_aligned m" "sm_used m' = sm_used m"
    "sm_max m' = sm_max m" "sm_lfree m' = sm_lfree m"
    and "blk_used m' (sm_heap_end m)" "it_pool (sm_item m' (sm_heap_end m))"
    and "same_blocks (set (us @ vs)) m m'"
    and "\<And>a. a \<in> {p + 16..<p2} \<Longrightarrow> sm_byte m' a = sm_byte m a"
proof -
  note d = smem_baseD[OF b[unfolded smem_core_def], simplified]
  have f: "tiles (sm_item m) 0 0 us p" "tiles (sm_item m) p x vs (sm_heap_end m)" "x \<le> sm_heap_end m"
    using d(1) by (auto simp: tiles_middle x_def dest: tiles_le)
  have x: "p2 \<noteq> p" "x \<noteq> p" "x \<noteq> p2" "blk_next m p = x" "p2 + 16 \<le> x" using assms(2,3) by (auto simp: x_def)
  note st = split_state[OF x(1-4) d(2), folded m'_def]
  have o1: "q \<noteq> p \<and> q \<noteq> p2 \<and> q \<noteq> x" if "q \<in> set us" for q using tiles_less[OF f(1) that] assms(2) x(5) by auto
  have o2: "x \<le> q" if "q \<in> set vs" for q using tiles_mem[OF f(2) that] by simp
  have o3: "p2 \<notin> set us" "p2 \<notin> set vs" "p \<notin> set us" "p \<notin> set vs" using o1 o2 x(5) assms(2) by fastforce+
  show "\<forall>q\<in>set (us @ p # vs). blk_used m' q = blk_used m q" using o3 x(1,2) by (auto simp: st(1) Let_def)
  show nx: "\<forall>q\<in>set (us @ vs). blk_next m' q = blk_next m q" using o3 x(1,2) by (auto simp: st(1) Let_def)
  show "\<not> blk_used m' p2" "blk_next m' p = p2" using x by (auto simp: st(1) Let_def)
  show "p2 \<notin> set (us @ p # vs)" using o1 o2 x by fastforce
  show "tiles (sm_item m') 0 0 (us @ p # p2 # vs) (sm_heap_end m)"
    unfolding m'_def using split_tiles[OF d(1) assms(2) _ assms(4) d(2)] assms(3) by (simp add: x_def)
  show "sm_heap_end m' = sm_heap_end m" "sm_mem_size_aligned m' = sm_mem_size_aligned m" "sm_used m' = sm_used m"
    "sm_max m' = sm_max m" "sm_lfree m' = sm_lfree m" by (rule st)+
  have e: "sm_heap_end m \<noteq> p" "sm_heap_end m \<noteq> p2" using f(3) assms(2) x(5) by auto
  then show "blk_used m' (sm_heap_end m)" "it_pool (sm_item m' (sm_heap_end m))"
    using d(3,4) by (auto simp: st(1) Let_def)
  have "sm_byte m' a = sm_byte m a" if "q \<in> set (us @ vs)" "a \<in> {q + 16..<blk_next m q}" for q a
  proof (rule st(7))
    have "blk_next m q \<le> p \<or> x \<le> q" using that(1) tiles_mem[OF f(1), of q] tiles_mem[OF f(2), of q] by auto
    then show "a \<notin> {p..<p + 12}" "a \<notin> {p2..<p2 + 12}" "a \<notin> {x..<x + 12}" using that(2) assms(2) x(5) by auto
  qed
  then show "same_blocks (set (us @ vs)) m m'" using nx unfolding same_blocks_def by blast
  show "\<And>a. a \<in> {p + 16..<p2} \<Longrightarrow> sm_byte m' a = sm_byte m a"
    by (rule st(7)) (use x(5) in auto)
qed

lemma carve_ok:
  assumes ok: "smem_ok m (us @ p # vs)" and "fits m sz p" "16 \<le> sz" "8 dvd sz"
  defines "m' \<equiv> smem_carve sz p m"
  shows "\<exists>vs'. smem_core m' (us @ p # vs') \<and> no_gap m' (us @ p # vs') \<and>
    live m' (us @ p # vs') = insert p (live m (us @ p # vs)) \<and> same_blocks (live m (us @ p # vs)) m m' \<and>
    p + 16 + sz \<le> blk_next m' p \<and> sm_heap_end m' = sm_heap_end m \<and> sm_lfree m' = sm_lfree m \<and>
    (\<forall>r\<in>set us. blk_used m' r = blk_used m r) \<and> first_free m' us = first_free m us"
proof -
  have b: "smem_base m (us @ p # vs)" "no_gap m (us @ p # vs)" using ok by (auto simp: smem_ok_def)
  note d = smem_baseD[OF b(1)]
  have core: "smem_core m (us @ p # vs)" using b(1) d(5) by (metis smem_core_def rt_small_mem.surjective rt_small_mem.update_convs(5))
  have up: "\<not> blk_used m p" "sz \<le> blk_next m p - (p + 16)" using assms(2) by (auto simp: fits_def)
  have pn: "p + 16 \<le> blk_next m p" "8 dvd p" using tiles_mem[OF d(1), of p] tiles_aligned[OF d(1)] by auto
  have g: "no_gap m us" "no_gap m vs" "vs \<noteq> [] \<longrightarrow> blk_used m (hd vs)"
    using b(2) up(1) by (cases vs; auto)+
  show ?thesis
  proof (cases "sz + 16 + 16 \<le> blk_next m p - (p + 16)")
    case False
    then have m': "m' = item_write p (\<lambda>it. it\<lparr>it_pool := True, it_used := True\<rparr>) (count_used (blk_next m p - p) m)"
      by (simp add: m'_def smem_carve_def)
    have "p + 16 < blk_next m p" using up(2) assms(3) by linarith
    note mu = mark_used[OF core g(1,2) up(1) this, folded m']
    show ?thesis using mu up(2) pn(1) assms(3) by (intro exI[of _ vs]) auto
  next
    case True
    define p2 where "p2 = p + 16 + sz"
    define ms where "ms = smem_split p p2 m"
    have x: "p + 16 \<le> p2" "p2 + 16 \<le> blk_next m p" "8 dvd p2" "p2 - p = sz + 16"
      using True pn assms(4) by (auto simp: p2_def intro!: dvd_add)
    note sp = split_core[OF core x(1-3), folded ms_def]
    have uf: "first_free ms us = first_free m us" "no_gap ms us" "no_gap ms vs"
      using state_cong(1)[of us ms m] state_cong(2)[of us ms m] state_cong(2)[of vs ms m] sp(1,7) g by auto
    have "used_bytes ms us = used_bytes m us" "used_bytes ms vs = used_bytes m vs"
      using state_cong(3)[of us ms m] state_cong(3)[of vs ms m] sp(1,4,7) by auto
    then have ub: "sm_used ms = used_bytes ms (us @ p # p2 # vs)" using d(6) sp(1,2,9) up(1) by simp
    have "\<forall>r\<in>set (us @ p # p2 # vs). blk_used ms r \<longrightarrow> r + 16 < blk_next ms r"
      using d(8) sp(1,2,4) up(1) by auto
    then have core2: "smem_core ms (us @ p # p2 # vs)"
      unfolding smem_core_def using d(2,7,9) sp(6-10,12,13) ub by (intro smem_baseI) (simp_all del: used_bytes_simps)
    have g2: "no_gap ms (p2 # vs)" using uf(3) g(3) sp(1) by (cases vs) auto
    have m': "m' = item_write p (\<lambda>it. it\<lparr>it_pool := True, it_used := True\<rparr>) (count_used (blk_next ms p - p) ms)"
      using True x(4) sp(3) by (simp add: m'_def smem_carve_def ms_def p2_def add.commute)
    have "\<not> blk_used ms p" "p + 16 < blk_next ms p" using sp(1,3) up(1) assms(3) by (auto simp: p2_def)
    note mu = mark_used[OF core2 uf(2) g2 this, folded m']
    have l: "live ms (us @ p # p2 # vs) = live m (us @ p # vs)" using sp(1,2) by (auto simp: live_def)
    have "same_blocks (live m (us @ p # vs)) m ms"
      by (rule same_blocks_mono[OF sp(14)]) (use up(1) in \<open>auto simp: live_def\<close>)
    then have sb: "same_blocks (live m (us @ p # vs)) m m'" using mu(4) l same_blocks_trans by simp
    show ?thesis
      using mu l sb sp(1,3,7,11) uf(1) by (intro exI[of _ "p2 # vs"]) (auto simp: p2_def)
  qed
qed

text \<open>The number of bytes a block is looked for, with the wrap-around of \<^verbatim>\<open>RT_ALIGN\<close>.\<close>

definition smem_size :: "u32 \<Rightarrow> nat" where
  "smem_size size0 = max 16 (unat (RT_ALIGN size0 8))"

lemma align_8: "unat (RT_ALIGN w 8) = (unat w + 7) mod 2 ^ 32 div 8 * 8"
proof -
  have "unat (RT_ALIGN w 8) = unat (RT_ALIGN_DOWN (w + 7) 8)" by (simp add: RT_ALIGN_def RT_ALIGN_DOWN_def add.commute)
  then show ?thesis by (simp add: align_down_8 unat_word_ariths)
qed

lemma align_8_id: "8 dvd unat w \<Longrightarrow> RT_ALIGN w 8 = w"
proof -
  assume "8 dvd unat w"
  then obtain j where j: "unat w = 8 * j" by blast
  moreover have "unat w < 2 ^ 32" using unsigned_less[of w] by simp
  ultimately have "(unat w + 7) mod 2 ^ 32 div 8 * 8 = unat w" by simp
  then show ?thesis by (metis align_8 word_unat_eq_iff)
qed

lemma smem_size_props: "16 \<le> smem_size w" "8 dvd smem_size w" "unat w \<le> 0xFFFFFFF8 \<Longrightarrow> unat w \<le> smem_size w"
proof -
  have d: "8 dvd unat (RT_ALIGN w 8)" by (simp add: align_8)
  then show "16 \<le> smem_size w" "8 dvd smem_size w" by (auto simp: smem_size_def max_def)
  assume "unat w \<le> 0xFFFFFFF8"
  then have "unat (RT_ALIGN w 8) = (unat w + 7) div 8 * 8" by (simp add: align_8)
  then show "unat w \<le> smem_size w" by (simp add: smem_size_def)
qed

lemma lfree_after:
  assumes b: "smem_base m (us @ p # vs)" and "\<not> blk_used m p"
    and t: "tiles (sm_item m1) 0 0 (us @ p # vs') (sm_heap_end m1)"
    and u: "\<forall>r\<in>set us. blk_used m1 r = blk_used m r" "first_free m1 us = first_free m us" and l: "sm_lfree m1 = sm_lfree m"
  shows "p = sm_lfree m1 \<Longrightarrow> lfree_update m1 p = Some (first_free m1 (us @ p # vs'))"
    and "p \<noteq> sm_lfree m1 \<Longrightarrow> sm_lfree m1 = first_free m1 (us @ p # vs')"
proof -
  note d = smem_baseD[OF b]
  have f: "tiles (sm_item m) 0 0 us p" using d(1) by (simp add: tiles_middle)
  have lf: "sm_lfree m1 = (if \<exists>r\<in>set us. \<not> blk_used m r then first_free m us else p)"
    using d(5) assms(2) l by (simp add: first_free_append)
  have ff: "first_free m1 (us @ p # vs') = (if \<exists>r\<in>set us. \<not> blk_used m r then first_free m us else first_free m1 (p # vs'))"
    using u by (simp add: first_free_append)
  show "lfree_update m1 p = Some (first_free m1 (us @ p # vs'))" if p: "p = sm_lfree m1"
  proof -
    have "\<not> (\<exists>r\<in>set us. \<not> blk_used m r)"
    proof
      assume e: "\<exists>r\<in>set us. \<not> blk_used m r"
      then have "p \<in> set us" using first_free_mem[OF e] lf p by simp
      then show False using tiles_outside[OF f, of p] by simp
    qed
    moreover have "tiles (sm_item m1) (last_of 0 us) p (p # vs') (sm_heap_end m1)" using t by (simp add: tiles_middle)
    from lfree_update_ok[OF this] have "lfree_update m1 p = Some (first_free m1 (p # vs'))" .
    ultimately show ?thesis using ff by simp
  qed
  show "sm_lfree m1 = first_free m1 (us @ p # vs')" if "p \<noteq> sm_lfree m1" using that lf ff by (auto split: if_splits)
qed

definition alloc_post :: "nat \<Rightarrow> rt_small_mem \<Rightarrow> nat list \<Rightarrow> nat \<Rightarrow> rt_small_mem \<Rightarrow> nat list \<Rightarrow> bool" where
  "alloc_post sz m qs p m' qs' \<longleftrightarrow> p \<in> set qs \<and> fits m sz p \<and> smem_ok m' qs' \<and> live m' qs' = insert p (live m qs) \<and>
     same_blocks (live m qs) m m' \<and> p + 16 + sz \<le> blk_next m' p \<and> sm_heap_end m' = sm_heap_end m"

lemma alloc_at:
  assumes ok: "smem_ok m (us @ p # vs)" and "fits m sz p" "16 \<le> sz" "8 dvd sz"
  defines "m1 \<equiv> smem_carve sz p m"
  shows "\<exists>m2 qs'. (if p = sm_lfree m1 then map_option (\<lambda>l. m1\<lparr>sm_lfree := l\<rparr>) (lfree_update m1 p) else Some m1) = Some m2 \<and>
    sm_lfree m2 = first_free m2 qs' \<and> alloc_post sz m (us @ p # vs) p m2 qs'"
proof -
  have b: "smem_base m (us @ p # vs)" using ok by (simp add: smem_ok_def)
  have up: "\<not> blk_used m p" using assms(2) by (simp add: fits_def)
  obtain vs' where c: "smem_core m1 (us @ p # vs')" "no_gap m1 (us @ p # vs')"
    "live m1 (us @ p # vs') = insert p (live m (us @ p # vs))" "same_blocks (live m (us @ p # vs)) m m1"
    "p + 16 + sz \<le> blk_next m1 p" "sm_heap_end m1 = sm_heap_end m" "sm_lfree m1 = sm_lfree m"
    "\<forall>r\<in>set us. blk_used m1 r = blk_used m r" "first_free m1 us = first_free m us"
    using carve_ok[OF assms(1-4)] unfolding m1_def by blast
  define m2 where "m2 = m1\<lparr>sm_lfree := first_free m1 (us @ p # vs')\<rparr>"
  have t: "tiles (sm_item m1) 0 0 (us @ p # vs') (sm_heap_end m1)"
    using smem_baseD(1)[OF c(1)[unfolded smem_core_def]] by simp
  have "(if p = sm_lfree m1 then map_option (\<lambda>l. m1\<lparr>sm_lfree := l\<rparr>) (lfree_update m1 p) else Some m1) = Some m2"
    using lfree_after[OF b up t c(8,9,7)] by (auto simp: m2_def simp del: first_free_simps)
  moreover have "alloc_post sz m (us @ p # vs) p m2 (us @ p # vs')"
    using c assms(2) by (simp add: alloc_post_def smem_ok_def smem_core_def m2_def fits_def)
  ultimately show ?thesis by (intro exI[of _ m2] exI[of _ "us @ p # vs'"]) (simp add: m2_def)
qed

lemma alloc_ok:
  assumes ok: "smem_ok m qs" and "size0 \<noteq> 0"
  shows "rt_smem_alloc size0 m = Some (None, m) \<and> (\<forall>q\<in>set qs. \<not> fits m (smem_size size0) q) \<or>
    (\<exists>p m' qs'. rt_smem_alloc size0 m = Some (Some (p + 16), m') \<and> alloc_post (smem_size size0) m qs p m' qs')"
proof -
  let ?sz = "smem_size size0"
  have b: "smem_base m qs" using ok by (simp add: smem_ok_def)
  note d = smem_baseD[OF b] and sz = smem_size_props(1,2)[of size0]
  have eq: "(if unat (RT_ALIGN size0 8) < 16 then 16 else unat (RT_ALIGN size0 8)) = ?sz" by (simp add: smem_size_def)
  show ?thesis
  proof (cases "?sz > sm_mem_size_aligned m")
    case True
    have "\<not> fits m ?sz q" if "q \<in> set qs" for q
      using tiles_mem[OF d(1) that] True d(2) by (auto simp: fits_def)
    then show ?thesis using True assms(2) by (simp add: rt_smem_alloc_def Let_def eq)
  next
    case small: False
    then have s: "smem_search m ?sz (sm_lfree m) = Some (find (fits m ?sz) qs)"
      using search_ok[OF b] sz(1) by simp
    show ?thesis
    proof (cases "find (fits m ?sz) qs")
      case None
      then have "\<forall>q\<in>set qs. \<not> fits m ?sz q" by (auto simp: find_None_iff)
      then show ?thesis using s small assms(2) None by (simp add: rt_smem_alloc_def Let_def eq)
    next
      case (Some p)
      then have p: "p \<in> set qs" "fits m ?sz p" by (auto simp: find_Some_iff)
      obtain us vs where qs: "qs = us @ p # vs" using p(1) by (meson split_list)
      define m1 where "m1 = smem_carve ?sz p m"
      obtain m2 qs' where m2: "(if p = sm_lfree m1 then map_option (\<lambda>l. m1\<lparr>sm_lfree := l\<rparr>) (lfree_update m1 p) else Some m1) = Some m2"
        "sm_lfree m2 = first_free m2 qs'" "alloc_post ?sz m qs p m2 qs'"
        using alloc_at[OF ok[unfolded qs] p(2) sz] unfolding m1_def qs by blast
      have b2: "smem_base m2 qs'" "p \<in> set qs'" using m2(3) by (auto simp: alloc_post_def smem_ok_def live_def)
      note d2 = smem_baseD[OF b2(1)]
      have a1: "sm_lfree m2 = sm_heap_end m2 \<or> \<not> blk_used m2 (sm_lfree m2)"
        unfolding m2(2) using first_free_mem[of qs' m2]
        by (cases "\<exists>q\<in>set qs'. \<not> blk_used m2 q") (auto simp: first_free_def filter_empty_conv)
      have a2: "p + 16 + ?sz \<le> sm_heap_end m2" using tiles_mem[OF d2(1) b2(2)] m2(3) by (auto simp: alloc_post_def)
      have "8 dvd p" using tiles_aligned[OF d2(1)] b2(2) by simp
      then have a3: "p mod 8 = 0" "(p + 16) mod 8 = 0" by presburger+
      have "rt_smem_alloc size0 m =
          (if p = sm_lfree m1 then map_option (\<lambda>l. m1\<lparr>sm_lfree := l\<rparr>) (lfree_update m1 p) else Some m1) \<bind>
          (\<lambda>m2. if (p = sm_lfree m1 \<longrightarrow> sm_lfree m2 = sm_heap_end m2 \<or> \<not> blk_used m2 (sm_lfree m2)) \<and>
             p + 16 + ?sz \<le> sm_heap_end m2 \<and> (p + 16) mod 8 = 0 \<and> p mod 8 = 0 then Some (Some (p + 16), m2) else None)"
        using s small assms(2) Some by (simp add: rt_smem_alloc_def Let_def eq m1_def)
      then have "rt_smem_alloc size0 m = Some (Some (p + 16), m2)" unfolding m2(1) using a1 a2 a3 by simp
      then show ?thesis using m2(3) by blast
    qed
  qed
qed

section \<open>Changing the size of a block\<close>

lemma byte_irrelevant [simp]:
  "smem_ok (m\<lparr>sm_byte := f\<rparr>) qs = smem_ok m qs" "live (m\<lparr>sm_byte := f\<rparr>) qs = live m qs"
  by (simp_all add: smem_ok_def smem_base_def first_free_def used_bytes_def no_gap_def live_def cong: if_cong)

lemma item_write_used: "item_write p f (m\<lparr>sm_used := u\<rparr>) = (item_write p f m)\<lparr>sm_used := u\<rparr>"
  by (cases m) (simp add: item_write_def fun_eq_iff)

lemma lfree_same: "sm_lfree m = l \<Longrightarrow> m\<lparr>sm_lfree := l\<rparr> = m"
  by (cases m) simp

lemma split_used [simp]: "smem_split p p2 (m\<lparr>sm_used := u\<rparr>) = (smem_split p p2 m)\<lparr>sm_used := u\<rparr>"
  by (simp add: smem_split_def item_write_used Let_def)

lemma shrink_base:
  assumes ok: "smem_ok m (us @ q # vs)" and "blk_used m q" "q + 16 < p2" "p2 + 16 \<le> blk_next m q" "8 dvd p2"
  defines "ms \<equiv> smem_split q p2 m"
  defines "m3 \<equiv> ms\<lparr>sm_used := sm_used m - (blk_next m q - p2), sm_lfree := (if p2 < sm_lfree m then p2 else sm_lfree m)\<rparr>"
  shows "smem_base m3 (us @ q # p2 # vs)" "\<not> blk_used m3 p2" "no_gap m3 (us @ [q])" "no_gap m3 vs"
    and "live m3 (us @ q # p2 # vs) = live m (us @ q # vs)" "same_blocks (live m (us @ q # vs) - {q}) m m3"
    and "blk_next m3 q = p2" "\<forall>a\<in>{q + 16..<p2}. sm_byte m3 a = sm_byte m a"
proof -
  have b: "smem_base m (us @ q # vs)" "no_gap m (us @ q # vs)" using ok by (auto simp: smem_ok_def)
  note d = smem_baseD[OF b(1)]
  have core: "smem_core m (us @ q # vs)" using b(1) d(5) by (metis smem_core_def rt_small_mem.surjective rt_small_mem.update_convs(5))
  have f: "tiles (sm_item m) 0 0 us q" "tiles (sm_item m) q (blk_next m q) vs (sm_heap_end m)"
    using d(1) by (auto simp: tiles_middle)
  have q2: "q + 16 \<le> p2" using assms(3) by simp
  note sp = split_core[OF core q2 assms(4,5), folded ms_def]
  have it: "sm_item m3 = sm_item ms" "sm_byte m3 = sm_byte ms" "sm_heap_end m3 = sm_heap_end m" by (simp_all add: m3_def sp(7))
  have u: "\<forall>r\<in>set (us @ q # vs). blk_used m3 r = blk_used m r" "\<not> blk_used m3 p2" using sp(1,2) it by auto
  have ff: "first_free m3 us = first_free m us" "first_free m3 vs = first_free m vs" "no_gap m3 us = no_gap m us" "no_gap m3 vs = no_gap m vs"
    using state_cong(1,2)[of us m3 m] state_cong(1,2)[of vs m3 m] u it(3) by auto
  show "\<not> blk_used m3 p2" "no_gap m3 (us @ [q])" "no_gap m3 vs" using u ff(3,4) b(2) assms(2) by (cases vs; auto)+
  have lf: "first_free m3 (us @ q # p2 # vs) = sm_lfree m3"
  proof (cases "\<exists>r\<in>set us. \<not> blk_used m r")
    case True
    then have "first_free m us < q" using first_free_mem[OF True] tiles_less[OF f(1)] by blast
    then show ?thesis using True u(1) ff(1) assms(3) d(5) by (auto simp: first_free_append m3_def)
  next
    case False
    then have "sm_lfree m = first_free m vs" using d(5) assms(2) by (auto simp: first_free_append)
    then have "p2 < sm_lfree m" using first_free_le[OF f(2)] assms(4) by simp
    then show ?thesis using False u assms(2) by (auto simp: first_free_append m3_def)
  qed
  have ub: "used_bytes m3 us = used_bytes m us" "used_bytes m3 vs = used_bytes m vs"
    using state_cong(3)[of us m3 m] state_cong(3)[of vs m3 m] u sp(4) it by auto
  have us: "sm_used m3 = used_bytes m3 (us @ q # p2 # vs)"
    using d(6) ub u assms(2,3,4) sp(3) it(1) by (simp add: m3_def)
  have ms: "sm_used m3 \<le> sm_max m3" "sm_mem_size_aligned m3 = sm_mem_size_aligned m" using d(7) sp(8,10) by (simp_all add: m3_def)
  have bn: "\<forall>r\<in>set (us @ q # p2 # vs). blk_used m3 r \<longrightarrow> r + 16 < blk_next m3 r"
    using d(8) u sp(3,4) assms(3) it(1) by auto
  show "smem_base m3 (us @ q # p2 # vs)"
    using d(2,9) sp(6,12,13) it(1,3) lf us ms bn by (intro smem_baseI) (simp_all del: used_bytes_simps first_free_simps)
  show "live m3 (us @ q # p2 # vs) = live m (us @ q # vs)" using u by (auto simp: live_def)
  have "same_blocks (live m (us @ q # vs) - {q}) m ms"
    by (rule same_blocks_mono[OF sp(14)]) (auto simp: live_def)
  then show "same_blocks (live m (us @ q # vs) - {q}) m m3" by (simp add: same_blocks_def m3_def)
  show "blk_next m3 q = p2" "\<forall>a\<in>{q + 16..<p2}. sm_byte m3 a = sm_byte m a" using sp(3,15) it by auto
qed

text \<open>
  What a successful call promises: the block moves or stays, its first bytes are kept, and nothing
  happens to the others.
\<close>

definition realloc_post :: "nat \<Rightarrow> rt_small_mem \<Rightarrow> nat list \<Rightarrow> nat \<Rightarrow> nat \<Rightarrow> rt_small_mem \<Rightarrow> nat list \<Rightarrow> bool" where
  "realloc_post ns m qs q p m' qs' \<longleftrightarrow> smem_ok m' qs' \<and> live m' qs' = insert p (live m qs - {q}) \<and> p \<notin> live m qs - {q} \<and>
     same_blocks (live m qs - {q}) m m' \<and> p + 16 + ns \<le> blk_next m' p \<and> sm_heap_end m' = sm_heap_end m \<and>
     (\<forall>i < min ns (blk_next m q - q - 16). sm_byte m' (p + 16 + i) = sm_byte m (q + 16 + i))"

lemma heap_end_simps [simp]:
  "sm_heap_end (item_write p f m) = sm_heap_end m" "sm_heap_end (absorb p n m) = sm_heap_end m"
  "sm_heap_end (smem_split p p2 m) = sm_heap_end m"
  by (simp_all add: item_write_def absorb_def smem_split_def Let_def)

lemma plug_heap_end: "plug_holes p m = Some m' \<Longrightarrow> sm_heap_end m' = sm_heap_end m"
  by (auto simp: plug_holes_def Let_def split: if_split_asm)

lemma free_heap_end: "rt_smem_free r m = Some m' \<Longrightarrow> sm_heap_end m' = sm_heap_end m"
  by (auto simp: rt_smem_free_def Let_def split: option.splits if_split_asm dest!: plug_heap_end)

lemma shrink_ok:
  assumes ok: "smem_ok m qs" and "q \<in> live m qs" "0 < ns" "8 dvd ns" "ns + 16 + 12 < blk_next m q - q - 16"
    "ns = unat (RT_ALIGN size0 8)"
  shows "\<exists>m' qs'. rt_smem_realloc (Some (q + 16)) size0 m = Some (Some (q + 16), m') \<and> realloc_post ns m qs q q m' qs'"
proof -
  have q: "q \<in> set qs" "blk_used m q" using assms(2) by (auto simp: live_def)
  obtain us vs where qs: "qs = us @ q # vs" using q(1) by (meson split_list)
  note d = smem_baseD[OF ok[unfolded smem_ok_def, THEN conjunct1]]
  define p2 where "p2 = q + 16 + ns"
  have al: "8 dvd q" using tiles_aligned[OF d(1)] q(1) by simp
  have p2: "q + 16 < p2" "p2 + 16 \<le> blk_next m q" "8 dvd p2" using assms(3-5) al by (auto simp: p2_def intro!: dvd_add)
  define m3 where "m3 = (smem_split q p2 m)\<lparr>sm_used := sm_used m - (blk_next m q - p2), sm_lfree := (if p2 < sm_lfree m then p2 else sm_lfree m)\<rparr>"
  note sb = shrink_base[OF ok[unfolded qs] q(2) p2, folded m3_def qs]
  obtain m' qs' where m': "plug_holes p2 m3 = Some m'" "smem_ok m' qs'" "live m' qs' = live m qs" "same_blocks (live m qs) m3 m'"
    using plug_holes_ok[of m3 "us @ [q]" p2 vs] sb(1-5) by auto
  have le: "blk_next m q \<le> sm_heap_end m" using tiles_mem[OF d(1) q(1)] by simp
  have g: "(q + 16) mod 8 = 0" "q + 16 < sm_heap_end m" "ns \<le> sm_mem_size_aligned m" "ns \<noteq> blk_next m q - q - 16"
    using al assms(3,5) le d(2) by (auto simp: dvd_eq_mod_eq_0)
  have sl: "sm_lfree (smem_split q p2 m) = sm_lfree m" by (simp add: smem_split_def item_write_def Let_def)
  have us: "sm_used m - (blk_next m q - p2) = sm_used m - (blk_next m q - q - 16 - ns)" by (simp add: p2_def)
  have "rt_smem_realloc (Some (q + 16)) size0 m = map_option (\<lambda>m4. (Some (q + 16), m4)) (plug_holes p2 m3)"
    using g assms(3,5) sl us lfree_same[of "smem_split q p2 m" "sm_lfree m"] unfolding m3_def
    by (auto simp: rt_smem_realloc_def Let_def assms(6)[symmetric] p2_def lfree_same)
  moreover have "realloc_post ns m qs q q m' qs'"
  proof -
    have sq: "blk_next m' q = p2" "\<forall>a\<in>{q + 16..<p2}. sm_byte m' a = sm_byte m a"
      using m'(4) assms(2) sb(7,8) by (auto simp: same_blocks_def)
    have "same_blocks (live m qs - {q}) m m'"
      using same_blocks_trans[OF sb(6) same_blocks_mono[OF m'(4)]] by blast
    moreover have "sm_heap_end m' = sm_heap_end m"
      using plug_heap_end[OF m'(1)] by (simp add: m3_def)
    ultimately show ?thesis
      using m'(2,3) sq assms(2) by (auto simp: realloc_post_def p2_def)
  qed
  ultimately show ?thesis using m'(1) by auto
qed

lemma move_ok:
  assumes ok: "smem_ok m qs" and "q \<in> live m qs" and a: "rt_smem_alloc w m = Some (Some (p + 16), m1)"
    "alloc_post sz m qs p m1 qs1" "n = min (blk_next m q - q - 16) ns" "ns \<le> sz"
  shows "\<exists>m' qs'. rt_smem_free (Some (q + 16)) (byte_copy (p + 16) (q + 16) n m1) = Some m' \<and> realloc_post ns m qs q p m' qs'"
proof -
  define mc where "mc = byte_copy (p + 16) (q + 16) n m1"
  have ap: "fits m sz p" "smem_ok m1 qs1" "live m1 qs1 = insert p (live m qs)" "same_blocks (live m qs) m m1"
    "p + 16 + sz \<le> blk_next m1 p" "sm_heap_end m1 = sm_heap_end m" "p \<in> set qs"
    using a(2) by (auto simp: alloc_post_def)
  have pq: "p \<notin> live m qs" "p \<noteq> q" using ap(1) assms(2) by (auto simp: fits_def live_def)
  have c: "smem_ok mc qs1" "live mc qs1 = insert p (live m qs)" "sm_item mc = sm_item m1" "sm_heap_end mc = sm_heap_end m"
    using ap(2,3,6) by (simp_all add: mc_def byte_copy_def)
  have q1: "q \<in> live mc qs1" using c(2) assms(2) by simp
  obtain m' qs' where f: "rt_smem_free (Some (q + 16)) mc = Some m'" "smem_ok m' qs'" "live m' qs' = live mc qs1 - {q}"
    "same_blocks (live mc qs1 - {q}) mc m'"
    using free_ok[OF c(1) q1] by blast
  have keep: "same_blocks (live m qs - {q}) m mc"
    unfolding same_blocks_def
  proof
    fix r assume r: "r \<in> live m qs - {q}"
    have t: "tiles (sm_item m1) 0 0 qs1 (sm_heap_end m1)" using ap(2) unfolding smem_ok_def smem_base_def by blast
    have "r \<in> set qs1" "p \<in> set qs1" "r \<noteq> p" using ap(3) r pq by (auto simp: live_def)
    then have "blk_next m1 r \<le> p \<or> blk_next m1 p \<le> r" by (rule tiles_disjoint[OF t])
    moreover have "blk_next m1 r = blk_next m r" "\<forall>a\<in>{r + 16..<blk_next m r}. sm_byte m1 a = sm_byte m a"
      using ap(4) r by (auto simp: same_blocks_def)
    moreover have "n \<le> sz" using a(3) assms(6) by simp
    ultimately show "blk_next mc r = blk_next m r \<and> (\<forall>a\<in>{r + 16..<blk_next m r}. sm_byte mc a = sm_byte m a)"
      using ap(5) c(3) by (auto simp: mc_def byte_copy_def)
  qed
  have sb: "same_blocks (live m qs - {q}) m m'"
    by (rule same_blocks_trans[OF keep same_blocks_mono[OF f(4)]]) (use c(2) in auto)
  have pm: "blk_next m' p = blk_next m1 p" "\<forall>a\<in>{p + 16..<blk_next m1 p}. sm_byte m' a = sm_byte mc a"
    using f(4) c(2,3) pq by (auto simp: same_blocks_def)
  have "sm_byte m' (p + 16 + i) = sm_byte m (q + 16 + i)" if "i < n" for i
  proof -
    have "sm_byte m' (p + 16 + i) = sm_byte mc (p + 16 + i)" using pm(2) that ap(5) a(3) assms(6) by simp
    also have "\<dots> = sm_byte m1 (q + 16 + i)" using that by (simp add: mc_def byte_copy_def)
    also have "\<dots> = sm_byte m (q + 16 + i)" using ap(4) assms(2) that a(3) by (auto simp: same_blocks_def)
    finally show ?thesis .
  qed
  then have "realloc_post ns m qs q p m' qs'"
    using f(2,3) c(2) pq sb ap(5) pm(1) assms(6) free_heap_end[OF f(1)] c(4) a(3)
    by (auto simp: realloc_post_def min.commute)
  then show ?thesis using f(1) unfolding mc_def by blast
qed

lemma realloc_ok:
  assumes ok: "smem_ok m qs" and q: "q \<in> live m qs" and k: "0 < unat (RT_ALIGN k 8)"
  shows "rt_smem_realloc (Some (q + 16)) k m = Some (None, m) \<or>
    (\<exists>p m' qs'. rt_smem_realloc (Some (q + 16)) k m = Some (Some (p + 16), m') \<and>
       realloc_post (unat (RT_ALIGN k 8)) m qs q p m' qs')"
proof -
  let ?ns = "unat (RT_ALIGN k 8)" and ?sz = "blk_next m q - q - 16"
  have q': "q \<in> set qs" "blk_used m q" using q by (auto simp: live_def)
  note d = smem_baseD[OF ok[unfolded smem_ok_def, THEN conjunct1]]
  have al: "8 dvd q" using tiles_aligned[OF d(1)] q'(1) by simp
  have e: "q + 16 < sm_heap_end m" using tiles_mem[OF d(1) q'(1)] d(8) q' by auto
  have g: "(q + 16) mod 8 = 0" using al by presburger
  have d8: "8 dvd ?ns" by (simp add: align_8)
  have id: "RT_ALIGN (RT_ALIGN k 8) 8 = RT_ALIGN k 8" by (rule align_8_id[OF d8])
  consider (big) "?ns > sm_mem_size_aligned m" | (same) "?ns \<le> sm_mem_size_aligned m" "?sz = ?ns"
    | (shrink) "?ns + 16 + 12 < ?sz" | (move) "?ns \<le> sm_mem_size_aligned m" "?sz \<noteq> ?ns" "\<not> ?ns + 16 + 12 < ?sz" by linarith
  then show ?thesis
  proof cases
    case big
    then show ?thesis by (simp add: rt_smem_realloc_def Let_def)
  next
    case same
    have "rt_smem_realloc (Some (q + 16)) k m = Some (Some (q + 16), m)"
      using same k g e by (simp add: rt_smem_realloc_def Let_def)
    moreover have "realloc_post ?ns m qs q q m qs"
      using ok q same(2) tiles_mem[OF d(1) q'(1)] by (auto simp: realloc_post_def)
    ultimately show ?thesis by blast
  next
    case shrink
    show ?thesis using shrink_ok[OF ok q k d8 shrink refl] by blast
  next
    case move
    define w where "w = RT_ALIGN k 8"
    have w: "w \<noteq> 0" "?ns \<le> smem_size w" using k id by (auto simp: w_def smem_size_def)
    have eq: "rt_smem_realloc (Some (q + 16)) k m =
        rt_smem_alloc w m \<bind> (\<lambda>(nmem, m1). case nmem of None \<Rightarrow> Some (None, m1)
          | Some b \<Rightarrow> map_option (\<lambda>m2. (Some b, m2)) (rt_smem_free (Some (q + 16)) (byte_copy b (q + 16) (min ?sz ?ns) m1)))"
      using move k g e by (simp add: rt_smem_realloc_def Let_def w_def del: diff_diff_left)
    from alloc_ok[OF ok w(1)] show ?thesis
    proof (elim disjE exE conjE)
      fix p m1 qs1
      assume a: "rt_smem_alloc w m = Some (Some (p + 16), m1)" "alloc_post (smem_size w) m qs p m1 qs1"
      obtain m' qs' where "rt_smem_free (Some (q + 16)) (byte_copy (p + 16) (q + 16) (min ?sz ?ns) m1) = Some m'"
        "realloc_post ?ns m qs q p m' qs'"
        using move_ok[OF ok q a refl w(2)] by blast
      then show ?thesis using a(1) eq by auto
    qed (simp add: eq)
  qed
qed

section \<open>A heap in use\<close>

lemma init_ok:
  assumes "rt_smem_init hdr b sz = Some m"
  shows "smem_ok m [0]" "live m [0] = {}"
    and "sm_heap_ptr m = RT_ALIGN (RT_ALIGN b 8 + hdr) 8"
    and "unat (sm_heap_ptr m) + sm_mem_size_aligned m + 32 = unat (RT_ALIGN_DOWN (b + sz) 8)"
proof -
  define st e where "st = RT_ALIGN b 8 + hdr" and "e = RT_ALIGN_DOWN (b + sz) 8"
  have c: "32 < e" "st \<le> e - 32" using assms by (auto simp: rt_smem_init_def Let_def st_def e_def split: if_splits)
  have e8: "8 dvd unat e" by (simp add: e_def align_down_8)
  have e32: "unat (e - 32) = unat e - 32" using c(1) by (subst unat_sub) (auto simp: word_less_nat_alt word_le_nat_alt)
  have le: "unat st + 32 \<le> unat e" using c e32 by (simp add: word_le_nat_alt word_less_nat_alt)
  have eb: "unat e < 2 ^ 32" using unsigned_less[of e] by simp
  then have al: "unat (RT_ALIGN st 8) = (unat st + 7) div 8 * 8" using le by (simp add: align_8)
  obtain j where j: "unat e = 8 * j" using e8 by blast
  have "(unat st + 7) div 8 < j - 3" by (rule less_mult_imp_div_less) (use le j in auto)
  then have le2: "(unat st + 7) div 8 * 8 + 32 \<le> unat e" using j by simp
  then have "unat (e - RT_ALIGN st 8) = unat e - (unat st + 7) div 8 * 8"
    using al by (subst unat_sub) (auto simp: word_le_nat_alt)
  then have ms: "unat (e - RT_ALIGN st 8 - 32) = unat e - (unat st + 7) div 8 * 8 - 32"
    using le2 by (subst unat_sub) (auto simp: word_le_nat_alt)
  define n where "n = unat (e - RT_ALIGN st 8 - 32)"
  have d8: "8 dvd n" using e8 le2 unfolding n_def ms by (auto intro!: dvd_diff_nat)
  have n: "n + 16 < 2 ^ 32" using eb le2 unfolding n_def ms by simp
  have m: "m = item_write (n + 16) (\<lambda>_. \<lparr>it_pool = True, it_used = True, it_next = n + 16, it_prev = n + 16\<rparr>)
      (item_write 0 (\<lambda>_. \<lparr>it_pool = True, it_used = False, it_next = n + 16, it_prev = 0\<rparr>)
      \<lparr>sm_heap_ptr = RT_ALIGN st 8, sm_item = (\<lambda>_. \<lparr>it_pool = False, it_used = False, it_next = 0, it_prev = 0\<rparr>),
       sm_byte = (\<lambda>_. None), sm_heap_end = n + 16, sm_lfree = 0, sm_mem_size_aligned = n, sm_used = 0, sm_max = 0\<rparr>)"
    using assms c unfolding st_def[symmetric] e_def[symmetric] n_def
    by (simp add: rt_smem_init_def Let_def st_def[symmetric] e_def[symmetric])
  have d8': "8 dvd n + 16" using d8 by presburger
  show "smem_ok m [0]" "live m [0] = {}"
    using n d8' by (simp_all add: m smem_ok_def smem_base_def item_write_def live_def)
  show "sm_heap_ptr m = RT_ALIGN (RT_ALIGN b 8 + hdr) 8" by (simp add: m item_write_def st_def)
  show "unat (sm_heap_ptr m) + sm_mem_size_aligned m + 32 = unat (RT_ALIGN_DOWN (b + sz) 8)"
    using le2 al by (simp add: m item_write_def n_def ms e_def[symmetric])
qed

text \<open>
  Callers that follow the rules: they release and resize the blocks they have got and write only into
  them. Sizes are at most \<open>0xFFFFFFF8\<close>, so that rounding them up to 8 bytes does not wrap. \<open>A\<close> maps the pointers handed out to the sizes asked for.
\<close>

inductive smem_run :: "rt_small_mem \<Rightarrow> (nat \<rightharpoonup> nat) \<Rightarrow> bool" where
  run_init: "rt_smem_init hdr b sz = Some m \<Longrightarrow> smem_run m Map.empty"
| run_alloc: "smem_run m A \<Longrightarrow> unat n \<le> 0xFFFFFFF8 \<Longrightarrow> rt_smem_alloc n m = Some (r, m') \<Longrightarrow>
    smem_run m' (case r of None \<Rightarrow> A | Some a \<Rightarrow> A(a \<mapsto> unat n))"
| run_free: "smem_run m A \<Longrightarrow> A a = Some n \<Longrightarrow> rt_smem_free (Some a) m = Some m' \<Longrightarrow> smem_run m' (A(a := None))"
| run_realloc: "smem_run m A \<Longrightarrow> A a = Some n \<Longrightarrow> unat k \<le> 0xFFFFFFF8 \<Longrightarrow> rt_smem_realloc (Some a) k m = Some (r, m') \<Longrightarrow>
    smem_run m' (if k = 0 then A(a := None) else case r of None \<Rightarrow> A | Some b \<Rightarrow> A(a := None, b \<mapsto> unat k))"
| run_store: "smem_run m A \<Longrightarrow> A a = Some n \<Longrightarrow> i < n \<Longrightarrow> smem_run (m\<lparr>sm_byte := (sm_byte m)(a + i \<mapsto> v)\<rparr>) A"

definition run_inv :: "rt_small_mem \<Rightarrow> (nat \<rightharpoonup> nat) \<Rightarrow> nat list \<Rightarrow> bool" where
  "run_inv m A qs \<longleftrightarrow> smem_ok m qs \<and> (\<forall>a\<in>dom A. 16 \<le> a) \<and> (\<forall>q. q \<in> live m qs \<longleftrightarrow> q + 16 \<in> dom A) \<and>
     (\<forall>q n. A (q + 16) = Some n \<longrightarrow> 0 < n \<and> q + 16 + n \<le> blk_next m q)"

lemma run_invD:
  assumes "run_inv m A qs"
  shows "smem_ok m qs" "q \<in> live m qs \<longleftrightarrow> q + 16 \<in> dom A" "A (q + 16) = Some n \<Longrightarrow> 0 < n \<and> q + 16 + n \<le> blk_next m q"
  using assms unfolding run_inv_def by blast+

lemma run_inv_ptr: "run_inv m A qs \<Longrightarrow> A a = Some n \<Longrightarrow> \<exists>q\<in>live m qs. a = q + 16"
  unfolding run_inv_def by (metis domI le_add_diff_inverse2)

text \<open>All three calls: the block \<open>q\<close> goes, the block \<open>p\<close> comes, the others stay as they are.\<close>

lemma run_inv_change:
  assumes i: "run_inv m A qs" and "smem_ok m' qs'" "live m' qs' = insert p (live m qs - {q})"
    "same_blocks (live m qs - {q}) m m'" "p \<notin> live m qs - {q}" "0 < k" "p + 16 + k \<le> blk_next m' p"
  shows "run_inv m' (A(q + 16 := None, p + 16 \<mapsto> k)) qs'"
proof -
  have "r + 16 + n \<le> blk_next m' r \<and> 0 < n" if "A (r + 16) = Some n" "r \<noteq> q" for r n
    using assms(4) that run_invD(2,3)[OF i, of r] by (auto simp: same_blocks_def)
  moreover have "\<forall>r. r \<in> live m' qs' \<longleftrightarrow> r + 16 \<in> dom (A(q + 16 := None, p + 16 \<mapsto> k))"
    using assms(3) run_invD(2)[OF i] by auto
  ultimately show ?thesis using i assms(2,6,7) unfolding run_inv_def by auto
qed

lemma run_inv_free:
  assumes i: "run_inv m A qs" and "smem_ok m' qs'" "live m' qs' = live m qs - {q}" "same_blocks (live m qs - {q}) m m'"
  shows "run_inv m' (A(q + 16 := None)) qs'"
proof -
  have "r + 16 + n \<le> blk_next m' r \<and> 0 < n" if "A (r + 16) = Some n" "r \<noteq> q" for r n
    using assms(4) that run_invD(2,3)[OF i, of r] by (auto simp: same_blocks_def)
  moreover have "\<forall>r. r \<in> live m' qs' \<longleftrightarrow> r + 16 \<in> dom (A(q + 16 := None))"
    using assms(3) run_invD(2)[OF i] by auto
  ultimately show ?thesis using i assms(2) unfolding run_inv_def by auto
qed

lemma run_inv_alloc:
  assumes i: "run_inv m A qs" and "unat n \<le> 0xFFFFFFF8" "n \<noteq> 0" "alloc_post (smem_size n) m qs p m' qs'"
  shows "run_inv m' (A(p + 16 \<mapsto> unat n)) qs'" "p + 16 \<notin> dom A"
proof -
  have ap: "fits m (smem_size n) p" "smem_ok m' qs'" "live m' qs' = insert p (live m qs)" "same_blocks (live m qs) m m'"
    "p + 16 + smem_size n \<le> blk_next m' p"
    using assms(4) by (auto simp: alloc_post_def)
  have np: "p \<notin> live m qs" using ap(1) by (auto simp: fits_def live_def)
  then show "p + 16 \<notin> dom A" using run_invD(2)[OF i] by blast
  then have "A(p + 16 := None) = A" by (auto simp: fun_eq_iff)
  moreover have "p + 16 + unat n \<le> blk_next m' p" "0 < unat n"
    using smem_size_props(3)[OF assms(2)] ap(5) assms(3) by (auto simp: unat_gt_0)
  ultimately show "run_inv m' (A(p + 16 \<mapsto> unat n)) qs'"
    using run_inv_change[OF i ap(2), of p p "unat n"] ap(3,4) np by simp
qed

lemma realloc_zero:
  "unat (RT_ALIGN k 8) = 0 \<Longrightarrow> rt_smem_realloc r k m = map_option (\<lambda>m1. (None, m1)) (rt_smem_free r m)"
  by (simp add: rt_smem_realloc_def Let_def)

lemma realloc_cases:
  assumes i: "run_inv m A qs" and a: "A a = Some n" and k: "unat k \<le> 0xFFFFFFF8"
  obtains (fail) "rt_smem_realloc (Some a) k m = Some (None, m)" "k \<noteq> 0"
    | (freed) q m' qs' where "k = 0" "a = q + 16" "q \<in> live m qs" "rt_smem_realloc (Some a) k m = Some (None, m')"
      "run_inv m' (A(a := None)) qs'" "same_blocks (live m qs - {q}) m m'"
    | (moved) q p m' qs' where "k \<noteq> 0" "a = q + 16" "q \<in> live m qs" "rt_smem_realloc (Some a) k m = Some (Some (p + 16), m')"
      "run_inv m' (A(a := None, p + 16 \<mapsto> unat k)) qs'" "realloc_post (unat (RT_ALIGN k 8)) m qs q p m' qs'"
proof -
  obtain q where q: "q \<in> live m qs" "a = q + 16" using run_inv_ptr[OF i a] by blast
  have al: "unat (RT_ALIGN k 8) = (unat k + 7) div 8 * 8" using k by (simp add: align_8)
  show thesis
  proof (cases "k = 0")
    case True
    obtain m' qs' where "rt_smem_free (Some a) m = Some m'" "smem_ok m' qs'" "live m' qs' = live m qs - {q}"
      "same_blocks (live m qs - {q}) m m'"
      using free_ok[OF run_invD(1)[OF i] q(1)] q(2) by blast
    then show thesis using freed[of q m' qs'] True q al run_inv_free[OF i] realloc_zero[of k] by auto
  next
    case False
    then have k0: "0 < unat k" by (simp add: unat_gt_0)
    have ge: "unat k \<le> unat (RT_ALIGN k 8)" unfolding al by presburger
    have "0 < unat (RT_ALIGN k 8)" using k0 ge by simp
    from realloc_ok[OF run_invD(1)[OF i] q(1) this] show thesis
    proof (elim disjE exE conjE)
      fix p m' qs' assume r: "rt_smem_realloc (Some (q + 16)) k m = Some (Some (p + 16), m')"
        "realloc_post (unat (RT_ALIGN k 8)) m qs q p m' qs'"
      have "run_inv m' (A(q + 16 := None, p + 16 \<mapsto> unat k)) qs'"
        by (rule run_inv_change[OF i]) (use r(2) k0 ge in \<open>auto simp: realloc_post_def\<close>)
      then show thesis using moved[OF False q(2,1)] r q(2) by blast
    qed (use fail False q(2) in simp)
  qed
qed

lemma smem_run_inv: "smem_run m A \<Longrightarrow> \<exists>qs. run_inv m A qs"
proof (induction rule: smem_run.induct)
  case (run_init hdr b sz m)
  have "run_inv m Map.empty [0]" using init_ok(1,2)[OF run_init] by (auto simp: run_inv_def)
  then show ?case by blast
next
  case (run_alloc m A n r m')
  then obtain qs where i: "run_inv m A qs" by blast
  show ?case
  proof (cases "n = 0")
    case True
    then show ?thesis using run_alloc i by (auto simp: rt_smem_alloc_def)
  next
    case False
    from alloc_ok[OF run_invD(1)[OF i] False] show ?thesis
    proof (elim disjE exE conjE)
      fix p m1 qs1 assume a: "rt_smem_alloc n m = Some (Some (p + 16), m1)" "alloc_post (smem_size n) m qs p m1 qs1"
      have "r = Some (p + 16)" "m' = m1" using a(1) run_alloc.hyps(3) by auto
      then show ?thesis using run_inv_alloc(1)[OF i run_alloc.hyps(2) False a(2)] by (simp only: option.case) blast
    qed (use run_alloc i in auto)
  qed
next
  case (run_free m A a n m')
  then obtain qs where i: "run_inv m A qs" by blast
  obtain q where q: "q \<in> live m qs" "a = q + 16" using run_inv_ptr[OF i run_free.hyps(2)] by blast
  obtain m1 qs1 where f: "rt_smem_free (Some a) m = Some m1" "smem_ok m1 qs1" "live m1 qs1 = live m qs - {q}"
    "same_blocks (live m qs - {q}) m m1"
    using free_ok[OF run_invD(1)[OF i] q(1)] q(2) by blast
  have "m' = m1" using f(1) run_free.hyps(3) by simp
  then show ?case using run_inv_free[OF i f(2-4)] q(2) by blast
next
  case (run_realloc m A a n k r m')
  then obtain qs where i: "run_inv m A qs" by blast
  show ?case
  proof (rule realloc_cases[OF i run_realloc.hyps(2,3)])
    fix q m1 qs1 assume a: "k = 0" "rt_smem_realloc (Some a) k m = Some (None, m1)" "run_inv m1 (A(a := None)) qs1"
    then have "m' = m1" using run_realloc.hyps(4) by simp
    then show ?thesis unfolding if_P[OF a(1)] using a(3) by blast
  next
    fix q p m1 qs1 assume a: "k \<noteq> 0" "rt_smem_realloc (Some a) k m = Some (Some (p + 16), m1)"
      "run_inv m1 (A(a := None, p + 16 \<mapsto> unat k)) qs1"
    then have "r = Some (p + 16)" "m' = m1" using run_realloc.hyps(4) by auto
    then show ?thesis unfolding if_not_P[OF a(1)] using a(3) by (simp only: option.case) blast
  qed (use run_realloc.hyps(4) i in auto)
next
  case (run_store m A a n i v)
  then obtain qs where "run_inv m A qs" by blast
  then have "run_inv (m\<lparr>sm_byte := (sm_byte m)(a + i \<mapsto> v)\<rparr>) A qs" by (simp add: run_inv_def)
  then show ?case by blast
qed

lemma tiles_unique: "tiles it pr p qs e \<Longrightarrow> tiles it pr p qs' e \<Longrightarrow> qs = qs'"
proof (induction qs arbitrary: pr p qs')
  case Nil
  then show ?case using tiles_less[of it pr p qs' e] by (cases qs') auto
next
  case (Cons q qs)
  then have "p < e" using tiles_less[OF Cons.prems(1), of q] by simp
  then obtain rs where "qs' = q # rs" using Cons.prems by (cases qs') auto
  then show ?case using Cons by auto
qed

lemma item_write_unused: "\<not> blk_used m q \<Longrightarrow> (\<And>it. it_used (f it) \<Longrightarrow> it_used it) \<Longrightarrow> \<not> blk_used (item_write p f m) q"
  by (auto simp: item_write_def)

lemma absorb_unused: "\<not> blk_used m q \<Longrightarrow> \<not> blk_used (absorb p n m) q"
  unfolding absorb_def Let_def by (intro item_write_unused) (auto split: if_splits)

lemma plug_holes_unused: "plug_holes p m = Some m' \<Longrightarrow> \<not> blk_used m q \<Longrightarrow> \<not> blk_used m' q"
  by (auto simp: plug_holes_def Let_def absorb_unused split: if_split_asm)

lemma free_used:
  assumes "rt_smem_free (Some a) m = Some m'"
  shows "\<not> blk_used m' (a - 16)"
proof -
  obtain m3 where "plug_holes (a - 16) m3 = Some m'" "\<not> blk_used m3 (a - 16)"
    using assms by (auto simp: rt_smem_free_def Let_def item_write_def split: if_split_asm)
  then show ?thesis by (rule plug_holes_unused)
qed

text \<open>An example heap of 176 bytes, of which two blocks are handed out.\<close>

definition smem_ex0 :: rt_small_mem where "smem_ex0 = the (rt_smem_init 44 0x20000000 0x100)"
definition smem_ex1 :: rt_small_mem where "smem_ex1 = snd (the (rt_smem_alloc 24 smem_ex0))"
definition smem_ex2 :: rt_small_mem where "smem_ex2 = snd (the (rt_smem_alloc 8 smem_ex1))"

lemma smem_ex_init: "rt_smem_init 44 0x20000000 0x100 = Some smem_ex0"
proof -
  have "rt_smem_init 44 0x20000000 0x100 \<noteq> None" by code_simp
  then show ?thesis by (auto simp: smem_ex0_def)
qed

lemma smem_ex_alloc:
  "rt_smem_alloc 24 smem_ex0 = Some (Some 16, smem_ex1)" "rt_smem_alloc 8 smem_ex1 = Some (Some 56, smem_ex2)"
proof -
  have "map_option fst (rt_smem_alloc 24 smem_ex0) = Some (Some 16)" by code_simp
  then show "rt_smem_alloc 24 smem_ex0 = Some (Some 16, smem_ex1)"
    by (cases "rt_smem_alloc 24 smem_ex0") (auto simp: smem_ex1_def)
  have "map_option fst (rt_smem_alloc 8 smem_ex1) = Some (Some 56)" by code_simp
  then show "rt_smem_alloc 8 smem_ex1 = Some (Some 56, smem_ex2)"
    by (cases "rt_smem_alloc 8 smem_ex1") (auto simp: smem_ex2_def)
qed

lemma smem_ex_run:
  "smem_run smem_ex0 Map.empty" "smem_run smem_ex1 [16 \<mapsto> 24]" "smem_run smem_ex2 [16 \<mapsto> 24, 56 \<mapsto> 8]"
proof -
  show r0: "smem_run smem_ex0 Map.empty" by (rule run_init[OF smem_ex_init])
  show r1: "smem_run smem_ex1 [16 \<mapsto> 24]" using run_alloc[OF r0 _ smem_ex_alloc(1)] by simp
  show "smem_run smem_ex2 [16 \<mapsto> 24, 56 \<mapsto> 8]" using run_alloc[OF r1 _ smem_ex_alloc(2)] by simp
qed

section \<open>What the callers can rely on\<close>

text \<open>
  C11. Memory safety of the allocator: after any sequence of allocations, releases, resizings and
  writes by callers that follow the rules and ask for at most \<open>0xFFFFFFF8\<close> bytes at a time, every block
  handed out is aligned to 8 bytes and lies inside the heap, behind its header, and no two of them
  overlap, headers included. Above that size the rounding up to 8 bytes wraps around, and the block is
  smaller than asked for (\<open>smem_alloc_wraps\<close>).
\<close>

theorem smem_blocks_disjoint:
  assumes "smem_run m A" "A a = Some n"
  shows "8 dvd a \<and> 16 \<le> a \<and> a + n \<le> sm_heap_end m \<and>
    (\<forall>b k. A b = Some k \<longrightarrow> b \<noteq> a \<longrightarrow> {a - 16..<a + n} \<inter> {b - 16..<b + k} = {})"
proof -
  obtain qs where i: "run_inv m A qs" using smem_run_inv[OF assms(1)] by blast
  note t = smem_baseD(1)[OF run_invD(1)[OF i, unfolded smem_ok_def, THEN conjunct1]]
  have one: "\<exists>q\<in>set qs. x = q + 16 \<and> x + k \<le> blk_next m q" if "A x = Some k" for x k
    using run_inv_ptr[OF i that] run_invD(3)[OF i] that by (auto simp: live_def)
  obtain q where q: "q \<in> set qs" "a = q + 16" "a + n \<le> blk_next m q" using one[OF assms(2)] by blast
  have "{a - 16..<a + n} \<inter> {b - 16..<b + k} = {}" if b: "A b = Some k" "b \<noteq> a" for b k
  proof -
    obtain r where "r \<in> set qs" "b = r + 16" "b + k \<le> blk_next m r" using one[OF b(1)] by blast
    then show ?thesis using tiles_disjoint[OF t q(1), of r] q b(2) by auto
  qed
  moreover have "8 dvd q" "blk_next m q \<le> sm_heap_end m" using tiles_aligned[OF t] tiles_mem[OF t q(1)] q(1) by auto
  ultimately show ?thesis using q by auto
qed

theorem smem_blocks_disjoint_witness:
  "{16 - 16..<16 + 24} \<inter> {56 - 16..<56 + 8} = ({} :: nat set) \<and> 16 + 24 \<le> sm_heap_end smem_ex2"
proof -
  have "16 + 24 \<le> sm_heap_end smem_ex2 \<and>
      (\<forall>b k. [16 \<mapsto> 24, 56 \<mapsto> 8] b = Some k \<longrightarrow> b \<noteq> 16 \<longrightarrow> {16 - 16..<16 + 24} \<inter> {b - 16..<b + k} = ({} :: nat set))"
    using smem_blocks_disjoint[OF smem_ex_run(3), of 16 24] by simp
  then show ?thesis by (auto dest!: spec[of _ 56])
qed

text \<open>
  C27. On a heap used according to the rules no call runs into a failing assertion and every loop
  ends: an allocation and a resizing of any size, also one whose alignment wraps around, and the
  release of any block that was handed out return.
\<close>

theorem smem_calls_return:
  assumes "smem_run m A"
  shows "(\<exists>r. rt_smem_alloc n m = Some r) \<and>
    (A a \<noteq> None \<longrightarrow> (\<exists>m'. rt_smem_free (Some a) m = Some m') \<and> (\<exists>r. rt_smem_realloc (Some a) n m = Some r))"
proof (intro conjI impI)
  obtain qs where i: "run_inv m A qs" using smem_run_inv[OF assms] by blast
  note ok = run_invD(1)[OF i]
  show "\<exists>r. rt_smem_alloc n m = Some r"
    using alloc_ok[OF ok, of n] by (cases "n = 0") (auto simp: rt_smem_alloc_def)
  assume "A a \<noteq> None"
  then obtain q where q: "q \<in> live m qs" "a = q + 16" using run_inv_ptr[OF i] by blast
  show f: "\<exists>m'. rt_smem_free (Some a) m = Some m'" using free_ok[OF ok q(1)] q(2) by blast
  show "\<exists>r. rt_smem_realloc (Some a) n m = Some r"
    using realloc_ok[OF ok q(1), of n] f q(2) realloc_zero[of n] by (cases "unat (RT_ALIGN n 8) = 0") auto
qed

theorem smem_calls_return_witness:
  "(\<exists>m'. rt_smem_free (Some 16) smem_ex2 = Some m') \<and> (\<exists>r. rt_smem_realloc (Some 16) 0xFFFFFFFF smem_ex2 = Some r)"
  using smem_calls_return[OF smem_ex_run(3), of "0xFFFFFFFF" 16] by simp

text \<open>
  C28. The allocator is complete: a request that does not wrap around is refused only if no free
  block of the heap can hold it, rounded up to a multiple of 8 and to at least 16 bytes. (\<open>qs\<close> are the
  blocks of the heap; they are determined by the headers.)
\<close>

theorem smem_alloc_complete:
  assumes "smem_run m A" "tiles (sm_item m) 0 0 qs (sm_heap_end m)" "0 < unat n" "unat n \<le> 0xFFFFFFF8"
    "rt_smem_alloc n m = Some (r, m')"
  shows "r = None \<longleftrightarrow>
    (\<forall>q\<in>set qs. it_used (sm_item m q) \<or> it_next (sm_item m q) - (q + 16) < max 16 ((unat n + 7) div 8 * 8))"
proof -
  obtain qs1 where i: "run_inv m A qs1" using smem_run_inv[OF assms(1)] by blast
  have ok: "smem_ok m qs" using run_invD(1)[OF i] tiles_unique[OF assms(2)] by (auto simp: smem_ok_def smem_base_def)
  have n: "n \<noteq> 0" "smem_size n = max 16 ((unat n + 7) div 8 * 8)"
    using assms(3,4) by (auto simp: smem_size_def align_8)
  have "(\<forall>q\<in>set qs. \<not> fits m (smem_size n) q) \<longleftrightarrow> r = None"
    using alloc_ok[OF ok n(1)] assms(5) by (auto simp: alloc_post_def)
  then show ?thesis unfolding n(2) fits_def by (auto simp: not_le)
qed

theorem smem_alloc_complete_witness: "fst (the (rt_smem_alloc 200 smem_ex0)) = None"
proof -
  have t: "tiles (sm_item smem_ex0) 0 0 [0] (sm_heap_end smem_ex0)" by code_simp
  obtain r m' where a: "rt_smem_alloc 200 smem_ex0 = Some (r, m')"
    using smem_run_inv[OF smem_ex_run(1)] alloc_ok[of smem_ex0 _ 200] run_invD(1) by fastforce
  have n: "it_next (sm_item smem_ex0 0) = 192" by code_simp
  have "r = None"
    using smem_alloc_complete[OF smem_ex_run(1) t _ _ a] by (simp add: n)
  then show ?thesis using a by simp
qed

text \<open>
  No memory is lost: when every block has been released, the neighbours have all been joined and
  the whole heap is one free block again, with nothing counted as used.
\<close>

theorem smem_all_freed:
  assumes "smem_run m (\<lambda>_. None)"
  shows "\<not> it_used (sm_item m 0) \<and> it_next (sm_item m 0) = sm_heap_end m \<and> sm_lfree m = 0 \<and> sm_used m = 0"
proof -
  obtain qs where i: "run_inv m (\<lambda>_. None) qs" using smem_run_inv[OF assms] by auto
  then have ok: "smem_base m qs" "no_gap m qs" "live m qs = {}" by (auto simp: run_inv_def smem_ok_def)
  note d = smem_baseD[OF ok(1)]
  have u: "\<forall>q\<in>set qs. \<not> blk_used m q" using ok(3) by (auto simp: live_def)
  obtain q qs1 where qs: "qs = q # qs1" using d(1,2) by (cases qs) auto
  have "qs1 = []" using ok(2) u qs by (cases qs1) auto
  then show ?thesis using qs u d(1,5,6) by auto
qed

theorem smem_all_freed_witness:
  "\<not> it_used (sm_item (the (rt_smem_free (Some 16) smem_ex1)) 0) \<and> sm_used (the (rt_smem_free (Some 16) smem_ex1)) = 0"
proof -
  have "rt_smem_free (Some 16) smem_ex1 \<noteq> None" by code_simp
  then obtain m where m: "rt_smem_free (Some 16) smem_ex1 = Some m" by blast
  have "smem_run m (\<lambda>_. None)" using run_free[OF smem_ex_run(2) _ m, of 24] by simp
  then show ?thesis using smem_all_freed[of m] m by simp
qed

text \<open>
  C29. Resizing a block keeps its first bytes, as many as both sizes have, whether the block is kept,
  cut or moved; the other blocks keep all their bytes.
\<close>

theorem smem_realloc_keeps_bytes:
  assumes "smem_run m A" "A a = Some n" "unat k \<le> 0xFFFFFFF8" "rt_smem_realloc (Some a) k m = Some (Some b, m')"
  shows "(\<forall>i < min n (unat k). sm_byte m' (b + i) = sm_byte m (a + i)) \<and>
    (\<forall>c l i. A c = Some l \<longrightarrow> c \<noteq> a \<longrightarrow> i < l \<longrightarrow> sm_byte m' (c + i) = sm_byte m (c + i))"
proof -
  obtain qs where i: "run_inv m A qs" using smem_run_inv[OF assms(1)] by blast
  show ?thesis
  proof (rule realloc_cases[OF i assms(2,3)])
    fix q p m1 qs1
    assume q: "a = q + 16" "q \<in> live m qs" and r: "rt_smem_realloc (Some a) k m = Some (Some (p + 16), m1)"
      "realloc_post (unat (RT_ALIGN k 8)) m qs q p m1 qs1"
    have b: "b = p + 16" "m' = m1" using r(1) assms(4) by auto
    have "unat k \<le> unat (RT_ALIGN k 8)" using assms(3) by (simp add: align_8)
    moreover have "n \<le> blk_next m q - q - 16" using run_invD(3)[OF i, of q n] assms(2) q by auto
    ultimately have "\<forall>j < min n (unat k). sm_byte m' (b + j) = sm_byte m (a + j)"
      using r(2) b q by (auto simp: realloc_post_def)
    moreover have "sm_byte m' (c + j) = sm_byte m (c + j)" if c: "A c = Some l" "c \<noteq> a" "j < l" for c l j
    proof -
      obtain s where s: "s \<in> live m qs" "c = s + 16" using run_inv_ptr[OF i c(1)] by blast
      have "c + l \<le> blk_next m s" "s \<noteq> q" using run_invD(3)[OF i, of s l] c(1,2) s q by auto
      then show ?thesis using r(2) s c(3) b(2) by (auto simp: realloc_post_def same_blocks_def)
    qed
    ultimately show ?thesis by blast
  qed (use assms(4) in auto)
qed

theorem smem_realloc_keeps_bytes_witness:
  "\<exists>m'. rt_smem_realloc (Some 16) 40 smem_ex2 = Some (Some 88, m') \<and> (\<forall>i < 24. sm_byte m' (88 + i) = sm_byte smem_ex2 (16 + i))"
proof -
  have "map_option fst (rt_smem_realloc (Some 16) 40 smem_ex2) = Some (Some 88)" by code_simp
  then obtain m' where m: "rt_smem_realloc (Some 16) 40 smem_ex2 = Some (Some 88, m')" by auto
  show ?thesis using smem_realloc_keeps_bytes[OF smem_ex_run(3) _ _ m, of 24] m by simp
qed

text \<open>
  Allocating and releasing do not touch the contents of the blocks in use.
\<close>

theorem smem_others_untouched:
  assumes "smem_run m A" "A a = Some n" "i < n"
  shows "(\<forall>k r m'. rt_smem_alloc k m = Some (r, m') \<longrightarrow> sm_byte m' (a + i) = sm_byte m (a + i)) \<and>
    (\<forall>b m'. A b \<noteq> None \<longrightarrow> b \<noteq> a \<longrightarrow> rt_smem_free (Some b) m = Some m' \<longrightarrow> sm_byte m' (a + i) = sm_byte m (a + i))"
proof -
  obtain qs where v: "run_inv m A qs" using smem_run_inv[OF assms(1)] by blast
  note ok = run_invD(1)[OF v]
  obtain q where q: "q \<in> live m qs" "a = q + 16" using run_inv_ptr[OF v assms(2)] by blast
  have keep: "sm_byte m' (a + i) = sm_byte m (a + i)" if "same_blocks S m m'" "q \<in> S" for S m'
    using that run_invD(3)[OF v, of q n] assms(2,3) q(2) by (auto simp: same_blocks_def)
  have "sm_byte m' (a + i) = sm_byte m (a + i)" if "rt_smem_alloc k m = Some (r, m')" for k r m'
  proof (cases "k = 0")
    case True
    then show ?thesis using that by (simp add: rt_smem_alloc_def)
  next
    case False
    then have "m' = m \<or> same_blocks (live m qs) m m'" using alloc_ok[OF ok False] that by (auto simp: alloc_post_def)
    then show ?thesis using keep[OF _ q(1)] by blast
  qed
  moreover have "sm_byte m' (a + i) = sm_byte m (a + i)" if b: "A b \<noteq> None" "b \<noteq> a" "rt_smem_free (Some b) m = Some m'" for b m'
  proof -
    obtain s where s: "s \<in> live m qs" "b = s + 16" using run_inv_ptr[OF v] b(1) by blast
    have "q \<in> live m qs - {s}" using q s(2) b(2) by auto
    moreover have "same_blocks (live m qs - {s}) m m'" using free_ok[OF ok s(1)] b(3) s(2) by auto
    ultimately show ?thesis by (intro keep)
  qed
  ultimately show ?thesis by blast
qed

theorem smem_others_untouched_witness:
  "sm_byte (snd (the (rt_smem_alloc 8 smem_ex1))) (16 + 3) = sm_byte smem_ex1 (16 + 3)"
  using smem_others_untouched[OF smem_ex_run(2), of 16 24 3] smem_ex_alloc(2) by simp

text \<open>
  Releasing a block twice in a row is caught by an assertion, also if the block has been joined
  with a neighbour in between.
\<close>

theorem smem_double_free:
  "rt_smem_free (Some a) m = Some m' \<Longrightarrow> rt_smem_free (Some a) m' = None"
  using free_used[of a m m'] by (auto simp: rt_smem_free_def Let_def)

theorem smem_double_free_witness: "rt_smem_free (Some 16) (the (rt_smem_free (Some 16) smem_ex2)) = None"
proof -
  have "rt_smem_free (Some 16) smem_ex2 \<noteq> None" by code_simp
  then show ?thesis using smem_double_free[of 16 smem_ex2] by auto
qed

text \<open>
  Requests of the seven largest sizes wrap around when they are aligned: \<^verbatim>\<open>rt_smem_alloc\<close> treats
  them like a request of one byte and hands out a block of that size instead of refusing them.
\<close>

theorem smem_alloc_wraps:
  "unat n \<ge> 0xFFFFFFF9 \<Longrightarrow> rt_smem_alloc n m = rt_smem_alloc 1 m"
proof -
  assume n: "unat n \<ge> 0xFFFFFFF9"
  have "unat n < 2 ^ 32" using unsigned_less[of n] by simp
  then have "(unat n + 7) mod 2 ^ 32 = unat n + 7 - 2 ^ 32" using n by (simp add: mod_if)
  then have "unat (RT_ALIGN n 8) = 0" using \<open>unat n < 2 ^ 32\<close> by (simp add: align_8)
  moreover have "unat (RT_ALIGN 1 8) = 8" by (simp add: align_8)
  moreover have "n \<noteq> 0" using n by auto
  ultimately show ?thesis by (simp add: rt_smem_alloc_def)
qed

theorem smem_alloc_wraps_witness: "map_option fst (rt_smem_alloc 0xFFFFFFFF smem_ex0) = Some (Some 16)"
proof -
  have "map_option fst (rt_smem_alloc 1 smem_ex0) = Some (Some 16)" by code_simp
  then show ?thesis using smem_alloc_wraps[of "0xFFFFFFFF" smem_ex0] by simp
qed

end
