(* ===== verification/KString.thy ===== *)
theory KString
  imports Prelude "HOL-Library.Monad_Syntax"
begin

text \<open>
  The memory and string functions of the kernel (\<^verbatim>\<open>klibc/kstring.c\<close>), on a memory of bytes. An address that
  is not mapped cannot be read or written: the access ends in \<open>None\<close>. So a result \<open>Some\<close> also says that
  the function stays inside the areas it was given. The target is little-endian, a \<^verbatim>\<open>long\<close> has four
  bytes and \<^verbatim>\<open>char\<close> is unsigned. Areas do not wrap around the end of the address space, so addresses are
  natural numbers.
\<close>

section \<open>Memory\<close>

type_synonym kmem = "nat \<rightharpoonup> u8"

definition store :: "nat \<Rightarrow> u8 \<Rightarrow> kmem \<Rightarrow> kmem option" where
  "store a v m = (case m a of None \<Rightarrow> None | Some _ \<Rightarrow> Some (m(a \<mapsto> v)))"

definition word_byte :: "nat \<Rightarrow> u32 \<Rightarrow> u8" where
  "word_byte i w = ucast (drop_bit (8 * i) w)"

definition store_word :: "nat \<Rightarrow> u32 \<Rightarrow> kmem \<Rightarrow> kmem option" where
  "store_word a w m = do {
     m1 \<leftarrow> store a (word_byte 0 w) m;
     m2 \<leftarrow> store (a + 1) (word_byte 1 w) m1;
     m3 \<leftarrow> store (a + 2) (word_byte 2 w) m2;
     store (a + 3) (word_byte 3 w) m3
   }"

definition load_word :: "nat \<Rightarrow> kmem \<Rightarrow> u32 option" where
  "load_word a m = do {
     b0 \<leftarrow> m a; b1 \<leftarrow> m (a + 1); b2 \<leftarrow> m (a + 2); b3 \<leftarrow> m (a + 3);
     Some (ucast b0 OR push_bit 8 (ucast b1) OR push_bit 16 (ucast b2) OR push_bit 24 (ucast b3))
   }"

section \<open>Filling and copying\<close>

primrec fill_bytes :: "nat \<Rightarrow> nat \<Rightarrow> u8 \<Rightarrow> kmem \<Rightarrow> kmem option" where
  "fill_bytes 0 p d m = Some m"
| "fill_bytes (Suc n) p d m = do { m1 \<leftarrow> store p d m; fill_bytes n (p + 1) d m1 }"

text \<open>The loop that stores \<open>d\<close> into each byte of the word \<^verbatim>\<open>buffer\<close>.\<close>

definition set_byte :: "nat \<Rightarrow> u8 \<Rightarrow> u32 \<Rightarrow> u32" where
  "set_byte i d w = (w AND NOT (push_bit (8 * i) 0xFF)) OR push_bit (8 * i) (ucast d)"

definition memset_buffer :: "u8 \<Rightarrow> u32" where
  "memset_buffer d = fold (\<lambda>i. set_byte i d) [0..<4] 0"

fun memset_loop4 :: "u32 \<Rightarrow> nat \<Rightarrow> nat \<Rightarrow> kmem \<Rightarrow> (nat \<times> nat \<times> kmem) option" where
  "memset_loop4 buffer p count m =
     (if count \<ge> 16 then do {
        m1 \<leftarrow> store_word p buffer m;
        m2 \<leftarrow> store_word (p + 4) buffer m1;
        m3 \<leftarrow> store_word (p + 8) buffer m2;
        m4 \<leftarrow> store_word (p + 12) buffer m3;
        memset_loop4 buffer (p + 16) (count - 16) m4
      } else Some (p, count, m))"

fun memset_loop1 :: "u32 \<Rightarrow> nat \<Rightarrow> nat \<Rightarrow> kmem \<Rightarrow> (nat \<times> nat \<times> kmem) option" where
  "memset_loop1 buffer p count m =
     (if count \<ge> 4 then do { m1 \<leftarrow> store_word p buffer m; memset_loop1 buffer (p + 4) (count - 4) m1 }
      else Some (p, count, m))"

declare memset_loop4.simps [simp del] memset_loop1.simps [simp del]

definition rt_memset :: "nat \<Rightarrow> int \<Rightarrow> nat \<Rightarrow> kmem \<Rightarrow> kmem option" where
  "rt_memset s c count m =
     (let d = (of_int c :: u8) in
      if \<not> count < 4 \<and> s mod 4 = 0
      then do {
        (p1, count1, m1) \<leftarrow> memset_loop4 (memset_buffer d) s count m;
        (p2, count2, m2) \<leftarrow> memset_loop1 (memset_buffer d) p1 count1 m1;
        fill_bytes count2 p2 d m2
      }
      else fill_bytes count s d m)"

primrec copy_bytes :: "nat \<Rightarrow> nat \<Rightarrow> nat \<Rightarrow> kmem \<Rightarrow> kmem option" where
  "copy_bytes 0 dst src m = Some m"
| "copy_bytes (Suc n) dst src m = do { b \<leftarrow> m src; m1 \<leftarrow> store dst b m; copy_bytes n (dst + 1) (src + 1) m1 }"

definition copy_word :: "nat \<Rightarrow> nat \<Rightarrow> kmem \<Rightarrow> kmem option" where
  "copy_word dst src m = do { w \<leftarrow> load_word src m; store_word dst w m }"

fun memcpy_loop4 :: "nat \<Rightarrow> nat \<Rightarrow> nat \<Rightarrow> kmem \<Rightarrow> (nat \<times> nat \<times> nat \<times> kmem) option" where
  "memcpy_loop4 dst src len m =
     (if len \<ge> 16 then do {
        m1 \<leftarrow> copy_word dst src m;
        m2 \<leftarrow> copy_word (dst + 4) (src + 4) m1;
        m3 \<leftarrow> copy_word (dst + 8) (src + 8) m2;
        m4 \<leftarrow> copy_word (dst + 12) (src + 12) m3;
        memcpy_loop4 (dst + 16) (src + 16) (len - 16) m4
      } else Some (dst, src, len, m))"

fun memcpy_loop1 :: "nat \<Rightarrow> nat \<Rightarrow> nat \<Rightarrow> kmem \<Rightarrow> (nat \<times> nat \<times> nat \<times> kmem) option" where
  "memcpy_loop1 dst src len m =
     (if len \<ge> 4 then do { m1 \<leftarrow> copy_word dst src m; memcpy_loop1 (dst + 4) (src + 4) (len - 4) m1 }
      else Some (dst, src, len, m))"

declare memcpy_loop4.simps [simp del] memcpy_loop1.simps [simp del]

definition rt_memcpy :: "nat \<Rightarrow> nat \<Rightarrow> nat \<Rightarrow> kmem \<Rightarrow> kmem option" where
  "rt_memcpy dst src count m =
     (if \<not> count < 16 \<and> src mod 4 = 0 \<and> dst mod 4 = 0
      then do {
        (d1, s1, len1, m1) \<leftarrow> memcpy_loop4 dst src count m;
        (d2, s2, len2, m2) \<leftarrow> memcpy_loop1 d1 s1 len1 m1;
        copy_bytes len2 d2 s2 m2
      }
      else copy_bytes count dst src m)"

primrec copy_down :: "nat \<Rightarrow> nat \<Rightarrow> nat \<Rightarrow> kmem \<Rightarrow> kmem option" where
  "copy_down 0 tmp s m = Some m"
| "copy_down (Suc n) tmp s m = do { b \<leftarrow> m (s - 1); m1 \<leftarrow> store (tmp - 1) b m; copy_down n (tmp - 1) (s - 1) m1 }"

definition rt_memmove :: "nat \<Rightarrow> nat \<Rightarrow> nat \<Rightarrow> kmem \<Rightarrow> kmem option" where
  "rt_memmove dest src n m =
     (if src < dest \<and> dest < src + n then copy_down n (dest + n) (src + n) m else copy_bytes n dest src m)"

section \<open>Comparing\<close>

primrec rt_memcmp :: "nat \<Rightarrow> nat \<Rightarrow> nat \<Rightarrow> kmem \<Rightarrow> int option" where
  "rt_memcmp 0 cs ct m = Some 0"
| "rt_memcmp (Suc count) cs ct m = do {
     b1 \<leftarrow> m cs; b2 \<leftarrow> m ct;
     let res = uint b1 - uint b2;
     if res \<noteq> 0 then Some res else rt_memcmp count (cs + 1) (ct + 1) m
   }"

text \<open>Assigning to a \<^verbatim>\<open>signed char\<close> keeps the low eight bits.\<close>

definition signed_char :: "int \<Rightarrow> int" where
  "signed_char i = (i + 128) mod 256 - 128"

primrec strncmp_loop :: "nat \<Rightarrow> int \<Rightarrow> nat \<Rightarrow> nat \<Rightarrow> kmem \<Rightarrow> int option" where
  "strncmp_loop 0 res cs ct m = Some res"
| "strncmp_loop (Suc count) res cs ct m = do {
     b1 \<leftarrow> m cs; b2 \<leftarrow> m ct;
     let res = signed_char (uint b1 - uint b2);
     if res \<noteq> 0 \<or> b1 = 0 then Some res else strncmp_loop count res (cs + 1) (ct + 1) m
   }"

definition rt_strncmp :: "nat \<Rightarrow> nat \<Rightarrow> nat \<Rightarrow> kmem \<Rightarrow> int option" where
  "rt_strncmp cs ct count m = strncmp_loop count 0 cs ct m"

partial_function (option) rt_strcmp :: "nat \<Rightarrow> nat \<Rightarrow> kmem \<Rightarrow> int option" where
  "rt_strcmp cs ct m = do {
     b1 \<leftarrow> m cs; b2 \<leftarrow> m ct;
     if b1 \<noteq> 0 \<and> b1 = b2 then rt_strcmp (cs + 1) (ct + 1) m else Some (uint b1 - uint b2)
   }"

definition to_lower :: "u8 \<Rightarrow> int" where
  "to_lower b = (let ca = uint b in if 65 \<le> ca \<and> ca \<le> 90 then ca + (97 - 65) else ca)"

partial_function (option) rt_strcasecmp :: "nat \<Rightarrow> nat \<Rightarrow> kmem \<Rightarrow> int option" where
  "rt_strcasecmp a b m = do {
     b1 \<leftarrow> m a; b2 \<leftarrow> m b;
     let ca = to_lower b1;
     let cb = to_lower b2;
     if ca = cb \<and> ca \<noteq> 0 then rt_strcasecmp (a + 1) (b + 1) m else Some (ca - cb)
   }"

section \<open>Strings\<close>

partial_function (option) strlen_loop :: "kmem \<Rightarrow> nat \<Rightarrow> nat option" where
  "strlen_loop m sc = do { c \<leftarrow> m sc; if c \<noteq> 0 then strlen_loop m (sc + 1) else Some sc }"

definition rt_strlen :: "nat \<Rightarrow> kmem \<Rightarrow> nat option" where
  "rt_strlen s m = map_option (\<lambda>sc. sc - s) (strlen_loop m s)"

partial_function (option) strnlen_loop :: "kmem \<Rightarrow> nat \<Rightarrow> nat \<Rightarrow> nat \<Rightarrow> nat option" where
  "strnlen_loop m s maxlen sc = do {
     c \<leftarrow> m sc;
     if c \<noteq> 0 \<and> sc - s < maxlen then strnlen_loop m s maxlen (sc + 1) else Some sc
   }"

definition rt_strnlen :: "nat \<Rightarrow> nat \<Rightarrow> kmem \<Rightarrow> nat option" where
  "rt_strnlen s maxlen m = map_option (\<lambda>sc. sc - s) (strnlen_loop m s maxlen s)"

fun strstr_loop :: "nat \<Rightarrow> nat \<Rightarrow> nat \<Rightarrow> nat \<Rightarrow> kmem \<Rightarrow> nat option option" where
  "strstr_loop l1 l2 s1 s2 m =
     (if l2 \<le> l1 \<and> 0 < l2 then do {
        r \<leftarrow> rt_memcmp l2 s1 s2 m;
        if r = 0 then Some (Some s1) else strstr_loop (l1 - 1) l2 (s1 + 1) s2 m
      } else Some None)"

declare strstr_loop.simps [simp del]

definition rt_strstr :: "nat \<Rightarrow> nat \<Rightarrow> kmem \<Rightarrow> nat option option" where
  "rt_strstr s1 s2 m = do {
     l2 \<leftarrow> rt_strlen s2 m;
     if l2 = 0 then Some (Some s1)
     else do { l1 \<leftarrow> rt_strlen s1 m; strstr_loop l1 l2 s1 s2 m }
   }"

partial_function (option) rt_strcpy :: "nat \<Rightarrow> nat \<Rightarrow> kmem \<Rightarrow> kmem option" where
  "rt_strcpy dst src m = do {
     c \<leftarrow> m src;
     if c \<noteq> 0 then do { m1 \<leftarrow> store dst c m; rt_strcpy (dst + 1) (src + 1) m1 }
     else store dst 0 m
   }"

text \<open>The loop of \<^verbatim>\<open>rt_strncpy\<close>; the inner loop pads with zeros.\<close>

primrec rt_strncpy_mem :: "nat \<Rightarrow> nat \<Rightarrow> nat \<Rightarrow> kmem \<Rightarrow> kmem option" where
  "rt_strncpy_mem 0 dst src m = Some m"
| "rt_strncpy_mem (Suc n) dst src m = do {
     c \<leftarrow> m src;
     m1 \<leftarrow> store dst c m;
     if c = 0 then fill_bytes n (dst + 1) 0 m1 else rt_strncpy_mem n (dst + 1) (src + 1) m1
   }"

section \<open>Filling, against one assignment per byte\<close>

definition mapped :: "kmem \<Rightarrow> nat \<Rightarrow> nat \<Rightarrow> bool" where
  "mapped m a n \<longleftrightarrow> (\<forall>x. a \<le> x \<and> x < a + n \<longrightarrow> m x \<noteq> None)"

definition mem_fill :: "nat \<Rightarrow> nat \<Rightarrow> u8 \<Rightarrow> kmem \<Rightarrow> kmem" where
  "mem_fill a n d m = (\<lambda>x. if a \<le> x \<and> x < a + n then Some d else m x)"

definition mem_copy :: "nat \<Rightarrow> nat \<Rightarrow> nat \<Rightarrow> kmem \<Rightarrow> kmem" where
  "mem_copy dst src n m = (\<lambda>x. if dst \<le> x \<and> x < dst + n then m (src + (x - dst)) else m x)"

lemma mapped_sub: "mapped m a n \<Longrightarrow> a \<le> b \<Longrightarrow> b + k \<le> a + n \<Longrightarrow> mapped m b k"
  by (simp add: mapped_def)

lemma mappedD: "mapped m a n \<Longrightarrow> a \<le> x \<Longrightarrow> x < a + n \<Longrightarrow> \<exists>b. m x = Some b"
  by (auto simp: mapped_def)

lemma mapped_upd [simp]: "mapped m a n \<Longrightarrow> mapped (m(x \<mapsto> b)) a n"
  by (simp add: mapped_def)

lemma mapped_fill [simp]: "mapped m a n \<Longrightarrow> mapped (mem_fill b k d m) a n"
  by (simp add: mapped_def mem_fill_def)

lemma mapped_copy [simp]: "mapped m a n \<Longrightarrow> mapped m s k \<Longrightarrow> mapped (mem_copy d s k m) a n"
proof -
  assume m: "mapped m a n" "mapped m s k"
  have "m (s + (x - d)) \<noteq> None" if "d \<le> x \<and> x < d + k" for x
    using m(2)[unfolded mapped_def, rule_format, of "s + (x - d)"] that by linarith
  then show ?thesis using m(1) unfolding mapped_def mem_copy_def by auto
qed

lemma store_ok: "mapped m a n \<Longrightarrow> a \<le> x \<Longrightarrow> x < a + n \<Longrightarrow> store x v m = Some (m(x \<mapsto> v))"
  by (auto simp: store_def dest: mappedD)

lemma mem_fill_0 [simp]: "mem_fill a 0 d m = m"
  by (rule ext) (auto simp: mem_fill_def)

lemma mem_fill_fill [simp]: "mem_fill (a + k) n d (mem_fill a k d m) = mem_fill a (k + n) d m"
  by (auto simp: mem_fill_def fun_eq_iff)

lemma mem_fill_1: "mem_fill a (Suc 0) d m = m(a \<mapsto> d)"
  by (auto simp: mem_fill_def fun_eq_iff)

lemma fill_bytes_ok: "mapped m a n \<Longrightarrow> fill_bytes n a d m = Some (mem_fill a n d m)"
proof (induction n arbitrary: a m)
  case (Suc n)
  have "mapped (m(a \<mapsto> d)) (a + 1) n" using mapped_sub[OF Suc.prems] by simp
  from Suc.IH[OF this] show ?case
    using mem_fill_fill[of a 1 n d m] by (simp add: store_ok[OF Suc.prems] mem_fill_1[symmetric] del: mem_fill_fill)
qed simp

lemma word_byte_set_byte: "i < 4 \<Longrightarrow> j < 4 \<Longrightarrow> word_byte i (set_byte j d w) = (if i = j then d else word_byte i w)"
proof (rule bit_word_eqI)
  fix n assume b: "i < 4" "j < 4" and n: "n < LENGTH(8)"
  have m8: "(0xFF :: u32) = mask 8" by (simp add: mask_eq_exp_minus_1)
  have dl: "\<not> bit d k" if "8 \<le> k" for k using that bit_imp_le_length[of d k] by auto
  have "i = 0 \<or> i = 1 \<or> i = 2 \<or> i = 3" "j = 0 \<or> j = 1 \<or> j = 2 \<or> j = 3" using b by auto
  then show "bit (word_byte i (set_byte j d w)) n = bit (if i = j then d else word_byte i w) n"
    using n unfolding set_byte_def m8 by (elim disjE) (auto simp: word_byte_def bit_simps dl)
qed

lemma memset_buffer_byte: "i < 4 \<Longrightarrow> word_byte i (memset_buffer d) = d"
  by (auto simp: memset_buffer_def upt_rec word_byte_set_byte)

lemma in_four: "a \<le> x \<and> x < a + 4 \<longleftrightarrow> x = a \<or> x = a + 1 \<or> x = a + 2 \<or> x = a + (3 :: nat)"
  by auto

lemma store_word_ok:
  assumes "mapped m a 4"
  shows "store_word a w m = Some (m(a \<mapsto> word_byte 0 w, a + 1 \<mapsto> word_byte 1 w, a + 2 \<mapsto> word_byte 2 w, a + 3 \<mapsto> word_byte 3 w))"
  using assms by (simp add: store_word_def store_ok[where a = a and n = 4])

lemma store_word_fill: "mapped m a 4 \<Longrightarrow> store_word a (memset_buffer d) m = Some (mem_fill a 4 d m)"
  by (auto simp: store_word_ok memset_buffer_byte mem_fill_def in_four fun_eq_iff)

text \<open>A loop that fills a part of the area, at most all of it, and leaves the rest to the next loop.\<close>

lemma memset_loop1_ok:
  "mapped m p count \<Longrightarrow>
   \<exists>k \<le> count. memset_loop1 (memset_buffer d) p count m = Some (p + k, count - k, mem_fill p k d m)"
proof (induction count arbitrary: p m rule: less_induct)
  case (less count)
  show ?case
  proof (cases "count \<ge> 4")
    case True
    have r: "mapped m p 4" "mapped (mem_fill p 4 d m) (p + 4) (count - 4)"
      using mapped_sub[OF less.prems] True by simp_all
    obtain k where "memset_loop1 (memset_buffer d) (p + 4) (count - 4) (mem_fill p 4 d m) =
        Some (p + 4 + k, count - 4 - k, mem_fill (p + 4) k d (mem_fill p 4 d m))" "k \<le> count - 4"
      using less.IH[OF _ r(2)] True by auto
    then show ?thesis using True
      by (intro exI[of _ "4 + k"]) (subst memset_loop1.simps, simp add: store_word_fill[OF r(1)] add.assoc)
  next
    case False
    then show ?thesis by (intro exI[of _ 0]) (subst memset_loop1.simps, simp)
  qed
qed

lemma memset_loop4_ok:
  "mapped m p count \<Longrightarrow>
   \<exists>k \<le> count. memset_loop4 (memset_buffer d) p count m = Some (p + k, count - k, mem_fill p k d m)"
proof (induction count arbitrary: p m rule: less_induct)
  case (less count)
  show ?case
  proof (cases "count \<ge> 16")
    case True
    let ?b = "memset_buffer d"
    have w: "store_word (p + k) ?b (mem_fill p k d m) = Some (mem_fill p (k + 4) d m)" if "k \<le> 12" for k
      using mapped_sub[OF less.prems, of "p + k" 4] True that by (subst store_word_fill) auto
    have st: "store_word p ?b m = Some (mem_fill p 4 d m)" "store_word (p + 4) ?b (mem_fill p 4 d m) = Some (mem_fill p 8 d m)"
      "store_word (p + 8) ?b (mem_fill p 8 d m) = Some (mem_fill p 12 d m)"
      "store_word (p + 12) ?b (mem_fill p 12 d m) = Some (mem_fill p 16 d m)"
      using w[of 0] w[of 4] w[of 8] w[of 12] by simp_all
    have r: "mapped (mem_fill p 16 d m) (p + 16) (count - 16)" using mapped_sub[OF less.prems] True by simp
    obtain k where "memset_loop4 ?b (p + 16) (count - 16) (mem_fill p 16 d m) =
        Some (p + 16 + k, count - 16 - k, mem_fill (p + 16) k d (mem_fill p 16 d m))" "k \<le> count - 16"
      using less.IH[OF _ r] True by auto
    then show ?thesis using True
      by (intro exI[of _ "16 + k"]) (subst memset_loop4.simps, simp add: st add.assoc)
  next
    case False
    then show ?thesis by (intro exI[of _ 0]) (subst memset_loop4.simps, simp)
  qed
qed

lemma memset_ok:
  assumes "mapped m s count"
  shows "rt_memset s c count m = Some (mem_fill s count (of_int c) m)"
proof (cases "\<not> count < 4 \<and> s mod 4 = 0")
  case True
  let ?d = "of_int c :: u8"
  obtain k where k: "memset_loop4 (memset_buffer ?d) s count m = Some (s + k, count - k, mem_fill s k ?d m)" "k \<le> count"
    using memset_loop4_ok[OF assms] by blast
  have r: "mapped (mem_fill s k ?d m) (s + k) (count - k)" using mapped_sub[OF assms] k(2) by simp
  obtain j where j: "memset_loop1 (memset_buffer ?d) (s + k) (count - k) (mem_fill s k ?d m) =
      Some (s + k + j, count - k - j, mem_fill s (k + j) ?d m)" "j \<le> count - k"
    using memset_loop1_ok[OF r, of ?d] unfolding mem_fill_fill by blast
  have "mapped (mem_fill s (k + j) ?d m) (s + (k + j)) (count - k - j)" using mapped_sub[OF assms] k(2) j(2) by simp
  then have "fill_bytes (count - k - j) (s + (k + j)) ?d (mem_fill s (k + j) ?d m) = Some (mem_fill s count ?d m)"
    using k(2) j(2) by (subst fill_bytes_ok) auto
  then show ?thesis using True k(1) j(1) by (simp add: rt_memset_def Let_def add.assoc)
next
  case False
  then show ?thesis unfolding rt_memset_def Let_def using fill_bytes_ok[OF assms] by (simp only: if_False)
qed

section \<open>Copying, against one assignment per byte\<close>

lemma mem_copy_0 [simp]: "mem_copy d s 0 m = m"
  by (rule ext) (auto simp: mem_copy_def)

lemma mem_copy_copy:
  assumes "d \<le> s \<or> s + (k + n) \<le> d"
  shows "mem_copy (d + k) (s + k) n (mem_copy d s k m) = mem_copy d s (k + n) m"
proof
  fix x
  show "mem_copy (d + k) (s + k) n (mem_copy d s k m) x = mem_copy d s (k + n) m x"
  proof (cases "d + k \<le> x \<and> x < d + k + n")
    case True
    define y where "y = s + (x - d)"
    have y: "s + k + (x - (d + k)) = y" "\<not> (d \<le> y \<and> y < d + k)" using True assms by (auto simp: y_def)
    have "mem_copy (d + k) (s + k) n (mem_copy d s k m) x = mem_copy d s k m y"
      using True y(1) by (simp add: mem_copy_def[of "d + k"])
    also have "\<dots> = m y" using y(2) by (auto simp: mem_copy_def)
    also have "\<dots> = mem_copy d s (k + n) m x" using True by (simp add: mem_copy_def y_def)
    finally show ?thesis .
  next
    case False
    then show ?thesis by (auto simp: mem_copy_def)
  qed
qed

lemma mem_copy_1: "m s = Some b \<Longrightarrow> m(d \<mapsto> b) = mem_copy d s (Suc 0) m"
  by (auto simp: mem_copy_def fun_eq_iff)

text \<open>Copying upwards is right unless the target starts inside the source.\<close>

definition copy_area :: "kmem \<Rightarrow> nat \<Rightarrow> nat \<Rightarrow> nat \<Rightarrow> bool" where
  "copy_area m d s n \<longleftrightarrow> mapped m d n \<and> mapped m s n \<and> (d \<le> s \<or> s + n \<le> d)"

lemma copy_area_rest:
  "copy_area m d s n \<Longrightarrow> k \<le> n \<Longrightarrow> copy_area (mem_copy d s k m) (d + k) (s + k) (n - k)"
  unfolding copy_area_def using mapped_sub[of m d n "d + k" "n - k"] mapped_sub[of m s n "s + k" "n - k"]
    mapped_sub[of m s n s k] by auto

lemma copy_area_part: "copy_area m d s n \<Longrightarrow> k \<le> n \<Longrightarrow> copy_area m d s k"
  unfolding copy_area_def using mapped_sub[of m d n d k] mapped_sub[of m s n s k] by auto

lemma copy_area_copy:
  "copy_area m d s n \<Longrightarrow> k + j \<le> n \<Longrightarrow> mem_copy (d + k) (s + k) j (mem_copy d s k m) = mem_copy d s (k + j) m"
  by (rule mem_copy_copy) (auto simp: copy_area_def)

lemma copy_bytes_ok: "copy_area m d s n \<Longrightarrow> copy_bytes n d s m = Some (mem_copy d s n m)"
proof (induction n arbitrary: d s m)
  case (Suc n)
  have mp: "mapped m d (Suc n)" "mapped m s (Suc n)" using Suc.prems by (auto simp: copy_area_def)
  obtain b where b: "m s = Some b" using mappedD[OF mp(2), of s] by auto
  let ?m = "mem_copy d s (Suc 0) m"
  have "copy_area ?m (d + 1) (s + 1) n" using copy_area_rest[OF Suc.prems, of 1] by simp
  from Suc.IH[OF this] have "copy_bytes n (d + 1) (s + 1) ?m = Some (mem_copy d s (Suc n) m)"
    using copy_area_copy[OF Suc.prems, of 1 n] by simp
  then show ?case using b by (simp add: store_ok[OF mp(1)] mem_copy_1[of m s b d])
qed simp

lemma word_byte_load:
  "word_byte 0 (ucast b0 OR push_bit 8 (ucast b1) OR push_bit 16 (ucast b2) OR push_bit 24 (ucast b3)) = b0"
  "word_byte 1 (ucast b0 OR push_bit 8 (ucast b1) OR push_bit 16 (ucast b2) OR push_bit 24 (ucast b3)) = b1"
  "word_byte 2 (ucast b0 OR push_bit 8 (ucast b1) OR push_bit 16 (ucast b2) OR push_bit 24 (ucast b3)) = b2"
  "word_byte 3 (ucast b0 OR push_bit 8 (ucast b1) OR push_bit 16 (ucast b2) OR push_bit 24 (ucast b3)) = b3"
  by (rule bit_word_eqI; auto simp: word_byte_def bit_simps dest: bit_imp_le_length)+

lemma copy_word_ok:
  assumes "mapped m d 4" "mapped m s 4"
  shows "copy_word d s m = Some (mem_copy d s 4 m)"
proof -
  obtain b0 b1 b2 b3 where b: "m s = Some b0" "m (s + 1) = Some b1" "m (s + 2) = Some b2" "m (s + 3) = Some b3"
    using mappedD[OF assms(2), of s] mappedD[OF assms(2), of "s + 1"] mappedD[OF assms(2), of "s + 2"]
      mappedD[OF assms(2), of "s + 3"] by auto
  have "m(d \<mapsto> b0, d + 1 \<mapsto> b1, d + 2 \<mapsto> b2, d + 3 \<mapsto> b3) = mem_copy d s 4 m"
    unfolding mem_copy_def in_four using b by (auto simp: fun_eq_iff)
  then show ?thesis using b by (simp add: copy_word_def load_word_def store_word_ok[OF assms(1)] word_byte_load del: One_nat_def)
qed

lemma copy_word_step:
  assumes "copy_area m d s n" "k + 4 \<le> n"
  shows "copy_word (d + k) (s + k) (mem_copy d s k m) = Some (mem_copy d s (k + 4) m)"
proof -
  have "copy_area (mem_copy d s k m) (d + k) (s + k) 4"
    by (rule copy_area_part[OF copy_area_rest[OF assms(1)]]) (use assms(2) in auto)
  then show ?thesis using copy_area_copy[OF assms] by (simp add: copy_word_ok copy_area_def)
qed

lemma memcpy_loop1_ok:
  "copy_area m d s n \<Longrightarrow> \<exists>k \<le> n. memcpy_loop1 d s n m = Some (d + k, s + k, n - k, mem_copy d s k m)"
proof (induction n arbitrary: d s m rule: less_induct)
  case (less n)
  show ?case
  proof (cases "n \<ge> 4")
    case True
    obtain k where k: "memcpy_loop1 (d + 4) (s + 4) (n - 4) (mem_copy d s 4 m) =
        Some (d + 4 + k, s + 4 + k, n - 4 - k, mem_copy (d + 4) (s + 4) k (mem_copy d s 4 m))" "k \<le> n - 4"
      using less.IH[OF _ copy_area_rest[OF less.prems True]] True by auto
    then show ?thesis using True copy_word_step[OF less.prems, of 0] copy_area_copy[OF less.prems, of 4 k]
      by (intro exI[of _ "4 + k"]) (subst memcpy_loop1.simps, simp add: add.assoc)
  next
    case False
    then show ?thesis by (intro exI[of _ 0]) (subst memcpy_loop1.simps, simp)
  qed
qed

lemma memcpy_loop4_ok:
  "copy_area m d s n \<Longrightarrow> \<exists>k \<le> n. memcpy_loop4 d s n m = Some (d + k, s + k, n - k, mem_copy d s k m)"
proof (induction n arbitrary: d s m rule: less_induct)
  case (less n)
  show ?case
  proof (cases "n \<ge> 16")
    case True
    note w = copy_word_step[OF less.prems]
    have st: "copy_word d s m = Some (mem_copy d s 4 m)" "copy_word (d + 4) (s + 4) (mem_copy d s 4 m) = Some (mem_copy d s 8 m)"
      "copy_word (d + 8) (s + 8) (mem_copy d s 8 m) = Some (mem_copy d s 12 m)"
      "copy_word (d + 12) (s + 12) (mem_copy d s 12 m) = Some (mem_copy d s 16 m)"
      using w[of 0] w[of 4] w[of 8] w[of 12] True by simp_all
    obtain k where k: "memcpy_loop4 (d + 16) (s + 16) (n - 16) (mem_copy d s 16 m) =
        Some (d + 16 + k, s + 16 + k, n - 16 - k, mem_copy (d + 16) (s + 16) k (mem_copy d s 16 m))" "k \<le> n - 16"
      using less.IH[OF _ copy_area_rest[OF less.prems True]] True by auto
    then show ?thesis using True st copy_area_copy[OF less.prems, of 16 k]
      by (intro exI[of _ "16 + k"]) (subst memcpy_loop4.simps, simp add: add.assoc)
  next
    case False
    then show ?thesis by (intro exI[of _ 0]) (subst memcpy_loop4.simps, simp)
  qed
qed

lemma memcpy_ok:
  assumes "copy_area m d s n"
  shows "rt_memcpy d s n m = Some (mem_copy d s n m)"
proof (cases "\<not> n < 16 \<and> s mod 4 = 0 \<and> d mod 4 = 0")
  case True
  obtain k where k: "memcpy_loop4 d s n m = Some (d + k, s + k, n - k, mem_copy d s k m)" "k \<le> n"
    using memcpy_loop4_ok[OF assms] by blast
  obtain j where j: "memcpy_loop1 (d + k) (s + k) (n - k) (mem_copy d s k m) =
      Some (d + k + j, s + k + j, n - k - j, mem_copy (d + k) (s + k) j (mem_copy d s k m))" "j \<le> n - k"
    using memcpy_loop1_ok[OF copy_area_rest[OF assms k(2)]] by blast
  have kj: "k + j \<le> n" using k(2) j(2) by simp
  have "copy_bytes (n - (k + j)) (d + (k + j)) (s + (k + j)) (mem_copy d s (k + j) m) = Some (mem_copy d s n m)"
    using copy_bytes_ok[OF copy_area_rest[OF assms kj]] copy_area_copy[OF assms, of "k + j" "n - (k + j)"] kj by simp
  then show ?thesis using True k(1) j(1) copy_area_copy[OF assms kj] by (simp add: rt_memcpy_def add.assoc)
next
  case False
  then show ?thesis using copy_bytes_ok[OF assms] by (simp only: rt_memcpy_def if_False)
qed

lemma copy_down_ok:
  "mapped m d n \<Longrightarrow> mapped m s n \<Longrightarrow> s \<le> d \<Longrightarrow> copy_down n (d + n) (s + n) m = Some (mem_copy d s n m)"
proof (induction n arbitrary: m)
  case (Suc n)
  obtain b where b: "m (s + n) = Some b" using mappedD[OF Suc.prems(2), of "s + n"] by auto
  have "copy_down n (d + n) (s + n) (m(d + n \<mapsto> b)) = Some (mem_copy d s n (m(d + n \<mapsto> b)))"
    using mapped_sub[OF Suc.prems(1), of d n] mapped_sub[OF Suc.prems(2), of s n] Suc.prems(3) by (intro Suc.IH mapped_upd) auto
  moreover have "mem_copy d s n (m(d + n \<mapsto> b)) = mem_copy d s (Suc n) m"
  proof
    fix x show "mem_copy d s n (m(d + n \<mapsto> b)) x = mem_copy d s (Suc n) m x"
      using b Suc.prems(3) by (cases "x = d + n") (auto simp: mem_copy_def)
  qed
  ultimately show ?case using b by (simp add: store_ok[OF Suc.prems(1)])
qed simp

section \<open>Strings in memory\<close>

primrec bytes_at :: "kmem \<Rightarrow> nat \<Rightarrow> u8 list \<Rightarrow> bool" where
  "bytes_at m a [] \<longleftrightarrow> True"
| "bytes_at m a (x # xs) \<longleftrightarrow> m a = Some x \<and> bytes_at m (a + 1) xs"

definition cstring :: "kmem \<Rightarrow> nat \<Rightarrow> u8 list \<Rightarrow> bool" where
  "cstring m a xs \<longleftrightarrow> bytes_at m a (xs @ [0]) \<and> 0 \<notin> set xs"

lemma cstring_simps [simp]:
  "cstring m a [] \<longleftrightarrow> m a = Some 0"
  "cstring m a (x # xs) \<longleftrightarrow> m a = Some x \<and> x \<noteq> 0 \<and> cstring m (a + 1) xs"
  by (auto simp: cstring_def)

lemma bytes_at_append: "bytes_at m a (xs @ ys) \<longleftrightarrow> bytes_at m a xs \<and> bytes_at m (a + length xs) ys"
  by (induction xs arbitrary: a) auto

lemma bytes_at_nth: "bytes_at m a xs \<longleftrightarrow> (\<forall>i < length xs. m (a + i) = Some (xs ! i))"
proof (induction xs arbitrary: a)
  case (Cons x xs)
  show ?case
    by (auto simp: Cons nth_Cons' less_Suc_eq_0_disj gr0_conv_Suc dest: spec[of _ "Suc _"])
qed simp

lemma bytes_at_outside: "(\<And>i. i < length xs \<Longrightarrow> m' (a + i) = m (a + i)) \<Longrightarrow> bytes_at m' a xs = bytes_at m a xs"
  by (simp add: bytes_at_nth)

lemma cstring_bytes: "cstring m a xs \<Longrightarrow> bytes_at m a xs"
  by (simp add: cstring_def bytes_at_append)

lemma strlen_loop_ok: "cstring m a xs \<Longrightarrow> strlen_loop m a = Some (a + length xs)"
proof (induction xs arbitrary: a)
  case Nil
  then show ?case by (subst strlen_loop.simps) simp
next
  case (Cons x xs)
  then show ?case by (subst strlen_loop.simps) simp
qed

lemma strlen_ok: "cstring m a xs \<Longrightarrow> rt_strlen a m = Some (length xs)"
  by (simp add: rt_strlen_def strlen_loop_ok)

section \<open>Comparisons\<close>

text \<open>The order of byte strings, as unsigned characters.\<close>

definition bytes_less :: "u8 list \<Rightarrow> u8 list \<Rightarrow> bool" where
  "bytes_less xs ys \<longleftrightarrow> (xs, ys) \<in> lexord {(x, y). x < y}"

lemma bytes_less_simps [simp]:
  "\<not> bytes_less xs []" "bytes_less [] (y # ys)"
  "bytes_less (x # xs) (y # ys) \<longleftrightarrow> x < y \<or> x = y \<and> bytes_less xs ys"
  by (auto simp: bytes_less_def)

text \<open>A result of a comparison: its sign tells the order.\<close>

definition cmp_result :: "int \<Rightarrow> u8 list \<Rightarrow> u8 list \<Rightarrow> bool" where
  "cmp_result r xs ys \<longleftrightarrow> (r = 0 \<longleftrightarrow> xs = ys) \<and> (r < 0 \<longleftrightarrow> bytes_less xs ys) \<and> (r > 0 \<longleftrightarrow> bytes_less ys xs)"

lemma uint_diff_sign:
  "uint x - uint y = 0 \<longleftrightarrow> x = (y :: u8)" "uint x - uint y < 0 \<longleftrightarrow> x < (y :: u8)" "0 < uint x - uint y \<longleftrightarrow> y < (x :: u8)"
  by (auto simp: word_less_def word_uint_eq_iff)

lemma uint_pos: "(x :: u8) \<noteq> 0 \<Longrightarrow> 0 < uint x"
  by (simp add: word_uint_eq_iff order_less_le)

lemma cmp_result_Cons [simp]: "cmp_result r (x # xs) (x # ys) = cmp_result r xs ys"
  by (auto simp: cmp_result_def)

lemma cmp_result_diff: "x \<noteq> y \<Longrightarrow> cmp_result (uint x - uint y) (x # xs) (y # ys)"
  using uint_diff_sign[of x y] by (auto simp: cmp_result_def)

lemma memcmp_ok:
  "bytes_at m a xs \<Longrightarrow> bytes_at m b ys \<Longrightarrow> length xs = n \<Longrightarrow> length ys = n \<Longrightarrow>
   \<exists>r. rt_memcmp n a b m = Some r \<and> cmp_result r xs ys"
proof (induction n arbitrary: a b xs ys)
  case 0
  then show ?case by (simp add: cmp_result_def)
next
  case (Suc n)
  then obtain x xs' y ys' where xy: "xs = x # xs'" "ys = y # ys'" by (metis Suc_length_conv)
  show ?case
  proof (cases "x = y")
    case True
    then show ?thesis using Suc.IH[of "a + 1" xs' "b + 1" ys'] Suc.prems xy by simp
  next
    case False
    then show ?thesis using Suc.prems xy cmp_result_diff[OF False] uint_diff_sign(1)[of x y] by simp
  qed
qed

lemma strcmp_ok:
  "cstring m a xs \<Longrightarrow> cstring m b ys \<Longrightarrow> \<exists>r. rt_strcmp a b m = Some r \<and> cmp_result r xs ys"
proof (induction xs arbitrary: a b ys)
  case Nil
  show ?case
  proof (cases ys)
    case Nil
    then show ?thesis using Nil.prems \<open>cstring m a []\<close> by (subst rt_strcmp.simps) (simp add: cmp_result_def)
  next
    case (Cons y ys')
    then have "0 < uint y" using Nil.prems by (simp add: uint_pos)
    then show ?thesis using Nil.prems Cons by (subst rt_strcmp.simps) (simp add: cmp_result_def)
  qed
next
  case (Cons x xs)
  show ?case
  proof (cases ys)
    case Nil
    have "0 < uint x" using Cons.prems by (simp add: uint_pos)
    then show ?thesis using Cons.prems Nil by (subst rt_strcmp.simps) (simp add: cmp_result_def)
  next
    case (Cons y ys')
    show ?thesis
    proof (cases "x = y")
      case True
      then show ?thesis using Cons.IH[of "a + 1" "b + 1" ys'] Cons.prems Cons by (subst rt_strcmp.simps) simp
    next
      case False
      then show ?thesis using Cons.prems Cons cmp_result_diff[OF False] by (subst rt_strcmp.simps) simp
    qed
  qed
qed

text \<open>The differences of seven bit characters fit into a signed character.\<close>

definition seven_bit :: "u8 list \<Rightarrow> bool" where
  "seven_bit xs \<longleftrightarrow> (\<forall>x\<in>set xs. uint x < 128)"

lemma seven_bit_simps [simp]: "seven_bit []" "seven_bit (x # xs) \<longleftrightarrow> uint x < 128 \<and> seven_bit xs"
  by (auto simp: seven_bit_def)

lemma signed_char_id: "- 128 \<le> i \<Longrightarrow> i < 128 \<Longrightarrow> signed_char i = i"
  by (simp add: signed_char_def)

lemma signed_char_neg: "128 \<le> i \<Longrightarrow> i < 256 \<Longrightarrow> signed_char i = i - 256"
proof -
  assume i: "128 \<le> i" "i < 256"
  have "(i + 128) mod 256 = (i - 128 + 256) mod 256" by (simp add: add.commute)
  also have "\<dots> = i - 128" using i by (simp only: mod_add_self2) (simp add: mod_pos_pos_trivial)
  finally show ?thesis by (simp add: signed_char_def)
qed

lemma signed_char_diff: "uint (x :: u8) < 128 \<Longrightarrow> uint (y :: u8) < 128 \<Longrightarrow> signed_char (uint x - uint y) = uint x - uint y"
  using uint_nonnegative[of x] uint_nonnegative[of y] by (intro signed_char_id) linarith+

lemma strncmp_ok:
  "cstring m a xs \<Longrightarrow> cstring m b ys \<Longrightarrow> seven_bit xs \<Longrightarrow> seven_bit ys \<Longrightarrow>
   \<exists>r. strncmp_loop n 0 a b m = Some r \<and> cmp_result r (take n xs) (take n ys)"
proof (induction n arbitrary: a b xs ys)
  case 0
  then show ?case by (simp add: cmp_result_def)
next
  case (Suc n)
  show ?case
  proof (cases xs; cases ys)
    assume "xs = []" "ys = []"
    then show ?thesis using Suc.prems by (simp add: cmp_result_def signed_char_def)
  next
    fix y ys' assume e: "xs = []" "ys = y # ys'"
    have "signed_char (- uint y) = - uint y" "0 < uint y"
      using e Suc.prems signed_char_diff[of 0 y] by (simp_all add: uint_pos)
    then show ?thesis using Suc.prems e by (simp add: cmp_result_def)
  next
    fix x xs' assume e: "xs = x # xs'" "ys = []"
    have "signed_char (uint x) = uint x" "0 < uint x"
      using e Suc.prems signed_char_diff[of x 0] by (simp_all add: uint_pos)
    then show ?thesis using Suc.prems e by (simp add: cmp_result_def)
  next
    fix x xs' y ys' assume e: "xs = x # xs'" "ys = y # ys'"
    have sc: "signed_char (uint x - uint y) = uint x - uint y" using e Suc.prems by (intro signed_char_diff) auto
    show ?thesis
    proof (cases "x = y")
      case True
      then show ?thesis using Suc.IH[of "a + 1" xs' "b + 1" ys'] Suc.prems e sc by simp
    next
      case False
      then show ?thesis using Suc.prems e sc cmp_result_diff[OF False] uint_diff_sign(1)[of x y] by simp
    qed
  qed
qed

lemma to_lower_0 [simp]: "to_lower x = 0 \<longleftrightarrow> x = 0" "0 = to_lower x \<longleftrightarrow> x = 0" "to_lower 0 = 0"
proof -
  have "uint x = 0 \<longleftrightarrow> x = 0" by (simp add: word_uint_eq_iff)
  then show "to_lower x = 0 \<longleftrightarrow> x = 0" "0 = to_lower x \<longleftrightarrow> x = 0" by (auto simp: to_lower_def Let_def)
qed (simp add: to_lower_def)

lemma strcasecmp_ok:
  "cstring m a xs \<Longrightarrow> cstring m b ys \<Longrightarrow>
   \<exists>r. rt_strcasecmp a b m = Some r \<and> (r = 0 \<longleftrightarrow> map to_lower xs = map to_lower ys)"
proof (induction xs arbitrary: a b ys)
  case Nil
  then show ?case by (cases ys; subst rt_strcasecmp.simps) (auto simp: Let_def)
next
  case (Cons x xs)
  then show ?case using Cons.prems Cons.IH[of "a + 1" "b + 1" "List.tl ys"]
    by (cases ys; subst rt_strcasecmp.simps) (auto simp: Let_def)
qed

section \<open>Searching and copying strings\<close>

definition occurs :: "u8 list \<Rightarrow> u8 list \<Rightarrow> nat \<Rightarrow> bool" where
  "occurs ys xs i \<longleftrightarrow> take (length ys) (drop i xs) = ys"

definition first_occ :: "u8 list \<Rightarrow> u8 list \<Rightarrow> nat \<Rightarrow> nat option \<Rightarrow> bool" where
  "first_occ ys xs a r \<longleftrightarrow> (case r of None \<Rightarrow> \<forall>j. \<not> occurs ys xs j
     | Some p \<Rightarrow> \<exists>i. p = a + i \<and> occurs ys xs i \<and> (\<forall>j < i. \<not> occurs ys xs j))"

lemma occurs_Suc [simp]: "occurs ys (x # xs) (Suc i) = occurs ys xs i"
  by (simp add: occurs_def)

lemma first_occ_step:
  assumes "\<not> occurs ys (x # xs) 0" "first_occ ys xs (a + 1) r"
  shows "first_occ ys (x # xs) a r"
proof (cases r)
  case None
  have "\<not> occurs ys (x # xs) j" for j using assms None by (cases j) (auto simp: first_occ_def)
  then show ?thesis using None by (simp add: first_occ_def)
next
  case (Some p)
  then obtain i where i: "p = a + 1 + i" "occurs ys xs i" "\<forall>j < i. \<not> occurs ys xs j" using assms(2) by (auto simp: first_occ_def)
  have "\<not> occurs ys (x # xs) j" if "j < Suc i" for j using assms(1) i(3) that by (cases j) auto
  then show ?thesis using Some i(1,2) unfolding first_occ_def by (auto intro!: exI[of _ "Suc i"])
qed

lemma strstr_loop_ok:
  "bytes_at m a xs \<Longrightarrow> bytes_at m b ys \<Longrightarrow> ys \<noteq> [] \<Longrightarrow>
   \<exists>r. strstr_loop (length xs) (length ys) a b m = Some r \<and> first_occ ys xs a r"
proof (induction xs arbitrary: a)
  case Nil
  then show ?case by (subst strstr_loop.simps) (auto simp: first_occ_def occurs_def)
next
  case (Cons x xs)
  show ?case
  proof (cases "length ys \<le> length (x # xs)")
    case True
    have "bytes_at m a (take (length ys) (x # xs))"
      using Cons.prems(1) bytes_at_append[of m a "take (length ys) (x # xs)" "drop (length ys) (x # xs)"] by simp
    then obtain c where c: "rt_memcmp (length ys) a b m = Some c" "c = 0 \<longleftrightarrow> occurs ys (x # xs) 0"
      using memcmp_ok[of m a "take (length ys) (x # xs)" b ys "length ys"] Cons.prems(2) True
      by (auto simp: cmp_result_def occurs_def)
    obtain r where r: "strstr_loop (length xs) (length ys) (a + 1) b m = Some r" "first_occ ys xs (a + 1) r"
      using Cons.IH[of "a + 1"] Cons.prems by auto
    show ?thesis
    proof (cases "c = 0")
      case zero: True
      then have "first_occ ys (x # xs) a (Some a)" using c(2) by (auto simp: first_occ_def)
      then show ?thesis using zero c(1) True Cons.prems(3) by (subst strstr_loop.simps) simp
    next
      case False
      then show ?thesis using c r True Cons.prems(3) first_occ_step[of ys x xs a r] by (subst strstr_loop.simps) simp
    qed
  next
    case False
    have "\<not> occurs ys (x # xs) j" for j
    proof
      assume "occurs ys (x # xs) j"
      then have "length (take (length ys) (drop j (x # xs))) = length ys" unfolding occurs_def by metis
      then show False using False by simp
    qed
    then show ?thesis using False by (subst strstr_loop.simps) (simp add: first_occ_def)
  qed
qed

lemma strstr_ok:
  assumes "cstring m a xs" "cstring m b ys"
  shows "\<exists>r. rt_strstr a b m = Some r \<and> first_occ ys xs a r"
proof (cases "ys = []")
  case True
  then show ?thesis using strlen_ok[OF assms(2)] by (simp add: rt_strstr_def first_occ_def occurs_def)
next
  case False
  then show ?thesis
    using strstr_loop_ok[OF cstring_bytes[OF assms(1)] cstring_bytes[OF assms(2)] False] strlen_ok[OF assms(1)] strlen_ok[OF assms(2)]
    by (simp add: rt_strstr_def)
qed

lemma cstring_upd: "d < a \<or> a + length xs < d \<Longrightarrow> cstring (m(d \<mapsto> c)) a xs = cstring m a xs"
  unfolding cstring_def by (subst bytes_at_outside[of _ "m(d \<mapsto> c)" a m]) auto

lemma strcpy_ok:
  "cstring m s xs \<Longrightarrow> copy_area m d s (Suc (length xs)) \<Longrightarrow> rt_strcpy d s m = Some (mem_copy d s (Suc (length xs)) m)"
proof (induction xs arbitrary: d s m)
  case Nil
  then have "mapped m d (Suc 0)" by (simp add: copy_area_def)
  then show ?case using Nil mem_copy_1[of m s 0 d] by (subst rt_strcpy.simps) (simp add: store_ok)
next
  case (Cons x xs)
  let ?n = "Suc (length xs)"
  have mp: "mapped m d (Suc ?n)" using Cons.prems(2) by (simp add: copy_area_def)
  have x: "m s = Some x" "x \<noteq> 0" "cstring m (s + 1) xs" using Cons.prems(1) by auto
  have e: "m(d \<mapsto> x) = mem_copy d s 1 m" using mem_copy_1[of m s x d] x(1) by simp
  have c: "cstring (m(d \<mapsto> x)) (s + 1) xs" using x(3) Cons.prems(2) by (subst cstring_upd) (auto simp: copy_area_def)
  have "copy_area (m(d \<mapsto> x)) (d + 1) (s + 1) ?n" using copy_area_rest[OF Cons.prems(2), of 1] e by simp
  from Cons.IH[OF c this] have "rt_strcpy (d + 1) (s + 1) (m(d \<mapsto> x)) = Some (mem_copy d s (Suc ?n) m)"
    using copy_area_copy[OF Cons.prems(2), of 1 ?n] e by simp
  then show ?case using x store_ok[OF mp, of d x] by (subst rt_strcpy.simps) simp
qed

definition mem_put :: "nat \<Rightarrow> u8 list \<Rightarrow> kmem \<Rightarrow> kmem" where
  "mem_put a ys m = (\<lambda>x. if a \<le> x \<and> x < a + length ys then Some (ys ! (x - a)) else m x)"

lemma mem_put_simps [simp]: "mem_put a [] m = m" "mem_put a (y # ys) m = mem_put (a + 1) ys (m(a \<mapsto> y))"
  by (auto simp: mem_put_def fun_eq_iff nth_Cons')

lemma mem_put_replicate: "mem_put a (replicate n d) m = mem_fill a n d m"
  by (auto simp: mem_put_def mem_fill_def fun_eq_iff)

lemma strncpy_ok:
  "cstring m s xs \<Longrightarrow> mapped m d n \<Longrightarrow> d + n \<le> s \<or> s + length xs < d \<Longrightarrow>
   rt_strncpy_mem n d s m = Some (mem_put d (take n (xs @ replicate n 0)) m)"
proof (induction n arbitrary: d s m xs)
  case (Suc n)
  have mp: "mapped (m(d \<mapsto> c)) (d + 1) n" for c using mapped_sub[OF Suc.prems(2), of "d + 1" n] by (intro mapped_upd) simp
  show ?case
  proof (cases xs)
    case Nil
    then show ?thesis using Suc.prems store_ok[OF Suc.prems(2), of d 0] fill_bytes_ok[OF mp, of 0]
      by (simp add: mem_put_replicate)
  next
    case (Cons x xs')
    have c: "cstring (m(d \<mapsto> x)) (s + 1) xs'" using Suc.prems Cons by (subst cstring_upd) auto
    have "rt_strncpy_mem n (d + 1) (s + 1) (m(d \<mapsto> x)) = Some (mem_put (d + 1) (take n (xs' @ replicate n 0)) (m(d \<mapsto> x)))"
      by (rule Suc.IH[OF c mp]) (use Suc.prems(3) Cons in auto)
    moreover have "take n (xs' @ 0 # replicate n 0) = take n (xs' @ replicate n 0)"
      by (simp add: take_append take_Cons' min_def replicate_append_same[symmetric] flip: replicate_Suc)
    ultimately show ?thesis using Suc.prems Cons store_ok[OF Suc.prems(2), of d x] by simp
  qed
qed simp

lemma strnlen_loop_ok:
  "bytes_at m sc xs \<Longrightarrow> 0 \<notin> set xs \<Longrightarrow> sc - s + length xs = maxlen \<Longrightarrow> s \<le> sc \<Longrightarrow>
   strnlen_loop m s maxlen sc = map_option (\<lambda>_. sc + length xs) (m (sc + length xs))"
proof (induction xs arbitrary: sc)
  case Nil
  then show ?case by (subst strnlen_loop.simps) (cases "m sc"; simp)
next
  case (Cons x xs)
  then have "sc - s < maxlen" by simp
  then show ?case using Cons Cons.IH[of "sc + 1"] by (subst strnlen_loop.simps) simp
qed

lemma strnlen_loop_short:
  "cstring m sc xs \<Longrightarrow> sc - s + length xs \<le> maxlen \<Longrightarrow> s \<le> sc \<Longrightarrow> strnlen_loop m s maxlen sc = Some (sc + length xs)"
proof (induction xs arbitrary: sc)
  case Nil
  then show ?case by (subst strnlen_loop.simps) simp
next
  case (Cons x xs)
  then show ?case using Cons.IH[of "sc + 1"] by (subst strnlen_loop.simps) simp
qed

section \<open>What the callers can rely on\<close>

text \<open>Four mapped words with some contents, for the examples.\<close>

definition mem_ex :: kmem where
  "mem_ex x = (if x < 32 then Some (of_nat (x + 100)) else None)"

text \<open>
  \<^verbatim>\<open>rt_memset\<close>, which writes four words at a time, then single words, then single bytes, has exactly the
  effect of one assignment per byte, whatever the alignment and the length; it writes nothing outside
  the area and accesses no address outside it.
\<close>

theorem rt_memset_correct:
  assumes "mapped m s count"
  shows "rt_memset s c count m = Some (\<lambda>x. if s \<le> x \<and> x < s + count then Some (of_int c) else m x)"
  using memset_ok[OF assms] by (simp add: mem_fill_def)

theorem rt_memset_correct_witness:
  "rt_memset 4 0x1FF 23 mem_ex = Some (\<lambda>x. if 4 \<le> x \<and> x < 4 + 23 then Some (of_int 0x1FF) else mem_ex x)"
  by (rule rt_memset_correct) (simp add: mapped_def mem_ex_def)

text \<open>
  \<^verbatim>\<open>rt_memcpy\<close>, by words or by bytes, copies every byte of the source as it was before the call, if the
  target does not start inside the source.
\<close>

theorem rt_memcpy_correct:
  assumes "mapped m dst n" "mapped m src n" "dst \<le> src \<or> src + n \<le> dst"
  shows "rt_memcpy dst src n m = Some (\<lambda>x. if dst \<le> x \<and> x < dst + n then m (src + (x - dst)) else m x)"
  using memcpy_ok[of m dst src n] assms by (simp add: copy_area_def mem_copy_def)

theorem rt_memcpy_correct_witness:
  "rt_memcpy 0 8 18 mem_ex = Some (\<lambda>x. if 0 \<le> x \<and> x < 0 + 18 then mem_ex (8 + (x - 0)) else mem_ex x)"
  by (rule rt_memcpy_correct) (simp_all add: mapped_def mem_ex_def)

text \<open>
  \<^verbatim>\<open>rt_memmove\<close> copies every byte of the source as it was before the call, for every overlap of source
  and target.
\<close>

theorem rt_memmove_correct:
  assumes "mapped m dst n" "mapped m src n"
  shows "rt_memmove dst src n m = Some (\<lambda>x. if dst \<le> x \<and> x < dst + n then m (src + (x - dst)) else m x)"
proof (cases "src < dst \<and> dst < src + n")
  case True
  then show ?thesis using copy_down_ok[OF assms] by (simp add: rt_memmove_def mem_copy_def)
next
  case False
  then have "copy_area m dst src n" using assms by (auto simp: copy_area_def)
  moreover have "rt_memmove dst src n m = copy_bytes n dst src m" using False by (simp only: rt_memmove_def if_False)
  ultimately show ?thesis using copy_bytes_ok[of m dst src n] by (simp add: mem_copy_def)
qed

theorem rt_memmove_correct_witness:
  "rt_memmove 3 1 7 mem_ex = Some (\<lambda>x. if 3 \<le> x \<and> x < 3 + 7 then mem_ex (1 + (x - 3)) else mem_ex x)"
  by (rule rt_memmove_correct) (simp_all add: mapped_def mem_ex_def)

text \<open>
  \<^verbatim>\<open>rt_strstr\<close> returns the first occurrence: on two strings it ends, the result points to a place where
  the second string stands in the first and no earlier place is one, and a null pointer says that
  there is no occurrence.
\<close>

theorem rt_strstr_first:
  assumes "cstring m s1 xs" "cstring m s2 ys"
  shows "\<exists>r. rt_strstr s1 s2 m = Some r \<and>
    (case r of None \<Rightarrow> \<forall>j. take (length ys) (drop j xs) \<noteq> ys
     | Some p \<Rightarrow> \<exists>i. p = s1 + i \<and> take (length ys) (drop i xs) = ys \<and> (\<forall>j < i. take (length ys) (drop j xs) \<noteq> ys))"
  using strstr_ok[OF assms] unfolding first_occ_def occurs_def .

definition str_ex :: kmem where
  "str_ex = [0 \<mapsto> 97, 1 \<mapsto> 98, 2 \<mapsto> 98, 3 \<mapsto> 0, 4 \<mapsto> 98, 5 \<mapsto> 0]"

theorem rt_strstr_first_witness:
  "\<exists>r. rt_strstr 0 4 str_ex = Some r \<and>
    (case r of None \<Rightarrow> \<forall>j. take (length [98 :: u8]) (drop j [97 :: u8, 98, 98]) \<noteq> [98]
     | Some p \<Rightarrow> \<exists>i. p = 0 + i \<and> take (length [98 :: u8]) (drop i [97 :: u8, 98, 98]) = [98] \<and>
         (\<forall>j < i. take (length [98 :: u8]) (drop j [97 :: u8, 98, 98]) \<noteq> [98]))"
  by (rule rt_strstr_first) (simp_all add: str_ex_def)

text \<open>
  \<^verbatim>\<open>rt_strncmp\<close> orders strings of seven bit characters by their first characters, like \<^verbatim>\<open>rt_strcmp\<close>: the
  result is zero, negative or positive if the first \<open>n\<close> characters are equal, smaller or greater.
\<close>

theorem rt_strncmp_seven_bit:
  assumes "cstring m cs xs" "cstring m ct ys" "\<forall>x\<in>set xs. uint x < 128" "\<forall>y\<in>set ys. uint y < 128"
  shows "\<exists>r. rt_strncmp cs ct n m = Some r \<and> (r = 0 \<longleftrightarrow> take n xs = take n ys) \<and>
    (r < 0 \<longleftrightarrow> (take n xs, take n ys) \<in> lexord {(x, y). x < y}) \<and> (r > 0 \<longleftrightarrow> (take n ys, take n xs) \<in> lexord {(x, y). x < y})"
  using strncmp_ok[OF assms(1,2), of n] assms(3,4)
  by (simp add: seven_bit_def rt_strncmp_def cmp_result_def bytes_less_def)

theorem rt_strncmp_seven_bit_witness:
  "\<exists>r. rt_strncmp 0 4 2 str_ex = Some r \<and> r < 0"
proof -
  have "([97, 98], [98]) \<in> lexord {(x, y). x < (y :: u8)}" by simp
  then show ?thesis using rt_strncmp_seven_bit[of str_ex 0 "[97, 98, 98]" 4 "[98]" 2] by (auto simp: str_ex_def)
qed

text \<open>
  Beyond seven bits the result of \<^verbatim>\<open>rt_strncmp\<close> has the wrong sign: it is kept in a signed character, so if
  the first characters differ by 128 or more, the greater string is reported as the smaller one.
\<close>

theorem rt_strncmp_wrong_sign:
  assumes "cstring m cs (x # xs)" "cstring m ct (y # ys)" "0 < n" "128 \<le> uint x - uint y"
  shows "\<exists>r. rt_strncmp cs ct n m = Some r \<and> r < 0 \<and> (\<exists>r'. rt_strcmp cs ct m = Some r' \<and> r' > 0)"
proof -
  obtain k where k: "n = Suc k" using assms(3) by (cases n) auto
  have "uint x < 256" "0 \<le> uint y" using uint_lt2p[of x] by auto
  then have "signed_char (uint x - uint y) = uint x - uint y - 256"
    using assms(4) by (intro signed_char_neg) linarith+
  then have "signed_char (uint x - uint y) < 0" using \<open>uint x < 256\<close> \<open>0 \<le> uint y\<close> by linarith
  then have "\<exists>r. rt_strncmp cs ct n m = Some r \<and> r < 0" using assms(1,2) by (simp add: rt_strncmp_def k)
  moreover have "y < x" using uint_diff_sign(3)[of x y] assms(4) by linarith
  then have "bytes_less (y # ys) (x # xs)" by simp
  then have "\<exists>r'. rt_strcmp cs ct m = Some r' \<and> r' > 0" using strcmp_ok[OF assms(1,2)] by (auto simp: cmp_result_def)
  ultimately show ?thesis by blast
qed

theorem rt_strncmp_wrong_sign_witness:
  "\<exists>r. rt_strncmp 0 2 1 [0 \<mapsto> 200, 1 \<mapsto> 0, 2 \<mapsto> 50, 3 \<mapsto> 0] = Some r \<and> r < 0 \<and>
    (\<exists>r'. rt_strcmp 0 2 [0 \<mapsto> 200, 1 \<mapsto> 0, 2 \<mapsto> 50, 3 \<mapsto> 0] = Some r' \<and> r' > 0)"
  by (rule rt_strncmp_wrong_sign[of _ _ 200 "[]" _ 50 "[]"]) simp_all

text \<open>
  \<^verbatim>\<open>rt_strnlen\<close> reads one character too many: on a buffer of \<open>maxlen\<close> characters without a terminator it
  also reads the character behind the buffer, which fails if that address is not mapped.
\<close>

theorem rt_strnlen_reads_past:
  assumes "bytes_at m s xs" "0 \<notin> set xs" "m (s + length xs) = None"
  shows "rt_strnlen s (length xs) m = None"
  using strnlen_loop_ok[OF assms(1,2), of s "length xs"] assms(3) by (simp add: rt_strnlen_def)

theorem rt_strnlen_reads_past_witness: "rt_strnlen 30 (length [130, 131 :: u8]) mem_ex = None"
  by (rule rt_strnlen_reads_past) (simp_all add: mem_ex_def)

end
