(* ===== verification/HeapService.thy ===== *)
theory HeapService
  imports SmallMem KString
begin

text \<open>
  The system heap as the kernel offers it (\<^verbatim>\<open>kservice.c\<close>): the functions around the small memory allocator,
  with 32-bit addresses. The lock around each call makes it atomic; the hooks are not set.
\<close>

section \<open>Addresses\<close>

text \<open>A pointer of the allocator as an address; the null pointer is address 0.\<close>

definition ptr_of :: "rt_small_mem \<Rightarrow> nat option \<Rightarrow> u32" where
  "ptr_of m r = (case r of None \<Rightarrow> 0 | Some a \<Rightarrow> sm_heap_ptr m + of_nat a)"

definition off_of :: "rt_small_mem \<Rightarrow> u32 \<Rightarrow> nat option" where
  "off_of m p = (if p = 0 then None else Some (unat (p - sm_heap_ptr m)))"

section \<open>Operations\<close>

definition rt_system_heap_init :: "u32 \<Rightarrow> u32 \<Rightarrow> u32 \<Rightarrow> rt_small_mem option" where
  "rt_system_heap_init hdr begin_addr end_addr =
     (let begin_align = RT_ALIGN begin_addr 8; end_align = RT_ALIGN_DOWN end_addr 8
      in if end_align > begin_align then rt_smem_init hdr begin_align (end_align - begin_align) else None)"

definition rt_malloc :: "u32 \<Rightarrow> rt_small_mem \<Rightarrow> (u32 \<times> rt_small_mem) option" where
  "rt_malloc sz m = map_option (\<lambda>(r, m1). (ptr_of m1 r, m1)) (rt_smem_alloc sz m)"

definition rt_realloc :: "u32 \<Rightarrow> u32 \<Rightarrow> rt_small_mem \<Rightarrow> (u32 \<times> rt_small_mem) option" where
  "rt_realloc p newsize m = map_option (\<lambda>(r, m1). (ptr_of m1 r, m1)) (rt_smem_realloc (off_of m p) newsize m)"

definition rt_free :: "u32 \<Rightarrow> rt_small_mem \<Rightarrow> rt_small_mem option" where
  "rt_free p m = (if p = 0 then Some m else rt_smem_free (off_of m p) m)"

text \<open>\<^verbatim>\<open>rt_memset\<close> and a word written through a pointer, on the bytes of the heap.\<close>

definition heap_fill :: "u32 \<Rightarrow> nat \<Rightarrow> u8 \<Rightarrow> rt_small_mem \<Rightarrow> rt_small_mem" where
  "heap_fill p n d m = m\<lparr>sm_byte := mem_fill (unat (p - sm_heap_ptr m)) n d (sm_byte m)\<rparr>"

definition heap_put :: "u32 \<Rightarrow> u32 \<Rightarrow> rt_small_mem \<Rightarrow> rt_small_mem" where
  "heap_put p w m = m\<lparr>sm_byte := mem_put (unat (p - sm_heap_ptr m)) (map (\<lambda>i. word_byte i w) [0..<4]) (sm_byte m)\<rparr>"

definition heap_get :: "u32 \<Rightarrow> rt_small_mem \<Rightarrow> u32 option" where
  "heap_get p m = load_word (unat (p - sm_heap_ptr m)) (sm_byte m)"

definition rt_calloc :: "u32 \<Rightarrow> u32 \<Rightarrow> rt_small_mem \<Rightarrow> (u32 \<times> rt_small_mem) option" where
  "rt_calloc count sz m = do {
     (p, m1) \<leftarrow> rt_malloc (count * sz) m;
     Some (if p \<noteq> 0 then (p, heap_fill p (unat (count * sz)) 0 m1) else (p, m1))
   }"

definition rt_malloc_align :: "u32 \<Rightarrow> u32 \<Rightarrow> rt_small_mem \<Rightarrow> (u32 \<times> rt_small_mem) option" where
  "rt_malloc_align sz align0 m =
     (let align = (align0 + 3) AND NOT 3;
          align_size = ((sz + 3) AND NOT 3) + align
      in do {
        (p, m1) \<leftarrow> rt_malloc align_size m;
        if p \<noteq> 0
        then let align_ptr = (if p AND (align - 1) = 0 then p + align else (p + (align - 1)) AND NOT (align - 1))
             in Some (align_ptr, heap_put (align_ptr - 4) p m1)
        else Some (p, m1)
      })"

definition rt_free_align :: "u32 \<Rightarrow> rt_small_mem \<Rightarrow> rt_small_mem option" where
  "rt_free_align p m = (if p = 0 then Some m else do { real_ptr \<leftarrow> heap_get (p - 4) m; rt_free real_ptr m })"

definition rt_memory_info :: "rt_small_mem \<Rightarrow> nat \<times> nat \<times> nat" where
  "rt_memory_info m = (sm_mem_size_aligned m, sm_used m, sm_max m)"

text \<open>\<^verbatim>\<open>rt_strdup\<close> (\<^verbatim>\<open>kstring.c\<close>): \<open>src\<close> are the characters of the string, without the terminator.\<close>

definition rt_strdup :: "u8 list \<Rightarrow> rt_small_mem \<Rightarrow> (u32 \<times> rt_small_mem) option" where
  "rt_strdup src m = do {
     let len = length src + 1;
     (tmp, m1) \<leftarrow> rt_malloc (of_nat len) m;
     Some (if tmp = 0 then (0, m1)
           else (tmp, m1\<lparr>sm_byte := mem_put (unat (tmp - sm_heap_ptr m1)) (src @ [0]) (sm_byte m1)\<rparr>))
   }"

section \<open>The heap stays where it is\<close>

lemma heap_ptr_simps [simp]:
  "sm_heap_ptr (item_write p f m) = sm_heap_ptr m" "sm_heap_ptr (absorb p n m) = sm_heap_ptr m"
  "sm_heap_ptr (smem_split p p2 m) = sm_heap_ptr m" "sm_heap_ptr (count_used n m) = sm_heap_ptr m"
  "sm_heap_ptr (smem_carve sz p m) = sm_heap_ptr m" "sm_heap_ptr (byte_copy a b n m) = sm_heap_ptr m"
  "sm_heap_end (count_used n m) = sm_heap_end m" "sm_heap_end (smem_carve sz p m) = sm_heap_end m"
  "sm_heap_end (byte_copy a b n m) = sm_heap_end m"
  by (simp_all add: item_write_def absorb_def smem_split_def count_used_def smem_carve_def byte_copy_def Let_def)

abbreviation same_place :: "rt_small_mem \<Rightarrow> rt_small_mem \<Rightarrow> bool" where
  "same_place m m' \<equiv> sm_heap_ptr m' = sm_heap_ptr m \<and> sm_heap_end m' = sm_heap_end m"

lemma plug_place: "plug_holes p m = Some m' \<Longrightarrow> same_place m m'"
  by (auto simp: plug_holes_def Let_def split: if_split_asm)

lemma free_place: "rt_smem_free r m = Some m' \<Longrightarrow> same_place m m'"
  by (auto simp: rt_smem_free_def Let_def split: option.splits if_split_asm dest!: plug_place)

lemma alloc_place: "rt_smem_alloc n m = Some (r, m') \<Longrightarrow> same_place m m'"
  by (auto simp: rt_smem_alloc_def Let_def bind_eq_Some_conv split: if_split_asm option.splits)

lemma realloc_place:
  assumes "rt_smem_realloc p n m = Some (r, m')"
  shows "same_place m m'"
proof (cases p)
  case None
  then show ?thesis using assms
    by (auto simp: rt_smem_realloc_def Let_def split: if_split_asm dest!: alloc_place free_place)
next
  case (Some a)
  let ?ns = "unat (RT_ALIGN n 8)"
  let ?sz = "it_next (sm_item m (a - 16)) - (a - 16) - 16"
  consider "?ns > sm_mem_size_aligned m \<or> ?ns = 0" | "?ns \<le> sm_mem_size_aligned m" "0 < ?ns" "?sz = ?ns \<or> ?ns + 16 + 12 < ?sz"
    | "?ns \<le> sm_mem_size_aligned m" "0 < ?ns" "?sz \<noteq> ?ns" "\<not> ?ns + 16 + 12 < ?sz" by linarith
  then show ?thesis
  proof cases
    case 1
    then show ?thesis using assms by (auto simp: rt_smem_realloc_def Let_def split: if_split_asm dest!: free_place)
  next
    case 2
    then show ?thesis using assms Some
      by (auto simp: rt_smem_realloc_def Let_def simp del: diff_diff_left split: if_split_asm dest!: plug_place)
  next
    case 3
    then have "rt_smem_alloc (RT_ALIGN n 8) m \<bind> (\<lambda>(nmem, m1). case nmem of None \<Rightarrow> Some (None, m1)
        | Some b \<Rightarrow> map_option (\<lambda>m2. (Some b, m2)) (rt_smem_free (Some a) (byte_copy b a (min ?sz ?ns) m1))) = Some (r, m')"
      using assms Some by (simp add: rt_smem_realloc_def Let_def del: diff_diff_left split: if_split_asm)
    then obtain b m1 where m1: "rt_smem_alloc (RT_ALIGN n 8) m = Some (b, m1)" "(case b of None \<Rightarrow> Some (None, m1)
        | Some b \<Rightarrow> map_option (\<lambda>m2. (Some b, m2)) (rt_smem_free (Some a) (byte_copy b a (min ?sz ?ns) m1))) = Some (r, m')"
      unfolding bind_eq_Some_conv by (auto simp del: diff_diff_left)
    show ?thesis
    proof (cases b)
      case None
      then show ?thesis using m1 alloc_place[OF m1(1)] by simp
    next
      case (Some c)
      then obtain m2 where "rt_smem_free (Some a) (byte_copy c a (min ?sz ?ns) m1) = Some m2" "m' = m2" using m1(2) by auto
      then show ?thesis using alloc_place[OF m1(1)] free_place[of "Some a"] by fastforce
    qed
  qed
qed

text \<open>The heap lies inside the address space and starts at an aligned address that is not 0.\<close>

lemma run_place: "smem_run m A \<Longrightarrow> 8 dvd unat (sm_heap_ptr m) \<and> unat (sm_heap_ptr m) + sm_heap_end m < 2 ^ 32"
proof (induction rule: smem_run.induct)
  case (run_init hdr b sz m)
  have "unat (RT_ALIGN_DOWN (b + sz) 8) < 2 ^ 32" using unsigned_less[of "RT_ALIGN_DOWN (b + sz) 8"] by simp
  moreover have "sm_heap_end m = sm_mem_size_aligned m + 16"
    using init_ok(1)[OF run_init] by (simp add: smem_ok_def smem_base_def)
  ultimately show ?case using init_ok(3,4)[OF run_init] by (auto simp: align_8)
qed (auto dest!: alloc_place free_place realloc_place)

lemma smem_ptr_bounds:
  assumes "smem_run m A" "A a = Some n"
  shows "8 dvd a" "16 \<le> a" "a + n \<le> sm_heap_end m"
proof -
  obtain qs where i: "run_inv m A qs" using smem_run_inv[OF assms(1)] by blast
  then obtain q where q: "q \<in> live m qs" "a = q + 16" using run_inv_ptr[of m A qs a n] assms(2) by blast
  have t: "tiles (sm_item m) 0 0 qs (sm_heap_end m)"
    using smem_baseD(1)[OF run_invD(1)[OF i, unfolded smem_ok_def, THEN conjunct1]] .
  have "8 dvd q" "blk_next m q \<le> sm_heap_end m" using tiles_aligned[OF t] tiles_mem[OF t, of q] q(1) by (auto simp: live_def)
  then show "8 dvd a" "16 \<le> a" "a + n \<le> sm_heap_end m" using run_invD(3)[OF i, of q n] assms(2) q(2) by auto
qed

lemma ptr_of_off:
  assumes "smem_run m A" "A a = Some n"
  shows "unat (ptr_of m (Some a)) = unat (sm_heap_ptr m) + a" "ptr_of m (Some a) \<noteq> 0" "off_of m (ptr_of m (Some a)) = Some a"
proof -
  have lt: "a \<le> sm_heap_end m" "16 \<le> a" using smem_ptr_bounds[OF assms] by auto
  have b: "unat (sm_heap_ptr m) + sm_heap_end m < 2 ^ 32" using run_place[OF assms(1)] by simp
  have "unat (of_nat a :: u32) = a" using lt(1) b by (simp add: unat_of_nat)
  then show u: "unat (ptr_of m (Some a)) = unat (sm_heap_ptr m) + a"
    using lt(1) b by (simp add: ptr_of_def unat_word_ariths)
  then show nz: "ptr_of m (Some a) \<noteq> 0" using lt(2) by auto
  have "unat (ptr_of m (Some a) - sm_heap_ptr m) = a"
    using \<open>unat (of_nat a :: u32) = a\<close> by (simp add: ptr_of_def)
  then show "off_of m (ptr_of m (Some a)) = Some a" using nz by (simp add: off_of_def)
qed

lemma malloc_cases:
  assumes r: "smem_run m A" and n: "unat n \<le> 0xFFFFFFF8" and p: "rt_malloc n m = Some (p, m')" "p \<noteq> 0"
  obtains a where "p = ptr_of m' (Some a)" "a \<notin> dom A" "smem_run m' (A(a \<mapsto> unat n))"
proof -
  obtain x where x: "rt_smem_alloc n m = Some (x, m')" "p = ptr_of m' x" using p(1) by (auto simp: rt_malloc_def)
  obtain a where a: "x = Some a" using x(2) p(2) by (cases x) (auto simp: ptr_of_def)
  obtain qs where i: "run_inv m A qs" using smem_run_inv[OF r] by blast
  have n0: "n \<noteq> 0" using x(1) a by (auto simp: rt_smem_alloc_def)
  obtain q qs' where "a = q + 16" "alloc_post (smem_size n) m qs q m' qs'"
    using alloc_ok[OF run_invD(1)[OF i] n0] x(1) a by auto
  then have "a \<notin> dom A" using run_inv_alloc(2)[OF i n n0] by blast
  then show thesis using that[of a] x a run_alloc[OF r n x(1)] by simp
qed

lemma word_bytes_join:
  "ucast (word_byte 0 w) OR push_bit 8 (ucast (word_byte 1 w)) OR push_bit 16 (ucast (word_byte 2 w)) OR
   push_bit 24 (ucast (word_byte 3 w)) = (w :: u32)"
proof (rule bit_word_eqI)
  fix n assume n: "n < LENGTH(32)"
  then consider "n < 8" | "8 \<le> n" "n < 16" | "16 \<le> n" "n < 24" | "24 \<le> n" "n < 32" by fastforce
  then show "bit (ucast (word_byte 0 w) OR push_bit 8 (ucast (word_byte 1 w)) OR push_bit 16 (ucast (word_byte 2 w)) OR
      push_bit 24 (ucast (word_byte 3 w)) :: u32) n = bit w n"
    by cases (auto simp: word_byte_def bit_simps)
qed

lemma heap_put_run:
  assumes r: "smem_run m A" and a: "A a = Some n" and p: "unat (p - sm_heap_ptr m) = a + i" and i: "i + 4 \<le> n"
  shows "smem_run (heap_put p w m) A" "heap_get p (heap_put p w m) = Some w"
proof -
  let ?b = "\<lambda>j. word_byte j w"
  define m4 where "m4 = m\<lparr>sm_byte := (sm_byte m)(a + i \<mapsto> ?b 0, a + (i + 1) \<mapsto> ?b 1, a + (i + 2) \<mapsto> ?b 2, a + (i + 3) \<mapsto> ?b 3)\<rparr>"
  have "smem_run m4 A"
    using run_store[OF run_store[OF run_store[OF run_store[OF r a, of i "?b 0"] a, of "i + 1" "?b 1"] a, of "i + 2" "?b 2"] a, of "i + 3" "?b 3"] i
    by (simp add: m4_def)
  moreover have e: "heap_put p w m = m4"
    by (simp add: heap_put_def p m4_def upt_rec numeral_2_eq_2 numeral_3_eq_3)
  ultimately show "smem_run (heap_put p w m) A" by simp
  have "word_byte 0 w = ucast w" "sm_heap_ptr m4 = sm_heap_ptr m" by (simp_all add: word_byte_def m4_def)
  then show "heap_get p (heap_put p w m) = Some w"
    unfolding e heap_get_def load_word_def using word_bytes_join[of w] by (simp add: p) (simp add: m4_def)
qed

text \<open>Rounding an address up to a power of two.\<close>

lemma round_up:
  assumes "(4 :: nat) dvd P" "2 \<le> k" "\<not> 2 ^ k dvd P"
  shows "P + 4 \<le> (P + 2 ^ k - 1) div 2 ^ k * 2 ^ k" "(P + 2 ^ k - 1) div 2 ^ k * 2 ^ k \<le> P + 2 ^ k"
proof -
  define R where "R = (P + 2 ^ k - 1) div 2 ^ k * 2 ^ k"
  have "(2 :: nat) ^ 2 dvd 2 ^ k" using assms(2) by (rule le_imp_power_dvd)
  then have d: "4 dvd R" by (auto simp: R_def intro: dvd_mult)
  show "R \<le> P + 2 ^ k" using div_times_less_eq_dividend[of "P + 2 ^ k - 1" "2 ^ k"] unfolding R_def by linarith
  have "P + 2 ^ k - 1 < R + 2 ^ k" using dividend_less_div_times[of "2 ^ k" "P + 2 ^ k - 1"] unfolding R_def by simp
  then have "P \<le> R" by linarith
  moreover have "R \<noteq> P" using assms(3) by (metis R_def dvd_triv_right)
  ultimately obtain j where j: "R = P + j" "0 < j" by (metis le_Suc_ex add.right_neutral gr0I)
  then have "4 dvd j" using d assms(1) by (simp add: dvd_add_right_iff)
  then show "P + 4 \<le> R" using j dvd_imp_le[of 4 j] by simp
qed

lemma and_mask_zero: "(w :: u32) AND mask k = 0 \<longleftrightarrow> 2 ^ k dvd unat w"
proof -
  have "w AND mask k = 0 \<longleftrightarrow> unat (take_bit k w) = 0" by (simp add: take_bit_eq_mask unat_eq_0)
  also have "unat (take_bit k w) = take_bit k (unat w)" by (rule unsigned_take_bit_eq)
  also have "\<dots> = 0 \<longleftrightarrow> 2 ^ k dvd unat w" by (simp add: take_bit_eq_mod mod_eq_0_iff_dvd)
  finally show ?thesis .
qed

text \<open>The aligned address \<^verbatim>\<open>rt_malloc_align\<close> computes, without wrap-around.\<close>

lemma align_ptr_bounds:
  fixes p align :: u32
  assumes al: "unat align = 2 ^ k" "2 \<le> k" and p: "4 dvd unat p" "unat p + 2 ^ k < 2 ^ 32"
  defines "q \<equiv> (if p AND (align - 1) = 0 then p + align else (p + (align - 1)) AND NOT (align - 1))"
  shows "2 ^ k dvd unat q" "unat p + 4 \<le> unat q" "unat q \<le> unat p + 2 ^ k"
proof -
  have "of_nat (unat align) = align" by simp
  then have "align = of_nat (2 ^ k)" using al(1) by simp
  then have mk: "align - 1 = mask k" by (simp add: mask_eq_exp_minus_1)
  have "(2 :: nat) ^ 2 dvd 2 ^ k" using al(2) by (rule le_imp_power_dvd)
  then have k4: "4 \<le> (2 :: nat) ^ k" using dvd_imp_le[of 4 "2 ^ k"] by simp
  have um: "unat (mask k :: u32) = 2 ^ k - 1" using al(1) k4 mk[symmetric] by (simp add: unat_sub word_le_nat_alt)
  have "2 ^ k dvd unat q \<and> unat p + 4 \<le> unat q \<and> unat q \<le> unat p + 2 ^ k"
  proof (cases "2 ^ k dvd unat p")
    case True
    then have "q = p + align" by (simp add: q_def mk and_mask_zero)
    then have "unat q = unat p + 2 ^ k" using p(2) al(1) by (simp add: unat_word_ariths)
    then show ?thesis using True k4 by simp
  next
    case False
    then have "q = (p + mask k) AND NOT (mask k)" by (simp add: q_def mk and_mask_zero)
    moreover have "unat (p + mask k) = unat p + 2 ^ k - 1" using p(2) um k4 by (simp add: unat_word_ariths)
    ultimately have "unat q = (unat p + 2 ^ k - 1) div 2 ^ k * 2 ^ k" by (simp add: unat_and_not_mask)
    then show ?thesis using round_up[OF p(1) al(2) False] by simp
  qed
  then show "2 ^ k dvd unat q" "unat p + 4 \<le> unat q" "unat q \<le> unat p + 2 ^ k" by auto
qed

lemma round_4: "unat (w :: u32) + 3 < 2 ^ 32 \<Longrightarrow> unat ((w + 3) AND NOT 3) = (unat w + 3) div 4 * 4"
proof -
  assume "unat w + 3 < 2 ^ 32"
  then have "unat (w + 3) = unat w + 3" by (simp add: unat_word_ariths)
  moreover have "(3 :: u32) = mask 2" by (simp add: mask_eq_exp_minus_1)
  ultimately show ?thesis using unat_and_not_mask[of "w + 3" 2] by simp
qed

text \<open>The block \<^verbatim>\<open>rt_malloc_align\<close> takes from the heap.\<close>

lemma malloc_align_block:
  assumes "smem_run m A" "unat align = 2 ^ k" "2 \<le> k" "unat sz + 3 + unat align \<le> 0xFFFFFFF8"
    "rt_malloc_align sz align m = Some (p, m')" "p \<noteq> 0"
  obtains a n p1 m1 where "p1 = ptr_of m1 (Some a)" "a \<notin> dom A" "smem_run m1 (A(a \<mapsto> n))" "unat sz + unat align \<le> n"
    "p = (if p1 AND (align - 1) = 0 then p1 + align else (p1 + (align - 1)) AND NOT (align - 1))"
    "m' = heap_put (p - 4) p1 m1"
proof -
  define w where "w = ((sz + 3) AND NOT 3) + align"
  have d4: "4 dvd unat align" using assms(2,3) le_imp_power_dvd[of 2 k 2] by simp
  have al: "(align + 3) AND NOT 3 = align"
    using round_4[of align] assms(4) d4 by (auto simp: word_unat_eq_iff elim!: dvdE)
  have r4: "unat ((sz + 3) AND NOT 3) = (unat sz + 3) div 4 * 4" using assms(4) by (intro round_4) simp
  have le: "unat sz \<le> (unat sz + 3) div 4 * 4" "(unat sz + 3) div 4 * 4 \<le> unat sz + 3" by simp_all
  have w: "unat w = (unat sz + 3) div 4 * 4 + unat align" using r4 le(2) assms(4) by (simp add: w_def unat_word_ariths)
  define f where "f p1 = (if p1 AND (align - 1) = 0 then p1 + align else (p1 + (align - 1)) AND NOT (align - 1))" for p1
  have eq: "rt_malloc_align sz align m = rt_malloc w m \<bind>
      (\<lambda>(p1, m1). if p1 \<noteq> 0 then Some (f p1, heap_put (f p1 - 4) p1 m1) else Some (p1, m1))"
    unfolding rt_malloc_align_def Let_def al w_def f_def by (rule refl)
  obtain p1 m1 where m1: "rt_malloc w m = Some (p1, m1)" using assms(5) by (auto simp: eq bind_eq_Some_conv)
  have p1: "p1 \<noteq> 0" "p = f p1" "m' = heap_put (p - 4) p1 m1"
    using assms(5,6) m1 by (auto simp: eq split: if_split_asm)
  have "unat w \<le> 0xFFFFFFF8" using w le(2) assms(4) by simp
  then obtain a where "p1 = ptr_of m1 (Some a)" "a \<notin> dom A" "smem_run m1 (A(a \<mapsto> unat w))"
    using malloc_cases[OF assms(1) _ m1 p1(1)] by blast
  then show thesis using that[of p1 m1 a "unat w"] p1 w le(1) by (simp add: f_def)
qed

lemma heap_fill_run:
  "smem_run m A \<Longrightarrow> A a = Some k \<Longrightarrow> i + n \<le> k \<Longrightarrow> smem_run (m\<lparr>sm_byte := mem_fill (a + i) n d (sm_byte m)\<rparr>) A"
proof (induction n)
  case (Suc n)
  let ?f = "mem_fill (a + i) n d (sm_byte m)"
  have "?f(a + (i + n) \<mapsto> d) = mem_fill (a + i) (Suc n) d (sm_byte m)"
    by (auto simp: mem_fill_def fun_eq_iff)
  then show ?case using run_store[OF Suc.IH[OF Suc.prems(1,2)] Suc.prems(2), of "i + n" d] Suc.prems(3) by simp
qed simp

lemma mem_put_bytes: "bytes_at (mem_put a xs m) a xs"
  by (simp add: bytes_at_nth mem_put_def)

lemma strdup_copies:
  assumes "rt_strdup src m = Some (p, m')" "p \<noteq> 0"
  shows "bytes_at (sm_byte m') (unat (p - sm_heap_ptr m')) (src @ [0])"
  using assms mem_put_bytes by (auto simp: rt_strdup_def bind_eq_Some_conv split: if_split_asm)

section \<open>Properties\<close>

text \<open>
  \<^verbatim>\<open>rt_malloc_align\<close> with an alignment that is a power of two of at least 4, for sizes that do not wrap around:
  if the result is not null it is a multiple of the alignment, the \<open>sz\<close> bytes from it on and the word in
  front of it lie inside one block that was not in use before, and \<^verbatim>\<open>rt_free_align\<close> finds that block
  again and releases it.
\<close>

theorem rt_malloc_align_sound:
  assumes "smem_run m A" "unat align = 2 ^ k" "2 \<le> k" "unat sz + 3 + unat align \<le> 0xFFFFFFF8"
    "rt_malloc_align sz align m = Some (p, m')" "p \<noteq> 0"
  shows "\<exists>a n. a \<notin> dom A \<and> smem_run m' (A(a \<mapsto> n)) \<and> unat align dvd unat p \<and>
    unat (sm_heap_ptr m') + a + 4 \<le> unat p \<and> unat p + unat sz \<le> unat (sm_heap_ptr m') + a + n \<and>
    rt_free_align p m' = rt_smem_free (Some a) m'"
proof -
  obtain a n p1 m1 where b: "p1 = ptr_of m1 (Some a)" "a \<notin> dom A" "smem_run m1 (A(a \<mapsto> n))" "unat sz + unat align \<le> n"
    "p = (if p1 AND (align - 1) = 0 then p1 + align else (p1 + (align - 1)) AND NOT (align - 1))"
    "m' = heap_put (p - 4) p1 m1"
    by (rule malloc_align_block[OF assms])
  note po = ptr_of_off[OF b(3), of a n, simplified, folded b(1)]
  have sb: "8 dvd a" "a + n \<le> sm_heap_end m1" using smem_ptr_bounds[OF b(3), of a] by auto
  have pl: "8 dvd unat (sm_heap_ptr m1)" "unat (sm_heap_ptr m1) + sm_heap_end m1 < 2 ^ 32" using run_place[OF b(3)] by auto
  have "(8 :: nat) dvd unat p1" using po(1) sb(1) pl(1) by simp
  then have P4: "4 dvd unat p1" by (rule dvd_trans[rotated]) simp
  have P2: "unat p1 + 2 ^ k < 2 ^ 32" using po(1) sb(2) pl(2) b(4) assms(2) by linarith
  note qb = align_ptr_bounds[OF assms(2,3) P4 P2, folded b(5)]
  define i where "i = unat p - unat p1 - 4"
  have pi: "unat (p - 4) = unat p1 + i" using qb(2) by (subst unat_sub) (auto simp: word_le_nat_alt i_def)
  have off: "unat (p - 4 - sm_heap_ptr m1) = a + i" using pi po(1) by (subst unat_sub) (auto simp: word_le_nat_alt)
  have i4: "i + 4 \<le> n" using qb(2,3) b(4) assms(2) by (simp add: i_def)
  have run: "smem_run m' (A(a \<mapsto> n))" "heap_get (p - 4) m' = Some p1"
    using heap_put_run[OF b(3) _ off i4] b(6) by simp_all
  have hp: "sm_heap_ptr m' = sm_heap_ptr m1" by (simp add: b(6) heap_put_def)
  have "off_of m' p1 = Some a" using po(2,3) hp by (simp add: off_of_def)
  then have "rt_free_align p m' = rt_smem_free (Some a) m'"
    using run(2) po(2) assms(6) by (simp add: rt_free_align_def rt_free_def)
  moreover have "unat p + unat sz \<le> unat (sm_heap_ptr m') + a + n" "unat (sm_heap_ptr m') + a + 4 \<le> unat p"
    using qb(2,3) po(1) b(4) assms(2) by (simp_all add: hp)
  moreover have "unat align dvd unat p" using qb(1) assms(2) by simp
  ultimately show ?thesis using b(2) run(1) by blast
qed

theorem rt_malloc_align_sound_witness:
  "\<exists>p m'. rt_malloc_align 10 32 smem_ex0 = Some (p, m') \<and> 32 dvd unat p \<and> (\<exists>a. rt_free_align p m' = rt_smem_free (Some a) m')"
proof -
  have "map_option fst (rt_malloc_align 10 32 smem_ex0) = Some 0x20000060" by code_simp
  then obtain m' where m: "rt_malloc_align 10 32 smem_ex0 = Some (0x20000060, m')" by auto
  show ?thesis using rt_malloc_align_sound[OF smem_ex_run(1) _ _ _ m, of 5] m by auto
qed

text \<open>
  \<^verbatim>\<open>rt_calloc\<close>, if the product of count and size does not wrap around: a result that is not null is a block
  that was not in use before, and every one of its bytes is zero.
\<close>

theorem rt_calloc_zeroes:
  assumes "smem_run m A" "unat count * unat sz \<le> 0xFFFFFFF8" "rt_calloc count sz m = Some (p, m')" "p \<noteq> 0"
  shows "\<exists>a. p = ptr_of m' (Some a) \<and> a \<notin> dom A \<and> smem_run m' (A(a \<mapsto> unat count * unat sz)) \<and>
    (\<forall>i < unat count * unat sz. sm_byte m' (a + i) = Some 0)"
proof -
  let ?n = "unat count * unat sz"
  have u: "unat (count * sz) = ?n" using assms(2) by (simp add: unat_word_ariths)
  obtain m1 where m1: "rt_malloc (count * sz) m = Some (p, m1)" "m' = heap_fill p ?n 0 m1"
    using assms(3,4) by (auto simp: rt_calloc_def bind_eq_Some_conv u split: if_split_asm)
  have "unat (count * sz) \<le> 0xFFFFFFF8" using assms(2) u by simp
  then obtain a where a: "p = ptr_of m1 (Some a)" "a \<notin> dom A" "smem_run m1 (A(a \<mapsto> ?n))"
    using malloc_cases[OF assms(1) _ m1(1) assms(4)] u by auto
  have off: "unat (p - sm_heap_ptr m1) = a" using ptr_of_off(3)[OF a(3), of a ?n] a(1) assms(4) by (simp add: off_of_def)
  have m': "m' = m1\<lparr>sm_byte := mem_fill (a + 0) ?n 0 (sm_byte m1)\<rparr>" using m1(2) off by (simp add: heap_fill_def)
  have "smem_run m' (A(a \<mapsto> ?n))" unfolding m' by (rule heap_fill_run[OF a(3)]) auto
  moreover have "sm_byte m' (a + i) = Some 0" if "i < ?n" for i using that by (simp add: m' mem_fill_def)
  moreover have "p = ptr_of m' (Some a)" using a(1) by (simp add: m' ptr_of_def)
  ultimately show ?thesis using a(2) by blast
qed

theorem rt_calloc_zeroes_witness:
  "\<exists>p m'. rt_calloc 3 5 smem_ex0 = Some (p, m') \<and> sm_byte m' (unat (p - sm_heap_ptr m') + 14) = Some 0"
proof -
  have "map_option fst (rt_calloc 3 5 smem_ex0) = Some 0x20000040" by code_simp
  then obtain m' where m: "rt_calloc 3 5 smem_ex0 = Some (0x20000040, m')" by auto
  obtain a where a: "0x20000040 = ptr_of m' (Some a)" "smem_run m' [a \<mapsto> 15]" "\<forall>i < 15. sm_byte m' (a + i) = Some 0"
    using rt_calloc_zeroes[OF smem_ex_run(1) _ m] by auto
  have "unat (0x20000040 - sm_heap_ptr m') = a" using ptr_of_off(3)[OF a(2), of a 15] a(1) by (simp add: off_of_def)
  then show ?thesis using m a(3) by auto
qed

text \<open>
  The product is not checked: whatever the count and the size, \<^verbatim>\<open>rt_calloc\<close> does what it does for one
  object whose size is the product modulo \<open>2 ^ 32\<close>, so a request that is too large for the address space
  can succeed with a small block.
\<close>

theorem rt_calloc_wraps:
  "rt_calloc count sz m = rt_calloc 1 (of_nat (unat count * unat sz mod 2 ^ 32)) m"
proof -
  have "(of_nat (unat count * unat sz mod 2 ^ 32) :: u32) = count * sz"
    by (rule word_unat_eq_iff[THEN iffD2]) (simp add: unat_of_nat unat_word_ariths)
  then show ?thesis unfolding rt_calloc_def by (simp only: mult_1)
qed

end
