(* ===== verification/LcdDraw.thy ===== *)
theory LcdDraw
  imports OXRules "HOL-Library.Monad_Syntax"
begin

text \<open>
  The drawing functions of the LCD driver (\<^verbatim>\<open>board/ports/drv_lcd.c\<close>). The controller is reached through two
  addresses, a register number and a data word; the driver's effect is the sequence of these writes.
  The figures are computed as sequences of points, with the integer types of the source: coordinates are
  16-bit unsigned where the source has \<^verbatim>\<open>rt_uint16_t\<close> and integers where it has \<^verbatim>\<open>int\<close>. The glyph tables are an
  argument.
\<close>

section \<open>The controller\<close>

record lcd_dev =
  lcd_width :: u16
  lcd_height :: u16
  lcd_id :: u16
  lcd_dir :: u8
  lcd_wramcmd :: u16
  lcd_setxcmd :: u16
  lcd_setycmd :: u16

datatype lcd_bus = REG u16 | RAM u16

text \<open>The two bytes \<^verbatim>\<open>x >> 8\<close> and \<^verbatim>\<open>x & 0xFF\<close>, as 16-bit data.\<close>

definition hi_byte :: "int \<Rightarrow> u16" where "hi_byte x = of_int (drop_bit 8 x)"
definition lo_byte :: "int \<Rightarrow> u16" where "lo_byte x = of_int (take_bit 8 x)"

definition LCD_WriteReg :: "u16 \<Rightarrow> u16 \<Rightarrow> lcd_bus list" where
  "LCD_WriteReg reg val = [REG reg, RAM val]"

definition LCD_BGR2RGB :: "u16 \<Rightarrow> u16" where
  "LCD_BGR2RGB c =
     (let b = c AND 0x1f; g = drop_bit 5 c AND 0x3f; r = drop_bit 11 c AND 0x1f
      in push_bit 11 b + push_bit 5 g + r)"

definition LCD_SetCursor :: "lcd_dev \<Rightarrow> u16 \<Rightarrow> u16 \<Rightarrow> lcd_bus list" where
  "LCD_SetCursor dev xpos0 ypos0 =
     (let x = uint xpos0; y = uint ypos0; sx = lcd_setxcmd dev; sy = lcd_setycmd dev;
          w1 = uint (lcd_width dev) - 1; h1 = uint (lcd_height dev) - 1 in
      if lcd_id dev = 0x9341 \<or> lcd_id dev = 0x5310
      then [REG sx, RAM (hi_byte x), RAM (lo_byte x), REG sy, RAM (hi_byte y), RAM (lo_byte y)]
      else if lcd_id dev = 0x1963
      then (if lcd_dir dev = 0
            then let x' = uint (of_int (w1 - x) :: u16) in [REG sx, RAM 0, RAM 0, RAM (hi_byte x'), RAM (lo_byte x')]
            else [REG sx, RAM (hi_byte x), RAM (lo_byte x), RAM (hi_byte w1), RAM (lo_byte w1)]) @
           [REG sy, RAM (hi_byte y), RAM (lo_byte y), RAM (hi_byte h1), RAM (lo_byte h1)]
      else if lcd_id dev = 0x5510
      then [REG sx, RAM (hi_byte x), REG (sx + 1), RAM (lo_byte x), REG sy, RAM (hi_byte y), REG (sy + 1), RAM (lo_byte y)]
      else [])"

definition LCD_Fast_DrawPoint :: "lcd_dev \<Rightarrow> u16 \<Rightarrow> int \<Rightarrow> int \<Rightarrow> lcd_bus list" where
  "LCD_Fast_DrawPoint dev color x y =
     (let sx = lcd_setxcmd dev; sy = lcd_setycmd dev in
      (if lcd_id dev = 0x9341 \<or> lcd_id dev = 0x5310
       then [REG sx, RAM (hi_byte x), RAM (lo_byte x), REG sy, RAM (hi_byte y), RAM (lo_byte y)]
       else if lcd_id dev = 0x5510
       then [REG sx, RAM (hi_byte x), REG (sx + 1), RAM (lo_byte x), REG sy, RAM (hi_byte y), REG (sy + 1), RAM (lo_byte y)]
       else if lcd_id dev = 0x1963
       then let x' = (if lcd_dir dev = 0 then uint (lcd_width dev) - 1 - x else x)
            in [REG sx, RAM (hi_byte x'), RAM (lo_byte x'), RAM (hi_byte x'), RAM (lo_byte x'),
                REG sy, RAM (hi_byte y), RAM (lo_byte y), RAM (hi_byte y), RAM (lo_byte y)]
       else []) @ [REG (lcd_wramcmd dev), RAM color])"

definition draw_points :: "lcd_dev \<Rightarrow> u16 \<Rightarrow> (int \<times> int) list \<Rightarrow> lcd_bus list" where
  "draw_points dev color ps = concat (map (\<lambda>(x, y). LCD_Fast_DrawPoint dev color x y) ps)"

definition scan_dir_turn :: "u8 \<Rightarrow> u8" where
  "scan_dir_turn dir = (if dir = 0 then 6 else if dir = 1 then 7 else if dir = 2 then 4 else if dir = 3 then 5
     else if dir = 4 then 1 else if dir = 5 then 0 else if dir = 6 then 3 else if dir = 7 then 2 else dir)"

definition scan_dir_reg :: "u8 \<Rightarrow> u16" where
  "scan_dir_reg dir = (if dir = 0 then 0 else if dir = 1 then 0x80 else if dir = 2 then 0x40 else if dir = 3 then 0xC0
     else if dir = 4 then 0x20 else if dir = 5 then 0x60 else if dir = 6 then 0xA0 else if dir = 7 then 0xE0 else 0)"

definition LCD_Scan_Dir :: "u8 \<Rightarrow> lcd_dev \<Rightarrow> lcd_bus list \<times> lcd_dev" where
  "LCD_Scan_Dir dir0 dev =
     (let d = lcd_id dev;
          dir = (if lcd_dir dev = 1 \<and> d \<noteq> 0x1963 \<or> lcd_dir dev = 0 \<and> d = 0x1963 then scan_dir_turn dir0 else dir0) in
      if d = 0x9341 \<or> d = 0x5310 \<or> d = 0x5510 \<or> d = 0x1963
      then let dirreg = (if d = 0x5510 then 0x3600 else 0x36);
               regval = (if d \<noteq> 0x5310 \<and> d \<noteq> 0x5510 \<and> d \<noteq> 0x1963 then scan_dir_reg dir OR 0x08 else scan_dir_reg dir);
               swap = d \<noteq> 0x1963 \<and> (if regval AND 0x20 \<noteq> 0 then lcd_width dev < lcd_height dev else lcd_width dev > lcd_height dev);
               dev1 = (if swap then dev\<lparr>lcd_width := lcd_height dev, lcd_height := lcd_width dev\<rparr> else dev);
               sx = lcd_setxcmd dev1; sy = lcd_setycmd dev1;
               w1 = uint (lcd_width dev1) - 1; h1 = uint (lcd_height dev1) - 1
           in (LCD_WriteReg dirreg regval @
               (if d = 0x5510
                then [REG sx, RAM 0, REG (sx + 1), RAM 0, REG (sx + 2), RAM (hi_byte w1), REG (sx + 3), RAM (lo_byte w1),
                      REG sy, RAM 0, REG (sy + 1), RAM 0, REG (sy + 2), RAM (hi_byte h1), REG (sy + 3), RAM (lo_byte h1)]
                else [REG sx, RAM 0, RAM 0, RAM (hi_byte w1), RAM (lo_byte w1),
                      REG sy, RAM 0, RAM 0, RAM (hi_byte h1), RAM (lo_byte h1)]), dev1)
      else ([], dev))"

definition lcd_cmds :: "u16 \<Rightarrow> u16 \<Rightarrow> u16 \<Rightarrow> lcd_dev \<Rightarrow> lcd_dev" where
  "lcd_cmds w x y dev = dev\<lparr>lcd_wramcmd := w, lcd_setxcmd := x, lcd_setycmd := y\<rparr>"

definition lcd_area :: "u16 \<Rightarrow> u16 \<Rightarrow> lcd_dev \<Rightarrow> lcd_dev" where
  "lcd_area w h dev = dev\<lparr>lcd_width := w, lcd_height := h\<rparr>"

text \<open>The default scan direction of the capacitive touch screen is 0.\<close>

definition LCD_Display_Dir :: "u8 \<Rightarrow> lcd_dev \<Rightarrow> lcd_bus list \<times> lcd_dev" where
  "LCD_Display_Dir dir dev0 =
     (let dev = dev0\<lparr>lcd_dir := dir\<rparr>; d = lcd_id dev;
          dev1 = (if dir = 0
            then let dev2 = lcd_area 240 320 dev in
              if d = 0x9341 \<or> d = 0x5310
              then (let dev3 = lcd_cmds 0x2C 0x2A 0x2B dev2 in if d = 0x5310 then lcd_area 320 480 dev3 else dev3)
              else if d = 0x5510 then lcd_area 480 800 (lcd_cmds 0x2C00 0x2A00 0x2B00 dev2)
              else if d = 0x1963 then lcd_area 480 800 (lcd_cmds 0x2C 0x2B 0x2A dev2) else dev2
            else let dev2 = lcd_area 320 240 dev;
                     dev3 = (if d = 0x9341 \<or> d = 0x5310 then lcd_cmds 0x2C 0x2A 0x2B dev2
                       else if d = 0x5510 then lcd_area 800 480 (lcd_cmds 0x2C00 0x2A00 0x2B00 dev2)
                       else if d = 0x1963 then lcd_area 800 480 (lcd_cmds 0x2C 0x2A 0x2B dev2) else dev2)
                 in if d = 0x5310 then lcd_area 480 320 dev3 else dev3)
      in LCD_Scan_Dir 0 dev1)"

definition LCD_Clear_bus :: "lcd_dev \<Rightarrow> u16 \<Rightarrow> lcd_bus list" where
  "LCD_Clear_bus dev color =
     LCD_SetCursor dev 0 0 @ [REG (lcd_wramcmd dev)] @ replicate (unat (lcd_width dev) * unat (lcd_height dev)) (RAM color)"

definition LCD_BlitLine :: "lcd_dev \<Rightarrow> u16 list \<Rightarrow> int \<Rightarrow> int \<Rightarrow> lcd_bus list" where
  "LCD_BlitLine dev pixels x y = LCD_SetCursor dev (of_int x) (of_int y) @ [REG (lcd_wramcmd dev)] @ map RAM pixels"

section \<open>Lines and rectangles\<close>

text \<open>One axis in one round of the loop: the error counter and the coordinate.\<close>

definition axis_step :: "int \<Rightarrow> int \<Rightarrow> int \<Rightarrow> int \<times> int \<Rightarrow> int \<times> int" where
  "axis_step distance delta inc s =
     (let err = fst s + delta in if err > distance then (err - distance, snd s + inc) else (err, snd s))"

text \<open>The counter \<^verbatim>\<open>t\<close> has 16 bits; \<open>xs\<close> are \<^verbatim>\<open>xerr\<close> and \<^verbatim>\<open>uRow\<close>, \<open>ys\<close> are \<^verbatim>\<open>yerr\<close> and \<^verbatim>\<open>uCol\<close>.\<close>

partial_function (option) line_loop ::
    "int \<Rightarrow> int \<Rightarrow> int \<Rightarrow> int \<Rightarrow> int \<Rightarrow> u16 \<Rightarrow> int \<times> int \<Rightarrow> int \<times> int \<Rightarrow> (int \<times> int) list option" where
  "line_loop distance delta_x delta_y incx incy t xs ys =
     (if uint t \<le> distance + 1
      then do {
        ps \<leftarrow> line_loop distance delta_x delta_y incx incy (t + 1)
                (axis_step distance delta_x incx xs) (axis_step distance delta_y incy ys);
        Some ((snd xs, snd ys) # ps)
      }
      else Some [])"

definition line_points :: "u16 \<Rightarrow> u16 \<Rightarrow> u16 \<Rightarrow> u16 \<Rightarrow> (int \<times> int) list option" where
  "line_points x1 y1 x2 y2 =
     (let dx = uint x2 - uint x1; dy = uint y2 - uint y1;
          incx = (if dx > 0 then 1 else if dx = 0 then 0 else -1); delta_x = (if dx < 0 then - dx else dx);
          incy = (if dy > 0 then 1 else if dy = 0 then 0 else -1); delta_y = (if dy < 0 then - dy else dy);
          distance = (if delta_x > delta_y then delta_x else delta_y)
      in line_loop distance delta_x delta_y incx incy 0 (0, uint x1) (0, uint y1))"

definition draw_line :: "lcd_dev \<Rightarrow> u16 \<Rightarrow> u16 \<Rightarrow> u16 \<Rightarrow> u16 \<Rightarrow> u16 \<Rightarrow> lcd_bus list option" where
  "draw_line dev color x1 y1 x2 y2 = map_option (draw_points dev color) (line_points x1 y1 x2 y2)"

text \<open>The arguments of \<^verbatim>\<open>LCD_HLine\<close> and \<^verbatim>\<open>LCD_VLine\<close> are \<^verbatim>\<open>int\<close> and are cut to 16 bits for \<^verbatim>\<open>LCD_DrawLine\<close>.\<close>

definition LCD_HLine :: "int \<Rightarrow> int \<Rightarrow> int \<Rightarrow> (int \<times> int) list option" where
  "LCD_HLine x1 x2 y = line_points (of_int x1) (of_int y) (of_int x2) (of_int y)"

definition LCD_VLine :: "int \<Rightarrow> int \<Rightarrow> int \<Rightarrow> (int \<times> int) list option" where
  "LCD_VLine x y1 y2 = line_points (of_int x) (of_int y1) (of_int x) (of_int y2)"

definition rect_points :: "u16 \<Rightarrow> u16 \<Rightarrow> u16 \<Rightarrow> u16 \<Rightarrow> (int \<times> int) list option" where
  "rect_points x0 y0 width0 height0 =
     (let x = uint x0; y = uint y0; width = uint width0; height = uint height0 in do {
        p1 \<leftarrow> LCD_HLine x (x + width - 1) y;
        p2 \<leftarrow> LCD_HLine x (x + width - 1) (y + height - 1);
        p3 \<leftarrow> LCD_VLine x y (y + height - 1);
        p4 \<leftarrow> LCD_VLine (x + width - 1) y (y + height - 1);
        Some (p1 @ p2 @ p3 @ p4)
      })"

definition draw_rect :: "lcd_dev \<Rightarrow> u16 \<Rightarrow> u16 \<Rightarrow> u16 \<Rightarrow> u16 \<Rightarrow> u16 \<Rightarrow> lcd_bus list option" where
  "draw_rect dev x y width height color = map_option (draw_points dev color) (rect_points x y width height)"

section \<open>Circles\<close>

definition octants :: "int \<Rightarrow> int \<Rightarrow> int \<Rightarrow> int \<Rightarrow> (int \<times> int) list" where
  "octants x0 y0 x y = [(x0 + x, y0 + y), (x0 + y, y0 + x), (x0 - y, y0 + x), (x0 - x, y0 + y),
     (x0 - x, y0 - y), (x0 - y, y0 - x), (x0 + y, y0 - x), (x0 + x, y0 - y)]"

definition circle_step :: "int \<times> int \<times> int \<Rightarrow> int \<times> int \<times> int" where
  "circle_step s =
     (let (x, y, err) = s;
          (y1, err1) = (if err \<le> 0 then (y + 1, err + (2 * (y + 1) + 1)) else (y, err))
      in if err1 > 0 then (x - 1, y1, err1 - (2 * (x - 1) + 1)) else (x, y1, err1))"

function circle_loop :: "int \<Rightarrow> int \<Rightarrow> int \<times> int \<times> int \<Rightarrow> (int \<times> int) list" where
  "circle_loop x0 y0 s =
     (if fst s \<ge> fst (snd s) then octants x0 y0 (fst s) (fst (snd s)) @ circle_loop x0 y0 (circle_step s) else [])"
  by auto
termination
  by (relation "measure (\<lambda>(_, _, x, y, _). nat (x - y + 1))") (auto simp: circle_step_def Let_def split: prod.splits if_splits)

declare circle_loop.simps [simp del]

definition circle_points :: "u16 \<Rightarrow> u16 \<Rightarrow> u16 \<Rightarrow> (int \<times> int) list" where
  "circle_points x0 y0 r = circle_loop (uint x0) (uint y0) (uint r, 0, 0)"

definition draw_circle :: "lcd_dev \<Rightarrow> u16 \<Rightarrow> u16 \<Rightarrow> u16 \<Rightarrow> u16 \<Rightarrow> lcd_bus list" where
  "draw_circle dev x0 y0 r color = draw_points dev color (circle_points x0 y0 r)"

section \<open>The points of a line\<close>

text \<open>The number of steps along an axis after \<open>t\<close> rounds.\<close>

definition steps :: "nat \<Rightarrow> nat \<Rightarrow> nat \<Rightarrow> nat" where
  "steps d delta t = (t * delta - 1) div d"

lemma steps_0 [simp]: "steps d delta 0 = 0" "steps d 0 t = 0"
  by (simp_all add: steps_def)

text \<open>The error counter: what is left after the steps made so far.\<close>

definition residue :: "nat \<Rightarrow> nat \<Rightarrow> nat \<Rightarrow> nat" where
  "residue d delta t = t * delta - d * steps d delta t"

lemma steps_residue:
  assumes "delta \<le> d"
  shows "residue d delta t \<le> d" "d * steps d delta t + residue d delta t = t * delta" "0 < t * delta \<Longrightarrow> 0 < residue d delta t"
proof -
  have "d * steps d delta t \<le> t * delta - 1" by (simp add: steps_def)
  then have le: "d * steps d delta t \<le> t * delta" by linarith
  then show "d * steps d delta t + residue d delta t = t * delta" by (simp add: residue_def)
  show "0 < residue d delta t" if "0 < t * delta"
  proof -
    have "d * steps d delta t < t * delta" using \<open>d * steps d delta t \<le> t * delta - 1\<close> that by linarith
    then show ?thesis by (simp add: residue_def)
  qed
  show "residue d delta t \<le> d"
  proof (cases "t * delta = 0 \<or> d = 0")
    case True
    then show ?thesis using assms by (auto simp: residue_def)
  next
    case False
    then have "t * delta - 1 < d * steps d delta t + d"
      unfolding steps_def using dividend_less_times_div[of d "t * delta - 1"] by simp
    then show ?thesis by (simp add: residue_def)
  qed
qed

lemma div_unique_nat: "n = d * q + r \<Longrightarrow> r < d \<Longrightarrow> n div d = (q :: nat)"
  by simp

lemma steps_Suc:
  assumes "delta \<le> d"
  shows "residue d delta t + delta > d \<Longrightarrow>
      steps d delta (Suc t) = Suc (steps d delta t) \<and> residue d delta (Suc t) = residue d delta t + delta - d"
    and "residue d delta t + delta \<le> d \<Longrightarrow>
      steps d delta (Suc t) = steps d delta t \<and> residue d delta (Suc t) = residue d delta t + delta"
proof -
  note s = steps_residue[OF assms, of t]
  have tot: "Suc t * delta = d * steps d delta t + (residue d delta t + delta)" using s(2) by simp
  {
    assume a: "residue d delta t + delta > d"
    let ?r = "residue d delta t + delta - d"
    have "Suc t * delta - 1 = d * Suc (steps d delta t) + (?r - 1)" "?r - 1 < d" using tot a s(1) assms by simp_all
    then have "steps d delta (Suc t) = Suc (steps d delta t)" unfolding steps_def[of d delta "Suc t"] by (rule div_unique_nat)
    then show "steps d delta (Suc t) = Suc (steps d delta t) \<and> residue d delta (Suc t) = ?r"
      using tot a by (simp add: residue_def[of d delta "Suc t"])
  next
    assume a: "residue d delta t + delta \<le> d"
    have "steps d delta (Suc t) = steps d delta t"
    proof (cases "residue d delta t + delta = 0")
      case True
      then have "delta = 0" by simp
      then show ?thesis by simp
    next
      case False
      then have "Suc t * delta - 1 = d * steps d delta t + (residue d delta t + delta - 1)" "residue d delta t + delta - 1 < d"
        unfolding tot using a by linarith+
      then show ?thesis unfolding steps_def[of d delta "Suc t"] by (rule div_unique_nat)
    qed
    then show "steps d delta (Suc t) = steps d delta t \<and> residue d delta (Suc t) = residue d delta t + delta"
      using tot by (simp add: residue_def[of d delta "Suc t"])
  }
qed

lemma steps_next: "delta \<le> d \<Longrightarrow> steps d delta (Suc t) = steps d delta t \<or> steps d delta (Suc t) = Suc (steps d delta t)"
  using steps_Suc[of delta d t] by (cases "residue d delta t + delta > d") auto

lemma steps_last: "delta \<le> d \<Longrightarrow> steps d delta (d + 1) = delta"
proof (cases "delta = 0")
  case False
  assume "delta \<le> d"
  then have "(d + 1) * delta - 1 = d * delta + (delta - 1)" "delta - 1 < d" using False by simp_all
  then show ?thesis unfolding steps_def by (rule div_unique_nat)
qed simp

lemma steps_le: "delta \<le> d \<Longrightarrow> t \<le> d + 1 \<Longrightarrow> steps d delta t \<le> delta"
proof -
  assume a: "delta \<le> d" "t \<le> d + 1"
  have "t * delta \<le> (d + 1) * delta" using a(2) by (rule mult_le_mono1)
  then have "steps d delta t \<le> steps d delta (d + 1)" unfolding steps_def by (intro div_le_mono diff_le_mono)
  then show ?thesis using steps_last[OF a(1)] by simp
qed

lemma axis_step_at:
  "delta \<le> d \<Longrightarrow> axis_step (int d) (int delta) inc (int (residue d delta t), x + inc * int (steps d delta t)) =
     (int (residue d delta (Suc t)), x + inc * int (steps d delta (Suc t)))"
  using steps_Suc[of delta d t]
  by (cases "residue d delta t + delta > d") (auto simp: axis_step_def Let_def algebra_simps)

definition line_pt :: "nat \<Rightarrow> int \<times> int \<Rightarrow> int \<times> int \<Rightarrow> nat \<times> nat \<Rightarrow> nat \<Rightarrow> int \<times> int" where
  "line_pt d p inc delta t =
     (fst p + fst inc * int (steps d (fst delta) t), snd p + snd inc * int (steps d (snd delta) t))"

lemma uint_of_nat_16: "t < 65536 \<Longrightarrow> uint (of_nat t :: u16) = int t"
  by (simp add: uint_nat unat_of_nat take_bit_nat_def)

lemma line_loop_more:
  "uint t \<le> distance + 1 \<Longrightarrow> line_loop distance dx dy ix iy t xs ys =
     Option.bind (line_loop distance dx dy ix iy (t + 1) (axis_step distance dx ix xs) (axis_step distance dy iy ys))
       (\<lambda>ps. Some ((snd xs, snd ys) # ps))"
  by (subst line_loop.simps) simp

lemma line_loop_ok:
  assumes d: "dx \<le> d" "dy \<le> d" "d \<le> 65533"
  shows "k \<le> d + 2 \<Longrightarrow> t = d + 2 - k \<Longrightarrow>
    line_loop (int d) (int dx) (int dy) ix iy (of_nat t)
      (int (residue d dx t), x + ix * int (steps d dx t)) (int (residue d dy t), y + iy * int (steps d dy t)) =
    Some (map (line_pt d (x, y) (ix, iy) (dx, dy)) [t..<d + 2])"
proof (induction k arbitrary: t)
  case 0
  have "t = d + 2" using 0 by simp
  then show ?case using uint_of_nat_16[of t] d(3) by (subst line_loop.simps) (simp del: of_nat_add of_nat_Suc)
next
  case (Suc k)
  have u: "uint (of_nat t :: u16) = int t" using Suc.prems d(3) by (intro uint_of_nat_16) linarith
  have st: "Suc t = d + 2 - k" "t < d + 2" using Suc.prems by auto
  have n: "(of_nat t + 1 :: u16) = of_nat (Suc t)" by simp
  have g: "uint (of_nat t :: u16) \<le> int d + 1" using u st(2) by simp
  have "line_loop (int d) (int dx) (int dy) ix iy (of_nat t)
      (int (residue d dx t), x + ix * int (steps d dx t)) (int (residue d dy t), y + iy * int (steps d dy t)) =
    Option.bind (Some (map (line_pt d (x, y) (ix, iy) (dx, dy)) [Suc t..<d + 2]))
      (\<lambda>ps. Some ((x + ix * int (steps d dx t), y + iy * int (steps d dy t)) # ps))"
    using line_loop_more[OF g, of "int dx" "int dy" ix iy "(int (residue d dx t), x + ix * int (steps d dx t))"
        "(int (residue d dy t), y + iy * int (steps d dy t))"]
    unfolding n axis_step_at[OF d(1)] axis_step_at[OF d(2)] Suc.IH[OF Suc_leD[OF Suc.prems(1)] st(1)] snd_conv .
  then show ?case unfolding upt_conv_Cons[OF st(2)] bind.bind_lunit list.map line_pt_def fst_conv snd_conv .
qed

text \<open>
  A drawn point lies on the grid line of its round; the error counters bound the distance from the ideal
  line.
\<close>

lemma steps_deviation:
  assumes "dx \<le> d" "dy \<le> d"
  shows "\<bar>int (steps d dx t) * int dy - int (steps d dy t) * int dx\<bar> \<le> int d"
proof (cases "d = 0")
  case False
  let ?a = "int (steps d dx t)" and ?b = "int (steps d dy t)" and ?rx = "int (residue d dx t)" and ?ry = "int (residue d dy t)"
  have e: "int d * ?a + ?rx = int t * int dx" "int d * ?b + ?ry = int t * int dy"
    using steps_residue(2)[OF assms(1), of t] steps_residue(2)[OF assms(2), of t] by (metis of_nat_add of_nat_mult)+
  have "int d * (?a * int dy - ?b * int dx) = (int d * ?a) * int dy - (int d * ?b) * int dx" by (simp add: algebra_simps)
  also have "int d * ?a = int t * int dx - ?rx" using e(1) by linarith
  also have "int d * ?b = int t * int dy - ?ry" using e(2) by linarith
  also have "(int t * int dx - ?rx) * int dy - (int t * int dy - ?ry) * int dx = ?ry * int dx - ?rx * int dy" by (simp add: algebra_simps)
  finally have eq: "int d * (?a * int dy - ?b * int dx) = ?ry * int dx - ?rx * int dy" .
  have "0 \<le> ?ry * int dx" "?ry * int dx \<le> int d * int d" "0 \<le> ?rx * int dy" "?rx * int dy \<le> int d * int d"
    using steps_residue(1)[OF assms(1), of t] steps_residue(1)[OF assms(2), of t] assms by (auto intro!: mult_mono)
  then have "\<bar>int d * (?a * int dy - ?b * int dx)\<bar> \<le> int d * int d" unfolding eq by linarith
  then show ?thesis using False by (simp add: abs_mult)
qed (use assms in simp)

text \<open>When the distance does not leave room for the counter, the loop does not end.\<close>

lemmas line_loop_induct = line_loop.raw_induct [rotated, consumes 1, case_names step]

lemma line_loop_bound: "line_loop distance dx dy ix iy t xs ys = Some ps \<Longrightarrow> distance < 65534"
proof (induction rule: line_loop_induct)
  case (step f distance dx dy ix iy t xs ys ps)
  show ?case
  proof (cases "uint t \<le> distance + 1")
    case True
    then obtain qs where q: "f distance dx dy ix iy (t + 1) (axis_step distance dx ix xs)
        (axis_step distance dy iy ys) = Some qs"
      using step(2) by (auto simp: bind_eq_Some_conv)
    obtain a b c d where "axis_step distance dx ix xs = (a, b)" "axis_step distance dy iy ys = (c, d)"
      by (metis surj_pair)
    then show ?thesis using step.IH q by simp
  next
    case False
    then show ?thesis using uint_lt2p[of t] by simp
  qed
qed

lemma line_loop_endless: "65534 \<le> distance \<Longrightarrow> line_loop distance dx dy ix iy t xs ys = None"
  using line_loop_bound[of distance dx dy ix iy t xs ys] by (cases "line_loop distance dx dy ix iy t xs ys") auto

text \<open>The points of a line are those of the rounds \<open>0\<close> to \<open>distance + 1\<close>.\<close>

abbreviation line_dist :: "u16 \<Rightarrow> u16 \<Rightarrow> u16 \<Rightarrow> u16 \<Rightarrow> nat" where
  "line_dist x1 y1 x2 y2 \<equiv> max (nat \<bar>uint x2 - uint x1\<bar>) (nat \<bar>uint y2 - uint y1\<bar>)"

definition line_at :: "u16 \<Rightarrow> u16 \<Rightarrow> u16 \<Rightarrow> u16 \<Rightarrow> nat \<Rightarrow> int \<times> int" where
  "line_at x1 y1 x2 y2 = line_pt (line_dist x1 y1 x2 y2) (uint x1, uint y1) (sgn (uint x2 - uint x1), sgn (uint y2 - uint y1))
     (nat \<bar>uint x2 - uint x1\<bar>, nat \<bar>uint y2 - uint y1\<bar>)"

lemma line_points_loop:
  "line_points x1 y1 x2 y2 = line_loop (int (line_dist x1 y1 x2 y2)) \<bar>uint x2 - uint x1\<bar> \<bar>uint y2 - uint y1\<bar>
     (sgn (uint x2 - uint x1)) (sgn (uint y2 - uint y1)) 0 (0, uint x1) (0, uint y1)"
proof -
  have s: "(if a > 0 then 1 else if a = 0 then 0 else - 1) = sgn a" "(if a < 0 then - a else a) = \<bar>a\<bar>" for a :: int
    by (simp_all add: sgn_if abs_if)
  have m: "(if a > b then a else b) = max a b" for a b :: int by simp
  have i: "max \<bar>a\<bar> \<bar>b\<bar> = int (max (nat \<bar>a\<bar>) (nat \<bar>b\<bar>))" for a b :: int by simp
  show ?thesis unfolding line_points_def Let_def s m i by (rule refl)
qed

lemma residue_0 [simp]: "residue d delta 0 = 0"
  by (simp add: residue_def)

lemma line_points_eq:
  assumes "line_dist x1 y1 x2 y2 \<le> 65533"
  shows "line_points x1 y1 x2 y2 = Some (map (line_at x1 y1 x2 y2) [0..<line_dist x1 y1 x2 y2 + 2])"
proof -
  let ?d = "line_dist x1 y1 x2 y2"
  have "nat \<bar>uint x2 - uint x1\<bar> \<le> ?d" "nat \<bar>uint y2 - uint y1\<bar> \<le> ?d" by simp_all
  from line_loop_ok[OF this assms, of "?d + 2" 0 "sgn (uint x2 - uint x1)" "sgn (uint y2 - uint y1)" "uint x1" "uint y1"]
  show ?thesis unfolding line_points_loop line_at_def
    by (simp only: order_refl diff_self_eq_0 semiring_1_class.of_nat_simps(1) residue_0 steps_0 mult_zero_right add_0_right
        nat_0_le abs_ge_zero True_implies_equals)
qed

lemma sgn_mult_le:
  fixes a b :: int
  shows "k \<le> nat \<bar>b - a\<bar> \<Longrightarrow> min a b \<le> a + sgn (b - a) * int k \<and> a + sgn (b - a) * int k \<le> max a b"
  by (auto simp: sgn_if)

lemma line_at_first: "line_at x1 y1 x2 y2 0 = (uint x1, uint y1)"
  by (simp add: line_at_def line_pt_def)

lemma line_at_last: "line_at x1 y1 x2 y2 (line_dist x1 y1 x2 y2 + 1) = (uint x2, uint y2)"
proof -
  have "a + sgn (b - a) * int (nat \<bar>b - a\<bar>) = b" for a b :: int by (simp add: mult_sgn_abs)
  then show ?thesis unfolding line_at_def line_pt_def fst_conv snd_conv
    by (subst (1 2) steps_last) simp_all
qed

lemma line_at_box:
  assumes "t \<le> line_dist x1 y1 x2 y2 + 1"
  shows "fst (line_at x1 y1 x2 y2 t) \<in> {min (uint x1) (uint x2)..max (uint x1) (uint x2)}"
    and "snd (line_at x1 y1 x2 y2 t) \<in> {min (uint y1) (uint y2)..max (uint y1) (uint y2)}"
proof -
  let ?d = "line_dist x1 y1 x2 y2"
  have "steps ?d (nat \<bar>uint x2 - uint x1\<bar>) t \<le> nat \<bar>uint x2 - uint x1\<bar>" "steps ?d (nat \<bar>uint y2 - uint y1\<bar>) t \<le> nat \<bar>uint y2 - uint y1\<bar>"
    by (intro steps_le assms; simp)+
  then show "fst (line_at x1 y1 x2 y2 t) \<in> {min (uint x1) (uint x2)..max (uint x1) (uint x2)}"
    "snd (line_at x1 y1 x2 y2 t) \<in> {min (uint y1) (uint y2)..max (uint y1) (uint y2)}"
    unfolding line_at_def line_pt_def fst_conv snd_conv atLeastAtMost_iff by (simp_all only: sgn_mult_le)
qed

lemma line_at_deviation:
  "\<bar>(fst (line_at x1 y1 x2 y2 t) - uint x1) * (uint y2 - uint y1) - (snd (line_at x1 y1 x2 y2 t) - uint y1) * (uint x2 - uint x1)\<bar>
     \<le> int (line_dist x1 y1 x2 y2)"
proof -
  let ?d = "line_dist x1 y1 x2 y2" and ?dx = "uint x2 - uint x1" and ?dy = "uint y2 - uint y1"
  let ?a = "int (steps ?d (nat \<bar>?dx\<bar>) t)" and ?b = "int (steps ?d (nat \<bar>?dy\<bar>) t)"
  have "(fst (line_at x1 y1 x2 y2 t) - uint x1) * ?dy - (snd (line_at x1 y1 x2 y2 t) - uint y1) * ?dx
      = sgn ?dx * ?a * (sgn ?dy * \<bar>?dy\<bar>) - sgn ?dy * ?b * (sgn ?dx * \<bar>?dx\<bar>)"
    by (simp add: line_at_def line_pt_def sgn_mult_abs)
  also have "\<dots> = sgn ?dx * sgn ?dy * (?a * \<bar>?dy\<bar> - ?b * \<bar>?dx\<bar>)" by (simp add: algebra_simps)
  finally have "\<bar>(fst (line_at x1 y1 x2 y2 t) - uint x1) * ?dy - (snd (line_at x1 y1 x2 y2 t) - uint y1) * ?dx\<bar>
      = \<bar>sgn ?dx * sgn ?dy\<bar> * \<bar>?a * \<bar>?dy\<bar> - ?b * \<bar>?dx\<bar>\<bar>" by (simp only: abs_mult)
  also have "\<dots> \<le> 1 * \<bar>?a * \<bar>?dy\<bar> - ?b * \<bar>?dx\<bar>\<bar>" by (rule mult_right_mono) (auto simp: sgn_if)
  also have "\<dots> \<le> int ?d" using steps_deviation[of "nat \<bar>?dx\<bar>" ?d "nat \<bar>?dy\<bar>" t] by simp
  finally show ?thesis .
qed

lemma line_at_next:
  "\<bar>fst (line_at x1 y1 x2 y2 (Suc t)) - fst (line_at x1 y1 x2 y2 t)\<bar> \<le> 1"
  "\<bar>snd (line_at x1 y1 x2 y2 (Suc t)) - snd (line_at x1 y1 x2 y2 t)\<bar> \<le> 1"
proof -
  have s: "\<bar>(a + sgn c * int (steps d e (Suc t))) - (a + sgn c * int (steps d e t))\<bar> \<le> 1" if "e \<le> d" for a c :: int and d e
    using steps_next[OF that, of t] by (auto simp: sgn_if)
  show "\<bar>fst (line_at x1 y1 x2 y2 (Suc t)) - fst (line_at x1 y1 x2 y2 t)\<bar> \<le> 1"
    "\<bar>snd (line_at x1 y1 x2 y2 (Suc t)) - snd (line_at x1 y1 x2 y2 t)\<bar> \<le> 1"
    unfolding line_at_def line_pt_def fst_conv snd_conv by (intro s; simp)+
qed

section \<open>The points of a circle\<close>

text \<open>The error of the source measures how far the point above is from the circle.\<close>

definition circle_inv :: "int \<Rightarrow> int \<times> int \<times> int \<Rightarrow> bool" where
  "circle_inv r s \<longleftrightarrow> (case s of (x, y, err) \<Rightarrow>
     0 \<le> y \<and> - 1 \<le> x \<and> err = x * x + y * y + 2 * y - r * r \<and> - 2 * x \<le> err \<and> (y \<le> x \<longrightarrow> err \<le> 0))"

lemma circle_step_inv:
  "circle_inv r (x, y, err) \<Longrightarrow> y \<le> x \<Longrightarrow> circle_inv r (circle_step (x, y, err)) \<and> fst (snd (circle_step (x, y, err))) = y + 1"
  by (auto simp: circle_inv_def circle_step_def Let_def algebra_simps)

lemma circle_loop_sound:
  "circle_inv r s \<Longrightarrow> p \<in> set (circle_loop x0 y0 s) \<Longrightarrow>
     \<exists>a b e. circle_inv r (a, b, e) \<and> b \<le> a \<and> p \<in> set (octants x0 y0 a b)"
proof (induction x0 y0 s rule: circle_loop.induct)
  case (1 x0 y0 s)
  obtain x y e where s: "s = (x, y, e)" by (cases s) auto
  have xy: "y \<le> x" using 1(3) unfolding s by (subst (asm) circle_loop.simps) (auto split: if_splits)
  then have "p \<in> set (octants x0 y0 x y) \<or> p \<in> set (circle_loop x0 y0 (circle_step s))"
    using 1(3) unfolding s by (subst (asm) circle_loop.simps) simp
  then show ?case using 1(1,2) circle_step_inv[of r x y e] xy unfolding s by auto
qed

lemma circle_loop_complete:
  "circle_inv r s \<Longrightarrow> fst (snd s) \<le> b \<Longrightarrow> 2 * b * (b + 1) \<le> r * r \<Longrightarrow>
     \<exists>a \<ge> b. set (octants x0 y0 a b) \<subseteq> set (circle_loop x0 y0 s)"
proof (induction x0 y0 s rule: circle_loop.induct)
  case (1 x0 y0 s)
  obtain x y e where s: "s = (x, y, e)" by (cases s) auto
  have yb: "0 \<le> y" "y \<le> b" using 1(2,3) by (auto simp: s circle_inv_def)
  have xy: "y \<le> x"
  proof (rule ccontr)
    assume n: "\<not> y \<le> x"
    have "r * r \<le> x * x + 2 * x + y * y + 2 * y" using 1(2) by (simp add: s circle_inv_def)
    moreover have "(x + 1) * (x + 1) \<le> y * y" using n 1(2) by (intro mult_mono) (auto simp: s circle_inv_def)
    moreover have "y * y + y \<le> b * b + b" using yb by (intro add_mono mult_mono) auto
    ultimately show False using 1(4) by (simp add: algebra_simps)
  qed
  have u: "circle_loop x0 y0 s = octants x0 y0 x y @ circle_loop x0 y0 (circle_step s)"
    using xy unfolding s by (subst circle_loop.simps) simp
  show ?case
  proof (cases "y = b")
    case True
    then show ?thesis unfolding u using xy by auto
  next
    case False
    then have "\<exists>a \<ge> b. set (octants x0 y0 a b) \<subseteq> set (circle_loop x0 y0 (circle_step s))"
      using 1(1,2,4) circle_step_inv[of r x y e] xy yb unfolding s by auto
    then show ?thesis unfolding u by auto
  qed
qed

lemma octants_abs: "(px, py) \<in> set (octants x0 y0 a b) \<Longrightarrow> 0 \<le> b \<Longrightarrow> b \<le> a \<Longrightarrow>
  \<bar>px - x0\<bar> = a \<and> \<bar>py - y0\<bar> = b \<or> \<bar>px - x0\<bar> = b \<and> \<bar>py - y0\<bar> = a"
  by (auto simp: octants_def)

lemma circle_points_in:
  assumes "(px, py) \<in> set (circle_points x0 y0 r)"
  shows "\<bar>px - uint x0\<bar> * \<bar>px - uint x0\<bar> + \<bar>py - uint y0\<bar> * \<bar>py - uint y0\<bar> \<le> uint r * uint r"
    and "uint r * uint r < (\<bar>px - uint x0\<bar> + 1) * (\<bar>px - uint x0\<bar> + 1) + (\<bar>py - uint y0\<bar> + 1) * (\<bar>py - uint y0\<bar> + 1)"
proof -
  have "circle_inv (uint r) (uint r, 0, 0)" by (simp add: circle_inv_def order_trans[OF _ uint_ge_0])
  with assms obtain a b e where ab: "circle_inv (uint r) (a, b, e)" "b \<le> a" "(px, py) \<in> set (octants (uint x0) (uint y0) a b)"
    unfolding circle_points_def using circle_loop_sound by blast
  have "0 \<le> b" using ab(1) by (simp add: circle_inv_def)
  note o = octants_abs[OF ab(3) this ab(2)]
  have i: "a * a + b * b \<le> uint r * uint r" "uint r * uint r < (a + 1) * (a + 1) + (b + 1) * (b + 1)"
    using ab(1,2) by (auto simp: circle_inv_def algebra_simps)
  show "\<bar>px - uint x0\<bar> * \<bar>px - uint x0\<bar> + \<bar>py - uint y0\<bar> * \<bar>py - uint y0\<bar> \<le> uint r * uint r"
    "uint r * uint r < (\<bar>px - uint x0\<bar> + 1) * (\<bar>px - uint x0\<bar> + 1) + (\<bar>py - uint y0\<bar> + 1) * (\<bar>py - uint y0\<bar> + 1)"
    using o i by (elim disjE conjE; simp add: add.commute)+
qed

lemma circle_points_near:
  assumes "(px, py) \<in> set (circle_points x0 y0 r)"
  shows "\<bar>px - uint x0\<bar> \<le> uint r" "\<bar>py - uint y0\<bar> \<le> uint r"
proof -
  have "\<bar>a\<bar> \<le> uint r" if "\<bar>a\<bar> * \<bar>a\<bar> + \<bar>b\<bar> * \<bar>b\<bar> \<le> uint r * uint r \<or> \<bar>b\<bar> * \<bar>b\<bar> + \<bar>a\<bar> * \<bar>a\<bar> \<le> uint r * uint r" for a b
  proof (rule ccontr)
    assume "\<not> \<bar>a\<bar> \<le> uint r"
    then have "uint r * uint r < \<bar>a\<bar> * \<bar>a\<bar>" by (intro mult_strict_mono) auto
    then show False using that zero_le_square[of "\<bar>b\<bar>"] by linarith
  qed
  then show "\<bar>px - uint x0\<bar> \<le> uint r" "\<bar>py - uint y0\<bar> \<le> uint r" using circle_points_in(1)[OF assms] by blast+
qed

section \<open>The board of the game\<close>

text \<open>
  The points of a call of the game that draws a figure. The arguments are cut to the 16 bits of the
  parameters.
\<close>

fun figure_points :: "lcd_op \<Rightarrow> (int \<times> int) list option" where
  "figure_points (LCD_DrawLine c x1 y1 x2 y2) = line_points (of_nat x1) (of_nat y1) (of_nat x2) (of_nat y2)"
| "figure_points (LCD_DrawCircle x0 y0 r c) = Some (circle_points (of_nat x0) (of_nat y0) (of_nat r))"
| "figure_points (LCD_DrawRect x y w h c) = rect_points (of_nat x) (of_nat y) (of_nat w) (of_nat h)"
| "figure_points _ = Some []"

definition in_area :: "nat \<Rightarrow> nat \<Rightarrow> nat \<Rightarrow> nat \<Rightarrow> (int \<times> int) list \<Rightarrow> bool" where
  "in_area x1 y1 x2 y2 ps \<longleftrightarrow> (\<forall>(x, y) \<in> set ps. int x1 \<le> x \<and> x \<le> int x2 \<and> int y1 \<le> y \<and> y \<le> int y2)"

lemma in_area_append [simp]: "in_area x1 y1 x2 y2 (ps @ qs) \<longleftrightarrow> in_area x1 y1 x2 y2 ps \<and> in_area x1 y1 x2 y2 qs"
  by (auto simp: in_area_def)

lemma in_area_map:
  "(\<And>t. t \<in> set ts \<Longrightarrow> fst (f t) \<in> {int x1..int x2} \<and> snd (f t) \<in> {int y1..int y2}) \<Longrightarrow> in_area x1 y1 x2 y2 (map f ts)"
  by (auto simp: in_area_def) (metis fst_conv snd_conv)+

lemma line_in_area:
  assumes "x1 \<le> a" "a \<le> x2" "x1 \<le> c" "c \<le> x2" "y1 \<le> b" "b \<le> y2" "y1 \<le> d" "d \<le> y2" "x2 < 65534" "y2 < 65534"
  shows "\<exists>ps. line_points (of_nat a) (of_nat b) (of_nat c) (of_nat d) = Some ps \<and> in_area x1 y1 x2 y2 ps"
proof -
  let ?a = "of_nat a :: u16" and ?b = "of_nat b :: u16" and ?c = "of_nat c :: u16" and ?d = "of_nat d :: u16"
  have u: "uint ?a = int a" "uint ?b = int b" "uint ?c = int c" "uint ?d = int d"
    using assms by (intro uint_of_nat_16; linarith)+
  have l: "line_dist ?a ?b ?c ?d \<le> 65533" using assms unfolding u by auto
  have "in_area x1 y1 x2 y2 (map (line_at ?a ?b ?c ?d) [0..<line_dist ?a ?b ?c ?d + 2])"
  proof (rule in_area_map)
    fix t
    assume "t \<in> set [0..<line_dist ?a ?b ?c ?d + 2]"
    then have t: "t \<le> line_dist ?a ?b ?c ?d + 1" by (simp only: set_upt atLeastLessThan_iff) linarith
    show "fst (line_at ?a ?b ?c ?d t) \<in> {int x1..int x2} \<and> snd (line_at ?a ?b ?c ?d t) \<in> {int y1..int y2}"
      using line_at_box[OF t] assms unfolding u by auto
  qed
  then show ?thesis using line_points_eq[OF l] by blast
qed

lemma rect_in_area:
  assumes "0 < w" "0 < h" "x1 \<le> x" "x + w \<le> Suc x2" "y1 \<le> y" "y + h \<le> Suc y2" "x2 < 65534" "y2 < 65534"
  shows "\<exists>ps. rect_points (of_nat x) (of_nat y) (of_nat w) (of_nat h) = Some ps \<and> in_area x1 y1 x2 y2 ps"
proof -
  have u: "uint (of_nat x :: u16) = int x" "uint (of_nat y :: u16) = int y" "uint (of_nat w :: u16) = int w" "uint (of_nat h :: u16) = int h"
    using assms by (intro uint_of_nat_16; linarith)+
  define xe ye where "xe = x + w - 1" and "ye = y + h - 1"
  have e: "int x + int w - 1 = int xe" "int y + int h - 1 = int ye" using assms by (auto simp: xe_def ye_def)
  have b: "x \<le> xe" "xe \<le> x2" "y \<le> ye" "ye \<le> y2" using assms by (auto simp: xe_def ye_def)
  have "\<exists>ps. line_points (of_nat a) (of_nat b) (of_nat c) (of_nat d) = Some ps \<and> in_area x1 y1 x2 y2 ps"
    if "a \<in> {x, xe}" "c \<in> {x, xe}" "b \<in> {y, ye}" "d \<in> {y, ye}" for a b c d
    using that assms b by (intro line_in_area) auto
  from this[of x xe y y] this[of x xe ye ye] this[of x x y ye] this[of xe xe y ye]
  show ?thesis unfolding rect_points_def LCD_HLine_def LCD_VLine_def u e Let_def by (fastforce simp: of_int_of_nat_eq)
qed

lemma circle_in_area:
  assumes "x1 + r \<le> x" "x + r \<le> x2" "y1 + r \<le> y" "y + r \<le> y2" "x2 < 65534" "y2 < 65534"
  shows "in_area x1 y1 x2 y2 (circle_points (of_nat x) (of_nat y) (of_nat r))"
proof -
  have u: "uint (of_nat x :: u16) = int x" "uint (of_nat y :: u16) = int y" "uint (of_nat r :: u16) = int r"
    using assms by (intro uint_of_nat_16; linarith)+
  show ?thesis unfolding in_area_def
  proof (clarify)
    fix a b
    assume "(a, b) \<in> set (circle_points (of_nat x) (of_nat y) (of_nat r))"
    from circle_points_near[OF this] show "int x1 \<le> a \<and> a \<le> int x2 \<and> int y1 \<le> b \<and> b \<le> int y2"
      using assms unfolding u by linarith
  qed
qed

lemma draw_piece_in_cell:
  assumes "x < 3" "y < 3" "lop \<in> set (draw_piece x y color)"
  shows "\<exists>ps. figure_points lop = Some ps \<and>
    in_area (BOARD_OFFSET_X + x * CELL_SIZE + 20) (BOARD_OFFSET_Y + y * CELL_SIZE + 20)
      (BOARD_OFFSET_X + x * CELL_SIZE + 60) (BOARD_OFFSET_Y + y * CELL_SIZE + 60) ps"
proof -
  let ?A = "in_area (40 + x * 80 + 20) (200 + y * 80 + 20) (40 + x * 80 + 60) (200 + y * 80 + 60)"
  let ?px = "40 + x * 80 + 40" and ?py = "200 + y * 80 + 40"
  have l: "\<exists>ps. line_points (of_nat a) (of_nat b) (of_nat c) (of_nat d) = Some ps \<and> ?A ps"
    if "a \<in> {?px - 20, ?px + 20}" "c \<in> {?px - 20, ?px + 20}" "b \<in> {?py - 20, ?py + 20}" "d \<in> {?py - 20, ?py + 20}" for a b c d
    using that assms(1,2) by (intro line_in_area) auto
  have c: "?A (circle_points (of_nat ?px) (of_nat ?py) (of_nat 20))"
    using assms(1,2) by (intro circle_in_area) auto
  have "?A []" by (simp add: in_area_def)
  moreover have "lop = LCD_DrawLine color (?px - 20) (?py - 20) (?px + 20) (?py + 20) \<or>
      lop = LCD_DrawLine color (?px + 20) (?py - 20) (?px - 20) (?py + 20) \<or>
      lop = LCD_DrawThickLine color (?px - 20) (?py - 20) (?px + 20) (?py + 20) 5 \<or>
      lop = LCD_DrawThickLine color (?px + 20) (?py - 20) (?px - 20) (?py + 20) 5 \<or> lop = LCD_DrawCircle ?px ?py 20 color"
    using assms(3) unfolding draw_piece_def Let_def by (auto split: if_split_asm)
  ultimately show ?thesis using l c
    by (elim disjE) (simp_all only: figure_points.simps insertI1 insertI2 option.inject ex_simps simp_thms ex1_eq exI)
qed

lemma draw_grid_in_area: "lop \<in> set draw_grid \<Longrightarrow> \<exists>ps. figure_points lop = Some ps \<and> in_area 40 200 280 440 ps"
proof -
  assume "lop \<in> set draw_grid"
  then obtain c a b d e where "lop = LCD_DrawLine c a b d e" "a \<in> {40..280}" "d \<in> {40..280}" "b \<in> {200..440}" "e \<in> {200..440}"
    by (auto simp: draw_grid_def)
  then show ?thesis using line_in_area[of 40 a 280 d 200 b 440 e] by auto
qed

lemma in_area_mono: "in_area x1 y1 x2 y2 ps \<Longrightarrow> a1 \<le> x1 \<Longrightarrow> b1 \<le> y1 \<Longrightarrow> x2 \<le> a2 \<Longrightarrow> y2 \<le> b2 \<Longrightarrow> in_area a1 b1 a2 b2 ps"
  unfolding in_area_def by fastforce

lemma draw_cells_in_area:
  assumes "lop \<in> set (draw_cells board)"
  shows "\<exists>ps. figure_points lop = Some ps \<and> in_area 40 200 280 440 ps"
proof -
  let ?cell = "\<lambda>x y. if board ! x ! y \<noteq> 0 then draw_piece x y (color_table ! unat (board ! x ! y)) else []"
  have "\<exists>y\<in>set [0, 1, 2]. \<exists>x\<in>set [0, 1, 2]. lop \<in> set (?cell x y)"
    using assms unfolding draw_cells_def set_concat set_map image_image by blast
  then obtain x y where "x \<in> set [0, 1, 2]" "y \<in> set [0, 1, 2]" "lop \<in> set (?cell x y)" by blast
  moreover have "n < 3" if "n \<in> set [0, 1, 2]" for n :: nat using that by auto
  moreover have "\<exists>c. lop \<in> set (draw_piece x y c)" using \<open>lop \<in> set (?cell x y)\<close> by (auto split: if_split_asm)
  ultimately obtain c where xy: "x < 3" "y < 3" "lop \<in> set (draw_piece x y c)" by blast
  from draw_piece_in_cell[OF this] obtain ps where "figure_points lop = Some ps" "in_area (40 + x * 80 + 20) (200 + y * 80 + 20) (40 + x * 80 + 60) (200 + y * 80 + 60) ps" by blast
  then show ?thesis using xy(1,2) by (auto elim!: in_area_mono)
qed

lemma draw_cursor_in_area:
  assumes "x < 3" "y < 3"
  shows "\<exists>ps. figure_points (LCD_DrawRect (40 + x * 80) (200 + y * 80) 80 80 c) = Some ps \<and> in_area 40 200 280 440 ps"
  unfolding figure_points.simps using assms by (intro rect_in_area) auto

text \<open>
  The argument of the square root in \<^verbatim>\<open>LCD_DrawThickLine\<close>: the differences are cut to 16 unsigned bits, the
  squares and their sum are signed; \<open>None\<close> is their overflow.
\<close>

definition thick_square :: "u16 \<Rightarrow> u16 \<Rightarrow> u16 \<Rightarrow> u16 \<Rightarrow> int option" where
  "thick_square x0 y0 x1 y1 =
     (let dx = uint (x1 - x0); dy = uint (y1 - y0) in
      if dx * dx < 2 ^ 31 \<and> dy * dy < 2 ^ 31 \<and> dx * dx + dy * dy < 2 ^ 31 then Some (dx * dx + dy * dy) else None)"

lemma thick_square_back: "x1 = x0 - 40 \<Longrightarrow> thick_square x0 y0 x1 y1 = None"
proof -
  assume "x1 = x0 - 40"
  then have "uint (x1 - x0) = 65496" by simp
  then show ?thesis by (simp add: thick_square_def)
qed

section \<open>Rectangles\<close>

lemma steps_full: "0 < d \<Longrightarrow> steps d d t = t - 1"
proof (cases t)
  case (Suc k)
  assume "0 < d"
  moreover have "t * d - 1 = d * k + (d - 1)" using Suc \<open>0 < d\<close> by (simp add: algebra_simps)
  ultimately have "steps d d t = k" unfolding steps_def by (intro div_unique_nat[of _ d k "d - 1"]) auto
  then show ?thesis using Suc by simp
qed simp

lemma steps_full_image: "(\<lambda>t. a + int (steps d d t)) ` set [0..<d + 2] = {a..a + int d}"
proof (intro set_eqI iffI)
  fix z
  assume "z \<in> (\<lambda>t. a + int (steps d d t)) ` set [0..<d + 2]"
  then obtain t where "t \<in> set [0..<d + 2]" and z: "z = a + int (steps d d t)" by blast
  then have "t \<le> d + 1" by auto
  then show "z \<in> {a..a + int d}" using steps_le[of d d t] z by simp
next
  fix z
  assume z: "z \<in> {a..a + int d}"
  show "z \<in> (\<lambda>t. a + int (steps d d t)) ` set [0..<d + 2]"
  proof (cases "d = 0")
    case True
    then show ?thesis using z by (auto intro!: image_eqI[of _ _ 0] simp: steps_def)
  next
    case False
    then show ?thesis using z by (intro image_eqI[of _ _ "nat (z - a) + 1"]) (auto simp: steps_full)
  qed
qed

lemma image_pairs: "(\<lambda>t. (f t, c)) ` A = f ` A \<times> {c}" "(\<lambda>t. (c, f t)) ` A = {c} \<times> f ` A"
  by auto

lemma hline_points:
  assumes "x \<le> xe" "xe < 65534" "y < 65536"
  shows "\<exists>ps. LCD_HLine (int x) (int xe) (int y) = Some ps \<and> set ps = {int x..int xe} \<times> {int y}"
proof -
  let ?x = "of_nat x :: u16" and ?e = "of_nat xe :: u16" and ?y = "of_nat y :: u16"
  have u: "uint ?x = int x" "uint ?e = int xe" "uint ?y = int y" using assms by (intro uint_of_nat_16; linarith)+
  define d where "d = xe - x"
  have d: "nat \<bar>int xe - int x\<bar> = d" "int x + int d = int xe" "line_dist ?x ?y ?e ?y = d" using assms unfolding u by (auto simp: d_def)
  have l: "line_dist ?x ?y ?e ?y \<le> 65533" unfolding d(3) d_def using assms(2) by linarith
  have a: "line_at ?x ?y ?e ?y t = (int x + int (steps d d t), int y)" for t
    using assms(1) unfolding line_at_def line_pt_def d(3) u fst_conv snd_conv d(1) by (auto simp: sgn_if d_def)
  have "set (map (line_at ?x ?y ?e ?y) [0..<d + 2]) = (\<lambda>t. int x + int (steps d d t)) ` set [0..<d + 2] \<times> {int y}"
    unfolding set_map a by (simp only: image_pairs)
  then show ?thesis using line_points_eq[OF l] unfolding d(3) steps_full_image d(2) LCD_HLine_def of_int_of_nat_eq by blast
qed

lemma vline_points:
  assumes "y \<le> ye" "ye < 65534" "x < 65536"
  shows "\<exists>ps. LCD_VLine (int x) (int y) (int ye) = Some ps \<and> set ps = {int x} \<times> {int y..int ye}"
proof -
  let ?y = "of_nat y :: u16" and ?e = "of_nat ye :: u16" and ?x = "of_nat x :: u16"
  have u: "uint ?y = int y" "uint ?e = int ye" "uint ?x = int x" using assms by (intro uint_of_nat_16; linarith)+
  define d where "d = ye - y"
  have d: "nat \<bar>int ye - int y\<bar> = d" "int y + int d = int ye" "line_dist ?x ?y ?x ?e = d" using assms unfolding u by (auto simp: d_def)
  have l: "line_dist ?x ?y ?x ?e \<le> 65533" unfolding d(3) d_def using assms(2) by linarith
  have a: "line_at ?x ?y ?x ?e t = (int x, int y + int (steps d d t))" for t
    using assms(1) unfolding line_at_def line_pt_def d(3) u fst_conv snd_conv d(1) by (auto simp: sgn_if d_def)
  have "set (map (line_at ?x ?y ?x ?e) [0..<d + 2]) = {int x} \<times> (\<lambda>t. int y + int (steps d d t)) ` set [0..<d + 2]"
    unfolding set_map a by (simp only: image_pairs)
  then show ?thesis using line_points_eq[OF l] unfolding d(3) steps_full_image d(2) LCD_VLine_def of_int_of_nat_eq by blast
qed

section \<open>Colours and orientation\<close>

lemma unat_bits_u16: "unat (drop_bit i (c :: u16) AND 0x1f) = unat c div 2 ^ i mod 32"
  "unat (drop_bit i (c :: u16) AND 0x3f) = unat c div 2 ^ i mod 64"
proof -
  have t: "drop_bit i c AND 0x1f = take_bit 5 (drop_bit i c)" "drop_bit i c AND 0x3f = take_bit 6 (drop_bit i c)"
    by (simp_all add: take_bit_eq_mask mask_eq_exp_minus_1)
  show "unat (drop_bit i c AND 0x1f) = unat c div 2 ^ i mod 32" "unat (drop_bit i c AND 0x3f) = unat c div 2 ^ i mod 64"
    unfolding t by (simp_all add: unsigned_take_bit_eq unat_drop_bit_eq take_bit_nat_def drop_bit_nat_def)
qed

lemma unat_push_u16: "unat (c :: u16) * 2 ^ i < 65536 \<Longrightarrow> unat (push_bit i c) = unat c * 2 ^ i"
  by (simp add: unsigned_push_bit_eq take_bit_nat_def push_bit_nat_def)

lemma bgr2rgb_unat:
  "unat (LCD_BGR2RGB c) = unat c mod 32 * 2048 + unat c div 32 mod 64 * 32 + unat c div 2048"
proof -
  let ?n = "unat c"
  have d: "?n div 2048 < 32" using unsigned_less[where ?'a = nat, of c] by (simp add: less_mult_imp_div_less)
  define b g r where "b = c AND 0x1f" and "g = drop_bit 5 c AND 0x3f" and "r = drop_bit 11 c AND 0x1f"
  have u: "unat b = ?n mod 32" "unat g = ?n div 32 mod 64" "unat r = ?n div 2048"
    using unat_bits_u16(1)[of 0 c] unat_bits_u16(2)[of 5 c] unat_bits_u16(1)[of 11 c] d by (simp_all add: b_def g_def r_def)
  have l: "unat b < 32" "unat g < 64" "unat r < 32" using d by (simp_all add: u)
  have p: "unat (push_bit 11 b) = unat b * 2048" "unat (push_bit 5 g) = unat g * 32"
    using unat_push_u16[of b 11] unat_push_u16[of g 5] l by simp_all
  have "unat (push_bit 11 b + push_bit 5 g + r) = unat b * 2048 + unat g * 32 + unat r"
    using l by (simp only: unat_word_ariths p) simp
  then show ?thesis unfolding LCD_BGR2RGB_def Let_def b_def[symmetric] g_def[symmetric] r_def[symmetric] u .
qed

lemma rgb_swap:
  fixes n :: nat
  assumes "n < 65536"
  defines "k \<equiv> n mod 32 * 2048 + n div 32 mod 64 * 32 + n div 2048"
  shows "k mod 32 * 2048 + k div 32 mod 64 * 32 + k div 2048 = n"
proof -
  have b: "n div 2048 < 32" "n div 32 mod 64 < 64" "n mod 32 < 32" using assms(1) by (simp_all add: less_mult_imp_div_less)
  have "k = 32 * (n mod 32 * 64 + n div 32 mod 64) + n div 2048" by (simp add: k_def)
  moreover have "(32 * q + r) mod 32 = r" "(32 * q + r) div 32 = q" if "r < 32" for q r :: nat using that by simp_all
  ultimately have k: "k mod 32 = n div 2048" "k div 32 = n mod 32 * 64 + n div 32 mod 64" using b(1) by metis+
  have k2: "k div 32 mod 64 = n div 32 mod 64" "k div 32 div 64 = n mod 32" unfolding k(2) using b(2) by simp_all
  have "k div 2048 = k div 32 div 64" by (simp add: div_mult2_eq[symmetric])
  then have "k mod 32 * 2048 + k div 32 mod 64 * 32 + k div 2048 = n div 2048 * 2048 + n div 32 mod 64 * 32 + n mod 32"
    unfolding k(1) k2 by simp
  also have "n div 2048 = n div 32 div 64" by (simp add: div_mult2_eq[symmetric])
  also have "p * 2048 + q * 32 + r = (p * 64 + q) * 32 + r" for p q r :: nat by simp
  also have "(n div 32 div 64 * 64 + n div 32 mod 64) * 32 + n mod 32 = n" by (simp only: div_mult_mod_eq)
  finally show ?thesis .
qed

lemma display_dir_size:
  assumes "lcd_id dev \<in> {0x9341, 0x5310, 0x5510, 0x1963}" "dir = 0 \<or> dir = 1"
  shows "\<exists>bus dev1. LCD_Display_Dir dir dev = (bus, dev1) \<and> lcd_id dev1 = lcd_id dev \<and> lcd_dir dev1 = dir \<and>
    (dir = 0 \<longleftrightarrow> lcd_width dev1 < lcd_height dev1) \<and> (dir = 1 \<longleftrightarrow> lcd_height dev1 < lcd_width dev1) \<and>
    {lcd_width dev1, lcd_height dev1} = (if lcd_id dev = 0x9341 then {240, 320} else if lcd_id dev = 0x5310 then {320, 480} else {480, 800})"
  using assms
  by (elim insertE disjE emptyE)
    (simp_all add: LCD_Display_Dir_def LCD_Scan_Dir_def Let_def lcd_area_def lcd_cmds_def scan_dir_turn_def scan_dir_reg_def insert_commute)

section \<open>Properties\<close>

text \<open>
  C37. \<^verbatim>\<open>LCD_DrawLine\<close> between points at most 65533 apart ends and draws a line: it starts at the first point and ends
  exactly at the second, consecutive points are neighbours, every point is inside the rectangle of the
  two end points, and no point is further than one pixel along an axis from the ideal line, measured by
  the cross product.
\<close>

theorem draw_line_correct:
  assumes "line_dist x1 y1 x2 y2 \<le> 65533"
  shows "\<exists>ps. line_points x1 y1 x2 y2 = Some ps \<and> length ps = line_dist x1 y1 x2 y2 + 2 \<and>
    ps ! 0 = (uint x1, uint y1) \<and> ps ! (line_dist x1 y1 x2 y2 + 1) = (uint x2, uint y2) \<and>
    (\<forall>i \<le> line_dist x1 y1 x2 y2.
       \<bar>fst (ps ! Suc i) - fst (ps ! i)\<bar> \<le> 1 \<and> \<bar>snd (ps ! Suc i) - snd (ps ! i)\<bar> \<le> 1) \<and>
    (\<forall>i \<le> line_dist x1 y1 x2 y2 + 1.
       fst (ps ! i) \<in> {min (uint x1) (uint x2)..max (uint x1) (uint x2)} \<and>
       snd (ps ! i) \<in> {min (uint y1) (uint y2)..max (uint y1) (uint y2)} \<and>
       \<bar>(fst (ps ! i) - uint x1) * (uint y2 - uint y1) - (snd (ps ! i) - uint y1) * (uint x2 - uint x1)\<bar>
         \<le> int (line_dist x1 y1 x2 y2))"
proof -
  let ?d = "line_dist x1 y1 x2 y2" and ?f = "line_at x1 y1 x2 y2"
  let ?ps = "map ?f [0..<?d + 2]"
  have n: "?ps ! i = ?f i" if "i \<le> ?d + 1" for i
  proof -
    have "i < ?d + 2" using that by linarith
    then show ?thesis by (simp only: length_upt nth_map nth_upt diff_zero add_0)
  qed
  have "length ?ps = ?d + 2" by (simp only: length_map length_upt diff_zero)
  moreover have "?ps ! 0 = (uint x1, uint y1)" unfolding n[OF le0] by (rule line_at_first)
  moreover have "?ps ! (?d + 1) = (uint x2, uint y2)" unfolding n[OF order_refl] by (rule line_at_last)
  moreover have "\<bar>fst (?ps ! Suc i) - fst (?ps ! i)\<bar> \<le> 1 \<and> \<bar>snd (?ps ! Suc i) - snd (?ps ! i)\<bar> \<le> 1" if "i \<le> ?d" for i
  proof -
    have "Suc i \<le> ?d + 1" "i \<le> ?d + 1" using that by linarith+
    then show ?thesis unfolding n[OF \<open>Suc i \<le> ?d + 1\<close>] n[OF \<open>i \<le> ?d + 1\<close>] using line_at_next by blast
  qed
  moreover have "fst (?ps ! i) \<in> {min (uint x1) (uint x2)..max (uint x1) (uint x2)} \<and>
       snd (?ps ! i) \<in> {min (uint y1) (uint y2)..max (uint y1) (uint y2)} \<and>
       \<bar>(fst (?ps ! i) - uint x1) * (uint y2 - uint y1) - (snd (?ps ! i) - uint y1) * (uint x2 - uint x1)\<bar> \<le> int ?d"
    if "i \<le> ?d + 1" for i
    unfolding n[OF that] using line_at_box[OF that] line_at_deviation by blast
  ultimately show ?thesis using line_points_eq[OF assms] by blast
qed

theorem draw_line_correct_witness:
  "\<exists>ps. line_points 10 10 50 30 = Some ps \<and> length ps = 42 \<and> ps ! 41 = (50, 30)"
  using draw_line_correct[where ?x1.0 = 10 and ?y1.0 = 10 and ?x2.0 = 50 and ?y2.0 = 30] by auto

text \<open>
  The counter of \<^verbatim>\<open>LCD_DrawLine\<close> has 16 bits: if the end points are 65534 or more apart, it never exceeds the
  distance and the call does not return. \<^verbatim>\<open>LCD_DrawRect\<close> of width 0 at the left edge makes such a call, since the
  right edge \<open>0 - 1\<close> becomes 65535.
\<close>

theorem draw_line_endless:
  "(65534 \<le> line_dist x1 y1 x2 y2 \<longrightarrow> line_points x1 y1 x2 y2 = None) \<and> rect_points 0 y 0 h = None"
proof (intro conjI impI)
  show "line_points x1 y1 x2 y2 = None" if "65534 \<le> line_dist x1 y1 x2 y2"
    unfolding line_points_loop by (rule line_loop_endless) (use that in linarith)
  have "line_points 0 y' (- 1) y' = None" for y'
    unfolding line_points_loop by (rule line_loop_endless) (simp add: unsigned_minus_1_eq_mask mask_eq_exp_minus_1)
  then show "rect_points 0 y 0 h = None" by (simp add: rect_points_def LCD_HLine_def Let_def)
qed

theorem draw_line_endless_witness: "line_points 0 7 65535 7 = None \<and> rect_points 0 5 0 9 = None"
  using draw_line_endless[where ?x1.0 = 0 and ?y1.0 = 7 and ?x2.0 = 65535 and ?y2.0 = 7 and y = 5 and h = 9] by simp

text \<open>
  \<^verbatim>\<open>LCD_DrawCircle\<close> ends and draws a circle: every point lies inside the circle and its outer neighbour does
  not, and there is no gap: in the part of each octant up to the diagonal every row has its eight points.
\<close>

theorem draw_circle_correct:
  "(\<forall>(px, py) \<in> set (circle_points x0 y0 r).
     (px - uint x0)\<^sup>2 + (py - uint y0)\<^sup>2 \<le> (uint r)\<^sup>2 \<and>
     (uint r)\<^sup>2 < (\<bar>px - uint x0\<bar> + 1)\<^sup>2 + (\<bar>py - uint y0\<bar> + 1)\<^sup>2) \<and>
   (\<forall>b. 0 \<le> b \<and> 2 * b * (b + 1) \<le> (uint r)\<^sup>2 \<longrightarrow>
     (\<exists>a \<ge> b. set (octants (uint x0) (uint y0) a b) \<subseteq> set (circle_points x0 y0 r)))"
proof -
  have "circle_inv (uint r) (uint r, 0, 0)" by (simp add: circle_inv_def order_trans[OF _ uint_ge_0])
  then have c: "\<exists>a \<ge> b. set (octants (uint x0) (uint y0) a b) \<subseteq> set (circle_points x0 y0 r)"
    if "0 \<le> b" "2 * b * (b + 1) \<le> uint r * uint r" for b
    unfolding circle_points_def using that by (intro circle_loop_complete) simp_all
  have s: "(px - uint x0)\<^sup>2 + (py - uint y0)\<^sup>2 \<le> (uint r)\<^sup>2 \<and>
      (uint r)\<^sup>2 < (\<bar>px - uint x0\<bar> + 1)\<^sup>2 + (\<bar>py - uint y0\<bar> + 1)\<^sup>2" if "(px, py) \<in> set (circle_points x0 y0 r)" for px py
    using circle_points_in[OF that] by (simp add: power2_eq_square)
  show ?thesis using s c unfolding power2_eq_square[of "uint r"] by blast
qed

theorem draw_circle_correct_witness:
  "(20, 12) \<in> set (circle_points 15 12 5) \<and> (20 - 15)\<^sup>2 + (12 - 12)\<^sup>2 \<le> (5 :: int)\<^sup>2"
proof -
  have "(20, 12) \<in> set (circle_points 15 12 5)"
    unfolding circle_points_def by (subst circle_loop.simps) (simp add: octants_def)
  then show ?thesis using draw_circle_correct[of 15 12 5] by fastforce
qed

text \<open>
  \<^verbatim>\<open>LCD_DrawRect\<close> of a rectangle that ends before column and row 65534 ends and draws exactly the border of the
  rectangle.
\<close>

theorem draw_rect_border:
  assumes "0 < w" "0 < h" "unat x + unat w \<le> 65534" "unat y + unat h \<le> 65534"
  shows "\<exists>ps. rect_points x y w h = Some ps \<and>
    set ps = {(a, b). uint x \<le> a \<and> a < uint x + uint w \<and> uint y \<le> b \<and> b < uint y + uint h \<and>
      (a = uint x \<or> a = uint x + uint w - 1 \<or> b = uint y \<or> b = uint y + uint h - 1)}"
proof -
  define xe ye where "xe = unat x + unat w - 1" and "ye = unat y + unat h - 1"
  have p: "0 < unat w" "0 < unat h" using assms(1,2) by (simp_all add: word_less_nat_alt)
  have e: "uint x = int (unat x)" "uint y = int (unat y)" "uint x + uint w - 1 = int xe" "uint y + uint h - 1 = int ye"
    unfolding xe_def ye_def uint_nat using p by linarith+
  have b: "unat x \<le> xe" "xe < 65534" "unat y \<le> ye" "ye < 65534" "unat x < 65536" "unat y < 65536"
    unfolding xe_def ye_def using p assms(3,4) by linarith+
  have "xe < 65536" "ye < 65536" using b(2,4) by linarith+
  note e2 = this
  obtain p1 where p1: "LCD_HLine (int (unat x)) (int xe) (int (unat y)) = Some p1" "set p1 = {int (unat x)..int xe} \<times> {int (unat y)}"
    using hline_points[OF b(1,2,6)] by blast
  obtain p2 where p2: "LCD_HLine (int (unat x)) (int xe) (int ye) = Some p2" "set p2 = {int (unat x)..int xe} \<times> {int ye}"
    using hline_points[OF b(1,2) e2(2)] by blast
  obtain p3 where p3: "LCD_VLine (int (unat x)) (int (unat y)) (int ye) = Some p3" "set p3 = {int (unat x)} \<times> {int (unat y)..int ye}"
    using vline_points[OF b(3,4,5)] by blast
  obtain p4 where p4: "LCD_VLine (int xe) (int (unat y)) (int ye) = Some p4" "set p4 = {int xe} \<times> {int (unat y)..int ye}"
    using vline_points[OF b(3,4) e2(1)] by blast
  have "rect_points x y w h = Some (p1 @ p2 @ p3 @ p4)"
    unfolding rect_points_def Let_def e(3,4) unfolding e(1,2) p1(1) p2(1) p3(1) p4(1) by simp
  moreover have "set (p1 @ p2 @ p3 @ p4) = {(a, b). int (unat x) \<le> a \<and> a \<le> int xe \<and> int (unat y) \<le> b \<and> b \<le> int ye \<and>
      (a = int (unat x) \<or> a = int xe \<or> b = int (unat y) \<or> b = int ye)}"
    unfolding set_append p1(2) p2(2) p3(2) p4(2) using b(1,3)[folded of_nat_le_iff[where ?'a = int]] by auto
  moreover have "a < uint x + uint w \<longleftrightarrow> a \<le> int xe" "a < uint y + uint h \<longleftrightarrow> a \<le> int ye" for a using e(3,4) by linarith+
  ultimately show ?thesis unfolding e(3,4) unfolding e(1,2) by (simp only: option.inject ex_simps simp_thms)
qed

theorem draw_rect_border_witness: "\<exists>ps. rect_points 40 200 80 80 = Some ps \<and> (119, 240) \<in> set ps \<and> (80, 240) \<notin> set ps"
proof -
  obtain ps where "rect_points 40 200 80 80 = Some ps"
    "set ps = {(a, b). uint (40 :: u16) \<le> a \<and> a < uint (40 :: u16) + uint (80 :: u16) \<and> uint (200 :: u16) \<le> b \<and>
      b < uint (200 :: u16) + uint (80 :: u16) \<and> (a = uint (40 :: u16) \<or> a = uint (40 :: u16) + uint (80 :: u16) - 1 \<or>
      b = uint (200 :: u16) \<or> b = uint (200 :: u16) + uint (80 :: u16) - 1)}"
    using draw_rect_border[of 80 80 40 200] by auto
  then show ?thesis by (intro exI[of _ ps]) simp
qed

text \<open>
  The game and the driver together: when the board of a game is drawn with the cursor on the board,
  every call that draws a figure returns and all its points lie between columns 40 and 280 and rows 200
  and 440, inside both orientations of the 480 by 800 display; and a piece stays 20 pixels inside the
  borders of its cell.
\<close>

theorem board_figures_in_area:
  assumes "ox_game_draw_board g = Some ops" "gm_cursor_x g < 3" "gm_cursor_y g < 3"
  shows "(\<forall>lop \<in> set ops. \<exists>ps. figure_points lop = Some ps \<and> in_area 40 200 280 440 ps) \<and>
    (\<forall>x < 3. \<forall>y < 3. \<forall>c. \<forall>lop \<in> set (draw_piece x y c). \<exists>ps. figure_points lop = Some ps \<and>
       in_area (40 + x * 80 + 20) (200 + y * 80 + 20) (40 + x * 80 + 60) (200 + y * 80 + 60) ps)"
proof (intro conjI ballI allI impI)
  have c: "unat (gm_cursor_x g) < 3" "unat (gm_cursor_y g) < 3" using assms(2,3) by (simp_all add: word_less_nat_alt)
  fix lop
  assume "lop \<in> set ops"
  then consider "lop \<in> set draw_grid" | "lop \<in> set (draw_cells (gm_board g))" | "figure_points lop = Some []"
    | "lop = LCD_DrawRect (40 + unat (gm_cursor_x g) * 80) (200 + unat (gm_cursor_y g) * 80) 80 80 YELLOW"
    using assms(1) unfolding ox_game_draw_board_def by (auto split: if_split_asm)
  then show "\<exists>ps. figure_points lop = Some ps \<and> in_area 40 200 280 440 ps"
    by cases (use draw_grid_in_area draw_cells_in_area draw_cursor_in_area[OF c] in \<open>auto simp: in_area_def\<close>)
qed (rule draw_piece_in_cell)

theorem board_figures_in_area_witness:
  "\<exists>ops. ox_game_draw_board game0 = Some ops \<and>
     (\<forall>lop \<in> set ops. \<exists>ps. figure_points lop = Some ps \<and> in_area 40 200 280 440 ps)"
proof -
  have "ox_game_draw_board game0 \<noteq> None" by (simp add: ox_game_draw_board_def game0_def color_table_def list_all_iff)
  then obtain ops where "ox_game_draw_board game0 = Some ops" by blast
  then show ?thesis using board_figures_in_area[of game0 ops] by (simp add: game0_def)
qed

text \<open>
  The second diagonal of every cross overflows: \<^verbatim>\<open>LCD_DrawThickLine\<close> cuts the negative difference to 16 unsigned
  bits, and its square does not fit into a signed integer.
\<close>

theorem cross_diagonal_overflows:
  assumes "x < 3" "y < 3"
  shows "\<exists>a b a' b'. LCD_DrawThickLine GGREEN a b a' b' 5 \<in> set (draw_piece x y (color_table ! 1)) \<and>
    thick_square (of_nat a) (of_nat b) (of_nat a') (of_nat b') = None"
proof -
  let ?px = "40 + x * 80 + 40" and ?py = "200 + y * 80 + 40"
  have "LCD_DrawThickLine GGREEN (?px + 20) (?py - 20) (?px - 20) (?py + 20) 5 \<in> set (draw_piece x y (color_table ! 1))"
    by (simp add: draw_piece_def color_table_def)
  moreover have "(of_nat (?px - 20) :: u16) = of_nat (?px + 20) - 40" by simp
  ultimately show ?thesis using thick_square_back by blast
qed

theorem cross_diagonal_overflows_witness: "\<exists>a b a' b'. LCD_DrawThickLine GGREEN a b a' b' 5 \<in> set (draw_piece 1 2 (color_table ! 1)) \<and>
    thick_square (of_nat a) (of_nat b) (of_nat a') (of_nat b') = None"
  using cross_diagonal_overflows[of 1 2] by simp

text \<open>
  Converting a colour from BGR to RGB twice gives it back.
\<close>

theorem bgr2rgb_involution: "LCD_BGR2RGB (LCD_BGR2RGB c) = c"
  using rgb_swap[of "unat c"] unsigned_less[where ?'a = nat, of c]
  unfolding word_unat_eq_iff[of _ c] bgr2rgb_unat by simp

text \<open>
  \<^verbatim>\<open>LCD_Display_Dir\<close> leaves the display in the asked orientation, upright for 0 and wide for 1, with the size of
  the controller; the default scan direction does not swap the sides again.
\<close>

theorem display_dir_orientation:
  assumes "lcd_id dev \<in> {0x9341, 0x5310, 0x5510, 0x1963}" "dir = 0 \<or> dir = 1"
  shows "\<exists>bus dev1. LCD_Display_Dir dir dev = (bus, dev1) \<and> lcd_id dev1 = lcd_id dev \<and> lcd_dir dev1 = dir \<and>
    (dir = 0 \<longleftrightarrow> lcd_width dev1 < lcd_height dev1) \<and> (dir = 1 \<longleftrightarrow> lcd_height dev1 < lcd_width dev1) \<and>
    {lcd_width dev1, lcd_height dev1} = (if lcd_id dev = 0x9341 then {240, 320} else if lcd_id dev = 0x5310 then {320, 480} else {480, 800})"
  using assms by (rule display_dir_size)

definition lcd_ex :: lcd_dev where
  "lcd_ex = \<lparr>lcd_width = 0, lcd_height = 0, lcd_id = 0x5510, lcd_dir = 0, lcd_wramcmd = 0, lcd_setxcmd = 0, lcd_setycmd = 0\<rparr>"

theorem display_dir_orientation_witness:
  "\<exists>bus dev1. LCD_Display_Dir 1 lcd_ex = (bus, dev1) \<and> lcd_height dev1 < lcd_width dev1"
  using display_dir_orientation[of lcd_ex 1] by (auto simp: lcd_ex_def)

end
