(* ===== verification/LcdText.thy ===== *)
theory LcdText
  imports LcdDraw
begin

text \<open>
  Text on the display (\<^verbatim>\<open>board/ports/drv_lcd.c\<close>): characters, numbers and strings, the filling of an area, reading
  back a pixel and finding out which controller is fitted. Coordinates wrap at 16 bits as in the source.
  The glyph table of a font size is an argument, a list of byte lists.
\<close>

section \<open>Characters\<close>

type_synonym pixel = "u16 \<times> u16 \<times> u16"

definition draw_pixels :: "lcd_dev \<Rightarrow> pixel list \<Rightarrow> lcd_bus list" where
  "draw_pixels dev ps = concat (map (\<lambda>(x, y, c). LCD_Fast_DrawPoint dev c (uint x) (uint y)) ps)"

text \<open>The pen: point colour, background colour, and whether the background is left alone.\<close>

record lcd_pen =
  POINT_COLOR :: u16
  BACK_COLOR :: u16
  pen_mode :: u8

definition char_dot :: "lcd_pen \<Rightarrow> bool \<Rightarrow> u16 \<Rightarrow> u16 \<Rightarrow> pixel list" where
  "char_dot pen b x y = (if b then [(x, y, POINT_COLOR pen)] else if pen_mode pen = 0 then [(x, y, BACK_COLOR pen)] else [])"

text \<open>
  The inner loop over the bits of one byte; the second component of the result is the position where the
  next byte starts, or \<open>None\<close> if the function has returned.
\<close>

fun char_byte :: "lcd_dev \<Rightarrow> lcd_pen \<Rightarrow> nat \<Rightarrow> u16 \<Rightarrow> nat \<Rightarrow> u8 \<Rightarrow> u16 \<Rightarrow> u16 \<Rightarrow> pixel list \<times> (u16 \<times> u16) option" where
  "char_byte dev pen sz y0 0 temp x y = ([], Some (x, y))"
| "char_byte dev pen sz y0 (Suc t1) temp x y =
     (let dot = char_dot pen (temp AND 0x80 \<noteq> 0) x y; y1 = y + 1 in
      if y1 \<ge> lcd_height dev then (dot, None)
      else if uint y1 - uint y0 = int sz
      then let x1 = x + 1 in (dot, if x1 \<ge> lcd_width dev then None else Some (x1, y0))
      else let (ps, r) = char_byte dev pen sz y0 t1 (push_bit 1 temp) x y1 in (dot @ ps, r))"

fun char_bytes :: "lcd_dev \<Rightarrow> lcd_pen \<Rightarrow> nat \<Rightarrow> u16 \<Rightarrow> u8 list \<Rightarrow> u16 \<Rightarrow> u16 \<Rightarrow> pixel list" where
  "char_bytes dev pen sz y0 [] x y = []"
| "char_bytes dev pen sz y0 (temp # bs) x y =
     (let (ps, r) = char_byte dev pen sz y0 8 temp x y in
      ps @ (case r of None \<Rightarrow> [] | Some (x1, y1) \<Rightarrow> char_bytes dev pen sz y0 bs x1 y1))"

text \<open>\<open>None\<close>: the character or a byte of it is not in the table.\<close>

definition LCD_ShowChar :: "(u8 \<Rightarrow> u8 list list) \<Rightarrow> lcd_dev \<Rightarrow> lcd_pen \<Rightarrow> u16 \<Rightarrow> u16 \<Rightarrow> u8 \<Rightarrow> u8 \<Rightarrow> pixel list option" where
  "LCD_ShowChar font dev pen x y num0 sz =
     (let n = unat sz; csize = (n div 8 + (if n mod 8 \<noteq> 0 then 1 else 0)) * (n div 2) mod 256; num = unat (num0 - 0x20) in
      if sz = 12 \<or> sz = 16 \<or> sz = 24
      then if num < length (font sz) \<and> csize \<le> length (font sz ! num)
           then Some (char_bytes dev pen n y (take csize (font sz ! num)) x y) else None
      else Some [])"

section \<open>Numbers\<close>

primrec pow_loop :: "u8 \<Rightarrow> nat \<Rightarrow> u32 \<Rightarrow> u32" where
  "pow_loop m 0 result = result"
| "pow_loop m (Suc n) result = pow_loop m n (result * ucast m)"

definition LCD_Pow :: "u8 \<Rightarrow> u8 \<Rightarrow> u32" where
  "LCD_Pow m n = pow_loop m (unat n) 1"

text \<open>
  The loops of \<^verbatim>\<open>LCD_ShowNum\<close> and \<^verbatim>\<open>LCD_ShowxNum\<close>: the characters shown, from place \<open>t\<close> on, with \<open>pad\<close> for leading
  zeros. \<open>None\<close> is the division by a power that has wrapped to zero.
\<close>

function num_loop :: "u8 \<Rightarrow> u32 \<Rightarrow> nat \<Rightarrow> nat \<Rightarrow> bool \<Rightarrow> u8 list option" where
  "num_loop pad num len t enshow =
     (if t < len
      then let p = LCD_Pow 10 (of_nat (len - t - 1)) in
           if p = 0 then None
           else let temp = ucast ((num div p) mod 10) :: u8 in
                if \<not> enshow \<and> t < len - 1 \<and> temp = 0
                then do { cs \<leftarrow> num_loop pad num len (t + 1) False; Some (pad # cs) }
                else do { cs \<leftarrow> num_loop pad num len (t + 1) (enshow \<or> t < len - 1); Some ((temp + 0x30) # cs) }
      else Some [])"
  by pat_completeness auto
termination
  by (relation "measure (\<lambda>(_, _, len, t, _). len - t)") auto

declare num_loop.simps [simp del]

text \<open>A row of characters, half the font size apart; the column is cut to 16 bits.\<close>

fun show_row :: "(u8 \<Rightarrow> u8 list list) \<Rightarrow> lcd_dev \<Rightarrow> lcd_pen \<Rightarrow> u16 \<Rightarrow> u16 \<Rightarrow> u8 \<Rightarrow> nat \<Rightarrow> u8 list \<Rightarrow> pixel list option" where
  "show_row font dev pen x y sz t [] = Some []"
| "show_row font dev pen x y sz t (c # cs) = do {
     ps \<leftarrow> LCD_ShowChar font dev pen (x + of_nat (unat sz div 2 * t)) y c sz;
     qs \<leftarrow> show_row font dev pen x y sz (t + 1) cs;
     Some (ps @ qs)
   }"

definition LCD_ShowNum :: "(u8 \<Rightarrow> u8 list list) \<Rightarrow> lcd_dev \<Rightarrow> lcd_pen \<Rightarrow> u16 \<Rightarrow> u16 \<Rightarrow> u32 \<Rightarrow> u8 \<Rightarrow> u8 \<Rightarrow> pixel list option" where
  "LCD_ShowNum font dev pen x y num len sz = do {
     cs \<leftarrow> num_loop 0x20 num (unat len) 0 False;
     show_row font dev (pen\<lparr>pen_mode := 0\<rparr>) x y sz 0 cs
   }"

definition LCD_ShowxNum :: "(u8 \<Rightarrow> u8 list list) \<Rightarrow> lcd_dev \<Rightarrow> lcd_pen \<Rightarrow> u16 \<Rightarrow> u16 \<Rightarrow> u32 \<Rightarrow> u8 \<Rightarrow> u8 \<Rightarrow> u8 \<Rightarrow> pixel list option" where
  "LCD_ShowxNum font dev pen x y num len sz mode = do {
     cs \<leftarrow> num_loop (if mode AND 0x80 \<noteq> 0 then 0x30 else 0x20) num (unat len) 0 False;
     show_row font dev (pen\<lparr>pen_mode := mode AND 0x01\<rparr>) x y sz 0 cs
   }"

section \<open>Strings\<close>

text \<open>
  The places of the characters; the variable \<^verbatim>\<open>x0\<close> of the source has 8 bits. \<open>None\<close>: the text ends without a
  character that stops the loop.
\<close>

fun string_cells :: "u8 \<Rightarrow> u16 \<Rightarrow> u16 \<Rightarrow> u8 \<Rightarrow> u16 \<Rightarrow> u16 \<Rightarrow> u8 list \<Rightarrow> (u16 \<times> u16 \<times> u8) list option" where
  "string_cells x0 width height sz x y [] = None"
| "string_cells x0 width height sz x y (c # p) =
     (if c \<le> 0x7E \<and> c \<ge> 0x20
      then let (x1, y1) = (if x \<ge> width then (ucast x0, y + ucast sz) else (x, y)) in
           if y1 \<ge> height then Some []
           else do { cs \<leftarrow> string_cells x0 width height sz (x1 + of_nat (unat sz div 2)) y1 p; Some ((x1, y1, c) # cs) }
      else Some [])"

definition show_string_cells :: "u16 \<Rightarrow> u16 \<Rightarrow> u16 \<Rightarrow> u16 \<Rightarrow> u8 \<Rightarrow> u8 list \<Rightarrow> (u16 \<times> u16 \<times> u8) list option" where
  "show_string_cells x y width height sz p = string_cells (ucast x) (width + x) (height + y) sz x y p"

fun show_cells :: "(u8 \<Rightarrow> u8 list list) \<Rightarrow> lcd_dev \<Rightarrow> lcd_pen \<Rightarrow> u8 \<Rightarrow> (u16 \<times> u16 \<times> u8) list \<Rightarrow> pixel list option" where
  "show_cells font dev pen sz [] = Some []"
| "show_cells font dev pen sz ((x, y, c) # cs) = do {
     ps \<leftarrow> LCD_ShowChar font dev pen x y c sz;
     qs \<leftarrow> show_cells font dev pen sz cs;
     Some (ps @ qs)
   }"

definition show_string :: "(u8 \<Rightarrow> u8 list list) \<Rightarrow> lcd_dev \<Rightarrow> lcd_pen \<Rightarrow> u16 \<Rightarrow> u16 \<Rightarrow> u16 \<Rightarrow> u16 \<Rightarrow> u8 \<Rightarrow> u8 list \<Rightarrow> pixel list option" where
  "show_string font dev pen x y width height sz p = do {
     cs \<leftarrow> show_string_cells x y width height sz p;
     show_cells font dev (pen\<lparr>pen_mode := 0\<rparr>) sz cs
   }"

section \<open>Areas and pixels\<close>

text \<open>The inner loop of \<^verbatim>\<open>lcd_fill_array\<close>: the pixels of one row and those left over. \<open>None\<close>: the loop does not
  end, or the array is too short.\<close>

partial_function (option) fill_row :: "u16 \<Rightarrow> u16 \<Rightarrow> u16 \<Rightarrow> u16 list \<Rightarrow> (lcd_bus list \<times> u16 list) option" where
  "fill_row x_start x_end x_offset pixels =
     (if uint x_start + uint x_offset \<le> uint x_end
      then (case pixels of [] \<Rightarrow> None
            | p # ps \<Rightarrow> do { (bs, rest) \<leftarrow> fill_row x_start x_end (x_offset + 1) ps; Some (RAM p # bs, rest) })
      else Some ([], pixels))"

partial_function (option) fill_rows :: "lcd_dev \<Rightarrow> u16 \<Rightarrow> u16 \<Rightarrow> u16 \<Rightarrow> u16 \<Rightarrow> u16 list \<Rightarrow> lcd_bus list option" where
  "fill_rows dev x_start x_end y_end cycle_y pixels =
     (if cycle_y \<le> y_end
      then do {
        (row, rest) \<leftarrow> fill_row x_start x_end 0 pixels;
        bs \<leftarrow> fill_rows dev x_start x_end y_end (cycle_y + 1) rest;
        Some (LCD_SetCursor dev x_start cycle_y @ [REG (lcd_wramcmd dev)] @ row @ bs)
      }
      else Some [])"

definition lcd_fill_array :: "lcd_dev \<Rightarrow> u16 \<Rightarrow> u16 \<Rightarrow> u16 \<Rightarrow> u16 \<Rightarrow> u16 list \<Rightarrow> lcd_bus list option" where
  "lcd_fill_array dev x_start y_start x_end y_end pcolor = fill_rows dev x_start x_end y_end y_start pcolor"

text \<open>\<open>rd i\<close> is the \<open>i\<close>-th word read after the read command.\<close>

definition LCD_ReadPoint :: "lcd_dev \<Rightarrow> (nat \<Rightarrow> u16) \<Rightarrow> int \<Rightarrow> int \<Rightarrow> lcd_bus list \<times> u16" where
  "LCD_ReadPoint dev rd x y =
     (if x \<ge> uint (lcd_width dev) \<or> y \<ge> uint (lcd_height dev) then ([], 0)
      else (LCD_SetCursor dev (of_int x) (of_int y) @
          (if lcd_id dev = 0x9341 \<or> lcd_id dev = 0x5310 \<or> lcd_id dev = 0x1963 then [REG 0x2E]
           else if lcd_id dev = 0x5510 then [REG 0x2E00] else []),
        if lcd_id dev = 0x1963 then rd 0
        else let r = rd 1; b = rd 2; g = push_bit 8 (r AND 0xFF)
             in push_bit 11 (drop_bit 11 r) OR push_bit 5 (drop_bit 10 g) OR drop_bit 11 b))"

definition LCD_DisplayOn :: "lcd_dev \<Rightarrow> lcd_bus list" where
  "LCD_DisplayOn dev = (if lcd_id dev = 0x9341 \<or> lcd_id dev = 0x5310 \<or> lcd_id dev = 0x1963 then [REG 0x29]
     else if lcd_id dev = 0x5510 then [REG 0x2900] else [])"

definition LCD_DisplayOff :: "lcd_dev \<Rightarrow> lcd_bus list" where
  "LCD_DisplayOff dev = (if lcd_id dev = 0x9341 \<or> lcd_id dev = 0x5310 \<or> lcd_id dev = 0x1963 then [REG 0x28]
     else if lcd_id dev = 0x5510 then [REG 0x2800] else [])"

text \<open>
  The search for the controller in \<^verbatim>\<open>drv_lcd_init\<close>; \<open>rd reg i\<close> is the \<open>i\<close>-th word read after the register number.
\<close>

definition id_of :: "u16 \<Rightarrow> u16 \<Rightarrow> u16" where
  "id_of hi lo = push_bit 8 hi OR lo"

definition lcd_read_id :: "(u16 \<Rightarrow> nat \<Rightarrow> u16) \<Rightarrow> u16" where
  "lcd_read_id rd =
     (let id1 = id_of (rd 0xD3 2) (rd 0xD3 3) in
      if id1 \<noteq> 0x9341
      then let id2 = id_of (rd 0x04 2) (rd 0x04 3); id3 = (if id2 = 0x8552 then 0x7789 else id2) in
           if id3 \<noteq> 0x7789
           then let id4 = id_of (rd 0xD4 2) (rd 0xD4 3) in
                if id4 \<noteq> 0x5310
                then let id5 = id_of (rd 0xC500 0) (rd 0xC501 0); id6 = (if id5 = 0x8000 then 0x5510 else id5) in
                     if id6 \<noteq> 0x5510
                     then let id7 = id_of (rd 0xA1 1) (rd 0xA1 2) in (if id7 = 0x5761 then 0x1963 else id7)
                     else id6
                else id4
           else id3
      else id1)"

section \<open>A character is its glyph\<close>

definition top_bits :: "nat \<Rightarrow> u8 \<Rightarrow> bool list" where
  "top_bits n b = map (\<lambda>k. bit b (7 - k)) [0..<n]"

lemma top_bits_0 [simp]: "top_bits 0 b = []"
  by (simp add: top_bits_def)

lemma length_top_bits [simp]: "length (top_bits n b) = n"
  by (simp add: top_bits_def)

lemma top_bits_Suc: "n < 8 \<Longrightarrow> top_bits (Suc n) b = bit b 7 # top_bits n (push_bit 1 b)"
proof -
  assume n: "n < 8"
  have "top_bits (Suc n) b = bit b 7 # map (\<lambda>k. bit b (7 - Suc k)) [0..<n]"
    unfolding top_bits_def by (simp only: upt_conv_Cons zero_less_Suc list.map diff_zero map_Suc_upt[symmetric] map_map o_def)
  also have "map (\<lambda>k. bit b (7 - Suc k)) [0..<n] = top_bits n (push_bit 1 b)"
    unfolding top_bits_def bit_push_bit_iff using n by auto
  finally show ?thesis .
qed

lemma take_top_bits: "m \<le> n \<Longrightarrow> take m (top_bits n b) = top_bits m b"
  by (simp add: top_bits_def take_map)

lemma and_80: "(b :: u8) AND 0x80 \<noteq> 0 \<longleftrightarrow> bit b 7"
proof -
  have "(0x80 :: u8) = push_bit 7 1" by simp
  then show ?thesis by (simp only: bit_iff_and_push_bit_not_eq_0)
qed

text \<open>The dots of a column, downwards.\<close>

primrec col_dots :: "lcd_pen \<Rightarrow> u16 \<Rightarrow> u16 \<Rightarrow> bool list \<Rightarrow> pixel list" where
  "col_dots pen x y [] = []"
| "col_dots pen x y (b # bs) = char_dot pen b x y @ col_dots pen x (y + 1) bs"

lemma col_dots_append: "col_dots pen x y (as @ bs) = col_dots pen x y as @ col_dots pen x (y + of_nat (length as)) bs"
  by (induction as arbitrary: y) (simp_all add: add.assoc)

lemma col_dots_map: "col_dots pen x y bs = concat (map (\<lambda>j. char_dot pen (bs ! j) x (y + of_nat j)) [0..<length bs])"
proof (induction bs arbitrary: y)
  case (Cons b bs)
  have "[0..<length (b # bs)] = 0 # map Suc [0..<length bs]" by (simp only: length_Cons upt_conv_Cons zero_less_Suc map_Suc_upt)
  then show ?case using Cons[of "y + 1"] by (simp add: o_def add.assoc)
qed simp

lemma unat_succ_16: "unat (y :: u16) < n \<Longrightarrow> n < 65536 \<Longrightarrow> unat (y + 1) = unat y + 1"
  by (simp add: unat_word_ariths)

lemma char_byte_inside:
  assumes "unat y0 + sz \<le> unat (lcd_height dev)"
  shows "n \<le> 8 \<Longrightarrow> unat y0 \<le> unat y \<Longrightarrow> unat y + n < unat y0 + sz \<Longrightarrow>
    char_byte dev pen sz y0 n temp x y = (col_dots pen x y (top_bits n temp), Some (x, y + of_nat n))"
proof (induction n arbitrary: temp y)
  case (Suc n)
  have h: "unat (lcd_height dev) < 65536" using unsigned_less[where ?'a = nat, of "lcd_height dev"] by simp
  have y1: "unat (y + 1) = unat y + 1" using Suc.prems assms h by (intro unat_succ_16[of _ "unat (lcd_height dev)"]) linarith+
  have a: "\<not> y + 1 \<ge> lcd_height dev" "uint (y + 1) - uint y0 \<noteq> int sz"
    unfolding word_le_nat_alt uint_nat y1 using Suc.prems assms by linarith+
  have ih: "char_byte dev pen sz y0 n (push_bit 1 temp) x (y + 1) = (col_dots pen x (y + 1) (top_bits n (push_bit 1 temp)), Some (x, y + 1 + of_nat n))"
    using Suc.prems y1 by (intro Suc.IH) linarith+
  have e: "y + 1 + of_nat n = y + of_nat (Suc n)" by simp
  show ?case using Suc.prems(1) a
    unfolding char_byte.simps Let_def ih and_80 e by (simp add: top_bits_Suc del: of_nat_Suc)
qed simp

lemma char_byte_end:
  assumes "unat y0 + sz \<le> unat (lcd_height dev)"
  shows "m \<le> n \<Longrightarrow> n \<le> 8 \<Longrightarrow> 0 < m \<Longrightarrow> unat y0 \<le> unat y \<Longrightarrow> unat y + m = unat y0 + sz \<Longrightarrow>
    char_byte dev pen sz y0 n temp x y = (col_dots pen x y (top_bits m temp),
      if unat y0 + sz = unat (lcd_height dev) \<or> x + 1 \<ge> lcd_width dev then None else Some (x + 1, y0))"
proof (induction n arbitrary: temp y m)
  case (Suc n)
  have h: "unat (lcd_height dev) < 65536" using unsigned_less[where ?'a = nat, of "lcd_height dev"] by simp
  show ?case
  proof (cases "m = 1")
    case True
    have t: "top_bits 1 temp = [bit temp 7]" by (simp add: top_bits_def)
    show ?thesis
    proof (cases "unat y0 + sz = unat (lcd_height dev)")
      case T: True
      then have "y + 1 \<ge> lcd_height dev \<or> unat y = 65535" using Suc.prems(5) True h
        by (cases "unat y = 65535") (simp_all add: word_le_nat_alt unat_succ_16[of y 65535])
      moreover have "unat y \<noteq> 65535" using T Suc.prems(5) True h by linarith
      ultimately show ?thesis using T True t by (simp add: and_80)
    next
      case False
      have y1: "unat (y + 1) = unat y + 1" using Suc.prems assms h True by (intro unat_succ_16[of _ "unat (lcd_height dev)"]) linarith+
      have "\<not> y + 1 \<ge> lcd_height dev" "uint (y + 1) - uint y0 = int sz"
        unfolding word_le_nat_alt uint_nat y1 using Suc.prems assms True False by linarith+
      then show ?thesis using True False t by (simp add: and_80)
    qed
  next
    case False
    have y1: "unat (y + 1) = unat y + 1" using Suc.prems assms h False by (intro unat_succ_16[of _ "unat (lcd_height dev)"]) linarith+
    have a: "\<not> y + 1 \<ge> lcd_height dev" "uint (y + 1) - uint y0 \<noteq> int sz"
      unfolding word_le_nat_alt uint_nat y1 using Suc.prems assms False by linarith+
    obtain k where k: "m = Suc k" "0 < k" using False Suc.prems(3) by (cases m) auto
    have ih: "char_byte dev pen sz y0 n (push_bit 1 temp) x (y + 1) = (col_dots pen x (y + 1) (top_bits k (push_bit 1 temp)),
        if unat y0 + sz = unat (lcd_height dev) \<or> x + 1 \<ge> lcd_width dev then None else Some (x + 1, y0))"
      using Suc.prems y1 k by (intro Suc.IH) linarith+
    show ?thesis using Suc.prems(1,2) a k
      unfolding char_byte.simps Let_def ih and_80 by (simp add: top_bits_Suc)
  qed
qed simp

text \<open>The bytes of one column.\<close>

abbreviation col_bits :: "u8 list \<Rightarrow> bool list" where
  "col_bits bs \<equiv> concat (map (top_bits 8) bs)"

lemma char_bytes_column:
  assumes h: "unat y0 + sz \<le> unat (lcd_height dev)"
  shows "bs \<noteq> [] \<Longrightarrow> unat y0 \<le> unat y \<Longrightarrow> unat y + k = unat y0 + sz \<Longrightarrow> 8 * (length bs - 1) < k \<Longrightarrow> k \<le> 8 * length bs \<Longrightarrow>
    char_bytes dev pen sz y0 (bs @ rest) x y = col_dots pen x y (take k (col_bits bs)) @
      (if unat y0 + sz = unat (lcd_height dev) \<or> x + 1 \<ge> lcd_width dev then [] else char_bytes dev pen sz y0 rest (x + 1) y0)"
proof (induction bs arbitrary: y k)
  case (Cons b bs)
  show ?case
  proof (cases "bs = []")
    case True
    then have "char_byte dev pen sz y0 8 b x y = (col_dots pen x y (top_bits k b),
        if unat y0 + sz = unat (lcd_height dev) \<or> x + 1 \<ge> lcd_width dev then None else Some (x + 1, y0))"
      using Cons.prems by (intro char_byte_end h) auto
    then show ?thesis using True Cons.prems by (simp add: take_top_bits)
  next
    case False
    then have k: "8 < k" using Cons.prems(4) by (cases bs) auto
    have c: "char_byte dev pen sz y0 8 b x y = (col_dots pen x y (top_bits 8 b), Some (x, y + of_nat 8))"
      using Cons.prems k by (intro char_byte_inside h) linarith+
    have "unat (lcd_height dev) < 65536" using unsigned_less[where ?'a = nat, of "lcd_height dev"] by simp
    then have y: "unat (y + of_nat 8) = unat y + 8" using Cons.prems(3) k h by (simp add: unat_word_ariths)
    have "char_bytes dev pen sz y0 (bs @ rest) x (y + of_nat 8) = col_dots pen x (y + of_nat 8) (take (k - 8) (col_bits bs)) @
      (if unat y0 + sz = unat (lcd_height dev) \<or> x + 1 \<ge> lcd_width dev then [] else char_bytes dev pen sz y0 rest (x + 1) y0)"
      using Cons.prems False k y by (intro Cons.IH) (linarith | simp del: of_nat_numeral)+
    then show ?thesis using k by (simp add: c col_dots_append)
  qed
qed simp

text \<open>A dot of a glyph with \<open>bpc\<close> bytes per column.\<close>

definition glyph_bit :: "u8 list \<Rightarrow> nat \<Rightarrow> nat \<Rightarrow> nat \<Rightarrow> bool" where
  "glyph_bit g bpc c j \<longleftrightarrow> bit (g ! (c * bpc + j div 8)) (7 - j mod 8)"

lemma length_col_bits: "length (col_bits bs) = 8 * length bs"
  by (induction bs) simp_all

lemma nth_col_bits: "j < 8 * length bs \<Longrightarrow> col_bits bs ! j = bit (bs ! (j div 8)) (7 - j mod 8)"
proof (induction bs arbitrary: j)
  case (Cons b bs)
  show ?case
  proof (cases "j < 8")
    case True
    then show ?thesis by (simp add: nth_append top_bits_def)
  next
    case False
    then have "j div 8 = Suc ((j - 8) div 8)" "j mod 8 = (j - 8) mod 8" by (simp_all add: le_div_geq le_mod_geq)
    then show ?thesis using False Cons.IH[of "j - 8"] Cons.prems by (simp add: nth_append)
  qed
qed simp

definition glyph_column :: "lcd_pen \<Rightarrow> u8 list \<Rightarrow> nat \<Rightarrow> nat \<Rightarrow> u16 \<Rightarrow> u16 \<Rightarrow> nat \<Rightarrow> pixel list" where
  "glyph_column pen g bpc sz x y c =
     concat (map (\<lambda>j. char_dot pen (glyph_bit g bpc c j) (x + of_nat c) (y + of_nat j)) [0..<sz])"

lemma col_dots_glyph:
  assumes "(c + 1) * bpc \<le> length g" "sz \<le> 8 * bpc"
  shows "col_dots pen (x + of_nat c) y (take sz (col_bits (take bpc (drop (c * bpc) g)))) = glyph_column pen g bpc sz x y c"
proof -
  let ?bs = "take bpc (drop (c * bpc) g)"
  have l: "length ?bs = bpc" using assms(1) by (simp add: algebra_simps)
  have lc: "length (col_bits ?bs) = 8 * bpc" using length_col_bits[of ?bs] unfolding l .
  have n: "take sz (col_bits ?bs) ! j = glyph_bit g bpc c j" if "j < sz" for j
  proof -
    have j: "j < 8 * length ?bs" "j div 8 < bpc" using that assms(2) l by (simp_all add: less_mult_imp_div_less)
    show ?thesis using that nth_col_bits[OF j(1)] j(2) assms(1) by (simp add: glyph_bit_def)
  qed
  have m: "length (take sz (col_bits ?bs)) = sz" unfolding length_take lc using assms(2) by simp
  show ?thesis unfolding col_dots_map m glyph_column_def using n by (intro arg_cong[of _ _ concat] map_cong) auto
qed

lemma char_bytes_glyph:
  assumes h: "unat y + sz < unat (lcd_height dev)" and b: "0 < bpc" "8 * (bpc - 1) < sz" "sz \<le> 8 * bpc" and g: "length g = n * bpc"
  shows "i \<le> n \<Longrightarrow> unat x + n \<le> unat (lcd_width dev) \<Longrightarrow>
    char_bytes dev pen sz y (drop (i * bpc) g) (x + of_nat i) y = concat (map (glyph_column pen g bpc sz x y) [i..<n])"
proof (induction "n - i" arbitrary: i)
  case 0
  then show ?case using g by simp
next
  case (Suc k)
  then have i: "i < n" "k = n - Suc i" by linarith+
  have sp: "drop (i * bpc) g = take bpc (drop (i * bpc) g) @ drop (Suc i * bpc) g" by (simp add: add.commute flip: drop_drop)
  have l: "(i + 1) * bpc \<le> length g" unfolding g using i(1) by (intro mult_le_mono1) simp
  then have lt: "length (take bpc (drop (i * bpc) g)) = bpc" by (simp add: algebra_simps)
  have w: "unat (lcd_width dev) < 65536" using unsigned_less[where ?'a = nat, of "lcd_width dev"] by simp
  have x1: "x + of_nat i + 1 \<ge> lcd_width dev \<Longrightarrow> Suc i = n"
  proof -
    assume a: "x + of_nat i + 1 \<ge> lcd_width dev"
    have "unat (x + of_nat (Suc i)) = unat x + Suc i \<or> unat x + Suc i = 65536"
      using Suc.prems(2) i(1) w by (cases "unat x + Suc i < 65536") (auto simp: unat_word_ariths unat_of_nat simp del: of_nat_Suc)
    moreover have "unat x + Suc i < 65536" using Suc.prems(2) i(1) w by linarith
    ultimately have "unat x + Suc i \<ge> unat (lcd_width dev)" using a by (simp add: word_le_nat_alt ac_simps)
    then show ?thesis using Suc.prems(2) i(1) by linarith
  qed
  have "char_bytes dev pen sz y (drop (i * bpc) g) (x + of_nat i) y =
      col_dots pen (x + of_nat i) y (take sz (col_bits (take bpc (drop (i * bpc) g)))) @
      (if unat y + sz = unat (lcd_height dev) \<or> x + of_nat i + 1 \<ge> lcd_width dev then []
       else char_bytes dev pen sz y (drop (Suc i * bpc) g) (x + of_nat i + 1) y)"
    by (subst sp, rule char_bytes_column) (use h b lt in auto)
  also have "\<dots> = glyph_column pen g bpc sz x y i @ concat (map (glyph_column pen g bpc sz x y) [Suc i..<n])"
  proof (cases "x + of_nat i + 1 \<ge> lcd_width dev")
    case True
    then have e: "[Suc i..<n] = []" using x1 by simp
    show ?thesis unfolding e using True col_dots_glyph[OF l b(3)] by simp
  next
    case False
    have "char_bytes dev pen sz y (drop (Suc i * bpc) g) (x + of_nat (Suc i)) y = concat (map (glyph_column pen g bpc sz x y) [Suc i..<n])"
      using Suc i by (intro Suc.hyps(1)) auto
    then show ?thesis using False h col_dots_glyph[OF l b(3)] by (simp add: add.commute add.left_commute)
  qed
  finally show ?case using i(1) by (simp add: upt_conv_Cons)
qed

section \<open>Numbers are shown in decimal\<close>

lemma pow_loop_eq: "pow_loop m n r = r * ucast m ^ n"
  by (induction n arbitrary: r) (simp_all add: mult.assoc)

lemma LCD_Pow_unat: "n < 10 \<Longrightarrow> unat (LCD_Pow 10 (of_nat n)) = 10 ^ n"
proof -
  assume n: "n < 10"
  have p: "LCD_Pow 10 (of_nat n) = 10 ^ n" using n by (simp add: LCD_Pow_def pow_loop_eq unat_of_nat)
  have "(10 :: nat) ^ n \<le> 10 ^ 9" using n by (intro power_increasing) auto
  then have "(10 :: nat) ^ n < 2 ^ 32" by simp
  moreover have "unat ((of_nat (10 ^ n)) :: u32) = 10 ^ n mod 2 ^ 32" by (simp add: unat_of_nat del: of_nat_power)
  ultimately show ?thesis unfolding p by simp
qed

text \<open>The digits of a number, and its last \<open>k\<close> digits.\<close>

function decimal :: "nat \<Rightarrow> nat list" where
  "decimal n = (if n < 10 then [n] else decimal (n div 10) @ [n mod 10])"
  by auto
termination
  by (relation "measure id") auto

declare decimal.simps [simp del]

primrec digits :: "nat \<Rightarrow> nat \<Rightarrow> nat list" where
  "digits 0 n = []"
| "digits (Suc k) n = (n div 10 ^ k mod 10) # digits k n"

lemma digits_snoc: "digits (Suc k) n = digits k (n div 10) @ [n mod 10]"
proof (induction k)
  case (Suc k)
  have "digits (Suc (Suc k)) n = (n div 10 ^ Suc k mod 10) # digits (Suc k) n" by simp
  also have "n div 10 ^ Suc k = n div 10 div 10 ^ k" by (simp add: div_mult2_eq)
  also have "(n div 10 div 10 ^ k mod 10) # digits (Suc k) n = digits (Suc k) (n div 10) @ [n mod 10]" unfolding Suc by simp
  finally show ?case .
qed simp

lemma decimal_digits: "10 ^ k \<le> n \<Longrightarrow> n < 10 ^ Suc k \<Longrightarrow> decimal n = digits (Suc k) n"
proof (induction k arbitrary: n)
  case (Suc k)
  have "10 ^ k \<le> n div 10" "n div 10 < 10 ^ Suc k" using Suc.prems by (simp_all add: less_eq_div_iff_mult_less_eq less_mult_imp_div_less)
  moreover have "\<not> n < 10" using Suc.prems(1) by (intro leD) (rule order_trans[of _ "10 * 10 ^ k"], simp_all)
  ultimately show ?case using Suc.IH[of "n div 10"] by (subst decimal.simps) (simp only: if_False digits_snoc)
qed (subst decimal.simps, simp)

lemma length_decimal: "n < 10 ^ Suc k \<Longrightarrow> length (decimal n) \<le> Suc k"
proof (induction k arbitrary: n)
  case (Suc k)
  then have "n div 10 < 10 ^ Suc k" by (simp add: less_mult_imp_div_less)
  then show ?case using Suc.IH[of "n div 10"] by (subst decimal.simps) simp
qed (subst decimal.simps, simp)

lemma div_mod_pow_ten: "Suc k \<le> j \<Longrightarrow> n mod 10 ^ j div 10 ^ k mod 10 = n div 10 ^ k mod (10 :: nat)"
proof -
  assume "Suc k \<le> j"
  then obtain i where j: "j = k + Suc i" by (metis add_Suc_right add_Suc less_eqE)
  have "n mod (10 ^ k * 10 ^ Suc i) div 10 ^ k = n div 10 ^ k mod 10 ^ Suc i"
    by (simp only: mod_mult2_eq) simp
  then show ?thesis unfolding j power_add by (simp add: mod_mod_cancel)
qed

lemma digits_mod: "k \<le> j \<Longrightarrow> digits k (n mod 10 ^ j) = digits k n"
proof (induction k)
  case (Suc k)
  then have "n mod 10 ^ j div 10 ^ k mod 10 = n div 10 ^ k mod 10"
    by (simp add: div_mod_pow_ten)
  then show ?case using Suc by simp
qed simp

definition digit_char :: "nat \<Rightarrow> u8" where
  "digit_char d = of_nat (d + 48)"

lemma num_loop_digit:
  assumes "k < 10"
  shows "(ucast ((num div LCD_Pow 10 (of_nat k)) mod 10) :: u8) = of_nat (unat num div 10 ^ k mod 10)" "LCD_Pow 10 (of_nat k) \<noteq> 0"
proof -
  have "unat ((num div LCD_Pow 10 (of_nat k)) mod 10) = unat num div 10 ^ k mod 10"
    using LCD_Pow_unat[OF assms] by (simp add: unat_div unat_mod)
  then show "(ucast ((num div LCD_Pow 10 (of_nat k)) mod 10) :: u8) = of_nat (unat num div 10 ^ k mod 10)"
    by (simp add: word_unat_eq_iff unat_of_nat unsigned_ucast_eq take_bit_nat_def)
  show "LCD_Pow 10 (of_nat k) \<noteq> 0" using LCD_Pow_unat[OF assms] by (metis power_not_zero unat_0 zero_neq_numeral)
qed

lemma num_loop_stop: "\<not> t < len \<Longrightarrow> num_loop pad num len t b = Some []"
  by (subst num_loop.simps) (simp only: if_False)

lemma num_loop_shown: "t < len \<Longrightarrow> len - t \<le> 10 \<Longrightarrow> num_loop pad num len t True = Some (map digit_char (digits (len - t) (unat num)))"
proof (induction "len - t" arbitrary: t)
  case (Suc k)
  then have k: "len - t - 1 = k" "len - t = Suc k" "k < 10" "len - Suc t = k" by linarith+
  have r: "num_loop pad num len (t + 1) True = Some (map digit_char (digits k (unat num)))"
  proof (cases "k = 0")
    case True
    then show ?thesis using k by (subst num_loop_stop) (linarith, simp)
  next
    case False
    then show ?thesis using Suc.hyps(1)[of "t + 1"] k by simp
  qed
  show ?case using Suc.prems(1) num_loop_digit[OF k(3)] r
    by (subst num_loop.simps) (simp add: Let_def k digit_char_def add.commute)
qed simp

lemma num_loop_hidden:
  "t < len \<Longrightarrow> len - t \<le> 10 \<Longrightarrow>
     num_loop pad num len t False = Some (replicate (len - t - length (decimal (unat num mod 10 ^ (len - t)))) pad @
       map digit_char (decimal (unat num mod 10 ^ (len - t))))"
proof (induction "len - t" arbitrary: t)
  case (Suc k)
  then have k: "len - t - 1 = k" "len - t = Suc k" "k < 10" "len - Suc t = k" by linarith+
  let ?m = "unat num mod 10 ^ Suc k" and ?d = "unat num div 10 ^ k mod 10"
  note u = num_loop_digit(1)[OF k(3), of num] num_loop_digit(2)[OF k(3)]
  have m: "?m = ?d * 10 ^ k + unat num mod 10 ^ k"
    unfolding power_Suc2 mod_mult2_eq by (simp add: mult.commute)
  have d0: "of_nat ?d = (0 :: u8) \<longleftrightarrow> ?d = 0" by (simp add: word_unat_eq_iff unat_of_nat take_bit_nat_def)
  show ?case
  proof (cases "k = 0 \<or> ?d \<noteq> 0")
    case True
    have dm: "decimal ?m = ?d # digits k (unat num)"
    proof (cases "k = 0")
      case T: True
      then show ?thesis using m by (subst decimal.simps) simp
    next
      case False
      then have "?d \<noteq> 0" using True by simp
      then have "1 * 10 ^ k \<le> ?d * 10 ^ k" by (intro mult_le_mono1) linarith
      then have "10 ^ k \<le> ?m" unfolding m nat_mult_1 by (rule trans_le_add1)
      moreover have "?m < 10 ^ Suc k" by simp
      ultimately have "decimal ?m = digits (Suc k) ?m" by (rule decimal_digits)
      also have "digits (Suc k) ?m = digits (Suc k) (unat num)" by (rule digits_mod) simp
      finally show ?thesis by (simp only: digits.simps)
    qed
    have l: "length (digits k n) = k" for k n by (induction k) simp_all
    have r: "num_loop pad num len (t + 1) (k \<noteq> 0) = Some (map digit_char (digits k (unat num)))"
    proof (cases "k = 0")
      case T: True
      then show ?thesis using k by (subst num_loop_stop) (linarith, simp)
    next
      case False
      then show ?thesis using num_loop_shown[of "t + 1" len pad num] k by simp
    qed
    have "(t < len - 1) = (k \<noteq> 0)" using k by linarith
    then show ?thesis unfolding k(2) dm using Suc.prems(1) u d0 r True l
      by (subst num_loop.simps) (auto simp: Let_def k digit_char_def add.commute simp del: One_nat_def)
  next
    case False
    then have e: "?m = unat num mod 10 ^ k" using m by simp
    have ih: "num_loop pad num len (t + 1) False = Some (replicate (k - length (decimal ?m)) pad @ map digit_char (decimal ?m))"
    proof -
      have "k = len - (t + 1)" "t + 1 < len" "len - (t + 1) \<le> 10" using k False by linarith+
      from Suc.hyps(1)[OF this] show ?thesis using k(4) unfolding e by simp
    qed
    have "?m < 10 ^ Suc (k - 1)" unfolding e using False by simp
    then have "length (decimal ?m) \<le> k" using length_decimal[of ?m "k - 1"] False by simp
    then have rep: "replicate (Suc k - length (decimal ?m)) pad = pad # replicate (k - length (decimal ?m)) pad" by (simp add: Suc_diff_le)
    have "t < len - 1" using k False by linarith
    then show ?thesis unfolding k(2) rep using Suc.prems(1) u False ih
      by (subst num_loop.simps) (simp add: Let_def k)
  qed
qed simp

lemma num_loop_no_power: "32 < len \<Longrightarrow> len < 256 \<Longrightarrow> num_loop pad num len 0 b = None"
proof -
  assume a: "32 < len" "len < 256"
  define n where "n = len - 0 - 1"
  have n: "n < 256" "32 \<le> n" using a by (auto simp: n_def)
  have "LCD_Pow 10 (of_nat n) = (10 :: u32) ^ n" using n by (simp add: LCD_Pow_def pow_loop_eq unat_of_nat take_bit_nat_def)
  also have "\<dots> = 10 ^ 32 * 10 ^ (n - 32)" unfolding power_add[symmetric] using n by simp
  also have "(10 :: u32) ^ 32 = 0" by simp
  finally have "LCD_Pow 10 (of_nat n) = 0" by simp
  then show ?thesis using a by (subst num_loop.simps) (simp only: Let_def n_def[symmetric] if_True if_False split: if_split, simp)
qed

section \<open>The layout of a string\<close>

abbreviation (input) cells_in :: "nat \<Rightarrow> nat \<Rightarrow> nat" where
  "cells_in width cw \<equiv> (width + cw - 1) div cw"

lemma cells_in_iff:
  assumes "0 < cw"
  shows "width \<le> cw * c \<longleftrightarrow> cells_in width cw \<le> c"
proof -
  have "cells_in width cw \<le> c \<longleftrightarrow> width + cw - 1 < Suc c * cw" using assms by (simp add: div_less_iff_less_mult flip: less_Suc_eq_le)
  also have "\<dots> \<longleftrightarrow> width \<le> cw * c" using assms by (simp add: mult.commute) linarith
  finally show ?thesis by simp
qed

text \<open>The place of the \<open>i\<close>-th character.\<close>

definition cell_at :: "u16 \<Rightarrow> u16 \<Rightarrow> nat \<Rightarrow> nat \<Rightarrow> nat \<Rightarrow> nat \<Rightarrow> u16 \<times> u16" where
  "cell_at x y cw sz per i = (x + of_nat (cw * (i mod per)), y + of_nat (sz * (i div per)))"

definition printable :: "u8 \<Rightarrow> bool" where
  "printable c \<longleftrightarrow> 0x20 \<le> c \<and> c \<le> 0x7E"

text \<open>
  A text area that does not wrap around: \<open>per\<close> characters fit into a line, \<open>rows\<close> lines into the area, and
  the left edge fits into the 8 bits of \<^verbatim>\<open>x0\<close>.
\<close>

definition text_area :: "u16 \<Rightarrow> u16 \<Rightarrow> u16 \<Rightarrow> u16 \<Rightarrow> u8 \<Rightarrow> nat \<Rightarrow> nat \<Rightarrow> nat \<Rightarrow> bool" where
  "text_area x y width height sz cw per rows \<longleftrightarrow>
     cw = unat sz div 2 \<and> 0 < cw \<and> unat x < 256 \<and> unat x + unat width + cw < 65536 \<and> unat y + unat height + unat sz < 65536 \<and>
     per = cells_in (unat width) cw \<and> rows = cells_in (unat height) (unat sz) \<and> 0 < width"

lemma text_areaD:
  assumes "text_area x y width height sz cw per rows"
  shows "cw = unat sz div 2" "0 < cw" "unat x < 256" "unat x + unat width + cw < 65536" "unat y + unat height + unat sz < 65536"
    "per = cells_in (unat width) cw" "rows = cells_in (unat height) (unat sz)" "0 < width" "0 < unat sz"
  using assms unfolding text_area_def by (blast, blast, blast, blast, blast, blast, blast, blast, linarith)

lemma unat_plus_16: "unat (x :: u16) + k < 65536 \<Longrightarrow> unat (x + of_nat k) = unat x + k"
  by (simp add: unat_word_ariths unat_of_nat take_bit_nat_def)

lemma x0_back: "unat x < 256 \<Longrightarrow> ucast (ucast x :: u8) = (x :: u16)"
  by (simp add: word_unat_eq_iff unsigned_ucast_eq unsigned_take_bit_eq take_bit_nat_def)

lemma per_pos: "text_area x y width height sz cw per rows \<Longrightarrow> 0 < per"
proof (rule ccontr)
  assume a: "text_area x y width height sz cw per rows"
  assume "\<not> 0 < per"
  then have "unat width \<le> cw * 0" using cells_in_iff[OF text_areaD(2)[OF a], of "unat width" 0] text_areaD(6)[OF a] by simp
  then show False using text_areaD(8)[OF a] by (simp add: word_less_nat_alt)
qed

lemma col_bound: "text_area x y width height sz cw per rows \<Longrightarrow> c \<le> per \<Longrightarrow> cw * c < unat width + cw"
proof -
  assume a: "text_area x y width height sz cw per rows"
  assume "c \<le> per"
  show ?thesis
  proof (cases c)
    case (Suc d)
    then have "\<not> per \<le> d" using \<open>c \<le> per\<close> by simp
    then have "\<not> unat width \<le> cw * d" using cells_in_iff[OF text_areaD(2)[OF a], of "unat width" d] text_areaD(6)[OF a] by simp
    then show ?thesis using Suc by simp
  qed (use text_areaD(2)[OF a] in simp)
qed

lemma at_right: "text_area x y width height sz cw per rows \<Longrightarrow> c \<le> per \<Longrightarrow> x + of_nat (cw * c) \<ge> width + x \<longleftrightarrow> c = per"
proof -
  assume a: "text_area x y width height sz cw per rows"
  assume c: "c \<le> per"
  have u: "unat (x + of_nat (cw * c)) = unat x + cw * c" "unat (width + x) = unat x + unat width"
    using col_bound[OF a c] text_areaD(4)[OF a] by (simp_all only: unat_plus_16 add.commute[of width x] add.commute[of height y], simp_all add: unat_word_ariths)
  show ?thesis unfolding word_le_nat_alt u using cells_in_iff[OF text_areaD(2)[OF a], of "unat width" c] text_areaD(6)[OF a] c by auto
qed

lemma row_bound: "text_area x y width height sz cw per rows \<Longrightarrow> r \<le> rows \<Longrightarrow> unat sz * r < unat height + unat sz"
proof -
  assume a: "text_area x y width height sz cw per rows"
  assume "r \<le> rows"
  show ?thesis
  proof (cases r)
    case (Suc d)
    then have "\<not> rows \<le> d" using \<open>r \<le> rows\<close> by simp
    then have "\<not> unat height \<le> unat sz * d" using cells_in_iff[OF text_areaD(9)[OF a], of "unat height" d] text_areaD(7)[OF a] by simp
    then show ?thesis using Suc by simp
  qed (use text_areaD(9)[OF a] in simp)
qed

lemma at_bottom: "text_area x y width height sz cw per rows \<Longrightarrow> r \<le> rows \<Longrightarrow> y + of_nat (unat sz * r) \<ge> height + y \<longleftrightarrow> r = rows"
proof -
  assume a: "text_area x y width height sz cw per rows"
  assume r: "r \<le> rows"
  have u: "unat (y + of_nat (unat sz * r)) = unat y + unat sz * r" "unat (height + y) = unat y + unat height"
    using row_bound[OF a r] text_areaD(5)[OF a] by (simp_all only: unat_plus_16 add.commute[of width x] add.commute[of height y], simp_all add: unat_word_ariths)
  show ?thesis unfolding word_le_nat_alt u using cells_in_iff[OF text_areaD(9)[OF a], of "unat height" r] text_areaD(7)[OF a] r by auto
qed

definition place :: "(nat \<Rightarrow> u16 \<times> u16) \<Rightarrow> u8 list \<Rightarrow> nat \<Rightarrow> nat \<Rightarrow> u16 \<times> u16 \<times> u8" where
  "place at cs n i = (fst (at i), snd (at i), cs ! (i - n))"

lemma string_cells_Cons:
  "printable c \<Longrightarrow> (if x \<ge> width then (ucast x0, y + ucast sz) else (x, y)) = (x1, y1) \<Longrightarrow>
   string_cells x0 width height sz x y (c # p) =
     (if y1 \<ge> height then Some []
      else Option.bind (string_cells x0 width height sz (x1 + of_nat (unat sz div 2)) y1 p) (\<lambda>cs. Some ((x1, y1, c) # cs)))"
  by (auto simp: printable_def)

lemma string_cells_layout:
  assumes a: "text_area x y width height sz cw per rows"
  shows "list_all printable cs \<Longrightarrow> \<not> printable stop \<Longrightarrow> c \<le> per \<Longrightarrow> r \<le> rows \<Longrightarrow> (c = per \<longrightarrow> r < rows) \<Longrightarrow> n = r * per + c \<Longrightarrow>
   string_cells (ucast x) (width + x) (height + y) sz (x + of_nat (cw * c)) (y + of_nat (unat sz * r)) (cs @ stop # rest) =
     Some (map (place (cell_at x y cw (unat sz) per) cs n) [n..<min (n + length cs) (per * rows)])"
proof (induction cs arbitrary: c r n)
  case Nil
  then have "\<not> (stop \<le> 0x7E \<and> stop \<ge> 0x20)" by (simp add: printable_def conj_commute)
  moreover have "[n..<min (n + length []) (per * rows)] = []" by simp
  ultimately show ?case by (simp only: string_cells.simps append_Nil if_False) simp
next
  case (Cons b cs)
  obtain c1 r1 where cr: "(c1, r1) = (if c = per then (0, r + 1) else (c, r))" by (metis surj_pair)
  have n1: "n = r1 * per + c1" "c1 < per" "r1 \<le> rows" using cr Cons.prems per_pos[OF a] by (auto split: if_split_asm)
  have st: "(if x + of_nat (cw * c) \<ge> width + x then (ucast (ucast x :: u8), y + of_nat (unat sz * r) + ucast sz) else (x + of_nat (cw * c), y + of_nat (unat sz * r)))
      = (x + of_nat (cw * c1), y + of_nat (unat sz * r1))"
    using cr at_right[OF a Cons.prems(3)] by (auto simp: x0_back[OF text_areaD(3)[OF a]] algebra_simps split: if_split_asm)
  have "printable b" using Cons.prems(1) by simp
  note step = string_cells_Cons[OF this st]
  show ?case
  proof (cases "r1 = rows")
    case True
    then have "[n..<min (n + length (b # cs)) (per * rows)] = []" using n1(1) by (simp add: mult.commute)
    moreover have "y + of_nat (unat sz * r1) \<ge> height + y" using at_bottom[OF a n1(3)] True by simp
    ultimately show ?thesis unfolding append_Cons step by (simp only: if_True list.map)
  next
    case False
    then have nb: "\<not> y + of_nat (unat sz * r1) \<ge> height + y" using at_bottom[OF a n1(3)] by simp
    have lt: "n < per * rows"
    proof -
      have "r1 * per + c1 < Suc r1 * per" using n1(2) by simp
      also have "\<dots> \<le> rows * per" using False n1(3) by (intro mult_le_mono1) simp
      finally show ?thesis using n1(1) by (simp add: mult.commute)
    qed
    have e: "x + of_nat (cw * c1) + of_nat (unat sz div 2) = x + of_nat (cw * Suc c1)" by (simp add: text_areaD(1)[OF a, symmetric] algebra_simps)
    have ih: "string_cells (ucast x) (width + x) (height + y) sz (x + of_nat (cw * Suc c1)) (y + of_nat (unat sz * r1)) (cs @ stop # rest) =
        Some (map (place (cell_at x y cw (unat sz) per) cs (Suc n)) [Suc n..<min (Suc n + length cs) (per * rows)])"
      using Cons.prems n1 False by (intro Cons.IH) auto
    have "place (cell_at x y cw (unat sz) per) (b # cs) n n = (x + of_nat (cw * c1), y + of_nat (unat sz * r1), b)"
      using n1 per_pos[OF a] by (simp add: place_def cell_at_def)
    moreover have "map (place (cell_at x y cw (unat sz) per) (b # cs) n) [Suc n..<k] = map (place (cell_at x y cw (unat sz) per) cs (Suc n)) [Suc n..<k]" for k
      by (auto simp: place_def nth_Cons split: nat.split) (metis Suc_diff_Suc diff_Suc_Suc less_eq_Suc_le nat.inject)
    moreover have "[n..<min (n + length (b # cs)) (per * rows)] = n # [Suc n..<min (Suc n + length cs) (per * rows)]"
      using lt by (simp add: upt_conv_Cons)
    ultimately show ?thesis unfolding append_Cons step e ih using nb by (simp only: if_False bind.bind_lunit list.map)
  qed
qed

lemma show_string_layout:
  assumes a: "text_area x y width height sz cw per rows" and "list_all printable cs" "\<not> printable stop"
  shows "show_string_cells x y width height sz (cs @ stop # rest) =
    Some (map (place (cell_at x y cw (unat sz) per) cs 0) [0..<min (length cs) (per * rows)])"
  using string_cells_layout[OF a assms(2,3), of 0 0 0 rest] per_pos[OF a] unfolding show_string_cells_def by simp

section \<open>Filling an area\<close>

lemma fill_row_ok:
  assumes w: "x_start \<le> x_end" "w = unat x_end - unat x_start + 1" "w < 65536"
  shows "q \<le> w \<Longrightarrow> w - q \<le> length px \<Longrightarrow>
    fill_row x_start x_end (of_nat q) px = Some (map RAM (take (w - q) px), drop (w - q) px)"
proof (induction "w - q" arbitrary: q px)
  case 0
  have "uint (of_nat q :: u16) = int q" using 0 w(3) by (intro uint_of_nat_16) linarith
  then have "\<not> uint x_start + uint (of_nat q :: u16) \<le> uint x_end" using 0 w(1,2) unfolding word_le_nat_alt uint_nat by linarith
  then show ?case using 0 by (subst fill_row.simps) simp
next
  case (Suc k)
  have "uint (of_nat q :: u16) = int q" using Suc w(3) by (intro uint_of_nat_16) linarith
  then have g: "uint x_start + uint (of_nat q :: u16) \<le> uint x_end" using Suc w(1,2) unfolding word_le_nat_alt uint_nat by linarith
  obtain p ps where px: "px = p # ps" using Suc by (cases px) auto
  have e: "(of_nat q + 1 :: u16) = of_nat (Suc q)" "w - q = Suc (w - Suc q)" using Suc.hyps(2) by auto
  have ih: "fill_row x_start x_end (of_nat (Suc q)) ps = Some (map RAM (take (w - Suc q) ps), drop (w - Suc q) ps)"
    using Suc px by (intro Suc.hyps(1)) auto
  show ?case unfolding px e(2) by (subst fill_row.simps) (simp only: g if_True list.case e(1) ih bind.bind_lunit case_prod_conv take_Suc_Cons drop_Suc_Cons list.map)
qed

lemma fill_rows_ok:
  assumes x: "x_start \<le> x_end" "w = unat x_end - unat x_start + 1" "w < 65536" and n: "unat y_start + n = unat y_end + 1" "unat y_end < 65535"
  shows "i \<le> n \<Longrightarrow> (n - i) * w \<le> length px \<Longrightarrow>
    fill_rows dev x_start x_end y_end (y_start + of_nat i) px = Some (concat (map (\<lambda>j. LCD_SetCursor dev x_start (y_start + of_nat (i + j)) @
      [REG (lcd_wramcmd dev)] @ map RAM (take w (drop (j * w) px))) [0..<n - i]))"
proof (induction "n - i" arbitrary: i px)
  case 0
  have "unat (y_start + of_nat i) = unat y_start + i" using 0 n by (intro unat_plus_16) linarith
  then have "\<not> y_start + of_nat i \<le> y_end" using 0 n unfolding word_le_nat_alt by linarith
  then show ?case using 0 by (subst fill_rows.simps) simp
next
  case (Suc k)
  have "unat (y_start + of_nat i) = unat y_start + i" using Suc n by (intro unat_plus_16) linarith
  then have g: "y_start + of_nat i \<le> y_end" using Suc n unfolding word_le_nat_alt by linarith
  have ni: "n - i = Suc (n - Suc i)" "k = n - Suc i" "Suc i \<le> n" using Suc.hyps(2) by linarith+
  have "w \<le> length px" using Suc.prems(2) unfolding ni(1) by simp
  then have r: "fill_row x_start x_end 0 px = Some (map RAM (take w px), drop w px)" using fill_row_ok[OF x, of 0 px] by simp
  have l: "(n - Suc i) * w \<le> length (drop w px)" using Suc.prems(2) unfolding ni(1) by simp
  note ih = Suc.hyps(1)[OF ni(2,3) l]
  have e: "y_start + of_nat i + 1 = y_start + of_nat (Suc i)" by simp
  have d: "take w (drop (j * w) (drop w px)) = take w (drop (Suc j * w) px)" for j by (simp add: add.commute)
  have u: "[0..<Suc (n - Suc i)] = 0 # map Suc [0..<n - Suc i]" by (simp only: upt_conv_Cons zero_less_Suc map_Suc_upt)
  have a: "Suc i + j = i + Suc j" for j by simp
  show ?case unfolding ni(1) u
    by (subst fill_rows.simps)
      (simp only: g if_True r bind.bind_lunit case_prod_conv e ih d list.map map_map o_def concat.simps a mult_0 drop_0 add_0_right append_assoc)
qed

lemmas fill_rows_induct = fill_rows.raw_induct [rotated, consumes 1, case_names step]

lemma fill_rows_end: "fill_rows dev x_start x_end y_end cycle_y px = Some bs \<Longrightarrow> y_end \<noteq> - 1"
proof (induction rule: fill_rows_induct)
  case (step f dev x_start x_end y_end cycle_y px bs)
  show ?case
  proof (cases "cycle_y \<le> y_end")
    case True
    then obtain rest cs where "f dev x_start x_end y_end (cycle_y + 1) rest = Some cs"
      using step(2) by (auto simp: bind_eq_Some_conv)
    then show ?thesis using step(1) by blast
  qed auto
qed

section \<open>Reading a pixel back\<close>

text \<open>The words that the controllers with two reads answer for a colour of 5, 6 and 5 bits.\<close>

definition rg_word :: "u16 \<Rightarrow> u16" where
  "rg_word c = push_bit 11 (drop_bit 11 c) OR push_bit 2 (take_bit 6 (drop_bit 5 c))"

definition b_word :: "u16 \<Rightarrow> u16" where
  "b_word c = push_bit 11 c"

lemma read_back:
  "push_bit 11 (drop_bit 11 (rg_word c)) OR push_bit 5 (drop_bit 10 (push_bit 8 (rg_word c AND 0xFF))) OR drop_bit 11 (b_word c) = c"
proof -
  have m: "r AND 0xFF = take_bit 8 (r :: u16)" for r by (simp add: take_bit_eq_mask mask_eq_exp_minus_1)
  show ?thesis unfolding m rg_word_def b_word_def
  proof (rule bit_word_eqI)
    fix n
    assume "n < LENGTH(16)"
    then have n: "n < 16" by simp
    consider "n < 5" | "5 \<le> n" "n < 11" | "11 \<le> n" by linarith
    then consider "n < 5" | "5 \<le> n" "n < 11" | k where "n = 11 + k" "k < 5"
      by cases (use n le_Suc_ex in fastforce)+
    then show "bit (push_bit 11 (drop_bit 11 (push_bit 11 (drop_bit 11 c) OR push_bit 2 (take_bit 6 (drop_bit 5 c)))) OR
        push_bit 5 (drop_bit 10 (push_bit 8 (take_bit 8 (push_bit 11 (drop_bit 11 c) OR push_bit 2 (take_bit 6 (drop_bit 5 c)))))) OR
        drop_bit 11 (push_bit 11 c)) n = bit c n"
      by cases (auto simp: bit_or_iff bit_push_bit_iff bit_drop_bit_eq bit_take_bit_iff not_le)
  qed
qed

section \<open>Properties\<close>

text \<open>
  C38. \<^verbatim>\<open>LCD_ShowChar\<close> draws the glyph: for the three font sizes, a character of the table and a place where it fits
  above the last row and inside the width, the dots drawn are, column by column and downwards, those of
  the bits of the glyph, in the point colour or, unless the character is overlaid, in the background
  colour.
\<close>

theorem show_char_glyph:
  assumes "sz = 12 \<or> sz = 16 \<or> sz = 24" "unat (num - 0x20) < length (font sz)"
    and "g = font sz ! unat (num - 0x20)" "length g = (unat sz + 7) div 8 * (unat sz div 2)"
    and "unat x + unat sz div 2 \<le> unat (lcd_width dev)" "unat y + unat sz < unat (lcd_height dev)"
  shows "LCD_ShowChar font dev pen x y num sz = Some (concat (map (\<lambda>c. concat (map (\<lambda>j.
    char_dot pen (glyph_bit g ((unat sz + 7) div 8) c j) (x + of_nat c) (y + of_nat j)) [0..<unat sz])) [0..<unat sz div 2]))"
proof -
  let ?n = "unat sz" and ?b = "(unat sz + 7) div 8"
  have n: "?n = 12 \<or> ?n = 16 \<or> ?n = 24" using assms(1) by auto
  then have b: "0 < ?b" "8 * (?b - 1) < ?n" "?n \<le> 8 * ?b" by auto
  have c: "(?n div 8 + (if ?n mod 8 \<noteq> 0 then 1 else 0)) * (?n div 2) mod 256 = length g" unfolding assms(4) using n by auto
  have l: "length g = ?n div 2 * ?b" unfolding assms(4) by (rule mult.commute)
  have "LCD_ShowChar font dev pen x y num sz = Some (char_bytes dev pen ?n y (drop (0 * ?b) g) (x + of_nat 0) y)"
    using assms(1,2) unfolding LCD_ShowChar_def Let_def c assms(3)[symmetric] by simp
  also have "\<dots> = Some (concat (map (glyph_column pen g ?b ?n x y) [0..<?n div 2]))"
    using char_bytes_glyph[OF assms(6) b l le0 assms(5)] by simp
  finally show ?thesis unfolding glyph_column_def .
qed

definition lcd_480 :: lcd_dev where
  "lcd_480 = \<lparr>lcd_width = 480, lcd_height = 800, lcd_id = 0x5510, lcd_dir = 0, lcd_wramcmd = 0x2C00, lcd_setxcmd = 0x2A00, lcd_setycmd = 0x2B00\<rparr>"

definition pen_ex :: lcd_pen where
  "pen_ex = \<lparr>POINT_COLOR = 0, BACK_COLOR = 0xFFFF, pen_mode = 0\<rparr>"

definition font_ex :: "u8 \<Rightarrow> u8 list list" where
  "font_ex sz = [replicate ((unat sz + 7) div 8 * (unat sz div 2)) 0, replicate ((unat sz + 7) div 8 * (unat sz div 2)) 0xFF]"

theorem show_char_glyph_witness: "\<exists>ps. LCD_ShowChar font_ex lcd_480 pen_ex 300 50 0x21 12 = Some ps"
  by (rule exI, rule show_char_glyph[where g = "font_ex 12 ! 1"]) (simp_all add: font_ex_def lcd_480_def)

text \<open>
  At the lower edge the test for the end of the display comes before the test for the end of the column: a
  character that just fits, with its last row in the last row of the display, is cut to its first column.
\<close>

theorem show_char_bottom_edge:
  assumes "sz = 12 \<or> sz = 16 \<or> sz = 24" "unat (num - 0x20) < length (font sz)"
    and "g = font sz ! unat (num - 0x20)" "length g = (unat sz + 7) div 8 * (unat sz div 2)"
    and "unat y + unat sz = unat (lcd_height dev)"
  shows "LCD_ShowChar font dev pen x y num sz =
    Some (concat (map (\<lambda>j. char_dot pen (glyph_bit g ((unat sz + 7) div 8) 0 j) x (y + of_nat j)) [0..<unat sz]))"
proof -
  let ?n = "unat sz" and ?b = "(unat sz + 7) div 8"
  have n: "?n = 12 \<or> ?n = 16 \<or> ?n = 24" using assms(1) by auto
  then have b: "0 < ?b" "8 * (?b - 1) < ?n" "?n \<le> 8 * ?b" by auto
  have c: "(?n div 8 + (if ?n mod 8 \<noteq> 0 then 1 else 0)) * (?n div 2) mod 256 = length g" unfolding assms(4) using n by auto
  have l: "(0 + 1) * ?b \<le> length g" unfolding assms(4) using n by auto
  have "char_bytes dev pen ?n y (take ?b (drop (0 * ?b) g) @ drop ?b g) (x + of_nat 0) y =
      col_dots pen (x + of_nat 0) y (take ?n (concat (map (top_bits 8) (take ?b (drop (0 * ?b) g)))))"
    using assms(5) b l by (subst char_bytes_column) auto
  also have "\<dots> = glyph_column pen g ?b ?n x y 0" by (rule col_dots_glyph[OF l b(3)])
  finally have "char_bytes dev pen ?n y g x y = glyph_column pen g ?b ?n x y 0" by simp
  then show ?thesis using assms(1,2) unfolding LCD_ShowChar_def Let_def c assms(3)[symmetric] glyph_column_def by simp
qed

theorem show_char_bottom_edge_witness: "\<exists>ps. LCD_ShowChar font_ex lcd_480 pen_ex 300 776 0x21 24 = Some ps"
  by (rule exI, rule show_char_bottom_edge[where g = "font_ex 24 ! 1"]) (simp_all add: font_ex_def lcd_480_def)

text \<open>
  \<^verbatim>\<open>LCD_ShowNum\<close> and \<^verbatim>\<open>LCD_ShowxNum\<close> with at most 10 places show the number in decimal, aligned to the right: the
  characters are the digits of the number modulo \<open>10 ^ len\<close>, without leading zeros, and the padding in
  front of them.
\<close>

theorem show_num_decimal:
  assumes "0 < len" "len \<le> 10"
  shows "num_loop pad num len 0 False = Some (replicate (len - length (decimal (unat num mod 10 ^ len))) pad @
    map digit_char (decimal (unat num mod 10 ^ len)))"
  using num_loop_hidden[of 0 len pad num] assms by simp

lemma replicate_two: "replicate 2 a = [a, a]"
  by (simp add: numeral_2_eq_2)

theorem show_num_decimal_witness: "num_loop 0x20 2026 6 0 False = Some (str ''  2026'')"
  using show_num_decimal[of 6 "0x20" 2026] by (simp add: decimal.simps digit_char_def str_def replicate_two)

text \<open>
  With more places the powers of ten wrap around: in 11 places two thousand million is shown with a
  wrong digit in front, and from 33 places on the first power is zero and the division fails.
\<close>

theorem show_num_wraps:
  "num_loop 0x20 2000000000 11 0 False = Some (str ''12000000000'') \<and> (32 < len \<and> len < 256 \<longrightarrow> num_loop pad num len 0 False = None)"
proof (intro conjI impI)
  have p: "LCD_Pow 10 (of_nat (11 - 0 - 1)) = 1410065408" by (simp add: LCD_Pow_def pow_loop_eq)
  have dg: "digits 10 2000000000 = [2, 0, 0, 0, 0, 0, 0, 0, 0, 0]" using decimal_digits[of 9 2000000000] by (simp add: decimal.simps)
  have d: "num_loop 0x20 2000000000 11 1 True = Some (str ''2000000000'')"
    using num_loop_shown[of 1 11 "0x20" 2000000000] by (simp add: dg digit_char_def str_def)
  show "num_loop 0x20 2000000000 11 0 False = Some (str ''12000000000'')"
    unfolding num_loop.simps[of _ _ 11 0] p Let_def using d by (simp add: str_def)
qed (simp add: num_loop_no_power)

theorem show_num_wraps_witness: "num_loop 0x20 7 40 0 False = None"
  using show_num_wraps[of 40 "0x20" 7] by simp

text \<open>
  \<^verbatim>\<open>LCD_ShowString\<close> sets text line by line: in an area that does not wrap around and starts left of column 256, the
  \<open>i\<close>-th character stands in column \<open>i mod per\<close> of line \<open>i div per\<close>, and the text is cut after the last line.
\<close>

theorem show_string_correct:
  assumes "text_area x y width height sz cw per rows" "list_all printable cs" "\<not> printable stop"
  shows "show_string_cells x y width height sz (cs @ stop # rest) =
    Some (map (\<lambda>i. (x + of_nat (cw * (i mod per)), y + of_nat (unat sz * (i div per)), cs ! i)) [0..<min (length cs) (per * rows)])"
  using show_string_layout[OF assms] by (simp add: place_def cell_at_def)

theorem show_string_correct_witness:
  "show_string_cells 40 150 24 48 24 (str ''name'' @ [0]) = Some [(40, 150, 110), (52, 150, 97), (40, 174, 109), (52, 174, 101)]"
  using show_string_correct[of 40 150 24 48 24 12 2 2 "str ''name''" 0 "[]"]
  by (simp add: text_area_def printable_def str_def upt_rec)

text \<open>
  The left edge is kept in 8 bits: a text that starts at column 256 or further right continues its second
  line at the column modulo 256, outside of its area.
\<close>

theorem show_string_second_line:
  assumes "256 \<le> unat x" "unat x < 65500"
  shows "show_string_cells x 0 12 48 24 (str ''AB'' @ [0]) = Some [(x, 0, 65), (of_nat (unat x mod 256), 24, 66)] \<and>
    unat (of_nat (unat x mod 256) :: u16) < unat x"
proof -
  have u: "ucast (ucast x :: u8) = (of_nat (unat x mod 256) :: u16)"
    by (simp add: word_unat_eq_iff unsigned_ucast_eq unsigned_take_bit_eq unat_of_nat take_bit_nat_def)
  have "unat (12 + x) = unat x + 12" "unat (x + 12) = unat x + 12" using assms by (simp_all add: unat_word_ariths)
  then have w: "\<not> 12 + x \<le> x" "12 + x \<le> x + 12" unfolding word_le_nat_alt by simp_all
  show ?thesis using w assms by (simp add: show_string_cells_def str_def u unat_of_nat take_bit_nat_def)
qed

theorem show_string_second_line_witness:
  "show_string_cells 300 0 12 48 24 (str ''AB'' @ [0]) = Some [(300, 0, 65), (44, 24, 66)]"
  using show_string_second_line[of 300] by simp

text \<open>
  \<^verbatim>\<open>lcd_fill_array\<close> on an area that ends before row 65535 and is narrower than the whole range writes the rows of
  the array one after the other, each behind its cursor position; up to row 65535 its row counter never
  passes the end and it does not return.
\<close>

theorem fill_array_rows:
  assumes "x_start \<le> x_end" "w = unat x_end - unat x_start + 1" "w < 65536" "unat y_start + n = unat y_end + 1" "unat y_end < 65535"
    "n * w \<le> length px"
  shows "lcd_fill_array dev x_start y_start x_end y_end px = Some (concat (map (\<lambda>j. LCD_SetCursor dev x_start (y_start + of_nat j) @
      [REG (lcd_wramcmd dev)] @ map RAM (take w (drop (j * w) px))) [0..<n])) \<and> lcd_fill_array dev x_start y_start x_end 65535 px = None"
proof
  show "lcd_fill_array dev x_start y_start x_end y_end px = Some (concat (map (\<lambda>j. LCD_SetCursor dev x_start (y_start + of_nat j) @
      [REG (lcd_wramcmd dev)] @ map RAM (take w (drop (j * w) px))) [0..<n]))"
    using fill_rows_ok[OF assms(1-5), of 0 px dev] assms(6) by (simp add: lcd_fill_array_def)
  have e: "(65535 :: u16) = - 1" by simp
  show "lcd_fill_array dev x_start y_start x_end 65535 px = None"
    unfolding lcd_fill_array_def e using fill_rows_end[of dev x_start x_end "- 1" y_start px]
    by (cases "fill_rows dev x_start x_end (- 1) y_start px") auto
qed

theorem fill_array_rows_witness:
  "lcd_fill_array lcd_480 10 20 11 21 [1, 2, 3, 4] \<noteq> None \<and> lcd_fill_array lcd_480 10 20 11 65535 [1, 2, 3, 4] = None"
proof -
  have p: "(10 :: u16) \<le> 11" "2 = unat (11 :: u16) - unat (10 :: u16) + 1" "2 < (65536 :: nat)"
    "unat (20 :: u16) + 2 = unat (21 :: u16) + 1" "unat (21 :: u16) < 65535" "2 * 2 \<le> length [1, 2, 3, 4 :: u16]" by simp_all
  note h = fill_array_rows[OF p, of lcd_480]
  show ?thesis unfolding conjunct1[OF h] conjunct2[OF h] by blast
qed

text \<open>
  \<^verbatim>\<open>LCD_ReadPoint\<close> puts a colour together again from the two words in which the controllers 9341, 5310 and 5510
  return it; outside of the display it returns 0 without any access.
\<close>

theorem read_point_back:
  assumes "lcd_id dev \<noteq> 0x1963" "rd 1 = rg_word c" "rd 2 = b_word c"
  shows "snd (LCD_ReadPoint dev rd x y) = (if x < uint (lcd_width dev) \<and> y < uint (lcd_height dev) then c else 0) \<and>
    (\<not> (x < uint (lcd_width dev) \<and> y < uint (lcd_height dev)) \<longrightarrow> fst (LCD_ReadPoint dev rd x y) = [])"
  using assms read_back[of c] by (auto simp: LCD_ReadPoint_def Let_def)

theorem read_point_back_witness: "snd (LCD_ReadPoint lcd_480 (\<lambda>i. if i = 1 then rg_word 0xF81F else b_word 0xF81F) 5 6) = 0xF81F"
  using read_point_back[of lcd_480 "\<lambda>i. if i = 1 then rg_word 0xF81F else b_word 0xF81F" "0xF81F" 5 6] by (simp add: lcd_480_def)

text \<open>
  The controller 7789 is found by the search but unknown to the drawing functions: no address is ever sent
  to it, and choosing the orientation does not set its commands.
\<close>

theorem st7789_not_addressed:
  assumes "lcd_id dev = lcd_read_id rd" "id_of (rd 0xD3 2) (rd 0xD3 3) \<noteq> 0x9341" "id_of (rd 0x04 2) (rd 0x04 3) = 0x8552"
  shows "lcd_id dev = 0x7789 \<and> LCD_SetCursor dev xpos ypos = [] \<and> LCD_Fast_DrawPoint dev color x y = [REG (lcd_wramcmd dev), RAM color] \<and>
    lcd_wramcmd (snd (LCD_Display_Dir dir dev)) = lcd_wramcmd dev"
proof -
  have "lcd_id dev = 0x7789" using assms by (simp add: lcd_read_id_def)
  then show ?thesis by (simp add: LCD_SetCursor_def LCD_Fast_DrawPoint_def LCD_Display_Dir_def LCD_Scan_Dir_def lcd_area_def Let_def)
qed

theorem st7789_not_addressed_witness:
  "LCD_SetCursor (lcd_480\<lparr>lcd_id := 0x7789\<rparr>) 3 4 = []"
  using st7789_not_addressed[of "lcd_480\<lparr>lcd_id := 0x7789\<rparr>" "\<lambda>r i. if r = 4 then (if i = 2 then 0x85 else 0x52) else 0" 3 4]
  by (simp add: lcd_read_id_def id_of_def)

end
