(* ===== verification/ThreadLife.thy ===== *)
theory ThreadLife
  imports Mutex
begin

text \<open>
  The end of a thread: creation on the heap, detaching, deleting and controlling threads
  (\<^verbatim>\<open>src/thread.c\<close>), and the idle thread, which runs the idle hooks and releases closed threads
  (\<^verbatim>\<open>src/idle.c\<close>). Whether a thread is a static object is the argument \<open>static\<close>, the flag of its object.
\<close>

section \<open>Threads\<close>

text \<open>
  \<open>obj\<close> and \<open>stack\<close> are the results of the two allocations. When the second fails, the first object is
  deleted and the state is as before.
\<close>

definition rt_thread_create :: "tid option \<Rightarrow> bool \<Rightarrow> nat \<Rightarrow> u32 \<Rightarrow> kernel \<Rightarrow> (tid option \<times> kernel) option" where
  "rt_thread_create obj stack priority tick k =
     (if tick = 0 then None
      else case obj of
        None \<Rightarrow> Some (None, k)
      | Some t \<Rightarrow> if \<not> stack then Some (None, k) else do { k1 \<leftarrow> thread_init t priority tick k; Some (Some t, k1) })"

text \<open>
  The loop over the taken mutexes keeps the next node before it releases one; a release takes only that
  mutex off the list. The results of the releases are ignored.
\<close>

fun release_taken :: "nat list \<Rightarrow> kernel \<Rightarrow> kernel option" where
  "release_taken [] k = Some k"
| "release_taken (m # ms) k = do { (_, k1) \<leftarrow> rt_mutex_release m k; release_taken ms k1 }"

definition thread_detach_from_mutex :: "tid \<Rightarrow> kernel \<Rightarrow> kernel option" where
  "thread_detach_from_mutex t k = do {
     k1 \<leftarrow> (case th_pending (k_thread k t) of
        Some (Mutex_object m) \<Rightarrow> do { k' \<leftarrow> rt_mutex_drop_thread m t k; Some (set_pending t None k') }
      | _ \<Rightarrow> Some k);
     release_taken (th_taken (k_thread k1 t)) k1
   }"

definition thread_detach :: "tid \<Rightarrow> kernel \<Rightarrow> (rt_err_t \<times> kernel) option" where
  "thread_detach t k = do {
     let (critical_level, k1) = rt_enter_critical k;
     let thread_status = rt_sched_thread_get_stat t k1;
     k2 \<leftarrow> (if thread_status \<noteq> RT_THREAD_CLOSE
           then do {
             let k3 = (if thread_status \<noteq> RT_THREAD_INIT then rt_sched_remove_thread t k1 else k1);
             let k4 = snd (rt_timer_detach (Thread_timer t) k3);
             let k5 = rt_sched_thread_close t k4;
             k6 \<leftarrow> thread_detach_from_mutex t k5;
             Some (rt_thread_defunct_enqueue t k6)
           }
           else Some k1);
     k7 \<leftarrow> rt_exit_critical_safe critical_level k2;
     Some (RT_EOK, k7)
   }"

text \<open>\<open>None\<close> is the failed assertion on the kind of object.\<close>

definition rt_thread_detach :: "(tid \<Rightarrow> bool) \<Rightarrow> tid \<Rightarrow> kernel \<Rightarrow> (rt_err_t \<times> kernel) option" where
  "rt_thread_detach static t k = (if static t then thread_detach t k else None)"

definition rt_thread_delete :: "(tid \<Rightarrow> bool) \<Rightarrow> tid \<Rightarrow> kernel \<Rightarrow> (rt_err_t \<times> kernel) option" where
  "rt_thread_delete static t k = (if static t then None else thread_detach t k)"

datatype thread_ctrl = CTRL_CHANGE_PRIORITY nat | CTRL_STARTUP | CTRL_CLOSE | CTRL_BIND_CPU nat | CTRL_OTHER int

definition rt_thread_control :: "(tid \<Rightarrow> bool) \<Rightarrow> tid \<Rightarrow> thread_ctrl \<Rightarrow> kernel \<Rightarrow> (rt_err_t \<times> kernel) option" where
  "rt_thread_control static t cmd k =
     (case cmd of
        CTRL_CHANGE_PRIORITY p \<Rightarrow> map_option (Pair RT_EOK) (rt_sched_thread_change_priority t p k)
      | CTRL_STARTUP \<Rightarrow> rt_thread_startup t k
      | CTRL_CLOSE \<Rightarrow> do {
          (err, k1) \<leftarrow> (if static t then rt_thread_detach static t k else rt_thread_delete static t k);
          Some (err, rt_schedule k1)
        }
      | CTRL_BIND_CPU _ \<Rightarrow> Some (- RT_EINVAL, k)
      | CTRL_OTHER _ \<Rightarrow> Some (RT_EOK, k))"

section \<open>The idle thread\<close>

text \<open>
  One clean-up of the idle thread. \<open>cleanup\<close> are the clean-up functions of the threads. The result lists the
  threads released, in order, with what happened to their object: static ones are detached, the others are
  deleted and their stacks freed. \<open>None\<close> is not to return.
\<close>

partial_function (option) rt_defunct_execute ::
    "(tid \<Rightarrow> bool) \<Rightarrow> (tid \<Rightarrow> (kernel \<Rightarrow> kernel) option) \<Rightarrow> kernel \<Rightarrow> ((tid \<times> bool) list \<times> kernel) option" where
  "rt_defunct_execute static cleanup k =
     (case rt_thread_defunct_dequeue k of
        (None, k1) \<Rightarrow> Some ([], k1)
      | (Some t, k1) \<Rightarrow> do {
          (log, k2) \<leftarrow> rt_defunct_execute static cleanup (case cleanup t of None \<Rightarrow> k1 | Some f \<Rightarrow> f k1);
          Some ((t, static t) # log, k2)
        })"

text \<open>The hooks of the idle thread: four places for functions, \<open>None\<close> is the null pointer.\<close>

type_synonym 'h idle_hooks = "'h option list"

fun hook_put :: "'h option \<Rightarrow> 'h option \<Rightarrow> 'h idle_hooks \<Rightarrow> 'h idle_hooks option" where
  "hook_put old new [] = None"
| "hook_put old new (h # hs) = (if h = old then Some (new # hs) else map_option (Cons h) (hook_put old new hs))"

definition rt_thread_idle_sethook :: "'h option \<Rightarrow> 'h idle_hooks \<Rightarrow> rt_err_t \<times> 'h idle_hooks" where
  "rt_thread_idle_sethook hook hs = (case hook_put None hook hs of None \<Rightarrow> (- RT_EFULL, hs) | Some hs' \<Rightarrow> (RT_EOK, hs'))"

definition rt_thread_idle_delhook :: "'h option \<Rightarrow> 'h idle_hooks \<Rightarrow> rt_err_t \<times> 'h idle_hooks" where
  "rt_thread_idle_delhook hook hs = (case hook_put hook None hs of None \<Rightarrow> (- RT_ENOSYS, hs) | Some hs' \<Rightarrow> (RT_EOK, hs'))"

text \<open>One round of the idle thread: the hooks in order, then the clean-up.\<close>

definition run_hooks :: "('h \<Rightarrow> kernel \<Rightarrow> kernel) \<Rightarrow> 'h idle_hooks \<Rightarrow> kernel \<Rightarrow> kernel" where
  "run_hooks run hs k = fold (\<lambda>h k. case h of None \<Rightarrow> k | Some f \<Rightarrow> run f k) hs k"

definition idle_round ::
    "('h \<Rightarrow> kernel \<Rightarrow> kernel) \<Rightarrow> (tid \<Rightarrow> bool) \<Rightarrow> (tid \<Rightarrow> (kernel \<Rightarrow> kernel) option) \<Rightarrow> 'h idle_hooks \<Rightarrow> kernel \<Rightarrow>
     ((tid \<times> bool) list \<times> kernel) option" where
  "idle_round run static cleanup hs k = rt_defunct_execute static cleanup (run_hooks run hs k)"

text \<open>The idle thread has the lowest priority; \<open>idle\<close> is its thread object.\<close>

definition rt_thread_idle_init :: "tid \<Rightarrow> kernel \<Rightarrow> kernel option" where
  "rt_thread_idle_init idle k = do {
     k1 \<leftarrow> rt_thread_init idle (RT_THREAD_PRIORITY_MAX - 1) 32 k;
     (_, k2) \<leftarrow> rt_thread_startup idle k1;
     Some k2
   }"

section \<open>Rescheduling leaves a closed thread alone\<close>

lemma schedule_ready_outcomes:
  assumes "sched_inv k" "k_current k = Some cur"
  shows "rt_schedule k = k \<or> rt_schedule k = mark_stat RT_THREAD_RUNNING cur (rt_sched_remove_thread cur k) \<or>
    (\<exists>p ins u. rt_schedule k = switch_to cur p ins u k \<and> stat_of (k_thread k u) = RT_THREAD_READY)"
proof (cases "k_lock_nest k = 0 \<and> k_ready_group k \<noteq> 0")
  case True
  have "lists_inv k" using assms(1) by (simp add: sched_inv_def)
  then obtain u p where "scheduler_get_highest_priority_thread k = (u, p)" "stat_of (k_thread k u) = RT_THREAD_READY"
    using highest_ready True by blast
  then show ?thesis using True assms(2) by (auto simp: rt_schedule_def Let_def)
next
  case False
  then have "rt_schedule k = k" using assms(2) by (auto simp: rt_schedule_def)
  then show ?thesis by blast
qed

lemma defunct_simps [simp]:
  "k_defunct (mark_stat s t k) = k_defunct k" "k_defunct (thread_upd t f k) = k_defunct k"
  "k_defunct (rt_sched_remove_thread t k) = removeAll t (k_defunct k)"
  "k_defunct (rt_sched_insert_thread t k) = k_defunct k"
  by (simp_all add: mark_stat_def thread_upd_def rt_sched_remove_thread_def rt_sched_insert_thread_def node_remove_def
      queue_defs Let_def)

lemma switch_to_other:
  "t \<noteq> u \<Longrightarrow> t \<noteq> c \<Longrightarrow> k_thread (switch_to c p ins u k) t = k_thread k t"
  "k_current (switch_to c p ins u k) = Some u"
  "t \<noteq> u \<Longrightarrow> t \<in> set (k_defunct k) \<Longrightarrow> t \<in> set (k_defunct (switch_to c p ins u k))"
  by (simp_all add: switch_to_def Let_def)

lemma schedule_closed:
  assumes "sched_inv k" "k_current k = Some c" "c \<noteq> t" "stat_of (k_thread k t) = RT_THREAD_CLOSE"
  shows "k_thread (rt_schedule k) t = k_thread k t" "k_current (rt_schedule k) \<noteq> Some t"
    "t \<in> set (k_defunct k) \<Longrightarrow> t \<in> set (k_defunct (rt_schedule k))"
proof -
  have ne: "t \<noteq> u" if "stat_of (k_thread k u) = RT_THREAD_READY" for u using that assms(4) by auto
  have "k_thread (rt_schedule k) t = k_thread k t \<and> k_current (rt_schedule k) \<noteq> Some t \<and>
    (t \<in> set (k_defunct k) \<longrightarrow> t \<in> set (k_defunct (rt_schedule k)))"
    using schedule_ready_outcomes[OF assms(1,2)]
  proof (elim disjE exE conjE)
    assume e: "rt_schedule k = k"
    show ?thesis unfolding e using assms(2,3) by simp
  next
    assume e: "rt_schedule k = mark_stat RT_THREAD_RUNNING c (rt_sched_remove_thread c k)"
    show ?thesis unfolding e using assms(2,3) by simp
  next
    fix p ins u
    assume e: "rt_schedule k = switch_to c p ins u k" and r: "stat_of (k_thread k u) = RT_THREAD_READY"
    show ?thesis unfolding e using ne[OF r] assms(3) by (simp add: switch_to_other)
  qed
  then show "k_thread (rt_schedule k) t = k_thread k t" "k_current (rt_schedule k) \<noteq> Some t"
    "t \<in> set (k_defunct k) \<Longrightarrow> t \<in> set (k_defunct (rt_schedule k))" by blast+
qed

section \<open>Closing another thread\<close>

text \<open>The state of a thread that is being detached, before its mutexes are looked at.\<close>

definition detach_state :: "tid \<Rightarrow> kernel \<Rightarrow> kernel" where
  "detach_state t k = rt_sched_thread_close t (snd (rt_timer_detach (Thread_timer t)
     (if stat_of (k_thread k t) \<noteq> RT_THREAD_INIT then rt_sched_remove_thread t k else k)))"

lemma detach_state_frame [simp]:
  "k_current (detach_state t k) = k_current k" "k_lock_nest (detach_state t k) = k_lock_nest k" "k_mutex (detach_state t k) = k_mutex k"
  "k_int_nest (detach_state t k) = k_int_nest k"
  "k_thread (detach_state t k) = (k_thread k)(t := (k_thread k t)\<lparr>th_stat := RT_THREAD_CLOSE\<rparr>)"
  "\<not> tm_has RT_TIMER_FLAG_ACTIVATED (k_timer (detach_state t k) (Thread_timer t))"
  by (simp_all add: detach_state_def rt_sched_thread_close_def set_stat_def rt_timer_detach_def timer_upd_def timer_remove_def thread_upd_def)

lemma detach_state_inv:
  assumes "sched_inv k" "k_current k \<noteq> Some t" "stat_of (k_thread k t) \<noteq> RT_THREAD_INIT \<longrightarrow> prio_ok (k_thread k t)"
  shows "sched_inv (rt_thread_defunct_enqueue t (detach_state t k))" "t \<notin> set (k_queue (detach_state t k) q)"
proof -
  have l: "lists_inv k" and c: "cur_ok k" using assms(1) by (auto simp: sched_inv_def)
  let ?k = "if stat_of (k_thread k t) \<noteq> RT_THREAD_INIT then rt_sched_remove_thread t k else k"
  have "off_inv t ?k"
  proof (cases "stat_of (k_thread k t) = RT_THREAD_INIT")
    case True
    then have "t \<notin> set (k_queue k q)" for q
      using lists_invD(1,2)[OF l, of t] by (cases "\<exists>p. q = ReadyQ p") (fastforce simp: suspended_iff)+
    then show ?thesis using True l by (simp add: lists_inv_off_inv)
  next
    case False
    then show ?thesis using remove_off_inv[OF l] assms(3) by simp
  qed
  then have off: "off_inv t (detach_state t k)"
    by (simp add: detach_state_def off_inv_def queues_ok_def group_ok_def thread_ok_def rt_sched_thread_close_def
        set_stat_def rt_timer_detach_def timer_upd_def timer_remove_def thread_upd_def split del: if_split)
  then show "t \<notin> set (k_queue (detach_state t k) q)" by (simp add: off_inv_def)
  have "lists_inv (detach_state t k)" using off by (rule off_inv_lists_inv) (simp add: stat_of_def)
  moreover have "cur_ok (detach_state t k)" using c assms(2) by (auto simp: cur_ok_def)
  ultimately have "sched_inv (detach_state t k)" by (simp add: sched_inv_def)
  then show "sched_inv (rt_thread_defunct_enqueue t (detach_state t k))"
    by (simp add: sched_inv_def lists_inv_def queues_ok_def group_ok_def thread_ok_def cur_ok_def rt_thread_defunct_enqueue_def)
qed

text \<open>A mutex of another thread is not released.\<close>

lemma release_other:
  assumes "in_thread_context k" "k_current k = Some c" "mx_owner (k_mutex k m) \<noteq> Some c" "0 < k_lock_nest k"
  shows "rt_mutex_release m k = Some (- RT_ERROR, set_error (- RT_ERROR) c k)"
  using assms by (simp add: rt_mutex_release_def rt_thread_self_def rt_spin_lock_def rt_spin_unlock_def rt_enter_critical_def
      rt_exit_critical_def Let_def set_error_def thread_upd_def)

lemma release_taken_other:
  "in_thread_context k \<Longrightarrow> k_current k = Some c \<Longrightarrow> (\<And>m. m \<in> set ms \<Longrightarrow> mx_owner (k_mutex k m) \<noteq> Some c) \<Longrightarrow> 0 < k_lock_nest k \<Longrightarrow>
   release_taken ms k = Some (if ms = [] then k else set_error (- RT_ERROR) c k)"
proof (induction ms arbitrary: k)
  case (Cons m ms)
  let ?k = "set_error (- RT_ERROR) c k"
  have f: "in_thread_context ?k = in_thread_context k" "k_current ?k = k_current k" "k_mutex ?k = k_mutex k" "k_lock_nest ?k = k_lock_nest k"
    "set_error (- RT_ERROR) c ?k = ?k"
    by (simp_all add: set_error_def thread_upd_def in_thread_context_def not_in_interrupt_def)
  have "rt_mutex_release m k = Some (- RT_ERROR, ?k)" using Cons.prems by (intro release_other) auto
  moreover have "release_taken ms ?k = Some (if ms = [] then ?k else set_error (- RT_ERROR) c ?k)"
    using Cons.prems by (intro Cons.IH) (auto simp: f)
  ultimately show ?case by (simp add: f(5))
qed simp

lemma detach_other:
  assumes "sched_inv k" "k_current k = Some c" "c \<noteq> t" "k_lock_nest k = 0" "k_int_nest k = 0"
    and "stat_of (k_thread k t) \<noteq> RT_THREAD_CLOSE" "stat_of (k_thread k t) \<noteq> RT_THREAD_INIT \<longrightarrow> prio_ok (k_thread k t)"
    and "\<forall>m. th_pending (k_thread k t) \<noteq> Some (Mutex_object m)" "\<forall>m \<in> set (th_taken (k_thread k t)). mx_owner (k_mutex k m) = Some t"
  shows "\<exists>k'. thread_detach t k = Some (RT_EOK, k') \<and> sched_inv k' \<and> stat_of (k_thread k' t) = RT_THREAD_CLOSE \<and>
    (\<forall>q. t \<notin> set (k_queue k' q)) \<and> \<not> tm_has RT_TIMER_FLAG_ACTIVATED (k_timer k' (Thread_timer t)) \<and>
    t \<in> set (k_defunct k') \<and> k_current k' \<noteq> Some t \<and> k_mutex k' = k_mutex k"
proof -
  define k1 where "k1 = k\<lparr>k_lock_nest := 1\<rparr>"
  define k5 where "k5 = detach_state t k1"
  let ?ms = "th_taken (k_thread k t)"
  define k6 where "k6 = (if ?ms = [] then k5 else set_error (- RT_ERROR) c k5)"
  define k8 where "k8 = (rt_thread_defunct_enqueue t k6)\<lparr>k_lock_nest := 0\<rparr>"
  have inv: "sched_inv (rt_thread_defunct_enqueue t k5)" "t \<notin> set (k_queue k5 q)" for q
    using detach_state_inv[of k1 t] assms(1-3,7) by (simp_all add: k1_def k5_def)
  have "release_taken ?ms k5 = Some k6"
    unfolding k6_def using assms by (intro release_taken_other) (auto simp: k5_def k1_def in_thread_context_def not_in_interrupt_def)
  then have "thread_detach_from_mutex t k5 = Some k6"
    using assms(8) by (simp add: thread_detach_from_mutex_def k5_def k1_def split: option.split rt_object_ref.split)
  moreover have "rt_exit_critical_safe 1 (rt_thread_defunct_enqueue t k6) = Some (rt_schedule k8)"
    using assms(2) by (simp add: rt_exit_critical_safe_def rt_exit_critical_def Let_def k8_def k6_def k5_def k1_def
        rt_thread_defunct_enqueue_def set_error_def thread_upd_def)
  moreover have "rt_enter_critical k = (1, k1)" "(stat_of (k_thread k1 t) \<noteq> 1) = True"
    using assms(4,6) by (simp_all add: rt_enter_critical_def k1_def)
  ultimately have d: "thread_detach t k = Some (RT_EOK, rt_schedule k8)"
    by (simp only: thread_detach_def rt_sched_thread_get_stat_def Let_def case_prod_conv detach_state_def[symmetric]
        k5_def[symmetric] bind.bind_lunit if_True)
  have i8: "sched_inv k8"
  proof -
    have "k8 = (if ?ms = [] then rt_thread_defunct_enqueue t k5 else set_error (- RT_ERROR) c (rt_thread_defunct_enqueue t k5))\<lparr>k_lock_nest := 0\<rparr>"
      by (simp add: k8_def k6_def rt_thread_defunct_enqueue_def set_error_def thread_upd_def)
    then show ?thesis using inv(1) by simp
  qed
  have f8: "k_current k8 = Some c" "stat_of (k_thread k8 t) = RT_THREAD_CLOSE" "t \<in> set (k_defunct k8)" "k_mutex k8 = k_mutex k" "k_timer k8 = k_timer k5"
    using assms(2,3) by (simp_all add: k8_def k6_def k5_def k1_def rt_thread_defunct_enqueue_def set_error_def thread_upd_def stat_of_def)
  note sc = schedule_closed[OF i8 f8(1) assms(3) f8(2)]
  have s9: "sched_inv (rt_schedule k8)" using i8 by (rule schedule_inv)
  have st: "stat_of (k_thread (rt_schedule k8) t) = 1" using sc(1) f8(2) by simp
  have "t \<notin> set (k_queue (rt_schedule k8) q)" for q
    using lists_invD(1,2)[of "rt_schedule k8" t] s9 st
    by (cases "\<exists>p. q = ReadyQ p") (fastforce simp: sched_inv_def suspended_iff)+
  then show ?thesis using d s9 st sc f8 by (auto simp: k5_def)
qed

section \<open>The clean-up of the idle thread\<close>

lemma defunct_execute_all:
  "distinct (k_defunct k) \<Longrightarrow> (\<And>t. t \<in> set (k_defunct k) \<Longrightarrow> cleanup t = None) \<Longrightarrow>
   \<exists>k'. rt_defunct_execute static cleanup k = Some (map (\<lambda>t. (t, static t)) (k_defunct k), k') \<and> k_defunct k' = [] \<and>
     (\<forall>q. k_queue k' q = filter (\<lambda>t. t \<notin> set (k_defunct k)) (k_queue k q)) \<and> k_thread k' = k_thread k"
proof (induction "k_defunct k" arbitrary: k)
  case Nil
  then show ?case by (subst rt_defunct_execute.simps) (simp add: rt_thread_defunct_dequeue_def)
next
  case (Cons t ts)
  let ?k = "node_remove t k"
  have d: "rt_thread_defunct_dequeue k = (Some t, ?k)" by (simp add: rt_thread_defunct_dequeue_def flip: Cons.hyps(2))
  have "distinct (t # ts)" using Cons.prems(1) unfolding Cons.hyps(2)[symmetric] .
  then have df: "k_defunct ?k = ts" unfolding node_remove_def by (simp flip: Cons.hyps(2))
  have "\<exists>k'. rt_defunct_execute static cleanup ?k = Some (map (\<lambda>t. (t, static t)) (k_defunct ?k), k') \<and> k_defunct k' = [] \<and>
      (\<forall>q. k_queue k' q = filter (\<lambda>t. t \<notin> set (k_defunct ?k)) (k_queue ?k q)) \<and> k_thread k' = k_thread ?k"
    using Cons.prems Cons.hyps(2)[symmetric] df by (intro Cons.hyps(1)) auto
  then obtain k' where k': "rt_defunct_execute static cleanup ?k = Some (map (\<lambda>t. (t, static t)) ts, k')" "k_defunct k' = []"
      "\<And>q. k_queue k' q = filter (\<lambda>t. t \<notin> set ts) (k_queue ?k q)" "k_thread k' = k_thread k"
    unfolding df by (auto simp: node_remove_def)
  have c: "cleanup t = None" using Cons.prems(2)[of t] Cons.hyps(2)[symmetric] by simp
  have "rt_defunct_execute static cleanup k = Some (map (\<lambda>t. (t, static t)) (k_defunct k), k')"
    by (subst rt_defunct_execute.simps) (simp add: d c k'(1) Cons.hyps(2)[symmetric])
  moreover have "k_queue k' q = filter (\<lambda>t. t \<notin> set (k_defunct k)) (k_queue k q)" for q
    unfolding k'(3) Cons.hyps(2)[symmetric] by (auto simp: node_remove_def removeAll_filter_not_eq intro!: filter_cong)
  ultimately show ?case using k'(2,4) by blast
qed

section \<open>Idle hooks\<close>

lemma hook_put_None: "hook_put old new hs = None \<longleftrightarrow> old \<notin> set hs"
  by (induction hs) auto

lemma hook_put_split: "hook_put old new hs = Some hs' \<Longrightarrow> \<exists>as bs. hs = as @ old # bs \<and> old \<notin> set as \<and> hs' = as @ new # bs"
proof (induction hs arbitrary: hs')
  case (Cons h hs)
  show ?case
  proof (cases "h = old")
    case True
    then show ?thesis using Cons.prems by (intro exI[of _ "[]"] exI[of _ hs]) auto
  next
    case False
    then obtain hs1 where h: "hook_put old new hs = Some hs1" "hs' = h # hs1" using Cons.prems by auto
    obtain as bs where "hs = as @ old # bs" "old \<notin> set as" "hs1 = as @ new # bs" using Cons.IH[OF h(1)] by blast
    then show ?thesis using False h(2) by (intro exI[of _ "h # as"] exI[of _ bs]) auto
  qed
qed simp

section \<open>Properties\<close>

text \<open>
  C30. Deleting another thread: for every thread that is not closed and does not wait for a mutex, running from
  a thread outside of critical sections and interrupts, \<^verbatim>\<open>rt_thread_delete\<close> succeeds and keeps the invariant of the
  scheduler; the thread is closed, in no ready or wait list, its timer is stopped, and it is queued for the
  idle thread. The mutexes are as before.
\<close>

theorem delete_closes_thread:
  assumes "sched_inv k" "k_current k = Some c" "c \<noteq> t" "k_lock_nest k = 0" "k_int_nest k = 0"
    and "stat_of (k_thread k t) \<noteq> RT_THREAD_CLOSE" "stat_of (k_thread k t) \<noteq> RT_THREAD_INIT \<longrightarrow> prio_ok (k_thread k t)"
    and "\<forall>m. th_pending (k_thread k t) \<noteq> Some (Mutex_object m)" "\<forall>m \<in> set (th_taken (k_thread k t)). mx_owner (k_mutex k m) = Some t"
    and "\<not> static t"
  shows "\<exists>k'. rt_thread_delete static t k = Some (RT_EOK, k') \<and> sched_inv k' \<and> stat_of (k_thread k' t) = RT_THREAD_CLOSE \<and>
    (\<forall>q. t \<notin> set (k_queue k' q)) \<and> \<not> tm_has RT_TIMER_FLAG_ACTIVATED (k_timer k' (Thread_timer t)) \<and>
    t \<in> set (k_defunct k') \<and> k_current k' \<noteq> Some t \<and> k_mutex k' = k_mutex k"
  using detach_other[OF assms(1-9)] assms(10) by (simp add: rt_thread_delete_def)

lemma delete_example_facts:
  "prio_ok (k_thread mutex_example 3)" "stat_of (k_thread mutex_example 3) = 2" "th_taken (k_thread mutex_example 3) = []"
  "th_pending (k_thread mutex_example 3) = None"
  by (simp_all add: mutex_example_def mk_thread_def thread0_def stat_of_def prio_ok_def)

theorem delete_closes_thread_witness:
  "\<exists>k'. rt_thread_delete (\<lambda>_. False) 3 mutex_example = Some (RT_EOK, k') \<and> stat_of (k_thread k' 3) = RT_THREAD_CLOSE"
  using delete_closes_thread[of mutex_example 1 3 "\<lambda>_. False"] mutex_example_inv mutex_example_facts(1-3) delete_example_facts by auto

text \<open>
  A thread that is deleted by another one keeps its mutexes: \<^verbatim>\<open>_thread_detach_from_mutex\<close> calls \<^verbatim>\<open>rt_mutex_release\<close>, which only
  the owner may do, so the mutex stays owned by the closed thread for ever, and the deleting thread gets
  an error number.
\<close>

theorem delete_keeps_mutex:
  assumes "sched_inv k" "k_current k = Some c" "c \<noteq> t" "k_lock_nest k = 0" "k_int_nest k = 0"
    and "stat_of (k_thread k t) \<noteq> RT_THREAD_CLOSE" "stat_of (k_thread k t) \<noteq> RT_THREAD_INIT \<longrightarrow> prio_ok (k_thread k t)"
    and "\<forall>m. th_pending (k_thread k t) \<noteq> Some (Mutex_object m)" "\<forall>m \<in> set (th_taken (k_thread k t)). mx_owner (k_mutex k m) = Some t"
    and "m \<in> set (th_taken (k_thread k t))"
  shows "\<exists>k'. thread_detach t k = Some (RT_EOK, k') \<and> stat_of (k_thread k' t) = RT_THREAD_CLOSE \<and> mx_owner (k_mutex k' m) = Some t"
  using detach_other[OF assms(1-9)] assms(9,10) by auto

definition owner_example :: kernel where
  "owner_example = mutex_example\<lparr>
     k_thread := (k_thread mutex_example)(1 := mk_thread 3 10, 3 := (mk_thread 2 20)\<lparr>th_taken := [0]\<rparr>),
     k_mutex := (\<lambda>_. \<lparr>mx_ceiling_priority = 255, mx_priority = 12, mx_hold = 1, mx_owner = Some 3, mx_flag = RT_IPC_FLAG_PRIO\<rparr>)\<rparr>"

lemma owner_example_inv: "sched_inv owner_example"
proof -
  have "same_sched mutex_example owner_example"
    by (simp add: same_sched_def owner_example_def mutex_example_def mk_thread_def stat_of_def)
  then show ?thesis using mutex_example_inv sched_inv_same by blast
qed

theorem delete_keeps_mutex_witness:
  "\<exists>k'. thread_detach 3 owner_example = Some (RT_EOK, k') \<and> stat_of (k_thread k' 3) = RT_THREAD_CLOSE \<and> mx_owner (k_mutex k' 0) = Some 3"
proof -
  have "k_current owner_example = Some 1" "k_lock_nest owner_example = 0" "k_int_nest owner_example = 0"
    "stat_of (k_thread owner_example 3) = 2" "prio_ok (k_thread owner_example 3)" "th_pending (k_thread owner_example 3) = None"
    "th_taken (k_thread owner_example 3) = [0]" "mx_owner (k_mutex owner_example 0) = Some 3"
    by (simp_all add: owner_example_def mutex_example_def kernel0_def mk_thread_def thread0_def stat_of_def prio_ok_def)
  then show ?thesis using delete_keeps_mutex[of owner_example 1 3 0] owner_example_inv by auto
qed

text \<open>
  Detaching a thread that is closed already does nothing: called outside of critical sections it returns
  success and does what a reschedule does.
\<close>

theorem detach_closed_again:
  assumes "k_lock_nest k = 0" "k_current k = Some c" "stat_of (k_thread k t) = RT_THREAD_CLOSE"
  shows "thread_detach t k = Some (RT_EOK, rt_schedule k)"
proof -
  have "k\<lparr>k_lock_nest := k_lock_nest k\<rparr> = k" by simp
  then have "k\<lparr>k_lock_nest := 0\<rparr> = k" unfolding assms(1) .
  moreover have "thread_detach t k = Some (RT_EOK, rt_schedule (k\<lparr>k_lock_nest := 0\<rparr>))"
    using assms by (simp add: thread_detach_def rt_enter_critical_def rt_sched_thread_get_stat_def
        rt_exit_critical_safe_def rt_exit_critical_def Let_def)
  ultimately show ?thesis by simp
qed

theorem detach_closed_again_witness:
  "\<exists>k. stat_of (k_thread k 3) = RT_THREAD_CLOSE \<and> thread_detach 3 k = Some (RT_EOK, rt_schedule k)"
proof -
  let ?k = "thread_upd 3 (\<lambda>th. th\<lparr>th_stat := RT_THREAD_CLOSE\<rparr>) mutex_example"
  have "k_lock_nest ?k = 0" "k_current ?k = Some 1" "stat_of (k_thread ?k 3) = RT_THREAD_CLOSE"
    using mutex_example_facts by (simp_all add: stat_of_def)
  then show ?thesis using detach_closed_again[of ?k 1 3] by blast
qed

text \<open>
  C31. The idle thread releases every closed thread, once: if no clean-up function is set, one clean-up ends,
  empties the queue of closed threads and releases exactly its threads in order, detaching the static
  ones and deleting the others.
\<close>

theorem idle_releases_all:
  assumes "distinct (k_defunct k)" "\<forall>t \<in> set (k_defunct k). cleanup t = None"
  shows "\<exists>k'. rt_defunct_execute static cleanup k = Some (map (\<lambda>t. (t, static t)) (k_defunct k), k') \<and> k_defunct k' = [] \<and>
    (\<forall>q. k_queue k' q = filter (\<lambda>t. t \<notin> set (k_defunct k)) (k_queue k q)) \<and> k_thread k' = k_thread k"
  using defunct_execute_all[of k cleanup static] assms by blast

theorem idle_releases_all_witness:
  "\<exists>k'. rt_defunct_execute (\<lambda>t. t = 5) (\<lambda>_. None) (kernel0\<lparr>k_defunct := [4, 5]\<rparr>) = Some ([(4, False), (5, True)], k') \<and> k_defunct k' = []"
  using idle_releases_all[of "kernel0\<lparr>k_defunct := [4, 5]\<rparr>" "\<lambda>_. None" "\<lambda>t. t = 5"] by auto

text \<open>
  Setting an idle hook takes the first free place and fails only when there is none, and deleting it again
  restores the places if it was not set before.
\<close>

theorem idle_hook_roundtrip:
  assumes "Some h \<notin> set hs"
  shows "(None \<in> set hs \<longrightarrow> (\<exists>hs'. rt_thread_idle_sethook (Some h) hs = (RT_EOK, hs') \<and> length hs' = length hs \<and> Some h \<in> set hs' \<and>
      rt_thread_idle_delhook (Some h) hs' = (RT_EOK, hs))) \<and>
    (None \<notin> set hs \<longrightarrow> rt_thread_idle_sethook (Some h) hs = (- RT_EFULL, hs))"
proof (intro conjI impI)
  assume "None \<in> set hs"
  then obtain hs' where p: "hook_put None (Some h) hs = Some hs'" using hook_put_None[of None "Some h" hs] by auto
  then obtain as bs where e: "hs = as @ None # bs" "hs' = as @ Some h # bs" using hook_put_split by blast
  have "hook_put (Some h) None (as @ Some h # bs) = Some (as @ None # bs)"
    using assms unfolding e(1) by (induction as) auto
  then show "\<exists>hs'. rt_thread_idle_sethook (Some h) hs = (RT_EOK, hs') \<and> length hs' = length hs \<and> Some h \<in> set hs' \<and>
      rt_thread_idle_delhook (Some h) hs' = (RT_EOK, hs)"
    using p e by (intro exI[of _ hs']) (simp add: rt_thread_idle_sethook_def rt_thread_idle_delhook_def)
next
  assume "None \<notin> set hs"
  then show "rt_thread_idle_sethook (Some h) hs = (- RT_EFULL, hs)"
    using hook_put_None[of None "Some h" hs] by (simp add: rt_thread_idle_sethook_def)
qed

theorem idle_hook_roundtrip_witness:
  "\<exists>hs'. rt_thread_idle_sethook (Some 7) [Some (3 :: nat), None, None, None] = (RT_EOK, hs') \<and>
     rt_thread_idle_delhook (Some 7) hs' = (RT_EOK, [Some 3, None, None, None])"
  using idle_hook_roundtrip[of 7 "[Some (3 :: nat), None, None, None]"] by auto

end
