(* ===== verification/ObjectC.thy ===== *)
theory ObjectC
  imports KList KString
begin

text \<open>
  The object container (\<^verbatim>\<open>object.c\<close>): every kernel object has a name of eight bytes, a type with the
  static flag, and a list node through which it is linked into the list of its class. The lists are the
  pointers of \<^verbatim>\<open>rtservice.h\<close>; objects are given by their addresses, and the null pointer is address 0.
  A result \<open>None\<close> is a failed assertion, a read beyond the modelled bytes, or a loop that does not end.
  The locks make every access to a list atomic; the hooks are not set.
\<close>

section \<open>Data\<close>

definition RT_NAME_MAX :: nat where "RT_NAME_MAX = 8"

abbreviation (input) RT_Object_Class_Null :: u8 where "RT_Object_Class_Null \<equiv> 0"
abbreviation (input) RT_Object_Class_Device :: u8 where "RT_Object_Class_Device \<equiv> 9"
abbreviation (input) RT_Object_Class_Custom :: u8 where "RT_Object_Class_Custom \<equiv> 0x10"
abbreviation (input) RT_Object_Class_Static :: u8 where "RT_Object_Class_Static \<equiv> 0x80"

record rt_object =
  ob_name :: "u8 list"
  ob_type :: u8
  ob_flag :: u8

text \<open>The nodes of the lists: the heads in the table of classes, and the node of every object.\<close>

datatype onode = Info nat | Obj nat

text \<open>The fields of a custom object are its callback and its data.\<close>

record container =
  oc_obj :: "nat \<Rightarrow> rt_object"
  oc_node :: "onode rt_list"
  oc_custom :: "nat \<Rightarrow> nat option \<times> nat"
  oc_nest :: nat

text \<open>The types in the table \<^verbatim>\<open>_object_container\<close>, in its order, for the configured classes.\<close>

definition object_container :: "u8 list" where
  "object_container = [1, 2, 3, 4, 5, 6, 8, 9, 0xA, 0xC, 0x10]"

section \<open>Names\<close>

text \<open>
  \<^verbatim>\<open>rt_strncpy\<close> and \<^verbatim>\<open>rt_strncmp\<close> on the bytes from their arguments on; the lemmas below connect
  them with the functions on the memory.
\<close>

primrec strncpy_bytes :: "nat \<Rightarrow> u8 list \<Rightarrow> u8 list option" where
  "strncpy_bytes 0 src = Some []"
| "strncpy_bytes (Suc n) src =
     (case src of [] \<Rightarrow> None
      | c # cs \<Rightarrow> if c = 0 then Some (replicate (Suc n) 0) else map_option ((#) c) (strncpy_bytes n cs))"

primrec strncmp_bytes :: "nat \<Rightarrow> int \<Rightarrow> u8 list \<Rightarrow> u8 list \<Rightarrow> int option" where
  "strncmp_bytes 0 res xs ys = Some res"
| "strncmp_bytes (Suc n) res xs ys =
     (case xs of [] \<Rightarrow> None
      | b1 # xs' \<Rightarrow> (case ys of [] \<Rightarrow> None
         | b2 # ys' \<Rightarrow>
             let res = signed_char (uint b1 - uint b2)
             in if res \<noteq> 0 \<or> b1 = 0 then Some res else strncmp_bytes n res xs' ys'))"

section \<open>Operations\<close>

fun find_info :: "nat \<Rightarrow> u8 list \<Rightarrow> u8 \<Rightarrow> nat option" where
  "find_info index [] type = None"
| "find_info index (t # ts) type = (if t = type then Some index else find_info (index + 1) ts type)"

definition rt_object_get_information :: "u8 \<Rightarrow> nat option" where
  "rt_object_get_information type = find_info 0 object_container (type AND NOT RT_Object_Class_Static)"

primrec list_entry :: "onode \<Rightarrow> nat option" where
  "list_entry (Info i) = None"
| "list_entry (Obj a) = Some a"

partial_function (option) length_loop :: "onode rt_list \<Rightarrow> onode \<Rightarrow> onode \<Rightarrow> nat \<Rightarrow> nat option" where
  "length_loop h lh node count = (if node \<noteq> lh then length_loop h lh (li_next h node) (count + 1) else Some count)"

definition rt_object_get_length :: "u8 \<Rightarrow> container \<Rightarrow> nat option" where
  "rt_object_get_length type c =
     (case rt_object_get_information type of None \<Rightarrow> Some 0
      | Some i \<Rightarrow> length_loop (oc_node c) (Info i) (li_next (oc_node c) (Info i)) 0)"

text \<open>The pointers stored so far are in \<open>acc\<close>.\<close>

partial_function (option) pointers_loop :: "onode rt_list \<Rightarrow> onode \<Rightarrow> nat \<Rightarrow> onode \<Rightarrow> nat list \<Rightarrow> nat list option" where
  "pointers_loop h lh maxlen node acc =
     (if node \<noteq> lh then do {
        object \<leftarrow> list_entry node;
        let acc' = acc @ [object];
        if length acc' \<ge> maxlen then Some acc' else pointers_loop h lh maxlen (li_next h node) acc'
      } else Some acc)"

definition rt_object_get_pointers :: "u8 \<Rightarrow> int \<Rightarrow> container \<Rightarrow> nat list option" where
  "rt_object_get_pointers type maxlen c =
     (if maxlen \<le> 0 then Some []
      else case rt_object_get_information type of None \<Rightarrow> Some []
      | Some i \<Rightarrow> pointers_loop (oc_node c) (Info i) (nat maxlen) (li_next (oc_node c) (Info i)) [])"

text \<open>The check of \<^verbatim>\<open>rt_object_init\<close> that the object is not yet in the list.\<close>

partial_function (option) init_check :: "onode rt_list \<Rightarrow> onode \<Rightarrow> nat \<Rightarrow> onode \<Rightarrow> unit option" where
  "init_check h lh object node =
     (if node \<noteq> lh then do {
        obj \<leftarrow> list_entry node;
        if obj \<noteq> object then init_check h lh object (li_next h node) else None
      } else Some ())"

definition put_object :: "nat \<Rightarrow> rt_object \<Rightarrow> container \<Rightarrow> container" where
  "put_object a v c = c\<lparr>oc_obj := (oc_obj c)(a := v)\<rparr>"

definition rt_object_init :: "nat \<Rightarrow> u8 \<Rightarrow> u8 list \<Rightarrow> container \<Rightarrow> container option" where
  "rt_object_init object type name c = do {
     i \<leftarrow> rt_object_get_information type;
     _ \<leftarrow> init_check (oc_node c) (Info i) object (li_next (oc_node c) (Info i));
     bytes \<leftarrow> strncpy_bytes RT_NAME_MAX (name @ [0]);
     let v = (oc_obj c object)\<lparr>ob_type := type OR RT_Object_Class_Static, ob_name := bytes\<rparr>;
     Some ((put_object object v c)\<lparr>oc_node := rt_list_insert_after (Info i) (Obj object) (oc_node c)\<rparr>)
   }"

definition unlink_object :: "nat \<Rightarrow> container \<Rightarrow> container" where
  "unlink_object object c =
     (put_object object ((oc_obj c object)\<lparr>ob_type := RT_Object_Class_Null\<rparr>) c)
       \<lparr>oc_node := rt_list_remove (Obj object) (oc_node c)\<rparr>"

definition rt_object_detach :: "nat \<Rightarrow> container \<Rightarrow> container option" where
  "rt_object_detach object c =
     (if object = 0 then None
      else do { _ \<leftarrow> rt_object_get_information (ob_type (oc_obj c object)); Some (unlink_object object c) })"

text \<open>\<open>r\<close> is the address the heap returned.\<close>

definition rt_object_allocate :: "nat \<Rightarrow> u8 \<Rightarrow> u8 list \<Rightarrow> container \<Rightarrow> (nat \<times> container) option" where
  "rt_object_allocate r type name c =
     (if oc_nest c \<noteq> 0 then None
      else do {
        i \<leftarrow> rt_object_get_information type;
        if r = 0 then Some (0, c)
        else do {
          bytes \<leftarrow> strncpy_bytes (RT_NAME_MAX - 1) (name @ [0]);
          let v = \<lparr>ob_name = bytes @ drop (RT_NAME_MAX - 1) (replicate RT_NAME_MAX 0), ob_type = type, ob_flag = 0\<rparr>;
          Some (r, (put_object r v c)\<lparr>oc_custom := (oc_custom c)(r := (None, 0)),
                                      oc_node := rt_list_insert_after (Info i) (Obj r) (oc_node c)\<rparr>)
        }
      })"

text \<open>The second result is the address given back to the heap.\<close>

definition rt_object_delete :: "nat \<Rightarrow> container \<Rightarrow> (container \<times> nat) option" where
  "rt_object_delete object c =
     (if object = 0 \<or> ob_type (oc_obj c object) AND RT_Object_Class_Static \<noteq> 0 then None
      else do {
        _ \<leftarrow> rt_object_get_information (ob_type (oc_obj c object));
        Some (unlink_object object c, object)
      })"

definition rt_object_is_systemobject :: "nat \<Rightarrow> container \<Rightarrow> bool option" where
  "rt_object_is_systemobject object c =
     (if object = 0 then None else Some (ob_type (oc_obj c object) AND RT_Object_Class_Static \<noteq> 0))"

definition rt_object_get_type :: "nat \<Rightarrow> container \<Rightarrow> u8 option" where
  "rt_object_get_type object c =
     (if object = 0 then None else Some (ob_type (oc_obj c object) AND NOT RT_Object_Class_Static))"

partial_function (option) find_loop :: "(nat \<Rightarrow> rt_object) \<Rightarrow> onode rt_list \<Rightarrow> onode \<Rightarrow> u8 list \<Rightarrow> onode \<Rightarrow> nat option" where
  "find_loop obj h lh name node =
     (if node \<noteq> lh then do {
        object \<leftarrow> list_entry node;
        r \<leftarrow> strncmp_bytes RT_NAME_MAX 0 (ob_name (obj object)) (name @ [0]);
        if r = 0 then Some object else find_loop obj h lh name (li_next h node)
      } else Some 0)"

text \<open>\<open>None\<close> as the name is the null pointer.\<close>

definition rt_object_find :: "u8 list option \<Rightarrow> u8 \<Rightarrow> container \<Rightarrow> nat option" where
  "rt_object_find name type c =
     (case (name, rt_object_get_information type) of
        (Some s, Some i) \<Rightarrow>
          if oc_nest c \<noteq> 0 then None
          else find_loop (oc_obj c) (oc_node c) (Info i) s (li_next (oc_node c) (Info i))
      | _ \<Rightarrow> Some 0)"

text \<open>
  After the name the object holds its type and its flag, then padding. \<open>buf\<close> says whether the buffer
  is given; the bytes written to it are the second result.
\<close>

definition rt_object_get_name :: "nat \<Rightarrow> bool \<Rightarrow> u8 \<Rightarrow> container \<Rightarrow> (rt_err_t \<times> u8 list) option" where
  "rt_object_get_name object buf name_size c =
     (if object \<noteq> 0 \<and> buf \<and> name_size \<noteq> 0
      then let v = oc_obj c object
           in map_option (Pair RT_EOK) (strncpy_bytes (unat name_size) (ob_name v @ [ob_type v, ob_flag v]))
      else Some (- RT_EINVAL, []))"

definition rt_custom_object_create :: "nat \<Rightarrow> u8 list \<Rightarrow> nat \<Rightarrow> nat option \<Rightarrow> container \<Rightarrow> (nat \<times> container) option" where
  "rt_custom_object_create r name data data_destroy c = do {
     (cobj, c1) \<leftarrow> rt_object_allocate r RT_Object_Class_Custom name c;
     Some (if cobj = 0 then (0, c1) else (cobj, c1\<lparr>oc_custom := (oc_custom c1)(cobj := (data_destroy, data))\<rparr>))
   }"

text \<open>\<open>call f d\<close> is the result of the callback \<open>f\<close> on the data \<open>d\<close>.\<close>

definition rt_custom_object_destroy :: "(nat \<Rightarrow> nat \<Rightarrow> rt_err_t) \<Rightarrow> nat \<Rightarrow> container \<Rightarrow> (rt_err_t \<times> container) option" where
  "rt_custom_object_destroy call obj c =
     (if obj \<noteq> 0 \<and> ob_type (oc_obj c obj) = RT_Object_Class_Custom
      then let ret = (case oc_custom c obj of (None, d) \<Rightarrow> - 1 | (Some f, d) \<Rightarrow> call f d)
           in map_option (\<lambda>(c1, _). (ret, c1)) (rt_object_delete obj c)
      else Some (- 1, c))"

section \<open>Names in memory\<close>

lemma strncpy_bytes_mem:
  "strncpy_bytes n src = Some ys \<Longrightarrow> bytes_at m s src \<Longrightarrow> mapped m d n \<Longrightarrow> d + n \<le> s \<or> s + length src \<le> d \<Longrightarrow>
   rt_strncpy_mem n d s m = Some (mem_put d ys m)"
proof (induction n arbitrary: src ys d s m)
  case (Suc n)
  have mp: "mapped (m(d \<mapsto> c)) (d + 1) n" for c using mapped_sub[OF Suc.prems(3), of "d + 1" n] by (intro mapped_upd) simp
  obtain c cs where s: "src = c # cs" using Suc.prems(1) by (cases src) auto
  show ?case
  proof (cases "c = 0")
    case True
    then have "ys = 0 # replicate n 0" using Suc.prems(1) s by simp
    then show ?thesis using True Suc.prems(2) s store_ok[OF Suc.prems(3), of d 0] fill_bytes_ok[OF mp, of 0]
      by (simp add: mem_put_replicate)
  next
    case False
    then obtain zs where z: "strncpy_bytes n cs = Some zs" "ys = c # zs" using Suc.prems(1) s by auto
    have "bytes_at (m(d \<mapsto> c)) (s + 1) cs" using Suc.prems(2,4) s
      by (subst bytes_at_outside[where m = m]) auto
    then have "rt_strncpy_mem n (d + 1) (s + 1) (m(d \<mapsto> c)) = Some (mem_put (d + 1) zs (m(d \<mapsto> c)))"
      by (rule Suc.IH[OF z(1) _ mp]) (use Suc.prems(4) s in auto)
    then show ?thesis using Suc.prems(2) s z(2) False store_ok[OF Suc.prems(3), of d c] by simp
  qed
qed simp

lemma strncmp_bytes_mem:
  "strncmp_bytes n r xs ys = Some v \<Longrightarrow> bytes_at m a xs \<Longrightarrow> bytes_at m b ys \<Longrightarrow> strncmp_loop n r a b m = Some v"
  by (induction n arbitrary: r xs ys a b) (auto simp: Let_def split: list.splits if_splits)

text \<open>The text of a field of bytes, up to the first zero.\<close>

definition text_of :: "u8 list \<Rightarrow> u8 list" where
  "text_of = takeWhile (\<lambda>x. x \<noteq> 0)"

lemma text_of_simps [simp]: "text_of [] = []" "text_of (x # xs) = (if x = 0 then [] else x # text_of xs)"
  by (simp_all add: text_of_def)

lemma text_of_zeros [simp]: "text_of (xs @ replicate n 0) = text_of xs" "text_of (replicate n 0) = []"
  by (induction xs) (simp_all add: text_of_def takeWhile_replicate)

lemma text_of_id: "0 \<notin> set xs \<Longrightarrow> text_of xs = xs"
  by (induction xs) auto

lemma strncpy_bytes_string:
  "\<exists>ys. strncpy_bytes n (s @ [0]) = Some ys \<and> length ys = n \<and> text_of ys = take n (text_of s)"
proof (induction n arbitrary: s)
  case (Suc n)
  show ?case
  proof (cases s)
    case (Cons a t)
    obtain ys where "strncpy_bytes n (t @ [0]) = Some ys" "length ys = n" "text_of ys = take n (text_of t)"
      using Suc.IH[of t] by blast
    then show ?thesis using Cons by (cases "a = 0") simp_all
  qed simp
qed simp

lemma signed_char_zero: "signed_char (uint (x :: u8) - uint y) = 0 \<longleftrightarrow> x = y"
proof
  assume "signed_char (uint x - uint y) = 0"
  then have "(uint x - uint y + 128) mod 256 = 128 mod 256" by (simp add: signed_char_def)
  then have "256 dvd uint x - uint y" by (simp only: mod_eq_dvd_iff) simp
  moreover have "uint x < 256" "uint y < 256" using uint_bounded[of x] uint_bounded[of y] by simp_all
  then have "\<bar>uint x - uint y\<bar> < 256" using uint_nonnegative[of x] uint_nonnegative[of y] by linarith
  ultimately have "uint x - uint y = 0" using dvd_imp_le_int[of "uint x - uint y" 256] by linarith
  then show "x = y" by (simp add: word_uint_eq_iff)
qed (simp add: signed_char_def)

lemma strncmp_bytes_string:
  "length xs = n \<Longrightarrow> \<exists>r. strncmp_bytes n 0 xs (s @ [0]) = Some r \<and> (r = 0 \<longleftrightarrow> text_of xs = take n (text_of s))"
proof (induction n arbitrary: xs s)
  case (Suc n)
  then obtain x xs' where x: "xs = x # xs'" "length xs' = n" by (cases xs) auto
  obtain y ys where y: "s @ [0] = y # ys" by (cases s) auto
  show ?case
  proof (cases "x = y \<and> x \<noteq> 0")
    case True
    then obtain s' where "s = y # s'" using y by (cases s) auto
    then show ?thesis using Suc.IH[OF x(2), of s'] x True signed_char_zero[of y y] by simp
  next
    case False
    have "text_of s = (if y = 0 then [] else y # text_of (butlast ys))" using y by (cases s) auto
    then show ?thesis using x y False signed_char_zero[of x y] by auto
  qed
qed simp

section \<open>The lists of the classes\<close>

lemma find_info_Some:
  "distinct ts \<Longrightarrow> find_info k ts t = Some i \<longleftrightarrow> k \<le> i \<and> i < k + length ts \<and> ts ! (i - k) = t"
proof (induction k ts t rule: find_info.induct)
  case (2 index t ts type)
  have nt: "ts ! j \<noteq> t" if "j < length ts" for j using that 2(2) by (auto simp: in_set_conv_nth)
  consider "i < index" | "i = index" | j where "i = Suc (index + j)" by (metis less_imp_Suc_add linorder_neqE_nat)
  then show ?case
  proof cases
    case 3
    then have "i - index = Suc j" "i - (index + 1) = j" by simp_all
    then show ?thesis using 2 nt[of j] 3 by auto
  qed (use 2 in auto)
qed simp

lemma container_distinct: "distinct object_container"
  by (simp add: object_container_def)

lemma get_information_Some:
  "rt_object_get_information t = Some i \<longleftrightarrow> i < length object_container \<and> object_container ! i = t AND NOT 0x80"
  by (simp add: rt_object_get_information_def find_info_Some[OF container_distinct])

lemma container_nonzero: "i < length object_container \<Longrightarrow> object_container ! i \<noteq> 0"
  using nth_mem[of i object_container] by (auto simp: object_container_def)

lemma container_inj: "i < length object_container \<Longrightarrow> j < length object_container \<Longrightarrow>
  object_container ! i = object_container ! j \<longleftrightarrow> i = j"
  using nth_eq_iff_index_eq[OF container_distinct] by blast

text \<open>The class of an object, without the static flag.\<close>

definition class_of :: "rt_object \<Rightarrow> u8" where
  "class_of v = ob_type v AND NOT 0x80"

lemma class_static: "(t OR 0x80) AND NOT 0x80 = (t AND NOT 0x80 :: u8)"
  by (rule bit_word_eqI) (auto simp: bit_simps)

lemmas class_static_simps [simp] = class_static class_static [simplified]

text \<open>
  The list of every class holds exactly the objects of that class, each once. An address that is no
  object has type 0, as static memory has before its first use and an object after it is detached.
\<close>

definition listed :: "container \<Rightarrow> (nat \<Rightarrow> nat list) \<Rightarrow> bool" where
  "listed c L \<longleftrightarrow> (\<forall>i < length object_container.
      seg (oc_node c) (Info i) (map Obj (L i)) (Info i) \<and> distinct (L i) \<and>
      (\<forall>a. a \<in> set (L i) \<longleftrightarrow> a \<noteq> 0 \<and> class_of (oc_obj c a) = object_container ! i) \<and>
      (\<forall>a \<in> set (L i). length (ob_name (oc_obj c a)) = RT_NAME_MAX))"

lemma listedD:
  assumes "listed c L" "i < length object_container"
  shows "seg (oc_node c) (Info i) (map Obj (L i)) (Info i)" "distinct (L i)"
    "a \<in> set (L i) \<longleftrightarrow> a \<noteq> 0 \<and> class_of (oc_obj c a) = object_container ! i"
    "a \<in> set (L i) \<Longrightarrow> length (ob_name (oc_obj c a)) = RT_NAME_MAX"
  using assms unfolding listed_def by blast+

lemma listed_cong: "oc_obj c' = oc_obj c \<Longrightarrow> oc_node c' = oc_node c \<Longrightarrow> listed c' L = listed c L"
  by (simp add: listed_def)

lemma class_not_listed:
  assumes "listed c L" "i < length object_container" "class_of (oc_obj c a) \<noteq> object_container ! i"
  shows "a \<notin> set (L i)"
  using listedD(3)[OF assms(1,2)] assms(3) by simp

lemma listed_link:
  assumes l: "listed c L" and i: "i < length object_container" and a: "a \<noteq> 0" "class_of (oc_obj c a) = 0"
    and v: "class_of v = object_container ! i" "length (ob_name v) = RT_NAME_MAX"
  shows "listed ((put_object a v c)\<lparr>oc_node := rt_list_insert_after (Info i) (Obj a) (oc_node c)\<rparr>) (L(i := a # L i))"
proof -
  let ?h = "oc_node c" and ?h' = "rt_list_insert_after (Info i) (Obj a) (oc_node c)"
  have na: "a \<notin> set (L j)" if "j < length object_container" for j
    using class_not_listed[OF l that] a(2) container_nonzero[OF that] by simp
  have s: "seg ?h (Info i) ([] @ map Obj (L i)) (Info i)" using listedD(1)[OF l i] by simp
  have x: "li_next ?h (Info i) = hd (map Obj (L i) @ [Info i])" using seg_next[OF s] by simp
  have "Obj a \<noteq> hd (map Obj (L i) @ [Info i])" using na[OF i] by (cases "L i") auto
  then have link: "linked (Info i) (Obj a) (hd (map Obj (L i) @ [Info i])) ?h ?h'"
    using insert_after_linked[of "Obj a" "Info i" ?h] x by simp
  have "seg ?h' (Info j) (map Obj ((L(i := a # L i)) j)) (Info j)" if j: "j < length object_container" for j
  proof (cases "j = i")
    case True
    have "seg ?h' (Info i) ([] @ Obj a # map Obj (L i)) (Info i)"
      by (rule seg_link[OF s]) (use link listedD(2)[OF l i] na[OF i] in \<open>auto simp: distinct_map inj_on_def\<close>)
    then show ?thesis using True by simp
  next
    case False
    have "y \<notin> {Info i, Obj a, hd (map Obj (L i) @ [Info i])}" if y: "y \<in> set (Info j # map Obj (L j))" for y
    proof -
      have "set (L j) \<inter> set (L i) = {}"
        using listedD(3)[OF l i] listedD(3)[OF l j] container_inj[OF i j] False by auto
      moreover have "L i \<noteq> [] \<Longrightarrow> hd (map Obj (L i) @ [Info i]) = Obj (hd (L i)) \<and> hd (L i) \<in> set (L i)"
        by (cases "L i") auto
      ultimately show ?thesis using y False na[OF j] by (cases "L i = []") auto
    qed
    then have "seg ?h' (Info j) (map Obj (L j)) (Info j) = seg ?h (Info j) (map Obj (L j)) (Info j)"
      using link by (intro seg_cong) (auto simp: linked_def)
    then show ?thesis using listedD(1)[OF l j] False by simp
  qed
  moreover have "distinct ((L(i := a # L i)) j)" if "j < length object_container" for j
    using listedD(2)[OF l that] na[OF that] by auto
  moreover have "b \<in> set ((L(i := a # L i)) j) \<longleftrightarrow> b \<noteq> 0 \<and> class_of (((oc_obj c)(a := v)) b) = object_container ! j"
    if j: "j < length object_container" for b j
    using listedD(3)[OF l j, of b] na[OF j] a(1) v(1) container_inj[OF i j] by auto
  moreover have "length (ob_name (((oc_obj c)(a := v)) b)) = RT_NAME_MAX"
    if "j < length object_container" "b \<in> set ((L(i := a # L i)) j)" for b j
    using that listedD(4)[OF l that(1), of b] v(2) by (auto split: if_splits)
  ultimately show ?thesis unfolding listed_def put_object_def by simp
qed

lemma listed_unlink:
  assumes l: "listed c L" and i: "i < length object_container" and a: "a \<in> set (L i)"
  shows "listed (unlink_object a c) (L(i := removeAll a (L i)))"
proof -
  let ?h = "oc_node c" and ?h' = "rt_list_remove (Obj a) (oc_node c)"
  obtain us vs where r: "L i = us @ a # vs" using a by (meson split_list)
  have s: "seg ?h (Info i) (map Obj us @ Obj a # map Obj vs) (Info i)" using listedD(1)[OF l i] r by simp
  have d: "distinct (us @ a # vs)" using listedD(2)[OF l i] r by simp
  have x: "li_next ?h (Obj a) = hd (map Obj vs @ [Info i])" "li_prev ?h (Obj a) = last (Info i # map Obj us)"
    using seg_next[of ?h "Info i" "map Obj us @ [Obj a]" "map Obj vs" "Info i"] seg_prev[OF s] s by auto
  have pt: "last (Info i # map Obj us) \<in> set (Info i # map Obj (L i))" "hd (map Obj vs @ [Info i]) \<in> set (Info i # map Obj (L i))"
    using r last_in_set[of "Info i # map Obj us"] by (cases vs; auto simp del: last.simps)+
  have ra: "removeAll a (L i) = us @ vs" using d r by simp
  have nj: "b \<notin> set (L i)" if "b \<in> set (L j)" "j < length object_container" "j \<noteq> i" for b j
    using that listedD(3)[OF l i, of b] listedD(3)[OF l that(2), of b] container_inj[OF i that(2)] by auto
  have "seg ?h' (Info j) (map Obj ((L(i := removeAll a (L i))) j)) (Info j)" if j: "j < length object_container" for j
  proof (cases "j = i")
    case True
    have "seg ?h' (Info i) (map Obj us @ map Obj vs) (Info i)"
      by (rule seg_unlink[OF s]) (use d in \<open>auto simp: distinct_map inj_on_def\<close>)
    then show ?thesis using True ra by simp
  next
    case False
    have "li_next ?h' y = li_next ?h y \<and> li_prev ?h' y = li_prev ?h y" if y: "y \<in> set (Info j # map Obj (L j))" for y
    proof (rule remove_other)
      have "y \<notin> set (Info i # map Obj (L i))" using y False nj[OF _ j False] by auto
      then show "y \<noteq> Obj a" "y \<noteq> li_next ?h (Obj a)" "y \<noteq> li_prev ?h (Obj a)" using pt a unfolding x by (auto simp del: last.simps)
    qed
    then have "seg ?h' (Info j) (map Obj (L j)) (Info j) = seg ?h (Info j) (map Obj (L j)) (Info j)"
      by (intro seg_cong) auto
    then show ?thesis using listedD(1)[OF l j] False by simp
  qed
  moreover have "distinct ((L(i := removeAll a (L i))) j)" if "j < length object_container" for j
    using listedD(2)[OF l that] by (auto simp: distinct_removeAll)
  moreover have "b \<in> set ((L(i := removeAll a (L i))) j) \<longleftrightarrow>
      b \<noteq> 0 \<and> class_of (((oc_obj c)(a := (oc_obj c a)\<lparr>ob_type := 0\<rparr>)) b) = object_container ! j"
    if j: "j < length object_container" for b j
    using listedD(3)[OF l j, of b] nj[OF _ j, of a] a container_nonzero[OF j] by (auto simp: class_of_def)
  moreover have "length (ob_name (((oc_obj c)(a := (oc_obj c a)\<lparr>ob_type := 0\<rparr>)) b)) = RT_NAME_MAX"
    if "j < length object_container" "b \<in> set ((L(i := removeAll a (L i))) j)" for b j
    using that listedD(4)[OF l that(1), of b] listedD(4)[OF l i, of b] by (auto split: if_splits)
  ultimately show ?thesis unfolding listed_def unlink_object_def put_object_def by simp
qed

section \<open>The loops\<close>

text \<open>The object is known by its text under the name \<open>s\<close>.\<close>

definition named :: "u8 list \<Rightarrow> rt_object \<Rightarrow> bool" where
  "named s v \<longleftrightarrow> text_of (ob_name v) = take RT_NAME_MAX (text_of s)"

lemma length_loop_seg: "seg h p (map Obj xs) (Info i) \<Longrightarrow> length_loop h (Info i) (li_next h p) n = Some (n + length xs)"
proof (induction xs arbitrary: p n)
  case (Cons x xs)
  then show ?case by (subst length_loop.simps) simp
qed (simp add: length_loop.simps)

lemma pointers_loop_seg:
  "seg h p (map Obj xs) (Info i) \<Longrightarrow> length acc < n \<Longrightarrow>
   pointers_loop h (Info i) n (li_next h p) acc = Some (acc @ take (n - length acc) xs)"
proof (induction xs arbitrary: p acc)
  case (Cons x xs)
  have e: "take (n - length acc) (x # xs) = x # take (n - Suc (length acc)) xs" using Cons.prems(2) by (simp add: take_Cons')
  show ?case using Cons Cons.IH[of "Obj x" "acc @ [x]"] by (subst pointers_loop.simps) (auto simp: e Let_def)
qed (simp add: pointers_loop.simps)

lemma init_check_seg:
  "seg h p (map Obj xs) (Info i) \<Longrightarrow> init_check h (Info i) a (li_next h p) = (if a \<in> set xs then None else Some ())"
proof (induction xs arbitrary: p)
  case (Cons x xs)
  then show ?case by (subst init_check.simps) auto
qed (simp add: init_check.simps)

lemma find_loop_seg:
  "seg h p (map Obj xs) (Info i) \<Longrightarrow> \<forall>a\<in>set xs. length (ob_name (obj a)) = RT_NAME_MAX \<Longrightarrow>
   find_loop obj h (Info i) s (li_next h p) = Some (case find (\<lambda>a. named s (obj a)) xs of None \<Rightarrow> 0 | Some a \<Rightarrow> a)"
proof (induction xs arbitrary: p)
  case (Cons x xs)
  obtain r where "strncmp_bytes RT_NAME_MAX 0 (ob_name (obj x)) (s @ [0]) = Some r" "r = 0 \<longleftrightarrow> named s (obj x)"
    using strncmp_bytes_string[of "ob_name (obj x)" RT_NAME_MAX s] Cons.prems(2) by (auto simp: named_def)
  then show ?case using Cons by (subst find_loop.simps) auto
qed (simp add: find_loop.simps)

section \<open>The operations on the lists\<close>

lemma rt_object_init_ok:
  assumes l: "listed c L" and i: "rt_object_get_information t = Some i" and a: "a \<noteq> 0" "ob_type (oc_obj c a) = 0"
  obtains c' where "rt_object_init a t s c = Some c'" "listed c' (L(i := a # L i))" "named s (oc_obj c' a)"
    "ob_type (oc_obj c' a) = t OR 0x80" "\<And>b. b \<noteq> a \<Longrightarrow> oc_obj c' b = oc_obj c b" "oc_nest c' = oc_nest c"
proof -
  have il: "i < length object_container" and t: "object_container ! i = t AND NOT 0x80" using i by (simp_all add: get_information_Some)
  have "a \<notin> set (L i)" using class_not_listed[OF l il, of a] a(2) container_nonzero[OF il] by (simp add: class_of_def)
  then have ck: "init_check (oc_node c) (Info i) a (li_next (oc_node c) (Info i)) = Some ()"
    using init_check_seg[OF listedD(1)[OF l il], of a] by simp
  obtain ys where y: "strncpy_bytes RT_NAME_MAX (s @ [0]) = Some ys" "length ys = RT_NAME_MAX" "text_of ys = take RT_NAME_MAX (text_of s)"
    using strncpy_bytes_string by blast
  let ?v = "(oc_obj c a)\<lparr>ob_type := t OR 0x80, ob_name := ys\<rparr>"
  have ls: "listed ((put_object a ?v c)\<lparr>oc_node := rt_list_insert_after (Info i) (Obj a) (oc_node c)\<rparr>) (L(i := a # L i))"
    by (rule listed_link[OF l il]) (use a t y(2) in \<open>simp_all add: class_of_def\<close>)
  have "rt_object_init a t s c = Some ((put_object a ?v c)\<lparr>oc_node := rt_list_insert_after (Info i) (Obj a) (oc_node c)\<rparr>)"
    using i ck y(1) by (simp add: rt_object_init_def)
  from that[OF this ls] show thesis by (simp add: put_object_def named_def y(3))
qed

lemma rt_object_allocate_ok:
  assumes l: "listed c L" and i: "rt_object_get_information t = Some i" and a: "r \<noteq> 0" "ob_type (oc_obj c r) = 0" "oc_nest c = 0"
  obtains c' where "rt_object_allocate r t s c = Some (r, c')" "listed c' (L(i := r # L i))"
    "text_of (ob_name (oc_obj c' r)) = take (RT_NAME_MAX - 1) (text_of s)"
    "ob_type (oc_obj c' r) = t" "\<And>b. b \<noteq> r \<Longrightarrow> oc_obj c' b = oc_obj c b" "oc_nest c' = 0"
proof -
  have il: "i < length object_container" and t: "object_container ! i = t AND NOT 0x80" using i by (simp_all add: get_information_Some)
  obtain ys where y: "strncpy_bytes (RT_NAME_MAX - 1) (s @ [0]) = Some ys" "length ys = RT_NAME_MAX - 1"
      "text_of ys = take (RT_NAME_MAX - 1) (text_of s)"
    using strncpy_bytes_string by blast
  have z: "RT_NAME_MAX - (RT_NAME_MAX - Suc 0) = Suc 0" by (simp add: RT_NAME_MAX_def)
  let ?v = "\<lparr>ob_name = ys @ replicate 1 0, ob_type = t, ob_flag = 0\<rparr>"
  let ?c = "(put_object r ?v c)\<lparr>oc_node := rt_list_insert_after (Info i) (Obj r) (oc_node c)\<rparr>"
  have "listed ?c (L(i := r # L i))"
    by (rule listed_link[OF l il]) (use a t y(2) in \<open>simp_all add: class_of_def RT_NAME_MAX_def\<close>)
  then have ls: "listed (?c\<lparr>oc_custom := (oc_custom c)(r := (None, 0))\<rparr>) (L(i := r # L i))"
    by (subst listed_cong[of _ ?c]) simp_all
  have "rt_object_allocate r t s c = Some (r, ?c\<lparr>oc_custom := (oc_custom c)(r := (None, 0))\<rparr>)"
    using i a y(1) by (simp add: rt_object_allocate_def z put_object_def)
  from that[OF this ls] show thesis using a(3) y(3) text_of_zeros(1)[of ys 1] by (simp add: put_object_def)
qed

lemma unlink_ok:
  assumes l: "listed c L" and i: "rt_object_get_information (ob_type (oc_obj c a)) = Some i" and a: "a \<noteq> 0"
  shows "listed (unlink_object a c) (L(i := removeAll a (L i)))"
proof -
  have il: "i < length object_container" and t: "object_container ! i = class_of (oc_obj c a)"
    using i by (simp_all add: get_information_Some class_of_def)
  have "a \<in> set (L i)" using listedD(3)[OF l il] a t by simp
  then show ?thesis by (rule listed_unlink[OF l il])
qed

lemma rt_object_find_ok:
  assumes "listed c L" "rt_object_get_information t = Some i" "oc_nest c = 0"
  shows "rt_object_find (Some s) t c = Some (case find (\<lambda>a. named s (oc_obj c a)) (L i) of None \<Rightarrow> 0 | Some a \<Rightarrow> a)"
proof -
  have il: "i < length object_container" using assms(2) by (simp add: get_information_Some)
  show ?thesis using assms(2,3) find_loop_seg[OF listedD(1)[OF assms(1) il], of "oc_obj c" s] listedD(4)[OF assms(1) il]
    by (simp add: rt_object_find_def)
qed

section \<open>Runs\<close>

text \<open>
  The calls of the kernel and of applications, in any order. An object that is registered is not
  registered again before it is detached, and the heap returns no address that is in use. The owner of
  an object may write its flag, and interrupts come and go.
\<close>

definition container_init :: "container \<Rightarrow> bool" where
  "container_init c \<longleftrightarrow> (\<forall>a. ob_type (oc_obj c a) = 0) \<and>
     (\<forall>i < length object_container. li_next (oc_node c) (Info i) = Info i \<and> li_prev (oc_node c) (Info i) = Info i)"

inductive container_reach :: "container \<Rightarrow> bool" where
  start: "container_init c \<Longrightarrow> container_reach c"
| init: "container_reach c \<Longrightarrow> a \<noteq> 0 \<Longrightarrow> ob_type (oc_obj c a) = 0 \<Longrightarrow> rt_object_init a t s c = Some c' \<Longrightarrow> container_reach c'"
| detach: "container_reach c \<Longrightarrow> rt_object_detach a c = Some c' \<Longrightarrow> container_reach c'"
| allocate: "container_reach c \<Longrightarrow> ob_type (oc_obj c r) = 0 \<Longrightarrow> rt_object_allocate r t s c = Some (p, c') \<Longrightarrow> container_reach c'"
| delete: "container_reach c \<Longrightarrow> rt_object_delete a c = Some (c', p) \<Longrightarrow> container_reach c'"
| create: "container_reach c \<Longrightarrow> ob_type (oc_obj c r) = 0 \<Longrightarrow> rt_custom_object_create r s d f c = Some (p, c') \<Longrightarrow> container_reach c'"
| destroy: "container_reach c \<Longrightarrow> rt_custom_object_destroy call a c = Some (e, c') \<Longrightarrow> container_reach c'"
| flag: "container_reach c \<Longrightarrow> container_reach (put_object a ((oc_obj c a)\<lparr>ob_flag := f\<rparr>) c)"
| nest: "container_reach c \<Longrightarrow> container_reach (c\<lparr>oc_nest := n\<rparr>)"

lemma init_listed: "container_init c \<Longrightarrow> listed c (\<lambda>_. [])"
  using container_nonzero by (auto simp: container_init_def listed_def class_of_def dest: sym)

lemma allocate_listed:
  assumes "listed c L" "ob_type (oc_obj c r) = 0" "rt_object_allocate r t s c = Some (p, c')"
  shows "\<exists>L. listed c' L"
proof -
  obtain i where i: "rt_object_get_information t = Some i" "oc_nest c = 0"
    using assms(3) by (auto simp: rt_object_allocate_def split: if_splits bind_splits)
  show ?thesis
  proof (cases "r = 0")
    case True
    then show ?thesis using assms(1,3) i by (auto simp: rt_object_allocate_def)
  next
    case False
    show ?thesis by (rule rt_object_allocate_ok[OF assms(1) i(1) False assms(2) i(2), of s]) (use assms(3) in auto)
  qed
qed

lemma delete_listed: "listed c L \<Longrightarrow> rt_object_delete a c = Some (c', p) \<Longrightarrow> \<exists>L. listed c' L"
  by (auto simp: rt_object_delete_def split: if_splits bind_splits intro: unlink_ok)

lemma reach_listed: "container_reach c \<Longrightarrow> \<exists>L. listed c L"
proof (induction rule: container_reach.induct)
  case (start c)
  then show ?case using init_listed by blast
next
  case (init c a t s c')
  then obtain L i where "listed c L" "rt_object_get_information t = Some i"
    by (auto simp: rt_object_init_def split: bind_splits)
  from rt_object_init_ok[OF this init(2,3), of s] show ?case using init(4) by auto
next
  case (detach c a c')
  then show ?case by (auto simp: rt_object_detach_def split: if_splits bind_splits intro: unlink_ok)
next
  case (allocate c r t s p c')
  then show ?case using allocate_listed by blast
next
  case (delete c a c' p)
  then show ?case using delete_listed by blast
next
  case (create c r s d f p c')
  then obtain L q c1 where "listed c L" "rt_object_allocate r 0x10 s c = Some (q, c1)"
    "c' = c1 \<or> c' = c1\<lparr>oc_custom := (oc_custom c1)(q := (f, d))\<rparr>"
    by (auto simp: rt_custom_object_create_def split: bind_splits if_splits)
  then show ?case using allocate_listed[of c L r] create(2) listed_cong[of c' c1] by auto
next
  case (destroy c call a e c')
  then show ?case using delete_listed by (fastforce simp: rt_custom_object_destroy_def Let_def split: if_splits)
next
  case (flag c a f)
  then obtain L where "listed c L" by blast
  then have "listed (put_object a ((oc_obj c a)\<lparr>ob_flag := f\<rparr>) c) L"
    unfolding listed_def put_object_def by (auto simp: class_of_def)
  then show ?case by blast
next
  case (nest c n)
  then show ?case using listed_cong[of "c\<lparr>oc_nest := n\<rparr>" c] by auto
qed

lemma find_congruent: "(\<And>a. a \<in> set xs \<Longrightarrow> P a = Q a) \<Longrightarrow> find P xs = find Q xs"
  by (induction xs) auto

section \<open>What the callers can rely on\<close>

text \<open>A container before its first use, and one with a registered device, for the examples.\<close>

definition con_ex0 :: container where
  "con_ex0 = \<lparr>oc_obj = \<lambda>_. \<lparr>ob_name = replicate 8 0, ob_type = 0, ob_flag = 0\<rparr>,
     oc_node = \<lparr>li_next = id, li_prev = id\<rparr>, oc_custom = \<lambda>_. (None, 0), oc_nest = 0\<rparr>"

lemma con_ex0_reach: "container_reach con_ex0"
  by (rule container_reach.start) (simp add: container_init_def con_ex0_def)

lemma info_device: "rt_object_get_information 9 = Some 7"
  by (simp add: rt_object_get_information_def object_container_def)

text \<open>
  C21. In every reachable container, looking up a name in a configured class ends, outside of
  interrupts, and returns an object of that class with the first eight characters of the name, or null
  if no object of the class has them.
\<close>

theorem object_find_correct:
  assumes "container_reach c" "oc_nest c = 0" "rt_object_get_information t = Some i"
  shows "\<exists>r. rt_object_find (Some s) t c = Some r \<and>
    (if r = 0 then \<forall>a. a \<noteq> 0 \<and> class_of (oc_obj c a) = t AND NOT 0x80 \<longrightarrow> \<not> named s (oc_obj c a)
     else class_of (oc_obj c r) = t AND NOT 0x80 \<and> named s (oc_obj c r))"
proof -
  obtain L where l: "listed c L" using reach_listed[OF assms(1)] by blast
  have il: "i < length object_container" and t: "object_container ! i = t AND NOT 0x80"
    using assms(3) by (simp_all add: get_information_Some)
  note mem = listedD(3)[OF l il, unfolded t]
  note f = rt_object_find_ok[OF l assms(3,2), of s]
  show ?thesis
  proof (cases "find (\<lambda>a. named s (oc_obj c a)) (L i)")
    case None
    then have "\<not> named s (oc_obj c a)" if "a \<in> set (L i)" for a using that by (simp add: find_None_iff)
    then show ?thesis using None f mem by auto
  next
    case (Some r)
    then have "r \<in> set (L i)" "named s (oc_obj c r)" by (auto simp: find_Some_iff)
    then show ?thesis using Some f mem[of r] by auto
  qed
qed

theorem object_find_correct_witness:
  "\<exists>r. rt_object_find (Some [112, 105, 110]) 9 con_ex0 = Some r \<and>
    (if r = 0 then \<forall>a. a \<noteq> 0 \<and> class_of (oc_obj con_ex0 a) = 9 AND NOT 0x80 \<longrightarrow> \<not> named [112, 105, 110] (oc_obj con_ex0 a)
     else class_of (oc_obj con_ex0 r) = 9 AND NOT 0x80 \<and> named [112, 105, 110] (oc_obj con_ex0 r))"
  by (rule object_find_correct[OF con_ex0_reach _ info_device]) (simp add: con_ex0_def)

text \<open>
  In every reachable container the list of a class holds each object of the class exactly once:
  \<^verbatim>\<open>rt_object_get_length\<close> is their number and \<^verbatim>\<open>rt_object_get_pointers\<close> stores the first of them.
\<close>

theorem object_lists_exact:
  assumes "container_reach c" "rt_object_get_information t = Some i"
  shows "\<exists>xs. distinct xs \<and> set xs = {a. a \<noteq> 0 \<and> class_of (oc_obj c a) = t AND NOT 0x80} \<and>
    rt_object_get_length t c = Some (length xs) \<and> (\<forall>n. rt_object_get_pointers t n c = Some (take (nat n) xs))"
proof -
  obtain L where l: "listed c L" using reach_listed[OF assms(1)] by blast
  have il: "i < length object_container" and t: "object_container ! i = t AND NOT 0x80"
    using assms(2) by (simp_all add: get_information_Some)
  note sg = listedD(1)[OF l il]
  have "set (L i) = {a. a \<noteq> 0 \<and> class_of (oc_obj c a) = t AND NOT 0x80}"
    using listedD(3)[OF l il, unfolded t] by auto
  moreover have "rt_object_get_length t c = Some (length (L i))"
    using length_loop_seg[OF sg] assms(2) by (simp add: rt_object_get_length_def)
  moreover have "rt_object_get_pointers t n c = Some (take (nat n) (L i))" for n
    using pointers_loop_seg[OF sg, of "[]" "nat n"] assms(2) by (simp add: rt_object_get_pointers_def)
  ultimately show ?thesis using listedD(2)[OF l il] by blast
qed

theorem object_lists_exact_witness:
  "\<exists>xs. distinct xs \<and> set xs = {a. a \<noteq> 0 \<and> class_of (oc_obj con_ex0 a) = 9 AND NOT 0x80} \<and>
    rt_object_get_length 9 con_ex0 = Some (length xs) \<and> (\<forall>n. rt_object_get_pointers 9 n con_ex0 = Some (take (nat n) xs))"
  by (rule object_lists_exact[OF con_ex0_reach info_device])

text \<open>
  C25. \<^verbatim>\<open>rt_object_init\<close> registers an object so that its name finds it, whatever the length of the name
  and whatever other objects have the name, and \<^verbatim>\<open>rt_object_detach\<close> undoes it: every look-up returns
  what it returned before.
\<close>

theorem object_init_roundtrip:
  assumes "container_reach c" "oc_nest c = 0" "rt_object_get_information t = Some i" "a \<noteq> 0" "ob_type (oc_obj c a) = 0"
  shows "\<exists>c' c''. rt_object_init a t s c = Some c' \<and> rt_object_find (Some s) t c' = Some a \<and>
    rt_object_detach a c' = Some c'' \<and> (\<forall>n u. rt_object_find n u c'' = rt_object_find n u c)"
proof -
  obtain L where l: "listed c L" using reach_listed[OF assms(1)] by blast
  obtain c' where c: "rt_object_init a t s c = Some c'" "listed c' (L(i := a # L i))" "named s (oc_obj c' a)"
    "ob_type (oc_obj c' a) = t OR 0x80" "\<And>b. b \<noteq> a \<Longrightarrow> oc_obj c' b = oc_obj c b" "oc_nest c' = oc_nest c"
    using rt_object_init_ok[OF l assms(3-5)] by blast
  have f: "rt_object_find (Some s) t c' = Some a"
    using rt_object_find_ok[OF c(2) assms(3)] assms(2) c(3,6) by simp
  have na: "a \<notin> set (L j)" if "j < length object_container" for j
    using class_not_listed[OF l that] assms(5) container_nonzero[OF that] by (simp add: class_of_def)
  have i: "rt_object_get_information (ob_type (oc_obj c' a)) = Some i" using assms(3) c(4) by (simp add: get_information_Some)
  then have il: "i < length object_container" by (simp add: get_information_Some)
  have u: "listed (unlink_object a c') L" using unlink_ok[OF c(2) i assms(4)] na[OF il] by (simp add: fun_upd_idem)
  have "rt_object_find n u (unlink_object a c') = rt_object_find n u c" for n u
  proof (cases "n = None \<or> rt_object_get_information u = None")
    case False
    then obtain x j where x: "n = Some x" "rt_object_get_information u = Some j" by auto
    then have "find (\<lambda>b. named x (oc_obj (unlink_object a c') b)) (L j) = find (\<lambda>b. named x (oc_obj c b)) (L j)"
      using na[of j] c(5) by (intro find_congruent) (auto simp: unlink_object_def put_object_def get_information_Some)
    moreover have "oc_nest (unlink_object a c') = 0" using c(6) assms(2) by (simp add: unlink_object_def put_object_def)
    ultimately show ?thesis using rt_object_find_ok[OF u x(2)] rt_object_find_ok[OF l x(2)] assms(2) x(1) by simp
  qed (auto simp: rt_object_find_def split: option.splits)
  then show ?thesis using c(1) f i assms(4) by (simp add: rt_object_detach_def)
qed

theorem object_init_roundtrip_witness:
  "\<exists>c' c''. rt_object_init 100 9 [112, 105, 110] con_ex0 = Some c' \<and> rt_object_find (Some [112, 105, 110]) 9 c' = Some 100 \<and>
    rt_object_detach 100 c' = Some c'' \<and> (\<forall>n u. rt_object_find n u c'' = rt_object_find n u con_ex0)"
  by (rule object_init_roundtrip[OF con_ex0_reach _ info_device]) (simp_all add: con_ex0_def)

text \<open>
  C26. \<^verbatim>\<open>rt_object_allocate\<close> keeps seven characters of the name while \<^verbatim>\<open>rt_object_find\<close> compares eight:
  an object created with a name of up to seven characters is found by it, one created with a longer
  name never is.
\<close>

theorem object_allocate_name:
  assumes "container_reach c" "oc_nest c = 0" "rt_object_get_information t = Some i" "r \<noteq> 0" "ob_type (oc_obj c r) = 0"
  shows "\<exists>c'. rt_object_allocate r t s c = Some (r, c') \<and>
    (length (text_of s) < 8 \<longrightarrow> rt_object_find (Some s) t c' = Some r) \<and>
    (8 \<le> length (text_of s) \<longrightarrow> rt_object_find (Some s) t c' \<noteq> Some r)"
proof -
  obtain L where l: "listed c L" using reach_listed[OF assms(1)] by blast
  obtain c' where c: "rt_object_allocate r t s c = Some (r, c')" "listed c' (L(i := r # L i))"
    "text_of (ob_name (oc_obj c' r)) = take (RT_NAME_MAX - 1) (text_of s)" "oc_nest c' = 0"
    using rt_object_allocate_ok[OF l assms(3-5,2)] by blast
  have short: "named s (oc_obj c' r)" if "length (text_of s) < 8" using that c(3) by (simp add: named_def RT_NAME_MAX_def)
  have long: "\<not> named s (oc_obj c' r)" if n: "8 \<le> length (text_of s)"
  proof
    assume "named s (oc_obj c' r)"
    then have "length (take 7 (text_of s)) = length (take 8 (text_of s))" using c(3) by (simp add: named_def RT_NAME_MAX_def)
    then show False using n by simp
  qed
  have nr: "find P (L i) \<noteq> Some r" for P
  proof -
    have "r \<notin> set (L i)" using listedD(2)[OF c(2), of i] assms(3) by (simp add: get_information_Some)
    then show ?thesis by (auto simp: find_Some_iff)
  qed
  show ?thesis using c(1) rt_object_find_ok[OF c(2) assms(3) c(4), of s] short long nr assms(4)
    by (auto split: option.splits)
qed

theorem object_allocate_name_witness:
  "\<exists>c'. rt_object_allocate 100 9 [105, 110, 112, 117, 116, 95, 109, 113] con_ex0 = Some (100, c') \<and>
    (length (text_of [105, 110, 112, 117, 116, 95, 109, 113]) < 8 \<longrightarrow>
       rt_object_find (Some [105, 110, 112, 117, 116, 95, 109, 113]) 9 c' = Some 100) \<and>
    (8 \<le> length (text_of [105, 110, 112, 117, 116, 95, 109, 113]) \<longrightarrow>
       rt_object_find (Some [105, 110, 112, 117, 116, 95, 109, 113]) 9 c' \<noteq> Some 100)"
  by (rule object_allocate_name[OF con_ex0_reach _ info_device]) (simp_all add: con_ex0_def)

text \<open>
  A static object whose name has eight characters or more has no terminator in its name:
  \<^verbatim>\<open>rt_object_get_name\<close> with a larger buffer returns the name followed by the byte of the type.
\<close>

theorem object_get_name_overrun:
  assumes "container_reach c" "rt_object_get_information t = Some i" "a \<noteq> 0" "ob_type (oc_obj c a) = 0" "ob_flag (oc_obj c a) = 0"
    "8 \<le> length (text_of s)" "10 \<le> n"
  shows "\<exists>c'. rt_object_init a t s c = Some c' \<and>
    rt_object_get_name a True n c' = Some (RT_EOK, take 8 (text_of s) @ [t OR 0x80] @ replicate (unat n - 9) 0)"
proof -
  have cp: "strncpy_bytes (length xs + k) (xs @ ys) = map_option ((@) xs) (strncpy_bytes k ys)" if "0 \<notin> set xs" for xs ys k
    using that by (induction xs; cases "strncpy_bytes k ys") auto
  obtain ys where y: "strncpy_bytes 8 (s @ [0]) = Some ys" "length ys = 8" "text_of ys = take 8 (text_of s)"
    using strncpy_bytes_string by blast
  have "length (takeWhile (\<lambda>x. x \<noteq> 0) ys) = length ys" using assms(6) y(2,3) by (simp add: text_of_def)
  then have "takeWhile (\<lambda>x. x \<noteq> 0) ys = ys" by (metis takeWhile_eq_take take_all_iff order_refl)
  then have nz: "0 \<notin> set ys" and ty: "text_of ys = ys" by (auto simp: takeWhile_eq_all_conv text_of_def)
  obtain L where l: "listed c L" using reach_listed[OF assms(1)] by blast
  obtain c' where c: "rt_object_init a t s c = Some c'" using rt_object_init_ok[OF l assms(2-4)] by blast
  then have v: "ob_name (oc_obj c' a) = ys" "ob_type (oc_obj c' a) = t OR 0x80" "ob_flag (oc_obj c' a) = 0"
    using y(1) assms(5) by (auto simp: rt_object_init_def RT_NAME_MAX_def put_object_def split: bind_splits)
  have "bit (0x80 :: u8) 7" by code_simp
  then have "bit (t OR 0x80) 7" unfolding bit_or_iff by (rule disjI2)
  then have tz: "t OR 0x80 \<noteq> 0" by (auto simp del: bit_or_iff)
  have "10 \<le> unat n" using assms(7) unfolding word_le_nat_alt by simp
  then obtain k where k: "unat n = 8 + Suc (Suc k)" using le_Suc_ex[of 10 "unat n"] by auto
  have "strncpy_bytes (8 + Suc (Suc k)) (ys @ [t OR 0x80, 0]) = Some (ys @ [t OR 0x80] @ replicate (Suc k) 0)"
    using cp[OF nz, of "Suc (Suc k)"] y(2) tz by simp
  moreover have "n \<noteq> 0" using assms(7) by auto
  ultimately show ?thesis using c v assms(3) k y(3) ty by (auto simp: rt_object_get_name_def)
qed

theorem object_get_name_overrun_witness:
  "\<exists>c'. rt_object_init 100 9 [49, 50, 51, 52, 53, 54, 55, 56] con_ex0 = Some c' \<and>
    rt_object_get_name 100 True 12 c' =
      Some (RT_EOK, take 8 (text_of [49, 50, 51, 52, 53, 54, 55, 56]) @ [9 OR 0x80] @ replicate (unat (12 :: u8) - 9) 0)"
  by (rule object_get_name_overrun[OF con_ex0_reach info_device]) (simp_all add: con_ex0_def)

end
