(* ===== verification/Device.thy ===== *)
theory Device
  imports ObjectC GpioPin
begin

text \<open>
  The device core (\<^verbatim>\<open>device.c\<close>): registration of devices in the object container, and the life of a
  device between opening and closing. The functions of a driver are the fields of \<open>device_ops\<close>; they
  see the device structure and the state \<open>'d\<close> of the driver, and \<open>None\<close> is a call that does not
  return. The address of a device is the address of the object it begins with. As an example of a driver,
  the pin device of \<^verbatim>\<open>pin.c\<close> with the STM32 pin operations.
\<close>

section \<open>Data\<close>

abbreviation (input) RT_DEVICE_FLAG_RDWR :: u16 where "RT_DEVICE_FLAG_RDWR \<equiv> 3"
abbreviation (input) RT_DEVICE_FLAG_STANDALONE :: u16 where "RT_DEVICE_FLAG_STANDALONE \<equiv> 8"
abbreviation (input) RT_DEVICE_FLAG_ACTIVATED :: u16 where "RT_DEVICE_FLAG_ACTIVATED \<equiv> 0x10"
abbreviation (input) RT_DEVICE_OFLAG_CLOSE :: u16 where "RT_DEVICE_OFLAG_CLOSE \<equiv> 0"
abbreviation (input) RT_DEVICE_OFLAG_OPEN :: u16 where "RT_DEVICE_OFLAG_OPEN \<equiv> 8"
abbreviation (input) RT_DEVICE_OFLAG_MASK :: u16 where "RT_DEVICE_OFLAG_MASK \<equiv> 0xF0F"

record rt_device =
  dv_type :: int
  dv_flag :: u16
  dv_open_flag :: u16
  dv_ref_count :: u8
  dv_rx_indicate :: "nat option"
  dv_tx_complete :: "nat option"

text \<open>Buffers and arguments have the type \<open>'b\<close>; \<open>None\<close> is the null pointer.\<close>

record ('d, 'b) device_ops =
  op_init :: "(rt_device \<Rightarrow> 'd \<Rightarrow> (rt_err_t \<times> rt_device \<times> 'd) option) option"
  op_open :: "(u16 \<Rightarrow> rt_device \<Rightarrow> 'd \<Rightarrow> (rt_err_t \<times> rt_device \<times> 'd) option) option"
  op_close :: "(rt_device \<Rightarrow> 'd \<Rightarrow> (rt_err_t \<times> rt_device \<times> 'd) option) option"
  op_read :: "(int \<Rightarrow> 'b option \<Rightarrow> nat \<Rightarrow> rt_device \<Rightarrow> 'd \<Rightarrow> ((int \<times> 'b option) \<times> rt_device \<times> 'd) option) option"
  op_write :: "(int \<Rightarrow> 'b option \<Rightarrow> nat \<Rightarrow> rt_device \<Rightarrow> 'd \<Rightarrow> (int \<times> rt_device \<times> 'd) option) option"
  op_control :: "(int \<Rightarrow> 'b option \<Rightarrow> rt_device \<Rightarrow> 'd \<Rightarrow> (rt_err_t \<times> rt_device \<times> 'd) option) option"

record 'd dsys =
  ds_con :: container
  ds_dev :: "nat \<Rightarrow> rt_device"
  ds_drv :: 'd
  ds_errno :: rt_err_t

definition put_dev :: "nat \<Rightarrow> rt_device \<Rightarrow> 'd dsys \<Rightarrow> 'd dsys" where
  "put_dev a d s = s\<lparr>ds_dev := (ds_dev s)(a := d)\<rparr>"

text \<open>A call through one of the function pointers.\<close>

definition call_driver :: "(rt_device \<Rightarrow> 'd \<Rightarrow> ('r \<times> rt_device \<times> 'd) option) \<Rightarrow> nat \<Rightarrow> 'd dsys \<Rightarrow> ('r \<times> 'd dsys) option" where
  "call_driver f a s = do { (r, d, p) \<leftarrow> f (ds_dev s a) (ds_drv s); Some (r, (put_dev a d s)\<lparr>ds_drv := p\<rparr>) }"

section \<open>Operations\<close>

definition rt_device_find :: "u8 list option \<Rightarrow> 'd dsys \<Rightarrow> nat option" where
  "rt_device_find name s = rt_object_find name RT_Object_Class_Device (ds_con s)"

definition rt_device_register :: "nat \<Rightarrow> u8 list \<Rightarrow> u16 \<Rightarrow> 'd dsys \<Rightarrow> (rt_err_t \<times> 'd dsys) option" where
  "rt_device_register dev name flags s =
     (if dev = 0 then Some (- RT_ERROR, s)
      else do {
        r \<leftarrow> rt_device_find (Some name) s;
        if r \<noteq> 0 then Some (- RT_ERROR, s)
        else do {
          c \<leftarrow> rt_object_init dev RT_Object_Class_Device name (ds_con s);
          Some (RT_EOK, (put_dev dev ((ds_dev s dev)\<lparr>dv_flag := flags, dv_ref_count := 0, dv_open_flag := 0\<rparr>) s)\<lparr>ds_con := c\<rparr>)
        }
      })"

definition is_device :: "nat \<Rightarrow> 'd dsys \<Rightarrow> bool" where
  "is_device dev s \<longleftrightarrow> rt_object_get_type dev (ds_con s) = Some RT_Object_Class_Device"

definition rt_device_unregister :: "nat \<Rightarrow> 'd dsys \<Rightarrow> (rt_err_t \<times> 'd dsys) option" where
  "rt_device_unregister dev s =
     (if is_device dev s \<and> rt_object_is_systemobject dev (ds_con s) = Some True
      then do { c \<leftarrow> rt_object_detach dev (ds_con s); Some (RT_EOK, s\<lparr>ds_con := c\<rparr>) }
      else None)"

text \<open>\<open>sizeof_dev\<close> is the size of the structure, \<open>malloc\<close> gives the address the heap returns for a size.\<close>

definition rt_device_create :: "u32 \<Rightarrow> (u32 \<Rightarrow> nat) \<Rightarrow> int \<Rightarrow> u32 \<Rightarrow> 'd dsys \<Rightarrow> nat \<times> 'd dsys" where
  "rt_device_create sizeof_dev malloc type attach_size s =
     (let device = malloc (RT_ALIGN sizeof_dev 8 + RT_ALIGN attach_size 8)
      in if device \<noteq> 0
         then (device,
           (put_dev device \<lparr>dv_type = type, dv_flag = 0, dv_open_flag = 0, dv_ref_count = 0, dv_rx_indicate = None, dv_tx_complete = None\<rparr> s)
             \<lparr>ds_con := put_object device \<lparr>ob_name = replicate RT_NAME_MAX 0, ob_type = 0, ob_flag = 0\<rparr> (ds_con s)\<rparr>)
         else (0, s))"

text \<open>The second result is the address given back to the heap.\<close>

definition rt_device_destroy :: "nat \<Rightarrow> 'd dsys \<Rightarrow> ('d dsys \<times> nat) option" where
  "rt_device_destroy dev s =
     (if is_device dev s \<and> rt_object_is_systemobject dev (ds_con s) = Some False
      then do { c \<leftarrow> rt_object_detach dev (ds_con s); Some (s\<lparr>ds_con := c\<rparr>, dev) }
      else None)"

definition set_activated :: "nat \<Rightarrow> 'd dsys \<Rightarrow> 'd dsys" where
  "set_activated dev s = put_dev dev ((ds_dev s dev)\<lparr>dv_flag := dv_flag (ds_dev s dev) OR RT_DEVICE_FLAG_ACTIVATED\<rparr>) s"

definition rt_device_init :: "(nat \<Rightarrow> ('d, 'b) device_ops) \<Rightarrow> nat \<Rightarrow> 'd dsys \<Rightarrow> (rt_err_t \<times> 'd dsys) option" where
  "rt_device_init ops dev s =
     (if dev = 0 then None
      else case op_init (ops dev) of
        None \<Rightarrow> Some (RT_EOK, s)
      | Some f \<Rightarrow>
          if dv_flag (ds_dev s dev) AND RT_DEVICE_FLAG_ACTIVATED = 0
          then do {
            (result, s1) \<leftarrow> call_driver f dev s;
            Some (if result \<noteq> RT_EOK then (result, s1) else (result, set_activated dev s1))
          }
          else Some (RT_EOK, s))"

text \<open>
  The parts of \<^verbatim>\<open>rt_device_open\<close>: the initialisation, which may return early with an error, the call of
  the driver, and the counting.
\<close>

definition open_activate :: "(nat \<Rightarrow> ('d, 'b) device_ops) \<Rightarrow> nat \<Rightarrow> 'd dsys \<Rightarrow> (rt_err_t \<times> 'd dsys) option" where
  "open_activate ops dev s =
     (if dv_flag (ds_dev s dev) AND RT_DEVICE_FLAG_ACTIVATED = 0
      then case op_init (ops dev) of
          None \<Rightarrow> Some (RT_EOK, set_activated dev s)
        | Some f \<Rightarrow> do {
            (result, s1) \<leftarrow> call_driver f dev s;
            Some (if result \<noteq> RT_EOK then (result, s1) else (RT_EOK, set_activated dev s1))
          }
      else Some (RT_EOK, s))"

definition open_interface :: "(nat \<Rightarrow> ('d, 'b) device_ops) \<Rightarrow> nat \<Rightarrow> u16 \<Rightarrow> 'd dsys \<Rightarrow> (rt_err_t \<times> 'd dsys) option" where
  "open_interface ops dev oflag s =
     (let d = ds_dev s dev in
      if dv_open_flag d AND RT_DEVICE_OFLAG_OPEN = 0 \<or> dv_open_flag d AND RT_DEVICE_OFLAG_MASK \<noteq> oflag AND RT_DEVICE_OFLAG_MASK
      then case op_open (ops dev) of
          Some f \<Rightarrow> call_driver (f oflag) dev s
        | None \<Rightarrow> Some (RT_EOK, put_dev dev (d\<lparr>dv_open_flag := oflag AND RT_DEVICE_OFLAG_MASK\<rparr>) s)
      else Some (RT_EOK, s))"

definition open_count :: "nat \<Rightarrow> rt_err_t \<Rightarrow> 'd dsys \<Rightarrow> (rt_err_t \<times> 'd dsys) option" where
  "open_count dev result s =
     (if result = RT_EOK \<or> result = - RT_ENOSYS
      then let d = ds_dev s dev;
               d1 = d\<lparr>dv_open_flag := dv_open_flag d OR RT_DEVICE_OFLAG_OPEN, dv_ref_count := dv_ref_count d + 1\<rparr>
           in if dv_ref_count d1 \<noteq> 0 then Some (result, put_dev dev d1 s) else None
      else Some (result, s))"

definition rt_device_open :: "(nat \<Rightarrow> ('d, 'b) device_ops) \<Rightarrow> nat \<Rightarrow> u16 \<Rightarrow> 'd dsys \<Rightarrow> (rt_err_t \<times> 'd dsys) option" where
  "rt_device_open ops dev oflag s =
     (if \<not> is_device dev s then None
      else do {
        (result, s1) \<leftarrow> open_activate ops dev s;
        if result \<noteq> RT_EOK then Some (result, s1)
        else if dv_flag (ds_dev s1 dev) AND RT_DEVICE_FLAG_STANDALONE \<noteq> 0 \<and> dv_open_flag (ds_dev s1 dev) AND RT_DEVICE_OFLAG_OPEN \<noteq> 0
        then Some (- RT_EBUSY, s1)
        else do { (result, s2) \<leftarrow> open_interface ops dev oflag s1; open_count dev result s2 }
      })"

definition rt_device_close :: "(nat \<Rightarrow> ('d, 'b) device_ops) \<Rightarrow> nat \<Rightarrow> 'd dsys \<Rightarrow> (rt_err_t \<times> 'd dsys) option" where
  "rt_device_close ops dev s =
     (if \<not> is_device dev s then None
      else if dv_ref_count (ds_dev s dev) = 0 then Some (- RT_ERROR, s)
      else let s1 = put_dev dev ((ds_dev s dev)\<lparr>dv_ref_count := dv_ref_count (ds_dev s dev) - 1\<rparr>) s in
        if dv_ref_count (ds_dev s1 dev) \<noteq> 0 then Some (RT_EOK, s1)
        else do {
          (result, s2) \<leftarrow> (case op_close (ops dev) of Some f \<Rightarrow> call_driver f dev s1 | None \<Rightarrow> Some (RT_EOK, s1));
          Some (result,
            if result = RT_EOK \<or> result = - RT_ENOSYS
            then put_dev dev ((ds_dev s2 dev)\<lparr>dv_open_flag := RT_DEVICE_OFLAG_CLOSE\<rparr>) s2 else s2)
        })"

text \<open>\<^verbatim>\<open>rt_set_errno\<close> writes the error number of the calling thread.\<close>

definition rt_device_read :: "(nat \<Rightarrow> ('d, 'b) device_ops) \<Rightarrow> nat \<Rightarrow> int \<Rightarrow> 'b option \<Rightarrow> nat \<Rightarrow> 'd dsys \<Rightarrow> ((int \<times> 'b option) \<times> 'd dsys) option" where
  "rt_device_read ops dev pos buffer sz s =
     (if \<not> is_device dev s then None
      else if dv_ref_count (ds_dev s dev) = 0 then Some ((0, buffer), s\<lparr>ds_errno := - RT_ERROR\<rparr>)
      else case op_read (ops dev) of
        Some f \<Rightarrow> call_driver (f pos buffer sz) dev s
      | None \<Rightarrow> Some ((0, buffer), s\<lparr>ds_errno := - RT_ENOSYS\<rparr>))"

definition rt_device_write :: "(nat \<Rightarrow> ('d, 'b) device_ops) \<Rightarrow> nat \<Rightarrow> int \<Rightarrow> 'b option \<Rightarrow> nat \<Rightarrow> 'd dsys \<Rightarrow> (int \<times> 'd dsys) option" where
  "rt_device_write ops dev pos buffer sz s =
     (if \<not> is_device dev s then None
      else if dv_ref_count (ds_dev s dev) = 0 then Some (0, s\<lparr>ds_errno := - RT_ERROR\<rparr>)
      else case op_write (ops dev) of
        Some f \<Rightarrow> call_driver (f pos buffer sz) dev s
      | None \<Rightarrow> Some (0, s\<lparr>ds_errno := - RT_ENOSYS\<rparr>))"

definition rt_device_control :: "(nat \<Rightarrow> ('d, 'b) device_ops) \<Rightarrow> nat \<Rightarrow> int \<Rightarrow> 'b option \<Rightarrow> 'd dsys \<Rightarrow> (rt_err_t \<times> 'd dsys) option" where
  "rt_device_control ops dev cmd arg s =
     (if \<not> is_device dev s then None
      else case op_control (ops dev) of
        Some f \<Rightarrow> call_driver (f cmd arg) dev s
      | None \<Rightarrow> Some (- RT_ENOSYS, s))"

definition rt_device_set_rx_indicate :: "nat \<Rightarrow> nat option \<Rightarrow> 'd dsys \<Rightarrow> (rt_err_t \<times> 'd dsys) option" where
  "rt_device_set_rx_indicate dev rx_ind s =
     (if \<not> is_device dev s then None else Some (RT_EOK, put_dev dev ((ds_dev s dev)\<lparr>dv_rx_indicate := rx_ind\<rparr>) s))"

definition rt_device_set_tx_complete :: "nat \<Rightarrow> nat option \<Rightarrow> 'd dsys \<Rightarrow> (rt_err_t \<times> 'd dsys) option" where
  "rt_device_set_tx_complete dev tx_done s =
     (if \<not> is_device dev s then None else Some (RT_EOK, put_dev dev ((ds_dev s dev)\<lparr>dv_tx_complete := tx_done\<rparr>) s))"

section \<open>The pin device\<close>

text \<open>
  \<^verbatim>\<open>_pin_read\<close>, \<^verbatim>\<open>_pin_write\<close> and \<^verbatim>\<open>_pin_control\<close> with the operations of the STM32 driver. A buffer is a pin
  with a level, an argument a pin with a mode; both structures have eight bytes.
\<close>

definition pin_read_dev :: "int \<Rightarrow> (int \<times> nat) option \<Rightarrow> nat \<Rightarrow> rt_device \<Rightarrow> gpio \<Rightarrow> ((int \<times> (int \<times> nat) option) \<times> rt_device \<times> gpio) option" where
  "pin_read_dev pos buffer sz d g =
     (case buffer of None \<Rightarrow> Some ((0, None), d, g)
      | Some (pin, v) \<Rightarrow>
          if sz \<noteq> 8 then Some ((0, buffer), d, g)
          else Some ((int sz, Some (pin, nat (stm32_pin_read pin g mod 256))), d, g))"

definition pin_write_dev :: "int \<Rightarrow> (int \<times> nat) option \<Rightarrow> nat \<Rightarrow> rt_device \<Rightarrow> gpio \<Rightarrow> (int \<times> rt_device \<times> gpio) option" where
  "pin_write_dev pos buffer sz d g =
     (case buffer of None \<Rightarrow> Some (0, d, g)
      | Some (pin, v) \<Rightarrow> if sz \<noteq> 8 then Some (0, d, g) else Some (int sz, d, stm32_pin_write pin (v mod 256) g))"

definition pin_control_dev :: "int \<Rightarrow> (int \<times> nat) option \<Rightarrow> rt_device \<Rightarrow> gpio \<Rightarrow> (rt_err_t \<times> rt_device \<times> gpio) option" where
  "pin_control_dev cmd arg d g =
     (case arg of None \<Rightarrow> Some (- RT_ERROR, d, g)
      | Some (pin, mode) \<Rightarrow> do { g1 \<leftarrow> stm32_pin_mode pin (mode mod 256) g; Some (0, d, g1) })"

definition pin_ops :: "(gpio, int \<times> nat) device_ops" where
  "pin_ops = \<lparr>op_init = None, op_open = None, op_close = None, op_read = Some pin_read_dev, op_write = Some pin_write_dev,
     op_control = Some pin_control_dev\<rparr>"

text \<open>\<open>hw_pin\<close> is the address of the static device structure; 25 is \<^verbatim>\<open>RT_Device_Class_Pin\<close>.\<close>

definition rt_device_pin_register :: "nat \<Rightarrow> u8 list \<Rightarrow> gpio dsys \<Rightarrow> (int \<times> gpio dsys) option" where
  "rt_device_pin_register hw_pin name s = do {
     (_, s1) \<leftarrow> rt_device_register hw_pin name RT_DEVICE_FLAG_RDWR
        (put_dev hw_pin ((ds_dev s hw_pin)\<lparr>dv_type := 25, dv_rx_indicate := None, dv_tx_complete := None\<rparr>) s);
     Some (0, s1)
   }"

section \<open>Drivers\<close>

text \<open>
  What a driver leaves alone: the count and the standalone flag, and, unless it has just opened or closed
  the device, the open bit.
\<close>

definition same_count :: "rt_device \<Rightarrow> rt_device \<Rightarrow> bool" where
  "same_count d d' \<longleftrightarrow> dv_ref_count d' = dv_ref_count d \<and> dv_flag d' AND 8 = dv_flag d AND 8"

definition same_open :: "rt_device \<Rightarrow> rt_device \<Rightarrow> bool" where
  "same_open d d' \<longleftrightarrow> same_count d d' \<and> dv_open_flag d' AND 8 = dv_open_flag d AND 8"

lemma same_refl [simp]: "same_count d d" "same_open d d"
  by (simp_all add: same_count_def same_open_def)

lemma same_open_count: "same_open d d' \<Longrightarrow> same_count d d'"
  by (simp add: same_open_def)

text \<open>The state of a device between two calls.\<close>

definition dev_ok :: "rt_device \<Rightarrow> bool" where
  "dev_ok d \<longleftrightarrow> (dv_ref_count d \<noteq> 0 \<longrightarrow> dv_open_flag d AND 8 \<noteq> 0) \<and> (dv_flag d AND 8 \<noteq> 0 \<longrightarrow> dv_ref_count d \<le> 1)"

lemma dev_ok_same: "dev_ok d \<Longrightarrow> same_open d d' \<Longrightarrow> dev_ok d'"
  by (simp add: dev_ok_def same_open_def same_count_def)

lemma same_open_trans: "same_open d d1 \<Longrightarrow> same_open d1 d2 \<Longrightarrow> same_open d d2"
  by (simp add: same_open_def same_count_def)

lemma or_open: "(w OR 8) AND 8 = (8 :: u16)"
  by (rule bit_word_eqI) (auto simp: bit_simps)

lemma or_activated: "(w OR 0x10) AND 8 = (w AND 8 :: u16)"
proof -
  have "(0x10 AND 8 :: u16) = 0" by simp
  then show ?thesis by (simp add: bit.conj_disj_distrib2)
qed

lemma put_dev_get [simp]: "ds_dev (put_dev a d s) a = d" "b \<noteq> a \<Longrightarrow> ds_dev (put_dev a d s) b = ds_dev s b"
  "ds_con (put_dev a d s) = ds_con s" "ds_drv (put_dev a d s) = ds_drv s"
  by (simp_all add: put_dev_def)

lemma activated_same: "same_open (ds_dev s a) (ds_dev (set_activated a s) a)"
  "b \<noteq> a \<Longrightarrow> ds_dev (set_activated a s) b = ds_dev s b" "ds_con (set_activated a s) = ds_con s"
  by (simp_all add: set_activated_def same_open_def same_count_def or_activated)

text \<open>A call changes only the device it is made on.\<close>

lemma call_driver_Some:
  assumes "call_driver f a s = Some (r, s')"
  obtains d p where "f (ds_dev s a) (ds_drv s) = Some (r, d, p)" "ds_dev s' a = d" "ds_drv s' = p" "ds_con s' = ds_con s"
    "\<And>b. b \<noteq> a \<Longrightarrow> ds_dev s' b = ds_dev s b"
  using assms by (auto simp: call_driver_def split: bind_splits)

text \<open>Two systems that differ in nothing but the device \<open>a\<close> and the driver.\<close>

definition only_dev :: "nat \<Rightarrow> 'd dsys \<Rightarrow> 'd dsys \<Rightarrow> bool" where
  "only_dev a s s' \<longleftrightarrow> ds_con s' = ds_con s \<and> (\<forall>b. b \<noteq> a \<longrightarrow> ds_dev s' b = ds_dev s b)"

lemma only_dev_refl [simp]: "only_dev a s s" "only_dev a s (put_dev a d s)" "only_dev a s (set_activated a s)"
  "only_dev a s (s\<lparr>ds_errno := e\<rparr>)"
  by (simp_all add: only_dev_def activated_same)

lemma only_dev_trans: "only_dev a s s1 \<Longrightarrow> only_dev a s1 s2 \<Longrightarrow> only_dev a s s2"
  by (simp add: only_dev_def)

definition dev_step :: "nat \<Rightarrow> 'd dsys \<Rightarrow> 'd dsys \<Rightarrow> bool" where
  "dev_step a s s' \<longleftrightarrow> only_dev a s s' \<and> same_open (ds_dev s a) (ds_dev s' a)"

lemma dev_step_refl [simp]: "dev_step a s s" "dev_step a s (set_activated a s)" "dev_step a s (s\<lparr>ds_errno := e\<rparr>)"
  "same_open (ds_dev s a) d \<Longrightarrow> dev_step a s (put_dev a d s)"
  by (simp_all add: dev_step_def activated_same)

lemma dev_step_trans: "dev_step a s s1 \<Longrightarrow> dev_step a s1 s2 \<Longrightarrow> dev_step a s s2"
  unfolding dev_step_def using only_dev_trans same_open_trans by blast

lemma dev_step_activated: "dev_step a s s1 \<Longrightarrow> dev_step a s (set_activated a s1)"
  using dev_step_trans dev_step_refl(2) by blast

lemma call_driver_only: "call_driver f a s = Some (r, s') \<Longrightarrow> only_dev a s s'"
  by (auto elim!: call_driver_Some simp: only_dev_def)

lemma call_driver_step:
  "call_driver f a s = Some (r, s') \<Longrightarrow> (\<And>d p d' p'. f d p = Some (r, d', p') \<Longrightarrow> same_open d d') \<Longrightarrow> dev_step a s s'"
  using call_driver_only unfolding dev_step_def by (metis call_driver_Some)

lemma call_driver_count:
  "call_driver f a s = Some (r, s') \<Longrightarrow> (\<And>d p d' p'. f d p = Some (r, d', p') \<Longrightarrow> same_count d d') \<Longrightarrow>
   only_dev a s s' \<and> same_count (ds_dev s a) (ds_dev s' a)"
  using call_driver_only by (metis call_driver_Some)

locale device_driver =
  fixes ops :: "nat \<Rightarrow> ('d, 'b) device_ops"
  assumes init_keeps: "op_init (ops a) = Some f \<Longrightarrow> f d p = Some (e, d', p') \<Longrightarrow> same_open d d'"
    and open_keeps: "op_open (ops a) = Some g \<Longrightarrow> g oflag d p = Some (e, d', p') \<Longrightarrow> same_count d d'"
    and open_fails: "op_open (ops a) = Some g \<Longrightarrow> g oflag d p = Some (e, d', p') \<Longrightarrow> e \<noteq> RT_EOK \<Longrightarrow> e \<noteq> - RT_ENOSYS \<Longrightarrow> same_open d d'"
    and close_keeps: "op_close (ops a) = Some f \<Longrightarrow> f d p = Some (e, d', p') \<Longrightarrow> same_count d d'"
    and read_keeps: "op_read (ops a) = Some h \<Longrightarrow> h pos buf sz d p = Some (r, d', p') \<Longrightarrow> same_open d d'"
    and write_keeps: "op_write (ops a) = Some w \<Longrightarrow> w pos buf sz d p = Some (n, d', p') \<Longrightarrow> same_open d d'"
    and control_keeps: "op_control (ops a) = Some c \<Longrightarrow> c cmd buf d p = Some (e, d', p') \<Longrightarrow> same_open d d'"
begin

lemma dev_init_ok: "rt_device_init ops a s = Some (e, s') \<Longrightarrow> dev_step a s s'"
  by (auto simp: rt_device_init_def split: if_splits option.splits bind_splits
      dest!: call_driver_step[OF _ init_keeps] intro: dev_step_activated)

lemma activate_ok: "open_activate ops a s = Some (e, s') \<Longrightarrow> dev_step a s s'"
  by (auto simp: open_activate_def split: if_splits option.splits bind_splits
      dest!: call_driver_step[OF _ init_keeps] intro: dev_step_activated)

lemma interface_ok:
  assumes "open_interface ops a oflag s = Some (e, s')"
  shows "only_dev a s s' \<and> same_count (ds_dev s a) (ds_dev s' a)" "e \<noteq> RT_EOK \<Longrightarrow> e \<noteq> - RT_ENOSYS \<Longrightarrow> dev_step a s s'"
  using assms
  by (auto simp: open_interface_def Let_def same_count_def split: if_splits option.splits
      dest: call_driver_count[OF _ open_keeps] call_driver_step[OF _ open_fails])

text \<open>After a successful opening the device has its open bit and one more user.\<close>

lemma dev_open_ok:
  assumes "rt_device_open ops a oflag s = Some (e, s')" "dev_ok (ds_dev s a)"
  shows "only_dev a s s' \<and> dev_ok (ds_dev s' a) \<and> (e = RT_EOK \<longrightarrow> dv_ref_count (ds_dev s' a) = dv_ref_count (ds_dev s a) + 1)"
proof -
  obtain e1 s1 where a: "open_activate ops a s = Some (e1, s1)" using assms(1) by (auto simp: rt_device_open_def split: if_splits bind_splits)
  have st: "dev_step a s s1" by (rule activate_ok[OF a])
  then have ok1: "dev_ok (ds_dev s1 a)" "dv_ref_count (ds_dev s1 a) = dv_ref_count (ds_dev s a)" "only_dev a s s1"
    using assms(2) dev_ok_same by (auto simp: dev_step_def same_open_def same_count_def)
  show ?thesis
  proof (cases "s' = s1 \<and> e \<noteq> RT_EOK")
    case False
    then obtain e2 s2 where i: "open_interface ops a oflag s1 = Some (e2, s2)" and c: "open_count a e2 s2 = Some (e, s')"
      and busy: "dv_flag (ds_dev s1 a) AND 8 = 0 \<or> dv_open_flag (ds_dev s1 a) AND 8 = 0"
      using assms(1) a by (auto simp: rt_device_open_def split: if_splits bind_splits)
    have o2: "only_dev a s s2" using interface_ok(1)[OF i] ok1(3) only_dev_trans by blast
    have sc: "dv_ref_count (ds_dev s2 a) = dv_ref_count (ds_dev s1 a)" "dv_flag (ds_dev s2 a) AND 8 = dv_flag (ds_dev s1 a) AND 8"
      using interface_ok(1)[OF i] by (simp_all add: same_count_def)
    show ?thesis
    proof (cases "e2 = RT_EOK \<or> e2 = - RT_ENOSYS")
      case True
      let ?d = "ds_dev s2 a"
      let ?d' = "?d\<lparr>dv_open_flag := dv_open_flag ?d OR 8, dv_ref_count := dv_ref_count ?d + 1\<rparr>"
      have s': "s' = put_dev a ?d' s2" using c True by (auto simp: open_count_def Let_def split: if_splits)
      have "dv_flag ?d AND 8 \<noteq> 0 \<longrightarrow> dv_ref_count ?d = 0" using busy ok1(1) sc by (auto simp: dev_ok_def)
      then have "dev_ok ?d'" by (auto simp: dev_ok_def or_open)
      moreover have "only_dev a s s'" unfolding s' using only_dev_trans[OF o2 only_dev_refl(2)] .
      ultimately show ?thesis using s' sc ok1(2) by simp
    next
      case f: False
      then have "s' = s2" "e = e2" using c by (auto simp: open_count_def)
      then show ?thesis using interface_ok(2)[OF i] f o2 ok1(1) dev_ok_same by (auto simp: dev_step_def)
    qed
  qed (use ok1 in auto)
qed

lemma dev_close_ok:
  assumes "rt_device_close ops a s = Some (e, s')" "dev_ok (ds_dev s a)"
  shows "only_dev a s s' \<and> dev_ok (ds_dev s' a) \<and>
    dv_ref_count (ds_dev s' a) = (if dv_ref_count (ds_dev s a) = 0 then 0 else dv_ref_count (ds_dev s a) - 1)"
proof (cases "dv_ref_count (ds_dev s a) = 0")
  case True
  then show ?thesis using assms by (auto simp: rt_device_close_def split: if_splits)
next
  case False
  let ?d = "(ds_dev s a)\<lparr>dv_ref_count := dv_ref_count (ds_dev s a) - 1\<rparr>"
  have le: "dv_flag (ds_dev s a) AND 8 \<noteq> 0 \<Longrightarrow> dv_ref_count ?d = 0"
  proof -
    assume "dv_flag (ds_dev s a) AND 8 \<noteq> 0"
    then have "unat (dv_ref_count (ds_dev s a)) \<le> 1" using assms(2) by (simp add: dev_ok_def word_le_nat_alt)
    moreover have "unat (dv_ref_count (ds_dev s a)) \<noteq> 0" using False by (simp add: unat_eq_0)
    ultimately have "unat (dv_ref_count (ds_dev s a)) = unat (1 :: u8)" by simp
    then have "dv_ref_count (ds_dev s a) = 1" by (simp only: word_unat_eq_iff)
    then show ?thesis by simp
  qed
  have ok: "dev_ok ?d" using False le assms(2) by (auto simp: dev_ok_def)
  show ?thesis
  proof (cases "dv_ref_count ?d = 0")
    case False
    then show ?thesis using assms(1) ok \<open>dv_ref_count (ds_dev s a) \<noteq> 0\<close> by (auto simp: rt_device_close_def Let_def split: if_splits)
  next
    case True
    let ?s0 = "put_dev a ((ds_dev s a)\<lparr>dv_ref_count := 0\<rparr>) s"
    obtain s2 where c: "(case op_close (ops a) of Some f \<Rightarrow> call_driver f a ?s0 | None \<Rightarrow> Some (RT_EOK, ?s0)) = Some (e, s2)"
      and s': "s' = s2 \<or> s' = put_dev a ((ds_dev s2 a)\<lparr>dv_open_flag := 0\<rparr>) s2"
      using assms(1) False True by (auto simp: rt_device_close_def Let_def split: if_splits bind_splits)
    have "only_dev a ?s0 s2 \<and> same_count (ds_dev ?s0 a) (ds_dev s2 a)"
      using c by (auto split: option.splits dest: call_driver_count[OF _ close_keeps])
    then have "only_dev a s s2" "dv_ref_count (ds_dev s2 a) = 0"
      using only_dev_trans[OF only_dev_refl(2)] by (auto simp: same_count_def)
    then show ?thesis using s' True False only_dev_trans[OF _ only_dev_refl(2)] by (auto simp: dev_ok_def)
  qed
qed

lemma transfer_ok:
  "rt_device_read ops a pos buf sz s = Some (r, s') \<Longrightarrow> dev_step a s s'"
  "rt_device_write ops a pos buf sz s = Some (n, s') \<Longrightarrow> dev_step a s s'"
  "rt_device_control ops a cmd arg s = Some (e, s') \<Longrightarrow> dev_step a s s'"
  by (auto simp: rt_device_read_def rt_device_write_def rt_device_control_def split: if_splits option.splits
      dest: call_driver_step[OF _ read_keeps] call_driver_step[OF _ write_keeps] call_driver_step[OF _ control_keeps])

end

interpretation pin: device_driver "\<lambda>_. pin_ops"
  by unfold_locales (auto simp: pin_ops_def pin_read_dev_def pin_write_dev_def pin_control_dev_def split: option.splits prod.splits if_splits bind_splits)

section \<open>Runs\<close>

text \<open>
  Any calls on devices and on the objects of other classes. The structure handed to
  \<^verbatim>\<open>rt_device_register\<close> is not in use as another object, and the heap returns no address that is in use.
\<close>

inductive device_reach :: "(nat \<Rightarrow> ('d, 'b) device_ops) \<Rightarrow> 'd dsys \<Rightarrow> bool" for ops where
  start: "container_init (ds_con s) \<Longrightarrow> device_reach ops s"
| register: "device_reach ops s \<Longrightarrow> ob_type (oc_obj (ds_con s) a) = 0 \<or> class_of (oc_obj (ds_con s) a) = 9 \<Longrightarrow>
    rt_device_register a n fl s = Some (e, s') \<Longrightarrow> device_reach ops s'"
| unregister: "device_reach ops s \<Longrightarrow> rt_device_unregister a s = Some (e, s') \<Longrightarrow> device_reach ops s'"
| create: "device_reach ops s \<Longrightarrow> ob_type (oc_obj (ds_con s) (malloc (RT_ALIGN z 8 + RT_ALIGN x 8))) = 0 \<Longrightarrow>
    rt_device_create z malloc t x s = (r, s') \<Longrightarrow> device_reach ops s'"
| init: "device_reach ops s \<Longrightarrow> rt_device_init ops a s = Some (e, s') \<Longrightarrow> device_reach ops s'"
| dopen: "device_reach ops s \<Longrightarrow> rt_device_open ops a oflag s = Some (e, s') \<Longrightarrow> device_reach ops s'"
| dclose: "device_reach ops s \<Longrightarrow> rt_device_close ops a s = Some (e, s') \<Longrightarrow> device_reach ops s'"
| read: "device_reach ops s \<Longrightarrow> rt_device_read ops a pos buf z s = Some (r, s') \<Longrightarrow> device_reach ops s'"
| put: "device_reach ops s \<Longrightarrow> rt_device_write ops a pos buf z s = Some (r, s') \<Longrightarrow> device_reach ops s'"
| control: "device_reach ops s \<Longrightarrow> rt_device_control ops a cmd arg s = Some (e, s') \<Longrightarrow> device_reach ops s'"
| rx: "device_reach ops s \<Longrightarrow> rt_device_set_rx_indicate a h s = Some (e, s') \<Longrightarrow> device_reach ops s'"
| tx: "device_reach ops s \<Longrightarrow> rt_device_set_tx_complete a h s = Some (e, s') \<Longrightarrow> device_reach ops s'"
| object: "device_reach ops s \<Longrightarrow> a \<noteq> 0 \<Longrightarrow> ob_type (oc_obj (ds_con s) a) = 0 \<Longrightarrow> t AND NOT 0x80 \<noteq> 9 \<Longrightarrow>
    rt_object_init a t n (ds_con s) = Some c \<Longrightarrow> device_reach ops (s\<lparr>ds_con := c\<rparr>)"
| allocate: "device_reach ops s \<Longrightarrow> ob_type (oc_obj (ds_con s) a) = 0 \<Longrightarrow> t AND NOT 0x80 \<noteq> 9 \<Longrightarrow>
    rt_object_allocate a t n (ds_con s) = Some (r, c) \<Longrightarrow> device_reach ops (s\<lparr>ds_con := c\<rparr>)"
| detach: "device_reach ops s \<Longrightarrow> class_of (oc_obj (ds_con s) a) \<noteq> 9 \<Longrightarrow> rt_object_detach a (ds_con s) = Some c \<Longrightarrow>
    device_reach ops (s\<lparr>ds_con := c\<rparr>)"
| nest: "device_reach ops s \<Longrightarrow> device_reach ops (s\<lparr>ds_con := (ds_con s)\<lparr>oc_nest := n\<rparr>\<rparr>)"

lemma is_device_iff: "is_device a s \<longleftrightarrow> a \<noteq> 0 \<and> class_of (oc_obj (ds_con s) a) = 9"
  by (simp add: is_device_def rt_object_get_type_def class_of_def)

lemma is_device_cong: "ds_con s' = ds_con s \<Longrightarrow> is_device a s' = is_device a s"
  by (simp add: is_device_def)

text \<open>
  Every registered device is a static object, has a name of its own, and is open as long as it has
  users.
\<close>

definition registry_ok :: "'d dsys \<Rightarrow> bool" where
  "registry_ok s \<longleftrightarrow> (\<exists>L. listed (ds_con s) L) \<and>
     (\<forall>a. is_device a s \<longrightarrow> ob_type (oc_obj (ds_con s) a) = 0x89 \<and> dev_ok (ds_dev s a) \<and>
        (\<forall>b. is_device b s \<longrightarrow> text_of (ob_name (oc_obj (ds_con s) b)) = text_of (ob_name (oc_obj (ds_con s) a)) \<longrightarrow> b = a))"

lemma registryD:
  assumes "registry_ok s"
  shows "\<exists>L. listed (ds_con s) L" "is_device a s \<Longrightarrow> ob_type (oc_obj (ds_con s) a) = 0x89" "is_device a s \<Longrightarrow> dev_ok (ds_dev s a)"
    "is_device a s \<Longrightarrow> is_device b s \<Longrightarrow> text_of (ob_name (oc_obj (ds_con s) b)) = text_of (ob_name (oc_obj (ds_con s) a)) \<Longrightarrow> b = a"
  using assms unfolding registry_ok_def by blast+

lemma registry_dev:
  assumes "registry_ok s" "only_dev a s s'" "dev_ok (ds_dev s a) \<Longrightarrow> dev_ok (ds_dev s' a)"
  shows "registry_ok s'"
proof -
  have c: "ds_con s' = ds_con s" "\<And>b. b \<noteq> a \<Longrightarrow> ds_dev s' b = ds_dev s b" using assms(2) by (simp_all add: only_dev_def)
  have "dev_ok (ds_dev s' b)" if "is_device b s" for b
    using registryD(3)[OF assms(1) that] assms(3) c(2) by (cases "b = a") auto
  then show ?thesis using assms(1) unfolding registry_ok_def is_device_cong[OF c(1)] c(1) by blast
qed

lemma registry_step: "registry_ok s \<Longrightarrow> dev_step a s s' \<Longrightarrow> registry_ok s'"
  using registry_dev[of s a s'] dev_ok_same by (auto simp: dev_step_def)

text \<open>A change of the container that leaves the devices alone, or takes some away.\<close>

lemma registry_con:
  assumes "registry_ok s" "listed c L" "\<And>b. b \<noteq> 0 \<Longrightarrow> class_of (oc_obj c b) = 9 \<Longrightarrow> oc_obj c b = oc_obj (ds_con s) b"
  shows "registry_ok (s\<lparr>ds_con := c\<rparr>)"
proof -
  have d: "is_device b s \<and> oc_obj c b = oc_obj (ds_con s) b" if "is_device b (s\<lparr>ds_con := c\<rparr>)" for b
    using that assms(3)[of b] by (auto simp: is_device_iff)
  show ?thesis unfolding registry_ok_def
    using assms(2) d registryD(2,3)[OF assms(1)] registryD(4)[OF assms(1)] by (simp, metis)
qed

lemma registry_register:
  assumes r: "registry_ok s" "rt_device_register a n fl s = Some (e, s')"
    and t: "ob_type (oc_obj (ds_con s) a) = 0 \<or> class_of (oc_obj (ds_con s) a) = 9"
  shows "registry_ok s'"
proof (cases "s' = s")
  case False
  obtain L where l: "listed (ds_con s) L" using registryD(1)[OF r(1)] by blast
  obtain c where f: "a \<noteq> 0" "rt_object_find (Some n) 9 (ds_con s) = Some 0" and i: "rt_object_init a 9 n (ds_con s) = Some c"
    and s': "s' = (put_dev a ((ds_dev s a)\<lparr>dv_flag := fl, dv_ref_count := 0, dv_open_flag := 0\<rparr>) s)\<lparr>ds_con := c\<rparr>"
    using r(2) False by (auto simp: rt_device_register_def rt_device_find_def split: if_splits bind_splits)
  note dev = info_device
  have il: "7 < length object_container" "object_container ! 7 = 9" by (simp_all add: object_container_def)
  have nest: "oc_nest (ds_con s) = 0" using f(2) dev by (auto simp: rt_object_find_def split: if_splits)
  have "init_check (oc_node (ds_con s)) (Info 7) a (li_next (oc_node (ds_con s)) (Info 7)) = Some ()"
    using i dev by (auto simp: rt_object_init_def split: bind_splits)
  then have "a \<notin> set (L 7)" using init_check_seg[OF listedD(1)[OF l il(1)], of a] by (auto split: if_splits)
  then have "class_of (oc_obj (ds_con s) a) \<noteq> 9" using listedD(3)[OF l il(1), of a] il(2) f(1) by simp
  then have t0: "ob_type (oc_obj (ds_con s) a) = 0" using t by blast
  obtain c' where c': "rt_object_init a 9 n (ds_con s) = Some c'" "listed c' (L(7 := a # L 7))" "named n (oc_obj c' a)"
    "ob_type (oc_obj c' a) = 9 OR 0x80" "\<And>b. b \<noteq> a \<Longrightarrow> oc_obj c' b = oc_obj (ds_con s) b"
    using rt_object_init_ok[OF l dev f(1) t0] by blast
  have cc: "c' = c" using c'(1) i by simp
  have nm: "\<not> named n (oc_obj (ds_con s) b)" if "is_device b s" for b
  proof
    assume nb: "named n (oc_obj (ds_con s) b)"
    have "b \<in> set (L 7)" using that listedD(3)[OF l il(1), of b] il(2) by (simp add: is_device_iff)
    then have "find (\<lambda>a. named n (oc_obj (ds_con s) a)) (L 7) \<noteq> None" using nb by (auto simp: find_None_iff)
    then obtain y where "find (\<lambda>a. named n (oc_obj (ds_con s) a)) (L 7) = Some y" by blast
    moreover from this have "y \<in> set (L 7)" by (auto simp: find_Some_iff)
    then have "y \<noteq> 0" using listedD(3)[OF l il(1), of y] by simp
    ultimately show False using rt_object_find_ok[OF l dev nest, of n] f(2) by simp
  qed
  have d: "is_device b s' \<longleftrightarrow> b = a \<or> is_device b s" for b
    using c'(4) c'(5)[of b] f(1) t0 unfolding s' cc by (cases "b = a") (auto simp: is_device_iff class_of_def)
  have "ob_type (oc_obj c b) = 0x89 \<and> dev_ok (ds_dev s' b)" if "is_device b s'" for b
    using that d c'(4) c'(5)[of b] registryD(2)[OF r(1), of b] registryD(3)[OF r(1), of b] unfolding s' cc by (cases "b = a") (auto simp: dev_ok_def)
  moreover have "b = x" if "is_device x s'" "is_device b s'" "text_of (ob_name (oc_obj c b)) = text_of (ob_name (oc_obj c x))" for b x
    using that d nm c'(3) c'(5)[of b] c'(5)[of x] registryD(4)[OF r(1), of x b] unfolding cc named_def by (cases "b = a"; cases "x = a") auto
  ultimately show ?thesis unfolding registry_ok_def using c'(2) cc by (auto simp: s')
qed (use r in simp)

lemma registry_unlink:
  "registry_ok s \<Longrightarrow> rt_object_detach a (ds_con s) = Some c \<Longrightarrow> registry_ok (s\<lparr>ds_con := c\<rparr>)"
proof -
  assume r: "registry_ok s" and d: "rt_object_detach a (ds_con s) = Some c"
  obtain L i where l: "listed (ds_con s) L" "a \<noteq> 0" "rt_object_get_information (ob_type (oc_obj (ds_con s) a)) = Some i" "c = unlink_object a (ds_con s)"
    using registryD(1)[OF r] d by (auto simp: rt_object_detach_def split: if_splits bind_splits)
  show ?thesis
    by (rule registry_con[OF r unlink_ok[OF l(1,3,2), folded l(4)]]) (auto simp: l(4) unlink_object_def put_object_def class_of_def split: if_splits)
qed

lemma registry_create:
  assumes r: "registry_ok s" and z: "rt_device_create z malloc t x s = (a, s')"
    and f: "ob_type (oc_obj (ds_con s) (malloc (RT_ALIGN z 8 + RT_ALIGN x 8))) = 0"
  shows "registry_ok s'"
proof -
  obtain L where l: "listed (ds_con s) L" using registryD(1)[OF r] by blast
  let ?a = "malloc (RT_ALIGN z 8 + RT_ALIGN x 8)"
  let ?v = "\<lparr>ob_name = replicate RT_NAME_MAX 0, ob_type = 0, ob_flag = 0\<rparr>"
  have l2: "listed (put_object ?a ?v (ds_con s)) L"
    using l f container_nonzero unfolding listed_def put_object_def by (auto simp: class_of_def dest: sym)
  have "registry_ok (s\<lparr>ds_con := put_object ?a ?v (ds_con s)\<rparr>)"
    by (rule registry_con[OF r l2]) (auto simp: put_object_def class_of_def split: if_splits)
  moreover have "\<not> is_device ?a (s\<lparr>ds_con := put_object ?a ?v (ds_con s)\<rparr>)" by (simp add: is_device_iff put_object_def class_of_def)
  ultimately show ?thesis using z r
    by (auto simp: rt_device_create_def Let_def registry_ok_def put_dev_def is_device_def split: if_splits)
qed

context device_driver
begin

lemma reach_registry: "device_reach ops s \<Longrightarrow> registry_ok s"
proof (induction rule: device_reach.induct)
  case (start s)
  then show ?case using init_listed[OF start] by (auto simp: registry_ok_def is_device_iff container_init_def class_of_def)
next
  case (register s a n fl e s')
  then show ?case using registry_register by blast
next
  case (unregister s a e s')
  then show ?case using registry_unlink by (auto simp: rt_device_unregister_def split: if_splits bind_splits)
next
  case (create s malloc z x t r s')
  then show ?case using registry_create by blast
next
  case (init s a e s')
  then show ?case using registry_step dev_init_ok by blast
next
  case (dopen s a oflag e s')
  show ?case
  proof (cases "is_device a s")
    case True
    from dev_open_ok[OF dopen(2) registryD(3)[OF dopen(3) True]] show ?thesis using registry_dev[OF dopen(3)] by blast
  qed (use dopen(2) in \<open>simp add: rt_device_open_def\<close>)
next
  case (dclose s a e s')
  show ?case
  proof (cases "is_device a s")
    case True
    from dev_close_ok[OF dclose(2) registryD(3)[OF dclose(3) True]] show ?thesis using registry_dev[OF dclose(3)] by blast
  qed (use dclose(2) in \<open>simp add: rt_device_close_def\<close>)
next
  case (read s a pos buf z r s')
  then show ?case using registry_step transfer_ok(1) by blast
next
  case (put s a pos buf z r s')
  then show ?case using registry_step transfer_ok(2) by blast
next
  case (control s a cmd arg e s')
  then show ?case using registry_step transfer_ok(3) by blast
next
  case (rx s a h e s')
  then have "dev_step a s s'" by (auto simp: rt_device_set_rx_indicate_def same_open_def same_count_def split: if_splits)
  then show ?case using registry_step rx(3) by blast
next
  case (tx s a h e s')
  then have "dev_step a s s'" by (auto simp: rt_device_set_tx_complete_def same_open_def same_count_def split: if_splits)
  then show ?case using registry_step tx(3) by blast
next
  case (object s a t n c)
  obtain L i where l: "listed (ds_con s) L" "rt_object_get_information t = Some i"
    using registryD(1)[OF object(6)] object(5) by (auto simp: rt_object_init_def split: bind_splits)
  obtain c' where c: "rt_object_init a t n (ds_con s) = Some c'" "listed c' (L(i := a # L i))" "ob_type (oc_obj c' a) = t OR 0x80"
    "\<And>b. b \<noteq> a \<Longrightarrow> oc_obj c' b = oc_obj (ds_con s) b"
    using rt_object_init_ok[OF l object(2,3)] by blast
  have "registry_ok (s\<lparr>ds_con := c'\<rparr>)"
  proof (rule registry_con[OF object(6) c(2)])
    fix b assume "b \<noteq> 0" "class_of (oc_obj c' b) = 9"
    then show "oc_obj c' b = oc_obj (ds_con s) b" using c(3) c(4)[of b] object(4) by (cases "b = a") (auto simp: class_of_def)
  qed
  then show ?case using c(1) object(5) by simp
next
  case (allocate s a t n r c)
  obtain L i where l: "listed (ds_con s) L" "rt_object_get_information t = Some i" and n: "oc_nest (ds_con s) = 0"
    using registryD(1)[OF allocate(5)] allocate(4) by (auto simp: rt_object_allocate_def split: if_splits bind_splits)
  show ?case
  proof (cases "a = 0")
    case True
    then show ?thesis using allocate(4,5) l(2) n by (auto simp: rt_object_allocate_def)
  next
    case False
    obtain c' where c: "rt_object_allocate a t n (ds_con s) = Some (a, c')" "listed c' (L(i := a # L i))" "ob_type (oc_obj c' a) = t"
      "\<And>b. b \<noteq> a \<Longrightarrow> oc_obj c' b = oc_obj (ds_con s) b"
      using rt_object_allocate_ok[OF l False allocate(2) n] by blast
    have "registry_ok (s\<lparr>ds_con := c'\<rparr>)"
    proof (rule registry_con[OF allocate(5) c(2)])
      fix b assume "b \<noteq> 0" "class_of (oc_obj c' b) = 9"
      then show "oc_obj c' b = oc_obj (ds_con s) b" using c(3) c(4)[of b] allocate(3) by (cases "b = a") (auto simp: class_of_def)
    qed
    then show ?thesis using c(1) allocate(4) by simp
  qed
next
  case (detach s a c)
  then show ?case using registry_unlink by blast
next
  case (nest s n)
  obtain L where "listed (ds_con s) L" using registryD(1)[OF nest(2)] by blast
  then have "listed ((ds_con s)\<lparr>oc_nest := n\<rparr>) L" by (subst listed_cong[of _ "ds_con s"]) simp_all
  from registry_con[OF nest(2) this] show ?case by simp
qed

end

section \<open>What the callers can rely on\<close>

text \<open>A system with the pin device registered and opened, for the examples.\<close>

definition dev_ex0 :: "gpio dsys" where
  "dev_ex0 = \<lparr>ds_con = con_ex0,
     ds_dev = \<lambda>_. \<lparr>dv_type = 0, dv_flag = 0, dv_open_flag = 0, dv_ref_count = 0, dv_rx_indicate = None, dv_tx_complete = None\<rparr>,
     ds_drv = gpio0, ds_errno = 0\<rparr>"

definition dev_ex1 :: "gpio dsys" where
  "dev_ex1 = (case rt_device_pin_register 100 [112, 105, 110] dev_ex0 of Some (_, s) \<Rightarrow> s | None \<Rightarrow> dev_ex0)"

definition dev_ex2 :: "gpio dsys" where
  "dev_ex2 = (case rt_device_open (\<lambda>_. pin_ops) 100 3 dev_ex1 of Some (_, s) \<Rightarrow> s | None \<Rightarrow> dev_ex1)"

text \<open>
  C22. For drivers that leave the count, the standalone flag and the open bit alone, and over all calls on
  devices and other objects: a registered device that has users is open, a standalone device has at most
  one user, a successful \<^verbatim>\<open>rt_device_open\<close> adds one user without overflow of the count and
  \<^verbatim>\<open>rt_device_close\<close> takes one away.
\<close>

theorem device_open_state:
  assumes "device_driver ops" "device_reach ops s" "is_device a s"
  shows "(dv_ref_count (ds_dev s a) \<noteq> 0 \<longrightarrow> dv_open_flag (ds_dev s a) AND RT_DEVICE_OFLAG_OPEN \<noteq> 0) \<and>
    (dv_flag (ds_dev s a) AND RT_DEVICE_FLAG_STANDALONE \<noteq> 0 \<longrightarrow> dv_ref_count (ds_dev s a) \<le> 1) \<and>
    (\<forall>oflag s'. rt_device_open ops a oflag s = Some (RT_EOK, s') \<longrightarrow>
       unat (dv_ref_count (ds_dev s' a)) = unat (dv_ref_count (ds_dev s a)) + 1) \<and>
    (\<forall>e s'. rt_device_close ops a s = Some (e, s') \<longrightarrow>
       unat (dv_ref_count (ds_dev s' a)) = unat (dv_ref_count (ds_dev s a)) - 1)"
proof -
  have ok: "dev_ok (ds_dev s a)" using device_driver.reach_registry[OF assms(1,2)] registryD(3) assms(3) by blast
  have "unat (dv_ref_count (ds_dev s' a)) = unat (dv_ref_count (ds_dev s a)) + 1"
    if o: "rt_device_open ops a oflag s = Some (RT_EOK, s')" for oflag s'
  proof -
    have r: "dv_ref_count (ds_dev s' a) = dv_ref_count (ds_dev s a) + 1" "dv_ref_count (ds_dev s' a) \<noteq> 0"
      using device_driver.dev_open_ok[OF assms(1) o ok] o
      by (auto simp: rt_device_open_def open_count_def Let_def split: if_splits bind_splits)
    show ?thesis using r unatSuc[of "dv_ref_count (ds_dev s a)"] by (simp add: add.commute)
  qed
  moreover have "unat (dv_ref_count (ds_dev s' a)) = unat (dv_ref_count (ds_dev s a)) - 1"
    if c: "rt_device_close ops a s = Some (e, s')" for e s'
    using device_driver.dev_close_ok[OF assms(1) c ok] unat_minus_one[of "dv_ref_count (ds_dev s a)"] by (auto split: if_splits)
  ultimately show ?thesis using ok unfolding dev_ok_def by blast
qed

lemma strncpy_pin: "strncpy_bytes RT_NAME_MAX [112, 105, 110, 0] = Some [112, 105, 110, 0, 0, 0, 0, 0]"
  by code_simp

lemma dev_ex_register:
  "rt_device_pin_register 100 [112, 105, 110] dev_ex0 = Some (0, dev_ex1)"
  "ds_con dev_ex0 = con_ex0" "ob_type (oc_obj con_ex0 a) = 0" "ds_drv dev_ex1 = gpio0"
  "oc_obj (ds_con dev_ex1) 100 = \<lparr>ob_name = [112, 105, 110, 0, 0, 0, 0, 0], ob_type = 0x89, ob_flag = 0\<rparr>"
  "oc_nest (ds_con dev_ex1) = 0"
  "ds_dev dev_ex1 100 = \<lparr>dv_type = 25, dv_flag = 3, dv_open_flag = 0, dv_ref_count = 0, dv_rx_indicate = None, dv_tx_complete = None\<rparr>"
  by (simp_all add: dev_ex1_def dev_ex0_def rt_device_pin_register_def rt_device_register_def rt_device_find_def rt_object_find_def
      info_device find_loop.simps con_ex0_def rt_object_init_def init_check.simps strncpy_pin put_object_def put_dev_def)

lemma dev_ex1_reach: "device_reach (\<lambda>_. pin_ops) dev_ex1" "is_device 100 dev_ex1"
proof -
  have st: "device_reach (\<lambda>_. pin_ops) (put_dev 100 d dev_ex0)" for d
    by (rule device_reach.start) (simp add: dev_ex_register(2) container_init_def con_ex0_def)
  obtain e d where "rt_device_register 100 [112, 105, 110] 3 (put_dev 100 d dev_ex0) = Some (e, dev_ex1)"
    using dev_ex_register(1) by (auto simp: rt_device_pin_register_def split: bind_splits)
  then show "device_reach (\<lambda>_. pin_ops) dev_ex1"
    by (rule device_reach.register[OF st, rotated]) (simp add: dev_ex_register(2,3))
  show "is_device 100 dev_ex1" by (simp add: is_device_iff dev_ex_register class_of_def)
qed

lemma dev_ex_open:
  "rt_device_open (\<lambda>_. pin_ops) 100 3 dev_ex1 = Some (0, dev_ex2)" "ds_con dev_ex2 = ds_con dev_ex1" "ds_drv dev_ex2 = gpio0"
  "ds_dev dev_ex2 100 = \<lparr>dv_type = 25, dv_flag = 0x13, dv_open_flag = 0xB, dv_ref_count = 1, dv_rx_indicate = None, dv_tx_complete = None\<rparr>"
  by (simp_all add: dev_ex2_def rt_device_open_def dev_ex1_reach(2) open_activate_def dev_ex_register pin_ops_def set_activated_def
      open_interface_def open_count_def)

lemma dev_ex2_reach: "device_reach (\<lambda>_. pin_ops) dev_ex2" "is_device 100 dev_ex2"
  using device_reach.dopen[OF dev_ex1_reach(1) dev_ex_open(1)] dev_ex1_reach(2) dev_ex_open(2) by (auto simp: is_device_def)

theorem device_open_state_witness:
  "dv_open_flag (ds_dev dev_ex2 100) AND RT_DEVICE_OFLAG_OPEN \<noteq> 0 \<and>
    (\<exists>s'. rt_device_close (\<lambda>_. pin_ops) 100 dev_ex2 = Some (RT_EOK, s') \<and> unat (dv_ref_count (ds_dev s' 100)) = 0)"
proof -
  note st = device_open_state[OF pin.device_driver_axioms dev_ex2_reach]
  obtain s' where c: "rt_device_close (\<lambda>_. pin_ops) 100 dev_ex2 = Some (RT_EOK, s')"
    using dev_ex2_reach(2) by (auto simp: rt_device_close_def dev_ex_open pin_ops_def)
  have "dv_ref_count (ds_dev dev_ex2 100) = 1" by (simp add: dev_ex_open)
  then show ?thesis using st c by auto
qed

lemma registry_find:
  assumes r: "registry_ok s" and "is_device a s" "oc_nest (ds_con s) = 0"
  shows "rt_device_find (Some (text_of (ob_name (oc_obj (ds_con s) a)))) s = Some a"
proof -
  let ?n = "text_of (ob_name (oc_obj (ds_con s) a))"
  obtain L where l: "listed (ds_con s) L" using registryD(1)[OF r] by blast
  have il: "7 < length object_container" "object_container ! 7 = 9" by (simp_all add: object_container_def)
  have mem: "x \<in> set (L 7) \<longleftrightarrow> is_device x s" for x using listedD(3)[OF l il(1), of x] il(2) by (simp add: is_device_iff)
  have a: "a \<in> set (L 7)" "a \<noteq> 0" using assms(2) mem by (simp_all add: is_device_iff)
  have "length ?n \<le> RT_NAME_MAX" using listedD(4)[OF l il(1) a(1)] length_takeWhile_le[of _ "ob_name (oc_obj (ds_con s) a)"] by (simp add: text_of_def)
  moreover have "text_of ?n = ?n" by (rule text_of_id) (auto simp: text_of_def dest: set_takeWhileD)
  ultimately have nm: "named ?n v \<longleftrightarrow> text_of (ob_name v) = ?n" for v by (simp add: named_def)
  obtain y where y: "find (\<lambda>x. named ?n (oc_obj (ds_con s) x)) (L 7) = Some y"
    using a(1) nm by (cases "find (\<lambda>x. named ?n (oc_obj (ds_con s) x)) (L 7)") (auto simp: find_None_iff)
  then have "y \<in> set (L 7)" "text_of (ob_name (oc_obj (ds_con s) y)) = ?n" using nm by (auto simp: find_Some_iff)
  then have "y = a" using registryD(4)[OF r assms(2)] mem by blast
  then show ?thesis using rt_object_find_ok[OF l info_device assms(3), of ?n] y by (simp add: rt_device_find_def)
qed

lemma dev_ex1_find: "rt_device_find (Some [112, 105, 110]) dev_ex1 = Some 100"
  using registry_find[OF pin.reach_registry[OF dev_ex1_reach(1)] dev_ex1_reach(2)] by (simp add: dev_ex_register)

text \<open>
  No two registered devices have the same name: outside of interrupts \<^verbatim>\<open>rt_device_find\<close> with the name
  of a registered device returns that device, and registering another device under the name is
  refused.
\<close>

theorem device_names_unique:
  assumes "device_driver ops" "device_reach ops s" "is_device a s" "oc_nest (ds_con s) = 0"
  shows "rt_device_find (Some (text_of (ob_name (oc_obj (ds_con s) a)))) s = Some a \<and>
    rt_device_register b (text_of (ob_name (oc_obj (ds_con s) a))) fl s = Some (- RT_ERROR, s)"
  using registry_find[OF device_driver.reach_registry[OF assms(1,2)] assms(3,4)] assms(3)
  by (auto simp: rt_device_register_def is_device_iff)

theorem device_names_unique_witness:
  "rt_device_find (Some (text_of (ob_name (oc_obj (ds_con dev_ex1) 100)))) dev_ex1 = Some 100 \<and>
    rt_device_register 200 (text_of (ob_name (oc_obj (ds_con dev_ex1) 100))) 3 dev_ex1 = Some (- RT_ERROR, dev_ex1)"
  by (rule device_names_unique[OF pin.device_driver_axioms dev_ex1_reach]) (simp add: dev_ex_register)

text \<open>
  \<^verbatim>\<open>rt_device_destroy\<close> asks for a device object without the static flag, but registration is the only
  operation that makes a device object and it sets the flag: over all runs the call fails an assertion.
\<close>

theorem device_destroy_fails:
  assumes "device_driver ops" "device_reach ops s"
  shows "rt_device_destroy a s = None"
proof (cases "is_device a s")
  case True
  then have "ob_type (oc_obj (ds_con s) a) = 0x89"
    using registryD(2) device_driver.reach_registry[OF assms] by blast
  then show ?thesis by (simp add: rt_device_destroy_def rt_object_is_systemobject_def)
qed (simp add: rt_device_destroy_def)

theorem device_destroy_fails_witness: "rt_device_destroy 100 dev_ex1 = None"
  by (rule device_destroy_fails[OF pin.device_driver_axioms dev_ex1_reach(1)])

text \<open>
  When the driver of a standalone device fails to close it, the count is already 0 but the open bit stays:
  from then on \<^verbatim>\<open>rt_device_open\<close> answers that the device is busy and \<^verbatim>\<open>rt_device_close\<close> that it is not
  open, and neither changes anything.
\<close>

theorem failed_close_locks_device:
  assumes "is_device a s" "dv_ref_count (ds_dev s a) = 1" "op_close (ops a) = Some f"
    "f ((ds_dev s a)\<lparr>dv_ref_count := 0\<rparr>) (ds_drv s) = Some (e, (ds_dev s a)\<lparr>dv_ref_count := 0\<rparr>, p)"
    "e \<noteq> RT_EOK" "e \<noteq> - RT_ENOSYS" "dv_flag (ds_dev s a) AND RT_DEVICE_FLAG_ACTIVATED \<noteq> 0"
    "dv_flag (ds_dev s a) AND RT_DEVICE_FLAG_STANDALONE \<noteq> 0" "dv_open_flag (ds_dev s a) AND RT_DEVICE_OFLAG_OPEN \<noteq> 0"
  shows "\<exists>s'. rt_device_close ops a s = Some (e, s') \<and>
    (\<forall>oflag. rt_device_open ops a oflag s' = Some (- RT_EBUSY, s')) \<and> rt_device_close ops a s' = Some (- RT_ERROR, s')"
proof -
  let ?s1 = "put_dev a ((ds_dev s a)\<lparr>dv_ref_count := 0\<rparr>) s"
  let ?s' = "(put_dev a ((ds_dev s a)\<lparr>dv_ref_count := 0\<rparr>) ?s1)\<lparr>ds_drv := p\<rparr>"
  have "call_driver f a ?s1 = Some (e, ?s')" using assms(4) by (simp add: call_driver_def)
  then have "rt_device_close ops a s = Some (e, ?s')" using assms by (simp add: rt_device_close_def)
  moreover have "is_device a ?s'" using assms(1) by (simp add: is_device_def)
  ultimately show ?thesis using assms(5-9)
    by (intro exI[of _ ?s']) (simp add: rt_device_open_def open_activate_def rt_device_close_def)
qed

definition stuck_ops :: "(gpio, int \<times> nat) device_ops" where
  "stuck_ops = pin_ops\<lparr>op_close := Some (\<lambda>d p. Some (- RT_EIO, d, p))\<rparr>"

theorem failed_close_locks_device_witness:
  "\<exists>s'. rt_device_close (\<lambda>_. stuck_ops) 100 (put_dev 100 ((ds_dev dev_ex2 100)\<lparr>dv_flag := 0x1B\<rparr>) dev_ex2) = Some (- RT_EIO, s') \<and>
    (\<forall>oflag. rt_device_open (\<lambda>_. stuck_ops) 100 oflag s' = Some (- RT_EBUSY, s')) \<and>
    rt_device_close (\<lambda>_. stuck_ops) 100 s' = Some (- RT_ERROR, s')"
  by (rule failed_close_locks_device[where f = "\<lambda>d p. Some (- RT_EIO, d, p)" and p = gpio0])
    (use dev_ex2_reach(2) in \<open>simp_all add: stuck_ops_def dev_ex_open is_device_def\<close>)

text \<open>
  The mask of the open flags contains the open bit itself, which a caller does not pass: opening an
  open device again calls the driver even if the access is the same as before.
\<close>

theorem reopen_calls_driver:
  assumes "is_device a s" "dv_flag (ds_dev s a) AND RT_DEVICE_FLAG_ACTIVATED \<noteq> 0" "dv_flag (ds_dev s a) AND RT_DEVICE_FLAG_STANDALONE = 0"
    "dv_open_flag (ds_dev s a) = oflag OR RT_DEVICE_OFLAG_OPEN" "oflag AND RT_DEVICE_OFLAG_OPEN = 0" "op_open (ops a) = Some f"
  shows "rt_device_open ops a oflag s = Option.bind (call_driver (f oflag) a s) (\<lambda>(r, s1). open_count a r s1)"
proof -
  have b: "bit (8 :: u16) 3" "bit (0xF0F :: u16) 3" by code_simp+
  have nb: "\<not> bit oflag 3"
  proof
    assume "bit oflag 3"
    then have "bit (oflag AND 8) 3" using b(1) unfolding bit_and_iff by blast
    then show False using assms(5) by simp
  qed
  have "(oflag OR 8) AND 0xF0F \<noteq> oflag AND 0xF0F"
  proof
    assume e: "(oflag OR 8) AND 0xF0F = oflag AND 0xF0F"
    have "bit ((oflag OR 8) AND 0xF0F) 3" unfolding bit_and_iff bit_or_iff using b by blast
    then have "bit (oflag AND 0xF0F) 3" unfolding e .
    then show False unfolding bit_and_iff using nb by blast
  qed
  then have "open_interface ops a oflag s = call_driver (f oflag) a s" using assms(4,6) unfolding open_interface_def by (auto simp: Let_def)
  then show ?thesis using assms(1-3) by (simp add: rt_device_open_def open_activate_def)
qed

definition echo_ops :: "(gpio, int \<times> nat) device_ops" where
  "echo_ops = pin_ops\<lparr>op_open := Some (\<lambda>oflag d p. Some (0, d, p))\<rparr>"

theorem reopen_calls_driver_witness:
  "rt_device_open (\<lambda>_. echo_ops) 100 3 dev_ex2 =
     Option.bind (call_driver (\<lambda>d p. Some (0, d, p)) 100 dev_ex2) (\<lambda>(r, s1). open_count 100 r s1)"
  by (rule reopen_calls_driver[where f = "\<lambda>oflag d p. Some (0, d, p)"])
    (use dev_ex2_reach(2) in \<open>simp_all add: echo_ops_def dev_ex_open\<close>)

text \<open>Opening the pin device several times.\<close>

primrec open_times :: "nat \<Rightarrow> nat \<Rightarrow> u16 \<Rightarrow> gpio dsys \<Rightarrow> gpio dsys option" where
  "open_times 0 a oflag s = Some s"
| "open_times (Suc n) a oflag s = do { (e, s1) \<leftarrow> rt_device_open (\<lambda>_. pin_ops) a oflag s; open_times n a oflag s1 }"

lemma pin_open_step:
  assumes "is_device a s" "dv_flag (ds_dev s a) AND 8 = 0"
  shows "dv_ref_count (ds_dev s a) + 1 = 0 \<Longrightarrow> rt_device_open (\<lambda>_. pin_ops) a oflag s = None"
    "dv_ref_count (ds_dev s a) + 1 \<noteq> 0 \<Longrightarrow> \<exists>s'. rt_device_open (\<lambda>_. pin_ops) a oflag s = Some (0, s') \<and> is_device a s' \<and>
       dv_flag (ds_dev s' a) AND 8 = 0 \<and> dv_ref_count (ds_dev s' a) = dv_ref_count (ds_dev s a) + 1"
proof -
  obtain s1 where a: "open_activate (\<lambda>_. pin_ops) a s = Some (0, s1)"
    by (cases "dv_flag (ds_dev s a) AND 16 = 0") (simp_all add: open_activate_def pin_ops_def)
  obtain s2 where i: "open_interface (\<lambda>_. pin_ops) a oflag s1 = Some (0, s2)" 
    by (cases "dv_open_flag (ds_dev s1 a) AND 8 = 0 \<or> dv_open_flag (ds_dev s1 a) AND 3855 \<noteq> oflag AND 3855")
      (simp_all add: open_interface_def pin_ops_def)
  have f: "dv_flag (ds_dev s1 a) AND 8 = 0" "dv_flag (ds_dev s2 a) AND 8 = 0" "dv_ref_count (ds_dev s2 a) = dv_ref_count (ds_dev s a)"
    "ds_con s2 = ds_con s"
    using pin.interface_ok(1)[OF i] pin.activate_ok[OF a] assms(2) by (auto simp: dev_step_def same_open_def same_count_def only_dev_def)
  have o: "rt_device_open (\<lambda>_. pin_ops) a oflag s = open_count a 0 s2" using assms(1) a i f(1) by (simp add: rt_device_open_def)
  show "dv_ref_count (ds_dev s a) + 1 = 0 \<Longrightarrow> rt_device_open (\<lambda>_. pin_ops) a oflag s = None" using f o by (simp add: open_count_def)
  show "dv_ref_count (ds_dev s a) + 1 \<noteq> 0 \<Longrightarrow> \<exists>s'. rt_device_open (\<lambda>_. pin_ops) a oflag s = Some (0, s') \<and> is_device a s' \<and>
       dv_flag (ds_dev s' a) AND 8 = 0 \<and> dv_ref_count (ds_dev s' a) = dv_ref_count (ds_dev s a) + 1"
    using f o assms(1) by (simp add: open_count_def Let_def is_device_def)
qed

lemma open_times_count:
  "is_device a s \<Longrightarrow> dv_flag (ds_dev s a) AND 8 = 0 \<Longrightarrow>
   (case open_times n a oflag s of None \<Rightarrow> 255 < unat (dv_ref_count (ds_dev s a)) + n
    | Some s' \<Rightarrow> unat (dv_ref_count (ds_dev s' a)) = unat (dv_ref_count (ds_dev s a)) + n)"
proof (induction n arbitrary: s)
  case (Suc n)
  show ?case
  proof (cases "dv_ref_count (ds_dev s a) + 1 = 0")
    case True
    have m: "unat (255 :: u8) = 255" "(255 :: u8) = - 1" by simp_all
    have "dv_ref_count (ds_dev s a) = 255" unfolding m(2) using True by (simp only: add_eq_0_iff2)
    then have "unat (dv_ref_count (ds_dev s a)) = 255" by (simp only: m(1))
    then show ?thesis using pin_open_step(1)[OF Suc.prems True, of oflag] by simp
  next
    case False
    obtain s' where s': "rt_device_open (\<lambda>_. pin_ops) a oflag s = Some (0, s')" "is_device a s'"
       "dv_flag (ds_dev s' a) AND 8 = 0" "dv_ref_count (ds_dev s' a) = dv_ref_count (ds_dev s a) + 1"
      using pin_open_step(2)[OF Suc.prems False, of oflag] by blast
    have "unat (dv_ref_count (ds_dev s' a)) = Suc (unat (dv_ref_count (ds_dev s a)))"
      using s'(4) False unatSuc[of "dv_ref_count (ds_dev s a)"] by (simp add: add.commute)
    then show ?thesis using Suc.IH[OF s'(2,3)] s'(1) by (auto split: option.splits)
  qed
qed simp

text \<open>
  The count of users has eight bits: a closed pin device can be opened 255 times, and one more time fails
  the assertion that guards the count.
\<close>

theorem device_open_limit:
  assumes "is_device a s" "dv_flag (ds_dev s a) AND RT_DEVICE_FLAG_STANDALONE = 0" "dv_ref_count (ds_dev s a) = 0"
  shows "open_times n a oflag s \<noteq> None \<longleftrightarrow> n \<le> 255"
proof (cases "open_times n a oflag s")
  case None
  then show ?thesis using open_times_count[OF assms(1,2), of n oflag] assms(3) by simp
next
  case (Some s')
  then have "unat (dv_ref_count (ds_dev s' a)) = n" using open_times_count[OF assms(1,2), of n oflag] assms(3) by simp
  then show ?thesis using Some unsigned_less[where ?'a = nat, of "dv_ref_count (ds_dev s' a)"] by simp
qed

theorem device_open_limit_witness: "open_times 256 100 3 dev_ex1 \<noteq> None \<longleftrightarrow> (256 :: nat) \<le> 255"
  by (rule device_open_limit) (use dev_ex1_reach(2) in \<open>simp_all add: dev_ex_register\<close>)

text \<open>
  Writing to and reading from the opened pin device through the device interface is \<^verbatim>\<open>rt_pin_write\<close> and
  \<^verbatim>\<open>rt_pin_read\<close>; on a device that is not open neither reaches the driver and the error number is set.
\<close>

theorem pin_device_transfer:
  assumes "is_device a s"
  shows "if dv_ref_count (ds_dev s a) = 0
    then rt_device_write (\<lambda>_. pin_ops) a pos (Some (pin, v)) 8 s = Some (0, s\<lparr>ds_errno := - RT_ERROR\<rparr>) \<and>
      rt_device_read (\<lambda>_. pin_ops) a pos (Some (pin, v)) 8 s = Some ((0, Some (pin, v)), s\<lparr>ds_errno := - RT_ERROR\<rparr>)
    else rt_device_write (\<lambda>_. pin_ops) a pos (Some (pin, v)) 8 s = Some (8, s\<lparr>ds_drv := rt_pin_write pin v (ds_drv s)\<rparr>) \<and>
      rt_device_read (\<lambda>_. pin_ops) a pos (Some (pin, v)) 8 s = Some ((8, Some (pin, nat (rt_pin_read pin (ds_drv s) mod 256))), s)"
  using assms by (simp add: rt_device_write_def rt_device_read_def pin_ops_def pin_write_dev_def pin_read_dev_def call_driver_def
      rt_pin_write_def rt_pin_read_def put_dev_def)

theorem pin_device_transfer_witness:
  "if dv_ref_count (ds_dev dev_ex2 100) = 0
    then rt_device_write (\<lambda>_. pin_ops) 100 0 (Some (0x12, 1)) 8 dev_ex2 = Some (0, dev_ex2\<lparr>ds_errno := - RT_ERROR\<rparr>) \<and>
      rt_device_read (\<lambda>_. pin_ops) 100 0 (Some (0x12, 1)) 8 dev_ex2 = Some ((0, Some (0x12, 1)), dev_ex2\<lparr>ds_errno := - RT_ERROR\<rparr>)
    else rt_device_write (\<lambda>_. pin_ops) 100 0 (Some (0x12, 1)) 8 dev_ex2 = Some (8, dev_ex2\<lparr>ds_drv := rt_pin_write 0x12 1 (ds_drv dev_ex2)\<rparr>) \<and>
      rt_device_read (\<lambda>_. pin_ops) 100 0 (Some (0x12, 1)) 8 dev_ex2 =
        Some ((8, Some (0x12, nat (rt_pin_read 0x12 (ds_drv dev_ex2) mod 256))), dev_ex2)"
  by (rule pin_device_transfer[OF dev_ex2_reach(2)])

end
