(* ===== verification/KStdio.thy ===== *)
theory KStdio
  imports KString
begin

text \<open>
  Formatted output (\<^verbatim>\<open>klibc/kstdio.c\<close>), in the configuration without \<^verbatim>\<open>long long\<close>: an \<^verbatim>\<open>unsigned long\<close>
  has 32 bits. The format and the strings are read from the memory \<open>rd\<close>, which the buffer does not
  overlap; the buffer is written in the memory \<open>m\<close>. Reading or writing an address that is not mapped, an
  argument that is missing or of the wrong kind, and a loop that does not end are \<open>None\<close>. So is a value
  that leaves the type \<^verbatim>\<open>int\<close> of 32 bits, which C leaves undefined; the place of the next character is a
  pointer of 32 bits that wraps around.
\<close>

section \<open>Characters and flags\<close>

abbreviation (input) ch_space :: u8 where "ch_space \<equiv> 32"
abbreviation (input) ch_hash :: u8 where "ch_hash \<equiv> 35"
abbreviation (input) ch_percent :: u8 where "ch_percent \<equiv> 37"
abbreviation (input) ch_star :: u8 where "ch_star \<equiv> 42"
abbreviation (input) ch_plus :: u8 where "ch_plus \<equiv> 43"
abbreviation (input) ch_minus :: u8 where "ch_minus \<equiv> 45"
abbreviation (input) ch_dot :: u8 where "ch_dot \<equiv> 46"
abbreviation (input) ch_0 :: u8 where "ch_0 \<equiv> 48"
abbreviation (input) ch_E :: u8 where "ch_E \<equiv> 69"
abbreviation (input) ch_F :: u8 where "ch_F \<equiv> 70"
abbreviation (input) ch_G :: u8 where "ch_G \<equiv> 71"
abbreviation (input) ch_H :: u8 where "ch_H \<equiv> 72"
abbreviation (input) ch_L :: u8 where "ch_L \<equiv> 76"
abbreviation (input) ch_X :: u8 where "ch_X \<equiv> 88"
abbreviation (input) ch_b :: u8 where "ch_b \<equiv> 98"
abbreviation (input) ch_c :: u8 where "ch_c \<equiv> 99"
abbreviation (input) ch_d :: u8 where "ch_d \<equiv> 100"
abbreviation (input) ch_e :: u8 where "ch_e \<equiv> 101"
abbreviation (input) ch_f :: u8 where "ch_f \<equiv> 102"
abbreviation (input) ch_g :: u8 where "ch_g \<equiv> 103"
abbreviation (input) ch_h :: u8 where "ch_h \<equiv> 104"
abbreviation (input) ch_i :: u8 where "ch_i \<equiv> 105"
abbreviation (input) ch_l :: u8 where "ch_l \<equiv> 108"
abbreviation (input) ch_o :: u8 where "ch_o \<equiv> 111"
abbreviation (input) ch_p :: u8 where "ch_p \<equiv> 112"
abbreviation (input) ch_s :: u8 where "ch_s \<equiv> 115"
abbreviation (input) ch_u :: u8 where "ch_u \<equiv> 117"
abbreviation (input) ch_x :: u8 where "ch_x \<equiv> 120"
abbreviation (input) ch_z :: u8 where "ch_z \<equiv> 122"

abbreviation (input) ZEROPAD :: u8 where "ZEROPAD \<equiv> 1"
abbreviation (input) SIGN :: u8 where "SIGN \<equiv> 2"
abbreviation (input) PLUS :: u8 where "PLUS \<equiv> 4"
abbreviation (input) SPACE :: u8 where "SPACE \<equiv> 8"
abbreviation (input) LEFT :: u8 where "LEFT \<equiv> 16"
abbreviation (input) SPECIAL :: u8 where "SPECIAL \<equiv> 32"
abbreviation (input) LARGE :: u8 where "LARGE \<equiv> 64"

definition has :: "u8 \<Rightarrow> u8 \<Rightarrow> bool" where
  "has flags f \<longleftrightarrow> flags AND f \<noteq> 0"

definition ISDIGIT :: "u8 \<Rightarrow> bool" where
  "ISDIGIT c \<longleftrightarrow> c - ch_0 < 10"

text \<open>The result of an operation on \<^verbatim>\<open>int\<close>.\<close>

definition int32 :: "int \<Rightarrow> int option" where
  "int32 n = (if - (2 ^ 31) \<le> n \<and> n < 2 ^ 31 then Some n else None)"

section \<open>Output\<close>

text \<open>The place of the next character, and the memory of the buffer.\<close>

type_synonym pout = "nat \<times> kmem"

text \<open>\<^verbatim>\<open>if (buf < end) *buf = c; ++ buf\<close>\<close>

definition put_char :: "nat \<Rightarrow> u8 \<Rightarrow> pout \<Rightarrow> pout option" where
  "put_char e c st = (case st of (buf, m) \<Rightarrow>
     if buf < e then do { m1 \<leftarrow> store buf c m; Some ((buf + 1) mod 2 ^ 32, m1) } else Some ((buf + 1) mod 2 ^ 32, m))"

text \<open>\<^verbatim>\<open>while (size-- > 0)\<close> and \<^verbatim>\<open>while (i < precision--)\<close>, with the last value of the counter.\<close>

function pad_loop :: "nat \<Rightarrow> u8 \<Rightarrow> int \<Rightarrow> int \<Rightarrow> pout \<Rightarrow> (int \<times> pout) option" where
  "pad_loop e c low n st = do {
     n1 \<leftarrow> int32 (n - 1);
     if low < n then do { st1 \<leftarrow> put_char e c st; pad_loop e c low n1 st1 } else Some (n1, st)
   }"
  by auto
termination by (relation "measure (\<lambda>(e, c, low, n, st). nat (n - low))") (auto simp: int32_def split: if_splits)

declare pad_loop.simps [simp del]

section \<open>Numbers\<close>

definition divide :: "u32 \<Rightarrow> u32 \<Rightarrow> u32 \<times> u32" where
  "divide n base = (n mod base, n div base)"

definition small_digits :: "u8 list" where
  "small_digits = [48, 49, 50, 51, 52, 53, 54, 55, 56, 57, 97, 98, 99, 100, 101, 102]"

definition large_digits :: "u8 list" where
  "large_digits = [48, 49, 50, 51, 52, 53, 54, 55, 56, 57, 65, 66, 67, 68, 69, 70]"

text \<open>The loop that fills the array \<^verbatim>\<open>tmp\<close> of 32 characters.\<close>

partial_function (option) digit_loop :: "u8 list \<Rightarrow> u32 \<Rightarrow> u32 \<Rightarrow> nat \<Rightarrow> u8 list \<Rightarrow> (nat \<times> u8 list) option" where
  "digit_loop digits base num i tmp =
     (if num \<noteq> 0
      then let (r, q) = divide num base
           in if i < length tmp \<and> unat r < length digits then digit_loop digits base q (i + 1) (tmp[i := digits ! unat r]) else None
      else Some (i, tmp))"

text \<open>The sign and the number that is left.\<close>

definition get_sign :: "u32 \<Rightarrow> u8 \<Rightarrow> u8 \<Rightarrow> u8 \<times> u32" where
  "get_sign num qualifier type =
     (if has type SIGN
      then let (sign, num1) =
             (if qualifier = ch_h
              then if sint (ucast num :: u16) < 0 then (ch_minus, ucast (ucast (- num) :: u16)) else (0, num)
              else if qualifier = ch_L \<or> qualifier = ch_l
              then if sint num < 0 then (ch_minus, - num) else (0, num)
              else if sint num < 0 then (ch_minus, - num) else (0, num))
           in if sign \<noteq> ch_minus
              then if has type PLUS then (ch_plus, num1) else if has type SPACE then (ch_space, num1) else (sign, num1)
              else (sign, num1)
      else (0, num))"

text \<open>The characters of \<^verbatim>\<open>tmp\<close> from the last to the first.\<close>

primrec digits_loop :: "nat \<Rightarrow> u8 list \<Rightarrow> nat \<Rightarrow> pout \<Rightarrow> pout option" where
  "digits_loop e tmp 0 st = Some st"
| "digits_loop e tmp (Suc i) st = do { st1 \<leftarrow> put_char e (tmp ! i) st; digits_loop e tmp i st1 }"

definition put_special :: "nat \<Rightarrow> u32 \<Rightarrow> u8 \<Rightarrow> pout \<Rightarrow> pout option" where
  "put_special e base type st =
     (if has type SPECIAL
      then if base = 2 then do { st1 \<leftarrow> put_char e ch_0 st; put_char e ch_b st1 }
           else if base = 8 then put_char e ch_0 st
           else if base = 16 then do { st1 \<leftarrow> put_char e ch_0 st; put_char e (if has type LARGE then ch_X else ch_x) st1 }
           else Some st
      else Some st)"

text \<open>The part that prints, from the padding on: \<open>i\<close> digits are in \<^verbatim>\<open>tmp\<close>.\<close>

definition put_number :: "nat \<Rightarrow> u8 \<Rightarrow> u32 \<Rightarrow> u8 \<Rightarrow> nat \<Rightarrow> u8 list \<Rightarrow> int \<Rightarrow> int \<Rightarrow> int \<Rightarrow> pout \<Rightarrow> pout option" where
  "put_number e sign base type i tmp precision precision_bak size1 st = do {
     let c = (if has type ZEROPAD then ch_0 else ch_space);
     (size2, st1) \<leftarrow> (if \<not> has type (ZEROPAD OR LEFT)
        then pad_loop e ch_space 0 (if sign \<noteq> 0 \<and> size1 > 0 then size1 - 1 else size1) st
        else Some (size1, st));
     (size3, st2) \<leftarrow> (if sign \<noteq> 0 then do { st' \<leftarrow> put_char e sign st1; n \<leftarrow> int32 (size2 - 1); Some (n, st') } else Some (size2, st1));
     st3 \<leftarrow> put_special e base type st2;
     (size4, st4) \<leftarrow> (if \<not> has type LEFT then pad_loop e c 0 size3 st3 else Some (size3, st3));
     (_, st5) \<leftarrow> pad_loop e ch_0 (int i) precision st4;
     st6 \<leftarrow> (if precision_bak \<noteq> 0 then digits_loop e tmp i st5 else Some st5);
     (_, st7) \<leftarrow> pad_loop e ch_space 0 size4 st6;
     Some st7
   }"

definition print_number :: "nat \<Rightarrow> u32 \<Rightarrow> u32 \<Rightarrow> u8 \<Rightarrow> int \<Rightarrow> int \<Rightarrow> u8 \<Rightarrow> pout \<Rightarrow> pout option" where
  "print_number e num base qualifier s precision type0 st =
     (let digits = (if has type0 LARGE then large_digits else small_digits);
          type = (if has type0 LEFT then type0 AND NOT ZEROPAD else type0);
          (sign, num1) = get_sign num qualifier type
      in do {
        size0 \<leftarrow> (if has type SPECIAL
          then if base = 2 \<or> base = 16 then int32 (s - 2) else if base = 8 then int32 (s - 1) else Some s
          else Some s);
        (i, tmp) \<leftarrow> (if num1 = 0 then Some (1, (replicate 32 0)[0 := ch_0]) else digit_loop digits base num1 0 (replicate 32 0));
        let prec = (if int i > precision then int i else precision);
        size1 \<leftarrow> int32 (size0 - prec);
        put_number e sign base type i tmp prec precision size1 st
      })"

section \<open>Arguments and directives\<close>

datatype vararg = Word u32 | Double

fun va_word :: "vararg list \<Rightarrow> (u32 \<times> vararg list) option" where
  "va_word (Word w # as) = Some (w, as)"
| "va_word _ = None"

fun va_double :: "vararg list \<Rightarrow> vararg list option" where
  "va_double (Double # as) = Some as"
| "va_double _ = None"

partial_function (option) skip_atoi :: "kmem \<Rightarrow> nat \<Rightarrow> int \<Rightarrow> (nat \<times> int) option" where
  "skip_atoi rd s i = do {
     c \<leftarrow> rd s;
     if ISDIGIT c then do {
       i1 \<leftarrow> int32 (i * 10);
       i2 \<leftarrow> int32 (i1 + uint c);
       i3 \<leftarrow> int32 (i2 - 48);
       skip_atoi rd (s + 1) i3
     }
     else Some (s, i)
   }"

partial_function (option) flag_loop :: "kmem \<Rightarrow> nat \<Rightarrow> u8 \<Rightarrow> (nat \<times> u8) option" where
  "flag_loop rd fmt flags = do {
     c \<leftarrow> rd (fmt + 1);
     if c = ch_minus then flag_loop rd (fmt + 1) (flags OR LEFT)
     else if c = ch_plus then flag_loop rd (fmt + 1) (flags OR PLUS)
     else if c = ch_space then flag_loop rd (fmt + 1) (flags OR SPACE)
     else if c = ch_hash then flag_loop rd (fmt + 1) (flags OR SPECIAL)
     else if c = ch_0 then flag_loop rd (fmt + 1) (flags OR ZEROPAD)
     else Some (fmt + 1, flags)
   }"

definition get_width :: "kmem \<Rightarrow> nat \<Rightarrow> u8 \<Rightarrow> vararg list \<Rightarrow> (nat \<times> int \<times> u8 \<times> vararg list) option" where
  "get_width rd fmt flags args = do {
     c \<leftarrow> rd fmt;
     if ISDIGIT c then do { (fmt1, w) \<leftarrow> skip_atoi rd fmt 0; Some (fmt1, w, flags, args) }
     else if c = ch_star then do {
       (a, args1) \<leftarrow> va_word args;
       if sint a < 0 then do { w \<leftarrow> int32 (- sint a); Some (fmt + 1, w, flags OR LEFT, args1) }
       else Some (fmt + 1, sint a, flags, args1)
     }
     else Some (fmt, - 1, flags, args)
   }"

definition get_precision :: "kmem \<Rightarrow> nat \<Rightarrow> vararg list \<Rightarrow> (nat \<times> int \<times> vararg list) option" where
  "get_precision rd fmt args = do {
     c \<leftarrow> rd fmt;
     if c = ch_dot then do {
       c1 \<leftarrow> rd (fmt + 1);
       (fmt2, precision, args2) \<leftarrow>
         (if ISDIGIT c1 then do { (fmt1, p) \<leftarrow> skip_atoi rd (fmt + 1) 0; Some (fmt1, p, args) }
          else if c1 = ch_star then do { (a, args1) \<leftarrow> va_word args; Some (fmt + 2, sint a, args1) }
          else Some (fmt + 1, - 1, args));
       Some (fmt2, if precision < 0 then 0 else precision, args2)
     }
     else Some (fmt, - 1, args)
   }"

definition get_qualifier :: "kmem \<Rightarrow> nat \<Rightarrow> (nat \<times> u8) option" where
  "get_qualifier rd fmt = do {
     c \<leftarrow> rd fmt;
     if c = ch_h \<or> c = ch_l \<or> c = ch_z
     then do {
       c1 \<leftarrow> rd (fmt + 1);
       Some (if c = ch_h \<and> c1 = ch_h then (fmt + 2, ch_H) else (fmt + 1, c))
     }
     else Some (fmt, 0)
   }"

text \<open>The value of an integer argument, by its qualifier; a \<^verbatim>\<open>char\<close> or \<^verbatim>\<open>short\<close> is extended to 32 bits.\<close>

definition get_num :: "u8 \<Rightarrow> u8 \<Rightarrow> u32 \<Rightarrow> u32" where
  "get_num qualifier flags a =
     (if qualifier = ch_L \<or> qualifier = ch_l then a
      else if qualifier = ch_H then scast (ucast a :: u8)
      else if qualifier = ch_h then if has flags SIGN then scast (ucast a :: u16) else ucast (ucast a :: u16)
      else a)"

text \<open>What a directive asks to print.\<close>

datatype item =
    Chr u8 int u8
  | Txt u8 int int u32
  | Num u32 u32 u8 int int u8
  | Raw "u8 list"

text \<open>
  The \<^verbatim>\<open>switch\<close> of \<^verbatim>\<open>rt_vsnprintf\<close>: where the directive ends, the arguments that are left, and what to
  print.
\<close>

definition num_base :: "u8 \<Rightarrow> u8 \<Rightarrow> (u32 \<times> u8) option" where
  "num_base c flags =
     (if c = ch_b then Some (2, flags)
      else if c = ch_o then Some (8, flags)
      else if c = ch_X then Some (16, flags OR LARGE)
      else if c = ch_x then Some (16, flags)
      else if c = ch_d \<or> c = ch_i then Some (10, flags OR SIGN)
      else if c = ch_u then Some (10, flags)
      else None)"

definition get_item :: "kmem \<Rightarrow> nat \<Rightarrow> u8 \<Rightarrow> int \<Rightarrow> int \<Rightarrow> u8 \<Rightarrow> vararg list \<Rightarrow> (nat \<times> vararg list \<times> item) option" where
  "get_item rd fmt flags field_width precision qualifier args = do {
     c \<leftarrow> rd fmt;
     if c = ch_c then do { (a, args1) \<leftarrow> va_word args; Some (fmt, args1, Chr flags field_width (ucast a)) }
     else if c = ch_s then do { (a, args1) \<leftarrow> va_word args; Some (fmt, args1, Txt flags field_width precision a) }
     else if c = ch_p then do {
       (a, args1) \<leftarrow> va_word args;
       Some (fmt, args1,
         if field_width = - 1 then Num a 16 qualifier 10 precision (flags OR SPECIAL OR ZEROPAD)
         else Num a 16 qualifier field_width precision flags)
     }
     else if c = ch_percent then Some (fmt, args, Raw [ch_percent])
     else case num_base c flags of
       Some (base, flags1) \<Rightarrow> do {
         (a, args1) \<leftarrow> va_word args;
         Some (fmt, args1, Num (get_num qualifier flags1 a) base qualifier field_width precision flags1)
       }
     | None \<Rightarrow> do {
         args1 \<leftarrow> (if c \<in> {ch_e, ch_E, ch_G, ch_g, ch_f, ch_F} then va_double args else Some args);
         Some (if c \<noteq> 0 then (fmt, args1, Raw [ch_percent, c]) else (fmt - 1, args1, Raw [ch_percent]))
       }
   }"

definition get_directive :: "kmem \<Rightarrow> nat \<Rightarrow> vararg list \<Rightarrow> (nat \<times> vararg list \<times> item) option" where
  "get_directive rd fmt args = do {
     (fmt1, flags) \<leftarrow> flag_loop rd fmt 0;
     (fmt2, field_width, flags1, args1) \<leftarrow> get_width rd fmt1 flags args;
     (fmt3, precision, args2) \<leftarrow> get_precision rd fmt2 args1;
     (fmt4, qualifier) \<leftarrow> get_qualifier rd fmt3;
     get_item rd fmt4 flags1 field_width precision qualifier args2
   }"

section \<open>Printing\<close>

text \<open>The string of an argument, by position; the null pointer stands for a text of its own.\<close>

definition string_at :: "kmem \<Rightarrow> u32 \<Rightarrow> nat \<Rightarrow> u8 option" where
  "string_at rd a k = (if a = 0 then (let t = [40, 78, 85, 76, 76, 41, 0] in if k < length t then Some (t ! k) else None) else rd (unat a + k))"

partial_function (option) len_loop :: "(nat \<Rightarrow> u8 option) \<Rightarrow> int \<Rightarrow> nat \<Rightarrow> nat option" where
  "len_loop s field_width len =
     (if int len \<noteq> field_width
      then do { c \<leftarrow> s len; if c \<noteq> 0 then do { _ \<leftarrow> int32 (int len + 1); len_loop s field_width (len + 1) } else Some len }
      else Some len)"

primrec copy_loop :: "nat \<Rightarrow> (nat \<Rightarrow> u8 option) \<Rightarrow> nat \<Rightarrow> nat \<Rightarrow> pout \<Rightarrow> pout option" where
  "copy_loop e s i 0 st = Some st"
| "copy_loop e s i (Suc n) st = do { c \<leftarrow> s i; st1 \<leftarrow> put_char e c st; copy_loop e s (i + 1) n st1 }"

primrec raw_loop :: "nat \<Rightarrow> u8 list \<Rightarrow> pout \<Rightarrow> pout option" where
  "raw_loop e [] st = Some st"
| "raw_loop e (c # cs) st = do { st1 \<leftarrow> put_char e c st; raw_loop e cs st1 }"

text \<open>\<^verbatim>\<open>while (--field_width > 0)\<close>, with the last value of the counter.\<close>

function width_loop :: "nat \<Rightarrow> int \<Rightarrow> pout \<Rightarrow> (int \<times> pout) option" where
  "width_loop e n st = do {
     n1 \<leftarrow> int32 (n - 1);
     if n1 > 0 then do { st1 \<leftarrow> put_char e ch_space st; width_loop e n1 st1 } else Some (n1, st)
   }"
  by auto
termination by (relation "measure (\<lambda>(e, n, st). nat n)") (auto simp: int32_def split: if_splits)

declare width_loop.simps [simp del]

fun print_item :: "kmem \<Rightarrow> nat \<Rightarrow> item \<Rightarrow> pout \<Rightarrow> pout option" where
  "print_item rd e (Chr flags field_width c) st = do {
     (w, st1) \<leftarrow> (if \<not> has flags LEFT then width_loop e field_width st else Some (field_width, st));
     st2 \<leftarrow> put_char e c st1;
     (_, st3) \<leftarrow> width_loop e w st2;
     Some st3
   }"
| "print_item rd e (Txt flags field_width precision a) st = do {
     let s = string_at rd a;
     len0 \<leftarrow> len_loop s field_width 0;
     let len = (if precision > 0 \<and> int len0 > precision then nat precision else len0);
     (w, st1) \<leftarrow> (if \<not> has flags LEFT then pad_loop e ch_space (int len) field_width st else Some (field_width, st));
     st2 \<leftarrow> copy_loop e s 0 len st1;
     (_, st3) \<leftarrow> pad_loop e ch_space (int len) w st2;
     Some st3
   }"
| "print_item rd e (Num num base qualifier field_width precision flags) st =
     print_number e num base qualifier field_width precision flags st"
| "print_item rd e (Raw cs) st = raw_loop e cs st"

partial_function (option) fmt_loop :: "kmem \<Rightarrow> nat \<Rightarrow> nat \<Rightarrow> vararg list \<Rightarrow> pout \<Rightarrow> pout option" where
  "fmt_loop rd e fmt args st = do {
     c \<leftarrow> rd fmt;
     if c = 0 then Some st
     else if c \<noteq> ch_percent then do { st1 \<leftarrow> put_char e c st; fmt_loop rd e (fmt + 1) args st1 }
     else do {
       (fmt1, args1, it) \<leftarrow> get_directive rd fmt args;
       st1 \<leftarrow> print_item rd e it st;
       fmt_loop rd e (fmt1 + 1) args1 st1
     }
   }"

definition rt_vsnprintf :: "kmem \<Rightarrow> nat \<Rightarrow> nat \<Rightarrow> nat \<Rightarrow> vararg list \<Rightarrow> kmem \<Rightarrow> (int \<times> kmem) option" where
  "rt_vsnprintf rd buf sz0 fmt args m = do {
     let e0 = (buf + sz0) mod 2 ^ 32;
     let (e, sz) = (if e0 < buf then (2 ^ 32 - 1, 2 ^ 32 - 1 - buf) else (e0, sz0));
     (str, m1) \<leftarrow> fmt_loop rd e fmt args (buf, m);
     m2 \<leftarrow> (if sz > 0 then if str < e then store str 0 m1 else store (e - 1) 0 m1 else Some m1);
     Some (sint (word_of_int (int str - int buf) :: u32), m2)
   }"

definition rt_snprintf :: "kmem \<Rightarrow> nat \<Rightarrow> nat \<Rightarrow> nat \<Rightarrow> vararg list \<Rightarrow> kmem \<Rightarrow> (int \<times> kmem) option" where
  "rt_snprintf rd buf sz fmt args m = rt_vsnprintf rd buf sz fmt args m"

definition rt_vsprintf :: "kmem \<Rightarrow> nat \<Rightarrow> nat \<Rightarrow> vararg list \<Rightarrow> kmem \<Rightarrow> (int \<times> kmem) option" where
  "rt_vsprintf rd buf fmt args m = rt_vsnprintf rd buf (2 ^ 32 - 1) fmt args m"

definition rt_sprintf :: "kmem \<Rightarrow> nat \<Rightarrow> nat \<Rightarrow> vararg list \<Rightarrow> kmem \<Rightarrow> (int \<times> kmem) option" where
  "rt_sprintf rd buf fmt args m = rt_vsprintf rd buf fmt args m"

section \<open>What the output holds\<close>

lemma int32_ok: "- (2 ^ 31) \<le> n \<Longrightarrow> n < 2 ^ 31 \<Longrightarrow> int32 n = Some n"
  by (simp add: int32_def)

lemma int32_eq: "int32 n = Some k \<longleftrightarrow> k = n \<and> - (2 ^ 31) \<le> n \<and> n < 2 ^ 31"
  by (auto simp: int32_def)

text \<open>Every loop prints a text: it does what \<open>raw_loop\<close> does with that text.\<close>

lemma raw_loop_append [simp]: "raw_loop e (cs @ ds) = (\<lambda>st. Option.bind (raw_loop e cs st) (raw_loop e ds))"
proof
  show "raw_loop e (cs @ ds) st = Option.bind (raw_loop e cs st) (raw_loop e ds)" for st
    by (induction cs arbitrary: st) simp_all
qed

lemma raw_loop_step [simp]: "raw_loop e [] = Some" "raw_loop e (c # cs) = (\<lambda>st. Option.bind (put_char e c st) (raw_loop e cs))"
  by (simp_all add: fun_eq_iff)

lemma pad_loop_raw:
  "- (2 ^ 31) < n \<Longrightarrow> n < 2 ^ 31 \<Longrightarrow> - (2 ^ 31) < low \<Longrightarrow>
   pad_loop e c low n st =
     do { st1 \<leftarrow> raw_loop e (replicate (nat (n - low)) c) st; Some ((if low < n then low else n) - 1, st1) }"
proof (induction "nat (n - low)" arbitrary: n st)
  case 0
  then show ?case by (subst pad_loop.simps) (simp add: int32_ok)
next
  case (Suc k)
  have n: "low < n" "nat (n - low) = Suc (nat (n - 1 - low))" using Suc.hyps(2) by auto
  have "pad_loop e c low (n - 1) st1 =
      do { st2 \<leftarrow> raw_loop e (replicate (nat (n - 1 - low)) c) st1; Some ((if low < n - 1 then low else n - 1) - 1, st2) }" for st1
    using Suc.prems n Suc.hyps(2) by (intro Suc.hyps(1)) auto
  then show ?case using Suc.prems n by (subst pad_loop.simps) (auto simp: int32_ok intro!: Option.bind_cong)
qed

lemma width_loop_raw:
  "- (2 ^ 31) < n \<Longrightarrow> n < 2 ^ 31 \<Longrightarrow>
   width_loop e n st =
     do { st1 \<leftarrow> raw_loop e (replicate (nat (n - 1)) ch_space) st; Some ((if 1 < n then 0 else n - 1), st1) }"
proof (induction "nat (n - 1)" arbitrary: n st)
  case 0
  then show ?case by (subst width_loop.simps) (simp add: int32_ok)
next
  case (Suc k)
  have n: "1 < n" "nat (n - 1) = Suc (nat (n - 1 - 1))" using Suc.hyps(2) by auto
  have "width_loop e (n - 1) st1 =
      do { st2 \<leftarrow> raw_loop e (replicate (nat (n - 1 - 1)) ch_space) st1; Some ((if 1 < n - 1 then 0 else n - 1 - 1), st2) }" for st1
    using Suc.prems n Suc.hyps(2) by (intro Suc.hyps(1)) auto
  then show ?case using Suc.prems n by (subst width_loop.simps) (auto simp: int32_ok intro!: Option.bind_cong)
qed

lemma digits_loop_raw: "i \<le> length tmp \<Longrightarrow> digits_loop e tmp i st = raw_loop e (rev (take i tmp)) st"
  by (induction i arbitrary: st) (simp_all add: take_Suc_conv_app_nth)

lemma copy_loop_raw:
  "(\<And>k. k < n \<Longrightarrow> s (i + k) = Some (f k)) \<Longrightarrow> copy_loop e s i n st = raw_loop e (map f [0..<n]) st"
proof (induction n arbitrary: i st f)
  case (Suc n)
  have "copy_loop e s (i + 1) n st1 = raw_loop e (map (\<lambda>k. f (Suc k)) [0..<n]) st1" for st1
    using Suc.IH[of "i + 1" "\<lambda>k. f (Suc k)"] Suc.prems[of "Suc _"] by simp
  moreover have "map f [0..<Suc n] = f 0 # map (\<lambda>k. f (Suc k)) [0..<n]" by (simp add: upt_conv_Cons map_Suc_upt[symmetric] del: upt_Suc)
  ultimately show ?case using Suc.prems[of 0] by simp
qed simp

text \<open>From the current place to the end of the buffer the memory can be written.\<close>

definition room :: "nat \<Rightarrow> pout \<Rightarrow> bool" where
  "room e st \<longleftrightarrow> mapped (snd st) (fst st) (e - fst st)"

text \<open>Printing the text \<open>cs\<close>: what fits is stored, the place moves by all of it.\<close>

definition out_put :: "nat \<Rightarrow> u8 list \<Rightarrow> pout \<Rightarrow> pout" where
  "out_put e cs st = (fst st + length cs, mem_put (fst st) (take (e - fst st) cs) (snd st))"

lemma mapped_put [simp]: "mapped m a n \<Longrightarrow> mapped (mem_put b ys m) a n"
  by (simp add: mapped_def mem_put_def)

lemma room_put [simp]: "room e st \<Longrightarrow> room e (out_put e cs st)"
  unfolding room_def out_put_def by (auto simp: mapped_def mem_put_def)

lemma put_char_ok: "room e st \<Longrightarrow> fst st + 1 < 2 ^ 32 \<Longrightarrow> put_char e c st = Some (out_put e [c] st)"
  by (cases st) (auto simp: put_char_def room_def out_put_def store_ok)

lemma fst_out_put [simp]: "fst (out_put e cs st) = fst st + length cs"
  by (simp add: out_put_def)

lemma out_put_Nil [simp]: "out_put e [] st = st"
  by (simp add: out_put_def)

lemma out_put_put [simp]: "out_put e ds (out_put e cs st) = out_put e (cs @ ds) st"
proof -
  have "mem_put (a + length cs) (take (e - (a + length cs)) ds) (mem_put a (take (e - a) cs) m) x =
      mem_put a (take (e - a) (cs @ ds)) m x" for a m x
    by (cases "x < a + length cs") (auto simp: mem_put_def nth_append min_def add.commute)
  then show ?thesis by (auto simp: out_put_def add.assoc)
qed

lemma raw_loop_ok: "room e st \<Longrightarrow> fst st + length cs < 2 ^ 32 \<Longrightarrow> raw_loop e cs st = Some (out_put e cs st)"
proof (induction cs arbitrary: st)
  case (Cons c cs)
  have "raw_loop e cs (out_put e [c] st) = Some (out_put e cs (out_put e [c] st))"
    using Cons.prems by (intro Cons.IH) simp_all
  then show ?case using Cons.prems by (simp add: put_char_ok)
qed simp

section \<open>The text of a number\<close>

text \<open>The digits of a number, the last one first.\<close>

fun lsd :: "nat \<Rightarrow> nat \<Rightarrow> nat list" where
  "lsd b n = (if n = 0 \<or> b < 2 then [] else n mod b # lsd b (n div b))"

declare lsd.simps [simp del]

lemma lsd_0 [simp]: "lsd b 0 = []" by (simp add: lsd.simps)

lemma lsd_step: "n \<noteq> 0 \<Longrightarrow> 2 \<le> b \<Longrightarrow> lsd b n = n mod b # lsd b (n div b)"
  by (subst lsd.simps) simp

lemma lsd_value: "2 \<le> b \<Longrightarrow> foldr (\<lambda>d v. d + b * v) (lsd b n) 0 = n"
proof (induction b n rule: lsd.induct)
  case (1 b n)
  then show ?case by (cases "n = 0") (simp_all add: lsd_step)
qed

lemma lsd_length: "n < 2 ^ k \<Longrightarrow> length (lsd b n) \<le> k"
proof (induction k arbitrary: n)
  case (Suc k)
  show ?case
  proof (cases "n = 0 \<or> b < 2")
    case False
    then have "n div b \<le> n div 2" by (intro div_le_mono2) auto
    then have "n div b < 2 ^ k" using Suc.prems by auto
    from Suc.IH[OF this] show ?thesis using False by (simp add: lsd_step)
  qed (auto simp: lsd.simps)
qed simp

lemma lsd_digits: "2 \<le> b \<Longrightarrow> d \<in> set (lsd b n) \<Longrightarrow> d < b"
proof (induction b n rule: lsd.induct)
  case (1 b n)
  then show ?case by (cases "n = 0") (auto simp: lsd_step)
qed

lemma digit_loop_ok:
  assumes "2 \<le> unat base" "unat base \<le> length digits"
  shows "i + length (lsd (unat base) (unat num)) \<le> length tmp \<Longrightarrow>
    digit_loop digits base num i tmp = Some (i + length (lsd (unat base) (unat num)),
      take i tmp @ map ((!) digits) (lsd (unat base) (unat num)) @ drop (i + length (lsd (unat base) (unat num))) tmp)"
proof (induction "unat num" arbitrary: num i tmp rule: less_induct)
  case less
  show ?case
  proof (cases "num = 0")
    case True
    then show ?thesis by (subst digit_loop.simps) simp
  next
    case False
    let ?b = "unat base" and ?q = "num div base" and ?d = "digits ! (unat num mod unat base)"
    have n0: "unat num \<noteq> 0" using False by (simp add: unat_eq_0)
    have q: "unat ?q = unat num div ?b" "unat (num mod base) = unat num mod ?b" by (simp_all add: unat_div unat_mod)
    have lt: "unat ?q < unat num" using q(1) n0 assms(1) by simp
    have l: "lsd ?b (unat num) = unat num mod ?b # lsd ?b (unat ?q)" using lsd_step[OF n0 assms(1)] q(1) by simp
    have it: "i < length tmp" using less.prems l by simp
    have "unat num mod ?b < length digits" using assms mod_less_divisor[of ?b "unat num"] by linarith
    then have "digit_loop digits base num i tmp = digit_loop digits base ?q (i + 1) (tmp[i := ?d])"
      using False it q(2) by (subst digit_loop.simps) (simp add: divide_def)
    also have "\<dots> = Some (i + 1 + length (lsd ?b (unat ?q)), take (i + 1) (tmp[i := ?d]) @ map ((!) digits) (lsd ?b (unat ?q)) @
        drop (i + 1 + length (lsd ?b (unat ?q))) (tmp[i := ?d]))"
      by (rule less.hyps[OF lt]) (use less.prems l in simp)
    finally show ?thesis using l it by (simp add: take_Suc_conv_app_nth)
  qed
qed

text \<open>
  The text of a number: a sign, the prefix of the base, zeros up to the precision and the digits, filled up
  to the width with spaces behind it, with zeros after the prefix, or with spaces in front of it. With the
  precision 0 the digits are left out.
\<close>

definition number_digits :: "u8 \<Rightarrow> nat \<Rightarrow> nat \<Rightarrow> u8 list" where
  "number_digits type b n =
     (if n = 0 then [ch_0] else rev (map ((!) (if has type LARGE then large_digits else small_digits)) (lsd b n)))"

definition special_text :: "u32 \<Rightarrow> u8 \<Rightarrow> u8 list" where
  "special_text base type =
     (if has type SPECIAL
      then if base = 2 then [ch_0, ch_b] else if base = 8 then [ch_0]
           else if base = 16 then [ch_0, if has type LARGE then ch_X else ch_x] else []
      else [])"

definition number_text :: "u32 \<Rightarrow> u32 \<Rightarrow> u8 \<Rightarrow> int \<Rightarrow> int \<Rightarrow> u8 \<Rightarrow> u8 list" where
  "number_text num base qualifier width precision type =
     (let (sign, num1) = get_sign num qualifier type;
          dg = number_digits type (unat base) (unat num1);
          sg = (if sign \<noteq> 0 then [sign] else []);
          pf = special_text base type;
          zs = replicate (nat (precision - int (length dg))) ch_0;
          pad = nat (width - int (length sg) - int (length pf) - max (int (length dg)) precision);
          body = zs @ (if precision \<noteq> 0 then dg else [])
      in if has type LEFT then sg @ pf @ body @ replicate pad ch_space
         else if has type ZEROPAD then sg @ pf @ replicate pad ch_0 @ body
         else replicate pad ch_space @ sg @ pf @ body)"

lemma has_cleared:
  "\<not> has (t AND NOT 1) 1" "has (t AND NOT 1) 2 = has t 2" "has (t AND NOT 1) 4 = has t 4" "has (t AND NOT 1) 8 = has t 8"
  "has (t AND NOT 1) 16 = has t 16" "has (t AND NOT 1) 32 = has t 32" "has (t AND NOT 1) 64 = has t 64"
  by (simp_all add: has_def and.assoc)

lemma has_either: "has t (1 OR 16) \<longleftrightarrow> has t 1 \<or> has t 16"
  unfolding has_def by (subst bit.conj_disj_distrib) (simp add: or_eq_0_iff)

lemma get_sign_cleared: "get_sign num q (t AND NOT 1) = get_sign num q t"
  by (simp only: get_sign_def has_cleared)

lemma put_special_raw: "put_special e base t st = raw_loop e (special_text base t) st"
  by (simp add: put_special_def special_text_def)

lemma special_cleared: "special_text base (t AND NOT 1) = special_text base t"
  by (simp only: special_text_def has_cleared)

lemma special_size:
  "base \<in> {2, 8, 10, 16} \<Longrightarrow> - (2 ^ 30) \<le> s \<Longrightarrow> s \<le> 2 ^ 30 \<Longrightarrow>
   (if has t SPECIAL then if base = 2 \<or> base = 16 then int32 (s - 2) else if base = 8 then int32 (s - 1) else Some s else Some s) =
     Some (s - int (length (special_text base t)))"
  by (auto simp: special_text_def int32_ok)

lemma special_short: "length (special_text base t) \<le> 2"
  by (simp add: special_text_def)

lemma digit_array:
  assumes "base \<in> {2, 8, 10, 16}"
  obtains tmp where
    "(if num = 0 then Some (1, (replicate 32 0)[0 := ch_0])
      else digit_loop (if has t LARGE then large_digits else small_digits) base num 0 (replicate 32 0)) =
      Some (length (number_digits t (unat base) (unat num)), tmp)"
    "take (length (number_digits t (unat base) (unat num))) tmp = rev (number_digits t (unat base) (unat num))"
    "length (number_digits t (unat base) (unat num)) \<le> length tmp"
proof (cases "num = 0")
  case True
  show thesis
    by (rule that[of "(replicate 32 0)[0 := ch_0]"]) (use True in \<open>simp_all add: number_digits_def take_Suc_conv_app_nth\<close>)
next
  case False
  let ?ds = "if has t LARGE then large_digits else small_digits" and ?l = "lsd (unat base) (unat num)"
  have b: "2 \<le> unat base" "unat base \<le> length ?ds" using assms by (auto simp: large_digits_def small_digits_def)
  have "unat num < 2 ^ 32" using unsigned_less[where ?'a = nat, of num] by simp
  then have "length ?l \<le> 32" by (rule lsd_length)
  then have d: "digit_loop ?ds base num 0 (replicate 32 0) =
      Some (0 + length ?l, take 0 (replicate 32 0) @ map ((!) ?ds) ?l @ drop (0 + length ?l) (replicate 32 0))"
    by (intro digit_loop_ok[OF b]) simp
  have nd: "number_digits t (unat base) (unat num) = rev (map ((!) ?ds) ?l)" using False by (simp add: number_digits_def unat_eq_0)
  show thesis
    by (rule that[of "map ((!) ?ds) ?l @ drop (length ?l) (replicate 32 0)"]) (use False d nd in simp_all)
qed

lemma put_number_raw:
  assumes z: "\<not> (has type 1 \<and> has type 16)" and p: "int (length dg) \<le> p" "p \<le> 2 ^ 30"
    and sz: "- (2 ^ 31) + 10 < sz" "sz \<le> 2 ^ 30"
    and t: "take (length dg) tmp = rev dg" "length dg \<le> length tmp"
  shows "put_number e sign base type (length dg) tmp p pb sz st = raw_loop e
    (let sg = (if sign \<noteq> 0 then [sign] else []); pad = nat (sz - int (length sg));
         body = replicate (nat (p - int (length dg))) ch_0 @ (if pb \<noteq> 0 then dg else [])
     in if has type 16 then sg @ special_text base type @ body @ replicate pad ch_space
        else if has type 1 then sg @ special_text base type @ replicate pad ch_0 @ body
        else replicate pad ch_space @ sg @ special_text base type @ body) st"
proof -
  have dl: "digits_loop e tmp (length dg) st1 = raw_loop e dg st1" for st1
    using digits_loop_raw[OF t(2), of e st1] t(1) by simp
  have e17: "has type 17 \<longleftrightarrow> has type 1 \<or> has type 16" using has_either[of type] by simp
  have P: "pad_loop e c 0 n st1 = do { st2 \<leftarrow> raw_loop e (replicate (nat n) c) st1; Some (min 0 n - 1, st2) }"
    if "- (2 ^ 31) < n" "n \<le> 2 ^ 30" for c n st1
    using that by (subst pad_loop_raw) (auto simp: min_def)
  have Z: "pad_loop e ch_0 (int (length dg)) p st1 =
      do { st2 \<leftarrow> raw_loop e (replicate (nat (p - int (length dg))) ch_0) st1;
        Some ((if int (length dg) < p then int (length dg) else p) - 1, st2) }" for st1
    using p by (subst pad_loop_raw) auto
  consider "has type 16" | "\<not> has type 16" "has type 1" | "\<not> has type 16" "\<not> has type 1" by blast
  then show ?thesis
  proof cases
    case 1
    then show ?thesis
      using z sz by (cases "sign = 0"; cases "pb = 0") (simp_all add: put_number_def Let_def e17 put_special_raw dl int32_ok P Z)
  next
    case 2
    then show ?thesis
      using z sz by (cases "sign = 0"; cases "pb = 0") (simp_all add: put_number_def Let_def e17 put_special_raw dl int32_ok P Z)
  next
    case 3
    then show ?thesis
      using z sz by (cases "sign = 0"; cases "pb = 0"; cases "0 < sz") (simp_all add: put_number_def Let_def e17 put_special_raw dl int32_ok P Z)
  qed
qed

lemma number_digits_short: "2 \<le> unat base \<Longrightarrow> length (number_digits t (unat base) (unat (num :: u32))) \<le> 32"
  using lsd_length[of "unat num" 32 "unat base"] unsigned_less[where ?'a = nat, of num] by (simp add: number_digits_def)

lemma print_number_raw:
  assumes b: "base \<in> {2, 8, 10, 16}" and s: "- 1 \<le> s" "s \<le> 2 ^ 30" and p: "p \<le> 2 ^ 30"
  shows "print_number e num base q s p t st = raw_loop e (number_text num base q s p t) st"
proof -
  obtain sign num1 where sg: "get_sign num q t = (sign, num1)" by fastforce
  let ?dg = "number_digits t (unat base) (unat num1)" and ?pf = "special_text base t"
  obtain tmp where a: "(if num1 = 0 then Some (1, (replicate 32 0)[0 := ch_0])
      else digit_loop (if has t LARGE then large_digits else small_digits) base num1 0 (replicate 32 0)) = Some (length ?dg, tmp)"
    "take (length ?dg) tmp = rev ?dg" "length ?dg \<le> length tmp"
    using digit_array[OF b] .
  define type where "type = (if has t LEFT then t AND NOT ZEROPAD else t)"
  have ty: "has type 1 \<longleftrightarrow> has t 1 \<and> \<not> has t 16" "has type 16 = has t 16"
    "get_sign num q type = (sign, num1)" "special_text base type = ?pf"
    unfolding type_def using sg has_cleared[of t] get_sign_cleared[of num q t] special_cleared[of base t] by (cases "has t 16"; simp)+
  have mx: "(if int (length ?dg) > p then int (length ?dg) else p) = max (int (length ?dg)) p" by (simp add: max_def)
  have "length ?dg \<le> 32" using b by (intro number_digits_short) auto
  then have m: "max (int (length ?dg)) p \<le> 2 ^ 30" using p by simp
  let ?sz = "s - int (length ?pf) - max (int (length ?dg)) p"
  have sz: "- (2 ^ 31) + 10 < ?sz" "?sz \<le> 2 ^ 30"
    using s m special_short[of base t] by (simp_all, linarith+)
  have i32: "int32 ?sz = Some ?sz" using sz by (intro int32_ok) simp_all
  have s': "- (2 ^ 30) \<le> s" using s(1) by simp
  have "print_number e num base q s p t st =
      put_number e sign base type (length ?dg) tmp (max (int (length ?dg)) p) p ?sz st"
    unfolding print_number_def Let_def type_def[symmetric] ty(3) prod.case special_size[OF b s' s(2)] ty(4) a(1) bind.bind_lunit mx i32 ..
  also have "\<dots> = raw_loop e (number_text num base q s p t) st"
  proof -
    have i: "nat (?sz - int (length sg)) =
        nat (s - int (length sg) - int (length ?pf) - max (int (length ?dg)) p)" for sg :: "u8 list" by (simp add: algebra_simps)
    have zs: "nat (max (int (length ?dg)) p - int (length ?dg)) = nat (p - int (length ?dg))" by simp
    have z: "\<not> (has type 1 \<and> has type 16)" using ty(1,2) by simp
    show ?thesis
      unfolding put_number_raw[OF z max.cobounded1 m sz a(2,3)] number_text_def sg Let_def prod.case ty(4) i zs
      using ty(1,2) by (cases "has t 16"; cases "has t 1") (simp_all del: raw_loop_append)
  qed
  finally show ?thesis .
qed

section \<open>The text of a format\<close>

fun item_text :: "kmem \<Rightarrow> item \<Rightarrow> u8 list option" where
  "item_text rd (Chr flags w c) =
     Some (let pad = replicate (nat (w - 1)) ch_space in if has flags LEFT then c # pad else pad @ [c])"
| "item_text rd (Txt flags w precision a) = do {
     len0 \<leftarrow> len_loop (string_at rd a) w 0;
     let len = (if precision > 0 \<and> int len0 > precision then nat precision else len0);
     let cs = map (\<lambda>k. the (string_at rd a k)) [0..<len];
     let pad = replicate (nat (w - int len)) ch_space;
     Some (if has flags LEFT then cs @ pad else pad @ cs)
   }"
| "item_text rd (Num num base qualifier w precision flags) = Some (number_text num base qualifier w precision flags)"
| "item_text rd (Raw cs) = Some cs"

text \<open>Widths and precisions up to \<open>2\<^sup>3\<^sup>0\<close>: no counter of the loops leaves the type \<^verbatim>\<open>int\<close>.\<close>

fun item_ok :: "item \<Rightarrow> bool" where
  "item_ok (Chr flags w c) \<longleftrightarrow> - 1 \<le> w \<and> w \<le> 2 ^ 30"
| "item_ok (Txt flags w precision a) \<longleftrightarrow> - 1 \<le> w \<and> w \<le> 2 ^ 30"
| "item_ok (Num num base qualifier w precision flags) \<longleftrightarrow> - 1 \<le> w \<and> w \<le> 2 ^ 30 \<and> precision \<le> 2 ^ 30"
| "item_ok (Raw cs) \<longleftrightarrow> True"

partial_function (option) fmt_text :: "kmem \<Rightarrow> nat \<Rightarrow> vararg list \<Rightarrow> u8 list option" where
  "fmt_text rd fmt args = do {
     c \<leftarrow> rd fmt;
     if c = 0 then Some []
     else if c \<noteq> ch_percent then do { t \<leftarrow> fmt_text rd (fmt + 1) args; Some (c # t) }
     else do {
       (fmt1, args1, it) \<leftarrow> get_directive rd fmt args;
       t \<leftarrow> (if item_ok it then item_text rd it else None);
       u \<leftarrow> fmt_text rd (fmt1 + 1) args1;
       Some (t @ u)
     }
   }"

lemmas len_loop_induct = len_loop.raw_induct [rotated, consumes 1, case_names step]
lemmas fmt_text_induct = fmt_text.raw_induct [rotated, consumes 1, case_names step]

lemma len_loop_range: "len_loop s w len = Some n \<Longrightarrow> len \<le> n \<and> (\<forall>k. len \<le> k \<longrightarrow> k < n \<longrightarrow> s k \<noteq> None)"
proof (induction s w len n rule: len_loop_induct)
  case (step len_loop s w len n)
  show ?case
  proof (cases "int len \<noteq> w \<and> s len \<noteq> None \<and> s len \<noteq> Some 0")
    case True
    then have "len_loop s w (len + 1) = Some n" using step(2) by (auto split: bind_splits)
    then have "len + 1 \<le> n \<and> (\<forall>k. len + 1 \<le> k \<longrightarrow> k < n \<longrightarrow> s k \<noteq> None)" using step(1) by blast
    then show ?thesis using True by (metis Suc_eq_plus1 le_antisym not_less_eq_eq Suc_leD)
  next
    case False
    then have "n = len" using step(2) by (auto split: if_splits bind_splits)
    then show ?thesis by simp
  qed
qed

text \<open>The bases of the numbers that \<^verbatim>\<open>rt_vsnprintf\<close> prints.\<close>

fun base_ok :: "item \<Rightarrow> bool" where
  "base_ok (Num num base qualifier w precision flags) \<longleftrightarrow> base \<in> {2, 8, 10, 16}"
| "base_ok _ \<longleftrightarrow> True"

lemma num_base_ok: "num_base c f = Some (b, f') \<Longrightarrow> b \<in> {2, 8, 10, 16}"
  by (auto simp: num_base_def split: if_splits)

lemma get_item_base: "get_item rd fmt flags w p q args = Some (fmt', args', it) \<Longrightarrow> base_ok it"
  by (auto simp: get_item_def split: bind_splits if_splits option.splits dest: num_base_ok)

lemma get_directive_base: "get_directive rd fmt args = Some (fmt', args', it) \<Longrightarrow> base_ok it"
  by (auto simp: get_directive_def split: bind_splits) (rule get_item_base)

lemma print_item_raw:
  assumes "item_ok it" "base_ok it" "item_text rd it = Some t"
  shows "print_item rd e it st = raw_loop e t st"
proof (cases it)
  case (Chr flags w c)
  then show ?thesis using assms by (auto simp: Let_def width_loop_raw)
next
  case (Txt flags w p a)
  let ?s = "string_at rd a"
  obtain len0 where l: "len_loop ?s w 0 = Some len0" using assms(3) Txt by (auto split: bind_splits)
  define len where "len = (if p > 0 \<and> int len0 > p then nat p else len0)"
  have "len \<le> len0" by (auto simp: len_def)
  then have s: "?s k = Some (the (?s k))" if "k < len" for k using len_loop_range[OF l] that by auto
  then have c: "copy_loop e ?s 0 len st1 = raw_loop e (map (\<lambda>k. the (?s k)) [0..<len]) st1" for st1
    using copy_loop_raw[of len ?s 0 "\<lambda>k. the (?s k)"] by simp
  have P: "pad_loop e ch_space (int len) n st1 =
      do { st2 \<leftarrow> raw_loop e (replicate (nat (n - int len)) ch_space) st1; Some ((if int len < n then int len else n) - 1, st2) }"
    if "- 3 \<le> n" "n \<le> 2 ^ 30" for n st1
    using that by (subst pad_loop_raw) auto
  have t: "t = (if has flags LEFT then map (\<lambda>k. the (?s k)) [0..<len] @ replicate (nat (w - int len)) ch_space
      else replicate (nat (w - int len)) ch_space @ map (\<lambda>k. the (?s k)) [0..<len])"
    using assms(3) unfolding Txt item_text.simps l bind.bind_lunit Let_def len_def[symmetric] by simp
  show ?thesis unfolding Txt print_item.simps Let_def l bind.bind_lunit len_def[symmetric] t using assms(1) c
    by (cases "int len < w") (simp_all add: Txt P)
next
  case (Num num base q w p flags)
  then show ?thesis using assms by (simp add: print_number_raw)
next
  case (Raw cs)
  then show ?thesis using assms by simp
qed

lemma fmt_loop_raw: "fmt_text rd fmt args = Some t \<Longrightarrow> \<forall>st. fmt_loop rd e fmt args st = raw_loop e t st"
proof (induction rd fmt args t rule: fmt_text_induct)
  case (step fmt_text rd fmt args t)
  obtain c where c: "rd fmt = Some c" using step(2) by (auto split: bind_splits)
  consider "c = 0" | "c \<noteq> 0" "c \<noteq> ch_percent" | "c = ch_percent" by blast
  then show ?case
  proof cases
    case 1
    then show ?thesis using step(2) c by (subst fmt_loop.simps) simp
  next
    case 2
    then obtain u where u: "fmt_text rd (fmt + 1) args = Some u" "t = c # u" using step(2) c by (auto split: bind_splits)
    have "fmt_loop rd e (fmt + 1) args = raw_loop e u" using step(1)[OF u(1)] by blast
    then show ?thesis using u(2) c 2 by (subst fmt_loop.simps) simp
  next
    case 3
    then obtain fmt1 args1 it t1 u where u: "get_directive rd fmt args = Some (fmt1, args1, it)" "item_ok it" "item_text rd it = Some t1"
      "fmt_text rd (fmt1 + 1) args1 = Some u" "t = t1 @ u"
      using step(2) c by (auto split: bind_splits if_splits)
    have "fmt_loop rd e (fmt1 + 1) args1 = raw_loop e u" using step(1)[OF u(4)] by blast
    then show ?thesis using u c 3 print_item_raw[OF u(2) get_directive_base[OF u(1)] u(3)] by (subst fmt_loop.simps) simp
  qed
qed

lemma int_fits: "n < 2 ^ 31 \<Longrightarrow> sint (word_of_int (int n) :: u32) = int n"
  using int_word_sint[of "int n", where ?'a = 32] by simp

lemma vsnprintf_ok:
  assumes "fmt_text rd fmt args = Some t" "mapped m buf sz" "buf + sz < 2 ^ 32" "buf + length t < 2 ^ 32" "length t < 2 ^ 31"
  shows "rt_vsnprintf rd buf sz fmt args m = Some (int (length t), if sz = 0 then m else mem_put buf (take (sz - 1) t @ [0]) m)"
proof -
  have "room (buf + sz) (buf, m)" using assms(2) by (simp add: room_def)
  then have f: "fmt_loop rd (buf + sz) fmt args (buf, m) = Some (buf + length t, mem_put buf (take sz t) m)"
    using fmt_loop_raw[OF assms(1), of "buf + sz"] raw_loop_ok[of "buf + sz" "(buf, m)" t] assms(4) by (simp add: out_put_def)
  have e: "(buf + sz) mod 2 ^ 32 = buf + sz" using assms(3) by simp
  have d: "sint (word_of_int (int (buf + length t) - int buf) :: u32) = int (length t)" using int_fits[OF assms(5)] by simp
  have mp: "mapped (mem_put buf (take sz t) m) buf sz" using assms(2) by simp
  consider "sz = 0" | "0 < sz" "length t < sz" | "0 < sz" "sz \<le> length t" by linarith
  then show ?thesis
  proof cases
    case 1
    then show ?thesis using f e d by (simp add: rt_vsnprintf_def del: of_nat_add)
  next
    case 2
    have "store (buf + length t) 0 (mem_put buf (take sz t) m) = Some (mem_put buf (take (sz - 1) t @ [0]) m)"
      using store_ok[OF mp, of "buf + length t" 0] 2 by (auto simp: mem_put_def fun_eq_iff nth_append)
    then show ?thesis using f e d 2 by (simp add: rt_vsnprintf_def del: of_nat_add)
  next
    case 3
    have "store (buf + sz - 1) 0 (mem_put buf (take sz t) m) = Some (mem_put buf (take (sz - 1) t @ [0]) m)"
      using store_ok[OF mp, of "buf + sz - 1" 0] 3 by (auto simp: mem_put_def fun_eq_iff nth_append)
    then show ?thesis using f e d 3 by (simp add: rt_vsnprintf_def del: of_nat_add)
  qed
qed

section \<open>Formats are read to their end\<close>

text \<open>
  What a format asks of the arguments, found by reading it as a list: a number written in the format, a
  width or precision given by an argument, a word, a string, or a floating point number, in the order in
  which \<^verbatim>\<open>rt_vsnprintf\<close> meets them.
\<close>

datatype need = Digits "u8 list" | Star | AnyWord | Str | Float

definition is_flag :: "u8 \<Rightarrow> bool" where
  "is_flag c \<longleftrightarrow> c \<in> {ch_minus, ch_plus, ch_space, ch_hash, ch_0}"

fun width_part :: "u8 list \<Rightarrow> need list \<times> u8 list" where
  "width_part [] = ([], [])"
| "width_part (c # gs) =
     (if ISDIGIT c then ([Digits (takeWhile ISDIGIT (c # gs))], dropWhile ISDIGIT (c # gs))
      else if c = ch_star then ([Star], gs) else ([], c # gs))"

fun precision_part :: "u8 list \<Rightarrow> need list \<times> u8 list" where
  "precision_part [] = ([], [])"
| "precision_part (c # gs) = (if c = ch_dot then width_part gs else ([], c # gs))"

fun qualifier_part :: "u8 list \<Rightarrow> u8 list" where
  "qualifier_part [] = []"
| "qualifier_part (c # gs) =
     (if c = ch_h \<and> gs \<noteq> [] \<and> hd gs = ch_h then drop 1 gs else if c \<in> {ch_h, ch_l, ch_z} then gs else c # gs)"

fun conversion_part :: "u8 list \<Rightarrow> need list \<times> u8 list" where
  "conversion_part [] = ([], [])"
| "conversion_part (c # gs) =
     (if c = ch_s then [Str]
      else if c \<in> {ch_c, ch_p, ch_b, ch_o, ch_X, ch_x, ch_d, ch_i, ch_u} then [AnyWord]
      else if c \<in> {ch_e, ch_E, ch_G, ch_g, ch_f, ch_F} then [Float] else [], gs)"

definition directive_part :: "u8 list \<Rightarrow> need list \<times> u8 list" where
  "directive_part gs =
     (let (n1, g1) = width_part (dropWhile is_flag gs); (n2, g2) = precision_part g1; (n3, g3) = conversion_part (qualifier_part g2)
      in (n1 @ n2 @ n3, g3))"

lemma part_lengths:
  "length (snd (width_part gs)) \<le> length gs" "length (snd (precision_part gs)) \<le> length gs"
  "length (qualifier_part gs) \<le> length gs" "length (snd (conversion_part gs)) \<le> length gs"
proof -
  show w: "length (snd (width_part gs)) \<le> length gs" for gs
    by (cases gs) (auto simp: le_SucI length_dropWhile_le)
  show "length (snd (precision_part gs)) \<le> length gs" using w by (cases gs) (auto simp: le_SucI)
qed (cases gs; auto)+

lemma directive_part_length: "length (snd (directive_part gs)) \<le> length gs"
proof -
  obtain n1 g1 n2 g2 where g: "width_part (dropWhile is_flag gs) = (n1, g1)" "precision_part g1 = (n2, g2)"
    by (metis surj_pair)
  have "length g1 \<le> length gs" using part_lengths(1)[of "dropWhile is_flag gs"] g(1) length_dropWhile_le[of is_flag gs] by simp
  moreover have "length g2 \<le> length g1" using part_lengths(2)[of g1] g(2) by simp
  moreover have "length (snd (conversion_part (qualifier_part g2))) \<le> length g2"
    using part_lengths(3)[of g2] part_lengths(4)[of "qualifier_part g2"] by linarith
  ultimately show ?thesis using g by (simp add: directive_part_def split_beta)
qed

function needs :: "u8 list \<Rightarrow> need list" where
  "needs [] = []"
| "needs (c # gs) = (if c = ch_percent then fst (directive_part gs) @ needs (snd (directive_part gs)) else needs gs)"
  by pat_completeness auto
termination by (relation "measure length") (auto simp: directive_part_length less_Suc_eq_le)

text \<open>The value of a row of digit characters.\<close>

definition dec_value :: "int \<Rightarrow> u8 list \<Rightarrow> int" where
  "dec_value i ds = foldl (\<lambda>v c. v * 10 + uint c - 48) i ds"

text \<open>A string argument is null or a terminated string whose length is an \<^verbatim>\<open>int\<close>.\<close>

definition string_ok :: "kmem \<Rightarrow> u32 \<Rightarrow> bool" where
  "string_ok rd a \<longleftrightarrow> a = 0 \<or> (\<exists>xs. cstring rd (unat a) xs \<and> length xs < 2 ^ 31)"

text \<open>
  The arguments are what the format asks for; there may be more of them. Widths and precisions are at most
  \<open>2\<^sup>3\<^sup>0\<close>, a negative one not below \<open>-2\<^sup>3\<^sup>0\<close>.
\<close>

fun args_fit :: "kmem \<Rightarrow> need list \<Rightarrow> vararg list \<Rightarrow> bool" where
  "args_fit rd [] args \<longleftrightarrow> True"
| "args_fit rd (Digits ds # ns) args \<longleftrightarrow> dec_value 0 ds \<le> 2 ^ 30 \<and> args_fit rd ns args"
| "args_fit rd (Star # ns) (Word a # args) \<longleftrightarrow> \<bar>sint a\<bar> \<le> 2 ^ 30 \<and> args_fit rd ns args"
| "args_fit rd (AnyWord # ns) (Word a # args) \<longleftrightarrow> args_fit rd ns args"
| "args_fit rd (Str # ns) (Word a # args) \<longleftrightarrow> string_ok rd a \<and> args_fit rd ns args"
| "args_fit rd (Float # ns) (Double # args) \<longleftrightarrow> args_fit rd ns args"
| "args_fit rd _ _ \<longleftrightarrow> False"

lemma digit_bounds: "ISDIGIT c \<Longrightarrow> 48 \<le> uint c \<and> uint c < 58"
proof -
  assume "ISDIGIT c"
  then have d: "unat (c - 48) < 10" unfolding ISDIGIT_def word_less_nat_alt by simp
  then have "unat c = unat (c - 48) + 48" using unat_add_lem[of "c - 48" 48] by simp
  with d show ?thesis unfolding unat_eq_nat_uint by linarith
qed

lemma dec_value_simps [simp]: "dec_value i [] = i" "dec_value i (c # ds) = dec_value (i * 10 + uint c - 48) ds"
  by (simp_all add: dec_value_def)

lemma dec_value_mono: "\<forall>c\<in>set ds. ISDIGIT c \<Longrightarrow> 0 \<le> i \<Longrightarrow> i \<le> dec_value i ds"
proof (induction ds arbitrary: i)
  case (Cons c ds)
  have c: "48 \<le> uint c" using Cons.prems(1) digit_bounds[of c] by simp
  then have "i * 10 + uint c - 48 \<le> dec_value (i * 10 + uint c - 48) ds" using Cons.prems by (intro Cons.IH) simp_all
  moreover have "i \<le> i * 10 + uint c - 48" using c Cons.prems(2) by linarith
  ultimately show ?case by simp
qed simp

text \<open>\<^verbatim>\<open>skip_atoi\<close> reads a row of digits; the largest value in between is the value and the character \<open>0\<close>.\<close>

lemma skip_atoi_run:
  "\<forall>c\<in>set ds. ISDIGIT c \<Longrightarrow> bytes_at rd p (ds @ [x]) \<Longrightarrow> \<not> ISDIGIT x \<Longrightarrow> 0 \<le> i \<Longrightarrow> dec_value i ds + 48 < 2 ^ 31 \<Longrightarrow>
   skip_atoi rd p i = Some (p + length ds, dec_value i ds)"
proof (induction ds arbitrary: p i)
  case Nil
  then show ?case by (subst skip_atoi.simps) simp
next
  case (Cons c ds)
  have c: "ISDIGIT c" "48 \<le> uint c" using Cons.prems(1) digit_bounds[of c] by simp_all
  let ?v = "i * 10 + uint c - 48"
  have v: "0 \<le> ?v" "?v \<le> dec_value i (c # ds)" using c Cons.prems dec_value_mono[of ds ?v] by simp_all
  have "skip_atoi rd (p + 1) ?v = Some (p + 1 + length ds, dec_value ?v ds)"
    using Cons.prems v by (intro Cons.IH) simp_all
  moreover have "int32 (i * 10) = Some (i * 10)" "int32 (i * 10 + uint c) = Some (i * 10 + uint c)" "int32 ?v = Some ?v"
    using v c Cons.prems(4,5) by (auto simp: int32_ok)
  ultimately show ?case using c Cons.prems(2) by (subst skip_atoi.simps) simp
qed

lemma cstring_run:
  "cstring rd p gs \<Longrightarrow> \<exists>x. bytes_at rd p (takeWhile ISDIGIT gs @ [x]) \<and> \<not> ISDIGIT x \<and>
    cstring rd (p + length (takeWhile ISDIGIT gs)) (dropWhile ISDIGIT gs)"
proof (induction gs arbitrary: p)
  case Nil
  then show ?case by (auto simp: ISDIGIT_def)
next
  case (Cons c gs)
  then show ?case by (cases "ISDIGIT c") (fastforce, auto)
qed

lemma skip_atoi_ends:
  assumes "cstring rd p gs" "dec_value 0 (takeWhile ISDIGIT gs) \<le> 2 ^ 30"
  shows "\<exists>q w. skip_atoi rd p 0 = Some (q, w) \<and> p \<le> q \<and> cstring rd q (dropWhile ISDIGIT gs) \<and> 0 \<le> w \<and> w \<le> 2 ^ 30"
proof -
  have d: "\<forall>c\<in>set (takeWhile ISDIGIT gs). ISDIGIT c" using set_takeWhileD by fast
  then have "skip_atoi rd p 0 = Some (p + length (takeWhile ISDIGIT gs), dec_value 0 (takeWhile ISDIGIT gs)) \<and>
      cstring rd (p + length (takeWhile ISDIGIT gs)) (dropWhile ISDIGIT gs)"
    using cstring_run[OF assms(1)] skip_atoi_run[of "takeWhile ISDIGIT gs" rd p _ 0] assms(2) by fastforce
  then show ?thesis using dec_value_mono[OF d, of 0] assms(2) by auto
qed

lemma flag_loop_ends:
  "cstring rd (p + 1) gs \<Longrightarrow> \<exists>q fl'. flag_loop rd p fl = Some (q, fl') \<and> p + 1 \<le> q \<and> cstring rd q (dropWhile is_flag gs)"
proof (induction gs arbitrary: p fl)
  case Nil
  then show ?case by (subst flag_loop.simps) auto
next
  case (Cons c gs)
  have n: "cstring rd (p + 1 + 1) gs" using Cons.prems by simp
  have IH: "\<exists>q fl'. flag_loop rd (p + 1) fl2 = Some (q, fl') \<and> p + 1 \<le> q \<and> cstring rd q (dropWhile is_flag gs)" for fl2
    using Cons.IH[OF n, of fl2] by fastforce
  show ?case
  proof (cases "is_flag c")
    case True
    then have "\<exists>fl2. flag_loop rd p fl = flag_loop rd (p + 1) fl2"
      using Cons.prems by (subst flag_loop.simps) (auto simp: is_flag_def)
    then show ?thesis using IH True by auto
  next
    case False
    then have "flag_loop rd p fl = Some (p + 1, fl)" using Cons.prems by (subst flag_loop.simps) (simp add: is_flag_def)
    then show ?thesis using False Cons.prems by auto
  qed
qed

lemma args_fit_word:
  assumes "args_fit rd (n # ns) args" "n \<in> {Star, AnyWord, Str}"
  obtains a args' where "args = Word a # args'" "va_word args = Some (a, args')" "args_fit rd ns args'"
    "n = Star \<longrightarrow> \<bar>sint a\<bar> \<le> 2 ^ 30" "n = Str \<longrightarrow> string_ok rd a"
  using assms by (cases "(rd, n # ns, args)" rule: args_fit.cases) auto

lemma get_width_ends:
  assumes "cstring rd q gs" "args_fit rd (fst (width_part gs) @ ns) args"
  shows "\<exists>q' w fl' args'. get_width rd q fl args = Some (q', w, fl', args') \<and> q \<le> q' \<and> cstring rd q' (snd (width_part gs)) \<and>
    args_fit rd ns args' \<and> - 1 \<le> w \<and> w \<le> 2 ^ 30"
proof (cases gs)
  case Nil
  then show ?thesis using assms by (simp add: get_width_def ISDIGIT_def)
next
  case (Cons c hs)
  consider "ISDIGIT c" | "\<not> ISDIGIT c" "c = ch_star" | "\<not> ISDIGIT c" "c \<noteq> ch_star" by blast
  then show ?thesis
  proof cases
    case 1
    then obtain q' w where "skip_atoi rd q 0 = Some (q', w)" "q \<le> q'" "cstring rd q' (dropWhile ISDIGIT gs)" "0 \<le> w" "w \<le> 2 ^ 30"
      using skip_atoi_ends[OF assms(1)] assms(2) Cons by auto
    then show ?thesis using 1 assms Cons by (simp add: get_width_def)
  next
    case 2
    have "args_fit rd (Star # ns) args" using assms(2) 2 Cons by simp
    then obtain a args' where a: "va_word args = Some (a, args')" "args_fit rd ns args'" "\<bar>sint a\<bar> \<le> 2 ^ 30"
      by (rule args_fit_word) auto
    then show ?thesis using 2 assms(1) Cons by (cases "sint a < 0") (auto simp: get_width_def int32_ok)
  next
    case 3
    then show ?thesis using assms Cons by (simp add: get_width_def)
  qed
qed

lemma get_precision_ends:
  assumes "cstring rd q gs" "args_fit rd (fst (precision_part gs) @ ns) args"
  shows "\<exists>q' p args'. get_precision rd q args = Some (q', p, args') \<and> q \<le> q' \<and> cstring rd q' (snd (precision_part gs)) \<and>
    args_fit rd ns args' \<and> p \<le> 2 ^ 30"
proof (cases "\<exists>hs. gs = ch_dot # hs")
  case False
  then show ?thesis using assms by (cases gs) (auto simp: get_precision_def)
next
  case True
  then obtain hs where g: "gs = ch_dot # hs" by blast
  have c: "rd q = Some ch_dot" "cstring rd (q + 1) hs" "args_fit rd (fst (width_part hs) @ ns) args" using assms g by auto
  show ?thesis
  proof (cases hs)
    case Nil
    then show ?thesis using c g by (simp add: get_precision_def ISDIGIT_def)
  next
    case (Cons d ks)
    consider "ISDIGIT d" | "\<not> ISDIGIT d" "d = ch_star" | "\<not> ISDIGIT d" "d \<noteq> ch_star" by blast
    then show ?thesis
    proof cases
      case 1
      then obtain q' w where "skip_atoi rd (q + 1) 0 = Some (q', w)" "q + 1 \<le> q'" "cstring rd q' (dropWhile ISDIGIT hs)" "0 \<le> w" "w \<le> 2 ^ 30"
        using skip_atoi_ends[OF c(2)] c(3) Cons by auto
      then show ?thesis using 1 c Cons g by (simp add: get_precision_def)
    next
      case 2
      have "args_fit rd (Star # ns) args" using c(3) 2 Cons by simp
      then obtain a args' where a: "va_word args = Some (a, args')" "args_fit rd ns args'" "\<bar>sint a\<bar> \<le> 2 ^ 30"
        by (rule args_fit_word) auto
      then show ?thesis using 2 c Cons g by (auto simp: get_precision_def)
    next
      case 3
      then show ?thesis using c Cons g by (simp add: get_precision_def)
    qed
  qed
qed

lemma get_qualifier_ends:
  assumes "cstring rd q gs"
  shows "\<exists>q' f. get_qualifier rd q = Some (q', f) \<and> q \<le> q' \<and> cstring rd q' (qualifier_part gs)"
proof (cases gs)
  case Nil
  then show ?thesis using assms by (simp add: get_qualifier_def)
next
  case (Cons c hs)
  then show ?thesis using assms by (cases hs) (auto simp: get_qualifier_def)
qed

lemma len_loop_ends:
  "i \<le> z \<Longrightarrow> (\<And>k. k < z \<Longrightarrow> s k \<noteq> None) \<Longrightarrow> s z = Some 0 \<Longrightarrow> z < 2 ^ 31 \<Longrightarrow> \<exists>n. len_loop s w i = Some n"
proof (induction "z - i" arbitrary: i)
  case 0
  then show ?case by (subst len_loop.simps) simp
next
  case (Suc k)
  obtain c where "s i = Some c" using Suc.hyps(2) Suc.prems(2)[of i] by fastforce
  moreover have "\<exists>n. len_loop s w (i + 1) = Some n" using Suc by (intro Suc.hyps(1)) auto
  moreover have "int32 (int i + 1) = Some (int i + 1)" using Suc.hyps(2) Suc.prems(4) by (intro int32_ok) auto
  ultimately show ?case by (subst len_loop.simps) auto
qed

lemma string_len_ends: "string_ok rd a \<Longrightarrow> \<exists>n. len_loop (string_at rd a) w 0 = Some n"
proof (cases "a = 0")
  case True
  have s: "string_at rd a k \<noteq> None" if "k < 6" for k using that by (simp add: True string_at_def)
  have "string_at rd a 6 = Some 0" by (simp add: True string_at_def)
  then show ?thesis using len_loop_ends[of 0 6 "string_at rd a" w] s by simp
next
  case False
  assume "string_ok rd a"
  then obtain xs where x: "bytes_at rd (unat a) (xs @ [0])" "length xs < 2 ^ 31" using False by (auto simp: string_ok_def cstring_def)
  then have "rd (unat a + k) = Some ((xs @ [0]) ! k)" if "k \<le> length xs" for k using that by (simp add: bytes_at_nth)
  then show ?thesis using False x(2) by (intro len_loop_ends[of 0 "length xs"]) (auto simp: string_at_def)
qed

lemma item_text_ends: "(\<And>f w p a. it = Txt f w p a \<Longrightarrow> string_ok rd a) \<Longrightarrow> \<exists>t. item_text rd it = Some t"
proof (cases it)
  case (Txt f w p a)
  assume "\<And>f w p a. it = Txt f w p a \<Longrightarrow> string_ok rd a"
  then obtain n where "len_loop (string_at rd a) w 0 = Some n" using string_len_ends Txt by blast
  then show ?thesis by (simp add: Txt Let_def)
qed (auto simp: Let_def)

lemma get_item_ends:
  assumes r: "cstring rd q gs" "1 \<le> q" and a: "args_fit rd (fst (conversion_part gs) @ ns) args"
    and w: "- 1 \<le> wd" "wd \<le> 2 ^ 30" "pr \<le> 2 ^ 30"
  shows "\<exists>q' args' it t. get_item rd q fl wd pr qu args = Some (q', args', it) \<and> item_ok it \<and> item_text rd it = Some t \<and>
    cstring rd (q' + 1) (snd (conversion_part gs)) \<and> args_fit rd ns args'"
proof (cases gs)
  case Nil
  then show ?thesis using r a by (simp add: get_item_def num_base_def)
next
  case (Cons c hs)
  have c: "rd q = Some c" "c \<noteq> 0" "cstring rd (q + 1) hs" using r Cons by simp_all
  consider (str) "c = ch_s" | (word) "c \<in> {ch_c, ch_p, ch_b, ch_o, ch_X, ch_x, ch_d, ch_i, ch_u}"
    | (float) "c \<in> {ch_e, ch_E, ch_G, ch_g, ch_f, ch_F}"
    | (other) "c \<notin> {ch_s, ch_c, ch_p, ch_b, ch_o, ch_X, ch_x, ch_d, ch_i, ch_u, ch_e, ch_E, ch_G, ch_g, ch_f, ch_F}" by blast
  then show ?thesis
  proof cases
    case str
    have "args_fit rd (Str # ns) args" using a str Cons by simp
    then obtain x args' where x: "va_word args = Some (x, args')" "args_fit rd ns args'" "string_ok rd x"
      by (rule args_fit_word) auto
    obtain t where "item_text rd (Txt fl wd pr x) = Some t" using item_text_ends[of "Txt fl wd pr x" rd] x(3) by blast
    then show ?thesis using x c str w Cons by (simp add: get_item_def)
  next
    case word
    have "args_fit rd (AnyWord # ns) args" using a word Cons by auto
    then obtain x args' where x: "va_word args = Some (x, args')" "args_fit rd ns args'" by (rule args_fit_word) auto
    then show ?thesis using c word w Cons by (auto simp: get_item_def num_base_def)
  next
    case float
    have "args_fit rd (Float # ns) args" using a float Cons by auto
    then obtain args' where "args = Double # args'" "args_fit rd ns args'"
      by (cases "(rd, Float # ns, args)" rule: args_fit.cases) auto
    then show ?thesis using c float Cons by (auto simp: get_item_def num_base_def)
  next
    case other
    then show ?thesis using a c Cons by (simp add: get_item_def num_base_def)
  qed
qed

lemma get_directive_ends:
  assumes "cstring rd p (ch_percent # gs)" "args_fit rd (fst (directive_part gs) @ ns) args"
  shows "\<exists>q args' it t. get_directive rd p args = Some (q, args', it) \<and> item_ok it \<and> item_text rd it = Some t \<and>
    cstring rd (q + 1) (snd (directive_part gs)) \<and> args_fit rd ns args'"
proof -
  obtain n1 g1 n2 g2 where g: "width_part (dropWhile is_flag gs) = (n1, g1)" "precision_part g1 = (n2, g2)" by (metis surj_pair)
  let ?g3 = "qualifier_part g2"
  have d: "directive_part gs = (n1 @ n2 @ fst (conversion_part ?g3), snd (conversion_part ?g3))"
    using g by (simp add: directive_part_def split_beta)
  have "cstring rd (p + 1) gs" using assms(1) by simp
  from flag_loop_ends[OF this, of 0] obtain q1 fl where
    1: "flag_loop rd p 0 = Some (q1, fl)" "p + 1 \<le> q1" "cstring rd q1 (dropWhile is_flag gs)" by blast
  have a: "args_fit rd (fst (width_part (dropWhile is_flag gs)) @ n2 @ fst (conversion_part ?g3) @ ns) args"
    using assms(2) d g(1) by simp
  obtain q2 wd fl2 args2 where 2: "get_width rd q1 fl args = Some (q2, wd, fl2, args2)" "q1 \<le> q2" "cstring rd q2 g1"
    "args_fit rd (fst (precision_part g1) @ fst (conversion_part ?g3) @ ns) args2" "- 1 \<le> wd" "wd \<le> 2 ^ 30"
    using get_width_ends[OF 1(3) a, of fl] g by auto
  obtain q3 pr args3 where 3: "get_precision rd q2 args2 = Some (q3, pr, args3)" "q2 \<le> q3" "cstring rd q3 g2"
    "args_fit rd (fst (conversion_part ?g3) @ ns) args3" "pr \<le> 2 ^ 30"
    using get_precision_ends[OF 2(3,4)] g(2) by auto
  obtain q4 qu where 4: "get_qualifier rd q3 = Some (q4, qu)" "q3 \<le> q4" "cstring rd q4 ?g3" using get_qualifier_ends[OF 3(3)] by blast
  have "1 \<le> q4" using 1(2) 2(2) 3(2) 4(2) by linarith
  from get_item_ends[OF 4(3) this 3(4) 2(5,6) 3(5)] show ?thesis using 1(1) 2(1) 3(1) 4(1) d by (simp add: get_directive_def)
qed

lemma fmt_text_ends: "cstring rd p fs \<Longrightarrow> args_fit rd (needs fs) args \<Longrightarrow> \<exists>t. fmt_text rd p args = Some t"
proof (induction fs arbitrary: p args rule: needs.induct)
  case 1
  then show ?case by (subst fmt_text.simps) simp
next
  case (2 c gs)
  show ?case
  proof (cases "c = ch_percent")
    case False
    have "\<exists>t. fmt_text rd (p + 1) args = Some t" by (rule 2(2)[OF False]) (use 2(3,4) False in simp_all)
    then show ?thesis using 2(3) False by (subst fmt_text.simps) auto
  next
    case True
    obtain q args' it t where d: "get_directive rd p args = Some (q, args', it)" "item_ok it" "item_text rd it = Some t"
      "cstring rd (q + 1) (snd (directive_part gs))" "args_fit rd (needs (snd (directive_part gs))) args'"
      using get_directive_ends[of rd p gs "needs (snd (directive_part gs))" args] 2(3,4) True by auto
    have "\<exists>u. fmt_text rd (q + 1) args' = Some u" by (rule 2(1)[OF True d(4,5)])
    then show ?thesis using 2(3) True d(1-3) by (subst fmt_text.simps) auto
  qed
qed

section \<open>Short formats\<close>

lemma flag_loop_none: "rd (p + 1) = Some c \<Longrightarrow> c \<notin> {ch_minus, ch_plus, ch_space, ch_hash, ch_0} \<Longrightarrow> flag_loop rd p fl = Some (p + 1, fl)"
  by (subst flag_loop.simps) simp

lemma skip_atoi_one: "rd p = Some c \<Longrightarrow> ISDIGIT c \<Longrightarrow> rd (p + 1) = Some d \<Longrightarrow> \<not> ISDIGIT d \<Longrightarrow> skip_atoi rd p 0 = Some (p + 1, uint c - 48)"
  using skip_atoi_run[of "[c]" rd p d 0] digit_bounds[of c] by simp

lemma fmt_text_one:
  assumes "rd p = Some ch_percent" "get_directive rd p args = Some (q, args', it)" "item_ok it" "item_text rd it = Some t" "rd (q + 1) = Some 0"
  shows "fmt_text rd p args = Some t"
proof -
  have "fmt_text rd (q + 1) args' = Some []" using assms(5) by (subst fmt_text.simps) simp
  then show ?thesis using assms by (subst fmt_text.simps) simp
qed

lemma has_zero [simp]: "\<not> has 0 f" by (simp add: has_def)

lemma get_sign_unsigned [simp]: "\<not> has t 2 \<Longrightarrow> get_sign num q t = (0, num)"
  by (simp add: get_sign_def)

lemma special_none [simp]: "\<not> has t 32 \<Longrightarrow> special_text base t = []"
  by (simp add: special_text_def)

lemma number_text_plain: "number_text num 10 q (- 1) (- 1) 0 = number_digits 0 10 (unat num)"
  by (simp add: number_text_def)

text \<open>A property of small numbers by evaluation.\<close>

lemma checked_below: "list_all P [0..<n] \<Longrightarrow> i < n \<Longrightarrow> P i"
  by (simp add: list_all_iff)

lemma decimal_digit: "d < 10 \<Longrightarrow> small_digits ! d = 48 + of_nat d"
  by (rule checked_below[where n = 10 and P = "\<lambda>d. small_digits ! d = 48 + of_nat d"]) code_simp

lemma sint_negative: "128 \<le> uint (v::u8) \<Longrightarrow> sint v = uint v - 256"
  using int_word_sint[of "uint v", where ?'a = 8] signed_char_neg[of "uint v"] uint_bounded[of v] by (simp add: signed_char_def)

lemma unat_scast_neg: "128 \<le> unat (v::u8) \<Longrightarrow> unat (scast v :: u32) = 2 ^ 32 - 256 + unat v"
proof -
  assume a: "128 \<le> unat v"
  then have u: "128 \<le> uint v" "uint v < 256" unfolding unat_eq_nat_uint using uint_bounded[of v] by (linarith, simp)
  have "uint (scast v :: u32) = (uint v - 256) mod 2 ^ 32" unfolding scast_eq sint_negative[OF u(1)] uint_word_of_int by simp
  also have "\<dots> = (uint v - 256 + 2 ^ 32) mod 2 ^ 32" by (simp only: mod_add_self2)
  also have "\<dots> = uint v - 256 + 2 ^ 32" using u by (intro mod_pos_pos_trivial) simp_all
  finally have e: "uint (scast v :: u32) = uint v + 4294967040" by simp
  show ?thesis unfolding unat_eq_nat_uint e using u by (simp add: nat_add_distrib)
qed

lemma number_digits_decimal: "number_digits 0 10 n = map (\<lambda>d. 48 + of_nat d) (if n = 0 then [0] else rev (lsd 10 n))"
  using lsd_digits[of 10 _ n] decimal_digit by (auto simp: number_digits_def rev_map)

text \<open>A text of decimal digits is read back by \<^verbatim>\<open>skip_atoi\<close>.\<close>

lemma digit_char: "d < 10 \<Longrightarrow> ISDIGIT (48 + of_nat d)" "d < 10 \<Longrightarrow> uint (48 + of_nat d :: u8) = 48 + int d"
proof -
  assume d: "d < 10"
  show "ISDIGIT (48 + of_nat d)" by (rule checked_below[where n = 10 and P = "\<lambda>d. ISDIGIT (48 + of_nat d)", OF _ d]) code_simp
  show "uint (48 + of_nat d :: u8) = 48 + int d"
    by (rule checked_below[where n = 10 and P = "\<lambda>d. uint (48 + of_nat d :: u8) = 48 + int d", OF _ d]) code_simp
qed

lemma decimal_chars:
  "\<forall>d\<in>set ds. d < 10 \<Longrightarrow> dec_value i (map (\<lambda>d. 48 + of_nat d) ds) = foldl (\<lambda>v d. v * 10 + int d) i ds \<and>
    (\<forall>c\<in>set (map (\<lambda>d. 48 + of_nat d) ds). ISDIGIT c)"
  by (induction ds arbitrary: i) (simp_all add: digit_char)

text \<open>A number of \<open>2\<^sup>3\<^sup>1 - 48\<close> or more overflows before the character \<open>0\<close> is subtracted.\<close>

lemma skip_atoi_over:
  "ds \<noteq> [] \<Longrightarrow> \<forall>c\<in>set ds. ISDIGIT c \<Longrightarrow> bytes_at rd p ds \<Longrightarrow> 2 ^ 31 \<le> dec_value i ds + 48 \<Longrightarrow> skip_atoi rd p i = None"
proof (induction ds arbitrary: p i)
  case (Cons c ds)
  let ?v = "i * 10 + uint c - 48"
  have c: "ISDIGIT c" "rd p = Some c" using Cons.prems(2,3) by simp_all
  show ?case
  proof (cases "ds = []")
    case True
    then have "int32 (i * 10 + uint c) = None" using Cons.prems(4) by (simp add: int32_def)
    then show ?thesis using c by (subst skip_atoi.simps) (auto simp: int32_eq split: bind_splits)
  next
    case False
    have "skip_atoi rd (p + 1) ?v = None" using Cons.prems False by (intro Cons.IH) simp_all
    then show ?thesis using c by (subst skip_atoi.simps) (auto simp: int32_eq split: bind_splits)
  qed
qed simp

lemma decimal_value: "foldl (\<lambda>v d. v * 10 + int d) 0 (if n = 0 then [0] else rev (lsd 10 n)) = int n"
proof -
  have "foldr (\<lambda>d v. v * 10 + int d) xs 0 = int (foldr (\<lambda>d v. d + 10 * v) xs 0)" for xs
    by (induction xs) auto
  then show ?thesis using lsd_value[of 10 n] by (simp add: foldl_conv_foldr)
qed

lemma decimal_length: "length (if unat w = 0 then [0] else rev (lsd 10 (unat (w :: u32)))) \<le> 10"
proof -
  have "length (lsd 10 n) \<le> k" if "n < 10 ^ k" for n k
    using that
  proof (induction k arbitrary: n)
    case (Suc k)
    then show ?case by (cases "n = 0") (auto simp: lsd_step less_mult_imp_div_less mult.commute)
  qed simp
  moreover have "unat w < 2 ^ 32" using unsigned_less[where ?'a = nat, of w] by simp
  then have "unat w < 10 ^ 10" by simp
  ultimately show ?thesis by simp
qed

lemma decimal_small: "d \<in> set (if n = 0 then [0] else rev (lsd 10 n)) \<Longrightarrow> d < 10"
  using lsd_digits[of 10 d n] by (auto split: if_splits)

section \<open>What the callers can rely on\<close>

declare skip_atoi.simps [code] flag_loop.simps [code] len_loop.simps [code] fmt_text.simps [code]

text \<open>A memory with the bytes \<open>cs\<close> and a terminator at address 100, for the examples.\<close>

definition str_mem :: "u8 list \<Rightarrow> kmem" where
  "str_mem cs = mem_put 100 (cs @ [0]) Map.empty"

lemma str_mem_cstring: "0 \<notin> set cs \<Longrightarrow> cstring (str_mem cs) 100 cs"
  by (auto simp: str_mem_def cstring_def bytes_at_nth mem_put_def)

text \<open>
  C23. For every format whose arguments are what it asks for (a word for a number or a character, null or a
  terminated string for \<^verbatim>\<open>%s\<close>, a floating point number for \<^verbatim>\<open>%e\<close>, \<^verbatim>\<open>%f\<close> and \<^verbatim>\<open>%g\<close>, which print no number;
  widths and precisions of at most \<open>2\<^sup>3\<^sup>0\<close>) \<^verbatim>\<open>rt_vsnprintf\<close> returns, without an overflow of an \<^verbatim>\<open>int\<close>. The text
  depends on the format and the arguments only. For every buffer whose end and from whose start the whole
  text lie below \<open>2\<^sup>3\<^sup>2\<close>, so that the pointers do not wrap around, and for a text below \<open>2\<^sup>3\<^sup>1\<close> characters,
  the buffer holds as much of the text as fits with a terminating zero and nothing outside of the buffer is
  written. The result is the length of the whole text, also when it does not fit, and not the number of
  characters written that the comment of the function promises.
\<close>

theorem vsnprintf_bounded:
  assumes "cstring rd fmt fs" "args_fit rd (needs fs) args"
  shows "\<exists>t. fmt_text rd fmt args = Some t \<and>
    (\<forall>buf sz m. mapped m buf sz \<and> buf + sz < 2 ^ 32 \<and> buf + length t < 2 ^ 32 \<and> length t < 2 ^ 31 \<longrightarrow>
      rt_vsnprintf rd buf sz fmt args m = Some (int (length t), if sz = 0 then m else mem_put buf (take (sz - 1) t @ [0]) m))"
  using fmt_text_ends[OF assms] vsnprintf_ok by blast

theorem vsnprintf_bounded_witness:
  "rt_vsnprintf (str_mem [37, 42, 100, 37, 102, 37, 115]) 200 8 100 [Word 5, Word 42, Double, Word 0] (\<lambda>_. Some 7) =
    Some (13, mem_put 200 [32, 32, 32, 52, 50, 37, 102, 0] (\<lambda>_. Some 7))"
proof -
  let ?rd = "str_mem [37, 42, 100, 37, 102, 37, 115]" and ?args = "[Word 5, Word 42, Double, Word 0]"
  have f: "fmt_text ?rd 100 ?args = Some [32, 32, 32, 52, 50, 37, 102, 40, 78, 85, 76, 76, 41]" by code_simp
  have a: "args_fit ?rd (needs [37, 42, 100, 37, 102, 37, 115]) ?args"
    by (simp add: directive_part_def ISDIGIT_def is_flag_def string_ok_def)
  have m: "mapped (\<lambda>_. Some 7) 200 8" by (simp add: mapped_def)
  from vsnprintf_bounded[OF str_mem_cstring[of "[37, 42, 100, 37, 102, 37, 115]"] a] f m show ?thesis
    by simp
qed

text \<open>
  \<^verbatim>\<open>print_number\<close> prints the sign, the prefix of the base, the zeros of the precision and the digits, and
  fills up to the width on the side that the flags say; the text is exactly as long as the width, or
  longer when the number needs it. The digits, read in the base, are the value.
\<close>

theorem print_number_correct:
  assumes "room e st" "base \<in> {2, 8, 10, 16}" "get_sign num q type = (sign, num1)" "precision \<noteq> 0"
    "- 1 \<le> width" "width \<le> 2 ^ 30" "precision \<le> 2 ^ 30" "fst st + length (number_text num base q width precision type) < 2 ^ 32"
  shows "print_number e num base q width precision type st = Some (out_put e (number_text num base q width precision type) st) \<and>
    int (length (number_text num base q width precision type)) =
      max width (int (if sign \<noteq> 0 then 1 else 0) + int (length (special_text base type)) +
        max (int (length (number_digits type (unat base) (unat num1)))) precision) \<and>
    foldr (\<lambda>d v. d + unat base * v) (lsd (unat base) (unat num1)) 0 = unat num1"
proof -
  have "2 \<le> unat base" using assms(2) by auto
  then have "foldr (\<lambda>d v. d + unat base * v) (lsd (unat base) (unat num1)) 0 = unat num1" by (rule lsd_value)
  moreover have "int (length (number_text num base q width precision type)) =
      max width (int (if sign \<noteq> 0 then 1 else 0) + int (length (special_text base type)) +
        max (int (length (number_digits type (unat base) (unat num1)))) precision)"
    using assms(3,4) by (simp add: number_text_def Let_def) linarith
  ultimately show ?thesis using print_number_raw[OF assms(2,5-7)] raw_loop_ok[OF assms(1,8)] by simp
qed

theorem print_number_correct_witness:
  "print_number 20 (- 42) 10 0 8 (- 1) 2 (0, \<lambda>_. Some 0) =
      Some (out_put 20 (number_text (- 42) 10 0 8 (- 1) 2) (0, \<lambda>_. Some 0)) \<and>
    int (length (number_text (- 42) 10 0 8 (- 1) 2)) =
      max 8 (int (if (45 :: u8) \<noteq> 0 then 1 else 0) + int (length (special_text 10 2)) +
        max (int (length (number_digits 2 (unat (10 :: u32)) (unat (42 :: u32))))) (- 1)) \<and>
    foldr (\<lambda>d v. d + unat (10 :: u32) * v) (lsd (unat (10 :: u32)) (unat (42 :: u32))) 0 = unat (42 :: u32)"
proof (rule print_number_correct)
  show "room 20 (0, \<lambda>_. Some 0)" by (simp add: room_def mapped_def)
  show "get_sign (- 42) 0 2 = (45, 42)" by code_simp
  have "length (number_text (- 42) 10 0 8 (- 1) 2) = 8" by code_simp
  then show "fst (0, \<lambda>_. Some 0) + length (number_text (- 42) 10 0 8 (- 1) 2) < 2 ^ 32" by simp
qed simp_all

text \<open>
  C24. A number below \<open>2\<^sup>3\<^sup>1 - 48\<close> printed with \<^verbatim>\<open>%u\<close> is read back by \<^verbatim>\<open>skip_atoi\<close>: it stops behind the last
  character printed and has the value. For every larger number the sum in \<^verbatim>\<open>skip_atoi\<close> leaves the type \<^verbatim>\<open>int\<close>.
\<close>

theorem print_atoi_roundtrip:
  assumes "cstring rd fmt [ch_percent, ch_u]" "mapped m buf sz" "buf + sz < 2 ^ 32" "10 < sz"
  shows "\<exists>n m'. rt_snprintf rd buf sz fmt [Word w] m = Some (int n, m') \<and>
    skip_atoi m' buf 0 = (if uint w < 2 ^ 31 - 48 then Some (buf + n, uint w) else None)"
proof -
  let ?ds = "if unat w = 0 then [0] else rev (lsd 10 (unat w))"
  let ?t = "map (\<lambda>d. 48 + of_nat d) ?ds :: u8 list"
  have r: "rd fmt = Some 37" "rd (fmt + 1) = Some 117" "rd (fmt + 2) = Some 0" using assms(1) by (simp_all add: numeral_eq_Suc)
  have d: "get_directive rd fmt [Word w] = Some (fmt + 1, [], Num w 10 0 (- 1) (- 1) 0)"
    using r flag_loop_none[of rd fmt 117 0] by (simp add: get_directive_def get_width_def get_precision_def get_qualifier_def
        get_item_def num_base_def get_num_def ISDIGIT_def)
  have t: "fmt_text rd fmt [Word w] = Some ?t"
    by (rule fmt_text_one[OF r(1) d]) (use r number_text_plain[of w 0] number_digits_decimal[of "unat w"] in simp_all)
  have l: "length ?t \<le> 10" using decimal_length[of w] by simp
  then have tk: "take (sz - 1) ?t = ?t" using assms(4) by (intro take_all) simp
  let ?m = "mem_put buf (?t @ [0]) m"
  have b: "buf + length ?t < 2 ^ 32" using l assms(3,4) by linarith
  have "length ?t < 2 ^ 31" using l by simp
  from vsnprintf_ok[OF t assms(2,3) b this]
  have "rt_snprintf rd buf sz fmt [Word w] m = Some (int (length ?t), ?m)" using assms(4) tk by (simp add: rt_snprintf_def)
  moreover have "skip_atoi ?m buf 0 = (if uint w < 2 ^ 31 - 48 then Some (buf + length ?t, uint w) else None)"
  proof -
    have m: "bytes_at ?m buf (?t @ [0])" by (simp add: bytes_at_nth mem_put_def)
    have v: "dec_value 0 ?t = uint w" "\<forall>c\<in>set ?t. ISDIGIT c"
      using decimal_chars[of ?ds 0] decimal_small decimal_value[of "unat w"] by auto
    show ?thesis
    proof (cases "uint w < 2 ^ 31 - 48")
      case True
      then show ?thesis using skip_atoi_run[OF v(2) m, of 0] v(1) by (simp add: ISDIGIT_def)
    next
      case False
      have "bytes_at ?m buf ?t" "?t \<noteq> []" using m by (auto simp: bytes_at_append lsd.simps)
      then show ?thesis using skip_atoi_over[of ?t ?m buf 0] v False by simp
    qed
  qed
  ultimately show ?thesis by blast
qed

theorem print_atoi_roundtrip_witness:
  "(\<exists>n m'. rt_snprintf (str_mem [37, 117]) 200 16 100 [Word 1234567890] (\<lambda>_. Some 0) = Some (int n, m') \<and>
      skip_atoi m' 200 0 = Some (200 + n, 1234567890)) \<and>
   (\<exists>n m'. rt_snprintf (str_mem [37, 117]) 200 16 100 [Word 4294967295] (\<lambda>_. Some 0) = Some (int n, m') \<and>
      skip_atoi m' 200 0 = None)"
proof -
  note r = print_atoi_roundtrip[OF str_mem_cstring, where m = "\<lambda>_. Some 0" and buf = 200 and sz = 16]
  have "mapped (\<lambda>_. Some 0) 200 16" by (simp add: mapped_def)
  then show ?thesis using r[where w = 1234567890] r[where w = 4294967295] by simp
qed

text \<open>
  The precision 0 leaves out the digits of every number, not only of the number 0: \<^verbatim>\<open>%.0d\<close> prints the
  sign of a negative number and nothing else.
\<close>

theorem zero_precision_no_digits:
  assumes "cstring rd fmt [ch_percent, ch_dot, ch_0, ch_d]" "mapped m buf sz" "buf + sz < 2 ^ 32" "1 < sz"
  shows "rt_snprintf rd buf sz fmt [Word w] m =
    Some (if sint w < 0 then (1, mem_put buf [ch_minus, 0] m) else (0, mem_put buf [0] m))"
proof -
  have r: "rd fmt = Some 37" "rd (Suc fmt) = Some 46" "rd (Suc (Suc fmt)) = Some 48" "rd (Suc (Suc (Suc fmt))) = Some 100" "rd (Suc (Suc (Suc (Suc fmt)))) = Some 0"
    using assms(1) by simp_all
  have a: "skip_atoi rd (Suc (Suc fmt)) 0 = Some (Suc (Suc (Suc fmt)), 0)" using skip_atoi_one[of rd "Suc (Suc fmt)" 48 100] r by (simp add: ISDIGIT_def)
  have d: "get_directive rd fmt [Word w] = Some (Suc (Suc (Suc fmt)), [], Num w 10 0 (- 1) 0 2)"
    using r a flag_loop_none[of rd fmt 46 0] by (simp add: get_directive_def get_width_def get_precision_def get_qualifier_def
        get_item_def num_base_def get_num_def ISDIGIT_def)
  have g: "get_sign w 0 2 = (if sint w < 0 then (45, - w) else (0, w))" by (simp add: get_sign_def has_def)
  have "number_text w 10 0 (- 1) 0 2 = (if sint w < 0 then [45] else [])"
    unfolding number_text_def g by (simp add: has_def)
  then have "fmt_text rd fmt [Word w] = Some (if sint w < 0 then [45] else [])"
    by (intro fmt_text_one[OF r(1) d]) (use r in simp_all)
  from vsnprintf_ok[OF this assms(2,3)] show ?thesis using assms(3,4) by (auto simp: rt_snprintf_def)
qed

theorem zero_precision_no_digits_witness:
  "rt_snprintf (str_mem [37, 46, 48, 100]) 200 16 100 [Word 42] (\<lambda>_. Some 7) =
    Some (if sint (42 :: u32) < 0 then (1, mem_put 200 [ch_minus, 0] (\<lambda>_. Some 7)) else (0, mem_put 200 [0] (\<lambda>_. Some 7)))"
  by (rule zero_precision_no_digits[OF str_mem_cstring]) (simp_all add: mapped_def)

text \<open>
  The width of a \<^verbatim>\<open>%s\<close> directive is also a limit: a string that is longer than the width is cut to the
  width, although no precision is given.
\<close>

theorem width_cuts_strings:
  assumes "cstring rd fmt [ch_percent, c, ch_s]" "ISDIGIT c" "c \<noteq> ch_0" "cstring rd (unat a) xs" "a \<noteq> 0" "uint c - 48 < int (length xs)"
    "mapped m buf sz" "buf + sz < 2 ^ 32" "10 < sz"
  shows "\<exists>m'. rt_snprintf rd buf sz fmt [Word a] m = Some (uint c - 48, m') \<and> cstring m' buf (take (nat (uint c - 48)) xs)"
proof -
  define w where "w = uint c - 48"
  have "uint c \<noteq> 48" using assms(3) by (simp add: word_uint_eq_iff)
  then have c: "48 < uint c \<and> uint c < 58" using digit_bounds[OF assms(2)] by linarith
  then have w: "0 < w" "w < 10" by (simp_all add: w_def)
  have r: "rd fmt = Some 37" "rd (Suc fmt) = Some c" "rd (Suc (Suc fmt)) = Some 115" "rd (Suc (Suc (Suc fmt))) = Some 0"
    using assms(1) by simp_all
  have nf: "c \<notin> {45, 43, 32, 35, 48}" using assms(3) c by auto
  have sk: "skip_atoi rd (Suc fmt) 0 = Some (Suc (Suc fmt), w)" using skip_atoi_one[of rd "Suc fmt" c 115] r assms(2)
    by (simp add: ISDIGIT_def w_def)
  have d: "get_directive rd fmt [Word a] = Some (Suc (Suc fmt), [], Txt 0 w (- 1) a)"
    using r assms(2) sk flag_loop_none[OF _ nf, of rd fmt 0] by (simp add: get_directive_def get_width_def get_precision_def get_qualifier_def
        get_item_def)
  have x: "string_at rd a k = Some (xs ! k) \<and> xs ! k \<noteq> 0" if "k < length xs" for k
  proof -
    have "rd (unat a + k) = Some ((xs @ [0]) ! k)" "0 \<notin> set xs" using assms(4) that by (auto simp: cstring_def bytes_at_nth)
    moreover have "xs ! k \<noteq> 0" using nth_mem[OF that] calculation(2) by metis
    ultimately show ?thesis using that assms(5) by (simp add: string_at_def nth_append)
  qed
  have len: "k \<le> nat w \<Longrightarrow> len_loop (string_at rd a) w k = Some (nat w)" for k
  proof (induction "nat w - k" arbitrary: k)
    case 0
    then have "int k = w" using w by linarith
    then show ?case by (subst len_loop.simps) simp
  next
    case (Suc j)
    have "k < length xs" using Suc.hyps(2) assms(6) unfolding w_def[symmetric] by linarith
    moreover have "len_loop (string_at rd a) w (k + 1) = Some (nat w)" using Suc by (intro Suc.hyps(1)) auto
    moreover have "int k \<noteq> w" using Suc.hyps(2) by auto
    moreover have "int32 (int k + 1) = Some (int k + 1)" using Suc.hyps(2) w by (intro int32_ok) auto
    ultimately show ?case using x[of k] by (subst len_loop.simps) simp
  qed
  have cs: "map (\<lambda>k. the (string_at rd a k)) [0..<nat w] = take (nat w) xs"
    using x assms(6) unfolding w_def[symmetric] by (intro nth_equalityI) auto
  have t: "fmt_text rd fmt [Word a] = Some (take (nat w) xs)"
    by (rule fmt_text_one[OF r(1) d]) (use r len[of 0] cs w in \<open>simp_all add: Let_def\<close>)
  let ?t = "take (nat w) xs"
  have l: "length ?t = nat w" "take (sz - 1) ?t = ?t" using assms(6,9) w unfolding w_def[symmetric] by auto
  have "cstring (mem_put buf (?t @ [0]) m) buf ?t"
    using assms(4) by (auto simp: cstring_def bytes_at_nth mem_put_def dest: in_set_takeD)
  then show ?thesis using vsnprintf_ok[OF t assms(7,8)] assms(8,9) l w unfolding w_def[symmetric] by (auto simp: rt_snprintf_def)
qed

theorem width_cuts_strings_witness:
  "\<exists>m'. rt_snprintf (mem_put 200 [104, 101, 108, 108, 111, 0] (str_mem [37, 51, 115])) 300 16 100 [Word 200] (\<lambda>_. Some 0) =
      Some (uint (51 :: u8) - 48, m') \<and> cstring m' 300 (take (nat (uint (51 :: u8) - 48)) [104, 101, 108, 108, 111])"
proof (rule width_cuts_strings)
  show "cstring (mem_put 200 [104, 101, 108, 108, 111, 0] (str_mem [37, 51, 115])) 100 [37, 51, 115]"
    "cstring (mem_put 200 [104, 101, 108, 108, 111, 0] (str_mem [37, 51, 115])) (unat (200 :: u32)) [104, 101, 108, 108, 111]"
    by (simp_all add: str_mem_def mem_put_def)
qed (simp_all add: ISDIGIT_def mapped_def)

text \<open>
  \<^verbatim>\<open>%hhu\<close> extends the character with its sign although the directive is unsigned: a character of 128 or
  more is printed as a number above four thousand million.
\<close>

theorem hhu_sign_extended:
  assumes "cstring rd fmt [ch_percent, ch_h, ch_h, ch_u]" "128 \<le> unat (ucast w :: u8)"
  shows "fmt_text rd fmt [Word w] = Some (number_digits 0 10 (2 ^ 32 - 256 + unat (ucast w :: u8)))"
proof -
  have r: "rd fmt = Some 37" "rd (Suc fmt) = Some 104" "rd (Suc (Suc fmt)) = Some 104" "rd (Suc (Suc (Suc fmt))) = Some 117" "rd (Suc (Suc (Suc (Suc fmt)))) = Some 0"
    using assms(1) by simp_all
  have d: "get_directive rd fmt [Word w] = Some (Suc (Suc (Suc fmt)), [], Num (scast (ucast w :: u8)) 10 72 (- 1) (- 1) 0)"
    using r flag_loop_none[of rd fmt 104 0] by (simp add: get_directive_def get_width_def get_precision_def get_qualifier_def
        get_item_def num_base_def get_num_def ISDIGIT_def)
  show ?thesis
    by (rule fmt_text_one[OF r(1) d]) (use r number_text_plain unat_scast_neg[OF assms(2)] in simp_all)
qed

theorem hhu_sign_extended_witness:
  "fmt_text (str_mem [37, 104, 104, 117]) 100 [Word 200] = Some (number_digits 0 10 (2 ^ 32 - 256 + unat (ucast (200 :: u32) :: u8)))"
  by (rule hhu_sign_extended[OF str_mem_cstring]) simp_all

end
