(* ===== verification/Console.thy ===== *)
theory Console
  imports Device KStdio
begin

text \<open>
  The console of \<^verbatim>\<open>kservice.c\<close>: formatted text goes through a static buffer to the console device, or to the
  board when no device is set. A device receives the bytes it is asked to write; what is handed to
  \<^verbatim>\<open>rt_hw_console_output\<close> is recorded. The locks of the thread-safe variant are not configured.
\<close>

section \<open>State and operations\<close>

definition RT_CONSOLEBUF_SIZE :: nat where "RT_CONSOLEBUF_SIZE = 128"

record 'd console =
  co_sys :: "'d dsys"
  co_device :: nat
  co_mem :: kmem
  co_log_buf :: nat
  co_board :: "nat list"

definition rt_console_get_device :: "'d console \<Rightarrow> nat" where
  "rt_console_get_device k = co_device k"

text \<open>The flags are \<^verbatim>\<open>RT_DEVICE_OFLAG_RDWR | RT_DEVICE_FLAG_STREAM\<close>.\<close>

definition rt_console_set_device :: "(nat \<Rightarrow> ('d, 'b) device_ops) \<Rightarrow> u8 list option \<Rightarrow> 'd console \<Rightarrow> (nat \<times> 'd console) option" where
  "rt_console_set_device ops name k = do {
     let old_device = co_device k;
     new_device \<leftarrow> rt_device_find name (co_sys k);
     if new_device = old_device then Some (0, k)
     else if new_device \<noteq> 0 then do {
       s1 \<leftarrow> (if co_device k \<noteq> 0 then map_option snd (rt_device_close ops (co_device k) (co_sys k)) else Some (co_sys k));
       (_, s2) \<leftarrow> rt_device_open ops new_device (3 OR 0x40) s1;
       Some (old_device, k\<lparr>co_sys := s2, co_device := new_device\<rparr>)
     }
     else Some (old_device, k)
   }"

primrec read_bytes :: "kmem \<Rightarrow> nat \<Rightarrow> nat \<Rightarrow> u8 list option" where
  "read_bytes m a 0 = Some []"
| "read_bytes m a (Suc n) = do { c \<leftarrow> m a; cs \<leftarrow> read_bytes m (a + 1) n; Some (c # cs) }"

definition kputs :: "(nat \<Rightarrow> ('d, u8 list) device_ops) \<Rightarrow> nat \<Rightarrow> nat \<Rightarrow> 'd console \<Rightarrow> 'd console option" where
  "kputs ops str len k =
     (if co_device k = 0 then Some (k\<lparr>co_board := co_board k @ [str]\<rparr>)
      else do {
        bytes \<leftarrow> read_bytes (co_mem k) str len;
        (_, s) \<leftarrow> rt_device_write ops (co_device k) 0 (Some bytes) len (co_sys k);
        Some (k\<lparr>co_sys := s\<rparr>)
      })"

definition rt_kputs :: "(nat \<Rightarrow> ('d, u8 list) device_ops) \<Rightarrow> nat \<Rightarrow> 'd console \<Rightarrow> 'd console option" where
  "rt_kputs ops str k = (if str = 0 then Some k else do { n \<leftarrow> rt_strlen str (co_mem k); kputs ops str n k })"

text \<open>\<open>rd\<close> is the memory of the format and of the strings it prints.\<close>

definition rt_kprintf :: "(nat \<Rightarrow> ('d, u8 list) device_ops) \<Rightarrow> kmem \<Rightarrow> nat \<Rightarrow> vararg list \<Rightarrow> 'd console \<Rightarrow> (nat \<times> 'd console) option" where
  "rt_kprintf ops rd fmt args k = do {
     (n, m1) \<leftarrow> rt_vsnprintf rd (co_log_buf k) (RT_CONSOLEBUF_SIZE - 1) fmt args (co_mem k);
     let length0 = unat (word_of_int n :: u32);
     let len = (if length0 > RT_CONSOLEBUF_SIZE - 1 then RT_CONSOLEBUF_SIZE - 1 else length0);
     k1 \<leftarrow> kputs ops (co_log_buf k) len (k\<lparr>co_mem := m1\<rparr>);
     Some (len, k1)
   }"

text \<open>The table of error names; the last entry is for all other codes.\<close>

definition rt_errno_strs :: "(rt_err_t \<times> string) list" where
  "rt_errno_strs = [(RT_EOK, ''OK     ''), (RT_ERROR, ''ERROR  ''), (RT_ETIMEOUT, ''ETIMOUT''), (RT_EFULL, ''ERSFULL''),
     (RT_EEMPTY, ''ERSEPTY''), (RT_ENOMEM, ''ENOMEM ''), (RT_ENOSYS, ''ENOSYS ''), (RT_EBUSY, ''EBUSY  ''), (RT_EIO, ''EIO    ''),
     (RT_EINTR, ''EINTRPT''), (RT_EINVAL, ''EINVAL ''), (RT_ENOENT, ''ENOENT ''), (RT_ENOSPC, ''ENOSPC ''), (RT_EPERM, ''EPERM  ''),
     (RT_ETRAP, ''ETRAP  '')]"

definition rt_strerror :: "rt_err_t \<Rightarrow> string" where
  "rt_strerror error =
     (let e = (if error < 0 then - error else error)
      in case find (\<lambda>(n, _). n = e) rt_errno_strs of Some (_, s) \<Rightarrow> s | None \<Rightarrow> ''EUNKNOW'')"

section \<open>Reading the buffer\<close>

lemma read_bytes_ok: "bytes_at m a cs \<Longrightarrow> read_bytes m a (length cs) = Some cs"
  by (induction cs arbitrary: a) auto

lemma bytes_at_put: "bytes_at (mem_put a cs m) a cs"
  by (simp add: bytes_at_nth mem_put_def)

lemma strlen_put: "0 \<notin> set cs \<Longrightarrow> rt_strlen a (mem_put a (cs @ [0]) m) = Some (length cs)"
  by (rule strlen_ok) (simp add: cstring_def bytes_at_put)

text \<open>What the device is asked to write for the text \<open>t\<close>.\<close>

definition console_bytes :: "u8 list \<Rightarrow> u8 list" where
  "console_bytes t = (if length t \<le> 126 then t else take 126 t @ [0])"

lemma kprintf_ok:
  assumes "fmt_text rd fmt args = Some t" "mapped (co_mem k) (co_log_buf k) 127" "co_log_buf k + 127 < 2 ^ 32" "co_device k \<noteq> 0"
    "co_log_buf k + length t < 2 ^ 32" "length t < 2 ^ 31"
    "is_device (co_device k) (co_sys k)" "dv_ref_count (ds_dev (co_sys k) (co_device k)) \<noteq> 0" "op_write (ops (co_device k)) = Some f"
    "f 0 (Some (console_bytes t)) (length (console_bytes t)) (ds_dev (co_sys k) (co_device k)) (ds_drv (co_sys k)) = Some (n, d, p)"
  shows "\<exists>k'. rt_kprintf ops rd fmt args k = Some (length (console_bytes t), k') \<and> ds_drv (co_sys k') = p"
proof -
  let ?m = "mem_put (co_log_buf k) (take 126 t @ [0]) (co_mem k)"
  have v: "rt_vsnprintf rd (co_log_buf k) (RT_CONSOLEBUF_SIZE - 1) fmt args (co_mem k) = Some (int (length t), ?m)"
    using vsnprintf_ok[OF assms(1-3,5,6)] by (simp add: RT_CONSOLEBUF_SIZE_def)
  have b: "bytes_at ?m (co_log_buf k) (take 126 t @ [0])" by (rule bytes_at_put)
  have r: "read_bytes ?m (co_log_buf k) (length (console_bytes t)) = Some (console_bytes t)"
  proof (cases "length t \<le> 126")
    case True
    then have "bytes_at ?m (co_log_buf k) t" using b by (simp add: bytes_at_append)
    then show ?thesis using True by (simp add: console_bytes_def read_bytes_ok)
  next
    case False
    then show ?thesis using read_bytes_ok[OF b] by (simp add: console_bytes_def)
  qed
  have u: "unat (word_of_int (int (length t)) :: u32) = length t" using assms(6) by (simp add: unat_of_nat)
  have len: "(if length t > RT_CONSOLEBUF_SIZE - 1 then RT_CONSOLEBUF_SIZE - 1 else length t) = length (console_bytes t)"
    by (auto simp: RT_CONSOLEBUF_SIZE_def console_bytes_def)
  have "rt_device_write ops (co_device k) 0 (Some (console_bytes t)) (length (console_bytes t)) (co_sys k) =
      Some (n, (put_dev (co_device k) d (co_sys k))\<lparr>ds_drv := p\<rparr>)"
    using assms(7-10) by (simp add: rt_device_write_def call_driver_def)
  then have "kputs ops (co_log_buf k) (length (console_bytes t)) (k\<lparr>co_mem := ?m\<rparr>) =
      Some (k\<lparr>co_mem := ?m, co_sys := (put_dev (co_device k) d (co_sys k))\<lparr>ds_drv := p\<rparr>\<rparr>)"
    using assms(4) r by (simp add: kputs_def)
  then show ?thesis unfolding rt_kprintf_def v bind.bind_lunit prod.case Let_def u len by simp
qed

section \<open>What the callers can rely on\<close>

text \<open>A driver that keeps the bytes it is given, and a console on it.\<close>

definition log_ops :: "(u8 list, u8 list) device_ops" where
  "log_ops = \<lparr>op_init = None, op_open = None, op_close = None, op_read = None,
     op_write = Some (\<lambda>pos buf n d p. Some (int n, d, p @ (case buf of None \<Rightarrow> [] | Some cs \<Rightarrow> cs))), op_control = None\<rparr>"

definition con_ex :: "u8 list console" where
  "con_ex = \<lparr>co_sys = \<lparr>ds_con = ds_con dev_ex2, ds_dev = ds_dev dev_ex2, ds_drv = [], ds_errno = 0\<rparr>, co_device = 100,
     co_mem = \<lambda>_. Some 0, co_log_buf = 1000, co_board = []\<rparr>"

lemma con_ex_fields: "co_device con_ex = 100" "co_mem con_ex = (\<lambda>_. Some 0)" "co_log_buf con_ex = 1000"
  "ds_drv (co_sys con_ex) = []" "is_device 100 (co_sys con_ex)" "dv_ref_count (ds_dev (co_sys con_ex) 100) \<noteq> 0"
  using dev_ex2_reach(2) by (simp_all add: con_ex_def is_device_def dev_ex_open)

text \<open>
  \<^verbatim>\<open>rt_kprintf\<close> on an open console device calls the write function of its driver once. The bytes are the text
  of the format if it has at most 126 characters; of a longer text they are the first 126 characters
  and a zero byte, since the length is limited to the size of the buffer and not to what
  \<^verbatim>\<open>rt_vsnprintf\<close> has stored. The result is the number of bytes. The text has fewer than \<open>2\<^sup>3\<^sup>1\<close> characters and
  the pointer does not wrap around.
\<close>

theorem kprintf_output:
  assumes "fmt_text rd fmt args = Some t" "mapped (co_mem k) (co_log_buf k) 127" "co_log_buf k + 127 < 2 ^ 32" "co_device k \<noteq> 0"
    "co_log_buf k + length t < 2 ^ 32" "length t < 2 ^ 31"
    "is_device (co_device k) (co_sys k)" "dv_ref_count (ds_dev (co_sys k) (co_device k)) \<noteq> 0" "op_write (ops (co_device k)) = Some f"
    "bytes = (if length t \<le> 126 then t else take 126 t @ [0])"
    "f 0 (Some bytes) (length bytes) (ds_dev (co_sys k) (co_device k)) (ds_drv (co_sys k)) = Some (n, d, p)"
  shows "\<exists>k'. rt_kprintf ops rd fmt args k = Some (length bytes, k') \<and> ds_drv (co_sys k') = p"
proof -
  have b: "bytes = console_bytes t" using assms(10) by (simp add: console_bytes_def)
  show ?thesis unfolding b
    by (rule kprintf_ok[where f = f and n = n and d = d]) (use assms(1-9) assms(11)[unfolded b] in auto)
qed

theorem kprintf_output_witness:
  "\<exists>k'. rt_kprintf (\<lambda>_. log_ops) (str_mem [104, 105]) 100 [] con_ex = Some (length [104, 105 :: u8], k') \<and> ds_drv (co_sys k') = [104, 105]"
proof (rule kprintf_output)
  show "fmt_text (str_mem [104, 105]) 100 [] = Some [104, 105]"
    by (subst fmt_text.simps, subst fmt_text.simps, subst fmt_text.simps) (simp add: str_mem_def mem_put_def)
  show "op_write log_ops = Some (\<lambda>pos buf n d p. Some (int n, d, p @ (case buf of None \<Rightarrow> [] | Some cs \<Rightarrow> cs)))" by (simp add: log_ops_def)
qed (simp_all add: con_ex_fields mapped_def)

text \<open>
  \<^verbatim>\<open>rt_console_set_device\<close> ignores the result of opening the device: if the driver refuses, the device becomes
  the console all the same, and what is printed from then on does not reach any driver.
\<close>

theorem console_open_ignored:
  assumes "rt_device_find (Some n) (co_sys k) = Some a" "a \<noteq> 0" "co_device k = 0" "is_device a (co_sys k)"
    "dv_ref_count (ds_dev (co_sys k) a) = 0" "dv_open_flag (ds_dev (co_sys k) a) = 0" "op_init (ops a) = None"
    "op_open (ops a) = Some g" "\<And>d p. g 0x43 d p = Some (e, d, p)" "e \<noteq> RT_EOK" "e \<noteq> - RT_ENOSYS"
  shows "\<exists>k'. rt_console_set_device ops (Some n) k = Some (0, k') \<and> rt_console_get_device k' = a \<and>
    (\<forall>str len bytes. read_bytes (co_mem k') str len = Some bytes \<longrightarrow>
      (\<exists>k''. kputs ops str len k' = Some k'' \<and> ds_drv (co_sys k'') = ds_drv (co_sys k')))"
proof -
  obtain s1 where s1: "open_activate ops a (co_sys k) = Some (0, s1)" "dev_step a (co_sys k) s1" "dv_open_flag (ds_dev s1 a) = 0"
    using assms(6,7) by (cases "dv_flag (ds_dev (co_sys k) a) AND 16 = 0") (simp_all add: open_activate_def set_activated_def same_open_def same_count_def or_activated)
  have i: "open_interface ops a 0x43 s1 = Some (e, (put_dev a (ds_dev s1 a) s1)\<lparr>ds_drv := ds_drv s1\<rparr>)"
    using s1(3) assms(8,9) by (simp add: open_interface_def call_driver_def)
  let ?s2 = "(put_dev a (ds_dev s1 a) s1)\<lparr>ds_drv := ds_drv s1\<rparr>"
  have o: "rt_device_open ops a (3 OR 0x40) (co_sys k) = Some (e, ?s2)"
    using assms(4,10,11) s1(1,3) i by (simp add: rt_device_open_def open_count_def)
  have d: "is_device a ?s2" "dv_ref_count (ds_dev ?s2 a) = 0"
    using s1(2) assms(4,5) by (simp_all add: dev_step_def only_dev_def is_device_def same_open_def same_count_def)
  let ?k = "k\<lparr>co_sys := ?s2, co_device := a\<rparr>"
  have "rt_console_set_device ops (Some n) k = Some (0, ?k)" using assms(1-3) o by (simp add: rt_console_set_device_def)
  moreover have "\<exists>k''. kputs ops str len ?k = Some k'' \<and> ds_drv (co_sys k'') = ds_drv (co_sys ?k)"
    if "read_bytes (co_mem ?k) str len = Some bytes" for str len bytes
    using that d assms(2) by (simp add: kputs_def rt_device_write_def)
  ultimately show ?thesis by (intro exI[of _ ?k]) (simp add: rt_console_get_device_def)
qed

definition dead_ops :: "(gpio, u8 list) device_ops" where
  "dead_ops = \<lparr>op_init = None, op_open = Some (\<lambda>oflag d p. Some (- RT_EIO, d, p)), op_close = None, op_read = None,
     op_write = None, op_control = None\<rparr>"

definition con_ex2 :: "gpio console" where
  "con_ex2 = \<lparr>co_sys = dev_ex1, co_device = 0, co_mem = \<lambda>_. Some 0, co_log_buf = 1000, co_board = []\<rparr>"

theorem console_open_ignored_witness:
  "\<exists>k'. rt_console_set_device (\<lambda>_. dead_ops) (Some [112, 105, 110]) con_ex2 = Some (0, k') \<and> rt_console_get_device k' = 100 \<and>
    (\<forall>str len bytes. read_bytes (co_mem k') str len = Some bytes \<longrightarrow>
      (\<exists>k''. kputs (\<lambda>_. dead_ops) str len k' = Some k'' \<and> ds_drv (co_sys k'') = ds_drv (co_sys k')))"
  by (rule console_open_ignored[where g = "\<lambda>oflag d p. Some (- RT_EIO, d, p)" and e = "- RT_EIO"])
    (simp_all add: con_ex2_def dead_ops_def dev_ex1_find dev_ex1_reach dev_ex_register)

end
