(* ===== verification/RingBlock.thy ===== *)
theory RingBlock
  imports KList "HOL-Library.Monad_Syntax"
begin

text \<open>
  The ring of blocks of \<^verbatim>\<open>components/drivers/ipc/ringblk_buf.c\<close>: a buffer from which blocks of any size
  are cut in turn, handed to a writer, and handed in the same order to a reader. The blocks in use
  and the free descriptors are singly linked lists on pointers; addresses and sizes are 32 bit words,
  so that differences wrap as in the source. A result \<open>None\<close> is a failed assertion, a pointer that is
  no block, or a loop that does not end. The spin lock makes every operation atomic.
\<close>

section \<open>Data\<close>

datatype rt_rbb_status = RT_RBB_BLK_UNUSED | RT_RBB_BLK_INITED | RT_RBB_BLK_PUT | RT_RBB_BLK_GET

record rt_rbb_blk =
  bk_status :: rt_rbb_status
  bk_size :: u32
  bk_buf :: u32

text \<open>A queue is given by the index of its first block, and the number of blocks.\<close>

record rt_rbb_blk_queue =
  bq_blocks :: nat
  bq_num :: u32

text \<open>
  The nodes of the lists are the two heads in the object and the node inside each descriptor;
  a descriptor is given by its index in the block set.
\<close>

abbreviation (input) blk_list :: nat where "blk_list \<equiv> 0"
abbreviation (input) free_list :: nat where "free_list \<equiv> 1"

definition blk_node :: "nat \<Rightarrow> nat" where "blk_node b = b + 2"

definition blk_entry :: "nat \<Rightarrow> nat option" where
  "blk_entry n = (if n < 2 then None else Some (n - 2))"

record rt_rbb =
  rbb_buf :: u32
  rbb_buf_size :: u32
  rbb_blk_set :: "nat \<Rightarrow> rt_rbb_blk"
  rbb_blk_max_num :: nat
  rbb_next :: rt_slist
  rbb_tail :: nat

definition set_status :: "nat \<Rightarrow> rt_rbb_status \<Rightarrow> rt_rbb \<Rightarrow> rt_rbb" where
  "set_status b s r = r\<lparr>rbb_blk_set := (rbb_blk_set r)(b := (rbb_blk_set r b)\<lparr>bk_status := s\<rparr>)\<rparr>"

section \<open>Initialisation\<close>

definition init_block :: "nat \<Rightarrow> rt_rbb \<Rightarrow> rt_rbb" where
  "init_block i r =
     (let r = set_status i RT_RBB_BLK_UNUSED r
      in r\<lparr>rbb_next := rt_slist_insert free_list (blk_node i) (rt_slist_init (blk_node i) (rbb_next r))\<rparr>)"

primrec init_blocks :: "nat \<Rightarrow> nat \<Rightarrow> rt_rbb \<Rightarrow> rt_rbb" where
  "init_blocks i 0 r = r"
| "init_blocks i (Suc n) r = init_blocks (i + 1) n (init_block i r)"

text \<open>The memory of the descriptors and of the object has arbitrary content before.\<close>

definition rt_rbb_init :: "u32 \<Rightarrow> u32 \<Rightarrow> nat \<Rightarrow> rt_rbb \<Rightarrow> rt_rbb option" where
  "rt_rbb_init buf buf_size blk_max_num r =
     (if buf = 0 then None
      else Some (init_blocks 0 blk_max_num
        (r\<lparr>rbb_buf := buf, rbb_buf_size := buf_size, rbb_blk_max_num := blk_max_num, rbb_tail := blk_list,
           rbb_next := rt_slist_init free_list (rt_slist_init blk_list (rbb_next r))\<rparr>)))"

text \<open>
  Creation on the heap: what the allocator returns for the object (its former content), the buffer
  and the descriptors are arguments; the result is the object, and what has been freed again.
\<close>

datatype rbb_part = Rbb_object | Rbb_buffer | Rbb_blocks

definition rt_rbb_create ::
  "rt_rbb option \<Rightarrow> (u32 \<Rightarrow> u32 option) \<Rightarrow> (nat \<Rightarrow> bool) \<Rightarrow> u32 \<Rightarrow> nat \<Rightarrow> (rt_rbb option \<times> rbb_part list) option" where
  "rt_rbb_create rbb_mem buf_mem set_mem buf_size blk_max_num =
     (case rbb_mem of
        None \<Rightarrow> Some (None, [])
      | Some r \<Rightarrow>
          (case buf_mem buf_size of
             None \<Rightarrow> Some (None, [Rbb_object])
           | Some buf \<Rightarrow>
               if \<not> set_mem blk_max_num then Some (None, [Rbb_buffer, Rbb_object])
               else map_option (\<lambda>r. (Some r, [])) (rt_rbb_init buf buf_size blk_max_num r)))"

definition rt_rbb_destroy :: "rt_rbb \<Rightarrow> rbb_part list" where
  "rt_rbb_destroy r = [Rbb_buffer, Rbb_blocks, Rbb_object]"

section \<open>The lists of blocks\<close>

definition find_empty_blk_in_set :: "rt_rbb \<Rightarrow> (nat option \<times> rt_rbb) option" where
  "find_empty_blk_in_set r =
     (if rt_slist_isempty free_list (rbb_next r) then Some (None, r)
      else do {
        node \<leftarrow> rbb_next r free_list;
        blk \<leftarrow> blk_entry node;
        h \<leftarrow> rt_slist_remove free_list node (rbb_next r);
        if bk_status (rbb_blk_set r blk) = RT_RBB_BLK_UNUSED then Some (Some blk, r\<lparr>rbb_next := h\<rparr>) else None
      })"

definition list_append :: "nat \<Rightarrow> rt_rbb \<Rightarrow> rt_rbb" where
  "list_append n r = r\<lparr>rbb_next := ((rbb_next r)(rbb_tail r := Some n))(n := None), rbb_tail := n\<rparr>"

text \<open>The search loop is the one of \<^verbatim>\<open>rt_slist_remove\<close>.\<close>

definition list_remove :: "nat \<Rightarrow> rt_rbb \<Rightarrow> rt_rbb option" where
  "list_remove n r = do {
     node \<leftarrow> slist_find blk_list n (rbb_next r);
     case rbb_next r node of
       None \<Rightarrow> Some r
     | Some p \<Rightarrow>
         Some (r\<lparr>rbb_next := ((rbb_next r)(node := rbb_next r p))(n := None),
                 rbb_tail := (if rbb_tail r = n then node else rbb_tail r)\<rparr>)
   }"

section \<open>Blocks\<close>

definition place_block :: "nat \<Rightarrow> u32 \<Rightarrow> u32 \<Rightarrow> rt_rbb \<Rightarrow> rt_rbb" where
  "place_block new_rbb buf blk_size r =
     (let r = list_append (blk_node new_rbb) r
      in r\<lparr>rbb_blk_set := (rbb_blk_set r)(new_rbb :=
             (rbb_blk_set r new_rbb)\<lparr>bk_status := RT_RBB_BLK_INITED, bk_buf := buf, bk_size := blk_size\<rparr>)\<rparr>)"

definition rt_rbb_blk_alloc :: "u32 \<Rightarrow> rt_rbb \<Rightarrow> (nat option \<times> rt_rbb) option" where
  "rt_rbb_blk_alloc blk_size r0 =
     (if blk_size \<ge> 0x1000000 then None
      else do {
        (new_rbb, r) \<leftarrow> find_empty_blk_in_set r0;
        (case new_rbb of
           None \<Rightarrow> Some (None, r)
         | Some new_rbb \<Rightarrow>
             if \<not> rt_slist_isempty blk_list (rbb_next r)
             then do {
               head_node \<leftarrow> rbb_next r blk_list;
               head \<leftarrow> map_option (rbb_blk_set r) (blk_entry head_node);
               tail \<leftarrow> map_option (rbb_blk_set r) (blk_entry (rbb_tail r));
               if bk_buf head \<le> bk_buf tail
               then (let empty1 = (rbb_buf r + rbb_buf_size r) - (bk_buf tail + bk_size tail);
                         empty2 = bk_buf head - rbb_buf r
                     in if empty1 \<ge> blk_size
                        then Some (Some new_rbb, place_block new_rbb (bk_buf tail + bk_size tail) blk_size r)
                        else if empty2 \<ge> blk_size
                        then Some (Some new_rbb, place_block new_rbb (rbb_buf r) blk_size r)
                        else Some (None, r))
               else (let empty1 = bk_buf head - (bk_buf tail + bk_size tail)
                     in if empty1 \<ge> blk_size
                        then Some (Some new_rbb, place_block new_rbb (bk_buf tail + bk_size tail) blk_size r)
                        else Some (None, r))
             }
             else Some (Some new_rbb, place_block new_rbb (rbb_buf r) blk_size r))
      })"

definition rt_rbb_blk_put :: "nat \<Rightarrow> rt_rbb \<Rightarrow> rt_rbb option" where
  "rt_rbb_blk_put block r =
     (if bk_status (rbb_blk_set r block) = RT_RBB_BLK_INITED then Some (set_status block RT_RBB_BLK_PUT r) else None)"

partial_function (option) get_loop :: "nat option \<Rightarrow> rt_rbb \<Rightarrow> (nat option \<times> rt_rbb) option" where
  "get_loop node r =
     (case node of
        None \<Rightarrow> Some (None, r)
      | Some n \<Rightarrow> do {
          block \<leftarrow> blk_entry n;
          if bk_status (rbb_blk_set r block) = RT_RBB_BLK_PUT
          then Some (Some block, set_status block RT_RBB_BLK_GET r)
          else get_loop (rbb_next r n) r
        })"

definition rt_rbb_blk_get :: "rt_rbb \<Rightarrow> (nat option \<times> rt_rbb) option" where
  "rt_rbb_blk_get r =
     (if rt_slist_isempty blk_list (rbb_next r) then Some (None, r) else get_loop (rbb_next r blk_list) r)"

definition rt_rbb_blk_size :: "nat \<Rightarrow> rt_rbb \<Rightarrow> u32" where
  "rt_rbb_blk_size block r = bk_size (rbb_blk_set r block)"

definition rt_rbb_blk_buf :: "nat \<Rightarrow> rt_rbb \<Rightarrow> u32" where
  "rt_rbb_blk_buf block r = bk_buf (rbb_blk_set r block)"

definition rt_rbb_blk_free :: "nat \<Rightarrow> rt_rbb \<Rightarrow> rt_rbb option" where
  "rt_rbb_blk_free block r =
     (if bk_status (rbb_blk_set r block) = RT_RBB_BLK_UNUSED then None
      else do {
        r \<leftarrow> list_remove (blk_node block) r;
        (let r = set_status block RT_RBB_BLK_UNUSED r
         in Some (r\<lparr>rbb_next := rt_slist_insert free_list (blk_node block) (rbb_next r)\<rparr>))
      })"

section \<open>Queues of blocks\<close>

text \<open>
  The loop of \<^verbatim>\<open>rt_rbb_blk_queue_get\<close> advances with \<^verbatim>\<open>tmp = rt_slist_next(node)\<close> also when \<^verbatim>\<open>node\<close> has
  just become null. What a read through the null pointer gives is the argument \<open>null_next\<close>: a trap
  (\<open>None\<close>), or a word that is never used.
\<close>

definition next_or_null :: "nat option option \<Rightarrow> nat option \<Rightarrow> rt_slist \<Rightarrow> nat option option" where
  "next_or_null null_next node h = (case node of None \<Rightarrow> null_next | Some n \<Rightarrow> Some (h n))"

definition queue_block :: "nat \<Rightarrow> rt_rbb_blk_queue \<Rightarrow> rt_rbb \<Rightarrow> rt_rbb_blk_queue \<times> rt_rbb" where
  "queue_block b q r = (q\<lparr>bq_num := bq_num q + 1\<rparr>, set_status b RT_RBB_BLK_GET r)"

partial_function (option) queue_get_loop ::
  "nat option option \<Rightarrow> u32 \<Rightarrow> nat option \<Rightarrow> nat option \<Rightarrow> nat option \<Rightarrow> u32 \<Rightarrow> rt_rbb_blk_queue \<Rightarrow> rt_rbb
   \<Rightarrow> (u32 \<times> rt_rbb_blk_queue \<times> rt_rbb) option" where
  "queue_get_loop null_next queue_data_len node tmp last_block data_total_size q r =
     (case node of
        None \<Rightarrow> Some (data_total_size, q, r)
      | Some n \<Rightarrow> do {
          block \<leftarrow> blk_entry n;
          (case last_block of
             None \<Rightarrow>
               if bk_status (rbb_blk_set r block) = RT_RBB_BLK_PUT
               then (let (q, r) = queue_block block (q\<lparr>bq_blocks := block, bq_num := 0\<rparr>) r in do {
                 tmp' \<leftarrow> next_or_null null_next tmp (rbb_next r);
                 queue_get_loop null_next queue_data_len tmp tmp' (Some block)
                   (data_total_size + bk_size (rbb_blk_set r block)) q r
               })
               else do {
                 tmp' \<leftarrow> next_or_null null_next tmp (rbb_next r);
                 queue_get_loop null_next queue_data_len tmp tmp' None data_total_size q r
               }
           | Some last_block \<Rightarrow>
               if bk_status (rbb_blk_set r block) \<noteq> RT_RBB_BLK_PUT \<or>
                  bk_buf (rbb_blk_set r last_block) > bk_buf (rbb_blk_set r block) \<or>
                  data_total_size + bk_size (rbb_blk_set r block) > queue_data_len
               then Some (data_total_size, q, r)
               else (let (q, r) = queue_block block q r in do {
                 tmp' \<leftarrow> next_or_null null_next tmp (rbb_next r);
                 queue_get_loop null_next queue_data_len tmp tmp' (Some block)
                   (data_total_size + bk_size (rbb_blk_set r block)) q r
               }))
        })"

definition rt_rbb_blk_queue_get ::
  "nat option option \<Rightarrow> u32 \<Rightarrow> rt_rbb_blk_queue \<Rightarrow> rt_rbb \<Rightarrow> (u32 \<times> rt_rbb_blk_queue \<times> rt_rbb) option" where
  "rt_rbb_blk_queue_get null_next queue_data_len q r =
     (case rbb_next r blk_list of
        None \<Rightarrow> Some (0, q, r)
      | Some n \<Rightarrow> queue_get_loop null_next queue_data_len (Some n) (rbb_next r n) None 0 q r)"

text \<open>A block pointer made from a null or head node is no block.\<close>

definition next_entry :: "nat \<Rightarrow> rt_rbb \<Rightarrow> nat option" where
  "next_entry b r = Option.bind (rbb_next r (blk_node b)) blk_entry"

primrec queue_len_loop :: "nat \<Rightarrow> nat option \<Rightarrow> u32 \<Rightarrow> rt_rbb \<Rightarrow> u32 option" where
  "queue_len_loop 0 blk data_total_size r = Some data_total_size"
| "queue_len_loop (Suc i) blk data_total_size r = do {
     b \<leftarrow> blk;
     queue_len_loop i (next_entry b r) (data_total_size + bk_size (rbb_blk_set r b)) r
   }"

definition rt_rbb_blk_queue_len :: "rt_rbb_blk_queue \<Rightarrow> rt_rbb \<Rightarrow> u32 option" where
  "rt_rbb_blk_queue_len q r = queue_len_loop (unat (bq_num q)) (Some (bq_blocks q)) 0 r"

definition rt_rbb_blk_queue_buf :: "rt_rbb_blk_queue \<Rightarrow> rt_rbb \<Rightarrow> u32" where
  "rt_rbb_blk_queue_buf q r = bk_buf (rbb_blk_set r (bq_blocks q))"

primrec queue_free_loop :: "nat \<Rightarrow> nat option \<Rightarrow> rt_rbb \<Rightarrow> rt_rbb option" where
  "queue_free_loop 0 blk r = Some r"
| "queue_free_loop (Suc i) blk r = do {
     b \<leftarrow> blk;
     r' \<leftarrow> rt_rbb_blk_free b r;
     queue_free_loop i (next_entry b r) r'
   }"

definition rt_rbb_blk_queue_free :: "rt_rbb_blk_queue \<Rightarrow> rt_rbb \<Rightarrow> rt_rbb option" where
  "rt_rbb_blk_queue_free q r = queue_free_loop (unat (bq_num q)) (Some (bq_blocks q)) r"

partial_function (option) next_len_loop :: "nat option \<Rightarrow> nat option \<Rightarrow> u32 \<Rightarrow> rt_rbb \<Rightarrow> u32 option" where
  "next_len_loop node last_block data_len r =
     (case node of
        None \<Rightarrow> Some data_len
      | Some n \<Rightarrow> do {
          block \<leftarrow> blk_entry n;
          (case last_block of
             None \<Rightarrow>
               if bk_status (rbb_blk_set r block) \<noteq> RT_RBB_BLK_PUT
               then next_len_loop (rbb_next r n) None data_len r
               else next_len_loop (rbb_next r n) (Some block) (data_len + bk_size (rbb_blk_set r block)) r
           | Some last_block \<Rightarrow>
               if bk_status (rbb_blk_set r block) \<noteq> RT_RBB_BLK_PUT \<or>
                  bk_buf (rbb_blk_set r last_block) > bk_buf (rbb_blk_set r block)
               then Some data_len
               else next_len_loop (rbb_next r n) (Some block) (data_len + bk_size (rbb_blk_set r block)) r)
        })"

definition rt_rbb_next_blk_queue_len :: "rt_rbb \<Rightarrow> u32 option" where
  "rt_rbb_next_blk_queue_len r =
     (if rt_slist_isempty blk_list (rbb_next r) then Some 0 else next_len_loop (rbb_next r blk_list) None 0 r)"

definition rt_rbb_get_buf_size :: "rt_rbb \<Rightarrow> u32" where
  "rt_rbb_get_buf_size r = rbb_buf_size r"


declare slist_find.simps [code] get_loop.simps [code] queue_get_loop.simps [code] next_len_loop.simps [code]

section \<open>The lists\<close>

text \<open>
  \<open>xs\<close> are the blocks in use, oldest first, and \<open>fs\<close> the free descriptors. A descriptor may be in neither
  list: an allocation that finds no space loses the one it has taken.
\<close>

definition rbb_lists :: "rt_rbb \<Rightarrow> nat list \<Rightarrow> nat list \<Rightarrow> bool" where
  "rbb_lists r xs fs \<longleftrightarrow>
     chain (rbb_next r) (rbb_next r blk_list) (map blk_node xs) \<and>
     chain (rbb_next r) (rbb_next r free_list) (map blk_node fs) \<and>
     distinct (xs @ fs) \<and> set (xs @ fs) \<subseteq> {..<rbb_blk_max_num r} \<and>
     rbb_tail r = last (blk_list # map blk_node xs) \<and>
     (\<forall>b<rbb_blk_max_num r. bk_status (rbb_blk_set r b) \<noteq> RT_RBB_BLK_UNUSED \<longleftrightarrow> b \<in> set xs)"

lemma node_simps [simp]:
  "blk_node b \<noteq> 0" "blk_node b \<noteq> Suc 0" "blk_node b = blk_node c \<longleftrightarrow> b = c" "blk_entry (blk_node b) = Some b"
  "inj_on blk_node A" "0 \<noteq> blk_node b" "Suc 0 \<noteq> blk_node b" "blk_node b \<in> blk_node ` A \<longleftrightarrow> b \<in> A"
  by (auto simp: blk_node_def blk_entry_def inj_on_def)

lemma set_status_simps [simp]:
  "rbb_next (set_status b s r) = rbb_next r" "rbb_tail (set_status b s r) = rbb_tail r"
  "rbb_buf (set_status b s r) = rbb_buf r" "rbb_buf_size (set_status b s r) = rbb_buf_size r"
  "rbb_blk_max_num (set_status b s r) = rbb_blk_max_num r"
  "bk_buf (rbb_blk_set (set_status b s r) c) = bk_buf (rbb_blk_set r c)"
  "bk_size (rbb_blk_set (set_status b s r) c) = bk_size (rbb_blk_set r c)"
  "bk_status (rbb_blk_set (set_status b s r) c) = (if c = b then s else bk_status (rbb_blk_set r c))"
  by (simp_all add: set_status_def)

lemma slist_remove_first: "h l = Some n \<Longrightarrow> rt_slist_remove l n h = Some (h(l := h n))"
  by (subst rt_slist_remove_def, subst slist_find.simps) simp

lemma find_empty_ok:
  assumes "rbb_lists r xs fs"
  shows "find_empty_blk_in_set r =
    (case fs of [] \<Rightarrow> Some (None, r)
     | b # fs' \<Rightarrow> Some (Some b, r\<lparr>rbb_next := (rbb_next r)(free_list := rbb_next r (blk_node b))\<rparr>))"
proof (cases fs)
  case Nil
  then show ?thesis using assms by (simp add: find_empty_blk_in_set_def rbb_lists_def rt_slist_isempty_def)
next
  case (Cons b fs')
  then have h: "rbb_next r (Suc 0) = Some (blk_node b)" and "b < rbb_blk_max_num r" "b \<notin> set xs"
    using assms by (auto simp: rbb_lists_def)
  then have u: "bk_status (rbb_blk_set r b) = RT_RBB_BLK_UNUSED" using assms by (auto simp: rbb_lists_def)
  show ?thesis using Cons u by (simp add: find_empty_blk_in_set_def rt_slist_isempty_def h slist_remove_first[where h = "rbb_next r"])
qed

lemma take_free_lists:
  assumes "rbb_lists r xs (b # fs)"
  shows "rbb_lists (r\<lparr>rbb_next := (rbb_next r)(free_list := rbb_next r (blk_node b))\<rparr>) xs fs"
  using assms by (auto simp: rbb_lists_def chain_upd image_iff)

lemma append_chain:
  assumes "chain h (h l) xs" "distinct (l # xs)" "n \<notin> set (l # xs)"
  shows "chain ((h(last (l # xs) := Some n))(n := None)) (((h(last (l # xs) := Some n))(n := None)) l) (xs @ [n])"
proof -
  obtain h' where h': "rt_slist_append l n h = Some h'" "chain h' (h' l) (xs @ [n])"
    using slist_append_ok[OF assms] by blast
  then show ?thesis using slist_tail_ok[OF assms(1)] by (auto simp: rt_slist_append_def)
qed

lemma chain_upd2: "x \<notin> set xs \<Longrightarrow> y \<notin> set xs \<Longrightarrow> chain ((h(x := v))(y := w)) p xs = chain h p xs"
  by simp

lemma place_lists:
  assumes "rbb_lists r xs fs" "b \<notin> set (xs @ fs)" "b < rbb_blk_max_num r"
  shows "rbb_lists (place_block b buf sz r) (xs @ [b]) fs"
proof -
  let ?n = "blk_node b" and ?t = "last (0 # map blk_node xs)"
  have l: "distinct (0 # map blk_node xs)" "?n \<notin> set (0 # map blk_node xs)"
    using assms(1,2) by (auto simp: rbb_lists_def distinct_map)
  note a = append_chain[of "rbb_next r" 0 "map blk_node xs" ?n, OF _ l]
  have t: "?t \<noteq> 1" "?t \<notin> set (map blk_node fs)"
    using assms(1) by (cases xs rule: rev_cases; auto simp: rbb_lists_def)+
  show ?thesis using assms(2,3) assms(1)[unfolded rbb_lists_def] a t
    by (simp add: rbb_lists_def place_block_def list_append_def chain_upd2)
qed

lemma slist_find_member:
  "chain h (h l) (us @ n # vs) \<Longrightarrow> n \<notin> set us \<Longrightarrow> slist_find l n h = Some (last (l # us)) \<and> h (last (l # us)) = Some n"
proof (induction us arbitrary: l)
  case Nil
  then show ?case by (subst slist_find.simps) simp
next
  case (Cons u us)
  then show ?case by (subst slist_find.simps) auto
qed

lemma rbb_free_ok:
  assumes "rbb_lists r xs fs" "b \<in> set xs"
  shows "\<exists>r'. rt_rbb_blk_free b r = Some r' \<and> rbb_lists r' (remove1 b xs) (b # fs) \<and>
    rbb_blk_set r' = rbb_blk_set (set_status b RT_RBB_BLK_UNUSED r) \<and> rbb_buf r' = rbb_buf r \<and>
    rbb_buf_size r' = rbb_buf_size r \<and> rbb_blk_max_num r' = rbb_blk_max_num r"
proof -
  let ?h = "rbb_next r" and ?n = "blk_node b"
  obtain us vs where xs: "xs = us @ b # vs" "b \<notin> set us" using split_list_first[OF assms(2)] by blast
  note l = assms(1)[unfolded rbb_lists_def]
  have d: "distinct (0 # map blk_node xs)" using l by (auto simp: distinct_map)
  let ?p = "last (0 # map blk_node us)"
  have f: "slist_find 0 ?n ?h = Some ?p" "?h ?p = Some ?n"
    using slist_find_member[of ?h 0 "map blk_node us" ?n "map blk_node vs"] l xs by auto
  let ?h' = "?h(?p := ?h ?n)"
  have rm: "rt_slist_remove 0 ?n ?h = Some ?h'" by (simp add: rt_slist_remove_def f del: last.simps)
  have b: "b \<notin> set us" "b \<notin> set vs" "b \<notin> set fs" "b < rbb_blk_max_num r" "remove1 b xs = us @ vs"
    using l xs by (auto simp: remove1_append)
  have c: "chain ?h' (?h' 0) (map blk_node (us @ vs))"
    using slist_remove_ok[of ?h 0 "map blk_node xs" ?n] l d rm xs by (auto simp: remove1_append)
  have p: "?p \<noteq> 1" "?p \<notin> set (map blk_node fs)" "?n \<noteq> ?p"
    using l xs by (cases us rule: rev_cases; auto)+
  have tl: "(if rbb_tail r = ?n then ?p else rbb_tail r) = last (0 # map blk_node (us @ vs))"
    using l xs b(2) by (cases vs rule: rev_cases) auto
  have r: "list_remove ?n r = Some (r\<lparr>rbb_next := ?h'(?n := None), rbb_tail := last (0 # map blk_node (us @ vs))\<rparr>)"
    using tl by (simp add: list_remove_def f del: last.simps)
  have s: "bk_status (rbb_blk_set r b) \<noteq> RT_RBB_BLK_UNUSED" using l b(4) assms(2) by blast
  let ?r = "set_status b RT_RBB_BLK_UNUSED (r\<lparr>rbb_next := ?h'(?n := None), rbb_tail := last (0 # map blk_node (us @ vs))\<rparr>)"
  let ?r' = "?r\<lparr>rbb_next := rt_slist_insert free_list ?n (rbb_next ?r)\<rparr>"
  have e: "rt_rbb_blk_free b r = Some ?r'" using s r by (simp add: rt_rbb_blk_free_def Let_def)
  have i1: "chain (rbb_next ?r') (rbb_next ?r' 0) (map blk_node (us @ vs))"
    using c b by (simp add: rt_slist_insert_def image_iff)
  have i2: "chain (rbb_next ?r') (rbb_next ?r' 1) (map blk_node (b # fs))"
    using l b p by (simp add: rt_slist_insert_def image_iff)
  have "rbb_lists ?r' (us @ vs) (b # fs)"
    unfolding rbb_lists_def using i1 i2 l xs b by auto
  then show ?thesis using e b(5) by (simp add: set_status_def)
qed

lemma status_lists:
  assumes "rbb_lists r xs fs" "b \<in> set xs" "s \<noteq> RT_RBB_BLK_UNUSED"
  shows "rbb_lists (set_status b s r) xs fs"
  using assms by (auto simp: rbb_lists_def)

lemma init_blocks_ok:
  assumes "rbb_next r 0 = None" "chain (rbb_next r) (rbb_next r 1) (map blk_node (rev [0..<i]))"
    "\<forall>b<i. bk_status (rbb_blk_set r b) = RT_RBB_BLK_UNUSED"
  shows "rbb_next (init_blocks i n r) 0 = None \<and>
    chain (rbb_next (init_blocks i n r)) (rbb_next (init_blocks i n r) 1) (map blk_node (rev [0..<i + n])) \<and>
    (\<forall>b<i + n. bk_status (rbb_blk_set (init_blocks i n r) b) = RT_RBB_BLK_UNUSED) \<and>
    rbb_tail (init_blocks i n r) = rbb_tail r \<and> rbb_buf (init_blocks i n r) = rbb_buf r \<and>
    rbb_buf_size (init_blocks i n r) = rbb_buf_size r \<and> rbb_blk_max_num (init_blocks i n r) = rbb_blk_max_num r"
  using assms
proof (induction n arbitrary: i r)
  case (Suc n)
  have p: "rbb_next (init_block i r) 0 = None"
    "chain (rbb_next (init_block i r)) (rbb_next (init_block i r) 1) (map blk_node (rev [0..<Suc i]))"
    "\<forall>b<Suc i. bk_status (rbb_blk_set (init_block i r) b) = RT_RBB_BLK_UNUSED"
    using Suc.prems by (auto simp: init_block_def Let_def rt_slist_insert_def rt_slist_init_def image_iff)
  have q: "rbb_tail (init_block i r) = rbb_tail r" "rbb_buf (init_block i r) = rbb_buf r"
    "rbb_buf_size (init_block i r) = rbb_buf_size r" "rbb_blk_max_num (init_block i r) = rbb_blk_max_num r"
    by (simp_all add: init_block_def Let_def)
  show ?case using Suc.IH[OF p] q by simp
qed simp

lemma rbb_init_ok:
  assumes "buf \<noteq> 0"
  shows "\<exists>r'. rt_rbb_init buf buf_size n r = Some r' \<and> rbb_lists r' [] (rev [0..<n]) \<and>
    rbb_buf r' = buf \<and> rbb_buf_size r' = buf_size \<and> rbb_blk_max_num r' = n"
proof -
  let ?r = "r\<lparr>rbb_buf := buf, rbb_buf_size := buf_size, rbb_blk_max_num := n, rbb_tail := 0,
    rbb_next := rt_slist_init 1 (rt_slist_init 0 (rbb_next r))\<rparr>"
  have i: "rbb_next ?r 0 = None" "chain (rbb_next ?r) (rbb_next ?r 1) (map blk_node (rev [0..<0]))"
    "\<forall>b<0. bk_status (rbb_blk_set ?r b) = RT_RBB_BLK_UNUSED"
    by (simp_all add: rt_slist_init_def)
  show ?thesis using init_blocks_ok[OF i, of n] assms by (auto simp: rt_rbb_init_def rbb_lists_def)
qed

section \<open>The regions of the blocks\<close>

text \<open>Regions, as start and length, one after the other between \<open>lo\<close> and \<open>hi\<close>, with gaps where blocks were freed.\<close>

fun stacked :: "nat \<Rightarrow> (nat \<times> nat) list \<Rightarrow> nat \<Rightarrow> bool" where
  "stacked lo [] hi \<longleftrightarrow> lo \<le> hi"
| "stacked lo ((s, n) # rs) hi \<longleftrightarrow> lo \<le> s \<and> 0 < n \<and> stacked (s + n) rs hi"

lemma stacked_le: "stacked lo rs hi \<Longrightarrow> lo \<le> hi"
  by (induction lo rs hi rule: stacked.induct) auto

lemma stacked_mono: "stacked lo rs hi \<Longrightarrow> lo' \<le> lo \<Longrightarrow> hi \<le> hi' \<Longrightarrow> stacked lo' rs hi'"
proof (induction lo rs hi arbitrary: lo' rule: stacked.induct)
  case (2 lo s n rs hi)
  then show ?case by auto
qed auto

lemma stacked_snoc: "stacked lo (rs @ [(s, n)]) hi \<longleftrightarrow> stacked lo rs s \<and> 0 < n \<and> s + n \<le> hi"
  by (induction lo rs hi rule: stacked.induct) auto

lemma stacked_inside: "stacked lo rs hi \<Longrightarrow> (s, n) \<in> set rs \<Longrightarrow> lo \<le> s \<and> 0 < n \<and> s + n \<le> hi"
proof (induction lo rs hi rule: stacked.induct)
  case (2 lo s' n' rs hi)
  then show ?case using stacked_le by fastforce
qed simp

lemma stacked_filter: "stacked lo (map f xs) hi \<Longrightarrow> stacked lo (map f (filter P xs)) hi"
proof (induction xs arbitrary: lo)
  case (Cons x xs)
  obtain s n where f: "f x = (s, n)" by force
  then have "stacked (s + n) (map f (filter P xs)) hi" "lo \<le> s + n" "0 < n" using Cons by auto
  then show ?case using f Cons.prems by (auto intro: stacked_mono)
qed simp

definition apart :: "nat \<times> nat \<Rightarrow> nat \<times> nat \<Rightarrow> bool" where
  "apart x y \<longleftrightarrow> fst x + snd x \<le> fst y \<or> fst y + snd y \<le> fst x"

lemma apart_sym: "apart x y \<Longrightarrow> apart y x"
  by (auto simp: apart_def)

lemma stacked_apart: "stacked lo rs hi \<Longrightarrow> sorted_wrt apart rs"
proof (induction lo rs hi rule: stacked.induct)
  case (2 lo s n rs hi)
  then have "stacked (s + n) rs hi" by simp
  then have "apart (s, n) y" if "y \<in> set rs" for y
    using stacked_inside[of "s + n" rs hi "fst y" "snd y"] that by (simp add: apart_def)
  then show ?case using 2 by auto
qed simp

definition region :: "rt_rbb \<Rightarrow> nat \<Rightarrow> nat \<times> nat" where
  "region r b = (unat (bk_buf (rbb_blk_set r b)), unat (bk_size (rbb_blk_set r b)))"

lemma region_frame [simp]: "region (r\<lparr>rbb_next := h\<rparr>) c = region r c" "region (set_status b s r) c = region r c"
  by (simp_all add: region_def)

text \<open>The older blocks \<open>us\<close> lie above the ones that have wrapped round to the start of the buffer, \<open>vs\<close>.\<close>

definition ring_layout :: "rt_rbb \<Rightarrow> nat list \<Rightarrow> nat list \<Rightarrow> bool" where
  "ring_layout r us vs \<longleftrightarrow>
     stacked (unat (rbb_buf r)) (map (region r) us) (unat (rbb_buf r) + unat (rbb_buf_size r)) \<and>
     (vs \<noteq> [] \<longrightarrow> us \<noteq> [] \<and> stacked (unat (rbb_buf r)) (map (region r) vs) (fst (region r (hd us))))"

definition rbb_inv :: "rt_rbb \<Rightarrow> nat list \<Rightarrow> nat list \<Rightarrow> bool" where
  "rbb_inv r xs fs \<longleftrightarrow> rbb_lists r xs fs \<and> unat (rbb_buf r) + unat (rbb_buf_size r) < 2 ^ 32 \<and>
     rbb_blk_max_num r < 2 ^ 32 \<and>
     (\<exists>us vs. xs = us @ vs \<and> ring_layout r us vs)"

lemma ring_inside:
  assumes "ring_layout r us vs" "b \<in> set (us @ vs)"
  shows "unat (rbb_buf r) \<le> fst (region r b) \<and> 0 < snd (region r b) \<and>
    fst (region r b) + snd (region r b) \<le> unat (rbb_buf r) + unat (rbb_buf_size r)"
proof (cases "b \<in> set us")
  case True
  then show ?thesis using assms(1) stacked_inside[of _ "map (region r) us" _ "fst (region r b)" "snd (region r b)"]
    by (auto simp: ring_layout_def)
next
  case False
  then have v: "b \<in> set vs" "us \<noteq> []" using assms by (auto simp: ring_layout_def)
  then have "hd us \<in> set us" by simp
  then have "fst (region r (hd us)) \<le> unat (rbb_buf r) + unat (rbb_buf_size r)"
    using assms(1) stacked_inside[of _ "map (region r) us" _ "fst (region r (hd us))" "snd (region r (hd us))"]
    by (fastforce simp: ring_layout_def)
  then show ?thesis
    using assms(1) v stacked_inside[of _ "map (region r) vs" _ "fst (region r b)" "snd (region r b)"]
    by (fastforce simp: ring_layout_def)
qed

lemma ring_apart:
  assumes "ring_layout r us vs"
  shows "sorted_wrt (\<lambda>b c. apart (region r b) (region r c)) (us @ vs)"
proof -
  have u: "sorted_wrt (\<lambda>b c. apart (region r b) (region r c)) us"
    using stacked_apart assms by (fastforce simp: ring_layout_def sorted_wrt_map)
  have v: "sorted_wrt (\<lambda>b c. apart (region r b) (region r c)) vs"
    using stacked_apart assms by (cases "vs = []") (fastforce simp: ring_layout_def sorted_wrt_map)+
  have "apart (region r b) (region r c)" if b: "b \<in> set us" and c: "c \<in> set vs" for b c
  proof -
    obtain u us' where us: "us = u # us'" using b by (cases us) auto
    have "fst (region r u) \<le> fst (region r b)"
      using assms b stacked_inside[of _ "map (region r) us'" _ "fst (region r b)" "snd (region r b)"]
      by (cases "region r u") (fastforce simp: ring_layout_def us)
    moreover have "fst (region r c) + snd (region r c) \<le> fst (region r u)"
      using assms c stacked_inside[of _ "map (region r) vs" _ "fst (region r c)" "snd (region r c)"]
      by (fastforce simp: ring_layout_def us)
    ultimately show ?thesis by (simp add: apart_def)
  qed
  then show ?thesis using u v by (simp add: sorted_wrt_append)
qed

section \<open>Allocation\<close>

text \<open>Where the next block of \<open>sz\<close> bytes is placed, by arithmetic that does not wrap.\<close>

definition ring_place :: "nat \<Rightarrow> nat \<Rightarrow> (nat \<times> nat) list \<Rightarrow> nat \<Rightarrow> nat option" where
  "ring_place lo hi rs sz =
     (if rs = [] then Some lo
      else let top = fst (last rs) + snd (last rs) in
        if fst (hd rs) \<le> fst (last rs)
        then if sz \<le> hi - top then Some top else if sz \<le> fst (hd rs) - lo then Some lo else None
        else if sz \<le> fst (hd rs) - top then Some top else None)"

lemma u32_add: "unat x + unat y < 2 ^ 32 \<Longrightarrow> unat (x + y) = unat x + unat y" for x y :: u32
  by (simp add: unat_word_ariths)

lemma u32_lt: "unat x < 2 ^ 32" for x :: u32
  using unsigned_less[of x] by simp

lemma u32_sub: "unat y \<le> unat x \<Longrightarrow> unat (x - y) = unat x - unat y" for x y :: u32
  by (simp add: unat_sub word_le_nat_alt)

lemma ring_tail_below:
  assumes "ring_layout r us vs" "vs \<noteq> []"
  shows "fst (region r (last vs)) + snd (region r (last vs)) \<le> fst (region r (hd us))" "0 < snd (region r (last vs))"
  using assms stacked_inside[of _ "map (region r) vs" _ "fst (region r (last vs))" "snd (region r (last vs))"]
  by (auto simp: ring_layout_def)

lemma ring_head_below:
  assumes "ring_layout r us vs" "b \<in> set us"
  shows "fst (region r (hd us)) \<le> fst (region r b)"
proof -
  obtain u us' where us: "us = u # us'" using assms(2) by (cases us) auto
  show ?thesis
    using assms stacked_inside[of _ "map (region r) us'" _ "fst (region r b)" "snd (region r b)"]
    by (cases "region r u") (fastforce simp: ring_layout_def us)
qed

lemma alloc_eq:
  assumes "rbb_inv r xs fs" "unat sz < 2 ^ 24"
  shows "rt_rbb_blk_alloc sz r =
    (case fs of [] \<Rightarrow> Some (None, r)
     | b # fs' \<Rightarrow>
         let r1 = r\<lparr>rbb_next := (rbb_next r)(free_list := rbb_next r (blk_node b))\<rparr>
         in Some (case ring_place (unat (rbb_buf r)) (unat (rbb_buf r) + unat (rbb_buf_size r)) (map (region r) xs) (unat sz) of
                    None \<Rightarrow> (None, r1)
                  | Some a \<Rightarrow> (Some b, place_block b (of_nat a) sz r1)))"
proof -
  have lt: "\<not> sz \<ge> 0x1000000" using assms(2) by (simp add: word_le_nat_alt)
  from assms(1) obtain us vs where l: "rbb_lists r xs fs" "xs = us @ vs" "ring_layout r us vs"
    and hi: "unat (rbb_buf r) + unat (rbb_buf_size r) < 2 ^ 32"
    by (auto simp: rbb_inv_def)
  note f = find_empty_ok[OF l(1)]
  show ?thesis
  proof (cases fs)
    case Nil
    then show ?thesis using lt f by (simp add: rt_rbb_blk_alloc_def)
  next
    case (Cons b fs')
    let ?r1 = "r\<lparr>rbb_next := (rbb_next r)(free_list := rbb_next r (blk_node b))\<rparr>"
    show ?thesis
    proof (cases "xs = []")
      case True
      then have "rbb_next r 0 = None" using l(1) by (simp add: rbb_lists_def)
      then show ?thesis using lt f Cons True by (simp add: rt_rbb_blk_alloc_def rt_slist_isempty_def ring_place_def)
    next
      case False
      then have us: "hd xs \<in> set (us @ vs)" "last xs \<in> set (us @ vs)"
        unfolding l(2)[symmetric] by simp_all
      have n: "rbb_next r 0 = Some (blk_node (hd xs))" "rbb_tail r = blk_node (last xs)"
        using l(1) False by (cases xs; auto simp: rbb_lists_def last_map)+
      define H T where HT: "H = rbb_blk_set r (hd xs)" "T = rbb_blk_set r (last xs)"
      note h = ring_inside[OF l(3) us(1)] and t = ring_inside[OF l(3) us(2)]
      have te: "unat (bk_buf T + bk_size T) = unat (bk_buf T) + unat (bk_size T)"
        using t hi by (simp add: u32_add region_def HT)
      have be: "unat (rbb_buf r + rbb_buf_size r) = unat (rbb_buf r) + unat (rbb_buf_size r)"
        using hi by (simp add: u32_add)
      have e1: "unat ((rbb_buf r + rbb_buf_size r) - (bk_buf T + bk_size T)) =
          unat (rbb_buf r) + unat (rbb_buf_size r) - (unat (bk_buf T) + unat (bk_size T))"
        using t te be by (simp add: u32_sub region_def HT)
      have e2: "unat (bk_buf H - rbb_buf r) = unat (bk_buf H) - unat (rbb_buf r)"
        using h by (simp add: u32_sub region_def HT)
      have e3: "unat (bk_buf H - (bk_buf T + bk_size T)) = unat (bk_buf H) - (unat (bk_buf T) + unat (bk_size T))"
        if "\<not> bk_buf H \<le> bk_buf T"
      proof -
        have "vs \<noteq> []"
          using that ring_head_below[OF l(3), of "last us"] l(2) False
          by (auto simp: word_le_nat_alt HT region_def)
        then show ?thesis using ring_tail_below[OF l(3)] l(2,3) te
          by (simp add: u32_sub region_def HT ring_layout_def)
      qed
      have a: "word_of_nat (unat (bk_buf T) + unat (bk_size T)) = bk_buf T + bk_size T" by simp
      show ?thesis
        using lt f Cons False n e1 e2 e3
        by (simp add: rt_rbb_blk_alloc_def rt_slist_isempty_def ring_place_def Let_def hd_map last_map
            region_def word_le_nat_alt HT[symmetric])
    qed
  qed
qed

lemma stacked_top: "stacked lo rs hi \<Longrightarrow> rs \<noteq> [] \<Longrightarrow> stacked lo rs (fst (last rs) + snd (last rs)) \<and> fst (last rs) + snd (last rs) \<le> hi"
  by (cases rs rule: rev_cases) (auto simp: stacked_snoc)

lemma stacked_append:
  "stacked lo rs hi \<Longrightarrow> rs \<noteq> [] \<Longrightarrow> 0 < n \<Longrightarrow> n \<le> hi - (fst (last rs) + snd (last rs)) \<Longrightarrow>
   stacked lo (rs @ [(fst (last rs) + snd (last rs), n)]) hi"
  using stacked_top[of lo rs hi] by (auto simp: stacked_snoc)

lemma ring_layout_cong:
  assumes "ring_layout r us vs" "rbb_buf r' = rbb_buf r" "rbb_buf_size r' = rbb_buf_size r"
    "\<forall>b\<in>set (us @ vs). region r' b = region r b"
  shows "ring_layout r' us vs"
proof -
  have m: "map (region r') us = map (region r) us" "map (region r') vs = map (region r) vs" using assms(4) by auto
  have "region r' (hd us) = region r (hd us)" if "us \<noteq> []" using assms(4) that by simp
  then show ?thesis using assms(1) unfolding ring_layout_def m assms(2,3) by simp
qed

lemma place_layout:
  assumes "ring_layout r us vs" "b \<notin> set (us @ vs)" "region r b = (a, sz)" "0 < sz" "sz \<le> unat (rbb_buf_size r)"
    and "ring_place (unat (rbb_buf r)) (unat (rbb_buf r) + unat (rbb_buf_size r)) (map (region r) (us @ vs)) sz = Some a"
  shows "\<exists>us' vs'. us @ vs @ [b] = us' @ vs' \<and> ring_layout r us' vs'"
proof (cases "us = []")
  case True
  then have "vs = []" using assms(1) by (auto simp: ring_layout_def)
  moreover from this have "a = unat (rbb_buf r)" using True assms(6) by (simp add: ring_place_def)
  ultimately have "ring_layout r [b] []" using assms(3-5) by (simp add: ring_layout_def)
  then show ?thesis using True \<open>vs = []\<close> by (intro exI[of _ "[b]"] exI[of _ "[]"]) simp
next
  case us: False
  let ?lo = "unat (rbb_buf r)" and ?hi = "unat (rbb_buf r) + unat (rbb_buf_size r)"
  show ?thesis
  proof (cases "vs = []")
    case True
    have "fst (region r (hd us)) \<le> fst (region r (last us))" using ring_head_below[OF assms(1)] us by simp
    then consider "a = fst (region r (last us)) + snd (region r (last us))" "sz \<le> ?hi - a"
      | "a = ?lo" "sz \<le> fst (region r (hd us)) - ?lo"
      using assms(6) us True by (auto simp: ring_place_def Let_def hd_map last_map split: if_splits)
    then show ?thesis
    proof cases
      case 1
      then have "ring_layout r (us @ [b]) []"
        using assms(1,3,4) us stacked_append[of ?lo "map (region r) us" ?hi sz] by (auto simp: ring_layout_def last_map)
      then show ?thesis using True by (intro exI[of _ "us @ [b]"] exI[of _ "[]"]) simp
    next
      case 2
      then have "ring_layout r us [b]" using assms(1,3,4) us by (auto simp: ring_layout_def)
      then show ?thesis using True by (intro exI[of _ us] exI[of _ "[b]"]) simp
    qed
  next
    case False
    have "\<not> fst (region r (hd us)) \<le> fst (region r (last vs))" using ring_tail_below[OF assms(1) False] by simp
    then have a: "a = fst (region r (last vs)) + snd (region r (last vs))" "sz \<le> fst (region r (hd us)) - a"
      using assms(6) us False by (auto simp: ring_place_def Let_def hd_map last_map split: if_splits)
    then have "ring_layout r us (vs @ [b])"
      using assms(1,3,4) False stacked_append[of ?lo "map (region r) vs" "fst (region r (hd us))" sz]
      by (auto simp: ring_layout_def last_map)
    then show ?thesis by (intro exI[of _ us] exI[of _ "vs @ [b]"]) simp
  qed
qed

lemma place_simps [simp]:
  "rbb_buf (place_block b a sz r) = rbb_buf r" "rbb_buf_size (place_block b a sz r) = rbb_buf_size r"
  "rbb_blk_max_num (place_block b a sz r) = rbb_blk_max_num r"
  "region (place_block b a sz r) c = (if c = b then (unat a, unat sz) else region r c)"
  by (simp_all add: place_block_def list_append_def region_def)

lemma ring_place_bound:
  assumes "ring_place lo hi rs sz = Some a" "\<forall>x\<in>set rs. fst x + snd x \<le> hi" "lo \<le> hi"
  shows "a \<le> hi"
proof (cases "rs = []")
  case True
  then show ?thesis using assms by (simp add: ring_place_def)
next
  case False
  then have "fst (last rs) + snd (last rs) \<le> hi" using assms(2) last_in_set[OF False] by fastforce
  then show ?thesis using assms False by (auto simp: ring_place_def Let_def split: if_splits)
qed

lemma alloc_inv:
  assumes "rbb_inv r xs fs" "rt_rbb_blk_alloc sz r = Some (res, r')" "unat sz < 2 ^ 24"
    "res \<noteq> None \<Longrightarrow> 0 < sz \<and> sz \<le> rbb_buf_size r"
  shows "(\<exists>b. res = Some b \<and> rbb_inv r' (xs @ [b]) (tl fs)) \<or> res = None \<and> rbb_inv r' xs (tl fs)"
    "rbb_buf r' = rbb_buf r" "rbb_buf_size r' = rbb_buf_size r" "rbb_blk_max_num r' = rbb_blk_max_num r"
proof -
  from assms(1) obtain us vs where l: "rbb_lists r xs fs" "xs = us @ vs" "ring_layout r us vs"
    and hi: "unat (rbb_buf r) + unat (rbb_buf_size r) < 2 ^ 32" "rbb_blk_max_num r < 2 ^ 32"
    by (auto simp: rbb_inv_def)
  let ?hi = "unat (rbb_buf r) + unat (rbb_buf_size r)"
  let ?pl = "ring_place (unat (rbb_buf r)) ?hi (map (region r) xs) (unat sz)"
  have "((\<exists>b. res = Some b \<and> rbb_inv r' (xs @ [b]) (tl fs)) \<or> res = None \<and> rbb_inv r' xs (tl fs)) \<and>
    rbb_buf r' = rbb_buf r \<and> rbb_buf_size r' = rbb_buf_size r \<and> rbb_blk_max_num r' = rbb_blk_max_num r"
  proof (cases fs)
    case Nil
    then show ?thesis using assms alloc_eq[OF assms(1,3)] by simp
  next
    case (Cons b fs')
    let ?r1 = "r\<lparr>rbb_next := (rbb_next r)(free_list := rbb_next r (blk_node b))\<rparr>"
    have l1: "rbb_lists ?r1 xs fs'" using take_free_lists l(1) Cons by simp
    have lay1: "ring_layout ?r1 us vs" by (rule ring_layout_cong[OF l(3)]) (simp_all add: region_def)
    have b: "b \<notin> set (xs @ fs')" "b < rbb_blk_max_num ?r1" using l(1) Cons by (auto simp: rbb_lists_def)
    show ?thesis
    proof (cases ?pl)
      case None
      then show ?thesis using assms(2) alloc_eq[OF assms(1,3)] Cons l1 lay1 l(2) hi by (auto simp: rbb_inv_def)
    next
      case (Some a)
      let ?r' = "place_block b (of_nat a) sz ?r1"
      have e: "res = Some b" "r' = ?r'" using Some assms(2) alloc_eq[OF assms(1,3)] Cons by simp_all
      have sz: "0 < unat sz" "unat sz \<le> unat (rbb_buf_size r)"
        using assms(4) e(1) by (simp_all add: word_less_nat_alt word_le_nat_alt)
      have "\<forall>x\<in>set (map (region r) xs). fst x + snd x \<le> ?hi" using ring_inside[OF l(3)] l(2) by auto
      then have "a \<le> ?hi" using ring_place_bound[OF Some] by simp
      then have a: "unat (of_nat a :: u32) = a" using hi by (simp add: unat_of_nat)
      have n: "b \<notin> set (us @ vs)" using b l(2) by simp
      have lay: "ring_layout ?r' us vs" by (rule ring_layout_cong[OF lay1]) (use n in auto)
      have "map (region ?r') (us @ vs) = map (region r) xs" unfolding l(2) by (rule map_cong) (use n in auto)
      then have pl: "ring_place (unat (rbb_buf ?r')) (unat (rbb_buf ?r') + unat (rbb_buf_size ?r'))
          (map (region ?r') (us @ vs)) (unat sz) = Some a"
        using Some by simp
      have "\<exists>us' vs'. us @ vs @ [b] = us' @ vs' \<and> ring_layout ?r' us' vs'"
        by (rule place_layout[OF lay n _ sz(1) _ pl]) (use a sz in auto)
      then have "rbb_inv ?r' (xs @ [b]) fs'" using place_lists[OF l1 b] hi l(2) by (simp add: rbb_inv_def)
      then show ?thesis using e Cons by simp
    qed
  qed
  then show "(\<exists>b. res = Some b \<and> rbb_inv r' (xs @ [b]) (tl fs)) \<or> res = None \<and> rbb_inv r' xs (tl fs)"
    "rbb_buf r' = rbb_buf r" "rbb_buf_size r' = rbb_buf_size r" "rbb_blk_max_num r' = rbb_blk_max_num r"
    by blast+
qed

section \<open>Writing, reading and freeing\<close>

lemma remove1_parts: "distinct (us @ vs) \<Longrightarrow> remove1 b (us @ vs) = filter (\<lambda>c. c \<noteq> b) us @ filter (\<lambda>c. c \<noteq> b) vs"
  by (simp add: distinct_remove1_removeAll removeAll_filter_not_eq eq_commute[of b])

lemma hd_filter_le:
  assumes "ring_layout r us vs" "filter P us \<noteq> []"
  shows "fst (region r (hd us)) \<le> fst (region r (hd (filter P us)))"
proof -
  have "hd (filter P us) \<in> set us" using hd_in_set[OF assms(2)] by simp
  then show ?thesis by (rule ring_head_below[OF assms(1)])
qed

lemma ring_layout_filter:
  assumes "ring_layout r us vs"
  shows "\<exists>us' vs'. filter P us @ filter P vs = us' @ vs' \<and> ring_layout r us' vs'"
proof -
  let ?lo = "unat (rbb_buf r)" and ?hi = "unat (rbb_buf r) + unat (rbb_buf_size r)"
  have u: "stacked ?lo (map (region r) (filter P us)) ?hi" using assms by (simp add: ring_layout_def stacked_filter)
  show ?thesis
  proof (cases "filter P vs = []")
    case True
    then show ?thesis using u by (intro exI[of _ "filter P us"] exI[of _ "[]"]) (simp add: ring_layout_def)
  next
    case False
    then have "vs \<noteq> []" by auto
    then have v: "stacked ?lo (map (region r) (filter P vs)) (fst (region r (hd us)))" and ne: "us \<noteq> []"
      using assms by (simp_all add: ring_layout_def stacked_filter)
    show ?thesis
    proof (cases "filter P us = []")
      case True
      have "hd us \<in> set (us @ vs)" using ne by simp
      then have "fst (region r (hd us)) \<le> ?hi" using ring_inside[OF assms] by fastforce
      then have "ring_layout r (filter P vs) []" using stacked_mono[OF v] by (simp add: ring_layout_def)
      then show ?thesis using True by (intro exI[of _ "filter P vs"] exI[of _ "[]"]) simp
    next
      case f: False
      then have "ring_layout r (filter P us) (filter P vs)"
        using u stacked_mono[OF v le_refl hd_filter_le[OF assms f]] by (simp add: ring_layout_def)
      then show ?thesis by blast
    qed
  qed
qed

lemma free_inv:
  assumes "rbb_inv r xs fs" "b \<in> set xs"
  shows "\<exists>r'. rt_rbb_blk_free b r = Some r' \<and> rbb_inv r' (remove1 b xs) (b # fs) \<and>
    rbb_buf r' = rbb_buf r \<and> rbb_buf_size r' = rbb_buf_size r \<and> rbb_blk_max_num r' = rbb_blk_max_num r \<and>
    rbb_blk_set r' = rbb_blk_set (set_status b RT_RBB_BLK_UNUSED r)"
proof -
  from assms(1) obtain us vs where l: "rbb_lists r xs fs" "xs = us @ vs" "ring_layout r us vs"
    and hi: "unat (rbb_buf r) + unat (rbb_buf_size r) < 2 ^ 32" "rbb_blk_max_num r < 2 ^ 32"
    by (auto simp: rbb_inv_def)
  obtain r' where r': "rt_rbb_blk_free b r = Some r'" "rbb_lists r' (remove1 b xs) (b # fs)"
    "rbb_blk_set r' = rbb_blk_set (set_status b RT_RBB_BLK_UNUSED r)" "rbb_buf r' = rbb_buf r"
    "rbb_buf_size r' = rbb_buf_size r" "rbb_blk_max_num r' = rbb_blk_max_num r"
    using rbb_free_ok[OF l(1) assms(2)] by blast
  have "ring_layout r' us vs" by (rule ring_layout_cong[OF l(3)]) (simp_all add: r' region_def)
  moreover have "distinct (us @ vs)" using l(1,2) by (auto simp: rbb_lists_def)
  ultimately have "\<exists>us' vs'. remove1 b xs = us' @ vs' \<and> ring_layout r' us' vs'"
    using ring_layout_filter by (simp add: l(2) remove1_parts)
  then show ?thesis using r' hi by (simp add: rbb_inv_def)
qed

lemma status_inv:
  assumes "rbb_inv r xs fs" "b \<in> set xs" "s \<noteq> RT_RBB_BLK_UNUSED"
  shows "rbb_inv (set_status b s r) xs fs"
proof -
  from assms(1) obtain us vs where l: "rbb_lists r xs fs" "xs = us @ vs" "ring_layout r us vs" by (auto simp: rbb_inv_def)
  have "ring_layout (set_status b s r) us vs" by (rule ring_layout_cong[OF l(3)]) simp_all
  then show ?thesis using assms(1) status_lists[OF l(1) assms(2,3)] l(2) by (auto simp: rbb_inv_def)
qed

lemma used_iff: "rbb_inv r xs fs \<Longrightarrow> b < rbb_blk_max_num r \<Longrightarrow> bk_status (rbb_blk_set r b) \<noteq> RT_RBB_BLK_UNUSED \<longleftrightarrow> b \<in> set xs"
  by (simp add: rbb_inv_def rbb_lists_def)

lemma put_inv:
  assumes "rbb_inv r xs fs" "b < rbb_blk_max_num r" "rt_rbb_blk_put b r = Some r'"
  shows "rbb_inv r' xs fs" "rbb_buf r' = rbb_buf r" "rbb_buf_size r' = rbb_buf_size r"
    "rbb_blk_max_num r' = rbb_blk_max_num r"
proof -
  have "bk_status (rbb_blk_set r b) = RT_RBB_BLK_INITED" "r' = set_status b RT_RBB_BLK_PUT r"
    using assms(3) by (auto simp: rt_rbb_blk_put_def split: if_splits)
  then show "rbb_inv r' xs fs" "rbb_buf r' = rbb_buf r" "rbb_buf_size r' = rbb_buf_size r"
    "rbb_blk_max_num r' = rbb_blk_max_num r"
    using status_inv[OF assms(1)] used_iff[OF assms(1,2)] by auto
qed

abbreviation (input) is_put :: "rt_rbb \<Rightarrow> nat \<Rightarrow> bool" where
  "is_put r b \<equiv> bk_status (rbb_blk_set r b) = RT_RBB_BLK_PUT"

lemma get_loop_eq:
  "chain (rbb_next r) p (map blk_node xs) \<Longrightarrow>
   get_loop p r = Some (case find (is_put r) xs of None \<Rightarrow> (None, r) | Some b \<Rightarrow> (Some b, set_status b RT_RBB_BLK_GET r))"
proof (induction xs arbitrary: p)
  case Nil
  then show ?case by (subst get_loop.simps) simp
next
  case (Cons x xs)
  then show ?case by (subst get_loop.simps) simp
qed

lemma get_eq:
  "rbb_inv r xs fs \<Longrightarrow>
   rt_rbb_blk_get r = Some (case find (is_put r) xs of None \<Rightarrow> (None, r) | Some b \<Rightarrow> (Some b, set_status b RT_RBB_BLK_GET r))"
  using get_loop_eq[of r "rbb_next r 0" xs]
  by (cases xs) (auto simp: rbb_inv_def rbb_lists_def rt_rbb_blk_get_def rt_slist_isempty_def)

section \<open>Queues\<close>

text \<open>The blocks a queue takes: from the first written block on, while written, ascending, and within the limit.\<close>

primrec run_from :: "rt_rbb \<Rightarrow> u32 \<Rightarrow> nat \<Rightarrow> u32 \<Rightarrow> nat list \<Rightarrow> nat list" where
  "run_from r len last_block acc [] = []"
| "run_from r len last_block acc (b # bs) =
     (if \<not> is_put r b \<or> bk_buf (rbb_blk_set r last_block) > bk_buf (rbb_blk_set r b) \<or>
         acc + bk_size (rbb_blk_set r b) > len
      then [] else b # run_from r len b (acc + bk_size (rbb_blk_set r b)) bs)"

definition queue_run :: "rt_rbb \<Rightarrow> u32 \<Rightarrow> nat list \<Rightarrow> nat list" where
  "queue_run r len xs =
     (case dropWhile (\<lambda>b. \<not> is_put r b) xs of [] \<Rightarrow> []
      | b # bs \<Rightarrow> b # run_from r len b (bk_size (rbb_blk_set r b)) bs)"

definition run_size :: "rt_rbb \<Rightarrow> nat list \<Rightarrow> u32" where
  "run_size r bs = sum_list (map (\<lambda>b. bk_size (rbb_blk_set r b)) bs)"

definition mark_got :: "nat list \<Rightarrow> rt_rbb \<Rightarrow> rt_rbb" where
  "mark_got bs r = fold (\<lambda>b. set_status b RT_RBB_BLK_GET) bs r"

lemma run_simps [simp]:
  "run_size r [] = 0" "run_size r (b # bs) = bk_size (rbb_blk_set r b) + run_size r bs"
  "mark_got [] r = r" "mark_got (b # bs) r = mark_got bs (set_status b RT_RBB_BLK_GET r)"
  "run_size (set_status c s r) bs = run_size r bs"
  by (simp_all add: run_size_def mark_got_def)

lemma run_from_status: "c \<notin> set bs \<Longrightarrow> run_from (set_status c s r) len l acc bs = run_from r len l acc bs"
  by (induction bs arbitrary: l acc) auto

lemma run_from_prefix: "\<exists>rest. bs = run_from r len l acc bs @ rest"
proof (induction bs arbitrary: l acc)
  case (Cons b bs)
  then show ?case by (simp add: eq_commute[of bs])
qed simp

lemma queue_get_loop_eq:
  assumes "chain (rbb_next r) p (map blk_node bs)" "distinct bs" "\<forall>n. p = Some n \<longrightarrow> tmp = rbb_next r n"
  shows "queue_get_loop null_next len p tmp (Some l) acc q r =
    (let run = run_from r len l acc bs in
     if null_next = None \<and> bs \<noteq> [] \<and> run = bs then None
     else Some (acc + run_size r run, q\<lparr>bq_num := bq_num q + of_nat (length run)\<rparr>, mark_got run r))"
  using assms
proof (induction bs arbitrary: p tmp l acc q r)
  case Nil
  then show ?case by (subst queue_get_loop.simps) simp
next
  case (Cons b bs)
  have p: "p = Some (blk_node b)" "tmp = rbb_next r (blk_node b)" "chain (rbb_next r) tmp (map blk_node bs)"
    using Cons.prems by simp_all
  show ?case
  proof (cases "\<not> is_put r b \<or> bk_buf (rbb_blk_set r l) > bk_buf (rbb_blk_set r b) \<or> acc + bk_size (rbb_blk_set r b) > len")
    case True
    then show ?thesis by (subst queue_get_loop.simps) (simp add: p)
  next
    case False
    let ?r = "set_status b RT_RBB_BLK_GET r" and ?acc = "acc + bk_size (rbb_blk_set r b)"
    let ?q = "q\<lparr>bq_num := bq_num q + 1\<rparr>"
    have e: "queue_get_loop null_next len p tmp (Some l) acc q r =
        next_or_null null_next tmp (rbb_next r) \<bind> (\<lambda>tmp'. queue_get_loop null_next len tmp tmp' (Some b) ?acc ?q ?r)"
      using False by (subst queue_get_loop.simps) (simp add: p queue_block_def)
    show ?thesis
    proof (cases "null_next = None \<and> bs = []")
      case True
      then show ?thesis using e p False by (simp add: next_or_null_def)
    next
      case n: False
      then obtain t where t: "next_or_null null_next tmp (rbb_next r) = Some t" "\<forall>n. tmp = Some n \<longrightarrow> t = rbb_next ?r n"
        using p(3) by (cases tmp) (auto simp: next_or_null_def chain_None)
      have c: "chain (rbb_next ?r) tmp (map blk_node bs)" "distinct bs" "b \<notin> set bs" using p Cons.prems by simp_all
      show ?thesis using e t(1) False n Cons.IH[OF c(1,2) t(2)] c(3)
        by (auto simp: Let_def run_from_status add.assoc)
    qed
  qed
qed

lemma queue_get_search:
  assumes "chain (rbb_next r) p (map blk_node xs)" "distinct xs" "\<forall>n. p = Some n \<longrightarrow> tmp = rbb_next r n"
  shows "queue_get_loop null_next len p tmp None 0 q r =
    (let run = queue_run r len xs in
     if null_next = None \<and> xs \<noteq> [] \<and> run = dropWhile (\<lambda>b. \<not> is_put r b) xs then None
     else Some (run_size r run, if run = [] then q else q\<lparr>bq_blocks := hd run, bq_num := of_nat (length run)\<rparr>, mark_got run r))"
  using assms
proof (induction xs arbitrary: p tmp)
  case Nil
  then show ?case by (subst queue_get_loop.simps) (simp add: queue_run_def)
next
  case (Cons b bs)
  have p: "p = Some (blk_node b)" "tmp = rbb_next r (blk_node b)" "chain (rbb_next r) tmp (map blk_node bs)"
    "distinct bs" "b \<notin> set bs"
    using Cons.prems by simp_all
  let ?r = "set_status b RT_RBB_BLK_GET r" and ?z = "bk_size (rbb_blk_set r b)"
  have e: "queue_get_loop null_next len p tmp None 0 q r =
      next_or_null null_next tmp (rbb_next r) \<bind>
        (\<lambda>tmp'. if is_put r b then queue_get_loop null_next len tmp tmp' (Some b) ?z (q\<lparr>bq_blocks := b, bq_num := 1\<rparr>) ?r
               else queue_get_loop null_next len tmp tmp' None 0 q r)"
    by (subst queue_get_loop.simps) (simp add: p queue_block_def)
  show ?case
  proof (cases "null_next = None \<and> bs = []")
    case True
    then show ?thesis using e p by (simp add: next_or_null_def queue_run_def)
  next
    case n: False
    then obtain t where t: "next_or_null null_next tmp (rbb_next r) = Some t" "\<forall>n. tmp = Some n \<longrightarrow> t = rbb_next r n"
      using p(3) by (cases tmp) (auto simp: next_or_null_def chain_None)
    show ?thesis
    proof (cases "is_put r b")
      case False
      then have "queue_run r len (b # bs) = queue_run r len bs" by (simp add: queue_run_def)
      then show ?thesis using e t(1) n False Cons.IH[OF p(3,4) t(2)] by (auto simp: Let_def)
    next
      case True
      have "queue_get_loop null_next len tmp t (Some b) ?z (q\<lparr>bq_blocks := b, bq_num := 1\<rparr>) ?r =
        (let run = run_from ?r len b ?z bs in
         if null_next = None \<and> bs \<noteq> [] \<and> run = bs then None
         else Some (?z + run_size ?r run, q\<lparr>bq_blocks := b, bq_num := 1 + of_nat (length run)\<rparr>, mark_got run ?r))"
        using queue_get_loop_eq[of ?r tmp bs t null_next len b ?z] p(3,4) t(2) by (simp add: Let_def)
      then show ?thesis using e t(1) n True p(5) by (auto simp: Let_def run_from_status queue_run_def)
    qed
  qed
qed

lemma queue_get_eq:
  assumes "rbb_inv r xs fs"
  shows "rt_rbb_blk_queue_get null_next len q r =
    (let run = queue_run r len xs in
     if null_next = None \<and> xs \<noteq> [] \<and> run = dropWhile (\<lambda>b. \<not> is_put r b) xs then None
     else Some (run_size r run, if run = [] then q else q\<lparr>bq_blocks := hd run, bq_num := of_nat (length run)\<rparr>, mark_got run r))"
proof (cases xs)
  case Nil
  then show ?thesis using assms by (simp add: rbb_inv_def rbb_lists_def rt_rbb_blk_queue_get_def queue_run_def)
next
  case (Cons x xs')
  have c: "chain (rbb_next r) (rbb_next r 0) (map blk_node xs)" "distinct xs"
    using assms by (auto simp: rbb_inv_def rbb_lists_def)
  then show ?thesis using Cons queue_get_search[OF c, of "rbb_next r (blk_node x)" null_next len q]
    by (simp add: rt_rbb_blk_queue_get_def)
qed

lemma next_len_loop_eq:
  assumes "chain (rbb_next r) p (map blk_node bs)"
  shows "next_len_loop p (Some l) acc r = Some (acc + run_size r (run_from r (- 1) l s bs))"
  using assms
proof (induction bs arbitrary: p l acc s)
  case Nil
  then show ?case by (subst next_len_loop.simps) simp
next
  case (Cons b bs)
  show ?case using Cons.prems Cons.IH[of "rbb_next r (blk_node b)" b "acc + bk_size (rbb_blk_set r b)" "s + bk_size (rbb_blk_set r b)"]
    by (subst next_len_loop.simps) (auto simp: add.assoc word_order.extremum not_less)
qed

lemma next_len_eq:
  assumes "rbb_inv r xs fs"
  shows "rt_rbb_next_blk_queue_len r = Some (run_size r (queue_run r (- 1) xs))"
proof -
  have c: "chain (rbb_next r) (rbb_next r 0) (map blk_node xs)" using assms by (simp add: rbb_inv_def rbb_lists_def)
  have "next_len_loop p None 0 r = Some (run_size r (queue_run r (- 1) xs))" if "chain (rbb_next r) p (map blk_node xs)" for p
    using that
  proof (induction xs arbitrary: p)
    case Nil
    then show ?case by (subst next_len_loop.simps) (simp add: queue_run_def)
  next
    case (Cons b bs)
    show ?case
    proof (cases "is_put r b")
      case True
      then show ?thesis using Cons.prems next_len_loop_eq[of r _ bs]
        by (subst next_len_loop.simps) (simp add: queue_run_def)
    next
      case False
      then show ?thesis using Cons by (subst next_len_loop.simps) (simp add: queue_run_def)
    qed
  qed
  then show ?thesis using c
    by (cases xs) (auto simp: rt_rbb_next_blk_queue_len_def rt_slist_isempty_def queue_run_def)
qed

lemma queue_run_part: "\<exists>ps rest. xs = ps @ queue_run r len xs @ rest"
proof (cases "dropWhile (\<lambda>b. \<not> is_put r b) xs")
  case Nil
  then have "queue_run r len xs = []" by (simp only: queue_run_def list.case)
  then show ?thesis by (intro exI[of _ xs] exI[of _ "[]"]) simp
next
  case (Cons b bs)
  obtain rest where "bs = run_from r len b (bk_size (rbb_blk_set r b)) bs @ rest" using run_from_prefix by blast
  then have "xs = takeWhile (\<lambda>b. \<not> is_put r b) xs @ queue_run r len xs @ rest"
    using takeWhile_dropWhile_id[of "\<lambda>b. \<not> is_put r b" xs] Cons by (simp add: queue_run_def)
  then show ?thesis by blast
qed

lemma mark_got_simps [simp]:
  "rbb_next (mark_got bs r) = rbb_next r" "rbb_buf (mark_got bs r) = rbb_buf r"
  "rbb_buf_size (mark_got bs r) = rbb_buf_size r" "rbb_blk_max_num (mark_got bs r) = rbb_blk_max_num r"
  "bk_size (rbb_blk_set (mark_got bs r) c) = bk_size (rbb_blk_set r c)"
  "bk_buf (rbb_blk_set (mark_got bs r) c) = bk_buf (rbb_blk_set r c)"
  "run_size (mark_got bs r) cs = run_size r cs"
  by (induction bs arbitrary: r) simp_all

lemma mark_got_inv: "rbb_inv r xs fs \<Longrightarrow> set bs \<subseteq> set xs \<Longrightarrow> rbb_inv (mark_got bs r) xs fs"
  by (induction bs arbitrary: r) (simp_all add: status_inv)

lemma stacked_total: "stacked lo rs hi \<Longrightarrow> lo + sum_list (map snd rs) \<le> hi"
  by (induction lo rs hi rule: stacked.induct) auto

lemma ring_total:
  assumes "rbb_inv r xs fs"
  shows "sum_list (map (\<lambda>b. snd (region r b)) xs) \<le> unat (rbb_buf_size r)"
proof -
  obtain us vs where l: "xs = us @ vs" "ring_layout r us vs" using assms by (auto simp: rbb_inv_def)
  have c: "map snd (map (region r) zs) = map (\<lambda>b. snd (region r b)) zs" for zs by simp
  show ?thesis
  proof (cases "vs = []")
    case True
    then show ?thesis using l stacked_total[of _ "map (region r) us"] unfolding ring_layout_def c by fastforce
  next
    case False
    then obtain u us' where us: "us = u # us'" using l(2) by (cases us) (auto simp: ring_layout_def)
    let ?lo = "unat (rbb_buf r)" and ?s = "fst (region r u)" and ?n = "snd (region r u)"
    have "stacked (?s + ?n) (map (region r) us') (?lo + unat (rbb_buf_size r))" "stacked ?lo (map (region r) vs) ?s"
      using l(2) False by (cases "region r u"; simp add: ring_layout_def us)+
    then have "?s + ?n + sum_list (map (\<lambda>b. snd (region r b)) us') \<le> ?lo + unat (rbb_buf_size r)"
      "?lo + sum_list (map (\<lambda>b. snd (region r b)) vs) \<le> ?s"
      using stacked_total[of _ "map (region r) us'"] stacked_total[of _ "map (region r) vs"] unfolding c by blast+
    then show ?thesis using l(1) us by simp
  qed
qed

lemma run_size_unat:
  "sum_list (map (\<lambda>b. snd (region r b)) bs) < 2 ^ 32 \<Longrightarrow>
   unat (run_size r bs) = sum_list (map (\<lambda>b. snd (region r b)) bs)"
  by (induction bs) (simp_all add: u32_add region_def)

lemma run_size_bound:
  assumes "rbb_inv r xs fs" "xs = ps @ bs @ qs"
  shows "unat (run_size r bs) = sum_list (map (\<lambda>b. snd (region r b)) bs)" "run_size r bs \<le> rbb_buf_size r"
proof -
  have "sum_list (map (\<lambda>b. snd (region r b)) bs) \<le> unat (rbb_buf_size r)"
    using ring_total[OF assms(1)] assms(2) by simp
  moreover have "unat (rbb_buf_size r) < 2 ^ 32" using u32_lt[of "rbb_buf_size r"] by simp
  ultimately show "unat (run_size r bs) = sum_list (map (\<lambda>b. snd (region r b)) bs)" "run_size r bs \<le> rbb_buf_size r"
    using run_size_unat[of r bs] by (simp_all add: word_le_nat_alt)
qed

lemma run_from_limit:
  "unat acc + sum_list (map (\<lambda>b. snd (region r b)) (run_from r (- 1) l acc bs)) \<le> unat len \<Longrightarrow>
   run_from r len l acc bs = run_from r (- 1) l acc bs"
proof (induction bs arbitrary: l acc)
  case (Cons b bs)
  show ?case
  proof (cases "\<not> is_put r b \<or> bk_buf (rbb_blk_set r l) > bk_buf (rbb_blk_set r b)")
    case False
    have "\<not> - 1 < acc + bk_size (rbb_blk_set r b)" by (simp add: word_order.extremum not_less)
    then have "run_from r (- 1) l acc (b # bs) = b # run_from r (- 1) b (acc + bk_size (rbb_blk_set r b)) bs"
      using False by simp
    then have "unat acc + unat (bk_size (rbb_blk_set r b)) +
      sum_list (map (\<lambda>b. snd (region r b)) (run_from r (- 1) b (acc + bk_size (rbb_blk_set r b)) bs)) \<le> unat len"
      using Cons.prems by (simp add: region_def)
    moreover from this have u: "unat (acc + bk_size (rbb_blk_set r b)) = unat acc + unat (bk_size (rbb_blk_set r b))"
      using u32_lt[of len] by (intro u32_add) simp
    ultimately show ?thesis using False Cons.IH[of "acc + bk_size (rbb_blk_set r b)" b]
      by (simp add: word_le_nat_alt not_less word_order.extremum)
  qed auto
qed simp

lemma queue_len_loop_eq:
  assumes "chain (rbb_next r) p (map blk_node (bs @ rest))" "blk = Option.bind p blk_entry"
  shows "queue_len_loop (length bs) blk acc r = Some (acc + run_size r bs)"
  using assms
proof (induction bs arbitrary: p blk acc)
  case (Cons b bs)
  then show ?case using Cons.IH[of "rbb_next r (blk_node b)" "next_entry b r" "acc + bk_size (rbb_blk_set r b)"]
    by (simp add: next_entry_def add.assoc)
qed simp

lemma chain_suffix: "chain h p (xs @ ys) \<Longrightarrow> \<exists>q. chain h q ys"
  by (induction xs arbitrary: p) auto

lemma queue_free_loop_eq:
  assumes "rbb_inv r (ps @ bs @ rest) fs" "bs \<noteq> [] \<Longrightarrow> blk = Some (hd bs)"
  shows "\<exists>r'. queue_free_loop (length bs) blk r = Some r' \<and> rbb_inv r' (ps @ rest) (rev bs @ fs) \<and>
    rbb_buf r' = rbb_buf r \<and> rbb_buf_size r' = rbb_buf_size r \<and> rbb_blk_max_num r' = rbb_blk_max_num r \<and>
    (\<forall>c. bk_status (rbb_blk_set r' c) = (if c \<in> set bs then RT_RBB_BLK_UNUSED else bk_status (rbb_blk_set r c)))"
  using assms
proof (induction bs arbitrary: blk r fs)
  case (Cons b bs)
  have b: "blk = Some b" "b \<in> set (ps @ (b # bs) @ rest)" using Cons.prems(2) by auto
  obtain r1 where r1: "rt_rbb_blk_free b r = Some r1" "rbb_inv r1 (remove1 b (ps @ (b # bs) @ rest)) (b # fs)"
    "rbb_buf r1 = rbb_buf r" "rbb_buf_size r1 = rbb_buf_size r" "rbb_blk_max_num r1 = rbb_blk_max_num r"
    "rbb_blk_set r1 = rbb_blk_set (set_status b RT_RBB_BLK_UNUSED r)"
    using free_inv[OF Cons.prems(1) b(2)] by blast
  have "distinct (ps @ (b # bs) @ rest)" using Cons.prems(1) by (auto simp: rbb_inv_def rbb_lists_def)
  then have "remove1 b (ps @ (b # bs) @ rest) = ps @ bs @ rest" by (simp add: remove1_append)
  then have i: "rbb_inv r1 (ps @ bs @ rest) (b # fs)" using r1(2) by simp
  have "chain (rbb_next r) (rbb_next r 0) (map blk_node ps @ map blk_node (b # bs @ rest))"
    using Cons.prems(1) by (simp add: rbb_inv_def rbb_lists_def)
  then have "\<exists>q. chain (rbb_next r) q (map blk_node (b # bs @ rest))" by (rule chain_suffix)
  then have "bs \<noteq> [] \<Longrightarrow> next_entry b r = Some (hd bs)" by (cases bs) (auto simp: next_entry_def)
  then show ?case using Cons.IH[OF i, of "next_entry b r"] b(1) r1 by auto
qed simp

text \<open>With a limit of at least the announced length a queue takes the announced blocks.\<close>

lemma queue_run_limit:
  assumes "rbb_inv r xs fs" "len \<ge> run_size r (queue_run r (- 1) xs)"
  shows "queue_run r len xs = queue_run r (- 1) xs"
proof (cases "dropWhile (\<lambda>b. \<not> is_put r b) xs")
  case (Cons c cs)
  let ?z = "bk_size (rbb_blk_set r c)" and ?run = "queue_run r (- 1) xs"
  obtain ps rest where xs: "xs = ps @ ?run @ rest" using queue_run_part by blast
  have "?run = c # run_from r (- 1) c ?z cs" by (simp only: queue_run_def Cons list.case)
  then have "unat ?z + sum_list (map (\<lambda>b. snd (region r b)) (run_from r (- 1) c ?z cs)) \<le> unat len"
    using run_size_bound(1)[OF assms(1) xs] assms(2) by (simp add: word_le_nat_alt region_def)
  then show ?thesis by (simp only: queue_run_def Cons list.case run_from_limit)
qed (simp only: queue_run_def list.case)

lemma run_from_put: "b \<in> set (run_from r len l acc bs) \<Longrightarrow> is_put r b"
  by (induction bs arbitrary: l acc) (auto split: if_splits)

lemma queue_run_put: "b \<in> set (queue_run r len xs) \<Longrightarrow> is_put r b"
proof (cases "dropWhile (\<lambda>b. \<not> is_put r b) xs")
  case (Cons c cs)
  assume "b \<in> set (queue_run r len xs)"
  then have "b = c \<or> b \<in> set (run_from r len c (bk_size (rbb_blk_set r c)) cs)" by (simp add: queue_run_def Cons)
  moreover have "is_put r c" using Cons dropWhile_eq_Cons_conv[of "\<lambda>b. \<not> is_put r b" xs c cs] by simp
  ultimately show ?thesis using run_from_put by blast
qed (simp add: queue_run_def)

lemma mark_got_status: "c \<notin> set bs \<Longrightarrow> bk_status (rbb_blk_set (mark_got bs r) c) = bk_status (rbb_blk_set r c)"
  by (induction bs arbitrary: r) simp_all

text \<open>The length of a queue that has been taken, and what freeing it does.\<close>

lemma got_queue:
  assumes i: "rbb_inv r xs fs" and xs: "xs = ps @ run @ rest" and ne: "run \<noteq> []"
  shows "rt_rbb_blk_queue_len (q\<lparr>bq_blocks := hd run, bq_num := of_nat (length run)\<rparr>) (mark_got run r) = Some (run_size r run)"
    and "\<exists>r''. rt_rbb_blk_queue_free (q\<lparr>bq_blocks := hd run, bq_num := of_nat (length run)\<rparr>) (mark_got run r) = Some r'' \<and>
      (\<forall>b. bk_status (rbb_blk_set r'' b) = (if b \<in> set run then RT_RBB_BLK_UNUSED else bk_status (rbb_blk_set r b)))"
proof -
  let ?r = "mark_got run r"
  have ir: "rbb_inv ?r (ps @ run @ rest) fs" using mark_got_inv[OF i, of run] xs by auto
  have "distinct run" "set run \<subseteq> {..<rbb_blk_max_num r}" "rbb_blk_max_num r < 2 ^ 32"
    using ir by (auto simp: rbb_inv_def rbb_lists_def)
  then have "length run < 2 ^ 32" using card_mono[of "{..<rbb_blk_max_num r}" "set run"] distinct_card[of run] by simp
  then have n: "unat (of_nat (length run) :: u32) = length run" by (simp add: unat_of_nat)
  have "chain (rbb_next ?r) (rbb_next ?r 0) (map blk_node ps @ map blk_node (run @ rest))"
    using ir by (simp add: rbb_inv_def rbb_lists_def)
  then obtain p where p: "chain (rbb_next ?r) p (map blk_node (run @ rest))" using chain_suffix by blast
  then have "Some (hd run) = Option.bind p blk_entry" using ne by (cases run) auto
  then show "rt_rbb_blk_queue_len (q\<lparr>bq_blocks := hd run, bq_num := of_nat (length run)\<rparr>) ?r = Some (run_size r run)"
    using queue_len_loop_eq[OF p, of "Some (hd run)" 0] by (simp add: rt_rbb_blk_queue_len_def n)
  show "\<exists>r''. rt_rbb_blk_queue_free (q\<lparr>bq_blocks := hd run, bq_num := of_nat (length run)\<rparr>) ?r = Some r'' \<and>
      (\<forall>b. bk_status (rbb_blk_set r'' b) = (if b \<in> set run then RT_RBB_BLK_UNUSED else bk_status (rbb_blk_set r b)))"
    using queue_free_loop_eq[OF ir, of "Some (hd run)"] mark_got_status by (auto simp: rt_rbb_blk_queue_free_def n)
qed

section \<open>Reachable rings\<close>

text \<open>
  What the users of a ring may do: initialise it, and call the operations in any order, allocations with any
  size and the others with descriptors of this ring. A step is labelled with the size of the block it has
  handed out, if any; \<open>rbb_reach\<close> collects these sizes for a ring with a buffer of \<open>buf_size\<close> bytes.
\<close>

inductive rbb_step :: "rt_rbb \<Rightarrow> u32 list \<Rightarrow> rt_rbb \<Rightarrow> bool" where
  step_alloc: "rt_rbb_blk_alloc sz r = Some (res, r') \<Longrightarrow> rbb_step r (if res = None then [] else [sz]) r'"
| step_put: "b < rbb_blk_max_num r \<Longrightarrow> rt_rbb_blk_put b r = Some r' \<Longrightarrow> rbb_step r [] r'"
| step_get: "rt_rbb_blk_get r = Some (res, r') \<Longrightarrow> rbb_step r [] r'"
| step_free: "b < rbb_blk_max_num r \<Longrightarrow> rt_rbb_blk_free b r = Some r' \<Longrightarrow> rbb_step r [] r'"
| step_queue_get: "rt_rbb_blk_queue_get null_next len q r = Some (d, q', r') \<Longrightarrow> rbb_step r [] r'"
| step_queue_free: "bq_blocks q < rbb_blk_max_num r \<Longrightarrow> rt_rbb_blk_queue_free q r = Some r' \<Longrightarrow> rbb_step r [] r'"

inductive rbb_reach :: "u32 \<Rightarrow> u32 list \<Rightarrow> rt_rbb \<Rightarrow> bool" for buf_size :: u32 where
  reach_init: "unat buf + unat buf_size < 2 ^ 32 \<Longrightarrow> n < 2 ^ 32 \<Longrightarrow> rt_rbb_init buf buf_size n r0 = Some r \<Longrightarrow>
    rbb_reach buf_size [] r"
| reach_step: "rbb_reach buf_size szs r \<Longrightarrow> rbb_step r ss r' \<Longrightarrow> rbb_reach buf_size (szs @ ss) r'"

text \<open>A step that hands out no block.\<close>

lemma reach_quiet: "rbb_reach buf_size szs r \<Longrightarrow> rbb_step r [] r' \<Longrightarrow> rbb_reach buf_size szs r'"
  using reach_step[of buf_size szs r "[]" r'] by simp

lemma free_someD: "rt_rbb_blk_free b r = Some r' \<Longrightarrow> bk_status (rbb_blk_set r b) \<noteq> RT_RBB_BLK_UNUSED"
  by (auto simp: rt_rbb_blk_free_def)

lemma next_entry_used:
  assumes "rbb_inv r xs fs" "b \<in> set xs" "next_entry b r = Some c"
  shows "c \<in> set xs"
proof -
  obtain us vs where xs: "xs = us @ b # vs" using split_list[OF assms(2)] by blast
  have "chain (rbb_next r) (rbb_next r 0) (map blk_node us @ map blk_node (b # vs))"
    using assms(1) xs by (simp add: rbb_inv_def rbb_lists_def)
  then have "\<exists>q. chain (rbb_next r) q (map blk_node (b # vs))" by (rule chain_suffix)
  then show ?thesis using assms(3) xs by (cases vs) (auto simp: next_entry_def)
qed

lemma queue_free_any:
  assumes "rbb_inv r xs fs" "queue_free_loop n blk r = Some r'" "\<forall>b. blk = Some b \<longrightarrow> b < rbb_blk_max_num r"
  shows "(\<exists>xs fs. rbb_inv r' xs fs) \<and> rbb_buf_size r' = rbb_buf_size r"
  using assms
proof (induction n arbitrary: blk r xs fs)
  case 0
  then show ?case by auto
next
  case (Suc n)
  then obtain b r1 where b: "blk = Some b" "rt_rbb_blk_free b r = Some r1" "queue_free_loop n (next_entry b r) r1 = Some r'"
    by (auto simp: bind_eq_Some_conv)
  then have m: "b \<in> set xs" using used_iff[OF Suc.prems(1), of b] free_someD Suc.prems(3) by blast
  then have f: "rbb_inv r1 (remove1 b xs) (b # fs)" "rbb_blk_max_num r1 = rbb_blk_max_num r" "rbb_buf_size r1 = rbb_buf_size r"
    using free_inv[OF Suc.prems(1) m] b(2) by auto
  have "c < rbb_blk_max_num r" if "next_entry b r = Some c" for c
    using next_entry_used[OF Suc.prems(1) m that] Suc.prems(1) by (auto simp: rbb_inv_def rbb_lists_def)
  then show ?case using Suc.IH[OF f(1) b(3)] f(2,3) by simp
qed

lemma find_member: "find P xs = Some b \<Longrightarrow> b \<in> set xs"
  by (auto simp: find_Some_iff)

lemma step_inv:
  "rbb_step r ss r' \<Longrightarrow> rbb_inv r xs fs \<Longrightarrow> \<forall>sz\<in>set ss. 0 < sz \<and> sz \<le> rbb_buf_size r \<Longrightarrow>
   (\<exists>xs fs. rbb_inv r' xs fs) \<and> rbb_buf_size r' = rbb_buf_size r"
proof (induction rule: rbb_step.induct)
  case (step_alloc sz r res r')
  then have "\<not> sz \<ge> 0x1000000" by (auto simp: rt_rbb_blk_alloc_def)
  then have z: "unat sz < 2 ^ 24" by (simp add: word_le_nat_alt)
  have "res \<noteq> None \<Longrightarrow> 0 < sz \<and> sz \<le> rbb_buf_size r" using step_alloc(3) by simp
  then show ?case using alloc_inv(1,3)[OF step_alloc(2,1) z] by blast
next
  case (step_put b r r')
  then show ?case using put_inv(1,3) by blast
next
  case (step_get r res r')
  then show ?case using get_eq[OF step_get(2)] status_inv[OF step_get(2)] find_member by (force split: option.splits)
next
  case (step_free b r r')
  then have "b \<in> set xs" using used_iff[OF step_free(3,1)] free_someD by blast
  then show ?case using free_inv[OF step_free(3)] step_free(2) by fastforce
next
  case (step_queue_get null_next len q r d q' r')
  obtain ps rest where "xs = ps @ queue_run r len xs @ rest" using queue_run_part by blast
  then have "set (queue_run r len xs) \<subseteq> set xs" by (metis set_append Un_upper1 Un_upper2 subset_trans)
  moreover have "r' = mark_got (queue_run r len xs) r"
    using step_queue_get(1) queue_get_eq[OF step_queue_get(2)] by (auto simp: Let_def split: if_splits)
  ultimately show ?case using mark_got_inv[OF step_queue_get(2)] by auto
next
  case (step_queue_free q r r')
  then show ?case using queue_free_any[OF step_queue_free(3)] by (simp add: rt_rbb_blk_queue_free_def)
qed

lemma reach_inv:
  "rbb_reach buf_size szs r \<Longrightarrow> \<forall>sz\<in>set szs. 0 < sz \<and> sz \<le> buf_size \<Longrightarrow> (\<exists>xs fs. rbb_inv r xs fs) \<and> rbb_buf_size r = buf_size"
proof (induction rule: rbb_reach.induct)
  case (reach_init buf n r0 r)
  then have "buf \<noteq> 0" by (auto simp: rt_rbb_init_def)
  then have r: "rbb_lists r [] (rev [0..<n])" "rbb_buf r = buf" "rbb_buf_size r = buf_size" "rbb_blk_max_num r = n"
    using rbb_init_ok[of buf buf_size n r0] reach_init(3) by auto
  then have "rbb_inv r [] (rev [0..<n])" using reach_init(1,2) by (auto simp: rbb_inv_def ring_layout_def)
  then show ?case using r(3) by blast
next
  case (reach_step szs r ss r')
  then have "(\<exists>xs fs. rbb_inv r xs fs) \<and> rbb_buf_size r = buf_size" by simp
  then show ?case using step_inv[OF reach_step(2)] reach_step(4) by auto
qed

definition blk_bytes :: "rt_rbb \<Rightarrow> nat \<Rightarrow> nat set" where
  "blk_bytes r b = {unat (rt_rbb_blk_buf b r) ..< unat (rt_rbb_blk_buf b r) + unat (rt_rbb_blk_size b r)}"

lemma blk_bytes_region: "blk_bytes r b = {fst (region r b) ..< fst (region r b) + snd (region r b)}"
  by (simp add: blk_bytes_def region_def rt_rbb_blk_buf_def rt_rbb_blk_size_def)

lemma inv_bytes:
  assumes "rbb_inv r xs fs"
  shows "b \<in> set xs \<Longrightarrow> blk_bytes r b \<subseteq> {unat (rbb_buf r) ..< unat (rbb_buf r) + unat (rt_rbb_get_buf_size r)}"
    and "b \<in> set xs \<Longrightarrow> c \<in> set xs \<Longrightarrow> b \<noteq> c \<Longrightarrow> blk_bytes r b \<inter> blk_bytes r c = {}"
proof -
  obtain us vs where l: "xs = us @ vs" "ring_layout r us vs" using assms by (auto simp: rbb_inv_def)
  show "b \<in> set xs \<Longrightarrow> blk_bytes r b \<subseteq> {unat (rbb_buf r) ..< unat (rbb_buf r) + unat (rt_rbb_get_buf_size r)}"
    using ring_inside[OF l(2), of b] by (auto simp: l(1) blk_bytes_region rt_rbb_get_buf_size_def)
  have "apart (region r b) (region r c)" if "b \<in> set xs" "c \<in> set xs" "b \<noteq> c"
    using ring_apart[OF l(2)] that unfolding l(1)[symmetric]
    by (induction xs) (auto intro: apart_sym)
  then show "b \<in> set xs \<Longrightarrow> c \<in> set xs \<Longrightarrow> b \<noteq> c \<Longrightarrow> blk_bytes r b \<inter> blk_bytes r c = {}"
    by (auto simp: blk_bytes_region apart_def)
qed

section \<open>Properties\<close>

text \<open>
  C12. Whatever sequence of operations a ring has gone through, provided that no block handed out so far was
  empty or larger than the buffer, the blocks in use lie inside the buffer, and two of them never share a
  byte. The code does not enforce the condition: an empty ring hands out a block larger than the buffer
  (\<open>empty_ring_any_size\<close>), and an empty block makes later ones overlap (\<open>zero_size_block_overlaps\<close>).
\<close>

theorem rbb_blocks_disjoint:
  assumes "rbb_reach buf_size szs r" "\<forall>sz\<in>set szs. 0 < sz \<and> sz \<le> buf_size"
    "b < rbb_blk_max_num r" "bk_status (rbb_blk_set r b) \<noteq> RT_RBB_BLK_UNUSED"
  shows "blk_bytes r b \<subseteq> {unat (rbb_buf r) ..< unat (rbb_buf r) + unat (rt_rbb_get_buf_size r)} \<and>
    (\<forall>c<rbb_blk_max_num r. c \<noteq> b \<longrightarrow> bk_status (rbb_blk_set r c) \<noteq> RT_RBB_BLK_UNUSED \<longrightarrow>
       blk_bytes r b \<inter> blk_bytes r c = {})"
proof -
  obtain xs fs where i: "rbb_inv r xs fs" using reach_inv[OF assms(1,2)] by blast
  have b: "b \<in> set xs" using used_iff[OF i assms(3)] assms(4) by blast
  have "blk_bytes r b \<inter> blk_bytes r c = {}"
    if "c < rbb_blk_max_num r" "c \<noteq> b" "bk_status (rbb_blk_set r c) \<noteq> RT_RBB_BLK_UNUSED" for c
  proof -
    have "c \<in> set xs" using used_iff[OF i that(1)] that(3) by blast
    then show ?thesis using inv_bytes(2)[OF i b] that(2) by auto
  qed
  then show ?thesis using inv_bytes(1)[OF i b] by blast
qed

definition ring_mem :: rt_rbb where
  "ring_mem = \<lparr>rbb_buf = 0, rbb_buf_size = 0, rbb_blk_set = (\<lambda>i. \<lparr>bk_status = RT_RBB_BLK_PUT, bk_size = 7, bk_buf = 9\<rparr>),
     rbb_blk_max_num = 0, rbb_next = (\<lambda>i. Some 5), rbb_tail = 0\<rparr>"

definition ring0 :: rt_rbb where
  "ring0 = the (rt_rbb_init 0x20000000 10 4 ring_mem)"

definition alloc_blk :: "u32 \<Rightarrow> rt_rbb \<Rightarrow> rt_rbb" where
  "alloc_blk sz r = snd (the (rt_rbb_blk_alloc sz r))"

definition ring1 :: rt_rbb where
  "ring1 = the (rt_rbb_blk_put 2 (the (rt_rbb_blk_put 3 (alloc_blk 5 (alloc_blk 5 ring0)))))"

lemma reach_alloc:
  assumes "rbb_reach buf_size szs r" "rt_rbb_blk_alloc sz r \<noteq> None" "fst (the (rt_rbb_blk_alloc sz r)) \<noteq> None"
  shows "rbb_reach buf_size (szs @ [sz]) (alloc_blk sz r)"
proof -
  obtain b r' where a: "rt_rbb_blk_alloc sz r = Some (Some b, r')" using assms(2,3) by auto
  then show ?thesis using rbb_reach.reach_step[OF assms(1) rbb_step.step_alloc[OF a]] by (simp add: alloc_blk_def)
qed

lemma reach_put:
  "rbb_reach buf_size szs r \<Longrightarrow> b < rbb_blk_max_num r \<Longrightarrow> bk_status (rbb_blk_set r b) = RT_RBB_BLK_INITED \<Longrightarrow>
   rbb_reach buf_size szs (the (rt_rbb_blk_put b r))"
  by (rule reach_quiet[of buf_size szs r], assumption, rule rbb_step.step_put[of b]) (simp_all add: rt_rbb_blk_put_def)

lemma ring0_reach: "rbb_reach 10 [] ring0"
proof (rule rbb_reach.reach_init)
  show "rt_rbb_init 0x20000000 10 4 ring_mem = Some ring0" by (simp add: ring0_def rt_rbb_init_def)
qed simp_all

lemma ring1_facts:
  "rt_rbb_blk_alloc 5 ring0 \<noteq> None" "fst (the (rt_rbb_blk_alloc 5 ring0)) \<noteq> None"
  "rt_rbb_blk_alloc 5 (alloc_blk 5 ring0) \<noteq> None" "fst (the (rt_rbb_blk_alloc 5 (alloc_blk 5 ring0))) \<noteq> None"
  "rbb_blk_max_num (alloc_blk 5 (alloc_blk 5 ring0)) = 4"
  "bk_status (rbb_blk_set (alloc_blk 5 (alloc_blk 5 ring0)) 3) = RT_RBB_BLK_INITED"
  "bk_status (rbb_blk_set (the (rt_rbb_blk_put 3 (alloc_blk 5 (alloc_blk 5 ring0)))) 2) = RT_RBB_BLK_INITED"
  "rbb_blk_max_num (the (rt_rbb_blk_put 3 (alloc_blk 5 (alloc_blk 5 ring0)))) = 4"
  by code_simp+

lemma ring1_reach: "rbb_reach 10 [5, 5] ring1"
proof -
  have "rbb_reach 10 ([] @ [5]) (alloc_blk 5 ring0)" by (rule reach_alloc[OF ring0_reach ring1_facts(1,2)])
  then have "rbb_reach 10 (([] @ [5]) @ [5]) (alloc_blk 5 (alloc_blk 5 ring0))" by (rule reach_alloc[OF _ ring1_facts(3,4)])
  then show ?thesis unfolding ring1_def using ring1_facts by (intro reach_put) simp_all
qed

theorem rbb_blocks_disjoint_witness: "{0x20000000 ..< 0x20000005} \<inter> blk_bytes ring1 2 = {}"
proof -
  have f: "3 < rbb_blk_max_num ring1" "bk_status (rbb_blk_set ring1 3) \<noteq> RT_RBB_BLK_UNUSED"
    "2 < rbb_blk_max_num ring1" "bk_status (rbb_blk_set ring1 2) \<noteq> RT_RBB_BLK_UNUSED"
    "rt_rbb_blk_buf 3 ring1 = 0x20000000" "rt_rbb_blk_size 3 ring1 = 5"
    by code_simp+
  have "blk_bytes ring1 3 \<inter> blk_bytes ring1 2 = {}" using rbb_blocks_disjoint[OF ring1_reach _ f(1,2)] f(3,4) by simp
  then show ?thesis using f(5,6) by (simp add: blk_bytes_def)
qed

text \<open>
  C17. In a ring that has handed out no empty block and none larger than the buffer, the length that
  \<^verbatim>\<open>rt_rbb_next_blk_queue_len\<close> announces is the size of a set of written blocks, and the one a queue gets:
  whenever \<^verbatim>\<open>rt_rbb_blk_queue_get\<close> with at least that limit returns, its result is this length, the sizes
  of the blocks of the queue add up to it, and freeing the queue makes exactly these blocks free again. The
  loop reads through the null pointer when it comes to the end of the list, which C leaves undefined; the call
  is shown to return if that read gives some word, and where it traps \<open>queue_get_null_read\<close> says when.
\<close>

theorem rbb_queue_correct:
  assumes "rbb_reach buf_size szs r" "\<forall>sz\<in>set szs. 0 < sz \<and> sz \<le> buf_size"
  shows "\<exists>d bs. rt_rbb_next_blk_queue_len r = Some d \<and> d \<le> rt_rbb_get_buf_size r \<and>
    distinct bs \<and> (\<forall>b\<in>set bs. b < rbb_blk_max_num r \<and> bk_status (rbb_blk_set r b) = RT_RBB_BLK_PUT) \<and>
    d = sum_list (map (\<lambda>b. rt_rbb_blk_size b r) bs) \<and>
    (\<forall>len\<ge>d. (null_next \<noteq> None \<longrightarrow> rt_rbb_blk_queue_get null_next len q r \<noteq> None) \<and>
      (\<forall>d' q' r'. rt_rbb_blk_queue_get null_next len q r = Some (d', q', r') \<longrightarrow>
        d' = d \<and> rbb_reach buf_size szs r' \<and>
        (d \<noteq> 0 \<longrightarrow> rt_rbb_blk_queue_len q' r' = Some d \<and>
          (\<exists>r''. rt_rbb_blk_queue_free q' r' = Some r'' \<and> rbb_reach buf_size szs r'' \<and>
            (\<forall>b. bk_status (rbb_blk_set r'' b) = (if b \<in> set bs then RT_RBB_BLK_UNUSED else bk_status (rbb_blk_set r b)))))))"
proof -
  obtain xs fs where i: "rbb_inv r xs fs" using reach_inv[OF assms] by blast
  let ?run = "queue_run r (- 1) xs"
  let ?d = "run_size r ?run"
  obtain ps rest where xs: "xs = ps @ ?run @ rest" using queue_run_part by blast
  have m: "distinct ?run" "set ?run \<subseteq> set xs" "set xs \<subseteq> {..<rbb_blk_max_num r}"
    using i xs by (auto simp: rbb_inv_def rbb_lists_def) (metis distinct_append, metis Un_iff set_append)
  have "?d = sum_list (map (\<lambda>b. rt_rbb_blk_size b r) ?run)" by (simp add: run_size_def rt_rbb_blk_size_def)
  moreover have "(null_next \<noteq> None \<longrightarrow> rt_rbb_blk_queue_get null_next len q r \<noteq> None) \<and>
      (\<forall>d' q' r'. rt_rbb_blk_queue_get null_next len q r = Some (d', q', r') \<longrightarrow>
        d' = ?d \<and> rbb_reach buf_size szs r' \<and>
        (?d \<noteq> 0 \<longrightarrow> rt_rbb_blk_queue_len q' r' = Some ?d \<and>
          (\<exists>r''. rt_rbb_blk_queue_free q' r' = Some r'' \<and> rbb_reach buf_size szs r'' \<and>
            (\<forall>b. bk_status (rbb_blk_set r'' b) = (if b \<in> set ?run then RT_RBB_BLK_UNUSED else bk_status (rbb_blk_set r b))))))"
    if "len \<ge> ?d" for len
  proof (intro conjI allI impI)
    note e = queue_get_eq[OF i, of null_next len q, unfolded queue_run_limit[OF i that] Let_def]
    show "null_next \<noteq> None \<Longrightarrow> rt_rbb_blk_queue_get null_next len q r \<noteq> None" using e by simp
    fix d' q' r' assume g: "rt_rbb_blk_queue_get null_next len q r = Some (d', q', r')"
    then have v: "d' = ?d" "r' = mark_got ?run r" "?run \<noteq> [] \<Longrightarrow> q' = q\<lparr>bq_blocks := hd ?run, bq_num := of_nat (length ?run)\<rparr>"
      using e by (auto split: if_splits)
    show "d' = ?d" by (rule v)
    show r': "rbb_reach buf_size szs r'" using reach_quiet[OF assms(1)] rbb_step.step_queue_get[OF g] by blast
    assume "?d \<noteq> 0"
    then have ne: "?run \<noteq> []" by auto
    then show "rt_rbb_blk_queue_len q' r' = Some ?d" using got_queue(1)[OF i xs] v by simp
    obtain r'' where f: "rt_rbb_blk_queue_free q' r' = Some r''"
      "\<forall>b. bk_status (rbb_blk_set r'' b) = (if b \<in> set ?run then RT_RBB_BLK_UNUSED else bk_status (rbb_blk_set r b))"
      using got_queue(2)[OF i xs ne] v ne by auto
    have "hd ?run < rbb_blk_max_num r" using subsetD[OF subset_trans[OF m(2,3)] hd_in_set[OF ne]] by simp
    then have "bq_blocks q' < rbb_blk_max_num r'" using v ne by simp
    then have "rbb_reach buf_size szs r''" using reach_quiet[OF r'] rbb_step.step_queue_free f(1) by blast
    then show "\<exists>r''. rt_rbb_blk_queue_free q' r' = Some r'' \<and> rbb_reach buf_size szs r'' \<and>
        (\<forall>b. bk_status (rbb_blk_set r'' b) = (if b \<in> set ?run then RT_RBB_BLK_UNUSED else bk_status (rbb_blk_set r b)))"
      using f by blast
  qed
  ultimately show ?thesis
    using next_len_eq[OF i] run_size_bound(2)[OF i xs] m queue_run_put[of _ r "- 1" xs]
    by (intro exI[of _ ?d] exI[of _ ?run]) (auto simp: rt_rbb_get_buf_size_def)
qed

theorem rbb_queue_correct_witness:
  "\<exists>q' r' r''. rt_rbb_blk_queue_get (Some None) 10 \<lparr>bq_blocks = 0, bq_num = 0\<rparr> ring1 = Some (10, q', r') \<and>
     rt_rbb_blk_queue_len q' r' = Some 10 \<and> rt_rbb_blk_queue_free q' r' = Some r'' \<and>
     bk_status (rbb_blk_set r'' 0) = bk_status (rbb_blk_set ring1 0)"
proof -
  have l: "rt_rbb_next_blk_queue_len ring1 = Some 10" "bk_status (rbb_blk_set ring1 0) = RT_RBB_BLK_UNUSED" by code_simp+
  let ?get = "\<lambda>len. rt_rbb_blk_queue_get (Some None) len \<lparr>bq_blocks = 0, bq_num = 0\<rparr> ring1"
  have "\<forall>sz\<in>set [5, 5 :: u32]. 0 < sz \<and> sz \<le> 10" by simp
  then obtain d bs where d: "rt_rbb_next_blk_queue_len ring1 = Some d" and h:
    "\<forall>len\<ge>d. (Some None \<noteq> None \<longrightarrow> ?get len \<noteq> None) \<and>
      (\<forall>d' q' r'. ?get len = Some (d', q', r') \<longrightarrow> d' = d \<and> rbb_reach 10 [5, 5] r' \<and>
        (d \<noteq> 0 \<longrightarrow> rt_rbb_blk_queue_len q' r' = Some d \<and>
          (\<exists>r''. rt_rbb_blk_queue_free q' r' = Some r'' \<and> rbb_reach 10 [5, 5] r'' \<and>
            (\<forall>b. bk_status (rbb_blk_set r'' b) = (if b \<in> set bs then RT_RBB_BLK_UNUSED else bk_status (rbb_blk_set ring1 b))))))"
    using rbb_queue_correct[OF ring1_reach, of "Some None" "\<lparr>bq_blocks = 0, bq_num = 0\<rparr>"] by blast
  have "d = 10" using d l(1) by simp
  then have h10: "(Some None \<noteq> None \<longrightarrow> ?get 10 \<noteq> None) \<and>
      (\<forall>d' q' r'. ?get 10 = Some (d', q', r') \<longrightarrow> d' = 10 \<and> rbb_reach 10 [5, 5] r' \<and>
        (10 \<noteq> (0 :: u32) \<longrightarrow> rt_rbb_blk_queue_len q' r' = Some 10 \<and>
          (\<exists>r''. rt_rbb_blk_queue_free q' r' = Some r'' \<and> rbb_reach 10 [5, 5] r'' \<and>
            (\<forall>b. bk_status (rbb_blk_set r'' b) = (if b \<in> set bs then RT_RBB_BLK_UNUSED else bk_status (rbb_blk_set ring1 b))))))"
    using h by blast
  then obtain d' q' r' where g: "?get 10 = Some (d', q', r')" by auto
  have ne: "(10 :: u32) \<noteq> 0" by simp
  obtain r'' where "d' = 10" "rt_rbb_blk_queue_len q' r' = Some 10" "rt_rbb_blk_queue_free q' r' = Some r''"
    "bk_status (rbb_blk_set r'' 0) = (if 0 \<in> set bs then RT_RBB_BLK_UNUSED else bk_status (rbb_blk_set ring1 0))"
    using h10 g ne by blast
  then show ?thesis using g l(2) by auto
qed

text \<open>Allocation returns for every size the assertion admits, and places the block where the arithmetic without wrap-around says.\<close>

theorem rbb_alloc_placed:
  assumes "rbb_inv r xs (b # fs)" "unat sz < 2 ^ 24"
  shows "\<exists>res r'. rt_rbb_blk_alloc sz r = Some (res, r') \<and>
    (case ring_place (unat (rbb_buf r)) (unat (rbb_buf r) + unat (rt_rbb_get_buf_size r)) (map (region r) xs) (unat sz) of
       None \<Rightarrow> res = None
     | Some a \<Rightarrow> res = Some b \<and> rt_rbb_blk_buf b r' = of_nat a \<and> rt_rbb_blk_size b r' = sz)"
  using alloc_eq[OF assms]
  by (auto simp: Let_def rt_rbb_get_buf_size_def rt_rbb_blk_buf_def rt_rbb_blk_size_def place_block_def list_append_def
      split: option.split)

text \<open>The reader gets the blocks in the order in which they were allocated: the oldest one that is written.\<close>

theorem rbb_get_oldest:
  assumes "rbb_inv r (ps @ b # qs) fs" "is_put r b" "\<forall>c\<in>set ps. \<not> is_put r c"
  shows "rt_rbb_blk_get r = Some (Some b, set_status b RT_RBB_BLK_GET r)"
proof -
  have "find (is_put r) (ps @ b # qs) = Some b" using assms(2,3) by (induction ps) auto
  then show ?thesis using get_eq[OF assms(1)] by simp
qed

text \<open>
  An allocation that finds a descriptor but no space returns the null pointer and loses the descriptor: it is
  on neither list afterwards.
\<close>

theorem failed_alloc_loses_descriptor:
  assumes "rbb_inv r xs (b # fs)" "unat sz < 2 ^ 24"
    and "ring_place (unat (rbb_buf r)) (unat (rbb_buf r) + unat (rbb_buf_size r)) (map (region r) xs) (unat sz) = None"
  shows "\<exists>r'. rt_rbb_blk_alloc sz r = Some (None, r') \<and> rbb_lists r' xs fs \<and> b \<notin> set (xs @ fs)"
proof -
  have "rbb_lists r xs (b # fs)" using assms(1) by (simp add: rbb_inv_def)
  then show ?thesis using alloc_eq[OF assms(1,2)] assms(3) take_free_lists[of r xs b fs]
    by (auto simp: Let_def) (auto simp: rbb_lists_def)
qed

text \<open>In an empty ring no size is refused: a block larger than the buffer is handed out.\<close>

theorem empty_ring_any_size:
  assumes "rbb_inv r [] (b # fs)" "unat sz < 2 ^ 24"
  shows "\<exists>r'. rt_rbb_blk_alloc sz r = Some (Some b, r') \<and> rt_rbb_blk_buf b r' = rbb_buf r \<and> rt_rbb_blk_size b r' = sz"
  using alloc_eq[OF assms]
  by (simp add: ring_place_def rt_rbb_blk_buf_def rt_rbb_blk_size_def place_block_def list_append_def)

text \<open>
  A block of size zero that fills the gap below the oldest block has the address of that block; the next
  allocation takes the ring for one that has not wrapped, and the new block overlaps the oldest.
\<close>

definition overlap_trace :: "(rt_rbb_blk \<times> rt_rbb_blk) option" where
  "overlap_trace = do {
     (a, r) \<leftarrow> rt_rbb_blk_alloc 5 ring0;
     (b, r) \<leftarrow> rt_rbb_blk_alloc 5 r;
     r \<leftarrow> rt_rbb_blk_free (the a) r;
     (c, r) \<leftarrow> rt_rbb_blk_alloc 5 r;
     (d, r) \<leftarrow> rt_rbb_blk_alloc 0 r;
     (e, r) \<leftarrow> rt_rbb_blk_alloc 3 r;
     Some (rbb_blk_set r (the b), rbb_blk_set r (the e))
   }"

theorem zero_size_block_overlaps:
  "overlap_trace =
     Some (\<lparr>bk_status = RT_RBB_BLK_INITED, bk_size = 5, bk_buf = 0x20000005\<rparr>,
           \<lparr>bk_status = RT_RBB_BLK_INITED, bk_size = 3, bk_buf = 0x20000005\<rparr>)"
  by code_simp

text \<open>
  The loop of \<^verbatim>\<open>rt_rbb_blk_queue_get\<close> reads through the null pointer whenever it reaches the end of the
  list, that is, unless a block stops it: where such a read traps, the call does not return.
\<close>

theorem queue_get_null_read:
  assumes "rbb_inv r xs fs"
  shows "rt_rbb_blk_queue_get None len q r = None \<longleftrightarrow> xs \<noteq> [] \<and> queue_run r len xs = dropWhile (\<lambda>b. \<not> is_put r b) xs"
  using queue_get_eq[OF assms, of None len q] by (auto simp: Let_def)

text \<open>The limit does not hold for the first block of a queue: a larger one is returned all the same.\<close>

theorem queue_get_exceeds_limit:
  assumes "rbb_inv r (b # bs) fs" "is_put r b" "len < bk_size (rbb_blk_set r b)"
  shows "\<exists>q' r'. rt_rbb_blk_queue_get (Some w) len q r = Some (bk_size (rbb_blk_set r b), q', r')"
proof -
  have "run_from r len b (bk_size (rbb_blk_set r b)) bs = []"
  proof (cases bs)
    case (Cons c cs)
    have "unat (run_size r [b, c]) = sum_list (map (\<lambda>b. snd (region r b)) [b, c])"
      using run_size_bound(1)[OF assms(1), of "[]" "[b, c]" cs] Cons by simp
    then have "unat (bk_size (rbb_blk_set r b) + bk_size (rbb_blk_set r c)) =
        unat (bk_size (rbb_blk_set r b)) + unat (bk_size (rbb_blk_set r c))"
      by (simp add: region_def)
    then have "len < bk_size (rbb_blk_set r b) + bk_size (rbb_blk_set r c)"
      using assms(3) by (simp add: word_less_nat_alt)
    then show ?thesis using Cons by simp
  qed simp
  then have "queue_run r len (b # bs) = [b]" using assms(2) by (simp add: queue_run_def)
  then show ?thesis using queue_get_eq[OF assms(1), of "Some w" len q] by (simp add: Let_def)
qed

text \<open>
  The blocks of a queue need not be contiguous: a block freed between two written ones leaves a gap that the
  check of ascending addresses does not see.
\<close>

definition gap_trace :: "(u32 \<times> u32 \<times> u32) option" where
  "gap_trace = do {
     (a, r) \<leftarrow> rt_rbb_blk_alloc 3 ring0;
     (b, r) \<leftarrow> rt_rbb_blk_alloc 3 r;
     (c, r) \<leftarrow> rt_rbb_blk_alloc 3 r;
     r \<leftarrow> rt_rbb_blk_put (the a) r;
     r \<leftarrow> rt_rbb_blk_put (the c) r;
     r \<leftarrow> rt_rbb_blk_free (the b) r;
     (d, q, r) \<leftarrow> rt_rbb_blk_queue_get (Some None) 10 \<lparr>bq_blocks = 0, bq_num = 0\<rparr> r;
     Some (d, bq_num q, rt_rbb_blk_buf (the c) r - rt_rbb_blk_queue_buf q r)
   }"

theorem queue_with_gap: "gap_trace = Some (6, 2, 6)"
  by code_simp

end
