(* ===== verification/Completion.thy ===== *)
theory Completion
  imports Blocking
begin

text \<open>
  Completions (\<^verbatim>\<open>components/drivers/ipc/completion.c\<close>): one machine word that holds the address of the thread
  that waits, and in its lowest bit whether the event has happened. Where the thread control blocks
  lie in memory is a parameter: \<open>addr\<close> gives the address of a thread, \<open>thread_at\<close> the thread at an address.
  As for the other blocking calls, waiting is split where the caller is switched out; a result
  \<open>None\<close> is a failed assertion. The spin lock makes each part atomic.
\<close>

section \<open>Operations\<close>

definition RT_COMPLETED :: u32 where "RT_COMPLETED = 1"
definition RT_UNCOMPLETED :: u32 where "RT_UNCOMPLETED = 0"

definition RT_COMPLETION_FLAG :: "u32 \<Rightarrow> u32" where
  "RT_COMPLETION_FLAG susp_thread_n_flag = susp_thread_n_flag AND 1"

definition RT_COMPLETION_THREAD :: "u32 \<Rightarrow> u32" where
  "RT_COMPLETION_THREAD susp_thread_n_flag = susp_thread_n_flag AND NOT 1"

definition RT_COMPLETION_NEW_STAT :: "u32 \<Rightarrow> u32 \<Rightarrow> u32" where
  "RT_COMPLETION_NEW_STAT thread flag = (flag AND 1) OR (thread AND NOT 1)"

definition rt_completion_init :: u32 where
  "rt_completion_init = RT_COMPLETION_NEW_STAT 0 RT_UNCOMPLETED"

definition rt_completion_wait ::
  "(tid \<Rightarrow> u32) \<Rightarrow> int \<Rightarrow> u32 \<Rightarrow> kernel \<Rightarrow> ((rt_err_t, unit) flow \<times> u32 \<times> kernel) option" where
  "rt_completion_wait addr timeout completion k =
     (if \<not> scheduler_available (timeout \<noteq> 0) k then None
      else if RT_COMPLETION_FLAG completion \<noteq> RT_COMPLETED
      then if RT_COMPLETION_THREAD completion \<noteq> 0 then None
           else if timeout = 0 then Some (Done (- RT_ETIMEOUT), completion, k)
           else do {
             thread \<leftarrow> rt_thread_self k;
             let k1 = set_error RT_EOK thread k;
             (result, k2) \<leftarrow> rt_thread_suspend_with_flag thread RT_UNINTERRUPTIBLE k1;
             if result = RT_EOK
             then if \<not> not_in_interrupt k2 then None
                  else do {
                    k3 \<leftarrow> arm_timeout thread timeout k2;
                    Some (Blocked (), RT_COMPLETION_NEW_STAT (addr thread) RT_UNCOMPLETED, rt_schedule k3)
                  }
             else Some (Done result, RT_COMPLETION_NEW_STAT 0 RT_UNCOMPLETED, k2)
           }
      else Some (Done RT_EOK, RT_COMPLETION_NEW_STAT 0 RT_UNCOMPLETED, k))"

text \<open>The waiting thread runs again: the rest of \<^verbatim>\<open>rt_completion_wait\<close>.\<close>

definition rt_completion_wait_resume :: "tid \<Rightarrow> u32 \<Rightarrow> kernel \<Rightarrow> rt_err_t \<times> u32" where
  "rt_completion_wait_resume thread completion k =
     (th_error (k_thread k thread), RT_COMPLETION_NEW_STAT 0 RT_UNCOMPLETED)"

definition completion_done :: "(u32 \<Rightarrow> tid) \<Rightarrow> u32 \<Rightarrow> kernel \<Rightarrow> rt_err_t \<times> u32 \<times> kernel" where
  "completion_done thread_at completion k =
     (if RT_COMPLETION_FLAG completion = RT_COMPLETED then (- RT_EBUSY, completion, k)
      else let suspend_thread = RT_COMPLETION_THREAD completion;
               (error, k1) = (if suspend_thread \<noteq> 0 then rt_thread_resume (thread_at suspend_thread) k
                              else (- RT_EEMPTY, k))
           in (error, RT_COMPLETION_NEW_STAT 0 RT_COMPLETED, k1))"

definition rt_completion_done :: "(u32 \<Rightarrow> tid) \<Rightarrow> u32 \<Rightarrow> kernel \<Rightarrow> u32 \<times> kernel" where
  "rt_completion_done thread_at completion k = snd (completion_done thread_at completion k)"

definition rt_completion_wakeup :: "(u32 \<Rightarrow> tid) \<Rightarrow> u32 \<Rightarrow> kernel \<Rightarrow> rt_err_t \<times> u32 \<times> kernel" where
  "rt_completion_wakeup thread_at completion k = completion_done thread_at completion k"

section \<open>The word\<close>

lemma even_mask: "w AND 1 = 0 \<Longrightarrow> w AND NOT 1 = w" for w :: u32
proof (rule bit_word_eqI)
  fix n assume w: "w AND 1 = 0" "n < LENGTH(32)"
  have "\<not> bit w 0" using w(1) by (auto simp: and_one_eq bit_0)
  then show "bit (w AND NOT 1) n = bit w n" using w(2) by (cases "n = 0") (auto simp: bit_simps)
qed

text \<open>A waiting thread and a completed event are never both in the word.\<close>

lemma completion_word [simp]:
  "rt_completion_init = 0" "RT_COMPLETION_NEW_STAT 0 RT_UNCOMPLETED = 0" "RT_COMPLETION_NEW_STAT 0 RT_COMPLETED = 1"
  "RT_COMPLETION_FLAG 0 = 0" "RT_COMPLETION_THREAD 0 = 0" "RT_COMPLETION_FLAG 1 = RT_COMPLETED" "0 \<noteq> RT_COMPLETED"
  by (simp_all add: rt_completion_init_def RT_COMPLETION_NEW_STAT_def RT_COMPLETION_FLAG_def RT_COMPLETION_THREAD_def
      RT_COMPLETED_def RT_UNCOMPLETED_def)

lemma completion_waiter:
  assumes "a AND 1 = 0"
  shows "RT_COMPLETION_NEW_STAT a RT_UNCOMPLETED = a" "RT_COMPLETION_FLAG a = 0" "RT_COMPLETION_THREAD a = a"
  using assms even_mask[OF assms]
  by (simp_all add: RT_COMPLETION_NEW_STAT_def RT_COMPLETION_FLAG_def RT_COMPLETION_THREAD_def RT_UNCOMPLETED_def)

section \<open>Waiting and waking\<close>

text \<open>The caller is suspended on no list; the word remembers it.\<close>

lemma wait_blocks:
  assumes "can_block k t" "timeout \<noteq> 0" "timeout < 0x7FFFFFFF"
  obtains k' where "rt_completion_wait addr timeout rt_completion_init k =
      Some (Blocked (), RT_COMPLETION_NEW_STAT (addr t) RT_UNCOMPLETED, k')"
    "sched_inv k'" "scheduled k'" "k_current k' \<noteq> Some t" "wake_ok k' t" "th_error (k_thread k' t) = RT_EOK"
proof -
  let ?k1 = "set_error RT_EOK t k"
  have c: "can_block ?k1 t" using assms(1) by simp
  then obtain u where u: "sched_inv ?k1" "k_current ?k1 = Some t" "k_lock_nest ?k1 = 0" "k_int_nest ?k1 = 0"
    "stat_of (k_thread ?k1 t) = RT_THREAD_RUNNING" "thread_timer_ok ?k1 t" "stat_of (k_thread ?k1 u) = RT_THREAD_READY"
    unfolding can_block_def by blast
  let ?k2 = "suspended_state t None RT_IPC_FLAG_FIFO RT_UNINTERRUPTIBLE ?k1"
  have p: "prio_ok (k_thread ?k1 t)" using u(1,2) by (simp add: sched_inv_def cur_ok_def)
  have i: "sched_inv ?k2" by (rule suspended_inv[OF u(1) p]) simp
  have s: "rt_thread_suspend_with_flag t RT_UNINTERRUPTIBLE ?k1 = Some (RT_EOK, ?k2)"
    using u(2,5) by (simp add: rt_thread_suspend_with_flag_def suspend_eq)
  obtain k3 where k3: "arm_timeout t timeout ?k2 = Some k3" "sched_inv (rt_schedule k3)" "scheduled (rt_schedule k3)"
    "k_current (rt_schedule k3) \<noteq> Some t" "wake_ok (rt_schedule k3) t"
    "th_error (k_thread (rt_schedule k3) t) = th_error (k_thread ?k1 t)"
    using blocked_schedule[OF i u(2,3,5,6) assms(3) u(7)] by blast
  have "not_in_interrupt ?k2" using u(4) by (simp add: not_in_interrupt_def)
  then have "rt_completion_wait addr timeout rt_completion_init k =
      Some (Blocked (), RT_COMPLETION_NEW_STAT (addr t) RT_UNCOMPLETED, rt_schedule k3)"
    using assms(2) s k3(1) can_block_available[OF assms(1)] can_block_self[OF assms(1)]
    by (simp add: rt_completion_wait_def)
  then show ?thesis using that k3 by simp
qed

lemma done_wakes:
  assumes "sched_inv k" "wake_ok k t" "a AND 1 = 0" "a \<noteq> 0" "thread_at a = t"
  shows "\<exists>k'. completion_done thread_at a k = (RT_EOK, 1, k') \<and> sched_inv k' \<and>
    stat_of (k_thread k' t) \<in> {RT_THREAD_READY, RT_THREAD_RUNNING} \<and> th_error (k_thread k' t) = th_error (k_thread k t)"
proof -
  let ?k' = "rt_sched_unlock_n_resched (woken t k)"
  have p: "prio_ok (k_thread k t)" using assms(2) by (simp add: wake_ok_def)
  have r: "rt_thread_resume t k = (RT_EOK, ?k')" by (simp add: rt_thread_resume_def ready_wake[OF assms(2)])
  have i: "sched_inv (woken t k)" using sched_waker.wake_invar[OF assms(1) p] ready_wake[OF assms(2)] by simp
  have e: "completion_done thread_at a k = (RT_EOK, 1, ?k')"
    using assms(4,5) completion_waiter[OF assms(3)] r by (simp add: completion_done_def)
  have "sched_inv ?k'" using resched_inv[OF i] .
  moreover have "stat_of (k_thread ?k' t) \<in> {2, 3}"
    using resched_stat[OF i, of t]
    by (cases "k_current k = Some t") (auto simp: rt_sched_unlock_n_resched_def woken_stat_def stat_of_def)
  moreover have "th_error (k_thread ?k' t) = th_error (k_thread k t)" by (simp add: rt_sched_unlock_n_resched_def)
  ultimately show ?thesis using e by blast
qed


section \<open>Properties\<close>

text \<open>
  C19. The handshake: a thread that waits for a completion is switched out, able to be woken, and the
  completion then makes it ready again; its call returns success, and the word is back in its initial state.
  The addresses of thread control blocks are even and not null.
\<close>

theorem completion_handshake:
  assumes "can_block k t" "timeout \<noteq> 0" "timeout < 0x7FFFFFFF"
    and "addr t AND 1 = 0" "addr t \<noteq> 0" "thread_at (addr t) = t"
  shows "\<exists>c k1 c' k2. rt_completion_wait addr timeout rt_completion_init k = Some (Blocked (), c, k1) \<and>
    sched_inv k1 \<and> scheduled k1 \<and> k_current k1 \<noteq> Some t \<and>
    rt_completion_wakeup thread_at c k1 = (RT_EOK, c', k2) \<and> sched_inv k2 \<and>
    stat_of (k_thread k2 t) \<in> {RT_THREAD_READY, RT_THREAD_RUNNING} \<and>
    rt_completion_wait_resume t c' k2 = (RT_EOK, rt_completion_init)"
proof -
  obtain k1 where k1: "rt_completion_wait addr timeout rt_completion_init k = Some (Blocked (), addr t, k1)"
    "sched_inv k1" "scheduled k1" "k_current k1 \<noteq> Some t" "wake_ok k1 t" "th_error (k_thread k1 t) = RT_EOK"
    using wait_blocks[OF assms(1-3)] completion_waiter(1)[OF assms(4)] by metis
  obtain k2 where "completion_done thread_at (addr t) k1 = (RT_EOK, 1, k2)" "sched_inv k2"
    "stat_of (k_thread k2 t) \<in> {2, 3}" "th_error (k_thread k2 t) = RT_EOK"
    using done_wakes[where thread_at = thread_at, OF k1(2,5) assms(4-6)] k1(6) by metis
  then show ?thesis using k1 by (auto simp: rt_completion_wakeup_def rt_completion_wait_resume_def)
qed

theorem completion_handshake_witness:
  "\<exists>c k1 c' k2. rt_completion_wait (\<lambda>t. 0x20000100 + 4 * of_nat t) 100 rt_completion_init sleep_example = Some (Blocked (), c, k1) \<and>
     k_current k1 \<noteq> Some 1 \<and> rt_completion_wakeup (\<lambda>_. 1) c k1 = (RT_EOK, c', k2) \<and>
     stat_of (k_thread k2 1) \<in> {RT_THREAD_READY, RT_THREAD_RUNNING} \<and>
     rt_completion_wait_resume 1 c' k2 = (RT_EOK, rt_completion_init)"
proof -
  have "can_block sleep_example 1"
    using sleep_example_facts unfolding can_block_def by blast
  then show ?thesis
    using completion_handshake[of sleep_example 1 100 "\<lambda>t. 0x20000100 + 4 * of_nat t" "\<lambda>_. 1"] by fastforce
qed

text \<open>
  A completion that comes first is kept: it reports that nobody waited, a second one that the event is
  already there, and the next wait returns at once and uses it up.
\<close>

theorem completion_kept:
  assumes "scheduler_available (timeout \<noteq> 0) k"
  shows "completion_done thread_at rt_completion_init k = (- RT_EEMPTY, 1, k)"
    "completion_done thread_at 1 k = (- RT_EBUSY, 1, k)"
    "rt_completion_wait addr timeout 1 k = Some (Done RT_EOK, rt_completion_init, k)"
  using assms by (simp_all add: completion_done_def rt_completion_wait_def)

text \<open>
  A completion between the timeout of the waiting thread and the moment it runs again is lost: it finds
  the thread no longer suspended, marks the word, and the thread clears the mark and returns the timeout.
\<close>

theorem completion_lost_after_timeout:
  assumes "a AND 1 = 0" "a \<noteq> 0" "thread_at a = t" "\<not> rt_sched_thread_is_suspended t k"
    and "th_error (k_thread k t) = - RT_ETIMEOUT"
  shows "completion_done thread_at a k = (- RT_EINVAL, 1, k) \<and>
    rt_completion_wait_resume t 1 k = (- RT_ETIMEOUT, rt_completion_init)"
  using assms completion_waiter[OF assms(1)]
  by (simp add: completion_done_def rt_thread_resume_def rt_sched_thread_ready_def rt_completion_wait_resume_def)

end
