(* ===== verification/DataQueue.thy ===== *)
theory DataQueue
  imports Mailbox
begin

text \<open>
  Data queues (\<^verbatim>\<open>components/drivers/ipc/dataqueue.c\<close>): a ring of items, each a pointer with a size, that
  drivers use to pass buffers between threads. Writers wait while the ring is full, readers while it is
  empty. The two indices are bit fields of 15 bits, the size has 16 bits. A call is split where the caller
  is switched out, as for mailboxes, but a woken caller waits again for its full time. The
  events reported to the callback are part of a result. A result \<open>None\<close> is a failed assertion, or
  the loop of a reader that cannot be suspended.
\<close>

section \<open>Operations\<close>

abbreviation (input) DATAQUEUE_MAGIC :: u32 where "DATAQUEUE_MAGIC \<equiv> 0xbead0e0e"
abbreviation (input) RT_THREAD_RESUME_RES_THR_ERR :: rt_err_t where "RT_THREAD_RESUME_RES_THR_ERR \<equiv> - 1"

datatype dq_event = RT_DATAQUEUE_EVENT_POP | RT_DATAQUEUE_EVENT_PUSH | RT_DATAQUEUE_EVENT_LWM

type_synonym rt_data_item = "u32 \<times> u32"

record rt_data_queue =
  dq_magic :: u32
  dq_size :: nat
  dq_lwm :: nat
  dq_get_index :: nat
  dq_is_empty :: bool
  dq_put_index :: nat
  dq_is_full :: bool
  dq_queue :: "rt_data_item list"
  dq_evt_notify :: bool

text \<open>The memory for the ring is an argument; the object has arbitrary content before.\<close>

definition rt_data_queue_init :: "nat \<Rightarrow> nat \<Rightarrow> nat \<Rightarrow> bool \<Rightarrow> rt_data_item list option \<Rightarrow> rt_data_queue \<times> kernel \<Rightarrow>
    (rt_err_t \<times> rt_data_queue \<times> kernel) option" where
  "rt_data_queue_init i sz lwm evt_notify mem s =
     (if sz = 0 then None
      else let (q, k) = s;
               q1 = q\<lparr>dq_evt_notify := evt_notify, dq_magic := DATAQUEUE_MAGIC, dq_size := sz, dq_lwm := lwm,
                      dq_get_index := 0, dq_put_index := 0, dq_is_empty := True, dq_is_full := False\<rparr>;
               k1 = k\<lparr>k_queue := (k_queue k)(DataPushQ i := [], DataPopQ i := [])\<rparr>
           in Some (case mem of
                None \<Rightarrow> (- RT_ENOMEM, q1\<lparr>dq_queue := []\<rparr>, k1)
              | Some pool \<Rightarrow> (RT_EOK, q1\<lparr>dq_queue := pool\<rparr>, k1)))"

text \<open>Advancing an index: it is incremented in its bit field and set to 0 at the end of the ring.\<close>

definition dq_next :: "nat \<Rightarrow> nat \<Rightarrow> nat" where
  "dq_next sz index = (let index' = (index + 1) mod 0x8000 in if index' = sz then 0 else index')"

definition dq_store :: "rt_data_item \<Rightarrow> rt_data_queue \<Rightarrow> rt_data_queue" where
  "dq_store item q =
     (let q1 = q\<lparr>dq_queue := (dq_queue q)[dq_put_index q := item],
                 dq_put_index := dq_next (dq_size q) (dq_put_index q), dq_is_empty := False\<rparr>
      in if dq_put_index q1 = dq_get_index q1 then q1\<lparr>dq_is_full := True\<rparr> else q1)"

definition dq_fetch :: "rt_data_queue \<Rightarrow> rt_data_item \<times> rt_data_queue" where
  "dq_fetch q =
     (let q1 = q\<lparr>dq_get_index := dq_next (dq_size q) (dq_get_index q), dq_is_full := False\<rparr>
      in (dq_queue q ! dq_get_index q,
          if dq_put_index q1 = dq_get_index q1 then q1\<lparr>dq_is_empty := True\<rparr> else q1))"

text \<open>The number of items; the result has 16 bits.\<close>

definition rt_data_queue_len :: "rt_data_queue \<Rightarrow> nat option" where
  "rt_data_queue_len q =
     (if dq_magic q \<noteq> DATAQUEUE_MAGIC then None
      else if dq_is_empty q then Some 0
      else if dq_put_index q > dq_get_index q then Some (dq_put_index q - dq_get_index q)
      else Some ((dq_size q + dq_put_index q - dq_get_index q) mod 0x10000))"

definition notify :: "dq_event \<Rightarrow> rt_data_queue \<Rightarrow> dq_event list" where
  "notify e q = (if dq_evt_notify q then [e] else [])"

text \<open>Suspending the caller on one of the two lists, with its timeout.\<close>

definition dq_wait :: "list_head \<Rightarrow> int \<Rightarrow> tid \<Rightarrow> kernel \<Rightarrow> (rt_err_t \<times> kernel) option" where
  "dq_wait l timeout t k = do {
     let k1 = set_error RT_EOK t k;
     (result, k2) \<leftarrow> rt_thread_suspend_to_list t (Some l) RT_IPC_FLAG_FIFO RT_UNINTERRUPTIBLE k1;
     if result = RT_EOK
     then do { k3 \<leftarrow> arm_timeout t timeout k2; Some (RT_EOK, rt_schedule k3) }
     else Some (result, k2)
   }"

text \<open>One pass of the loop of a writer.\<close>

definition dq_push_loop :: "nat \<Rightarrow> rt_data_item \<Rightarrow> int \<Rightarrow> tid option \<Rightarrow> rt_data_queue \<times> kernel \<Rightarrow>
    ((rt_err_t \<times> dq_event list, unit) flow \<times> rt_data_queue \<times> kernel) option" where
  "dq_push_loop i item timeout self s =
     (let (q, k) = s
      in if dq_is_full q
         then if timeout = 0 then Some (Done (- RT_ETIMEOUT, []), q, k)
              else do {
                t \<leftarrow> self;
                (result, k1) \<leftarrow> dq_wait (DataPushQ i) timeout t k;
                Some (if result = RT_EOK then Blocked () else Done (result, []), q, k1)
              }
         else let q1 = dq_store item q
              in Some (case rt_susp_list_dequeue (DataPushQ i) RT_THREAD_RESUME_RES_THR_ERR k of
                   (Some _, k1) \<Rightarrow> (Done (RT_EOK, []), q1, rt_schedule k1)
                 | (None, k1) \<Rightarrow> (Done (RT_EOK, notify RT_DATAQUEUE_EVENT_PUSH q1), q1, k1)))"

definition rt_data_queue_push :: "nat \<Rightarrow> rt_data_item \<Rightarrow> int \<Rightarrow> rt_data_queue \<times> kernel \<Rightarrow>
    ((rt_err_t \<times> dq_event list, unit) flow \<times> rt_data_queue \<times> kernel) option" where
  "rt_data_queue_push i item timeout s =
     (if dq_magic (fst s) \<noteq> DATAQUEUE_MAGIC \<or> \<not> scheduler_available (timeout \<noteq> 0) (snd s) then None
      else dq_push_loop i item timeout (rt_thread_self (snd s)) s)"

text \<open>The writer runs again.\<close>

definition rt_data_queue_push_resume :: "nat \<Rightarrow> rt_data_item \<Rightarrow> int \<Rightarrow> tid \<Rightarrow> rt_data_queue \<times> kernel \<Rightarrow>
    ((rt_err_t \<times> dq_event list, unit) flow \<times> rt_data_queue \<times> kernel) option" where
  "rt_data_queue_push_resume i item timeout t s =
     (let result = th_error (k_thread (snd s) t)
      in if result \<noteq> RT_EOK then Some (Done (result, []), s) else dq_push_loop i item timeout (Some t) s)"

text \<open>A reader that cannot be suspended tries again for ever, in the same state.\<close>

definition dq_pop_loop :: "nat \<Rightarrow> int \<Rightarrow> tid option \<Rightarrow> rt_data_queue \<times> kernel \<Rightarrow>
    ((rt_err_t \<times> rt_data_item option \<times> dq_event list, unit) flow \<times> rt_data_queue \<times> kernel) option" where
  "dq_pop_loop i timeout self s =
     (let (q, k) = s
      in if dq_is_empty q
         then if timeout = 0 then Some (Done (- RT_ETIMEOUT, None, []), q, k)
              else do {
                t \<leftarrow> self;
                (result, k1) \<leftarrow> dq_wait (DataPopQ i) timeout t k;
                if result = RT_EOK then Some (Blocked (), q, k1) else None
              }
         else do {
           let (item, q1) = dq_fetch q;
           len \<leftarrow> rt_data_queue_len q1;
           if len \<le> dq_lwm q1
           then Some (case rt_susp_list_dequeue (DataPushQ i) RT_THREAD_RESUME_RES_THR_ERR k of
                  (thread, k1) \<Rightarrow>
                    (Done (RT_EOK, Some item, notify RT_DATAQUEUE_EVENT_LWM q1), q1,
                     if thread \<noteq> None then rt_schedule k1 else k1))
           else Some (Done (RT_EOK, Some item, notify RT_DATAQUEUE_EVENT_POP q1), q1, k)
         })"

definition rt_data_queue_pop :: "nat \<Rightarrow> int \<Rightarrow> rt_data_queue \<times> kernel \<Rightarrow>
    ((rt_err_t \<times> rt_data_item option \<times> dq_event list, unit) flow \<times> rt_data_queue \<times> kernel) option" where
  "rt_data_queue_pop i timeout s =
     (if dq_magic (fst s) \<noteq> DATAQUEUE_MAGIC \<or> \<not> scheduler_available (timeout \<noteq> 0) (snd s) then None
      else dq_pop_loop i timeout (rt_thread_self (snd s)) s)"

definition rt_data_queue_pop_resume :: "nat \<Rightarrow> int \<Rightarrow> tid \<Rightarrow> rt_data_queue \<times> kernel \<Rightarrow>
    ((rt_err_t \<times> rt_data_item option \<times> dq_event list, unit) flow \<times> rt_data_queue \<times> kernel) option" where
  "rt_data_queue_pop_resume i timeout t s =
     (let result = th_error (k_thread (snd s) t)
      in if result \<noteq> RT_EOK then Some (Done (result, None, []), s) else dq_pop_loop i timeout (Some t) s)"

definition rt_data_queue_peek :: "rt_data_queue \<Rightarrow> (rt_err_t \<times> rt_data_item option) option" where
  "rt_data_queue_peek q =
     (if dq_magic q \<noteq> DATAQUEUE_MAGIC then None
      else if dq_is_empty q then Some (- RT_EEMPTY, None)
      else Some (RT_EOK, Some (dq_queue q ! dq_get_index q)))"

text \<open>
  \<^verbatim>\<open>rt_susp_list_resume_all_irq\<close> takes the spin lock in every round instead of relying on the caller; the rounds
  are those of \<^verbatim>\<open>rt_susp_list_resume_all\<close>.
\<close>

definition rt_data_queue_reset :: "nat \<Rightarrow> rt_data_queue \<times> kernel \<Rightarrow> (rt_data_queue \<times> kernel) option" where
  "rt_data_queue_reset i s =
     (if dq_magic (fst s) \<noteq> DATAQUEUE_MAGIC then None
      else let (q, k) = s;
               q1 = q\<lparr>dq_get_index := 0, dq_put_index := 0, dq_is_empty := True, dq_is_full := False\<rparr>;
               k1 = snd (rt_enter_critical k);
               k2 = rt_susp_list_resume_all (DataPopQ i) RT_ERROR k1;
               k3 = rt_susp_list_resume_all (DataPushQ i) RT_ERROR k2
           in Some (q1, rt_schedule (rt_exit_critical k3)))"

text \<open>The memory of the ring is given back.\<close>

definition rt_data_queue_deinit :: "nat \<Rightarrow> rt_data_queue \<times> kernel \<Rightarrow> (rt_err_t \<times> rt_data_queue \<times> kernel) option" where
  "rt_data_queue_deinit i s = do {
     (q, k) \<leftarrow> rt_data_queue_reset i s;
     Some (RT_EOK, q\<lparr>dq_magic := 0, dq_queue := []\<rparr>, k)
   }"

section \<open>The ring as a sequence\<close>

definition dq_count :: "rt_data_queue \<Rightarrow> nat" where
  "dq_count q =
     (if dq_is_empty q then 0
      else if dq_put_index q > dq_get_index q then dq_put_index q - dq_get_index q
      else dq_size q + dq_put_index q - dq_get_index q)"

definition dq_ok :: "rt_data_queue \<Rightarrow> bool" where
  "dq_ok q \<longleftrightarrow> dq_magic q = DATAQUEUE_MAGIC \<and> length (dq_queue q) = dq_size q \<and> 0 < dq_size q \<and> dq_size q \<le> 0x8000 \<and>
     dq_get_index q < dq_size q \<and> dq_put_index q < dq_size q \<and> \<not> (dq_is_empty q \<and> dq_is_full q) \<and>
     (dq_put_index q = dq_get_index q \<longleftrightarrow> dq_is_empty q \<or> dq_is_full q)"

definition dq_items :: "rt_data_queue \<Rightarrow> rt_data_item list" where
  "dq_items q = map (\<lambda>j. dq_queue q ! ((dq_get_index q + j) mod dq_size q)) [0..<dq_count q]"

lemma length_dq_items [simp]: "length (dq_items q) = dq_count q"
  by (simp add: dq_items_def)

lemma dq_next_mod: "a < n \<Longrightarrow> n \<le> 0x8000 \<Longrightarrow> dq_next n a = Suc a mod n"
proof (cases "Suc a = n")
  case True
  assume "a < n" "n \<le> 0x8000"
  show ?thesis
  proof (cases "n = 0x8000")
    case False
    then show ?thesis using True \<open>n \<le> 0x8000\<close> by (simp add: dq_next_def)
  next
    case n: True
    then show ?thesis using True by (simp add: dq_next_def)
  qed
next
  case False
  assume "a < n" "n \<le> 0x8000"
  then show ?thesis using False by (simp add: dq_next_def)
qed

lemma dq_put_count: "dq_ok q \<Longrightarrow> dq_put_index q = (dq_get_index q + dq_count q) mod dq_size q \<and> dq_count q \<le> dq_size q"
proof -
  assume q: "dq_ok q"
  consider "dq_is_empty q" | "\<not> dq_is_empty q" "dq_get_index q < dq_put_index q" | "\<not> dq_is_empty q" "dq_put_index q \<le> dq_get_index q"
    by linarith
  then show ?thesis
  proof cases
    case 3
    then have "dq_get_index q + dq_count q = dq_size q + dq_put_index q" using q by (auto simp: dq_ok_def dq_count_def)
    then show ?thesis using q 3 by (simp add: dq_ok_def dq_count_def)
  qed (use q in \<open>auto simp: dq_ok_def dq_count_def\<close>)
qed

lemma dq_len: "dq_ok q \<Longrightarrow> rt_data_queue_len q = Some (length (dq_items q))"
proof -
  assume q: "dq_ok q"
  then have "dq_count q < 0x10000" using conjunct2[OF dq_put_count[OF q]] by (simp add: dq_ok_def)
  then show ?thesis using q by (auto simp: rt_data_queue_len_def dq_count_def dq_ok_def)
qed

lemma dq_full_count: "dq_ok q \<Longrightarrow> dq_is_full q \<longleftrightarrow> dq_count q = dq_size q"
  by (auto simp: dq_ok_def dq_count_def)

lemma dq_empty_count: "dq_ok q \<Longrightarrow> dq_is_empty q \<longleftrightarrow> dq_count q = 0"
  by (auto simp: dq_ok_def dq_count_def)

lemma count_unique:
  assumes "dq_ok q" "c \<le> dq_size q" "dq_put_index q = (dq_get_index q + c) mod dq_size q" "dq_is_empty q \<longleftrightarrow> c = 0"
  shows "dq_count q = c"
proof -
  have s: "0 < dq_size q" using assms(1) by (simp add: dq_ok_def)
  note p = dq_put_count[OF assms(1)]
  show ?thesis
  proof (cases "dq_is_empty q")
    case False
    then have "0 < c" "0 < dq_count q" using assms(4) dq_empty_count[OF assms(1)] by auto
    then have "(dq_get_index q + 1 + (c - 1)) mod dq_size q = (dq_get_index q + 1 + (dq_count q - 1)) mod dq_size q"
      using p assms(3) by simp
    then have "c - 1 = dq_count q - 1"
      using mod_add_inj[of "dq_get_index q + 1" "c - 1" "dq_size q" "dq_count q - 1"] assms(2) p s by auto
    then show ?thesis using \<open>0 < c\<close> \<open>0 < dq_count q\<close> by simp
  qed (use assms(4) in \<open>simp add: dq_count_def\<close>)
qed

lemma dq_store_items:
  assumes "dq_ok q" "\<not> dq_is_full q"
  shows "dq_ok (dq_store x q)" "dq_items (dq_store x q) = dq_items q @ [x]" "dq_size (dq_store x q) = dq_size q"
proof -
  define n where "n = dq_size q"
  define a where "a = dq_get_index q"
  define e where "e = dq_count q"
  have m: "length (dq_queue q) = n" "n \<le> 0x8000" "0 < n" "a < n" "dq_put_index q = (a + e) mod n" "dq_magic q = DATAQUEUE_MAGIC"
    "e < n"
    using assms dq_put_count[OF assms(1)] dq_full_count[OF assms(1)] by (auto simp: dq_ok_def n_def a_def e_def)
  have inn: "(a + e) mod n < n" using m(3) by simp
  have nx: "dq_next n ((a + e) mod n) = (a + (e + 1)) mod n"
    using dq_next_mod[OF inn m(2)] by (metis mod_Suc_eq Suc_eq_plus1 add_Suc_right)
  have st: "dq_store x q = q\<lparr>dq_queue := (dq_queue q)[(a + e) mod n := x], dq_put_index := (a + (e + 1)) mod n,
      dq_is_empty := False, dq_is_full := ((a + (e + 1)) mod n = a)\<rparr>"
    using assms(2) nx m(5) by (auto simp: dq_store_def Let_def n_def a_def)
  show sz: "dq_size (dq_store x q) = dq_size q" by (simp add: st)
  show ok: "dq_ok (dq_store x q)" using m by (simp add: st dq_ok_def n_def[symmetric] a_def[symmetric])
  have c: "dq_count (dq_store x q) = e + 1"
    by (rule count_unique[OF ok]) (use m in \<open>simp_all add: st n_def[symmetric] a_def[symmetric]\<close>)
  have "map (\<lambda>j. (dq_queue q)[(a + e) mod n := x] ! ((a + j) mod n)) [0..<e] = map (\<lambda>j. dq_queue q ! ((a + j) mod n)) [0..<e]"
    using m(7) by (intro map_cong) (auto intro!: ring_read_other)
  then show "dq_items (dq_store x q) = dq_items q @ [x]"
    using m inn by (simp add: dq_items_def c) (simp add: st n_def[symmetric] a_def[symmetric] e_def[symmetric])
qed

lemma dq_fetch_items:
  assumes "dq_ok q" "\<not> dq_is_empty q"
  shows "dq_ok (snd (dq_fetch q))" "dq_items q = fst (dq_fetch q) # dq_items (snd (dq_fetch q))"
    "dq_size (snd (dq_fetch q)) = dq_size q"
proof -
  define n where "n = dq_size q"
  define a where "a = dq_get_index q"
  define e where "e = dq_count q - 1"
  have m: "length (dq_queue q) = n" "n \<le> 0x8000" "0 < n" "a < n" "dq_put_index q = (a + Suc e) mod n" "dq_magic q = DATAQUEUE_MAGIC"
    "e < n" "dq_count q = Suc e"
    using assms dq_put_count[OF assms(1)] dq_empty_count[OF assms(1)] by (auto simp: dq_ok_def n_def a_def e_def)
  let ?b = "Suc a mod n"
  have s: "(?b + j) mod n = (a + Suc j) mod n" for j by (simp add: mod_add_left_eq)
  have ft: "dq_fetch q = (dq_queue q ! a, q\<lparr>dq_get_index := ?b, dq_is_full := False, dq_is_empty := (dq_put_index q = ?b)\<rparr>)"
    using assms(2) dq_next_mod[OF m(4,2)] by (auto simp: dq_fetch_def Let_def n_def a_def)
  show sz: "dq_size (snd (dq_fetch q)) = dq_size q" by (simp add: ft)
  show ok: "dq_ok (snd (dq_fetch q))"
    using m assms by (simp add: ft dq_ok_def n_def[symmetric] a_def[symmetric])
  have "dq_put_index q = ?b \<longleftrightarrow> e = 0"
    using mod_add_inj[of "?b" e n 0] m(3,5,7) s[of e] s[of 0] by auto
  then have c: "dq_count (snd (dq_fetch q)) = e"
    by (intro count_unique[OF ok]) (use m s[of e] in \<open>simp_all add: ft n_def[symmetric]\<close>)
  have "dq_items q = map (\<lambda>j. dq_queue q ! ((a + j) mod n)) [0..<Suc e]" by (simp only: dq_items_def m(8) a_def n_def)
  also have "\<dots> = dq_queue q ! a # map (\<lambda>j. dq_queue q ! ((?b + j) mod n)) [0..<e]"
    using m(4) by (simp only: map_upt_Suc s) simp
  finally show "dq_items q = fst (dq_fetch q) # dq_items (snd (dq_fetch q))"
    by (simp add: dq_items_def[of "snd _"] c) (simp add: ft n_def)
qed

section \<open>Effects of a pass\<close>

lemma dq_wait_inv:
  assumes "dq_wait l timeout t k = Some (e, k')" "sched_inv k" "\<And>p. l \<noteq> ReadyQ p"
  shows "sched_inv k'"
proof -
  obtain e1 k2 where s: "rt_thread_suspend_to_list t (Some l) RT_IPC_FLAG_FIFO RT_UNINTERRUPTIBLE (set_error RT_EOK t k) = Some (e1, k2)"
    "e1 \<noteq> RT_EOK \<Longrightarrow> k' = k2" "e1 = RT_EOK \<Longrightarrow> \<exists>k3. arm_timeout t timeout k2 = Some k3 \<and> k' = rt_schedule k3"
    using assms(1) by (auto simp: dq_wait_def Let_def split: bind_splits if_splits)
  have "sched_inv (set_error RT_EOK t k)" using assms(2) by simp
  then have i: "sched_inv k2" using suspend_inv[OF _ _ s(1)] assms(3) by simp
  show ?thesis
  proof (cases "e1 = RT_EOK")
    case True
    then obtain k3 where k3: "arm_timeout t timeout k2 = Some k3" "k' = rt_schedule k3" using s(3) by blast
    then have "sched_inv k3" using sched_inv_same[OF arm_timeout_same[OF k3(1)]] i by simp
    then show ?thesis using k3(2) schedule_inv by simp
  qed (use s(2) i in simp)
qed

lemma push_loop_cases:
  assumes "dq_push_loop i x timeout self (q, k) = Some (r, q', k')" "sched_inv k"
  shows "sched_inv k'" "r = Done (RT_EOK, ev) \<Longrightarrow> \<not> dq_is_full q \<and> q' = dq_store x q"
    "\<forall>ev. r \<noteq> Done (RT_EOK, ev) \<Longrightarrow> q' = q"
proof -
  have "sched_inv k' \<and> (if dq_is_full q then q' = q \<and> (\<forall>ev. r \<noteq> Done (RT_EOK, ev))
      else q' = dq_store x q \<and> (\<exists>ev. r = Done (RT_EOK, ev)))"
  proof (cases "dq_is_full q")
    case True
    then show ?thesis using assms dq_wait_inv
      by (auto simp: dq_push_loop_def split: if_splits bind_splits)
  next
    case False
    have "sched_inv (snd (rt_susp_list_dequeue (DataPushQ i) (- 1) k))" using dequeue_inv[OF assms(2)] .
    then show ?thesis using assms False schedule_inv
      by (auto simp: dq_push_loop_def Let_def split: prod.splits option.splits)
  qed
  then show "sched_inv k'" "r = Done (RT_EOK, ev) \<Longrightarrow> \<not> dq_is_full q \<and> q' = dq_store x q"
    "\<forall>ev. r \<noteq> Done (RT_EOK, ev) \<Longrightarrow> q' = q" by (auto split: if_splits)
qed

lemma pop_loop_cases:
  assumes "dq_pop_loop i timeout self (q, k) = Some (r, q', k')" "sched_inv k" "dq_ok q"
  shows "sched_inv k'"
    "r = Done (RT_EOK, v, ev) \<Longrightarrow> \<not> dq_is_empty q \<and> v = Some (fst (dq_fetch q)) \<and> q' = snd (dq_fetch q)"
    "\<forall>v ev. r \<noteq> Done (RT_EOK, v, ev) \<Longrightarrow> q' = q"
proof -
  have "sched_inv k' \<and> (if dq_is_empty q then q' = q \<and> (\<forall>v ev. r \<noteq> Done (RT_EOK, v, ev))
      else q' = snd (dq_fetch q) \<and> (\<exists>ev. r = Done (RT_EOK, Some (fst (dq_fetch q)), ev)))"
  proof (cases "dq_is_empty q")
    case True
    then show ?thesis using assms dq_wait_inv
      by (auto simp: dq_pop_loop_def split: if_splits bind_splits)
  next
    case False
    obtain x q1 where f: "dq_fetch q = (x, q1)" by fastforce
    have "rt_data_queue_len q1 = Some (length (dq_items q1))" using dq_len dq_fetch_items(1)[OF assms(3) False] f by simp
    moreover have "sched_inv (snd (rt_susp_list_dequeue (DataPushQ i) (- 1) k))" using dequeue_inv[OF assms(2)] .
    ultimately show ?thesis using assms(1,2) False f schedule_inv
      by (auto simp: dq_pop_loop_def Let_def split: prod.splits if_splits)
  qed
  then show "sched_inv k'"
    "r = Done (RT_EOK, v, ev) \<Longrightarrow> \<not> dq_is_empty q \<and> v = Some (fst (dq_fetch q)) \<and> q' = snd (dq_fetch q)"
    "\<forall>v ev. r \<noteq> Done (RT_EOK, v, ev) \<Longrightarrow> q' = q"
    by (auto split: if_splits)
qed

section \<open>The data queue as a channel\<close>

definition dq_push_pass :: "nat \<Rightarrow> rt_data_item \<Rightarrow> (rt_err_t \<times> dq_event list, unit) flow \<Rightarrow>
    rt_data_queue \<times> kernel \<Rightarrow> rt_data_queue \<times> kernel \<Rightarrow> bool" where
  "dq_push_pass i x r s s' \<longleftrightarrow>
     (\<exists>timeout. rt_data_queue_push i x timeout s = Some (r, s')) \<or>
     (\<exists>timeout t. rt_data_queue_push_resume i x timeout t s = Some (r, s'))"

definition dq_pop_pass :: "nat \<Rightarrow> (rt_err_t \<times> rt_data_item option \<times> dq_event list, unit) flow \<Rightarrow>
    rt_data_queue \<times> kernel \<Rightarrow> rt_data_queue \<times> kernel \<Rightarrow> bool" where
  "dq_pop_pass i r s s' \<longleftrightarrow>
     (\<exists>timeout. rt_data_queue_pop i timeout s = Some (r, s')) \<or>
     (\<exists>timeout t. rt_data_queue_pop_resume i timeout t s = Some (r, s'))"

lemma push_pass_cases:
  assumes "dq_push_pass i x r (q, k) (q', k')" "sched_inv k"
  shows "sched_inv k'" "r = Done (RT_EOK, ev) \<Longrightarrow> \<not> dq_is_full q \<and> q' = dq_store x q"
    "\<forall>ev. r \<noteq> Done (RT_EOK, ev) \<Longrightarrow> q' = q"
proof -
  have "(q' = q \<and> k' = k \<and> (\<forall>ev. r \<noteq> Done (RT_EOK, ev))) \<or>
      (\<exists>timeout self. dq_push_loop i x timeout self (q, k) = Some (r, q', k'))"
    using assms(1) unfolding dq_push_pass_def rt_data_queue_push_def rt_data_queue_push_resume_def
    by (auto simp: Let_def split: if_splits)
  then show "sched_inv k'" "r = Done (RT_EOK, ev) \<Longrightarrow> \<not> dq_is_full q \<and> q' = dq_store x q"
    "\<forall>ev. r \<noteq> Done (RT_EOK, ev) \<Longrightarrow> q' = q"
    using assms(2) push_loop_cases(1,2)[OF _ assms(2)] push_loop_cases(3)[OF _ assms(2), where i = i] by (blast, blast, metis)
qed

lemma pop_pass_cases:
  assumes "dq_pop_pass i r (q, k) (q', k')" "sched_inv k" "dq_ok q"
  shows "sched_inv k'"
    "r = Done (RT_EOK, v, ev) \<Longrightarrow> \<not> dq_is_empty q \<and> v = Some (fst (dq_fetch q)) \<and> q' = snd (dq_fetch q)"
    "\<forall>v ev. r \<noteq> Done (RT_EOK, v, ev) \<Longrightarrow> q' = q"
proof -
  have "(q' = q \<and> k' = k \<and> (\<forall>v ev. r \<noteq> Done (RT_EOK, v, ev))) \<or>
      (\<exists>timeout self. dq_pop_loop i timeout self (q, k) = Some (r, q', k'))"
    using assms(1) unfolding dq_pop_pass_def rt_data_queue_pop_def rt_data_queue_pop_resume_def
    by (auto simp: Let_def split: if_splits)
  then show "sched_inv k'"
    "r = Done (RT_EOK, v, ev) \<Longrightarrow> \<not> dq_is_empty q \<and> v = Some (fst (dq_fetch q)) \<and> q' = snd (dq_fetch q)"
    "\<forall>v ev. r \<noteq> Done (RT_EOK, v, ev) \<Longrightarrow> q' = q"
    using assms(2) pop_loop_cases(1,2)[OF _ assms(2,3)] pop_loop_cases(3)[OF _ assms(2,3), where i = i] by (blast, blast, metis)
qed

definition dq_invar :: "rt_data_queue \<times> kernel \<Rightarrow> bool" where
  "dq_invar s \<longleftrightarrow> dq_ok (fst s) \<and> sched_inv (snd s)"

definition dq_sends :: "nat \<Rightarrow> rt_data_item \<Rightarrow> rt_data_queue \<times> kernel \<Rightarrow> rt_data_queue \<times> kernel \<Rightarrow> bool" where
  "dq_sends i x s s' \<longleftrightarrow> (\<exists>ev. dq_push_pass i x (Done (RT_EOK, ev)) s s')"

definition dq_receives :: "nat \<Rightarrow> rt_data_item \<Rightarrow> rt_data_queue \<times> kernel \<Rightarrow> rt_data_queue \<times> kernel \<Rightarrow> bool" where
  "dq_receives i x s s' \<longleftrightarrow> (\<exists>ev. dq_pop_pass i (Done (RT_EOK, Some x, ev)) s s')"

definition dq_neutral :: "nat \<Rightarrow> rt_data_queue \<times> kernel \<Rightarrow> rt_data_queue \<times> kernel \<Rightarrow> bool" where
  "dq_neutral i s s' \<longleftrightarrow>
     (\<exists>x r. dq_push_pass i x r s s' \<and> (\<forall>ev. r \<noteq> Done (RT_EOK, ev))) \<or>
     (\<exists>r. dq_pop_pass i r s s' \<and> (\<forall>v ev. r \<noteq> Done (RT_EOK, v, ev))) \<or>
     (sched_inv (snd s') \<and> fst s' = fst s)"

interpretation dataqueue: fifo_channel dq_invar "\<lambda>s. dq_items (fst s)" "\<lambda>s. dq_size (fst s)"
  "dq_sends i" "dq_receives i" "dq_neutral i" for i
proof unfold_locales
  fix s x s'
  assume a: "dq_invar s" "dq_sends i x s s'"
  obtain q k q' k' where s: "s = (q, k)" "s' = (q', k')" by (cases s; cases s') auto
  obtain ev where p: "dq_push_pass i x (Done (RT_EOK, ev)) (q, k) (q', k')" using a(2) s by (auto simp: dq_sends_def)
  have i: "sched_inv k" "dq_ok q" using a(1) s by (simp_all add: dq_invar_def)
  note c = push_pass_cases(1,2)[OF p i(1)]
  then have f: "\<not> dq_is_full q" "q' = dq_store x q" by blast+
  show "dq_invar s' \<and> dq_items (fst s') = dq_items (fst s) @ [x] \<and> dq_size (fst s') = dq_size (fst s)"
    using c(1) f dq_store_items[OF i(2) f(1)] s by (simp add: dq_invar_def)
next
  fix s x s'
  assume a: "dq_invar s" "dq_receives i x s s'"
  obtain q k q' k' where s: "s = (q, k)" "s' = (q', k')" by (cases s; cases s') auto
  obtain ev where p: "dq_pop_pass i (Done (RT_EOK, Some x, ev)) (q, k) (q', k')" using a(2) s by (auto simp: dq_receives_def)
  have i: "sched_inv k" "dq_ok q" using a(1) s by (simp_all add: dq_invar_def)
  note c = pop_pass_cases(1,2)[OF p i]
  then have f: "\<not> dq_is_empty q" "x = fst (dq_fetch q)" "q' = snd (dq_fetch q)" by blast+
  show "dq_invar s' \<and> dq_items (fst s) = x # dq_items (fst s') \<and> dq_size (fst s') = dq_size (fst s)"
    using c(1) f dq_fetch_items[OF i(2) f(1)] s by (simp add: dq_invar_def)
next
  fix s s'
  assume a: "dq_invar s" "dq_neutral i s s'"
  obtain q k q' k' where s: "s = (q, k)" "s' = (q', k')" by (cases s; cases s') auto
  have i: "sched_inv k" "dq_ok q" using a(1) s by (simp_all add: dq_invar_def)
  have "sched_inv k' \<and> q' = q"
    using a(2) push_pass_cases(1,3)[OF _ i(1)] pop_pass_cases(1,3)[OF _ i] unfolding dq_neutral_def s by (metis fst_conv snd_conv)
  then show "dq_invar s' \<and> dq_items (fst s') = dq_items (fst s) \<and> dq_size (fst s') = dq_size (fst s)"
    using i s by (simp add: dq_invar_def)
next
  fix s
  assume "dq_invar s"
  then show "length (dq_items (fst s)) \<le> dq_size (fst s)" using dq_put_count by (simp add: dq_invar_def)
qed

lemma dequeue_other:
  assumes "sched_inv k" "l \<noteq> l'" "\<And>p. l \<noteq> ReadyQ p"
  shows "k_queue (snd (rt_susp_list_dequeue l' err k)) l = k_queue k l"
proof (cases "k_queue k l'")
  case Nil
  then show ?thesis by (simp add: dequeue_nil)
next
  case (Cons t ts)
  have "t \<notin> set (k_queue k l)"
    using assms(1,2) Cons by (auto simp: sched_inv_def lists_inv_def queues_ok_def)
  then show ?thesis
    using Cons assms(3) by (auto simp: rt_susp_list_dequeue_def rt_sched_thread_ready_def split_beta Let_def)
qed

section \<open>Properties\<close>

text \<open>
  C6. A data queue is a FIFO channel: over every interleaving of pushes, pops, waiting, timeouts and other
  activity, the items popped followed by the items still in the queue are the initial items followed by
  the items pushed, in order, and the writers are never ahead by more than the size.
\<close>

theorem dataqueue_fifo:
  assumes "chan_trace (dq_sends i) (dq_receives i) (dq_neutral i) s0 ss rs s" and "dq_invar s0"
  shows "dq_items (fst s0) @ ss = rs @ dq_items (fst s) \<and>
    dq_count (fst s0) + length ss \<le> length rs + dq_size (fst s0)"
  using dataqueue.trace_law[OF assms] dataqueue.trace_bounds(2)[OF assms] by simp

definition dq_example :: rt_data_queue where
  "dq_example = \<lparr>dq_magic = DATAQUEUE_MAGIC, dq_size = 2, dq_lwm = 1, dq_get_index = 1, dq_is_empty = True,
     dq_put_index = 1, dq_is_full = False, dq_queue = [(0, 0), (0, 0)], dq_evt_notify = True\<rparr>"

lemma dq_example_ok: "dq_ok dq_example"
  by (simp add: dq_example_def dq_ok_def)

theorem dataqueue_fifo_witness:
  "\<exists>s. chan_trace (dq_sends 0) (dq_receives 0) (dq_neutral 0) (dq_example, sleep_example) [(7, 4)] [(7, 4)] s \<and>
     dq_items (fst s) = []"
proof -
  let ?q1 = "dq_store (7, 4) dq_example"
  let ?q2 = "snd (dq_fetch ?q1)"
  have e: "k_queue sleep_example (DataPushQ 0) = []" by (simp add: sleep_example_def sched_example_def kernel0_def)
  have "rt_data_queue_push 0 (7, 4) 0 (dq_example, sleep_example) =
      Some (Done (RT_EOK, [RT_DATAQUEUE_EVENT_PUSH]), ?q1, sleep_example)"
    by (simp add: rt_data_queue_push_def dq_push_loop_def scheduler_available_def dequeue_nil[OF e] notify_def
        dq_example_def dq_store_def Let_def)
  then have p: "dq_sends 0 (7, 4) (dq_example, sleep_example) (?q1, sleep_example)"
    unfolding dq_sends_def dq_push_pass_def by blast
  have "rt_data_queue_pop 0 0 (?q1, sleep_example) =
      Some (Done (RT_EOK, Some (7, 4), [RT_DATAQUEUE_EVENT_LWM]), ?q2, sleep_example)"
    by (simp add: rt_data_queue_pop_def dq_pop_loop_def scheduler_available_def dequeue_nil[OF e] notify_def
        dq_example_def dq_store_def dq_fetch_def dq_next_def rt_data_queue_len_def Let_def)
  then have r: "dq_receives 0 (7, 4) (?q1, sleep_example) (?q2, sleep_example)"
    unfolding dq_receives_def dq_pop_pass_def by blast
  let ?tr = "chan_trace (dq_sends 0) (dq_receives 0) (dq_neutral 0) (dq_example, sleep_example)"
  have "?tr ([] @ [(7, 4)]) [] (?q1, sleep_example)" using chan_trace.start p by (rule chan_trace.send)
  then have t: "?tr ([] @ [(7, 4)]) ([] @ [(7, 4)]) (?q2, sleep_example)" using r by (rule chan_trace.receive)
  have inv: "dq_invar (dq_example, sleep_example)" using dq_example_ok sleep_example_facts(1) by (simp add: dq_invar_def)
  have "dq_items dq_example = []" by (simp add: dq_items_def dq_count_def dq_example_def)
  then show ?thesis using dataqueue_fifo [OF t inv] t by (intro exI[of _ "(?q2, sleep_example)"]) simp
qed

text \<open>
  C33. A push does not wake a waiting reader: it looks for a thread on the list of the writers. The item is in
  the queue, and the readers still wait on their list, suspended as before.
\<close>

theorem push_leaves_readers_waiting:
  assumes "sched_inv k" "dq_ok q" "t \<in> set (k_queue k (DataPopQ i))"
    and "rt_data_queue_push i x timeout (q, k) = Some (Done (RT_EOK, ev), q', k')"
  shows "dq_items q' = dq_items q @ [x] \<and> k_queue k' (DataPopQ i) = k_queue k (DataPopQ i) \<and>
    stat_suspended (k_thread k' t)"
proof -
  have p: "dq_push_pass i x (Done (RT_EOK, ev)) (q, k) (q', k')" using assms(4) by (auto simp: dq_push_pass_def)
  note c = push_pass_cases(1,2)[OF p assms(1)]
  then have f: "\<not> dq_is_full q" "q' = dq_store x q" by blast+
  let ?k1 = "snd (rt_susp_list_dequeue (DataPushQ i) (- 1) k)"
  have "k' = ?k1 \<or> k' = rt_schedule ?k1"
    using assms(4) f(1) by (auto simp: rt_data_queue_push_def dq_push_loop_def Let_def split: if_splits prod.splits option.splits)
  moreover have "sched_inv ?k1" by (rule dequeue_inv[OF assms(1)])
  moreover have "k_queue ?k1 (DataPopQ i) = k_queue k (DataPopQ i)" by (rule dequeue_other[OF assms(1)]) simp_all
  ultimately have l: "k_queue k' (DataPopQ i) = k_queue k (DataPopQ i)" using schedule_wait_queue[of ?k1 "DataPopQ i"] by auto
  then have "stat_suspended (k_thread k' t)"
    using lists_invD(2)[of k' t "DataPopQ i"] c(1) assms(3) by (simp add: sched_inv_def)
  then show ?thesis using l f dq_store_items(2)[OF assms(2) f(1)] by simp
qed

theorem push_leaves_readers_waiting_witness:
  "\<exists>q' k'. rt_data_queue_push 0 (7, 4) 0 (dq_example, waiting_on (DataPopQ 0)) =
     Some (Done (RT_EOK, [RT_DATAQUEUE_EVENT_PUSH]), q', k') \<and>
     dq_items q' = [(7, 4)] \<and> k_queue k' (DataPopQ 0) = [2, 3] \<and> stat_suspended (k_thread k' 2)"
proof -
  let ?k = "waiting_on (DataPopQ 0)"
  have e: "k_queue ?k (DataPushQ 0) = []" by (simp add: waiting_on_def kernel0_def)
  have m: "2 \<in> set (k_queue ?k (DataPopQ 0))" by (simp add: waiting_on_facts(1))
  have p: "rt_data_queue_push 0 (7, 4) 0 (dq_example, ?k) =
      Some (Done (RT_EOK, [RT_DATAQUEUE_EVENT_PUSH]), dq_store (7, 4) dq_example, ?k)"
    by (simp add: rt_data_queue_push_def dq_push_loop_def scheduler_available_def dequeue_nil[OF e] notify_def
        dq_example_def dq_store_def Let_def)
  have "dq_items dq_example = []" by (simp add: dq_items_def dq_count_def dq_example_def)
  then show ?thesis
    using push_leaves_readers_waiting [OF waiting_on_inv dq_example_ok m p] p by (simp add: waiting_on_facts(1))
qed

text \<open>
  A pop that leaves no more items than the low water mark wakes the first waiting writer, and reports the
  mark to the callback; above the mark nobody is woken.
\<close>

theorem pop_wakes_writer_at_mark:
  assumes "sched_inv k" "dq_ok q" "dq_items q = x # xs" "k_queue k (DataPushQ i) = t # ts" "wake_ok k t"
    and "scheduler_available (timeout \<noteq> 0) k"
  shows "\<exists>q' k'. rt_data_queue_pop i timeout (q, k) =
      Some (Done (RT_EOK, Some x,
        notify (if length xs \<le> dq_lwm q then RT_DATAQUEUE_EVENT_LWM else RT_DATAQUEUE_EVENT_POP) q), q', k') \<and>
    dq_items q' = xs \<and> k_queue k' (DataPushQ i) = (if length xs \<le> dq_lwm q then ts else t # ts)"
proof -
  have ne: "\<not> dq_is_empty q" using assms(3) dq_empty_count[OF assms(2)] length_dq_items[of q] by auto
  note f = dq_fetch_items[OF assms(2) ne]
  have x: "x = fst (dq_fetch q)" "dq_items (snd (dq_fetch q)) = xs" using f(2) assms(3) by auto
  have c: "dq_lwm (snd (dq_fetch q)) = dq_lwm q" "dq_evt_notify (snd (dq_fetch q)) = dq_evt_notify q" "dq_magic q = DATAQUEUE_MAGIC"
    using assms(2) by (simp_all add: dq_fetch_def Let_def dq_ok_def)
  have l: "rt_data_queue_len (snd (dq_fetch q)) = Some (length xs)" using dq_len[OF f(1)] x(2) by simp
  have d: "rt_susp_list_dequeue (DataPushQ i) (- 1) k = (Some t, woken t k)"
    using dequeue_cons[OF assms(4,5)] wake_with_wake[OF assms(5)] by simp
  have i1: "sched_inv (woken t k)" using dequeue_inv[OF assms(1), of "DataPushQ i" "- 1"] d by simp
  have "distinct (t # ts)" using assms(1,4) unfolding sched_inv_def lists_inv_def queues_ok_def by metis
  then have "k_queue (woken t k) (DataPushQ i) = ts" using assms(4) by simp
  then have q: "k_queue (rt_schedule (woken t k)) (DataPushQ i) = ts" using schedule_wait_queue[OF i1, of "DataPushQ i"] by simp
  show ?thesis using assms(4,6) ne x c l d q
    by (auto simp: rt_data_queue_pop_def dq_pop_loop_def split_beta notify_def)
qed

text \<open>
  A size above the range of the indices: the put index wraps at 32768, and the length that is computed from
  the size jumps, although one item was added.
\<close>

theorem large_queue_length_jumps:
  assumes "dq_magic q = DATAQUEUE_MAGIC" "0x8000 < dq_size q" "dq_size q < 0x10000" "dq_put_index q = 0x7FFF"
    and "0 < dq_get_index q" "dq_get_index q < 0x7FFF" "\<not> dq_is_empty q"
  shows "rt_data_queue_len q = Some (0x7FFF - dq_get_index q) \<and>
    rt_data_queue_len (dq_store x q) = Some (dq_size q - dq_get_index q)"
  using assms by (simp add: rt_data_queue_len_def dq_store_def dq_next_def Let_def)

text \<open>Resetting empties the queue, and peeking returns the item the next pop returns.\<close>

theorem reset_empties:
  assumes "dq_ok q"
  shows "\<exists>q' k'. rt_data_queue_reset i (q, k) = Some (q', k') \<and> dq_ok q' \<and> dq_items q' = [] \<and>
    rt_data_queue_peek q' = Some (- RT_EEMPTY, None)"
  using assms by (simp add: rt_data_queue_reset_def dq_ok_def dq_items_def dq_count_def rt_data_queue_peek_def)

theorem peek_is_next:
  assumes "dq_ok q" "dq_items q = x # xs"
  shows "rt_data_queue_peek q = Some (RT_EOK, Some x)"
proof -
  have ne: "\<not> dq_is_empty q" using assms(2) dq_empty_count[OF assms(1)] length_dq_items[of q] by auto
  have "x = dq_queue q ! dq_get_index q" using dq_fetch_items(2)[OF assms(1) ne] assms(2) by (simp add: dq_fetch_def Let_def)
  then show ?thesis using ne assms(1) by (simp add: rt_data_queue_peek_def dq_ok_def)
qed

end
