(* ===== verification/Spec2Isabelle.thy ===== *)
theory Spec2Isabelle
  imports RingBuffer Semaphore Mutex Event Mailbox MessageQueue Mempool Clock GpioPin OXGame
    KList HeapService LcdText ThreadLife Console RingBlock Completion DataQueue
begin

text \<open>
  This development verifies the kernel core of RT-Thread 5.1 as it is configured for the board
  \<^verbatim>\<open>bsp/stm32/stm32f407-atk-explorer\<close> (one core, 32 priorities, no signals, no soft timers, 1000 ticks
  per second), and the program that runs on it, the noughts-and-crosses game of
  \<^verbatim>\<open>applications/OXGame.c\<close>.

  \<^bold>\<open>The program.\<close> The kernel schedules threads by priority, preemptively, with round robin inside a
  priority. Threads block on semaphores, mutexes, events, mailboxes, message queues and memory pools,
  or sleep; every blocking call can carry a timeout, which is a timer of the thread. The tick
  interrupt advances the clock, charges time slices and expires timers. The game has a key, an LCD and
  a command thread that share one game object under a recursive mutex; a serial interrupt feeds a ring
  buffer, button interrupts release a semaphore.

  \<^bold>\<open>The kernel state.\<close> The record \<open>kernel\<close> of the theory \<open>KernelState\<close> holds all kernel objects:
  threads by number, timers by owner, the circular lists by the list head they hang on (a \<open>list_head\<close>
  names the ready list of a priority or the wait list of an object), the priority bitmap, the nesting
  counters and the IPC objects by number. The operations on list nodes are those of
  \<^verbatim>\<open>include/rtservice.h\<close>, seen as operations on sequences. Interrupt locks and the scheduler lock
  around a critical section make it one step; what the source does in two sections with other
  activity in between is modelled in two definitions. A call that blocks ends in \<open>Blocked\<close> with what it
  remembers on its stack, and a second definition with the suffix \<open>_resume\<close> continues it from the state
  in which the thread runs again. Failed assertions are the value \<open>None\<close>.

  \<^bold>\<open>Theories.\<close>
  \<^item> \<open>Prelude\<close>: machine types, error codes, alignment macros, copies into arrays, chains of links.
  \<^item> \<open>RingBuffer\<close> (\<^verbatim>\<open>components/drivers/ipc/ringbuffer.c\<close>): every function, and the refinement of
    a bounded byte queue. The locale \<open>byte_queue\<close> states what clients rely on; it is interpreted on the
    ring buffer and the game uses the interpretation.
  \<^item> \<open>KernelState\<close>, \<open>Timer\<close> (\<^verbatim>\<open>src/timer.c\<close>): the timer list stays ordered by deadline although the
    tick counter wraps, for deadlines inside half of the tick circle.
  \<^item> \<open>KList\<close> (\<^verbatim>\<open>include/rtservice.h\<close>): the linked lists on their pointers. The locale \<open>list_store\<close> states what
    removing and inserting a node do to the sequences behind the list heads; it is interpreted on the
    pointer operations, and the sequence operations of \<open>KernelState\<close> are refined by them.
  \<^item> \<open>Scheduler\<close> (\<^verbatim>\<open>src/scheduler_up.c\<close>, \<^verbatim>\<open>src/scheduler_comm.c\<close>, \<^verbatim>\<open>__rt_ffs\<close>): the invariant \<open>sched_inv\<close>
    ties ready lists, bitmap and thread states together; rescheduling keeps it and leaves a running
    thread of the highest ready priority.
  \<^item> \<open>WaitList\<close> (the suspend lists of \<^verbatim>\<open>src/ipc.c\<close>), \<open>Thread\<close> (\<^verbatim>\<open>src/thread.c\<close>): queueing by arrival or
    priority, suspension, timeouts, sleeping, start-up and exit.
  \<^item> \<open>Blocking\<close>: the steps the IPC objects share, waiting with a timeout and waking a waiter. The locale
    \<open>wait_object\<close> proves them once for any wait list and is interpreted on the list of each object.
  \<^item> \<open>Semaphore\<close>, \<open>Mutex\<close>, \<open>Event\<close> (\<^verbatim>\<open>src/ipc.c\<close>): conservation of tokens over all runs, mutual
    exclusion over all runs, priority inheritance and the end of its walk along chains of owners, the
    waiters an event wakes.
  \<^item> \<open>ThreadLife\<close> (\<^verbatim>\<open>src/thread.c\<close>, \<^verbatim>\<open>src/idle.c\<close>): detaching, deleting and controlling threads, and the idle thread
    with its hooks and its release of closed threads.
  \<^item> \<open>Channel\<close>, \<open>Mailbox\<close>, \<open>MessageQueue\<close> (\<^verbatim>\<open>src/ipc.c\<close>): the locale \<open>fifo_channel\<close> derives the first-in
    first-out law over all traces from the laws of single steps; it is interpreted on the mailbox with
    its offsets and on the message queue with its chains of slots, whose messages are copied outside
    the critical sections.
  \<^item> \<open>DataQueue\<close> (\<^verbatim>\<open>components/drivers/ipc/dataqueue.c\<close>): the ring of items is a third interpretation of
    \<open>fifo_channel\<close>; a push looks for waiting threads on the wrong list, and the theorem
    \<open>push_leaves_readers_waiting\<close> says so.
  \<^item> \<open>Completion\<close> (\<^verbatim>\<open>components/drivers/ipc/completion.c\<close>): one word for the waiting thread and the event, the handshake
    of a wait with a completion, and the completion that is lost to a timeout.
  \<^item> \<open>RingBlock\<close> (\<^verbatim>\<open>components/drivers/ipc/ringblk_buf.c\<close>): the ring of blocks on the pointers of its two lists. The
    invariant \<open>rbb_inv\<close> says that the older blocks lie above the ones that have wrapped round; in every
    ring reached with allocations of any size blocks are disjoint and inside the buffer, provided that no block
    handed out was empty or larger than the buffer, which the code does not check.
  \<^item> \<open>Mempool\<close> (\<^verbatim>\<open>src/mempool.c\<close>): no block is handed out twice over all runs.
  \<^item> \<open>SmallMem\<close> (\<^verbatim>\<open>src/mem.c\<close>): the heap as a chain of block headers with the bytes between them. The invariant
    \<open>smem_ok\<close> says that the headers tile the heap, that no two free blocks are neighbours and that the
    lowest free block and the used bytes are recorded; every operation returns and keeps it. From it
    follow that blocks are disjoint, that requests are refused only when nothing fits, that releasing
    everything gives one free block, and what resizing does to the bytes.
  \<^item> \<open>KString\<close> (\<^verbatim>\<open>src/klibc/kstring.c\<close>): memory and string functions on a partial byte memory, where an access
    outside of the mapped addresses is \<open>None\<close>; copying and filling by words agree with the bytewise
    definitions.
  \<^item> \<open>ObjectC\<close> (\<^verbatim>\<open>src/object.c\<close>): the object container on the pointers of \<open>KList\<close> and the names of \<open>KString\<close>. In every
    reachable container the list of a class holds exactly the objects of the class, and looking up a name
    finds an object with its first eight characters.
  \<^item> \<open>Device\<close> (\<^verbatim>\<open>components/drivers/core/device.c\<close>): devices as objects, their drivers as records of functions. The
    locale \<open>device_driver\<close> states what a driver leaves alone; it is interpreted on the pin device of
    \<^verbatim>\<open>pin.c\<close>, which has no functions to initialise, open or close it. In every reachable system names of devices are unique and the count of users agrees with
    the open bit.
  \<^item> \<open>KStdio\<close> (\<^verbatim>\<open>src/klibc/kstdio.c\<close>): \<^verbatim>\<open>rt_vsnprintf\<close> from the parsing of a directive to the single character. Every
    loop is shown to do what \<open>raw_loop\<close> does with a text that does not depend on the buffer, and the buffer to hold
    what fits of it. Counters are of the type \<^verbatim>\<open>int\<close>, where an overflow is \<open>None\<close>, and the output pointer wraps at 32
    bits; \<open>needs\<close> reads off a format what its arguments have to be, and \<open>args_fit\<close> says that they are.
  \<^item> \<open>Console\<close> (\<^verbatim>\<open>src/kservice.c\<close>): the console device and \<^verbatim>\<open>rt_kprintf\<close>, over \<open>Device\<close> and \<open>KStdio\<close>.
  \<^item> \<open>HeapService\<close> (\<^verbatim>\<open>src/kservice.c\<close>): \<^verbatim>\<open>rt_malloc\<close>, \<^verbatim>\<open>rt_calloc\<close>, \<^verbatim>\<open>rt_realloc\<close> and the aligned variants with
    32-bit addresses, over the allocator.
  \<^item> \<open>Clock\<close> (\<^verbatim>\<open>src/clock.c\<close>, \<^verbatim>\<open>src/irq.c\<close>, \<^verbatim>\<open>rt_timer_check\<close>): the tick interrupt wakes every
    sleeper whose deadline has come; conversions between milliseconds and ticks.
  \<^item> \<open>GpioPin\<close> (\<^verbatim>\<open>components/drivers/pin/pin.c\<close>, \<^verbatim>\<open>HAL_Drivers/drivers/drv_gpio.c\<close>): pin names, handlers
    and the lines of the interrupt controller, which are kept by the number of a pin and not by its port.
  \<^item> \<open>OXRules\<close>, \<open>OXGame\<close> (\<^verbatim>\<open>applications/OXGame.c\<close>): the sequential part of the game and its refinement
    of the abstract rules; the threads as program counters whose steps interleave with the interrupts.
  \<^item> \<open>LcdDraw\<close>, \<open>LcdText\<close> (\<^verbatim>\<open>board/ports/drv_lcd.c\<close>): the display driver as the writes it makes to the controller and
    the points it draws: lines, rectangles, circles, characters, numbers and strings, with what they look
    like, and the figures of the game inside its board.

  \<^bold>\<open>Loops.\<close> Loops over data structures are structural recursion. Loops that can run on are
  \<open>partial_function (option)\<close>, where \<open>None\<close> is not to return: the walk of priority inheritance, the expiry
  loop of the timers, the drain loop of a message queue, the searches of the allocator, the walks along
  linked lists and the object lists, the string loops and the loops over a format; theorems state that
  they do return under the invariants, and \<open>zero_period_never_ends\<close> that the expiry loop does not for a periodic timer of
  period 0. The loops of the LCD driver whose 16-bit counters may not reach their end are written in the
  same way. The search for the next owner of a mutex has the length of the wait list as its fuel, since
  each round removes a waiter. Blocking loops of the IPC calls are one definition per pass.

  \<^bold>\<open>Assumptions.\<close> The results of the memory allocator are arguments of the operations that allocate.
  The handlers of application timers are an argument. The functions of a device driver are an argument,
  with the laws of \<open>device_driver\<close> where a theorem needs them. The glyph tables of the LCD driver are an
  argument, as are the words its controller answers. Where thread control blocks lie in memory, and
  what a read through the null pointer gives in \<^verbatim>\<open>rt_rbb_blk_queue_get\<close>, are arguments. The buffer of \<^verbatim>\<open>rt_vsnprintf\<close> does not overlap the
  format and the strings. The vendor's hardware layer appears by its effect on the pin configuration and the interrupt controller. In the game the kernel objects appear by their
  contract: semaphore values, and owner and count of the mutex.

  \<^bold>\<open>Not modelled.\<close> Signals, soft timers, the SMP scheduler, slab and memheap allocators and the priority
  message queue are not configured on this board. The shell, the file systems and the network
  are separate subsystems that the modelled operations do not read. Pipes, wait queues, condition variables
  and work queues have no client among the modelled parts. Hooks and debug output have no effect on the state. The context switch is processor code. The
  register tables of the LCD controllers are data, and the offsets of thick lines are floating point.
\<close>

end
